(* ===== verification/Prelude.thy ===== *)
theory Prelude
  imports Main "HOL-Library.Char_ord" "HOL-Library.List_Lexorder" "HOL-Library.Word"
begin

text \<open>
  Shared ground of the cshell development: the C types the modules use, the outcomes of
  \<open>malloc\<close> and of stream writes as explicit sequences, keyed linked lists (every table of
  the shell is one), and the two interfaces the tables implement.

  \<^item> A C string is a \<open>string\<close> (its bytes up to the terminator); a pointer that the code
    compares with \<open>NULL\<close> is an \<open>option\<close>. \<open>strcmp\<close> orders bytes as unsigned values, which is
    the lexicographic order of \<open>List_Lexorder\<close> over \<open>Char_ord\<close>.
  \<^item> \<open>unsigned\<close> is \<open>uint\<close>, 32 bits; \<open>size_t\<close> and \<open>long\<close> are 64 bits wide (LP64, the
    supported macOS and Linux builds).
  \<^item> A \<open>heap\<close> is the list of the outcomes of the coming \<open>malloc\<close> calls; when it is used up
    every further call succeeds. A statement for all heaps covers every finite pattern of
    allocation failures.
\<close>

unbundle bit_operations_syntax

subsection \<open>C types and constants\<close>

type_synonym uint = "32 word"
type_synonym heap = "bool list"

definition SIZE_MAX :: nat where
  "SIZE_MAX = 2 ^ 64 - 1"

datatype errno =
  EOK | EINVAL | ENOMEM | ENOENT | ENOTDIR | EACCES | ENAMETOOLONG | ELOOP | EINTR | EISDIR
  | EBADF | EOVERFLOW | EOTHER nat

text \<open>The fields of \<open>struct csh_error\<close> that the modelled modules set.\<close>

record csh_position =
  p_offset :: nat
  p_line :: nat
  p_column :: nat

definition no_position :: csh_position where
  "no_position = \<lparr>p_offset = 0, p_line = 0, p_column = 0\<rparr>"

record csh_error =
  message :: string
  system_errno :: errno
  status :: int
  argument_index :: nat
  position :: csh_position

definition no_error :: csh_error where
  "no_error = \<lparr>message = [], system_errno = EOK, status = 0, argument_index = 0,
     position = no_position\<rparr>"

text \<open>The shape of the code's mask checks: \<open>a & ~m\<close> is zero when \<open>m\<close> covers \<open>a\<close>.\<close>

lemma mask_covers_iff: "a AND NOT m = 0 \<longleftrightarrow> (\<forall>n. bit a n \<longrightarrow> bit m n)" for a m :: "'a::len word"
  by (auto simp: bit_eq_iff bit_simps dest: bit_imp_le_length)

fun malloc :: "heap \<Rightarrow> bool \<times> heap" where
  "malloc [] = (True, [])"
| "malloc (b # h) = (b, h)"

subsection \<open>Output streams\<close>

text \<open>A \<open>FILE *\<close> or descriptor: the bytes accepted so far, and the outcomes of the coming
  write calls (again: none left means success).\<close>

record stream =
  fbytes :: string
  ffaults :: "bool list"

definition fputs :: "string \<Rightarrow> stream \<Rightarrow> bool \<times> stream" where
  "fputs s f =
     (case malloc (ffaults f) of
        (False, r) \<Rightarrow> (False, f\<lparr>ffaults := r\<rparr>)
      | (True, r) \<Rightarrow> (True, f\<lparr>fbytes := fbytes f @ s, ffaults := r\<rparr>))"

lemma fputs_True: "fputs s f = (True, f') \<Longrightarrow> fbytes f' = fbytes f @ s"
  by (auto simp: fputs_def split: prod.splits bool.splits)

lemma fputs_reliable [simp]: "ffaults f = [] \<Longrightarrow> fputs s f = (True, f\<lparr>fbytes := fbytes f @ s\<rparr>)"
  by (simp add: fputs_def)

text \<open>The value a loop ends with, whether it returned early (\<open>Inl\<close>) or ran to its end.\<close>

definition outcome :: "'a + 'a \<Rightarrow> 'a" where
  "outcome x = (case x of Inl r \<Rightarrow> r | Inr r \<Rightarrow> r)"

lemma outcome_simps [simp]: "outcome (Inl r) = r" "outcome (Inr r) = r"
  by (simp_all add: outcome_def)

subsection \<open>Keyed linked lists\<close>

text \<open>
  Every table is a singly linked list searched by name from its head. \<open>lookup_by\<close> is the
  search loop, \<open>update_first\<close> the in-place change of the node found, \<open>remove_first\<close> its
  unlinking.
\<close>

abbreviation lookup_by :: "('e \<Rightarrow> 'k) \<Rightarrow> 'k \<Rightarrow> 'e list \<Rightarrow> 'e option" where
  "lookup_by key k \<equiv> find (\<lambda>x. key x = k)"

fun update_first :: "('e \<Rightarrow> bool) \<Rightarrow> ('e \<Rightarrow> 'e) \<Rightarrow> 'e list \<Rightarrow> 'e list" where
  "update_first P f [] = []"
| "update_first P f (x # xs) = (if P x then f x # xs else x # update_first P f xs)"

fun remove_first :: "('e \<Rightarrow> bool) \<Rightarrow> 'e list \<Rightarrow> 'e list" where
  "remove_first P [] = []"
| "remove_first P (x # xs) = (if P x then xs else x # remove_first P xs)"

lemma find_SomeD: "find P xs = Some x \<Longrightarrow> x \<in> set xs \<and> P x"
  by (induction xs) (auto split: if_splits)

lemma lookup_by_None_iff: "lookup_by key k xs = None \<longleftrightarrow> k \<notin> key ` set xs"
  by (induction xs) auto

lemma lookup_by_SomeD: "lookup_by key k xs = Some x \<Longrightarrow> x \<in> set xs \<and> key x = k"
  by (drule find_SomeD) simp

lemma lookup_by_key: "lookup_by key k xs = Some x \<Longrightarrow> key x = k"
  by (blast dest: lookup_by_SomeD)

lemma lookup_by_in_set:
  "distinct (map key xs) \<Longrightarrow> x \<in> set xs \<Longrightarrow> lookup_by key (key x) xs = Some x"
  by (induction xs) (force simp: image_iff)+

lemma lookup_by_append:
  "lookup_by key k (xs @ ys) =
     (case lookup_by key k xs of Some x \<Rightarrow> Some x | None \<Rightarrow> lookup_by key k ys)"
  by (induction xs) auto

lemma update_first_keys:
  "(\<And>x. key (f x) = key x) \<Longrightarrow> map key (update_first P f xs) = map key xs"
  by (induction xs) auto

lemma update_first_absent:
  "lookup_by key k xs = None \<Longrightarrow> update_first (\<lambda>x. key x = k) f xs = xs"
  by (induction xs) (auto split: if_splits)

lemma update_first_update_first:
  "(\<And>x. key (f x) = key x) \<Longrightarrow>
   update_first (\<lambda>x. key x = k) g (update_first (\<lambda>x. key x = k) f xs) =
   update_first (\<lambda>x. key x = k) (g \<circ> f) xs"
  by (induction xs) auto

lemma update_first_cong_found:
  "lookup_by key k xs = Some v \<Longrightarrow> f v = g v \<Longrightarrow>
   update_first (\<lambda>x. key x = k) f xs = update_first (\<lambda>x. key x = k) g xs"
  by (induction xs) (auto split: if_splits)

lemma lookup_update_first:
  assumes "\<And>x. key (f x) = key x"
  shows "lookup_by key k (update_first (\<lambda>x. key x = j) f xs) =
     (if k = j then map_option f (lookup_by key j xs) else lookup_by key k xs)"
  using assms by (induction xs) auto

lemma remove_first_keys: "map key (remove_first (\<lambda>x. key x = k) xs) = remove1 k (map key xs)"
  by (induction xs) auto

lemma set_remove_first_subset: "set (remove_first P xs) \<subseteq> set xs"
  by (induction xs) auto

lemma set_update_first_subset: "set (update_first P f xs) \<subseteq> set xs \<union> f ` {x \<in> set xs. P x}"
  by (induction xs) auto

lemma lookup_remove_first:
  assumes "distinct (map key xs)"
  shows "lookup_by key k (remove_first (\<lambda>x. key x = j) xs) =
     (if k = j then None else lookup_by key k xs)"
  using assms by (induction xs) (auto simp: lookup_by_None_iff image_iff)

lemma remove_first_absent:
  "lookup_by key k xs = None \<Longrightarrow> remove_first (\<lambda>x. key x = k) xs = xs"
  by (induction xs) (auto split: if_splits)

subsection \<open>The table interfaces\<close>

text \<open>
  What a client of a table relies on: \<open>put e\<close> makes the table answer \<open>e\<close> for the key of
  \<open>e\<close>, leaves every other key alone and keeps keys distinct.
\<close>

locale keyed_table =
  fixes key :: "'e \<Rightarrow> 'k" and put :: "'e \<Rightarrow> 'e list \<Rightarrow> 'e list"
  assumes put_lookup:
      "lookup_by key k (put e t) = (if k = key e then Some e else lookup_by key k t)"
    and put_distinct: "distinct (map key t) \<Longrightarrow> distinct (map key (put e t))"
    and put_set: "set (put e t) \<subseteq> insert e (set t)"
begin

lemma fold_put_lookup:
  "lookup_by key k (fold put es t) =
     (case lookup_by key k (rev es) of Some e \<Rightarrow> Some e | None \<Rightarrow> lookup_by key k t)"
proof (induction es arbitrary: t)
  case Nil
  show ?case by simp
next
  case (Cons e es)
  have "lookup_by key k (fold put es (put e t)) =
      (case lookup_by key k (rev es) of Some x \<Rightarrow> Some x | None \<Rightarrow> lookup_by key k (put e t))"
    by (rule Cons.IH)
  then show ?case
    by (auto simp: lookup_by_append put_lookup split: option.splits)
qed

lemma fold_put_distinct: "distinct (map key t) \<Longrightarrow> distinct (map key (fold put es t))"
  by (induction es arbitrary: t) (auto simp: put_distinct)

lemma put_all: "(\<forall>x\<in>set t. P x) \<Longrightarrow> P e \<Longrightarrow> \<forall>x\<in>set (put e t). P x"
  using put_set by fastforce

lemma put_last_wins: "lookup_by key (key e) (put e t) = Some e"
  by (simp add: put_lookup)

lemma put_other: "k \<noteq> key e \<Longrightarrow> lookup_by key k (put e t) = lookup_by key k t"
  by (simp add: put_lookup)

end

text \<open>
  A table whose \<open>put\<close> keeps a well-formed list in its own order: putting the entries of a
  well-formed table one after the other into an empty one rebuilds that very table. The
  deep copies of the shell state are made this way.
\<close>

locale ordered_table = keyed_table +
  fixes wf :: "'a list \<Rightarrow> bool"
  assumes wf_prefix: "wf (t @ [e]) \<Longrightarrow> wf t"
    and put_snoc: "wf (t @ [e]) \<Longrightarrow> put e t = t @ [e]"
    and wf_distinct: "wf t \<Longrightarrow> distinct (map key t)"
begin

lemma rebuild: "wf t \<Longrightarrow> fold put t [] = t"
proof (induction t rule: rev_induct)
  case Nil
  show ?case by simp
next
  case (snoc e t)
  then have "fold put t [] = t" by (blast intro: wf_prefix)
  with snoc.prems show ?case by (simp add: put_snoc)
qed

lemma wf_butlast: "wf t \<Longrightarrow> wf (butlast t)"
  by (cases t rule: rev_cases) (auto dest: wf_prefix)

end

subsection \<open>Replacing or adding a node\<close>

text \<open>The three ways the code links a new node: at the head, at the tail, in name order.\<close>

definition put_head :: "('e \<Rightarrow> 'k) \<Rightarrow> 'e \<Rightarrow> 'e list \<Rightarrow> 'e list" where
  "put_head key e t =
     (if lookup_by key (key e) t = None then e # t
      else update_first (\<lambda>x. key x = key e) (\<lambda>_. e) t)"

definition put_tail :: "('e \<Rightarrow> 'k) \<Rightarrow> 'e \<Rightarrow> 'e list \<Rightarrow> 'e list" where
  "put_tail key e t =
     (if lookup_by key (key e) t = None then t @ [e]
      else update_first (\<lambda>x. key x = key e) (\<lambda>_. e) t)"

lemma lookup_update_const:
  "lookup_by key k (update_first (\<lambda>x. key x = key e) (\<lambda>_. e) t) =
     (if k = key e then map_option (\<lambda>_. e) (lookup_by key k t) else lookup_by key k t)"
  by (induction t) auto

lemma keys_update_const: "map key (update_first (\<lambda>x. key x = key e) (\<lambda>_. e) t) = map key t"
  by (induction t) auto

lemma set_update_const: "set (update_first P (\<lambda>_. e) t) \<subseteq> insert e (set t)"
  by (induction t) auto

lemma put_head_lookup:
  "lookup_by key k (put_head key e t) = (if k = key e then Some e else lookup_by key k t)"
  by (auto simp: put_head_def lookup_update_const)

lemma put_tail_lookup:
  "lookup_by key k (put_tail key e t) = (if k = key e then Some e else lookup_by key k t)"
  by (auto simp: put_tail_def lookup_update_const lookup_by_append split: option.splits)

lemma put_head_distinct: "distinct (map key t) \<Longrightarrow> distinct (map key (put_head key e t))"
  by (auto simp: put_head_def keys_update_const lookup_by_None_iff)

lemma put_tail_distinct: "distinct (map key t) \<Longrightarrow> distinct (map key (put_tail key e t))"
  by (auto simp: put_tail_def keys_update_const lookup_by_None_iff)

lemma put_head_set: "set (put_head key e t) \<subseteq> insert e (set t)"
  by (auto simp: put_head_def dest: subsetD [OF set_update_const])

lemma put_tail_set: "set (put_tail key e t) \<subseteq> insert e (set t)"
  by (auto simp: put_tail_def dest: subsetD [OF set_update_const])

lemma put_tail_snoc: "distinct (map key (t @ [e])) \<Longrightarrow> put_tail key e t = t @ [e]"
  by (auto simp: put_tail_def lookup_by_None_iff)

lemmas put_head_laws = put_head_lookup put_head_distinct put_head_set
lemmas put_tail_laws = put_tail_lookup put_tail_distinct put_tail_set

end
