(* ===== verification/Alias.thy ===== *)
theory Alias
  imports Prelude
begin

text \<open>
  \<open>src/alias.c\<close>: the alias table and the \<open>alias\<close> and \<open>unalias\<close> handlers. The table is a
  linked list kept in \<open>strcmp\<close> order; \<open>None\<close> is the \<open>NULL\<close> table. A mutation returns
  \<open>None\<close> for 0 (error cleared) and \<open>Some e\<close> for -1 with \<open>e\<close> filled in.
\<close>

subsection \<open>Model\<close>

record alias_entry =
  aname :: string
  avalue :: string

type_synonym csh_aliases = "alias_entry list option"

definition alias_fail :: "string \<Rightarrow> errno \<Rightarrow> int \<Rightarrow> csh_error" where
  "alias_fail msg number st =
     \<lparr>message = msg, system_errno = number, status = st, argument_index = 0,
      position = no_position\<rparr>"

definition alias_byte :: "char \<Rightarrow> bool" where
  "alias_byte byte \<longleftrightarrow>
     (CHR ''a'' \<le> byte \<and> byte \<le> CHR ''z'') \<or> (CHR ''A'' \<le> byte \<and> byte \<le> CHR ''Z'') \<or>
     (CHR ''0'' \<le> byte \<and> byte \<le> CHR ''9'') \<or>
     byte = CHR ''!'' \<or> byte = CHR ''%'' \<or> byte = CHR '','' \<or> byte = CHR ''-'' \<or>
     byte = CHR ''@'' \<or> byte = CHR ''_''"

definition alias_valid_name :: "string \<Rightarrow> bool" where
  "alias_valid_name name \<longleftrightarrow> name \<noteq> [] \<and> list_all alias_byte name"

definition csh_alias_name_valid :: "string option \<Rightarrow> bool" where
  "csh_alias_name_valid name = (case name of None \<Rightarrow> False | Some n \<Rightarrow> alias_valid_name n)"

definition alias_copy_bytes :: "string \<Rightarrow> heap \<Rightarrow> string option \<times> heap" where
  "alias_copy_bytes text h =
     (case malloc h of (False, h) \<Rightarrow> (None, h) | (True, h) \<Rightarrow> (Some text, h))"

definition csh_aliases_create :: "heap \<Rightarrow> csh_error option \<times> csh_aliases \<times> heap" where
  "csh_aliases_create h =
     (case malloc h of
        (False, h) \<Rightarrow> (Some (alias_fail ''cannot allocate alias table'' ENOMEM 1), None, h)
      | (True, h) \<Rightarrow> (None, Some [], h))"

definition csh_aliases_clear :: "csh_aliases \<Rightarrow> csh_aliases" where
  "csh_aliases_clear al = (case al of None \<Rightarrow> None | Some _ \<Rightarrow> Some [])"

definition find_alias :: "alias_entry list \<Rightarrow> string \<Rightarrow> alias_entry option" where
  "find_alias t name = lookup_by aname name t"

definition csh_aliases_get :: "csh_aliases \<Rightarrow> string option \<Rightarrow> string option" where
  "csh_aliases_get al name =
     (case (al, name) of
        (Some t, Some n) \<Rightarrow>
          if \<not> csh_alias_name_valid name then None else map_option avalue (find_alias t n)
      | _ \<Rightarrow> None)"

text \<open>The insertion loop: past every node whose name is smaller.\<close>

fun link_alias :: "alias_entry \<Rightarrow> alias_entry list \<Rightarrow> alias_entry list" where
  "link_alias e [] = [e]"
| "link_alias e (x # xs) = (if aname x < aname e then x # link_alias e xs else e # x # xs)"

definition set_alias ::
  "csh_aliases \<Rightarrow> string option \<Rightarrow> string option \<Rightarrow> heap \<Rightarrow> csh_error option \<times> csh_aliases \<times> heap" where
  "set_alias al name value h =
     (case (al, name, value) of
        (Some t, Some n, Some v) \<Rightarrow>
          if \<not> alias_valid_name n
          then (Some (alias_fail ''invalid alias definition'' EINVAL 2), al, h)
          else
            (case alias_copy_bytes v h of
               (None, h) \<Rightarrow> (Some (alias_fail ''cannot allocate alias value'' ENOMEM 1), al, h)
             | (Some copy, h) \<Rightarrow>
                 (case find_alias t n of
                    Some _ \<Rightarrow>
                      (None, Some (update_first (\<lambda>x. aname x = n) (\<lambda>x. x\<lparr>avalue := copy\<rparr>) t), h)
                  | None \<Rightarrow>
                      (case malloc h of
                         (False, h) \<Rightarrow>
                           (Some (alias_fail ''cannot allocate alias definition'' ENOMEM 1), al, h)
                       | (True, h) \<Rightarrow>
                           (case alias_copy_bytes n h of
                              (None, h) \<Rightarrow>
                                (Some (alias_fail ''cannot allocate alias name'' ENOMEM 1), al, h)
                            | (Some nm, h) \<Rightarrow>
                                (None, Some (link_alias \<lparr>aname = nm, avalue = copy\<rparr> t), h)))))
      | _ \<Rightarrow> (Some (alias_fail ''invalid alias definition'' EINVAL 2), al, h))"

definition csh_aliases_set ::
  "csh_aliases \<Rightarrow> string option \<Rightarrow> string option \<Rightarrow> heap \<Rightarrow> csh_error option \<times> csh_aliases \<times> heap" where
  "csh_aliases_set = set_alias"

definition csh_aliases_unset :: "csh_aliases \<Rightarrow> string option \<Rightarrow> csh_error option \<times> csh_aliases" where
  "csh_aliases_unset al name =
     (case (al, name) of
        (Some t, Some n) \<Rightarrow>
          if \<not> csh_alias_name_valid name
          then (Some (alias_fail ''invalid alias name'' EINVAL 2), al)
          else (None, Some (remove_first (\<lambda>x. aname x = n) t))
      | _ \<Rightarrow> (Some (alias_fail ''invalid alias name'' EINVAL 2), al))"

text \<open>\<open>csh_aliases_clone\<close> sets every entry in turn; a failure destroys the partial copy.\<close>

fun clone_aliases ::
  "alias_entry list \<Rightarrow> csh_aliases \<Rightarrow> heap \<Rightarrow> csh_error option \<times> csh_aliases \<times> heap" where
  "clone_aliases [] out h = (None, out, h)"
| "clone_aliases (e # es) out h =
     (case csh_aliases_set out (Some (aname e)) (Some (avalue e)) h of
        (Some err, _, h) \<Rightarrow> (Some err, None, h)
      | (None, out, h) \<Rightarrow> clone_aliases es out h)"

definition csh_aliases_clone :: "csh_aliases \<Rightarrow> heap \<Rightarrow> csh_error option \<times> csh_aliases \<times> heap" where
  "csh_aliases_clone source h =
     (case source of
        None \<Rightarrow> (None, None, h)
      | Some t \<Rightarrow>
          (case csh_aliases_create h of
             (Some err, out, h) \<Rightarrow> (Some err, None, h)
           | (None, out, h) \<Rightarrow> clone_aliases t out h))"

subsubsection \<open>The handlers\<close>

text \<open>What a handler carries: the table, the allocation outcomes, both streams, the status so
  far and whether anything was printed. \<open>Inl\<close> is a \<open>return\<close> from the middle of a loop.\<close>

record alias_run =
  ar_table :: csh_aliases
  ar_heap :: heap
  ar_out :: stream
  ar_err :: stream
  ar_status :: int
  ar_printed :: bool

definition alias_valid_arguments :: "csh_aliases \<Rightarrow> string option list \<Rightarrow> bool" where
  "alias_valid_arguments al argv \<longleftrightarrow> al \<noteq> None \<and> 1 \<le> length argv \<and> None \<notin> set argv"

definition alias_diagnostic :: "string \<Rightarrow> string option \<Rightarrow> string \<Rightarrow> stream \<Rightarrow> stream" where
  "alias_diagnostic utility operand msg err =
     snd (fputs (case operand of
         None \<Rightarrow> utility @ '': '' @ msg @ [CHR 0x0A]
       | Some opn \<Rightarrow> utility @ '': '' @ opn @ '': '' @ msg @ [CHR 0x0A]) err)"

fun print_alias_value :: "string \<Rightarrow> stream \<Rightarrow> bool \<times> stream" where
  "print_alias_value [] out = (True, out)"
| "print_alias_value (c # cs) out =
     (case fputs (if c = CHR 0x27 then [CHR 0x27, CHR 0x5C, CHR 0x27, CHR 0x27] else [c]) out of
        (False, out) \<Rightarrow> (False, out)
      | (True, out) \<Rightarrow> print_alias_value cs out)"

definition print_alias :: "stream \<Rightarrow> string \<Rightarrow> string \<Rightarrow> bool \<times> stream" where
  "print_alias out name value =
     (case fputs (name @ [CHR ''='', CHR 0x27]) out of
        (False, out) \<Rightarrow> (False, out)
      | (True, out) \<Rightarrow>
          (case print_alias_value value out of
             (False, out) \<Rightarrow> (False, out)
           | (True, out) \<Rightarrow> fputs [CHR 0x27, CHR 0x0A] out))"

definition alias_write_failure :: "alias_run \<Rightarrow> alias_run" where
  "alias_write_failure r =
     r\<lparr>ar_err := alias_diagnostic ''alias'' None ''cannot write output'' (ar_err r), ar_status := 1\<rparr>"

fun list_aliases :: "alias_entry list \<Rightarrow> alias_run \<Rightarrow> alias_run + alias_run" where
  "list_aliases [] r = Inr r"
| "list_aliases (e # es) r =
     (case print_alias (ar_out r) (aname e) (avalue e) of
        (False, out) \<Rightarrow> Inl (alias_write_failure (r\<lparr>ar_out := out\<rparr>))
      | (True, out) \<Rightarrow> list_aliases es (r\<lparr>ar_out := out, ar_printed := True\<rparr>))"

definition alias_operand_error :: "string \<Rightarrow> string \<Rightarrow> string \<Rightarrow> alias_run \<Rightarrow> alias_run" where
  "alias_operand_error utility operand msg r =
     r\<lparr>ar_err := alias_diagnostic utility (Some operand) msg (ar_err r), ar_status := 1\<rparr>"

fun alias_operand :: "string \<Rightarrow> alias_run \<Rightarrow> alias_run + alias_run" where
  "alias_operand arg r =
     (if CHR ''='' \<in> set arg then
        (case set_alias (ar_table r) (Some (takeWhile (\<lambda>c. c \<noteq> CHR ''='') arg))
                (Some (tl (dropWhile (\<lambda>c. c \<noteq> CHR ''='') arg))) (ar_heap r) of
           (Some e, t, h) \<Rightarrow>
             Inr (alias_operand_error ''alias'' arg (message e) (r\<lparr>ar_table := t, ar_heap := h\<rparr>))
         | (None, t, h) \<Rightarrow> Inr (r\<lparr>ar_table := t, ar_heap := h\<rparr>))
      else if \<not> csh_alias_name_valid (Some arg) then
        Inr (alias_operand_error ''alias'' arg ''invalid alias name'' r)
      else
        (case csh_aliases_get (ar_table r) (Some arg) of
           None \<Rightarrow> Inr (alias_operand_error ''alias'' arg ''not found'' r)
         | Some value \<Rightarrow>
             (case print_alias (ar_out r) arg value of
                (False, out) \<Rightarrow> Inl (alias_write_failure (r\<lparr>ar_out := out\<rparr>))
              | (True, out) \<Rightarrow> Inr (r\<lparr>ar_out := out, ar_printed := True\<rparr>))))"

fun alias_operands :: "string list \<Rightarrow> alias_run \<Rightarrow> alias_run + alias_run" where
  "alias_operands [] r = Inr r"
| "alias_operands (a # as) r =
     (case alias_operand a r of Inl r \<Rightarrow> Inl r | Inr r \<Rightarrow> alias_operands as r)"

text \<open>The final \<open>fflush\<close> when anything was printed.\<close>

definition alias_finish :: "alias_run \<Rightarrow> alias_run" where
  "alias_finish r =
     (if ar_printed r then
        (case fputs [] (ar_out r) of
           (False, out) \<Rightarrow> alias_write_failure (r\<lparr>ar_out := out\<rparr>)
         | (True, out) \<Rightarrow> r\<lparr>ar_out := out\<rparr>)
      else r)"

text \<open>A word that begins an option: a dash and at least one more byte.\<close>

definition option_word :: "string \<Rightarrow> bool" where
  "option_word a \<longleftrightarrow> 2 \<le> length a \<and> hd a = CHR ''-''"

fun alias_options :: "string list \<Rightarrow> string + string list" where
  "alias_options [] = Inr []"
| "alias_options (a # as) =
     (if a = ''--'' then Inr as else if option_word a then Inl a else Inr (a # as))"

definition csh_builtin_alias ::
  "csh_aliases \<Rightarrow> string option list \<Rightarrow> heap \<Rightarrow> stream \<Rightarrow> stream \<Rightarrow> alias_run" where
  "csh_builtin_alias al argv h out err =
     (let r = \<lparr>ar_table = al, ar_heap = h, ar_out = out, ar_err = err, ar_status = 0,
               ar_printed = False\<rparr>
      in if \<not> alias_valid_arguments al argv then
           r\<lparr>ar_err := alias_diagnostic ''alias'' None ''invalid handler arguments'' err, ar_status := 2\<rparr>
         else
           (case alias_options (map the (tl argv)) of
              Inl a \<Rightarrow>
                r\<lparr>ar_err := alias_diagnostic ''alias'' (Some a) ''invalid option'' err, ar_status := 2\<rparr>
            | Inr args \<Rightarrow>
                (case (if args = [] then list_aliases (the al) r else Inr r) of
                   Inl r \<Rightarrow> r
                 | Inr r \<Rightarrow>
                     (case alias_operands args r of Inl r \<Rightarrow> r | Inr r \<Rightarrow> alias_finish r))))"

text \<open>\<open>unalias\<close>: option words, then operands. The option loop returns whether \<open>-a\<close> was seen
  and the operands left, or the option word that is invalid.\<close>

fun unalias_options :: "string list \<Rightarrow> bool \<Rightarrow> string + (bool \<times> string list)" where
  "unalias_options [] all = Inr (all, [])"
| "unalias_options (a # as) all =
     (if option_word a then
        (if a = ''--'' then Inr (all, as)
         else if list_all (\<lambda>x. x = CHR ''a'') (tl a) then unalias_options as True
         else Inl a)
      else Inr (all, a # as))"

definition unalias_operand :: "string \<Rightarrow> alias_run \<Rightarrow> alias_run" where
  "unalias_operand a r =
     (if \<not> csh_alias_name_valid (Some a) then
        alias_operand_error ''unalias'' a ''invalid alias name'' r
      else if csh_aliases_get (ar_table r) (Some a) = None then
        alias_operand_error ''unalias'' a ''not found'' r
      else r\<lparr>ar_table := snd (csh_aliases_unset (ar_table r) (Some a))\<rparr>)"

fun unalias_operands :: "string list \<Rightarrow> alias_run \<Rightarrow> alias_run" where
  "unalias_operands [] r = r"
| "unalias_operands (a # as) r = unalias_operands as (unalias_operand a r)"

definition unalias_usage :: "string option \<Rightarrow> string \<Rightarrow> alias_run \<Rightarrow> alias_run" where
  "unalias_usage operand msg r =
     r\<lparr>ar_err := alias_diagnostic ''unalias'' operand msg (ar_err r), ar_status := 2\<rparr>"

definition csh_builtin_unalias ::
  "csh_aliases \<Rightarrow> string option list \<Rightarrow> stream \<Rightarrow> stream \<Rightarrow> alias_run" where
  "csh_builtin_unalias al argv out err =
     (let r = \<lparr>ar_table = al, ar_heap = [], ar_out = out, ar_err = err, ar_status = 0,
               ar_printed = False\<rparr>
      in if \<not> alias_valid_arguments al argv
         then unalias_usage None ''invalid handler arguments'' r
         else
           (case unalias_options (map the (tl argv)) False of
              Inl a \<Rightarrow> unalias_usage (Some a) ''invalid option'' r
            | Inr (True, rest) \<Rightarrow>
                if rest \<noteq> [] then unalias_usage None ''-a does not accept operands'' r
                else r\<lparr>ar_table := csh_aliases_clear al\<rparr>
            | Inr (False, rest) \<Rightarrow>
                if rest = [] then unalias_usage None ''expected an alias name'' r
                else unalias_operands rest r))"

subsection \<open>The table\<close>

definition wf_alias_list :: "alias_entry list \<Rightarrow> bool" where
  "wf_alias_list t \<longleftrightarrow> sorted_wrt (<) (map aname t) \<and> (\<forall>e\<in>set t. alias_valid_name (aname e))"

definition wf_aliases :: "csh_aliases \<Rightarrow> bool" where
  "wf_aliases al \<longleftrightarrow> (case al of None \<Rightarrow> True | Some t \<Rightarrow> wf_alias_list t)"

text \<open>The effect of a successful definition: change the node of that name or link a new one.\<close>

definition put_alias :: "alias_entry \<Rightarrow> alias_entry list \<Rightarrow> alias_entry list" where
  "put_alias e t =
     (if lookup_by aname (aname e) t = None then link_alias e t
      else update_first (\<lambda>x. aname x = aname e) (\<lambda>_. e) t)"

lemma set_link_alias [simp]: "set (link_alias e t) = insert e (set t)"
  by (induction t) auto

lemma lookup_link_alias:
  "lookup_by aname k (link_alias e t) =
     (if k = aname e then (if lookup_by aname k (takeWhile (\<lambda>x. aname x < aname e) t) = None
        then Some e else lookup_by aname k t) else lookup_by aname k t)"
  by (induction t) auto

lemma lookup_takeWhile_less [simp]:
  "lookup_by aname (aname e) (takeWhile (\<lambda>x. aname x < aname e) t) = None"
  by (auto simp: lookup_by_None_iff dest: set_takeWhileD)

lemma distinct_link_alias:
  "distinct (map aname t) \<Longrightarrow> aname e \<notin> aname ` set t \<Longrightarrow> distinct (map aname (link_alias e t))"
  by (induction t) auto

lemma sorted_link_alias:
  "sorted_wrt (<) (map aname t) \<Longrightarrow> aname e \<notin> aname ` set t \<Longrightarrow>
   sorted_wrt (<) (map aname (link_alias e t))"
  by (induction t) (auto intro: order.strict_trans)

lemma link_alias_snoc: "\<forall>x\<in>set t. aname x < aname e \<Longrightarrow> link_alias e t = t @ [e]"
  by (induction t) auto

lemma put_alias_sorted:
  "sorted_wrt (<) (map aname t) \<Longrightarrow> sorted_wrt (<) (map aname (put_alias e t))"
  by (auto simp: put_alias_def keys_update_const lookup_by_None_iff sorted_link_alias)

interpretation alias_table: ordered_table aname put_alias "\<lambda>t. sorted_wrt (<) (map aname t)"
proof unfold_locales
  show "lookup_by aname k (put_alias e t) = (if k = aname e then Some e else lookup_by aname k t)"
    for k e t by (auto simp: put_alias_def lookup_update_const lookup_link_alias)
  show "distinct (map aname (put_alias e t))" if "distinct (map aname t)" for e t
    using that by (auto simp: put_alias_def keys_update_const lookup_by_None_iff distinct_link_alias)
  show "set (put_alias e t) \<subseteq> insert e (set t)" for e t
    by (auto simp: put_alias_def dest: subsetD [OF set_update_const])
  show "sorted_wrt (<) (map aname t)" if "sorted_wrt (<) (map aname (t @ [e]))" for t e
    using that by (simp add: sorted_wrt_append)
  show "put_alias e t = t @ [e]" if "sorted_wrt (<) (map aname (t @ [e]))" for t e
    using that by (force simp: put_alias_def sorted_wrt_append lookup_by_None_iff link_alias_snoc)
  show "distinct (map aname t)" if "sorted_wrt (<) (map aname t)" for t :: "alias_entry list"
    using that by (simp add: strict_sorted_iff)
qed

lemma wf_put_alias: "wf_alias_list t \<Longrightarrow> alias_valid_name (aname e) \<Longrightarrow> wf_alias_list (put_alias e t)"
  using alias_table.put_all [of t "\<lambda>e. alias_valid_name (aname e)" e]
  by (simp add: wf_alias_list_def put_alias_sorted)

lemma alias_copy_bytes_Some: "alias_copy_bytes s h = (Some x, h') \<Longrightarrow> x = s"
  by (auto simp: alias_copy_bytes_def split: prod.splits bool.splits)

lemma update_alias_value:
  "lookup_by aname n t = Some x \<Longrightarrow>
   update_first (\<lambda>x. aname x = n) (\<lambda>x. x\<lparr>avalue := v\<rparr>) t =
   update_first (\<lambda>x. aname x = n) (\<lambda>_. \<lparr>aname = n, avalue = v\<rparr>) t"
  by (rule update_first_cong_found [where v = x]) (auto dest: lookup_by_key)

lemma set_alias_error: "set_alias al name value h = (Some e, al', h') \<Longrightarrow> al' = al"
  by (auto simp: set_alias_def split: option.splits prod.splits bool.splits if_splits)

lemma set_alias_ok:
  assumes "set_alias al name value h = (None, al', h')"
  obtains t n v where "al = Some t" "name = Some n" "value = Some v" "alias_valid_name n"
    "al' = Some (put_alias \<lparr>aname = n, avalue = v\<rparr> t)"
  using assms
  by (auto simp: set_alias_def put_alias_def find_alias_def update_alias_value
      split: option.splits prod.splits bool.splits if_splits dest!: alias_copy_bytes_Some)

lemma set_alias_total:
  "alias_valid_name n \<Longrightarrow>
   \<exists>h'. set_alias (Some t) (Some n) (Some v) [] = (None, Some (put_alias \<lparr>aname = n, avalue = v\<rparr> t), h')"
  by (auto simp: set_alias_def put_alias_def find_alias_def alias_copy_bytes_def update_alias_value
      split: option.splits)

lemma set_alias_wf: "wf_aliases al \<Longrightarrow> set_alias al name value h = (e, al', h') \<Longrightarrow> wf_aliases al'"
  by (cases e) (auto dest: set_alias_error elim!: set_alias_ok simp: wf_aliases_def wf_put_alias)

lemma wf_remove_alias: "wf_alias_list t \<Longrightarrow> wf_alias_list (remove_first (\<lambda>x. aname x = n) t)"
  using set_remove_first_subset [of "\<lambda>x. aname x = n" t]
  by (auto simp: wf_alias_list_def remove_first_keys strict_sorted_iff sorted_remove1)

lemma csh_aliases_unset_wf: "wf_aliases al \<Longrightarrow> wf_aliases (snd (csh_aliases_unset al name))"
  by (auto simp: csh_aliases_unset_def wf_aliases_def wf_remove_alias split: option.splits)

lemma csh_aliases_clear_wf: "wf_aliases (csh_aliases_clear al)"
  by (auto simp: csh_aliases_clear_def wf_aliases_def wf_alias_list_def split: option.splits)

subsection \<open>Copying a table\<close>

lemma alias_entry_eta [simp]: "\<lparr>aname = aname e, avalue = avalue e\<rparr> = e"
  by (cases e) simp

lemma clone_aliases_ok:
  "clone_aliases es (Some t) h = (None, al', h') \<Longrightarrow> al' = Some (fold put_alias es t)"
  by (induction es arbitrary: t h)
    (auto simp: csh_aliases_set_def split: option.splits prod.splits elim!: set_alias_ok)

lemma csh_aliases_clone_ok:
  assumes "wf_aliases al" and "csh_aliases_clone al h = (None, al', h')"
  shows "al' = al"
proof (cases al)
  case None
  with assms show ?thesis by (simp add: csh_aliases_clone_def)
next
  case (Some t)
  with assms(2) obtain h1 where "clone_aliases t (Some []) h1 = (None, al', h')"
    by (auto simp: csh_aliases_clone_def csh_aliases_create_def split: prod.splits bool.splits)
  then have "al' = Some (fold put_alias t [])" by (rule clone_aliases_ok)
  with assms(1) Some show ?thesis
    by (simp add: wf_aliases_def wf_alias_list_def alias_table.rebuild)
qed

subsection \<open>Printing\<close>

text \<open>The reusable form of a value: its bytes with every single quote spelled \<^verbatim>\<open>'\''\<close>.\<close>

definition single_quoted :: "string \<Rightarrow> string" where
  "single_quoted v =
     concat (map (\<lambda>c. if c = CHR 0x27 then [CHR 0x27, CHR 0x5C, CHR 0x27, CHR 0x27] else [c]) v)"

text \<open>
  The quoting rules of the shell for a word without expansions, as a reader: outside quotes
  a backslash keeps the next byte and a single quote opens a region that ends at the next
  one; any other byte stands for itself. \<open>None\<close> is an unterminated quote.
\<close>

fun unquote :: "bool \<Rightarrow> string \<Rightarrow> string option" where
  "unquote inside [] = (if inside then None else Some [])"
| "unquote True (c # cs) =
     (if c = CHR 0x27 then unquote False cs else map_option (Cons c) (unquote True cs))"
| "unquote False (c # cs) =
     (if c = CHR 0x27 then unquote True cs
      else if c = CHR 0x5C then
        (case cs of [] \<Rightarrow> Some [c] | d # ds \<Rightarrow> map_option (Cons d) (unquote False ds))
      else map_option (Cons c) (unquote False cs))"

lemma unquote_single_quoted:
  "unquote True (single_quoted v @ CHR 0x27 # rest) = map_option ((@) v) (unquote False rest)"
proof (induction v)
  case Nil
  show ?case by (cases "unquote False rest") (auto simp: single_quoted_def)
next
  case (Cons c v)
  have "unquote True (single_quoted (c # v) @ CHR 0x27 # rest) =
      map_option (Cons c) (unquote True (single_quoted v @ CHR 0x27 # rest))"
    by (auto simp: single_quoted_def)
  with Cons.IH show ?case by (simp add: option.map_comp comp_def)
qed

lemma print_alias_value_bytes:
  "print_alias_value v out = (True, out') \<Longrightarrow> fbytes out' = fbytes out @ single_quoted v"
proof (induction v arbitrary: out)
  case Nil
  then show ?case by (simp add: single_quoted_def)
next
  case (Cons c v)
  then obtain o1 where "fputs (if c = CHR 0x27 then [CHR 0x27, CHR 0x5C, CHR 0x27, CHR 0x27] else [c]) out = (True, o1)"
    and "print_alias_value v o1 = (True, out')"
    by (auto split: prod.splits bool.splits)
  with Cons.IH [of o1] show ?case by (auto dest!: fputs_True simp: single_quoted_def)
qed

lemma print_alias_bytes:
  "print_alias out n v = (True, out') \<Longrightarrow>
   fbytes out' = fbytes out @ n @ ''='' @ [CHR 0x27] @ single_quoted v @ [CHR 0x27, CHR 0x0A]"
  by (auto simp: print_alias_def split: prod.splits bool.splits
      dest!: fputs_True print_alias_value_bytes)

lemma print_alias_value_reliable:
  "ffaults out = [] \<Longrightarrow> print_alias_value v out = (True, out\<lparr>fbytes := fbytes out @ single_quoted v\<rparr>)"
  by (induction v arbitrary: out) (auto simp: single_quoted_def)

lemma print_alias_reliable:
  "ffaults out = [] \<Longrightarrow>
   print_alias out n v =
     (True, out\<lparr>fbytes := fbytes out @ n @ ''='' @ [CHR 0x27] @ single_quoted v @ [CHR 0x27, CHR 0x0A]\<rparr>)"
  by (simp add: print_alias_def print_alias_value_reliable)

subsection \<open>The handlers keep the table well-formed\<close>

lemma list_aliases_table: "ar_table (outcome (list_aliases es r)) = ar_table r"
  by (induction es arbitrary: r)
    (auto simp: alias_write_failure_def split: prod.splits bool.splits)

lemma alias_operand_wf: "wf_aliases (ar_table r) \<Longrightarrow> wf_aliases (ar_table (outcome (alias_operand a r)))"
  by (auto simp: alias_operand_error_def alias_write_failure_def
      split: option.splits prod.splits bool.splits dest: set_alias_wf)

lemma alias_operands_wf:
  "wf_aliases (ar_table r) \<Longrightarrow> wf_aliases (ar_table (outcome (alias_operands as r)))"
proof (induction as arbitrary: r)
  case Nil
  then show ?case by simp
next
  case (Cons a as)
  from Cons.prems have wf: "wf_aliases (ar_table (outcome (alias_operand a r)))"
    by (rule alias_operand_wf)
  show ?case
  proof (cases "alias_operand a r")
    case (Inl r')
    with wf show ?thesis by (simp del: alias_operand.simps)
  next
    case (Inr r')
    with wf Cons.IH [of r'] show ?thesis by (simp del: alias_operand.simps)
  qed
qed

lemma alias_finish_table [simp]: "ar_table (alias_finish r) = ar_table r"
  by (auto simp: alias_finish_def alias_write_failure_def split: prod.splits bool.splits)

text \<open>Both ways out of the operand loop keep the table; the flush does not touch it.\<close>

lemma alias_operands_finish:
  "ar_table (case alias_operands args r of Inl r \<Rightarrow> r | Inr r \<Rightarrow> alias_finish r) =
   ar_table (outcome (alias_operands args r))"
  by (simp split: sum.splits)

lemma csh_builtin_alias_wf:
  assumes "wf_aliases al"
  shows "wf_aliases (ar_table (csh_builtin_alias al argv h out err))"
proof -
  let ?r = "\<lparr>ar_table = al, ar_heap = h, ar_out = out, ar_err = err, ar_status = 0, ar_printed = False\<rparr>"
  have listed: "wf_aliases (ar_table r')" if "list_aliases (the al) ?r = Inl r' \<or> list_aliases (the al) ?r = Inr r'" for r'
    using assms list_aliases_table [of "the al" ?r] that by auto
  have ops: "wf_aliases (ar_table (case alias_operands args r' of Inl r \<Rightarrow> r | Inr r \<Rightarrow> alias_finish r))"
    if "wf_aliases (ar_table r')" for args r'
    using alias_operands_wf [OF that, of args] by (simp add: alias_operands_finish)
  have "wf_aliases (ar_table ?r)" using assms by simp
  then have "wf_aliases (ar_table (case (if args = [] then list_aliases (the al) ?r else Inr ?r) of
      Inl r \<Rightarrow> r | Inr r \<Rightarrow> (case alias_operands args r of Inl r \<Rightarrow> r | Inr r \<Rightarrow> alias_finish r)))" for args
    using listed ops by (cases "list_aliases (the al) ?r") auto
  with assms show ?thesis
    by (simp add: csh_builtin_alias_def Let_def split: sum.split)
qed

lemma unalias_operands_wf: "wf_aliases (ar_table r) \<Longrightarrow> wf_aliases (ar_table (unalias_operands as r))"
  by (induction as arbitrary: r) (auto simp: unalias_operand_def alias_operand_error_def csh_aliases_unset_wf)

lemma csh_builtin_unalias_wf:
  "wf_aliases al \<Longrightarrow> wf_aliases (ar_table (csh_builtin_unalias al argv out err))"
  by (auto simp: csh_builtin_unalias_def unalias_usage_def Let_def csh_aliases_clear_wf
      unalias_operands_wf split: sum.splits bool.splits)

subsection \<open>What the handlers do\<close>

lemma alias_byte_plain: "alias_byte c \<Longrightarrow> c \<noteq> CHR 0x27 \<and> c \<noteq> CHR 0x5C \<and> c \<noteq> CHR ''=''"
  by (auto simp: alias_byte_def)

lemma unquote_name:
  "list_all alias_byte n \<Longrightarrow> unquote False (n @ rest) = map_option ((@) n) (unquote False rest)"
proof (induction n)
  case Nil
  show ?case by (simp add: option.map_ident)
next
  case (Cons c n)
  then have "c \<noteq> CHR 0x27" "c \<noteq> CHR 0x5C" by (auto dest: alias_byte_plain)
  with Cons show ?case by (simp add: option.map_comp comp_def)
qed

definition alias_word :: "alias_entry \<Rightarrow> string" where
  "alias_word e = aname e @ ''='' @ avalue e"

definition alias_line :: "alias_entry \<Rightarrow> string" where
  "alias_line e = aname e @ ''='' @ [CHR 0x27] @ single_quoted (avalue e) @ [CHR 0x27]"

lemma unquote_alias_line:
  "alias_valid_name (aname e) \<Longrightarrow> unquote False (alias_line e) = Some (alias_word e)"
  by (simp add: alias_line_def alias_word_def alias_valid_name_def unquote_name unquote_single_quoted)

lemma alias_word_split:
  assumes "alias_valid_name (aname e)"
  shows "takeWhile (\<lambda>c. c \<noteq> CHR ''='') (alias_word e) = aname e"
    and "tl (dropWhile (\<lambda>c. c \<noteq> CHR ''='') (alias_word e)) = avalue e"
    and "CHR ''='' \<in> set (alias_word e)"
proof -
  have "\<forall>c\<in>set (aname e). c \<noteq> CHR ''=''"
    using assms alias_byte_plain by (auto simp: alias_valid_name_def list_all_iff)
  then show "takeWhile (\<lambda>c. c \<noteq> CHR ''='') (alias_word e) = aname e"
    and "tl (dropWhile (\<lambda>c. c \<noteq> CHR ''='') (alias_word e)) = avalue e"
    and "CHR ''='' \<in> set (alias_word e)"
    by (auto simp: alias_word_def takeWhile_append2 dropWhile_append2)
qed

lemma set_alias_reliable:
  "alias_valid_name n \<Longrightarrow>
   set_alias (Some t) (Some n) (Some v) [] = (None, Some (put_alias \<lparr>aname = n, avalue = v\<rparr> t), [])"
  by (auto simp: set_alias_def put_alias_def find_alias_def alias_copy_bytes_def update_alias_value
      split: option.splits)

lemma alias_operands_define:
  "\<forall>e\<in>set es. alias_valid_name (aname e) \<Longrightarrow> ar_heap r = [] \<Longrightarrow> ar_table r = Some t \<Longrightarrow>
   alias_operands (map alias_word es) r = Inr (r\<lparr>ar_table := Some (fold put_alias es t)\<rparr>)"
proof (induction es arbitrary: r t)
  case Nil
  then show ?case by simp
next
  case (Cons e es)
  have "alias_operand (alias_word e) r = Inr (r\<lparr>ar_table := Some (put_alias e t)\<rparr>)"
    using Cons.prems by (simp add: alias_word_split set_alias_reliable)
  with Cons.prems show ?case
    using Cons.IH [of "r\<lparr>ar_table := Some (put_alias e t)\<rparr>" "put_alias e t"] by simp
qed

lemma list_aliases_reliable:
  "ffaults (ar_out r) = [] \<Longrightarrow>
   \<exists>p. list_aliases es r =
     Inr (r\<lparr>ar_out := (ar_out r)\<lparr>fbytes := fbytes (ar_out r) @ concat (map (\<lambda>e. alias_line e @ [CHR 0x0A]) es)\<rparr>,
           ar_printed := p\<rparr>)"
proof (induction es arbitrary: r)
  case Nil
  show ?case by (rule exI [where x = "ar_printed r"]) simp
next
  case (Cons e es)
  let ?r = "r\<lparr>ar_out := (ar_out r)\<lparr>fbytes := fbytes (ar_out r) @ alias_line e @ [CHR 0x0A]\<rparr>, ar_printed := True\<rparr>"
  have "list_aliases (e # es) r = list_aliases es ?r"
    using Cons.prems by (simp add: print_alias_reliable alias_line_def)
  with Cons.IH [of ?r] Cons.prems show ?case by simp
qed

lemma alias_listing_output:
  assumes "ffaults out = []"
  shows "fbytes (ar_out (csh_builtin_alias (Some t) [Some cmd] h out err)) =
      fbytes out @ concat (map (\<lambda>e. alias_line e @ [CHR 0x0A]) t)"
proof -
  let ?r = "\<lparr>ar_table = Some t, ar_heap = h, ar_out = out, ar_err = err, ar_status = 0, ar_printed = False\<rparr>"
  obtain p where "list_aliases t ?r =
      Inr (?r\<lparr>ar_out := out\<lparr>fbytes := fbytes out @ concat (map (\<lambda>e. alias_line e @ [CHR 0x0A]) t)\<rparr>, ar_printed := p\<rparr>)"
    using list_aliases_reliable [of ?r t] assms by auto
  with assms show ?thesis
    by (simp add: csh_builtin_alias_def alias_valid_arguments_def alias_finish_def)
qed

lemma unalias_operands_get:
  "wf_aliases (ar_table r) \<Longrightarrow> ar_table r \<noteq> None \<Longrightarrow>
   csh_aliases_get (ar_table (unalias_operands ns r)) (Some m) =
     (if m \<in> set ns then None else csh_aliases_get (ar_table r) (Some m))"
proof (induction ns arbitrary: r)
  case Nil
  then show ?case by simp
next
  case (Cons n ns)
  obtain t where t: "ar_table r = Some t" and d: "distinct (map aname t)"
    using Cons.prems by (auto simp: wf_aliases_def wf_alias_list_def alias_table.wf_distinct)
  have wf: "wf_aliases (ar_table (unalias_operand n r))" "ar_table (unalias_operand n r) \<noteq> None"
    using Cons.prems t csh_aliases_unset_wf [OF Cons.prems(1), of "Some n"]
    by (auto simp: unalias_operand_def alias_operand_error_def csh_aliases_unset_def)
  have "csh_aliases_get (ar_table (unalias_operand n r)) (Some m) =
      (if m = n then None else csh_aliases_get (ar_table r) (Some m))"
    using t by (auto simp: unalias_operand_def alias_operand_error_def csh_aliases_get_def
        csh_aliases_unset_def csh_alias_name_valid_def find_alias_def lookup_remove_first [OF d])
  with Cons.IH [OF wf] show ?case by auto
qed

subsection \<open>Properties\<close>

text \<open>
  C21: a definition that succeeds makes the table answer the new value for that name and what
  it answered before for every other name; a definition that fails, for an invalid name or
  at any of its allocations, leaves the table as it was. Tables stay sorted with valid names.
\<close>

theorem alias_set_get:
  assumes "wf_aliases al" and "csh_aliases_set al (Some n) (Some v) h = (e, al', h')"
  shows "wf_aliases al' \<and>
    (case e of
       Some _ \<Rightarrow> al' = al
     | None \<Rightarrow> \<forall>m. csh_aliases_get al' (Some m) =
                 (if m = n then Some v else csh_aliases_get al (Some m)))"
proof (cases e)
  case (Some err)
  with assms show ?thesis by (auto simp: csh_aliases_set_def dest: set_alias_error)
next
  case None
  with assms have ok: "set_alias al (Some n) (Some v) h = (None, al', h')"
    by (simp add: csh_aliases_set_def)
  then obtain t where "al = Some t" "alias_valid_name n"
      "al' = Some (put_alias \<lparr>aname = n, avalue = v\<rparr> t)"
    by (auto elim: set_alias_ok)
  with None set_alias_wf [OF assms(1) ok] show ?thesis
    by (auto simp: csh_aliases_get_def csh_alias_name_valid_def find_alias_def alias_table.put_lookup)
qed

theorem alias_set_get_witness:
  "\<exists>al'. csh_aliases_set (Some []) (Some ''ll'') (Some ''ls -l'') [] = (None, al', []) \<and>
     csh_aliases_get al' (Some ''ll'') = Some ''ls -l'' \<and> wf_aliases al'"
proof -
  have wf: "wf_aliases (Some [])" by (simp add: wf_aliases_def wf_alias_list_def)
  have "csh_aliases_set (Some []) (Some ''ll'') (Some ''ls -l'') [] =
      (None, Some [\<lparr>aname = ''ll'', avalue = ''ls -l''\<rparr>], [])"
    by (simp add: csh_aliases_set_def set_alias_def alias_valid_name_def alias_byte_def
        alias_copy_bytes_def find_alias_def)
  from alias_set_get [OF wf this] this show ?thesis by simp
qed

text \<open>
  C20: what \<open>alias\<close> prints can be read back. With a working stream the listing is one line per
  definition in name order; the shell's quoting rules turn every line into the word
  \<open>name=value\<close>; and \<open>alias --\<close> with those words on an empty table returns 0 and rebuilds the
  very same table.
\<close>

theorem alias_listing_reinput:
  assumes "wf_aliases (Some t)" and "ffaults out = []" and "t \<noteq> []"
  shows "fbytes (ar_out (csh_builtin_alias (Some t) [Some ''alias''] h out err)) =
           fbytes out @ concat (map (\<lambda>e. alias_line e @ [CHR 0x0A]) t) \<and>
         map (unquote False) (map alias_line t) = map (Some \<circ> alias_word) t \<and>
         ar_table (csh_builtin_alias (Some []) (map Some ([''alias'', ''--''] @ map alias_word t)) [] out err) = Some t \<and>
         ar_status (csh_builtin_alias (Some []) (map Some ([''alias'', ''--''] @ map alias_word t)) [] out err) = 0"
proof -
  have valid: "\<forall>e\<in>set t. alias_valid_name (aname e)" and sorted: "sorted_wrt (<) (map aname t)"
    using assms(1) by (auto simp: wf_aliases_def wf_alias_list_def)
  have listing: "fbytes (ar_out (csh_builtin_alias (Some t) [Some ''alias''] h out err)) =
      fbytes out @ concat (map (\<lambda>e. alias_line e @ [CHR 0x0A]) t)"
    using assms(2) by (rule alias_listing_output)
  let ?r = "\<lparr>ar_table = Some [], ar_heap = [], ar_out = out, ar_err = err, ar_status = 0, ar_printed = False\<rparr>"
  have "alias_operands (map alias_word t) ?r = Inr (?r\<lparr>ar_table := Some t\<rparr>)"
    using alias_operands_define [OF valid, of ?r "[]"] alias_table.rebuild [OF sorted] by simp
  then have "csh_builtin_alias (Some []) (map Some ([''alias'', ''--''] @ map alias_word t)) [] out err =
      ?r\<lparr>ar_table := Some t\<rparr>"
    using assms(3)
    by (simp add: csh_builtin_alias_def Let_def alias_valid_arguments_def alias_finish_def comp_def image_iff)
  with listing valid show ?thesis by (simp add: unquote_alias_line)
qed

theorem alias_listing_reinput_witness:
  "ar_table (csh_builtin_alias (Some []) (map Some ([''alias'', ''--''] @ map alias_word
     [\<lparr>aname = ''ll'', avalue = [CHR 0x27]\<rparr>])) [] \<lparr>fbytes = [], ffaults = []\<rparr> \<lparr>fbytes = [], ffaults = []\<rparr>) =
     Some [\<lparr>aname = ''ll'', avalue = [CHR 0x27]\<rparr>]"
proof -
  have "wf_aliases (Some [\<lparr>aname = ''ll'', avalue = [CHR 0x27]\<rparr>])"
    by (simp add: wf_aliases_def wf_alias_list_def alias_valid_name_def alias_byte_def)
  from alias_listing_reinput [OF this, of "\<lparr>fbytes = [], ffaults = []\<rparr>"] show ?thesis by simp
qed

text \<open>
  \<open>unalias\<close> with operands (no option word first) removes exactly the definitions named by
  its operands, including after an operand that fails, and keeps every other definition and
  the well-formedness of the table.
\<close>

theorem unalias_removes_operands:
  assumes "wf_aliases (Some t)" and "ns \<noteq> []" and "\<not> option_word (hd ns)"
  shows "csh_aliases_get (ar_table (csh_builtin_unalias (Some t) (map Some (cmd # ns)) out err)) (Some m) =
      (if m \<in> set ns then None else csh_aliases_get (Some t) (Some m)) \<and>
    wf_aliases (ar_table (csh_builtin_unalias (Some t) (map Some (cmd # ns)) out err))"
proof -
  have "unalias_options ns False = Inr (False, ns)"
    using assms(2,3) by (cases ns) auto
  with assms show ?thesis
    by (auto simp: csh_builtin_unalias_def alias_valid_arguments_def comp_def unalias_operands_get
        intro: unalias_operands_wf)
qed

theorem unalias_removes_operands_witness:
  "csh_aliases_get (ar_table (csh_builtin_unalias (Some [\<lparr>aname = ''a'', avalue = ''b''\<rparr>])
     (map Some [''unalias'', ''zz'', ''a'']) \<lparr>fbytes = [], ffaults = []\<rparr> \<lparr>fbytes = [], ffaults = []\<rparr>)) (Some ''a'') = None"
proof -
  have "wf_aliases (Some [\<lparr>aname = ''a'', avalue = ''b''\<rparr>])"
    by (simp add: wf_aliases_def wf_alias_list_def alias_valid_name_def alias_byte_def)
  from unalias_removes_operands [OF this, of "[''zz'', ''a'']"] show ?thesis
    by (simp add: option_word_def)
qed

end
