(* ===== verification/Input.thy ===== *)
theory Input
  imports Prelude
begin

text \<open>
  \<open>src/input.c\<close>: physical-line input sources. An input is a copied command string or a
  descriptor. What the system answers is explicit: the answers of \<open>read\<close> (and of the wait
  hook in front of it) are a list of events, those of the end-of-file hook a list of
  booleans, and \<open>open\<close>, \<open>fstat\<close> and \<open>fcntl\<close> answer from records. The list of live inputs
  that \<open>csh_input_reserve_begin\<close> walks, and descriptor reservations, are not modelled.
\<close>

subsection \<open>Model\<close>

record csh_input =
  in_name :: string
  in_text :: "string option"
  in_text_offset :: nat
  in_fd :: int
  in_capacity :: nat
  in_position :: csh_position
  in_ended :: bool
  in_failure :: csh_error
  in_wait_hook :: bool
  in_eof_hook :: bool

datatype read_event = Byte char | ReadEnd | Fault errno

record input_world =
  iw_heap :: heap
  iw_reads :: "read_event list"
  iw_eof :: "bool list"

definition first_position :: csh_position where
  "first_position = \<lparr>p_offset = 0, p_line = 1, p_column = 1\<rparr>"

definition input_fail :: "string \<Rightarrow> errno \<Rightarrow> int \<Rightarrow> csh_error" where
  "input_fail msg number st =
     no_error\<lparr>message := msg, system_errno := number, status := st,
       position := first_position\<rparr>"

definition allocate_input :: "string \<Rightarrow> heap \<Rightarrow> (csh_error + csh_input) \<times> heap" where
  "allocate_input name h =
     (case malloc h of
        (False, h) \<Rightarrow> (Inl (input_fail ''cannot allocate input source'' ENOMEM 1), h)
      | (True, h) \<Rightarrow>
          (case malloc h of
             (False, h) \<Rightarrow> (Inl (input_fail ''cannot allocate source name'' ENOMEM 1), h)
           | (True, h) \<Rightarrow>
               (Inr \<lparr>in_name = name, in_text = None, in_text_offset = 0, in_fd = -1,
                     in_capacity = 0, in_position = first_position, in_ended = False,
                     in_failure = no_error, in_wait_hook = False, in_eof_hook = False\<rparr>, h)))"

definition csh_input_from_string ::
  "string option \<Rightarrow> string option \<Rightarrow> heap \<Rightarrow> (csh_error + csh_input) \<times> heap" where
  "csh_input_from_string text name h =
     (case (text, name) of
        (Some t, Some n) \<Rightarrow>
          (case allocate_input n h of
             (Inl e, h) \<Rightarrow> (Inl e, h)
           | (Inr i, h) \<Rightarrow>
               (case malloc h of
                  (False, h) \<Rightarrow> (Inl (input_fail ''cannot allocate command string'' ENOMEM 1), h)
                | (True, h) \<Rightarrow> (Inr (i\<lparr>in_text := Some t\<rparr>), h)))
      | _ \<Rightarrow> (Inl (input_fail ''invalid string input'' EINVAL 2), h))"

text \<open>A system call retried while it is interrupted: the first answer that is not \<open>EINTR\<close>.
  \<open>None\<close>: the answers end before that, the call never returns.\<close>

fun retry_eintr :: "(errno + 'a) list \<Rightarrow> (errno + 'a) option" where
  "retry_eintr [] = None"
| "retry_eintr (x # xs) = (if x = Inl EINTR then retry_eintr xs else Some x)"

record file_answers =
  fa_open :: "(errno + int) list"
  fa_fstat :: "errno + bool"
  fa_dup :: "(errno + int) list"

definition duplicate_fd :: "(errno + int) list \<Rightarrow> (errno + int) option" where
  "duplicate_fd answers = retry_eintr answers"

definition csh_input_from_file ::
  "string option \<Rightarrow> file_answers \<Rightarrow> heap \<Rightarrow> ((csh_error + csh_input) \<times> heap) option" where
  "csh_input_from_file path os h =
     (case path of
        None \<Rightarrow> Some (Inl (input_fail ''invalid script path'' EINVAL 2), h)
      | Some p \<Rightarrow>
          (case allocate_input p h of
             (Inl e, h) \<Rightarrow> Some (Inl e, h)
           | (Inr i, h) \<Rightarrow>
               (case retry_eintr (fa_open os) of
                  None \<Rightarrow> None
                | Some (Inl e) \<Rightarrow>
                    Some (Inl (input_fail ''cannot open script'' e
                      (if e = ENOENT \<or> e = ENOTDIR then 127 else 1)), h)
                | Some (Inr fd) \<Rightarrow>
                    (case fa_fstat os of
                       Inl e \<Rightarrow> Some (Inl (input_fail ''cannot inspect script'' e 1), h)
                     | Inr True \<Rightarrow> Some (Inl (input_fail ''script is a directory'' EISDIR 1), h)
                     | Inr False \<Rightarrow>
                         (case duplicate_fd (fa_dup os) of
                            None \<Rightarrow> None
                          | Some (Inl e) \<Rightarrow>
                              Some (Inl (input_fail ''cannot retain script descriptor'' e 1), h)
                          | Some (Inr fd) \<Rightarrow> Some (Inr (i\<lparr>in_fd := fd\<rparr>), h))))))"

text \<open>The answers about the shell's standard input: \<open>fstat\<close> (is it a FIFO), \<open>F_GETFL\<close> (is
  \<open>O_NONBLOCK\<close> set), \<open>isatty\<close>, and the failure of \<open>F_SETFL\<close>, if any. The result tells the
  error, or whether \<open>O_NONBLOCK\<close> was cleared.\<close>

record stdin_answers =
  sa_fstat :: "errno + bool"
  sa_getfl :: "errno + bool"
  sa_tty :: bool
  sa_setfl :: "errno option"

definition csh_input_prepare_stdin :: "stdin_answers \<Rightarrow> csh_error + bool" where
  "csh_input_prepare_stdin os =
     (case sa_fstat os of
        Inl e \<Rightarrow> if e = EBADF then Inr False
                 else Inl (input_fail ''cannot inspect input descriptor'' e 1)
      | Inr fifo \<Rightarrow>
          (case sa_getfl os of
             Inl e \<Rightarrow> Inl (input_fail ''cannot inspect input descriptor'' e 1)
           | Inr nonblock \<Rightarrow>
               if nonblock \<and> (fifo \<or> sa_tty os) then
                 (case sa_setfl os of
                    Some e \<Rightarrow> Inl (input_fail ''cannot enable blocking input'' e 1)
                  | None \<Rightarrow> Inr True)
               else Inr False))"

definition csh_input_from_fd ::
  "string option \<Rightarrow> (errno + int) list \<Rightarrow> stdin_answers \<Rightarrow> heap \<Rightarrow>
   ((csh_error + csh_input) \<times> heap) option" where
  "csh_input_from_fd name dup os h =
     (case name of
        None \<Rightarrow> Some (Inl (input_fail ''invalid input name'' EINVAL 2), h)
      | Some n \<Rightarrow>
          (case allocate_input n h of
             (Inl e, h) \<Rightarrow> Some (Inl e, h)
           | (Inr i, h) \<Rightarrow>
               (case duplicate_fd dup of
                  None \<Rightarrow> None
                | Some (Inl e) \<Rightarrow>
                    Some (Inl (input_fail ''cannot duplicate input descriptor'' e 1), h)
                | Some (Inr fd) \<Rightarrow>
                    (case csh_input_prepare_stdin os of
                       Inl e \<Rightarrow> Some (Inl e, h)
                     | Inr _ \<Rightarrow> Some (Inr (i\<lparr>in_fd := fd\<rparr>), h)))))"

subsubsection \<open>Reading a line\<close>

text \<open>The doubling loop of \<open>reserve\<close>. It starts from at least 128, so 0 does not occur.\<close>

function grow_capacity :: "nat \<Rightarrow> nat \<Rightarrow> nat" where
  "grow_capacity capacity needed =
     (if needed \<le> capacity \<or> capacity = 0 then capacity
      else if SIZE_MAX div 2 < capacity then needed
      else grow_capacity (capacity * 2) needed)"
  by pat_completeness auto
termination
  by (relation "measure (\<lambda>(capacity, needed). needed - capacity)") auto

declare grow_capacity.simps [simp del]

definition reserve :: "csh_input \<Rightarrow> nat \<Rightarrow> heap \<Rightarrow> bool \<times> csh_input \<times> heap" where
  "reserve i needed h =
     (if needed \<le> in_capacity i then (True, i, h)
      else
        (case malloc h of
           (False, h) \<Rightarrow> (False, i, h)
         | (True, h) \<Rightarrow>
             (True, i\<lparr>in_capacity :=
                grow_capacity (if in_capacity i = 0 then 128 else in_capacity i) needed\<rparr>, h)))"

fun read_byte :: "bool \<Rightarrow> read_event list \<Rightarrow> (errno + char option) \<times> read_event list" where
  "read_byte hook [] = (Inr None, [])"
| "read_byte hook (Byte b # es) = (Inr (Some b), es)"
| "read_byte hook (ReadEnd # es) = (Inr None, es)"
| "read_byte hook (Fault e # es) =
     (if e = EINTR \<and> \<not> hook then read_byte hook es else (Inl e, es))"

definition next_byte ::
  "csh_input \<Rightarrow> input_world \<Rightarrow> (errno + char option) \<times> csh_input \<times> input_world" where
  "next_byte i w =
     (case in_text i of
        Some t \<Rightarrow>
          if length t \<le> in_text_offset i then (Inr None, i, w)
          else (Inr (Some (t ! in_text_offset i)), i\<lparr>in_text_offset := in_text_offset i + 1\<rparr>, w)
      | None \<Rightarrow>
          (case read_byte (in_wait_hook i) (iw_reads w) of
             (r, es) \<Rightarrow> (r, i, w\<lparr>iw_reads := es\<rparr>)))"

datatype csh_input_result =
  CSH_INPUT_ERROR | CSH_INPUT_EOF | CSH_INPUT_LINE | CSH_INPUT_INTERRUPTED

record csh_input_line =
  il_data :: string
  il_start :: csh_position
  il_end :: csh_position

definition no_line :: csh_input_line where
  "no_line = \<lparr>il_data = [], il_start = no_position, il_end = no_position\<rparr>"

type_synonym read_outcome =
  "csh_input_result \<times> csh_input_line \<times> csh_error \<times> csh_input \<times> input_world"

definition read_failure ::
  "csh_input \<Rightarrow> input_world \<Rightarrow> string \<Rightarrow> errno \<Rightarrow> int \<Rightarrow> read_outcome" where
  "read_failure i w msg number st =
     (let e = (input_fail msg number st)\<lparr>position := in_position i\<rparr>
      in (CSH_INPUT_ERROR, no_line, e, i\<lparr>in_failure := e, in_capacity := 0\<rparr>, w))"

definition advance_position :: "char \<Rightarrow> csh_position \<Rightarrow> csh_position" where
  "advance_position b p =
     (if b = CHR 0x0A
      then \<lparr>p_offset = p_offset p + 1, p_line = p_line p + 1, p_column = 1\<rparr>
      else \<lparr>p_offset = p_offset p + 1, p_line = p_line p, p_column = p_column p + 1\<rparr>)"

definition ask_eof_hook :: "csh_input \<Rightarrow> input_world \<Rightarrow> bool \<times> input_world" where
  "ask_eof_hook i w =
     (if \<not> in_eof_hook i then (False, w)
      else case iw_eof w of [] \<Rightarrow> (False, w) | b # bs \<Rightarrow> (b, w\<lparr>iw_eof := bs\<rparr>))"

definition input_measure :: "csh_input \<Rightarrow> input_world \<Rightarrow> nat" where
  "input_measure i w =
     (case in_text i of Some t \<Rightarrow> length t - in_text_offset i | None \<Rightarrow> length (iw_reads w)) +
     length (iw_eof w)"

lemma read_byte_shorter:
  "read_byte hook es = (Inr (Some b), es') \<Longrightarrow> length es' < length es"
  by (induction hook es rule: read_byte.induct) (auto split: if_splits)

lemma read_byte_length: "read_byte hook es = (r, es') \<Longrightarrow> length es' \<le> length es"
  by (induction hook es rule: read_byte.induct) (auto split: if_splits)

lemma next_byte_measure:
  "next_byte i w = (Inr (Some b), i', w') \<Longrightarrow> input_measure i' w' < input_measure i w"
  by (auto simp: next_byte_def input_measure_def dest: read_byte_shorter
      split: option.splits if_splits prod.splits)

lemma next_byte_measure_le:
  "next_byte i w = (r, i', w') \<Longrightarrow> input_measure i' w' \<le> input_measure i w"
  by (auto simp: next_byte_def input_measure_def dest: read_byte_length
      split: option.splits if_splits prod.splits)

lemma ask_eof_hook_measure:
  "ask_eof_hook i w = (True, w') \<Longrightarrow> input_measure i w' < input_measure i w"
  by (auto simp: ask_eof_hook_def input_measure_def split: list.splits if_splits option.splits)

lemma input_measure_simps [simp]:
  "input_measure (i\<lparr>in_position := p\<rparr>) w = input_measure i w"
  "input_measure (i\<lparr>in_capacity := c\<rparr>) w = input_measure i w"
  "input_measure i (w\<lparr>iw_heap := h\<rparr>) = input_measure i w"
  by (simp_all add: input_measure_def split: option.split)

lemma reserve_measure: "reserve i n h = (r, i', h') \<Longrightarrow> input_measure i' w = input_measure i w"
  by (auto simp: reserve_def split: if_splits prod.splits bool.splits)

lemma read_step_measure:
  assumes "(True, i1, h1) = reserve i n (iw_heap w)"
  shows "(Inr (Some b), i2, w2) = next_byte i1 (w\<lparr>iw_heap := h1\<rparr>) \<Longrightarrow>
      input_measure i2 w2 < input_measure i w"
    and "(Inr None, i2, w2) = next_byte i1 (w\<lparr>iw_heap := h1\<rparr>) \<Longrightarrow>
      (True, w3) = ask_eof_hook i2 w2 \<Longrightarrow> input_measure i2 w3 < input_measure i w"
proof -
  have r: "input_measure i1 (w\<lparr>iw_heap := h1\<rparr>) = input_measure i w"
    using reserve_measure [OF assms [symmetric], of w] by simp
  show "(Inr (Some b), i2, w2) = next_byte i1 (w\<lparr>iw_heap := h1\<rparr>) \<Longrightarrow>
      input_measure i2 w2 < input_measure i w"
    using next_byte_measure [of i1 "w\<lparr>iw_heap := h1\<rparr>" b i2 w2] r by simp
  show "(Inr None, i2, w2) = next_byte i1 (w\<lparr>iw_heap := h1\<rparr>) \<Longrightarrow>
      (True, w3) = ask_eof_hook i2 w2 \<Longrightarrow> input_measure i2 w3 < input_measure i w"
    using next_byte_measure_le [of i1 "w\<lparr>iw_heap := h1\<rparr>" "Inr None" i2 w2]
      ask_eof_hook_measure [of i2 w2 w3] r by simp
qed

text \<open>The loop of \<open>csh_input_read_line\<close>; \<open>buf\<close> is the part of the line read so far.\<close>

function read_line_loop ::
  "csh_position \<Rightarrow> csh_input \<Rightarrow> input_world \<Rightarrow> string \<Rightarrow> read_outcome" where
  "read_line_loop start i w buf =
     (if SIZE_MAX - 2 < length buf
      then read_failure i w ''cannot grow input line'' ENOMEM 1
      else
        (case reserve i (length buf + 2) (iw_heap w) of
           (False, i, h) \<Rightarrow> read_failure i (w\<lparr>iw_heap := h\<rparr>) ''cannot grow input line'' ENOMEM 1
         | (True, i, h) \<Rightarrow>
             if p_offset (in_position i) = SIZE_MAX \<or> p_line (in_position i) = SIZE_MAX \<or>
                p_column (in_position i) = SIZE_MAX
             then read_failure i (w\<lparr>iw_heap := h\<rparr>) ''input position overflow'' EOVERFLOW 1
             else
               (case next_byte i (w\<lparr>iw_heap := h\<rparr>) of
                  (Inl e, i, w) \<Rightarrow>
                    if e = EINTR then
                      (CSH_INPUT_INTERRUPTED, no_line,
                       (input_fail ''input interrupted'' EINTR 128)\<lparr>position := in_position i\<rparr>,
                       (if buf \<noteq> [] then
                          i\<lparr>in_position := (in_position i)\<lparr>p_line := p_line (in_position i) + 1,
                                                          p_column := 1\<rparr>\<rparr>
                        else i), w)
                    else read_failure i w ''cannot read input'' e 128
                | (Inr None, i, w) \<Rightarrow>
                    (case (if buf = [] then ask_eof_hook i w else (False, w)) of
                       (True, w) \<Rightarrow> read_line_loop start i w buf
                     | (False, w) \<Rightarrow>
                         if buf = [] then
                           (CSH_INPUT_EOF, no_line, no_error, i\<lparr>in_ended := True\<rparr>, w)
                         else
                           (CSH_INPUT_LINE,
                            \<lparr>il_data = buf, il_start = start, il_end = in_position i\<rparr>,
                            no_error, i\<lparr>in_ended := True\<rparr>, w))
                | (Inr (Some b), i, w) \<Rightarrow>
                    (let i = i\<lparr>in_position := advance_position b (in_position i)\<rparr>
                     in if b = CHR 0x0A then
                          (CSH_INPUT_LINE,
                           \<lparr>il_data = buf @ [b], il_start = start, il_end = in_position i\<rparr>,
                           no_error, i, w)
                        else read_line_loop start i w (buf @ [b])))))"
  by pat_completeness auto
termination
proof (relation "measure (\<lambda>(start, i, w, buf). input_measure i w)", goal_cases)
  case 1
  show ?case by simp
next
  case 2
  then show ?case by (auto intro: read_step_measure split: if_splits)
next
  case 3
  then show ?case by (auto intro: read_step_measure)
qed

declare read_line_loop.simps [simp del]

definition csh_input_read_line :: "csh_input \<Rightarrow> input_world \<Rightarrow> read_outcome" where
  "csh_input_read_line i w =
     (if status (in_failure i) \<noteq> 0 then (CSH_INPUT_ERROR, no_line, in_failure i, i, w)
      else if in_ended i then (CSH_INPUT_EOF, no_line, no_error, i, w)
      else read_line_loop (in_position i) i w [])"

definition csh_input_failed :: "csh_input option \<Rightarrow> bool" where
  "csh_input_failed i = (case i of None \<Rightarrow> False | Some i \<Rightarrow> status (in_failure i) \<noteq> 0)"

subsection \<open>Errors and end of file are final\<close>

lemma read_failure_sticky:
  "read_failure i w m n st = (r, l, e, i', w') \<Longrightarrow>
   r = CSH_INPUT_ERROR \<and> l = no_line \<and> in_failure i' = e \<and> status e = st"
  by (auto simp: read_failure_def input_fail_def Let_def)

lemma read_line_loop_sticky:
  "read_line_loop start i w buf = (r, l, e, i', w') \<Longrightarrow>
   (r = CSH_INPUT_ERROR \<longrightarrow> in_failure i' = e \<and> status e \<noteq> 0) \<and>
   (r = CSH_INPUT_EOF \<longrightarrow> in_ended i' \<and> l = no_line)"
proof (induction "input_measure i w" arbitrary: i w buf rule: less_induct)
  case less
  note run = less.prems [unfolded read_line_loop.simps [of start i w buf]]
  obtain ok i1 h1 where r: "reserve i (length buf + 2) (iw_heap w) = (ok, i1, h1)"
    by (metis prod_cases3)
  obtain a i2 w2 where n: "next_byte i1 (w\<lparr>iw_heap := h1\<rparr>) = (a, i2, w2)"
    by (metis prod_cases3)
  show ?case
  proof (cases "\<exists>e. a = Inl e \<or> \<not> ok")
    case True
    with run r n show ?thesis
      by (cases ok) (auto dest: read_failure_sticky split: if_splits)
  next
    case False
    then obtain c where a: "a = Inr c" and ok by (cases a) auto
    show ?thesis
    proof (cases c)
      case None
      obtain q w3 where q: "(if buf = [] then ask_eof_hook i2 w2 else (False, w2)) = (q, w3)"
        by (metis prod.exhaust)
      have "input_measure i2 w3 < input_measure i w" if q
        using that q n a None read_step_measure(2) [of i1 h1 i "length buf + 2" w i2 w2 w3] r \<open>ok\<close>
        by (auto split: if_splits)
      with less.hyps [of i2 w3 buf] run r n a None q \<open>ok\<close> show ?thesis
        by (cases q) (auto dest: read_failure_sticky split: if_splits)
    next
      case (Some b)
      let ?i = "i2\<lparr>in_position := advance_position b (in_position i2)\<rparr>"
      have "input_measure ?i w2 < input_measure i w"
        using n a Some read_step_measure(1) [of i1 h1 i "length buf + 2" w b i2 w2] r \<open>ok\<close> by simp
      with less.hyps [of ?i w2 "buf @ [b]"] run r n a Some \<open>ok\<close> show ?thesis
        by (auto simp: Let_def dest: read_failure_sticky split: if_splits)
    qed
  qed
qed

subsection \<open>Lines of a source\<close>

definition line_of :: "string \<Rightarrow> string" where
  "line_of bs = takeWhile (\<lambda>c. c \<noteq> CHR 0x0A) bs @ (if CHR 0x0A \<in> set bs then [CHR 0x0A] else [])"

text \<open>The bytes a source has left, for a string and for a descriptor alike.\<close>

definition pending :: "csh_input \<Rightarrow> input_world \<Rightarrow> string \<Rightarrow> bool" where
  "pending i w bs \<longleftrightarrow>
     (case in_text i of
        Some t \<Rightarrow> in_text_offset i \<le> length t \<and> drop (in_text_offset i) t = bs
      | None \<Rightarrow> iw_reads w = map Byte bs)"

definition roomy :: "csh_input \<Rightarrow> input_world \<Rightarrow> nat \<Rightarrow> bool" where
  "roomy i w n \<longleftrightarrow>
     iw_heap w = [] \<and> \<not> in_eof_hook i \<and> p_offset (in_position i) + n < SIZE_MAX \<and>
     p_line (in_position i) + n < SIZE_MAX \<and> p_column (in_position i) + n < SIZE_MAX"

lemma line_of_Nil [simp]: "line_of [] = []"
  by (simp add: line_of_def)

lemma line_of_Cons: "line_of (b # bs) = (if b = CHR 0x0A then [b] else b # line_of bs)"
  by (auto simp: line_of_def)

lemma line_of_prefix: "line_of bs @ drop (length (line_of bs)) bs = bs"
  by (induction bs) (auto simp: line_of_Cons)

lemma line_of_eq_Nil [simp]: "line_of bs = [] \<longleftrightarrow> bs = []"
  by (cases bs) (auto simp: line_of_Cons)

lemma next_byte_Cons:
  assumes "pending i w (b # bs)"
  shows "\<exists>i' w'. next_byte i w = (Inr (Some b), i', w') \<and> pending i' w' bs \<and>
    in_position i' = in_position i \<and> in_eof_hook i' = in_eof_hook i \<and> iw_heap w' = iw_heap w \<and>
    in_ended i' = in_ended i \<and> in_failure i' = in_failure i"
proof (cases "in_text i")
  case None
  with assms show ?thesis by (simp add: pending_def next_byte_def)
next
  case (Some t)
  with assms have d: "drop (in_text_offset i) t = b # bs" by (simp add: pending_def)
  then have lt: "in_text_offset i < length t"
    by (metis drop_all linorder_not_less list.distinct(1))
  then have "t ! in_text_offset i = b" "drop (Suc (in_text_offset i)) t = bs"
    using d by (simp_all add: Cons_nth_drop_Suc [OF lt, symmetric])
  with Some lt show ?thesis by (simp add: pending_def next_byte_def)
qed

lemma next_byte_Nil: "pending i w [] \<Longrightarrow> next_byte i w = (Inr None, i, w)"
  by (auto simp: pending_def next_byte_def split: option.splits)

lemma reserve_roomy: "\<exists>c. reserve i n [] = (True, i\<lparr>in_capacity := c\<rparr>, [])"
proof (cases "n \<le> in_capacity i")
  case True
  then have "reserve i n [] = (True, i\<lparr>in_capacity := in_capacity i\<rparr>, [])" by (simp add: reserve_def)
  then show ?thesis ..
next
  case False
  then show ?thesis by (auto simp: reserve_def)
qed

lemma pending_capacity [simp]: "pending (i\<lparr>in_capacity := c\<rparr>) w = pending i w"
  by (auto simp: pending_def fun_eq_iff split: option.splits)

lemma pending_position [simp]: "pending (i\<lparr>in_position := p\<rparr>) w = pending i w"
  by (auto simp: pending_def fun_eq_iff split: option.splits)

lemma pending_heap [simp]: "pending i (w\<lparr>iw_heap := h\<rparr>) = pending i w"
  by (auto simp: pending_def fun_eq_iff split: option.splits)

lemma pending_ended [simp]: "pending (i\<lparr>in_ended := b\<rparr>) w = pending i w"
  by (auto simp: pending_def fun_eq_iff split: option.splits)

lemma advance_position_bounds:
  "p_offset (advance_position b p) = p_offset p + 1"
  "p_line (advance_position b p) \<le> p_line p + 1"
  "p_column (advance_position b p) \<le> p_column p + 1"
  by (simp_all add: advance_position_def)

definition line_outcome ::
  "csh_position \<Rightarrow> string \<Rightarrow> csh_position \<Rightarrow> csh_input \<Rightarrow> input_world \<Rightarrow> read_outcome" where
  "line_outcome start data stop i w =
     (CSH_INPUT_LINE, \<lparr>il_data = data, il_start = start, il_end = stop\<rparr>, no_error, i, w)"

lemma read_line_loop_line:
  assumes "pending i w bs" and "buf @ bs \<noteq> []" and "roomy i w (length bs)"
    and "length buf + length bs < SIZE_MAX - 2"
  shows "\<exists>i' w'. read_line_loop start i w buf =
      line_outcome start (buf @ line_of bs) (fold advance_position (line_of bs) (in_position i)) i' w' \<and>
    pending i' w' (drop (length (line_of bs)) bs) \<and> iw_heap w' = [] \<and>
    in_position i' = fold advance_position (line_of bs) (in_position i) \<and>
    in_failure i' = in_failure i \<and> in_eof_hook i' = in_eof_hook i \<and>
    (in_ended i' \<longrightarrow> in_ended i \<or> drop (length (line_of bs)) bs = [])"
  using assms
proof (induction bs arbitrary: i w buf)
  case Nil
  obtain c where r: "reserve i (length buf + 2) [] = (True, i\<lparr>in_capacity := c\<rparr>, [])"
    using reserve_roomy by blast
  have n: "next_byte (i\<lparr>in_capacity := c\<rparr>) (w\<lparr>iw_heap := []\<rparr>) =
      (Inr None, i\<lparr>in_capacity := c\<rparr>, w\<lparr>iw_heap := []\<rparr>)"
    using Nil.prems(1) by (intro next_byte_Nil) simp
  have "read_line_loop start i w buf = line_outcome start buf (in_position i)
      (i\<lparr>in_capacity := c, in_ended := True\<rparr>) (w\<lparr>iw_heap := []\<rparr>)"
    using Nil.prems r n by (subst read_line_loop.simps) (auto simp: roomy_def line_outcome_def)
  then show ?case
    using Nil.prems
    by (intro exI [of _ "i\<lparr>in_capacity := c, in_ended := True\<rparr>"] exI [of _ "w\<lparr>iw_heap := []\<rparr>"]) simp
next
  case (Cons b bs)
  obtain c where r: "reserve i (length buf + 2) [] = (True, i\<lparr>in_capacity := c\<rparr>, [])"
    using reserve_roomy by blast
  have "pending (i\<lparr>in_capacity := c\<rparr>) (w\<lparr>iw_heap := []\<rparr>) (b # bs)"
    using Cons.prems(1) by simp
  then obtain i1 w1 where n: "next_byte (i\<lparr>in_capacity := c\<rparr>) (w\<lparr>iw_heap := []\<rparr>) = (Inr (Some b), i1, w1)"
    and p1: "pending i1 w1 bs" and i1: "in_position i1 = in_position i" "in_eof_hook i1 = in_eof_hook i"
      "in_failure i1 = in_failure i" "in_ended i1 = in_ended i" and w1: "iw_heap w1 = []"
    using next_byte_Cons by fastforce
  let ?i = "i1\<lparr>in_position := advance_position b (in_position i)\<rparr>"
  have step: "read_line_loop start i w buf =
      (if b = CHR 0x0A then line_outcome start (buf @ [b]) (advance_position b (in_position i)) ?i w1
       else read_line_loop start ?i w1 (buf @ [b]))"
    using Cons.prems r n i1 by (subst read_line_loop.simps) (auto simp: roomy_def line_outcome_def Let_def)
  show ?case
  proof (cases "b = CHR 0x0A")
    case True
    with step p1 i1 w1 show ?thesis
      by (intro exI [of _ ?i] exI [of _ w1]) (auto simp: line_of_Cons)
  next
    case False
    have "roomy ?i w1 (length bs)"
      using Cons.prems(3) w1 i1 advance_position_bounds [of b "in_position i"] by (auto simp: roomy_def)
    with Cons.IH [of ?i w1 "buf @ [b]"] p1 Cons.prems(4)
    show ?thesis using False step i1 by (auto simp: line_of_Cons)
  qed
qed

text \<open>All lines of a source, by reading until something else than a line comes back.\<close>

fun read_lines :: "nat \<Rightarrow> csh_input \<Rightarrow> input_world \<Rightarrow> csh_input_line list \<times> csh_input_result" where
  "read_lines 0 i w = ([], CSH_INPUT_LINE)"
| "read_lines (Suc n) i w =
     (case csh_input_read_line i w of
        (CSH_INPUT_LINE, l, e, i', w') \<Rightarrow> (case read_lines n i' w' of (ls, r) \<Rightarrow> (l # ls, r))
      | (r, l, e, i', w') \<Rightarrow> ([], r))"

fun lines_of :: "nat \<Rightarrow> string \<Rightarrow> string list" where
  "lines_of 0 bs = []"
| "lines_of (Suc n) bs =
     (if bs = [] then [] else line_of bs # lines_of n (drop (length (line_of bs)) bs))"

lemma concat_lines_of: "length bs \<le> n \<Longrightarrow> concat (lines_of n bs) = bs"
proof (induction n arbitrary: bs)
  case 0
  then show ?case by simp
next
  case (Suc n)
  have "length (drop (length (line_of bs)) bs) \<le> n" if "bs \<noteq> []"
    using Suc.prems that line_of_eq_Nil [of bs] by (cases "line_of bs") auto
  with Suc.IH [of "drop (length (line_of bs)) bs"] line_of_prefix [of bs] show ?case by auto
qed

lemma fold_advance_offset: "p_offset (fold advance_position bs p) = p_offset p + length bs"
  by (induction bs arbitrary: p) (auto simp: advance_position_bounds)

lemma fold_advance_bounds:
  "p_line (fold advance_position bs p) \<le> p_line p + length bs \<and>
   p_column (fold advance_position bs p) \<le> max 1 (p_column p) + length bs"
proof (induction bs arbitrary: p)
  case Nil
  then show ?case by simp
next
  case (Cons b bs)
  from Cons.IH [of "advance_position b p"] show ?case
    by (auto simp: advance_position_def split: if_splits)
qed

lemma read_line_end:
  assumes "pending i w []" and "roomy i w 0" and "status (in_failure i) = 0"
  shows "\<exists>i' w'. csh_input_read_line i w = (CSH_INPUT_EOF, no_line, no_error, i', w')"
proof (cases "in_ended i")
  case True
  with assms show ?thesis by (simp add: csh_input_read_line_def)
next
  case False
  obtain c where r: "reserve i (Suc (Suc 0)) [] = (True, i\<lparr>in_capacity := c\<rparr>, [])"
    using reserve_roomy by blast
  have "next_byte (i\<lparr>in_capacity := c\<rparr>) (w\<lparr>iw_heap := []\<rparr>) =
      (Inr None, i\<lparr>in_capacity := c\<rparr>, w\<lparr>iw_heap := []\<rparr>)"
    using assms(1) by (intro next_byte_Nil) simp
  with r assms False show ?thesis
    by (auto simp: csh_input_read_line_def read_line_loop.simps roomy_def ask_eof_hook_def SIZE_MAX_def)
qed

lemma read_lines_spec:
  assumes "pending i w bs" and "roomy i w (length bs)" and "length bs < SIZE_MAX - 2"
    and "p_column (in_position i) \<ge> 1" and "status (in_failure i) = 0"
    and "in_ended i \<longrightarrow> bs = []" and "length bs < n"
  shows "map il_data (fst (read_lines n i w)) = lines_of n bs \<and> snd (read_lines n i w) = CSH_INPUT_EOF"
  using assms
proof (induction n arbitrary: i w bs)
  case 0
  then show ?case by simp
next
  case (Suc n)
  show ?case
  proof (cases "bs = []")
    case True
    with read_line_end [of i w] Suc.prems show ?thesis by auto
  next
    case False
    let ?rest = "drop (length (line_of bs)) bs"
    let ?stop = "fold advance_position (line_of bs) (in_position i)"
    obtain i' w' where line: "csh_input_read_line i w = line_outcome (in_position i) (line_of bs) ?stop i' w'"
      and i': "pending i' w' ?rest" "iw_heap w' = []" "in_position i' = ?stop" "in_failure i' = in_failure i"
        "in_eof_hook i' = in_eof_hook i" "in_ended i' \<longrightarrow> ?rest = []"
      using read_line_loop_line [of i w bs "[]" "in_position i"] Suc.prems False
      by (auto simp: csh_input_read_line_def)
    have len: "length (line_of bs) + length ?rest = length bs"
      using arg_cong [OF line_of_prefix [of bs], of length] by simp
    have "roomy i' w' (length ?rest)"
      using Suc.prems(2,4) i' len fold_advance_offset [of "line_of bs" "in_position i"]
        fold_advance_bounds [of "line_of bs" "in_position i"] by (auto simp: roomy_def)
    moreover have "p_column (in_position i') \<ge> 1"
    proof -
      have "1 \<le> p_column (fold advance_position bs' p)" if "1 \<le> p_column p" for bs' p
        using that by (induction bs' arbitrary: p) (auto simp: advance_position_def)
      with Suc.prems(4) i' show ?thesis by simp
    qed
    moreover have "length ?rest < n"
    proof -
      have "0 < length (line_of bs)" using False by simp
      with len Suc.prems(7) show ?thesis by linarith
    qed
    ultimately have "map il_data (fst (read_lines n i' w')) = lines_of n ?rest \<and>
        snd (read_lines n i' w') = CSH_INPUT_EOF"
      using Suc.IH [of i' w' ?rest] i' Suc.prems len by simp
    with line False show ?thesis by (auto simp: line_outcome_def split: prod.splits)
  qed
qed

subsection \<open>Properties\<close>



text \<open>
  C22: a failure to read is final: once a read reports an error, every later read reports that
  same error, publishes no line and consumes nothing; likewise once a read reports end of
  file.
\<close>

theorem input_outcome_sticky:
  assumes "csh_input_read_line i w = (r, l, e, i', w')"
    and "r = CSH_INPUT_ERROR \<or> r = CSH_INPUT_EOF" and "status (in_failure i) = 0 \<or> \<not> in_ended i"
  shows "csh_input_read_line i' w'' =
    (if status (in_failure i') \<noteq> 0 then (CSH_INPUT_ERROR, no_line, in_failure i', i', w'')
     else (CSH_INPUT_EOF, no_line, no_error, i', w'')) \<and>
    (r = CSH_INPUT_ERROR \<longrightarrow> status (in_failure i') \<noteq> 0 \<and> e = in_failure i')"
proof -
  have "(r = CSH_INPUT_ERROR \<longrightarrow> in_failure i' = e \<and> status e \<noteq> 0) \<and> (r = CSH_INPUT_EOF \<longrightarrow> in_ended i')"
    using assms(1) read_line_loop_sticky [of "in_position i" i w "[]" r l e i' w']
    by (auto simp: csh_input_read_line_def split: if_splits)
  with assms(2) show ?thesis by (auto simp: csh_input_read_line_def)
qed

theorem input_outcome_sticky_witness:
  "\<exists>i' w'. csh_input_read_line \<lparr>in_name = [], in_text = None, in_text_offset = 0, in_fd = 10,
      in_capacity = 0, in_position = first_position, in_ended = False, in_failure = no_error,
      in_wait_hook = False, in_eof_hook = False\<rparr> \<lparr>iw_heap = [], iw_reads = [Fault EBADF], iw_eof = []\<rparr> =
      (CSH_INPUT_ERROR, no_line, in_failure i', i', w') \<and>
    csh_input_read_line i' w' = (CSH_INPUT_ERROR, no_line, in_failure i', i', w')"
proof -
  let ?i = "\<lparr>in_name = [], in_text = None, in_text_offset = 0, in_fd = 10,
      in_capacity = 0, in_position = first_position, in_ended = False, in_failure = no_error,
      in_wait_hook = False, in_eof_hook = False\<rparr>"
  obtain r l e i' w' where o: "csh_input_read_line ?i \<lparr>iw_heap = [], iw_reads = [Fault EBADF], iw_eof = []\<rparr> = (r, l, e, i', w')"
    by (metis prod_cases5)
  then have "r = CSH_INPUT_ERROR \<and> l = no_line"
    by (auto simp: csh_input_read_line_def read_line_loop.simps reserve_def next_byte_def no_error_def
        first_position_def SIZE_MAX_def read_failure_def Let_def grow_capacity.simps)
  with input_outcome_sticky [OF o, of w'] o show ?thesis
    by (auto simp: no_error_def)
qed

end
