(* ===== verification/Options.thy ===== *)
theory Options
  imports Prelude
begin

text \<open>
  \<open>include/cshell/options.h\<close>: the option bits, the one inventory that parsing, reports and
  \<open>$-\<close> share, and the searches by letter and by name that the macros expand to.
\<close>

definition CSH_OPT_INTERACTIVE :: uint where "CSH_OPT_INTERACTIVE = push_bit 0 1"
definition CSH_OPT_ALLEXPORT :: uint where "CSH_OPT_ALLEXPORT = push_bit 1 1"
definition CSH_OPT_ERREXIT :: uint where "CSH_OPT_ERREXIT = push_bit 2 1"
definition CSH_OPT_NOGLOB :: uint where "CSH_OPT_NOGLOB = push_bit 3 1"
definition CSH_OPT_NOEXEC :: uint where "CSH_OPT_NOEXEC = push_bit 4 1"
definition CSH_OPT_NOUNSET :: uint where "CSH_OPT_NOUNSET = push_bit 5 1"
definition CSH_OPT_VERBOSE :: uint where "CSH_OPT_VERBOSE = push_bit 6 1"
definition CSH_OPT_XTRACE :: uint where "CSH_OPT_XTRACE = push_bit 7 1"
definition CSH_OPT_NOCLOBBER :: uint where "CSH_OPT_NOCLOBBER = push_bit 8 1"
definition CSH_OPT_PIPEFAIL :: uint where "CSH_OPT_PIPEFAIL = push_bit 9 1"
definition CSH_OPT_MONITOR :: uint where "CSH_OPT_MONITOR = push_bit 10 1"
definition CSH_OPT_NOTIFY :: uint where "CSH_OPT_NOTIFY = push_bit 11 1"
definition CSH_OPT_HASHALL :: uint where "CSH_OPT_HASHALL = push_bit 12 1"
definition CSH_OPT_IGNOREEOF :: uint where "CSH_OPT_IGNOREEOF = push_bit 13 1"
definition CSH_OPT_NOLOG :: uint where "CSH_OPT_NOLOG = push_bit 14 1"

definition CSH_OPTION_LIST :: "(uint \<times> string \<times> char option) list" where
  "CSH_OPTION_LIST =
     [(CSH_OPT_ALLEXPORT, ''allexport'', Some CHR ''a''),
      (CSH_OPT_NOTIFY, ''notify'', Some CHR ''b''),
      (CSH_OPT_NOCLOBBER, ''noclobber'', Some CHR ''C''),
      (CSH_OPT_ERREXIT, ''errexit'', Some CHR ''e''),
      (CSH_OPT_NOGLOB, ''noglob'', Some CHR ''f''),
      (CSH_OPT_HASHALL, ''hashall'', Some CHR ''h''),
      (CSH_OPT_MONITOR, ''monitor'', Some CHR ''m''),
      (CSH_OPT_NOEXEC, ''noexec'', Some CHR ''n''),
      (CSH_OPT_NOUNSET, ''nounset'', Some CHR ''u''),
      (CSH_OPT_VERBOSE, ''verbose'', Some CHR ''v''),
      (CSH_OPT_XTRACE, ''xtrace'', Some CHR ''x''),
      (CSH_OPT_PIPEFAIL, ''pipefail'', None),
      (CSH_OPT_IGNOREEOF, ''ignoreeof'', None),
      (CSH_OPT_NOLOG, ''nolog'', None)]"

definition csh_option_letter :: "char \<Rightarrow> uint" where
  "csh_option_letter letter =
     (case find (\<lambda>(b, n, ch). ch = Some letter) CSH_OPTION_LIST of
        Some (b, n, ch) \<Rightarrow> b | None \<Rightarrow> 0)"

definition csh_option_name :: "string \<Rightarrow> uint" where
  "csh_option_name value =
     (case find (\<lambda>(b, n, ch). value = n) CSH_OPTION_LIST of
        Some (b, n, ch) \<Rightarrow> b | None \<Rightarrow> 0)"

definition CSH_SETTABLE_OPTIONS :: uint where
  "CSH_SETTABLE_OPTIONS = fold (\<lambda>(b, n, ch) m. m OR b) CSH_OPTION_LIST 0"

definition SHELL_OPTIONS :: uint where
  "SHELL_OPTIONS = CSH_OPT_INTERACTIVE OR CSH_SETTABLE_OPTIONS"

lemmas option_bits =
  CSH_OPT_INTERACTIVE_def CSH_OPT_ALLEXPORT_def CSH_OPT_ERREXIT_def CSH_OPT_NOGLOB_def
  CSH_OPT_NOEXEC_def CSH_OPT_NOUNSET_def CSH_OPT_VERBOSE_def CSH_OPT_XTRACE_def
  CSH_OPT_NOCLOBBER_def CSH_OPT_PIPEFAIL_def CSH_OPT_MONITOR_def CSH_OPT_NOTIFY_def
  CSH_OPT_HASHALL_def CSH_OPT_IGNOREEOF_def CSH_OPT_NOLOG_def

lemma CSH_SETTABLE_OPTIONS_eq: "CSH_SETTABLE_OPTIONS = 0x7FFE"
  by (simp add: CSH_SETTABLE_OPTIONS_def CSH_OPTION_LIST_def option_bits)

lemma SHELL_OPTIONS_eq: "SHELL_OPTIONS = 0x7FFF"
  by (simp add: SHELL_OPTIONS_def CSH_SETTABLE_OPTIONS_eq option_bits)

lemma csh_option_letter_mem:
  "csh_option_letter c \<noteq> 0 \<Longrightarrow> \<exists>n. (csh_option_letter c, n, Some c) \<in> set CSH_OPTION_LIST"
  by (auto simp: csh_option_letter_def dest: find_SomeD split: option.split_asm)

lemma csh_option_name_mem:
  "csh_option_name v \<noteq> 0 \<Longrightarrow> \<exists>ch. (csh_option_name v, v, ch) \<in> set CSH_OPTION_LIST"
  by (auto simp: csh_option_name_def dest: find_SomeD split: option.split_asm)

lemma option_list_settable:
  "\<forall>(b, n, ch) \<in> set CSH_OPTION_LIST. b AND NOT CSH_SETTABLE_OPTIONS = 0"
  by (simp add: CSH_OPTION_LIST_def option_bits CSH_SETTABLE_OPTIONS_eq)

lemma csh_option_letter_settable [simp]: "csh_option_letter c AND NOT CSH_SETTABLE_OPTIONS = 0"
  using csh_option_letter_mem [of c] option_list_settable by (cases "csh_option_letter c = 0") auto

lemma csh_option_name_settable [simp]: "csh_option_name v AND NOT CSH_SETTABLE_OPTIONS = 0"
  using csh_option_name_mem [of v] option_list_settable by (cases "csh_option_name v = 0") auto

end
