(* ===== verification/Invocation.thy ===== *)
theory Invocation
  imports Input Options
begin

text \<open>
  \<open>src/invocation.c\<close>: from \<open>argv\<close> to the command source, \<open>$0\<close>, the positional arguments and
  the options. The option loop is split as the code splits it: letters of one word
  (\<open>invocation_letters\<close>), words (\<open>invocation_words\<close>), then the choice of the source.
\<close>

subsection \<open>Model\<close>

datatype csh_input_mode = CSH_MODE_STDIN | CSH_MODE_STRING | CSH_MODE_FILE

record csh_invocation =
  inv_input :: csh_input
  inv_mode :: csh_input_mode
  inv_interactive :: bool
  inv_options :: uint
  inv_option_mask :: uint
  inv_arg0 :: string
  inv_arguments :: "string list"

definition invocation_error :: "string \<Rightarrow> errno \<Rightarrow> int \<Rightarrow> nat \<Rightarrow> csh_error" where
  "invocation_error msg number st index =
     no_error\<lparr>message := msg, system_errno := number, status := st, argument_index := index\<rparr>"

text \<open>The locals of the option loop.\<close>

record option_scan =
  os_options :: uint
  os_mask :: uint
  os_command_string :: bool
  os_standard_input :: bool
  os_interactive :: bool

definition select_option :: "bool \<Rightarrow> uint \<Rightarrow> option_scan \<Rightarrow> option_scan" where
  "select_option enable b p =
     p\<lparr>os_mask := os_mask p OR b,
       os_options := (if enable then os_options p OR b else os_options p AND NOT b)\<rparr>"

text \<open>The letters of one option word. \<open>k\<close> is the index of the word in \<open>argv\<close>, \<open>rest\<close> the words
  after it; \<open>o\<close> takes the rest of the word or, when there is none, the next word.\<close>

fun invocation_letters ::
  "bool \<Rightarrow> string \<Rightarrow> string list \<Rightarrow> nat \<Rightarrow> option_scan \<Rightarrow> csh_error + (option_scan \<times> string list \<times> nat)" where
  "invocation_letters enable [] rest k p = Inr (p, rest, k)"
| "invocation_letters enable (l # ls) rest k p =
     (if l = CHR ''o'' then
        (if ls = [] then
           (case rest of
              [] \<Rightarrow> Inl (invocation_error ''-o requires an option name'' EOK 2 k)
            | name # rest \<Rightarrow>
                if csh_option_name name = 0
                then Inl (invocation_error ''unsupported shell option'' EOK 2 (k + 1))
                else Inr (select_option enable (csh_option_name name) p, rest, k + 1))
         else
           (if csh_option_name ls = 0
            then Inl (invocation_error ''unsupported shell option'' EOK 2 k)
            else Inr (select_option enable (csh_option_name ls) p, rest, k)))
      else if csh_option_letter l \<noteq> 0 then
        invocation_letters enable ls rest k (select_option enable (csh_option_letter l) p)
      else if \<not> enable then Inl (invocation_error ''unsupported shell option'' EOK 2 k)
      else if l = CHR ''c'' then
        invocation_letters enable ls rest k (p\<lparr>os_command_string := True\<rparr>)
      else if l = CHR ''s'' then
        invocation_letters enable ls rest k (p\<lparr>os_standard_input := True\<rparr>)
      else if l = CHR ''i'' then
        invocation_letters enable ls rest k (p\<lparr>os_interactive := True\<rparr>)
      else Inl (invocation_error ''unsupported shell option'' EOK 2 k))"

lemma invocation_letters_rest:
  "invocation_letters enable ls rest k p = Inr (p', rest', k') \<Longrightarrow>
   (rest' = rest \<and> k' = k) \<or> (rest \<noteq> [] \<and> rest' = tl rest \<and> k' = k + 1)"
  by (induction enable ls rest k p rule: invocation_letters.induct) (auto split: if_splits list.splits)

definition is_option_argument :: "string \<Rightarrow> bool" where
  "is_option_argument a \<longleftrightarrow> 2 \<le> length a \<and> (hd a = CHR ''-'' \<or> hd a = CHR ''+'')"

function invocation_words ::
  "string list \<Rightarrow> nat \<Rightarrow> option_scan \<Rightarrow> csh_error + (option_scan \<times> string list \<times> nat)" where
  "invocation_words [] k p = Inr (p, [], k)"
| "invocation_words (a # as) k p =
     (if a = ''--'' \<or> a = ''-'' then Inr (p, as, k + 1)
      else if \<not> is_option_argument a then Inr (p, a # as, k)
      else
        (case invocation_letters (hd a = CHR ''-'') (tl a) as k p of
           Inl e \<Rightarrow> Inl e
         | Inr (p, rest, k) \<Rightarrow>
             if os_command_string p \<and> os_standard_input p
             then Inl (invocation_error ''-c and -s cannot be combined'' EOK 2 k)
             else invocation_words rest (k + 1) p))"
  by pat_completeness auto
termination
  by (relation "measure (\<lambda>(as, k, p). length as)") (auto dest!: invocation_letters_rest)

text \<open>The choice of the source: mode, \<open>$0\<close>, the source's text and index, the arguments.\<close>

definition invocation_source ::
  "string \<Rightarrow> option_scan \<times> string list \<times> nat \<Rightarrow>
   csh_error + (csh_input_mode \<times> string \<times> string \<times> nat \<times> string list)" where
  "invocation_source cmd scan =
     (case scan of
        (p, rest, k) \<Rightarrow>
          if os_command_string p then
            (case rest of
               [] \<Rightarrow> Inl (invocation_error ''-c requires a command string'' EOK 2 0)
             | [text] \<Rightarrow> Inr (CSH_MODE_STRING, cmd, text, k, [])
             | text # name # args \<Rightarrow> Inr (CSH_MODE_STRING, name, text, k, args))
          else if os_standard_input p \<or> rest = [] then Inr (CSH_MODE_STDIN, cmd, [], 0, rest)
          else Inr (CSH_MODE_FILE, hd rest, hd rest, k, tl rest))"

text \<open>The copies of \<open>$0\<close>, of the vector and of each argument; a failure at any of them.\<close>

fun copy_arguments :: "string list \<Rightarrow> heap \<Rightarrow> bool \<times> heap" where
  "copy_arguments [] h = (True, h)"
| "copy_arguments (a # as) h =
     (case malloc h of (False, h) \<Rightarrow> (False, h) | (True, h) \<Rightarrow> copy_arguments as h)"

definition invocation_copies :: "string list \<Rightarrow> heap \<Rightarrow> bool \<times> heap" where
  "invocation_copies args h =
     (case malloc h of
        (False, h) \<Rightarrow> (False, h)
      | (True, h) \<Rightarrow>
          if SIZE_MAX div 8 - 1 < length args then (False, h)
          else (case malloc h of (False, h) \<Rightarrow> (False, h) | (True, h) \<Rightarrow> copy_arguments args h))"

text \<open>What the system answers while an invocation is set up.\<close>

record invocation_answers =
  ia_script :: file_answers
  ia_stdin_dup :: "(errno + int) list"
  ia_stdin :: stdin_answers
  ia_stdin_tty :: bool
  ia_stderr_tty :: bool

definition open_source ::
  "csh_input_mode \<Rightarrow> string \<Rightarrow> invocation_answers \<Rightarrow> heap \<Rightarrow> ((csh_error + csh_input) \<times> heap) option" where
  "open_source mode text os h =
     (case mode of
        CSH_MODE_STRING \<Rightarrow> Some (csh_input_from_string (Some text) (Some ''-c'') h)
      | CSH_MODE_FILE \<Rightarrow> csh_input_from_file (Some text) (ia_script os) h
      | CSH_MODE_STDIN \<Rightarrow> csh_input_from_fd (Some ''stdin'') (ia_stdin_dup os) (ia_stdin os) h)"

definition csh_invocation_parse ::
  "string option list \<Rightarrow> invocation_answers \<Rightarrow> heap \<Rightarrow> ((csh_error + csh_invocation) \<times> heap) option" where
  "csh_invocation_parse argv os h =
     (if argv = [] then Some (Inl (invocation_error ''invalid invocation arguments'' EINVAL 2 0), h)
      else if None \<in> set argv then
        Some (Inl (invocation_error ''missing invocation argument'' EINVAL 2
          (length (takeWhile (\<lambda>a. a \<noteq> None) argv))), h)
      else
        (case invocation_words (map the (tl argv)) 1
                \<lparr>os_options = 0, os_mask = 0, os_command_string = False,
                 os_standard_input = False, os_interactive = False\<rparr> of
           Inl e \<Rightarrow> Some (Inl e, h)
         | Inr (p, rest, k) \<Rightarrow>
             (case invocation_source (the (hd argv)) (p, rest, k) of
                Inl e \<Rightarrow> Some (Inl e, h)
              | Inr (mode, arg0, text, index, args) \<Rightarrow>
                  (case invocation_copies args h of
                     (False, h) \<Rightarrow>
                       Some (Inl (invocation_error ''cannot allocate invocation'' ENOMEM 1 0), h)
                   | (True, h) \<Rightarrow>
                       (case open_source mode text os h of
                          None \<Rightarrow> None
                        | Some (Inl e, h) \<Rightarrow> Some (Inl (e\<lparr>argument_index := index\<rparr>), h)
                        | Some (Inr i, h) \<Rightarrow>
                            (case (if mode \<noteq> CSH_MODE_STDIN then csh_input_prepare_stdin (ia_stdin os)
                                   else Inr False) of
                               Inl e \<Rightarrow> Some (Inl e, h)
                             | Inr _ \<Rightarrow>
                                 Some (Inr \<lparr>inv_input = i, inv_mode = mode,
                                   inv_interactive = (os_interactive p \<or>
                                     mode = CSH_MODE_STDIN \<and> ia_stdin_tty os \<and> ia_stderr_tty os),
                                   inv_options = os_options p, inv_option_mask = os_mask p,
                                   inv_arg0 = arg0, inv_arguments = args\<rparr>, h)))))))"

definition csh_invocation_prompt ::
  "csh_invocation option \<Rightarrow> bool \<Rightarrow> string \<Rightarrow> string \<Rightarrow> string option" where
  "csh_invocation_prompt invocation continuation ps1 ps2 =
     (case invocation of
        None \<Rightarrow> None
      | Some i \<Rightarrow>
          if \<not> inv_interactive i \<or> inv_mode i \<noteq> CSH_MODE_STDIN then None
          else Some (if continuation then ps2 else ps1))"

subsection \<open>The option scan\<close>

definition scan_inv :: "option_scan \<Rightarrow> bool" where
  "scan_inv p \<longleftrightarrow> os_options p AND NOT (os_mask p) = 0 \<and> os_mask p AND NOT CSH_SETTABLE_OPTIONS = 0"

lemma select_option_inv:
  "scan_inv p \<Longrightarrow> b AND NOT CSH_SETTABLE_OPTIONS = 0 \<Longrightarrow> scan_inv (select_option enable b p)"
  unfolding scan_inv_def select_option_def mask_covers_iff by (auto simp: bit_simps)

lemma invocation_letters_inv:
  "invocation_letters enable ls rest k p = Inr (p', rest', k') \<Longrightarrow> scan_inv p \<Longrightarrow> scan_inv p'"
  by (induction enable ls rest k p rule: invocation_letters.induct)
    (auto simp: select_option_inv split: if_splits list.splits,
     auto simp: scan_inv_def)

lemma invocation_words_inv:
  "invocation_words as k p = Inr (p', rest, k') \<Longrightarrow> scan_inv p \<Longrightarrow>
   \<not> (os_command_string p \<and> os_standard_input p) \<Longrightarrow>
   scan_inv p' \<and> \<not> (os_command_string p' \<and> os_standard_input p') \<and> k' + length rest = k + length as \<and>
   (\<exists>pre. as = pre @ rest)"
proof (induction as k p rule: invocation_words.induct)
  case (1 k p)
  then show ?case by simp
next
  case (2 a as k p)
  show ?case
  proof (cases "a = ''--'' \<or> a = ''-'' \<or> \<not> is_option_argument a")
    case True
    with "2.prems" show ?thesis by (auto split: if_splits)
  next
    case False
    with "2.prems" obtain p1 r1 k1 where l: "invocation_letters (hd a = CHR ''-'') (tl a) as k p = Inr (p1, r1, k1)"
      and c: "\<not> (os_command_string p1 \<and> os_standard_input p1)"
      and w: "invocation_words r1 (k1 + 1) p1 = Inr (p', rest, k')"
      by (auto split: sum.splits if_splits)
    from l "2.prems" have "scan_inv p1" by (blast intro: invocation_letters_inv)
    with "2.IH" [OF _ _ l] False c w have ih: "scan_inv p' \<and> \<not> (os_command_string p' \<and> os_standard_input p') \<and>
        k' + length rest = k1 + 1 + length r1 \<and> (\<exists>pre. r1 = pre @ rest)"
      by auto
    from invocation_letters_rest [OF l]
    have "k1 + length r1 = k + length as \<and> (\<exists>pre. as = pre @ r1)"
      by (cases as) auto
    then obtain pre where "k1 + length r1 = k + length as" "as = pre @ r1" by blast
    with ih show ?thesis by (auto intro: exI [of _ "a # pre @ _"])
  qed
qed

lemma invocation_letters_error:
  "invocation_letters enable ls rest k p = Inl e \<Longrightarrow>
   status e = 2 \<and> k \<le> argument_index e \<and> argument_index e \<le> k + length rest"
  by (induction enable ls rest k p rule: invocation_letters.induct)
    (auto simp: invocation_error_def no_error_def split: if_splits list.splits)

lemma invocation_words_error:
  "invocation_words as k p = Inl e \<Longrightarrow>
   status e = 2 \<and> k \<le> argument_index e \<and> argument_index e < k + length as"
proof (induction as k p rule: invocation_words.induct)
  case (1 k p)
  then show ?case by simp
next
  case (2 a as k p)
  from "2.prems" have opt: "a \<noteq> ''--'' \<and> a \<noteq> ''-'' \<and> is_option_argument a"
    by (auto split: if_splits)
  show ?case
  proof (cases "invocation_letters (hd a = CHR ''-'') (tl a) as k p")
    case (Inl e')
    with "2.prems" opt have "e' = e" by (simp split: if_splits)
    with invocation_letters_error [OF Inl] show ?thesis by simp
  next
    case (Inr x)
    then obtain p1 r1 k1 where l: "invocation_letters (hd a = CHR ''-'') (tl a) as k p = Inr (p1, r1, k1)"
      by (cases x) auto
    have len: "k1 + length r1 = k + length as" "k \<le> k1"
      using invocation_letters_rest [OF l] by (cases as; auto)+
    show ?thesis
    proof (cases "os_command_string p1 \<and> os_standard_input p1")
      case True
      with "2.prems" opt l len show ?thesis
        by (auto simp: invocation_error_def no_error_def split: if_splits)
    next
      case False
      with "2.prems" opt l have "invocation_words r1 (k1 + 1) p1 = Inl e"
        by (auto split: if_splits)
      with "2.IH" [OF _ _ l refl refl] opt False len show ?thesis by auto
    qed
  qed
qed

definition fresh_scan :: option_scan where
  "fresh_scan = \<lparr>os_options = 0, os_mask = 0, os_command_string = False,
     os_standard_input = False, os_interactive = False\<rparr>"

text \<open>What a successful parse went through.\<close>

lemma csh_invocation_parse_ok:
  assumes "csh_invocation_parse argv os h = Some (Inr iv, h')"
  obtains p rest k mode arg0 src index args i h1 where
    "argv \<noteq> []" "None \<notin> set argv"
    "invocation_words (map the (tl argv)) 1 fresh_scan = Inr (p, rest, k)"
    "invocation_source (the (hd argv)) (p, rest, k) = Inr (mode, arg0, src, index, args)"
    "open_source mode src os h1 = Some (Inr i, h')"
    "inv_input iv = i" "inv_mode iv = mode" "inv_options iv = os_options p"
    "inv_option_mask iv = os_mask p" "inv_arg0 iv = arg0" "inv_arguments iv = args"
    "inv_interactive iv = (os_interactive p \<or> mode = CSH_MODE_STDIN \<and> ia_stdin_tty os \<and> ia_stderr_tty os)"
  using assms
  by (auto simp: csh_invocation_parse_def fresh_scan_def
      split: if_splits sum.splits prod.splits bool.splits option.splits)

subsection \<open>Properties\<close>



text \<open>
  a malformed option word is refused with the usage status 2 before anything is allocated or
  opened, and the error points at an existing argument after the command name.
\<close>

theorem invocation_usage_error:
  assumes "argv \<noteq> []" and "None \<notin> set argv"
    and "invocation_words (map the (tl argv)) 1 fresh_scan = Inl e"
  shows "csh_invocation_parse argv os h = Some (Inl e, h) \<and> status e = 2 \<and>
    1 \<le> argument_index e \<and> argument_index e < length argv"
  using assms invocation_words_error [OF assms(3)]
  by (cases argv) (auto simp: csh_invocation_parse_def fresh_scan_def)

theorem invocation_usage_error_witness:
  "\<exists>e. invocation_words (map the (tl (map Some [''cshell'', ''-cs'']))) 1 fresh_scan = Inl e \<and>
     status e = 2 \<and> argument_index e < 2 \<and>
     message e = ''-c and -s cannot be combined''"
proof -
  obtain e where e: "invocation_words (map the (tl (map Some [''cshell'', ''-cs'']))) 1 fresh_scan = Inl e"
    and m: "message e = ''-c and -s cannot be combined''"
    by (simp add: fresh_scan_def is_option_argument_def csh_option_letter_def CSH_OPTION_LIST_def
        invocation_error_def)
  from invocation_usage_error [OF _ _ e] e m show ?thesis by (auto simp: numeral_2_eq_2)
qed

end
