(* ===== verification/State.thy ===== *)
theory State
  imports Alias Invocation
begin

text \<open>
  \<open>src/state.c\<close>: variables, functions, positional parameters, the command-path cache, the
  status fields, copies and checkpoints. \<open>csh_state\<close> is \<open>struct csh_state\<close> with its linked
  lists as lists in link order. An operation takes the state and the \<open>world\<close> and returns the
  result code, the state and the world.

  The world is what the process shares: the outcomes of coming allocations, the libc locale
  per category with the host's installed locales, and the reference counts of function
  payloads (a payload is a number; \<open>finalized\<close> collects the payloads whose \<open>destroy\<close> ran).
  The state pointer itself is never \<open>NULL\<close> here; \<open>NULL\<close> names and values are \<open>None\<close>.
\<close>

subsection \<open>Model\<close>

datatype csh_state_result =
  CSH_STATE_OK | CSH_STATE_INVALID | CSH_STATE_NOMEM | CSH_STATE_READONLY

definition CSH_VAR_EXPORT :: uint where "CSH_VAR_EXPORT = push_bit 0 1"
definition CSH_VAR_READONLY :: uint where "CSH_VAR_READONLY = push_bit 1 1"
definition VARIABLE_ATTRIBUTES :: uint where
  "VARIABLE_ATTRIBUTES = CSH_VAR_EXPORT OR CSH_VAR_READONLY"

record variable =
  v_name :: string
  v_value :: "string option"
  v_attributes :: uint

record function_entry =
  f_name :: string
  f_value :: nat

record csh_state_info =
  si_source_depth :: uint
  si_function_depth :: uint
  si_argument_count :: nat
  si_last_status :: int
  si_shell_pid :: int
  si_background_pid :: int
  si_mode :: csh_input_mode
  si_options :: uint
  si_errexit_ignored :: uint

record csh_state =
  st_manages_locale :: bool
  st_aliases :: csh_aliases
  st_hashes :: "variable list"
  st_getopts_offset :: nat
  st_functions :: "function_entry list"
  st_variables :: "variable list"
  st_arg0 :: string
  st_arguments :: "string list"
  st_info :: csh_state_info

record world =
  mallocs :: heap
  locale_now :: "string \<Rightarrow> string"
  installed :: "string \<Rightarrow> string \<Rightarrow> bool"
  refs :: "nat \<Rightarrow> 64 word"
  finalized :: "nat list"

definition zero_info :: csh_state_info where
  "zero_info = \<lparr>si_source_depth = 0, si_function_depth = 0, si_argument_count = 0,
     si_last_status = 0, si_shell_pid = 0, si_background_pid = 0, si_mode = CSH_MODE_STDIN,
     si_options = 0, si_errexit_ignored = 0\<rparr>"

text \<open>The zeroed \<open>struct csh_state\<close> (its \<open>arg0\<close> is filled in before it is read).\<close>

definition zero_state :: csh_state where
  "zero_state = \<lparr>st_manages_locale = False, st_aliases = None, st_hashes = [],
     st_getopts_offset = 0, st_functions = [], st_variables = [], st_arg0 = [],
     st_arguments = [], st_info = zero_info\<rparr>"

subsubsection \<open>Names and copies\<close>

definition name_start :: "char \<Rightarrow> bool" where
  "name_start byte \<longleftrightarrow>
     (CHR ''a'' \<le> byte \<and> byte \<le> CHR ''z'') \<or> (CHR ''A'' \<le> byte \<and> byte \<le> CHR ''Z'') \<or>
     byte = CHR ''_''"

definition valid_name :: "string \<Rightarrow> bool" where
  "valid_name name =
     (case name of
        [] \<Rightarrow> False
      | c # cs \<Rightarrow>
          name_start c \<and>
          list_all (\<lambda>b. name_start b \<or> (CHR ''0'' \<le> b \<and> b \<le> CHR ''9'')) cs)"

definition copy_bytes :: "string \<Rightarrow> heap \<Rightarrow> string option \<times> heap" where
  "copy_bytes text h =
     (if length text = SIZE_MAX then (None, h)
      else case malloc h of (False, h) \<Rightarrow> (None, h) | (True, h) \<Rightarrow> (Some text, h))"

definition find_variable :: "csh_state \<Rightarrow> string \<Rightarrow> variable option" where
  "find_variable s name = lookup_by v_name name (st_variables s)"

definition new_variable :: "string \<Rightarrow> string option \<Rightarrow> uint \<Rightarrow> heap \<Rightarrow> variable option \<times> heap" where
  "new_variable name value attributes h =
     (case malloc h of
        (False, h) \<Rightarrow> (None, h)
      | (True, h) \<Rightarrow>
          (case copy_bytes name h of
             (None, h) \<Rightarrow> (None, h)
           | (Some n, h) \<Rightarrow>
               (case value of
                  None \<Rightarrow> (Some \<lparr>v_name = n, v_value = None, v_attributes = attributes\<rparr>, h)
                | Some v \<Rightarrow>
                    (case copy_bytes v h of
                       (None, h) \<Rightarrow> (None, h)
                     | (Some c, h) \<Rightarrow>
                         (Some \<lparr>v_name = n, v_value = Some c, v_attributes = attributes\<rparr>, h)))))"

subsubsection \<open>Locale\<close>

definition locale_categories :: "string list" where
  "locale_categories =
     [''LC_CTYPE'', ''LC_COLLATE'', ''LC_MESSAGES'', ''LC_MONETARY'', ''LC_NUMERIC'', ''LC_TIME'']"

definition locale_variable :: "string \<Rightarrow> bool" where
  "locale_variable name \<longleftrightarrow> name = ''LANG'' \<or> name = ''LC_ALL'' \<or> name \<in> set locale_categories"

definition locale_value :: "csh_state \<Rightarrow> string \<Rightarrow> string option" where
  "locale_value s name =
     (case find_variable s name of
        None \<Rightarrow> None
      | Some v \<Rightarrow> (case v_value v of None \<Rightarrow> None | Some x \<Rightarrow> if x = [] then None else Some x))"

fun refresh_categories ::
  "csh_state \<Rightarrow> string option \<Rightarrow> string option \<Rightarrow> string list \<Rightarrow> world \<Rightarrow> world" where
  "refresh_categories s all lang [] w = w"
| "refresh_categories s all lang (c # cs) w =
     (let name = (case (if all \<noteq> None then all else locale_value s c) of
                    Some n \<Rightarrow> n
                  | None \<Rightarrow> (case lang of Some n \<Rightarrow> n | None \<Rightarrow> ''C''))
      in if installed w c name
         then refresh_categories s all lang cs (w\<lparr>locale_now := (locale_now w)(c := name)\<rparr>)
         else w\<lparr>locale_now := (\<lambda>_. ''C'')\<rparr>)"

definition csh_state_refresh_locale :: "csh_state \<Rightarrow> world \<Rightarrow> world" where
  "csh_state_refresh_locale s w =
     (if \<not> st_manages_locale s then w
      else refresh_categories s (locale_value s ''LC_ALL'') (locale_value s ''LANG'') locale_categories w)"

definition csh_state_manage_locale :: "csh_state \<Rightarrow> world \<Rightarrow> csh_state \<times> world" where
  "csh_state_manage_locale s w =
     (let s = s\<lparr>st_manages_locale := True\<rparr> in (s, csh_state_refresh_locale s w))"

subsubsection \<open>Function payloads\<close>

definition csh_function_retain :: "nat option \<Rightarrow> world \<Rightarrow> world" where
  "csh_function_retain f w =
     (case f of None \<Rightarrow> w | Some i \<Rightarrow> w\<lparr>refs := (refs w)(i := refs w i + 1)\<rparr>)"

definition csh_function_release :: "nat option \<Rightarrow> world \<Rightarrow> world" where
  "csh_function_release f w =
     (case f of
        None \<Rightarrow> w
      | Some i \<Rightarrow>
          (let w = w\<lparr>refs := (refs w)(i := refs w i - 1)\<rparr>
           in if refs w i = 0 then w\<lparr>finalized := finalized w @ [i]\<rparr> else w))"

fun release_functions :: "function_entry list \<Rightarrow> world \<Rightarrow> world" where
  "release_functions [] w = w"
| "release_functions (e # es) w = release_functions es (csh_function_release (Some (f_value e)) w)"

text \<open>\<open>csh_state_destroy\<close> frees everything the state owns; what the rest of the process sees
  of it is that its function references are released.\<close>

definition csh_state_destroy :: "csh_state \<Rightarrow> world \<Rightarrow> world" where
  "csh_state_destroy s w = release_functions (st_functions s) w"

subsubsection \<open>The command-path cache\<close>

definition csh_state_hash_clear :: "csh_state \<Rightarrow> csh_state" where
  "csh_state_hash_clear s = s\<lparr>st_hashes := []\<rparr>"

definition csh_state_hash_get :: "csh_state \<Rightarrow> string \<Rightarrow> string option" where
  "csh_state_hash_get s name =
     (case lookup_by v_name name (st_hashes s) of None \<Rightarrow> None | Some e \<Rightarrow> v_value e)"

definition csh_state_hash_set ::
  "csh_state \<Rightarrow> string \<Rightarrow> string option \<Rightarrow> world \<Rightarrow> csh_state_result \<times> csh_state \<times> world" where
  "csh_state_hash_set s name path w =
     (case new_variable name path 0 (mallocs w) of
        (None, h) \<Rightarrow> (CSH_STATE_NOMEM, s, w\<lparr>mallocs := h\<rparr>)
      | (Some e, h) \<Rightarrow>
          (CSH_STATE_OK,
           s\<lparr>st_hashes :=
              (if lookup_by v_name name (st_hashes s) = None then st_hashes s @ [e]
               else update_first (\<lambda>x. v_name x = name) (\<lambda>_. e) (st_hashes s))\<rparr>,
           w\<lparr>mallocs := h\<rparr>))"

text \<open>Owned copies of the names of a list, as \<open>csh_state_names\<close> and \<open>csh_state_hash_names\<close>
  make them: the vector, then each name.\<close>

fun copy_names :: "variable list \<Rightarrow> heap \<Rightarrow> string list option \<times> heap" where
  "copy_names [] h = (Some [], h)"
| "copy_names (v # vs) h =
     (case copy_bytes (v_name v) h of
        (None, h) \<Rightarrow> (None, h)
      | (Some n, h) \<Rightarrow>
          (case copy_names vs h of (None, h) \<Rightarrow> (None, h) | (Some ns, h) \<Rightarrow> (Some (n # ns), h)))"

definition csh_state_hash_names ::
  "csh_state \<Rightarrow> world \<Rightarrow> csh_state_result \<times> string list option \<times> world" where
  "csh_state_hash_names s w =
     (case malloc (mallocs w) of
        (False, h) \<Rightarrow> (CSH_STATE_NOMEM, None, w\<lparr>mallocs := h\<rparr>)
      | (True, h) \<Rightarrow>
          (case copy_names (st_hashes s) h of
             (None, h) \<Rightarrow> (CSH_STATE_NOMEM, None, w\<lparr>mallocs := h\<rparr>)
           | (Some ns, h) \<Rightarrow> (CSH_STATE_OK, Some ns, w\<lparr>mallocs := h\<rparr>)))"

definition csh_state_names ::
  "csh_state \<Rightarrow> world \<Rightarrow> csh_state_result \<times> string list option \<times> world" where
  "csh_state_names s w =
     (if SIZE_MAX div 8 \<le> length (st_variables s) then (CSH_STATE_NOMEM, None, w)
      else
        (case malloc (mallocs w) of
           (False, h) \<Rightarrow> (CSH_STATE_NOMEM, None, w\<lparr>mallocs := h\<rparr>)
         | (True, h) \<Rightarrow>
             (case copy_names (st_variables s) h of
                (None, h) \<Rightarrow> (CSH_STATE_NOMEM, None, w\<lparr>mallocs := h\<rparr>)
              | (Some ns, h) \<Rightarrow> (CSH_STATE_OK, Some ns, w\<lparr>mallocs := h\<rparr>))))"

subsubsection \<open>Variables\<close>

record csh_variable_view =
  view_value :: "string option"
  view_attributes :: uint

definition no_view :: csh_variable_view where
  "no_view = \<lparr>view_value = None, view_attributes = 0\<rparr>"

definition csh_state_get_variable ::
  "csh_state \<Rightarrow> string option \<Rightarrow> csh_state_result \<times> csh_variable_view" where
  "csh_state_get_variable s name =
     (case name of
        None \<Rightarrow> (CSH_STATE_INVALID, no_view)
      | Some n \<Rightarrow>
          if \<not> valid_name n then (CSH_STATE_INVALID, no_view)
          else
            (CSH_STATE_OK,
             (case find_variable s n of
                None \<Rightarrow> no_view
              | Some v \<Rightarrow> \<lparr>view_value = v_value v, view_attributes = v_attributes v\<rparr>)))"

text \<open>What assignment does once the value is stored: \<open>allexport\<close>, the path cache for
  \<open>PATH\<close>, the \<open>getopts\<close> position for \<open>OPTIND\<close>, the libc locale for a locale variable.\<close>

definition after_assignment :: "string \<Rightarrow> csh_state \<Rightarrow> world \<Rightarrow> csh_state \<times> world" where
  "after_assignment n s w =
     (let s = (if si_options (st_info s) AND CSH_OPT_ALLEXPORT \<noteq> 0
               then s\<lparr>st_variables := update_first (\<lambda>x. v_name x = n)
                        (\<lambda>x. x\<lparr>v_attributes := v_attributes x OR CSH_VAR_EXPORT\<rparr>) (st_variables s)\<rparr>
               else s);
          s = (if n = ''PATH'' then csh_state_hash_clear s else s);
          s = (if n = ''OPTIND'' then s\<lparr>st_getopts_offset := 0\<rparr> else s)
      in (s, if locale_variable n then csh_state_refresh_locale s w else w))"

definition csh_state_set_variable ::
  "csh_state \<Rightarrow> string option \<Rightarrow> string option \<Rightarrow> world \<Rightarrow> csh_state_result \<times> csh_state \<times> world" where
  "csh_state_set_variable s name value w =
     (case (name, value) of
        (Some n, Some v) \<Rightarrow>
          if \<not> valid_name n then (CSH_STATE_INVALID, s, w)
          else
            (case find_variable s n of
               Some var \<Rightarrow>
                 if v_attributes var AND CSH_VAR_READONLY \<noteq> 0 then (CSH_STATE_READONLY, s, w)
                 else
                   (case copy_bytes v (mallocs w) of
                      (None, h) \<Rightarrow> (CSH_STATE_NOMEM, s, w\<lparr>mallocs := h\<rparr>)
                    | (Some c, h) \<Rightarrow>
                        (CSH_STATE_OK,
                         after_assignment n
                           (s\<lparr>st_variables := update_first (\<lambda>x. v_name x = n)
                                (\<lambda>x. x\<lparr>v_value := Some c\<rparr>) (st_variables s)\<rparr>)
                           (w\<lparr>mallocs := h\<rparr>)))
             | None \<Rightarrow>
                 (case new_variable n (Some v) 0 (mallocs w) of
                    (None, h) \<Rightarrow> (CSH_STATE_NOMEM, s, w\<lparr>mallocs := h\<rparr>)
                  | (Some var, h) \<Rightarrow>
                      (CSH_STATE_OK,
                       after_assignment n (s\<lparr>st_variables := var # st_variables s\<rparr>)
                         (w\<lparr>mallocs := h\<rparr>))))
      | _ \<Rightarrow> (CSH_STATE_INVALID, s, w))"

definition csh_state_update_attributes ::
  "csh_state \<Rightarrow> string option \<Rightarrow> uint \<Rightarrow> uint \<Rightarrow> world \<Rightarrow> csh_state_result \<times> csh_state \<times> world" where
  "csh_state_update_attributes s name sets clears w =
     (case name of
        None \<Rightarrow> (CSH_STATE_INVALID, s, w)
      | Some n \<Rightarrow>
          if \<not> valid_name n \<or> (sets OR clears) AND NOT VARIABLE_ATTRIBUTES \<noteq> 0 \<or>
             sets AND clears \<noteq> 0
          then (CSH_STATE_INVALID, s, w)
          else
            (case find_variable s n of
               Some var \<Rightarrow>
                 if v_attributes var AND CSH_VAR_READONLY \<noteq> 0 \<and> clears AND CSH_VAR_READONLY \<noteq> 0
                 then (CSH_STATE_READONLY, s, w)
                 else
                   (CSH_STATE_OK,
                    s\<lparr>st_variables := update_first (\<lambda>x. v_name x = n)
                        (\<lambda>x. x\<lparr>v_attributes := (v_attributes x OR sets) AND NOT clears\<rparr>)
                        (st_variables s)\<rparr>, w)
             | None \<Rightarrow>
                 if sets AND NOT clears = 0 then (CSH_STATE_OK, s, w)
                 else
                   (case new_variable n None (sets AND NOT clears) (mallocs w) of
                      (None, h) \<Rightarrow> (CSH_STATE_NOMEM, s, w\<lparr>mallocs := h\<rparr>)
                    | (Some var, h) \<Rightarrow>
                        (CSH_STATE_OK, s\<lparr>st_variables := var # st_variables s\<rparr>,
                         w\<lparr>mallocs := h\<rparr>))))"

definition csh_state_unset_variable ::
  "csh_state \<Rightarrow> string option \<Rightarrow> world \<Rightarrow> csh_state_result \<times> csh_state \<times> world" where
  "csh_state_unset_variable s name w =
     (case name of
        None \<Rightarrow> (CSH_STATE_INVALID, s, w)
      | Some n \<Rightarrow>
          if \<not> valid_name n then (CSH_STATE_INVALID, s, w)
          else
            (case find_variable s n of
               None \<Rightarrow> (CSH_STATE_OK, s, w)
             | Some var \<Rightarrow>
                 if v_attributes var AND CSH_VAR_READONLY \<noteq> 0 then (CSH_STATE_READONLY, s, w)
                 else
                   (let s = s\<lparr>st_variables := remove_first (\<lambda>x. v_name x = n) (st_variables s)\<rparr>;
                        s = (if n = ''PATH'' then csh_state_hash_clear s else s)
                    in (CSH_STATE_OK, s,
                        if locale_variable n then csh_state_refresh_locale s w else w))))"

subsubsection \<open>Selective saves\<close>

record csh_variable_save =
  save_variable :: variable
  save_present :: bool

fun save_loop ::
  "csh_state \<Rightarrow> string list \<Rightarrow> csh_variable_save list \<Rightarrow> world \<Rightarrow>
   csh_state_result \<times> csh_variable_save list option \<times> world" where
  "save_loop s [] out w = (CSH_STATE_OK, Some out, w)"
| "save_loop s (n # ns) out w =
     (if find (\<lambda>e. v_name (save_variable e) = n) out \<noteq> None then save_loop s ns out w
      else
        (case malloc (mallocs w) of
           (False, h) \<Rightarrow> (CSH_STATE_NOMEM, None, w\<lparr>mallocs := h\<rparr>)
         | (True, h) \<Rightarrow>
             (case new_variable n
                     (case find_variable s n of None \<Rightarrow> None | Some v \<Rightarrow> v_value v)
                     (case find_variable s n of None \<Rightarrow> 0 | Some v \<Rightarrow> v_attributes v) h of
                (None, h) \<Rightarrow> (CSH_STATE_NOMEM, None, w\<lparr>mallocs := h\<rparr>)
              | (Some v, h) \<Rightarrow>
                  save_loop s ns
                    (\<lparr>save_variable = v, save_present = (find_variable s n \<noteq> None)\<rparr> # out)
                    (w\<lparr>mallocs := h\<rparr>))))"

definition csh_state_save_variables ::
  "csh_state \<Rightarrow> string option list \<Rightarrow> world \<Rightarrow>
   csh_state_result \<times> csh_variable_save list option \<times> world" where
  "csh_state_save_variables s names w =
     (if list_ex (\<lambda>n. case n of None \<Rightarrow> True | Some n \<Rightarrow> \<not> valid_name n) names
      then (CSH_STATE_INVALID, None, w)
      else save_loop s (map the names) [] w)"

fun restore_loop :: "csh_variable_save list \<Rightarrow> csh_state \<Rightarrow> csh_state" where
  "restore_loop [] s = s"
| "restore_loop (e # es) s =
     (let n = v_name (save_variable e);
          s = (if n = ''PATH'' then csh_state_hash_clear s else s);
          vs = remove_first (\<lambda>x. v_name x = n) (st_variables s)
      in restore_loop es
           (s\<lparr>st_variables := (if save_present e then save_variable e # vs else vs)\<rparr>))"

definition csh_state_restore_variables ::
  "csh_state \<Rightarrow> csh_variable_save list \<Rightarrow> world \<Rightarrow> csh_state_result \<times> csh_state \<times> world" where
  "csh_state_restore_variables s save w =
     (let s = restore_loop save s
      in (CSH_STATE_OK, s,
          if list_ex (\<lambda>e. locale_variable (v_name (save_variable e))) save
          then csh_state_refresh_locale s w else w))"

subsubsection \<open>Positional parameters\<close>

fun copy_vector :: "string list \<Rightarrow> heap \<Rightarrow> string list option \<times> heap" where
  "copy_vector [] h = (Some [], h)"
| "copy_vector (a # as) h =
     (case copy_bytes a h of
        (None, h) \<Rightarrow> (None, h)
      | (Some c, h) \<Rightarrow>
          (case copy_vector as h of (None, h) \<Rightarrow> (None, h) | (Some cs, h) \<Rightarrow> (Some (c # cs), h)))"

definition csh_state_set_parameters ::
  "csh_state \<Rightarrow> string option list \<Rightarrow> world \<Rightarrow> csh_state_result \<times> csh_state \<times> world" where
  "csh_state_set_parameters s args w =
     (if SIZE_MAX div 8 - 1 < length args then (CSH_STATE_NOMEM, s, w)
      else if None \<in> set args then (CSH_STATE_INVALID, s, w)
      else
        (case malloc (mallocs w) of
           (False, h) \<Rightarrow> (CSH_STATE_NOMEM, s, w\<lparr>mallocs := h\<rparr>)
         | (True, h) \<Rightarrow>
             (case copy_vector (map the args) h of
                (None, h) \<Rightarrow> (CSH_STATE_NOMEM, s, w\<lparr>mallocs := h\<rparr>)
              | (Some copy, h) \<Rightarrow>
                  (CSH_STATE_OK,
                   s\<lparr>st_arguments := copy,
                     st_info := (st_info s)\<lparr>si_argument_count := length args\<rparr>\<rparr>,
                   w\<lparr>mallocs := h\<rparr>))))"

definition csh_state_parameter :: "csh_state \<Rightarrow> nat \<Rightarrow> string option" where
  "csh_state_parameter s index =
     (if si_argument_count (st_info s) < index then None
      else Some (if index = 0 then st_arg0 s else st_arguments s ! (index - 1)))"

record csh_parameter_save =
  ps_arguments :: "string list"
  ps_count :: nat

definition csh_state_push_parameters ::
  "csh_state \<Rightarrow> string option list \<Rightarrow> world \<Rightarrow>
   csh_state_result \<times> csh_state \<times> csh_parameter_save option \<times> world" where
  "csh_state_push_parameters s args w =
     (case csh_state_set_parameters zero_state args w of
        (CSH_STATE_OK, temporary, w) \<Rightarrow>
          (CSH_STATE_OK,
           s\<lparr>st_arguments := st_arguments temporary,
             st_info := (st_info s)\<lparr>si_argument_count := length args\<rparr>\<rparr>,
           Some \<lparr>ps_arguments = st_arguments s, ps_count = si_argument_count (st_info s)\<rparr>, w)
      | (rc, _, w) \<Rightarrow> (rc, s, None, w))"

definition csh_state_pop_parameters :: "csh_state \<Rightarrow> csh_parameter_save \<Rightarrow> csh_state" where
  "csh_state_pop_parameters s save =
     s\<lparr>st_arguments := ps_arguments save,
       st_info := (st_info s)\<lparr>si_argument_count := ps_count save\<rparr>\<rparr>"

subsubsection \<open>Status fields\<close>

definition csh_state_get_info :: "csh_state \<Rightarrow> csh_state_info" where
  "csh_state_get_info s = st_info s"

definition csh_state_set_status :: "csh_state \<Rightarrow> int \<Rightarrow> csh_state_result \<times> csh_state" where
  "csh_state_set_status s st =
     (if st < 0 then (CSH_STATE_INVALID, s)
      else (CSH_STATE_OK, s\<lparr>st_info := (st_info s)\<lparr>si_last_status := st\<rparr>\<rparr>))"

definition csh_state_set_background :: "csh_state \<Rightarrow> int \<Rightarrow> csh_state_result \<times> csh_state" where
  "csh_state_set_background s pid =
     (if pid < 0 then (CSH_STATE_INVALID, s)
      else (CSH_STATE_OK, s\<lparr>st_info := (st_info s)\<lparr>si_background_pid := pid\<rparr>\<rparr>))"

definition csh_state_set_errexit_ignored :: "csh_state \<Rightarrow> uint \<Rightarrow> csh_state" where
  "csh_state_set_errexit_ignored s depth =
     s\<lparr>st_info := (st_info s)\<lparr>si_errexit_ignored := depth\<rparr>\<rparr>"

definition csh_state_set_function_depth :: "csh_state \<Rightarrow> uint \<Rightarrow> csh_state" where
  "csh_state_set_function_depth s depth =
     s\<lparr>st_info := (st_info s)\<lparr>si_function_depth := depth\<rparr>\<rparr>"

definition csh_state_set_source_depth :: "csh_state \<Rightarrow> uint \<Rightarrow> csh_state" where
  "csh_state_set_source_depth s depth =
     s\<lparr>st_info := (st_info s)\<lparr>si_source_depth := depth\<rparr>\<rparr>"

definition csh_state_set_getopts_offset :: "csh_state \<Rightarrow> nat \<Rightarrow> csh_state" where
  "csh_state_set_getopts_offset s offset = s\<lparr>st_getopts_offset := offset\<rparr>"

definition csh_state_update_options ::
  "csh_state \<Rightarrow> uint \<Rightarrow> uint \<Rightarrow> csh_state_result \<times> csh_state" where
  "csh_state_update_options s sets clears =
     (if (sets OR clears) AND NOT SHELL_OPTIONS \<noteq> 0 \<or> sets AND clears \<noteq> 0
      then (CSH_STATE_INVALID, s)
      else
        (CSH_STATE_OK,
         s\<lparr>st_info := (st_info s)\<lparr>si_options := (si_options (st_info s) OR sets) AND NOT clears\<rparr>\<rparr>))"

definition csh_state_aliases :: "csh_state \<Rightarrow> world \<Rightarrow> csh_aliases \<times> csh_state \<times> world" where
  "csh_state_aliases s w =
     (case st_aliases s of
        Some t \<Rightarrow> (Some t, s, w)
      | None \<Rightarrow>
          (case csh_aliases_create (mallocs w) of
             (e, al, h) \<Rightarrow> (al, s\<lparr>st_aliases := al\<rparr>, w\<lparr>mallocs := h\<rparr>)))"

subsubsection \<open>Functions\<close>

definition csh_state_function :: "csh_state \<Rightarrow> string option \<Rightarrow> nat option" where
  "csh_state_function s name =
     (case name of
        None \<Rightarrow> None
      | Some n \<Rightarrow> map_option f_value (lookup_by f_name n (st_functions s)))"

definition csh_state_set_function ::
  "csh_state \<Rightarrow> string option \<Rightarrow> nat option \<Rightarrow> world \<Rightarrow> csh_state_result \<times> csh_state \<times> world" where
  "csh_state_set_function s name function w =
     (case name of
        None \<Rightarrow> (CSH_STATE_INVALID, s, w)
      | Some n \<Rightarrow>
          if \<not> valid_name n then (CSH_STATE_INVALID, s, w)
          else
            (case (function, lookup_by f_name n (st_functions s)) of
               (None, None) \<Rightarrow> (CSH_STATE_OK, s, w)
             | (None, Some e) \<Rightarrow>
                 (CSH_STATE_OK,
                  s\<lparr>st_functions := remove_first (\<lambda>x. f_name x = n) (st_functions s)\<rparr>,
                  csh_function_release (Some (f_value e)) w)
             | (Some f, Some e) \<Rightarrow>
                 (CSH_STATE_OK,
                  s\<lparr>st_functions := update_first (\<lambda>x. f_name x = n)
                       (\<lambda>x. x\<lparr>f_value := f\<rparr>) (st_functions s)\<rparr>,
                  csh_function_release (Some (f_value e)) (csh_function_retain (Some f) w))
             | (Some f, None) \<Rightarrow>
                 (case malloc (mallocs w) of
                    (False, h) \<Rightarrow> (CSH_STATE_NOMEM, s, w\<lparr>mallocs := h\<rparr>)
                  | (True, h) \<Rightarrow>
                      (case copy_bytes n h of
                         (None, h) \<Rightarrow> (CSH_STATE_NOMEM, s, w\<lparr>mallocs := h\<rparr>)
                       | (Some nm, h) \<Rightarrow>
                           (CSH_STATE_OK,
                            s\<lparr>st_functions := st_functions s @ [\<lparr>f_name = nm, f_value = f\<rparr>]\<rparr>,
                            csh_function_retain (Some f) (w\<lparr>mallocs := h\<rparr>))))))"

subsubsection \<open>The environment\<close>

fun import_environment ::
  "string list \<Rightarrow> csh_state \<Rightarrow> world \<Rightarrow> csh_state_result \<times> csh_state \<times> world" where
  "import_environment [] s w = (CSH_STATE_OK, s, w)"
| "import_environment (e # es) s w =
     (if CHR ''='' \<notin> set e \<or> \<not> valid_name (takeWhile (\<lambda>c. c \<noteq> CHR ''='') e)
      then import_environment es s w
      else
        (case copy_bytes (takeWhile (\<lambda>c. c \<noteq> CHR ''='') e) (mallocs w) of
           (None, h) \<Rightarrow> (CSH_STATE_NOMEM, s, w\<lparr>mallocs := h\<rparr>)
         | (Some name, h) \<Rightarrow>
             (case csh_state_set_variable s (Some name)
                     (Some (tl (dropWhile (\<lambda>c. c \<noteq> CHR ''='') e))) (w\<lparr>mallocs := h\<rparr>) of
                (CSH_STATE_OK, s, w) \<Rightarrow>
                  (case csh_state_update_attributes s (Some name) CSH_VAR_EXPORT 0 w of
                     (CSH_STATE_OK, s, w) \<Rightarrow> import_environment es s w
                   | (r, s, w) \<Rightarrow> (r, s, w))
              | (r, s, w) \<Rightarrow> (r, s, w))))"

definition csh_state_create ::
  "csh_invocation \<Rightarrow> string list option \<Rightarrow> int \<Rightarrow> world \<Rightarrow> csh_state_result \<times> csh_state option \<times> world" where
  "csh_state_create iv envp pid w =
     (case malloc (mallocs w) of
        (False, h) \<Rightarrow> (CSH_STATE_NOMEM, None, w\<lparr>mallocs := h\<rparr>)
      | (True, h) \<Rightarrow>
          (case copy_bytes (inv_arg0 iv) h of
             (None, h) \<Rightarrow> (CSH_STATE_NOMEM, None, w\<lparr>mallocs := h\<rparr>)
           | (Some a0, h) \<Rightarrow>
               (case csh_state_set_parameters (zero_state\<lparr>st_arg0 := a0\<rparr>)
                       (map Some (inv_arguments iv)) (w\<lparr>mallocs := h\<rparr>) of
                  (CSH_STATE_OK, s, w) \<Rightarrow>
                    (case (case envp of None \<Rightarrow> (CSH_STATE_OK, s, w)
                                      | Some es \<Rightarrow> import_environment es s w) of
                       (CSH_STATE_OK, s, w) \<Rightarrow>
                         (CSH_STATE_OK,
                          Some (s\<lparr>st_info := (st_info s)\<lparr>si_shell_pid := pid, si_mode := inv_mode iv,
                             si_options := inv_options iv OR
                               (if inv_interactive iv then CSH_OPT_INTERACTIVE else 0)\<rparr>\<rparr>), w)
                     | (r, s, w) \<Rightarrow> (r, None, csh_state_destroy s w))
                | (r, s, w) \<Rightarrow> (r, None, csh_state_destroy s w))))"

definition exported :: "variable \<Rightarrow> bool" where
  "exported v \<longleftrightarrow> v_value v \<noteq> None \<and> v_attributes v AND CSH_VAR_EXPORT \<noteq> 0"

fun environment_entries :: "variable list \<Rightarrow> heap \<Rightarrow> string list option \<times> heap" where
  "environment_entries [] h = (Some [], h)"
| "environment_entries (v # vs) h =
     (if \<not> exported v then environment_entries vs h
      else if SIZE_MAX - 2 < length (v_name v) \<or>
              SIZE_MAX - length (v_name v) - 2 < length (the (v_value v)) then (None, h)
      else
        (case malloc h of
           (False, h) \<Rightarrow> (None, h)
         | (True, h) \<Rightarrow>
             (case environment_entries vs h of
                (None, h) \<Rightarrow> (None, h)
              | (Some es, h) \<Rightarrow> (Some ((v_name v @ ''='' @ the (v_value v)) # es), h))))"

definition csh_state_environment ::
  "csh_state \<Rightarrow> world \<Rightarrow> csh_state_result \<times> string list option \<times> world" where
  "csh_state_environment s w =
     (if SIZE_MAX div 8 - 1 < length (filter exported (st_variables s)) then (CSH_STATE_NOMEM, None, w)
      else
        (case malloc (mallocs w) of
           (False, h) \<Rightarrow> (CSH_STATE_NOMEM, None, w\<lparr>mallocs := h\<rparr>)
         | (True, h) \<Rightarrow>
             (case environment_entries (st_variables s) h of
                (None, h) \<Rightarrow> (CSH_STATE_NOMEM, None, w\<lparr>mallocs := h\<rparr>)
              | (Some es, h) \<Rightarrow> (CSH_STATE_OK, Some es, w\<lparr>mallocs := h\<rparr>))))"

subsubsection \<open>Copies and checkpoints\<close>

text \<open>The loops of \<open>csh_state_clone\<close>, each on the copy built so far; \<open>False\<close> is \<open>goto
  failure\<close>.\<close>

fun clone_variables :: "variable list \<Rightarrow> csh_state \<Rightarrow> world \<Rightarrow> bool \<times> csh_state \<times> world" where
  "clone_variables [] c w = (True, c, w)"
| "clone_variables (v # vs) c w =
     (case new_variable (v_name v) (v_value v) (v_attributes v) (mallocs w) of
        (None, h) \<Rightarrow> (False, c, w\<lparr>mallocs := h\<rparr>)
      | (Some x, h) \<Rightarrow>
          clone_variables vs (c\<lparr>st_variables := st_variables c @ [x]\<rparr>) (w\<lparr>mallocs := h\<rparr>))"

fun clone_functions :: "function_entry list \<Rightarrow> csh_state \<Rightarrow> world \<Rightarrow> bool \<times> csh_state \<times> world" where
  "clone_functions [] c w = (True, c, w)"
| "clone_functions (e # es) c w =
     (case csh_state_set_function c (Some (f_name e)) (Some (f_value e)) w of
        (CSH_STATE_OK, c, w) \<Rightarrow> clone_functions es c w
      | (_, c, w) \<Rightarrow> (False, c, w))"

fun clone_hashes :: "variable list \<Rightarrow> csh_state \<Rightarrow> world \<Rightarrow> bool \<times> csh_state \<times> world" where
  "clone_hashes [] c w = (True, c, w)"
| "clone_hashes (v # vs) c w =
     (case csh_state_hash_set c (v_name v) (v_value v) w of
        (CSH_STATE_OK, c, w) \<Rightarrow> clone_hashes vs c w
      | (_, c, w) \<Rightarrow> (False, c, w))"

definition clone_tables :: "csh_state \<Rightarrow> csh_state \<Rightarrow> world \<Rightarrow> bool \<times> csh_state \<times> world" where
  "clone_tables s c w =
     (case clone_variables (st_variables s) c w of
        (False, c, w) \<Rightarrow> (False, c, w)
      | (True, c, w) \<Rightarrow>
          (case clone_functions (st_functions s) c w of
             (False, c, w) \<Rightarrow> (False, c, w)
           | (True, c, w) \<Rightarrow>
               (case csh_aliases_clone (st_aliases s) (mallocs w) of
                  (Some e, al, h) \<Rightarrow> (False, c\<lparr>st_aliases := al\<rparr>, w\<lparr>mallocs := h\<rparr>)
                | (None, al, h) \<Rightarrow>
                    clone_hashes (st_hashes s) (c\<lparr>st_aliases := al\<rparr>) (w\<lparr>mallocs := h\<rparr>))))"

definition csh_state_clone ::
  "csh_state \<Rightarrow> world \<Rightarrow> csh_state_result \<times> csh_state option \<times> world" where
  "csh_state_clone s w =
     (case malloc (mallocs w) of
        (False, h) \<Rightarrow> (CSH_STATE_NOMEM, None, w\<lparr>mallocs := h\<rparr>)
      | (True, h) \<Rightarrow>
          (case copy_bytes (st_arg0 s) h of
             (None, h) \<Rightarrow> (CSH_STATE_NOMEM, None, w\<lparr>mallocs := h\<rparr>)
           | (Some a0, h) \<Rightarrow>
               (case csh_state_set_parameters (zero_state\<lparr>st_arg0 := a0\<rparr>)
                       (map Some (take (si_argument_count (st_info s)) (st_arguments s)))
                       (w\<lparr>mallocs := h\<rparr>) of
                  (CSH_STATE_OK, c, w) \<Rightarrow>
                    (case clone_tables s c w of
                       (False, c, w) \<Rightarrow> (CSH_STATE_NOMEM, None, csh_state_destroy c w)
                     | (True, c, w) \<Rightarrow>
                         (CSH_STATE_OK,
                          Some (c\<lparr>st_manages_locale := st_manages_locale s,
                                  st_getopts_offset := st_getopts_offset s,
                                  st_info := st_info s\<rparr>), w))
                | (r, c, w) \<Rightarrow> (CSH_STATE_NOMEM, None, csh_state_destroy c w))))"

text \<open>A checkpoint owns a copy.\<close>

definition csh_state_save ::
  "csh_state \<Rightarrow> world \<Rightarrow> csh_state_result \<times> csh_state option \<times> world" where
  "csh_state_save s w =
     (case malloc (mallocs w) of
        (False, h) \<Rightarrow> (CSH_STATE_NOMEM, None, w\<lparr>mallocs := h\<rparr>)
      | (True, h) \<Rightarrow> csh_state_clone s (w\<lparr>mallocs := h\<rparr>))"

definition csh_state_checkpoint_destroy :: "csh_state option \<Rightarrow> world \<Rightarrow> world" where
  "csh_state_checkpoint_destroy cp w =
     (case cp of None \<Rightarrow> w | Some c \<Rightarrow> csh_state_destroy c w)"

text \<open>Restoring swaps the two states and destroys the discarded one with the checkpoint.\<close>

definition csh_state_restore ::
  "csh_state \<Rightarrow> csh_state option \<Rightarrow> world \<Rightarrow> csh_state_result \<times> csh_state \<times> world" where
  "csh_state_restore s cp w =
     (case cp of
        None \<Rightarrow> (CSH_STATE_INVALID, s, w)
      | Some saved \<Rightarrow>
          (CSH_STATE_OK, saved,
           csh_state_refresh_locale saved (csh_state_checkpoint_destroy (Some s) w)))"

end
