(* ===== verification/State_Facts.thy ===== *)
theory State_Facts
  imports State
begin

text \<open>
  What the operations of \<open>State\<close> promise one by one: the tables implement the table interfaces,
  every operation keeps the state well-formed, a failed one changes nothing, a successful one
  has the effect stated here in closed form. The properties built on these lemmas are in
  \<open>State_Copies\<close>, \<open>State_Props\<close> and \<open>State_Machine\<close>.
\<close>

subsection \<open>Copies\<close>

lemma copy_bytes_Some: "copy_bytes t h = (Some x, h') \<Longrightarrow> x = t"
  by (auto simp: copy_bytes_def split: if_splits prod.splits bool.splits)

lemma new_variable_Some:
  "new_variable n v a h = (Some x, h') \<Longrightarrow> x = \<lparr>v_name = n, v_value = v, v_attributes = a\<rparr>"
  by (auto simp: new_variable_def dest!: copy_bytes_Some split: prod.splits bool.splits option.splits)

lemma copy_vector_Some: "copy_vector as h = (Some xs, h') \<Longrightarrow> xs = as"
  by (induction as arbitrary: h xs h')
    (auto dest!: copy_bytes_Some split: prod.splits option.splits)

lemma copy_names_Some: "copy_names vs h = (Some ns, h') \<Longrightarrow> ns = map v_name vs"
  by (induction vs arbitrary: h ns h')
    (auto dest!: copy_bytes_Some split: prod.splits option.splits)

lemma variable_eta [simp]:
  "\<lparr>v_name = v_name v, v_value = v_value v, v_attributes = v_attributes v\<rparr> = v"
  by (cases v) simp

lemma function_entry_eta [simp]: "\<lparr>f_name = f_name e, f_value = f_value e\<rparr> = e"
  by (cases e) simp

subsection \<open>The tables implement their interfaces\<close>

interpretation variable_table: keyed_table v_name "put_head v_name"
  by unfold_locales (rule put_head_laws; assumption?)+

interpretation function_table: ordered_table f_name "put_tail f_name" "\<lambda>t. distinct (map f_name t)"
  by unfold_locales (auto simp: put_tail_laws(1,2) put_tail_snoc dest: subsetD [OF put_tail_set])

interpretation hash_table: ordered_table v_name "put_tail v_name" "\<lambda>t. distinct (map v_name t)"
  by unfold_locales (auto simp: put_tail_laws(1,2) put_tail_snoc dest: subsetD [OF put_tail_set])

subsection \<open>Well-formed states\<close>

definition wf_variables :: "variable list \<Rightarrow> bool" where
  "wf_variables vs \<longleftrightarrow>
     distinct (map v_name vs) \<and>
     (\<forall>v\<in>set vs. valid_name (v_name v) \<and> v_attributes v AND NOT VARIABLE_ATTRIBUTES = 0)"

definition wf_functions :: "function_entry list \<Rightarrow> bool" where
  "wf_functions fs \<longleftrightarrow> distinct (map f_name fs) \<and> (\<forall>e\<in>set fs. valid_name (f_name e))"

definition wf_hashes :: "variable list \<Rightarrow> bool" where
  "wf_hashes hs \<longleftrightarrow> distinct (map v_name hs) \<and> (\<forall>v\<in>set hs. v_attributes v = 0)"

definition wf_info :: "csh_state_info \<Rightarrow> bool" where
  "wf_info i \<longleftrightarrow>
     0 \<le> si_last_status i \<and> 0 \<le> si_background_pid i \<and> si_options i AND NOT SHELL_OPTIONS = 0"

definition wf_state :: "csh_state \<Rightarrow> bool" where
  "wf_state s \<longleftrightarrow>
     wf_variables (st_variables s) \<and> wf_functions (st_functions s) \<and> wf_hashes (st_hashes s) \<and>
     wf_aliases (st_aliases s) \<and> wf_info (st_info s) \<and>
     si_argument_count (st_info s) = length (st_arguments s)"

lemma wf_variables_put:
  "wf_variables vs \<Longrightarrow> valid_name (v_name e) \<Longrightarrow> v_attributes e AND NOT VARIABLE_ATTRIBUTES = 0 \<Longrightarrow>
   wf_variables (put_head v_name e vs)"
  using variable_table.put_all [of vs "\<lambda>v. valid_name (v_name v) \<and> v_attributes v AND NOT VARIABLE_ATTRIBUTES = 0" e]
  by (simp add: wf_variables_def variable_table.put_distinct)

lemma wf_variables_remove: "wf_variables vs \<Longrightarrow> wf_variables (remove_first (\<lambda>x. v_name x = n) vs)"
  using set_remove_first_subset [of "\<lambda>x. v_name x = n" vs]
  by (auto simp: wf_variables_def remove_first_keys distinct_remove1)

lemma wf_functions_put:
  "wf_functions fs \<Longrightarrow> valid_name (f_name e) \<Longrightarrow> wf_functions (put_tail f_name e fs)"
  using function_table.put_all [of fs "\<lambda>e. valid_name (f_name e)" e]
  by (simp add: wf_functions_def function_table.put_distinct)

lemma wf_functions_remove: "wf_functions fs \<Longrightarrow> wf_functions (remove_first (\<lambda>x. f_name x = n) fs)"
  using set_remove_first_subset [of "\<lambda>x. f_name x = n" fs]
  by (auto simp: wf_functions_def remove_first_keys distinct_remove1)

lemma wf_hashes_put: "wf_hashes hs \<Longrightarrow> v_attributes e = 0 \<Longrightarrow> wf_hashes (put_tail v_name e hs)"
  using hash_table.put_all [of hs "\<lambda>v. v_attributes v = 0" e]
  by (simp add: wf_hashes_def hash_table.put_distinct)

lemma wf_state_variables:
  "wf_state s \<Longrightarrow> wf_variables vs \<Longrightarrow> wf_state (s\<lparr>st_variables := vs\<rparr>)"
  by (simp add: wf_state_def)

lemma wf_state_distinct: "wf_state s \<Longrightarrow> distinct (map v_name (st_variables s))"
  by (simp add: wf_state_def wf_variables_def)

lemma find_variable_wf:
  assumes "wf_state s" and "find_variable s n = Some v"
  shows "v_name v = n" and "valid_name n" and "v_attributes v AND NOT VARIABLE_ATTRIBUTES = 0"
  using assms lookup_by_SomeD [of v_name n "st_variables s" v]
  by (auto simp: wf_state_def wf_variables_def find_variable_def)

subsection \<open>Assignment\<close>

definition readonly :: "csh_state \<Rightarrow> string \<Rightarrow> bool" where
  "readonly s n \<longleftrightarrow>
     (case find_variable s n of None \<Rightarrow> False | Some v \<Rightarrow> v_attributes v AND CSH_VAR_READONLY \<noteq> 0)"

definition allexport :: "csh_state \<Rightarrow> bool" where
  "allexport s \<longleftrightarrow> si_options (st_info s) AND CSH_OPT_ALLEXPORT \<noteq> 0"

definition attributes_of :: "csh_state \<Rightarrow> string \<Rightarrow> uint" where
  "attributes_of s n = (case find_variable s n of None \<Rightarrow> 0 | Some v \<Rightarrow> v_attributes v)"

text \<open>The effect of a successful assignment on the state.\<close>

definition assigned :: "csh_state \<Rightarrow> string \<Rightarrow> string \<Rightarrow> csh_state" where
  "assigned s n v =
     s\<lparr>st_variables := put_head v_name
          \<lparr>v_name = n, v_value = Some v,
           v_attributes = attributes_of s n OR (if allexport s then CSH_VAR_EXPORT else 0)\<rparr>
          (st_variables s),
       st_hashes := (if n = ''PATH'' then [] else st_hashes s),
       st_getopts_offset := (if n = ''OPTIND'' then 0 else st_getopts_offset s)\<rparr>"

lemma after_assignment_state:
  assumes "st_variables s = put_head v_name \<lparr>v_name = n, v_value = Some v, v_attributes = a\<rparr> vs"
  shows "fst (after_assignment n s w) =
    s\<lparr>st_variables := put_head v_name \<lparr>v_name = n, v_value = Some v,
         v_attributes = a OR (if allexport s then CSH_VAR_EXPORT else 0)\<rparr> vs,
      st_hashes := (if n = ''PATH'' then [] else st_hashes s),
      st_getopts_offset := (if n = ''OPTIND'' then 0 else st_getopts_offset s)\<rparr>"
proof -
  have "update_first (\<lambda>x. v_name x = n) (\<lambda>x. x\<lparr>v_attributes := v_attributes x OR CSH_VAR_EXPORT\<rparr>) (st_variables s) =
      put_head v_name \<lparr>v_name = n, v_value = Some v, v_attributes = a OR CSH_VAR_EXPORT\<rparr> vs"
    unfolding assms
  proof (cases "lookup_by v_name n vs")
    case None
    then show "update_first (\<lambda>x. v_name x = n) (\<lambda>x. x\<lparr>v_attributes := v_attributes x OR CSH_VAR_EXPORT\<rparr>)
        (put_head v_name \<lparr>v_name = n, v_value = Some v, v_attributes = a\<rparr> vs) =
        put_head v_name \<lparr>v_name = n, v_value = Some v, v_attributes = a OR CSH_VAR_EXPORT\<rparr> vs"
      by (simp add: put_head_def)
  next
    case (Some x)
    then show "update_first (\<lambda>x. v_name x = n) (\<lambda>x. x\<lparr>v_attributes := v_attributes x OR CSH_VAR_EXPORT\<rparr>)
        (put_head v_name \<lparr>v_name = n, v_value = Some v, v_attributes = a\<rparr> vs) =
        put_head v_name \<lparr>v_name = n, v_value = Some v, v_attributes = a OR CSH_VAR_EXPORT\<rparr> vs"
      by (simp add: put_head_def) (induction vs; auto)
  qed
  then show ?thesis
    by (auto simp: after_assignment_def allexport_def csh_state_hash_clear_def Let_def assms)
qed

lemma csh_state_set_variable_error:
  "csh_state_set_variable s name value w = (r, s', w') \<Longrightarrow> r \<noteq> CSH_STATE_OK \<Longrightarrow>
   s' = s \<and> (\<exists>h. w' = w\<lparr>mallocs := h\<rparr>)"
  by (auto simp: csh_state_set_variable_def split: option.splits prod.splits if_splits
      intro: exI [of _ "mallocs w"])

lemma set_existing_value:
  assumes "find_variable s n = Some x"
  shows "update_first (\<lambda>x. v_name x = n) (\<lambda>x. x\<lparr>v_value := Some v\<rparr>) (st_variables s) =
    put_head v_name \<lparr>v_name = n, v_value = Some v, v_attributes = v_attributes x\<rparr> (st_variables s)"
proof -
  have x: "lookup_by v_name n (st_variables s) = Some x" using assms by (simp add: find_variable_def)
  then have "update_first (\<lambda>x. v_name x = n) (\<lambda>x. x\<lparr>v_value := Some v\<rparr>) (st_variables s) =
      update_first (\<lambda>x. v_name x = n) (\<lambda>_. \<lparr>v_name = n, v_value = Some v, v_attributes = v_attributes x\<rparr>) (st_variables s)"
    by (rule update_first_cong_found) (use lookup_by_key [OF x] in \<open>cases x; simp\<close>)
  with x show ?thesis by (simp add: put_head_def)
qed

lemma allexport_variables [simp]: "allexport (s\<lparr>st_variables := vs\<rparr>) = allexport s"
  by (simp add: allexport_def)

lemma after_assignment_assigned:
  "attributes_of s n = a \<Longrightarrow>
   fst (after_assignment n (s\<lparr>st_variables := put_head v_name
     \<lparr>v_name = n, v_value = Some v, v_attributes = a\<rparr> (st_variables s)\<rparr>) w) = assigned s n v"
  by (subst after_assignment_state [where a = a and v = v and vs = "st_variables s"])
    (simp_all add: assigned_def)

lemma csh_state_set_variable_ok:
  assumes "csh_state_set_variable s name value w = (CSH_STATE_OK, s', w')"
  obtains n v where "name = Some n" "value = Some v" "valid_name n" "\<not> readonly s n"
    "s' = assigned s n v" "\<exists>h t. w' = snd (after_assignment n t (w\<lparr>mallocs := h\<rparr>))"
proof -
  from assms obtain n v where nv: "name = Some n" "value = Some v" "valid_name n"
    by (auto simp: csh_state_set_variable_def split: option.splits if_splits)
  show ?thesis
  proof (cases "find_variable s n")
    case None
    then have "lookup_by v_name n (st_variables s) = None" by (simp add: find_variable_def)
    with assms nv None obtain h where
      r: "after_assignment n (s\<lparr>st_variables := put_head v_name
        \<lparr>v_name = n, v_value = Some v, v_attributes = 0\<rparr> (st_variables s)\<rparr>) (w\<lparr>mallocs := h\<rparr>) = (s', w')"
      by (auto simp: csh_state_set_variable_def put_head_def dest!: new_variable_Some split: option.splits prod.splits)
    have "s' = assigned s n v"
      using arg_cong [OF r, of fst] None by (simp add: after_assignment_assigned attributes_of_def)
    moreover have "w' = snd (after_assignment n (s\<lparr>st_variables := put_head v_name
        \<lparr>v_name = n, v_value = Some v, v_attributes = 0\<rparr> (st_variables s)\<rparr>) (w\<lparr>mallocs := h\<rparr>))"
      using r by simp
    ultimately show ?thesis using that [of n v] nv None by (auto simp: readonly_def)
  next
    case (Some x)
    with assms nv obtain h where ro: "\<not> readonly s n" and
      r: "after_assignment n (s\<lparr>st_variables := put_head v_name
        \<lparr>v_name = n, v_value = Some v, v_attributes = v_attributes x\<rparr> (st_variables s)\<rparr>) (w\<lparr>mallocs := h\<rparr>) = (s', w')"
      by (auto simp: csh_state_set_variable_def readonly_def set_existing_value
          dest!: copy_bytes_Some split: option.splits prod.splits if_splits)
    have "s' = assigned s n v"
      using arg_cong [OF r, of fst] Some by (simp add: after_assignment_assigned attributes_of_def)
    moreover have "w' = snd (after_assignment n (s\<lparr>st_variables := put_head v_name
        \<lparr>v_name = n, v_value = Some v, v_attributes = v_attributes x\<rparr> (st_variables s)\<rparr>) (w\<lparr>mallocs := h\<rparr>))"
      using r by simp
    ultimately show ?thesis using that [of n v] nv ro by blast
  qed
qed

lemma csh_state_set_variable_reliable:
  assumes "valid_name n" and "\<not> readonly s n" and "mallocs w = []"
    and "length n < SIZE_MAX" and "length v < SIZE_MAX"
  shows "\<exists>w'. csh_state_set_variable s (Some n) (Some v) w = (CSH_STATE_OK, assigned s n v, w')"
proof -
  have "\<exists>s' w'. csh_state_set_variable s (Some n) (Some v) w = (CSH_STATE_OK, s', w')"
    using assms by (auto simp: csh_state_set_variable_def readonly_def new_variable_def copy_bytes_def
        split: option.splits)
  then obtain s' w' where r: "csh_state_set_variable s (Some n) (Some v) w = (CSH_STATE_OK, s', w')"
    by blast
  then have "s' = assigned s n v" by (auto elim: csh_state_set_variable_ok)
  with r show ?thesis by blast
qed

lemma attributes_of_wf: "wf_state s \<Longrightarrow> attributes_of s n AND NOT VARIABLE_ATTRIBUTES = 0"
  by (auto simp: attributes_of_def dest: find_variable_wf(3) split: option.splits)

lemma VARIABLE_ATTRIBUTES_covers [simp]:
  "CSH_VAR_EXPORT AND NOT VARIABLE_ATTRIBUTES = 0" "CSH_VAR_READONLY AND NOT VARIABLE_ATTRIBUTES = 0"
  by (simp_all add: CSH_VAR_EXPORT_def CSH_VAR_READONLY_def VARIABLE_ATTRIBUTES_def)

lemma wf_assigned:
  assumes "wf_state s" and "valid_name n"
  shows "wf_state (assigned s n v)"
proof -
  have "(attributes_of s n OR (if allexport s then CSH_VAR_EXPORT else 0)) AND NOT VARIABLE_ATTRIBUTES = 0"
    using attributes_of_wf [OF assms(1), of n] by (simp add: bit.conj_disj_distrib2)
  then have "wf_variables (st_variables (assigned s n v))"
    using assms by (simp add: assigned_def wf_state_def wf_variables_put)
  with assms(1) show ?thesis
    by (auto simp: wf_state_def assigned_def wf_hashes_def)
qed

lemma csh_state_set_variable_wf:
  "wf_state s \<Longrightarrow> csh_state_set_variable s name value w = (r, s', w') \<Longrightarrow> wf_state s'"
  by (cases "r = CSH_STATE_OK")
    (auto dest: csh_state_set_variable_error elim!: csh_state_set_variable_ok simp: wf_assigned)

lemma find_assigned:
  "find_variable (assigned s n v) m =
     (if m = n then Some \<lparr>v_name = n, v_value = Some v,
        v_attributes = attributes_of s n OR (if allexport s then CSH_VAR_EXPORT else 0)\<rparr>
      else find_variable s m)"
  by (simp add: find_variable_def assigned_def variable_table.put_lookup)

lemma update_variable_find:
  assumes "\<And>x. v_name (f x) = v_name x"
  shows "find_variable (s\<lparr>st_variables := update_first (\<lambda>x. v_name x = n) f (st_variables s)\<rparr>) m =
    (if m = n then map_option f (find_variable s n) else find_variable s m)"
  by (simp add: find_variable_def lookup_update_first assms)

subsection \<open>Attributes and unset\<close>

lemma csh_state_update_attributes_error:
  "csh_state_update_attributes s name sets clears w = (r, s', w') \<Longrightarrow> r \<noteq> CSH_STATE_OK \<Longrightarrow>
   s' = s \<and> (\<exists>h. w' = w\<lparr>mallocs := h\<rparr>)"
  by (auto simp: csh_state_update_attributes_def split: option.splits prod.splits if_splits
      intro: exI [of _ "mallocs w"])

lemma csh_state_update_attributes_ok:
  assumes "csh_state_update_attributes s name sets clears w = (CSH_STATE_OK, s', w')"
  obtains n where "name = Some n" "valid_name n" "(sets OR clears) AND NOT VARIABLE_ATTRIBUTES = 0"
    "find_variable s n \<noteq> None \<Longrightarrow>
       s' = s\<lparr>st_variables := update_first (\<lambda>x. v_name x = n)
         (\<lambda>x. x\<lparr>v_attributes := (v_attributes x OR sets) AND NOT clears\<rparr>) (st_variables s)\<rparr>"
    "find_variable s n = None \<Longrightarrow> sets AND NOT clears = 0 \<Longrightarrow> s' = s"
    "find_variable s n = None \<Longrightarrow> sets AND NOT clears \<noteq> 0 \<Longrightarrow>
       s' = s\<lparr>st_variables := put_head v_name
         \<lparr>v_name = n, v_value = None, v_attributes = sets AND NOT clears\<rparr> (st_variables s)\<rparr>"
    "\<exists>h. w' = w\<lparr>mallocs := h\<rparr>"
    "readonly s n \<Longrightarrow> clears AND CSH_VAR_READONLY = 0"
proof -
  from assms obtain n where n: "name = Some n" "valid_name n"
      "(sets OR clears) AND NOT VARIABLE_ATTRIBUTES = 0"
    by (auto simp: csh_state_update_attributes_def split: option.splits if_splits)
  have w: "\<exists>h. w' = w\<lparr>mallocs := h\<rparr>"
    using assms by (auto simp: csh_state_update_attributes_def split: option.splits prod.splits if_splits
      intro: exI [of _ "mallocs w"])
  have nv: "find_variable s n = None \<Longrightarrow> lookup_by v_name n (st_variables s) = None"
    by (simp add: find_variable_def)
  show ?thesis
    by (rule that [OF n])
      (use assms n w nv in \<open>auto simp: csh_state_update_attributes_def readonly_def put_head_def dest!: new_variable_Some
         split: option.splits prod.splits if_splits\<close>)
qed

lemma mask_update:
  "a AND NOT m = 0 \<Longrightarrow> (b OR c) AND NOT m = 0 \<Longrightarrow> ((a OR b) AND NOT c) AND NOT m = 0"
  for a b c m :: uint
  unfolding mask_covers_iff by (auto simp: bit_simps)

lemma mask_update_new: "(b OR c) AND NOT m = 0 \<Longrightarrow> (b AND NOT c) AND NOT m = 0" for b c m :: uint
  unfolding mask_covers_iff by (auto simp: bit_simps)

lemma wf_variables_update:
  assumes "wf_variables vs" and "\<And>x. v_name (f x) = v_name x"
    and "\<And>x. x \<in> set vs \<Longrightarrow> v_attributes (f x) AND NOT VARIABLE_ATTRIBUTES = 0"
  shows "wf_variables (update_first P f vs)"
  using assms set_update_first_subset [of P f vs]
  by (fastforce simp: wf_variables_def update_first_keys)

lemma csh_state_update_attributes_wf:
  assumes "wf_state s" and "csh_state_update_attributes s name sets clears w = (r, s', w')"
  shows "wf_state s'"
proof (cases "r = CSH_STATE_OK")
  case False
  with assms show ?thesis by (auto dest: csh_state_update_attributes_error)
next
  case True
  have wf: "wf_variables (st_variables s)" using assms(1) by (simp add: wf_state_def)
  from assms(2) [unfolded True] show ?thesis
  proof (rule csh_state_update_attributes_ok)
    fix n
    assume n: "valid_name n" "(sets OR clears) AND NOT VARIABLE_ATTRIBUTES = 0"
      and ex: "find_variable s n \<noteq> None \<Longrightarrow>
       s' = s\<lparr>st_variables := update_first (\<lambda>x. v_name x = n)
         (\<lambda>x. x\<lparr>v_attributes := (v_attributes x OR sets) AND NOT clears\<rparr>) (st_variables s)\<rparr>"
      and no: "find_variable s n = None \<Longrightarrow> sets AND NOT clears = 0 \<Longrightarrow> s' = s"
      and new: "find_variable s n = None \<Longrightarrow> sets AND NOT clears \<noteq> 0 \<Longrightarrow>
       s' = s\<lparr>st_variables := put_head v_name
         \<lparr>v_name = n, v_value = None, v_attributes = sets AND NOT clears\<rparr> (st_variables s)\<rparr>"
    have "wf_variables (update_first (\<lambda>x. v_name x = n)
        (\<lambda>x. x\<lparr>v_attributes := (v_attributes x OR sets) AND NOT clears\<rparr>) (st_variables s))"
      using wf n(2) by (intro wf_variables_update) (auto simp: wf_variables_def mask_update)
    note updated = wf_state_variables [OF assms(1) this]
    have "wf_variables (put_head v_name
        \<lparr>v_name = n, v_value = None, v_attributes = sets AND NOT clears\<rparr> (st_variables s))"
      using wf n by (intro wf_variables_put) (auto simp: mask_update_new)
    note added = wf_state_variables [OF assms(1) this]
    consider "find_variable s n \<noteq> None" | "find_variable s n = None" "sets AND NOT clears = 0"
      | "find_variable s n = None" "sets AND NOT clears \<noteq> 0" by blast
    then show ?thesis
    proof cases
      case 1
      show ?thesis unfolding ex [OF 1] by (rule updated)
    next
      case 2
      show ?thesis unfolding no [OF 2] by (rule assms(1))
    next
      case 3
      show ?thesis unfolding new [OF 3] by (rule added)
    qed
  qed
qed

lemma csh_state_unset_variable_error:
  "csh_state_unset_variable s name w = (r, s', w') \<Longrightarrow> r \<noteq> CSH_STATE_OK \<Longrightarrow> s' = s \<and> w' = w"
  by (auto simp: csh_state_unset_variable_def Let_def split: option.splits if_splits)

lemma csh_state_unset_variable_ok:
  assumes "csh_state_unset_variable s name w = (CSH_STATE_OK, s', w')"
  obtains n where "name = Some n" "valid_name n" "\<not> readonly s n"
    "s' = s\<lparr>st_variables := remove_first (\<lambda>x. v_name x = n) (st_variables s),
      st_hashes := (if n = ''PATH'' \<and> find_variable s n \<noteq> None then [] else st_hashes s)\<rparr>"
    "w' = w \<or> w' = csh_state_refresh_locale s' w"
proof -
  from assms obtain n where n: "name = Some n" "valid_name n"
    by (auto simp: csh_state_unset_variable_def split: option.splits if_splits)
  show ?thesis
    by (rule that [OF n])
      (use assms n in \<open>auto simp: csh_state_unset_variable_def readonly_def Let_def csh_state_hash_clear_def
         find_variable_def remove_first_absent split: option.splits if_splits\<close>)
qed

lemma csh_state_unset_variable_wf:
  "wf_state s \<Longrightarrow> csh_state_unset_variable s name w = (r, s', w') \<Longrightarrow> wf_state s'"
  by (cases "r = CSH_STATE_OK")
    (auto dest: csh_state_unset_variable_error elim!: csh_state_unset_variable_ok
      simp: wf_state_def wf_variables_remove wf_hashes_def split: if_splits)

subsection \<open>Parameters, functions, hashes, status fields\<close>

lemma csh_state_set_parameters_error:
  "csh_state_set_parameters s args w = (r, s', w') \<Longrightarrow> r \<noteq> CSH_STATE_OK \<Longrightarrow>
   s' = s \<and> (\<exists>h. w' = w\<lparr>mallocs := h\<rparr>)"
  by (auto simp: csh_state_set_parameters_def split: option.splits prod.splits bool.splits if_splits
      intro: exI [of _ "mallocs w"])

lemma csh_state_set_parameters_ok:
  "csh_state_set_parameters s args w = (CSH_STATE_OK, s', w') \<Longrightarrow>
   None \<notin> set args \<and> s' = s\<lparr>st_arguments := map the args,
     st_info := (st_info s)\<lparr>si_argument_count := length args\<rparr>\<rparr> \<and> (\<exists>h. w' = w\<lparr>mallocs := h\<rparr>)"
  by (auto simp: csh_state_set_parameters_def dest!: copy_vector_Some
      split: option.splits prod.splits bool.splits if_splits)

lemma csh_state_set_parameters_wf:
  "wf_state s \<Longrightarrow> csh_state_set_parameters s args w = (r, s', w') \<Longrightarrow> wf_state s'"
  by (cases "r = CSH_STATE_OK")
    (auto dest: csh_state_set_parameters_error dest!: csh_state_set_parameters_ok
      simp: wf_state_def wf_info_def)

lemma csh_state_hash_set_error:
  "csh_state_hash_set s n p w = (r, s', w') \<Longrightarrow> r \<noteq> CSH_STATE_OK \<Longrightarrow> s' = s \<and> (\<exists>h. w' = w\<lparr>mallocs := h\<rparr>)"
  by (auto simp: csh_state_hash_set_def split: option.splits prod.splits)

lemma csh_state_hash_set_ok:
  "csh_state_hash_set s n p w = (CSH_STATE_OK, s', w') \<Longrightarrow>
   s' = s\<lparr>st_hashes := put_tail v_name \<lparr>v_name = n, v_value = p, v_attributes = 0\<rparr> (st_hashes s)\<rparr> \<and>
   (\<exists>h. w' = w\<lparr>mallocs := h\<rparr>)"
  by (auto simp: csh_state_hash_set_def put_tail_def dest!: new_variable_Some split: option.splits prod.splits)

lemma csh_state_hash_set_wf:
  "wf_state s \<Longrightarrow> csh_state_hash_set s n p w = (r, s', w') \<Longrightarrow> wf_state s'"
  by (cases "r = CSH_STATE_OK")
    (auto dest: csh_state_hash_set_error dest!: csh_state_hash_set_ok simp: wf_state_def wf_hashes_put)

lemma csh_state_set_function_error:
  "csh_state_set_function s name f w = (r, s', w') \<Longrightarrow> r \<noteq> CSH_STATE_OK \<Longrightarrow>
   s' = s \<and> (\<exists>h. w' = w\<lparr>mallocs := h\<rparr>)"
  by (auto simp: csh_state_set_function_def split: option.splits prod.splits bool.splits if_splits
      intro: exI [of _ "mallocs w"])

lemma update_function_value:
  "lookup_by f_name n t = Some x \<Longrightarrow>
   update_first (\<lambda>x. f_name x = n) (\<lambda>x. x\<lparr>f_value := f\<rparr>) t =
   put_tail f_name \<lparr>f_name = n, f_value = f\<rparr> t"
proof -
  assume x: "lookup_by f_name n t = Some x"
  then have "update_first (\<lambda>x. f_name x = n) (\<lambda>x. x\<lparr>f_value := f\<rparr>) t =
      update_first (\<lambda>x. f_name x = n) (\<lambda>_. \<lparr>f_name = n, f_value = f\<rparr>) t"
    by (rule update_first_cong_found) (use lookup_by_key [OF x] in \<open>cases x; simp\<close>)
  with x show ?thesis by (simp add: put_tail_def)
qed

lemma csh_state_set_function_ok:
  assumes "csh_state_set_function s name f w = (CSH_STATE_OK, s', w')"
  obtains n where "name = Some n" "valid_name n"
    "s' = s\<lparr>st_functions := (case f of None \<Rightarrow> remove_first (\<lambda>x. f_name x = n) (st_functions s)
        | Some i \<Rightarrow> put_tail f_name \<lparr>f_name = n, f_value = i\<rparr> (st_functions s))\<rparr>"
proof -
  from assms obtain n where n: "name = Some n" "valid_name n"
    by (auto simp: csh_state_set_function_def split: option.splits if_splits)
  show ?thesis
    by (rule that [OF n])
      (use assms n in \<open>auto simp: csh_state_set_function_def remove_first_absent update_function_value
          put_tail_def [where t = "st_functions s"] dest!: copy_bytes_Some
          split: option.splits prod.splits bool.splits\<close>)
qed

lemma csh_state_set_function_wf:
  "wf_state s \<Longrightarrow> csh_state_set_function s name f w = (r, s', w') \<Longrightarrow> wf_state s'"
  by (cases "r = CSH_STATE_OK")
    (auto dest: csh_state_set_function_error elim!: csh_state_set_function_ok
      simp: wf_state_def wf_functions_put wf_functions_remove split: option.splits)

lemma csh_state_set_status_wf:
  "wf_state s \<Longrightarrow> wf_state (snd (csh_state_set_status s st))"
  "wf_state s \<Longrightarrow> wf_state (snd (csh_state_set_background s pid))"
  "wf_state s \<Longrightarrow> wf_state (snd (csh_state_update_options s sets clears))"
  by (auto simp: csh_state_set_status_def csh_state_set_background_def csh_state_update_options_def
      wf_state_def wf_info_def mask_update)

lemma csh_state_set_field_wf:
  "wf_state s \<Longrightarrow> wf_state (csh_state_set_errexit_ignored s d)"
  "wf_state s \<Longrightarrow> wf_state (csh_state_set_function_depth s d)"
  "wf_state s \<Longrightarrow> wf_state (csh_state_set_source_depth s d)"
  "wf_state s \<Longrightarrow> wf_state (csh_state_set_getopts_offset s k)"
  "wf_state s \<Longrightarrow> wf_state (csh_state_hash_clear s)"
  by (auto simp: csh_state_set_errexit_ignored_def csh_state_set_function_depth_def
      csh_state_set_source_depth_def csh_state_set_getopts_offset_def csh_state_hash_clear_def
      wf_state_def wf_info_def wf_hashes_def)

end
