(* ===== verification/State_Copies.thy ===== *)
theory State_Copies
  imports State_Facts
begin

text \<open>
  What \<open>src/state.c\<close> promises of its copies: the reference counts of function payloads, exact
  clones and checkpoints, selective saves of variables, the environment handed to children and
  read at startup.
\<close>

subsection \<open>Function references\<close>

text \<open>How often a payload is bound in a function list.\<close>

definition occurrences :: "nat \<Rightarrow> function_entry list \<Rightarrow> nat" where
  "occurrences i fs = count_list (map f_value fs) i"

lemma occurrences_simps [simp]:
  "occurrences i [] = 0"
  "occurrences i (e # fs) = (if f_value e = i then 1 else 0) + occurrences i fs"
  "occurrences i (fs @ gs) = occurrences i fs + occurrences i gs"
  by (simp_all add: occurrences_def)

lemma occurrences_take_le: "occurrences i (take k fs) \<le> occurrences i fs"
  using occurrences_simps(3) [of i "take k fs" "drop k fs"] by simp

lemma retain_refs [simp]:
  "csh_function_retain (Some f) w = w\<lparr>refs := (refs w)(f := refs w f + 1)\<rparr>"
  by (simp add: csh_function_retain_def)

lemma release_functions_refs:
  "release_functions fs w =
     w\<lparr>refs := (\<lambda>i. refs w i - of_nat (occurrences i fs)), finalized := finalized (release_functions fs w)\<rparr>"
proof (induction fs arbitrary: w)
  case Nil
  show ?case by simp
next
  case (Cons e fs)
  show ?case
    by (subst release_functions.simps(2), subst Cons.IH)
      (auto simp: csh_function_release_def Let_def fun_eq_iff)
qed

lemma release_functions_live:
  assumes "\<And>i. occurrences i fs = 0 \<or> occurrences i fs < unat (refs w i)"
  shows "finalized (release_functions fs w) = finalized w"
  using assms
proof (induction fs arbitrary: w)
  case Nil
  show ?case by simp
next
  case (Cons e fs)
  let ?w = "w\<lparr>refs := (refs w)(f_value e := refs w (f_value e) - 1)\<rparr>"
  have gt: "1 < unat (refs w (f_value e)) \<or> occurrences (f_value e) fs = 0 \<and> 1 < unat (refs w (f_value e))"
    using Cons.prems [of "f_value e"] by auto
  then have un: "unat (refs w (f_value e) - 1) = unat (refs w (f_value e)) - 1"
    by (metis less_nat_zero_code unat_0 unat_minus_one)
  with gt have "csh_function_release (Some (f_value e)) w = ?w"
    by (auto simp: csh_function_release_def Let_def)
  moreover have "finalized (release_functions fs ?w) = finalized ?w"
  proof (rule Cons.IH)
    fix i
    show "occurrences i fs = 0 \<or> occurrences i fs < unat (refs ?w i)"
      using Cons.prems [of i] un gt by (auto split: if_splits)
  qed
  ultimately show ?case by simp
qed

subsection \<open>Copies\<close>

lemma clone_variables_result:
  "clone_variables vs c w = (b, c', w') \<Longrightarrow>
   \<exists>k h. c' = c\<lparr>st_variables := st_variables c @ take k vs\<rparr> \<and> w' = w\<lparr>mallocs := h\<rparr> \<and>
     (b \<longrightarrow> take k vs = vs)"
proof (induction vs arbitrary: c w)
  case Nil
  then show ?case by (auto intro!: exI [of _ "mallocs w"])
next
  case (Cons v vs)
  show ?case
  proof (cases "new_variable (v_name v) (v_value v) (v_attributes v) (mallocs w)")
    case (Pair x h)
    show ?thesis
    proof (cases x)
      case None
      with Pair Cons.prems show ?thesis by (auto intro!: exI [of _ 0])
    next
      case (Some y)
      with Pair have y: "y = v" by (auto dest: new_variable_Some)
      with Pair Some Cons.prems
      have "clone_variables vs (c\<lparr>st_variables := st_variables c @ [v]\<rparr>) (w\<lparr>mallocs := h\<rparr>) = (b, c', w')"
        by simp
      from Cons.IH [OF this] obtain k h' where
        "c' = c\<lparr>st_variables := st_variables c @ take (Suc k) (v # vs)\<rparr>" "w' = w\<lparr>mallocs := h'\<rparr>"
        "b \<longrightarrow> take k vs = vs" by auto
      then show ?thesis by (intro exI [of _ "Suc k"] exI [of _ h']) simp
    qed
  qed
qed

lemma set_function_new:
  assumes "valid_name (f_name e)" and "f_name e \<notin> f_name ` set (st_functions c)"
    and "csh_state_set_function c (Some (f_name e)) (Some (f_value e)) w = (r, c', w')"
  shows "if r = CSH_STATE_OK then
      c' = c\<lparr>st_functions := st_functions c @ [e]\<rparr> \<and>
      (\<exists>h. w' = w\<lparr>mallocs := h, refs := (refs w)(f_value e := refs w (f_value e) + 1)\<rparr>)
    else c' = c \<and> (\<exists>h. w' = w\<lparr>mallocs := h\<rparr>)"
proof -
  have "lookup_by f_name (f_name e) (st_functions c) = None"
    using assms(2) by (simp add: lookup_by_None_iff)
  then show ?thesis
    using assms by (auto simp: csh_state_set_function_def dest!: copy_bytes_Some
        split: option.splits prod.splits bool.splits if_splits)
qed

lemma clone_functions_result:
  assumes "distinct (map f_name (st_functions c @ fs))" and "\<forall>e\<in>set fs. valid_name (f_name e)"
    and "clone_functions fs c w = (b, c', w')"
  shows "\<exists>k h. c' = c\<lparr>st_functions := st_functions c @ take k fs\<rparr> \<and>
     w' = w\<lparr>mallocs := h, refs := (\<lambda>i. refs w i + of_nat (occurrences i (take k fs)))\<rparr> \<and>
     (b \<longrightarrow> take k fs = fs)"
  using assms
proof (induction fs arbitrary: c w)
  case Nil
  then show ?case by (auto intro!: exI [of _ "mallocs w"])
next
  case (Cons e fs)
  obtain r c1 w1 where s: "csh_state_set_function c (Some (f_name e)) (Some (f_value e)) w = (r, c1, w1)"
    by (cases "csh_state_set_function c (Some (f_name e)) (Some (f_value e)) w") auto
  note new = set_function_new [OF _ _ s]
  show ?case
  proof (cases "r = CSH_STATE_OK")
    case True
    with new Cons.prems obtain h where
      c1: "c1 = c\<lparr>st_functions := st_functions c @ [e]\<rparr>"
      and w1: "w1 = w\<lparr>mallocs := h, refs := (refs w)(f_value e := refs w (f_value e) + 1)\<rparr>"
      by auto
    from s True Cons.prems(3) have "clone_functions fs c1 w1 = (b, c', w')" by simp
    with Cons.IH [of c1 w1] Cons.prems c1 obtain k h' where
      "c' = c1\<lparr>st_functions := st_functions c1 @ take k fs\<rparr>"
      "w' = w1\<lparr>mallocs := h', refs := (\<lambda>i. refs w1 i + of_nat (occurrences i (take k fs)))\<rparr>"
      "b \<longrightarrow> take k fs = fs" by auto
    with c1 w1 show ?thesis
      by (intro exI [of _ "Suc k"] exI [of _ h']) (auto simp: fun_eq_iff)
  next
    case False
    with s Cons.prems(3) have "b = False" "c' = c1" "w' = w1" by (auto split: csh_state_result.splits)
    with new Cons.prems False show ?thesis by (auto intro!: exI [of _ 0])
  qed
qed

lemma clone_hashes_result:
  assumes "distinct (map v_name (st_hashes c @ hs))" and "\<forall>v\<in>set hs. v_attributes v = 0"
    and "clone_hashes hs c w = (b, c', w')"
  shows "\<exists>k h. c' = c\<lparr>st_hashes := st_hashes c @ take k hs\<rparr> \<and> w' = w\<lparr>mallocs := h\<rparr> \<and>
     (b \<longrightarrow> take k hs = hs)"
  using assms
proof (induction hs arbitrary: c w)
  case Nil
  then show ?case by (auto intro!: exI [of _ "mallocs w"])
next
  case (Cons v hs)
  obtain r c1 w1 where s: "csh_state_hash_set c (v_name v) (v_value v) w = (r, c1, w1)"
    by (cases "csh_state_hash_set c (v_name v) (v_value v) w") auto
  show ?case
  proof (cases "r = CSH_STATE_OK")
    case True
    have v: "\<lparr>v_name = v_name v, v_value = v_value v, v_attributes = 0\<rparr> = v"
      using Cons.prems(2) variable_eta [of v] by simp
    have "put_tail v_name v (st_hashes c) = st_hashes c @ [v]"
      using Cons.prems(1) by (intro put_tail_snoc) auto
    with csh_state_hash_set_ok [OF s [unfolded True]] v obtain h where
      c1: "c1 = c\<lparr>st_hashes := st_hashes c @ [v]\<rparr>" and w1: "w1 = w\<lparr>mallocs := h\<rparr>" by auto
    from s True Cons.prems(3) have "clone_hashes hs c1 w1 = (b, c', w')" by simp
    with Cons.IH [of c1 w1] Cons.prems c1 obtain k h' where
      "c' = c1\<lparr>st_hashes := st_hashes c1 @ take k hs\<rparr>" "w' = w1\<lparr>mallocs := h'\<rparr>"
      "b \<longrightarrow> take k hs = hs" by auto
    with c1 w1 show ?thesis by (intro exI [of _ "Suc k"] exI [of _ h']) auto
  next
    case False
    with s Cons.prems(3) have "b = False" "c' = c1" "w' = w1" by (auto split: csh_state_result.splits)
    with csh_state_hash_set_error [OF s False] show ?thesis by (auto intro!: exI [of _ 0])
  qed
qed

lemma clone_tables_result:
  assumes wf: "wf_state s" and empty: "st_functions c = []" "st_variables c = []" "st_hashes c = []"
    and run: "clone_tables s c w = (b, c', w')"
  shows "\<exists>k h. st_functions c' = take k (st_functions s) \<and>
     w' = w\<lparr>mallocs := h, refs := (\<lambda>i. refs w i + of_nat (occurrences i (take k (st_functions s))))\<rparr> \<and>
     (b \<longrightarrow> take k (st_functions s) = st_functions s \<and>
       c' = c\<lparr>st_variables := st_variables s, st_functions := st_functions s, st_aliases := st_aliases s,
         st_hashes := st_hashes s\<rparr>)"
proof -
  obtain b1 c1 w1 where 1: "clone_variables (st_variables s) c w = (b1, c1, w1)"
    by (cases "clone_variables (st_variables s) c w") auto
  obtain b2 c2 w2 where 2: "clone_functions (st_functions s) c1 w1 = (b2, c2, w2)"
    by (cases "clone_functions (st_functions s) c1 w1") auto
  obtain e al h3 where 3: "csh_aliases_clone (st_aliases s) (mallocs w2) = (e, al, h3)"
    by (cases "csh_aliases_clone (st_aliases s) (mallocs w2)") auto
  obtain b4 c4 w4 where 4: "clone_hashes (st_hashes s) (c2\<lparr>st_aliases := al\<rparr>) (w2\<lparr>mallocs := h3\<rparr>) = (b4, c4, w4)"
    by (cases "clone_hashes (st_hashes s) (c2\<lparr>st_aliases := al\<rparr>) (w2\<lparr>mallocs := h3\<rparr>)") auto
  from clone_variables_result [OF 1] empty obtain k1 h1 where
    c1: "c1 = c\<lparr>st_variables := take k1 (st_variables s)\<rparr>" and w1: "w1 = w\<lparr>mallocs := h1\<rparr>"
    and b1: "b1 \<longrightarrow> take k1 (st_variables s) = st_variables s" by auto
  have f: "distinct (map f_name (st_functions c1 @ st_functions s))" "\<forall>e\<in>set (st_functions s). valid_name (f_name e)"
    using wf c1 empty by (auto simp: wf_state_def wf_functions_def)
  from clone_functions_result [OF f 2] empty c1 obtain k2 h2 where
    c2: "c2 = c1\<lparr>st_functions := take k2 (st_functions s)\<rparr>"
    and w2: "w2 = w1\<lparr>mallocs := h2, refs := (\<lambda>i. refs w1 i + of_nat (occurrences i (take k2 (st_functions s))))\<rparr>"
    and b2: "b2 \<longrightarrow> take k2 (st_functions s) = st_functions s" by auto
  have hs: "distinct (map v_name (st_hashes (c2\<lparr>st_aliases := al\<rparr>) @ st_hashes s))"
      "\<forall>v\<in>set (st_hashes s). v_attributes v = 0"
    using wf c2 c1 empty by (auto simp: wf_state_def wf_hashes_def)
  from clone_hashes_result [OF hs 4] c1 c2 empty obtain k4 h4 where
    c4: "c4 = c2\<lparr>st_aliases := al, st_hashes := take k4 (st_hashes s)\<rparr>" and w4: "w4 = w2\<lparr>mallocs := h4\<rparr>"
    and b4: "b4 \<longrightarrow> take k4 (st_hashes s) = st_hashes s" by auto
  have al: "e = None \<longrightarrow> al = st_aliases s"
    using wf csh_aliases_clone_ok 3 by (auto simp: wf_state_def)
  show ?thesis
  proof (cases b1)
    case False
    with run 1 have "c' = c1" "w' = w1" "\<not> b" by (auto simp: clone_tables_def)
    with c1 w1 empty show ?thesis by (intro exI [of _ 0] exI [of _ h1]) simp
  next
    case True
    show ?thesis
    proof (cases "b2 \<and> e = None")
      case False
      with True run 1 2 3 have "\<not> b" "st_functions c' = st_functions c2 " "\<exists>h. w' = w2\<lparr>mallocs := h\<rparr>"
        by (auto simp: clone_tables_def split: bool.splits option.splits intro: exI [of _ "mallocs w2"])
      then obtain h where "\<not> b" "st_functions c' = st_functions c2" "w' = w2\<lparr>mallocs := h\<rparr>" by blast
      with c2 w2 c1 w1 show ?thesis
        by (intro exI [of _ k2] exI [of _ h]) (cases w; simp)
    next
      case ok: True
      with True run 1 2 3 4 have "b = b4" "c' = c4" "w' = w4" by (auto simp: clone_tables_def)
      with ok c4 w4 c2 w2 c1 w1 b2 b4 b1 al True show ?thesis
        by (intro exI [of _ k2] exI [of _ h4]) (cases w; simp)
    qed
  qed
qed

text \<open>No counter of a bound payload is at its limit: what makes \<open>retain\<close> and \<open>release\<close> exact.\<close>

definition refs_room :: "csh_state \<Rightarrow> world \<Rightarrow> bool" where
  "refs_room s w \<longleftrightarrow>
     (\<forall>e\<in>set (st_functions s). 0 < refs w (f_value e) \<and>
        unat (refs w (f_value e)) + length (st_functions s) < 2 ^ 64)"

lemma occurrences_le_length: "occurrences i fs \<le> length fs"
  unfolding occurrences_def using count_le_length [of "map f_value fs" i] by simp

lemma release_retained:
  assumes room: "refs_room s w" and fs: "fs = take k (st_functions s)"
    and w: "w' = w\<lparr>mallocs := h, refs := (\<lambda>i. refs w i + of_nat (occurrences i fs))\<rparr>"
  shows "release_functions fs w' = w\<lparr>mallocs := h\<rparr>"
proof -
  have "finalized (release_functions fs w') = finalized w'"
  proof (rule release_functions_live)
    fix i
    show "occurrences i fs = 0 \<or> occurrences i fs < unat (refs w' i)"
    proof (cases "occurrences i fs = 0")
      case False
      then have "i \<in> f_value ` set fs" by (auto simp: occurrences_def count_list_0_iff)
      then obtain e where e: "e \<in> set (st_functions s)" "f_value e = i"
        using fs by (auto dest: in_set_takeD)
      have "occurrences i fs \<le> length (st_functions s)"
        using occurrences_le_length [of i fs] fs by simp
      with room e have "unat (refs w i) + occurrences i fs < 2 ^ 64" and pos: "0 < refs w i"
        by (fastforce simp: refs_room_def)+
      then have "unat (refs w' i) = unat (refs w i) + occurrences i fs"
        using w by (simp add: unat_word_ariths unat_of_nat)
      with pos show ?thesis by (simp add: word_less_nat_alt)
    qed simp
  qed
  then show ?thesis
    by (subst release_functions_refs) (simp add: w)
qed

lemma destroy_no_functions [simp]: "st_functions c = [] \<Longrightarrow> csh_state_destroy c w = w"
  by (simp add: csh_state_destroy_def)

lemma set_parameters_frame:
  "csh_state_set_parameters (zero_state\<lparr>st_arg0 := a\<rparr>) args w = (r, c, w') \<Longrightarrow>
   st_functions c = [] \<and> (\<exists>h. w' = w\<lparr>mallocs := h\<rparr>)"
  by (cases "r = CSH_STATE_OK")
    (auto simp: zero_state_def dest: csh_state_set_parameters_error csh_state_set_parameters_ok)

lemma csh_state_clone_result:
  assumes wf: "wf_state s" and room: "refs_room s w" and run: "csh_state_clone s w = (r, out, w')"
  shows "(r = CSH_STATE_OK \<and> out = Some s \<and>
      (\<exists>h. w' = w\<lparr>mallocs := h, refs := (\<lambda>i. refs w i + of_nat (occurrences i (st_functions s)))\<rparr>)) \<or>
    (r = CSH_STATE_NOMEM \<and> out = None \<and> (\<exists>h. w' = w\<lparr>mallocs := h\<rparr>))"
proof (cases "\<exists>a0 h c w1. copy_bytes (st_arg0 s) (snd (malloc (mallocs w))) = (Some a0, h) \<and>
    fst (malloc (mallocs w)) \<and>
    csh_state_set_parameters (zero_state\<lparr>st_arg0 := a0\<rparr>) (map Some (take (si_argument_count (st_info s)) (st_arguments s)))
      (w\<lparr>mallocs := h\<rparr>) = (CSH_STATE_OK, c, w1)")
  case False
  then show ?thesis
    using run by (auto simp: csh_state_clone_def dest!: set_parameters_frame
        split: prod.splits bool.splits option.splits csh_state_result.splits)
next
  case True
  then obtain a0 h c w1 where a0: "copy_bytes (st_arg0 s) (snd (malloc (mallocs w))) = (Some a0, h)"
    and m: "fst (malloc (mallocs w))" and
    p: "csh_state_set_parameters (zero_state\<lparr>st_arg0 := a0\<rparr>)
      (map Some (take (si_argument_count (st_info s)) (st_arguments s))) (w\<lparr>mallocs := h\<rparr>) = (CSH_STATE_OK, c, w1)"
    by blast
  have args: "take (si_argument_count (st_info s)) (st_arguments s) = st_arguments s"
    using wf by (simp add: wf_state_def)
  obtain h1 where c: "c = zero_state\<lparr>st_arg0 := st_arg0 s, st_arguments := st_arguments s,
      st_info := zero_info\<lparr>si_argument_count := length (st_arguments s)\<rparr>\<rparr>" and w1: "w1 = w\<lparr>mallocs := h1\<rparr>"
    using csh_state_set_parameters_ok [OF p] copy_bytes_Some [OF a0] args
    by (auto simp: zero_state_def comp_def)
  obtain b c2 w2 where t: "clone_tables s c w1 = (b, c2, w2)" by (cases "clone_tables s c w1") auto
  have "st_functions c = []" "st_variables c = []" "st_hashes c = []" by (simp_all add: c zero_state_def)
  from clone_tables_result [OF wf this t] obtain k h2 where
    f: "st_functions c2 = take k (st_functions s)" and
    w2: "w2 = w1\<lparr>mallocs := h2, refs := (\<lambda>i. refs w1 i + of_nat (occurrences i (take k (st_functions s))))\<rparr>" and
    ok: "b \<Longrightarrow> take k (st_functions s) = st_functions s \<and> c2 = c\<lparr>st_variables := st_variables s,
       st_functions := st_functions s, st_aliases := st_aliases s, st_hashes := st_hashes s\<rparr>" by blast
  have run': "(r, out, w') = (if b then (CSH_STATE_OK,
      Some (c2\<lparr>st_manages_locale := st_manages_locale s, st_getopts_offset := st_getopts_offset s,
        st_info := st_info s\<rparr>), w2) else (CSH_STATE_NOMEM, None, csh_state_destroy c2 w2))"
    using run a0 m p t by (cases "malloc (mallocs w)"; cases b) (auto simp: csh_state_clone_def)
  show ?thesis
  proof (cases b)
    case True
    with run' ok [OF True] w2 w1 c show ?thesis by (cases s) (auto simp: zero_state_def)
  next
    case False
    have "release_functions (st_functions c2) w2 = w\<lparr>mallocs := h2\<rparr>"
      by (rule release_retained [OF room f]) (use w2 w1 f in simp)
    with False run' show ?thesis by (auto simp: csh_state_destroy_def)
  qed
qed

text \<open>
  C24: a clone is exact and leaks nothing. For a well-formed state whose function payloads have
  room in their counters, \<open>csh_state_clone\<close> either returns an equal state and one more reference
  per bound function, or (whichever allocation failed) reports \<open>NOMEM\<close>, returns no state, leaves
  every counter as it was and destroys no payload; destroying a clone undoes it entirely.
\<close>

theorem clone_exact:
  assumes "wf_state s" and "refs_room s w" and "csh_state_clone s w = (r, out, w')"
  shows "(r = CSH_STATE_OK \<and> out = Some s \<and>
      refs w' = (\<lambda>i. refs w i + of_nat (occurrences i (st_functions s))) \<and> finalized w' = finalized w \<and>
      locale_now w' = locale_now w \<and>
      refs (csh_state_destroy s w') = refs w \<and> finalized (csh_state_destroy s w') = finalized w) \<or>
    (r = CSH_STATE_NOMEM \<and> out = None \<and> refs w' = refs w \<and> finalized w' = finalized w \<and>
      locale_now w' = locale_now w)"
  using csh_state_clone_result [OF assms]
proof
  assume "r = CSH_STATE_OK \<and> out = Some s \<and>
      (\<exists>h. w' = w\<lparr>mallocs := h, refs := (\<lambda>i. refs w i + of_nat (occurrences i (st_functions s)))\<rparr>)"
  then obtain h where ok: "r = CSH_STATE_OK" "out = Some s" and
    w': "w' = w\<lparr>mallocs := h, refs := (\<lambda>i. refs w i + of_nat (occurrences i (st_functions s)))\<rparr>" by blast
  have "release_functions (st_functions s) w' = w\<lparr>mallocs := h\<rparr>"
    by (rule release_retained [OF assms(2), where k = "length (st_functions s)"]) (simp_all add: w')
  with ok w' show ?thesis by (simp add: csh_state_destroy_def)
qed auto

text \<open>
  C14: a checkpoint brings back exactly the state it was taken of, whatever happened to the state
  in between: restoring returns \<open>OK\<close> with the saved state and drops the function references of the
  discarded one; throwing an unused checkpoint away leaves every reference count as before the
  save.
\<close>

theorem checkpoint_roundtrip:
  assumes "wf_state s" and "refs_room s w" and "csh_state_save s w = (CSH_STATE_OK, cp, w1)"
  shows "cp = Some s \<and>
    fst (csh_state_restore s2 cp w2) = CSH_STATE_OK \<and>
    fst (snd (csh_state_restore s2 cp w2)) = s \<and>
    refs (csh_state_checkpoint_destroy cp w1) = refs w \<and>
    finalized (csh_state_checkpoint_destroy cp w1) = finalized w"
proof -
  obtain h where m: "csh_state_clone s (w\<lparr>mallocs := h\<rparr>) = (CSH_STATE_OK, cp, w1)"
    using assms(3) by (auto simp: csh_state_save_def split: prod.splits bool.splits)
  have room: "refs_room s (w\<lparr>mallocs := h\<rparr>)" using assms(2) by (simp add: refs_room_def)
  obtain h' where cp: "cp = Some s" and
    w1: "w1 = w\<lparr>mallocs := h', refs := (\<lambda>i. refs w i + of_nat (occurrences i (st_functions s)))\<rparr>"
    using csh_state_clone_result [OF assms(1) room m] by auto
  have "release_functions (st_functions s) w1 = w\<lparr>mallocs := h'\<rparr>"
    by (rule release_retained [OF assms(2), where k = "length (st_functions s)"]) (simp_all add: w1)
  with cp show ?thesis
    by (simp add: csh_state_restore_def csh_state_checkpoint_destroy_def csh_state_destroy_def)
qed

definition sample_world :: world where
  "sample_world = \<lparr>mallocs = [], locale_now = (\<lambda>_. ''C''), installed = (\<lambda>_ l. l = ''C''), refs = (\<lambda>_. 1),
     finalized = []\<rparr>"

definition sample_state :: csh_state where
  "sample_state = zero_state\<lparr>
     st_variables := [\<lparr>v_name = ''HOME'', v_value = Some ''/root'', v_attributes = CSH_VAR_EXPORT\<rparr>,
       \<lparr>v_name = ''x'', v_value = None, v_attributes = CSH_VAR_READONLY\<rparr>],
     st_functions := [\<lparr>f_name = ''f'', f_value = 7\<rparr>],
     st_hashes := [\<lparr>v_name = ''ls'', v_value = Some ''/bin/ls'', v_attributes = 0\<rparr>],
     st_arg0 := ''cshell''\<rparr>"

lemma sample_wf: "wf_state sample_state" and sample_room: "refs_room sample_state sample_world"
  by (simp_all add: wf_state_def sample_state_def zero_state_def zero_info_def wf_variables_def wf_functions_def
      wf_hashes_def wf_aliases_def wf_info_def valid_name_def name_start_def less_eq_char_def
      CSH_VAR_EXPORT_def CSH_VAR_READONLY_def VARIABLE_ATTRIBUTES_def refs_room_def sample_world_def)

lemmas clone_evaluate = csh_state_clone_def clone_tables_def csh_state_set_parameters_def new_variable_def
  copy_bytes_def csh_state_set_function_def csh_function_retain_def csh_state_hash_set_def
  csh_aliases_clone_def valid_name_def name_start_def less_eq_char_def SIZE_MAX_def
  sample_state_def sample_world_def zero_state_def zero_info_def

theorem clone_exact_witness:
  "fst (csh_state_clone sample_state sample_world) = CSH_STATE_OK \<and>
   fst (snd (csh_state_clone sample_state sample_world)) = Some sample_state \<and>
   fst (csh_state_clone sample_state (sample_world\<lparr>mallocs := [True, True, True, True, True, True, True, True, True, True, False]\<rparr>)) = CSH_STATE_NOMEM"
proof -
  obtain r out w' where run: "csh_state_clone sample_state sample_world = (r, out, w')"
    by (cases "csh_state_clone sample_state sample_world") auto
  have "r = CSH_STATE_OK"
    using run by (simp add: clone_evaluate)
  with clone_exact [OF sample_wf sample_room run] have "out = Some sample_state" by simp
  moreover have "fst (csh_state_clone sample_state (sample_world\<lparr>mallocs := [True, True, True, True, True, True, True, True, True, True, False]\<rparr>)) = CSH_STATE_NOMEM"
    by (simp add: clone_evaluate)
  ultimately show ?thesis using run \<open>r = CSH_STATE_OK\<close> by simp
qed

theorem checkpoint_roundtrip_witness:
  "\<exists>cp w1. csh_state_save sample_state sample_world = (CSH_STATE_OK, cp, w1) \<and>
     fst (snd (csh_state_restore zero_state cp w1)) = sample_state"
proof -
  obtain r cp w1 where run: "csh_state_save sample_state sample_world = (r, cp, w1)"
    by (cases "csh_state_save sample_state sample_world") auto
  have "r = CSH_STATE_OK"
    using run by (simp add: csh_state_save_def clone_evaluate)
  with checkpoint_roundtrip [OF sample_wf sample_room, of cp w1 zero_state w1] run show ?thesis by blast
qed

subsection \<open>Selective saves\<close>

text \<open>A save describes a state: one entry per name, holding that name's variable or its absence.\<close>

definition save_ok :: "csh_state \<Rightarrow> csh_variable_save list \<Rightarrow> bool" where
  "save_ok s save \<longleftrightarrow>
     distinct (map (v_name \<circ> save_variable) save) \<and>
     (\<forall>e\<in>set save. valid_name (v_name (save_variable e)) \<and>
        find_variable s (v_name (save_variable e)) = (if save_present e then Some (save_variable e) else None))"

abbreviation saved_names :: "csh_variable_save list \<Rightarrow> string set" where
  "saved_names save \<equiv> (v_name \<circ> save_variable) ` set save"

lemma find_save_None:
  "find (\<lambda>e. v_name (save_variable e) = n) out = None \<longleftrightarrow> n \<notin> saved_names out"
  by (induction out) auto

lemma saved_entry:
  "new_variable n (case find_variable s n of None \<Rightarrow> None | Some v \<Rightarrow> v_value v)
     (case find_variable s n of None \<Rightarrow> 0 | Some v \<Rightarrow> v_attributes v) h = (Some v, h') \<Longrightarrow>
   v_name v = n \<and> find_variable s n = (if find_variable s n \<noteq> None then Some v else None)"
proof -
  assume "new_variable n (case find_variable s n of None \<Rightarrow> None | Some v \<Rightarrow> v_value v)
     (case find_variable s n of None \<Rightarrow> 0 | Some v \<Rightarrow> v_attributes v) h = (Some v, h')"
  from new_variable_Some [OF this] show ?thesis
    by (cases "find_variable s n") (auto simp: find_variable_def dest: lookup_by_key)
qed

lemma save_loop_ok:
  assumes "save_loop s ns out w = (CSH_STATE_OK, Some save, w')" and "save_ok s out"
    and "\<forall>n\<in>set ns. valid_name n"
  shows "save_ok s save \<and> saved_names save = set ns \<union> saved_names out"
  using assms
proof (induction ns arbitrary: out w)
  case Nil
  then show ?case by simp
next
  case (Cons n ns)
  show ?case
  proof (cases "n \<in> saved_names out")
    case True
    then have "find (\<lambda>e. v_name (save_variable e) = n) out \<noteq> None" by (simp add: find_save_None)
    with Cons.prems have "save_loop s ns out w = (CSH_STATE_OK, Some save, w')" by simp
    with Cons.IH Cons.prems True show ?thesis by auto
  next
    case False
    then have "find (\<lambda>e. v_name (save_variable e) = n) out = None" by (simp add: find_save_None)
    with Cons.prems(1) obtain v h1 h2 where
      nv: "new_variable n (case find_variable s n of None \<Rightarrow> None | Some v \<Rightarrow> v_value v)
        (case find_variable s n of None \<Rightarrow> 0 | Some v \<Rightarrow> v_attributes v) h1 = (Some v, h2)" and
      run: "save_loop s ns (\<lparr>save_variable = v, save_present = (find_variable s n \<noteq> None)\<rparr> # out)
         (w\<lparr>mallocs := h2\<rparr>) = (CSH_STATE_OK, Some save, w')"
      by (auto split: prod.splits bool.splits option.splits)
    note v = saved_entry [OF nv]
    have "save_ok s (\<lparr>save_variable = v, save_present = (find_variable s n \<noteq> None)\<rparr> # out)"
      using Cons.prems(2,3) False v by (auto simp: save_ok_def)
    from Cons.IH [OF run this] Cons.prems(3) v show ?thesis by auto
  qed
qed

lemma find_remove_variable:
  "distinct (map v_name (st_variables s)) \<Longrightarrow>
   find_variable (s\<lparr>st_variables := remove_first (\<lambda>x. v_name x = n) (st_variables s)\<rparr>) m =
     (if m = n then None else find_variable s m)"
  by (simp add: find_variable_def lookup_remove_first)

lemma restore_loop_frame:
  "\<exists>vs. restore_loop save s = s\<lparr>st_variables := vs,
     st_hashes := (if ''PATH'' \<in> saved_names save then [] else st_hashes s)\<rparr>"
proof (induction save arbitrary: s)
  case Nil
  show ?case by (auto intro: exI [of _ "st_variables s"])
next
  case (Cons e save)
  let ?n = "v_name (save_variable e)"
  let ?vs = "remove_first (\<lambda>x. v_name x = ?n) (st_variables s)"
  let ?s = "(if ?n = ''PATH'' then csh_state_hash_clear s else s)
    \<lparr>st_variables := (if save_present e then save_variable e # ?vs else ?vs)\<rparr>"
  have "restore_loop (e # save) s = restore_loop save ?s"
    by (auto simp: Let_def csh_state_hash_clear_def)
  moreover obtain vs where "restore_loop save ?s = ?s\<lparr>st_variables := vs,
      st_hashes := (if ''PATH'' \<in> saved_names save then [] else st_hashes ?s)\<rparr>"
    using Cons.IH by blast
  ultimately show ?case
    by (intro exI [of _ vs]) (cases s; auto simp: csh_state_hash_clear_def)
qed

definition saved_ok_entry :: "csh_variable_save \<Rightarrow> bool" where
  "saved_ok_entry e \<longleftrightarrow> valid_name (v_name (save_variable e)) \<and>
     v_attributes (save_variable e) AND NOT VARIABLE_ATTRIBUTES = 0"

lemma restore_step_wf:
  assumes "wf_variables vs" and "save_present e \<Longrightarrow> saved_ok_entry e"
  shows "wf_variables (if save_present e
      then save_variable e # remove_first (\<lambda>x. v_name x = v_name (save_variable e)) vs
      else remove_first (\<lambda>x. v_name x = v_name (save_variable e)) vs)"
  using assms wf_variables_remove [OF assms(1), of "v_name (save_variable e)"]
    lookup_remove_first [of v_name vs "v_name (save_variable e)" "v_name (save_variable e)"]
  by (auto simp: wf_variables_def saved_ok_entry_def lookup_by_None_iff)

lemma restore_loop_wf:
  "wf_variables (st_variables s) \<Longrightarrow> (\<And>e. e \<in> set save \<Longrightarrow> save_present e \<Longrightarrow> saved_ok_entry e) \<Longrightarrow>
   wf_variables (st_variables (restore_loop save s))"
proof (induction save arbitrary: s)
  case Nil
  then show ?case by simp
next
  case (Cons e save)
  have "wf_variables (if save_present e
      then save_variable e # remove_first (\<lambda>x. v_name x = v_name (save_variable e)) (st_variables s)
      else remove_first (\<lambda>x. v_name x = v_name (save_variable e)) (st_variables s))"
    by (rule restore_step_wf) (use Cons.prems in auto)
  with Cons.prems show ?case
    by (auto simp: Let_def csh_state_hash_clear_def intro!: Cons.IH split: if_splits)
qed

lemma restore_loop_find:
  assumes "wf_variables (st_variables s)" and "distinct (map (v_name \<circ> save_variable) save)"
    and "\<And>e. e \<in> set save \<Longrightarrow> save_present e \<Longrightarrow> saved_ok_entry e"
  shows "find_variable (restore_loop save s) n =
    (case find (\<lambda>e. v_name (save_variable e) = n) save of
       Some e \<Rightarrow> if save_present e then Some (save_variable e) else None
     | None \<Rightarrow> find_variable s n)"
  using assms
proof (induction save arbitrary: s)
  case Nil
  then show ?case by simp
next
  case (Cons e save)
  let ?n = "v_name (save_variable e)"
  let ?vs = "remove_first (\<lambda>x. v_name x = ?n) (st_variables s)"
  let ?s = "(if ?n = ''PATH'' then csh_state_hash_clear s else s)
    \<lparr>st_variables := (if save_present e then save_variable e # ?vs else ?vs)\<rparr>"
  have step: "restore_loop (e # save) s = restore_loop save ?s"
    by (auto simp: Let_def csh_state_hash_clear_def)
  have "wf_variables (st_variables ?s)"
    using restore_step_wf [OF Cons.prems(1), of e] Cons.prems(3) by auto
  from Cons.IH [OF this] Cons.prems(2,3)
  have IH: "find_variable (restore_loop save ?s) n =
    (case find (\<lambda>e. v_name (save_variable e) = n) save of
       Some e \<Rightarrow> if save_present e then Some (save_variable e) else None
     | None \<Rightarrow> find_variable ?s n)" by simp
  have "distinct (map v_name (st_variables s))" using Cons.prems(1) by (simp add: wf_variables_def)
  then have "find_variable ?s n = (if n = ?n then if save_present e then Some (save_variable e) else None
      else find_variable s n)"
    by (auto simp: find_variable_def lookup_remove_first csh_state_hash_clear_def)
  moreover have "find (\<lambda>e. v_name (save_variable e) = n) save = None" if "n = ?n"
    using Cons.prems(2) that by (auto simp: find_save_None)
  ultimately show ?case using step IH by (auto split: option.splits)
qed

text \<open>
  C25: a selective save undoes assignments to the names it covers and nothing else. After
  \<open>csh_state_save_variables\<close> on \<open>s\<close>, restoring into any later well-formed state \<open>t\<close> succeeds: a
  named variable is again what it was in \<open>s\<close> (value, attributes or absence, read-only or not),
  every other variable and every other part is that of \<open>t\<close>; the path cache is emptied exactly
  when \<open>PATH\<close> is among the names, and the result is well-formed.
\<close>

theorem save_restore_variables:
  assumes "wf_state s" and "wf_state t"
    and "csh_state_save_variables s names w = (CSH_STATE_OK, Some save, w1)"
    and "csh_state_restore_variables t save w2 = (r, t', w3)"
  shows "r = CSH_STATE_OK \<and> wf_state t' \<and>
    (\<forall>n. find_variable t' n = (if Some n \<in> set names then find_variable s n else find_variable t n)) \<and>
    t' = t\<lparr>st_variables := st_variables t',
      st_hashes := (if Some ''PATH'' \<in> set names then [] else st_hashes t)\<rparr>"
proof -
  from assms(3) have names: "\<forall>n\<in>set (map the names). valid_name n" "None \<notin> set names"
    and run: "save_loop s (map the names) [] w = (CSH_STATE_OK, Some save, w1)"
    by (auto simp: csh_state_save_variables_def list_ex_iff split: if_splits option.splits)
  have ok: "save_ok s save" and sn: "saved_names save = set (map the names)"
    using save_loop_ok [OF run _ names(1)] by (auto simp: save_ok_def)
  have member: "n \<in> saved_names save \<longleftrightarrow> Some n \<in> set names" for n
  proof -
    have "n \<in> the ` set names \<longleftrightarrow> Some n \<in> set names"
    proof
      assume "n \<in> the ` set names"
      then obtain x where "x \<in> set names" "n = the x" by blast
      with names(2) show "Some n \<in> set names" by (cases x) auto
    qed (auto intro: rev_image_eqI)
    then show ?thesis unfolding sn by simp
  qed
  have entry: "saved_ok_entry e" if "e \<in> set save" "save_present e" for e
  proof -
    have "find_variable s (v_name (save_variable e)) = Some (save_variable e)"
      using ok that by (auto simp: save_ok_def)
    from find_variable_wf(2,3) [OF assms(1) this] show ?thesis by (simp add: saved_ok_entry_def)
  qed
  have wft: "wf_variables (st_variables t)" using assms(2) by (simp add: wf_state_def)
  have t': "t' = restore_loop save t" and r: "r = CSH_STATE_OK"
    using assms(4) by (auto simp: csh_state_restore_variables_def Let_def)
  have find: "find_variable t' n = (if Some n \<in> set names then find_variable s n else find_variable t n)" for n
  proof (cases "find (\<lambda>e. v_name (save_variable e) = n) save")
    case None
    then have "Some n \<notin> set names" using member by (simp add: find_save_None)
    with None show ?thesis
      using restore_loop_find [OF wft _ entry, where n = n] ok t' by (simp add: save_ok_def)
  next
    case (Some e)
    then have e: "e \<in> set save" "v_name (save_variable e) = n" by (auto dest: find_SomeD)
    then have "Some n \<in> set names" using member by force
    moreover have "find_variable s n = (if save_present e then Some (save_variable e) else None)"
      using ok e by (auto simp: save_ok_def)
    ultimately show ?thesis
      using restore_loop_find [OF wft _ entry, where n = n] ok t' Some by (simp add: save_ok_def)
  qed
  have frame: "t' = t\<lparr>st_variables := st_variables t',
      st_hashes := (if Some ''PATH'' \<in> set names then [] else st_hashes t)\<rparr>"
    using restore_loop_frame [of save t] member [of "''PATH''"] unfolding t' by (elim exE) simp
  have "wf_variables (st_variables t')" using restore_loop_wf [OF wft entry] t' by simp
  with assms(2) have "wf_state t'"
    by (subst frame) (auto simp: wf_state_def wf_hashes_def)
  with r find frame show ?thesis by blast
qed

theorem save_restore_variables_witness:
  "\<exists>save w1 t' w3. csh_state_save_variables sample_state [Some ''HOME'', Some ''PATH''] sample_world =
       (CSH_STATE_OK, Some save, w1) \<and>
     csh_state_restore_variables zero_state save w1 = (CSH_STATE_OK, t', w3) \<and>
     find_variable t' ''HOME'' = find_variable sample_state ''HOME'' \<and> find_variable t' ''x'' = None"
proof -
  have wf: "wf_state zero_state"
    by (simp add: wf_state_def zero_state_def zero_info_def wf_variables_def wf_functions_def
        wf_hashes_def wf_aliases_def wf_info_def)
  obtain r out w1 where s: "csh_state_save_variables sample_state [Some ''HOME'', Some ''PATH''] sample_world = (r, out, w1)"
    by (cases "csh_state_save_variables sample_state [Some ''HOME'', Some ''PATH''] sample_world") auto
  then obtain save where "r = CSH_STATE_OK" "out = Some save"
    by (simp add: csh_state_save_variables_def sample_state_def sample_world_def zero_state_def find_variable_def
        new_variable_def copy_bytes_def valid_name_def name_start_def less_eq_char_def SIZE_MAX_def) blast
  with s have s: "csh_state_save_variables sample_state [Some ''HOME'', Some ''PATH''] sample_world =
      (CSH_STATE_OK, Some save, w1)" by simp
  obtain r' t' w3 where t: "csh_state_restore_variables zero_state save w1 = (r', t', w3)"
    by (cases "csh_state_restore_variables zero_state save w1") auto
  from save_restore_variables [OF sample_wf wf s t] have
    "r' = CSH_STATE_OK" "find_variable t' ''HOME'' = find_variable sample_state ''HOME''"
    "find_variable t' ''x'' = find_variable zero_state ''x''" by auto
  with s t show ?thesis by (auto simp: find_variable_def zero_state_def)
qed

subsection \<open>The environment\<close>

lemma import_environment_wf:
  "wf_state s \<Longrightarrow> import_environment es s w = (r, s', w') \<Longrightarrow> wf_state s'"
  by (induction es arbitrary: s w)
    (auto dest: csh_state_set_variable_wf csh_state_update_attributes_wf
      split: if_splits option.splits prod.splits csh_state_result.splits,
     metis csh_state_set_variable_wf csh_state_update_attributes_wf)

lemma zero_state_wf: "wf_state zero_state"
  by (simp add: wf_state_def zero_state_def zero_info_def wf_variables_def wf_functions_def
      wf_hashes_def wf_aliases_def wf_info_def)

lemma wf_state_arg0: "wf_state s \<Longrightarrow> wf_state (s\<lparr>st_arg0 := a\<rparr>)"
  by (simp add: wf_state_def)

lemma csh_state_create_ok:
  assumes "csh_state_create iv envp pid w = (CSH_STATE_OK, Some s, w')"
  obtains s0 s1 w0 w1 where
    "s0 = zero_state\<lparr>st_arg0 := inv_arg0 iv, st_arguments := inv_arguments iv,
       st_info := zero_info\<lparr>si_argument_count := length (inv_arguments iv)\<rparr>\<rparr>"
    "case envp of None \<Rightarrow> s1 = s0 \<and> w1 = w0 | Some es \<Rightarrow> import_environment es s0 w0 = (CSH_STATE_OK, s1, w1)"
    "s = s1\<lparr>st_info := (st_info s1)\<lparr>si_shell_pid := pid, si_mode := inv_mode iv,
       si_options := inv_options iv OR (if inv_interactive iv then CSH_OPT_INTERACTIVE else 0)\<rparr>\<rparr>"
proof -
  from assms obtain a0 h h1 c w0 s1 w1 where a0: "copy_bytes (inv_arg0 iv) h = (Some a0, h1)"
    and p: "csh_state_set_parameters (zero_state\<lparr>st_arg0 := a0\<rparr>) (map Some (inv_arguments iv)) (w\<lparr>mallocs := h1\<rparr>) =
      (CSH_STATE_OK, c, w0)"
    and e: "(case envp of None \<Rightarrow> (CSH_STATE_OK, c, w0) | Some es \<Rightarrow> import_environment es c w0) = (CSH_STATE_OK, s1, w1)"
    and s: "s = s1\<lparr>st_info := (st_info s1)\<lparr>si_shell_pid := pid, si_mode := inv_mode iv,
       si_options := inv_options iv OR (if inv_interactive iv then CSH_OPT_INTERACTIVE else 0)\<rparr>\<rparr>"
    by (auto simp: csh_state_create_def split: prod.splits bool.splits option.splits csh_state_result.splits)
  have "c = zero_state\<lparr>st_arg0 := inv_arg0 iv, st_arguments := inv_arguments iv,
       st_info := zero_info\<lparr>si_argument_count := length (inv_arguments iv)\<rparr>\<rparr>"
    using csh_state_set_parameters_ok [OF p] copy_bytes_Some [OF a0] by (simp add: zero_state_def comp_def)
  then show ?thesis
    by (rule that) (use e s in \<open>auto split: option.splits\<close>)
qed

lemma csh_state_create_wf:
  assumes "csh_state_create iv envp pid w = (CSH_STATE_OK, Some s, w')"
    and "inv_options iv AND NOT CSH_SETTABLE_OPTIONS = 0"
  shows "wf_state s"
  using assms(1)
proof (rule csh_state_create_ok)
  fix s0 s1 w0 w1
  assume s0: "s0 = zero_state\<lparr>st_arg0 := inv_arg0 iv, st_arguments := inv_arguments iv,
       st_info := zero_info\<lparr>si_argument_count := length (inv_arguments iv)\<rparr>\<rparr>"
    and e: "case envp of None \<Rightarrow> s1 = s0 \<and> w1 = w0 | Some es \<Rightarrow> import_environment es s0 w0 = (CSH_STATE_OK, s1, w1)"
    and s: "s = s1\<lparr>st_info := (st_info s1)\<lparr>si_shell_pid := pid, si_mode := inv_mode iv,
       si_options := inv_options iv OR (if inv_interactive iv then CSH_OPT_INTERACTIVE else 0)\<rparr>\<rparr>"
  have "wf_state s0" using zero_state_wf by (simp add: s0 wf_state_def wf_info_def zero_state_def zero_info_def)
  with e have "wf_state s1" by (auto dest: import_environment_wf split: option.splits)
  moreover have "(inv_options iv OR (if inv_interactive iv then CSH_OPT_INTERACTIVE else 0)) AND NOT SHELL_OPTIONS = 0"
    using assms(2) unfolding mask_covers_iff SHELL_OPTIONS_def by (auto simp: bit_simps split: if_splits)
  ultimately show "wf_state s" by (simp add: s wf_state_def wf_info_def)
qed

text \<open>What a child process sees of a variable.\<close>

definition env_of :: "csh_state \<Rightarrow> string \<Rightarrow> string option" where
  "env_of s n = (case find_variable s n of None \<Rightarrow> None | Some v \<Rightarrow> if exported v then v_value v else None)"

definition env_entry :: "variable \<Rightarrow> string" where
  "env_entry v = v_name v @ ''='' @ the (v_value v)"

lemma environment_entries_ok:
  "environment_entries vs h = (Some es, h') \<Longrightarrow> es = map env_entry (filter exported vs)"
  by (induction vs arbitrary: h es h') (auto simp: env_entry_def split: if_splits prod.splits bool.splits option.splits)

lemma valid_name_no_equals: "valid_name n \<Longrightarrow> CHR ''='' \<notin> set n"
  by (auto simp: valid_name_def name_start_def less_eq_char_def list_all_iff split: list.splits)

lemma env_entry_split:
  assumes "valid_name n"
  shows "takeWhile (\<lambda>c. c \<noteq> CHR ''='') (n @ ''='' @ v) = n"
    and "dropWhile (\<lambda>c. c \<noteq> CHR ''='') (n @ ''='' @ v) = CHR ''='' # v"
  using valid_name_no_equals [OF assms] by (induction n) auto

text \<open>While the environment is read in, no option is set and every variable is an exported one.\<close>

definition importing :: "csh_state \<Rightarrow> bool" where
  "importing s \<longleftrightarrow> si_options (st_info s) = 0 \<and> (\<forall>v\<in>set (st_variables s). v_attributes v = CSH_VAR_EXPORT)"

definition imported :: "string \<Rightarrow> string \<Rightarrow> variable" where
  "imported n v = \<lparr>v_name = n, v_value = Some v, v_attributes = CSH_VAR_EXPORT\<rparr>"

lemma importing_not_readonly: "importing s \<Longrightarrow> \<not> readonly s n"
  by (auto simp: importing_def readonly_def find_variable_def CSH_VAR_EXPORT_def CSH_VAR_READONLY_def
      dest: lookup_by_SomeD split: option.splits)

lemma export_idem:
  "CSH_VAR_EXPORT OR CSH_VAR_EXPORT = CSH_VAR_EXPORT" "CSH_VAR_EXPORT AND NOT CSH_VAR_EXPORT = 0"
  by simp_all

lemma put_head_update:
  "(\<And>x. v_name (f x) = v_name x) \<Longrightarrow> v_name v = n \<Longrightarrow>
   update_first (\<lambda>x. v_name x = n) f (put_head v_name v vs) = put_head v_name (f v) vs"
  by (induction vs) (auto simp: put_head_def)

lemma import_step:
  assumes "importing s"
    and "csh_state_set_variable s (Some n) (Some v) w = (CSH_STATE_OK, s1, w1)"
    and "csh_state_update_attributes s1 (Some n) CSH_VAR_EXPORT 0 w1 = (CSH_STATE_OK, s2, w2)"
  shows "st_variables s2 = put_head v_name (imported n v) (st_variables s)" and "importing s2"
proof -
  have s1: "s1 = assigned s n v" using assms(2) by (auto elim: csh_state_set_variable_ok)
  have "attributes_of s n = 0 \<or> attributes_of s n = CSH_VAR_EXPORT"
    using assms(1) by (auto simp: attributes_of_def find_variable_def importing_def dest: lookup_by_SomeD split: option.splits)
  moreover have "\<not> allexport s" using assms(1) by (simp add: allexport_def importing_def)
  ultimately have at: "attributes_of s n OR CSH_VAR_EXPORT = CSH_VAR_EXPORT" "\<not> allexport s"
    by auto
  have "find_variable s1 n \<noteq> None" by (simp add: s1 find_assigned)
  with assms(3) have s2: "s2 = s1\<lparr>st_variables := update_first (\<lambda>x. v_name x = n)
         (\<lambda>x. x\<lparr>v_attributes := (v_attributes x OR CSH_VAR_EXPORT) AND NOT 0\<rparr>) (st_variables s1)\<rparr>"
    by (auto simp: csh_state_update_attributes_def split: if_splits)
  show vs: "st_variables s2 = put_head v_name (imported n v) (st_variables s)"
    unfolding s2 s1 assigned_def using at by (simp add: put_head_update imported_def)
  have "si_options (st_info s2) = 0" using assms(1) by (simp add: s2 s1 assigned_def importing_def)
  with vs assms(1) show "importing s2"
    using variable_table.put_all [of "st_variables s" "\<lambda>v. v_attributes v = CSH_VAR_EXPORT" "imported n v"]
    by (simp add: importing_def imported_def)
qed

lemma update_attributes_result:
  "find_variable s n \<noteq> None \<Longrightarrow> valid_name n \<Longrightarrow>
   fst (csh_state_update_attributes s (Some n) CSH_VAR_EXPORT 0 w) = CSH_STATE_OK"
  by (auto simp: csh_state_update_attributes_def)

lemma set_variable_result:
  "valid_name n \<Longrightarrow> \<not> readonly s n \<Longrightarrow>
   fst (csh_state_set_variable s (Some n) (Some v) w) \<in> {CSH_STATE_OK, CSH_STATE_NOMEM}"
  by (auto simp: csh_state_set_variable_def readonly_def split: option.splits prod.splits)

lemma import_environment_result:
  assumes "importing s" and "\<forall>v\<in>set vs. valid_name (v_name v)"
    and "import_environment (map env_entry vs) s w = (r, s', w')"
  shows "r = CSH_STATE_OK \<and> st_variables s' =
      fold (put_head v_name) (map (\<lambda>v. imported (v_name v) (the (v_value v))) vs) (st_variables s) \<or>
    r = CSH_STATE_NOMEM"
  using assms
proof (induction vs arbitrary: s w)
  case Nil
  then show ?case by simp
next
  case (Cons v vs)
  let ?n = "v_name v" and ?x = "the (v_value v)"
  have valid: "valid_name ?n" using Cons.prems(2) by simp
  note split = env_entry_split [OF valid, of ?x, folded env_entry_def]
  have eq: "CHR ''='' \<in> set (env_entry v)" by (simp add: env_entry_def)
  show ?case
  proof (cases "copy_bytes ?n (mallocs w)")
    case (Pair c h)
    show ?thesis
    proof (cases c)
      case None
      with Cons.prems(3) Pair split eq valid show ?thesis by simp
    next
      case (Some m)
      with Pair have m: "m = ?n" by (auto dest: copy_bytes_Some)
      obtain r1 s1 w1 where 1: "csh_state_set_variable s (Some ?n) (Some ?x) (w\<lparr>mallocs := h\<rparr>) = (r1, s1, w1)"
        by (cases "csh_state_set_variable s (Some ?n) (Some ?x) (w\<lparr>mallocs := h\<rparr>)") auto
      have "r1 = CSH_STATE_OK \<or> r1 = CSH_STATE_NOMEM"
        using set_variable_result [OF valid importing_not_readonly [OF Cons.prems(1)], of ?x "w\<lparr>mallocs := h\<rparr>"] 1 by simp
      then show ?thesis
      proof
        assume "r1 = CSH_STATE_NOMEM"
        with Cons.prems(3) Pair Some m split eq valid 1 show ?thesis by simp
      next
        assume r1: "r1 = CSH_STATE_OK"
        obtain r2 s2 w2 where 2: "csh_state_update_attributes s1 (Some ?n) CSH_VAR_EXPORT 0 w1 = (r2, s2, w2)"
          by (cases "csh_state_update_attributes s1 (Some ?n) CSH_VAR_EXPORT 0 w1") auto
        have "s1 = assigned s ?n ?x" using 1 r1 by (auto elim: csh_state_set_variable_ok)
        then have "find_variable s1 ?n \<noteq> None" by (simp add: find_assigned)
        with update_attributes_result [OF _ valid] 2 have r2: "r2 = CSH_STATE_OK" by (metis fst_conv)
        note step = import_step [OF Cons.prems(1) 1 [unfolded r1] 2 [unfolded r2]]
        have "import_environment (map env_entry vs) s2 w2 = (r, s', w')"
          using Cons.prems(3) Pair Some m split eq valid 1 r1 2 r2 by simp
        from Cons.IH [OF step(2) _ this] Cons.prems(2) step(1) show ?thesis by simp
      qed
    qed
  qed
qed

lemma create_cases:
  assumes "csh_state_create iv (Some es) pid w = (r, out, w')"
  shows "(\<exists>w0 r1 s1 w1. import_environment es (zero_state\<lparr>st_arg0 := inv_arg0 iv, st_arguments := inv_arguments iv,
         st_info := zero_info\<lparr>si_argument_count := length (inv_arguments iv)\<rparr>\<rparr>) w0 = (r1, s1, w1) \<and> r = r1 \<and>
       (if r1 = CSH_STATE_OK then \<exists>i. out = Some (s1\<lparr>st_info := i\<rparr>) else out = None)) \<or>
    r = CSH_STATE_NOMEM \<and> out = None"
proof (cases "\<exists>h h' a0 c w0. malloc (mallocs w) = (True, h) \<and> copy_bytes (inv_arg0 iv) h = (Some a0, h') \<and>
    csh_state_set_parameters (zero_state\<lparr>st_arg0 := a0\<rparr>) (map Some (inv_arguments iv)) (w\<lparr>mallocs := h'\<rparr>) =
      (CSH_STATE_OK, c, w0)")
  case True
  then obtain h h' a0 c w0 where m: "malloc (mallocs w) = (True, h)"
    and a0: "copy_bytes (inv_arg0 iv) h = (Some a0, h')"
    and p: "csh_state_set_parameters (zero_state\<lparr>st_arg0 := a0\<rparr>) (map Some (inv_arguments iv)) (w\<lparr>mallocs := h'\<rparr>) =
      (CSH_STATE_OK, c, w0)" by blast
  have c: "c = zero_state\<lparr>st_arg0 := inv_arg0 iv, st_arguments := inv_arguments iv,
         st_info := zero_info\<lparr>si_argument_count := length (inv_arguments iv)\<rparr>\<rparr>"
    using csh_state_set_parameters_ok [OF p] copy_bytes_Some [OF a0] by (simp add: zero_state_def comp_def)
  obtain r1 s1 w1 where i: "import_environment es c w0 = (r1, s1, w1)" by (cases "import_environment es c w0") auto
  then have "r = r1 \<and> (if r1 = CSH_STATE_OK then \<exists>i. out = Some (s1\<lparr>st_info := i\<rparr>) else out = None)"
    using assms m a0 p by (auto simp: csh_state_create_def split: csh_state_result.splits if_splits)
  with i c show ?thesis by blast
next
  case False
  then show ?thesis
    using assms by (auto simp: csh_state_create_def csh_state_set_parameters_def
        split: prod.splits bool.splits option.splits if_splits)
qed

lemma exported_imported: "exported (imported n v)" "v_value (imported n v) = Some v" "v_name (imported n v) = n"
  by (simp_all add: exported_def imported_def CSH_VAR_EXPORT_def)

lemma distinct_exported:
  "distinct (map v_name vs) \<Longrightarrow>
   distinct (map v_name (map (\<lambda>v. imported (v_name v) (the (v_value v))) (filter exported vs)))"
  by (simp add: comp_def exported_imported distinct_map_filter)

lemma lookup_rev:
  assumes "distinct (map v_name xs)"
  shows "lookup_by v_name n (rev xs) = lookup_by v_name n xs"
proof (cases "lookup_by v_name n xs")
  case None
  then have "lookup_by v_name n (rev xs) = None" by (simp add: lookup_by_None_iff)
  with None show ?thesis by simp
next
  case (Some x)
  then have "x \<in> set (rev xs)" "v_name x = n" by (auto dest: lookup_by_SomeD)
  moreover have "distinct (map v_name (rev xs))" using assms by (simp add: rev_map [symmetric])
  ultimately show ?thesis using Some lookup_by_in_set by metis
qed

lemma lookup_exported:
  assumes "distinct (map v_name vs)"
  shows "lookup_by v_name n (map (\<lambda>v. imported (v_name v) (the (v_value v))) (filter exported vs)) =
    (case lookup_by v_name n vs of None \<Rightarrow> None
     | Some v \<Rightarrow> if exported v then Some (imported n (the (v_value v))) else None)"
  using assms
  by (induction vs)
    (auto simp: imported_def lookup_by_None_iff image_iff dest!: lookup_by_SomeD split: option.splits)

text \<open>
  C18: the environment a shell hands to a child is read back by that child as exactly the exported
  variables. If \<open>csh_state_environment\<close> of a well-formed state returns \<open>es\<close>, a shell created from
  \<open>es\<close> either runs out of memory or has, for every name, the value the parent exports under that
  name, exported again, and no other variable.
\<close>

theorem environment_roundtrip:
  assumes "wf_state s" and "csh_state_environment s w = (CSH_STATE_OK, Some es, w1)"
    and "csh_state_create iv (Some es) pid w2 = (r, out, w3)"
  shows "r = CSH_STATE_OK \<and> (\<exists>s'. out = Some s' \<and>
       (\<forall>n. env_of s' n = env_of s n \<and> find_variable s' n = map_option (imported n) (env_of s n))) \<or>
    r = CSH_STATE_NOMEM \<and> out = None"
proof -
  let ?vs = "filter exported (st_variables s)"
  have es: "es = map env_entry ?vs"
    using assms(2) by (auto simp: csh_state_environment_def dest!: environment_entries_ok
        split: if_splits prod.splits bool.splits option.splits)
  have vs: "\<forall>v\<in>set ?vs. valid_name (v_name v)" "distinct (map v_name (st_variables s))"
    using assms(1) by (auto simp: wf_state_def wf_variables_def)
  have start: "importing (zero_state\<lparr>st_arg0 := inv_arg0 iv, st_arguments := inv_arguments iv,
       st_info := zero_info\<lparr>si_argument_count := length (inv_arguments iv)\<rparr>\<rparr>)"
    by (simp add: importing_def zero_state_def zero_info_def)
  from create_cases [OF assms(3)] show ?thesis
  proof
    assume "\<exists>w0 r1 s1 w1. import_environment es (zero_state\<lparr>st_arg0 := inv_arg0 iv, st_arguments := inv_arguments iv,
         st_info := zero_info\<lparr>si_argument_count := length (inv_arguments iv)\<rparr>\<rparr>) w0 = (r1, s1, w1) \<and> r = r1 \<and>
       (if r1 = CSH_STATE_OK then \<exists>i. out = Some (s1\<lparr>st_info := i\<rparr>) else out = None)"
    then obtain w0 s1 w1 where
      run: "import_environment es (zero_state\<lparr>st_arg0 := inv_arg0 iv, st_arguments := inv_arguments iv,
         st_info := zero_info\<lparr>si_argument_count := length (inv_arguments iv)\<rparr>\<rparr>) w0 = (r, s1, w1)" and
      out: "if r = CSH_STATE_OK then \<exists>i. out = Some (s1\<lparr>st_info := i\<rparr>) else out = None"
      by blast
    from import_environment_result [OF start vs(1) run [unfolded es]] show ?thesis
    proof
      assume ok: "r = CSH_STATE_OK \<and> st_variables s1 = fold (put_head v_name)
        (map (\<lambda>v. imported (v_name v) (the (v_value v))) ?vs) (st_variables (zero_state\<lparr>st_arg0 := inv_arg0 iv,
          st_arguments := inv_arguments iv, st_info := zero_info\<lparr>si_argument_count := length (inv_arguments iv)\<rparr>\<rparr>))"
      have find: "find_variable s1 n = map_option (imported n) (env_of s n)" for n
        using ok lookup_rev [OF distinct_exported [OF vs(2)], of n] lookup_exported [OF vs(2), of n]
        by (simp add: find_variable_def env_of_def zero_state_def variable_table.fold_put_lookup split: option.splits)
          (auto simp: exported_def)
      with ok out show ?thesis by (auto simp: find_variable_def env_of_def exported_imported split: option.splits)
    qed (use out in auto)
  qed simp
qed

theorem environment_roundtrip_witness:
  "\<exists>es w1 s' w3. csh_state_environment sample_state sample_world = (CSH_STATE_OK, Some es, w1) \<and>
     es = [''HOME=/root''] \<and>
     csh_state_create \<lparr>inv_input = \<lparr>in_name = ''-c'', in_text = Some ''exit'', in_text_offset = 0, in_fd = -1,
         in_capacity = 0, in_position = no_position, in_ended = False, in_failure = no_error,
         in_wait_hook = False, in_eof_hook = False\<rparr>, inv_mode = CSH_MODE_STRING, inv_interactive = False,
       inv_options = 0, inv_option_mask = 0, inv_arg0 = ''sh'', inv_arguments = []\<rparr> (Some es) 12 w1 =
       (CSH_STATE_OK, Some s', w3) \<and>
     env_of s' ''HOME'' = Some ''/root'' \<and> env_of s' ''x'' = None"
proof -
  obtain w1 where e: "csh_state_environment sample_state sample_world = (CSH_STATE_OK, Some [''HOME=/root''], w1)"
    by (simp add: csh_state_environment_def sample_state_def sample_world_def exported_def zero_state_def
        CSH_VAR_EXPORT_def CSH_VAR_READONLY_def SIZE_MAX_def)
  let ?iv = "\<lparr>inv_input = \<lparr>in_name = ''-c'', in_text = Some ''exit'', in_text_offset = 0, in_fd = -1,
         in_capacity = 0, in_position = no_position, in_ended = False, in_failure = no_error,
         in_wait_hook = False, in_eof_hook = False\<rparr>, inv_mode = CSH_MODE_STRING, inv_interactive = False,
       inv_options = 0, inv_option_mask = 0, inv_arg0 = ''sh'', inv_arguments = []\<rparr>"
  obtain r out w3 where c: "csh_state_create ?iv (Some [''HOME=/root'']) 12 w1 = (r, out, w3)"
    by (cases "csh_state_create ?iv (Some [''HOME=/root'']) 12 w1") auto
  have "mallocs w1 = []"
    using e by (auto simp: csh_state_environment_def sample_state_def sample_world_def exported_def zero_state_def
        CSH_VAR_EXPORT_def CSH_VAR_READONLY_def SIZE_MAX_def)
  with c have "r = CSH_STATE_OK"
    by (simp add: csh_state_create_def copy_bytes_def csh_state_set_parameters_def csh_state_set_variable_def
        new_variable_def find_variable_def valid_name_def name_start_def less_eq_char_def SIZE_MAX_def
        zero_state_def zero_info_def after_assignment_def csh_state_update_attributes_def locale_variable_def
        locale_categories_def CSH_VAR_EXPORT_def CSH_VAR_READONLY_def VARIABLE_ATTRIBUTES_def)
  with environment_roundtrip [OF sample_wf e c] obtain s' where "out = Some s'" "\<forall>n. env_of s' n = env_of sample_state n"
    by auto
  moreover have "env_of sample_state ''HOME'' = Some ''/root''" "env_of sample_state ''x'' = None"
    by (simp_all add: env_of_def find_variable_def sample_state_def exported_def CSH_VAR_EXPORT_def)
  ultimately show ?thesis using e c \<open>r = CSH_STATE_OK\<close> by auto
qed

end
