(* ===== verification/State_Props.thy ===== *)
theory State_Props
  imports State_Copies
begin

text \<open>
  The client's view of \<open>src/state.c\<close>: variables refine a map, read-only variables are protected,
  failed mutations change nothing, parameters are a stack, the path cache follows \<open>PATH\<close>.
\<close>

subsection \<open>Variables as a map\<close>

definition variable_map :: "csh_state \<Rightarrow> string \<rightharpoonup> string option \<times> uint" where
  "variable_map s n = map_option (\<lambda>v. (v_value v, v_attributes v)) (find_variable s n)"

lemma map_attributes_of: "attributes_of s n = (case variable_map s n of None \<Rightarrow> 0 | Some (_, a) \<Rightarrow> a)"
  by (simp add: attributes_of_def variable_map_def split: option.splits)

lemma variable_map_assigned:
  "variable_map (assigned s n v) =
     (variable_map s)(n \<mapsto> (Some v, attributes_of s n OR (if allexport s then CSH_VAR_EXPORT else 0)))"
  by (rule ext) (simp add: variable_map_def find_assigned)

lemma variable_map_update:
  assumes "csh_state_update_attributes s (Some n) sets clears w = (CSH_STATE_OK, s', w')"
  shows "variable_map s' =
    (case variable_map s n of
       Some (v, a) \<Rightarrow> (variable_map s)(n \<mapsto> (v, (a OR sets) AND NOT clears))
     | None \<Rightarrow> if sets AND NOT clears = 0 then variable_map s
               else (variable_map s)(n \<mapsto> (None, sets AND NOT clears)))"
  using assms
proof (rule csh_state_update_attributes_ok)
  fix m
  assume m: "Some n = Some m"
    and ex: "find_variable s m \<noteq> None \<Longrightarrow>
       s' = s\<lparr>st_variables := update_first (\<lambda>x. v_name x = m)
         (\<lambda>x. x\<lparr>v_attributes := (v_attributes x OR sets) AND NOT clears\<rparr>) (st_variables s)\<rparr>"
    and no: "find_variable s m = None \<Longrightarrow> sets AND NOT clears = 0 \<Longrightarrow> s' = s"
    and new: "find_variable s m = None \<Longrightarrow> sets AND NOT clears \<noteq> 0 \<Longrightarrow>
       s' = s\<lparr>st_variables := put_head v_name
         \<lparr>v_name = m, v_value = None, v_attributes = sets AND NOT clears\<rparr> (st_variables s)\<rparr>"
  show ?thesis
  proof (cases "find_variable s n")
    case (Some v)
    then have "find_variable s m \<noteq> None" using m by simp
    from ex [OF this] have s': "find_variable s' k = (if k = m then map_option
        (\<lambda>x. x\<lparr>v_attributes := (v_attributes x OR sets) AND NOT clears\<rparr>) (find_variable s m) else find_variable s k)" for k
      by (simp add: update_variable_find)
    show ?thesis using Some m by (auto simp: variable_map_def s' fun_eq_iff)
  next
    case None
    then have f: "find_variable s m = None" using m by simp
    show ?thesis
    proof (cases "sets AND NOT clears = 0")
      case True
      from no [OF f True] None True show ?thesis by (simp add: variable_map_def)
    next
      case False
      from new [OF f False] None False m show ?thesis
        by (auto simp: variable_map_def find_variable_def variable_table.put_lookup fun_eq_iff)
    qed
  qed
qed

lemma variable_map_unset:
  assumes "wf_state s" and "csh_state_unset_variable s (Some n) w = (CSH_STATE_OK, s', w')"
  shows "variable_map s' = (variable_map s)(n := None)"
  using assms(2) wf_state_distinct [OF assms(1)]
  by (auto elim!: csh_state_unset_variable_ok
      simp: variable_map_def find_variable_def lookup_remove_first fun_eq_iff)

lemma readonly_map: "readonly s n \<longleftrightarrow> (\<exists>v a. variable_map s n = Some (v, a) \<and> a AND CSH_VAR_READONLY \<noteq> 0)"
  by (auto simp: readonly_def variable_map_def split: option.splits)

text \<open>
  C8: the variable operations implement a map from names to values and attributes. On a
  well-formed state a successful assignment updates one entry and keeps its attributes (adding
  export under \<open>allexport\<close>), a successful unset deletes one entry, a successful attribute change
  rewrites one entry's attributes (creating a valueless entry only when an attribute remains), and
  a lookup of a valid name returns the entry, or no value and no attributes.
\<close>

theorem variables_refine_map:
  assumes "wf_state s"
  shows "(\<forall>v w s' w'. csh_state_set_variable s (Some n) (Some v) w = (CSH_STATE_OK, s', w') \<longrightarrow>
      variable_map s' = (variable_map s)(n \<mapsto>
        (Some v, (case variable_map s n of None \<Rightarrow> 0 | Some (_, a) \<Rightarrow> a) OR
           (if si_options (st_info s) AND CSH_OPT_ALLEXPORT \<noteq> 0 then CSH_VAR_EXPORT else 0)))) \<and>
    (\<forall>w s' w'. csh_state_unset_variable s (Some n) w = (CSH_STATE_OK, s', w') \<longrightarrow>
      variable_map s' = (variable_map s)(n := None)) \<and>
    (\<forall>sets clears w s' w'. csh_state_update_attributes s (Some n) sets clears w = (CSH_STATE_OK, s', w') \<longrightarrow>
      variable_map s' =
        (case variable_map s n of
           Some (v, a) \<Rightarrow> (variable_map s)(n \<mapsto> (v, (a OR sets) AND NOT clears))
         | None \<Rightarrow> if sets AND NOT clears = 0 then variable_map s
                   else (variable_map s)(n \<mapsto> (None, sets AND NOT clears)))) \<and>
    (valid_name n \<longrightarrow> csh_state_get_variable s (Some n) = (CSH_STATE_OK,
      case variable_map s n of None \<Rightarrow> no_view | Some (v, a) \<Rightarrow> \<lparr>view_value = v, view_attributes = a\<rparr>))"
proof (intro conjI allI impI)
  fix v w s' w'
  assume "csh_state_set_variable s (Some n) (Some v) w = (CSH_STATE_OK, s', w')"
  then have "s' = assigned s n v" by (auto elim: csh_state_set_variable_ok)
  then show "variable_map s' = (variable_map s)(n \<mapsto>
        (Some v, (case variable_map s n of None \<Rightarrow> 0 | Some (_, a) \<Rightarrow> a) OR
           (if si_options (st_info s) AND CSH_OPT_ALLEXPORT \<noteq> 0 then CSH_VAR_EXPORT else 0)))"
    by (simp add: variable_map_assigned allexport_def flip: map_attributes_of)
next
  fix w s' w'
  assume "csh_state_unset_variable s (Some n) w = (CSH_STATE_OK, s', w')"
  with assms show "variable_map s' = (variable_map s)(n := None)" by (rule variable_map_unset)
next
  fix sets clears w s' w'
  assume "csh_state_update_attributes s (Some n) sets clears w = (CSH_STATE_OK, s', w')"
  then show "variable_map s' = (case variable_map s n of
           Some (v, a) \<Rightarrow> (variable_map s)(n \<mapsto> (v, (a OR sets) AND NOT clears))
         | None \<Rightarrow> if sets AND NOT clears = 0 then variable_map s
                   else (variable_map s)(n \<mapsto> (None, sets AND NOT clears)))"
    by (rule variable_map_update)
next
  assume "valid_name n"
  then show "csh_state_get_variable s (Some n) = (CSH_STATE_OK,
      case variable_map s n of None \<Rightarrow> no_view | Some (v, a) \<Rightarrow> \<lparr>view_value = v, view_attributes = a\<rparr>)"
    by (simp add: csh_state_get_variable_def variable_map_def split: option.splits)
qed

theorem variables_refine_map_witness:
  "csh_state_get_variable sample_state (Some ''HOME'') =
     (CSH_STATE_OK, \<lparr>view_value = Some ''/root'', view_attributes = CSH_VAR_EXPORT\<rparr>) \<and>
   (\<exists>s' w'. csh_state_unset_variable sample_state (Some ''HOME'') sample_world = (CSH_STATE_OK, s', w') \<and>
      variable_map s' = (variable_map sample_state)(''HOME'' := None))"
proof -
  have v: "valid_name ''HOME''" by (simp add: valid_name_def name_start_def less_eq_char_def)
  have m: "variable_map sample_state ''HOME'' = Some (Some ''/root'', CSH_VAR_EXPORT)"
    by (simp add: variable_map_def find_variable_def sample_state_def)
  obtain s' w' where u: "csh_state_unset_variable sample_state (Some ''HOME'') sample_world = (CSH_STATE_OK, s', w')"
    by (simp add: csh_state_unset_variable_def find_variable_def sample_state_def v [simplified]
        CSH_VAR_EXPORT_def CSH_VAR_READONLY_def Let_def)
  from variables_refine_map [OF sample_wf, of "''HOME''"]
  have "variable_map s' = (variable_map sample_state)(''HOME'' := None)"
    "csh_state_get_variable sample_state (Some ''HOME'') = (CSH_STATE_OK,
      case variable_map sample_state ''HOME'' of None \<Rightarrow> no_view | Some (v, a) \<Rightarrow> \<lparr>view_value = v, view_attributes = a\<rparr>)"
    using u v by blast+
  with u m show ?thesis by simp
qed

lemma readonly_bits:
  "a AND CSH_VAR_READONLY \<noteq> 0 \<Longrightarrow> clears AND CSH_VAR_READONLY = 0 \<Longrightarrow>
   ((a OR sets) AND NOT clears) AND CSH_VAR_READONLY \<noteq> 0"
  by (auto simp: bit_eq_iff bit_simps CSH_VAR_READONLY_def)

text \<open>
  C26: a read-only variable is protected. Whatever name, value and attribute bits an assignment, an
  unset or an attribute change is given, and whether it succeeds or not, a variable that was
  read-only keeps its value and is still read-only afterwards; aimed at that variable, assignment
  and unset report \<open>READONLY\<close>.
\<close>

theorem readonly_protected:
  assumes "wf_state s" and "readonly s n"
    and "csh_state_set_variable s m v w = (r, s', w') \<or> csh_state_unset_variable s m w = (r, s', w') \<or>
      csh_state_update_attributes s m sets clears w = (r, s', w')"
  shows "readonly s' n \<and> map_option v_value (find_variable s' n) = map_option v_value (find_variable s n) \<and>
    csh_state_set_variable s (Some n) (Some x) w = (CSH_STATE_READONLY, s, w) \<and>
    csh_state_unset_variable s (Some n) w = (CSH_STATE_READONLY, s, w)"
proof -
  obtain var where var: "find_variable s n = Some var" "v_attributes var AND CSH_VAR_READONLY \<noteq> 0"
    using assms(2) by (auto simp: readonly_def split: option.splits)
  have valid: "valid_name n" using find_variable_wf(2) [OF assms(1) var(1)] .
  have refused: "csh_state_set_variable s (Some n) (Some x) w = (CSH_STATE_READONLY, s, w)"
    "csh_state_unset_variable s (Some n) w = (CSH_STATE_READONLY, s, w)"
    using var valid by (simp_all add: csh_state_set_variable_def csh_state_unset_variable_def)
  have "readonly s' n \<and> map_option v_value (find_variable s' n) = map_option v_value (find_variable s n)"
  proof (cases "r = CSH_STATE_OK")
    case False
    with assms(3) have "s' = s"
      by (auto dest: csh_state_set_variable_error csh_state_unset_variable_error csh_state_update_attributes_error)
    with assms(2) show ?thesis by simp
  next
    case True
    from assms(3) [unfolded True] show ?thesis
    proof (elim disjE)
      assume "csh_state_set_variable s m v w = (CSH_STATE_OK, s', w')"
      then obtain k y where "\<not> readonly s k" "s' = assigned s k y" by (auto elim: csh_state_set_variable_ok)
      with assms(2) show ?thesis by (auto simp: readonly_def find_assigned)
    next
      assume "csh_state_unset_variable s m w = (CSH_STATE_OK, s', w')"
      then obtain k where k: "m = Some k" "\<not> readonly s k" "csh_state_unset_variable s (Some k) w = (CSH_STATE_OK, s', w')"
        by (auto elim: csh_state_unset_variable_ok)
      with assms(2) have "n \<noteq> k" by auto
      with variable_map_unset [OF assms(1) k(3)] have "variable_map s' n = variable_map s n" by simp
      with assms(2) show ?thesis by (auto simp: readonly_def variable_map_def split: option.splits)
    next
      assume u: "csh_state_update_attributes s m sets clears w = (CSH_STATE_OK, s', w')"
      then obtain k where k: "m = Some k" "readonly s k \<Longrightarrow> clears AND CSH_VAR_READONLY = 0"
        by (auto elim: csh_state_update_attributes_ok)
      have "\<exists>a. variable_map s' n = Some (v_value var, a) \<and> a AND CSH_VAR_READONLY \<noteq> 0"
        using variable_map_update [OF u [unfolded k(1)]] var k(2) assms(2) readonly_bits
        by (auto simp: variable_map_def split: option.splits if_splits)
      with var show ?thesis by (auto simp: readonly_def variable_map_def split: option.splits)
    qed
  qed
  with refused show ?thesis by blast
qed

theorem readonly_protected_witness:
  "readonly sample_state ''x'' \<and>
   csh_state_set_variable sample_state (Some ''x'') (Some ''1'') sample_world =
     (CSH_STATE_READONLY, sample_state, sample_world)"
proof -
  have ro: "readonly sample_state ''x''"
    by (simp add: readonly_def find_variable_def sample_state_def CSH_VAR_READONLY_def)
  obtain r s' w' where "csh_state_unset_variable sample_state (Some ''HOME'') sample_world = (r, s', w')"
    by (cases "csh_state_unset_variable sample_state (Some ''HOME'') sample_world") auto
  with readonly_protected [OF sample_wf ro, of "Some ''HOME''" _ sample_world r s' w' _ _ "''1''"] ro
  show ?thesis by blast
qed

subsection \<open>Failures\<close>

lemma push_parameters_result:
  "csh_state_push_parameters s args w = (r, s', save, w') \<Longrightarrow>
   if r = CSH_STATE_OK then
     None \<notin> set args \<and> s' = s\<lparr>st_arguments := map the args, st_info := (st_info s)\<lparr>si_argument_count := length args\<rparr>\<rparr> \<and>
     save = Some \<lparr>ps_arguments = st_arguments s, ps_count = si_argument_count (st_info s)\<rparr>
   else s' = s \<and> save = None"
  by (auto simp: csh_state_push_parameters_def dest: csh_state_set_parameters_ok
      split: prod.splits csh_state_result.splits if_splits)

text \<open>
  C27: a mutation that does not succeed leaves the whole state as it was, for every operation that
  can fail and whichever check or allocation stops it.
\<close>

theorem failed_mutation_unchanged:
  assumes "r \<noteq> CSH_STATE_OK"
    and "csh_state_set_variable s name value w = (r, s', w') \<or>
      csh_state_update_attributes s name sets clears w = (r, s', w') \<or>
      csh_state_unset_variable s name w = (r, s', w') \<or>
      csh_state_set_parameters s args w = (r, s', w') \<or>
      csh_state_push_parameters s args w = (r, s', save, w') \<or>
      csh_state_set_function s name f w = (r, s', w') \<or>
      csh_state_hash_set s n path w = (r, s', w') \<or>
      csh_state_set_status s code = (r, s') \<or>
      csh_state_set_background s code = (r, s') \<or>
      csh_state_update_options s sets clears = (r, s')"
  shows "s' = s"
  using assms
  by (auto dest: csh_state_set_variable_error csh_state_update_attributes_error csh_state_unset_variable_error
      csh_state_set_parameters_error csh_state_set_function_error csh_state_hash_set_error push_parameters_result
      simp: csh_state_set_status_def csh_state_set_background_def csh_state_update_options_def split: if_splits)

theorem failed_mutation_unchanged_witness:
  "\<exists>w'. csh_state_set_parameters sample_state [Some ''a'', Some ''b''] (sample_world\<lparr>mallocs := [True, True, False]\<rparr>) =
     (CSH_STATE_NOMEM, sample_state, w')"
proof -
  obtain r s' w' where run: "csh_state_set_parameters sample_state [Some ''a'', Some ''b'']
      (sample_world\<lparr>mallocs := [True, True, False]\<rparr>) = (r, s', w')"
    by (cases "csh_state_set_parameters sample_state [Some ''a'', Some ''b'']
      (sample_world\<lparr>mallocs := [True, True, False]\<rparr>)") auto
  then have r: "r = CSH_STATE_NOMEM" by (simp add: csh_state_set_parameters_def copy_bytes_def SIZE_MAX_def)
  with failed_mutation_unchanged [of r sample_state None None _ s' w'] run have "s' = sample_state" by blast
  with run r show ?thesis by auto
qed

subsection \<open>Parameters\<close>

text \<open>
  positional parameters are a stack of vectors. Pushing a vector makes \<open>$1 ... $n\<close> its
  elements and \<open>$#\<close> its length, nothing above is set, \<open>$0\<close> stays; popping right after it gives back
  exactly the state before, even when other parts changed in between the two only the parameters
  go back.
\<close>

theorem parameters_push_pop:
  assumes "csh_state_push_parameters s args w = (CSH_STATE_OK, s', save, w')"
  shows "(\<forall>i. csh_state_parameter s' i =
      (if i = 0 then Some (st_arg0 s) else if i \<le> length args then args ! (i - 1) else None)) \<and>
    si_argument_count (csh_state_get_info s') = length args \<and>
    (\<exists>sv. save = Some sv \<and> csh_state_pop_parameters s' sv = s \<and>
      (\<forall>t. st_arguments (csh_state_pop_parameters t sv) = st_arguments s \<and>
           st_variables (csh_state_pop_parameters t sv) = st_variables t))"
proof -
  have "None \<notin> set args" and s': "s' = s\<lparr>st_arguments := map the args, st_info := (st_info s)\<lparr>si_argument_count := length args\<rparr>\<rparr>"
    and sv: "save = Some \<lparr>ps_arguments = st_arguments s, ps_count = si_argument_count (st_info s)\<rparr>"
    using push_parameters_result [OF assms] by auto
  then have nth: "args ! k = Some (the (args ! k))" if "k < length args" for k
    using nth_mem [OF that] by (cases "args ! k") auto
  have "csh_state_parameter s' i =
      (if i = 0 then Some (st_arg0 s) else if i \<le> length args then args ! (i - 1) else None)" for i
    using nth [of "i - 1"] by (auto simp: csh_state_parameter_def s')
  then show ?thesis by (auto simp: s' sv csh_state_get_info_def csh_state_pop_parameters_def)
qed

theorem parameters_push_pop_witness:
  "\<exists>s' save w'. csh_state_push_parameters sample_state [Some ''a'', Some ''b''] sample_world =
     (CSH_STATE_OK, s', save, w') \<and> csh_state_parameter s' 2 = Some ''b'' \<and> csh_state_parameter s' 3 = None"
proof -
  obtain r s' save w' where run: "csh_state_push_parameters sample_state [Some ''a'', Some ''b''] sample_world =
      (r, s', save, w')"
    by (cases "csh_state_push_parameters sample_state [Some ''a'', Some ''b''] sample_world") auto
  then have r: "r = CSH_STATE_OK"
    by (simp add: csh_state_push_parameters_def csh_state_set_parameters_def copy_bytes_def SIZE_MAX_def
        sample_world_def)
  with parameters_push_pop [of sample_state _ sample_world s' save w'] run
  have "csh_state_parameter s' 2 = Some ''b''" "csh_state_parameter s' 3 = None" by simp_all
  with run r show ?thesis by auto
qed

subsection \<open>The command-path cache\<close>

lemma hash_get_put:
  "csh_state_hash_set s n p w = (CSH_STATE_OK, s', w') \<Longrightarrow>
   csh_state_hash_get s' m = (if m = n then p else csh_state_hash_get s m)"
  by (drule csh_state_hash_set_ok) (auto simp: csh_state_hash_get_def hash_table.put_lookup)

text \<open>
  a remembered command path never outlives the \<open>PATH\<close> it was found on. A remembered path is
  what a lookup returns; after a successful assignment to \<open>PATH\<close>, or an unset of a set \<open>PATH\<close>, every
  lookup misses; assigning or unsetting any other variable keeps the cache.
\<close>

theorem path_cache_invalidated:
  assumes "csh_state_set_variable s (Some n) (Some v) w = (CSH_STATE_OK, s', w') \<or>
      find_variable s n \<noteq> None \<and> csh_state_unset_variable s (Some n) w = (CSH_STATE_OK, s', w')"
  shows "csh_state_hash_get s' c = (if n = ''PATH'' then None else csh_state_hash_get s c) \<and>
    (\<forall>p w2 t w3. csh_state_hash_set s' c p w2 = (CSH_STATE_OK, t, w3) \<longrightarrow>
      (\<forall>d. csh_state_hash_get t d = (if d = c then p else csh_state_hash_get s' d)))"
proof -
  have "st_hashes s' = (if n = ''PATH'' then [] else st_hashes s)"
    using assms
  proof
    assume "csh_state_set_variable s (Some n) (Some v) w = (CSH_STATE_OK, s', w')"
    then have "s' = assigned s n v" by (auto elim: csh_state_set_variable_ok)
    then show ?thesis by (simp add: assigned_def)
  next
    assume "find_variable s n \<noteq> None \<and> csh_state_unset_variable s (Some n) w = (CSH_STATE_OK, s', w')"
    then show ?thesis by (auto elim!: csh_state_unset_variable_ok)
  qed
  then show ?thesis using hash_get_put by (auto simp: csh_state_hash_get_def)
qed

theorem path_cache_invalidated_witness:
  "csh_state_hash_get sample_state ''ls'' = Some ''/bin/ls'' \<and>
   (\<exists>s' w'. csh_state_set_variable sample_state (Some ''PATH'') (Some ''/usr/bin'') sample_world = (CSH_STATE_OK, s', w') \<and>
      csh_state_hash_get s' ''ls'' = None)"
proof -
  have "\<exists>w'. csh_state_set_variable sample_state (Some ''PATH'') (Some ''/usr/bin'') sample_world =
      (CSH_STATE_OK, assigned sample_state ''PATH'' ''/usr/bin'', w')"
    by (rule csh_state_set_variable_reliable)
      (simp_all add: readonly_def find_variable_def sample_state_def zero_state_def sample_world_def valid_name_def
        name_start_def less_eq_char_def SIZE_MAX_def)
  then obtain w' where run: "csh_state_set_variable sample_state (Some ''PATH'') (Some ''/usr/bin'') sample_world =
      (CSH_STATE_OK, assigned sample_state ''PATH'' ''/usr/bin'', w')" by blast
  with path_cache_invalidated [OF disjI1 [OF run], of "''ls''"] show ?thesis
    by (auto simp: csh_state_hash_get_def sample_state_def)
qed

end
