(* ===== verification/State_Machine.thy ===== *)
theory State_Machine
  imports State_Props
begin

text \<open>
  A running shell as a machine: the current state, the process world, and everything that was
  saved from the state and may come back (selective saves, checkpoints, parameter frames). A
  step is one call of a \<open>src/state.c\<close> operation that changes any of these, or of the \<open>alias\<close> and
  \<open>unalias\<close> handlers on the state's table, with arbitrary arguments and outcome.
\<close>

record machine =
  m_state :: csh_state
  m_world :: world
  m_saves :: "csh_variable_save list list"
  m_checkpoints :: "csh_state list"
  m_frames :: "csh_parameter_save list"

inductive state_step :: "machine \<Rightarrow> machine \<Rightarrow> bool" where
  set_variable:
    "csh_state_set_variable (m_state m) name value (m_world m) = (r, s, w) \<Longrightarrow>
     state_step m (m\<lparr>m_state := s, m_world := w\<rparr>)"
| update_attributes:
    "csh_state_update_attributes (m_state m) name sets clears (m_world m) = (r, s, w) \<Longrightarrow>
     state_step m (m\<lparr>m_state := s, m_world := w\<rparr>)"
| unset_variable:
    "csh_state_unset_variable (m_state m) name (m_world m) = (r, s, w) \<Longrightarrow>
     state_step m (m\<lparr>m_state := s, m_world := w\<rparr>)"
| save_variables:
    "csh_state_save_variables (m_state m) names (m_world m) = (r, save, w) \<Longrightarrow>
     state_step m (m\<lparr>m_world := w, m_saves := (case save of None \<Rightarrow> m_saves m | Some sv \<Rightarrow> sv # m_saves m)\<rparr>)"
| restore_variables:
    "save \<in> set (m_saves m) \<Longrightarrow> csh_state_restore_variables (m_state m) save (m_world m) = (r, s, w) \<Longrightarrow>
     state_step m (m\<lparr>m_state := s, m_world := w, m_saves := remove1 save (m_saves m)\<rparr>)"
| set_parameters:
    "csh_state_set_parameters (m_state m) args (m_world m) = (r, s, w) \<Longrightarrow>
     state_step m (m\<lparr>m_state := s, m_world := w\<rparr>)"
| push_parameters:
    "csh_state_push_parameters (m_state m) args (m_world m) = (r, s, save, w) \<Longrightarrow>
     state_step m (m\<lparr>m_state := s, m_world := w,
       m_frames := (case save of None \<Rightarrow> m_frames m | Some f \<Rightarrow> f # m_frames m)\<rparr>)"
| pop_parameters:
    "m_frames m = f # fs \<Longrightarrow>
     state_step m (m\<lparr>m_state := csh_state_pop_parameters (m_state m) f, m_frames := fs\<rparr>)"
| set_status: "state_step m (m\<lparr>m_state := snd (csh_state_set_status (m_state m) code)\<rparr>)"
| set_background: "state_step m (m\<lparr>m_state := snd (csh_state_set_background (m_state m) pid)\<rparr>)"
| update_options: "state_step m (m\<lparr>m_state := snd (csh_state_update_options (m_state m) sets clears)\<rparr>)"
| set_errexit_ignored: "state_step m (m\<lparr>m_state := csh_state_set_errexit_ignored (m_state m) d\<rparr>)"
| set_function_depth: "state_step m (m\<lparr>m_state := csh_state_set_function_depth (m_state m) d\<rparr>)"
| set_source_depth: "state_step m (m\<lparr>m_state := csh_state_set_source_depth (m_state m) d\<rparr>)"
| set_getopts_offset: "state_step m (m\<lparr>m_state := csh_state_set_getopts_offset (m_state m) k\<rparr>)"
| hash_clear: "state_step m (m\<lparr>m_state := csh_state_hash_clear (m_state m)\<rparr>)"
| hash_set:
    "csh_state_hash_set (m_state m) n path (m_world m) = (r, s, w) \<Longrightarrow>
     state_step m (m\<lparr>m_state := s, m_world := w\<rparr>)"
| set_function:
    "csh_state_set_function (m_state m) name f (m_world m) = (r, s, w) \<Longrightarrow>
     state_step m (m\<lparr>m_state := s, m_world := w\<rparr>)"
| aliases:
    "csh_state_aliases (m_state m) (m_world m) = (al, s, w) \<Longrightarrow>
     state_step m (m\<lparr>m_state := s, m_world := w\<rparr>)"
| builtin_alias:
    "csh_builtin_alias (st_aliases (m_state m)) argv (mallocs (m_world m)) out err = run \<Longrightarrow>
     state_step m (m\<lparr>m_state := (m_state m)\<lparr>st_aliases := ar_table run\<rparr>,
       m_world := (m_world m)\<lparr>mallocs := ar_heap run\<rparr>\<rparr>)"
| builtin_unalias:
    "csh_builtin_unalias (st_aliases (m_state m)) argv out err = run \<Longrightarrow>
     state_step m (m\<lparr>m_state := (m_state m)\<lparr>st_aliases := ar_table run\<rparr>\<rparr>)"
| manage_locale:
    "csh_state_manage_locale (m_state m) (m_world m) = (s, w) \<Longrightarrow>
     state_step m (m\<lparr>m_state := s, m_world := w\<rparr>)"
| save:
    "csh_state_save (m_state m) (m_world m) = (r, cp, w) \<Longrightarrow>
     state_step m (m\<lparr>m_world := w,
       m_checkpoints := (case cp of None \<Rightarrow> m_checkpoints m | Some c \<Rightarrow> c # m_checkpoints m)\<rparr>)"
| restore:
    "cp \<in> set (m_checkpoints m) \<Longrightarrow> csh_state_restore (m_state m) (Some cp) (m_world m) = (r, s, w) \<Longrightarrow>
     state_step m (m\<lparr>m_state := s, m_world := w, m_checkpoints := remove1 cp (m_checkpoints m)\<rparr>)"
| checkpoint_destroy:
    "cp \<in> set (m_checkpoints m) \<Longrightarrow>
     state_step m (m\<lparr>m_world := csh_state_checkpoint_destroy (Some cp) (m_world m),
       m_checkpoints := remove1 cp (m_checkpoints m)\<rparr>)"

text \<open>Every saved piece may come back, so the invariant covers them all.\<close>

definition save_wf :: "csh_variable_save list \<Rightarrow> bool" where
  "save_wf save \<longleftrightarrow> (\<forall>e\<in>set save. save_present e \<longrightarrow> saved_ok_entry e)"

definition machine_wf :: "machine \<Rightarrow> bool" where
  "machine_wf m \<longleftrightarrow>
     wf_state (m_state m) \<and> (\<forall>sv\<in>set (m_saves m). save_wf sv) \<and>
     (\<forall>c\<in>set (m_checkpoints m). wf_state c) \<and>
     (\<forall>f\<in>set (m_frames m). ps_count f = length (ps_arguments f))"

lemma save_variables_wf:
  assumes "wf_state s" and "csh_state_save_variables s names w = (r, Some save, w')"
  shows "save_wf save"
proof -
  have ok: "r = CSH_STATE_OK"
  proof -
    have "save_loop s ns out w = (r, Some save, w') \<Longrightarrow> r = CSH_STATE_OK" for ns out w
      by (induction ns arbitrary: out w) (auto split: if_splits prod.splits bool.splits option.splits)
    with assms(2) show ?thesis by (auto simp: csh_state_save_variables_def split: if_splits)
  qed
  with assms(2) have run: "save_loop s (map the names) [] w = (CSH_STATE_OK, Some save, w')"
    and names: "\<forall>n\<in>set (map the names). valid_name n"
    by (auto simp: csh_state_save_variables_def list_ex_iff split: if_splits option.splits)
  have "save_ok s save" using save_loop_ok [OF run _ names] by (simp add: save_ok_def)
  then show ?thesis
    using find_variable_wf(2,3) [OF assms(1)] by (auto simp: save_wf_def save_ok_def saved_ok_entry_def)
qed

lemma restore_variables_wf:
  assumes "wf_state s" and "save_wf save" and "csh_state_restore_variables s save w = (r, s', w')"
  shows "wf_state s'"
proof -
  have s': "s' = restore_loop save s" using assms(3) by (simp add: csh_state_restore_variables_def Let_def)
  have "wf_variables (st_variables s')"
    using restore_loop_wf [of s save] assms(1,2) by (simp add: s' save_wf_def wf_state_def)
  moreover obtain vs where "s' = s\<lparr>st_variables := vs,
      st_hashes := (if ''PATH'' \<in> saved_names save then [] else st_hashes s)\<rparr>"
    using restore_loop_frame [of save s] s' by blast
  ultimately show ?thesis using assms(1) by (auto simp: wf_state_def wf_hashes_def)
qed

lemma clone_wf:
  assumes "wf_state s" and "csh_state_clone s w = (r, Some c, w')"
  shows "c = s"
proof -
  from assms(2) obtain a0 h h' c1 w1 c2 w2 where
    a0: "copy_bytes (st_arg0 s) h = (Some a0, h')" and
    p: "csh_state_set_parameters (zero_state\<lparr>st_arg0 := a0\<rparr>) (map Some (take (si_argument_count (st_info s)) (st_arguments s)))
      (w\<lparr>mallocs := h'\<rparr>) = (CSH_STATE_OK, c1, w1)" and
    t: "clone_tables s c1 w1 = (True, c2, w2)" and
    c: "c = c2\<lparr>st_manages_locale := st_manages_locale s, st_getopts_offset := st_getopts_offset s, st_info := st_info s\<rparr>"
    by (auto simp: csh_state_clone_def split: prod.splits bool.splits option.splits csh_state_result.splits)
  have c1: "c1 = zero_state\<lparr>st_arg0 := st_arg0 s, st_arguments := st_arguments s,
      st_info := zero_info\<lparr>si_argument_count := length (st_arguments s)\<rparr>\<rparr>"
    using csh_state_set_parameters_ok [OF p] copy_bytes_Some [OF a0] assms(1)
    by (simp add: zero_state_def comp_def wf_state_def)
  then have e: "st_functions c1 = []" "st_variables c1 = []" "st_hashes c1 = []" by (simp_all add: zero_state_def)
  with clone_tables_result [OF assms(1) e t] c c1 show ?thesis
    by (cases s) (auto simp: zero_state_def)
qed

lemma save_clone: "csh_state_save s w = (r, Some c, w') \<Longrightarrow> wf_state s \<Longrightarrow> c = s"
  by (auto simp: csh_state_save_def dest: clone_wf split: prod.splits bool.splits)

lemma aliases_wf: "wf_state s \<Longrightarrow> csh_state_aliases s w = (al, s', w') \<Longrightarrow> wf_state s'"
  by (auto simp: csh_state_aliases_def csh_aliases_create_def wf_state_def wf_aliases_def wf_alias_list_def
      split: option.splits prod.splits bool.splits)

lemma push_parameters_wf:
  "wf_state s \<Longrightarrow> csh_state_push_parameters s args w = (r, s', save, w') \<Longrightarrow>
   wf_state s' \<and> (\<forall>f. save = Some f \<longrightarrow> ps_count f = length (ps_arguments f))"
  by (drule push_parameters_result) (auto simp: wf_state_def wf_info_def split: if_splits)

lemma wf_state_table: "wf_state s \<Longrightarrow> wf_aliases al \<Longrightarrow> wf_state (s\<lparr>st_aliases := al\<rparr>)"
  by (simp add: wf_state_def)

lemma wf_state_aliases: "wf_state s \<Longrightarrow> wf_aliases (st_aliases s)"
  by (simp add: wf_state_def)

lemmas operations_wf = csh_state_set_variable_wf csh_state_update_attributes_wf csh_state_unset_variable_wf
  csh_state_set_parameters_wf csh_state_hash_set_wf csh_state_set_function_wf aliases_wf

lemma state_step_wf: "state_step m m' \<Longrightarrow> machine_wf m \<Longrightarrow> machine_wf m'"
proof (induction rule: state_step.induct)
  case (restore_variables save m r s w)
  then have "save_wf save" by (auto simp: machine_wf_def)
  with restore_variables show ?case
    by (auto simp: machine_wf_def dest: restore_variables_wf set_remove1_subset [THEN subsetD])
next
  case (save_variables m names r save w)
  then show ?case by (auto simp: machine_wf_def dest: save_variables_wf split: option.splits)
next
  case (push_parameters m args r s save w)
  then show ?case by (auto simp: machine_wf_def dest: push_parameters_wf split: option.splits)
next
  case (pop_parameters m f fs)
  then show ?case by (auto simp: machine_wf_def csh_state_pop_parameters_def wf_state_def wf_info_def)
next
  case (save m r cp w)
  then show ?case by (auto simp: machine_wf_def dest: save_clone split: option.splits)
next
  case (restore cp m r s w)
  then show ?case
    by (auto simp: machine_wf_def csh_state_restore_def dest: set_remove1_subset [THEN subsetD])
next
  case (checkpoint_destroy cp m)
  then show ?case by (auto simp: machine_wf_def dest: set_remove1_subset [THEN subsetD])
next
  case (builtin_alias m argv out err run)
  then show ?case
    by (auto simp: machine_wf_def intro!: wf_state_table csh_builtin_alias_wf wf_state_aliases)
next
  case (builtin_unalias m argv out err run)
  then show ?case
    by (auto simp: machine_wf_def intro!: wf_state_table csh_builtin_unalias_wf wf_state_aliases)
next
  case (manage_locale m s w)
  then show ?case by (auto simp: machine_wf_def csh_state_manage_locale_def wf_state_def Let_def)
qed (auto simp: machine_wf_def csh_state_set_status_wf csh_state_set_field_wf dest: operations_wf)

text \<open>A machine at startup: the state \<open>csh_state_create\<close> made of an accepted command line and
  the environment, and nothing saved.\<close>

definition started :: "string option list \<Rightarrow> string list option \<Rightarrow> machine \<Rightarrow> bool" where
  "started argv envp m \<longleftrightarrow>
     (\<exists>os h iv h' pid w. csh_invocation_parse argv os h = Some (Inr iv, h') \<and>
        csh_state_create iv envp pid w = (CSH_STATE_OK, Some (m_state m), m_world m)) \<and>
     m_saves m = [] \<and> m_checkpoints m = [] \<and> m_frames m = []"

lemma parsed_options:
  assumes "csh_invocation_parse argv os h = Some (Inr iv, h')"
  shows "inv_options iv AND NOT CSH_SETTABLE_OPTIONS = 0"
  using assms
proof (rule csh_invocation_parse_ok)
  fix p rest k
  assume "invocation_words (map the (tl argv)) 1 fresh_scan = Inr (p, rest, k)" and o: "inv_options iv = os_options p"
  from invocation_words_inv [OF this(1)] have "scan_inv p" by (simp add: fresh_scan_def scan_inv_def)
  then show ?thesis unfolding o scan_inv_def mask_covers_iff by blast
qed

text \<open>
  C11: the state a shell holds is well-formed at every moment of its life. From startup with any
  command line and environment, after any sequence of operations, failing ones included: variable
  and function names are distinct valid identifiers, attributes and option bits stay within their
  masks, the path cache has one entry per name, the alias table is sorted, \<open>$#\<close> is the length of
  the parameter vector, \<open>$?\<close> and \<open>$!\<close> are not negative; and so is every state, save or frame
  that can still be restored.
\<close>

theorem reachable_state_wf:
  assumes "started argv envp m0" and "state_step\<^sup>*\<^sup>* m0 m"
  shows "machine_wf m"
  using assms(2)
proof induction
  case base
  with assms(1) show ?case by (auto simp: started_def machine_wf_def dest: csh_state_create_wf parsed_options)
next
  case (step m m')
  then show ?case by (blast intro: state_step_wf)
qed

theorem reachable_state_wf_witness:
  "\<exists>m0 m. started (map Some [''cshell'', ''-ec'', ''exit'']) None m0 \<and> state_step\<^sup>*\<^sup>* m0 m \<and>
     m = m0\<lparr>m_state := snd (csh_state_set_status (m_state m0) 3)\<rparr> \<and> machine_wf m"
proof -
  let ?os = "\<lparr>ia_script = \<lparr>fa_open = [], fa_fstat = Inr False, fa_dup = []\<rparr>, ia_stdin_dup = [],
       ia_stdin = \<lparr>sa_fstat = Inr False, sa_getfl = Inr False, sa_tty = False, sa_setfl = None\<rparr>,
       ia_stdin_tty = False, ia_stderr_tty = False\<rparr>"
  obtain iv h' where p: "csh_invocation_parse (map Some [''cshell'', ''-ec'', ''exit'']) ?os [] = Some (Inr iv, h')"
      and iv: "inv_arg0 iv = ''cshell''" "inv_arguments iv = []"
    by (simp add: csh_invocation_parse_def is_option_argument_def csh_option_letter_def CSH_OPTION_LIST_def
        select_option_def invocation_source_def invocation_copies_def SIZE_MAX_def open_source_def
        csh_input_from_string_def allocate_input_def csh_input_prepare_stdin_def CSH_OPT_ERREXIT_def)
  have "\<exists>s w. csh_state_create iv None 1 sample_world = (CSH_STATE_OK, Some s, w)"
    using iv by (simp add: csh_state_create_def copy_bytes_def csh_state_set_parameters_def SIZE_MAX_def
        sample_world_def)
  then obtain s w where c: "csh_state_create iv None 1 sample_world = (CSH_STATE_OK, Some s, w)" by blast
  let ?m = "\<lparr>m_state = s, m_world = w, m_saves = [], m_checkpoints = [], m_frames = []\<rparr>"
  have st: "started (map Some [''cshell'', ''-ec'', ''exit'']) None ?m"
    unfolding started_def using p c by (metis machine.select_convs)
  have step: "state_step\<^sup>*\<^sup>* ?m (?m\<lparr>m_state := snd (csh_state_set_status (m_state ?m) 3)\<rparr>)"
    by (rule r_into_rtranclp) (rule state_step.set_status)
  from reachable_state_wf [OF st step] st step show ?thesis by blast
qed

end
