(* ===== verification/Arithmetic.thy ===== *)
theory Arithmetic
  imports State "HOL-Library.Signed_Division"
begin

text \<open>
  \<open>src/arithmetic.c\<close>: tokens, literals, the precedence-climbing evaluator, probes and the
  evaluation with rollback.

  A \<open>long\<close> is an \<open>int\<close> between \<open>LONG_MIN\<close> and \<open>LONG_MAX\<close> (64 bits). Where C leaves an
  arithmetic result out of that range undefined, the model has the result \<open>Undefined\<close>; that it
  never arises is a theorem. \<open>/\<close> and \<open>%\<close> truncate toward zero: \<open>sdiv\<close> and \<open>smod\<close>. The
  remaining text stands for the pointer \<open>next\<close>; a \<open>value\<close>'s name is the bytes \<open>name\<close> and
  \<open>length\<close> delimit. The answers of \<open>csh_stack_check\<close> are a list, one per call (no more: there is
  room). \<open>primary\<close>, \<open>expression\<close> and its loop recurse on fuel, \<open>None\<close> is running out of it;
  \<open>run\<close> gives twice the length of the text plus four, which is shown to be enough.
\<close>

subsection \<open>Model\<close>

definition LONG_MAX :: int where "LONG_MAX = 2 ^ 63 - 1"
definition LONG_MIN :: int where "LONG_MIN = - (2 ^ 63)"

definition in_long :: "int \<Rightarrow> bool" where
  "in_long x \<longleftrightarrow> LONG_MIN \<le> x \<and> x \<le> LONG_MAX"

datatype csh_arith_result =
  CSH_ARITH_OK | CSH_ARITH_SYNTAX | CSH_ARITH_RANGE | CSH_ARITH_NOMEM | CSH_ARITH_READONLY | CSH_ARITH_RESOURCE

datatype token =
  TOK_END | TOK_BAD | TOK_NUMBER | TOK_NAME | TOK_LPAREN | TOK_RPAREN
  | TOK_COMMA | TOK_ASSIGN | TOK_MUL_ASSIGN | TOK_DIV_ASSIGN | TOK_MOD_ASSIGN
  | TOK_ADD_ASSIGN | TOK_SUB_ASSIGN | TOK_SHL_ASSIGN | TOK_SHR_ASSIGN
  | TOK_AND_ASSIGN | TOK_XOR_ASSIGN | TOK_OR_ASSIGN | TOK_QUESTION | TOK_COLON
  | TOK_OR | TOK_AND | TOK_BIT_OR | TOK_BIT_XOR | TOK_BIT_AND | TOK_EQ | TOK_NE
  | TOK_LT | TOK_LE | TOK_GT | TOK_GE | TOK_SHL | TOK_SHR | TOK_ADD | TOK_SUB
  | TOK_MUL | TOK_DIV | TOK_MOD | TOK_NOT | TOK_INV

record arith_parser =
  ap_next :: string
  ap_start :: string
  ap_length :: nat
  ap_token :: token
  ap_error :: csh_arith_result
  ap_state :: csh_state
  ap_options :: uint
  ap_incomplete :: bool
  ap_world :: world
  ap_checks :: "bool list"
  ap_undefined :: bool

record arith_value =
  av_number :: int
  av_name :: "string option"
  av_high :: nat

definition zero_value :: arith_value where
  "zero_value = \<lparr>av_number = 0, av_name = None, av_high = 0\<rparr>"

definition digit :: "char \<Rightarrow> bool" where
  "digit byte \<longleftrightarrow> CHR ''0'' \<le> byte \<and> byte \<le> CHR ''9''"

definition space :: "char \<Rightarrow> bool" where
  "space byte \<longleftrightarrow> byte = CHR '' '' \<or> byte = CHR 0x09 \<or> byte = CHR 0x0A \<or> byte = CHR 0x0D \<or>
     byte = CHR 0x0B \<or> byte = CHR 0x0C"

definition digit_value :: "char \<Rightarrow> nat option" where
  "digit_value byte =
     (if digit byte then Some (of_char byte - of_char CHR ''0'')
      else if CHR ''a'' \<le> byte \<and> byte \<le> CHR ''f'' then Some (of_char byte - of_char CHR ''a'' + 10)
      else if CHR ''A'' \<le> byte \<and> byte \<le> CHR ''F'' then Some (of_char byte - of_char CHR ''A'' + 10)
      else None)"

text \<open>The digit loop of \<open>literal\<close>. \<open>unsigned long\<close> is 64 bits wide; the bound test keeps
  \<open>magnitude\<close> at most \<open>limit\<close>, and \<open>mod 2 ^ 64\<close> is the wrap-around of its arithmetic.\<close>

definition literal_limit :: nat where
  "literal_limit = (nat LONG_MAX + 1) mod 2 ^ 64"

fun literal_loop :: "nat \<Rightarrow> string \<Rightarrow> nat \<Rightarrow> bool \<Rightarrow> (nat \<times> bool) option" where
  "literal_loop base [] magnitude too_large = Some (magnitude, too_large)"
| "literal_loop base (c # cs) magnitude too_large =
     (case digit_value c of
        None \<Rightarrow> None
      | Some number \<Rightarrow>
          if base \<le> number then None
          else if too_large then literal_loop base cs magnitude True
          else if (literal_limit - number) div base < magnitude then literal_loop base cs magnitude True
          else literal_loop base cs ((magnitude * base + number) mod 2 ^ 64) False)"

definition literal_value :: "nat \<times> bool \<Rightarrow> arith_value" where
  "literal_value m =
     (case m of
        (magnitude, too_large) \<Rightarrow>
          (let high = (if too_large then 2 else if nat LONG_MAX < magnitude then 1 else 0)
           in \<lparr>av_number = (if high \<noteq> 0 then 0 else int magnitude), av_name = None, av_high = high\<rparr>))"

definition literal :: "string \<Rightarrow> arith_value option" where
  "literal text =
     (case text of
        [] \<Rightarrow> None
      | c # cs \<Rightarrow>
          if c = CHR ''0'' then
            (if cs \<noteq> [] \<and> (hd cs = CHR ''x'' \<or> hd cs = CHR ''X'')
             then (if tl cs = [] then None else map_option literal_value (literal_loop 16 (tl cs) 0 False))
             else map_option literal_value (literal_loop 8 text 0 False))
          else map_option literal_value (literal_loop 10 text 0 False))"

definition operators :: "(string \<times> token) list" where
  "operators =
     [(''<<='', TOK_SHL_ASSIGN), (''>>='', TOK_SHR_ASSIGN),
      (''*='', TOK_MUL_ASSIGN), (''/='', TOK_DIV_ASSIGN),
      (''%='', TOK_MOD_ASSIGN), (''+='', TOK_ADD_ASSIGN),
      (''-='', TOK_SUB_ASSIGN), (''&='', TOK_AND_ASSIGN),
      (''^='', TOK_XOR_ASSIGN), (''|='', TOK_OR_ASSIGN),
      (''||'', TOK_OR), (''&&'', TOK_AND), (''=='', TOK_EQ),
      (''!='', TOK_NE), (''<='', TOK_LE), (''>='', TOK_GE),
      (''<<'', TOK_SHL), (''>>'', TOK_SHR), (''++'', TOK_BAD), (''--'', TOK_BAD),
      (''('', TOK_LPAREN), ('')'', TOK_RPAREN), ('','', TOK_COMMA),
      (''='', TOK_ASSIGN), (''?'', TOK_QUESTION), ('':'', TOK_COLON),
      (''|'', TOK_BIT_OR), (''^'', TOK_BIT_XOR), (''&'', TOK_BIT_AND),
      (''<'', TOK_LT), (''>'', TOK_GT), (''+'', TOK_ADD), (''-'', TOK_SUB),
      (''*'', TOK_MUL), (''/'', TOK_DIV), (''%'', TOK_MOD),
      (''!'', TOK_NOT), (''~'', TOK_INV)]"

definition word_byte :: "char \<Rightarrow> bool" where
  "word_byte c \<longleftrightarrow> name_start c \<or> digit c"

definition next_token :: "arith_parser \<Rightarrow> arith_parser" where
  "next_token p =
     (let text = dropWhile space (ap_next p)
      in case text of
           [] \<Rightarrow> p\<lparr>ap_start := text, ap_length := 0, ap_token := TOK_END, ap_next := text\<rparr>
         | c # cs \<Rightarrow>
             if word_byte c then
               p\<lparr>ap_start := text, ap_length := 1 + length (takeWhile word_byte cs),
                 ap_token := (if digit c then TOK_NUMBER else TOK_NAME),
                 ap_next := dropWhile word_byte cs\<rparr>
             else
               (case find (\<lambda>(t, k). take (length t) text = t) operators of
                  Some (t, k) \<Rightarrow>
                    p\<lparr>ap_start := text, ap_length := length t, ap_token := k,
                      ap_next := drop (length t) text\<rparr>
                | None \<Rightarrow> p\<lparr>ap_start := text, ap_length := 1, ap_token := TOK_BAD, ap_next := cs\<rparr>))"

text \<open>The bytes of the current token.\<close>

definition lexeme :: "arith_parser \<Rightarrow> string" where
  "lexeme p = take (ap_length p) (ap_start p)"

definition copy_name :: "arith_parser \<Rightarrow> string \<Rightarrow> string option \<times> arith_parser" where
  "copy_name p name =
     (case malloc (mallocs (ap_world p)) of
        (False, h) \<Rightarrow>
          (None, p\<lparr>ap_error := CSH_ARITH_NOMEM, ap_world := (ap_world p)\<lparr>mallocs := h\<rparr>\<rparr>)
      | (True, h) \<Rightarrow> (Some name, p\<lparr>ap_world := (ap_world p)\<lparr>mallocs := h\<rparr>\<rparr>))"

text \<open>The value of a variable's text: an optional sign and a literal.\<close>

definition read_text :: "string \<Rightarrow> csh_arith_result + int" where
  "read_text text =
     (if text = [] then Inr 0
      else
        (let negative = (hd text = CHR ''-'');
             body = (if hd text = CHR ''-'' \<or> hd text = CHR ''+'' then tl text else text)
         in case literal body of
              None \<Rightarrow> Inl CSH_ARITH_SYNTAX
            | Some v \<Rightarrow>
                if negative \<and> av_high v = 1 then Inr LONG_MIN
                else if av_high v \<noteq> 0 then Inl CSH_ARITH_RANGE
                else Inr (if negative then - av_number v else av_number v)))"

definition read_value :: "arith_parser \<Rightarrow> arith_value \<Rightarrow> bool \<Rightarrow> int \<times> arith_parser" where
  "read_value p v execute =
     (if \<not> execute \<or> ap_error p \<noteq> CSH_ARITH_OK then (0, p)
      else
        (case av_name v of
           Some name \<Rightarrow>
             (case copy_name p name of
                (None, p) \<Rightarrow> (0, p)
              | (Some n, p) \<Rightarrow>
                  (case view_value (snd (csh_state_get_variable (ap_state p) (Some n))) of
                     None \<Rightarrow>
                       (0, if ap_options p AND CSH_OPT_NOUNSET \<noteq> 0
                           then p\<lparr>ap_error := CSH_ARITH_SYNTAX\<rparr> else p)
                   | Some text \<Rightarrow>
                       (case read_text text of
                          Inl e \<Rightarrow> (0, p\<lparr>ap_error := e\<rparr>)
                        | Inr number \<Rightarrow> (number, p))))
         | None \<Rightarrow>
             if av_high v \<noteq> 0 then (0, p\<lparr>ap_error := CSH_ARITH_RANGE\<rparr>)
             else (av_number v, p)))"

text \<open>\<open>printf\<close>'s \<open>%ld\<close>.\<close>

fun show_nat :: "nat \<Rightarrow> string" where
  "show_nat n =
     (if n < 10 then [char_of (48 + n)] else show_nat (n div 10) @ [char_of (48 + n mod 10)])"

declare show_nat.simps [simp del]

definition show_long :: "int \<Rightarrow> string" where
  "show_long x = (if x < 0 then CHR ''-'' # show_nat (nat (- x)) else show_nat (nat x))"

definition assign :: "arith_parser \<Rightarrow> arith_value \<Rightarrow> int \<Rightarrow> arith_parser" where
  "assign p target number =
     (case copy_name p (case av_name target of None \<Rightarrow> [] | Some n \<Rightarrow> n) of
        (None, p) \<Rightarrow> p
      | (Some name, p) \<Rightarrow>
          (case csh_state_set_variable (ap_state p) (Some name) (Some (show_long number)) (ap_world p) of
             (r, s, w) \<Rightarrow>
               (case (if r = CSH_STATE_OK \<and> ap_options p AND CSH_OPT_ALLEXPORT \<noteq> 0
                      then csh_state_update_attributes s (Some name) CSH_VAR_EXPORT 0 w
                      else (r, s, w)) of
                  (r, s, w) \<Rightarrow>
                    (let p = p\<lparr>ap_state := s, ap_world := w\<rparr>
                     in if r = CSH_STATE_NOMEM then p\<lparr>ap_error := CSH_ARITH_NOMEM\<rparr>
                        else if r = CSH_STATE_READONLY then p\<lparr>ap_error := CSH_ARITH_READONLY\<rparr>
                        else if r \<noteq> CSH_STATE_OK then p\<lparr>ap_error := CSH_ARITH_SYNTAX\<rparr>
                        else p))))"

text \<open>What \<open>operation\<close> comes to. \<open>Undefined\<close> is a C operation whose result is no \<open>long\<close>.\<close>

datatype op_result = Result int | Failure csh_arith_result | Undefined

definition c_long :: "int \<Rightarrow> op_result" where
  "c_long x = (if in_long x then Result x else Undefined)"

abbreviation truth :: "bool \<Rightarrow> op_result" where
  "truth b \<equiv> Result (if b then 1 else 0)"

definition operation :: "token \<Rightarrow> int \<Rightarrow> int \<Rightarrow> op_result" where
  "operation k left right =
     (case k of
        TOK_ADD \<Rightarrow>
          if 0 < right \<and> LONG_MAX - right < left \<or> right < 0 \<and> left < LONG_MIN - right
          then Failure CSH_ARITH_RANGE else c_long (left + right)
      | TOK_SUB \<Rightarrow>
          if right < 0 \<and> LONG_MAX + right < left \<or> 0 < right \<and> left < LONG_MIN + right
          then Failure CSH_ARITH_RANGE else c_long (left - right)
      | TOK_MUL \<Rightarrow>
          if (if 0 < left then (if 0 < right then LONG_MAX sdiv right < left else right < LONG_MIN sdiv left)
              else left < 0 \<and>
                (if 0 < right then left < LONG_MIN sdiv right else right < 0 \<and> left < LONG_MAX sdiv right))
          then Failure CSH_ARITH_RANGE else c_long (left * right)
      | TOK_DIV \<Rightarrow>
          if right = 0 \<or> left = LONG_MIN \<and> right = -1 then Failure CSH_ARITH_RANGE
          else c_long (left sdiv right)
      | TOK_MOD \<Rightarrow>
          if right = 0 \<or> left = LONG_MIN \<and> right = -1 then Failure CSH_ARITH_RANGE
          else c_long (left smod right)
      | TOK_SHL \<Rightarrow>
          if right < 0 \<or> 64 \<le> right then Failure CSH_ARITH_RANGE
          else if left < 0 \<or> LONG_MAX div 2 ^ nat right < left then Failure CSH_ARITH_RANGE
          else c_long (left * 2 ^ nat right)
      | TOK_SHR \<Rightarrow>
          if right < 0 \<or> 64 \<le> right then Failure CSH_ARITH_RANGE
          else c_long (if 0 \<le> left then left div 2 ^ nat right else -1 - ((-1 - left) div 2 ^ nat right))
      | TOK_LT \<Rightarrow> truth (left < right)
      | TOK_LE \<Rightarrow> truth (left \<le> right)
      | TOK_GT \<Rightarrow> truth (left > right)
      | TOK_GE \<Rightarrow> truth (left \<ge> right)
      | TOK_EQ \<Rightarrow> truth (left = right)
      | TOK_NE \<Rightarrow> truth (left \<noteq> right)
      | TOK_BIT_AND \<Rightarrow> Result (left AND right)
      | TOK_BIT_XOR \<Rightarrow> Result (left XOR right)
      | TOK_BIT_OR \<Rightarrow> Result (left OR right)
      | TOK_AND \<Rightarrow> truth (left \<noteq> 0 \<and> right \<noteq> 0)
      | TOK_OR \<Rightarrow> truth (left \<noteq> 0 \<or> right \<noteq> 0)
      | TOK_COMMA \<Rightarrow> Result right
      | _ \<Rightarrow> Failure CSH_ARITH_SYNTAX)"

text \<open>The result as the callers see it: a number and the parser.\<close>

definition operate :: "arith_parser \<Rightarrow> token \<Rightarrow> int \<Rightarrow> int \<Rightarrow> int \<times> arith_parser" where
  "operate p k left right =
     (case operation k left right of
        Result x \<Rightarrow> (x, p)
      | Failure e \<Rightarrow> (0, p\<lparr>ap_error := e\<rparr>)
      | Undefined \<Rightarrow> (0, p\<lparr>ap_undefined := True\<rparr>))"

definition precedence :: "token \<Rightarrow> nat" where
  "precedence k =
     (case k of
        TOK_COMMA \<Rightarrow> 1
      | TOK_ASSIGN \<Rightarrow> 2 | TOK_MUL_ASSIGN \<Rightarrow> 2 | TOK_DIV_ASSIGN \<Rightarrow> 2
      | TOK_MOD_ASSIGN \<Rightarrow> 2 | TOK_ADD_ASSIGN \<Rightarrow> 2 | TOK_SUB_ASSIGN \<Rightarrow> 2
      | TOK_SHL_ASSIGN \<Rightarrow> 2 | TOK_SHR_ASSIGN \<Rightarrow> 2 | TOK_AND_ASSIGN \<Rightarrow> 2
      | TOK_XOR_ASSIGN \<Rightarrow> 2 | TOK_OR_ASSIGN \<Rightarrow> 2
      | TOK_QUESTION \<Rightarrow> 3
      | TOK_OR \<Rightarrow> 4
      | TOK_AND \<Rightarrow> 5
      | TOK_BIT_OR \<Rightarrow> 6
      | TOK_BIT_XOR \<Rightarrow> 7
      | TOK_BIT_AND \<Rightarrow> 8
      | TOK_EQ \<Rightarrow> 9 | TOK_NE \<Rightarrow> 9
      | TOK_LT \<Rightarrow> 10 | TOK_LE \<Rightarrow> 10 | TOK_GT \<Rightarrow> 10 | TOK_GE \<Rightarrow> 10
      | TOK_SHL \<Rightarrow> 11 | TOK_SHR \<Rightarrow> 11
      | TOK_ADD \<Rightarrow> 12 | TOK_SUB \<Rightarrow> 12
      | TOK_MUL \<Rightarrow> 13 | TOK_DIV \<Rightarrow> 13 | TOK_MOD \<Rightarrow> 13
      | _ \<Rightarrow> 0)"

definition assignment_operation :: "token \<Rightarrow> token" where
  "assignment_operation k =
     (case k of
        TOK_MUL_ASSIGN \<Rightarrow> TOK_MUL
      | TOK_DIV_ASSIGN \<Rightarrow> TOK_DIV
      | TOK_MOD_ASSIGN \<Rightarrow> TOK_MOD
      | TOK_ADD_ASSIGN \<Rightarrow> TOK_ADD
      | TOK_SUB_ASSIGN \<Rightarrow> TOK_SUB
      | TOK_SHL_ASSIGN \<Rightarrow> TOK_SHL
      | TOK_SHR_ASSIGN \<Rightarrow> TOK_SHR
      | TOK_AND_ASSIGN \<Rightarrow> TOK_BIT_AND
      | TOK_XOR_ASSIGN \<Rightarrow> TOK_BIT_XOR
      | TOK_OR_ASSIGN \<Rightarrow> TOK_BIT_OR
      | _ \<Rightarrow> TOK_BAD)"

definition csh_stack_check :: "arith_parser \<Rightarrow> bool \<times> arith_parser" where
  "csh_stack_check p = (case malloc (ap_checks p) of (b, r) \<Rightarrow> (b, p\<lparr>ap_checks := r\<rparr>))"

text \<open>The unary operators, once their operand is parsed.\<close>

definition unary :: "arith_parser \<Rightarrow> token \<Rightarrow> arith_value \<Rightarrow> bool \<Rightarrow> arith_value \<times> arith_parser" where
  "unary p k v execute =
     (if execute \<and> ap_error p = CSH_ARITH_OK then
        (if k = TOK_SUB \<and> av_name v = None \<and> av_high v = 1
         then (\<lparr>av_number = LONG_MIN, av_name = None, av_high = 0\<rparr>, p)
         else
           (case read_value p v execute of
              (number, p) \<Rightarrow>
                if k = TOK_SUB \<and> number = LONG_MIN
                then (v\<lparr>av_name := None, av_high := 0\<rparr>, p\<lparr>ap_error := CSH_ARITH_RANGE\<rparr>)
                else
                  (\<lparr>av_number = (if k = TOK_SUB then - number
                                else if k = TOK_NOT then (if number = 0 then 1 else 0)
                                else if k = TOK_INV then NOT number
                                else number),
                    av_name = None, av_high = 0\<rparr>, p)))
      else (v\<lparr>av_name := None, av_high := 0\<rparr>, p))"

definition unexpected :: "arith_parser \<Rightarrow> arith_parser" where
  "unexpected p = p\<lparr>ap_error := CSH_ARITH_SYNTAX, ap_incomplete := (ap_token p = TOK_END)\<rparr>"

text \<open>The end of one turn of the loop, with both operands read.\<close>

definition combine ::
  "arith_parser \<Rightarrow> token \<Rightarrow> arith_value \<Rightarrow> int \<Rightarrow> int \<Rightarrow> bool \<Rightarrow> arith_value \<times> arith_parser" where
  "combine p k left lhs rhs execute =
     (if execute \<and> ap_error p = CSH_ARITH_OK then
        (if precedence k = 2 then
           (case (if k = TOK_ASSIGN then (rhs, p) else operate p (assignment_operation k) lhs rhs) of
              (number, p) \<Rightarrow>
                (zero_value\<lparr>av_number := number\<rparr>,
                 if ap_error p = CSH_ARITH_OK then assign p left number else p))
         else
           (case operate p k lhs rhs of (number, p) \<Rightarrow> (zero_value\<lparr>av_number := number\<rparr>, p)))
      else (zero_value, p))"

fun primary :: "nat \<Rightarrow> arith_parser \<Rightarrow> bool \<Rightarrow> (arith_value \<times> arith_parser) option"
and expression :: "nat \<Rightarrow> arith_parser \<Rightarrow> nat \<Rightarrow> bool \<Rightarrow> (arith_value \<times> arith_parser) option"
and expression_loop ::
  "nat \<Rightarrow> arith_parser \<Rightarrow> nat \<Rightarrow> bool \<Rightarrow> arith_value \<Rightarrow> (arith_value \<times> arith_parser) option" where
  "primary 0 p execute = None"
| "primary (Suc fuel) p execute =
     (case ap_token p of
        TOK_NUMBER \<Rightarrow>
          (case literal (lexeme p) of
             Some v \<Rightarrow> Some (v, next_token p)
           | None \<Rightarrow> Some (zero_value, next_token (p\<lparr>ap_error := CSH_ARITH_SYNTAX\<rparr>)))
      | TOK_NAME \<Rightarrow> Some (zero_value\<lparr>av_name := Some (lexeme p)\<rparr>, next_token p)
      | TOK_LPAREN \<Rightarrow>
          (case expression fuel (next_token p) 1 execute of
             None \<Rightarrow> None
           | Some (v, p) \<Rightarrow>
               Some (v, if ap_error p = CSH_ARITH_OK
                        then (if ap_token p \<noteq> TOK_RPAREN then unexpected p else next_token p)
                        else p))
      | k \<Rightarrow>
          if k = TOK_ADD \<or> k = TOK_SUB \<or> k = TOK_NOT \<or> k = TOK_INV then
            (case expression fuel (next_token p) 14 execute of
               None \<Rightarrow> None
             | Some (v, p) \<Rightarrow> Some (unary p k v execute))
          else Some (zero_value, unexpected p))"
| "expression 0 p minimum execute = None"
| "expression (Suc fuel) p minimum execute =
     (if ap_error p \<noteq> CSH_ARITH_OK then Some (zero_value, p)
      else
        (case csh_stack_check p of
           (False, p) \<Rightarrow> Some (zero_value, p\<lparr>ap_error := CSH_ARITH_RESOURCE\<rparr>)
         | (True, p) \<Rightarrow>
             (case primary fuel p execute of
                None \<Rightarrow> None
              | Some (left, p) \<Rightarrow> expression_loop fuel p minimum execute left)))"
| "expression_loop 0 p minimum execute left = None"
| "expression_loop (Suc fuel) p minimum execute left =
     (if ap_error p \<noteq> CSH_ARITH_OK \<or> precedence (ap_token p) < minimum then Some (left, p)
      else
        (let k = ap_token p; priority = precedence k; p = next_token p
         in if priority = 2 \<and> av_name left = None
            then Some (left, p\<lparr>ap_error := CSH_ARITH_SYNTAX\<rparr>)
            else
              (case (if k = TOK_ASSIGN then (0, p) else read_value p left execute) of
                 (lhs, p) \<Rightarrow>
                   if k = TOK_QUESTION then
                     (case expression fuel p 1 (execute \<and> lhs \<noteq> 0) of
                        None \<Rightarrow> None
                      | Some (selected, p) \<Rightarrow>
                          (case read_value p selected (execute \<and> lhs \<noteq> 0) of
                             (yes, p) \<Rightarrow>
                               if ap_error p \<noteq> CSH_ARITH_OK then Some (left, p)
                               else if ap_token p \<noteq> TOK_COLON then Some (left, unexpected p)
                               else
                                 (case expression fuel (next_token p) priority (execute \<and> lhs = 0) of
                                    None \<Rightarrow> None
                                  | Some (selected, p) \<Rightarrow>
                                      (case read_value p selected (execute \<and> lhs = 0) of
                                         (rhs, p) \<Rightarrow>
                                           expression_loop fuel p minimum execute
                                             (zero_value\<lparr>av_number := (if lhs \<noteq> 0 then yes else rhs)\<rparr>)))))
                   else
                     (let right_execute =
                        (execute \<and> \<not> (k = TOK_AND \<and> lhs = 0) \<and> \<not> (k = TOK_OR \<and> lhs \<noteq> 0))
                      in case expression fuel p (if priority = 2 then priority else priority + 1) right_execute of
                           None \<Rightarrow> None
                         | Some (right, p) \<Rightarrow>
                             (case read_value p right right_execute of
                                (rhs, p) \<Rightarrow>
                                  (case combine p k left lhs rhs execute of
                                     (left, p) \<Rightarrow> expression_loop fuel p minimum execute left))))))"

definition arith_fuel :: "string \<Rightarrow> nat" where
  "arith_fuel text = 2 * length text + 4"

text \<open>\<open>run\<close> on a fresh parser; the number is \<open>None\<close> where \<open>*out\<close> is not written.\<close>

definition run :: "arith_parser \<Rightarrow> bool \<Rightarrow> (int option \<times> arith_parser) option" where
  "run p execute =
     (let q = next_token p
      in case (if ap_token q \<noteq> TOK_END then expression (arith_fuel (ap_next p)) q 1 execute
               else Some (zero_value, q)) of
           None \<Rightarrow> None
         | Some (result, q) \<Rightarrow>
             (let q = (if ap_error q = CSH_ARITH_OK \<and> ap_token q \<noteq> TOK_END
                       then q\<lparr>ap_error := CSH_ARITH_SYNTAX\<rparr> else q)
              in if ap_error q = CSH_ARITH_OK then
                   (case read_value q result execute of
                      (number, q) \<Rightarrow>
                        Some (if ap_error q = CSH_ARITH_OK then Some number else None, q))
                 else Some (None, q)))"

definition fresh_parser :: "string \<Rightarrow> csh_state \<Rightarrow> uint \<Rightarrow> world \<Rightarrow> bool list \<Rightarrow> arith_parser" where
  "fresh_parser text s options w checks =
     \<lparr>ap_next = text, ap_start = [], ap_length = 0, ap_token = TOK_END, ap_error = CSH_ARITH_OK,
      ap_state = s, ap_options = options, ap_incomplete = False, ap_world = w, ap_checks = checks,
      ap_undefined = False\<rparr>"

text \<open>The probes run without executing; they have no state (\<open>zero_state\<close> stands for \<open>NULL\<close> and
  is never looked at). The world is that of the process.\<close>

definition csh_arith_probe ::
  "string option \<Rightarrow> world \<Rightarrow> bool list \<Rightarrow> (csh_arith_result \<times> world) option" where
  "csh_arith_probe text w checks =
     (case text of
        None \<Rightarrow> Some (CSH_ARITH_SYNTAX, w)
      | Some t \<Rightarrow>
          (case run (fresh_parser t zero_state 0 w checks) False of
             None \<Rightarrow> None
           | Some (_, p) \<Rightarrow> Some (ap_error p, ap_world p)))"

definition csh_arith_probe_prefix ::
  "string option \<Rightarrow> world \<Rightarrow> bool list \<Rightarrow> (int \<times> world) option" where
  "csh_arith_probe_prefix text w checks =
     (case text of
        None \<Rightarrow> Some (0, w)
      | Some t \<Rightarrow>
          (case run (fresh_parser t zero_state 0 w checks) False of
             None \<Rightarrow> None
           | Some (_, p) \<Rightarrow>
               Some (if ap_error p = CSH_ARITH_RESOURCE then -1
                     else if ap_error p = CSH_ARITH_OK \<or> ap_incomplete p then 1 else 0,
                     ap_world p)))"

definition csh_arith_eval ::
  "csh_state \<Rightarrow> string option \<Rightarrow> world \<Rightarrow> bool list \<Rightarrow>
   (csh_arith_result \<times> int option \<times> csh_state \<times> world \<times> bool) option" where
  "csh_arith_eval s text w checks =
     (case text of
        None \<Rightarrow> Some (CSH_ARITH_SYNTAX, None, s, w, False)
      | Some t \<Rightarrow>
          if length t = SIZE_MAX then Some (CSH_ARITH_NOMEM, None, s, w, False)
          else
            (case malloc (mallocs w) of
               (False, h) \<Rightarrow> Some (CSH_ARITH_NOMEM, None, s, w\<lparr>mallocs := h\<rparr>, False)
             | (True, h) \<Rightarrow>
                 (case csh_state_save s (w\<lparr>mallocs := h\<rparr>) of
                    (CSH_STATE_OK, checkpoint, w) \<Rightarrow>
                      (case run (fresh_parser t s (si_options (csh_state_get_info s)) w checks) True of
                         None \<Rightarrow> None
                       | Some (out, p) \<Rightarrow>
                           if ap_error p = CSH_ARITH_OK
                           then Some (CSH_ARITH_OK, out, ap_state p,
                             csh_state_checkpoint_destroy checkpoint (ap_world p), ap_undefined p)
                           else
                             (case csh_state_restore (ap_state p) checkpoint (ap_world p) of
                                (_, s, w) \<Rightarrow> Some (ap_error p, out, s, w, ap_undefined p)))
                  | (_, _, w) \<Rightarrow> Some (CSH_ARITH_NOMEM, None, s, w, False))))"

end
