(* ===== verification/Arithmetic_Facts.thy ===== *)
theory Arithmetic_Facts
  imports Arithmetic State_Machine
begin

text \<open>
  What \<open>src/arithmetic.c\<close> promises of its parts and of every evaluation: exact operators and
  constants, termination, no undefined behaviour, pure probes, rollback. Properties of the three
  mutually recursive functions are instances of one contract, \<open>evaluator_contract\<close>.
\<close>

subsection \<open>Machine integers\<close>

lemma in_long_iff: "in_long x \<longleftrightarrow> signed_take_bit 63 x = x"
  by (auto simp: in_long_def LONG_MAX_def LONG_MIN_def signed_take_bit_int_eq_self_iff)

lemma signed_take_bit_self_iff: "signed_take_bit k x = x \<longleftrightarrow> (\<forall>n\<ge>k. bit x n = bit x k)" for x :: int
proof -
  have "signed_take_bit k x = x \<longleftrightarrow> (\<forall>n. bit x (min k n) = bit x n)"
    by (simp add: bit_eq_iff bit_signed_take_bit_iff min.commute)
  also have "\<dots> \<longleftrightarrow> (\<forall>n\<ge>k. bit x n = bit x k)"
    by (metis linorder_linear min.absorb1 min.absorb2)
  finally show ?thesis .
qed

lemmas in_long_bit_iff = trans [OF in_long_iff signed_take_bit_self_iff]

lemma sign_stable_bits:
  fixes x y :: int
  assumes "\<forall>n\<ge>k. bit x n = bit x k" and "\<forall>n\<ge>k. bit y n = bit y k"
  shows "\<forall>n\<ge>k. bit (x AND y) n = bit (x AND y) k" and "\<forall>n\<ge>k. bit (x OR y) n = bit (x OR y) k"
    and "\<forall>n\<ge>k. bit (x XOR y) n = bit (x XOR y) k" and "\<forall>n\<ge>k. bit (NOT x) n = bit (NOT x) k"
  using assms unfolding bit_and_iff bit_or_iff bit_xor_iff bit_not_int_iff by blast+

lemma in_long_bits:
  "in_long x \<Longrightarrow> in_long y \<Longrightarrow> in_long (x AND y)"
  "in_long x \<Longrightarrow> in_long y \<Longrightarrow> in_long (x OR y)"
  "in_long x \<Longrightarrow> in_long y \<Longrightarrow> in_long (x XOR y)"
  "in_long x \<Longrightarrow> in_long (NOT x)"
  unfolding in_long_bit_iff by (rule sign_stable_bits; assumption)+

lemma in_long_small [simp]: "in_long 0" "in_long 1" "in_long LONG_MIN" "in_long LONG_MAX"
  by (simp_all add: in_long_def LONG_MAX_def LONG_MIN_def)

lemma sdiv_pos: "0 \<le> a \<Longrightarrow> 0 < b \<Longrightarrow> a sdiv b = a div b" for a b :: int
  by (cases "a = 0") (simp_all add: signed_divide_int_eq_divide_int)

lemma sdiv_neg_pos: "a < 0 \<Longrightarrow> 0 < b \<Longrightarrow> a sdiv b = - ((- a) div b)" for a b :: int
  using minus_sdiv_eq [of "- a" b] sdiv_pos [of "- a" b] by simp

lemma sdiv_pos_neg: "0 \<le> a \<Longrightarrow> b < 0 \<Longrightarrow> a sdiv b = - (a div (- b))" for a b :: int
  using sdiv_minus_eq [of a "- b"] sdiv_pos [of a "- b"] by simp

lemma div_less_mult: "m div b < a \<longleftrightarrow> m < a * b" if "0 < b" for a b m :: int
proof
  assume "m div b < a"
  then have "(m div b + 1) * b \<le> a * b" using that by (intro mult_right_mono) auto
  moreover have "m < (m div b + 1) * b"
    using pos_mod_bound [OF that, of m] div_mult_mod_eq [of m b] by (simp only: distrib_right)
  ultimately show "m < a * b" by linarith
next
  assume less: "m < a * b"
  show "m div b < a"
  proof (rule ccontr)
    assume "\<not> m div b < a"
    then have "a * b \<le> m div b * b" using that by (intro mult_right_mono) auto
    also have "\<dots> \<le> m" using that pos_mod_sign [OF that, of m] div_mult_mod_eq [of m b] by linarith
    finally show False using less by simp
  qed
qed

text \<open>The overflow test of the multiplication is exact in every sign case.\<close>

lemma mul_guard_pp: "0 < l \<Longrightarrow> 0 < r \<Longrightarrow> LONG_MAX sdiv r < l \<longleftrightarrow> LONG_MAX < l * r"
  by (simp add: sdiv_pos div_less_mult LONG_MAX_def)

lemma mul_guard_pn:
  assumes "0 < l" and "r \<le> 0"
  shows "r < LONG_MIN sdiv l \<longleftrightarrow> l * r < LONG_MIN"
proof -
  have "LONG_MIN sdiv l = - ((- LONG_MIN) div l)"
    by (rule sdiv_neg_pos) (use assms in \<open>simp_all add: LONG_MIN_def\<close>)
  then have "r < LONG_MIN sdiv l \<longleftrightarrow> (- LONG_MIN) div l < - r" by linarith
  also have "\<dots> \<longleftrightarrow> - LONG_MIN < (- r) * l" by (rule div_less_mult) (rule assms)
  also have "\<dots> \<longleftrightarrow> l * r < LONG_MIN" by (simp add: mult.commute)
  finally show ?thesis .
qed

lemma mul_guard_np: "l < 0 \<Longrightarrow> 0 < r \<Longrightarrow> l < LONG_MIN sdiv r \<longleftrightarrow> l * r < LONG_MIN"
  using mul_guard_pn [of r l] by (simp add: mult.commute)

lemma mul_guard_nn:
  assumes "l < 0" and "r < 0"
  shows "l < LONG_MAX sdiv r \<longleftrightarrow> LONG_MAX < l * r"
proof -
  have "LONG_MAX sdiv r = - (LONG_MAX div (- r))"
    by (rule sdiv_pos_neg) (use assms in \<open>simp_all add: LONG_MAX_def\<close>)
  then have "l < LONG_MAX sdiv r \<longleftrightarrow> LONG_MAX div (- r) < - l" by linarith
  also have "\<dots> \<longleftrightarrow> LONG_MAX < (- l) * (- r)" by (rule div_less_mult) (use assms in simp)
  finally show ?thesis by simp
qed

lemma sdiv_bound: "\<bar>a sdiv b\<bar> \<le> \<bar>a\<bar>" for a b :: int
  using sdiv_int_range [of a b] by auto

lemma sdiv_in_long:
  assumes "in_long l" and "r \<noteq> 0"
  shows "in_long (l sdiv r) \<longleftrightarrow> \<not> (l = LONG_MIN \<and> r = -1)"
proof (cases "l = LONG_MIN")
  case False
  then have "\<bar>l\<bar> \<le> LONG_MAX" using assms(1) by (auto simp: in_long_def LONG_MIN_def LONG_MAX_def)
  with sdiv_bound [of l r] have "\<bar>l sdiv r\<bar> \<le> LONG_MAX" by linarith
  with False show ?thesis by (auto simp: in_long_def LONG_MIN_def LONG_MAX_def)
next
  case True
  show ?thesis
  proof (cases "r = -1")
    case True
    then show ?thesis using \<open>l = LONG_MIN\<close> by (simp add: in_long_def LONG_MIN_def LONG_MAX_def)
  next
    case False
    have "\<bar>LONG_MIN sdiv r\<bar> = 2 ^ 63 div \<bar>r\<bar>"
      by (simp add: signed_divide_int_def LONG_MIN_def abs_mult abs_sgn_eq assms(2) pos_imp_zdiv_nonneg_iff)
    moreover have "(2 ^ 63 :: int) div \<bar>r\<bar> \<le> 2 ^ 63 div 2" if "r \<noteq> 1"
      using that False assms(2) by (intro zdiv_mono2) auto
    ultimately have "r \<noteq> 1 \<longrightarrow> \<bar>LONG_MIN sdiv r\<bar> \<le> LONG_MAX" by (auto simp: LONG_MAX_def)
    with True False show ?thesis by (cases "r = 1") (auto simp: in_long_def LONG_MAX_def LONG_MIN_def)
  qed
qed

lemma smod_in_long: "in_long l \<Longrightarrow> in_long r \<Longrightarrow> r \<noteq> 0 \<Longrightarrow> in_long (l smod r)"
  using smod_int_range [of r l] by (auto simp: in_long_def LONG_MAX_def LONG_MIN_def)

text \<open>The mathematical result of a binary operator, where it has one.\<close>

definition exact_operation :: "token \<Rightarrow> int \<Rightarrow> int \<Rightarrow> int option" where
  "exact_operation k l r =
     (case k of
        TOK_ADD \<Rightarrow> Some (l + r)
      | TOK_SUB \<Rightarrow> Some (l - r)
      | TOK_MUL \<Rightarrow> Some (l * r)
      | TOK_DIV \<Rightarrow> if r = 0 then None else Some (l sdiv r)
      | TOK_MOD \<Rightarrow> if r = 0 \<or> \<not> in_long (l sdiv r) then None else Some (l - r * (l sdiv r))
      | TOK_SHL \<Rightarrow> if l < 0 \<or> r < 0 \<or> 64 \<le> r then None else Some (push_bit (nat r) l)
      | TOK_SHR \<Rightarrow> if r < 0 \<or> 64 \<le> r then None else Some (drop_bit (nat r) l)
      | TOK_BIT_AND \<Rightarrow> Some (l AND r)
      | TOK_BIT_XOR \<Rightarrow> Some (l XOR r)
      | TOK_BIT_OR \<Rightarrow> Some (l OR r)
      | TOK_LT \<Rightarrow> Some (of_bool (l < r))
      | TOK_LE \<Rightarrow> Some (of_bool (l \<le> r))
      | TOK_GT \<Rightarrow> Some (of_bool (l > r))
      | TOK_GE \<Rightarrow> Some (of_bool (l \<ge> r))
      | TOK_EQ \<Rightarrow> Some (of_bool (l = r))
      | TOK_NE \<Rightarrow> Some (of_bool (l \<noteq> r))
      | TOK_AND \<Rightarrow> Some (of_bool (l \<noteq> 0 \<and> r \<noteq> 0))
      | TOK_OR \<Rightarrow> Some (of_bool (l \<noteq> 0 \<or> r \<noteq> 0))
      | TOK_COMMA \<Rightarrow> Some r
      | _ \<Rightarrow> None)"

definition binary_operator :: "token \<Rightarrow> bool" where
  "binary_operator k \<longleftrightarrow> precedence k \<noteq> 0 \<and> precedence k \<noteq> 2 \<and> precedence k \<noteq> 3"

lemma long_bounds: "LONG_MIN < 0" "0 < LONG_MAX"
  by (simp_all add: LONG_MIN_def LONG_MAX_def)

lemma operation_mul:
  "operation TOK_MUL l r = (if in_long (l * r) then Result (l * r) else Failure CSH_ARITH_RANGE)"
proof -
  consider "0 < l" "0 < r" | "0 < l" "r \<le> 0" | "l < 0" "0 < r" | "l < 0" "r < 0" | "l = 0 \<or> (l < 0 \<and> r = 0)"
    by linarith
  then show ?thesis
  proof cases
    case 1
    then have "LONG_MIN \<le> l * r" using mult_pos_pos [of l r] long_bounds by linarith
    with 1 show ?thesis by (simp add: operation_def mul_guard_pp c_long_def in_long_def)
  next
    case 2
    then have "l * r \<le> LONG_MAX" using mult_nonneg_nonpos [of l r] long_bounds by linarith
    with 2 show ?thesis by (simp add: operation_def mul_guard_pn c_long_def in_long_def)
  next
    case 3
    then have "l * r \<le> LONG_MAX" using mult_neg_pos [of l r] long_bounds by linarith
    with 3 show ?thesis by (simp add: operation_def mul_guard_np c_long_def in_long_def)
  next
    case 4
    then have "LONG_MIN \<le> l * r" using mult_neg_neg [of l r] long_bounds by linarith
    with 4 show ?thesis by (simp add: operation_def mul_guard_nn c_long_def in_long_def)
  next
    case 5
    then show ?thesis by (auto simp: operation_def c_long_def)
  qed
qed

lemma operation_shl:
  "operation TOK_SHL l r =
     (if l < 0 \<or> r < 0 \<or> 64 \<le> r \<or> \<not> in_long (push_bit (nat r) l) then Failure CSH_ARITH_RANGE
      else Result (push_bit (nat r) l))"
proof (cases "0 \<le> l \<and> 0 \<le> r \<and> r < 64")
  case True
  have "LONG_MAX div 2 ^ nat r < l \<longleftrightarrow> LONG_MAX < l * 2 ^ nat r" by (rule div_less_mult) simp
  moreover have "LONG_MIN \<le> l * 2 ^ nat r" using True by (simp add: LONG_MIN_def order_trans [OF _ mult_nonneg_nonneg])
  ultimately show ?thesis using True
    by (auto simp: operation_def c_long_def in_long_def push_bit_eq_mult)
qed (auto simp: operation_def)

lemma shr_floor: "(if 0 \<le> l then l div 2 ^ n else -1 - ((-1 - l) div 2 ^ n)) = drop_bit n l" for l :: int
proof -
  have "NOT l = -1 - l" by (simp add: not_int_def)
  then have "-1 - ((-1 - l) div 2 ^ n) = NOT (drop_bit n (NOT l))"
    by (simp only: drop_bit_eq_div) (simp add: not_int_def)
  also have "\<dots> = drop_bit n l" by (rule bit_eqI) (simp add: bit_not_iff bit_drop_bit_eq)
  finally show ?thesis by (simp add: drop_bit_eq_div)
qed

lemma in_long_drop_bit: "in_long l \<Longrightarrow> in_long (drop_bit n l)"
  unfolding in_long_bit_iff
proof (intro allI impI)
  fix m :: nat
  assume l: "\<forall>n\<ge>63. bit l n = bit l 63" and m: "63 \<le> m"
  then have "63 \<le> n + m" "63 \<le> n + (63::nat)" by simp_all
  with l have "bit l (n + m) = bit l 63" "bit l (n + 63) = bit l 63" by blast+
  then show "bit (drop_bit n l) m = bit (drop_bit n l) 63" by (simp only: bit_drop_bit_eq comp_def)
qed

lemma operation_shr:
  "in_long l \<Longrightarrow> operation TOK_SHR l r =
     (if r < 0 \<or> 64 \<le> r then Failure CSH_ARITH_RANGE else Result (drop_bit (nat r) l))"
  by (simp add: operation_def shr_floor c_long_def in_long_drop_bit)

lemma operation_spec:
  assumes "in_long l" and "in_long r" and "binary_operator k"
  shows "operation k l r =
    (case exact_operation k l r of
       None \<Rightarrow> Failure CSH_ARITH_RANGE
     | Some x \<Rightarrow> if in_long x then Result x else Failure CSH_ARITH_RANGE)"
proof -
  consider "k = TOK_DIV" | "k = TOK_MOD" | "k \<in> {TOK_MUL, TOK_SHL, TOK_SHR}"
    | "k \<notin> {TOK_MUL, TOK_SHL, TOK_SHR, TOK_DIV, TOK_MOD}" by blast
  then show ?thesis
  proof cases
    case 1
    then show ?thesis
      using sdiv_in_long [OF assms(1), of r]
      by (cases "l = LONG_MIN \<and> r = -1") (auto simp: operation_def exact_operation_def c_long_def)
  next
    case 2
    then show ?thesis
      using sdiv_in_long [OF assms(1), of r] smod_in_long [OF assms(1,2)]
      by (cases "l = LONG_MIN \<and> r = -1") (auto simp: operation_def exact_operation_def c_long_def minus_mult_sdiv_eq_smod)
  next
    case 3
    with assms(1) show ?thesis
      by (auto simp: operation_mul operation_shl operation_shr exact_operation_def in_long_drop_bit)
  next
    case 4
    with assms show ?thesis
      by (cases k)
        (auto simp: operation_def exact_operation_def c_long_def in_long_bits binary_operator_def precedence_def,
         auto simp: in_long_def)
  qed
qed

text \<open>
  C31: every binary operator computes the exact mathematical result or reports \<open>RANGE\<close>. On operands
  that are \<open>long\<close> values the guards of \<open>operation\<close> pass exactly when the true result exists and is
  a \<open>long\<close>, so no signed overflow, division fault or invalid shift can happen: sums, differences
  and products are exact, quotients truncate, right shifts round toward minus infinity.
\<close>

theorem operation_exact:
  assumes "in_long l" and "in_long r" and "binary_operator k"
  shows "operation k l r =
    (case exact_operation k l r of
       None \<Rightarrow> Failure CSH_ARITH_RANGE
     | Some x \<Rightarrow> if in_long x then Result x else Failure CSH_ARITH_RANGE)"
  using assms by (rule operation_spec)

theorem operation_exact_witness:
  "operation TOK_MUL (-3) 7 = Result (-21) \<and> operation TOK_MUL LONG_MAX 2 = Failure CSH_ARITH_RANGE \<and>
   operation TOK_SHR (-5) 1 = Result (-3)"
proof -
  have "in_long (-3)" "in_long 7" "in_long 2" "in_long (-5)"
    by (simp_all add: in_long_def LONG_MIN_def LONG_MAX_def)
  moreover have "binary_operator TOK_MUL" "binary_operator TOK_SHR"
    by (simp_all add: binary_operator_def precedence_def)
  ultimately show ?thesis
    using operation_exact [of "-3" 7 TOK_MUL] operation_exact [of LONG_MAX 2 TOK_MUL] operation_exact [of "-5" 1 TOK_SHR]
    by (simp add: exact_operation_def in_long_def LONG_MIN_def LONG_MAX_def)
qed

subsection \<open>Constants\<close>

definition digits :: "nat \<Rightarrow> string \<Rightarrow> nat list option" where
  "digits base cs = those (map (\<lambda>c. case digit_value c of None \<Rightarrow> None | Some d \<Rightarrow> if d < base then Some d else None) cs)"

definition number_of :: "nat \<Rightarrow> nat \<Rightarrow> nat list \<Rightarrow> nat" where
  "number_of base m ds = foldl (\<lambda>a d. a * base + d) m ds"

lemma digits_simps [simp]:
  "digits base [] = Some []"
  "digits base (c # cs) =
     (case digit_value c of None \<Rightarrow> None
      | Some d \<Rightarrow> if d < base then map_option (Cons d) (digits base cs) else None)"
  by (auto simp: digits_def split: option.splits)

lemma number_of_simps [simp]:
  "number_of base m [] = m" "number_of base m (d # ds) = number_of base (m * base + d) ds"
  by (simp_all add: number_of_def)

lemma number_of_ge: "1 \<le> base \<Longrightarrow> m \<le> number_of base m ds"
proof (induction ds arbitrary: m)
  case (Cons d ds)
  have "m \<le> m * base + d" using Cons.prems by (simp add: trans_le_add1)
  also have "\<dots> \<le> number_of base (m * base + d) ds" by (rule Cons.IH [OF Cons.prems])
  finally show ?case by simp
qed simp

text \<open>The value of an integer constant of the C language, without a bound: hexadecimal, octal or
  decimal by its prefix.\<close>

definition constant_value :: "string \<Rightarrow> nat option" where
  "constant_value text =
     (if text = [] then None
      else if take 2 text = ''0x'' \<or> take 2 text = ''0X'' then
        (if length text = 2 then None else map_option (number_of 16 0) (digits 16 (drop 2 text)))
      else if hd text = CHR ''0'' then map_option (number_of 8 0) (digits 8 text)
      else map_option (number_of 10 0) (digits 10 text))"

text \<open>A magnitude as the evaluator keeps it: \<open>high\<close> is 1 for the magnitude of \<open>LONG_MIN\<close> alone.\<close>

definition classify :: "nat \<Rightarrow> arith_value" where
  "classify n =
     (if n \<le> nat LONG_MAX then \<lparr>av_number = int n, av_name = None, av_high = 0\<rparr>
      else if n = nat LONG_MAX + 1 then \<lparr>av_number = 0, av_name = None, av_high = 1\<rparr>
      else \<lparr>av_number = 0, av_name = None, av_high = 2\<rparr>)"

lemma literal_limit_eq: "literal_limit = nat LONG_MAX + 1" "nat LONG_MAX + 1 = 2 ^ 63"
  by (simp_all add: literal_limit_def LONG_MAX_def)

lemma literal_loop_large:
  "literal_loop base cs m True = (if digits base cs = None then None else Some (m, True))"
  by (induction cs arbitrary: m) (auto split: option.splits)

lemma literal_guard:
  assumes "number < base" and "base \<le> 16"
  shows "(literal_limit - number) div base < m \<longleftrightarrow> literal_limit < m * base + number"
proof -
  have l: "number \<le> literal_limit" using assms by (simp add: literal_limit_eq LONG_MAX_def)
  have "(literal_limit - number) div base < m \<longleftrightarrow> literal_limit - number < m * base"
    using assms(1) by (intro div_less_iff_less_mult) simp
  with l show ?thesis by linarith
qed

lemma literal_loop_spec:
  assumes "1 \<le> base" and "base \<le> 16" and "m \<le> literal_limit"
  shows "map_option literal_value (literal_loop base cs m False) =
    map_option (\<lambda>ds. classify (number_of base m ds)) (digits base cs)"
  using assms(3)
proof (induction cs arbitrary: m)
  case Nil
  then show ?case
    by (auto simp: literal_value_def classify_def literal_limit_eq Let_def)
next
  case (Cons c cs)
  show ?case
  proof (cases "digit_value c")
    case None
    then show ?thesis by simp
  next
    case (Some d)
    show ?thesis
    proof (cases "d < base")
      case False
      with Some show ?thesis by simp
    next
      case True
      show ?thesis
      proof (cases "literal_limit < m * base + d")
        case large: True
        with literal_guard [OF True assms(2)] have "(literal_limit - d) div base < m" by simp
        moreover have "classify (number_of base m (d # ds)) = literal_value (m, True)" for ds
          using large number_of_ge [OF assms(1), of "m * base + d" ds]
          by (simp add: classify_def literal_value_def literal_limit_eq(1))
        ultimately show ?thesis using Some True
          by (auto simp: literal_loop_large option.map_comp comp_def split: option.splits)
      next
        case False
        then have "\<not> (literal_limit - d) div base < m" using literal_guard [OF True assms(2)] by simp
        moreover have "(m * base + d) mod 2 ^ 64 = m * base + d"
          using False unfolding literal_limit_eq by (intro mod_less) simp
        ultimately show ?thesis using Some True False Cons.IH [of "m * base + d"]
          by (auto simp: option.map_comp comp_def)
      qed
    qed
  qed
qed

lemma literal_spec: "literal t = map_option classify (constant_value t)"
proof (cases t)
  case Nil
  then show ?thesis by (simp add: literal_def constant_value_def)
next
  case (Cons c cs)
  have l: "0 \<le> literal_limit" by simp
  show ?thesis
  proof (cases "cs \<noteq> [] \<and> c = CHR ''0'' \<and> (hd cs = CHR ''x'' \<or> hd cs = CHR ''X'')")
    case True
    then obtain x ds where "cs = x # ds" by (cases cs) auto
    with True Cons show ?thesis
      using literal_loop_spec [of 16 0 ds] by (auto simp: literal_def constant_value_def option.map_comp comp_def)
  next
    case False
    then have "\<not> (take 2 t = ''0x'' \<or> take 2 t = ''0X'')"
      using Cons by (cases cs) auto
    with False Cons show ?thesis
      using literal_loop_spec [of 8 0 t] literal_loop_spec [of 10 0 t]
      by (auto simp: literal_def constant_value_def option.map_comp comp_def)
  qed
qed


subsection \<open>Numbers as text\<close>

lemma digit_value_char:
  assumes "d < 10"
  shows "digit_value (char_of (48 + d)) = Some d"
proof -
  have "d \<in> set [0..<10]" using assms by simp
  then have "d = 0 \<or> d = 1 \<or> d = 2 \<or> d = 3 \<or> d = 4 \<or> d = 5 \<or> d = 6 \<or> d = 7 \<or> d = 8 \<or> d = 9"
    by (simp add: upt_rec) auto
  then show ?thesis
    by (elim disjE) (simp_all add: digit_value_def digit_def less_eq_char_def char_of_def bit_0)
qed

lemma digits_append:
  "digits base (xs @ ys) = (case (digits base xs, digits base ys) of (Some a, Some b) \<Rightarrow> Some (a @ b) | _ \<Rightarrow> None)"
  by (induction xs) (auto split: option.splits)

lemma number_of_append: "number_of base m (xs @ ys) = number_of base (number_of base m xs) ys"
  by (simp add: number_of_def)

lemma show_nat_digits: "\<exists>ds. digits 10 (show_nat n) = Some ds \<and> number_of 10 0 ds = n"
proof (induction n rule: show_nat.induct)
  case (1 n)
  show ?case
  proof (cases "n < 10")
    case True
    then show ?thesis by (simp add: show_nat.simps [of n] digit_value_char)
  next
    case False
    with 1 obtain ds where "digits 10 (show_nat (n div 10)) = Some ds" "number_of 10 0 ds = n div 10" by blast
    with False show ?thesis
      by (simp add: show_nat.simps [of n] digits_append digit_value_char number_of_append)
  qed
qed

lemma show_nat_head:
  "show_nat n \<noteq> [] \<and> (\<exists>d<(10::nat). hd (show_nat n) = char_of (48 + d) \<and> (d = 0 \<longrightarrow> n = 0))"
proof (induction n rule: show_nat.induct)
  case (1 n)
  show ?case
  proof (cases "n < 10")
    case True
    then show ?thesis by (auto simp: show_nat.simps [of n])
  next
    case False
    with 1 show ?thesis by (auto simp: show_nat.simps [of n])
  qed
qed

lemma char_of_digit_eq: "d < 10 \<Longrightarrow> e < 10 \<Longrightarrow> char_of (48 + d) = (char_of (48 + e) :: char) \<longleftrightarrow> d = e" for d e :: nat
  using digit_value_char [of d] digit_value_char [of e] by auto

lemma digit_chars: "d < 10 \<Longrightarrow> char_of (48 + d) \<noteq> CHR ''-''" "d < 10 \<Longrightarrow> char_of (48 + d) \<noteq> CHR ''+''"
  "CHR ''0'' = char_of (48 + 0 :: nat)" for d :: nat
proof -
  have m: "digit_value CHR ''-'' = None" "digit_value CHR ''+'' = None"
    by (simp_all add: digit_value_def digit_def less_eq_char_def)
  show "d < 10 \<Longrightarrow> char_of (48 + d) \<noteq> CHR ''-''" "d < 10 \<Longrightarrow> char_of (48 + d) \<noteq> CHR ''+''"
    using digit_value_char [of d] m by force+
  show "CHR ''0'' = char_of (48 + 0 :: nat)" by (simp add: char_of_def bit_0)
qed

lemma constant_value_show: "constant_value (show_nat n) = Some n"
proof (cases "n = 0")
  case True
  then show ?thesis
    by (simp add: constant_value_def show_nat.simps [of 0] digit_value_char char_of_def digit_value_def
        digit_def less_eq_char_def bit_0)
next
  case False
  obtain d :: nat where d: "d < 10" "hd (show_nat n) = char_of (48 + d)" "d \<noteq> 0" and ne: "show_nat n \<noteq> []"
    using show_nat_head [of n] False by auto
  then have "hd (show_nat n) \<noteq> CHR ''0''" using char_of_digit_eq [of d 0] digit_chars(3) by simp
  moreover from this ne have "take 2 (show_nat n) \<noteq> ''0x''" "take 2 (show_nat n) \<noteq> ''0X''"
    by (cases "show_nat n"; auto)+
  ultimately show ?thesis
    using show_nat_digits [of n] ne by (auto simp: constant_value_def)
qed

text \<open>
  what an assignment stores, a read returns: printing a \<open>long\<close> with \<open>%ld\<close> and reading the
  text back as a variable's value gives the number, for every \<open>long\<close>, \<open>LONG_MIN\<close> included.
\<close>

theorem show_read_long:
  assumes "in_long x"
  shows "read_text (show_long x) = Inr x"
proof (cases "x < 0")
  case True
  have "nat (- x) \<le> nat LONG_MAX + 1"
    using assms by (simp add: in_long_def LONG_MIN_def LONG_MAX_def nat_le_iff)
  then show ?thesis using True
    by (auto simp: show_long_def read_text_def literal_spec constant_value_show classify_def Let_def
        LONG_MIN_def LONG_MAX_def)
next
  case False
  obtain d :: nat where "d < 10" "hd (show_nat (nat x)) = char_of (48 + d)" "show_nat (nat x) \<noteq> []"
    using show_nat_head [of "nat x"] by blast
  then have "hd (show_nat (nat x)) \<noteq> CHR ''-''" "hd (show_nat (nat x)) \<noteq> CHR ''+''" "show_nat (nat x) \<noteq> []"
    using digit_chars(1,2) by auto
  moreover have "nat x \<le> nat LONG_MAX" using assms by (simp add: in_long_def nat_mono)
  ultimately show ?thesis using False
    by (simp add: show_long_def read_text_def literal_spec constant_value_show classify_def Let_def)
qed

theorem show_read_long_witness: "read_text (show_long LONG_MIN) = Inr LONG_MIN"
  using show_read_long [of LONG_MIN] by simp

subsection \<open>Termination\<close>

text \<open>What is left to parse: the remaining text and the current token.\<close>

definition ahead :: "arith_parser \<Rightarrow> nat" where
  "ahead p = length (ap_next p) + (if ap_token p = TOK_END then 0 else 1)"

lemma ahead_simps [simp]:
  "ahead (p\<lparr>ap_error := e\<rparr>) = ahead p" "ahead (p\<lparr>ap_world := w\<rparr>) = ahead p"
  "ahead (p\<lparr>ap_state := s\<rparr>) = ahead p" "ahead (p\<lparr>ap_checks := b\<rparr>) = ahead p"
  "ahead (p\<lparr>ap_incomplete := i\<rparr>) = ahead p" "ahead (p\<lparr>ap_undefined := i\<rparr>) = ahead p"
  by (simp_all add: ahead_def)

lemma operators_nonempty: "(t, k) \<in> set operators \<Longrightarrow> t \<noteq> [] \<and> k \<noteq> TOK_END"
  by (auto simp: operators_def)

lemma next_token_cases:
  "dropWhile space (ap_next p) = [] \<Longrightarrow>
     next_token p = p\<lparr>ap_start := [], ap_length := 0, ap_token := TOK_END, ap_next := []\<rparr>"
  "dropWhile space (ap_next p) = c # cs \<Longrightarrow> word_byte c \<Longrightarrow>
     next_token p = p\<lparr>ap_start := c # cs, ap_length := 1 + length (takeWhile word_byte cs),
       ap_token := (if digit c then TOK_NUMBER else TOK_NAME), ap_next := dropWhile word_byte cs\<rparr>"
  "dropWhile space (ap_next p) = c # cs \<Longrightarrow> \<not> word_byte c \<Longrightarrow>
     next_token p =
       (case find (\<lambda>(t, k). take (length t) (c # cs) = t) operators of
          Some (t, k) \<Rightarrow> p\<lparr>ap_start := c # cs, ap_length := length t, ap_token := k, ap_next := drop (length t) (c # cs)\<rparr>
        | None \<Rightarrow> p\<lparr>ap_start := c # cs, ap_length := 1, ap_token := TOK_BAD, ap_next := cs\<rparr>)"
  by (simp_all only: next_token_def Let_def list.case if_True if_False)

lemma next_token_ahead: "ahead (next_token p) \<le> length (ap_next p)"
proof -
  have drop: "length (dropWhile space (ap_next p)) \<le> length (ap_next p)" by (rule length_dropWhile_le)
  show ?thesis
  proof (cases "dropWhile space (ap_next p)")
    case Nil
    show ?thesis by (subst next_token_cases(1) [OF Nil]) (simp add: ahead_def)
  next
    case (Cons c cs)
    have w: "length (dropWhile word_byte cs) \<le> length cs" by (rule length_dropWhile_le)
    from drop Cons have n: "Suc (length cs) \<le> length (ap_next p)" by simp
    show ?thesis
    proof (cases "word_byte c")
      case True
      with w n show ?thesis by (subst next_token_cases(2) [OF Cons]) (simp_all add: ahead_def)
    next
      case False
      show ?thesis
      proof (cases "find (\<lambda>(t, k). take (length t) (c # cs) = t) operators")
        case None
        with n show ?thesis by (subst next_token_cases(3) [OF Cons False]) (simp add: ahead_def)
      next
        case (Some x)
        then obtain t k where x: "x = (t, k)" "(t, k) \<in> set operators"
          by (cases x) (auto dest: find_SomeD)
        then have "t \<noteq> []" "k \<noteq> TOK_END" using operators_nonempty by blast+
        then have "length (drop (length t) (c # cs)) < length (c # cs)" by (cases t) simp_all
        with Some x n show ?thesis by (subst next_token_cases(3) [OF Cons False]) (simp add: ahead_def)
      qed
    qed
  qed
qed

lemma next_token_less: "ap_token p \<noteq> TOK_END \<Longrightarrow> ahead (next_token p) < ahead p"
  using next_token_ahead [of p] by (simp add: ahead_def)

lemma next_token_le: "ahead (next_token p) \<le> ahead p"
  using next_token_ahead [of p] by (simp add: ahead_def)

text \<open>Reading, assigning and computing leave the text and the token alone; reading leaves the
  state alone too.\<close>

definition text_kept :: "arith_parser \<Rightarrow> arith_parser \<Rightarrow> bool" where
  "text_kept p p' \<longleftrightarrow>
     ap_next p' = ap_next p \<and> ap_start p' = ap_start p \<and> ap_length p' = ap_length p \<and>
     ap_token p' = ap_token p \<and> ap_options p' = ap_options p \<and> ap_incomplete p' = ap_incomplete p"

definition state_kept :: "arith_parser \<Rightarrow> arith_parser \<Rightarrow> bool" where
  "state_kept p p' \<longleftrightarrow>
     ap_state p' = ap_state p \<and> ap_undefined p' = ap_undefined p \<and>
     refs (ap_world p') = refs (ap_world p) \<and> finalized (ap_world p') = finalized (ap_world p) \<and>
     locale_now (ap_world p') = locale_now (ap_world p)"

lemma text_kept_refl [simp]: "text_kept p p" and state_kept_refl [simp]: "state_kept p p"
  by (simp_all add: text_kept_def state_kept_def)

lemma text_kept_trans: "text_kept p q \<Longrightarrow> text_kept q r \<Longrightarrow> text_kept p r"
  and state_kept_trans: "state_kept p q \<Longrightarrow> state_kept q r \<Longrightarrow> state_kept p r"
  by (simp_all add: text_kept_def state_kept_def)

lemma kept_error [simp]:
  "text_kept p (q\<lparr>ap_error := e\<rparr>) = text_kept p q" "state_kept p (q\<lparr>ap_error := e\<rparr>) = state_kept p q"
  "text_kept p (q\<lparr>ap_world := w\<rparr>) = text_kept p q" "text_kept p (q\<lparr>ap_state := s\<rparr>) = text_kept p q"
  "text_kept p (q\<lparr>ap_undefined := u\<rparr>) = text_kept p q" "text_kept p (q\<lparr>ap_checks := c\<rparr>) = text_kept p q"
  "state_kept p (q\<lparr>ap_checks := c\<rparr>) = state_kept p q" "state_kept p (q\<lparr>ap_incomplete := i\<rparr>) = state_kept p q"
  by (simp_all add: text_kept_def state_kept_def)

lemma copy_name_kept: "copy_name p n = (r, p') \<Longrightarrow> text_kept p p' \<and> state_kept p p'"
  by (auto simp: copy_name_def text_kept_def state_kept_def split: prod.splits bool.splits)

lemma read_value_kept: "read_value p v e = (x, p') \<Longrightarrow> text_kept p p' \<and> state_kept p p'"
  by (cases "copy_name p (the (av_name v))")
    (auto simp: read_value_def dest: copy_name_kept split: if_splits option.splits sum.splits)

lemma assign_kept: "text_kept p (assign p v x)"
proof -
  let ?n = "case av_name v of None \<Rightarrow> [] | Some n \<Rightarrow> n"
  obtain m q where c: "copy_name p ?n = (m, q)" by (cases "copy_name p ?n") auto
  then have q: "text_kept p q" by (blast dest: copy_name_kept)
  show ?thesis
  proof (cases m)
    case None
    with q show ?thesis by (simp add: assign_def c)
  next
    case (Some name)
    obtain r s w where s: "csh_state_set_variable (ap_state q) (Some name) (Some (show_long x)) (ap_world q) = (r, s, w)"
      by (cases "csh_state_set_variable (ap_state q) (Some name) (Some (show_long x)) (ap_world q)") auto
    obtain r' s' w' where u: "csh_state_update_attributes s (Some name) CSH_VAR_EXPORT 0 w = (r', s', w')"
      by (cases "csh_state_update_attributes s (Some name) CSH_VAR_EXPORT 0 w") auto
    from q show ?thesis by (simp add: assign_def c Some s u Let_def)
  qed
qed

lemma operate_kept: "operate p k l r = (x, p') \<Longrightarrow> text_kept p p'"
  by (auto simp: operate_def split: op_result.splits)

lemma combine_kept: "combine p k v l r e = (x, p') \<Longrightarrow> text_kept p p'"
  by (cases "operate p (if precedence k = 2 then assignment_operation k else k) l r")
    (auto simp: combine_def assign_kept dest: operate_kept
      intro: text_kept_trans [OF operate_kept assign_kept] split: if_splits)

lemma unary_kept: "unary p k v e = (x, p') \<Longrightarrow> text_kept p p' \<and> state_kept p p'"
  by (cases "read_value p v e") (auto simp: unary_def dest: read_value_kept split: if_splits)

lemma stack_check_kept: "csh_stack_check p = (b, p') \<Longrightarrow> text_kept p p' \<and> state_kept p p'"
  by (auto simp: csh_stack_check_def split: prod.splits)

lemma text_kept_ahead: "text_kept p p' \<Longrightarrow> ahead p' = ahead p"
  by (simp add: text_kept_def ahead_def)

lemmas kept_ahead = read_value_kept [THEN conjunct1, THEN text_kept_ahead] combine_kept [THEN text_kept_ahead]
  unary_kept [THEN conjunct1, THEN text_kept_ahead] stack_check_kept [THEN conjunct1, THEN text_kept_ahead]

lemma unexpected_ahead [simp]: "ahead (unexpected p) = ahead p"
  by (simp add: unexpected_def)

lemma precedence_simps [simp]: "precedence TOK_END = 0" "precedence TOK_QUESTION = 3"
  by (simp_all add: precedence_def)

subsection \<open>One turn of the loop\<close>

definition stops :: "arith_parser \<Rightarrow> nat \<Rightarrow> bool" where
  "stops p minimum \<longleftrightarrow> ap_error p \<noteq> CSH_ARITH_OK \<or> precedence (ap_token p) < minimum"

definition no_target :: "arith_parser \<Rightarrow> arith_value \<Rightarrow> bool" where
  "no_target p left \<longleftrightarrow> precedence (ap_token p) = 2 \<and> av_name left = None"

definition read_left :: "arith_parser \<Rightarrow> arith_value \<Rightarrow> bool \<Rightarrow> int \<times> arith_parser" where
  "read_left p left execute =
     (if ap_token p = TOK_ASSIGN then (0, next_token p) else read_value (next_token p) left execute)"

definition right_runs :: "token \<Rightarrow> int \<Rightarrow> bool \<Rightarrow> bool" where
  "right_runs k lhs execute \<longleftrightarrow> execute \<and> \<not> (k = TOK_AND \<and> lhs = 0) \<and> \<not> (k = TOK_OR \<and> lhs \<noteq> 0)"

definition right_minimum :: "token \<Rightarrow> nat" where
  "right_minimum k = (if precedence k = 2 then precedence k else precedence k + 1)"

lemma loop_stops: "stops p minimum \<Longrightarrow> expression_loop (Suc fuel) p minimum execute left = Some (left, p)"
  unfolding expression_loop.simps stops_def by (rule if_P)

lemma loop_no_target:
  "\<not> stops p minimum \<Longrightarrow> no_target p left \<Longrightarrow>
   expression_loop (Suc fuel) p minimum execute left = Some (left, (next_token p)\<lparr>ap_error := CSH_ARITH_SYNTAX\<rparr>)"
  by (simp add: stops_def no_target_def Let_def)

lemma loop_question:
  assumes "\<not> stops p minimum" and "\<not> no_target p left" and "ap_token p = TOK_QUESTION"
    and "read_left p left execute = (lhs, q)"
  shows "expression_loop (Suc fuel) p minimum execute left =
    (case expression fuel q 1 (execute \<and> lhs \<noteq> 0) of
       None \<Rightarrow> None
     | Some (selected, p) \<Rightarrow>
         (case read_value p selected (execute \<and> lhs \<noteq> 0) of
            (yes, p) \<Rightarrow>
              if ap_error p \<noteq> CSH_ARITH_OK then Some (left, p)
              else if ap_token p \<noteq> TOK_COLON then Some (left, unexpected p)
              else
                (case expression fuel (next_token p) (precedence TOK_QUESTION) (execute \<and> lhs = 0) of
                   None \<Rightarrow> None
                 | Some (selected, p) \<Rightarrow>
                     (case read_value p selected (execute \<and> lhs = 0) of
                        (rhs, p) \<Rightarrow>
                          expression_loop fuel p minimum execute
                            (zero_value\<lparr>av_number := (if lhs \<noteq> 0 then yes else rhs)\<rparr>)))))"
  using assms(1-2)
  by (simp only: expression_loop.simps stops_def no_target_def Let_def if_False if_True prod.case assms(3) refl
      assms(4) [unfolded read_left_def assms(3)])

lemma loop_binary:
  assumes "\<not> stops p minimum" and "\<not> no_target p left" and "ap_token p \<noteq> TOK_QUESTION"
    and "read_left p left execute = (lhs, q)"
  shows "expression_loop (Suc fuel) p minimum execute left =
    (case expression fuel q (right_minimum (ap_token p)) (right_runs (ap_token p) lhs execute) of
       None \<Rightarrow> None
     | Some (right, r) \<Rightarrow>
         (case read_value r right (right_runs (ap_token p) lhs execute) of
            (rhs, r) \<Rightarrow>
              (case combine r (ap_token p) left lhs rhs execute of
                 (left, r) \<Rightarrow> expression_loop fuel r minimum execute left)))"
  using assms(1-3)
  by (simp only: expression_loop.simps stops_def no_target_def Let_def if_False prod.case
      right_runs_def right_minimum_def assms(4) [unfolded read_left_def])

declare expression_loop.simps(2) [simp del]

subsection \<open>Contracts of the evaluator\<close>

text \<open>
  What a property of the three mutually recursive functions rests on. \<open>R e\<close> relates the parser
  before and after a call with \<open>execute\<close> = \<open>e\<close>, \<open>V\<close> holds of every value passed around, \<open>N\<close> of every
  number read. If the steps of the evaluator respect them, so do \<open>primary\<close>, \<open>expression\<close> and its loop,
  whatever the fuel.
\<close>

locale evaluator_contract =
  fixes R :: "bool \<Rightarrow> arith_parser \<Rightarrow> arith_parser \<Rightarrow> bool"
    and V :: "arith_value \<Rightarrow> bool" and N :: "int \<Rightarrow> bool"
  assumes refl: "R e p p"
    and trans: "R e p q \<Longrightarrow> R e q r \<Longrightarrow> R e p r"
    and weaken: "R e p q \<Longrightarrow> (e \<Longrightarrow> e') \<Longrightarrow> R e' p q"
    and next_token_R: "R e p (next_token p)"
    and syntax_R: "R e p (p\<lparr>ap_error := CSH_ARITH_SYNTAX\<rparr>)"
    and resource_R: "R e p (p\<lparr>ap_error := CSH_ARITH_RESOURCE\<rparr>)"
    and unexpected_R: "R e p (unexpected p)"
    and check_R: "csh_stack_check p = (b, q) \<Longrightarrow> R e p q"
    and read_R: "read_value p v e = (x, q) \<Longrightarrow> V v \<Longrightarrow> R e p q \<and> N x"
    and unary_R: "unary p k v e = (u, q) \<Longrightarrow> V v \<Longrightarrow> R e p q \<and> V u"
    and combine_R: "combine p k v y z e = (u, q) \<Longrightarrow> V v \<Longrightarrow> N y \<Longrightarrow> N z \<Longrightarrow>
      1 \<le> precedence k \<Longrightarrow> k \<noteq> TOK_QUESTION \<Longrightarrow> R e p q \<and> V u"
    and zero_V: "V zero_value" "V (zero_value\<lparr>av_name := Some n\<rparr>)"
    and literal_V: "literal t = Some v \<Longrightarrow> V v"
    and number_V: "N x \<Longrightarrow> V (zero_value\<lparr>av_number := x\<rparr>)"
    and zero_N: "N 0"
begin

lemma read_left_R: "read_left p v e = (x, q) \<Longrightarrow> V v \<Longrightarrow> R e p q \<and> N x"
  by (auto simp: read_left_def zero_N next_token_R split: if_splits
      dest!: read_R intro: trans [OF next_token_R])

lemma R_chain: "R e p q \<Longrightarrow> R e' q r \<Longrightarrow> (e' \<Longrightarrow> e) \<Longrightarrow> R e p r"
  by (blast intro: trans weaken)

lemma evaluator:
  shows primary_R: "primary fuel p execute = Some (v, p') \<Longrightarrow> R execute p p' \<and> V v"
    and expression_R: "expression fuel p minimum execute = Some (v, p') \<Longrightarrow> 1 \<le> minimum \<Longrightarrow> R execute p p' \<and> V v"
    and loop_R: "expression_loop fuel p minimum execute left = Some (v, p') \<Longrightarrow> V left \<Longrightarrow> 1 \<le> minimum \<Longrightarrow>
      R execute p p' \<and> V v"
proof (induction fuel arbitrary: p minimum execute left v p')
  case 0
  {
    case 1
    then show ?case by simp
  next
    case 2
    then show ?case by simp
  next
    case 3
    then show ?case by simp
  }
next
  case (Suc fuel)
  {
    case 1
    have paren: "R execute p p' \<and> V v" if "expression fuel (next_token p) 1 execute = Some (v, q)"
      "p' = (if ap_error q = CSH_ARITH_OK then (if ap_token q \<noteq> TOK_RPAREN then unexpected q else next_token q) else q)" for q
    proof -
      from Suc.IH(2) [OF that(1)] have "R execute p q" "V v" by (auto intro: trans next_token_R)
      with that(2) show ?thesis by (auto intro: trans next_token_R unexpected_R)
    qed
    have prefix: "R execute p p' \<and> V v" if "expression fuel (next_token p) 14 execute = Some (u, q)"
      "unary q k u execute = (v, p')" for q u k
    proof -
      from Suc.IH(2) [OF that(1)] have "R execute p q" "V u" by (auto intro: trans next_token_R)
      with unary_R [OF that(2)] show ?thesis by (auto intro: trans)
    qed
    have number: "R execute p (next_token (p\<lparr>ap_error := CSH_ARITH_SYNTAX\<rparr>))"
      by (rule trans [OF syntax_R next_token_R])
    show ?case
    proof (cases "ap_token p = TOK_LPAREN")
      case True
      with 1 obtain q where "expression fuel (next_token p) 1 execute = Some (v, q)"
        "p' = (if ap_error q = CSH_ARITH_OK then (if ap_token q \<noteq> TOK_RPAREN then unexpected q else next_token q) else q)"
        by (auto split: option.splits)
      then show ?thesis by (rule paren)
    next
      case False
      with 1 number show ?thesis
        by (cases "ap_token p")
          (auto intro: next_token_R unexpected_R zero_V literal_V dest: prefix split: option.splits)
    qed
  next
    case 2
    obtain b q where c: "csh_stack_check p = (b, q)" by (cases "csh_stack_check p") auto
    note q = check_R [OF c, of execute]
    show ?case
    proof (cases "ap_error p \<noteq> CSH_ARITH_OK \<or> \<not> b")
      case True
      with 2 c q show ?thesis by (auto intro: refl zero_V trans resource_R split: if_splits)
    next
      case False
      with 2 c obtain u r where p: "primary fuel q execute = Some (u, r)"
        and l: "expression_loop fuel r minimum execute u = Some (v, p')"
        by (auto split: option.splits)
      from Suc.IH(1) [OF p] Suc.IH(3) [OF l] q 2(2) show ?thesis by (blast intro: trans)
    qed
  next
    case (3 p minimum execute left v p')
    let ?k = "ap_token p"
    obtain lhs q where lhs: "read_left p left execute = (lhs, q)" by (cases "read_left p left execute") auto
    note q = read_left_R [OF lhs 3(2)]
    consider (stop) "stops p minimum"
      | (target) "\<not> stops p minimum" "no_target p left"
      | (question) "\<not> stops p minimum" "\<not> no_target p left" "?k = TOK_QUESTION"
      | (binary) "\<not> stops p minimum" "\<not> no_target p left" "?k \<noteq> TOK_QUESTION" by blast
    then show ?case
    proof cases
      case stop
      with 3 show ?thesis by (simp add: loop_stops refl)
    next
      case target
      with 3 show ?thesis by (auto simp: loop_no_target intro: trans next_token_R syntax_R)
    next
      case question
      note run = 3(1) [unfolded loop_question [OF question lhs] precedence_simps]
      from run obtain s1 r1 where e1: "expression fuel q 1 (execute \<and> lhs \<noteq> 0) = Some (s1, r1)"
        by (auto split: option.splits)
      obtain yes r2 where y: "read_value r1 s1 (execute \<and> lhs \<noteq> 0) = (yes, r2)"
        by (cases "read_value r1 s1 (execute \<and> lhs \<noteq> 0)") auto
      have r2: "R execute p r2" "N yes"
        using Suc.IH(2) [OF e1] read_R [OF y] q by (auto intro: R_chain)
      show ?thesis
      proof (cases "ap_error r2 \<noteq> CSH_ARITH_OK \<or> ap_token r2 \<noteq> TOK_COLON")
        case True
        with run e1 y have "v = left" "p' = r2 \<or> p' = unexpected r2" by (auto split: if_splits)
        with 3(2) r2 show ?thesis by (auto intro: trans unexpected_R)
      next
        case False
        with run e1 y obtain s3 r3 where
          e3: "expression fuel (next_token r2) 3 (execute \<and> lhs = 0) = Some (s3, r3)"
          by (auto split: option.splits)
        obtain no r4 where z: "read_value r3 s3 (execute \<and> lhs = 0) = (no, r4)"
          by (cases "read_value r3 s3 (execute \<and> lhs = 0)") auto
        have l: "expression_loop fuel r4 minimum execute
            (zero_value\<lparr>av_number := (if lhs \<noteq> 0 then yes else no)\<rparr>) = Some (v, p')"
          using run e1 y False e3 z by simp
        from Suc.IH(2) [OF e3] read_R [OF z] r2(1) next_token_R [of execute r2]
        have r4: "R execute p r4" "N no" by (auto intro: R_chain)
        have "V (zero_value\<lparr>av_number := (if lhs \<noteq> 0 then yes else no)\<rparr>)"
          by (rule number_V) (use r2 r4 in simp)
        from Suc.IH(3) [OF l this 3(3)] r4(1) show ?thesis by (blast intro: trans)
      qed
    next
      case binary
      note run = 3(1) [unfolded loop_binary [OF binary lhs]]
      let ?x = "right_runs ?k lhs execute"
      from run obtain s1 r1 where e1: "expression fuel q (right_minimum ?k) ?x = Some (s1, r1)"
        by (auto split: option.splits)
      obtain rhs r2 where y: "read_value r1 s1 ?x = (rhs, r2)" by (cases "read_value r1 s1 ?x") auto
      obtain u r3 where c: "combine r2 ?k left lhs rhs execute = (u, r3)"
        by (cases "combine r2 ?k left lhs rhs execute") auto
      have l: "expression_loop fuel r3 minimum execute u = Some (v, p')" using run e1 y c by simp
      have k: "1 \<le> precedence ?k" using binary(1) 3(3) by (simp add: stops_def)
      have "1 \<le> right_minimum ?k" by (simp add: right_minimum_def)
      from Suc.IH(2) [OF e1 this] read_R [OF y] q have r2: "R execute p r2" "N rhs"
        by (auto intro: R_chain simp: right_runs_def)
      from combine_R [OF c 3(2) _ r2(2) k binary(3)] q r2(1) have r3: "R execute p r3" "V u" by (auto intro: trans)
      from Suc.IH(3) [OF l r3(2) 3(3)] r3(1) show ?thesis by (blast intro: trans)
    qed
  }
qed

end

interpretation progress: evaluator_contract "\<lambda>e p q. ahead q \<le> ahead p" "\<lambda>_. True" "\<lambda>_. True"
  by unfold_locales (auto simp: kept_ahead next_token_le)

lemma enough_fuel:
  shows primary_total: "2 * ahead p + 1 \<le> fuel \<Longrightarrow> primary fuel p execute \<noteq> None"
    and expression_total: "2 * ahead p + 2 \<le> fuel \<Longrightarrow> 1 \<le> minimum \<Longrightarrow> expression fuel p minimum execute \<noteq> None"
    and loop_total: "2 * ahead p + 1 \<le> fuel \<Longrightarrow> 1 \<le> minimum \<Longrightarrow>
      expression_loop fuel p minimum execute left \<noteq> None"
proof (induction fuel arbitrary: p minimum execute left)
  case 0
  {
    case 1
    then show ?case by simp
  next
    case 2
    then show ?case by simp
  next
    case 3
    then show ?case by simp
  }
next
  case (Suc fuel)
  {
    case (1 p execute)
    show ?case
    proof (cases "ap_token p = TOK_END")
      case False
      with 1 next_token_less [of p] have "2 * ahead (next_token p) + 2 \<le> fuel" by simp
      from Suc.IH(2) [OF this, of 1 execute] Suc.IH(2) [OF this, of 14 execute]
      obtain x y where "expression fuel (next_token p) 1 execute = Some x" "expression fuel (next_token p) 14 execute = Some y"
        by auto
      then show ?thesis by (cases "ap_token p") (auto split: option.splits prod.splits)
    qed simp
  next
    case (2 p minimum execute)
    obtain b q where c: "csh_stack_check p = (b, q)" by (cases "csh_stack_check p") auto
    have q: "ahead q = ahead p" using c by (rule kept_ahead)
    with 2 have fuel: "2 * ahead q + 1 \<le> fuel" by simp
    then obtain v r where p: "primary fuel q execute = Some (v, r)" using Suc.IH(1) [of q execute] by auto
    from progress.primary_R [OF p] fuel have "2 * ahead r + 1 \<le> fuel" by simp
    from Suc.IH(3) [OF this 2(2), of execute v] c p show ?case by (cases b) auto
  next
    case (3 p minimum execute left)
    let ?k = "ap_token p"
    obtain lhs q where lhs: "read_left p left execute = (lhs, q)" by (cases "read_left p left execute") auto
    show ?case
    proof (cases "stops p minimum \<or> no_target p left")
      case True
      then show ?thesis using loop_stops loop_no_target by (metis option.distinct(1))
    next
      case go: False
      then have "?k \<noteq> TOK_END" using 3(2) by (auto simp: stops_def)
      then have "ahead (next_token p) < ahead p" by (rule next_token_less)
      moreover have "ahead q \<le> ahead (next_token p)"
        using lhs by (auto simp: read_left_def kept_ahead split: if_splits)
      ultimately have fuel: "2 * ahead q + 2 \<le> fuel" using 3(1) by simp
      have sub: "\<exists>v q'. expression fuel r m e = Some (v, q') \<and> ahead q' \<le> ahead r"
        if "ahead r \<le> ahead q" "1 \<le> m" for r m e
        using Suc.IH(2) [of r m e] that fuel progress.expression_R [of fuel r m e] by fastforce
      have again: "expression_loop fuel r minimum execute u \<noteq> None" if "ahead r \<le> ahead q" for r u
        using Suc.IH(3) [of r minimum execute u] that fuel 3(2) by simp
      show ?thesis
      proof (cases "?k = TOK_QUESTION")
        case True
        obtain s1 r1 where e1: "expression fuel q 1 (execute \<and> lhs \<noteq> 0) = Some (s1, r1)" "ahead r1 \<le> ahead q"
          using sub [of q 1 "execute \<and> lhs \<noteq> 0"] by auto
        obtain yes r2 where y: "read_value r1 s1 (execute \<and> lhs \<noteq> 0) = (yes, r2)"
          by (cases "read_value r1 s1 (execute \<and> lhs \<noteq> 0)") auto
        have n: "ahead (next_token r2) \<le> ahead q"
          using e1(2) kept_ahead(1) [OF y] next_token_le [of r2] by simp
        obtain s3 r3 where e3: "expression fuel (next_token r2) 3 (execute \<and> lhs = 0) = Some (s3, r3)"
          "ahead r3 \<le> ahead (next_token r2)" using sub [OF n, of 3 "execute \<and> lhs = 0"] by auto
        obtain no r4 where z: "read_value r3 s3 (execute \<and> lhs = 0) = (no, r4)"
          by (cases "read_value r3 s3 (execute \<and> lhs = 0)") auto
        have "ahead r4 \<le> ahead q" using e3(2) n kept_ahead(1) [OF z] by simp
        from again [OF this] show ?thesis
          using go True e1(1) y e3(1) z by (simp add: loop_question [OF _ _ True lhs])
      next
        case False
        let ?x = "right_runs ?k lhs execute"
        have m: "1 \<le> right_minimum ?k" by (simp add: right_minimum_def)
        obtain s1 r1 where e1: "expression fuel q (right_minimum ?k) ?x = Some (s1, r1)" "ahead r1 \<le> ahead q"
          using sub [OF order_refl m] by blast
        obtain rhs r2 where y: "read_value r1 s1 ?x = (rhs, r2)" by (cases "read_value r1 s1 ?x") auto
        obtain u r3 where c: "combine r2 ?k left lhs rhs execute = (u, r3)"
          by (cases "combine r2 ?k left lhs rhs execute") auto
        have "ahead r3 \<le> ahead q" using e1(2) kept_ahead(1) [OF y] kept_ahead(2) [OF c] by simp
        from again [OF this] show ?thesis
          using go False e1(1) y c by (simp add: loop_binary [OF _ _ False lhs])
      qed
    qed
  }
qed

lemma run_expression:
  assumes "ap_token (next_token p) \<noteq> TOK_END"
  obtains v q where "expression (arith_fuel (ap_next p)) (next_token p) 1 execute = Some (v, q)"
proof -
  have "2 * ahead (next_token p) + 2 \<le> arith_fuel (ap_next p)"
    using next_token_ahead [of p] by (simp add: arith_fuel_def)
  then show ?thesis using expression_total [of "next_token p" "arith_fuel (ap_next p)" 1 execute] that by auto
qed

text \<open>\<open>run\<close> in one piece: the expression (or nothing) was parsed into \<open>v\<close>, ending in \<open>q\<close>.\<close>

lemma run_cases:
  obtains v q where
    "if ap_token (next_token p) = TOK_END then v = zero_value \<and> q = next_token p
     else expression (arith_fuel (ap_next p)) (next_token p) 1 execute = Some (v, q)"
    "run p execute =
       (let q = (if ap_error q = CSH_ARITH_OK \<and> ap_token q \<noteq> TOK_END then q\<lparr>ap_error := CSH_ARITH_SYNTAX\<rparr> else q)
        in if ap_error q = CSH_ARITH_OK then
             (case read_value q v execute of
                (number, q) \<Rightarrow> Some (if ap_error q = CSH_ARITH_OK then Some number else None, q))
           else Some (None, q))"
proof (cases "ap_token (next_token p) = TOK_END")
  case True
  then show ?thesis using that [of zero_value "next_token p"] by (simp add: run_def Let_def)
next
  case False
  from run_expression [OF False] obtain v q where e: "expression (arith_fuel (ap_next p)) (next_token p) 1 execute = Some (v, q)" .
  with False show ?thesis using that [of v q] by (simp add: run_def Let_def)
qed

lemma run_total [simp]: "(run p execute = None) = False"
  by (rule run_cases [of p execute]) (auto simp: Let_def split: prod.splits)

lemma run_Some: obtains out q where "run p execute = Some (out, q)"
  using run_total [of p execute] that by (cases "run p execute") auto

text \<open>
  C28: evaluation and both probes terminate on every text. The recursion depth of \<open>expression\<close> is
  bounded by the text, so the fuel \<open>run\<close> gives is never used up, whatever the state, the
  allocation failures and the answers of the stack check.
\<close>

theorem arithmetic_terminates:
  "csh_arith_eval s t w checks \<noteq> None \<and> csh_arith_probe t w checks \<noteq> None \<and>
   csh_arith_probe_prefix t w checks \<noteq> None"
proof (intro conjI)
  show "csh_arith_eval s t w checks \<noteq> None"
    by (auto simp: csh_arith_eval_def split: option.splits prod.splits bool.splits csh_state_result.splits)
  show "csh_arith_probe t w checks \<noteq> None"
    by (auto simp: csh_arith_probe_def split: option.splits)
  show "csh_arith_probe_prefix t w checks \<noteq> None"
    by (auto simp: csh_arith_probe_prefix_def split: option.splits)
qed

subsection \<open>No undefined behaviour\<close>

lemma literal_in_long: "literal t = Some v \<Longrightarrow> in_long (av_number v)"
  by (auto simp: literal_spec classify_def in_long_def LONG_MIN_def LONG_MAX_def split: if_splits)

lemma literal_nonneg: "literal t = Some v \<Longrightarrow> 0 \<le> av_number v"
  by (auto simp: literal_spec classify_def split: if_splits)

lemma in_long_minus: "in_long x \<Longrightarrow> x \<noteq> LONG_MIN \<Longrightarrow> in_long (- x)"
  by (auto simp: in_long_def LONG_MIN_def LONG_MAX_def)

lemma read_text_in_long:
  assumes "read_text t = Inr x"
  shows "in_long x"
proof (cases "t = []")
  case True
  with assms show ?thesis by (simp add: read_text_def)
next
  case False
  let ?b = "if hd t = CHR ''-'' \<or> hd t = CHR ''+'' then tl t else t"
  from assms False obtain v where v: "literal ?b = Some v"
    and x: "x = LONG_MIN \<or> x = av_number v \<or> x = - av_number v"
    by (auto simp: read_text_def Let_def split: option.splits if_splits)
  have "in_long (av_number v)" "av_number v \<noteq> LONG_MIN"
    using literal_in_long [OF v] literal_nonneg [OF v] by (auto simp: LONG_MIN_def)
  with x in_long_minus show ?thesis by auto
qed

definition long_value :: "arith_value \<Rightarrow> bool" where
  "long_value v \<longleftrightarrow> in_long (av_number v)"

definition stays_defined :: "arith_parser \<Rightarrow> arith_parser \<Rightarrow> bool" where
  "stays_defined p q \<longleftrightarrow> (ap_undefined q \<longrightarrow> ap_undefined p)"

lemma state_kept_defined: "state_kept p q \<Longrightarrow> stays_defined p q"
  by (simp add: state_kept_def stays_defined_def)

lemma read_value_long:
  assumes "read_value p v e = (x, q)" and "long_value v"
  shows "stays_defined p q \<and> in_long x"
proof -
  have "in_long x"
    using assms by (cases "copy_name p (the (av_name v))")
      (auto simp: read_value_def long_value_def dest: read_text_in_long split: if_splits option.splits sum.splits)
  then show ?thesis using assms(1) by (auto dest: read_value_kept state_kept_defined)
qed

lemma operation_long:
  "in_long l \<Longrightarrow> in_long r \<Longrightarrow> binary_operator k \<Longrightarrow>
   operation k l r \<noteq> Undefined \<and> (\<forall>x. operation k l r = Result x \<longrightarrow> in_long x)"
  by (simp add: operation_spec split: option.splits)

lemma operate_long:
  "in_long l \<Longrightarrow> in_long r \<Longrightarrow> binary_operator k \<Longrightarrow> operate p k l r = (x, q) \<Longrightarrow>
   stays_defined p q \<and> in_long x"
  using operation_long [of l r k]
  by (auto simp: operate_def stays_defined_def split: op_result.splits)

lemma assign_defined: "ap_undefined (assign p v x) = ap_undefined p"
proof -
  let ?n = "case av_name v of None \<Rightarrow> [] | Some n \<Rightarrow> n"
  obtain m q where c: "copy_name p ?n = (m, q)" by (cases "copy_name p ?n") auto
  then have q: "ap_undefined q = ap_undefined p" by (auto dest: copy_name_kept simp: state_kept_def)
  show ?thesis
  proof (cases m)
    case None
    with q show ?thesis by (simp add: assign_def c)
  next
    case (Some name)
    obtain r s w where s: "csh_state_set_variable (ap_state q) (Some name) (Some (show_long x)) (ap_world q) = (r, s, w)"
      by (cases "csh_state_set_variable (ap_state q) (Some name) (Some (show_long x)) (ap_world q)") auto
    obtain r' s' w' where u: "csh_state_update_attributes s (Some name) CSH_VAR_EXPORT 0 w = (r', s', w')"
      by (cases "csh_state_update_attributes s (Some name) CSH_VAR_EXPORT 0 w") auto
    from q show ?thesis by (simp add: assign_def c Some s u Let_def)
  qed
qed

lemma assignment_binary: "precedence k = 2 \<Longrightarrow> k \<noteq> TOK_ASSIGN \<Longrightarrow> binary_operator (assignment_operation k)"
  by (cases k) (simp_all add: precedence_def assignment_operation_def binary_operator_def)

lemma precedence_binary: "1 \<le> precedence k \<Longrightarrow> precedence k \<noteq> 2 \<Longrightarrow> k \<noteq> TOK_QUESTION \<Longrightarrow> binary_operator k"
  by (cases k) (simp_all add: precedence_def binary_operator_def)

lemma combine_long:
  assumes "combine p k v l r e = (u, q)" and "in_long l" and "in_long r" and "1 \<le> precedence k" and "k \<noteq> TOK_QUESTION"
  shows "stays_defined p q \<and> long_value u"
proof (cases "e \<and> ap_error p = CSH_ARITH_OK")
  case False
  with assms(1) show ?thesis by (auto simp: combine_def stays_defined_def long_value_def zero_value_def)
next
  case run: True
  show ?thesis
  proof (cases "precedence k = 2")
    case True
    obtain n p1 where o: "(if k = TOK_ASSIGN then (r, p) else operate p (assignment_operation k) l r) = (n, p1)"
      by (cases "if k = TOK_ASSIGN then (r, p) else operate p (assignment_operation k) l r") auto
    have "stays_defined p p1 \<and> in_long n"
      using o assms(2,3) operate_long [OF assms(2,3) assignment_binary [OF True]]
      by (auto simp: stays_defined_def split: if_splits)
    moreover have "u = zero_value\<lparr>av_number := n\<rparr>" "q = p1 \<or> q = assign p1 v n"
      using assms(1) run True o by (auto simp: combine_def split: if_splits)
    ultimately show ?thesis by (auto simp: stays_defined_def long_value_def assign_defined)
  next
    case False
    obtain n p1 where o: "operate p k l r = (n, p1)" by (cases "operate p k l r") auto
    with assms(1) run False operate_long [OF assms(2,3) precedence_binary [OF assms(4) False assms(5)] o] show ?thesis
      by (auto simp: combine_def long_value_def)
  qed
qed

lemma unary_long:
  assumes "unary p k v e = (u, q)" and "long_value v"
  shows "stays_defined p q \<and> long_value u"
proof -
  obtain n r where r: "read_value p v e = (n, r)" by (cases "read_value p v e") auto
  have "in_long n" using read_value_long [OF r assms(2)] by simp
  then have "long_value u"
    using assms r in_long_bits(4) [of n]
    by (auto simp: unary_def long_value_def in_long_minus split: if_splits)
  then show ?thesis using assms(1) by (auto dest: unary_kept state_kept_defined)
qed

interpretation defined: evaluator_contract "\<lambda>e. stays_defined" long_value in_long
proof unfold_locales
  fix p v e x q
  assume "read_value p v e = (x, q)" "long_value v"
  then show "stays_defined p q \<and> in_long x" by (rule read_value_long)
next
  fix p k v e u q
  assume "unary p k v e = (u, q)" "long_value v"
  then show "stays_defined p q \<and> long_value u" by (rule unary_long)
next
  fix p k v y z e u q
  assume "combine p k v y z e = (u, q)" "in_long y" "in_long z" "1 \<le> precedence k" "k \<noteq> TOK_QUESTION"
  then show "stays_defined p q \<and> long_value u" by (rule combine_long)
qed (auto simp: stays_defined_def long_value_def zero_value_def unexpected_def next_token_def Let_def csh_stack_check_def
    dest: literal_in_long split: list.splits option.splits prod.splits)

text \<open>Without execution nothing is read or written, and the only errors are those of the grammar.\<close>

definition grammar_error :: "csh_arith_result \<Rightarrow> bool" where
  "grammar_error e \<longleftrightarrow> e = CSH_ARITH_OK \<or> e = CSH_ARITH_SYNTAX \<or> e = CSH_ARITH_RESOURCE"

definition dry :: "bool \<Rightarrow> arith_parser \<Rightarrow> arith_parser \<Rightarrow> bool" where
  "dry e p q \<longleftrightarrow> (\<not> e \<longrightarrow> ap_world q = ap_world p \<and> ap_state q = ap_state p \<and>
     (grammar_error (ap_error p) \<longrightarrow> grammar_error (ap_error q)))"

lemma next_token_frame:
  "ap_world (next_token p) = ap_world p" "ap_state (next_token p) = ap_state p"
  "ap_error (next_token p) = ap_error p" "ap_options (next_token p) = ap_options p"
  "ap_checks (next_token p) = ap_checks p" "ap_undefined (next_token p) = ap_undefined p"
  "ap_incomplete (next_token p) = ap_incomplete p"
  by (auto simp: next_token_def Let_def split: list.splits option.splits)

lemma stack_check_frame:
  "csh_stack_check p = (b, q) \<Longrightarrow> ap_world q = ap_world p \<and> ap_state q = ap_state p \<and> ap_error q = ap_error p"
  by (auto simp: csh_stack_check_def split: prod.splits)

interpretation dry_run: evaluator_contract dry "\<lambda>_. True" "\<lambda>_. True"
  by unfold_locales
    (auto simp: dry_def grammar_error_def next_token_frame unexpected_def read_value_def unary_def combine_def
      dest: stack_check_frame)

lemma run_dry:
  assumes "run p False = Some (out, q)" and "grammar_error (ap_error p)"
  shows "ap_world q = ap_world p \<and> ap_state q = ap_state p \<and> grammar_error (ap_error q)"
proof (rule run_cases [of p False])
  fix v r
  assume e: "if ap_token (next_token p) = TOK_END then v = zero_value \<and> r = next_token p
     else expression (arith_fuel (ap_next p)) (next_token p) 1 False = Some (v, r)"
  assume "run p False =
       (let q = (if ap_error r = CSH_ARITH_OK \<and> ap_token r \<noteq> TOK_END then r\<lparr>ap_error := CSH_ARITH_SYNTAX\<rparr> else r)
        in if ap_error q = CSH_ARITH_OK then
             (case read_value q v False of
                (number, q) \<Rightarrow> Some (if ap_error q = CSH_ARITH_OK then Some number else None, q))
           else Some (None, q))"
  with assms(1) have q: "q = r \<or> q = r\<lparr>ap_error := CSH_ARITH_SYNTAX\<rparr>"
    by (auto simp: Let_def read_value_def split: if_splits)
  have "dry False (next_token p) r"
    using e dry_run.expression_R dry_run.refl by (auto split: if_splits)
  with assms(2) have "ap_world r = ap_world p \<and> ap_state r = ap_state p \<and> grammar_error (ap_error r)"
    by (simp add: dry_def next_token_frame)
  with q show ?thesis by (auto simp: grammar_error_def)
qed

text \<open>
  C33: the probes never touch anything and report only grammar: they leave the world (allocations
  included) as it was, the full probe answers OK, SYNTAX or RESOURCE, the prefix probe 1, 0 or -1, and
  what the full probe accepts the prefix probe accepts.
\<close>

theorem probes_pure:
  "\<exists>r i. csh_arith_probe t w checks = Some (r, w) \<and> csh_arith_probe_prefix t w checks = Some (i, w) \<and>
     (r, i) \<in> {(CSH_ARITH_OK, 1), (CSH_ARITH_SYNTAX, 0), (CSH_ARITH_SYNTAX, 1), (CSH_ARITH_RESOURCE, -1)}"
proof (cases t)
  case None
  then show ?thesis by (simp add: csh_arith_probe_def csh_arith_probe_prefix_def)
next
  case (Some x)
  obtain out q where r: "run (fresh_parser x zero_state 0 w checks) False = Some (out, q)"
    by (rule run_Some)
  from run_dry [OF r] have "ap_world q = w" "grammar_error (ap_error q)"
    by (auto simp: fresh_parser_def grammar_error_def)
  with r Some show ?thesis
    by (auto simp: csh_arith_probe_def csh_arith_probe_prefix_def grammar_error_def)
qed

subsection \<open>Rollback\<close>

text \<open>What evaluation may change of the state: variables (with their effects), nothing else.\<close>

definition evaluates :: "arith_parser \<Rightarrow> arith_parser \<Rightarrow> bool" where
  "evaluates p q \<longleftrightarrow> refs (ap_world q) = refs (ap_world p) \<and> finalized (ap_world q) = finalized (ap_world p) \<and>
     (wf_state (ap_state p) \<longrightarrow> wf_state (ap_state q)) \<and>
     ap_state q = (ap_state p)\<lparr>st_variables := st_variables (ap_state q), st_hashes := st_hashes (ap_state q),
       st_getopts_offset := st_getopts_offset (ap_state q)\<rparr>"

lemma state_kept_evaluates: "state_kept p q \<Longrightarrow> evaluates p q"
  by (simp add: state_kept_def evaluates_def)

lemma refresh_categories_refs:
  "refs (refresh_categories s a l cs w) = refs w \<and> finalized (refresh_categories s a l cs w) = finalized w"
  by (induction cs arbitrary: w) (auto simp: Let_def)

lemma refresh_locale_refs [simp]:
  "refs (csh_state_refresh_locale s w) = refs w" "finalized (csh_state_refresh_locale s w) = finalized w"
  by (simp_all add: csh_state_refresh_locale_def refresh_categories_refs)

lemma after_assignment_refs:
  "refs (snd (after_assignment n s w)) = refs w \<and> finalized (snd (after_assignment n s w)) = finalized w"
  by (simp add: after_assignment_def Let_def)

lemma set_variable_evaluates:
  assumes "csh_state_set_variable s name value w = (r, s', w')"
  shows "refs w' = refs w \<and> finalized w' = finalized w \<and> (wf_state s \<longrightarrow> wf_state s') \<and>
    s' = s\<lparr>st_variables := st_variables s', st_hashes := st_hashes s', st_getopts_offset := st_getopts_offset s'\<rparr>"
proof (cases "r = CSH_STATE_OK")
  case False
  with csh_state_set_variable_error [OF assms] show ?thesis by auto
next
  case True
  from assms [unfolded True] have "refs w' = refs w \<and> finalized w' = finalized w \<and>
      s' = s\<lparr>st_variables := st_variables s', st_hashes := st_hashes s', st_getopts_offset := st_getopts_offset s'\<rparr>"
    by (rule csh_state_set_variable_ok) (auto simp: assigned_def after_assignment_refs)
  with csh_state_set_variable_wf [OF _ assms] show ?thesis by blast
qed

lemma update_attributes_evaluates:
  assumes "csh_state_update_attributes s name sets clears w = (r, s', w')"
  shows "refs w' = refs w \<and> finalized w' = finalized w \<and> (wf_state s \<longrightarrow> wf_state s') \<and>
    s' = s\<lparr>st_variables := st_variables s'\<rparr>"
proof -
  have "refs w' = refs w \<and> finalized w' = finalized w \<and> s' = s\<lparr>st_variables := st_variables s'\<rparr>"
    using assms by (auto simp: csh_state_update_attributes_def split: option.splits if_splits prod.splits)
  with csh_state_update_attributes_wf [OF _ assms] show ?thesis by blast
qed

lemma evaluates_trans: "evaluates p q \<Longrightarrow> evaluates q r \<Longrightarrow> evaluates p r"
  unfolding evaluates_def by (cases "ap_state p"; cases "ap_state q"; cases "ap_state r") auto

lemma assign_evaluates: "evaluates p (assign p v x)"
proof -
  let ?n = "case av_name v of None \<Rightarrow> [] | Some n \<Rightarrow> n"
  obtain m q where c: "copy_name p ?n = (m, q)" by (cases "copy_name p ?n") auto
  then have q: "evaluates p q" by (auto dest: copy_name_kept intro: state_kept_evaluates)
  show ?thesis
  proof (cases m)
    case None
    with q show ?thesis by (simp add: assign_def c)
  next
    case (Some name)
    obtain r s w where s: "csh_state_set_variable (ap_state q) (Some name) (Some (show_long x)) (ap_world q) = (r, s, w)"
      by (cases "csh_state_set_variable (ap_state q) (Some name) (Some (show_long x)) (ap_world q)") auto
    obtain r' s' w' where u: "csh_state_update_attributes s (Some name) CSH_VAR_EXPORT 0 w = (r', s', w')"
      by (cases "csh_state_update_attributes s (Some name) CSH_VAR_EXPORT 0 w") auto
    have 1: "evaluates q (q\<lparr>ap_state := s, ap_world := w, ap_error := e\<rparr>)" for e
      using set_variable_evaluates [OF s] by (simp add: evaluates_def)
    have 2: "evaluates q (q\<lparr>ap_state := s', ap_world := w', ap_error := e\<rparr>)" for e
    proof (rule evaluates_trans [OF 1])
      show "evaluates (q\<lparr>ap_state := s, ap_world := w, ap_error := e\<rparr>) (q\<lparr>ap_state := s', ap_world := w', ap_error := e\<rparr>)"
        using update_attributes_evaluates [OF u] by (cases s; cases s') (simp add: evaluates_def)
    qed
    have "\<exists>e. assign p v x = q\<lparr>ap_state := s, ap_world := w, ap_error := e\<rparr> \<or>
        assign p v x = q\<lparr>ap_state := s', ap_world := w', ap_error := e\<rparr>"
      by (cases "r = CSH_STATE_OK \<and> ap_options q AND CSH_OPT_ALLEXPORT \<noteq> 0")
        (auto simp: assign_def c Some s u Let_def intro: exI [of _ "ap_error q"])
    with 1 2 q show ?thesis by (metis evaluates_trans)
  qed
qed

lemma operate_state: "operate p k l r = (x, q) \<Longrightarrow> ap_state q = ap_state p \<and> ap_world q = ap_world p"
  by (auto simp: operate_def split: op_result.splits)

lemma evaluates_same: "ap_state q = ap_state p \<Longrightarrow> ap_world q = ap_world p \<Longrightarrow> evaluates p q"
  by (simp add: evaluates_def)

lemma combine_evaluates:
  assumes "combine p k v l r e = (u, q)"
  shows "evaluates p q"
proof -
  obtain n p1 where o: "operate p (if precedence k = 2 then assignment_operation k else k) l r = (n, p1)"
    by (cases "operate p (if precedence k = 2 then assignment_operation k else k) l r") auto
  have "evaluates p p1" using operate_state [OF o] by (simp add: evaluates_same)
  moreover have "q = p \<or> q = p1 \<or> q = assign p v r \<or> q = assign p1 v n"
    using assms o by (auto simp: combine_def split: if_splits prod.splits)
  ultimately show ?thesis
    using assign_evaluates evaluates_trans evaluates_same by (metis (no_types))
qed

interpretation effect: evaluator_contract "\<lambda>e. evaluates" "\<lambda>_. True" "\<lambda>_. True"
  by unfold_locales
    (auto simp: evaluates_same next_token_frame unexpected_def
      dest: stack_check_frame read_value_kept unary_kept combine_evaluates
      intro: state_kept_evaluates evaluates_trans evaluates_same)

lemma csh_state_save_result:
  assumes "wf_state s" and "refs_room s w" and "csh_state_save s w = (r, cp, w')"
  shows "(r = CSH_STATE_OK \<and> cp = Some s \<and>
      (\<exists>h. w' = w\<lparr>mallocs := h, refs := (\<lambda>i. refs w i + of_nat (occurrences i (st_functions s)))\<rparr>)) \<or>
    (r = CSH_STATE_NOMEM \<and> cp = None \<and> (\<exists>h. w' = w\<lparr>mallocs := h\<rparr>))"
proof (cases "malloc (mallocs w)")
  case (Pair b h)
  have "refs_room s (w\<lparr>mallocs := h\<rparr>)" using assms(2) by (simp add: refs_room_def)
  from csh_state_clone_result [OF assms(1) this, of r cp w'] assms(3) Pair show ?thesis
    by (cases b) (auto simp: csh_state_save_def)
qed

lemma release_balanced:
  assumes "refs_room s w" and "refs w1 = (\<lambda>i. refs w i + of_nat (occurrences i (st_functions s)))"
  shows "refs (release_functions (st_functions s) w1) = refs w \<and>
    finalized (release_functions (st_functions s) w1) = finalized w1"
proof -
  have "release_functions (st_functions s) w1 = w1\<lparr>refs := refs w, mallocs := mallocs w1\<rparr>"
  proof (rule release_retained [where k = "length (st_functions s)" and s = s])
    show "refs_room s (w1\<lparr>refs := refs w\<rparr>)" using assms(1) by (simp add: refs_room_def)
    show "w1 = w1\<lparr>refs := refs w, mallocs := mallocs w1,
        refs := \<lambda>i. refs (w1\<lparr>refs := refs w\<rparr>) i + of_nat (occurrences i (st_functions s))\<rparr>"
      using assms(2) by (cases w1) simp
  qed simp
  then show ?thesis by simp
qed

lemma functions_kept:
  "a = s\<lparr>st_variables := x, st_hashes := y, st_getopts_offset := z\<rparr> \<Longrightarrow> st_functions a = st_functions s"
  by simp

text \<open>The two outcomes of \<open>csh_arith_eval\<close>: no checkpoint, or an evaluation.\<close>

lemma csh_arith_eval_cases:
  assumes "csh_arith_eval s t w checks = Some (r, out, s', w', u)"
  obtains (refused) "r = CSH_ARITH_SYNTAX \<or> r = CSH_ARITH_NOMEM" "out = None" "s' = s" "u = False"
      "w' = w \<or> (\<exists>h. w' = w\<lparr>mallocs := h\<rparr>) \<or>
       (\<exists>h c cp. csh_state_save s (w\<lparr>mallocs := h\<rparr>) = (c, cp, w') \<and> c \<noteq> CSH_STATE_OK)"
    | (evaluated) h cp w1 x q where "t = Some x" "csh_state_save s (w\<lparr>mallocs := h\<rparr>) = (CSH_STATE_OK, cp, w1)"
      "run (fresh_parser x s (si_options (csh_state_get_info s)) w1 checks) True = Some (out, q)"
      "r = ap_error q" "u = ap_undefined q"
      "if r = CSH_ARITH_OK then s' = ap_state q \<and> w' = csh_state_checkpoint_destroy cp (ap_world q)
       else (\<exists>c. csh_state_restore (ap_state q) cp (ap_world q) = (c, s', w'))"
proof (cases t)
  case None
  with assms show ?thesis by (intro refused) (auto simp: csh_arith_eval_def)
next
  case (Some x)
  obtain b h where m: "malloc (mallocs w) = (b, h)" by (cases "malloc (mallocs w)")
  obtain c cp w1 where s: "csh_state_save s (w\<lparr>mallocs := h\<rparr>) = (c, cp, w1)"
    by (cases "csh_state_save s (w\<lparr>mallocs := h\<rparr>)") auto
  show ?thesis
  proof (cases "length x = SIZE_MAX \<or> \<not> b \<or> c \<noteq> CSH_STATE_OK")
    case True
    then consider "length x = SIZE_MAX" | "length x \<noteq> SIZE_MAX" "\<not> b" | "length x \<noteq> SIZE_MAX" "b" "c \<noteq> CSH_STATE_OK" by blast
    then show ?thesis
    proof cases
      case 1
      with assms Some show ?thesis by (intro refused) (auto simp: csh_arith_eval_def)
    next
      case 2
      with assms Some m show ?thesis by (intro refused) (auto simp: csh_arith_eval_def)
    next
      case 3
      with assms Some m s show ?thesis
        by (cases c; intro refused) (auto simp: csh_arith_eval_def)
    qed
  next
    case False
    obtain out' q where run: "run (fresh_parser x s (si_options (csh_state_get_info s)) w1 checks) True = Some (out', q)"
      by (rule run_Some)
    obtain d e f where res: "csh_state_restore (ap_state q) cp (ap_world q) = (d, e, f)"
      by (cases "csh_state_restore (ap_state q) cp (ap_world q)") auto
    have "(r, out, s', w', u) =
        (if ap_error q = CSH_ARITH_OK
         then (CSH_ARITH_OK, out', ap_state q, csh_state_checkpoint_destroy cp (ap_world q), ap_undefined q)
         else (ap_error q, out', e, f, ap_undefined q))"
      using assms Some m s False run res by (auto simp: csh_arith_eval_def split: if_splits)
    with run res s False Some show ?thesis by (intro evaluated) (auto split: if_splits)
  qed
qed

lemma run_result:
  assumes "run p execute = Some (out, q)"
  obtains v r where
    "if ap_token (next_token p) = TOK_END then v = zero_value \<and> r = next_token p
     else expression (arith_fuel (ap_next p)) (next_token p) 1 execute = Some (v, r)"
    "ap_error r \<noteq> CSH_ARITH_OK \<and> q = r \<and> out = None \<or>
     ap_error r = CSH_ARITH_OK \<and> ap_token r \<noteq> TOK_END \<and> q = r\<lparr>ap_error := CSH_ARITH_SYNTAX\<rparr> \<and> out = None \<or>
     ap_error r = CSH_ARITH_OK \<and> ap_token r = TOK_END \<and>
       (\<exists>n. read_value r v execute = (n, q) \<and> out = (if ap_error q = CSH_ARITH_OK then Some n else None))"
proof (rule run_cases [of p execute])
  fix v r
  assume e: "if ap_token (next_token p) = TOK_END then v = zero_value \<and> r = next_token p
     else expression (arith_fuel (ap_next p)) (next_token p) 1 execute = Some (v, r)"
    and run: "run p execute =
       (let q = (if ap_error r = CSH_ARITH_OK \<and> ap_token r \<noteq> TOK_END then r\<lparr>ap_error := CSH_ARITH_SYNTAX\<rparr> else r)
        in if ap_error q = CSH_ARITH_OK then
             (case read_value q v execute of
                (number, q) \<Rightarrow> Some (if ap_error q = CSH_ARITH_OK then Some number else None, q))
           else Some (None, q))"
  obtain n r' where n: "read_value r v execute = (n, r')" by (cases "read_value r v execute")
  show thesis
    by (rule that [OF e])
      (use run n assms in \<open>cases "ap_error r = CSH_ARITH_OK"; cases "ap_token r = TOK_END"; simp add: Let_def\<close>)
qed

lemma run_evaluates:
  assumes "run p execute = Some (out, q)"
  shows "evaluates p q" and "ap_undefined q \<longrightarrow> ap_undefined p"
    and "(out \<noteq> None) = (ap_error q = CSH_ARITH_OK)" and "\<forall>n. out = Some n \<longrightarrow> in_long n"
  using assms
proof -
  have "evaluates p q \<and> (ap_undefined q \<longrightarrow> ap_undefined p) \<and> (out \<noteq> None) = (ap_error q = CSH_ARITH_OK) \<and>
      (\<forall>n. out = Some n \<longrightarrow> in_long n)"
    using assms
  proof (rule run_result)
    fix v r
    assume e: "if ap_token (next_token p) = TOK_END then v = zero_value \<and> r = next_token p
       else expression (arith_fuel (ap_next p)) (next_token p) 1 execute = Some (v, r)"
    assume q: "ap_error r \<noteq> CSH_ARITH_OK \<and> q = r \<and> out = None \<or>
     ap_error r = CSH_ARITH_OK \<and> ap_token r \<noteq> TOK_END \<and> q = r\<lparr>ap_error := CSH_ARITH_SYNTAX\<rparr> \<and> out = None \<or>
     ap_error r = CSH_ARITH_OK \<and> ap_token r = TOK_END \<and>
       (\<exists>n. read_value r v execute = (n, q) \<and> out = (if ap_error q = CSH_ARITH_OK then Some n else None))"
    have n: "evaluates p (next_token p)" "stays_defined p (next_token p)"
      by (simp_all add: evaluates_same next_token_frame stays_defined_def)
    have r: "evaluates p r" "stays_defined p r" "long_value v"
      using e n effect.expression_R defined.expression_R defined.zero_V(1)
      by (auto split: if_splits intro: evaluates_trans defined.trans)
    from q show ?thesis
    proof (elim disjE conjE exE)
      assume "ap_error r \<noteq> CSH_ARITH_OK" "q = r" "out = None"
      with r show ?thesis by (simp add: stays_defined_def)
    next
      assume "q = r\<lparr>ap_error := CSH_ARITH_SYNTAX\<rparr>" "out = None"
      with r show ?thesis by (simp add: evaluates_def stays_defined_def)
    next
      fix m
      assume m: "read_value r v execute = (m, q)" and out: "out = (if ap_error q = CSH_ARITH_OK then Some m else None)"
      have "evaluates r q" using m by (auto dest: read_value_kept intro: state_kept_evaluates)
      with r(1) have "evaluates p q" by (rule evaluates_trans)
      moreover have "stays_defined r q \<and> in_long m" using read_value_long [OF m r(3)] .
      ultimately show ?thesis using r(2) out by (simp add: stays_defined_def)
    qed
  qed
  then show "evaluates p q" "ap_undefined q \<longrightarrow> ap_undefined p" "(out \<noteq> None) = (ap_error q = CSH_ARITH_OK)"
    "\<forall>n. out = Some n \<longrightarrow> in_long n" by blast+
qed


text \<open>
  C29: evaluation is all or nothing. If it fails in any way (syntax, range, memory, a read-only
  variable, the stack) after any number of assignments, the state is exactly the one before and no
  number is stored; if it succeeds, only variables (with the path cache and the \<open>getopts\<close>
  position that follow them) can differ and the state is well-formed. No function reference is
  gained or lost either way.
\<close>

theorem arithmetic_rollback:
  assumes "wf_state s" and "refs_room s w" and "csh_arith_eval s t w checks = Some (r, out, s', w', u)"
  shows "(r \<noteq> CSH_ARITH_OK \<longrightarrow> s' = s \<and> out = None) \<and> wf_state s' \<and>
    s' = s\<lparr>st_variables := st_variables s', st_hashes := st_hashes s', st_getopts_offset := st_getopts_offset s'\<rparr> \<and>
    refs w' = refs w \<and> finalized w' = finalized w"
  using assms(3)
proof (cases rule: csh_arith_eval_cases)
  case refused
  have "refs w' = refs w \<and> finalized w' = finalized w"
    using refused(5)
  proof (elim disjE exE conjE)
    fix h c cp
    assume s: "csh_state_save s (w\<lparr>mallocs := h\<rparr>) = (c, cp, w')" and c: "c \<noteq> CSH_STATE_OK"
    have "refs_room s (w\<lparr>mallocs := h\<rparr>)" using assms(2) by (simp add: refs_room_def)
    from csh_state_save_result [OF assms(1) this s] c show ?thesis by auto
  qed auto
  with refused assms(1) show ?thesis by auto
next
  case (evaluated h cp w1 x q)
  have room: "refs_room s (w\<lparr>mallocs := h\<rparr>)" using assms(2) by (simp add: refs_room_def)
  from csh_state_save_result [OF assms(1) room evaluated(2)] have cp: "cp = Some s"
    and w1: "refs w1 = (\<lambda>i. refs w i + of_nat (occurrences i (st_functions s)))" "finalized w1 = finalized w" by auto
  have ev: "wf_state (ap_state q)"
    "ap_state q = s\<lparr>st_variables := st_variables (ap_state q), st_hashes := st_hashes (ap_state q),
       st_getopts_offset := st_getopts_offset (ap_state q)\<rparr>"
    "refs (ap_world q) = refs w1" "finalized (ap_world q) = finalized w1"
    using run_evaluates(1) [OF evaluated(3)] assms(1) by (auto simp: evaluates_def fresh_parser_def)
  have f: "st_functions (ap_state q) = st_functions s" using ev(2) by (rule functions_kept)
  note bal = release_balanced [OF assms(2), of "ap_world q"]
  show ?thesis
  proof (cases "r = CSH_ARITH_OK")
    case True
    with evaluated(6) cp have "s' = ap_state q" "w' = release_functions (st_functions s) (ap_world q)"
      by (auto simp: csh_state_checkpoint_destroy_def csh_state_destroy_def)
    with True ev bal w1 show ?thesis by auto
  next
    case False
    with evaluated(6) cp f have "s' = s"
      "w' = csh_state_refresh_locale s (release_functions (st_functions s) (ap_world q))"
      by (auto simp: csh_state_restore_def csh_state_checkpoint_destroy_def csh_state_destroy_def)
    moreover have "out = None" using run_evaluates(3) [OF evaluated(3)] False evaluated(4) by auto
    ultimately show ?thesis using assms(1) ev bal w1 by auto
  qed
qed

lemmas arith_evaluate = run_def fresh_parser_def next_token_def operators_def word_byte_def name_start_def digit_def
  space_def less_eq_char_def Let_def csh_stack_check_def lexeme_def literal_def literal_value_def digit_value_def
  literal_limit_def LONG_MAX_def LONG_MIN_def expression_loop.simps(2) precedence_def read_value_def combine_def operate_def
  operation_def zero_value_def assign_def copy_name_def show_long_def show_nat.simps

lemma fuel_rollback:
  "arith_fuel ''y=1,1/0'' = Suc (Suc (Suc (Suc (Suc (Suc (Suc (Suc (Suc (Suc (Suc (Suc (Suc (Suc (Suc (Suc (Suc (Suc 0)))))))))))))))))"
  by (simp add: arith_fuel_def)

lemma save_sample:
  "csh_state_save sample_state sample_world =
     (CSH_STATE_OK, Some sample_state, sample_world\<lparr>refs := (\<lambda>i. if i = 7 then 2 else 1)\<rparr>)"
  by (simp add: csh_state_save_def clone_evaluate fun_eq_iff)

lemma rollback_run:
  assumes "find_variable s ''y'' = None" and "mallocs w = []"
  shows "\<exists>q. run (fresh_parser ''y=1,1/0'' s 0 w []) True = Some (None, q) \<and> ap_error q = CSH_ARITH_RANGE"
proof -
  obtain w' where set: "csh_state_set_variable s (Some ''y'') (Some ''1'') (w\<lparr>mallocs := []\<rparr>) =
      (CSH_STATE_OK, assigned s ''y'' ''1'', w')"
    using csh_state_set_variable_reliable [of "''y''" s "w\<lparr>mallocs := []\<rparr>" "''1''"] assms
    by (auto simp: readonly_def valid_name_def name_start_def less_eq_char_def SIZE_MAX_def)
  show ?thesis
    using set assms(2) by (simp add: arith_evaluate fuel_rollback char_of_def bit_0)
qed

lemma rollback_sample:
  "\<exists>w' u. csh_arith_eval sample_state (Some ''y=1,1/0'') sample_world [] = Some (CSH_ARITH_RANGE, None, sample_state, w', u)"
proof -
  have s: "find_variable sample_state ''y'' = None" "si_options (csh_state_get_info sample_state) = 0"
    by (simp_all add: find_variable_def sample_state_def zero_state_def zero_info_def csh_state_get_info_def)
  let ?w = "sample_world\<lparr>refs := (\<lambda>i. if i = 7 then 2 else 1)\<rparr>"
  have w: "mallocs ?w = []" "sample_world\<lparr>mallocs := []\<rparr> = sample_world" "malloc (mallocs sample_world) = (True, [])"
    by (simp_all add: sample_world_def)
  obtain q where "run (fresh_parser ''y=1,1/0'' sample_state 0 ?w []) True = Some (None, q)" "ap_error q = CSH_ARITH_RANGE"
    using rollback_run [OF s(1) w(1)] by blast
  moreover have "csh_state_save sample_state (sample_world\<lparr>mallocs := []\<rparr>) = (CSH_STATE_OK, Some sample_state, ?w)"
    unfolding w(2) by (rule save_sample)
  ultimately show ?thesis
    using s w(3) by (simp add: csh_arith_eval_def SIZE_MAX_def csh_state_restore_def)
qed


theorem arithmetic_rollback_witness:
  "\<exists>s' w' u. csh_arith_eval sample_state (Some ''y=1,1/0'') sample_world [] = Some (CSH_ARITH_RANGE, None, s', w', u) \<and>
     s' = sample_state \<and> refs w' = refs sample_world"
proof -
  obtain s' w' u where e: "csh_arith_eval sample_state (Some ''y=1,1/0'') sample_world [] = Some (CSH_ARITH_RANGE, None, s', w', u)"
    using rollback_sample by blast
  from arithmetic_rollback [OF sample_wf sample_room e] e show ?thesis by auto
qed

end
