(* ===== verification/Arithmetic_Semantics.thy ===== *)
theory Arithmetic_Semantics
  imports Arithmetic_Facts
begin

text \<open>
  The evaluator of \<open>src/arithmetic.c\<close> against a reference semantics: a big-step reading of the
  three recursive functions that hides the fuel, the spelling of an expression tree as text, and the
  trees with their reference semantics: values, assignments, short circuits
  and errors.
\<close>

subsection \<open>Big steps\<close>

declare expression.simps(2) [simp del]

text \<open>More fuel never changes a result.\<close>

lemma fuel_step:
  shows primary_mono: "primary fuel p x = Some r \<Longrightarrow> primary (Suc fuel) p x = Some r"
    and expression_mono: "expression fuel p m x = Some r \<Longrightarrow> expression (Suc fuel) p m x = Some r"
    and loop_mono: "expression_loop fuel p m x left = Some r \<Longrightarrow> expression_loop (Suc fuel) p m x left = Some r"
proof (induction fuel arbitrary: p m x left r)
  case 0
  {
    case 1
    then show ?case by simp
  next
    case 2
    then show ?case by simp
  next
    case 3
    then show ?case by simp
  }
next
  case (Suc fuel)
  {
    case (1 p x r)
    show ?case
    proof (cases "ap_token p = TOK_LPAREN")
      case True
      with 1 obtain v q where e: "expression fuel (next_token p) 1 x = Some (v, q)" by (auto split: option.splits)
      have "primary (Suc (Suc fuel)) p x = primary (Suc fuel) p x" using True e Suc.IH(2) [OF e] by simp
      with 1 show ?thesis by simp
    next
      case False
      show ?thesis
      proof (cases "ap_token p \<in> {TOK_ADD, TOK_SUB, TOK_NOT, TOK_INV}")
        case True
        with 1 obtain v q where e: "expression fuel (next_token p) 14 x = Some (v, q)" by (auto split: option.splits)
        have "primary (Suc (Suc fuel)) p x = primary (Suc fuel) p x" using True e Suc.IH(2) [OF e] by auto
        with 1 show ?thesis by simp
      next
        case other: False
        have "primary (Suc (Suc fuel)) p x = primary (Suc fuel) p x" using False other by (cases "ap_token p") simp_all
        with 1 show ?thesis by simp
      qed
    qed
  next
    case (2 p m x r)
    show ?case
    proof (cases "ap_error p \<noteq> CSH_ARITH_OK \<or> \<not> fst (csh_stack_check p)")
      case True
      with 2 show ?thesis by (auto simp: expression.simps(2) split: prod.splits)
    next
      case False
      then obtain q where q: "csh_stack_check p = (True, q)" "ap_error p = CSH_ARITH_OK" by (cases "csh_stack_check p") auto
      with 2 obtain v s where p: "primary fuel q x = Some (v, s)" and l: "expression_loop fuel s m x v = Some r"
        by (auto simp: expression.simps(2) split: option.splits)
      from Suc.IH(1) [OF p] Suc.IH(3) [OF l] q show ?thesis by (simp add: expression.simps(2) del: primary.simps)
    qed
  next
    case (3 p m x left r)
    obtain lhs q where lhs: "read_left p left x = (lhs, q)" by (cases "read_left p left x") auto
    consider (stop) "stops p m" | (target) "\<not> stops p m" "no_target p left"
      | (question) "\<not> stops p m" "\<not> no_target p left" "ap_token p = TOK_QUESTION"
      | (binary) "\<not> stops p m" "\<not> no_target p left" "ap_token p \<noteq> TOK_QUESTION" by blast
    then show ?case
    proof cases
      case stop
      with 3 show ?thesis by (simp add: loop_stops)
    next
      case target
      with 3 show ?thesis by (simp add: loop_no_target)
    next
      case question
      note run = 3 [unfolded loop_question [OF question lhs]]
      from run obtain s1 r1 where e1: "expression fuel q 1 (x \<and> lhs \<noteq> 0) = Some (s1, r1)"
        by (auto split: option.splits)
      obtain yes r2 where y: "read_value r1 s1 (x \<and> lhs \<noteq> 0) = (yes, r2)"
        by (cases "read_value r1 s1 (x \<and> lhs \<noteq> 0)") auto
      note eqs = Suc.IH(2) [OF e1] y
      show ?thesis
      proof (cases "ap_error r2 \<noteq> CSH_ARITH_OK \<or> ap_token r2 \<noteq> TOK_COLON")
        case True
        with run e1 y have "r = (if ap_error r2 \<noteq> CSH_ARITH_OK then (left, r2) else (left, unexpected r2))"
          by (auto split: if_splits)
        with True show ?thesis unfolding loop_question [OF question lhs] using eqs
          by auto
      next
        case False
        with run e1 y obtain s3 r3 where
          e3: "expression fuel (next_token r2) (precedence TOK_QUESTION) (x \<and> lhs = 0) = Some (s3, r3)"
          by (auto split: option.splits)
        obtain no r4 where z: "read_value r3 s3 (x \<and> lhs = 0) = (no, r4)"
          by (cases "read_value r3 s3 (x \<and> lhs = 0)") auto
        have l: "expression_loop fuel r4 m x (zero_value\<lparr>av_number := (if lhs \<noteq> 0 then yes else no)\<rparr>) = Some r"
          using run e1 y False e3 z by simp
        show ?thesis unfolding loop_question [OF question lhs]
          using eqs False Suc.IH(2) [OF e3] z Suc.IH(3) [OF l] by simp
      qed
    next
      case binary
      note run = 3 [unfolded loop_binary [OF binary lhs]]
      let ?x = "right_runs (ap_token p) lhs x"
      from run obtain s1 r1 where e1: "expression fuel q (right_minimum (ap_token p)) ?x = Some (s1, r1)"
        by (auto split: option.splits)
      obtain rhs r2 where y: "read_value r1 s1 ?x = (rhs, r2)" by (cases "read_value r1 s1 ?x") auto
      obtain u r3 where c: "combine r2 (ap_token p) left lhs rhs x = (u, r3)"
        by (cases "combine r2 (ap_token p) left lhs rhs x") auto
      have l: "expression_loop fuel r3 m x u = Some r" using run e1 y c by simp
      show ?thesis unfolding loop_binary [OF binary lhs]
        using Suc.IH(2) [OF e1] y c Suc.IH(3) [OF l] by simp
    qed
  }
qed

definition Prim :: "arith_parser \<Rightarrow> bool \<Rightarrow> arith_value \<Rightarrow> arith_parser \<Rightarrow> bool" where
  "Prim p x v q \<longleftrightarrow> (\<exists>fuel. primary fuel p x = Some (v, q))"

definition Expr :: "arith_parser \<Rightarrow> nat \<Rightarrow> bool \<Rightarrow> arith_value \<Rightarrow> arith_parser \<Rightarrow> bool" where
  "Expr p m x v q \<longleftrightarrow> (\<exists>fuel. expression fuel p m x = Some (v, q))"

definition Loop :: "arith_parser \<Rightarrow> nat \<Rightarrow> bool \<Rightarrow> arith_value \<Rightarrow> arith_value \<Rightarrow> arith_parser \<Rightarrow> bool" where
  "Loop p m x left v q \<longleftrightarrow> (\<exists>fuel. expression_loop fuel p m x left = Some (v, q))"

lemma fuel_up:
  assumes "a \<le> b"
  shows "primary a p x = Some r \<Longrightarrow> primary b p x = Some r"
    and "expression a p m x = Some r \<Longrightarrow> expression b p m x = Some r"
    and "expression_loop a p m x left = Some r \<Longrightarrow> expression_loop b p m x left = Some r"
proof -
  show "primary a p x = Some r \<Longrightarrow> primary b p x = Some r"
    using assms by (induction b rule: dec_induct) (simp, blast intro: primary_mono)
  show "expression a p m x = Some r \<Longrightarrow> expression b p m x = Some r"
    using assms by (induction b rule: dec_induct) (simp, blast intro: expression_mono)
  show "expression_loop a p m x left = Some r \<Longrightarrow> expression_loop b p m x left = Some r"
    using assms by (induction b rule: dec_induct) (simp, blast intro: loop_mono)
qed

lemma ExprI:
  assumes "ap_error p = CSH_ARITH_OK" and "csh_stack_check p = (True, q)" and "Prim q x v r" and "Loop r m x v u s"
  shows "Expr p m x u s"
proof -
  obtain a where a: "primary a q x = Some (v, r)" using assms(3) by (auto simp: Prim_def)
  obtain b where b: "expression_loop b r m x v = Some (u, s)" using assms(4) by (auto simp: Loop_def)
  have "primary (max a b) q x = Some (v, r)" "expression_loop (max a b) r m x v = Some (u, s)"
    using fuel_up(1) [OF _ a] fuel_up(3) [OF _ b] by auto
  then have "expression (Suc (max a b)) p m x = Some (u, s)" using assms(1,2) by (simp add: expression.simps(2))
  then show ?thesis unfolding Expr_def by blast
qed

lemma Loop_stops: "stops p m \<Longrightarrow> Loop p m x v v p"
  unfolding Loop_def using loop_stops by blast

lemma Expr_error: "ap_error p \<noteq> CSH_ARITH_OK \<Longrightarrow> Expr p m x zero_value p"
  unfolding Expr_def by (rule exI [of _ "Suc 0"]) (simp add: expression.simps(2))

lemma LoopI_binary:
  assumes "\<not> stops p m" and "\<not> no_target p left" and "ap_token p \<noteq> TOK_QUESTION"
    and "read_left p left x = (lhs, q)"
    and "Expr q (right_minimum (ap_token p)) (right_runs (ap_token p) lhs x) right r"
    and "read_value r right (right_runs (ap_token p) lhs x) = (rhs, s)"
    and "combine s (ap_token p) left lhs rhs x = (u, t)" and "Loop t m x u v z"
  shows "Loop p m x left v z"
proof -
  obtain a where a: "expression a q (right_minimum (ap_token p)) (right_runs (ap_token p) lhs x) = Some (right, r)"
    using assms(5) by (auto simp: Expr_def)
  obtain b where b: "expression_loop b t m x u = Some (v, z)" using assms(8) by (auto simp: Loop_def)
  have "expression (max a b) q (right_minimum (ap_token p)) (right_runs (ap_token p) lhs x) = Some (right, r)"
    "expression_loop (max a b) t m x u = Some (v, z)"
    using fuel_up(2) [OF _ a] fuel_up(3) [OF _ b] by auto
  then have "expression_loop (Suc (max a b)) p m x left = Some (v, z)"
    unfolding loop_binary [OF assms(1-4)] using assms(6,7) by simp
  then show ?thesis unfolding Loop_def by blast
qed

lemma LoopI_question:
  assumes "\<not> stops p m" and "ap_token p = TOK_QUESTION" and "read_left p left x = (lhs, q)"
    and "Expr q 1 (x \<and> lhs \<noteq> 0) s1 r1" and "read_value r1 s1 (x \<and> lhs \<noteq> 0) = (yes, r2)"
    and "ap_error r2 = CSH_ARITH_OK" and "ap_token r2 = TOK_COLON"
    and "Expr (next_token r2) 3 (x \<and> lhs = 0) s3 r3" and "read_value r3 s3 (x \<and> lhs = 0) = (no, r4)"
    and "Loop r4 m x (zero_value\<lparr>av_number := (if lhs \<noteq> 0 then yes else no)\<rparr>) v z"
  shows "Loop p m x left v z"
proof -
  have nt: "\<not> no_target p left" using assms(2) by (simp add: no_target_def)
  obtain a where a: "expression a q 1 (x \<and> lhs \<noteq> 0) = Some (s1, r1)" using assms(4) by (auto simp: Expr_def)
  obtain b where b: "expression b (next_token r2) 3 (x \<and> lhs = 0) = Some (s3, r3)" using assms(8) by (auto simp: Expr_def)
  obtain c where c: "expression_loop c r4 m x (zero_value\<lparr>av_number := (if lhs \<noteq> 0 then yes else no)\<rparr>) = Some (v, z)"
    using assms(10) by (auto simp: Loop_def)
  let ?n = "max a (max b c)"
  have "expression ?n q 1 (x \<and> lhs \<noteq> 0) = Some (s1, r1)" "expression ?n (next_token r2) 3 (x \<and> lhs = 0) = Some (s3, r3)"
    "expression_loop ?n r4 m x (zero_value\<lparr>av_number := (if lhs \<noteq> 0 then yes else no)\<rparr>) = Some (v, z)"
    using fuel_up(2) [OF _ a, of ?n] fuel_up(2) [OF _ b, of ?n] fuel_up(3) [OF _ c, of ?n] by simp_all
  then have "expression_loop (Suc ?n) p m x left = Some (v, z)"
    unfolding loop_question [OF assms(1) nt assms(2,3)] using assms(5-7,9) by simp
  then show ?thesis unfolding Loop_def by blast
qed

lemma LoopI_question_error:
  assumes "\<not> stops p m" and "ap_token p = TOK_QUESTION" and "read_left p left x = (lhs, q)"
    and "Expr q 1 (x \<and> lhs \<noteq> 0) s1 r1" and "read_value r1 s1 (x \<and> lhs \<noteq> 0) = (yes, r2)"
    and "ap_error r2 \<noteq> CSH_ARITH_OK"
  shows "Loop p m x left left r2"
proof -
  have nt: "\<not> no_target p left" using assms(2) by (simp add: no_target_def)
  obtain a where a: "expression a q 1 (x \<and> lhs \<noteq> 0) = Some (s1, r1)" using assms(4) by (auto simp: Expr_def)
  then have "expression_loop (Suc a) p m x left = Some (left, r2)"
    unfolding loop_question [OF assms(1) nt assms(2,3)] using assms(5,6) by simp
  then show ?thesis unfolding Loop_def by blast
qed

lemma PrimI_paren:
  assumes "ap_token p = TOK_LPAREN" and "Expr (next_token p) 1 x v q"
  shows "Prim p x v (if ap_error q = CSH_ARITH_OK then (if ap_token q \<noteq> TOK_RPAREN then unexpected q else next_token q) else q)"
proof -
  obtain a where "expression a (next_token p) 1 x = Some (v, q)" using assms(2) by (auto simp: Expr_def)
  then show ?thesis using assms(1) unfolding Prim_def by (intro exI [of _ "Suc a"]) simp
qed

lemma PrimI_unary:
  assumes "ap_token p \<in> {TOK_ADD, TOK_SUB, TOK_NOT, TOK_INV}" and "Expr (next_token p) 14 x v q"
    and "unary q (ap_token p) v x = (u, r)"
  shows "Prim p x u r"
proof -
  obtain a where "expression a (next_token p) 14 x = Some (v, q)" using assms(2) by (auto simp: Expr_def)
  then show ?thesis using assms(1,3) unfolding Prim_def by (intro exI [of _ "Suc a"]) auto
qed

lemma PrimI_number: "ap_token p = TOK_NUMBER \<Longrightarrow> literal (lexeme p) = Some v \<Longrightarrow> Prim p x v (next_token p)"
  unfolding Prim_def by (intro exI [of _ "Suc 0"]) simp

lemma PrimI_name: "ap_token p = TOK_NAME \<Longrightarrow> Prim p x (zero_value\<lparr>av_name := Some (lexeme p)\<rparr>) (next_token p)"
  unfolding Prim_def by (intro exI [of _ "Suc 0"]) simp

subsection \<open>Tokens as text\<close>

type_synonym lexical = "token \<times> string"

text \<open>Every token after a blank; what the tokenizer then sees.\<close>

definition render :: "lexical list \<Rightarrow> string" where
  "render ts = concat (map (\<lambda>(k, l). CHR '' '' # l) ts)"

definition lexical_ok :: "lexical \<Rightarrow> bool" where
  "lexical_ok t =
     (case t of (k, l) \<Rightarrow>
        k = TOK_NUMBER \<and> l \<noteq> [] \<and> digit (hd l) \<and> list_all word_byte l \<or>
        k = TOK_NAME \<and> valid_name l \<or>
        k \<noteq> TOK_BAD \<and> (l, k) \<in> set operators)"

definition position_at :: "arith_parser \<Rightarrow> lexical list \<Rightarrow> bool" where
  "position_at p ts =
     (case ts of
        [] \<Rightarrow> ap_token p = TOK_END \<and> ap_next p = []
      | (k, l) # ts \<Rightarrow> ap_token p = k \<and> lexeme p = l \<and> ap_next p = render ts)"

lemma render_simps [simp]: "render [] = []" "render ((k, l) # ts) = CHR '' '' # l @ render ts"
  by (simp_all add: render_def)

lemma render_front: "render ts = [] \<or> (\<exists>r. render ts = CHR '' '' # r)"
  by (cases ts) auto

lemma blank_facts [simp]: "space CHR '' ''" "\<not> word_byte CHR '' ''"
  by (simp_all add: space_def word_byte_def name_start_def digit_def less_eq_char_def)

lemma word_byte_not_space: "word_byte c \<Longrightarrow> \<not> space c"
  by (auto simp: space_def word_byte_def name_start_def digit_def less_eq_char_def)

lemma takeWhile_word:
  assumes "list_all word_byte l"
  shows "takeWhile word_byte (l @ render ts) = l" and "dropWhile word_byte (l @ render ts) = render ts"
  using assms render_front [of ts] by (induction l) auto

lemma name_start_facts: "name_start c \<Longrightarrow> word_byte c \<and> \<not> digit c"
  by (auto simp: word_byte_def name_start_def digit_def less_eq_char_def)

lemma valid_name_word: "valid_name l \<Longrightarrow> l \<noteq> [] \<and> \<not> digit (hd l) \<and> list_all word_byte l"
  using name_start_facts by (cases l) (auto simp: valid_name_def list_all_iff word_byte_def digit_def)

lemma next_token_word:
  assumes "ap_next p = CHR '' '' # l @ render ts" and "l \<noteq> []" and "list_all word_byte l"
  shows "next_token p = p\<lparr>ap_start := l @ render ts, ap_length := length l,
    ap_token := (if digit (hd l) then TOK_NUMBER else TOK_NAME), ap_next := render ts\<rparr>"
proof -
  obtain c cs where l: "l = c # cs" using assms(2) by (cases l) auto
  with assms(3) have c: "word_byte c" "list_all word_byte cs" by auto
  have "dropWhile space (ap_next p) = c # cs @ render ts"
    using assms(1) l word_byte_not_space [OF c(1)] by simp
  from next_token_cases(2) [OF this c(1)] takeWhile_word [OF c(2), of ts] l show ?thesis by simp
qed

lemma operator_first: "(l, k) \<in> set operators \<Longrightarrow> l \<noteq> [] \<and> \<not> space (hd l) \<and> \<not> word_byte (hd l)"
  by (auto simp: operators_def space_def word_byte_def name_start_def digit_def less_eq_char_def)

lemma operators_found:
  "list_all (\<lambda>(l, k). find (\<lambda>(t, k). take (length t) l = t) operators = Some (l, k)) operators"
  "list_all (\<lambda>(l, k). find (\<lambda>(t, k). take (length t) (l @ CHR '' '' # r) = t) operators = Some (l, k)) operators"
  by (simp_all add: operators_def)

lemma operator_found:
  assumes "(l, k) \<in> set operators" and "r = [] \<or> (\<exists>r'. r = CHR '' '' # r')"
  shows "find (\<lambda>(t, k). take (length t) (l @ r) = t) operators = Some (l, k)"
  using assms operators_found by (force simp: list_all_iff)

lemma next_token_operator:
  assumes "ap_next p = CHR '' '' # l @ render ts" and "(l, k) \<in> set operators"
  shows "next_token p = p\<lparr>ap_start := l @ render ts, ap_length := length l, ap_token := k, ap_next := render ts\<rparr>"
proof -
  obtain c cs where l: "l = c # cs" and c: "\<not> space c" "\<not> word_byte c"
    using operator_first [OF assms(2)] by (cases l) auto
  have d: "dropWhile space (ap_next p) = c # cs @ render ts" using assms(1) l c by simp
  from next_token_cases(3) [OF d c(2)] operator_found [OF assms(2) render_front [of ts]] l show ?thesis by simp
qed

lemma next_token_position:
  assumes "ap_next p = render ts" and "\<forall>t\<in>set ts. lexical_ok t"
  shows "position_at (next_token p) ts"
proof (cases ts)
  case Nil
  with assms(1) next_token_cases(1) [of p] show ?thesis by (simp add: position_at_def)
next
  case (Cons t ts')
  obtain k l where t: "t = (k, l)" by (cases t)
  have n: "ap_next p = CHR '' '' # l @ render ts'" using assms(1) Cons t by simp
  have "lexical_ok (k, l)" using assms(2) Cons t by simp
  then consider "k = TOK_NUMBER" "l \<noteq> []" "digit (hd l)" "list_all word_byte l"
    | "k = TOK_NAME" "valid_name l" | "(l, k) \<in> set operators" by (auto simp: lexical_ok_def)
  then show ?thesis
  proof cases
    case 1
    with next_token_word [OF n] Cons t show ?thesis by (simp add: position_at_def lexeme_def)
  next
    case 2
    with next_token_word [OF n] valid_name_word [OF 2(2)] Cons t show ?thesis by (simp add: position_at_def lexeme_def)
  next
    case 3
    with next_token_operator [OF n] Cons t show ?thesis by (simp add: position_at_def lexeme_def)
  qed
qed

text \<open>Stepping over the current token.\<close>

lemma position_next:
  assumes "position_at p (t # ts)" and "\<forall>t\<in>set ts. lexical_ok t"
  shows "position_at (next_token p) ts"
  using assms by (intro next_token_position) (auto simp: position_at_def split: prod.splits)

definition spell :: "token \<Rightarrow> string" where
  "spell k = (case find (\<lambda>(t, j). j = k) operators of Some (t, j) \<Rightarrow> t | None \<Rightarrow> [])"

lemma spell_operator: "k \<noteq> TOK_END \<Longrightarrow> k \<noteq> TOK_NUMBER \<Longrightarrow> k \<noteq> TOK_NAME \<Longrightarrow> (spell k, k) \<in> set operators"
  by (cases k) (simp_all add: spell_def operators_def)

subsection \<open>Expressions and their meaning\<close>

text \<open>The abstract syntax of the supported integer expressions of C, its reference semantics over
  the shell state, and its spelling with the least parentheses.\<close>

datatype aexp =
  Const nat
| Variable string
| Unary token aexp
| Binary token aexp aexp
| Assignment token string aexp
| Conditional aexp aexp aexp

definition get_number :: "csh_state \<Rightarrow> string \<Rightarrow> csh_arith_result + int" where
  "get_number s x =
     (case (case find_variable s x of None \<Rightarrow> None | Some v \<Rightarrow> v_value v) of
        Some t \<Rightarrow> read_text t
      | None \<Rightarrow> if si_options (st_info s) AND CSH_OPT_NOUNSET \<noteq> 0 then Inl CSH_ARITH_SYNTAX else Inr 0)"

definition put_number :: "csh_state \<Rightarrow> string \<Rightarrow> int \<Rightarrow> csh_arith_result + int \<times> csh_state" where
  "put_number s x n =
     (if readonly s x then Inl CSH_ARITH_READONLY else Inr (n, assigned s x (show_long n)))"

definition apply_operator :: "token \<Rightarrow> int \<Rightarrow> int \<Rightarrow> csh_arith_result + int" where
  "apply_operator k l r =
     (case exact_operation k l r of
        Some x \<Rightarrow> if in_long x then Inr x else Inl CSH_ARITH_RANGE
      | None \<Rightarrow> Inl CSH_ARITH_RANGE)"

definition apply_unary :: "token \<Rightarrow> int \<Rightarrow> int" where
  "apply_unary k n =
     (if k = TOK_SUB then - n else if k = TOK_NOT then of_bool (n = 0) else if k = TOK_INV then NOT n else n)"

fun aeval :: "aexp \<Rightarrow> csh_state \<Rightarrow> csh_arith_result + int \<times> csh_state" where
  "aeval (Const n) s = (if int n \<le> LONG_MAX then Inr (int n, s) else Inl CSH_ARITH_RANGE)"
| "aeval (Variable x) s = (case get_number s x of Inl e \<Rightarrow> Inl e | Inr n \<Rightarrow> Inr (n, s))"
| "aeval (Unary k a) s =
     (if k = TOK_SUB \<and> a = Const (2 ^ 63) then Inr (LONG_MIN, s)
      else
        (case aeval a s of
           Inl e \<Rightarrow> Inl e
         | Inr (n, s) \<Rightarrow>
             if k = TOK_SUB \<and> n = LONG_MIN then Inl CSH_ARITH_RANGE else Inr (apply_unary k n, s)))"
| "aeval (Binary k a b) s =
     (case aeval a s of
        Inl e \<Rightarrow> Inl e
      | Inr (l, s) \<Rightarrow>
          if k = TOK_AND \<and> l = 0 then Inr (0, s)
          else if k = TOK_OR \<and> l \<noteq> 0 then Inr (1, s)
          else
            (case aeval b s of
               Inl e \<Rightarrow> Inl e
             | Inr (r, s) \<Rightarrow>
                 (case apply_operator k l r of Inl e \<Rightarrow> Inl e | Inr n \<Rightarrow> Inr (n, s))))"
| "aeval (Assignment k x a) s =
     (case (if k = TOK_ASSIGN then Inr 0 else get_number s x) of
        Inl e \<Rightarrow> Inl e
      | Inr l \<Rightarrow>
          (case aeval a s of
             Inl e \<Rightarrow> Inl e
           | Inr (r, s) \<Rightarrow>
               (case (if k = TOK_ASSIGN then Inr r else apply_operator (assignment_operation k) l r) of
                  Inl e \<Rightarrow> Inl e
                | Inr n \<Rightarrow> put_number s x n)))"
| "aeval (Conditional c a b) s =
     (case aeval c s of
        Inl e \<Rightarrow> Inl e
      | Inr (n, s) \<Rightarrow> if n \<noteq> 0 then aeval a s else aeval b s)"

fun wf_aexp :: "aexp \<Rightarrow> bool" where
  "wf_aexp (Const n) \<longleftrightarrow> True"
| "wf_aexp (Variable x) \<longleftrightarrow> valid_name x \<and> length x < SIZE_MAX"
| "wf_aexp (Unary k a) \<longleftrightarrow> k \<in> {TOK_ADD, TOK_SUB, TOK_NOT, TOK_INV} \<and> wf_aexp a"
| "wf_aexp (Binary k a b) \<longleftrightarrow> binary_operator k \<and> wf_aexp a \<and> wf_aexp b"
| "wf_aexp (Assignment k x a) \<longleftrightarrow> precedence k = 2 \<and> valid_name x \<and> length x < SIZE_MAX \<and> wf_aexp a"
| "wf_aexp (Conditional c a b) \<longleftrightarrow> wf_aexp c \<and> wf_aexp a \<and> wf_aexp b"

fun level :: "aexp \<Rightarrow> nat" where
  "level (Const n) = 15"
| "level (Variable x) = 15"
| "level (Unary k a) = 14"
| "level (Binary k a b) = precedence k"
| "level (Assignment k x a) = 2"
| "level (Conditional c a b) = 3"

definition op :: "token \<Rightarrow> lexical" where
  "op k = (k, spell k)"

definition paren :: "nat \<Rightarrow> nat \<Rightarrow> lexical list \<Rightarrow> lexical list" where
  "paren n l ts = (if l < n then op TOK_LPAREN # ts @ [op TOK_RPAREN] else ts)"

fun tokens :: "aexp \<Rightarrow> lexical list" where
  "tokens (Const n) = [(TOK_NUMBER, show_nat n)]"
| "tokens (Variable x) = [(TOK_NAME, x)]"
| "tokens (Unary k a) = op k # paren 14 (level a) (tokens a)"
| "tokens (Binary k a b) =
     paren (precedence k) (level a) (tokens a) @ op k # paren (precedence k + 1) (level b) (tokens b)"
| "tokens (Assignment k x a) = (TOK_NAME, x) # op k # paren 2 (level a) (tokens a)"
| "tokens (Conditional c a b) =
     paren 4 (level c) (tokens c) @ op TOK_QUESTION # paren 1 (level a) (tokens a) @
     op TOK_COLON # paren 3 (level b) (tokens b)"

definition spelling :: "aexp \<Rightarrow> string" where
  "spelling e = render (tokens e)"

text \<open>The precedence of what may follow an expression that is not in parentheses.\<close>

fun follow :: "aexp \<Rightarrow> nat" where
  "follow (Binary k a b) = precedence k"
| "follow (Assignment k x a) = 1"
| "follow (Conditional c a b) = 2"
| "follow _ = 13"

definition front :: "lexical list \<Rightarrow> nat" where
  "front ts = (case ts of [] \<Rightarrow> 0 | (k, l) # _ \<Rightarrow> precedence k)"

lemma precedence_le: "precedence k \<le> 13"
  by (cases k) (simp_all add: precedence_def)

lemma front_le: "front ts \<le> 13"
  by (auto simp: front_def precedence_le split: list.splits)

lemma level_follow: "level e \<le> follow e + 1 \<or> 14 \<le> level e \<and> follow e = 13"
  by (cases e) auto

lemma position_front: "position_at p ts \<Longrightarrow> precedence (ap_token p) = front ts"
  by (auto simp: position_at_def front_def split: list.splits)

subsubsection \<open>Well-formed token lists\<close>

lemma op_ok: "k \<noteq> TOK_END \<Longrightarrow> k \<noteq> TOK_NUMBER \<Longrightarrow> k \<noteq> TOK_NAME \<Longrightarrow> k \<noteq> TOK_BAD \<Longrightarrow> lexical_ok (op k)"
  by (simp add: lexical_ok_def op_def spell_operator)

lemma precedence_op_ok: "precedence k \<noteq> 0 \<Longrightarrow> lexical_ok (op k)"
  by (cases k) (simp_all add: op_ok precedence_def)

lemma digit_word: "digit c \<Longrightarrow> word_byte c"
  by (simp add: word_byte_def)

lemma digit_char: "d < 10 \<Longrightarrow> digit (char_of (48 + d))" for d :: nat
  using digit_value_char [of d] by (auto simp: digit_value_def split: if_splits)

lemma show_nat_digit: "list_all digit (show_nat n)"
proof (induction n rule: show_nat.induct)
  case (1 n)
  then show ?case by (cases "n < 10") (simp_all add: show_nat.simps [of n] digit_char)
qed

lemma number_ok: "lexical_ok (TOK_NUMBER, show_nat n)"
proof -
  have all: "list_all digit (show_nat n)" by (rule show_nat_digit)
  have ne: "show_nat n \<noteq> []" by (subst show_nat.simps) simp
  have "digit (hd (show_nat n))" using all ne by (cases "show_nat n") simp_all
  moreover have "list_all word_byte (show_nat n)" using all digit_word by (rule list.pred_mono_strong)
  ultimately show ?thesis using ne by (simp add: lexical_ok_def)
qed

abbreviation toks_ok :: "lexical list \<Rightarrow> bool" where
  "toks_ok ts \<equiv> \<forall>t\<in>set ts. lexical_ok t"

lemma paren_ok: "toks_ok ts \<Longrightarrow> toks_ok (paren n l ts)"
  by (simp add: paren_def op_ok ball_Un)

lemma tokens_ok: "wf_aexp e \<Longrightarrow> toks_ok (tokens e)"
proof (induction e)
  case (Variable x)
  then show ?case by (simp add: lexical_ok_def)
next
  case (Unary k a)
  then have "lexical_ok (op k)" by (auto intro: op_ok)
  with Unary show ?case by (simp add: paren_ok)
next
  case (Binary k a b)
  then have "lexical_ok (op k)" by (intro precedence_op_ok) (auto simp: binary_operator_def precedence_def)
  with Binary show ?case by (simp add: paren_ok ball_Un)
next
  case (Assignment k x a)
  then have "lexical_ok (op k)" by (intro precedence_op_ok) simp
  moreover have "lexical_ok (TOK_NAME, x)" using Assignment.prems by (simp add: lexical_ok_def)
  ultimately show ?case using Assignment by (simp add: paren_ok)
next
  case (Conditional c a b)
  then show ?case by (simp add: paren_ok ball_Un op_ok)
qed (simp add: number_ok)

end
