(* ===== verification/Arithmetic_Correct.thy ===== *)
theory Arithmetic_Correct
  imports Arithmetic_Semantics
begin

text \<open>
  The evaluator of \<open>src/arithmetic.c\<close> is correct: \<open>expression\<close> on the spelling of a tree, one lemma
  per kind of node (\<open>parses_*\<close>), then the evaluation of a whole text with its checkpoint against the
  reference semantics \<open>aeval\<close>.
\<close>

subsection \<open>Values and their numbers\<close>

text \<open>What \<open>expression\<close> hands back is not always a number yet: names and constants are read by the
  caller. \<open>sem\<close> is what it hands back for an expression tree, \<open>number_in\<close> the number the caller reads.
  Skipped operands (\<open>x\<close> false) give \<open>dry_value\<close> and read as 0.\<close>

definition named_value :: "string \<Rightarrow> arith_value" where
  "named_value n = zero_value\<lparr>av_name := Some n\<rparr>"

definition exactly :: "int \<Rightarrow> arith_value" where
  "exactly n = zero_value\<lparr>av_number := n\<rparr>"

fun dry_value :: "aexp \<Rightarrow> arith_value" where
  "dry_value (Const n) = classify n"
| "dry_value (Variable x) = named_value x"
| "dry_value (Unary k a) = (dry_value a)\<lparr>av_name := None, av_high := 0\<rparr>"
| "dry_value _ = zero_value"

definition sem :: "bool \<Rightarrow> aexp \<Rightarrow> csh_state \<Rightarrow> csh_arith_result + arith_value \<times> csh_state" where
  "sem x e s =
     (if \<not> x then Inr (dry_value e, s)
      else
        (case e of
           Const n \<Rightarrow> Inr (classify n, s)
         | Variable y \<Rightarrow> Inr (named_value y, s)
         | _ \<Rightarrow> (case aeval e s of Inl err \<Rightarrow> Inl err | Inr (n, s) \<Rightarrow> Inr (exactly n, s))))"

definition number_in :: "bool \<Rightarrow> arith_value \<Rightarrow> csh_state \<Rightarrow> csh_arith_result + int" where
  "number_in x v s =
     (if \<not> x then Inr 0
      else
        (case av_name v of
           Some n \<Rightarrow> get_number s n
         | None \<Rightarrow> if av_high v \<noteq> 0 then Inl CSH_ARITH_RANGE else Inr (av_number v)))"

definition result_of :: "bool \<Rightarrow> aexp \<Rightarrow> csh_state \<Rightarrow> csh_arith_result + int \<times> csh_state" where
  "result_of x e s = (if x then aeval e s else Inr (0, s))"

definition named_ok :: "arith_value \<Rightarrow> bool" where
  "named_ok v \<longleftrightarrow> (case av_name v of None \<Rightarrow> True | Some n \<Rightarrow> valid_name n)"

lemma value_simps [simp]:
  "av_name (named_value n) = Some n" "av_high (named_value n) = 0" "av_name (exactly k) = None" "av_high (exactly k) = 0"
  "av_number (exactly k) = k" "av_name zero_value = None" "av_high zero_value = 0" "av_number zero_value = 0"
  "av_name (classify j) = None"
  by (simp_all add: named_value_def exactly_def zero_value_def classify_def)

lemma exactly_zero: "exactly 0 = zero_value"
  by (simp add: exactly_def zero_value_def)

lemma classify_high: "av_high (classify n) = 0 \<longleftrightarrow> int n \<le> LONG_MAX"
    "int n \<le> LONG_MAX \<Longrightarrow> av_number (classify n) = int n" "av_high (classify n) = 1 \<longleftrightarrow> n = 2 ^ 63"
  by (auto simp: classify_def LONG_MAX_def)

lemma number_in_simps [simp]:
  "number_in False v s = Inr 0" "number_in True (exactly n) s = Inr n" "number_in True (named_value y) s = get_number s y"
  by (simp_all add: number_in_def)

lemma sem_outcome:
  "result_of x e s =
     (case sem x e s of
        Inl err \<Rightarrow> Inl err
      | Inr (v, s) \<Rightarrow> (case number_in x v s of Inl err \<Rightarrow> Inl err | Inr n \<Rightarrow> Inr (n, s)))"
  by (cases e)
    (auto simp: result_of_def sem_def number_in_def classify_high split: sum.splits prod.splits simp del: aeval.simps(3-6))

lemma named_ok_sem: "wf_aexp e \<Longrightarrow> sem x e s = Inr (v, s') \<Longrightarrow> named_ok v"
proof -
  have "wf_aexp e \<Longrightarrow> named_ok (dry_value e)" by (cases e) (simp_all add: named_ok_def)
  then show "wf_aexp e \<Longrightarrow> sem x e s = Inr (v, s') \<Longrightarrow> named_ok v"
    by (cases e) (auto simp: sem_def named_ok_def split: if_splits sum.splits simp del: aeval.simps)
qed

lemma no_ok_error [simp]:
  "read_text t \<noteq> Inl CSH_ARITH_OK" "get_number s y \<noteq> Inl CSH_ARITH_OK" "number_in x v s \<noteq> Inl CSH_ARITH_OK"
  "apply_operator k l r \<noteq> Inl CSH_ARITH_OK" "put_number s y n \<noteq> Inl CSH_ARITH_OK"
proof -
  show r: "read_text t \<noteq> Inl CSH_ARITH_OK" for t by (auto simp: read_text_def Let_def split: if_splits option.splits)
  show g: "get_number s y \<noteq> Inl CSH_ARITH_OK" for y by (auto simp: get_number_def r split: option.splits if_splits)
  show "number_in x v s \<noteq> Inl CSH_ARITH_OK" by (auto simp: number_in_def g split: option.splits if_splits)
  show "apply_operator k l r \<noteq> Inl CSH_ARITH_OK" by (auto simp: apply_operator_def split: option.splits if_splits)
  show "put_number s y n \<noteq> Inl CSH_ARITH_OK" by (auto simp: put_number_def)
qed

lemma aeval_no_ok_error [simp]: "aeval e s \<noteq> Inl CSH_ARITH_OK"
  by (induction e arbitrary: s) (auto split: if_splits sum.splits)

lemma sem_no_ok_error [simp]: "sem x e s \<noteq> Inl CSH_ARITH_OK"
  by (cases e) (auto simp: sem_def split: if_splits sum.splits simp del: aeval.simps)

lemma outcome_no_ok_error [simp]: "result_of x e s \<noteq> Inl CSH_ARITH_OK"
  by (simp add: result_of_def)

subsection \<open>The steps of the evaluator, when memory and stack last\<close>

definition ready :: "arith_parser \<Rightarrow> csh_state \<Rightarrow> bool" where
  "ready p s \<longleftrightarrow>
     ap_error p = CSH_ARITH_OK \<and> ap_state p = s \<and> mallocs (ap_world p) = [] \<and> ap_checks p = [] \<and>
     ap_options p = si_options (st_info s)"

lemma ready_next: "ready p s \<Longrightarrow> ready (next_token p) s"
  using next_token_frame [of p] by (simp add: ready_def)

lemma ready_check: "ready p s \<Longrightarrow> csh_stack_check p = (True, p)"
  by (cases p) (simp add: ready_def csh_stack_check_def)

lemma ready_error: "ready p s \<Longrightarrow> ap_error p = CSH_ARITH_OK"
  by (simp add: ready_def)

lemma same_world: "mallocs w = [] \<Longrightarrow> p\<lparr>ap_world := w\<lparr>mallocs := []\<rparr>\<rparr> = p" if "ap_world p = w"
  using that by (cases p, cases w) simp

lemma copy_name_ready: "ready p s \<Longrightarrow> copy_name p n = (Some n, p)"
  by (cases p, cases "ap_world p") (simp add: ready_def copy_name_def)

lemma read_value_ready:
  assumes "ready p s" and "named_ok v"
  shows "read_value p v x =
    (case number_in x v s of Inl e \<Rightarrow> (0, p\<lparr>ap_error := e\<rparr>) | Inr n \<Rightarrow> (n, p))"
proof (cases "av_name v")
  case None
  with assms(1) show ?thesis by (simp add: read_value_def number_in_def ready_def)
next
  case (Some n)
  have c: "copy_name p n = (Some n, p)" by (rule copy_name_ready [OF assms(1)])
  have v: "valid_name n" using assms(2) Some by (simp add: named_ok_def)
  have e: "ap_error p = CSH_ARITH_OK" "ap_state p = s" "ap_options p = si_options (st_info s)"
    using assms(1) by (simp_all add: ready_def)
  show ?thesis using c v e Some
    by (auto simp: read_value_def number_in_def get_number_def csh_state_get_variable_def no_view_def
        split: option.splits sum.splits)
qed

lemma read_value_error: "ap_error p \<noteq> CSH_ARITH_OK \<Longrightarrow> read_value p v x = (0, p)"
  by (simp add: read_value_def)

lemma combine_error: "ap_error p \<noteq> CSH_ARITH_OK \<Longrightarrow> combine p k v l r x = (zero_value, p)"
  by (simp add: combine_def)

lemma Loop_error: "ap_error p \<noteq> CSH_ARITH_OK \<Longrightarrow> Loop p m x v v p"
  by (rule Loop_stops) (simp add: stops_def)

lemma operate_ready:
  assumes "binary_operator k" and "in_long l" and "in_long r"
  shows "operate p k l r =
    (case apply_operator k l r of Inl e \<Rightarrow> (0, p\<lparr>ap_error := e\<rparr>) | Inr n \<Rightarrow> (n, p))"
  using operation_spec [OF assms(2,3,1)] by (auto simp: operate_def apply_operator_def split: option.splits)

subsubsection \<open>Assignment\<close>

lemma locale_mallocs [simp]: "mallocs (csh_state_refresh_locale s w) = mallocs w"
proof -
  have "mallocs (refresh_categories s a l cs w) = mallocs w" for a l cs
    by (induction cs arbitrary: w) (simp_all add: Let_def)
  then show ?thesis by (simp add: csh_state_refresh_locale_def)
qed

lemma after_assignment_mallocs [simp]: "mallocs (snd (after_assignment n s w)) = mallocs w"
  by (simp add: after_assignment_def Let_def)

lemma show_nat_length: "length (show_nat n) \<le> Suc n"
proof (induction n rule: less_induct)
  case (less n)
  show ?case
  proof (cases "n < 10")
    case True
    then show ?thesis by (simp add: show_nat.simps [of n])
  next
    case False
    then have "length (show_nat (n div 10)) \<le> Suc (n div 10)" by (intro less.IH) simp
    with False show ?thesis by (simp add: show_nat.simps [of n])
  qed
qed
lemma show_long_length: "in_long n \<Longrightarrow> length (show_long n) < SIZE_MAX"
proof -
  assume "in_long n"
  then have "nat (- n) \<le> 2 ^ 63" "nat n \<le> 2 ^ 63" by (auto simp: in_long_def LONG_MIN_def LONG_MAX_def)
  then have "length (show_long n) \<le> 2 + 2 ^ 63"
    using show_nat_length [of "nat (- n)"] show_nat_length [of "nat n"] by (auto simp: show_long_def)
  then show ?thesis by (simp add: SIZE_MAX_def)
qed

lemma read_text_long: "read_text t = Inr n \<Longrightarrow> in_long n"
  by (rule read_text_in_long)

lemma get_number_long: "get_number s x = Inr n \<Longrightarrow> in_long n"
  by (auto simp: get_number_def dest: read_text_long split: option.splits if_splits)

lemma apply_operator_long: "apply_operator k l r = Inr n \<Longrightarrow> in_long n"
  by (auto simp: apply_operator_def split: option.splits if_splits)

lemma apply_unary_long: "in_long n \<Longrightarrow> \<not> (k = TOK_SUB \<and> n = LONG_MIN) \<Longrightarrow> in_long (apply_unary k n)"
  using in_long_bits in_long_minus by (auto simp: apply_unary_def)

lemma aeval_long: "aeval e s = Inr (n, s') \<Longrightarrow> in_long n"
proof (induction e arbitrary: s n s')
  case (Const k)
  then show ?case by (auto simp: in_long_def LONG_MIN_def split: if_splits)
next
  case (Variable x)
  then show ?case by (auto dest: get_number_long split: sum.splits)
next
  case (Unary k a)
  then show ?case by (auto intro!: apply_unary_long split: if_splits sum.splits)
next
  case (Binary k a b)
  then show ?case by (auto split: if_splits sum.splits) (erule apply_operator_long)+
next
  case (Assignment k x a)
  then show ?case by (auto simp: put_number_def dest: apply_operator_long split: if_splits sum.splits)
next
  case (Conditional c a b)
  then show ?case by (auto split: if_splits sum.splits)
qed

lemma assigned_export:
  assumes "allexport s" and "valid_name n"
  shows "csh_state_update_attributes (assigned s n v) (Some n) CSH_VAR_EXPORT 0 w = (CSH_STATE_OK, assigned s n v, w)"
proof -
  have "update_first (\<lambda>x. v_name x = n) (\<lambda>x. x\<lparr>v_attributes := v_attributes x OR CSH_VAR_EXPORT\<rparr>)
      (st_variables (assigned s n v)) = st_variables (assigned s n v)"
    using assms(1) by (simp add: assigned_def put_head_update or.assoc)
  then show ?thesis using assms(2) by (simp add: csh_state_update_attributes_def find_assigned)
qed

lemma set_variable_mallocs: "mallocs w = [] \<Longrightarrow> mallocs (snd (snd (csh_state_set_variable s name t w))) = []"
  by (simp add: csh_state_set_variable_def copy_bytes_def new_variable_def split: option.splits)

lemma assign_ready:
  assumes "ready p s" and "valid_name y" and "length y < SIZE_MAX" and "in_long n"
  shows "case put_number s y n of
      Inl e \<Rightarrow> ap_error (assign p (named_value y) n) = e
    | Inr (m, s') \<Rightarrow> m = n \<and> ready (assign p (named_value y) n) s' \<and> text_kept p (assign p (named_value y) n)"
proof (cases "readonly s y")
  case True
  then have "csh_state_set_variable s (Some y) (Some (show_long n)) (ap_world p) = (CSH_STATE_READONLY, s, ap_world p)"
    using assms(2) by (auto simp: readonly_def csh_state_set_variable_def split: option.splits)
  with True assms(1) show ?thesis
    by (simp add: put_number_def assign_def copy_name_ready [OF assms(1)] ready_def Let_def)
next
  case False
  have s: "ap_state p = s" and w: "mallocs (ap_world p) = []" using assms(1) by (simp_all add: ready_def)
  obtain w' where set: "csh_state_set_variable s (Some y) (Some (show_long n)) (ap_world p) =
      (CSH_STATE_OK, assigned s y (show_long n), w')"
    using csh_state_set_variable_reliable [OF assms(2) False w assms(3) show_long_length [OF assms(4)]] by blast
  then have "mallocs w' = []" using set_variable_mallocs [OF w, of s "Some y" "Some (show_long n)"] by simp
  moreover have "assign p (named_value y) n = p\<lparr>ap_state := assigned s y (show_long n), ap_world := w'\<rparr>"
    using assigned_export [OF _ assms(2), of s "show_long n" w'] assms(1)
    by (auto simp: assign_def copy_name_ready [OF assms(1)] set s ready_def allexport_def)
  ultimately show ?thesis using False assms(1)
    by (simp add: put_number_def ready_def text_kept_def assigned_def)
qed

subsection \<open>Parsing a spelling\<close>

lemma position_kept: "text_kept p q \<Longrightarrow> position_at p ts \<Longrightarrow> position_at q ts"
  by (simp add: text_kept_def position_at_def lexeme_def split: list.splits prod.splits)

lemma position_op: "position_at p (op k # ts) \<Longrightarrow> ap_token p = k"
  by (simp add: position_at_def op_def)

lemma front_simps [simp]: "front [] = 0" "front ((k, t) # ts) = precedence k" "front (op k # ts) = precedence k"
  by (simp_all add: front_def op_def)

text \<open>\<open>yields p m x r rest\<close>: from \<open>p\<close>, \<open>expression\<close> with minimum \<open>m\<close> reads something meaning \<open>r\<close> in front
  of \<open>rest\<close>, and goes on with its loop there.\<close>

definition yields ::
  "arith_parser \<Rightarrow> nat \<Rightarrow> bool \<Rightarrow> csh_arith_result + arith_value \<times> csh_state \<Rightarrow> lexical list \<Rightarrow> bool" where
  "yields p m x r rest =
     (case r of
        Inl err \<Rightarrow> \<exists>v q. Expr p m x v q \<and> ap_error q = err
      | Inr (v, s) \<Rightarrow>
          \<exists>q. position_at q rest \<and> ready q s \<and> (\<forall>u z. Loop q m x v u z \<longrightarrow> Expr p m x u z))"

definition parses :: "aexp \<Rightarrow> bool" where
  "parses e \<longleftrightarrow>
     (\<forall>p m x s rest. position_at p (tokens e @ rest) \<longrightarrow> toks_ok rest \<longrightarrow> ready p s \<longrightarrow> 1 \<le> m \<longrightarrow> m \<le> level e \<longrightarrow>
        front rest \<le> follow e \<longrightarrow> yields p m x (sem x e s) rest)"

lemma ready_ExprI: "ready p s \<Longrightarrow> Prim p x v q \<Longrightarrow> Loop q m x v u z \<Longrightarrow> Expr p m x u z"
  by (rule ExprI [OF ready_error ready_check])

lemma yields_value:
  assumes "yields p m x r rest" and "front rest < m"
  shows "case r of
      Inl err \<Rightarrow> \<exists>v q. Expr p m x v q \<and> ap_error q = err
    | Inr (v, s) \<Rightarrow> \<exists>q. Expr p m x v q \<and> position_at q rest \<and> ready q s"
proof (cases r)
  case (Inr vs)
  obtain v s where r: "r = Inr (v, s)" using Inr by (cases vs) auto
  then obtain q where q: "position_at q rest" "ready q s" "\<forall>u z. Loop q m x v u z \<longrightarrow> Expr p m x u z"
    using assms(1) by (auto simp: yields_def)
  have "stops q m" using position_front [OF q(1)] assms(2) by (simp add: stops_def)
  with q(3) Loop_stops have "Expr p m x v q" by blast
  with q r show ?thesis by auto
qed (use assms in \<open>auto simp: yields_def\<close>)

lemma yields_operand:
  assumes "yields p m x (sem x e s) rest" and "wf_aexp e" and "front rest < m"
  shows "case result_of x e s of
      Inl err \<Rightarrow> \<exists>v q n r. Expr p m x v q \<and> read_value q v x = (n, r) \<and> ap_error r = err \<and>
        (ap_error q = CSH_ARITH_OK \<longrightarrow> position_at q rest)
    | Inr (n, s') \<Rightarrow> \<exists>v q. Expr p m x v q \<and> read_value q v x = (n, q) \<and> position_at q rest \<and> ready q s'"
proof (cases "sem x e s")
  case (Inl err)
  with yields_value [OF assms(1,3)] obtain v q where q: "Expr p m x v q" "ap_error q = err" by auto
  have "err \<noteq> CSH_ARITH_OK" using Inl sem_no_ok_error by metis
  then have "read_value q v x = (0, q)" "ap_error q \<noteq> CSH_ARITH_OK" using q by (simp_all add: read_value_error)
  with q Inl show ?thesis by (auto simp: sem_outcome)
next
  case (Inr vs)
  obtain v s' where r: "sem x e s = Inr (v, s')" using Inr by (cases vs) auto
  with yields_value [OF assms(1,3)] obtain q where q: "Expr p m x v q" "position_at q rest" "ready q s'" by auto
  have rv: "read_value q v x = (case number_in x v s' of Inl e \<Rightarrow> (0, q\<lparr>ap_error := e\<rparr>) | Inr n \<Rightarrow> (n, q))"
    by (rule read_value_ready [OF q(3) named_ok_sem [OF assms(2) r]])
  show ?thesis
  proof (cases "number_in x v s'")
    case (Inl err)
    then have "read_value q v x = (0, q\<lparr>ap_error := err\<rparr>)" using rv by simp
    with q(1,2) have "\<exists>v q n r. Expr p m x v q \<and> read_value q v x = (n, r) \<and> ap_error r = err \<and>
        (ap_error q = CSH_ARITH_OK \<longrightarrow> position_at q rest)" by fastforce
    with Inl r show ?thesis by (simp add: sem_outcome)
  qed (use q rv r in \<open>auto simp: sem_outcome\<close>)
qed

lemma level_pos: "wf_aexp e \<Longrightarrow> 1 \<le> level e"
  by (cases e) (auto simp: binary_operator_def)

lemma parses_paren:
  assumes "parses e" and "wf_aexp e" and "position_at p (paren n (level e) (tokens e) @ rest)" and "toks_ok rest"
    and "ready p s" and "1 \<le> m" and "m \<le> n" and "n \<le> level e \<Longrightarrow> front rest \<le> follow e"
  shows "yields p m x (sem x e s) rest"
proof (cases "level e < n")
  case False
  with assms show ?thesis by (auto simp: parses_def paren_def)
next
  case True
  have at: "position_at p (op TOK_LPAREN # tokens e @ op TOK_RPAREN # rest)" using assms(3) True by (simp add: paren_def)
  have ok: "toks_ok (op TOK_RPAREN # rest)" using assms(4) by (simp add: op_ok)
  have "position_at (next_token p) (tokens e @ op TOK_RPAREN # rest)"
    using position_next [OF at] tokens_ok [OF assms(2)] ok by (simp add: ball_Un)
  moreover have "1 \<le> level e" using assms(2) by (rule level_pos)
  ultimately have "yields (next_token p) 1 x (sem x e s) (op TOK_RPAREN # rest)"
    using assms(1) ok ready_next [OF assms(5)] by (simp add: parses_def precedence_def)
  then have y: "case sem x e s of
      Inl err \<Rightarrow> \<exists>v q. Expr (next_token p) 1 x v q \<and> ap_error q = err
    | Inr (v, s) \<Rightarrow> \<exists>q. Expr (next_token p) 1 x v q \<and> position_at q (op TOK_RPAREN # rest) \<and> ready q s"
    by (rule yields_value) (simp add: precedence_def)
  note prim = PrimI_paren [OF position_op [OF at]]
  show ?thesis
  proof (cases "sem x e s")
    case (Inl err)
    then obtain v q where q: "Expr (next_token p) 1 x v q" "ap_error q = err" using y by auto
    have "err \<noteq> CSH_ARITH_OK" using Inl sem_no_ok_error by metis
    with q prim [OF q(1)] have "Prim p x v q" "ap_error q \<noteq> CSH_ARITH_OK" by simp_all
    then have "Expr p m x v q" using ready_ExprI [OF assms(5)] Loop_error by blast
    with Inl q(2) show ?thesis by (auto simp: yields_def)
  next
    case (Inr vs)
    then obtain v s' q where r: "sem x e s = Inr (v, s')" and q: "Expr (next_token p) 1 x v q"
      "position_at q (op TOK_RPAREN # rest)" "ready q s'" using y by (cases vs) auto
    have "Prim p x v (next_token q)" using prim [OF q(1)] ready_error [OF q(3)] position_op [OF q(2)] by simp
    then have "\<forall>u z. Loop (next_token q) m x v u z \<longrightarrow> Expr p m x u z" using ready_ExprI [OF assms(5)] by blast
    with r position_next [OF q(2) assms(4)] ready_next [OF q(3)] show ?thesis by (auto simp: yields_def)
  qed
qed

subsubsection \<open>Operands, unary operators\<close>

lemma show_nat_literal: "literal (show_nat n) = Some (classify n)"
  by (simp add: literal_spec constant_value_show)

lemma parses_Const: "parses (Const n)"
proof -
  have "yields p m x (sem x (Const n) s) rest"
    if at: "position_at p ((TOK_NUMBER, show_nat n) # rest)" and ok: "toks_ok rest" and r: "ready p s" for p m x s rest
  proof -
    have "Prim p x (classify n) (next_token p)"
      using PrimI_number [of p "classify n" x] at by (simp add: position_at_def show_nat_literal)
    then have "\<forall>u z. Loop (next_token p) m x (classify n) u z \<longrightarrow> Expr p m x u z" using ready_ExprI [OF r] by blast
    with position_next [OF at ok] ready_next [OF r] show ?thesis by (auto simp: yields_def sem_def)
  qed
  then show ?thesis by (simp add: parses_def)
qed

lemma parses_Variable: "parses (Variable y)"
proof -
  have "yields p m x (sem x (Variable y) s) rest"
    if at: "position_at p ((TOK_NAME, y) # rest)" and ok: "toks_ok rest" and r: "ready p s" for p m x s rest
  proof -
    have "Prim p x (named_value y) (next_token p)"
      using PrimI_name [of p x] at by (simp add: position_at_def named_value_def)
    then have "\<forall>u z. Loop (next_token p) m x (named_value y) u z \<longrightarrow> Expr p m x u z" using ready_ExprI [OF r] by blast
    with position_next [OF at ok] ready_next [OF r] show ?thesis by (auto simp: yields_def sem_def)
  qed
  then show ?thesis by (simp add: parses_def)
qed

lemma unary_minimum:
  assumes "sem True a s = Inr (v, s')"
  shows "av_name v = None \<and> av_high v = 1 \<longleftrightarrow> a = Const (2 ^ 63)"
  using assms by (cases a) (auto simp: sem_def classify_high split: sum.splits simp del: aeval.simps One_nat_def)

lemma exact_value: "\<lparr>av_number = n, av_name = None, av_high = 0\<rparr> = exactly n"
  by (simp add: exactly_def zero_value_def)

lemma unary_ready:
  assumes "ready q s'" and "wf_aexp a" and "sem x a s = Inr (v, s')"
  shows "case sem x (Unary k a) s of
      Inl err \<Rightarrow> \<exists>u r. unary q k v x = (u, r) \<and> ap_error r = err
    | Inr (u, t) \<Rightarrow> unary q k v x = (u, q) \<and> t = s'"
proof (cases x)
  case False
  with assms(3) show ?thesis by (auto simp: sem_def unary_def)
next
  case True
  have x: "x = True" using True by simp
  note s = assms(3) [unfolded x]
  note rv = read_value_ready [OF assms(1) named_ok_sem [OF assms(2) s], of True]
  have o: "aeval a s = (case number_in True v s' of Inl err \<Rightarrow> Inl err | Inr n \<Rightarrow> Inr (n, s'))"
    using sem_outcome [of True a s] s by (simp add: result_of_def)
  have e: "ap_error q = CSH_ARITH_OK" by (rule ready_error [OF assms(1)])
  consider (low) "k = TOK_SUB" "a = Const (2 ^ 63)" | (general) "\<not> (k = TOK_SUB \<and> a = Const (2 ^ 63))" by blast
  then show ?thesis
  proof cases
    case low
    with unary_minimum [OF s] have "av_name v = None \<and> av_high v = 1" by blast
    moreover have "s' = s" using s low by (simp add: sem_def)
    ultimately show ?thesis unfolding x using low e by (simp add: sem_def unary_def exact_value)
  next
    case general
    then have g: "\<not> (k = TOK_SUB \<and> av_name v = None \<and> av_high v = 1)" using unary_minimum [OF s] by blast
    have ev: "aeval (Unary k a) s = (case aeval a s of Inl e \<Rightarrow> Inl e | Inr (n, s) \<Rightarrow>
        if k = TOK_SUB \<and> n = LONG_MIN then Inl CSH_ARITH_RANGE else Inr (apply_unary k n, s))"
      using general by (simp only: aeval.simps if_False)
    show ?thesis
    proof (cases "number_in True v s'")
      case (Inl err)
      have "LONG_MIN \<noteq> 0" by (simp add: LONG_MIN_def)
      with Inl show ?thesis unfolding x using g e rv o ev by (auto simp: sem_def unary_def simp del: aeval.simps)
    next
      case (Inr n)
      with g e rv o ev show ?thesis unfolding x
        by (cases "k = TOK_SUB \<and> n = LONG_MIN")
          (auto simp: sem_def unary_def apply_unary_def exact_value simp del: aeval.simps)
    qed
  qed
qed

lemma parses_Unary:
  assumes "parses a" and "wf_aexp (Unary k a)"
  shows "parses (Unary k a)"
proof -
  have k: "k \<in> {TOK_ADD, TOK_SUB, TOK_NOT, TOK_INV}" and wf: "wf_aexp a" using assms(2) by simp_all
  have "yields p m x (sem x (Unary k a) s) rest"
    if at: "position_at p (op k # paren 14 (level a) (tokens a) @ rest)" and ok: "toks_ok rest" and r: "ready p s"
    for p m x s rest
  proof -
    have at': "position_at (next_token p) (paren 14 (level a) (tokens a) @ rest)"
      using position_next [OF at] paren_ok [OF tokens_ok [OF wf]] ok by (simp add: ball_Un)
    have "front rest \<le> follow a" if "14 \<le> level a" using that front_le [of rest] level_follow [of a] by auto
    then have "yields (next_token p) 14 x (sem x a s) rest"
      using parses_paren [OF assms(1) wf at' ok ready_next [OF r], of 14] by simp
    then have y: "case sem x a s of
        Inl err \<Rightarrow> \<exists>v q. Expr (next_token p) 14 x v q \<and> ap_error q = err
      | Inr (v, s) \<Rightarrow> \<exists>q. Expr (next_token p) 14 x v q \<and> position_at q rest \<and> ready q s"
      by (rule yields_value) (use front_le [of rest] in simp)
    note prim = PrimI_unary [of p, unfolded position_op [OF at], OF k]
    show ?thesis
    proof (cases "sem x a s")
      case (Inl err)
      then obtain v q where q: "Expr (next_token p) 14 x v q" "ap_error q = err" using y by auto
      have ne: "err \<noteq> CSH_ARITH_OK" using Inl sem_no_ok_error by metis
      have "unary q k v x = (v\<lparr>av_name := None, av_high := 0\<rparr>, q)" using q(2) ne by (simp add: unary_def)
      from prim [OF q(1) this] have "Expr p m x (v\<lparr>av_name := None, av_high := 0\<rparr>) q"
        using ready_ExprI [OF r] Loop_error q(2) ne by blast
      moreover have "sem x (Unary k a) s = Inl err"
        using Inl by (cases a) (auto simp: sem_def split: if_splits sum.splits)
      ultimately show ?thesis using q(2) by (auto simp: yields_def)
    next
      case (Inr vs)
      then obtain v s' q where v: "sem x a s = Inr (v, s')" and q: "Expr (next_token p) 14 x v q"
        "position_at q rest" "ready q s'" using y by (cases vs) auto
      note u = unary_ready [OF q(3) wf v, of k]
      show ?thesis
      proof (cases "sem x (Unary k a) s")
        case (Inl err)
        with u obtain u' t where t: "unary q k v x = (u', t)" "ap_error t = err" by auto
        have ne: "err \<noteq> CSH_ARITH_OK" using Inl sem_no_ok_error by metis
        from prim [OF q(1) t(1)] have "Expr p m x u' t" using ready_ExprI [OF r] Loop_error t(2) ne by blast
        with Inl t(2) show ?thesis by (auto simp: yields_def)
      next
        case (Inr ut)
        with u obtain u' where u': "sem x (Unary k a) s = Inr (u', s')" "unary q k v x = (u', q)" by (cases ut) auto
        from prim [OF q(1) u'(2)] have "\<forall>w z. Loop q m x u' w z \<longrightarrow> Expr p m x w z" using ready_ExprI [OF r] by blast
        with u'(1) q(2,3) show ?thesis by (auto simp: yields_def)
      qed
    qed
  qed
  then show ?thesis by (simp add: parses_def)
qed

subsubsection \<open>Binary operators and assignments\<close>

text \<open>One turn of the loop at an operator that is not \<open>?\<close>, up to combining the operands.\<close>

lemma turn:
  assumes "parses b" and "wf_aexp b"
    and at: "position_at p (op k # paren (right_minimum k) (level b) (tokens b) @ rest)" and ok: "toks_ok rest"
    and r: "ready p s" and "named_ok v" and "m \<le> precedence k" and "1 \<le> precedence k"
    and "precedence k = 2 \<longrightarrow> av_name v \<noteq> None" and "k \<noteq> TOK_QUESTION" and rest: "front rest < right_minimum k"
  shows "case (if k = TOK_ASSIGN then Inr 0 else number_in x v s) of
      Inl err \<Rightarrow> \<exists>u z. Loop p m x v u z \<and> ap_error z = err
    | Inr l \<Rightarrow>
        (case result_of (right_runs k l x) b s of
           Inl err \<Rightarrow> \<exists>u z. Loop p m x v u z \<and> ap_error z = err
         | Inr (n, s') \<Rightarrow> \<exists>q. position_at q rest \<and> ready q s' \<and>
             (\<forall>u t y z. combine q k v l n x = (u, t) \<longrightarrow> Loop t m x u y z \<longrightarrow> Loop p m x v y z))"
proof -
  have k: "ap_token p = k" by (rule position_op [OF at])
  have go: "\<not> stops p m" using assms(7) k ready_error [OF r] by (simp add: stops_def)
  have target: "\<not> no_target p v" using assms(9) k by (auto simp: no_target_def)
  have nq: "ap_token p \<noteq> TOK_QUESTION" using assms(10) k by simp
  note loop = LoopI_binary [OF go target nq, unfolded k]
  have rn: "ready (next_token p) s" by (rule ready_next [OF r])
  have left: "read_left p v x = (case (if k = TOK_ASSIGN then Inr 0 else number_in x v s) of
      Inl e \<Rightarrow> (0, (next_token p)\<lparr>ap_error := e\<rparr>) | Inr n \<Rightarrow> (n, next_token p))"
    using read_value_ready [OF rn assms(6)] k by (simp add: read_left_def)
  have at': "position_at (next_token p) (paren (right_minimum k) (level b) (tokens b) @ rest)"
    using position_next [OF at] paren_ok [OF tokens_ok [OF assms(2)]] ok by (simp add: ball_Un)
  have f: "front rest \<le> follow b" if "right_minimum k \<le> level b"
    using that rest front_le [of rest] level_follow [of b] by auto
  show ?thesis
  proof (cases "if k = TOK_ASSIGN then Inr 0 else number_in x v s")
    case (Inl err)
    then have ne: "err \<noteq> CSH_ARITH_OK" by (metis Inr_not_Inl no_ok_error(3))
    let ?q = "(next_token p)\<lparr>ap_error := err\<rparr>"
    have e: "ap_error ?q \<noteq> CSH_ARITH_OK" using ne by simp
    have "Loop p m x v zero_value ?q"
      using loop [OF _ Expr_error [OF e] read_value_error [OF e] combine_error [OF e] Loop_error [OF e]] left Inl by simp
    with Inl show ?thesis by fastforce
  next
    case (Inr l)
    let ?x = "right_runs k l x"
    have l: "read_left p v x = (l, next_token p)" using left Inr by simp
    have "1 \<le> right_minimum k" using assms(8) by (simp add: right_minimum_def)
    then have "yields (next_token p) (right_minimum k) ?x (sem ?x b s) rest"
      using parses_paren [OF assms(1,2) at' ok rn _ _ f] by simp
    note b = yields_operand [OF this assms(2) rest]
    show ?thesis
    proof (cases "result_of ?x b s")
      case (Inl err)
      then obtain w q n t where q: "Expr (next_token p) (right_minimum k) ?x w q" "read_value q w ?x = (n, t)"
        and t: "ap_error t = err" using b by auto
      have ne: "ap_error t \<noteq> CSH_ARITH_OK" using Inl outcome_no_ok_error t by metis
      have "Loop p m x v zero_value t" by (rule loop [OF l q combine_error [OF ne] Loop_error [OF ne]])
      with t Inr Inl show ?thesis by auto
    next
      case (Inr ns)
      then obtain n s' w q where n: "result_of ?x b s = Inr (n, s')"
        and q: "Expr (next_token p) (right_minimum k) ?x w q" "read_value q w ?x = (n, q)"
        and r': "position_at q rest" "ready q s'" using b by (cases ns) auto
      have "\<forall>u t y z. combine q k v l n x = (u, t) \<longrightarrow> Loop t m x u y z \<longrightarrow> Loop p m x v y z"
        using loop [OF l q] by blast
      with r' n \<open>(if k = TOK_ASSIGN then Inr 0 else number_in x v s) = Inr l\<close> show ?thesis by auto
    qed
  qed
qed

lemma yields_error:
  assumes "\<And>u z. Loop q m x v u z \<Longrightarrow> Expr p m x u z" and "\<exists>u z. Loop q m x v u z \<and> ap_error z = err"
  shows "yields p m x (Inl err) rest"
  using assms by (auto simp: yields_def)

lemma yields_on:
  assumes "\<And>u z. Loop q m x v u z \<Longrightarrow> Expr p m x u z" and "\<And>u z. Loop t m x w u z \<Longrightarrow> Loop q m x v u z"
    and "position_at t rest" and "ready t s"
  shows "yields p m x (Inr (w, s)) rest"
  using assms by (auto simp: yields_def)

lemma combine_binary:
  assumes "binary_operator k" and "x \<Longrightarrow> in_long l" and "x \<Longrightarrow> in_long n" and "ready q s"
  shows "combine q k v l n x =
    (if \<not> x then (zero_value, q)
     else (case apply_operator k l n of Inl e \<Rightarrow> (zero_value, q\<lparr>ap_error := e\<rparr>) | Inr i \<Rightarrow> (exactly i, q)))"
  using assms operate_ready [OF assms(1), of l n q] exactly_zero
  by (auto simp: combine_def binary_operator_def ready_def exactly_def split: sum.splits)

lemma aeval_binary:
  assumes "aeval a s = Inr (l, s1)"
  shows "aeval (Binary k a b) s =
    (case result_of (right_runs k l True) b s1 of
       Inl e \<Rightarrow> Inl e
     | Inr (n, s2) \<Rightarrow> (case apply_operator k l n of Inl e \<Rightarrow> Inl e | Inr i \<Rightarrow> Inr (i, s2)))"
  using assms by (auto simp: right_runs_def result_of_def apply_operator_def exact_operation_def)

lemma outcome_long: "result_of x e s = Inr (n, s') \<Longrightarrow> in_long n"
  by (auto simp: result_of_def dest: aeval_long split: if_splits)

lemma sem_number:
  assumes "sem True e s = Inr (v, s')"
  shows "aeval e s = (case number_in True v s' of Inl err \<Rightarrow> Inl err | Inr n \<Rightarrow> Inr (n, s'))"
  using sem_outcome [of True e s] assms by (simp add: result_of_def)

lemma sem_Inl: "sem x e s = Inl err \<Longrightarrow> x \<and> aeval e s = Inl err"
  by (cases e) (auto simp: sem_def split: if_splits sum.splits simp del: aeval.simps)

lemma sem_False [simp]: "sem False e s = Inr (dry_value e, s)"
  by (simp add: sem_def)

lemma number_in_long:
  assumes "sem x e s = Inr (v, s')" and "number_in x v s' = Inr n"
  shows "in_long n"
  using sem_outcome [of x e s] assms outcome_long by simp

text \<open>The meaning of a binary operator once the left operand is parsed, executed or not.\<close>

lemma sem_binary:
  assumes "sem x a s = Inr (v, s1)"
  shows "sem x (Binary k a b) s =
    (case number_in x v s1 of
       Inl e \<Rightarrow> Inl e
     | Inr l \<Rightarrow>
         (case result_of (right_runs k l x) b s1 of
            Inl e \<Rightarrow> Inl e
          | Inr (n, s2) \<Rightarrow>
              if \<not> x then Inr (zero_value, s2)
              else (case apply_operator k l n of Inl e \<Rightarrow> Inl e | Inr i \<Rightarrow> Inr (exactly i, s2))))"
proof (cases x)
  case False
  with assms show ?thesis by (simp add: right_runs_def result_of_def)
next
  case True
  then have s: "sem True a s = Inr (v, s1)" using assms by simp
  show ?thesis
  proof (cases "number_in True v s1")
    case (Inl e)
    with True sem_number [OF s] show ?thesis by (simp add: sem_def)
  next
    case (Inr l)
    then have "aeval a s = Inr (l, s1)" using sem_number [OF s] by simp
    from aeval_binary [OF this, of k b] True Inr show ?thesis
      by (auto simp: sem_def split: sum.splits simp del: aeval.simps)
  qed
qed

lemma yields_binary:
  assumes k: "binary_operator k" and b: "parses b" "wf_aexp b" and a: "wf_aexp a" "sem x a s = Inr (v, s1)"
    and q: "position_at q (op k # paren (precedence k + 1) (level b) (tokens b) @ rest)" "ready q s1"
    and ok: "toks_ok rest" and m: "m \<le> precedence k" and f: "front rest \<le> precedence k"
    and on: "\<And>u z. Loop q m x v u z \<Longrightarrow> Expr p m x u z"
  shows "yields p m x (sem x (Binary k a b) s) rest"
proof -
  have k': "1 \<le> precedence k" "precedence k \<noteq> 2" "k \<noteq> TOK_QUESTION" "k \<noteq> TOK_ASSIGN"
    and rm: "right_minimum k = precedence k + 1"
    using k by (auto simp: binary_operator_def right_minimum_def precedence_def)
  have "front rest < right_minimum k" using f rm by simp
  note turn = turn [OF b q(1) [folded rm] ok q(2) named_ok_sem [OF a] m k'(1) _ k'(3) this, of x]
  note sem = sem_binary [OF a(2), of k b]
  show ?thesis
  proof (cases "number_in x v s1")
    case (Inl err)
    with turn k' have "\<exists>u z. Loop q m x v u z \<and> ap_error z = err" by simp
    from yields_error [OF on this] Inl show ?thesis by (simp add: sem)
  next
    case l: (Inr l)
    show ?thesis
    proof (cases "result_of (right_runs k l x) b s1")
      case (Inl err)
      with turn k' l have "\<exists>u z. Loop q m x v u z \<and> ap_error z = err" by simp
      from yields_error [OF on this] Inl l show ?thesis by (simp add: sem)
    next
      case (Inr ns)
      then obtain n s2 where n: "result_of (right_runs k l x) b s1 = Inr (n, s2)" by (cases ns) auto
      with turn k' l obtain t where t: "position_at t rest" "ready t s2"
        and go: "\<And>u t' y z. combine t k v l n x = (u, t') \<Longrightarrow> Loop t' m x u y z \<Longrightarrow> Loop q m x v y z"
        by auto
      note c = combine_binary [OF k number_in_long [OF a(2) l] outcome_long [OF n] t(2), of v x]
      show ?thesis
      proof (cases "x \<and> (\<exists>e. apply_operator k l n = Inl e)")
        case True
        then obtain e where x: "x" and e: "apply_operator k l n = Inl e" by blast
        have "ap_error (t\<lparr>ap_error := e\<rparr>) \<noteq> CSH_ARITH_OK" using e by auto
        from go [OF _ Loop_error [OF this]] c x e have "\<exists>u z. Loop q m x v u z \<and> ap_error z = e" by fastforce
        moreover have "sem x (Binary k a b) s = Inl e" unfolding sem using n l x e by simp
        ultimately show ?thesis using yields_error [OF on] by simp
      next
        case False
        then obtain w where w: "combine t k v l n x = (w, t)" "sem x (Binary k a b) s = Inr (w, s2)"
          using c n l sem by (cases x; cases "apply_operator k l n") auto
        from yields_on [OF on go [OF w(1)] t] w(2) show ?thesis by simp
      qed
    qed
  qed
qed

lemma parses_Binary:
  assumes "parses a" and "parses b" and "wf_aexp (Binary k a b)"
  shows "parses (Binary k a b)"
proof -
  have k: "binary_operator k" and wf: "wf_aexp a" "wf_aexp b" using assms(3) by simp_all
  have okb: "toks_ok (op k # paren (precedence k + 1) (level b) (tokens b) @ rest)" if "toks_ok rest" for rest
    using that tokens_ok [OF assms(3)] by (simp add: ball_Un)
  have fa: "precedence k \<le> follow a" if "precedence k \<le> level a"
    using that level_follow [of a] precedence_le [of k] wf(1) k by (cases a) (auto simp: binary_operator_def)
  have "yields p m x (sem x (Binary k a b) s) rest"
    if at: "position_at p (paren (precedence k) (level a) (tokens a) @ op k # paren (precedence k + 1) (level b) (tokens b) @ rest)"
      and ok: "toks_ok rest" and r: "ready p s" and m: "1 \<le> m" "m \<le> precedence k" and f: "front rest \<le> precedence k"
    for p m x s rest
  proof -
    note ya = parses_paren [OF assms(1) wf(1) at okb [OF ok] r m, of x]
    show ?thesis
    proof (cases "sem x a s")
      case (Inl err)
      then have "sem x (Binary k a b) s = Inl err" using sem_Inl [OF Inl] by (simp add: sem_def)
      with ya Inl fa show ?thesis by (simp add: yields_def)
    next
      case (Inr vs)
      then obtain v s1 where v: "sem x a s = Inr (v, s1)" by (cases vs) auto
      then obtain q where q: "position_at q (op k # paren (precedence k + 1) (level b) (tokens b) @ rest)" "ready q s1"
        and on: "\<And>u z. Loop q m x v u z \<Longrightarrow> Expr p m x u z" using ya fa by (auto simp: yields_def)
      show ?thesis by (rule yields_binary [OF k assms(2) wf(2) wf(1) v q ok m(2) f on])
    qed
  qed
  then show ?thesis by (auto simp: parses_def)
qed

subsubsection \<open>Assignments\<close>

lemma sem_assignment:
  assumes "precedence k = 2"
  shows "sem x (Assignment k y a) s =
    (case (if k = TOK_ASSIGN then Inr 0 else number_in x (named_value y) s) of
       Inl e \<Rightarrow> Inl e
     | Inr l \<Rightarrow>
         (case result_of x a s of
            Inl e \<Rightarrow> Inl e
          | Inr (n, s2) \<Rightarrow>
              if \<not> x then Inr (zero_value, s2)
              else
                (case (if k = TOK_ASSIGN then Inr n else apply_operator (assignment_operation k) l n) of
                   Inl e \<Rightarrow> Inl e
                 | Inr i \<Rightarrow> (case put_number s2 y i of Inl e \<Rightarrow> Inl e | Inr (j, s3) \<Rightarrow> Inr (exactly j, s3)))))"
  by (cases x) (auto simp: sem_def result_of_def split: sum.splits)

lemma combine_assignment:
  assumes k: "precedence k = 2" and l: "x \<Longrightarrow> in_long l" and n: "x \<Longrightarrow> in_long n" and r: "ready q s"
    and y: "valid_name y" "length y < SIZE_MAX"
  shows "case (if \<not> x then Inr (zero_value, s)
      else
        (case (if k = TOK_ASSIGN then Inr n else apply_operator (assignment_operation k) l n) of
           Inl e \<Rightarrow> Inl e
         | Inr i \<Rightarrow> (case put_number s y i of Inl e \<Rightarrow> Inl e | Inr (j, s3) \<Rightarrow> Inr (exactly j, s3)))) of
      Inl e \<Rightarrow> \<exists>u t. combine q k (named_value y) l n x = (u, t) \<and> ap_error t = e
    | Inr (w, s3) \<Rightarrow> \<exists>t. combine q k (named_value y) l n x = (w, t) \<and> ready t s3 \<and> text_kept q t"
proof (cases x)
  case False
  with r show ?thesis by (simp add: combine_def)
next
  case True
  have e: "ap_error q = CSH_ARITH_OK" by (rule ready_error [OF r])
  let ?i = "if k = TOK_ASSIGN then Inr n else apply_operator (assignment_operation k) l n"
  have op: "(if k = TOK_ASSIGN then (n, q) else operate q (assignment_operation k) l n) =
      (case ?i of Inl e \<Rightarrow> (0, q\<lparr>ap_error := e\<rparr>) | Inr i \<Rightarrow> (i, q))"
    using operate_ready [OF assignment_binary [OF k] l [OF True] n [OF True]] by simp
  show ?thesis
  proof (cases ?i)
    case (Inl err)
    then have "err \<noteq> CSH_ARITH_OK" by (auto split: if_splits)
    with Inl op e k True show ?thesis by (simp add: combine_def)
  next
    case (Inr i)
    have "in_long i" using Inr n [OF True] apply_operator_long by (auto split: if_splits)
    note a = assign_ready [OF r y this]
    have c: "combine q k (named_value y) l n x = (exactly i, assign q (named_value y) i)"
      using Inr op e k True by (simp add: combine_def exactly_def)
    show ?thesis using a Inr True c by (auto simp: put_number_def)
  qed
qed

lemma right_runs_assignment: "precedence k = 2 \<Longrightarrow> right_runs k l x = x"
  by (auto simp: right_runs_def precedence_def)

lemma parses_Assignment:
  assumes "parses a" and "wf_aexp (Assignment k y a)"
  shows "parses (Assignment k y a)"
proof -
  have k: "precedence k = 2" and wf: "wf_aexp a" and y: "valid_name y" "length y < SIZE_MAX" using assms(2) by simp_all
  have rm: "right_minimum k = 2" and nq: "k \<noteq> TOK_QUESTION" using k by (auto simp: right_minimum_def)
  note sem = sem_assignment [OF k, of _ y a]
  have "yields p m x (sem x (Assignment k y a) s) rest"
    if at: "position_at p ((TOK_NAME, y) # op k # paren 2 (level a) (tokens a) @ rest)"
      and ok: "toks_ok rest" and r: "ready p s" and m: "1 \<le> m" "m \<le> 2" and f: "front rest \<le> 1"
    for p m x s rest
  proof -
    let ?q = "next_token p" and ?v = "named_value y"
    have "Prim p x ?v ?q" using PrimI_name [of p x] at by (simp add: position_at_def named_value_def)
    then have on: "Loop ?q m x ?v u z \<Longrightarrow> Expr p m x u z" for u z using ready_ExprI [OF r] by blast
    have q: "position_at ?q (op k # paren (right_minimum k) (level a) (tokens a) @ rest)"
      using position_next [OF at] tokens_ok [OF assms(2)] ok rm by (simp add: ball_Un)
    have n: "named_ok ?v" using y by (simp add: named_ok_def)
    have m': "m \<le> precedence k" "1 \<le> precedence k" "front rest < right_minimum k" using m k f rm by simp_all
    have "precedence k = 2 \<longrightarrow> av_name ?v \<noteq> None" by simp
    note turn = turn [OF assms(1) wf q ok ready_next [OF r] n m'(1,2) this nq m'(3), of x, unfolded right_runs_assignment [OF k]]
    show ?thesis
    proof (cases "if k = TOK_ASSIGN then Inr 0 else number_in x ?v s")
      case (Inl err)
      from yields_error [OF on] turn Inl show ?thesis by (simp add: sem)
    next
      case l: (Inr l)
      show ?thesis
      proof (cases "result_of x a s")
        case (Inl err)
        from yields_error [OF on] turn Inl l show ?thesis by (simp add: sem)
      next
        case (Inr ns)
        then obtain n s2 where n: "result_of x a s = Inr (n, s2)" by (cases ns) auto
        with turn l obtain t where t: "position_at t rest" "ready t s2"
          and go: "\<And>u t' w z. combine t k ?v l n x = (u, t') \<Longrightarrow> Loop t' m x u w z \<Longrightarrow> Loop ?q m x ?v w z"
          by auto
        have "in_long l" using l number_in_long [of x "Variable y" s ?v s] by (auto simp: sem_def split: if_splits)
        note c = combine_assignment [OF k this outcome_long [OF n] t(2) y, of x]
        show ?thesis
        proof (cases "sem x (Assignment k y a) s")
          case (Inl e)
          then obtain u t' where t': "combine t k ?v l n x = (u, t')" "ap_error t' = e"
            using c l n by (auto simp: sem)
          moreover have "e \<noteq> CSH_ARITH_OK" using Inl sem_no_ok_error by metis
          ultimately have "\<exists>u z. Loop ?q m x ?v u z \<and> ap_error z = e" using go [OF t'(1) Loop_error] by auto
          from yields_error [OF on this] Inl show ?thesis by simp
        next
          case (Inr ws)
          then obtain w s3 t' where w: "sem x (Assignment k y a) s = Inr (w, s3)"
            and t': "combine t k ?v l n x = (w, t')" "ready t' s3" "text_kept t t'"
            using c l n by (cases ws) (auto simp: sem)
          from yields_on [OF on go [OF t'(1)] position_kept [OF t'(3) t(1)] t'(2)] w show ?thesis by simp
        qed
      qed
    qed
  qed
  then show ?thesis by (auto simp: parses_def k)
qed

subsubsection \<open>Conditional expressions\<close>

lemma sem_conditional:
  assumes "sem x c s = Inr (v, s1)"
  shows "sem x (Conditional c a b) s =
    (case number_in x v s1 of
       Inl e \<Rightarrow> Inl e
     | Inr l \<Rightarrow>
         (case result_of (x \<and> l \<noteq> 0) a s1 of
            Inl e \<Rightarrow> Inl e
          | Inr (i, s2) \<Rightarrow>
              (case result_of (x \<and> l = 0) b s2 of
                 Inl e \<Rightarrow> Inl e
               | Inr (j, s3) \<Rightarrow> Inr (exactly (if l \<noteq> 0 then i else j), s3))))"
proof (cases x)
  case False
  with assms show ?thesis by (simp add: result_of_def exactly_zero)
next
  case True
  with assms sem_number [of c s v s1] show ?thesis
    by (auto simp: sem_def [of True "Conditional c a b"] result_of_def split: sum.splits)
qed

lemma yields_conditional:
  assumes abc: "parses a" "wf_aexp a" "parses b" "wf_aexp b" "wf_aexp c" and c: "sem x c s = Inr (v, s1)"
    and q: "position_at q (op TOK_QUESTION # paren 1 (level a) (tokens a) @ op TOK_COLON # paren 3 (level b) (tokens b) @ rest)"
      "ready q s1"
    and ok: "toks_ok rest" and m: "m \<le> 3" and f: "front rest \<le> 2"
    and on: "\<And>u z. Loop q m x v u z \<Longrightarrow> Expr p m x u z"
  shows "yields p m x (sem x (Conditional c a b) s) rest"
proof -
  let ?colon = "op TOK_COLON # paren 3 (level b) (tokens b) @ rest"
  have okb: "toks_ok ?colon" using ok paren_ok [OF tokens_ok [OF abc(4)]] by (simp add: ball_Un op_ok)
  have k: "ap_token q = TOK_QUESTION" by (rule position_op [OF q(1)])
  have go: "\<not> stops q m" using m k ready_error [OF q(2)] by (simp add: stops_def)
  note sem = sem_conditional [OF c, of a b]
  have rn: "ready (next_token q) s1" by (rule ready_next [OF q(2)])
  have left: "read_left q v x = (case number_in x v s1 of
      Inl e \<Rightarrow> (0, (next_token q)\<lparr>ap_error := e\<rparr>) | Inr n \<Rightarrow> (n, next_token q))"
    using read_value_ready [OF rn named_ok_sem [OF abc(5) c]] k by (simp add: read_left_def)
  have ata: "position_at (next_token q) (paren 1 (level a) (tokens a) @ ?colon)"
    using position_next [OF q(1)] paren_ok [OF tokens_ok [OF abc(2)]] okb by (simp add: ball_Un)
  show ?thesis
  proof (cases "number_in x v s1")
    case (Inl err)
    let ?t = "(next_token q)\<lparr>ap_error := err\<rparr>"
    have e: "ap_error ?t \<noteq> CSH_ARITH_OK" using Inl by auto
    have "Loop q m x v v ?t"
      using LoopI_question_error [OF go k _ Expr_error [OF e] read_value_error [OF e] e, of v x 0] left Inl by simp
    then have "\<exists>u z. Loop q m x v u z \<and> ap_error z = err" by fastforce
    from yields_error [OF on this] Inl show ?thesis by (simp add: sem)
  next
    case l: (Inr l)
    have rl: "read_left q v x = (l, next_token q)" using left l by simp
    let ?x = "x \<and> l \<noteq> 0" and ?z = "x \<and> l = 0"
    have "yields (next_token q) 1 ?x (sem ?x a s1) ?colon"
      using parses_paren [OF abc(1,2) ata okb rn] by (simp add: precedence_def)
    note a = yields_operand [OF this abc(2), simplified precedence_def front_simps token.case zero_less_one simp_thms]
    show ?thesis
    proof (cases "result_of ?x a s1")
      case (Inl err)
      then obtain w t n t' where t: "Expr (next_token q) 1 ?x w t" "read_value t w ?x = (n, t')" "ap_error t' = err"
        using a by auto
      have "ap_error t' \<noteq> CSH_ARITH_OK" using Inl outcome_no_ok_error t(3) by metis
      from LoopI_question_error [OF go k rl t(1,2) this] t(3) have "\<exists>u z. Loop q m x v u z \<and> ap_error z = err" by blast
      from yields_error [OF on this] Inl l show ?thesis by (simp add: sem)
    next
      case (Inr is2)
      then obtain i s2 w t where i: "result_of ?x a s1 = Inr (i, s2)"
        and t: "Expr (next_token q) 1 ?x w t" "read_value t w ?x = (i, t)" "position_at t ?colon" "ready t s2"
        using a by (cases is2) auto
      note loop = LoopI_question [OF go k rl t(1,2) ready_error [OF t(4)] position_op [OF t(3)]]
      have atb: "position_at (next_token t) (paren 3 (level b) (tokens b) @ rest)"
        using position_next [OF t(3)] okb by simp
      have "front rest \<le> follow b" if "3 \<le> level b" using that f level_follow [of b] by auto
      then have "yields (next_token t) 3 ?z (sem ?z b s2) rest"
        using parses_paren [OF abc(3,4) atb ok ready_next [OF t(4)]] by simp
      note b = yields_operand [OF this abc(4)]
      show ?thesis
      proof (cases "result_of ?z b s2")
        case (Inl err)
        then obtain w' u n u' where u: "Expr (next_token t) 3 ?z w' u" "read_value u w' ?z = (n, u')" "ap_error u' = err"
          using b f by auto
        have "ap_error u' \<noteq> CSH_ARITH_OK" using Inl outcome_no_ok_error u(3) by metis
        from loop [OF u(1,2) Loop_error [OF this]] u(3) have "\<exists>u z. Loop q m x v u z \<and> ap_error z = err" by blast
        from yields_error [OF on this] Inl l i show ?thesis by (simp add: sem)
      next
        case (Inr js3)
        then obtain j s3 w' u where j: "result_of ?z b s2 = Inr (j, s3)"
          and u: "Expr (next_token t) 3 ?z w' u" "read_value u w' ?z = (j, u)" "position_at u rest" "ready u s3"
          using b f by (cases js3) auto
        from yields_on [OF on loop [OF u(1,2)] u(3,4)] i j l show ?thesis by (simp add: sem exactly_def)
      qed
    qed
  qed
qed

lemma parses_Conditional:
  assumes "parses c" and "parses a" and "parses b" and "wf_aexp (Conditional c a b)"
  shows "parses (Conditional c a b)"
proof -
  have wf: "wf_aexp c" "wf_aexp a" "wf_aexp b" using assms(4) by simp_all
  let ?more = "\<lambda>rest. op TOK_QUESTION # paren 1 (level a) (tokens a) @ op TOK_COLON # paren 3 (level b) (tokens b) @ rest"
  have okm: "toks_ok (?more rest)" if "toks_ok rest" for rest
    using that tokens_ok [OF assms(4)] by (simp add: ball_Un)
  have fc: "3 \<le> follow c" if "4 \<le> level c" using that level_follow [of c] by auto
  have "yields p m x (sem x (Conditional c a b) s) rest"
    if at: "position_at p (paren 4 (level c) (tokens c) @ ?more rest)" and ok: "toks_ok rest" and r: "ready p s"
      and m: "1 \<le> m" "m \<le> 3" and f: "front rest \<le> 2" for p m x s rest
  proof -
    have yc: "yields p m x (sem x c s) (?more rest)"
      using parses_paren [OF assms(1) wf(1) at okm [OF ok] r m(1)] m(2) fc by simp
    show ?thesis
    proof (cases "sem x c s")
      case (Inl err)
      then have "sem x (Conditional c a b) s = Inl err" using sem_Inl [OF Inl] by (simp add: sem_def)
      with yc Inl show ?thesis by (simp add: yields_def)
    next
      case (Inr vs)
      then obtain v s1 where v: "sem x c s = Inr (v, s1)" by (cases vs) auto
      then obtain q where q: "position_at q (?more rest)" "ready q s1"
        and on: "\<And>u z. Loop q m x v u z \<Longrightarrow> Expr p m x u z" using yc by (auto simp: yields_def)
      show ?thesis by (rule yields_conditional [OF assms(2) wf(2) assms(3) wf(3,1) v q ok m(2) f on])
    qed
  qed
  then show ?thesis by (auto simp: parses_def)
qed

lemma parses_all: "wf_aexp e \<Longrightarrow> parses e"
proof (induction e)
  case (Unary k a)
  then show ?case by (intro parses_Unary) simp_all
next
  case (Binary k a b)
  then show ?case by (intro parses_Binary) simp_all
next
  case (Assignment k y a)
  then show ?case by (intro parses_Assignment) simp_all
next
  case (Conditional c a b)
  then show ?case by (intro parses_Conditional) simp_all
qed (simp_all add: parses_Const parses_Variable)

subsection \<open>Evaluating a spelling\<close>

text \<open>When no allocation fails, none fails later: taking a checkpoint uses up no answer.\<close>

lemma copies_plenty:
  "snd (copy_bytes t []) = []" "snd (new_variable n v a []) = []" "snd (copy_vector ts []) = []"
proof -
  show c: "snd (copy_bytes t []) = []" for t by (simp add: copy_bytes_def)
  then show "snd (new_variable n v a []) = []"
    by (auto simp: new_variable_def split: option.splits prod.splits) (metis snd_conv)+
  show "snd (copy_vector ts []) = []"
    by (induction ts) (use c in \<open>auto split: option.splits prod.splits dest: arg_cong [of _ _ snd]\<close>)
qed

lemma copies_plentyD:
  "copy_bytes t [] = (r, h) \<Longrightarrow> h = []" "new_variable n v a [] = (x, h) \<Longrightarrow> h = []"
  "copy_vector ts [] = (rs, h) \<Longrightarrow> h = []"
  using copies_plenty(1) [of t] copies_plenty(2) [of n v a] copies_plenty(3) [of ts] by auto

lemma set_alias_plenty: "snd (snd (set_alias al n v [])) = []"
  by (auto simp: set_alias_def alias_copy_bytes_def split: option.splits prod.splits)

lemma aliases_clone_plenty: "snd (snd (csh_aliases_clone al [])) = []"
proof -
  have "snd (snd (clone_aliases es out [])) = []" for es out
  proof (induction es arbitrary: out)
    case (Cons e es)
    then show ?case using set_alias_plenty [of out "Some (aname e)" "Some (avalue e)"]
      by (auto simp: csh_aliases_set_def split: prod.splits option.splits)
  qed simp
  then show ?thesis by (auto simp: csh_aliases_clone_def csh_aliases_create_def split: option.splits prod.splits)
qed

lemma steps_plenty:
  assumes "mallocs w = []"
  shows "mallocs (snd (snd (csh_state_set_function c n f w))) = []" "mallocs (snd (snd (csh_state_hash_set c k v w))) = []"
    "mallocs (snd (snd (csh_state_set_parameters c as w))) = []"
  using assms
  by (auto simp: csh_state_set_function_def csh_function_retain_def csh_function_release_def csh_state_hash_set_def
      csh_state_set_parameters_def Let_def split: option.splits prod.splits dest: copies_plentyD)

lemma clone_plenty:
  assumes "mallocs w = []"
  shows "mallocs (snd (snd (clone_variables vs c w))) = []" "mallocs (snd (snd (clone_functions fs c w))) = []"
    "mallocs (snd (snd (clone_hashes hs c w))) = []"
proof -
  show "mallocs (snd (snd (clone_variables vs c w))) = []" using assms
  proof (induction vs arbitrary: c w)
    case (Cons v vs)
    then show ?case using copies_plenty(2) [of "v_name v" "v_value v" "v_attributes v"]
      by (auto split: prod.splits option.splits)
  qed simp
  show "mallocs (snd (snd (clone_functions fs c w))) = []" using assms
  proof (induction fs arbitrary: c w)
    case (Cons e fs)
    then show ?case using steps_plenty(1) [of w c "Some (f_name e)" "Some (f_value e)"]
      by (auto split: prod.splits csh_state_result.splits)
  qed simp
  show "mallocs (snd (snd (clone_hashes hs c w))) = []" using assms
  proof (induction hs arbitrary: c w)
    case (Cons v hs)
    then show ?case using steps_plenty(2) [of w c "v_name v" "v_value v"]
      by (auto split: prod.splits csh_state_result.splits)
  qed simp
qed

lemma clone_tables_plenty:
  assumes "mallocs w = []" and "clone_tables s c w = (True, c', w')"
  shows "mallocs w' = []"
proof -
  from assms(2) obtain c1 w1 c2 w2 al h where
    1: "clone_variables (st_variables s) c w = (True, c1, w1)" and
    2: "clone_functions (st_functions s) c1 w1 = (True, c2, w2)" and
    3: "csh_aliases_clone (st_aliases s) (mallocs w2) = (None, al, h)" and
    4: "clone_hashes (st_hashes s) (c2\<lparr>st_aliases := al\<rparr>) (w2\<lparr>mallocs := h\<rparr>) = (True, c', w')"
    by (auto simp: clone_tables_def split: prod.splits bool.splits option.splits)
  have "mallocs w1 = []" using clone_plenty(1) [OF assms(1), of "st_variables s" c] 1 by simp
  then have "mallocs w2 = []" using clone_plenty(2) [of w1 "st_functions s" c1] 2 by simp
  then have "h = []" using aliases_clone_plenty [of "st_aliases s"] 3 by simp
  then show ?thesis using clone_plenty(3) [of "w2\<lparr>mallocs := h\<rparr>" "st_hashes s" "c2\<lparr>st_aliases := al\<rparr>"] 4 by simp
qed

lemma save_plenty:
  assumes "csh_state_save s w = (CSH_STATE_OK, cp, w1)" and "mallocs w = []"
  shows "mallocs w1 = []"
proof -
  obtain a h where a: "copy_bytes (st_arg0 s) [] = (a, h)" by (cases "copy_bytes (st_arg0 s) []")
  then have h: "h = []" using copies_plenty(1) [of "st_arg0 s"] by simp
  let ?args = "map Some (take (si_argument_count (st_info s)) (st_arguments s))"
  obtain r c w2 where p: "csh_state_set_parameters (zero_state\<lparr>st_arg0 := the a\<rparr>) ?args (w\<lparr>mallocs := h\<rparr>) = (r, c, w2)"
    by (cases "csh_state_set_parameters (zero_state\<lparr>st_arg0 := the a\<rparr>) ?args (w\<lparr>mallocs := h\<rparr>)") auto
  have w2: "mallocs w2 = []"
    using steps_plenty(3) [of "w\<lparr>mallocs := h\<rparr>" "zero_state\<lparr>st_arg0 := the a\<rparr>" ?args] p h by simp
  obtain b c3 w3 where t: "clone_tables s c w2 = (b, c3, w3)" by (cases "clone_tables s c w2") auto
  have "b \<and> w3 = w1"
    using assms a p t by (auto simp: csh_state_save_def csh_state_clone_def split: option.splits csh_state_result.splits bool.splits)
  with clone_tables_plenty [OF w2] t show ?thesis by simp
qed

lemma Expr_run:
  assumes "Expr (next_token p) 1 x v q" and "ap_token (next_token p) \<noteq> TOK_END"
  shows "expression (arith_fuel (ap_next p)) (next_token p) 1 x = Some (v, q)"
proof -
  obtain a where a: "expression a (next_token p) 1 x = Some (v, q)" using assms(1) by (auto simp: Expr_def)
  obtain v' q' where b: "expression (arith_fuel (ap_next p)) (next_token p) 1 x = Some (v', q')"
    by (rule run_expression [OF assms(2)])
  let ?n = "max a (arith_fuel (ap_next p))"
  have "expression ?n (next_token p) 1 x = Some (v, q)" by (rule fuel_up(2) [OF _ a]) simp
  moreover have "expression ?n (next_token p) 1 x = Some (v', q')" by (rule fuel_up(2) [OF _ b]) simp
  ultimately have "(v, q) = (v', q')" by simp
  with b show ?thesis by simp
qed

lemma tokens_start: "wf_aexp e \<Longrightarrow> \<exists>k l ts. tokens e = (k, l) # ts \<and> k \<noteq> TOK_END"
proof (induction e)
  case (Unary k a)
  then show ?case by (auto simp: op_def)
next
  case (Binary k a b)
  then show ?case by (auto simp: paren_def op_def)
next
  case (Conditional c a b)
  then show ?case by (auto simp: paren_def op_def)
qed auto

lemma spelling_parsed:
  fixes s :: csh_state
  assumes wf: "wf_aexp e" and w: "mallocs w = []"
  defines "p \<equiv> fresh_parser (spelling e) s (si_options (st_info s)) w []"
  shows "ap_token (next_token p) \<noteq> TOK_END" and "yields (next_token p) 1 x (sem x e s) []"
proof -
  have at: "position_at (next_token p) (tokens e @ [])"
    using next_token_position [of p "tokens e"] tokens_ok [OF wf] by (simp add: p_def fresh_parser_def spelling_def)
  have r: "ready (next_token p) s" using w by (intro ready_next) (simp add: p_def ready_def fresh_parser_def)
  show "ap_token (next_token p) \<noteq> TOK_END" using tokens_start [OF wf] at by (auto simp: position_at_def)
  show "yields (next_token p) 1 x (sem x e s) []"
    using parses_all [OF wf] at r level_pos [OF wf] unfolding parses_def by simp
qed

lemma run_spelling:
  assumes wf: "wf_aexp e" and w: "mallocs w = []"
  shows "\<exists>q. case result_of x e s of
      Inl err \<Rightarrow> run (fresh_parser (spelling e) s (si_options (st_info s)) w []) x = Some (None, q) \<and> ap_error q = err
    | Inr (n, s') \<Rightarrow> run (fresh_parser (spelling e) s (si_options (st_info s)) w []) x = Some (Some n, q) \<and>
        ap_error q = CSH_ARITH_OK \<and> ap_state q = s'"
proof -
  let ?p = "fresh_parser (spelling e) s (si_options (st_info s)) w []"
  note ne = spelling_parsed(1) [OF assms, of s]
  have o: "case result_of x e s of
      Inl err \<Rightarrow> \<exists>v q n r. Expr (next_token ?p) 1 x v q \<and> read_value q v x = (n, r) \<and> ap_error r = err \<and>
        (ap_error q = CSH_ARITH_OK \<longrightarrow> position_at q [])
    | Inr (n, s') \<Rightarrow> \<exists>v q. Expr (next_token ?p) 1 x v q \<and> read_value q v x = (n, q) \<and> position_at q [] \<and> ready q s'"
    by (rule yields_operand [OF spelling_parsed(2) [OF assms] wf]) simp
  show ?thesis
  proof (cases "result_of x e s")
    case (Inl err)
    then obtain v q n t where q: "Expr (next_token ?p) 1 x v q" "read_value q v x = (n, t)" "ap_error t = err"
      "ap_error q = CSH_ARITH_OK \<longrightarrow> position_at q []" using o by auto
    have err: "err \<noteq> CSH_ARITH_OK" using Inl by auto
    show ?thesis using Inl q err ne Expr_run [OF q(1) ne]
      by (auto simp: run_def Let_def read_value_error position_at_def)
  next
    case (Inr ns)
    then obtain n s' v q where a: "result_of x e s = Inr (n, s')" and
      q: "Expr (next_token ?p) 1 x v q" "read_value q v x = (n, q)" "position_at q []" "ready q s'"
      using o by (cases ns) auto
    have "ap_error q = CSH_ARITH_OK" "ap_token q = TOK_END" "ap_state q = s'"
      using q(3,4) by (simp_all add: ready_def position_at_def)
    with a q(2) Expr_run [OF q(1) ne] ne show ?thesis by (auto simp: run_def)
  qed
qed


text \<open>
  the probes accept every expression. The spelling of an expression tree is accepted by
  \<open>csh_arith_probe\<close> and is a good prefix for \<open>csh_arith_probe_prefix\<close>, even where evaluating it
  would fail (an overflow, a division by zero, a read-only variable), and the world is not touched.
\<close>

theorem probes_accept:
  assumes "wf_aexp e" and "mallocs w = []"
  shows "csh_arith_probe (Some (spelling e)) w [] = Some (CSH_ARITH_OK, w) \<and>
    csh_arith_probe_prefix (Some (spelling e)) w [] = Some (1, w)"
proof -
  obtain q where q: "run (fresh_parser (spelling e) zero_state 0 w []) False = Some (Some 0, q)"
    "ap_error q = CSH_ARITH_OK"
    using run_spelling [OF assms, of zero_state False] by (auto simp: result_of_def zero_state_def zero_info_def)
  then have "ap_world q = w" using run_dry [OF q(1)] by (simp add: fresh_parser_def grammar_error_def)
  with q show ?thesis by (simp add: csh_arith_probe_def csh_arith_probe_prefix_def)
qed

definition sample_expression :: aexp where
  "sample_expression =
     Binary TOK_COMMA (Assignment TOK_ASSIGN ''y'' (Binary TOK_MUL (Binary TOK_ADD (Const 1) (Const 5)) (Const 7)))
       (Conditional (Variable ''y'') (Variable ''y'') (Binary TOK_DIV (Const 1) (Const 0)))"

lemma sample_expression_wf: "wf_aexp sample_expression"
  by (simp add: sample_expression_def binary_operator_def precedence_def valid_name_def name_start_def less_eq_char_def
      SIZE_MAX_def)

lemma sample_spelling: "spelling sample_expression = '' y = ( 1 + 5 ) * 7 , y ? y : 1 / 0''"
  by (simp add: spelling_def sample_expression_def render_def paren_def op_def spell_def operators_def precedence_def
      show_nat.simps char_of_def bit_0)

lemma sample_aeval:
  "aeval sample_expression sample_state = Inr (42, assigned sample_state ''y'' ''42'')"
proof -
  have "find_variable sample_state ''y'' = None"
    by (simp add: find_variable_def sample_state_def zero_state_def)
  moreover have "show_long 42 = ''42''" by (simp add: show_long_def show_nat.simps char_of_def bit_0)
  moreover have "read_text ''42'' = Inr 42"
    by (simp add: read_text_def literal_spec constant_value_def digits_def number_of_def digit_value_def digit_def
        less_eq_char_def classify_def LONG_MAX_def)
  ultimately show ?thesis
    by (simp add: sample_expression_def apply_operator_def exact_operation_def in_long_def LONG_MAX_def LONG_MIN_def
        put_number_def readonly_def get_number_def find_assigned)
qed


theorem probes_accept_witness:
  "csh_arith_probe (Some '' y = ( 1 + 5 ) * 7 , y ? y : 1 / 0'') sample_world [] = Some (CSH_ARITH_OK, sample_world)"
  using probes_accept [OF sample_expression_wf, of sample_world] by (simp add: sample_spelling sample_world_def)

end
