(* ===== verification/Character.thy ===== *)
theory Character
  imports State
begin

text \<open>
  \<open>src/character.c\<close>: the byte length of the character at the front of a text, in the current
  locale or in the one captured at startup.

  The decoder of libc, \<open>mbrlen\<close> from a fresh shift state, is a parameter: for the name of an
  \<open>LC_CTYPE\<close> locale and a text, whether the text starts with no character, with the beginning of
  one, or with a character of some length (0 for NUL). So is \<open>btowc\<close>: whether a byte is a character
  by itself. \<open>MB_CUR_MAX\<close>, at least 1, is \<open>1 + mb_more\<close>. All the code relies on is \<open>mbrlen_ok\<close>: a
  decoded character lies within the text. \<open>utf8\<close> is one such decoder.
\<close>

subsection \<open>Model\<close>

datatype mbr = MB_INVALID | MB_PARTIAL | MB_LENGTH nat

record ctype =
  mbrlen :: "string \<Rightarrow> string \<Rightarrow> mbr"
  btowc :: "string \<Rightarrow> char \<Rightarrow> bool"
  mb_more :: nat
  startup :: "string option"
  current_ctype :: string

text \<open>\<open>startup\<close> is the static variable; the argument \<open>room\<close> says whether \<open>duplocale\<close> succeeds.\<close>

definition csh_character_startup :: "ctype \<Rightarrow> bool \<Rightarrow> int \<times> ctype" where
  "csh_character_startup cx room =
     (if startup cx \<noteq> None then (0, cx)
      else if room then (0, cx\<lparr>startup := Some (current_ctype cx)\<rparr>)
      else (-1, cx))"

definition csh_character_shutdown :: "ctype \<Rightarrow> ctype" where
  "csh_character_shutdown cx = cx\<lparr>startup := None\<rparr>"

definition csh_character_length :: "ctype \<Rightarrow> string \<Rightarrow> bool \<Rightarrow> bool \<Rightarrow> nat" where
  "csh_character_length cx t lexical final =
     (case t of
        [] \<Rightarrow> 0
      | c # _ \<Rightarrow>
          if (of_char c :: nat) < 0x80 then 1
          else
            (case mbrlen cx
                    (case startup cx of Some l \<Rightarrow> if lexical then l else current_ctype cx
                                      | None \<Rightarrow> current_ctype cx) t of
               MB_PARTIAL \<Rightarrow> if final then 1 else 0
             | MB_INVALID \<Rightarrow> 1
             | MB_LENGTH n \<Rightarrow> if n = 0 then 1 else n))"

text \<open>\<open>mbrlen\<close> in the current locale, with one byte for what is no character: what the callers
  that use \<open>mbrlen\<close> themselves make of it.\<close>

definition character_bytes :: "ctype \<Rightarrow> string \<Rightarrow> nat" where
  "character_bytes cx t =
     (case mbrlen cx (current_ctype cx) t of MB_LENGTH n \<Rightarrow> if n = 0 then 1 else n | _ \<Rightarrow> 1)"

lemma character_bytes_pos: "0 < character_bytes cx t"
  by (simp add: character_bytes_def split: mbr.splits)

subsection \<open>What is relied on\<close>

definition mbrlen_ok :: "ctype \<Rightarrow> bool" where
  "mbrlen_ok cx \<longleftrightarrow> (\<forall>l t n. mbrlen cx l t = MB_LENGTH n \<longrightarrow> n \<le> length t)"

lemma character_length_le: "mbrlen_ok cx \<Longrightarrow> csh_character_length cx t lexical final \<le> length t"
  by (fastforce simp: csh_character_length_def mbrlen_ok_def split: list.splits mbr.splits)

lemma character_length_pos: "t \<noteq> [] \<Longrightarrow> 0 < csh_character_length cx t lexical True"
  by (auto simp: csh_character_length_def split: list.splits mbr.splits)

lemma character_length_Cons [simp]: "0 < csh_character_length cx (c # t) lexical True"
  by (rule character_length_pos) simp

lemma character_length_drop [simp]:
  "length (drop (csh_character_length cx (c # t) lexical True) xs) < Suc n" if "length xs \<le> Suc n"
  using that character_length_Cons [of cx c t lexical] by (auto simp del: character_length_Cons)

lemma character_length_ascii:
  "(of_char c :: nat) < 0x80 \<Longrightarrow> csh_character_length cx (c # t) lexical final = 1"
  by (simp add: csh_character_length_def)

subsection \<open>UTF-8\<close>

text \<open>A decoder for the usual encoding: lead byte, continuation bytes, no overlong forms, no surrogates.\<close>

definition utf8_lead :: "nat \<Rightarrow> (nat \<times> nat \<times> nat) option" where
  "utf8_lead b =
     (if b < 0x80 then Some (1, 0x80, 0xBF)
      else if 0xC2 \<le> b \<and> b < 0xE0 then Some (2, 0x80, 0xBF)
      else if b = 0xE0 then Some (3, 0xA0, 0xBF)
      else if b = 0xED then Some (3, 0x80, 0x9F)
      else if 0xE0 < b \<and> b < 0xF0 then Some (3, 0x80, 0xBF)
      else if b = 0xF0 then Some (4, 0x90, 0xBF)
      else if 0xF0 < b \<and> b < 0xF4 then Some (4, 0x80, 0xBF)
      else if b = 0xF4 then Some (4, 0x80, 0x8F)
      else None)"

definition utf8 :: "string \<Rightarrow> mbr" where
  "utf8 t =
     (case t of
        [] \<Rightarrow> MB_PARTIAL
      | c # cs \<Rightarrow>
          if of_char c = (0 :: nat) then MB_LENGTH 0
          else
            (case utf8_lead (of_char c) of
               None \<Rightarrow> MB_INVALID
             | Some (n, low, high) \<Rightarrow>
                 (let tail = map of_char (take (n - 1) cs)
                  in if tail \<noteq> [] \<and> \<not> (low \<le> hd tail \<and> hd tail \<le> high) \<or>
                        \<not> list_all (\<lambda>b. 0x80 \<le> b \<and> b \<le> (0xBF :: nat)) (drop 1 tail) then MB_INVALID
                     else if length tail < n - 1 then MB_PARTIAL
                     else MB_LENGTH n)))"

definition utf8_context :: ctype where
  "utf8_context =
     \<lparr>mbrlen = (\<lambda>_. utf8), btowc = (\<lambda>_ c. (of_char c :: nat) < 0x80), mb_more = 3, startup = Some ''C.UTF-8'',
      current_ctype = ''C.UTF-8''\<rparr>"

lemma utf8_lead_pos: "utf8_lead b = Some (n, x, y) \<Longrightarrow> 0 < n"
  by (auto simp: utf8_lead_def split: if_splits)

lemma utf8_ok: "mbrlen_ok utf8_context"
  by (auto simp: mbrlen_ok_def utf8_context_def utf8_def Let_def split: list.splits if_splits option.splits
      dest: utf8_lead_pos)

end
