(* ===== verification/Quote.thy ===== *)
theory Quote
  imports Character
begin

text \<open>
  \<open>src/quote.c\<close>: the decoder of \<open>$'...'\<close> regions. The cursor into the source is the rest of the
  text; the bytes stored are the result. One turn of the loop is \<open>quote_turn\<close>.
\<close>

subsection \<open>Model\<close>

datatype csh_quote_result = CSH_QUOTE_OK | CSH_QUOTE_INVALID | CSH_QUOTE_NOMEM

abbreviation backslash :: char where "backslash \<equiv> CHR 0x5C"

abbreviation byte_value :: "char \<Rightarrow> nat" where "byte_value c \<equiv> of_char c"

definition hexadecimal :: "char \<Rightarrow> nat option" where
  "hexadecimal byte =
     (if CHR ''0'' \<le> byte \<and> byte \<le> CHR ''9'' then Some (byte_value byte - 0x30)
      else if CHR ''a'' \<le> byte \<and> byte \<le> CHR ''f'' then Some (byte_value byte - 0x61 + 10)
      else if CHR ''A'' \<le> byte \<and> byte \<le> CHR ''F'' then Some (byte_value byte - 0x41 + 10)
      else None)"

definition control :: "char \<Rightarrow> nat option" where
  "control byte =
     (if CHR ''a'' \<le> byte \<and> byte \<le> CHR ''z'' then Some (byte_value byte - 0x61 + 1)
      else if CHR ''A'' \<le> byte \<and> byte \<le> CHR ''Z'' then Some (byte_value byte - 0x41 + 1)
      else if byte = CHR ''['' then Some 27
      else if byte = backslash then Some 28
      else if byte = CHR '']'' then Some 29
      else if byte = CHR ''^'' then Some 30
      else if byte = CHR ''_'' then Some 31
      else if byte = CHR ''?'' then Some 127
      else None)"

definition octal :: "char \<Rightarrow> bool" where
  "octal byte \<longleftrightarrow> CHR ''0'' \<le> byte \<and> byte \<le> CHR ''7''"

text \<open>The two digit loops: at most \<open>n\<close> more digits; the value and what is left of the text.\<close>

fun hex_digits :: "nat \<Rightarrow> nat \<Rightarrow> string \<Rightarrow> nat \<times> string" where
  "hex_digits (Suc n) value (c # cs) =
     (case hexadecimal c of
        Some d \<Rightarrow> hex_digits n (value * 16 + d) cs
      | None \<Rightarrow> (value, c # cs))"
| "hex_digits _ value cs = (value, cs)"

fun octal_digits :: "nat \<Rightarrow> nat \<Rightarrow> string \<Rightarrow> nat \<times> string" where
  "octal_digits (Suc n) value (c # cs) =
     (if octal c then octal_digits n (value * 8 + (byte_value c - 0x30)) cs else (value, c # cs))"
| "octal_digits _ value cs = (value, cs)"

text \<open>What one turn of the loop does: the bytes it stores first, the byte it then stores (none
  where the turn ends early), whether that byte is checked with \<open>btowc\<close>, and the rest of the text.\<close>

record decoded =
  qt_stored :: string
  qt_byte :: "char option"
  qt_check :: bool
  qt_rest :: string

definition plain_byte :: "char \<Rightarrow> string \<Rightarrow> decoded" where
  "plain_byte c rest = \<lparr>qt_stored = [], qt_byte = Some c, qt_check = False, qt_rest = rest\<rparr>"

definition kept_escape :: "char \<Rightarrow> string \<Rightarrow> decoded" where
  "kept_escape escaped rest =
     \<lparr>qt_stored = [backslash], qt_byte = Some escaped, qt_check = False, qt_rest = rest\<rparr>"

definition control_escape :: "string \<Rightarrow> decoded" where
  "control_escape cs =
     (case cs of
        [] \<Rightarrow> kept_escape CHR ''c'' cs
      | d # ds \<Rightarrow>
          (case control d of
             Some k \<Rightarrow>
               if d \<noteq> backslash \<or> (ds \<noteq> [] \<and> hd ds = backslash)
               then \<lparr>qt_stored = [], qt_byte = Some (char_of k), qt_check = True,
                     qt_rest = (if d = backslash then tl ds else ds)\<rparr>
               else kept_escape CHR ''c'' cs
           | None \<Rightarrow> kept_escape CHR ''c'' cs))"

definition hex_escape :: "string \<Rightarrow> decoded" where
  "hex_escape cs =
     (case cs of
        [] \<Rightarrow> kept_escape CHR ''x'' cs
      | d # _ \<Rightarrow>
          if hexadecimal d = None then kept_escape CHR ''x'' cs
          else (case hex_digits 2 0 cs of (value, rest) \<Rightarrow> plain_byte (char_of value) rest))"

definition escape :: "char \<Rightarrow> string \<Rightarrow> decoded" where
  "escape escaped cs =
     (if escaped = CHR 0x22 then plain_byte (CHR 0x22) cs
      else if escaped = CHR 0x27 then plain_byte (CHR 0x27) cs
      else if escaped = backslash then plain_byte backslash cs
      else if escaped = CHR ''a'' then plain_byte (CHR 0x07) cs
      else if escaped = CHR ''b'' then plain_byte (CHR 0x08) cs
      else if escaped = CHR ''e''
        then \<lparr>qt_stored = [], qt_byte = Some (CHR 0x1B), qt_check = True, qt_rest = cs\<rparr>
      else if escaped = CHR ''f'' then plain_byte (CHR 0x0C) cs
      else if escaped = CHR ''n'' then plain_byte (CHR 0x0A) cs
      else if escaped = CHR ''r'' then plain_byte (CHR 0x0D) cs
      else if escaped = CHR ''t'' then plain_byte (CHR 0x09) cs
      else if escaped = CHR ''v'' then plain_byte (CHR 0x0B) cs
      else if escaped = CHR ''c'' then control_escape cs
      else if escaped = CHR ''x'' then hex_escape cs
      else if octal escaped
        then (case octal_digits 2 (byte_value escaped - 0x30) cs of
                (value, rest) \<Rightarrow> plain_byte (char_of (value mod 256)) rest)
      else kept_escape escaped cs)"

definition quote_turn :: "ctype \<Rightarrow> char \<Rightarrow> string \<Rightarrow> decoded" where
  "quote_turn cx c cs =
     (let width = csh_character_length cx (c # cs) True True
      in if 1 < width
         then \<lparr>qt_stored = take width (c # cs), qt_byte = None, qt_check = False,
               qt_rest = drop width (c # cs)\<rparr>
         else if c = backslash \<and> cs \<noteq> [] then
           (let width = csh_character_length cx cs True True
            in if 1 < width
               then \<lparr>qt_stored = backslash # take width cs, qt_byte = None, qt_check = False,
                     qt_rest = drop width cs\<rparr>
               else escape (hd cs) (tl cs))
         else plain_byte c cs)"

lemma hex_digits_length: "length (snd (hex_digits n v cs)) \<le> length cs"
  by (induction n v cs rule: hex_digits.induct) (auto split: option.splits)

lemma octal_digits_length: "length (snd (octal_digits n v cs)) \<le> length cs"
  by (induction n v cs rule: octal_digits.induct) auto

lemma escape_length: "length (qt_rest (escape e cs)) \<le> length cs"
proof -
  have "length (qt_rest (control_escape cs)) \<le> length cs"
    by (auto simp: control_escape_def kept_escape_def split: list.splits option.splits)
  moreover have "length (qt_rest (hex_escape cs)) \<le> length cs"
    using hex_digits_length [of 2 0 cs]
    by (auto simp: hex_escape_def kept_escape_def plain_byte_def split: list.splits prod.splits)
  ultimately show ?thesis
    using octal_digits_length [of 2 "byte_value e - 0x30" cs]
    by (auto simp: escape_def plain_byte_def kept_escape_def split: prod.splits)
qed

lemma quote_turn_progress: "length (qt_rest (quote_turn cx c cs)) \<le> length cs"
proof (cases "1 < csh_character_length cx (c # cs) True True \<or> c \<noteq> backslash \<or> cs = []")
  case True
  then show ?thesis by (auto simp: quote_turn_def plain_byte_def Let_def)
next
  case False
  then obtain e es where "cs = e # es" by (cases cs) auto
  with False show ?thesis using escape_length [of e es] by (auto simp: quote_turn_def Let_def)
qed

text \<open>The loop; \<open>None\<close> is the \<open>btowc\<close> failure.\<close>

function quote_loop :: "ctype \<Rightarrow> string \<Rightarrow> string option" where
  "quote_loop cx [] = Some []"
| "quote_loop cx (c # cs) =
     (let t = quote_turn cx c cs
      in case qt_byte t of
           None \<Rightarrow> map_option ((@) (qt_stored t)) (quote_loop cx (qt_rest t))
         | Some b \<Rightarrow>
             if qt_check t \<and> \<not> btowc cx (current_ctype cx) b then None
             else if b = CHR 0x00 then Some (qt_stored t)
             else map_option ((@) (qt_stored t @ [b])) (quote_loop cx (qt_rest t)))"
  by pat_completeness auto
termination
  using quote_turn_progress by (relation "measure (length \<circ> snd)") (auto simp: less_Suc_eq_le)

declare quote_loop.simps(2) [simp del]

text \<open>\<open>bytes\<close> is \<open>None\<close> for \<open>NULL\<close>, \<open>n\<close> the length; the result has the decoded bytes.\<close>

definition csh_quote_decode ::
  "ctype \<Rightarrow> string option \<Rightarrow> nat \<Rightarrow> heap \<Rightarrow> csh_quote_result \<times> string option \<times> heap" where
  "csh_quote_decode cx bytes n h =
     (if bytes = None \<and> n \<noteq> 0 then (CSH_QUOTE_INVALID, None, h)
      else if n = SIZE_MAX then (CSH_QUOTE_NOMEM, None, h)
      else
        (let t = (case bytes of None \<Rightarrow> [] | Some b \<Rightarrow> take n b)
         in if CHR 0x00 \<in> set t then (CSH_QUOTE_INVALID, None, h)
            else
              (case malloc h of
                 (False, h) \<Rightarrow> (CSH_QUOTE_NOMEM, None, h)
               | (True, h) \<Rightarrow>
                   (case quote_loop cx t of
                      None \<Rightarrow> (CSH_QUOTE_INVALID, None, h)
                    | Some out \<Rightarrow> (CSH_QUOTE_OK, Some out, h)))))"

subsection \<open>Safety\<close>

text \<open>One turn never stores more bytes than it consumes, and stores no NUL of its own.\<close>

lemma hex_digits_first: "hexadecimal d \<noteq> None \<Longrightarrow> length (snd (hex_digits (Suc n) v (d # ds))) \<le> length ds"
  using hex_digits_length by (auto split: option.splits)

lemma escape_stored:
  "length (qt_stored (escape e cs)) + 1 + length (qt_rest (escape e cs)) \<le> 2 + length cs"
  "set (qt_stored (escape e cs)) \<subseteq> {backslash}" "set (qt_rest (escape e cs)) \<subseteq> set cs"
proof -
  have c: "length (qt_stored (control_escape cs)) + 1 + length (qt_rest (control_escape cs)) \<le> 2 + length cs"
    "set (qt_stored (control_escape cs)) \<subseteq> {backslash}" "set (qt_rest (control_escape cs)) \<subseteq> set cs"
    by (auto simp: control_escape_def kept_escape_def split: list.splits option.splits dest: list.set_sel(2))
  have hs: "set (snd (hex_digits n v cs)) \<subseteq> set cs" for n v
    by (induction n v cs rule: hex_digits.induct) (auto split: option.splits)
  have os: "set (snd (octal_digits n v cs)) \<subseteq> set cs" for n v
    by (induction n v cs rule: octal_digits.induct) auto
  have h: "length (qt_stored (hex_escape cs)) + 1 + length (qt_rest (hex_escape cs)) \<le> 2 + length cs"
    "set (qt_stored (hex_escape cs)) \<subseteq> {backslash}" "set (qt_rest (hex_escape cs)) \<subseteq> set cs"
    using hex_digits_length [of 2 0 cs] hs [of 2 0]
    by (auto simp: hex_escape_def kept_escape_def plain_byte_def split: list.splits prod.splits)
  show "length (qt_stored (escape e cs)) + 1 + length (qt_rest (escape e cs)) \<le> 2 + length cs"
    "set (qt_stored (escape e cs)) \<subseteq> {backslash}" "set (qt_rest (escape e cs)) \<subseteq> set cs"
    using c h octal_digits_length [of 2 "byte_value e - 0x30" cs] os [of 2 "byte_value e - 0x30"]
    by (auto simp: escape_def plain_byte_def kept_escape_def split: prod.splits)
qed

lemma quote_turn_stored:
  "length (qt_stored (quote_turn cx c cs)) + (if qt_byte (quote_turn cx c cs) = None then 0 else 1) +
     length (qt_rest (quote_turn cx c cs)) \<le> Suc (length cs) \<and>
   set (qt_stored (quote_turn cx c cs)) \<subseteq> {backslash} \<union> set (c # cs) \<and>
   set (qt_rest (quote_turn cx c cs)) \<subseteq> set (c # cs)"
proof (cases "1 < csh_character_length cx (c # cs) True True \<or> c \<noteq> backslash \<or> cs = []")
  case True
  then show ?thesis
    by (auto simp: quote_turn_def plain_byte_def Let_def min_def dest: in_set_takeD in_set_dropD)
next
  case False
  then obtain e es where cs: "cs = e # es" by (cases cs) auto
  show ?thesis
  proof (cases "1 < csh_character_length cx cs True True")
    case True
    with False cs show ?thesis by (auto simp: quote_turn_def Let_def min_def dest: in_set_takeD in_set_dropD)
  next
    case width: False
    with False cs have "quote_turn cx c cs = escape e es" by (auto simp: quote_turn_def Let_def)
    with escape_stored [of e es] cs show ?thesis by auto
  qed
qed

lemma quote_loop_safe:
  "quote_loop cx t = Some out \<Longrightarrow> CHR 0x00 \<notin> set t \<Longrightarrow> length out \<le> length t \<and> CHR 0x00 \<notin> set out"
proof (induction cx t arbitrary: out rule: quote_loop.induct)
  case (2 cx c cs)
  define t where "t = quote_turn cx c cs"
  note turn = quote_turn_stored [of cx c cs, folded t_def]
  have nul: "CHR 0x00 \<notin> set (qt_stored t)" "CHR 0x00 \<notin> set (qt_rest t)" using turn 2(4) by auto
  show ?case
  proof (cases "qt_byte t")
    case None
    with 2(3) obtain o' where o: "quote_loop cx (qt_rest t) = Some o'" "out = qt_stored t @ o'"
      by (auto simp: quote_loop.simps(2) Let_def t_def)
    from 2(1) [OF t_def None o(1) nul(2)] o(2) turn None nul show ?thesis by auto
  next
    case (Some b)
    show ?thesis
    proof (cases "b = CHR 0x00")
      case True
      with 2(3) Some have "out = qt_stored t" by (auto simp: quote_loop.simps(2) Let_def t_def split: if_splits)
      with turn nul show ?thesis by auto
    next
      case False
      with 2(3) Some obtain o' where o: "quote_loop cx (qt_rest t) = Some o'" "out = qt_stored t @ b # o'"
        and c: "\<not> (qt_check t \<and> \<not> btowc cx (current_ctype cx) b)"
        by (auto simp: quote_loop.simps(2) Let_def t_def split: if_splits)
      from 2(2) [OF t_def Some c False o(1) nul(2)] o(2) turn Some nul False show ?thesis by auto
    qed
  qed
qed simp

lemma quote_decoded:
  assumes "csh_quote_decode cx bytes n h = (r, Some t, h')"
  shows "length t \<le> n \<and> CHR 0x00 \<notin> set t"
proof -
  define src where "src = (case bytes of None \<Rightarrow> [] | Some b \<Rightarrow> take n b)"
  have "quote_loop cx src = Some t" "CHR 0x00 \<notin> set src"
    using assms by (auto simp: csh_quote_decode_def Let_def src_def split: if_splits option.splits prod.splits bool.splits)
  from quote_loop_safe [OF this] show ?thesis by (auto simp: src_def split: option.splits)
qed

text \<open>
  C34: decoding stays within its buffer and within C strings. Whatever the locale's encoding, a
  decoded region is never longer than its source (the buffer has one byte more, for the
  terminator) and contains no NUL; raw NULs, a missing text, an unmeasurable length and memory
  exhaustion are refused with no output.
\<close>

theorem quote_decode_safe:
  assumes "csh_quote_decode cx bytes n h = (r, out, h')"
  shows "(r = CSH_QUOTE_OK \<longleftrightarrow> out \<noteq> None) \<and>
    (\<forall>t. out = Some t \<longrightarrow> length t \<le> n \<and> CHR 0x00 \<notin> set t) \<and>
    (bytes = None \<and> n \<noteq> 0 \<longrightarrow> r = CSH_QUOTE_INVALID) \<and> (bytes \<noteq> None \<and> n = SIZE_MAX \<longrightarrow> r = CSH_QUOTE_NOMEM) \<and>
    (\<forall>b. bytes = Some b \<and> n \<noteq> SIZE_MAX \<and> CHR 0x00 \<in> set (take n b) \<longrightarrow> r = CSH_QUOTE_INVALID)"
proof -
  have "length t \<le> n \<and> CHR 0x00 \<notin> set t" if "out = Some t" for t
    using quote_decoded [of cx bytes n h r t h'] assms that by simp
  moreover have "r = CSH_QUOTE_OK \<longleftrightarrow> out \<noteq> None" using assms
    by (cases "quote_loop cx (case bytes of None \<Rightarrow> [] | Some b \<Rightarrow> take n b)")
      (auto simp: csh_quote_decode_def Let_def split: if_splits prod.splits bool.splits, metis+)
  ultimately show ?thesis using assms by (auto simp: csh_quote_decode_def Let_def split: if_splits)
qed

subsection \<open>Round trip\<close>

text \<open>A way to write any text inside \<open>$'...'\<close>: printable ASCII bytes as themselves, backslash and
  quote escaped, every other byte as three octal digits.\<close>

definition octal_digit :: "nat \<Rightarrow> char" where
  "octal_digit d = char_of (48 + d mod 8)"

definition dollar_byte :: "char \<Rightarrow> string" where
  "dollar_byte c =
     (if c = backslash \<or> c = CHR 0x27 then [backslash, c]
      else if 0x20 \<le> byte_value c \<and> byte_value c < 0x7F then [c]
      else [backslash, octal_digit (byte_value c div 64), octal_digit (byte_value c div 8), octal_digit (byte_value c)])"

definition dollar_quote :: "string \<Rightarrow> string" where
  "dollar_quote t = concat (map dollar_byte t)"

lemma octal_digit_facts:
  "octal (octal_digit d)" "byte_value (octal_digit d) = 48 + d mod 8" "octal_digit d \<noteq> backslash"
  "octal_digit d \<noteq> CHR 0x00"
proof -
  have m: "d mod 8 < 8" by simp
  show v: "byte_value (octal_digit d) = 48 + d mod 8" using m by (simp add: octal_digit_def)
  show "octal (octal_digit d)" using m by (simp add: octal_def less_eq_char_def v)
  have "byte_value (octal_digit d) \<noteq> byte_value backslash" "byte_value (octal_digit d) \<noteq> byte_value (CHR 0x00)"
    using v m by simp_all
  then show "octal_digit d \<noteq> backslash" "octal_digit d \<noteq> CHR 0x00" by fastforce+
qed

lemma octal_not_letter:
  "octal c \<Longrightarrow> c \<notin> {CHR 0x22, CHR 0x27, backslash, CHR ''a'', CHR ''b'', CHR ''e'', CHR ''f'', CHR ''n'',
     CHR ''r'', CHR ''t'', CHR ''v'', CHR ''c'', CHR ''x''}"
  by (auto simp: octal_def less_eq_char_def)

lemma octal_value: "b < 256 \<Longrightarrow> ((b div 64 mod 8 * 8 + b div 8 mod 8) * 8 + b mod 8) = b" for b :: nat
proof -
  assume "b < 256"
  then have "b div 64 < 4" by auto
  then have "b div 64 mod 8 = b div 8 div 8" by (simp add: div_mult2_eq [symmetric])
  then have "b div 64 mod 8 * 8 + b div 8 mod 8 = b div 8" by simp
  then show ?thesis by (simp only: div_mult_mod_eq)
qed
lemma octal_turn:
  "quote_turn cx backslash (octal_digit a # octal_digit b # octal_digit c # t) =
    plain_byte (char_of (((a mod 8 * 8 + b mod 8) * 8 + c mod 8) mod 256)) t"
proof -
  have "csh_character_length cx (x # t') True True = 1" if "x = backslash \<or> x = octal_digit a" for x t'
    by (rule character_length_ascii) (use that octal_digit_facts(2) [of a] in auto)
  then show ?thesis
    using octal_digit_facts [of a] octal_digit_facts [of b] octal_digit_facts [of c] octal_not_letter [of "octal_digit a"]
    by (simp add: quote_turn_def escape_def numeral_2_eq_2)
qed

lemma quote_loop_byte:
  assumes "c \<noteq> CHR 0x00"
  shows "quote_loop cx (dollar_byte c @ t) = map_option ((#) c) (quote_loop cx t)"
proof -
  have low: "csh_character_length cx (x # u) True True = 1" if "byte_value x < 0x80" for x u
    by (rule character_length_ascii) (use that in simp)
  have cons: "(@) [c] = (#) c" by auto
  consider "c = backslash \<or> c = CHR 0x27" | "c \<noteq> backslash" "c \<noteq> CHR 0x27" "0x20 \<le> byte_value c" "byte_value c < 0x7F"
    | "c \<noteq> backslash" "c \<noteq> CHR 0x27" "\<not> (0x20 \<le> byte_value c \<and> byte_value c < 0x7F)" by linarith
  then show ?thesis
  proof cases
    case 1
    then have "quote_turn cx backslash (c # t) = plain_byte c t"
      by (auto simp: quote_turn_def low escape_def)
    with 1 assms show ?thesis by (simp add: dollar_byte_def quote_loop.simps(2) plain_byte_def cons)
  next
    case 2
    then have "quote_turn cx c t = plain_byte c t" by (simp add: quote_turn_def low)
    with 2 assms show ?thesis by (simp add: dollar_byte_def quote_loop.simps(2) plain_byte_def cons)
  next
    case 3
    let ?b = "byte_value c"
    have b: "?b < 256" by (rule nat_of_char_less_256)
    have "quote_turn cx backslash (octal_digit (?b div 64) # octal_digit (?b div 8) # octal_digit ?b # t) = plain_byte c t"
      unfolding octal_turn octal_value [OF b] using b by simp
    with 3 assms show ?thesis by (auto simp: dollar_byte_def quote_loop.simps(2) plain_byte_def cons)
  qed
qed

text \<open>
  C13: every text can be written in \<open>$'...'\<close> and decodes to itself. The decoder applied to the
  escaped spelling of any text without NUL gives back exactly that text, in every locale.
\<close>

theorem quote_decode_encode:
  assumes "CHR 0x00 \<notin> set t" and "length (dollar_quote t) < SIZE_MAX" and "malloc h = (True, h')"
  shows "csh_quote_decode cx (Some (dollar_quote t)) (length (dollar_quote t)) h = (CSH_QUOTE_OK, Some t, h')"
proof -
  have "quote_loop cx (dollar_quote t) = Some t"
    using assms(1)
  proof (induction t)
    case (Cons c t)
    then show ?case using quote_loop_byte [of c cx "dollar_quote t"] by (auto simp: dollar_quote_def)
  qed (simp add: dollar_quote_def)
  moreover have "CHR 0x00 \<notin> set (dollar_quote t)"
    using assms(1) octal_digit_facts(4) octal_digit_facts(4) [symmetric]
    by (auto simp: dollar_quote_def dollar_byte_def split: if_splits)
  ultimately show ?thesis using assms(2,3) by (simp add: csh_quote_decode_def Let_def)
qed

theorem quote_decode_encode_witness:
  "csh_quote_decode utf8_context (Some (dollar_quote ''it's \<newline>'')) (length (dollar_quote ''it's \<newline>'')) [] =
     (CSH_QUOTE_OK, Some ''it's \<newline>'', [])"
  by (rule quote_decode_encode) (simp_all add: dollar_quote_def dollar_byte_def SIZE_MAX_def)

theorem quote_decode_safe_witness:
  "\<exists>out. csh_quote_decode utf8_context (Some (dollar_quote ''a'')) 1 [] = (CSH_QUOTE_OK, Some out, []) \<and> length out \<le> 1"
proof -
  obtain r out h' where d: "csh_quote_decode utf8_context (Some (dollar_quote ''a'')) 1 [] = (r, out, h')"
    by (cases "csh_quote_decode utf8_context (Some (dollar_quote ''a'')) 1 []") auto
  have "r = CSH_QUOTE_OK \<and> h' = []"
    using d by (simp add: csh_quote_decode_def dollar_quote_def dollar_byte_def SIZE_MAX_def quote_loop.simps(2)
        quote_turn_def csh_character_length_def plain_byte_def)
  with quote_decode_safe [OF d] d show ?thesis by auto
qed

end
