(* ===== verification/Expansion.thy ===== *)
theory Expansion
  imports Character
begin

text \<open>
  The types that expansion, field splitting and pathname expansion share (\<open>expand.h\<close>): contexts,
  results, the list of fields, and the answers of the host (interruption, allocation) on which
  their operations depend.
\<close>

datatype csh_quote = CSH_QUOTE_NONE | CSH_QUOTE_SINGLE | CSH_QUOTE_DOUBLE | CSH_QUOTE_DOLLAR_SINGLE

datatype csh_expand_context =
  CSH_EXPAND_ARGUMENT | CSH_EXPAND_ASSIGNMENT | CSH_EXPAND_PATTERN | CSH_EXPAND_REDIRECTION
  | CSH_EXPAND_HEREDOC

datatype csh_expand_origin =
  CSH_EXPAND_LITERAL | CSH_EXPAND_TILDE | CSH_EXPAND_PARAMETER | CSH_EXPAND_ARITHMETIC
  | CSH_EXPAND_SUBSTITUTION

datatype csh_expand_result =
  CSH_EXPAND_OK | CSH_EXPAND_INVALID | CSH_EXPAND_NOMEM | CSH_EXPAND_UNSET | CSH_EXPAND_READONLY
  | CSH_EXPAND_ARITHMETIC_ERROR | CSH_EXPAND_DEFERRED | CSH_EXPAND_LIMIT | CSH_EXPAND_IO
  | CSH_EXPAND_INTERRUPTED | CSH_EXPAND_RESOURCE

type_synonym csh_fields = "string list"

text \<open>What the field functions consume of the process: outcomes of allocations and the answers of
  the \<open>interrupted\<close> callback (no more answers: no interruption, as without a callback).\<close>

record field_host =
  fh_mallocs :: heap
  fh_interrupts :: "bool list"

definition interrupted :: "field_host \<Rightarrow> bool \<times> field_host" where
  "interrupted fx =
     (case fh_interrupts fx of [] \<Rightarrow> (False, fx) | b # bs \<Rightarrow> (b, fx\<lparr>fh_interrupts := bs\<rparr>))"

definition fh_malloc :: "field_host \<Rightarrow> bool \<times> field_host" where
  "fh_malloc fx = (case malloc (fh_mallocs fx) of (b, h) \<Rightarrow> (b, fx\<lparr>fh_mallocs := h\<rparr>))"

definition csh_fields_append ::
  "csh_fields \<Rightarrow> string \<Rightarrow> field_host \<Rightarrow> csh_expand_result \<times> csh_fields \<times> field_host" where
  "csh_fields_append out t fx =
     (if length t = SIZE_MAX \<or> SIZE_MAX div 8 - 2 < length out then (CSH_EXPAND_NOMEM, out, fx)
      else
        (case fh_malloc fx of
           (False, fx) \<Rightarrow> (CSH_EXPAND_NOMEM, out, fx)
         | (True, fx) \<Rightarrow>
             (case fh_malloc fx of
                (False, fx) \<Rightarrow> (CSH_EXPAND_NOMEM, out, fx)
              | (True, fx) \<Rightarrow> (CSH_EXPAND_OK, out @ [t], fx))))"

definition csh_fields_destroy :: "csh_fields \<Rightarrow> csh_fields" where
  "csh_fields_destroy fs = []"

text \<open>A host on which nothing fails and nobody interrupts.\<close>

definition calm :: "field_host \<Rightarrow> bool" where
  "calm fx \<longleftrightarrow> fh_mallocs fx = [] \<and> fh_interrupts fx = []"

lemma calm_interrupted [simp]: "calm fx \<Longrightarrow> interrupted fx = (False, fx)"
  by (simp add: calm_def interrupted_def)

lemma calm_malloc [simp]: "calm fx \<Longrightarrow> fh_malloc fx = (True, fx)"
  by (cases fx) (simp add: calm_def fh_malloc_def)

lemma calm_append:
  "calm fx \<Longrightarrow> length t < SIZE_MAX \<Longrightarrow> length out < SIZE_MAX div 8 - 1 \<Longrightarrow>
   csh_fields_append out t fx = (CSH_EXPAND_OK, out @ [t], fx)"
  by (simp add: csh_fields_append_def)

lemma append_result:
  "csh_fields_append out t fx = (r, out', fx') \<Longrightarrow>
   (r = CSH_EXPAND_OK \<and> out' = out @ [t]) \<or> (r = CSH_EXPAND_NOMEM \<and> out' = out)"
  by (auto simp: csh_fields_append_def split: if_splits prod.splits bool.splits)

subsection \<open>Tokens\<close>

text \<open>A token as the lexer delivers it (\<open>lexer.h\<close>): its bytes and the fragments of its structure in
  preorder, each with its parent (\<open>CSH_FRAGMENT_ROOT\<close> for a direct child of the word) and the bytes it
  covers. Names that are \<open>NULL\<close> for ordinary input are \<open>None\<close>.\<close>

datatype csh_token_kind =
  CSH_TOKEN_WORD | CSH_TOKEN_NEWLINE | CSH_TOKEN_AND_IF | CSH_TOKEN_OR_IF | CSH_TOKEN_DSEMI | CSH_TOKEN_SEMI_AND
  | CSH_TOKEN_DLESS | CSH_TOKEN_DGREAT | CSH_TOKEN_LESS_AND | CSH_TOKEN_GREAT_AND | CSH_TOKEN_LESS_GREAT
  | CSH_TOKEN_DLESS_DASH | CSH_TOKEN_CLOBBER | CSH_TOKEN_PIPE | CSH_TOKEN_AMPERSAND | CSH_TOKEN_SEMI
  | CSH_TOKEN_LPAREN | CSH_TOKEN_RPAREN | CSH_TOKEN_LESS | CSH_TOKEN_GREAT

datatype csh_fragment_kind =
  CSH_FRAGMENT_TEXT | CSH_FRAGMENT_QUOTED | CSH_FRAGMENT_ESCAPE | CSH_FRAGMENT_CONTINUATION | CSH_FRAGMENT_PARAMETER
  | CSH_FRAGMENT_COMMAND | CSH_FRAGMENT_ARITHMETIC | CSH_FRAGMENT_BACKQUOTE

definition CSH_FRAGMENT_ROOT :: nat where "CSH_FRAGMENT_ROOT = SIZE_MAX"

record csh_fragment =
  fr_kind :: csh_fragment_kind
  fr_quote :: csh_quote
  fr_parent :: nat
  fr_begin :: nat
  fr_end :: nat
  fr_start :: csh_position
  fr_finish :: csh_position

record csh_token =
  tk_kind :: csh_token_kind
  tk_source_name :: string
  tk_raw :: string
  tk_start :: csh_position
  tk_end :: csh_position
  tk_fragments :: "csh_fragment list"
  tk_alias_name :: "string option"
  tk_invocation_source :: "string option"
  tk_invocation :: csh_position
  tk_alias_eligible :: bool

end
