(* ===== verification/Pathname.thy ===== *)
theory Pathname
  imports Expansion
begin

text \<open>
  Pathname expansion (\<open>src/pathname.c\<close>): which patterns are active, the walk over the components of
  a pattern, the directory listings it reads, the sorting of the result, and the relation between
  the paths it yields and the paths that match.
\<close>

subsection \<open>Model\<close>

definition PATHNAME_COMPONENT_LIMIT :: nat where "PATHNAME_COMPONENT_LIMIT = 4096"

text \<open>One directory as \<open>opendir\<close>, \<open>readdir\<close> and \<open>closedir\<close> give it: the names read, then how
  reading and closing ended (\<open>EOK\<close>: at the end, without error).\<close>

record directory_stream =
  ds_names :: "string list"
  ds_read :: errno
  ds_close :: errno

text \<open>The host: files by path (\<open>stat\<close> says whether it is a directory), the libc matcher with
  \<open>FNM_PERIOD\<close>, and the collation of the locale.\<close>

record path_host =
  ph_lstat :: "string \<Rightarrow> errno"
  ph_stat :: "string \<Rightarrow> errno + bool"
  ph_opendir :: "string \<Rightarrow> errno + directory_stream"
  ph_fnmatch :: "string \<Rightarrow> string \<Rightarrow> bool"
  ph_strcoll :: "string \<Rightarrow> string \<Rightarrow> int"

definition filesystem_error :: "errno \<Rightarrow> csh_expand_result" where
  "filesystem_error e =
     (case e of
        ENOENT \<Rightarrow> CSH_EXPAND_OK
      | ENOTDIR \<Rightarrow> CSH_EXPAND_OK
      | EACCES \<Rightarrow> CSH_EXPAND_OK
      | ENAMETOOLONG \<Rightarrow> CSH_EXPAND_OK
      | ELOOP \<Rightarrow> CSH_EXPAND_OK
      | ENOMEM \<Rightarrow> CSH_EXPAND_NOMEM
      | EINTR \<Rightarrow> CSH_EXPAND_INTERRUPTED
      | _ \<Rightarrow> CSH_EXPAND_IO)"

definition pattern_width :: "ctype \<Rightarrow> string \<Rightarrow> nat" where
  "pattern_width cx t = csh_character_length cx (take (Suc (mb_more cx)) t) False True"

lemma pattern_width_pos: "t \<noteq> [] \<Longrightarrow> 0 < pattern_width cx t"
  unfolding pattern_width_def by (rule character_length_pos) simp

abbreviation escape_char :: char where "escape_char \<equiv> CHR 0x5C"

text \<open>The rest of a POSIX bracket expression \<open>[:name:]\<close>, \<open>[.x.]\<close> or \<open>[=x=]\<close> after its closing
  bracket; \<open>None\<close> if it is not closed within the component.\<close>

function bracket_end :: "ctype \<Rightarrow> char \<Rightarrow> string \<Rightarrow> string option" where
  "bracket_end cx d [] = None"
| "bracket_end cx d (c # cs) =
     (if c = CHR ''/'' then None
      else if c = d \<and> cs \<noteq> [] \<and> hd cs = CHR '']'' then Some (tl cs)
      else bracket_end cx d (drop (pattern_width cx (c # cs)) (c # cs)))"
  by pat_completeness auto
termination
  by (relation "measure (\<lambda>(cx, d, t). length t)") (use pattern_width_pos [of "_ # _"] in auto)

declare bracket_end.simps(2) [simp del]

lemma bracket_end_length: "bracket_end cx d t = Some r \<Longrightarrow> length r < length t"
proof (induction cx d t rule: bracket_end.induct)
  case (2 cx d c cs)
  show ?case
  proof (cases "c = d \<and> cs \<noteq> [] \<and> hd cs = CHR '']''")
    case True
    with 2(2) show ?thesis by (auto simp: bracket_end.simps(2) split: if_splits)
  next
    case False
    with 2 have "length r < length (drop (pattern_width cx (c # cs)) (c # cs))"
      by (auto simp: bracket_end.simps(2) split: if_splits)
    then show ?thesis by simp
  qed
qed simp

function bracket_closes :: "ctype \<Rightarrow> string \<Rightarrow> bool" where
  "bracket_closes cx [] = False"
| "bracket_closes cx (c # cs) =
     (if c = CHR ''/'' then False
      else if c = escape_char \<and> cs \<noteq> [] \<and> hd cs \<noteq> CHR ''/''
        then bracket_closes cx (drop (pattern_width cx cs) cs)
      else if c = CHR '']'' then True
      else if c = CHR ''['' \<and> cs \<noteq> [] \<and> hd cs \<in> {CHR '':'', CHR ''.'', CHR ''=''}
        then (case bracket_end cx (hd cs) (tl cs) of None \<Rightarrow> False | Some r \<Rightarrow> bracket_closes cx r)
      else bracket_closes cx (drop (pattern_width cx (c # cs)) (c # cs)))"
  by pat_completeness auto
termination
proof (relation "measure (\<lambda>(cx, t). length t)")
  show "((cx, drop (pattern_width cx cs) cs), cx, c # cs) \<in> measure (\<lambda>(cx, t). length t)" for cx c cs by simp
  show "((cx, r), cx, c # cs) \<in> measure (\<lambda>(cx, t). length t)"
    if "bracket_end cx (hd cs) (tl cs) = Some r" for cx c cs r
    using bracket_end_length [OF that] by simp
  show "((cx, drop (pattern_width cx (c # cs)) (c # cs)), cx, c # cs) \<in> measure (\<lambda>(cx, t). length t)" for cx c cs
    using pattern_width_pos [of "c # cs" cx] by simp
qed simp

declare bracket_closes.simps(2) [simp del]

text \<open>\<open>has_bracket\<close> is given the text after the \<open>[\<close>.\<close>

definition has_bracket :: "ctype \<Rightarrow> string \<Rightarrow> bool" where
  "has_bracket cx t =
     (let t = (if t \<noteq> [] \<and> hd t = CHR ''!'' then tl t else t);
          t = (if t \<noteq> [] \<and> hd t = CHR '']'' then tl t else t)
      in bracket_closes cx t)"

function has_pattern :: "ctype \<Rightarrow> string \<Rightarrow> bool" where
  "has_pattern cx [] = False"
| "has_pattern cx (c # cs) =
     (if c = escape_char \<and> cs \<noteq> [] then has_pattern cx (drop (pattern_width cx cs) cs)
      else if c = CHR ''*'' \<or> c = CHR ''?'' \<or> (c = CHR ''['' \<and> has_bracket cx cs) then True
      else has_pattern cx (drop (pattern_width cx (c # cs)) (c # cs)))"
  by pat_completeness auto
termination
  by (relation "measure (\<lambda>(cx, t). length t)") (use pattern_width_pos [of "_ # _"] in \<open>auto simp: diff_less_Suc\<close>)

declare has_pattern.simps(2) [simp del]

text \<open>The copying loops of \<open>pathname_pattern\<close> and \<open>unescape\<close>.\<close>

function slash_unescape :: "ctype \<Rightarrow> string \<Rightarrow> string" where
  "slash_unescape cx [] = []"
| "slash_unescape cx (c # cs) =
     (if c = escape_char \<and> cs \<noteq> [] then
        (if hd cs \<noteq> CHR ''/'' then [c] else []) @
        take (pattern_width cx cs) cs @ slash_unescape cx (drop (pattern_width cx cs) cs)
      else take (pattern_width cx (c # cs)) (c # cs) @
        slash_unescape cx (drop (pattern_width cx (c # cs)) (c # cs)))"
  by pat_completeness auto
termination
  by (relation "measure (\<lambda>(cx, t). length t)") (use pattern_width_pos [of "_ # _"] in \<open>auto simp: diff_less_Suc\<close>)

declare slash_unescape.simps(2) [simp del]

definition pathname_pattern :: "ctype \<Rightarrow> string \<Rightarrow> field_host \<Rightarrow> string option \<times> field_host" where
  "pathname_pattern cx pattern fx =
     (case fh_malloc fx of
        (False, fx) \<Rightarrow> (None, fx)
      | (True, fx) \<Rightarrow> (Some (slash_unescape cx pattern), fx))"

function unescape :: "ctype \<Rightarrow> string \<Rightarrow> string" where
  "unescape cx [] = []"
| "unescape cx (c # cs) =
     (if c = escape_char \<and> cs \<noteq> []
      then take (pattern_width cx cs) cs @ unescape cx (drop (pattern_width cx cs) cs)
      else take (pattern_width cx (c # cs)) (c # cs) @
        unescape cx (drop (pattern_width cx (c # cs)) (c # cs)))"
  by pat_completeness auto
termination
  by (relation "measure (\<lambda>(cx, t). length t)") (use pattern_width_pos [of "_ # _"] in \<open>auto simp: diff_less_Suc\<close>)

declare unescape.simps(2) [simp del]

definition path_join :: "string \<Rightarrow> string \<Rightarrow> string \<Rightarrow> field_host \<Rightarrow> string option \<times> field_host" where
  "path_join prefix separators component fx =
     (if SIZE_MAX - length separators < length prefix \<or>
         SIZE_MAX - length component - 1 < length prefix + length separators then (None, fx)
      else
        (case fh_malloc fx of
           (False, fx) \<Rightarrow> (None, fx)
         | (True, fx) \<Rightarrow> (Some (prefix @ separators @ component), fx)))"

definition append_path ::
  "string list \<Rightarrow> string option \<Rightarrow> field_host \<Rightarrow> csh_expand_result \<times> string list \<times> field_host" where
  "append_path paths path fx =
     (case path of
        None \<Rightarrow> (CSH_EXPAND_NOMEM, paths, fx)
      | Some p \<Rightarrow>
          if SIZE_MAX div 8 - 2 < length paths then (CSH_EXPAND_NOMEM, paths, fx)
          else
            (case fh_malloc fx of
               (False, fx) \<Rightarrow> (CSH_EXPAND_NOMEM, paths, fx)
             | (True, fx) \<Rightarrow> (CSH_EXPAND_OK, paths @ [p], fx)))"

definition literal_path ::
  "path_host \<Rightarrow> string \<Rightarrow> string \<Rightarrow> string \<Rightarrow> bool \<Rightarrow> bool \<Rightarrow> string list \<Rightarrow> field_host \<Rightarrow>
   csh_expand_result \<times> string list \<times> field_host" where
  "literal_path ph prefix separators component final directory nxt fx =
     (case path_join prefix separators component fx of
        (None, fx) \<Rightarrow> (CSH_EXPAND_NOMEM, nxt, fx)
      | (Some path, fx) \<Rightarrow>
          if \<not> final then append_path nxt (Some path) fx
          else if directory then
            (case ph_stat ph path of
               Inl e \<Rightarrow> (filesystem_error e, nxt, fx)
             | Inr is_dir \<Rightarrow>
                 if \<not> is_dir then (CSH_EXPAND_OK, nxt, fx) else append_path nxt (Some path) fx)
          else if ph_lstat ph path \<noteq> EOK then (filesystem_error (ph_lstat ph path), nxt, fx)
          else append_path nxt (Some path) fx)"

text \<open>The \<open>readdir\<close> loop over the names still to come; then what ended it.\<close>

fun read_names ::
  "path_host \<Rightarrow> string \<Rightarrow> string \<Rightarrow> string \<Rightarrow> errno \<Rightarrow> string list \<Rightarrow> string list \<Rightarrow> field_host \<Rightarrow>
   csh_expand_result \<times> bool \<times> string list \<times> field_host" where
  "read_names ph prefix separators component failure [] nxt fx =
     (case interrupted fx of
        (True, fx) \<Rightarrow> (CSH_EXPAND_INTERRUPTED, False, nxt, fx)
      | (False, fx) \<Rightarrow>
          if failure = EOK then (CSH_EXPAND_OK, False, nxt, fx)
          else (filesystem_error failure, filesystem_error failure = CSH_EXPAND_OK, nxt, fx))"
| "read_names ph prefix separators component failure (name # names) nxt fx =
     (case interrupted fx of
        (True, fx) \<Rightarrow> (CSH_EXPAND_INTERRUPTED, False, nxt, fx)
      | (False, fx) \<Rightarrow>
          if name = ''.'' \<or> name = ''..'' \<or> \<not> ph_fnmatch ph component name
          then read_names ph prefix separators component failure names nxt fx
          else
            (case path_join prefix separators name fx of
               (path, fx) \<Rightarrow>
                 (case append_path nxt path fx of
                    (CSH_EXPAND_OK, nxt, fx) \<Rightarrow>
                      read_names ph prefix separators component failure names nxt fx
                  | (r, nxt, fx) \<Rightarrow> (r, False, nxt, fx))))"

definition pattern_paths ::
  "path_host \<Rightarrow> string \<Rightarrow> string \<Rightarrow> string \<Rightarrow> string list \<Rightarrow> field_host \<Rightarrow>
   csh_expand_result \<times> string list \<times> field_host" where
  "pattern_paths ph prefix separators component nxt fx =
     (case path_join prefix separators [] fx of
        (None, fx) \<Rightarrow> (CSH_EXPAND_NOMEM, nxt, fx)
      | (Some directory, fx) \<Rightarrow>
          (case ph_opendir ph (if directory = [] then ''.'' else directory) of
             Inl e \<Rightarrow> (filesystem_error e, nxt, fx)
           | Inr stream \<Rightarrow>
               (case read_names ph prefix separators component (ds_read stream) (ds_names stream) nxt fx of
                  (r, no_match, found, fx) \<Rightarrow>
                    (let (r, no_match) =
                       (if ds_close stream \<noteq> EOK \<and> r = CSH_EXPAND_OK
                        then (filesystem_error (ds_close stream), filesystem_error (ds_close stream) = CSH_EXPAND_OK)
                        else (r, no_match))
                     in (r, if no_match then take (length nxt) found else found, fx)))))"

definition compare_paths :: "path_host \<Rightarrow> string \<Rightarrow> string \<Rightarrow> int" where
  "compare_paths ph a b =
     (if ph_strcoll ph a b \<noteq> 0 then ph_strcoll ph a b
      else if a < b then -1 else if a = b then 0 else 1)"

text \<open>\<open>qsort\<close> with that comparison, as insertion sort: which equal paths come first cannot be seen.\<close>

fun insert_path :: "path_host \<Rightarrow> string \<Rightarrow> string list \<Rightarrow> string list" where
  "insert_path ph x [] = [x]"
| "insert_path ph x (y # ys) = (if compare_paths ph x y \<le> 0 then x # y # ys else y # insert_path ph x ys)"

fun qsort_paths :: "path_host \<Rightarrow> string list \<Rightarrow> string list" where
  "qsort_paths ph [] = []"
| "qsort_paths ph (x # xs) = insert_path ph x (qsort_paths ph xs)"

text \<open>One component applied to every path found so far.\<close>

fun each_path ::
  "path_host \<Rightarrow> bool \<Rightarrow> string \<Rightarrow> string \<Rightarrow> bool \<Rightarrow> bool \<Rightarrow> string list \<Rightarrow> string list \<Rightarrow> field_host \<Rightarrow>
   csh_expand_result \<times> string list \<times> field_host" where
  "each_path ph is_pattern separators component final directory [] nxt fx = (CSH_EXPAND_OK, nxt, fx)"
| "each_path ph is_pattern separators component final directory (path # paths) nxt fx =
     (case interrupted fx of
        (True, fx) \<Rightarrow> (CSH_EXPAND_INTERRUPTED, nxt, fx)
      | (False, fx) \<Rightarrow>
          (case (if is_pattern then pattern_paths ph path separators component nxt fx
                 else literal_path ph path separators component final directory nxt fx) of
             (CSH_EXPAND_OK, nxt, fx) \<Rightarrow>
               each_path ph is_pattern separators component final directory paths nxt fx
           | (r, nxt, fx) \<Rightarrow> (r, nxt, fx)))"

lemma component_rest:
  "t \<noteq> [] \<Longrightarrow> length (dropWhile (\<lambda>c. c \<noteq> CHR ''/'') (dropWhile (\<lambda>c. c = CHR ''/'') t)) < length t"
proof (cases t)
  case (Cons c cs)
  have le: "length (dropWhile P xs) \<le> length xs" for P and xs :: string by (induction xs) auto
  show ?thesis
  proof (cases "c = CHR ''/''")
    case True
    with Cons le [of "\<lambda>c. c \<noteq> CHR ''/''" "dropWhile (\<lambda>c. c = CHR ''/'') cs"] le [of "\<lambda>c. c = CHR ''/''" cs]
    show ?thesis by simp
  next
    case False
    with Cons le [of "\<lambda>c. c \<noteq> CHR ''/''" cs] show ?thesis by simp
  qed
qed simp

function component_loop ::
  "ctype \<Rightarrow> path_host \<Rightarrow> string \<Rightarrow> nat \<Rightarrow> string list \<Rightarrow> field_host \<Rightarrow>
   csh_expand_result \<times> string list \<times> field_host" where
  "component_loop cx ph cursor components paths fx =
     (if cursor = [] \<or> paths = [] then (CSH_EXPAND_OK, paths, fx)
      else
        (let separators = takeWhile (\<lambda>c. c = CHR ''/'') cursor;
             rest = dropWhile (\<lambda>c. c = CHR ''/'') cursor;
             component = takeWhile (\<lambda>c. c \<noteq> CHR ''/'') rest;
             cursor = dropWhile (\<lambda>c. c \<noteq> CHR ''/'') rest;
             components = components + 1
         in if PATHNAME_COMPONENT_LIMIT < components then (CSH_EXPAND_LIMIT, paths, fx)
            else
              (case fh_malloc fx of
                 (False, fx) \<Rightarrow> (CSH_EXPAND_NOMEM, paths, fx)
               | (True, fx) \<Rightarrow>
                   (let is_pattern = has_pattern cx component
                    in case each_path ph is_pattern separators
                              (if is_pattern then component else unescape cx component)
                              (cursor = []) (component = [] \<and> separators \<noteq> []) paths [] fx of
                         (CSH_EXPAND_OK, nxt, fx) \<Rightarrow> component_loop cx ph cursor components nxt fx
                       | (r, nxt, fx) \<Rightarrow> (r, nxt, fx)))))"
  by pat_completeness auto
termination
  by (relation "measure (\<lambda>(cx, ph, cursor, components, paths, fx). length cursor)") (auto simp: component_rest)

declare component_loop.simps [simp del]

fun append_paths ::
  "string list \<Rightarrow> csh_fields \<Rightarrow> field_host \<Rightarrow> csh_expand_result \<times> csh_fields \<times> field_host" where
  "append_paths [] out fx = (CSH_EXPAND_OK, out, fx)"
| "append_paths (path # paths) out fx =
     (case interrupted fx of
        (True, fx) \<Rightarrow> (CSH_EXPAND_INTERRUPTED, out, fx)
      | (False, fx) \<Rightarrow>
          (case csh_fields_append out path fx of
             (CSH_EXPAND_OK, out, fx) \<Rightarrow> append_paths paths out fx
           | (r, out, fx) \<Rightarrow> (r, out, fx)))"

definition csh_pathname_expand ::
  "ctype \<Rightarrow> path_host \<Rightarrow> string \<Rightarrow> string \<Rightarrow> csh_fields \<Rightarrow> field_host \<Rightarrow>
   csh_expand_result \<times> csh_fields \<times> field_host" where
  "csh_pathname_expand cx ph raw pattern out fx =
     (case interrupted fx of
        (True, fx) \<Rightarrow> (CSH_EXPAND_INTERRUPTED, out, fx)
      | (False, fx) \<Rightarrow>
          if \<not> has_pattern cx pattern then csh_fields_append out raw fx
          else
            (case pathname_pattern cx pattern fx of
               (None, fx) \<Rightarrow> (CSH_EXPAND_NOMEM, out, fx)
             | (Some normalized, fx) \<Rightarrow>
                 (case path_join [] [] [] fx of
                    (start, fx) \<Rightarrow>
                      (case append_path [] start fx of
                         (CSH_EXPAND_OK, paths, fx) \<Rightarrow>
                           (case component_loop cx ph normalized 0 paths fx of
                              (CSH_EXPAND_OK, paths, fx) \<Rightarrow>
                                (case interrupted fx of
                                   (True, fx) \<Rightarrow> (CSH_EXPAND_INTERRUPTED, out, fx)
                                 | (False, fx) \<Rightarrow>
                                     if paths = [] then csh_fields_append out raw fx
                                     else append_paths (if 1 < length paths then qsort_paths ph paths else paths) out fx)
                            | (r, _, fx) \<Rightarrow> (r, out, fx))
                       | (r, _, fx) \<Rightarrow> (r, out, fx)))))"

subsection \<open>What a pattern matches\<close>

text \<open>A pattern as its components, each after its separators.\<close>

function path_components :: "string \<Rightarrow> (string \<times> string) list" where
  "path_components t =
     (if t = [] then []
      else
        (let rest = dropWhile (\<lambda>c. c = CHR ''/'') t
         in (takeWhile (\<lambda>c. c = CHR ''/'') t, takeWhile (\<lambda>c. c \<noteq> CHR ''/'') rest) #
            path_components (dropWhile (\<lambda>c. c \<noteq> CHR ''/'') rest)))"
  by pat_completeness auto
termination
  by (relation "measure length") (simp_all add: component_rest)

declare path_components.simps [simp del]

text \<open>What a directory gives: nothing when it cannot be opened, read or closed.\<close>

definition listing :: "path_host \<Rightarrow> string \<Rightarrow> string list" where
  "listing ph directory =
     (case ph_opendir ph (if directory = [] then ''.'' else directory) of
        Inl _ \<Rightarrow> []
      | Inr stream \<Rightarrow> if ds_read stream = EOK \<and> ds_close stream = EOK then ds_names stream else [])"

definition exists_path :: "path_host \<Rightarrow> bool \<Rightarrow> string \<Rightarrow> bool" where
  "exists_path ph directory path =
     (if directory then ph_stat ph path = Inr True else ph_lstat ph path = EOK)"

text \<open>\<open>glob_match cx ph cs prefix path\<close>: after \<open>prefix\<close>, the components \<open>cs\<close> can be chosen such that
  the whole is \<open>path\<close>: a pattern component is a matching name of the directory reached so far
  (never \<open>.\<close> or \<open>..\<close>), another component is itself without its escapes, and a path that ends in one
  exists (as a directory, if it ends in a slash).\<close>

inductive glob_match :: "ctype \<Rightarrow> path_host \<Rightarrow> (string \<times> string) list \<Rightarrow> string \<Rightarrow> string \<Rightarrow> bool" for cx ph where
  whole: "glob_match cx ph [] path path"
| pattern: "has_pattern cx component \<Longrightarrow> name \<in> set (listing ph (prefix @ separators)) \<Longrightarrow>
    name \<noteq> ''.'' \<Longrightarrow> name \<noteq> ''..'' \<Longrightarrow> ph_fnmatch ph component name \<Longrightarrow>
    glob_match cx ph cs (prefix @ separators @ name) path \<Longrightarrow>
    glob_match cx ph ((separators, component) # cs) prefix path"
| literal: "\<not> has_pattern cx component \<Longrightarrow>
    (cs = [] \<longrightarrow> exists_path ph (component = [] \<and> separators \<noteq> []) (prefix @ separators @ unescape cx component)) \<Longrightarrow>
    glob_match cx ph cs (prefix @ separators @ unescape cx component) path \<Longrightarrow>
    glob_match cx ph ((separators, component) # cs) prefix path"

inductive_simps glob_match_Nil [simp]: "glob_match cx ph [] prefix path"
inductive_cases glob_match_ConsE: "glob_match cx ph ((separators, component) # cs) prefix path"

subsection \<open>The loops against that\<close>

lemma append_path_ok: "append_path paths p fx = (CSH_EXPAND_OK, paths', fx') \<Longrightarrow> \<exists>q. p = Some q \<and> paths' = paths @ [q]"
  by (auto simp: append_path_def split: option.splits if_splits prod.splits bool.splits)

lemma path_join_Some: "path_join a b c fx = (Some p, fx') \<Longrightarrow> p = a @ b @ c"
  by (auto simp: path_join_def split: if_splits prod.splits bool.splits)

lemma read_names_ok:
  "read_names ph prefix seps part failure names nxt fx = (CSH_EXPAND_OK, nm, nxt', fx') \<Longrightarrow>
   nxt' = nxt @ map (\<lambda>n. prefix @ seps @ n) (filter (\<lambda>n. n \<noteq> ''.'' \<and> n \<noteq> ''..'' \<and> ph_fnmatch ph part n) names) \<and>
   (nm \<longleftrightarrow> failure \<noteq> EOK)"
proof (induction names arbitrary: nxt fx)
  case Nil
  then show ?case by (auto split: prod.splits bool.splits if_splits)
next
  case (Cons n names)
  obtain b fx1 where i: "interrupted fx = (b, fx1)" by (cases "interrupted fx")
  with Cons.prems have b: "\<not> b" by (auto split: bool.splits)
  show ?case
  proof (cases "n = ''.'' \<or> n = ''..'' \<or> \<not> ph_fnmatch ph part n")
    case True
    with Cons.prems i b have "read_names ph prefix seps part failure names nxt fx1 = (CSH_EXPAND_OK, nm, nxt', fx')" by auto
    from Cons.IH [OF this] True show ?thesis by auto
  next
    case False
    obtain p fx2 where p: "path_join prefix seps n fx1 = (p, fx2)" by (cases "path_join prefix seps n fx1")
    from Cons.prems False i b p obtain nxt1 fx3 where a: "append_path nxt p fx2 = (CSH_EXPAND_OK, nxt1, fx3)"
      and r: "read_names ph prefix seps part failure names nxt1 fx3 = (CSH_EXPAND_OK, nm, nxt', fx')"
      by (auto split: prod.splits csh_expand_result.splits)
    have "nxt1 = nxt @ [prefix @ seps @ n]" using append_path_ok [OF a] path_join_Some p by auto
    with Cons.IH [OF r] False show ?thesis by auto
  qed
qed

definition step_paths :: "ctype \<Rightarrow> path_host \<Rightarrow> string \<Rightarrow> string \<Rightarrow> bool \<Rightarrow> string \<Rightarrow> string list" where
  "step_paths cx ph seps part final prefix =
     (if has_pattern cx part
      then map (\<lambda>n. prefix @ seps @ n)
             (filter (\<lambda>n. n \<noteq> ''.'' \<and> n \<noteq> ''..'' \<and> ph_fnmatch ph part n) (listing ph (prefix @ seps)))
      else if final \<longrightarrow> exists_path ph (part = [] \<and> seps \<noteq> []) (prefix @ seps @ unescape cx part)
      then [prefix @ seps @ unescape cx part] else [])"

lemma pattern_paths_ok:
  assumes "pattern_paths ph prefix seps part nxt fx = (CSH_EXPAND_OK, nxt', fx')"
  shows "nxt' = nxt @ map (\<lambda>n. prefix @ seps @ n)
    (filter (\<lambda>n. n \<noteq> ''.'' \<and> n \<noteq> ''..'' \<and> ph_fnmatch ph part n) (listing ph (prefix @ seps)))"
proof -
  obtain d fx1 where d: "path_join prefix seps [] fx = (Some d, fx1)"
    using assms by (auto simp: pattern_paths_def split: prod.splits option.splits)
  have dd: "d = prefix @ seps" using path_join_Some [OF d] by simp
  show ?thesis
  proof (cases "ph_opendir ph (if d = [] then ''.'' else d)")
    case (Inl e)
    with assms d dd show ?thesis by (auto simp: pattern_paths_def listing_def)
  next
    case (Inr stream)
    obtain r nm found fx2 where
      rn: "read_names ph prefix seps part (ds_read stream) (ds_names stream) nxt fx1 = (r, nm, found, fx2)"
      by (metis surj_pair)
    have r: "r = CSH_EXPAND_OK" using assms d Inr rn by (auto simp: pattern_paths_def Let_def split: if_splits)
    note f = read_names_ok [OF rn [unfolded r]]
    show ?thesis using assms d dd Inr rn r f by (auto simp: pattern_paths_def listing_def Let_def split: if_splits)
  qed
qed

lemma literal_path_ok:
  assumes "literal_path ph prefix seps part final dir nxt fx = (CSH_EXPAND_OK, nxt', fx')"
  shows "nxt' = nxt @ (if final \<longrightarrow> exists_path ph dir (prefix @ seps @ part) then [prefix @ seps @ part] else [])"
  using assms
  by (auto simp: literal_path_def exists_path_def split: prod.splits option.splits if_splits sum.splits
      dest!: append_path_ok path_join_Some)

lemma each_path_ok:
  "each_path ph (has_pattern cx part) seps (if has_pattern cx part then part else unescape cx part) final
     (part = [] \<and> seps \<noteq> []) paths nxt fx = (CSH_EXPAND_OK, nxt', fx') \<Longrightarrow>
   nxt' = nxt @ concat (map (step_paths cx ph seps part final) paths)"
proof (induction paths arbitrary: nxt fx)
  case (Cons p paths)
  obtain b fx1 where i: "interrupted fx = (b, fx1)" by (cases "interrupted fx")
  with Cons.prems have b: "\<not> b" by (auto split: bool.splits)
  let ?c = "if has_pattern cx part then part else unescape cx part" and ?d = "part = [] \<and> seps \<noteq> []"
  from Cons.prems i b obtain nxt1 fx2 where
    s: "(if has_pattern cx part then pattern_paths ph p seps ?c nxt fx1
         else literal_path ph p seps ?c final ?d nxt fx1) = (CSH_EXPAND_OK, nxt1, fx2)"
    and r: "each_path ph (has_pattern cx part) seps ?c final ?d paths nxt1 fx2 = (CSH_EXPAND_OK, nxt', fx')"
    by (auto split: prod.splits csh_expand_result.splits)
  have "nxt1 = nxt @ step_paths cx ph seps part final p"
  proof (cases "has_pattern cx part")
    case True
    with s have "pattern_paths ph p seps part nxt fx1 = (CSH_EXPAND_OK, nxt1, fx2)" by simp
    from pattern_paths_ok [OF this] True show ?thesis by (simp add: step_paths_def)
  next
    case False
    with s have "literal_path ph p seps (unescape cx part) final ?d nxt fx1 = (CSH_EXPAND_OK, nxt1, fx2)" by simp
    from literal_path_ok [OF this] False show ?thesis by (simp add: step_paths_def)
  qed
  with Cons.IH [OF r] show ?case by simp
qed simp
lemma step_paths_match:
  "(\<exists>q'\<in>set (step_paths cx ph seps part (cs = []) q). glob_match cx ph cs q' p) \<longleftrightarrow>
   glob_match cx ph ((seps, part) # cs) q p"
proof
  assume "\<exists>q'\<in>set (step_paths cx ph seps part (cs = []) q). glob_match cx ph cs q' p"
  then show "glob_match cx ph ((seps, part) # cs) q p"
    by (auto simp: step_paths_def intro: glob_match.pattern glob_match.literal split: if_splits)
next
  assume "glob_match cx ph ((seps, part) # cs) q p"
  then show "\<exists>q'\<in>set (step_paths cx ph seps part (cs = []) q). glob_match cx ph cs q' p"
    by (cases rule: glob_match_ConsE) (auto simp: step_paths_def)
qed

lemma path_components_empty: "path_components t = [] \<longleftrightarrow> t = []"
  by (subst path_components.simps) (simp add: Let_def)

lemma component_loop_ok:
  "component_loop cx ph t n paths fx = (CSH_EXPAND_OK, paths', fx') \<Longrightarrow>
   set paths' = {p. \<exists>q\<in>set paths. glob_match cx ph (path_components t) q p}"
proof (induction cx ph t n paths fx rule: component_loop.induct)
  case (1 cx ph t n paths fx)
  show ?case
  proof (cases "t = [] \<or> paths = []")
    case True
    with 1(2) have "paths' = paths" by (simp add: component_loop.simps [of cx ph t])
    with True show ?thesis
      by (auto simp: path_components.simps [of "[]"])
  next
    case False
    define seps where "seps = takeWhile (\<lambda>c. c = CHR ''/'') t"
    define rest where "rest = dropWhile (\<lambda>c. c = CHR ''/'') t"
    define part where "part = takeWhile (\<lambda>c. c \<noteq> CHR ''/'') rest"
    define t' where "t' = dropWhile (\<lambda>c. c \<noteq> CHR ''/'') rest"
    have cs: "path_components t = (seps, part) # path_components t'"
      using False by (subst path_components.simps) (simp add: seps_def rest_def part_def t'_def Let_def)
    obtain b fx1 where m: "fh_malloc fx = (b, fx1)" by (cases "fh_malloc fx")
    let ?each = "each_path ph (has_pattern cx part) seps (if has_pattern cx part then part else unescape cx part)
      (t' = []) (part = [] \<and> seps \<noteq> []) paths [] fx1"
    from 1(2) False m have nb: "\<not> PATHNAME_COMPONENT_LIMIT < n + 1" "b"
      by (auto simp: component_loop.simps [of cx ph t] Let_def split: if_splits bool.splits)
    have "component_loop cx ph t n paths fx = (case ?each of
        (CSH_EXPAND_OK, nxt, fx) \<Rightarrow> component_loop cx ph t' (n + 1) nxt fx | (r, nxt, fx) \<Rightarrow> (r, nxt, fx))"
      unfolding component_loop.simps [of cx ph t n] Let_def seps_def [symmetric] rest_def [symmetric]
        part_def [symmetric] t'_def [symmetric]
      using False m nb by simp
    then obtain nxt fx2 where e: "?each = (CSH_EXPAND_OK, nxt, fx2)"
      and l: "component_loop cx ph t' (n + 1) nxt fx2 = (CSH_EXPAND_OK, paths', fx')"
      using 1(2) by (auto split: prod.splits csh_expand_result.splits)
    have "set paths' = {p. \<exists>q\<in>set nxt. glob_match cx ph (path_components t') q p}"
      using 1(1) [OF False seps_def rest_def part_def t'_def refl nb(1) m [symmetric] _ refl e [symmetric] refl _ l] nb(2)
      by simp
    moreover have "nxt = concat (map (step_paths cx ph seps part (path_components t' = [])) paths)"
      using each_path_ok [OF e] by (simp add: path_components_empty)
    ultimately show ?thesis unfolding cs by (auto simp: step_paths_match [symmetric])
  qed
qed

subsection \<open>Order\<close>

text \<open>What is relied on of \<open>strcoll\<close>: it compares by a total preorder.\<close>

definition collation_ok :: "path_host \<Rightarrow> bool" where
  "collation_ok ph \<longleftrightarrow>
     (\<forall>a b. ph_strcoll ph a b < 0 \<longleftrightarrow> 0 < ph_strcoll ph b a) \<and>
     (\<forall>a b c. ph_strcoll ph a b \<le> 0 \<longrightarrow> ph_strcoll ph b c \<le> 0 \<longrightarrow> ph_strcoll ph a c \<le> 0)"

abbreviation path_le :: "path_host \<Rightarrow> string \<Rightarrow> string \<Rightarrow> bool" where
  "path_le ph a b \<equiv> compare_paths ph a b \<le> 0"

lemma path_le_iff: "path_le ph a b \<longleftrightarrow> ph_strcoll ph a b < 0 \<or> (ph_strcoll ph a b = 0 \<and> a \<le> b)"
  by (auto simp: compare_paths_def)

lemma path_le_total: "collation_ok ph \<Longrightarrow> \<not> path_le ph a b \<Longrightarrow> path_le ph b a"
  unfolding path_le_iff collation_ok_def by (metis linorder_neqE linorder_le_cases)

lemma path_le_trans:
  assumes "collation_ok ph" and "path_le ph a b" and "path_le ph b c"
  shows "path_le ph a c"
proof -
  let ?c = "ph_strcoll ph"
  have sign: "?c x y < 0 \<longleftrightarrow> 0 < ?c y x" and trans: "?c x y \<le> 0 \<Longrightarrow> ?c y z \<le> 0 \<Longrightarrow> ?c x z \<le> 0" for x y z
    using assms(1) unfolding collation_ok_def by blast+
  have ac: "?c a c \<le> 0" using trans [of a b c] assms(2,3) by (auto simp: path_le_iff)
  show ?thesis
  proof (cases "?c a c = 0")
    case False
    with ac show ?thesis by (simp add: path_le_iff)
  next
    case True
    then have ca: "?c c a \<le> 0" using sign [of a c] by linarith
    have "?c a b = 0" using trans [of b c a] ca assms(2,3) sign [of a b] by (auto simp: path_le_iff)
    moreover have "?c b c = 0" using trans [of c a b] ca assms(2,3) sign [of b c] by (auto simp: path_le_iff)
    ultimately show ?thesis using assms(2,3) True by (auto simp: path_le_iff)
  qed
qed

lemma insert_path_set: "set (insert_path ph x ys) = insert x (set ys)"
  by (induction ys) auto

lemma qsort_paths_set: "set (qsort_paths ph xs) = set xs"
  by (induction xs) (auto simp: insert_path_set)

lemma insert_path_length: "length (insert_path ph x ys) = Suc (length ys)"
  by (induction ys) auto

lemma qsort_paths_length: "length (qsort_paths ph xs) = length xs"
  by (induction xs) (auto simp: insert_path_length)

lemma insert_path_sorted:
  assumes "collation_ok ph" and "sorted_wrt (path_le ph) ys"
  shows "sorted_wrt (path_le ph) (insert_path ph x ys)"
  using assms(2)
proof (induction ys)
  case (Cons y ys)
  then show ?case
    using path_le_total [OF assms(1), of x y] path_le_trans [OF assms(1), of x y] by (auto simp: insert_path_set)
qed simp

lemma qsort_paths_sorted: "collation_ok ph \<Longrightarrow> sorted_wrt (path_le ph) (qsort_paths ph xs)"
  by (induction xs) (auto simp: insert_path_sorted)

lemma append_paths_ok: "append_paths ps out fx = (CSH_EXPAND_OK, out', fx') \<Longrightarrow> out' = out @ ps"
  by (induction ps arbitrary: out fx)
    (fastforce split: prod.splits bool.splits csh_expand_result.splits dest: append_result)+
text \<open>
  C10: pathname expansion gives exactly the matching paths, in order. When expansion succeeds on a
  pattern, the fields added are all the paths that match it and no other, sorted by the locale's
  collation; when no path matches, the word itself is added unchanged.
\<close>

theorem pathname_expand_matches:
  assumes "collation_ok ph" and "has_pattern cx pattern"
    and "csh_pathname_expand cx ph raw pattern out fx = (CSH_EXPAND_OK, out', fx')"
  shows "\<exists>ps. out' = out @ ps \<and>
    (let matching = {p. glob_match cx ph (path_components (slash_unescape cx pattern)) [] p}
     in if matching = {} then ps = [raw] else set ps = matching \<and> sorted_wrt (path_le ph) ps)"
proof -
  let ?n = "slash_unescape cx pattern"
  from assms(2,3) obtain fx0 fx1 start fx2 starts fx3 paths fx4 fx5 where
    j: "path_join [] [] [] fx1 = (start, fx2)" and a: "append_path [] start fx2 = (CSH_EXPAND_OK, starts, fx3)"
    and l: "component_loop cx ph ?n 0 starts fx3 = (CSH_EXPAND_OK, paths, fx4)"
    and r: "(if paths = [] then csh_fields_append out raw fx5
        else append_paths (if 1 < length paths then qsort_paths ph paths else paths) out fx5) = (CSH_EXPAND_OK, out', fx')"
    by (auto simp: csh_pathname_expand_def pathname_pattern_def
        split: prod.splits bool.splits option.splits csh_expand_result.splits)
  have "starts = [[]]" using append_path_ok [OF a] j path_join_Some [of "[]" "[]" "[]" fx1 _ fx2] by auto
  then have m: "set paths = {p. glob_match cx ph (path_components ?n) [] p}" using component_loop_ok [OF l] by simp
  show ?thesis
  proof (cases "paths = []")
    case True
    with r m show ?thesis by (auto dest: append_result)
  next
    case False
    define ps where "ps = (if 1 < length paths then qsort_paths ph paths else paths)"
    have "sorted_wrt (path_le ph) ps"
      using qsort_paths_sorted [OF assms(1), of paths] False by (cases paths) (auto simp: ps_def)
    moreover have "set ps = set paths" by (simp add: ps_def qsort_paths_set)
    moreover have "out' = out @ ps" using r False append_paths_ok by (simp add: ps_def)
    moreover have "set paths \<noteq> {}" using False by simp
    ultimately show ?thesis using m by (intro exI [of _ ps]) (auto simp: Let_def)
  qed
qed

definition sample_tree :: path_host where
  "sample_tree =
     \<lparr>ph_lstat = (\<lambda>_. ENOENT), ph_stat = (\<lambda>_. Inl ENOENT),
      ph_opendir = (\<lambda>d. if d = ''.'' then Inr \<lparr>ds_names = [''.'', ''..'', ''b'', ''a''], ds_read = EOK, ds_close = EOK\<rparr>
                        else Inl ENOENT),
      ph_fnmatch = (\<lambda>p n. p = ''*''), ph_strcoll = (\<lambda>a b. if a < b then -1 else if a = b then 0 else 1)\<rparr>"

definition calm_host :: field_host where
  "calm_host = \<lparr>fh_mallocs = [], fh_interrupts = []\<rparr>"

lemma sample_collation: "collation_ok sample_tree"
  by (auto simp: collation_ok_def sample_tree_def split: if_splits)

lemmas pathname_evaluate = csh_pathname_expand_def interrupted_def calm_host_def has_pattern.simps pathname_pattern_def
  fh_malloc_def slash_unescape.simps pattern_width_def csh_character_length_def path_join_def append_path_def
  component_loop.simps PATHNAME_COMPONENT_LIMIT_def pattern_paths_def compare_paths_def csh_fields_append_def SIZE_MAX_def

theorem pathname_expand_matches_witness:
  "csh_pathname_expand utf8_context sample_tree ''*'' ''*'' [] calm_host = (CSH_EXPAND_OK, [''a'', ''b''], calm_host) \<and>
   (\<exists>ps. [''a'', ''b''] = [] @ ps \<and>
     (let matching = {p. glob_match utf8_context sample_tree (path_components (slash_unescape utf8_context ''*'')) [] p}
      in if matching = {} then ps = [''*''] else set ps = matching \<and> sorted_wrt (path_le sample_tree) ps))"
proof -
  have e: "csh_pathname_expand utf8_context sample_tree ''*'' ''*'' [] calm_host = (CSH_EXPAND_OK, [''a'', ''b''], calm_host)"
    by (simp add: pathname_evaluate) (simp add: pathname_evaluate sample_tree_def)
  have "has_pattern utf8_context ''*''" by (simp add: has_pattern.simps)
  from e pathname_expand_matches [OF sample_collation this e] show ?thesis by blast
qed

end
