(* ===== verification/Field_Splitting.thy ===== *)
theory Field_Splitting
  imports Pathname
begin

text \<open>
  Field splitting and the construction of patterns (\<open>src/fields.c\<close>): from the spans of an expansion
  to the fields a command receives.
\<close>

subsection \<open>Model\<close>

text \<open>A span's text is \<open>None\<close> for \<open>NULL\<close>; its length is the length of the text (a text that is not
  terminated there has no counterpart). The spans of a field are \<open>None\<close> for \<open>NULL\<close> with a nonzero count.\<close>

record csh_expand_span =
  es_text :: "string option"
  es_quote :: csh_quote
  es_origin :: csh_expand_origin
  es_split :: bool
  es_keep_empty :: bool

type_synonym csh_expand_field = "csh_expand_span list option"

record csh_expansion =
  ex_fields :: "csh_expand_field list option"
  ex_context :: csh_expand_context

record csh_expand_error =
  ee_code :: csh_expand_result
  ee_fragment :: nat
  ee_position :: csh_position
  ee_message :: string

abbreviation span_bytes :: "csh_expand_span \<Rightarrow> string" where
  "span_bytes s \<equiv> the (es_text s)"

text \<open>The cursor: the spans from the current one on, each with what is left of its bytes.\<close>

type_synonym field_cursor = "(csh_expand_span \<times> string) list"

fun current :: "field_cursor \<Rightarrow> field_cursor" where
  "current [] = []"
| "current ((s, r) # cs) =
     (if r \<noteq> [] \<or> (span_bytes s = [] \<and> es_keep_empty s) then (s, r) # cs else current cs)"

function ifs_match :: "ctype \<Rightarrow> string \<Rightarrow> string \<Rightarrow> nat \<times> bool" where
  "ifs_match cx r [] = (0, False)"
| "ifs_match cx r (i # is) =
     (let n = character_bytes cx (i # is)
      in if n \<le> length r \<and> take n r = take n (i # is)
         then (n, n = 1 \<and> i \<in> {CHR '' '', CHR 0x09, CHR 0x0A})
         else ifs_match cx r (drop n (i # is)))"
  by pat_completeness auto
termination
  by (relation "measure (\<lambda>(cx, r, i). length i)") (use character_bytes_pos in auto)

declare ifs_match.simps(2) [simp del]

definition delimiter :: "ctype \<Rightarrow> string \<Rightarrow> field_cursor \<Rightarrow> nat \<times> bool" where
  "delimiter cx ifs cursor =
     (case cursor of
        [] \<Rightarrow> (0, False)
      | (s, r) # _ \<Rightarrow>
          if \<not> es_split s \<or> es_quote s \<noteq> CSH_QUOTE_NONE \<or> r = [] then (0, False) else ifs_match cx r ifs)"

text \<open>A byte of a field with its protection flags \<open>FIELD_QUOTED\<close> and \<open>FIELD_LITERAL\<close>.\<close>

record field_byte =
  fb_char :: char
  fb_quoted :: bool
  fb_literal :: bool

abbreviation raw_text :: "field_byte list \<Rightarrow> string" where "raw_text \<equiv> map fb_char"

text \<open>The search of \<open>bracket_subexpression\<close> from the byte after the \<open>[\<close> on, \<open>n\<close> bytes after it:
  where the form ends (\<open>None\<close>: nowhere) and whether a byte of it was quoted.\<close>

function bracket_scan ::
  "ctype \<Rightarrow> csh_expand_context \<Rightarrow> char \<Rightarrow> nat \<Rightarrow> field_byte list \<Rightarrow> bool \<Rightarrow> field_host \<Rightarrow>
   csh_expand_result \<times> nat option \<times> bool \<times> field_host" where
  "bracket_scan cx context opener n [] quoted fx = (CSH_EXPAND_OK, None, quoted, fx)"
| "bracket_scan cx context opener n (b # bs) quoted fx =
     (case interrupted fx of
        (True, fx) \<Rightarrow> (CSH_EXPAND_INTERRUPTED, None, quoted, fx)
      | (False, fx) \<Rightarrow>
          if context = CSH_EXPAND_ARGUMENT \<and> fb_char b = CHR ''/'' then (CSH_EXPAND_OK, None, quoted, fx)
          else
            (let quoted = (quoted \<or> fb_quoted b)
             in if 1 < n \<and> fb_char b = opener \<and> bs \<noteq> [] \<and> fb_char (hd bs) = CHR '']''
                then (CSH_EXPAND_OK, Some (n + 1), quoted \<or> fb_quoted (hd bs), fx)
                else
                  (let width = csh_character_length cx (raw_text (b # bs)) False True
                   in bracket_scan cx context opener (n + width) (drop width (b # bs)) quoted fx)))"
  by pat_completeness auto
termination
  by (relation "measure (\<lambda>(cx, context, opener, n, bs, quoted, fx). length bs)")
    (auto simp: diff_less)

declare bracket_scan.simps(2) [simp del]

text \<open>\<open>bs\<close> starts with the \<open>[\<close>.\<close>

definition bracket_subexpression ::
  "ctype \<Rightarrow> csh_expand_context \<Rightarrow> field_byte list \<Rightarrow> field_host \<Rightarrow>
   csh_expand_result \<times> nat option \<times> bool \<times> field_host" where
  "bracket_subexpression cx context bs fx =
     (if length bs < 2 \<or> fb_char (bs ! 1) \<notin> {CHR '':'', CHR ''.'', CHR ''=''}
      then (CSH_EXPAND_OK, None, False, fx)
      else bracket_scan cx context (fb_char (bs ! 1)) 1 (tl bs) False fx)"

text \<open>How a byte outside a copied form enters the pattern: the bytes stored, and whether the byte
  is an escape for the next one.\<close>

definition protect :: "field_byte \<Rightarrow> bool \<Rightarrow> string \<times> bool" where
  "protect b force_literal =
     (if force_literal \<or> (fb_char b = escape_char \<and> (fb_quoted b \<or> fb_literal b)) \<or>
         (fb_quoted b \<and> fb_char b \<in> set ''*?[]-!^'')
      then ([escape_char, fb_char b], False)
      else ([fb_char b], fb_char b = escape_char))"

text \<open>The bracket state: 0 outside a list, 1 before its first member, 2 after an initial \<open>!\<close>, 3 once
  \<open>]\<close> can close it.\<close>

definition next_bracket :: "nat \<Rightarrow> field_byte \<Rightarrow> bool \<Rightarrow> nat" where
  "next_bracket bracket b force_literal =
     (if bracket = 0 then (if fb_char b = CHR ''['' \<and> \<not> fb_quoted b \<and> \<not> force_literal then 1 else 0)
      else if bracket = 1 \<and> fb_char b = CHR ''!'' \<and> \<not> fb_quoted b then 2
      else if bracket = 3 \<and> fb_char b = CHR '']'' \<and> \<not> fb_quoted b then 0
      else 3)"

function pattern_loop ::
  "ctype \<Rightarrow> csh_expand_context \<Rightarrow> field_byte list \<Rightarrow> bool \<Rightarrow> nat \<Rightarrow> string \<Rightarrow> field_host \<Rightarrow>
   csh_expand_result \<times> string \<times> field_host" where
  "pattern_loop cx context [] escaping bracket out fx = (CSH_EXPAND_OK, out, fx)"
| "pattern_loop cx context (b # bs) escaping bracket out fx =
     (let width = csh_character_length cx (raw_text (b # bs)) False True
      in case interrupted fx of
           (True, fx) \<Rightarrow> (CSH_EXPAND_INTERRUPTED, out, fx)
         | (False, fx) \<Rightarrow>
             if 1 < width then
               pattern_loop cx context (drop width (b # bs)) False (if bracket = 0 then 0 else 3)
                 (out @ raw_text (take width (b # bs))) fx
             else
               (let bracket = (if context = CSH_EXPAND_ARGUMENT \<and> fb_char b = CHR ''/'' then 0 else bracket)
                in if escaping then
                     pattern_loop cx context bs False (if bracket = 0 then 0 else 3) (out @ [fb_char b]) fx
                   else
                     (case (if bracket \<noteq> 0 \<and> fb_char b = CHR ''['' \<and> \<not> fb_quoted b
                            then bracket_subexpression cx context (b # bs) fx
                            else (CSH_EXPAND_OK, None, False, fx)) of
                        (CSH_EXPAND_OK, end, forced, fx) \<Rightarrow>
                          (case (end, forced) of
                             (Some e, False) \<Rightarrow>
                               pattern_loop cx context (drop e bs) False 3 (out @ raw_text (take (e + 1) (b # bs))) fx
                           | _ \<Rightarrow>
                               (let forced = (end \<noteq> None \<and> forced)
                                in case protect b forced of
                                     (stored, True) \<Rightarrow>
                                       pattern_loop cx context bs True bracket (out @ stored) fx
                                   | (stored, False) \<Rightarrow>
                                       pattern_loop cx context bs False (next_bracket bracket b forced)
                                         (out @ stored) fx))
                      | (r, _, _, fx) \<Rightarrow> (r, out, fx))))"
  by pat_completeness auto
termination
  by (relation "measure (\<lambda>(cx, context, bs, escaping, bracket, out, fx). length bs)")
    (auto simp: diff_less)

declare pattern_loop.simps(2) [simp del]

definition make_pattern ::
  "ctype \<Rightarrow> csh_expand_context \<Rightarrow> field_byte list \<Rightarrow> field_host \<Rightarrow> csh_expand_result \<times> string \<times> field_host" where
  "make_pattern cx context bs fx = pattern_loop cx context bs False 0 [] fx"

definition emit ::
  "ctype \<Rightarrow> path_host \<Rightarrow> csh_expand_context \<Rightarrow> uint \<Rightarrow> field_byte list \<Rightarrow> csh_fields \<Rightarrow> field_host \<Rightarrow>
   csh_expand_result \<times> csh_fields \<times> field_host" where
  "emit cx ph context options bs out fx =
     (if context = CSH_EXPAND_ASSIGNMENT \<or> context = CSH_EXPAND_REDIRECTION \<or> context = CSH_EXPAND_HEREDOC \<or>
         (context = CSH_EXPAND_ARGUMENT \<and> options AND CSH_OPT_NOGLOB \<noteq> 0)
      then csh_fields_append out (raw_text bs) fx
      else
        (case make_pattern cx context bs fx of
           (CSH_EXPAND_OK, pattern, fx) \<Rightarrow>
             if context = CSH_EXPAND_PATTERN then csh_fields_append out pattern fx
             else csh_pathname_expand cx ph (raw_text bs) pattern out fx
         | (r, _, fx) \<Rightarrow> (r, out, fx)))"

text \<open>The checks of \<open>finish_field\<close> on its spans, with the length so far.\<close>

fun check_spans :: "csh_expand_span list \<Rightarrow> nat \<Rightarrow> field_host \<Rightarrow> csh_expand_result \<times> field_host" where
  "check_spans [] so_far fx = (CSH_EXPAND_OK, fx)"
| "check_spans (s # ss) so_far fx =
     (case interrupted fx of
        (True, fx) \<Rightarrow> (CSH_EXPAND_INTERRUPTED, fx)
      | (False, fx) \<Rightarrow>
          (let len = (case es_text s of None \<Rightarrow> 0 | Some t \<Rightarrow> length t)
           in if (SIZE_MAX - 1) div 2 - so_far < len then (CSH_EXPAND_NOMEM, fx)
              else if es_text s = None \<or> (es_split s \<and> es_quote s \<noteq> CSH_QUOTE_NONE) \<or>
                      (es_keep_empty s \<and> es_quote s = CSH_QUOTE_NONE) \<or> CHR 0x00 \<in> set (span_bytes s)
                then (CSH_EXPAND_INVALID, fx)
              else check_spans ss (so_far + len) fx))"

definition span_flags :: "csh_expand_span \<Rightarrow> char \<Rightarrow> field_byte" where
  "span_flags s c =
     \<lparr>fb_char = c, fb_quoted = (es_quote s \<noteq> CSH_QUOTE_NONE), fb_literal = (es_origin s = CSH_EXPAND_LITERAL)\<rparr>"

definition advance :: "nat \<Rightarrow> field_cursor \<Rightarrow> field_cursor" where
  "advance n cursor = (case cursor of [] \<Rightarrow> [] | (s, r) # cs \<Rightarrow> (s, drop n r) # cs)"

definition cursor_size :: "field_cursor \<Rightarrow> nat" where
  "cursor_size cursor = sum_list (map (\<lambda>(s, r). Suc (length r)) cursor)"

lemma current_size: "cursor_size (current cs) \<le> cursor_size cs"
  by (induction cs rule: current.induct) (auto simp: cursor_size_def)

lemma current_idem: "current (current cs) = current cs"
  by (induction cs rule: current.induct) auto

lemma ifs_match_bound: "fst (ifs_match cx r i) \<le> length r"
proof (induction cx r i rule: ifs_match.induct)
  case (2 cx r i "is")
  then show ?case by (auto simp: ifs_match.simps(2) Let_def)
qed simp

lemma delimiter_advances:
  assumes "fst (delimiter cx ifs cs) \<noteq> 0"
  shows "cursor_size (advance (fst (delimiter cx ifs cs)) cs) < cursor_size cs"
proof (cases cs)
  case (Cons x xs)
  obtain s r where "x = (s, r)" by (cases x)
  with assms Cons ifs_match_bound [of cx r ifs] show ?thesis
    by (auto simp: delimiter_def advance_def cursor_size_def split: if_splits)
qed (use assms in \<open>simp add: delimiter_def\<close>)

text \<open>The inner loop: IFS white space is skipped; the delimiter that ends it and the cursor in
  front of it. The first argument is the delimiter found at the cursor.\<close>

function skip_white ::
  "ctype \<Rightarrow> string \<Rightarrow> field_cursor \<Rightarrow> field_host \<Rightarrow> bool \<times> nat \<times> field_cursor \<times> field_host" where
  "skip_white cx ifs cursor fx =
     (case delimiter cx ifs cursor of
        (n, white) \<Rightarrow>
          if n \<noteq> 0 \<and> white then
            (case interrupted fx of
               (True, fx) \<Rightarrow> (True, n, cursor, fx)
             | (False, fx) \<Rightarrow> skip_white cx ifs (current (advance n cursor)) fx)
          else (False, n, cursor, fx))"
  by pat_completeness auto
termination
proof (relation "measure (\<lambda>(cx, ifs, cursor, fx). cursor_size cursor)", goal_cases)
  case (2 cx ifs cursor fx n white)
  then have "fst (delimiter cx ifs cursor) = n" "n \<noteq> 0" by (metis fst_conv)+
  then have "cursor_size (advance n cursor) < cursor_size cursor"
    using delimiter_advances [of cx ifs cursor] by simp
  with current_size [of "advance n cursor"] show ?case by simp
qed simp

declare skip_white.simps [simp del]

lemma skip_white_size: "skip_white cx ifs cs fx = (i, n, cs', fx') \<Longrightarrow> cursor_size cs' \<le> cursor_size cs"
proof (induction cx ifs cs fx arbitrary: i n cs' fx' rule: skip_white.induct)
  case (1 cx ifs cs fx)
  obtain m w where d: "delimiter cx ifs cs = (m, w)" by (cases "delimiter cx ifs cs")
  obtain b fx1 where b: "interrupted fx = (b, fx1)" by (cases "interrupted fx")
  show ?case
  proof (cases "m \<noteq> 0 \<and> w \<and> \<not> b")
    case False
    with 1(2) d b show ?thesis by (auto simp: skip_white.simps [of cx ifs cs] split: if_splits bool.splits)
  next
    case True
    with 1(2) d b have "skip_white cx ifs (current (advance m cs)) fx1 = (i, n, cs', fx')"
      by (simp add: skip_white.simps [of cx ifs cs])
    with 1(1) [OF d [symmetric] _ b [symmetric]] True have "cursor_size cs' \<le> cursor_size (current (advance m cs))" by auto
    moreover have "cursor_size (advance m cs) < cursor_size cs"
      using delimiter_advances [of cx ifs cs] d True by simp
    ultimately show ?thesis using current_size [of "advance m cs"] by linarith
  qed
qed

lemma advance_size: "cursor_size (advance n cs) \<le> cursor_size cs"
  by (auto simp: advance_def cursor_size_def split: list.splits)

lemma skip_white_progress:
  assumes "fst (delimiter cx ifs cs) \<noteq> 0" and "skip_white cx ifs cs fx = (False, n, cs', fx')"
  shows "cursor_size (advance n cs') < cursor_size cs"
proof -
  obtain m w where d: "delimiter cx ifs cs = (m, w)" by (cases "delimiter cx ifs cs")
  obtain b fx1 where b: "interrupted fx = (b, fx1)" by (cases "interrupted fx")
  have less: "cursor_size (advance m cs) < cursor_size cs" using delimiter_advances [OF assms(1)] d by simp
  show ?thesis
  proof (cases w)
    case False
    with assms d have "n = m" "cs' = cs" by (simp_all add: skip_white.simps [of cx ifs cs])
    with less show ?thesis by simp
  next
    case True
    with assms d b have "skip_white cx ifs (current (advance m cs)) fx1 = (False, n, cs', fx')"
      by (auto simp: skip_white.simps [of cx ifs cs] split: bool.splits)
    from skip_white_size [OF this] less current_size [of "advance m cs"] advance_size [of n cs'] show ?thesis by linarith
  qed
qed

lemma current_step:
  assumes "current cursor = (s, r) # cs"
  shows "cursor_size cs < cursor_size cursor"
    and "span_bytes s \<noteq> [] \<Longrightarrow> cursor_size ((s, drop (csh_character_length cx r False True) r) # cs) < cursor_size cursor"
proof -
  have le: "cursor_size ((s, r) # cs) \<le> cursor_size cursor" using current_size [of cursor] assms by simp
  then show "cursor_size cs < cursor_size cursor" by (simp add: cursor_size_def)
  assume "span_bytes s \<noteq> []"
  then have "r \<noteq> []" using assms by (induction cursor rule: current.induct) (auto split: if_splits)
  then have "length (drop (csh_character_length cx r False True) r) < length r"
    by (cases r) (simp_all add: diff_less)
  with le \<open>r \<noteq> []\<close> show "cursor_size ((s, drop (csh_character_length cx r False True) r) # cs) < cursor_size cursor"
    by (auto simp: cursor_size_def)
qed

text \<open>The main loop, with the field collected so far and whether an empty one is kept.\<close>

function split_loop ::
  "ctype \<Rightarrow> path_host \<Rightarrow> csh_expand_context \<Rightarrow> string \<Rightarrow> uint \<Rightarrow> field_cursor \<Rightarrow> field_byte list \<Rightarrow> bool \<Rightarrow>
   csh_fields \<Rightarrow> field_host \<Rightarrow> csh_expand_result \<times> csh_fields \<times> field_host" where
  "split_loop cx ph context ifs options cursor raw keep out fx =
     (case current cursor of
        [] \<Rightarrow>
          if raw \<noteq> [] \<or> keep then emit cx ph context options raw out fx else (CSH_EXPAND_OK, out, fx)
      | (s, r) # cs \<Rightarrow>
          (case interrupted fx of
             (True, fx) \<Rightarrow> (CSH_EXPAND_INTERRUPTED, out, fx)
           | (False, fx) \<Rightarrow>
               if span_bytes s = [] then split_loop cx ph context ifs options cs raw True out fx
               else if context \<noteq> CSH_EXPAND_ARGUMENT \<or> fst (delimiter cx ifs ((s, r) # cs)) = 0 then
                 (let width = csh_character_length cx r False True
                  in split_loop cx ph context ifs options ((s, drop width r) # cs)
                       (raw @ map (span_flags s) (take width r)) keep out fx)
               else
                 (case skip_white cx ifs ((s, r) # cs) fx of
                    (True, n, cursor, fx) \<Rightarrow> (CSH_EXPAND_INTERRUPTED, out, fx)
                  | (False, n, cursor, fx) \<Rightarrow>
                      if raw \<noteq> [] \<or> keep \<or> n \<noteq> 0 then
                        (case emit cx ph context options raw out fx of
                           (CSH_EXPAND_OK, out, fx) \<Rightarrow>
                             split_loop cx ph context ifs options (advance n cursor) [] False out fx
                         | (r, out, fx) \<Rightarrow> (r, out, fx))
                      else split_loop cx ph context ifs options (advance n cursor) [] False out fx)))"
  by pat_completeness auto
termination
proof (relation "measure (\<lambda>(cx, ph, context, ifs, options, cursor, raw, keep, out, fx). cursor_size cursor)", goal_cases)
  case 1
  show ?case by simp
next
  case (2 cx ph ctx ifs options cursor raw keep out fx x xs s r)
  then have "current cursor = (s, r) # xs" by simp
  from current_step(1) [OF this] show ?case by simp
next
  case (3 cx ph ctx ifs options cursor raw keep out fx x xs s r)
  then have "current cursor = (s, r) # xs" "span_bytes s \<noteq> []" by simp_all
  from current_step(2) [OF this] 3 show ?case by simp
next
  case (4 cx ph ctx ifs options cursor raw keep out fx x cs s r)
  then have c: "current cursor = (s, r) # cs" and d: "fst (delimiter cx ifs ((s, r) # cs)) \<noteq> 0" by simp_all
  from 4 current_size [of cursor] c show ?case by (auto dest!: skip_white_progress [OF d, OF sym])
next
  case (5 cx ph ctx ifs options cursor raw keep out fx x cs s r)
  then have c: "current cursor = (s, r) # cs" and d: "fst (delimiter cx ifs ((s, r) # cs)) \<noteq> 0" by simp_all
  from 5 current_size [of cursor] c show ?case by (auto dest!: skip_white_progress [OF d, OF sym])
qed

declare split_loop.simps [simp del]

definition finish_field ::
  "ctype \<Rightarrow> path_host \<Rightarrow> csh_expand_field \<Rightarrow> csh_expand_context \<Rightarrow> string \<Rightarrow> uint \<Rightarrow> csh_fields \<Rightarrow> field_host \<Rightarrow>
   csh_expand_result \<times> csh_fields \<times> field_host" where
  "finish_field cx ph field context ifs options out fx =
     (case field of
        None \<Rightarrow> (CSH_EXPAND_INVALID, out, fx)
      | Some spans \<Rightarrow>
          (case check_spans spans 0 fx of
             (CSH_EXPAND_OK, fx) \<Rightarrow>
               (let (raw, fx) = fh_malloc fx; (pattern, fx) = fh_malloc fx; (protection, fx) = fh_malloc fx
                in if \<not> raw \<or> \<not> pattern \<or> \<not> protection then (CSH_EXPAND_NOMEM, out, fx)
                   else
                     split_loop cx ph context ifs options (map (\<lambda>s. (s, span_bytes s)) spans) []
                       (context \<noteq> CSH_EXPAND_ARGUMENT) out fx)
           | (r, fx) \<Rightarrow> (r, out, fx)))"

fun finish_fields ::
  "ctype \<Rightarrow> path_host \<Rightarrow> csh_expand_field list \<Rightarrow> csh_expand_context \<Rightarrow> string \<Rightarrow> uint \<Rightarrow> csh_fields \<Rightarrow> field_host \<Rightarrow>
   csh_expand_result \<times> csh_fields \<times> field_host" where
  "finish_fields cx ph [] context ifs options out fx = (CSH_EXPAND_OK, out, fx)"
| "finish_fields cx ph (f # fs) context ifs options out fx =
     (case interrupted fx of
        (True, fx) \<Rightarrow> (CSH_EXPAND_INTERRUPTED, out, fx)
      | (False, fx) \<Rightarrow>
          (case finish_field cx ph f context ifs options out fx of
             (CSH_EXPAND_OK, out, fx) \<Rightarrow> finish_fields cx ph fs context ifs options out fx
           | (r, out, fx) \<Rightarrow> (r, out, fx)))"

definition fields_message :: "csh_expand_result \<Rightarrow> string" where
  "fields_message r =
     (if r = CSH_EXPAND_NOMEM then ''field expansion allocation failed''
      else if r = CSH_EXPAND_IO then ''pathname expansion I/O failed''
      else if r = CSH_EXPAND_INTERRUPTED then ''field expansion interrupted''
      else if r = CSH_EXPAND_LIMIT then ''pathname expansion limit exceeded''
      else ''invalid intermediate expansion'')"

text \<open>The state and the output are never \<open>NULL\<close> here, the context is always one of the five, and
  an expansion whose \<open>fields\<close> are \<open>NULL\<close> with a nonzero count is \<open>None\<close>.\<close>

definition csh_expand_fields ::
  "ctype \<Rightarrow> path_host \<Rightarrow> csh_state \<Rightarrow> csh_expansion option \<Rightarrow> field_host \<Rightarrow>
   csh_expand_result \<times> csh_fields \<times> csh_expand_error \<times> field_host" where
  "csh_expand_fields cx ph s expansion fx =
     (let (r, out, fx) =
        (case expansion of
           None \<Rightarrow> (CSH_EXPAND_INVALID, [], fx)
         | Some ex \<Rightarrow>
             (case ex_fields ex of
                None \<Rightarrow> (CSH_EXPAND_INVALID, [], fx)
              | Some fs \<Rightarrow>
                  (case csh_state_get_variable s (Some ''IFS'') of
                     (CSH_STATE_OK, view) \<Rightarrow>
                       (let ifs = (case view_value view of None \<Rightarrow> [CHR '' '', CHR 0x09, CHR 0x0A] | Some v \<Rightarrow> v)
                        in case finish_fields cx ph fs (ex_context ex) ifs
                                  (si_options (csh_state_get_info s)) [] fx of
                             (CSH_EXPAND_OK, out, fx) \<Rightarrow>
                               (case interrupted fx of
                                  (True, fx) \<Rightarrow> (CSH_EXPAND_INTERRUPTED, out, fx)
                                | (False, fx) \<Rightarrow> (CSH_EXPAND_OK, out, fx))
                           | (r, out, fx) \<Rightarrow> (r, out, fx))
                   | _ \<Rightarrow> (CSH_EXPAND_INVALID, [], fx))))
      in if r = CSH_EXPAND_OK
         then (r, out, \<lparr>ee_code = CSH_EXPAND_OK, ee_fragment = CSH_FRAGMENT_ROOT, ee_position = no_position, ee_message = []\<rparr>, fx)
         else (r, csh_fields_destroy out,
               \<lparr>ee_code = r, ee_fragment = CSH_FRAGMENT_ROOT, ee_position = no_position, ee_message = fields_message r\<rparr>, fx))"

subsection \<open>Patterns\<close>

text \<open>The turns of the pattern loop as a relation: from the bytes left, the pending escape and the
  bracket state to the number of bytes consumed, what is stored, and the next pending escape and
  bracket state.\<close>

definition slash_reset :: "csh_expand_context \<Rightarrow> field_byte \<Rightarrow> nat \<Rightarrow> nat" where
  "slash_reset ctx b bracket = (if ctx = CSH_EXPAND_ARGUMENT \<and> fb_char b = CHR ''/'' then 0 else bracket)"

inductive pattern_turn ::
  "ctype \<Rightarrow> csh_expand_context \<Rightarrow> field_byte list \<Rightarrow> bool \<Rightarrow> nat \<Rightarrow> nat \<Rightarrow> string \<Rightarrow> bool \<Rightarrow> nat \<Rightarrow> bool" for cx ctx where
  wide: "1 < csh_character_length cx (raw_text (b # bs)) False True \<Longrightarrow>
    pattern_turn cx ctx (b # bs) esc bracket (csh_character_length cx (raw_text (b # bs)) False True)
      (raw_text (take (csh_character_length cx (raw_text (b # bs)) False True) (b # bs))) False
      (if bracket = 0 then 0 else 3)"
| escaped: "pattern_turn cx ctx (b # bs) True bracket 1 [fb_char b] False
    (if slash_reset ctx b bracket = 0 then 0 else 3)"
| copied: "slash_reset ctx b bracket \<noteq> 0 \<Longrightarrow> fb_char b = CHR ''['' \<Longrightarrow> \<not> fb_quoted b \<Longrightarrow>
    pattern_turn cx ctx (b # bs) False bracket (Suc e) (raw_text (take (Suc e) (b # bs))) False 3"
| escapes: "protect b forced = (stored, True) \<Longrightarrow> (forced \<Longrightarrow> slash_reset ctx b bracket \<noteq> 0 \<and> \<not> fb_quoted b) \<Longrightarrow>
    pattern_turn cx ctx (b # bs) False bracket 1 stored True (slash_reset ctx b bracket)"
| single: "protect b forced = (stored, False) \<Longrightarrow> (forced \<Longrightarrow> slash_reset ctx b bracket \<noteq> 0 \<and> \<not> fb_quoted b) \<Longrightarrow>
    pattern_turn cx ctx (b # bs) False bracket 1 stored False (next_bracket (slash_reset ctx b bracket) b forced)"

lemma pattern_loop_step:
  assumes "pattern_loop cx ctx (b # bs) esc bracket out fx = (CSH_EXPAND_OK, out', fx')"
  obtains n bits esc' bracket' fx1 where "pattern_turn cx ctx (b # bs) esc bracket n bits esc' bracket'"
    "pattern_loop cx ctx (drop n (b # bs)) esc' bracket' (out @ bits) fx1 = (CSH_EXPAND_OK, out', fx')"
proof -
  let ?w = "csh_character_length cx (raw_text (b # bs)) False True"
  obtain i fx1 where i: "interrupted fx = (i, fx1)" by (cases "interrupted fx")
  note run = assms [unfolded pattern_loop.simps(2) Let_def i, simplified]
  have ni: "\<not> i" using run by (auto split: bool.splits)
  show ?thesis
  proof (cases "1 < ?w")
    case True
    with run ni show ?thesis by (intro that [OF pattern_turn.wide]) (auto split: if_splits)
  next
    case narrow: False
    show ?thesis
    proof (cases esc)
      case True
      with run ni narrow have "pattern_loop cx ctx bs False (if slash_reset ctx b bracket = 0 then 0 else 3) (out @ [fb_char b]) fx1
          = (CSH_EXPAND_OK, out', fx')" by (auto simp: slash_reset_def split: if_splits)
      moreover have "pattern_turn cx ctx (b # bs) esc bracket 1 [fb_char b] False (if slash_reset ctx b bracket = 0 then 0 else 3)"
        using pattern_turn.escaped [of cx ctx b bs bracket] True by simp
      ultimately show ?thesis using that [of 1 "[fb_char b]" False] by simp
    next
      case plain: False
      let ?sub = "if slash_reset ctx b bracket \<noteq> 0 \<and> fb_char b = CHR ''['' \<and> \<not> fb_quoted b
        then bracket_subexpression cx ctx (b # bs) fx1 else (CSH_EXPAND_OK, None, False, fx1)"
      obtain r e f fx2 where sub: "?sub = (r, e, f, fx2)" by (metis surj_pair)
      have "(case ?sub of
          (CSH_EXPAND_OK, end, forced, fx) \<Rightarrow>
            (case (end, forced) of
               (Some e, False) \<Rightarrow>
                 pattern_loop cx ctx (drop e bs) False 3 (out @ raw_text (take (e + 1) (b # bs))) fx
             | _ \<Rightarrow>
                 (let forced = (end \<noteq> None \<and> forced)
                  in case protect b forced of
                       (stored, True) \<Rightarrow> pattern_loop cx ctx bs True (slash_reset ctx b bracket) (out @ stored) fx
                     | (stored, False) \<Rightarrow>
                         pattern_loop cx ctx bs False (next_bracket (slash_reset ctx b bracket) b forced) (out @ stored) fx))
        | (r, _, _, fx) \<Rightarrow> (r, out, fx)) = (CSH_EXPAND_OK, out', fx')"
        using assms i ni
        unfolding pattern_loop.simps(2) Let_def slash_reset_def [symmetric]
        by (simp only: prod.case bool.case narrow plain if_False)
      note step = this [unfolded sub]
      have r: "r = CSH_EXPAND_OK" using step by (cases r) auto
      show ?thesis
      proof (cases "e \<noteq> None \<and> \<not> f")
        case True
        then obtain k where k: "e = Some k" by auto
        with sub have "slash_reset ctx b bracket \<noteq> 0" "fb_char b = CHR ''[''" "\<not> fb_quoted b" by (auto split: if_splits)
        from pattern_turn.copied [OF this, of cx bs k] plain
        have "pattern_turn cx ctx (b # bs) esc bracket (Suc k) (raw_text (take (Suc k) (b # bs))) False 3" by simp
        from that [OF this] step r k True show ?thesis by simp
      next
        case False
        define forced where "forced = (e \<noteq> None \<and> f)"
        obtain stored x where p: "protect b forced = (stored, x)" by (cases "protect b forced")
        have forced: "slash_reset ctx b bracket \<noteq> 0 \<and> \<not> fb_quoted b" if forced
          using that sub by (auto simp: forced_def split: if_splits)
        have "(if x then pattern_loop cx ctx bs True (slash_reset ctx b bracket) (out @ stored) fx2
            else pattern_loop cx ctx bs False (next_bracket (slash_reset ctx b bracket) b forced) (out @ stored) fx2) =
            (CSH_EXPAND_OK, out', fx')"
          using step r False p by (auto simp: forced_def split: option.splits bool.splits)
        note rest = this
        show ?thesis
        proof (cases x)
          case True
          have p': "protect b forced = (stored, True)" using p True by simp
          have "pattern_turn cx ctx (b # bs) esc bracket 1 stored True (slash_reset ctx b bracket)"
            using pattern_turn.escapes [OF p' forced, of cx bs] plain by simp
          from that [OF this] rest True show ?thesis by simp
        next
          case False
          have p': "protect b forced = (stored, False)" using p False by simp
          have "pattern_turn cx ctx (b # bs) esc bracket 1 stored False (next_bracket (slash_reset ctx b bracket) b forced)"
            using pattern_turn.single [OF p' forced, of cx bs] plain by simp
          from that [OF this] rest False show ?thesis by simp
        qed
      qed
    qed
  qed
qed

lemma protect_length: "protect b forced = (stored, x) \<Longrightarrow> length stored \<le> 2"
  by (auto simp: protect_def split: if_splits)

lemma pattern_turn_bound:
  "pattern_turn cx ctx bs esc bracket n bits esc' bracket' \<Longrightarrow>
   0 < n \<and> length bits + 2 * length (drop n bs) \<le> 2 * length bs"
  by (induction rule: pattern_turn.induct) (auto simp: min_def dest: protect_length)

lemma pattern_loop_bound:
  "pattern_loop cx ctx bs esc bracket out fx = (CSH_EXPAND_OK, out', fx') \<Longrightarrow>
   length out' \<le> length out + 2 * length bs"
proof (induction "length bs" arbitrary: bs esc bracket out fx rule: less_induct)
  case less
  show ?case
  proof (cases bs)
    case Nil
    with less.prems show ?thesis by simp
  next
    case (Cons b bs')
    from less.prems [unfolded Cons] obtain n bits esc' bracket' fx1 where
      t: "pattern_turn cx ctx (b # bs') esc bracket n bits esc' bracket'"
      and l: "pattern_loop cx ctx (drop n (b # bs')) esc' bracket' (out @ bits) fx1 = (CSH_EXPAND_OK, out', fx')"
      by (rule pattern_loop_step)
    have "length (drop n (b # bs')) < length bs" using pattern_turn_bound [OF t] Cons by simp
    from less.hyps [OF this l] pattern_turn_bound [OF t] Cons show ?thesis by simp
  qed
qed
text \<open>
  C36: the pattern buffer never overflows. \<open>make_pattern\<close> stores at most two bytes per byte of the
  field, which is what \<open>finish_field\<close> allocates (with one more for the terminator), whatever the
  quoting, the bracket expressions and the encoding.
\<close>

theorem make_pattern_bound:
  assumes "make_pattern cx ctx bs fx = (CSH_EXPAND_OK, pattern, fx')"
  shows "length pattern \<le> 2 * length bs"
  using pattern_loop_bound [OF assms [unfolded make_pattern_def]] by simp

subsection \<open>Quoting\<close>

text \<open>An encoding in which no byte of a multibyte character is ASCII, as in UTF-8.\<close>

definition ascii_safe :: "ctype \<Rightarrow> bool" where
  "ascii_safe cx \<longleftrightarrow>
     (\<forall>l t n. mbrlen cx l t = MB_LENGTH n \<and> 1 < n \<longrightarrow> n \<le> length t \<and> (\<forall>c\<in>set (take n t). 0x80 \<le> (of_char c :: nat)))"

lemma wide_not_ascii:
  assumes "ascii_safe cx" and "1 < csh_character_length cx t lexical final"
    and "c \<in> set (take (csh_character_length cx t lexical final) t)"
  shows "0x80 \<le> (of_char c :: nat)"
proof -
  obtain l where "mbrlen cx l t = MB_LENGTH (csh_character_length cx t lexical final)"
    using assms(2) by (auto simp: csh_character_length_def split: list.splits mbr.splits if_splits)
  with assms show ?thesis unfolding ascii_safe_def by blast
qed

text \<open>A pattern in which every wildcard and every backslash is escaped.\<close>

fun inert :: "string \<Rightarrow> bool" where
  "inert [] \<longleftrightarrow> True"
| "inert (c # cs) \<longleftrightarrow>
     (if c = escape_char then cs \<noteq> [] \<and> (of_char (hd cs) :: nat) < 0x80 \<and> inert (tl cs)
      else c \<notin> {CHR ''*'', CHR ''?'', CHR ''[''} \<and> inert cs)"

lemma inert_drop_wide: "inert t \<Longrightarrow> \<forall>c\<in>set (take n t). 0x80 \<le> (of_char c :: nat) \<Longrightarrow> inert (drop n t)"
proof (induction n arbitrary: t)
  case (Suc n)
  show ?case
  proof (cases t)
    case (Cons c cs)
    then have "c \<noteq> escape_char" using Suc.prems(2) by auto
    with Suc Cons show ?thesis by (auto split: if_splits)
  qed simp
qed simp

lemma inert_append: "inert s \<Longrightarrow> inert t \<Longrightarrow> inert (s @ t)"
proof (induction s rule: inert.induct)
  case (2 c cs)
  then show ?case by (cases cs) (auto split: if_splits)
qed simp

lemma pattern_width_wide:
  "ascii_safe cx \<Longrightarrow> 1 < pattern_width cx t \<Longrightarrow> c \<in> set (take (pattern_width cx t) t) \<Longrightarrow> 0x80 \<le> (of_char c :: nat)"
proof -
  assume a: "ascii_safe cx" and w: "1 < pattern_width cx t" and c: "c \<in> set (take (pattern_width cx t) t)"
  let ?u = "take (Suc (mb_more cx)) t"
  obtain l where "mbrlen cx l ?u = MB_LENGTH (pattern_width cx t)"
    using w unfolding pattern_width_def by (auto simp: csh_character_length_def split: list.splits mbr.splits if_splits)
  with a w have le: "pattern_width cx t \<le> length ?u" and all: "\<forall>c\<in>set (take (pattern_width cx t) ?u). 0x80 \<le> (of_char c :: nat)"
    unfolding ascii_safe_def by blast+
  from le have "take (pattern_width cx t) ?u = take (pattern_width cx t) t" by (simp only: take_take length_take min.bounded_iff min.absorb1)
  with all c show ?thesis by auto
qed

lemma inert_no_pattern: "ascii_safe cx \<Longrightarrow> inert t \<Longrightarrow> \<not> has_pattern cx t"
proof (induction cx t rule: has_pattern.induct)
  case (2 cx c cs)
  show ?case
  proof (cases "c = escape_char")
    case True
    with 2(4) obtain d ds where cs: "cs = d # ds" and d: "(of_char d :: nat) < 0x80" "inert ds" by (cases cs) auto
    have "pattern_width cx cs = 1" using cs d by (simp add: pattern_width_def csh_character_length_def)
    with 2(1) [OF _ 2(3)] True cs d show ?thesis by (simp add: has_pattern.simps(2))
  next
    case False
    let ?w = "pattern_width cx (c # cs)"
    have "inert (drop ?w (c # cs))"
    proof (cases "1 < ?w")
      case True
      then show ?thesis using inert_drop_wide [OF 2(4)] pattern_width_wide [OF 2(3)] by blast
    next
      case w: False
      then have "?w = 1" using pattern_width_pos [of "c # cs" cx] by simp
      with 2(4) False show ?thesis by simp
    qed
    with 2(2) [OF _ _ 2(3)] 2(4) False show ?thesis by (auto simp: has_pattern.simps(2))
  qed
qed simp

lemma quoted_turn:
  assumes "ascii_safe cx" and "pattern_turn cx ctx bs esc bracket n bits esc' bracket'"
    and "\<not> esc" and "bracket = 0" and "\<forall>b\<in>set bs. fb_quoted b"
  shows "inert bits \<and> \<not> esc' \<and> bracket' = 0"
  using assms(2-)
proof (induction rule: pattern_turn.induct)
  case (wide b bs esc bracket)
  have "inert t" if "\<forall>c\<in>set t. 0x80 \<le> (of_char c :: nat)" for t :: string
    using that by (induction t) auto
  with wide_not_ascii [OF assms(1) wide(1)] wide show ?case by (metis take_map)
next
  case (escapes b forced stored bracket bs)
  then show ?case by (auto simp: protect_def slash_reset_def split: if_splits)
next
  case (single b forced stored bracket bs)
  then show ?case by (auto simp: protect_def slash_reset_def next_bracket_def split: if_splits)
qed (auto simp: slash_reset_def)

lemma quoted_loop:
  assumes "ascii_safe cx"
  shows "pattern_loop cx ctx bs esc bracket out fx = (CSH_EXPAND_OK, out', fx') \<Longrightarrow>
    \<not> esc \<Longrightarrow> bracket = 0 \<Longrightarrow> \<forall>b\<in>set bs. fb_quoted b \<Longrightarrow> inert out \<Longrightarrow> inert out'"
proof (induction "length bs" arbitrary: bs esc bracket out fx rule: less_induct)
  case less
  show ?case
  proof (cases bs)
    case Nil
    with less.prems show ?thesis by simp
  next
    case (Cons b bs')
    from less.prems(1) [unfolded Cons] obtain n bits esc' bracket' fx1 where
      t: "pattern_turn cx ctx (b # bs') esc bracket n bits esc' bracket'"
      and l: "pattern_loop cx ctx (drop n (b # bs')) esc' bracket' (out @ bits) fx1 = (CSH_EXPAND_OK, out', fx')"
      by (rule pattern_loop_step)
    have next_ok: "inert bits" "\<not> esc'" "bracket' = 0" using quoted_turn [OF assms t] less.prems Cons by auto
    have "length (drop n (b # bs')) < length bs" using pattern_turn_bound [OF t] Cons by simp
    moreover have "\<forall>b\<in>set (drop n (b # bs')). fb_quoted b" using less.prems(4) Cons in_set_dropD by metis
    ultimately show ?thesis using less.hyps [OF _ l] next_ok less.prems(5) by (simp add: inert_append)
  qed
qed

lemma emit_quoted:
  assumes "ascii_safe cx" and "\<forall>b\<in>set bs. fb_quoted b" and "ctx \<noteq> CSH_EXPAND_PATTERN"
    and "emit cx ph ctx options bs out fx = (CSH_EXPAND_OK, out', fx')"
  shows "out' = out @ [raw_text bs]"
proof (cases "csh_fields_append out (raw_text bs) fx = (CSH_EXPAND_OK, out', fx')")
  case True
  then show ?thesis by (auto dest: append_result)
next
  case False
  with assms(3,4) obtain pattern fx1 where m: "make_pattern cx ctx bs fx = (CSH_EXPAND_OK, pattern, fx1)"
    and p: "csh_pathname_expand cx ph (raw_text bs) pattern out fx1 = (CSH_EXPAND_OK, out', fx')"
    by (auto simp: emit_def split: if_splits prod.splits csh_expand_result.splits)
  have "\<not> has_pattern cx pattern"
    using quoted_loop [OF assms(1) m [unfolded make_pattern_def]] assms(1,2) inert_no_pattern by simp
  with p show ?thesis
    by (auto simp: csh_pathname_expand_def split: prod.splits bool.splits dest: append_result)
qed

lemma emit_scalar:
  "ctx \<in> {CSH_EXPAND_ASSIGNMENT, CSH_EXPAND_REDIRECTION, CSH_EXPAND_HEREDOC} \<or>
     (ctx = CSH_EXPAND_ARGUMENT \<and> options AND CSH_OPT_NOGLOB \<noteq> 0) \<Longrightarrow>
   emit cx ph ctx options bs out fx = (CSH_EXPAND_OK, out', fx') \<Longrightarrow> out' = out @ [raw_text bs]"
  by (auto simp: emit_def dest: append_result)

subsection \<open>Spans that are not split\<close>

text \<open>What is left to read of a cursor: the bytes, and an item for every empty span that keeps its field.\<close>

datatype field_item = Keep | Byte field_byte bool

definition splittable :: "csh_expand_span \<Rightarrow> bool" where
  "splittable s \<longleftrightarrow> es_split s \<and> es_quote s = CSH_QUOTE_NONE"

definition span_items :: "csh_expand_span \<times> string \<Rightarrow> field_item list" where
  "span_items = (\<lambda>(s, r). if span_bytes s = [] then (if es_keep_empty s then [Keep] else [])
     else map (\<lambda>c. Byte (span_flags s c) (splittable s)) r)"

definition cursor_items :: "field_cursor \<Rightarrow> field_item list" where
  "cursor_items cursor = concat (map span_items cursor)"

lemma cursor_items_simps [simp]:
  "cursor_items [] = []" "cursor_items (x # xs) = span_items x @ cursor_items xs"
  by (simp_all add: cursor_items_def)

definition cursor_ok :: "field_cursor \<Rightarrow> bool" where
  "cursor_ok cursor \<longleftrightarrow> (\<forall>(s, r)\<in>set cursor. span_bytes s = [] \<longrightarrow> r = [])"

lemma cursor_ok_simps [simp]:
  "cursor_ok []" "cursor_ok ((s, r) # cs) \<longleftrightarrow> (span_bytes s = [] \<longrightarrow> r = []) \<and> cursor_ok cs"
  by (auto simp: cursor_ok_def)

lemma current_items: "cursor_ok cursor \<Longrightarrow> cursor_items (current cursor) = cursor_items cursor"
  by (induction cursor rule: current.induct) (auto simp: span_items_def)

lemma current_ok: "cursor_ok cursor \<Longrightarrow> cursor_ok (current cursor)"
  by (induction cursor rule: current.induct) auto

fun item_bytes :: "field_item list \<Rightarrow> field_byte list" where
  "item_bytes [] = []"
| "item_bytes (Keep # is) = item_bytes is"
| "item_bytes (Byte b x # is) = b # item_bytes is"

lemma item_bytes_append [simp]: "item_bytes (xs @ ys) = item_bytes xs @ item_bytes ys"
  by (induction xs rule: item_bytes.induct) auto

lemma item_bytes_span [simp]: "item_bytes (map (\<lambda>c. Byte (f c) x) cs) = map f cs"
  by (induction cs) auto

subsection \<open>Field splitting\<close>

text \<open>Field splitting as POSIX describes it, on items: IFS white space around the fields is dropped,
  and a field ends at a run of white space or at one other IFS character with the white space
  around it. Only bytes of splittable spans delimit.\<close>

definition item_white :: "string \<Rightarrow> field_item \<Rightarrow> bool" where
  "item_white ifs i \<longleftrightarrow>
     (case i of Byte b True \<Rightarrow> fb_char b \<in> set ifs \<and> fb_char b \<in> {CHR '' '', CHR 0x09, CHR 0x0A} | _ \<Rightarrow> False)"

definition item_mark :: "string \<Rightarrow> field_item \<Rightarrow> bool" where
  "item_mark ifs i \<longleftrightarrow>
     (case i of Byte b True \<Rightarrow> fb_char b \<in> set ifs \<and> fb_char b \<notin> {CHR '' '', CHR 0x09, CHR 0x0A} | _ \<Rightarrow> False)"

definition item_text :: "string \<Rightarrow> field_item \<Rightarrow> bool" where
  "item_text ifs i \<longleftrightarrow> \<not> item_white ifs i \<and> \<not> item_mark ifs i"

definition after_mark :: "string \<Rightarrow> field_item list \<Rightarrow> field_item list" where
  "after_mark ifs is =
     (let rest = dropWhile (item_white ifs) is
      in case rest of i # rest' \<Rightarrow> if item_mark ifs i then rest' else rest | [] \<Rightarrow> [])"

lemma after_mark_length: "length (after_mark ifs is) \<le> length is"
  using length_dropWhile_le [of "item_white ifs" "is"]
  by (auto simp: after_mark_def Let_def split: list.splits)

lemma after_mark_less:
  "is \<noteq> [] \<Longrightarrow> \<not> item_text ifs (hd is) \<Longrightarrow> length (after_mark ifs is) < length is"
proof (cases "is")
  case (Cons i "is'")
  assume "\<not> item_text ifs (hd is)"
  with Cons length_dropWhile_le [of "item_white ifs" "is'"] show ?thesis
    by (auto simp: item_text_def after_mark_def Let_def split: list.splits)
qed simp

function posix_fields :: "string \<Rightarrow> field_item list \<Rightarrow> field_item list list" where
  "posix_fields ifs is =
     (let start = dropWhile (item_white ifs) is
      in if start = [] then []
         else takeWhile (item_text ifs) start #
                posix_fields ifs (after_mark ifs (dropWhile (item_text ifs) start)))"
  by pat_completeness auto
termination
proof (relation "measure (\<lambda>(ifs, is). length is)", goal_cases)
  case (2 ifs "is" start)
  have le: "length start \<le> length is" using 2 by (simp add: length_dropWhile_le)
  show ?case
  proof (cases "item_text ifs (hd start)")
    case True
    moreover obtain i rest where "start = i # rest" using 2(2) by (auto simp: neq_Nil_conv)
    ultimately have "length (dropWhile (item_text ifs) start) < length start"
      by (simp add: le_imp_less_Suc length_dropWhile_le)
    with le after_mark_length [of ifs "dropWhile (item_text ifs) start"] show ?thesis by simp
  next
    case False
    then have "dropWhile (item_text ifs) start = start" by (cases start) auto
    with le after_mark_less [of start ifs] False 2 show ?thesis by simp
  qed
qed simp

declare posix_fields.simps [simp del]

lemma posix_fields_Nil [simp]: "posix_fields ifs [] = []"
  by (simp add: posix_fields.simps)

lemma posix_fields_white: "posix_fields ifs (dropWhile (item_white ifs) is) = posix_fields ifs is"
  by (subst (1 2) posix_fields.simps) (simp add: Let_def)

lemma text_not_white: "item_text ifs i \<Longrightarrow> \<not> item_white ifs i"
  by (simp add: item_text_def)

lemma posix_fields_text:
  assumes "\<forall>i\<in>set acc. item_text ifs i" and "acc \<noteq> []" and "is \<noteq> [] \<Longrightarrow> \<not> item_text ifs (hd is)"
  shows "posix_fields ifs (acc @ is) = acc # posix_fields ifs (after_mark ifs is)"
proof -
  have "dropWhile (item_white ifs) (acc @ is) = acc @ is"
    using assms(1,2) text_not_white by (cases acc) auto
  moreover have "takeWhile (item_text ifs) (acc @ is) = acc" "dropWhile (item_text ifs) (acc @ is) = is"
    using assms(1,3) by (cases "is"; simp add: takeWhile_append dropWhile_append)+
  ultimately show ?thesis using assms(2) by (simp add: posix_fields.simps [of ifs "acc @ is"])
qed

lemma posix_fields_mark:
  assumes "dropWhile (item_white ifs) is = i # is'" and "item_mark ifs i"
  shows "posix_fields ifs is = [] # posix_fields ifs is'"
proof -
  have "\<not> item_text ifs i" "\<not> item_white ifs i"
    using assms(2) by (auto simp: item_text_def item_white_def item_mark_def split: field_item.splits bool.splits)
  with assms show ?thesis by (simp add: posix_fields.simps [of ifs "is"] after_mark_def)
qed

subsection \<open>The loop against it\<close>

lemma ascii_one: "ascii_safe cx \<Longrightarrow> (of_char i :: nat) < 0x80 \<Longrightarrow> character_bytes cx (i # is) = 1"
proof -
  assume a: "ascii_safe cx" and i: "(of_char i :: nat) < 0x80"
  have "n \<le> 1" if "mbrlen cx (current_ctype cx) (i # is) = MB_LENGTH n" for n
  proof (rule ccontr)
    assume "\<not> n \<le> 1"
    with a that have "\<forall>c\<in>set (take n (i # is)). 0x80 \<le> (of_char c :: nat)" unfolding ascii_safe_def by (metis not_le)
    with i \<open>\<not> n \<le> 1\<close> show False by (cases n) auto
  qed
  then show ?thesis by (force simp: character_bytes_def split: mbr.splits)
qed

lemma ifs_match_ascii:
  "ascii_safe cx \<Longrightarrow> \<forall>i\<in>set ifs. (of_char i :: nat) < 0x80 \<Longrightarrow>
   ifs_match cx (c # r) ifs =
     (if c \<in> set ifs then (1, c \<in> {CHR '' '', CHR 0x09, CHR 0x0A}) else (0, False))"
proof (induction ifs)
  case (Cons i ifs)
  then have "character_bytes cx (i # ifs) = 1" by (simp add: ascii_one)
  with Cons show ?case by (auto simp: ifs_match.simps(2))
qed simp

lemma delimiter_ascii:
  assumes "ascii_safe cx" and "\<forall>i\<in>set ifs. (of_char i :: nat) < 0x80" and "span_bytes s \<noteq> []" and "r \<noteq> []"
  shows "delimiter cx ifs ((s, r) # cs) =
    (let i = hd (span_items (s, r)) in (if item_text ifs i then 0 else 1, item_white ifs i))"
  using assms by (cases r) (auto simp: delimiter_def ifs_match_ascii splittable_def span_items_def span_flags_def
    item_text_def item_white_def item_mark_def Let_def split: bool.splits)

lemma items_Cons:
  "current cursor = (s, r) # cs \<Longrightarrow> span_bytes s \<noteq> [] \<Longrightarrow> r \<noteq> [] \<and>
     cursor_items (current cursor) =
       Byte (span_flags s (hd r)) (splittable s) # cursor_items (advance 1 (current cursor))"
proof -
  assume c: "current cursor = (s, r) # cs" and s: "span_bytes s \<noteq> []"
  then have r: "r \<noteq> []" by (induction cursor rule: current.induct) (auto split: if_splits)
  with c s show ?thesis by (cases r) (auto simp: span_items_def advance_def)
qed

lemma advance_ok: "cursor_ok cursor \<Longrightarrow> cursor_ok (advance n cursor)"
  by (auto simp: advance_def split: list.splits)

lemma delimiter_end [simp]: "delimiter cx ifs [] = (0, False)" "delimiter cx ifs ((s, []) # cs) = (0, False)"
  by (simp_all add: delimiter_def)

lemma advance_0 [simp]: "advance 0 cursor = cursor"
  by (auto simp: advance_def split: list.splits)

lemma skip_white_none: "fst (delimiter cx ifs cursor) = 0 \<Longrightarrow> skip_white cx ifs cursor fx = (False, 0, cursor, fx)"
  by (auto simp: skip_white.simps [of cx ifs cursor] split: prod.splits)

lemma current_fixed: "current ((s, r) # cs) = (s, r) # cs \<Longrightarrow> r \<noteq> [] \<or> (span_bytes s = [] \<and> es_keep_empty s)"
  using current_size [of cs] by (auto simp: cursor_size_def split: if_splits)

lemma after_mark_text: "is \<noteq> [] \<Longrightarrow> item_text ifs (hd is) \<Longrightarrow> after_mark ifs is = is"
  by (cases "is") (auto simp: after_mark_def item_text_def)

lemma skip_white_items:
  "skip_white cx ifs cursor fx = (False, n, cursor', fx') \<Longrightarrow> ascii_safe cx \<Longrightarrow>
   \<forall>i\<in>set ifs. (of_char i :: nat) < 0x80 \<Longrightarrow> cursor_ok cursor \<Longrightarrow> current cursor = cursor \<Longrightarrow>
   cursor_ok cursor' \<and> cursor_items (advance n cursor') = after_mark ifs (cursor_items cursor) \<and>
   (n \<noteq> 0 \<longleftrightarrow> (\<exists>i is. dropWhile (item_white ifs) (cursor_items cursor) = i # is \<and> item_mark ifs i))"
proof (induction cx ifs cursor fx arbitrary: n cursor' fx' rule: skip_white.induct)
  case (1 cx ifs cursor fx)
  note run = 1(2) and ok = 1(5) and cur = 1(6)
  show ?case
  proof (cases cursor)
    case Nil
    with run show ?thesis by (auto simp: skip_white_none after_mark_def)
  next
    case (Cons x cs)
    obtain s r where x: "x = (s, r)" by (cases x)
    show ?thesis
    proof (cases "span_bytes s = []")
      case True
      then have "r = []" "es_keep_empty s" 
        using ok [unfolded Cons x] current_fixed [OF cur [unfolded Cons x]] by auto
      with run Cons x True ok show ?thesis
        by (auto simp: skip_white_none span_items_def after_mark_def item_white_def item_mark_def)
    next
      case False
      note i = items_Cons [of cursor, unfolded cur, OF Cons [unfolded x] False]
      let ?i = "Byte (span_flags s (hd r)) (splittable s)"
      have hd: "hd (span_items (s, r)) = ?i" using i False by (cases r) (auto simp: span_items_def)
      have d: "delimiter cx ifs cursor = (if item_text ifs ?i then 0 else 1, item_white ifs ?i)"
        using delimiter_ascii [OF 1(3,4) False, of r cs] i hd Cons x by (simp add: Let_def)
      show ?thesis
      proof (cases "item_white ifs ?i")
        case white: True
        then have "\<not> item_text ifs ?i" by (simp add: item_text_def)
        obtain b fx1 where b: "interrupted fx = (b, fx1)" by (cases "interrupted fx")
        with run d white \<open>\<not> item_text ifs ?i\<close> have "\<not> b" and
          next_run: "skip_white cx ifs (current (advance 1 cursor)) fx1 = (False, n, cursor', fx')"
          by (auto simp: skip_white.simps [of cx ifs cursor] split: bool.splits)
        have "after_mark ifs (cursor_items cursor) = after_mark ifs (cursor_items (advance 1 cursor))"
          using i white by (simp add: after_mark_def)
        with 1(1) [OF d [symmetric] _ b [symmetric] _ _ 1(3,4)] show ?thesis
          using next_run white \<open>\<not> item_text ifs ?i\<close> \<open>\<not> b\<close> i ok
          by (auto simp: current_ok advance_ok current_idem current_items)
      next
        case False
        with run d have "cursor' = cursor" "n = (if item_text ifs ?i then 0 else 1)"
          by (auto simp: skip_white.simps [of cx ifs cursor] split: if_splits)
        with i False ok show ?thesis by (auto simp: after_mark_def item_text_def)
      qed
    qed
  qed
qed

text \<open>Fields handed to \<open>emit\<close> one after the other, each successfully.\<close>

inductive emits ::
  "ctype \<Rightarrow> path_host \<Rightarrow> csh_expand_context \<Rightarrow> uint \<Rightarrow> field_byte list list \<Rightarrow> csh_fields \<Rightarrow> csh_fields \<Rightarrow> bool"
  for cx ph ctx options where
  emits_none: "emits cx ph ctx options [] out out"
| emits_one: "emit cx ph ctx options f out fx = (CSH_EXPAND_OK, out1, fx') \<Longrightarrow> emits cx ph ctx options fs out1 out2 \<Longrightarrow>
    emits cx ph ctx options (f # fs) out out2"

lemma emits_texts:
  "emits cx ph ctx options fs out out' \<Longrightarrow>
   (\<And>f out fx out' fx'. f \<in> set fs \<Longrightarrow> emit cx ph ctx options f out fx = (CSH_EXPAND_OK, out', fx') \<Longrightarrow>
     out' = out @ [raw_text f]) \<Longrightarrow>
   out' = out @ map raw_text fs"
proof (induction rule: emits.induct)
  case (emits_one f out fx out1 fx' fs out2)
  from emits_one(4) [of f, OF _ emits_one(1)] emits_one(3,4) show ?case by simp
qed simp

text \<open>The fields a list of items gives: split for an argument; otherwise one.\<close>

definition item_fields :: "csh_expand_context \<Rightarrow> string \<Rightarrow> field_item list \<Rightarrow> field_item list list" where
  "item_fields ctx ifs is = (if ctx = CSH_EXPAND_ARGUMENT then posix_fields ifs is else [is])"

lemma posix_fields_end: "\<forall>i\<in>set acc. item_text ifs i \<Longrightarrow> acc \<noteq> [] \<Longrightarrow> posix_fields ifs acc = [acc]"
  using posix_fields_text [of acc ifs "[]"] by (simp add: after_mark_def)

definition collected :: "csh_expand_context \<Rightarrow> string \<Rightarrow> field_item list \<Rightarrow> field_byte list \<Rightarrow> bool \<Rightarrow> bool" where
  "collected ctx ifs acc raw keep \<longleftrightarrow>
     item_bytes acc = raw \<and> (ctx = CSH_EXPAND_ARGUMENT \<longrightarrow> (\<forall>i\<in>set acc. item_text ifs i) \<and> (raw \<noteq> [] \<or> keep \<longleftrightarrow> acc \<noteq> [])) \<and>
     (ctx \<noteq> CSH_EXPAND_ARGUMENT \<longrightarrow> keep)"

lemma collected_more:
  "collected ctx ifs acc raw keep \<Longrightarrow> (ctx = CSH_EXPAND_ARGUMENT \<Longrightarrow> \<forall>i\<in>set extra. item_text ifs i) \<Longrightarrow>
   raw' = raw @ item_bytes extra \<Longrightarrow> (item_bytes extra = [] \<Longrightarrow> keep') \<Longrightarrow> (keep \<Longrightarrow> keep') \<Longrightarrow> extra \<noteq> [] \<Longrightarrow>
   collected ctx ifs (acc @ extra) raw' keep'"
  by (auto simp: collected_def)

lemma span_text:
  assumes "ascii_safe cx" and "\<forall>i\<in>set ifs. (of_char i :: nat) < 0x80"
    and "span_bytes s \<noteq> []" and "r \<noteq> []" and "fst (delimiter cx ifs ((s, r) # cs)) = 0"
    and "c \<in> set (take (csh_character_length cx r False True) r)"
  shows "item_text ifs (Byte (span_flags s c) (splittable s))"
proof (cases "1 < csh_character_length cx r False True")
  case True
  then have "0x80 \<le> (of_char c :: nat)" using wide_not_ascii [OF assms(1) True assms(6)] by simp
  then have "c \<notin> set ifs" using assms(2) by force
  then show ?thesis by (auto simp: item_text_def item_white_def item_mark_def span_flags_def split: bool.splits)
next
  case False
  then have "csh_character_length cx r False True = 1"
    using character_length_pos [OF assms(4), of cx False] by linarith
  with assms(4,6) have "c = hd r" by (cases r) auto
  with assms(5) delimiter_ascii [OF assms(1-4), of cs] assms(3,4) show ?thesis
    by (cases r) (auto simp: span_items_def Let_def split: if_splits)
qed

lemma split_step:
  assumes "ctx = CSH_EXPAND_ARGUMENT" and "collected ctx ifs acc raw keep"
    and "is \<noteq> []" and "\<not> item_text ifs (hd is)"
    and "n \<noteq> 0 \<longleftrightarrow> (\<exists>i is'. dropWhile (item_white ifs) is = i # is' \<and> item_mark ifs i)"
  shows "item_fields ctx ifs (acc @ is) =
    (if raw \<noteq> [] \<or> keep \<or> n \<noteq> (0 :: nat) then [acc] else []) @ item_fields ctx ifs (after_mark ifs is)"
proof (cases "acc = []")
  case False
  with assms posix_fields_text [of acc ifs "is"] show ?thesis by (simp add: item_fields_def collected_def)
next
  case acc: True
  show ?thesis
  proof (cases "n \<noteq> 0")
    case True
    with assms acc posix_fields_mark [of ifs "is"] show ?thesis
      by (auto simp: item_fields_def collected_def after_mark_def)
  next
    case False
    then have "after_mark ifs is = dropWhile (item_white ifs) is" using assms(5)
      unfolding after_mark_def Let_def by (cases "dropWhile (item_white ifs) is"; simp only: list.case) auto
    with False assms(1,2) acc posix_fields_white [of ifs "is"] show ?thesis
      by (auto simp: item_fields_def collected_def)
  qed
qed

text \<open>Splitting is by bytes: nothing is split, or no byte of IFS can be part of a longer character.\<close>

definition ascii_ifs :: "ctype \<Rightarrow> string \<Rightarrow> bool" where
  "ascii_ifs cx ifs \<longleftrightarrow> ascii_safe cx \<and> (\<forall>i\<in>set ifs. (of_char i :: nat) < 0x80)"

definition by_bytes :: "ctype \<Rightarrow> string \<Rightarrow> csh_expand_context \<Rightarrow> csh_expand_span set \<Rightarrow> bool" where
  "by_bytes cx ifs ctx ss \<longleftrightarrow>
     (ctx = CSH_EXPAND_ARGUMENT \<longrightarrow> ascii_ifs cx ifs \<or> (\<forall>s\<in>ss. \<not> splittable s))"

lemma current_spans: "fst ` set (current cursor) \<subseteq> fst ` set cursor"
  by (induction cursor rule: current.induct) auto

lemma by_bytes_mono: "by_bytes cx ifs ctx ss \<Longrightarrow> tt \<subseteq> ss \<Longrightarrow> by_bytes cx ifs ctx tt"
  by (auto simp: by_bytes_def)

lemma split_loop_fields:
  "split_loop cx ph ctx ifs options cursor raw keep out fx = (CSH_EXPAND_OK, out', fx') \<Longrightarrow>
   cursor_ok cursor \<Longrightarrow> by_bytes cx ifs ctx (fst ` set cursor) \<Longrightarrow> collected ctx ifs acc raw keep \<Longrightarrow>
   emits cx ph ctx options (map item_bytes (item_fields ctx ifs (acc @ cursor_items cursor))) out out'"
proof (induction "cursor_size cursor" arbitrary: cursor raw keep out fx acc rule: less_induct)
  case less
  note run = less.prems(1) [unfolded split_loop.simps [of cx ph ctx ifs options cursor]]
  note got = less.prems(4)
  have items: "cursor_items cursor = cursor_items (current cursor)" and ok: "cursor_ok (current cursor)"
    using less.prems(2) by (simp_all add: current_items current_ok)
  show ?case
  proof (cases "current cursor")
    case Nil
    with run items got show ?thesis
      by (cases "raw \<noteq> [] \<or> keep"; cases "ctx = CSH_EXPAND_ARGUMENT")
        (auto simp: collected_def posix_fields_end item_fields_def intro!: emits.intros)
  next
    case (Cons x cs)
    obtain s r where x: "x = (s, r)" by (cases x)
    obtain i fx1 where i: "interrupted fx = (i, fx1)" by (cases "interrupted fx")
    have cur: "current cursor = (s, r) # cs" using Cons x by simp
    have bytes: "by_bytes cx ifs ctx (fst ` set ((s, r) # cs))"
      using by_bytes_mono [OF less.prems(3) current_spans] cur by simp
    then have bytes': "by_bytes cx ifs ctx (fst ` set cs)" by (rule by_bytes_mono) auto
    have ni: "i = False" using run i cur by (auto split: bool.splits)
    note run = run [unfolded cur list.case prod.case i ni bool.case]
    note size = current_step [OF cur]
    have fixed: "current ((s, r) # cs) = (s, r) # cs" using current_idem [of cursor] cur by simp
    show ?thesis
    proof (cases "span_bytes s = []")
      case True
      then have "es_keep_empty s" using current_fixed [OF fixed] ok cur by auto
      then have "span_items (s, r) = [Keep]" using True by (simp add: span_items_def)
      moreover have "collected ctx ifs (acc @ [Keep]) raw True"
        by (rule collected_more [OF got]) (auto simp: item_text_def item_white_def item_mark_def)
      ultimately show ?thesis using less.hyps [OF size(1), of raw True out fx1 "acc @ [Keep]"] bytes' run True ok cur items by simp
    next
      case text_left: False
      note hd = items_Cons [OF cur text_left]
      show ?thesis
      proof (cases "ctx \<noteq> CSH_EXPAND_ARGUMENT \<or> fst (delimiter cx ifs ((s, r) # cs)) = 0")
        case True
        let ?w = "csh_character_length cx r False True"
        let ?more = "map (\<lambda>c. Byte (span_flags s c) (splittable s)) (take ?w r)"
        have ne: "take ?w r \<noteq> []" using hd character_length_pos [of r cx False] by auto
        have "collected ctx ifs (acc @ ?more) (raw @ map (span_flags s) (take ?w r)) keep"
          by (rule collected_more [OF got]) 
            (use True ne hd bytes span_text [OF _ _ text_left, of cx ifs r cs] in
              \<open>auto simp: by_bytes_def ascii_ifs_def item_text_def item_white_def item_mark_def\<close>)
        moreover have "span_items (s, r) = ?more @ span_items (s, drop ?w r)"
          using text_left by (simp add: span_items_def flip: map_append)
        ultimately show ?thesis
          using less.hyps [OF size(2) [OF text_left], of cx "raw @ map (span_flags s) (take ?w r)" keep out fx1 "acc @ ?more"] bytes run True text_left ok cur items
          by (simp add: Let_def)
      next
        case False
        then have arg: "ctx = CSH_EXPAND_ARGUMENT" and d: "fst (delimiter cx ifs ((s, r) # cs)) \<noteq> 0" by auto
        have "splittable s" using d by (auto simp: delimiter_def splittable_def split: if_splits)
        then have ifs: "ascii_ifs cx ifs" using bytes arg by (auto simp: by_bytes_def)
        then have safe: "ascii_safe cx" and ascii: "\<forall>i\<in>set ifs. (of_char i :: nat) < 0x80" by (auto simp: ascii_ifs_def)
        obtain w n cursor' fx2 where sk: "skip_white cx ifs ((s, r) # cs) fx1 = (w, n, cursor', fx2)" by (metis surj_pair)
        have nw: "w = False" using run text_left False sk by (auto split: bool.splits)
        note run = run [unfolded sk nw prod.case bool.case]
        note white = skip_white_items [OF sk [unfolded nw] safe ascii ok [unfolded cur] fixed]
        have smaller: "cursor_size (advance n cursor') < cursor_size cursor"
          using skip_white_progress [OF d sk [unfolded nw]] current_size [of cursor] cur by simp
        have "\<not> item_text ifs (hd (cursor_items cursor))" "cursor_items cursor \<noteq> []"
          using d delimiter_ascii [OF safe ascii text_left, of r cs] hd text_left items cur
          by (cases r; auto simp: span_items_def Let_def split: if_splits)+
        from split_step [OF arg got this(2,1), of n] white items cur
        have fields: "item_fields ctx ifs (acc @ cursor_items cursor) =
            (if raw \<noteq> [] \<or> keep \<or> n \<noteq> 0 then [acc] else []) @
              item_fields ctx ifs (cursor_items (advance n cursor'))" by simp
        have fresh: "collected ctx ifs [] [] False" using arg by (simp add: collected_def)
        have "by_bytes cx ifs ctx (fst ` set (advance n cursor'))" using ifs by (simp add: by_bytes_def)
        from less.hyps [OF smaller _ advance_ok this fresh] white
        have IH: "split_loop cx ph ctx ifs options (advance n cursor') [] False out1 fx3 = (CSH_EXPAND_OK, out', fx') \<Longrightarrow>
          emits cx ph ctx options (map item_bytes (item_fields ctx ifs (cursor_items (advance n cursor')))) out1 out'"
          for out1 fx3 by simp
        show ?thesis
        proof (cases "raw \<noteq> [] \<or> keep \<or> n \<noteq> 0")
          case True
          then obtain out1 fx3 where e: "emit cx ph ctx options raw out fx2 = (CSH_EXPAND_OK, out1, fx3)"
            and l: "split_loop cx ph ctx ifs options (advance n cursor') [] False out1 fx3 = (CSH_EXPAND_OK, out', fx')"
            using run text_left False by (auto split: prod.splits csh_expand_result.splits)
          have "item_bytes acc = raw" using got by (simp add: collected_def)
          with emits_one [OF e IH [OF l]] True show ?thesis
            unfolding fields by (simp only: if_True append.simps list.map)
        next
          case none: False
          with run text_left False have
            "split_loop cx ph ctx ifs options (advance n cursor') [] False out fx2 = (CSH_EXPAND_OK, out', fx')" by simp
          from IH [OF this] show ?thesis unfolding fields by (simp only: none if_False append.simps)
        qed
      qed
    qed
  qed
qed

definition field_items :: "csh_expand_span list \<Rightarrow> field_item list" where
  "field_items spans = cursor_items (map (\<lambda>s. (s, span_bytes s)) spans)"

lemma finish_field_emits:
  assumes "by_bytes cx ifs ctx (set spans)"
    and "finish_field cx ph (Some spans) ctx ifs options out fx = (CSH_EXPAND_OK, out', fx')"
  shows "emits cx ph ctx options (map item_bytes (item_fields ctx ifs (field_items spans))) out out'"
proof -
  let ?cursor = "map (\<lambda>s. (s, span_bytes s)) spans"
  obtain fx1 where
    "split_loop cx ph ctx ifs options ?cursor [] (ctx \<noteq> CSH_EXPAND_ARGUMENT) out fx1 = (CSH_EXPAND_OK, out', fx')"
    using assms(2) by (auto simp: finish_field_def Let_def split: prod.splits csh_expand_result.splits if_splits)
  moreover have "cursor_ok ?cursor" by (auto simp: cursor_ok_def)
  moreover have "fst ` set ?cursor = set spans" by force
  moreover have "collected ctx ifs [] [] (ctx \<noteq> CSH_EXPAND_ARGUMENT)" by (auto simp: collected_def)
  ultimately show ?thesis using split_loop_fields [where acc = "[]"] assms(1) by (fastforce simp: field_items_def)
qed

lemma emits_scalar:
  assumes "ctx \<in> {CSH_EXPAND_ASSIGNMENT, CSH_EXPAND_REDIRECTION, CSH_EXPAND_HEREDOC} \<or>
      (ctx = CSH_EXPAND_ARGUMENT \<and> options AND CSH_OPT_NOGLOB \<noteq> 0)"
    and "emits cx ph ctx options fs out out'"
  shows "out' = out @ map raw_text fs"
  by (rule emits_texts [OF assms(2)]) (rule emit_scalar [OF assms(1)])

lemma field_items_text: "raw_text (item_bytes (field_items spans)) = concat (map span_bytes spans)"
  by (induction spans) (auto simp: field_items_def span_items_def comp_def span_flags_def)

lemma field_items_quoted:
  "\<forall>s\<in>set spans. es_quote s \<noteq> CSH_QUOTE_NONE \<Longrightarrow> \<forall>b\<in>set (item_bytes (field_items spans)). fb_quoted b"
  by (induction spans) (auto simp: field_items_def span_items_def span_flags_def)

lemma field_items_text_only:
  "\<forall>s\<in>set spans. \<not> splittable s \<Longrightarrow> \<forall>i\<in>set (field_items spans). item_text ifs i"
  by (auto simp: field_items_def cursor_items_def span_items_def item_text_def item_white_def item_mark_def split: if_splits)

lemma field_items_empty:
  "field_items spans = [] \<longleftrightarrow> (\<forall>s\<in>set spans. span_bytes s = [] \<and> \<not> es_keep_empty s)"
  by (induction spans) (auto simp: field_items_def span_items_def)

lemma unsplit_fields:
  "ctx = CSH_EXPAND_ARGUMENT \<Longrightarrow> \<forall>s\<in>set spans. \<not> splittable s \<Longrightarrow>
   item_fields ctx ifs (field_items spans) = (if field_items spans = [] then [] else [field_items spans])"
  using posix_fields_end field_items_text_only by (simp add: item_fields_def)

text \<open>
  C5: field splitting is that of POSIX. In an argument with globbing off, the fields are exactly
  those of \<open>posix_fields\<close>: over all spans of the field, quoted and unquoted, with white space and
  other IFS characters treated differently, and empty quoted spans keeping their field.
\<close>

theorem field_splitting_posix:
  assumes "ascii_ifs cx ifs" and "options AND CSH_OPT_NOGLOB \<noteq> 0"
    and "finish_field cx ph (Some spans) CSH_EXPAND_ARGUMENT ifs options out fx = (CSH_EXPAND_OK, out', fx')"
  shows "out' = out @ map (raw_text \<circ> item_bytes) (posix_fields ifs (field_items spans))"
proof -
  have "by_bytes cx ifs CSH_EXPAND_ARGUMENT (set spans)" using assms(1) by (simp add: by_bytes_def)
  from emits_scalar [OF _ finish_field_emits [OF this assms(3)]] assms(2) show ?thesis
    by (simp add: item_fields_def)
qed


text \<open>
  in an assignment, a redirection and a here-document every expansion is exactly one field, the
  concatenation of its texts, in any encoding: nothing is split, nothing globbed, and the empty
  text is a field.
\<close>

theorem scalar_context_one_field:
  assumes "ctx \<in> {CSH_EXPAND_ASSIGNMENT, CSH_EXPAND_REDIRECTION, CSH_EXPAND_HEREDOC}"
    and "finish_field cx ph (Some spans) ctx ifs options out fx = (CSH_EXPAND_OK, out', fx')"
  shows "out' = out @ [concat (map span_bytes spans)]"
proof -
  have "by_bytes cx ifs ctx (set spans)" using assms(1) by (auto simp: by_bytes_def)
  from emits_scalar [OF _ finish_field_emits [OF this assms(2)]] assms(1) show ?thesis
    by (auto simp: item_fields_def field_items_text)
qed

lemma utf8_ascii_safe: "ascii_safe utf8_context"
proof -
  have lead: "1 < n \<Longrightarrow> 0x80 \<le> b \<and> 0x80 \<le> x" if "utf8_lead b = Some (n, x, y)" for b n x y
    using that by (auto simp: utf8_lead_def split: if_splits)
  have "n \<le> length t \<and> (\<forall>c\<in>set (take n t). 0x80 \<le> (of_char c :: nat))" if "utf8 t = MB_LENGTH n" "1 < n" for t n
  proof (cases t)
    case (Cons a cs)
    with that obtain x y where l: "utf8_lead (of_char a) = Some (n, x, y)"
      and tl: "map of_char (take (n - 1) cs) = [] \<or> x \<le> hd (map of_char (take (n - 1) cs))"
      and rest: "list_all (\<lambda>b. 0x80 \<le> b \<and> b \<le> (0xBF :: nat)) (drop 1 (map of_char (take (n - 1) cs)))"
      and len: "n - 1 \<le> length cs"
      by (fastforce simp: utf8_def Let_def split: if_splits option.splits)
    show ?thesis
    proof (cases "take (n - 1) cs")
      case Nil
      then show ?thesis using that(2) len by (cases cs) auto
    next
      case (Cons b bs)
      with tl rest l lead [OF l] that(2) have "\<forall>c\<in>set (a # take (n - 1) cs). 0x80 \<le> (of_char c :: nat)"
        by (auto simp: list_all_iff)
      moreover have "take n t = a # take (n - 1) cs" using \<open>t = a # cs\<close> that(2) by (cases n) auto
      ultimately show ?thesis using len \<open>t = a # cs\<close> that(2) by auto
    qed
  qed (use that in \<open>simp add: utf8_def\<close>)
  then show ?thesis unfolding ascii_safe_def utf8_context_def ctype.select_convs by blast
qed

definition quoted_span :: "string \<Rightarrow> csh_expand_span" where
  "quoted_span t = \<lparr>es_text = Some t, es_quote = CSH_QUOTE_DOUBLE, es_origin = CSH_EXPAND_PARAMETER, es_split = False,
     es_keep_empty = True\<rparr>"

definition split_span :: "string \<Rightarrow> csh_expand_span" where
  "split_span t = \<lparr>es_text = Some t, es_quote = CSH_QUOTE_NONE, es_origin = CSH_EXPAND_PARAMETER, es_split = True,
     es_keep_empty = False\<rparr>"

lemmas field_evaluate = finish_field_def calm_host_def interrupted_def fh_malloc_def split_loop.simps
  csh_character_length_def delimiter_def ifs_match.simps(2) character_bytes_def skip_white.simps advance_def
  emit_def span_flags_def csh_fields_append_def SIZE_MAX_def quoted_span_def split_span_def

lemma utf8_ascii [simp]: "(of_char c :: nat) < 0x80 \<Longrightarrow> of_char c \<noteq> (0 :: nat) \<Longrightarrow> utf8 (c # t) = MB_LENGTH 1"
  by (simp add: utf8_def utf8_lead_def)

lemma utf8_context_mbrlen [simp]: "mbrlen utf8_context l = utf8"
  by (simp add: utf8_context_def)

lemma noglob_bit: "CSH_OPT_NOGLOB AND CSH_OPT_NOGLOB \<noteq> (0 :: uint)"
  by (simp add: CSH_OPT_NOGLOB_def)

theorem field_splitting_posix_witness:
  "finish_field utf8_context sample_tree (Some [split_span ''a : b '', quoted_span '' c'']) CSH_EXPAND_ARGUMENT '' :''
     CSH_OPT_NOGLOB [] calm_host = (CSH_EXPAND_OK, [''a'', ''b'', '' c''], calm_host) \<and>
   [''a'', ''b'', '' c''] =
     [] @ map (raw_text \<circ> item_bytes) (posix_fields '' :'' (field_items [split_span ''a : b '', quoted_span '' c'']))"
proof -
  have e: "finish_field utf8_context sample_tree (Some [split_span ''a : b '', quoted_span '' c'']) CSH_EXPAND_ARGUMENT '' :''
     CSH_OPT_NOGLOB [] calm_host = (CSH_EXPAND_OK, [''a'', ''b'', '' c''], calm_host)"
    by (simp add: field_evaluate CSH_OPT_NOGLOB_def)
  have "ascii_ifs utf8_context '' :''" by (simp add: ascii_ifs_def utf8_ascii_safe)
  from e field_splitting_posix [OF this noglob_bit e] show ?thesis by blast
qed


theorem scalar_context_one_field_witness:
  "finish_field utf8_context sample_tree (Some [split_span ''a *'', quoted_span ''b'']) CSH_EXPAND_ASSIGNMENT '' '' 0 []
     calm_host = (CSH_EXPAND_OK, [''a *b''], calm_host) \<and>
   [''a *b''] = [] @ [concat (map span_bytes [split_span ''a *'', quoted_span ''b''])]"
proof -
  have e: "finish_field utf8_context sample_tree (Some [split_span ''a *'', quoted_span ''b'']) CSH_EXPAND_ASSIGNMENT '' '' 0 []
     calm_host = (CSH_EXPAND_OK, [''a *b''], calm_host)"
    by (simp add: field_evaluate)
  from e scalar_context_one_field [OF _ e] show ?thesis by blast
qed

theorem make_pattern_bound_witness:
  "make_pattern utf8_context CSH_EXPAND_ARGUMENT (map (span_flags (quoted_span ''*'')) ''*'') calm_host =
     (CSH_EXPAND_OK, [escape_char, CHR ''*''], calm_host) \<and>
   length [escape_char, CHR ''*''] \<le> 2 * length (map (span_flags (quoted_span ''*'')) ''*'')"
proof -
  have e: "make_pattern utf8_context CSH_EXPAND_ARGUMENT (map (span_flags (quoted_span ''*'')) ''*'') calm_host =
     (CSH_EXPAND_OK, [escape_char, CHR ''*''], calm_host)"
    by (simp add: field_evaluate make_pattern_def pattern_loop.simps protect_def next_bracket_def)
  from e make_pattern_bound [OF e] show ?thesis by blast
qed

text \<open>An encoding whose trail bytes include the backslash, as in GBK and Shift JIS: a lead byte
  0x81-0xFE and a trail byte from 0x40 on.\<close>

definition gbk :: "string \<Rightarrow> mbr" where
  "gbk t =
     (case t of
        [] \<Rightarrow> MB_PARTIAL
      | c # cs \<Rightarrow>
          if of_char c = (0 :: nat) then MB_LENGTH 0
          else if (of_char c :: nat) < 0x80 then MB_LENGTH 1
          else if (of_char c :: nat) = 0x80 \<or> of_char c = (0xFF :: nat) then MB_INVALID
          else (case cs of [] \<Rightarrow> MB_PARTIAL
                | d # _ \<Rightarrow> if (of_char d :: nat) < 0x40 \<or> of_char d = (0x7F :: nat) \<or> of_char d = (0xFF :: nat)
                             then MB_INVALID else MB_LENGTH 2))"

definition gbk_context :: ctype where
  "gbk_context =
     \<lparr>mbrlen = (\<lambda>_. gbk), btowc = (\<lambda>_ c. (of_char c :: nat) < 0x80), mb_more = 1, startup = Some ''zh_CN.GBK'',
      current_ctype = ''zh_CN.GBK''\<rparr>"

text \<open>A directory with one name that starts with the lead byte.\<close>

definition gbk_tree :: path_host where
  "gbk_tree = sample_tree
     \<lparr>ph_opendir := (\<lambda>d. if d = ''.'' then Inr \<lparr>ds_names = [[CHR 0x81, CHR 0x5C, CHR ''x'']], ds_read = EOK, ds_close = EOK\<rparr>
                        else Inl ENOENT),
      ph_fnmatch := (\<lambda>p n. p = [CHR 0x81, CHR 0x5C, CHR ''*''] \<and> take 2 n = [CHR 0x81, CHR 0x5C])\<rparr>"


end
