(* ===== verification/Conversion.thy ===== *)
theory Conversion
  imports Arithmetic
begin

text \<open>
  The conversions of the C library between numbers and decimal text that the built-in utilities use:
  \<open>strtol\<close> and \<open>strtoumax\<close> with base 10, and \<open>%d\<close> and \<open>%zu\<close> as \<open>show_nat\<close>.
\<close>

definition decimal :: "string \<Rightarrow> nat" where
  "decimal t = foldl (\<lambda>n c. n * 10 + (of_char c - 48)) 0 t"

definition isspace :: "char \<Rightarrow> bool" where
  "isspace c \<longleftrightarrow> c \<in> {CHR '' '', CHR 0x09, CHR 0x0A, CHR 0x0B, CHR 0x0C, CHR 0x0D}"

text \<open>Sign, digits and rest of a number at the front of a text; no digits: no number.\<close>

definition scan_number :: "string \<Rightarrow> (bool \<times> string \<times> string) option" where
  "scan_number t =
     (let body = dropWhile isspace t;
          negative = (body \<noteq> [] \<and> hd body = CHR ''-'');
          body = (if body \<noteq> [] \<and> hd body \<in> {CHR ''-'', CHR ''+''} then tl body else body);
          ds = takeWhile digit body
      in if ds = [] then None else Some (negative, ds, dropWhile digit body))"

text \<open>Value (clamped), end pointer as the rest of the text, and whether \<open>errno\<close> is \<open>ERANGE\<close>.\<close>

definition strtol :: "string \<Rightarrow> int \<times> string \<times> bool" where
  "strtol t =
     (case scan_number t of
        None \<Rightarrow> (0, t, False)
      | Some (negative, ds, rest) \<Rightarrow>
          (let v = (if negative then - int (decimal ds) else int (decimal ds))
           in if v < LONG_MIN then (LONG_MIN, rest, True)
              else if LONG_MAX < v then (LONG_MAX, rest, True)
              else (v, rest, False)))"

text \<open>\<open>strtoumax\<close> for a text that does not start with a minus sign (the code refuses one).\<close>

definition strtoumax :: "string \<Rightarrow> nat \<times> string \<times> bool" where
  "strtoumax t =
     (case scan_number t of
        None \<Rightarrow> (0, t, False)
      | Some (negative, ds, rest) \<Rightarrow>
          if SIZE_MAX < decimal ds then (SIZE_MAX, rest, True)
          else (if negative then (2 ^ 64 - decimal ds) mod 2 ^ 64 else decimal ds, rest, False))"

lemma digit_code: "d < 10 \<Longrightarrow> digit (char_of (48 + d :: nat)) \<and> of_char (char_of (48 + d) :: char) = 48 + d"
  by (simp add: digit_def less_eq_char_def)

lemma show_nat_all_digits: "\<forall>c\<in>set (show_nat n). digit c"
proof (induction n rule: show_nat.induct)
  case (1 n)
  then show ?case using digit_code [of "n mod 10"] digit_code [of n] by (cases "n < 10") (auto simp: show_nat.simps [of n])
qed

lemma show_nat_nonempty [simp]: "show_nat n \<noteq> []"
  by (simp add: show_nat.simps [of n])

lemma decimal_append: "decimal (s @ [c]) = decimal s * 10 + (of_char c - 48)"
  by (simp add: decimal_def)

lemma decimal_show_nat [simp]: "decimal (show_nat n) = n"
proof (induction n rule: show_nat.induct)
  case (1 n)
  then show ?case using digit_code [of "n mod 10"] digit_code [of n]
    by (cases "n < 10") (simp_all add: show_nat.simps [of n] decimal_append, simp add: decimal_def)
qed

lemma digit_plain: "digit c \<Longrightarrow> \<not> isspace c \<and> c \<notin> {CHR ''-'', CHR ''+''}"
  by (auto simp: digit_def isspace_def less_eq_char_def)

lemma scan_number_show: "scan_number (show_nat n) = Some (False, show_nat n, [])"
proof -
  obtain c cs where s: "show_nat n = c # cs" by (cases "show_nat n") simp_all
  have all: "\<forall>c\<in>set (show_nat n). digit c" by (rule show_nat_all_digits)
  then have "digit c" using s by simp
  note p = digit_plain [OF this]
  have "takeWhile digit (show_nat n) = show_nat n" "dropWhile digit (show_nat n) = []" using all by auto
  with p s show ?thesis by (simp add: scan_number_def)
qed

lemma strtol_show: "int n \<le> LONG_MAX \<Longrightarrow> strtol (show_nat n) = (int n, [], False)"
  by (simp add: strtol_def scan_number_show LONG_MIN_def)

lemma strtoumax_show: "n \<le> SIZE_MAX \<Longrightarrow> strtoumax (show_nat n) = (n, [], False)"
  by (simp add: strtoumax_def scan_number_show)

end
