(* ===== verification/Word_Expansion.thy ===== *)
theory Word_Expansion
  imports Field_Splitting Quote Conversion
begin

text \<open>
  Word expansion (\<open>src/expand.c\<close>): tilde, parameter and arithmetic expansion and command substitution over
  the fragments of a word, with the checks of its structure, up to the spans that field splitting takes.
\<close>

subsection \<open>Words\<close>

text \<open>The next byte that is not part of a line continuation (\<open>None\<close> for -1), and the position after it.\<close>

function logical :: "csh_token \<Rightarrow> nat \<Rightarrow> nat \<Rightarrow> char option \<times> nat" where
  "logical word pos stop =
     (if pos + 1 < stop \<and> tk_raw word ! pos = escape_char \<and> tk_raw word ! (pos + 1) = CHR 0x0A
      then logical word (pos + 2) stop
      else if pos < stop then (Some (tk_raw word ! pos), pos + 1)
      else (None, pos))"
  by pat_completeness auto
termination
  by (relation "measure (\<lambda>(word, pos, stop). stop - pos)") auto

declare logical.simps [simp del]

subsection \<open>The work\<close>

text \<open>The libc functions and the executor behind an expansion: the decoder of characters, the file
  system, \<open>fnmatch\<close> without flags, home directories by user name, and the callback that runs a
  command substitution (\<open>None\<close> for \<open>NULL\<close>; bytes \<open>None\<close> for \<open>NULL\<close> with a length).\<close>

record expand_host =
  xh_ctype :: ctype
  xh_paths :: path_host
  xh_fnmatch :: "string \<Rightarrow> string \<Rightarrow> bool"
  xh_getpwnam :: "string \<Rightarrow> string option"
  xh_substitute :: "(csh_state \<Rightarrow> world \<Rightarrow> csh_token \<Rightarrow> nat \<Rightarrow>
    csh_expand_result \<times> string option \<times> csh_state \<times> world \<times> csh_expand_error) option"

text \<open>What an expansion changes: the shell state, the world (allocations and locale), the coming answers of
  the stack check (those asked inside arithmetic by evaluation), and the error record of the caller.\<close>

record expand_work =
  xw_state :: csh_state
  xw_world :: world
  xw_checks :: "bool list"
  xw_arith_checks :: "bool list list"
  xw_error :: csh_expand_error

text \<open>The word with what \<open>prepare\<close> adds to it.\<close>

record prepared_word =
  pw_word :: csh_token
  pw_next :: "nat list"
  pw_decoded :: "string option list"

type_synonym expand_out = "csh_expand_span list list"

text \<open>The encoding is that of the locale the shell has set.\<close>

definition xw_ctype :: "expand_host \<Rightarrow> expand_work \<Rightarrow> ctype" where
  "xw_ctype xh w = (xh_ctype xh)\<lparr>current_ctype := locale_now (xw_world w) ''LC_CTYPE''\<rparr>"

definition xw_malloc :: "expand_work \<Rightarrow> bool \<times> expand_work" where
  "xw_malloc w =
     (case malloc (mallocs (xw_world w)) of (b, h) \<Rightarrow> (b, w\<lparr>xw_world := (xw_world w)\<lparr>mallocs := h\<rparr>\<rparr>))"

definition expand_fail ::
  "csh_token \<Rightarrow> csh_expand_result \<Rightarrow> nat \<Rightarrow> string \<Rightarrow> expand_work \<Rightarrow> csh_expand_result \<times> expand_work" where
  "expand_fail word code fragment m w =
     (code, w\<lparr>xw_error := \<lparr>ee_code = code, ee_fragment = fragment,
        ee_position = (if fragment < length (tk_fragments word) then fr_start (tk_fragments word ! fragment) else tk_start word),
        ee_message = take 255 m\<rparr>\<rparr>)"

definition new_field :: "expand_out \<Rightarrow> expand_work \<Rightarrow> csh_expand_result \<times> expand_out \<times> expand_work" where
  "new_field out w =
     (if SIZE_MAX div 16 - 1 \<le> length out then (CSH_EXPAND_NOMEM, out, w)
      else
        (case xw_malloc w of
           (False, w) \<Rightarrow> (CSH_EXPAND_NOMEM, out, w)
         | (True, w) \<Rightarrow> (CSH_EXPAND_OK, out @ [[]], w)))"

definition make_span :: "csh_expand_context \<Rightarrow> string \<Rightarrow> csh_quote \<Rightarrow> csh_expand_origin \<Rightarrow> bool \<Rightarrow> csh_expand_span" where
  "make_span context bytes quote origin keep =
     \<lparr>es_text = Some bytes, es_quote = quote, es_origin = origin,
      es_split = (context = CSH_EXPAND_ARGUMENT \<and> quote = CSH_QUOTE_NONE \<and> origin \<noteq> CSH_EXPAND_LITERAL \<and>
        origin \<noteq> CSH_EXPAND_TILDE),
      es_keep_empty = keep\<rparr>"

definition append_span ::
  "csh_expand_context \<Rightarrow> expand_out \<Rightarrow> string \<Rightarrow> csh_quote \<Rightarrow> csh_expand_origin \<Rightarrow> bool \<Rightarrow> expand_work \<Rightarrow>
   csh_expand_result \<times> expand_out \<times> expand_work" where
  "append_span context out bytes quote origin keep w =
     (if length bytes = SIZE_MAX then (CSH_EXPAND_NOMEM, out, w)
      else
        (case (if out = [] then new_field out w else (CSH_EXPAND_OK, out, w)) of
           (CSH_EXPAND_OK, out, w) \<Rightarrow>
             if SIZE_MAX div 32 - 1 \<le> length (last out) then (CSH_EXPAND_NOMEM, out, w)
             else
               (case xw_malloc w of
                  (False, w) \<Rightarrow> (CSH_EXPAND_NOMEM, out, w)
                | (True, w) \<Rightarrow>
                    (case xw_malloc w of
                       (False, w) \<Rightarrow> (CSH_EXPAND_NOMEM, out, w)
                     | (True, w) \<Rightarrow>
                         (CSH_EXPAND_OK, butlast out @ [last out @ [make_span context bytes quote origin keep]], w)))
         | (r, out, w) \<Rightarrow> (CSH_EXPAND_NOMEM, out, w)))"

definition scalar ::
  "csh_expand_context \<Rightarrow> expand_out \<Rightarrow> string \<Rightarrow> csh_quote \<Rightarrow> csh_expand_origin \<Rightarrow> expand_work \<Rightarrow>
   csh_expand_result \<times> expand_out \<times> expand_work" where
  "scalar context out t quote origin w = append_span context out t quote origin (quote \<noteq> CSH_QUOTE_NONE) w"

definition separator :: "expand_host \<Rightarrow> expand_work \<Rightarrow> string" where
  "separator xh w =
     (case view_value (snd (csh_state_get_variable (xw_state w) (Some ''IFS''))) of
        None \<Rightarrow> '' ''
      | Some v \<Rightarrow> if v = [] then [] else take (character_bytes (xw_ctype xh w) v) v)"

definition expansion_bytes :: "expand_out \<Rightarrow> string" where
  "expansion_bytes out = concat (map (\<lambda>spans. concat (map span_bytes spans)) out)"

definition flatten :: "expand_out \<Rightarrow> expand_work \<Rightarrow> string option \<times> expand_work" where
  "flatten out w =
     (if SIZE_MAX \<le> length (expansion_bytes out) then (None, w)
      else (case xw_malloc w of (False, w) \<Rightarrow> (None, w) | (True, w) \<Rightarrow> (Some (expansion_bytes out), w)))"

subsection \<open>Parameters\<close>

fun join_parameters ::
  "csh_expand_context \<Rightarrow> csh_quote \<Rightarrow> string \<Rightarrow> bool \<Rightarrow> string list \<Rightarrow> expand_out \<Rightarrow> expand_work \<Rightarrow>
   csh_expand_result \<times> expand_out \<times> expand_work" where
  "join_parameters context quote sep first [] out w = (CSH_EXPAND_OK, out, w)"
| "join_parameters context quote sep first (a # as) out w =
     (case (if first then (CSH_EXPAND_OK, out, w)
            else append_span context out sep quote CSH_EXPAND_PARAMETER (quote \<noteq> CSH_QUOTE_NONE) w) of
        (CSH_EXPAND_OK, out, w) \<Rightarrow>
          (case scalar context out a quote CSH_EXPAND_PARAMETER w of
             (CSH_EXPAND_OK, out, w) \<Rightarrow> join_parameters context quote sep False as out w
           | (r, out, w) \<Rightarrow> (CSH_EXPAND_NOMEM, out, w))
      | (r, out, w) \<Rightarrow> (CSH_EXPAND_NOMEM, out, w))"

fun field_parameters ::
  "csh_expand_context \<Rightarrow> csh_quote \<Rightarrow> bool \<Rightarrow> string list \<Rightarrow> expand_out \<Rightarrow> expand_work \<Rightarrow>
   csh_expand_result \<times> expand_out \<times> expand_work" where
  "field_parameters context quote first [] out w = (CSH_EXPAND_OK, out, w)"
| "field_parameters context quote first (a # as) out w =
     (case (if first then (CSH_EXPAND_OK, out, w) else new_field out w) of
        (CSH_EXPAND_OK, out, w) \<Rightarrow>
          (case scalar context out a quote CSH_EXPAND_PARAMETER w of
             (CSH_EXPAND_OK, out, w) \<Rightarrow> field_parameters context quote False as out w
           | (r, out, w) \<Rightarrow> (CSH_EXPAND_NOMEM, out, w))
      | (r, out, w) \<Rightarrow> (CSH_EXPAND_NOMEM, out, w))"

text \<open>The values of \<open>csh_state_parameter\<close> at 1 up to the argument count.\<close>

definition all_parameters :: "csh_state \<Rightarrow> string list" where
  "all_parameters s =
     map (\<lambda>i. case csh_state_parameter s i of None \<Rightarrow> [] | Some a \<Rightarrow> a) [1..<Suc (si_argument_count (csh_state_get_info s))]"

definition positional ::
  "expand_host \<Rightarrow> csh_expand_context \<Rightarrow> expand_out \<Rightarrow> bool \<Rightarrow> csh_quote \<Rightarrow> expand_work \<Rightarrow>
   csh_expand_result \<times> expand_out \<times> expand_work" where
  "positional xh context out star quote w =
     (if context \<noteq> CSH_EXPAND_ARGUMENT \<or> (star \<and> quote \<noteq> CSH_QUOTE_NONE) then
        (case scalar context out [] quote CSH_EXPAND_PARAMETER w of
           (CSH_EXPAND_OK, out, w) \<Rightarrow>
             join_parameters context quote (separator xh w) True (all_parameters (xw_state w)) out w
         | (r, out, w) \<Rightarrow> (CSH_EXPAND_NOMEM, out, w))
      else field_parameters context quote True (all_parameters (xw_state w)) out w)"

definition option_flags :: "uint \<Rightarrow> string" where
  "option_flags options =
     concat (map (\<lambda>(b, n, ch). case ch of None \<Rightarrow> [] | Some c \<Rightarrow> if options AND b \<noteq> 0 then [c] else []) CSH_OPTION_LIST) @
     (if options AND CSH_OPT_INTERACTIVE \<noteq> 0 then ''i'' else [])"

text \<open>The value (\<open>None\<close>: unset) of a parameter, \<open>Inl\<close> for a name that is none.\<close>

definition parameter_lookup :: "csh_state \<Rightarrow> string \<Rightarrow> csh_expand_result + string option" where
  "parameter_lookup s name =
     (let info = csh_state_get_info s
      in case name of
           [] \<Rightarrow> Inl CSH_EXPAND_INVALID
         | c # cs \<Rightarrow>
             if name_start c then
               (case csh_state_get_variable s (Some name) of
                  (CSH_STATE_OK, view) \<Rightarrow> Inr (view_value view)
                | _ \<Rightarrow> Inl CSH_EXPAND_INVALID)
             else if digit c then
               (if SIZE_MAX < decimal name then Inl CSH_EXPAND_INVALID else Inr (csh_state_parameter s (decimal name)))
             else if c = CHR ''#'' then Inr (Some (show_nat (si_argument_count info)))
             else if c = CHR ''?'' then Inr (Some (show_long (si_last_status info)))
             else if c = CHR ''$'' then Inr (Some (show_long (si_shell_pid info)))
             else if c = CHR ''!'' then
               Inr (if si_background_pid info = 0 then None else Some (show_long (si_background_pid info)))
             else if c = CHR ''-'' then Inr (Some (option_flags (si_options info)))
             else Inl CSH_EXPAND_INVALID)"

definition parameter_value ::
  "string \<Rightarrow> expand_work \<Rightarrow> csh_expand_result \<times> string option \<times> bool \<times> expand_work" where
  "parameter_value name w =
     (case parameter_lookup (xw_state w) name of
        Inl r \<Rightarrow> (r, None, False, w)
      | Inr v \<Rightarrow>
          (case copy_bytes (case v of None \<Rightarrow> [] | Some t \<Rightarrow> t) (mallocs (xw_world w)) of
             (copy, h) \<Rightarrow>
               (if copy = None then CSH_EXPAND_NOMEM else CSH_EXPAND_OK, copy, v \<noteq> None,
                w\<lparr>xw_world := (xw_world w)\<lparr>mallocs := h\<rparr>\<rparr>)))"

definition expand_assign :: "string \<Rightarrow> string \<Rightarrow> expand_work \<Rightarrow> csh_expand_result \<times> expand_work" where
  "expand_assign name value w =
     (case csh_state_set_variable (xw_state w) (Some name) (Some value) (xw_world w) of
        (r, s, wo) \<Rightarrow>
          (let w = w\<lparr>xw_state := s, xw_world := wo\<rparr>
           in if r = CSH_STATE_READONLY then (CSH_EXPAND_READONLY, w)
              else if r = CSH_STATE_NOMEM then (CSH_EXPAND_NOMEM, w)
              else if r \<noteq> CSH_STATE_OK then (CSH_EXPAND_INVALID, w)
              else if si_options (csh_state_get_info s) AND CSH_OPT_ALLEXPORT \<noteq> 0 then
                (case csh_state_update_attributes s (Some name) CSH_VAR_EXPORT 0 wo of
                   (r, s, wo) \<Rightarrow>
                     (if r \<noteq> CSH_STATE_OK then CSH_EXPAND_NOMEM else CSH_EXPAND_OK, w\<lparr>xw_state := s, xw_world := wo\<rparr>))
              else (CSH_EXPAND_OK, w)))"

text \<open>The search of \<open>remove_pattern\<close>: the value split at the offset, and the split selected so far.\<close>

function remove_scan ::
  "ctype \<Rightarrow> (string \<Rightarrow> bool) \<Rightarrow> bool \<Rightarrow> bool \<Rightarrow> string \<Rightarrow> string \<Rightarrow> (string \<times> string) option \<Rightarrow> (string \<times> string) option" where
  "remove_scan cx matches suffix longest pre post selected =
     (let found = matches (if suffix then post else pre);
          selected = (if found then Some (pre, post) else selected)
      in if found \<and> suffix = longest then selected
         else if post = [] then selected
         else
           (let n = character_bytes cx post
            in remove_scan cx matches suffix longest (pre @ take n post) (drop n post) selected))"
  by pat_completeness auto
termination
  by (relation "measure (\<lambda>(cx, m, s, l, pre, post, sel). length post)") (use character_bytes_pos in auto)

declare remove_scan.simps [simp del]

definition remove_pattern :: "expand_host \<Rightarrow> expand_work \<Rightarrow> string \<Rightarrow> string \<Rightarrow> bool \<Rightarrow> bool \<Rightarrow> string" where
  "remove_pattern xh w value pattern suffix longest =
     (case remove_scan (xw_ctype xh w) (xh_fnmatch xh pattern) suffix longest [] value None of
        None \<Rightarrow> value
      | Some (pre, post) \<Rightarrow> if suffix then pre else post)"

subsection \<open>The syntax of a parameter expansion\<close>

lemma logical_advances: "logical word pos stop = (Some c, pos') \<Longrightarrow> pos < pos' \<and> pos' \<le> stop"
  by (induction word pos stop rule: logical.induct) (auto simp: logical.simps split: if_splits)

definition byte_in :: "(char \<Rightarrow> bool) \<Rightarrow> char option \<Rightarrow> bool" where
  "byte_in P b \<longleftrightarrow> (case b of None \<Rightarrow> False | Some c \<Rightarrow> P c)"

definition name_char :: "char \<Rightarrow> bool" where
  "name_char c \<longleftrightarrow> name_start c \<or> digit c"

definition special_parameter :: "char \<Rightarrow> bool" where
  "special_parameter c \<longleftrightarrow> c \<in> set ''@*#?$!-''"

text \<open>The bytes that continue a name, and the position of the first that does not.\<close>

function more_name :: "csh_token \<Rightarrow> (char \<Rightarrow> bool) \<Rightarrow> nat \<Rightarrow> nat \<Rightarrow> string \<times> nat" where
  "more_name word P pos stop =
     (case logical word pos stop of
        (Some c, pos') \<Rightarrow>
          if P c then (case more_name word P pos' stop of (cs, p) \<Rightarrow> (c # cs, p)) else ([], pos)
      | (None, _) \<Rightarrow> ([], pos))"
  by pat_completeness auto
termination
  by (relation "measure (\<lambda>(word, P, pos, stop). stop - pos)") (auto dest!: logical_advances [OF sym])

declare more_name.simps [simp del]

definition length_parameter :: "csh_token \<Rightarrow> nat \<Rightarrow> nat \<Rightarrow> bool" where
  "length_parameter word pos stop =
     (case logical word pos stop of
        (byte, pos) \<Rightarrow>
          if byte_in name_start byte then fst (logical word (snd (more_name word name_char pos stop)) stop) = None
          else if byte_in digit byte then fst (logical word (snd (more_name word digit pos stop)) stop) = None
          else if byte_in special_parameter byte then fst (logical word pos stop) = None
          else False)"

definition empty_operand :: "csh_token \<Rightarrow> nat \<Rightarrow> nat \<Rightarrow> bool" where
  "empty_operand word pos stop \<longleftrightarrow> fst (logical word pos stop) = None"

record parameter_head =
  ph_braced :: bool
  ph_length :: bool
  ph_stop :: nat
  ph_save :: nat
  ph_byte :: "char option"
  ph_pos :: nat

definition parameter_start :: "csh_token \<Rightarrow> csh_fragment \<Rightarrow> parameter_head" where
  "parameter_start word f =
     (let stop = fr_end f;
          save = snd (logical word (fr_begin f) stop);
          (byte, pos) = logical word save stop
      in if byte \<noteq> Some CHR ''{'' then
           \<lparr>ph_braced = False, ph_length = False, ph_stop = stop, ph_save = save, ph_byte = byte, ph_pos = pos\<rparr>
         else
           (let stop = stop - 1;
                save = pos;
                (byte, pos) = logical word pos stop
            in if byte = Some CHR ''#'' \<and> length_parameter word pos stop then
                 (case logical word pos stop of
                    (byte, next) \<Rightarrow>
                      \<lparr>ph_braced = True, ph_length = True, ph_stop = stop, ph_save = pos, ph_byte = byte, ph_pos = next\<rparr>)
               else
                 \<lparr>ph_braced = True, ph_length = False, ph_stop = stop, ph_save = save, ph_byte = byte, ph_pos = pos\<rparr>))"

text \<open>Name, operator (if any), whether it has a colon or is doubled, and where the operand starts.\<close>

record parameter_form =
  pf_name :: string
  pf_op :: "char option"
  pf_colon :: bool
  pf_longest :: bool
  pf_operand :: nat

definition parameter_name :: "csh_token \<Rightarrow> parameter_head \<Rightarrow> (string \<times> nat) option" where
  "parameter_name word h =
     (case ph_byte h of
        None \<Rightarrow> None
      | Some c \<Rightarrow>
          if name_start c then
            (case more_name word name_char (ph_pos h) (ph_stop h) of (cs, pos) \<Rightarrow> Some (c # cs, pos))
          else if digit c then
            (if ph_braced h then (case more_name word digit (ph_pos h) (ph_stop h) of (cs, pos) \<Rightarrow> Some (c # cs, pos))
             else Some ([c], ph_pos h))
          else if special_parameter c then Some ([c], ph_pos h)
          else None)"

definition parameter_operator :: "csh_token \<Rightarrow> parameter_head \<Rightarrow> string \<Rightarrow> nat \<Rightarrow> parameter_form option" where
  "parameter_operator word h name pos =
     (let stop = ph_stop h
      in case logical word pos stop of
           (None, pos) \<Rightarrow> Some \<lparr>pf_name = name, pf_op = None, pf_colon = False, pf_longest = False, pf_operand = pos\<rparr>
         | (Some b, pos) \<Rightarrow>
             if \<not> ph_braced h \<or> ph_length h then None
             else
               (let colon = (b = CHR '':'');
                    (byte, pos) = (if colon then logical word pos stop else (Some b, pos))
                in case byte of
                     None \<Rightarrow> None
                   | Some op \<Rightarrow>
                       if op \<notin> set ''-+=?#%'' \<or> (colon \<and> op \<in> set ''#%'') then None
                       else
                         (let longest = (op \<in> set ''#%'' \<and> fst (logical word pos stop) = Some op)
                          in Some \<lparr>pf_name = name, pf_op = Some op, pf_colon = colon, pf_longest = longest,
                                   pf_operand = (if longest then snd (logical word pos stop) else pos)\<rparr>)))"

definition parameter_syntax :: "csh_token \<Rightarrow> parameter_head \<Rightarrow> parameter_form option" where
  "parameter_syntax word h =
     (case parameter_name word h of None \<Rightarrow> None | Some (name, pos) \<Rightarrow> parameter_operator word h name pos)"

function count_characters :: "ctype \<Rightarrow> string \<Rightarrow> nat" where
  "count_characters cx t = (if t = [] then 0 else Suc (count_characters cx (drop (character_bytes cx t) t)))"
  by pat_completeness auto
termination
  by (relation "measure (\<lambda>(cx, t). length t)") (use character_bytes_pos in auto)

declare count_characters.simps [simp del]

subsection \<open>Evaluating it\<close>

text \<open>The function that expands a range of bytes below a fragment (parent, first byte, end, context,
  output, origin of literal text, tilde prefixes at the start and after colons). \<open>None\<close>: it did not return.\<close>

type_synonym range_function =
  "nat \<Rightarrow> nat \<Rightarrow> nat \<Rightarrow> csh_expand_context \<Rightarrow> expand_out \<Rightarrow> csh_expand_origin \<Rightarrow> bool \<Rightarrow> bool \<Rightarrow> expand_work \<Rightarrow>
   (csh_expand_result \<times> expand_out \<times> expand_work) option"

text \<open>The exit of \<open>parameter\<close> and \<open>arithmetic\<close>: an error without a report gets a general one.\<close>

definition expand_done ::
  "csh_token \<Rightarrow> nat \<Rightarrow> string \<Rightarrow> csh_expand_result \<times> expand_out \<times> expand_work \<Rightarrow>
   csh_expand_result \<times> expand_out \<times> expand_work" where
  "expand_done word index m = (\<lambda>(r, out, w).
     if r \<noteq> CSH_EXPAND_OK \<and> ee_code (xw_error w) = CSH_EXPAND_OK
     then (r, out, snd (expand_fail word r index m w)) else (r, out, w))"

text \<open>\<open>${name#pattern}\<close> and \<open>${name%pattern}\<close>: the pattern is expanded and encoded by \<open>csh_expand_fields\<close>.\<close>

definition pattern_text :: "expand_host \<Rightarrow> expand_out \<Rightarrow> expand_work \<Rightarrow> csh_expand_result \<times> string \<times> expand_work" where
  "pattern_text xh expanded w =
     (case csh_expand_fields (xw_ctype xh w) (xh_paths xh) (xw_state w)
             (Some \<lparr>ex_fields = Some (map Some expanded), ex_context = CSH_EXPAND_PATTERN\<rparr>)
             \<lparr>fh_mallocs = mallocs (xw_world w), fh_interrupts = []\<rparr> of
        (r, patterns, e, fx) \<Rightarrow>
          (let w = w\<lparr>xw_world := (xw_world w)\<lparr>mallocs := fh_mallocs fx\<rparr>, xw_error := e\<rparr>
           in if r \<noteq> CSH_EXPAND_OK then (r, [], w)
              else
                (case patterns of
                   [] \<Rightarrow> (case xw_malloc w of (False, w) \<Rightarrow> (CSH_EXPAND_NOMEM, [], w) | (True, w) \<Rightarrow> (CSH_EXPAND_OK, [], w))
                 | [p] \<Rightarrow> (CSH_EXPAND_OK, p, w)
                 | _ \<Rightarrow> (CSH_EXPAND_INVALID, [], w))))"

definition expand_modifier ::
  "range_function \<Rightarrow> expand_host \<Rightarrow> csh_token \<Rightarrow> nat \<Rightarrow> parameter_form \<Rightarrow> char \<Rightarrow> nat \<Rightarrow> csh_quote \<Rightarrow> string \<Rightarrow> bool \<Rightarrow>
   csh_expand_context \<Rightarrow> expand_out \<Rightarrow> expand_work \<Rightarrow> (csh_expand_result \<times> expand_out \<times> expand_work) option" where
  "expand_modifier rng xh word index pf op stop quote value is_set context out w =
     (let use_word = (\<not> is_set \<or> (pf_colon pf \<and> value = []));
          use_word = (if op = CHR ''+'' then \<not> use_word else use_word)
      in if \<not> use_word then Some (scalar context out (if op = CHR ''+'' then [] else value) quote CSH_EXPAND_PARAMETER w)
         else if op = CHR ''-'' \<or> op = CHR ''+'' then
           (if empty_operand word (pf_operand pf) stop then Some (scalar context out [] quote CSH_EXPAND_PARAMETER w)
            else rng index (pf_operand pf) stop context out CSH_EXPAND_PARAMETER True False w)
         else
           (case rng index (pf_operand pf) stop CSH_EXPAND_ASSIGNMENT [] CSH_EXPAND_PARAMETER True False w of
              None \<Rightarrow> None
            | Some (CSH_EXPAND_OK, expanded, w) \<Rightarrow>
                (case flatten expanded w of
                   (None, w) \<Rightarrow> Some (CSH_EXPAND_NOMEM, out, w)
                 | (Some text, w) \<Rightarrow>
                     if op = CHR ''?'' then
                       (case expand_fail word CSH_EXPAND_UNSET index
                               (if pf_operand pf = stop then ''parameter is unset or empty'' else text) w of
                          (r, w) \<Rightarrow> Some (r, out, w))
                     else
                       (case expand_assign (pf_name pf) text w of
                          (CSH_EXPAND_OK, w) \<Rightarrow> Some (scalar context out text quote CSH_EXPAND_PARAMETER w)
                        | (r, w) \<Rightarrow> Some (r, out, w)))
            | Some (r, _, w) \<Rightarrow> Some (r, out, w)))"

definition expand_value ::
  "range_function \<Rightarrow> expand_host \<Rightarrow> csh_token \<Rightarrow> nat \<Rightarrow> parameter_head \<Rightarrow> parameter_form \<Rightarrow> csh_quote \<Rightarrow>
   csh_expand_context \<Rightarrow> expand_out \<Rightarrow> expand_work \<Rightarrow> (csh_expand_result \<times> expand_out \<times> expand_work) option" where
  "expand_value rng xh word index h pf quote context out w =
     (case parameter_value (pf_name pf) w of
        (CSH_EXPAND_OK, value, is_set, w) \<Rightarrow>
          (let value = (case value of None \<Rightarrow> [] | Some v \<Rightarrow> v)
           in if \<not> is_set \<and> si_options (csh_state_get_info (xw_state w)) AND CSH_OPT_NOUNSET \<noteq> 0 \<and>
                 (ph_length h \<or> pf_op pf = None \<or> pf_op pf = Some CHR ''#'' \<or> pf_op pf = Some CHR ''%'')
              then (case expand_fail word CSH_EXPAND_UNSET index (pf_name pf) w of (r, w) \<Rightarrow> Some (r, out, w))
              else if ph_length h then
                Some (scalar context out (show_nat (count_characters (xw_ctype xh w) value)) quote CSH_EXPAND_PARAMETER w)
              else
                (case pf_op pf of
                   None \<Rightarrow> Some (scalar context out value quote CSH_EXPAND_PARAMETER w)
                 | Some op \<Rightarrow>
                     if op = CHR ''#'' \<or> op = CHR ''%'' then
                       (case rng index (pf_operand pf) (ph_stop h) CSH_EXPAND_PATTERN [] CSH_EXPAND_PARAMETER True False w of
                          None \<Rightarrow> None
                        | Some (CSH_EXPAND_OK, expanded, w) \<Rightarrow>
                            (case pattern_text xh expanded w of
                               (CSH_EXPAND_OK, pattern, w) \<Rightarrow>
                                 Some (scalar context out
                                   (remove_pattern xh w value pattern (op = CHR ''%'') (pf_longest pf)) quote CSH_EXPAND_PARAMETER w)
                             | (r, _, w) \<Rightarrow> Some (r, out, w))
                        | Some (r, _, w) \<Rightarrow> Some (r, out, w))
                     else expand_modifier rng xh word index pf op (ph_stop h) quote value is_set context out w))
      | (r, _, _, w) \<Rightarrow> Some (r, out, w))"

definition expand_parameter ::
  "range_function \<Rightarrow> expand_host \<Rightarrow> prepared_word \<Rightarrow> nat \<Rightarrow> csh_expand_context \<Rightarrow> expand_out \<Rightarrow> expand_work \<Rightarrow>
   (csh_expand_result \<times> expand_out \<times> expand_work) option" where
  "expand_parameter rng xh pw index context out w =
     (let word = pw_word pw;
          f = tk_fragments word ! index;
          h = parameter_start word f
      in map_option (expand_done word index ''parameter expansion failed'')
           (if ph_stop h < ph_save h then Some (CSH_EXPAND_NOMEM, out, w)
            else
              (case xw_malloc w of
                 (False, w) \<Rightarrow> Some (CSH_EXPAND_NOMEM, out, w)
               | (True, w) \<Rightarrow>
                   (case parameter_syntax word h of
                      None \<Rightarrow> Some (CSH_EXPAND_INVALID, out, w)
                    | Some pf \<Rightarrow>
                        if pf_name pf = ''@'' \<or> pf_name pf = ''*'' then
                          (if ph_length h \<or> pf_op pf \<noteq> None then Some (CSH_EXPAND_INVALID, out, w)
                           else Some (positional xh context out (pf_name pf = ''*'') (fr_quote f) w))
                        else expand_value rng xh word index h pf (fr_quote f) context out w))))"

subsection \<open>Structure of a word\<close>

definition slice :: "string \<Rightarrow> nat \<Rightarrow> nat \<Rightarrow> string" where
  "slice raw a b = take (b - a) (drop a raw)"

text \<open>The fragments a loop \<open>i = work->next[i]\<close> visits; \<open>None\<close> if it does not end within the fuel.\<close>

fun chain :: "nat \<Rightarrow> nat list \<Rightarrow> nat \<Rightarrow> nat \<Rightarrow> nat list option" where
  "chain 0 ns i limit = (if i < limit then None else Some [])"
| "chain (Suc fuel) ns i limit = (if i < limit then map_option (Cons i) (chain fuel ns (ns ! i) limit) else Some [])"

definition children :: "prepared_word \<Rightarrow> nat \<Rightarrow> nat list option" where
  "children pw parent =
     (let n = length (tk_fragments (pw_word pw))
      in chain n (pw_next pw) (if parent = CSH_FRAGMENT_ROOT then 0 else parent + 1)
           (if parent = CSH_FRAGMENT_ROOT then n else pw_next pw ! parent))"

definition plain_at :: "prepared_word \<Rightarrow> nat \<Rightarrow> nat list \<Rightarrow> nat \<Rightarrow> bool" where
  "plain_at pw parent is pos =
     (case find (\<lambda>i. fr_begin (tk_fragments (pw_word pw) ! i) \<le> pos \<and> pos < fr_end (tk_fragments (pw_word pw) ! i)) is of
        None \<Rightarrow> False
      | Some i \<Rightarrow>
          (let f = tk_fragments (pw_word pw) ! i
           in fr_parent f = parent \<and> fr_quote f = CSH_QUOTE_NONE \<and>
              (fr_kind f = CSH_FRAGMENT_TEXT \<or> fr_kind f = CSH_FRAGMENT_CONTINUATION)))"

text \<open>The name after a tilde and where it ends; \<open>None\<close> if part of it is not plain text.\<close>

function tilde_name ::
  "ctype \<Rightarrow> prepared_word \<Rightarrow> nat \<Rightarrow> nat list \<Rightarrow> bool \<Rightarrow> nat \<Rightarrow> nat \<Rightarrow> (string \<times> nat) option" where
  "tilde_name cx pw parent is assignment pos stop =
     (let raw = tk_raw (pw_word pw)
      in if stop \<le> pos then Some ([], pos)
         else if \<not> plain_at pw parent is pos then None
         else if raw ! pos = CHR ''/'' \<or> (assignment \<and> raw ! pos = CHR '':'') then Some ([], pos)
         else if pos + 1 < stop \<and> raw ! pos = escape_char \<and> raw ! (pos + 1) = CHR 0x0A then
           tilde_name cx pw parent is assignment (pos + 2) stop
         else
           (let width = max 1 (csh_character_length cx (slice raw pos stop) True True)
            in map_option (\<lambda>(name, p). (slice raw pos (pos + width) @ name, p))
                 (tilde_name cx pw parent is assignment (pos + width) stop)))"
  by pat_completeness auto
termination
  by (relation "measure (\<lambda>(cx, pw, parent, is, a, pos, stop). stop - pos)") auto

declare tilde_name.simps [simp del]

definition tilde_prefix ::
  "expand_host \<Rightarrow> prepared_word \<Rightarrow> nat \<Rightarrow> nat list \<Rightarrow> nat \<Rightarrow> nat \<Rightarrow> bool \<Rightarrow> csh_expand_context \<Rightarrow> expand_out \<Rightarrow> expand_work \<Rightarrow>
   csh_expand_result \<times> nat \<times> expand_out \<times> expand_work" where
  "tilde_prefix xh pw parent is begin stop assignment context out w =
     (case xw_malloc w of
        (False, w) \<Rightarrow> (CSH_EXPAND_NOMEM, begin, out, w)
      | (True, w) \<Rightarrow>
          (case tilde_name (xw_ctype xh w) pw parent is assignment (begin + 1) stop of
             None \<Rightarrow> (CSH_EXPAND_OK, begin, out, w)
           | Some (name, pos) \<Rightarrow>
               (case (if name = [] then view_value (snd (csh_state_get_variable (xw_state w) (Some ''HOME'')))
                      else xh_getpwnam xh name) of
                  None \<Rightarrow> (CSH_EXPAND_OK, begin, out, w)
                | Some home \<Rightarrow>
                    (let home = (if home \<noteq> [] \<and> last home = CHR ''/'' \<and> pos < stop \<and> tk_raw (pw_word pw) ! pos = CHR ''/''
                                 then butlast home else home)
                     in case append_span context out home CSH_QUOTE_SINGLE CSH_EXPAND_TILDE True w of
                          (CSH_EXPAND_OK, out, w) \<Rightarrow> (CSH_EXPAND_OK, pos, out, w)
                        | (r, out, w) \<Rightarrow> (r, begin, out, w)))))"

text \<open>The end of a region before its closing parentheses and the continuations in front of them.\<close>

function trim_continuations :: "csh_token \<Rightarrow> nat \<Rightarrow> nat \<Rightarrow> nat" where
  "trim_continuations word begin stop =
     (if begin + 2 \<le> stop \<and> tk_raw word ! (stop - 2) = escape_char \<and> tk_raw word ! (stop - 1) = CHR 0x0A
      then trim_continuations word begin (stop - 2) else stop)"
  by pat_completeness auto
termination
  by (relation "measure (\<lambda>(word, begin, stop). stop)") auto

declare trim_continuations.simps [simp del]

fun trim_delimiters :: "csh_token \<Rightarrow> nat \<Rightarrow> nat \<Rightarrow> nat \<Rightarrow> nat option" where
  "trim_delimiters word begin stop 0 = Some stop"
| "trim_delimiters word begin stop (Suc n) =
     (if stop \<le> begin \<or> tk_raw word ! (stop - 1) \<noteq> CHR '')'' then None
      else trim_delimiters word begin (trim_continuations word begin (stop - 1)) n)"

definition after_opening :: "csh_token \<Rightarrow> nat \<Rightarrow> nat \<Rightarrow> nat" where
  "after_opening word begin stop =
     (let p = snd (logical word begin stop); p = snd (logical word p stop) in snd (logical word p stop))"

definition expand_arithmetic ::
  "range_function \<Rightarrow> expand_host \<Rightarrow> prepared_word \<Rightarrow> nat \<Rightarrow> csh_expand_context \<Rightarrow> expand_out \<Rightarrow> expand_work \<Rightarrow>
   (csh_expand_result \<times> expand_out \<times> expand_work) option" where
  "expand_arithmetic rng xh pw index context out w =
     (let word = pw_word pw;
          f = tk_fragments word ! index
      in case trim_delimiters word (fr_begin f) (fr_end f) 2 of
           None \<Rightarrow> Some (CSH_EXPAND_INVALID, out, w)
         | Some stop \<Rightarrow>
             map_option (expand_done word index ''arithmetic expansion failed'')
               (case rng index (after_opening word (fr_begin f) stop) stop CSH_EXPAND_ASSIGNMENT [] CSH_EXPAND_LITERAL
                       False False w of
                  None \<Rightarrow> None
                | Some (CSH_EXPAND_OK, expanded, w) \<Rightarrow>
                    (case flatten expanded w of
                       (None, w) \<Rightarrow> Some (CSH_EXPAND_NOMEM, out, w)
                     | (Some text, w) \<Rightarrow>
                         (case csh_arith_eval (xw_state w) (Some text) (xw_world w)
                                 (case xw_arith_checks w of [] \<Rightarrow> [] | c # cs \<Rightarrow> c) of
                            None \<Rightarrow> None
                          | Some (arith, value, s, wo, _) \<Rightarrow>
                              (let w = w\<lparr>xw_state := s, xw_world := wo, xw_arith_checks := tl (xw_arith_checks w)\<rparr>
                               in if arith = CSH_ARITH_OK then
                                    Some (scalar context out (show_long (case value of None \<Rightarrow> 0 | Some v \<Rightarrow> v)) (fr_quote f)
                                      CSH_EXPAND_ARITHMETIC w)
                                  else if arith = CSH_ARITH_RESOURCE then
                                    (case expand_fail word CSH_EXPAND_RESOURCE index ''arithmetic stack exhausted'' w of
                                       (r, w) \<Rightarrow> Some (r, out, w))
                                  else
                                    Some (if arith = CSH_ARITH_NOMEM then CSH_EXPAND_NOMEM
                                          else if arith = CSH_ARITH_READONLY then CSH_EXPAND_READONLY
                                          else CSH_EXPAND_ARITHMETIC_ERROR, out, w))))
                | Some (r, _, w) \<Rightarrow> Some (r, out, w)))"

definition substitution ::
  "expand_host \<Rightarrow> prepared_word \<Rightarrow> nat \<Rightarrow> csh_expand_context \<Rightarrow> expand_out \<Rightarrow> expand_work \<Rightarrow>
   csh_expand_result \<times> expand_out \<times> expand_work" where
  "substitution xh pw index context out w =
     (let word = pw_word pw;
          quote = fr_quote (tk_fragments word ! index)
      in case xh_substitute xh of
           None \<Rightarrow>
             (case expand_fail word CSH_EXPAND_DEFERRED index ''command substitution requires an executor'' w of
                (r, w) \<Rightarrow> (r, out, w))
         | Some run_command \<Rightarrow>
             (case run_command (xw_state w) (xw_world w) word index of
                (r, bytes, s, wo, e) \<Rightarrow>
                  (let w = w\<lparr>xw_state := s, xw_world := wo, xw_error := e\<rparr>
                   in if r \<noteq> CSH_EXPAND_OK then (r, out, w)
                      else
                        (case bytes of
                           None \<Rightarrow>
                             (case expand_fail word CSH_EXPAND_INVALID index ''invalid command substitution bytes'' w of
                                (r, w) \<Rightarrow> (r, out, w))
                         | Some b \<Rightarrow>
                             if length b = SIZE_MAX \<or> CHR 0x00 \<in> set b then
                               (case expand_fail word CSH_EXPAND_INVALID index ''invalid command substitution bytes'' w of
                                  (r, w) \<Rightarrow> (r, out, w))
                             else append_span context out b quote CSH_EXPAND_SUBSTITUTION (quote \<noteq> CSH_QUOTE_NONE) w))))"

text \<open>Literal text between two positions, with tilde prefixes: position, start of the text not yet
  appended, and whether a tilde is special here. \<open>None\<close>: the fuel ran out.\<close>

fun text_loop ::
  "nat \<Rightarrow> expand_host \<Rightarrow> prepared_word \<Rightarrow> nat \<Rightarrow> nat list \<Rightarrow> csh_quote \<Rightarrow> nat \<Rightarrow> nat \<Rightarrow> csh_expand_context \<Rightarrow>
   csh_expand_origin \<Rightarrow> bool \<Rightarrow> nat \<Rightarrow> nat \<Rightarrow> bool \<Rightarrow> expand_out \<Rightarrow> expand_work \<Rightarrow>
   (csh_expand_result \<times> nat \<times> nat \<times> bool \<times> expand_out \<times> expand_work) option" where
  "text_loop 0 xh pw parent is quote stop end context origin colons p mark tilde_ok out w =
     (if p < stop then None else Some (CSH_EXPAND_OK, p, mark, tilde_ok, out, w))"
| "text_loop (Suc fuel) xh pw parent is quote stop end context origin colons p mark tilde_ok out w =
     (if stop \<le> p then Some (CSH_EXPAND_OK, p, mark, tilde_ok, out, w)
      else
        (let raw = tk_raw (pw_word pw);
             step = (\<lambda>mark out w.
               text_loop fuel xh pw parent is quote stop end context origin colons
                 (p + csh_character_length (xw_ctype xh w) (slice raw p stop) True True) mark
                 (colons \<and> quote = CSH_QUOTE_NONE \<and> raw ! p = CHR '':'') out w)
         in if tilde_ok \<and> quote = CSH_QUOTE_NONE \<and> raw ! p = CHR ''~'' then
              (case (if mark < p then append_span context out (slice raw mark p) quote origin (quote \<noteq> CSH_QUOTE_NONE) w
                     else (CSH_EXPAND_OK, out, w)) of
                 (CSH_EXPAND_OK, out, w) \<Rightarrow>
                   (case tilde_prefix xh pw parent is p end colons context out w of
                      (CSH_EXPAND_OK, after, out, w) \<Rightarrow>
                        if after \<noteq> p
                        then text_loop fuel xh pw parent is quote stop end context origin colons after after False out w
                        else step p out w
                    | (r, after, out, w) \<Rightarrow> Some (r, p, mark, tilde_ok, out, w))
               | (r, out, w) \<Rightarrow> Some (r, p, mark, tilde_ok, out, w))
            else step mark out w))"

definition expand_text ::
  "expand_host \<Rightarrow> prepared_word \<Rightarrow> nat \<Rightarrow> nat list \<Rightarrow> csh_fragment \<Rightarrow> nat \<Rightarrow> nat \<Rightarrow> nat \<Rightarrow> csh_expand_context \<Rightarrow>
   csh_expand_origin \<Rightarrow> bool \<Rightarrow> bool \<Rightarrow> expand_out \<Rightarrow> expand_work \<Rightarrow>
   (csh_expand_result \<times> nat \<times> bool \<times> expand_out \<times> expand_work) option" where
  "expand_text xh pw parent is f start stop end context origin colons tilde_ok out w =
     (case text_loop (stop - start) xh pw parent is (fr_quote f) stop end context origin colons start start tilde_ok out w of
        None \<Rightarrow> None
      | Some (r, p, mark, tilde_ok, out, w) \<Rightarrow>
          (case (if r = CSH_EXPAND_OK \<and> mark < stop
                 then append_span context out (slice (tk_raw (pw_word pw)) mark stop) (fr_quote f) origin
                        (fr_quote f \<noteq> CSH_QUOTE_NONE) w
                 else (r, out, w)) of
             (r, out, w) \<Rightarrow> Some (r, max p stop, tilde_ok, out, w)))"

subsection \<open>Expanding a range of a word\<close>

text \<open>A fragment that is neither text nor a continuation.\<close>

definition expand_fragment ::
  "range_function \<Rightarrow> expand_host \<Rightarrow> prepared_word \<Rightarrow> nat \<Rightarrow> csh_expand_context \<Rightarrow> csh_expand_origin \<Rightarrow> expand_out \<Rightarrow>
   expand_work \<Rightarrow> (csh_expand_result \<times> expand_out \<times> expand_work) option" where
  "expand_fragment rng xh pw i context origin out w =
     (let word = pw_word pw;
          f = tk_fragments word ! i
      in case fr_kind f of
           CSH_FRAGMENT_QUOTED \<Rightarrow>
             if fr_quote f = CSH_QUOTE_DOLLAR_SINGLE then
               Some (scalar context out (case pw_decoded pw ! i of None \<Rightarrow> [] | Some t \<Rightarrow> t) (fr_quote f) origin w)
             else
               (case children pw i of
                  None \<Rightarrow> None
                | Some is \<Rightarrow>
                    if list_ex (\<lambda>child. fr_kind (tk_fragments word ! child) \<noteq> CSH_FRAGMENT_CONTINUATION) is
                    then rng i (fr_begin f + 1) (fr_end f - 1) context out origin False False w
                    else Some (scalar context out [] (fr_quote f) origin w))
         | CSH_FRAGMENT_ESCAPE \<Rightarrow>
             Some (append_span context out (slice (tk_raw word) (fr_begin f + 1) (fr_end f)) CSH_QUOTE_SINGLE origin True w)
         | CSH_FRAGMENT_PARAMETER \<Rightarrow> expand_parameter rng xh pw i context out w
         | CSH_FRAGMENT_ARITHMETIC \<Rightarrow> expand_arithmetic rng xh pw i context out w
         | CSH_FRAGMENT_COMMAND \<Rightarrow> Some (substitution xh pw i context out w)
         | CSH_FRAGMENT_BACKQUOTE \<Rightarrow> Some (substitution xh pw i context out w)
         | _ \<Rightarrow> Some (CSH_EXPAND_INVALID, out, w))"

text \<open>The loop of \<open>range\<close> over the fragments \<open>js\<close> that are still to come of the children \<open>is\<close> of the parent.\<close>

fun range_loop ::
  "range_function \<Rightarrow> expand_host \<Rightarrow> prepared_word \<Rightarrow> nat \<Rightarrow> nat list \<Rightarrow> nat \<Rightarrow> csh_expand_context \<Rightarrow> csh_expand_origin \<Rightarrow> bool \<Rightarrow>
   nat list \<Rightarrow> nat \<Rightarrow> bool \<Rightarrow> expand_out \<Rightarrow> expand_work \<Rightarrow> (csh_expand_result \<times> expand_out \<times> expand_work) option" where
  "range_loop rng xh pw parent is end context origin colons [] cursor tilde_ok out w = Some (CSH_EXPAND_OK, out, w)"
| "range_loop rng xh pw parent is end context origin colons (i # js) cursor tilde_ok out w =
     (let f = tk_fragments (pw_word pw) ! i;
          start = max cursor (fr_begin f);
          stop = min end (fr_end f)
      in if fr_end f \<le> cursor \<or> end \<le> fr_begin f
         then range_loop rng xh pw parent is end context origin colons js cursor tilde_ok out w
         else if fr_kind f = CSH_FRAGMENT_TEXT then
           (case expand_text xh pw parent is f start stop end context origin colons tilde_ok out w of
              None \<Rightarrow> None
            | Some (r, cursor, tilde_ok, out, w) \<Rightarrow>
                if r = CSH_EXPAND_OK
                then range_loop rng xh pw parent is end context origin colons js cursor tilde_ok out w
                else Some (r, out, w))
         else if fr_kind f = CSH_FRAGMENT_CONTINUATION then
           range_loop rng xh pw parent is end context origin colons js stop tilde_ok out w
         else if start \<noteq> fr_begin f \<or> stop \<noteq> fr_end f then
           (case expand_fail (pw_word pw) CSH_EXPAND_INVALID i ''partial expansion fragment'' w of (r, w) \<Rightarrow> Some (r, out, w))
         else
           (case expand_fragment rng xh pw i context origin out w of
              None \<Rightarrow> None
            | Some (r, out, w) \<Rightarrow>
                if r = CSH_EXPAND_OK
                then range_loop rng xh pw parent is end context origin colons js stop False out w
                else Some (r, out, w)))"

definition expand_stack_check :: "expand_work \<Rightarrow> bool \<times> expand_work" where
  "expand_stack_check w = (case malloc (xw_checks w) of (b, cs) \<Rightarrow> (b, w\<lparr>xw_checks := cs\<rparr>))"

text \<open>\<open>range\<close>, which calls itself on the children of a fragment: the fuel bounds the depth of the calls.\<close>

fun expand_range :: "nat \<Rightarrow> expand_host \<Rightarrow> prepared_word \<Rightarrow> range_function" where
  "expand_range 0 xh pw parent begin end context out origin tilde colons w = None"
| "expand_range (Suc fuel) xh pw parent begin end context out origin tilde colons w =
     (case expand_stack_check w of
        (False, w) \<Rightarrow>
          (case expand_fail (pw_word pw) CSH_EXPAND_RESOURCE parent ''expansion stack exhausted'' w of (r, w) \<Rightarrow> Some (r, out, w))
      | (True, w) \<Rightarrow>
          (case children pw parent of
             None \<Rightarrow> None
           | Some is \<Rightarrow>
               range_loop (expand_range fuel xh pw) xh pw parent is end context origin colons is begin tilde out w))"

subsection \<open>Checking the structure\<close>

definition fragment_syntax :: "ctype \<Rightarrow> csh_token \<Rightarrow> csh_fragment \<Rightarrow> bool" where
  "fragment_syntax cx word f =
     (let raw = tk_raw word;
          pos = fr_begin f;
          stop = fr_end f;
          opening = (\<lambda>c d stop. fst (logical word pos stop) = Some c \<and>
            fst (logical word (snd (logical word pos stop)) stop) = Some d);
          second = snd (logical word (snd (logical word pos stop)) stop)
      in case fr_kind f of
           CSH_FRAGMENT_TEXT \<Rightarrow> True
         | CSH_FRAGMENT_CONTINUATION \<Rightarrow> stop - pos = 2 \<and> raw ! pos = escape_char \<and> raw ! (pos + 1) = CHR 0x0A
         | CSH_FRAGMENT_ESCAPE \<Rightarrow>
             2 \<le> stop - pos \<and> raw ! pos = escape_char \<and>
             csh_character_length cx (slice raw (pos + 1) stop) True True = stop - pos - 1
         | CSH_FRAGMENT_QUOTED \<Rightarrow>
             (case fr_quote f of
                CSH_QUOTE_DOLLAR_SINGLE \<Rightarrow>
                  opening CHR ''$'' CHR 0x27 stop \<and> second < stop \<and> raw ! (stop - 1) = CHR 0x27
              | CSH_QUOTE_SINGLE \<Rightarrow> raw ! pos = CHR 0x27 \<and> raw ! (stop - 1) = CHR 0x27
              | CSH_QUOTE_DOUBLE \<Rightarrow> raw ! pos = CHR 0x22 \<and> raw ! (stop - 1) = CHR 0x22
              | CSH_QUOTE_NONE \<Rightarrow> False)
         | CSH_FRAGMENT_BACKQUOTE \<Rightarrow> raw ! pos = CHR 0x60 \<and> raw ! (stop - 1) = CHR 0x60
         | CSH_FRAGMENT_PARAMETER \<Rightarrow>
             (case logical word pos stop of
                (first, p) \<Rightarrow>
                  first = Some CHR ''$'' \<and>
                  (case logical word p stop of
                     (byte, p) \<Rightarrow>
                       if byte = Some CHR ''{'' then p < stop \<and> raw ! (stop - 1) = CHR ''}''
                       else byte_in name_char byte \<or> byte_in special_parameter byte))
         | CSH_FRAGMENT_COMMAND \<Rightarrow>
             opening CHR ''$'' CHR ''('' stop \<and> second < stop \<and> raw ! (stop - 1) = CHR '')''
         | CSH_FRAGMENT_ARITHMETIC \<Rightarrow>
             (case trim_delimiters word pos stop 2 of
                None \<Rightarrow> False
              | Some stop \<Rightarrow>
                  opening CHR ''$'' CHR ''('' stop \<and>
                  fst (logical word (snd (logical word (snd (logical word pos stop)) stop)) stop) = Some CHR ''(''))"

definition command_continuation :: "csh_token \<Rightarrow> csh_fragment \<Rightarrow> bool" where
  "command_continuation word child =
     (let parent = tk_fragments word ! fr_parent child
      in fr_kind child = CSH_FRAGMENT_CONTINUATION \<and>
         (case logical word (fr_begin parent) (fr_end parent) of
            (first, p) \<Rightarrow>
              first = Some CHR ''$'' \<and>
              (case logical word p (fr_end parent) of (second, p) \<Rightarrow> second = Some CHR ''('' \<and> fr_end child \<le> p)))"

text \<open>Leaving the open fragments that the next one is not a child of: the open fragments (innermost first),
  the position before which no sibling may start, and the ends recorded in \<open>work->next\<close>.\<close>

fun unwind :: "csh_fragment list \<Rightarrow> nat \<Rightarrow> nat \<Rightarrow> nat list \<Rightarrow> nat \<Rightarrow> nat list \<Rightarrow> nat list \<times> nat \<times> nat list" where
  "unwind fs parent i [] previous ns = ([], previous, ns)"
| "unwind fs parent i (t # stack) previous ns =
     (if parent \<noteq> t then unwind fs parent i stack (fr_end (fs ! t)) (ns[t := i]) else (t # stack, previous, ns))"

definition structure_ok :: "csh_token \<Rightarrow> csh_fragment \<Rightarrow> nat list \<Rightarrow> nat \<Rightarrow> bool" where
  "structure_ok word f stack previous \<longleftrightarrow>
     (if stack = [] then fr_parent f = CSH_FRAGMENT_ROOT
      else fr_begin (tk_fragments word ! fr_parent f) \<le> fr_begin f \<and> fr_end f \<le> fr_end (tk_fragments word ! fr_parent f)) \<and>
     previous \<le> fr_begin f \<and> fr_begin f \<le> fr_end f \<and> fr_end f \<le> length (tk_raw word) \<and>
     (fr_kind f \<noteq> CSH_FRAGMENT_TEXT \<longrightarrow> 2 \<le> fr_end f - fr_begin f) \<and>
     (fr_kind f = CSH_FRAGMENT_ARITHMETIC \<longrightarrow> 5 \<le> fr_end f - fr_begin f)"

definition nesting_ok :: "csh_token \<Rightarrow> csh_fragment \<Rightarrow> nat list \<Rightarrow> bool" where
  "nesting_ok word f stack \<longleftrightarrow>
     (stack \<noteq> [] \<longrightarrow>
       (let parent = fr_kind (tk_fragments word ! fr_parent f)
        in parent \<noteq> CSH_FRAGMENT_TEXT \<and> parent \<noteq> CSH_FRAGMENT_ESCAPE \<and> parent \<noteq> CSH_FRAGMENT_CONTINUATION \<and>
           (parent = CSH_FRAGMENT_COMMAND \<longrightarrow> command_continuation word f)))"

text \<open>One pass over the fragments from index \<open>i\<close>; \<open>Inl\<close>: the fragment at which it fails, and the message.\<close>

fun prepare_scan ::
  "ctype \<Rightarrow> csh_token \<Rightarrow> nat \<Rightarrow> csh_fragment list \<Rightarrow> nat list \<Rightarrow> nat \<Rightarrow> nat list \<Rightarrow> (nat \<times> string) + nat list" where
  "prepare_scan cx word i [] stack previous ns = Inr (fold (\<lambda>t ns. ns[t := i]) stack ns)"
| "prepare_scan cx word i (f # fs) stack previous ns =
     (case unwind (tk_fragments word) (fr_parent f) i stack previous ns of
        (stack, previous, ns) \<Rightarrow>
          if \<not> structure_ok word f stack previous then Inl (i, ''invalid structured word'')
          else if \<not> fragment_syntax cx word f \<or> \<not> nesting_ok word f stack then Inl (i, ''invalid fragment syntax'')
          else prepare_scan cx word (Suc i) fs (i # stack) (fr_begin f) ns)"

text \<open>The decoding of dollar-single-quoted fragments.\<close>

fun decode_loop ::
  "expand_host \<Rightarrow> csh_token \<Rightarrow> nat \<Rightarrow> csh_fragment list \<Rightarrow> string option list \<Rightarrow> expand_work \<Rightarrow>
   csh_expand_result \<times> string option list \<times> expand_work" where
  "decode_loop xh word i [] ds w = (CSH_EXPAND_OK, ds, w)"
| "decode_loop xh word i (f # fs) ds w =
     (if fr_kind f = CSH_FRAGMENT_QUOTED \<and> fr_quote f = CSH_QUOTE_DOLLAR_SINGLE then
        (case logical word (fr_begin f) (fr_end f) of
           (first, p) \<Rightarrow>
             (case logical word p (fr_end f) of
                (second, p) \<Rightarrow>
                  if first \<noteq> Some CHR ''$'' \<or> second \<noteq> Some CHR 0x27 \<or> fr_end f \<le> p \<or> tk_raw word ! (fr_end f - 1) \<noteq> CHR 0x27
                  then (case expand_fail word CSH_EXPAND_INVALID i ''invalid dollar-single-quote region'' w of (r, w) \<Rightarrow> (r, ds, w))
                  else
                    (case csh_quote_decode (xw_ctype xh w) (Some (drop p (tk_raw word))) (fr_end f - p - 1)
                            (mallocs (xw_world w)) of
                       (q, t, h) \<Rightarrow>
                         (let w = w\<lparr>xw_world := (xw_world w)\<lparr>mallocs := h\<rparr>\<rparr>
                          in if q = CSH_QUOTE_OK then decode_loop xh word (Suc i) fs (ds[i := t]) w
                             else
                               (case expand_fail word (if q = CSH_QUOTE_NOMEM then CSH_EXPAND_NOMEM else CSH_EXPAND_INVALID) i
                                       ''dollar-single-quote decoding failed'' w of
                                  (r, w) \<Rightarrow> (r, ds, w))))))
      else decode_loop xh word (Suc i) fs ds w)"

definition prepare :: "expand_host \<Rightarrow> csh_token \<Rightarrow> expand_work \<Rightarrow> csh_expand_result \<times> prepared_word \<times> expand_work" where
  "prepare xh word w =
     (let n = length (tk_fragments word);
          pw = \<lparr>pw_word = word, pw_next = replicate n 0, pw_decoded = replicate n None\<rparr>
      in if tk_kind word \<noteq> CSH_TOKEN_WORD \<or> CHR 0x00 \<in> set (tk_raw word) then (CSH_EXPAND_INVALID, pw, w)
         else if SIZE_MAX div 8 - 1 < n then (CSH_EXPAND_NOMEM, pw, w)
         else
           (case xw_malloc w of
              (a, w) \<Rightarrow>
                (case xw_malloc w of
                   (b, w) \<Rightarrow>
                     (case xw_malloc w of
                        (c, w) \<Rightarrow>
                          if \<not> (a \<and> b \<and> c) then (CSH_EXPAND_NOMEM, pw, w)
                          else
                            (case prepare_scan (xw_ctype xh w) word 0 (tk_fragments word) [] 0 (pw_next pw) of
                               Inl (i, m) \<Rightarrow> (case expand_fail word CSH_EXPAND_INVALID i m w of (r, w) \<Rightarrow> (r, pw, w))
                             | Inr ns \<Rightarrow>
                                 (case decode_loop xh word 0 (tk_fragments word) (pw_decoded pw) w of
                                    (r, ds, w) \<Rightarrow> (r, pw\<lparr>pw_next := ns, pw_decoded := ds\<rparr>, w)))))))"

subsection \<open>Expanding a word\<close>

text \<open>The depth of calls of \<open>range\<close>: a fragment is nested in earlier fragments only.\<close>

definition expand_fuel :: "csh_token \<Rightarrow> nat" where
  "expand_fuel word = length (tk_fragments word) + 1"

text \<open>The expansion of a word that exists in a state that exists; the output is empty unless the result is
  \<open>CSH_EXPAND_OK\<close>. The work holds the state, the world and the answers of the stack check.\<close>

definition csh_expand_word ::
  "expand_host \<Rightarrow> csh_token \<Rightarrow> csh_expand_context \<Rightarrow> expand_work \<Rightarrow> (csh_expand_result \<times> expand_out \<times> expand_work) option" where
  "csh_expand_word xh word context w =
     (let w = w\<lparr>xw_error := \<lparr>ee_code = CSH_EXPAND_OK, ee_fragment = CSH_FRAGMENT_ROOT, ee_position = no_position,
                ee_message = []\<rparr>\<rparr>;
          report = (\<lambda>r w. if ee_code (xw_error w) = CSH_EXPAND_OK
            then snd (expand_fail word r CSH_FRAGMENT_ROOT ''word expansion failed'' w) else w)
      in case prepare xh word w of
           (r, pw, w) \<Rightarrow>
             if r \<noteq> CSH_EXPAND_OK then Some (r, [], report r w)
             else
               (case csh_state_save (xw_state w) (xw_world w) of
                  (s, checkpoint, wo) \<Rightarrow>
                    (let w = w\<lparr>xw_world := wo\<rparr>
                     in if s \<noteq> CSH_STATE_OK then Some (CSH_EXPAND_NOMEM, [], report CSH_EXPAND_NOMEM w)
                        else
                          (case expand_range (expand_fuel word) xh pw CSH_FRAGMENT_ROOT 0 (length (tk_raw word)) context []
                                  CSH_EXPAND_LITERAL (context \<noteq> CSH_EXPAND_HEREDOC) (context = CSH_EXPAND_ASSIGNMENT) w of
                             None \<Rightarrow> None
                           | Some (r, out, w) \<Rightarrow>
                               if r = CSH_EXPAND_OK
                               then Some (r, out, w\<lparr>xw_world := csh_state_checkpoint_destroy checkpoint (xw_world w)\<rparr>)
                               else
                                 (case csh_state_restore (xw_state w) checkpoint (xw_world w) of
                                    (_, s, wo) \<Rightarrow> Some (r, [], report r (w\<lparr>xw_state := s, xw_world := wo\<rparr>)))))))"

end
