(* ===== verification/Expansion_Soundness.thy ===== *)
theory Expansion_Soundness
  imports Word_Expansion Arithmetic_Facts
begin

text \<open>
  What word expansion keeps: the strings of the state stay C strings, and the spans it appends are those
  that field splitting accepts, through parameter, arithmetic and tilde expansion and substitution.
\<close>

subsection \<open>Strings of the state\<close>

text \<open>Values and parameters are C strings: no byte of them is NUL, and every counted parameter exists.\<close>

definition c_string :: "string \<Rightarrow> bool" where
  "c_string t \<longleftrightarrow> CHR 0x00 \<notin> set t"

definition c_strings :: "csh_state \<Rightarrow> bool" where
  "c_strings s \<longleftrightarrow>
     si_argument_count (st_info s) \<le> length (st_arguments s) \<and> c_string (st_arg0 s) \<and> (\<forall>a\<in>set (st_arguments s). c_string a) \<and>
     (\<forall>v\<in>set (st_variables s). \<forall>t. v_value v = Some t \<longrightarrow> c_string t)"

lemma c_string_simps [simp]:
  "c_string []" "c_string (c # t) \<longleftrightarrow> c \<noteq> CHR 0x00 \<and> c_string t" "c_string (t @ u) \<longleftrightarrow> c_string t \<and> c_string u"
  by (auto simp: c_string_def)

lemma c_string_take [simp]: "c_string t \<Longrightarrow> c_string (take n t)" and c_string_drop [simp]: "c_string t \<Longrightarrow> c_string (drop n t)"
  and c_string_butlast [simp]: "c_string t \<Longrightarrow> c_string (butlast t)"
  by (auto simp: c_string_def dest: in_set_takeD in_set_dropD in_set_butlastD)

lemma c_string_slice [simp]: "c_string t \<Longrightarrow> c_string (slice t a b)"
  by (simp add: slice_def)

lemma c_string_show_nat [simp]: "c_string (show_nat n)"
  using show_nat_all_digits [of n] by (auto simp: c_string_def digit_def less_eq_char_def)

lemma c_string_show_long [simp]: "c_string (show_long n)"
  by (simp add: show_long_def)

lemma c_strings_set_variable:
  assumes "csh_state_set_variable s name value w = (r, s', w')" and "c_strings s" and "\<And>v. value = Some v \<Longrightarrow> c_string v"
  shows "c_strings s'"
proof (cases "r = CSH_STATE_OK")
  case False
  with csh_state_set_variable_error [OF assms(1)] assms(2) show ?thesis by simp
next
  case True
  from assms(1) [unfolded True] show ?thesis
  proof (rule csh_state_set_variable_ok)
    fix n v
    assume "value = Some v" "s' = assigned s n v"
    with assms(2,3) variable_table.put_set show ?thesis by (fastforce simp: c_strings_def assigned_def)
  qed
qed

lemma c_strings_update_attributes:
  assumes "csh_state_update_attributes s name sets clears w = (r, s', w')" and "c_strings s"
  shows "c_strings s'"
proof (cases "r = CSH_STATE_OK")
  case False
  with csh_state_update_attributes_error [OF assms(1)] assms(2) show ?thesis by simp
next
  case True
  have "set (update_first P (\<lambda>x. x\<lparr>v_attributes := g x\<rparr>) vs) \<subseteq> set vs \<union> (\<lambda>x. x\<lparr>v_attributes := g x\<rparr>) ` set vs" for P g vs
    by (induction vs) auto
  then have up: "c_strings (s\<lparr>st_variables := update_first P (\<lambda>x. x\<lparr>v_attributes := g x\<rparr>) (st_variables s)\<rparr>)" for P g
    using assms(2) by (fastforce simp: c_strings_def)
  have put: "c_strings (s\<lparr>st_variables := put_head v_name \<lparr>v_name = n, v_value = None, v_attributes = a\<rparr> (st_variables s)\<rparr>)" for n a
    using assms(2) variable_table.put_set by (fastforce simp: c_strings_def)
  from assms(1) [unfolded True] show ?thesis
  proof (rule csh_state_update_attributes_ok)
    fix n
    assume old: "find_variable s n \<noteq> None \<Longrightarrow>
       s' = s\<lparr>st_variables := update_first (\<lambda>x. v_name x = n)
         (\<lambda>x. x\<lparr>v_attributes := (v_attributes x OR sets) AND NOT clears\<rparr>) (st_variables s)\<rparr>"
    and same: "find_variable s n = None \<Longrightarrow> sets AND NOT clears = 0 \<Longrightarrow> s' = s"
    and new: "find_variable s n = None \<Longrightarrow> sets AND NOT clears \<noteq> 0 \<Longrightarrow>
       s' = s\<lparr>st_variables := put_head v_name
         \<lparr>v_name = n, v_value = None, v_attributes = sets AND NOT clears\<rparr> (st_variables s)\<rparr>"
    show ?thesis
    proof (cases "find_variable s n = None")
      case False
      from up show ?thesis unfolding old [OF False] .
    next
      case True
      note none = True
      show ?thesis
      proof (cases "sets AND NOT clears = 0")
        case True
        from same [OF none True] assms(2) show ?thesis by simp
      next
        case False
        from put show ?thesis unfolding new [OF none False] .
      qed
    qed
  qed
qed

text \<open>A checkpoint of such a state is one, whatever became of its functions.\<close>

lemma set_function_frame:
  "csh_state_set_function c n f w = (r, c', w') \<Longrightarrow>
   st_variables c' = st_variables c \<and> st_arguments c' = st_arguments c \<and> st_arg0 c' = st_arg0 c"
  by (auto simp: csh_state_set_function_def split: option.splits if_splits prod.splits bool.splits)

lemma hash_set_frame:
  "csh_state_hash_set c n f w = (r, c', w') \<Longrightarrow>
   st_variables c' = st_variables c \<and> st_arguments c' = st_arguments c \<and> st_arg0 c' = st_arg0 c"
  by (auto simp: csh_state_hash_set_def split: option.splits if_splits prod.splits bool.splits)

lemma clone_functions_frame:
  "clone_functions fs c w = (b, c', w') \<Longrightarrow>
   st_variables c' = st_variables c \<and> st_arguments c' = st_arguments c \<and> st_arg0 c' = st_arg0 c"
proof (induction fs arbitrary: c w)
  case (Cons x xs)
  obtain r c1 w1 where x: "csh_state_set_function c (Some (f_name x)) (Some (f_value x)) w = (r, c1, w1)" by (rule prod_cases3)
  note frame = set_function_frame [OF x]
  show ?case
  proof (cases "r = CSH_STATE_OK")
    case True
    with Cons.prems x have "clone_functions xs c1 w1 = (b, c', w')" by simp
    from Cons.IH [OF this] frame show ?thesis by simp
  next
    case False
    with Cons.prems x have "c' = c1" by (cases r) simp_all
    with frame show ?thesis by simp
  qed
qed simp

lemma clone_hashes_frame:
  "clone_hashes hs c w = (b, c', w') \<Longrightarrow>
   st_variables c' = st_variables c \<and> st_arguments c' = st_arguments c \<and> st_arg0 c' = st_arg0 c"
proof (induction hs arbitrary: c w)
  case (Cons x xs)
  obtain r c1 w1 where x: "csh_state_hash_set c (v_name x) (v_value x) w = (r, c1, w1)" by (rule prod_cases3)
  note frame = hash_set_frame [OF x]
  show ?case
  proof (cases "r = CSH_STATE_OK")
    case True
    with Cons.prems x have "clone_hashes xs c1 w1 = (b, c', w')" by simp
    from Cons.IH [OF this] frame show ?thesis by simp
  next
    case False
    with Cons.prems x have "c' = c1" by (cases r) simp_all
    with frame show ?thesis by simp
  qed
qed simp

lemma clone_tables_frame:
  assumes "clone_tables s c w = (True, c', w')"
  shows "st_variables c' = st_variables c @ st_variables s \<and> st_arguments c' = st_arguments c \<and> st_arg0 c' = st_arg0 c"
proof -
  obtain c1 w1 c2 w2 al h where v: "clone_variables (st_variables s) c w = (True, c1, w1)"
    and f: "clone_functions (st_functions s) c1 w1 = (True, c2, w2)"
    and h: "clone_hashes (st_hashes s) (c2\<lparr>st_aliases := al\<rparr>) (w2\<lparr>mallocs := h\<rparr>) = (True, c', w')"
    using assms by (auto simp: clone_tables_def split: prod.splits bool.splits option.splits)
  show ?thesis using clone_variables_result [OF v] clone_functions_frame [OF f] clone_hashes_frame [OF h] by auto
qed

lemma c_strings_save:
  assumes "csh_state_save s w = (CSH_STATE_OK, cp, w')" and "c_strings s"
  shows "\<exists>c. cp = Some c \<and> c_strings c"
proof -
  obtain h a0 h1 c w1 c' w2 where a: "copy_bytes (st_arg0 s) h = (Some a0, h1)"
    and p: "csh_state_set_parameters (zero_state\<lparr>st_arg0 := a0\<rparr>) (map Some (take (si_argument_count (st_info s)) (st_arguments s)))
      (w\<lparr>mallocs := h1\<rparr>) = (CSH_STATE_OK, c, w1)"
    and t: "clone_tables s c w1 = (True, c', w2)"
    and cp: "cp = Some (c'\<lparr>st_manages_locale := st_manages_locale s, st_getopts_offset := st_getopts_offset s, st_info := st_info s\<rparr>)"
    using assms(1) by (auto simp: csh_state_save_def csh_state_clone_def split: prod.splits bool.splits option.splits csh_state_result.splits)
  have "st_variables c = [] \<and> st_arguments c = take (si_argument_count (st_info s)) (st_arguments s) \<and> st_arg0 c = a0"
    using csh_state_set_parameters_ok [OF p] by (auto simp: zero_state_def comp_def)
  moreover have "a0 = st_arg0 s" using a by (auto simp: copy_bytes_def split: if_splits prod.splits bool.splits)
  ultimately show ?thesis
    using assms(2) cp clone_tables_frame [OF t] by (auto simp: c_strings_def dest: in_set_takeD)
qed

subsection \<open>Arithmetic keeps them\<close>

definition strings_kept :: "arith_parser \<Rightarrow> arith_parser \<Rightarrow> bool" where
  "strings_kept p q \<longleftrightarrow> (c_strings (ap_state p) \<longrightarrow> c_strings (ap_state q))"

lemma assign_strings: "strings_kept p (assign p v x)"
proof -
  let ?n = "case av_name v of None \<Rightarrow> [] | Some n \<Rightarrow> n"
  obtain m q where c: "copy_name p ?n = (m, q)" by (rule prod.exhaust)
  then have q: "ap_state q = ap_state p" by (auto dest: copy_name_kept simp: state_kept_def)
  show ?thesis
  proof (cases m)
    case None
    with q show ?thesis by (simp add: assign_def c strings_kept_def)
  next
    case (Some name)
    obtain r s w where s: "csh_state_set_variable (ap_state q) (Some name) (Some (show_long x)) (ap_world q) = (r, s, w)"
      by (rule prod_cases3)
    obtain r' s' w' where u: "csh_state_update_attributes s (Some name) CSH_VAR_EXPORT 0 w = (r', s', w')"
      by (rule prod_cases3)
    have "ap_state (assign p v x) = s \<or> ap_state (assign p v x) = s'"
      by (simp add: assign_def c Some s u Let_def)
    with c_strings_set_variable [OF s] c_strings_update_attributes [OF u] q show ?thesis by (auto simp: strings_kept_def)
  qed
qed

lemma combine_strings:
  assumes "combine p k v l r e = (u, q)"
  shows "strings_kept p q"
proof -
  obtain n p1 where o: "operate p (if precedence k = 2 then assignment_operation k else k) l r = (n, p1)"
    by (rule prod.exhaust)
  moreover have "q = p \<or> q = p1 \<or> q = assign p v r \<or> q = assign p1 v n"
    using assms o by (auto simp: combine_def split: if_splits prod.splits)
  ultimately show ?thesis
    using operate_state [OF o] assign_strings [of p v r] assign_strings [of p1 v n] by (auto simp: strings_kept_def)
qed

interpretation strings: evaluator_contract "\<lambda>e. strings_kept" "\<lambda>_. True" "\<lambda>_. True"
  by unfold_locales
    (auto simp: strings_kept_def next_token_frame unexpected_def
      dest: stack_check_frame read_value_kept unary_kept combine_strings [unfolded strings_kept_def] simp: state_kept_def)

lemma run_strings:
  assumes "run p execute = Some (out, q)"
  shows "strings_kept p q"
  using assms
proof (rule run_result)
  fix v r
  assume "if ap_token (next_token p) = TOK_END then v = zero_value \<and> r = next_token p
       else expression (arith_fuel (ap_next p)) (next_token p) 1 execute = Some (v, r)"
  then have "strings_kept p r"
    using strings.expression_R [of _ "next_token p" 1 execute v r] by (auto simp: strings_kept_def next_token_frame split: if_splits)
  moreover assume "ap_error r \<noteq> CSH_ARITH_OK \<and> q = r \<and> out = None \<or>
     ap_error r = CSH_ARITH_OK \<and> ap_token r \<noteq> TOK_END \<and> q = r\<lparr>ap_error := CSH_ARITH_SYNTAX\<rparr> \<and> out = None \<or>
     ap_error r = CSH_ARITH_OK \<and> ap_token r = TOK_END \<and>
       (\<exists>n. read_value r v execute = (n, q) \<and> out = (if ap_error q = CSH_ARITH_OK then Some n else None))"
  ultimately show ?thesis using strings.read_R [of r v execute _ q] by (auto simp: strings_kept_def)
qed

lemma c_strings_arith:
  assumes "csh_arith_eval s t w checks = Some (r, out, s', w', u)" and "c_strings s"
  shows "c_strings s'"
  using assms(1)
proof (cases rule: csh_arith_eval_cases)
  case refused
  with assms(2) show ?thesis by simp
next
  case (evaluated h cp w1 x q)
  have "c_strings (ap_state q)"
    using run_strings [OF evaluated(3)] assms(2) by (simp add: strings_kept_def fresh_parser_def)
  moreover obtain c where "cp = Some c" "c_strings c" using c_strings_save [OF evaluated(2) assms(2)] by blast
  ultimately show ?thesis
    using evaluated(6) by (auto simp: csh_state_restore_def split: if_splits)
qed

subsection \<open>Spans that field splitting accepts\<close>

definition span_ok :: "csh_expand_span \<Rightarrow> bool" where
  "span_ok s \<longleftrightarrow>
     (\<exists>t. es_text s = Some t \<and> c_string t) \<and> (es_split s \<longrightarrow> es_quote s = CSH_QUOTE_NONE) \<and>
     (es_keep_empty s \<longrightarrow> es_quote s \<noteq> CSH_QUOTE_NONE)"

definition out_ok :: "expand_out \<Rightarrow> bool" where
  "out_ok out \<longleftrightarrow> (\<forall>spans\<in>set out. \<forall>s\<in>set spans. span_ok s)"

text \<open>The state and the output together.\<close>

definition sound :: "csh_expand_result \<times> expand_out \<times> expand_work \<Rightarrow> bool" where
  "sound x \<longleftrightarrow> out_ok (fst (snd x)) \<and> c_strings (xw_state (snd (snd x)))"

definition kept :: "(csh_expand_result \<times> expand_out \<times> expand_work) option \<Rightarrow> bool" where
  "kept x \<longleftrightarrow> (case x of None \<Rightarrow> True | Some y \<Rightarrow> sound y)"

lemma sound_simps [simp]: "sound (r, out, w) \<longleftrightarrow> out_ok out \<and> c_strings (xw_state w)"
  and kept_simps [simp]: "kept None" "kept (Some y) \<longleftrightarrow> sound y"
  by (simp_all add: sound_def kept_def)

lemma out_ok_simps [simp]:
  "out_ok []" "out_ok (spans # out) \<longleftrightarrow> (\<forall>s\<in>set spans. span_ok s) \<and> out_ok out"
  "out_ok (out @ out') \<longleftrightarrow> out_ok out \<and> out_ok out'"
  by (auto simp: out_ok_def)

lemma append_last_ok:
  "out \<noteq> [] \<Longrightarrow> out_ok out \<Longrightarrow> span_ok s \<Longrightarrow> out_ok (butlast out @ [last out @ [s]])"
  by (auto simp: out_ok_def dest: in_set_butlastD)

lemma xw_malloc_frame:
  "xw_malloc w = (b, w') \<Longrightarrow> xw_state w' = xw_state w \<and> xw_checks w' = xw_checks w \<and> xw_error w' = xw_error w \<and>
   locale_now (xw_world w') = locale_now (xw_world w)"
  by (auto simp: xw_malloc_def split: prod.splits)

lemma new_field_cases:
  assumes "new_field out w = (r, out', w')"
  shows "xw_state w' = xw_state w \<and> xw_checks w' = xw_checks w \<and> xw_error w' = xw_error w \<and>
    locale_now (xw_world w') = locale_now (xw_world w) \<and>
    (r = CSH_EXPAND_OK \<and> out' = out @ [[]] \<or> r = CSH_EXPAND_NOMEM \<and> out' = out)"
proof -
  obtain b w1 where "xw_malloc w = (b, w1)" by (rule prod.exhaust)
  with assms xw_malloc_frame [OF this] show ?thesis by (cases b) (auto simp: new_field_def split: if_splits)
qed

text \<open>What appending a span returns: the output with the span in its last field, or \<open>NOMEM\<close>.\<close>

lemma append_span_cases:
  assumes "append_span context out bytes quote origin keep w = (r, out', w')"
  shows "xw_state w' = xw_state w \<and> xw_checks w' = xw_checks w \<and> xw_error w' = xw_error w \<and>
    locale_now (xw_world w') = locale_now (xw_world w) \<and>
    (r = CSH_EXPAND_OK \<and>
      out' = butlast (if out = [] then [[]] else out) @
        [last (if out = [] then [[]] else out) @ [make_span context bytes quote origin keep]] \<or>
     r = CSH_EXPAND_NOMEM \<and> (out' = out \<or> out = [] \<and> out' = [[]]))"
proof -
  obtain r1 out1 w1 where a: "(if out = [] then new_field out w else (CSH_EXPAND_OK, out, w)) = (r1, out1, w1)"
    by (rule prod_cases3)
  have w1: "xw_state w1 = xw_state w \<and> xw_checks w1 = xw_checks w \<and> xw_error w1 = xw_error w \<and>
      locale_now (xw_world w1) = locale_now (xw_world w)"
    and out1: "r1 = CSH_EXPAND_OK \<Longrightarrow> out1 = (if out = [] then [[]] else out)" "r1 \<noteq> CSH_EXPAND_OK \<Longrightarrow> out1 = out"
    using a new_field_cases [of out w r1 out1 w1] by (auto split: if_splits)
  obtain b w2 where b: "xw_malloc w1 = (b, w2)" by (rule prod.exhaust)
  obtain c w3 where c: "xw_malloc w2 = (c, w3)" by (rule prod.exhaust)
  have w3: "xw_state w2 = xw_state w1 \<and> xw_checks w2 = xw_checks w1 \<and> xw_error w2 = xw_error w1 \<and>
      locale_now (xw_world w2) = locale_now (xw_world w1)" "xw_state w3 = xw_state w1 \<and> xw_checks w3 = xw_checks w1 \<and>
      xw_error w3 = xw_error w1 \<and> locale_now (xw_world w3) = locale_now (xw_world w1)"
    using xw_malloc_frame [OF b] xw_malloc_frame [OF c] by simp_all
  show ?thesis
  proof (cases "length bytes = SIZE_MAX")
    case True
    with assms show ?thesis by (simp add: append_span_def)
  next
    case False
    show ?thesis
    proof (cases "r1 = CSH_EXPAND_OK")
      case True
      with assms False a out1(1) w1 w3 show ?thesis
        by (cases b; cases c) (auto simp: append_span_def b c split: if_splits)
    next
      case r1: False
      with assms False a have "r = CSH_EXPAND_NOMEM \<and> out' = out1 \<and> w' = w1"
        by (cases r1) (auto simp: append_span_def)
      with out1(2) [OF r1] w1 show ?thesis by simp
    qed
  qed
qed

lemma make_span_ok: "c_string bytes \<Longrightarrow> (keep \<Longrightarrow> quote \<noteq> CSH_QUOTE_NONE) \<Longrightarrow> span_ok (make_span context bytes quote origin keep)"
  by (auto simp: make_span_def span_ok_def)

lemma append_span_sound:
  assumes "append_span context out bytes quote origin keep w = (r, out', w')" "out_ok out" "c_string bytes"
    "keep \<Longrightarrow> quote \<noteq> CSH_QUOTE_NONE"
  shows "out_ok out' \<and> xw_state w' = xw_state w"
proof -
  have "out_ok (butlast (if out = [] then [[]] else out) @
        [last (if out = [] then [[]] else out) @ [make_span context bytes quote origin keep]])"
    using assms(2) make_span_ok [OF assms(3), of keep quote "context" origin, OF assms(4)] append_last_ok [of out "make_span context bytes quote origin keep"]
    by (cases "out = []") simp_all
  with append_span_cases [OF assms(1)] assms(2) show ?thesis by auto
qed

lemma scalar_sound:
  "scalar context out t quote origin w = (r, out', w') \<Longrightarrow> out_ok out \<Longrightarrow> c_string t \<Longrightarrow> out_ok out' \<and> xw_state w' = xw_state w"
  unfolding scalar_def by (rule append_span_sound)

lemma scalar_kept [intro]: "out_ok out \<Longrightarrow> c_string t \<Longrightarrow> c_strings (xw_state w) \<Longrightarrow> sound (scalar context out t quote origin w)"
  by (cases "scalar context out t quote origin w") (auto dest: scalar_sound)

lemma append_span_kept [intro]:
  "out_ok out \<Longrightarrow> c_string t \<Longrightarrow> c_strings (xw_state w) \<Longrightarrow> (keep \<Longrightarrow> quote \<noteq> CSH_QUOTE_NONE) \<Longrightarrow>
   sound (append_span context out t quote origin keep w)"
  by (cases "append_span context out t quote origin keep w") (auto dest: append_span_sound)

lemma expand_fail_state [simp]: "xw_state (snd (expand_fail word r i m w)) = xw_state w"
  "fst (expand_fail word r i m w) = r"
  by (simp_all add: expand_fail_def)

lemma out_ok_bytes: "out_ok out \<Longrightarrow> c_string (expansion_bytes out)"
  by (fastforce simp: out_ok_def expansion_bytes_def c_string_def span_ok_def)

lemma flatten_sound:
  "flatten out w = (t, w') \<Longrightarrow> out_ok out \<Longrightarrow> xw_state w' = xw_state w \<and> (\<forall>x. t = Some x \<longrightarrow> c_string x)"
  by (auto simp: flatten_def out_ok_bytes split: if_splits prod.splits bool.splits dest: xw_malloc_frame)

subsection \<open>Parameters\<close>

lemma get_variable_string:
  assumes "c_strings s" "view_value (snd (csh_state_get_variable s n)) = Some v"
  shows "c_string v"
proof -
  have "\<exists>x\<in>set (st_variables s). v_value x = Some v"
    using assms(2) by (auto simp: csh_state_get_variable_def no_view_def find_variable_def split: option.splits if_splits
      dest!: lookup_by_SomeD)
  with assms(1) show ?thesis by (auto simp: c_strings_def)
qed

lemma parameter_string: "c_strings s \<Longrightarrow> csh_state_parameter s i = Some v \<Longrightarrow> c_string v"
  by (auto simp: c_strings_def csh_state_parameter_def split: if_splits intro!: nth_mem)

lemma separator_string: "c_strings (xw_state w) \<Longrightarrow> c_string (separator xh w)"
  by (auto simp: separator_def split: option.splits dest: get_variable_string)

lemma join_parameters_sound:
  "join_parameters context quote sep first as out w = (r, out', w') \<Longrightarrow> out_ok out \<Longrightarrow> c_string sep \<Longrightarrow>
   \<forall>a\<in>set as. c_string a \<Longrightarrow> out_ok out' \<and> xw_state w' = xw_state w"
proof (induction as arbitrary: first out w)
  case (Cons a as)
  obtain r1 out1 w1 where s: "(if first then (CSH_EXPAND_OK, out, w)
      else append_span context out sep quote CSH_EXPAND_PARAMETER (quote \<noteq> CSH_QUOTE_NONE) w) = (r1, out1, w1)"
    by (rule prod_cases3)
  obtain r2 out2 w2 where t: "scalar context out1 a quote CSH_EXPAND_PARAMETER w1 = (r2, out2, w2)" by (rule prod_cases3)
  have 1: "out_ok out1 \<and> xw_state w1 = xw_state w"
    using s Cons.prems(2,3) by (auto split: if_splits dest: append_span_sound)
  then have 2: "out_ok out2 \<and> xw_state w2 = xw_state w" using scalar_sound [OF t] Cons.prems(4) by simp
  show ?case
  proof (cases "r1 = CSH_EXPAND_OK \<and> r2 = CSH_EXPAND_OK")
    case True
    with Cons.prems(1) s t have "join_parameters context quote sep False as out2 w2 = (r, out', w')" by simp
    from Cons.IH [OF this] 2 Cons.prems(3,4) show ?thesis by simp
  next
    case False
    with Cons.prems(1) s t have "(out', w') = (out1, w1) \<or> (out', w') = (out2, w2)"
      by (cases r1; cases r2) auto
    with 1 2 show ?thesis by auto
  qed
qed simp

lemma field_parameters_sound:
  "field_parameters context quote first as out w = (r, out', w') \<Longrightarrow> out_ok out \<Longrightarrow>
   \<forall>a\<in>set as. c_string a \<Longrightarrow> out_ok out' \<and> xw_state w' = xw_state w"
proof (induction as arbitrary: first out w)
  case (Cons a as)
  obtain r1 out1 w1 where s: "(if first then (CSH_EXPAND_OK, out, w) else new_field out w) = (r1, out1, w1)"
    by (rule prod_cases3)
  obtain r2 out2 w2 where t: "scalar context out1 a quote CSH_EXPAND_PARAMETER w1 = (r2, out2, w2)" by (rule prod_cases3)
  have 1: "out_ok out1 \<and> xw_state w1 = xw_state w"
    using s Cons.prems(2) new_field_cases [of out w r1 out1 w1] by (auto split: if_splits)
  then have 2: "out_ok out2 \<and> xw_state w2 = xw_state w" using scalar_sound [OF t] Cons.prems(3) by simp
  show ?case
  proof (cases "r1 = CSH_EXPAND_OK \<and> r2 = CSH_EXPAND_OK")
    case True
    with Cons.prems(1) s t have "field_parameters context quote False as out2 w2 = (r, out', w')" by simp
    from Cons.IH [OF this] 2 Cons.prems(3) show ?thesis by simp
  next
    case False
    with Cons.prems(1) s t have "(out', w') = (out1, w1) \<or> (out', w') = (out2, w2)"
      by (cases r1; cases r2) auto
    with 1 2 show ?thesis by auto
  qed
qed simp

lemma all_parameters_strings: "c_strings s \<Longrightarrow> \<forall>a\<in>set (all_parameters s). c_string a"
  by (auto simp: all_parameters_def split: option.splits dest: parameter_string)

lemma positional_sound:
  assumes "out_ok out" "c_strings (xw_state w)"
  shows "sound (positional xh context out star quote w)"
proof (cases "context \<noteq> CSH_EXPAND_ARGUMENT \<or> (star \<and> quote \<noteq> CSH_QUOTE_NONE)")
  case True
  obtain r1 out1 w1 where s: "scalar context out [] quote CSH_EXPAND_PARAMETER w = (r1, out1, w1)" by (rule prod_cases3)
  note 1 = scalar_sound [OF s assms(1)]
  obtain r2 out2 w2 where j: "join_parameters context quote (separator xh w1) True (all_parameters (xw_state w1)) out1 w1 = (r2, out2, w2)"
    by (rule prod_cases3)
  have "out_ok out2 \<and> xw_state w2 = xw_state w1"
    using join_parameters_sound [OF j] 1 assms(2) separator_string [of w1 xh] all_parameters_strings [of "xw_state w1"] by simp
  with 1 True s j assms(2) show ?thesis by (cases r1) (auto simp: positional_def)
next
  case False
  obtain r2 out2 w2 where j: "field_parameters context quote True (all_parameters (xw_state w)) out w = (r2, out2, w2)"
    by (rule prod_cases3)
  from field_parameters_sound [OF j assms(1) all_parameters_strings [OF assms(2)]] False j assms(2)
  show ?thesis by (auto simp: positional_def)
qed

lemma option_flags_string [simp]: "c_string (option_flags options)"
  by (auto simp: option_flags_def c_string_def CSH_OPTION_LIST_def split: if_splits)

lemma parameter_lookup_string: "c_strings s \<Longrightarrow> parameter_lookup s name = Inr (Some v) \<Longrightarrow> c_string v"
  using get_variable_string [of s "Some name" v] parameter_string [of s _ v]
  by (auto simp: parameter_lookup_def Let_def split: list.splits if_splits prod.splits csh_state_result.splits)

lemma parameter_value_sound:
  assumes "parameter_value name w = (r, v, b, w')" "c_strings (xw_state w)"
  shows "xw_state w' = xw_state w \<and> (\<forall>t. v = Some t \<longrightarrow> c_string t)"
proof (cases "parameter_lookup (xw_state w) name")
  case (Inl e)
  with assms show ?thesis by (simp add: parameter_value_def)
next
  case (Inr x)
  obtain copy h where c: "copy_bytes (case x of None \<Rightarrow> [] | Some t \<Rightarrow> t) (mallocs (xw_world w)) = (copy, h)" by (rule prod.exhaust)
  then have "copy = None \<or> copy = Some (case x of None \<Rightarrow> [] | Some t \<Rightarrow> t)"
    by (auto simp: copy_bytes_def split: if_splits prod.splits bool.splits)
  with assms Inr c parameter_lookup_string [OF assms(2)] show ?thesis
    by (auto simp: parameter_value_def split: option.splits)
qed

lemma expand_assign_strings:
  assumes "expand_assign name v w = (r, w')" "c_strings (xw_state w)" "c_string v"
  shows "c_strings (xw_state w')"
proof -
  obtain r1 s1 wo1 where s: "csh_state_set_variable (xw_state w) (Some name) (Some v) (xw_world w) = (r1, s1, wo1)"
    by (rule prod_cases3)
  obtain r2 s2 wo2 where u: "csh_state_update_attributes s1 (Some name) CSH_VAR_EXPORT 0 wo1 = (r2, s2, wo2)"
    by (rule prod_cases3)
  have "c_strings s1" using c_strings_set_variable [OF s assms(2)] assms(3) by simp
  moreover from c_strings_update_attributes [OF u this] have "c_strings s2" .
  moreover have "xw_state w' = s1 \<or> xw_state w' = s2"
    using assms(1) by (auto simp: expand_assign_def s u Let_def split: if_splits)
  ultimately show ?thesis by auto
qed

text \<open>The places at which a value can be cut: between characters. The search visits them from the left.\<close>

function splits :: "ctype \<Rightarrow> string \<Rightarrow> string \<Rightarrow> (string \<times> string) list" where
  "splits cx pre post =
     (pre, post) # (if post = [] then [] else splits cx (pre @ take (character_bytes cx post) post) (drop (character_bytes cx post) post))"
  by pat_completeness auto
termination
  by (relation "measure (\<lambda>(cx, pre, post). length post)") (use character_bytes_pos in auto)

declare splits.simps [simp del]

lemma splits_parts: "(a, b) \<in> set (splits cx pre post) \<Longrightarrow> a @ b = pre @ post"
proof (induction cx pre post rule: splits.induct)
  case (1 cx pre post)
  from "1.prems" show ?case
    by (subst (asm) splits.simps) (use "1.IH" in \<open>auto split: if_splits\<close>)
qed

lemma remove_scan_splits:
  "remove_scan cx matches suffix longest pre post selected =
     (let found = filter (\<lambda>(a, b). matches (if suffix then b else a)) (splits cx pre post)
      in if found = [] then selected else Some (if suffix = longest then hd found else last found))"
proof (induction cx matches suffix longest pre post selected rule: remove_scan.induct)
  case (1 cx matches suffix longest pre post selected)
  let ?m = "matches (if suffix then post else pre)"
  show ?case
  proof (cases "?m \<and> suffix = longest \<or> post = []")
    case True
    then show ?thesis by (subst remove_scan.simps, subst splits.simps) (auto simp: Let_def)
  next
    case False
    let ?n = "character_bytes cx post"
    have ih: "remove_scan cx matches suffix longest (pre @ take ?n post) (drop ?n post) (if ?m then Some (pre, post) else selected) =
        (let found = filter (\<lambda>(a, b). matches (if suffix then b else a)) (splits cx (pre @ take ?n post) (drop ?n post))
         in if found = [] then if ?m then Some (pre, post) else selected
            else Some (if suffix = longest then hd found else last found))"
      by (rule "1.IH") (use False in auto)
    have "remove_scan cx matches suffix longest pre post selected =
        remove_scan cx matches suffix longest (pre @ take ?n post) (drop ?n post) (if ?m then Some (pre, post) else selected)"
      using False by (subst remove_scan.simps) (auto simp: Let_def)
    moreover have "splits cx pre post = (pre, post) # splits cx (pre @ take ?n post) (drop ?n post)"
      using False by (subst splits.simps) simp
    ultimately show ?thesis
      unfolding ih Let_def using False by (cases suffix; cases longest; cases ?m) simp_all
  qed
qed

lemma remove_pattern_string:
  assumes "c_string v"
  shows "c_string (remove_pattern xh w v pattern suffix longest)"
proof (cases "remove_scan (xw_ctype xh w) (xh_fnmatch xh pattern) suffix longest [] v None")
  case None
  with assms show ?thesis by (simp add: remove_pattern_def)
next
  case (Some x)
  obtain a b where x: "x = (a, b)" by (rule prod.exhaust)
  let ?found = "filter (\<lambda>(a, b). xh_fnmatch xh pattern (if suffix then b else a)) (splits (xw_ctype xh w) [] v)"
  from Some x have "?found \<noteq> []" "(a, b) = hd ?found \<or> (a, b) = last ?found"
    by (auto simp: remove_scan_splits Let_def split: if_splits)
  then have "(a, b) \<in> set ?found" using hd_in_set last_in_set by metis
  then have "a @ b = v" by (auto dest: splits_parts)
  with assms Some x show ?thesis by (auto simp: remove_pattern_def)
qed

lemma pattern_text_state: "pattern_text xh out w = (r, p, w') \<Longrightarrow> xw_state w' = xw_state w"
  by (auto simp: pattern_text_def Let_def split: prod.splits if_splits list.splits bool.splits dest: xw_malloc_frame)

subsection \<open>The prepared word\<close>

text \<open>What \<open>prepare\<close> establishes: every fragment has a later end and lies in the word, decoded texts and the
  word are C strings.\<close>

definition prepared_ok :: "prepared_word \<Rightarrow> bool" where
  "prepared_ok pw \<longleftrightarrow>
     (let n = length (tk_fragments (pw_word pw))
      in n < CSH_FRAGMENT_ROOT \<and> length (pw_next pw) = n \<and> (\<forall>i<n. i < pw_next pw ! i \<and> pw_next pw ! i \<le> n) \<and>
         length (pw_decoded pw) = n \<and> (\<forall>t. Some t \<in> set (pw_decoded pw) \<longrightarrow> c_string t) \<and>
         c_string (tk_raw (pw_word pw)) \<and>
         (\<forall>f\<in>set (tk_fragments (pw_word pw)). fr_end f \<le> length (tk_raw (pw_word pw))))"

abbreviation fragments :: "prepared_word \<Rightarrow> nat" where
  "fragments pw \<equiv> length (tk_fragments (pw_word pw))"

lemma chain_range:
  assumes "prepared_ok pw" "limit \<le> fragments pw"
  shows "chain fuel (pw_next pw) i limit = Some js \<Longrightarrow> \<forall>j\<in>set js. i \<le> j \<and> j < limit"
proof (induction fuel arbitrary: i js)
  case 0
  then show ?case by (simp split: if_splits)
next
  case (Suc fuel)
  show ?case
  proof (cases "i < limit")
    case True
    with Suc.prems obtain ks where ks: "chain fuel (pw_next pw) (pw_next pw ! i) limit = Some ks" "js = i # ks" by auto
    have "i < pw_next pw ! i" using assms True by (auto simp: prepared_ok_def Let_def)
    with Suc.IH [OF ks(1)] ks(2) True show ?thesis by auto
  next
    case False
    with Suc.prems show ?thesis by simp
  qed
qed

lemma chain_enough:
  assumes "prepared_ok pw" "limit \<le> fragments pw"
  shows "limit \<le> i + fuel \<Longrightarrow> chain fuel (pw_next pw) i limit \<noteq> None"
proof (induction fuel arbitrary: i)
  case (Suc fuel)
  have "i < limit \<Longrightarrow> i < pw_next pw ! i" using assms by (auto simp: prepared_ok_def Let_def)
  with Suc.IH [of "pw_next pw ! i"] Suc.prems show ?case by force
qed simp

definition inside :: "prepared_word \<Rightarrow> nat \<Rightarrow> bool" where
  "inside pw parent \<longleftrightarrow> parent = CSH_FRAGMENT_ROOT \<or> parent < fragments pw"

lemma children_total:
  assumes "prepared_ok pw" "inside pw parent"
  shows "children pw parent \<noteq> None"
proof -
  have "(if parent = CSH_FRAGMENT_ROOT then fragments pw else pw_next pw ! parent) \<le> fragments pw"
    using assms by (auto simp: prepared_ok_def Let_def inside_def)
  from chain_enough [OF assms(1) this, of _ "fragments pw"] this show ?thesis by (simp add: children_def Let_def del: not_None_eq)
qed

lemma children_range:
  assumes "prepared_ok pw" "inside pw parent" "children pw parent = Some is"
  shows "\<forall>i\<in>set is. i < fragments pw \<and> (parent \<noteq> CSH_FRAGMENT_ROOT \<longrightarrow> parent < i)"
proof -
  let ?limit = "if parent = CSH_FRAGMENT_ROOT then fragments pw else pw_next pw ! parent"
  have "?limit \<le> fragments pw"
    using assms by (auto simp: prepared_ok_def Let_def inside_def)
  from chain_range [OF assms(1) this, of "fragments pw"] assms(3) this show ?thesis
    by (fastforce simp: children_def Let_def)
qed

lemma decoded_string:
  assumes "prepared_ok pw" "i < fragments pw" "pw_decoded pw ! i = Some t"
  shows "c_string t"
proof -
  have "i < length (pw_decoded pw)" using assms(1,2) by (simp add: prepared_ok_def Let_def)
  with assms(3) have "Some t \<in> set (pw_decoded pw)" by (metis nth_mem)
  with assms(1) show ?thesis by (simp add: prepared_ok_def Let_def)
qed

lemma raw_string: "prepared_ok pw \<Longrightarrow> c_string (tk_raw (pw_word pw))"
  by (simp add: prepared_ok_def Let_def)

subsection \<open>Every expansion keeps the spans acceptable\<close>

text \<open>What the host guarantees: home directories are C strings, and commands leave the state with C strings.\<close>

definition host_strings :: "expand_host \<Rightarrow> bool" where
  "host_strings xh \<longleftrightarrow>
     (\<forall>name home. xh_getpwnam xh name = Some home \<longrightarrow> c_string home) \<and>
     (\<forall>f s wo word i r b s' wo' e. xh_substitute xh = Some f \<and> f s wo word i = (r, b, s', wo', e) \<and> c_strings s \<longrightarrow> c_strings s')"

definition range_kept :: "range_function \<Rightarrow> nat \<Rightarrow> bool" where
  "range_kept rng i \<longleftrightarrow>
     (\<forall>b e context out origin t c w. out_ok out \<longrightarrow> c_strings (xw_state w) \<longrightarrow> kept (rng i b e context out origin t c w))"

lemma range_keptD:
  "range_kept rng i \<Longrightarrow> rng i b e context out origin t c w = Some (r, out', w') \<Longrightarrow> out_ok out \<Longrightarrow> c_strings (xw_state w) \<Longrightarrow>
   out_ok out' \<and> c_strings (xw_state w')"
  unfolding range_kept_def by (metis kept_simps(2) sound_simps)

lemma expand_done_kept: "kept x \<Longrightarrow> kept (map_option (expand_done word index m) x)"
  by (cases x) (auto simp: expand_done_def expand_fail_def split: prod.splits)

lemma expand_modifier_kept:
  assumes rng: "range_kept rng index" and ok: "out_ok out" "c_strings (xw_state w)" "c_string value"
  shows "kept (expand_modifier rng xh word index pf op stop quote value is_set context out w)"
proof -
  let ?rng = "rng index (pf_operand pf) stop CSH_EXPAND_ASSIGNMENT [] CSH_EXPAND_PARAMETER True False w"
  have word_case: "kept (case ?rng of
      None \<Rightarrow> None
    | Some (CSH_EXPAND_OK, expanded, w) \<Rightarrow>
        (case flatten expanded w of
           (None, w) \<Rightarrow> Some (CSH_EXPAND_NOMEM, out, w)
         | (Some text, w) \<Rightarrow>
             if op = CHR ''?'' then
               (case expand_fail word CSH_EXPAND_UNSET index
                       (if pf_operand pf = stop then ''parameter is unset or empty'' else text) w of
                  (r, w) \<Rightarrow> Some (r, out, w))
             else
               (case expand_assign (pf_name pf) text w of
                  (CSH_EXPAND_OK, w) \<Rightarrow> Some (scalar context out text quote CSH_EXPAND_PARAMETER w)
                | (r, w) \<Rightarrow> Some (r, out, w)))
    | Some (r, _, w) \<Rightarrow> Some (r, out, w))"
  proof (cases ?rng)
    case None
    then show ?thesis by simp
  next
    case (Some x)
    obtain r expanded w1 where x: "x = (r, expanded, w1)" by (rule prod_cases3)
    note 1 = range_keptD [OF rng Some [unfolded x] _ ok(2)]
    obtain t w2 where f: "flatten expanded w1 = (t, w2)" by (rule prod.exhaust)
    note 2 = flatten_sound [OF f]
    show ?thesis
    proof (cases "r = CSH_EXPAND_OK \<and> t \<noteq> None")
      case False
      with Some x f 1 2 ok show ?thesis by (cases r; cases t) simp_all
    next
      case True
      then obtain text' where t: "t = Some text'" by auto
      obtain r3 w3 where a: "expand_assign (pf_name pf) text' w2 = (r3, w3)" by (rule prod.exhaust)
      have "c_strings (xw_state w3)" using expand_assign_strings [OF a] 1 2 t by simp
      with True Some x f t a 1 2 ok show ?thesis
        by (cases r3) (auto simp: expand_fail_def)
    qed
  qed
  show ?thesis
    using rng ok word_case by (auto simp: expand_modifier_def Let_def range_kept_def)
qed

lemma kept_if: "kept x \<Longrightarrow> kept y \<Longrightarrow> kept (if b then x else y)"
  and kept_option: "kept x \<Longrightarrow> (\<And>a. kept (f a)) \<Longrightarrow> kept (case opt of None \<Rightarrow> x | Some a \<Rightarrow> f a)"
  by (auto split: option.splits)

lemma expand_value_kept:
  assumes rng: "range_kept rng index" and ok: "out_ok out" "c_strings (xw_state w)"
  shows "kept (expand_value rng xh word index h pf quote context out w)"
proof -
  obtain r v is_set w1 where p: "parameter_value (pf_name pf) w = (r, v, is_set, w1)" by (rule prod_cases4)
  note 1 = parameter_value_sound [OF p ok(2)]
  define t where "t = (case v of None \<Rightarrow> [] | Some x \<Rightarrow> x)"
  have t: "c_string t" using 1 by (auto simp: t_def split: option.splits)
  have w1: "c_strings (xw_state w1)" using 1 ok by simp
  let ?rng = "rng index (pf_operand pf) (ph_stop h) CSH_EXPAND_PATTERN [] CSH_EXPAND_PARAMETER True False w1"
  have pattern: "kept (case ?rng of
      None \<Rightarrow> None
    | Some (CSH_EXPAND_OK, expanded, w) \<Rightarrow>
        (case pattern_text xh expanded w of
           (CSH_EXPAND_OK, pattern, w) \<Rightarrow>
             Some (scalar context out (remove_pattern xh w t pattern suffix (pf_longest pf)) quote CSH_EXPAND_PARAMETER w)
         | (r, _, w) \<Rightarrow> Some (r, out, w))
    | Some (r, _, w) \<Rightarrow> Some (r, out, w))" for suffix
  proof (cases ?rng)
    case (Some x)
    obtain r1 expanded w2 where x: "x = (r1, expanded, w2)" by (rule prod_cases3)
    note 2 = range_keptD [OF rng Some [unfolded x] _ w1]
    obtain r2 pat w3 where q: "pattern_text xh expanded w2 = (r2, pat, w3)" by (rule prod_cases3)
    note 3 = pattern_text_state [OF q]
    have "sound (scalar context out (remove_pattern xh w3 t pat suffix (pf_longest pf)) quote CSH_EXPAND_PARAMETER w3)"
      using ok 2 3 t by (intro scalar_kept) (auto intro: remove_pattern_string)
    with Some x q 2 3 ok show ?thesis by (cases r1; cases r2) simp_all
  qed simp
  show ?thesis
  proof (cases "r = CSH_EXPAND_OK")
    case True
    have "kept (Some (scalar context out (show_nat n) quote CSH_EXPAND_PARAMETER w1))" for n
      using ok w1 by (simp add: scalar_kept)
    moreover have "kept (Some (scalar context out t quote CSH_EXPAND_PARAMETER w1))"
      using ok w1 t by (simp add: scalar_kept)
    moreover have "kept (expand_modifier rng xh word index pf op (ph_stop h) quote t is_set context out w1)" for op
      using expand_modifier_kept [OF rng ok(1) w1 t] .
    moreover have "kept (case expand_fail word CSH_EXPAND_UNSET index (pf_name pf) w1 of (r, w) \<Rightarrow> Some (r, out, w))"
      using ok w1 by (simp add: expand_fail_def)
    ultimately show ?thesis
      unfolding expand_value_def p prod.case True csh_expand_result.case t_def [symmetric] Let_def
      by (intro kept_if kept_option pattern)
  next
    case False
    with p w1 ok show ?thesis by (cases r) (simp_all add: expand_value_def)
  qed
qed

lemma expand_parameter_kept:
  assumes rng: "range_kept rng index" and ok: "out_ok out" "c_strings (xw_state w)"
  shows "kept (expand_parameter rng xh pw index context out w)"
proof -
  obtain b w1 where m: "xw_malloc w = (b, w1)" by (rule prod.exhaust)
  have w1: "c_strings (xw_state w1)" using xw_malloc_frame [OF m] ok by simp
  show ?thesis
    unfolding expand_parameter_def Let_def m prod.case
    by (rule expand_done_kept)
      (use ok w1 expand_value_kept [OF rng ok(1) w1] positional_sound [OF ok(1) w1] in
        \<open>auto split: bool.splits option.splits\<close>)
qed

lemma expand_arithmetic_kept:
  assumes rng: "range_kept rng index" and ok: "out_ok out" "c_strings (xw_state w)"
  shows "kept (expand_arithmetic rng xh pw index context out w)"
proof (cases "trim_delimiters (pw_word pw) (fr_begin (tk_fragments (pw_word pw) ! index)) (fr_end (tk_fragments (pw_word pw) ! index)) 2")
  case None
  with ok show ?thesis by (simp add: expand_arithmetic_def Let_def)
next
  case (Some stop)
  let ?f = "tk_fragments (pw_word pw) ! index"
  let ?rng = "rng index (after_opening (pw_word pw) (fr_begin ?f) stop) stop CSH_EXPAND_ASSIGNMENT [] CSH_EXPAND_LITERAL False False w"
  show ?thesis
    unfolding expand_arithmetic_def Let_def Some option.case
  proof (rule expand_done_kept, cases ?rng, goal_cases)
    case 1
    then show ?case by simp
  next
    case (2 x)
    obtain r expanded w1 where x: "x = (r, expanded, w1)" by (rule prod_cases3)
    note 1 = range_keptD [OF rng 2 [unfolded x] _ ok(2)]
    obtain t w2 where f: "flatten expanded w1 = (t, w2)" by (rule prod.exhaust)
    note 3 = flatten_sound [OF f]
    show ?case
    proof (cases "r = CSH_EXPAND_OK \<and> t \<noteq> None")
      case False
      with 2 x f 1 3 ok show ?thesis by (cases r; cases t) simp_all
    next
      case True
      then obtain t' where t: "t = Some t'" by auto
      let ?cs = "case xw_arith_checks w2 of [] \<Rightarrow> [] | c # cs \<Rightarrow> c"
      show ?thesis
      proof (cases "csh_arith_eval (xw_state w2) (Some t') (xw_world w2) ?cs")
        case None
        with True 2 x f t show ?thesis by simp
      next
        case (Some y)
        obtain arith v s wo u where y: "y = (arith, v, s, wo, u)" by (metis prod_cases5)
        have s: "c_strings s" using c_strings_arith [OF Some [unfolded y]] 1 3 by simp
        let ?w = "w2\<lparr>xw_state := s, xw_world := wo, xw_arith_checks := tl (xw_arith_checks w2)\<rparr>"
        have "sound (scalar context out (show_long (case v of None \<Rightarrow> 0 | Some v \<Rightarrow> v)) (fr_quote ?f) CSH_EXPAND_ARITHMETIC ?w)"
          using ok s by (intro scalar_kept) auto
        with True 2 x f t Some y s ok show ?thesis by (simp add: expand_fail_def)
      qed
    qed
  qed
qed

lemma substitution_kept:
  assumes host: "host_strings xh" and ok: "out_ok out" "c_strings (xw_state w)"
  shows "sound (substitution xh pw index context out w)"
proof (cases "xh_substitute xh")
  case None
  with ok show ?thesis by (simp add: substitution_def Let_def expand_fail_def)
next
  case (Some f)
  obtain r b s wo e where run: "f (xw_state w) (xw_world w) (pw_word pw) index = (r, b, s, wo, e)" by (metis prod_cases5)
  with host Some ok have s: "c_strings s" unfolding host_strings_def by blast
  let ?q = "fr_quote (tk_fragments (pw_word pw) ! index)"
  have "c_string t \<Longrightarrow> sound (append_span context out t ?q CSH_EXPAND_SUBSTITUTION (?q \<noteq> CSH_QUOTE_NONE)
      (w\<lparr>xw_state := s, xw_world := wo, xw_error := e\<rparr>))" for t
    using ok s by (intro append_span_kept) auto
  with Some run s ok show ?thesis
    by (cases b) (auto simp: substitution_def Let_def expand_fail_def c_string_def)
qed

lemma tilde_prefix_kept:
  assumes host: "host_strings xh" and ok: "out_ok out" "c_strings (xw_state w)"
    and run: "tilde_prefix xh pw parent is b stop assignment context out w = (r, after, out', w')"
  shows "out_ok out' \<and> xw_state w' = xw_state w"
proof -
  obtain m w1 where m: "xw_malloc w = (m, w1)" by (rule prod.exhaust)
  note 1 = xw_malloc_frame [OF m]
  show ?thesis
  proof (cases "m \<and> tilde_name (xw_ctype xh w1) pw parent is assignment (b + 1) stop \<noteq> None")
    case False
    then have "\<not> m \<or> tilde_name (xw_ctype xh w1) pw parent is assignment (b + 1) stop = None" by blast
    then show ?thesis
      using run 1 ok by (elim disjE) (cases m, simp_all add: tilde_prefix_def m)+
  next
    case True
    then obtain name pos where n: "tilde_name (xw_ctype xh w1) pw parent is assignment (b + 1) stop = Some (name, pos)" by auto
    let ?home = "if name = [] then view_value (snd (csh_state_get_variable (xw_state w1) (Some ''HOME''))) else xh_getpwnam xh name"
    show ?thesis
    proof (cases ?home)
      case None
      with True run m n 1 ok show ?thesis by (simp add: tilde_prefix_def)
    next
      case (Some home)
      have h: "c_string home"
        using Some host 1 ok get_variable_string [of "xw_state w1" "Some ''HOME''" home] by (auto simp: host_strings_def split: if_splits)
      define home' where "home' = (if home \<noteq> [] \<and> last home = CHR ''/'' \<and> pos < stop \<and> tk_raw (pw_word pw) ! pos = CHR ''/''
        then butlast home else home)"
      obtain r2 out2 w2 where a: "append_span context out home' CSH_QUOTE_SINGLE CSH_EXPAND_TILDE True w1 = (r2, out2, w2)"
        by (rule prod_cases3)
      have "out' = out2 \<and> w' = w2"
        using run True m n Some a unfolding tilde_prefix_def by (cases r2) (simp_all add: home'_def Let_def)
      with append_span_sound [OF a ok(1)] h 1 show ?thesis by (auto simp: home'_def split: if_splits)
    qed
  qed
qed

text \<open>One turn at a tilde.\<close>

lemma text_loop_tilde:
  assumes "p < stop" "tilde_ok \<and> quote = CSH_QUOTE_NONE \<and> tk_raw (pw_word pw) ! p = CHR ''~''"
    and a: "(if mark < p then append_span context out (slice (tk_raw (pw_word pw)) mark p) quote origin (quote \<noteq> CSH_QUOTE_NONE) w
      else (CSH_EXPAND_OK, out, w)) = (r1, out1, w1)"
    and t: "tilde_prefix xh pw parent is p end colons context out1 w1 = (r2, after, out2, w2)"
  shows "text_loop (Suc fuel) xh pw parent is quote stop end context origin colons p mark tilde_ok out w =
    (if r1 \<noteq> CSH_EXPAND_OK then Some (r1, p, mark, tilde_ok, out1, w1)
     else if r2 \<noteq> CSH_EXPAND_OK then Some (r2, p, mark, tilde_ok, out2, w2)
     else if after \<noteq> p then text_loop fuel xh pw parent is quote stop end context origin colons after after False out2 w2
     else text_loop fuel xh pw parent is quote stop end context origin colons
            (p + csh_character_length (xw_ctype xh w2) (slice (tk_raw (pw_word pw)) p stop) True True) p
            (colons \<and> quote = CSH_QUOTE_NONE \<and> tk_raw (pw_word pw) ! p = CHR '':'') out2 w2)"
  unfolding text_loop.simps Let_def a prod.case if_P [OF assms(2)]
  using assms(1) t by (cases r1; cases r2) simp_all

lemma text_loop_kept:
  assumes host: "host_strings xh" and raw: "c_string (tk_raw (pw_word pw))"
  shows "text_loop fuel xh pw parent is quote stop end context origin colons p mark tilde_ok out w = Some (r, p', mark', t', out', w') \<Longrightarrow>
    out_ok out \<Longrightarrow> c_strings (xw_state w) \<Longrightarrow> out_ok out' \<and> xw_state w' = xw_state w"
proof (induction fuel arbitrary: p mark tilde_ok out w)
  case 0
  then show ?case by (auto split: if_splits)
next
  case (Suc fuel)
  let ?raw = "tk_raw (pw_word pw)"
  obtain r1 out1 w1 where a: "(if mark < p then append_span context out (slice ?raw mark p) quote origin (quote \<noteq> CSH_QUOTE_NONE) w
      else (CSH_EXPAND_OK, out, w)) = (r1, out1, w1)" by (rule prod_cases3)
  have 1: "out_ok out1 \<and> xw_state w1 = xw_state w"
    using a Suc.prems(2) raw by (auto split: if_splits dest: append_span_sound)
  obtain r2 after out2 w2 where t: "tilde_prefix xh pw parent is p end colons context out1 w1 = (r2, after, out2, w2)"
    by (rule prod_cases4)
  have 2: "out_ok out2 \<and> xw_state w2 = xw_state w"
    using tilde_prefix_kept [OF host _ _ t] 1 Suc.prems(3) by simp
  consider "stop \<le> p" | "p < stop" "\<not> (tilde_ok \<and> quote = CSH_QUOTE_NONE \<and> ?raw ! p = CHR ''~'')"
    | "p < stop" "tilde_ok \<and> quote = CSH_QUOTE_NONE \<and> ?raw ! p = CHR ''~''" by linarith
  then show ?case
  proof cases
    case 1
    with Suc.prems show ?thesis by simp
  next
    case 2
    with Suc.prems show ?thesis by (simp add: Let_def) (rule Suc.IH; assumption)
  next
    case 3
    show ?thesis
    proof (cases "r1 = CSH_EXPAND_OK \<and> r2 = CSH_EXPAND_OK")
      case False
      with Suc.prems(1) have "(out', w') = (out1, w1) \<or> (out', w') = (out2, w2)"
        unfolding text_loop_tilde [OF 3 a t] by (auto split: if_splits)
      with 1 2 show ?thesis by auto
    next
      case True
      have c: "c_strings (xw_state w2)" using 2 Suc.prems(3) by simp
      obtain p1 mark1 t1 where
        "text_loop fuel xh pw parent is quote stop end context origin colons p1 mark1 t1 out2 w2 = Some (r, p', mark', t', out', w')"
        using True Suc.prems(1) unfolding text_loop_tilde [OF 3 a t] by (auto split: if_splits)
      from Suc.IH [OF this] 2 c show ?thesis by simp
    qed
  qed
qed

lemma expand_text_kept:
  assumes host: "host_strings xh" and raw: "c_string (tk_raw (pw_word pw))" and ok: "out_ok out" "c_strings (xw_state w)"
    and run: "expand_text xh pw parent is f start stop end context origin colons tilde_ok out w = Some (r, cursor, t, out', w')"
  shows "out_ok out' \<and> xw_state w' = xw_state w"
proof -
  obtain r1 p mark t1 out1 w1 where l: "text_loop (stop - start) xh pw parent is (fr_quote f) stop end context origin colons start start
      tilde_ok out w = Some (r1, p, mark, t1, out1, w1)"
    using run by (auto simp: expand_text_def split: option.splits)
  note 1 = text_loop_kept [OF host raw l ok]
  obtain r2 out2 w2 where a: "(if r1 = CSH_EXPAND_OK \<and> mark < stop
      then append_span context out1 (slice (tk_raw (pw_word pw)) mark stop) (fr_quote f) origin (fr_quote f \<noteq> CSH_QUOTE_NONE) w1
      else (r1, out1, w1)) = (r2, out2, w2)" by (rule prod_cases3)
  have "out_ok out2 \<and> xw_state w2 = xw_state w"
    using a 1 raw by (auto split: if_splits dest: append_span_sound)
  moreover have "out' = out2 \<and> w' = w2" using run l a by (simp add: expand_text_def)
  ultimately show ?thesis by simp
qed

lemma expand_fragment_kept:
  assumes host: "host_strings xh" and pw: "prepared_ok pw" and i: "i < fragments pw" and rng: "range_kept rng i"
    and ok: "out_ok out" "c_strings (xw_state w)"
  shows "kept (expand_fragment rng xh pw i context origin out w)"
proof -
  let ?f = "tk_fragments (pw_word pw) ! i"
  have t: "c_string (case pw_decoded pw ! i of None \<Rightarrow> [] | Some t \<Rightarrow> t)"
    using decoded_string [OF pw i] by (simp split: option.splits)
  have s: "sound (scalar context out [] (fr_quote ?f) origin w)"
    and d: "sound (scalar context out (case pw_decoded pw ! i of None \<Rightarrow> [] | Some t \<Rightarrow> t) (fr_quote ?f) origin w)"
    using ok t by (auto intro!: scalar_kept)
  have q: "sound (append_span context out (slice (tk_raw (pw_word pw)) (fr_begin ?f + 1) (fr_end ?f)) CSH_QUOTE_SINGLE origin True w)"
    using ok raw_string [OF pw] by (auto intro!: append_span_kept)
  note rest = expand_parameter_kept [OF rng ok, of xh pw "context"] expand_arithmetic_kept [OF rng ok, of xh pw "context"]
    substitution_kept [OF host ok, of pw i "context"]
  show ?thesis
  proof (cases "fr_kind ?f")
    case CSH_FRAGMENT_QUOTED
    have "kept (rng i (fr_begin ?f + 1) (fr_end ?f - 1) context out origin False False w)"
      using rng ok by (simp add: range_kept_def)
    with CSH_FRAGMENT_QUOTED s d show ?thesis
      by (auto simp: expand_fragment_def Let_def split: option.splits)
  qed (use ok q rest in \<open>simp_all add: expand_fragment_def Let_def\<close>)
qed

lemma range_loop_kept:
  assumes host: "host_strings xh" and pw: "prepared_ok pw"
  shows "\<forall>i\<in>set js. i < fragments pw \<and> range_kept rng i \<Longrightarrow> out_ok out \<Longrightarrow> c_strings (xw_state w) \<Longrightarrow>
    kept (range_loop rng xh pw parent is end context origin colons js cursor tilde_ok out w)"
proof (induction js arbitrary: cursor tilde_ok out w)
  case (Cons i js)
  let ?f = "tk_fragments (pw_word pw) ! i"
  let ?start = "max cursor (fr_begin ?f)" and ?stop = "min end (fr_end ?f)"
  let ?loop = "\<lambda>js. range_loop rng xh pw parent is end context origin colons js"
  have more: "out_ok out' \<Longrightarrow> c_strings (xw_state w') \<Longrightarrow> kept (?loop js c t out' w')" for c t out' w'
    using Cons.IH [of out' w' c t] Cons.prems(1) by simp
  have i: "i < fragments pw" "range_kept rng i" using Cons.prems(1) by simp_all
  consider "fr_end ?f \<le> cursor \<or> end \<le> fr_begin ?f" | (plain) "\<not> (fr_end ?f \<le> cursor \<or> end \<le> fr_begin ?f)" "fr_kind ?f = CSH_FRAGMENT_TEXT"
    | (other) "\<not> (fr_end ?f \<le> cursor \<or> end \<le> fr_begin ?f)" "fr_kind ?f \<noteq> CSH_FRAGMENT_TEXT" by blast
  then show ?case
  proof cases
    case 1
    then have "?loop (i # js) cursor tilde_ok out w = ?loop js cursor tilde_ok out w" by (simp add: Let_def)
    with more Cons.prems(2,3) show ?thesis by simp
  next
    case plain
    show ?thesis
    proof (cases "expand_text xh pw parent is ?f ?start ?stop end context origin colons tilde_ok out w")
      case None
      with plain show ?thesis by (simp add: Let_def)
    next
      case (Some x)
      obtain r c t out1 w1 where x: "x = (r, c, t, out1, w1)" by (metis prod_cases5)
      have 1: "out_ok out1 \<and> c_strings (xw_state w1)"
        using expand_text_kept [OF host raw_string [OF pw] Cons.prems(2,3) Some [unfolded x]] Cons.prems(3) by simp
      have "?loop (i # js) cursor tilde_ok out w = (if r = CSH_EXPAND_OK then ?loop js c t out1 w1 else Some (r, out1, w1))"
        using plain Some x by (simp add: Let_def)
      with 1 more show ?thesis by simp
    qed
  next
    case other
    show ?thesis
    proof (cases "fr_kind ?f = CSH_FRAGMENT_CONTINUATION \<or> ?start \<noteq> fr_begin ?f \<or> ?stop \<noteq> fr_end ?f")
      case True
      with other have "?loop (i # js) cursor tilde_ok out w = ?loop js ?stop tilde_ok out w \<or>
          (\<exists>r w'. ?loop (i # js) cursor tilde_ok out w = Some (r, out, w') \<and> xw_state w' = xw_state w)"
        by (auto simp: Let_def expand_fail_def)
      with more Cons.prems(2,3) show ?thesis by auto
    next
      case False
      then have l: "?loop (i # js) cursor tilde_ok out w =
          (case expand_fragment rng xh pw i context origin out w of
             None \<Rightarrow> None
           | Some (r, out, w) \<Rightarrow> if r = CSH_EXPAND_OK then ?loop js ?stop False out w else Some (r, out, w))"
        using other by (simp add: Let_def)
      from expand_fragment_kept [OF host pw i Cons.prems(2,3), of "context" origin] more show ?thesis
        unfolding l by (auto split: option.splits)
    qed
  qed
qed simp

lemma expand_range_kept:
  assumes host: "host_strings xh" and pw: "prepared_ok pw"
  shows "inside pw parent \<Longrightarrow> range_kept (expand_range fuel xh pw) parent"
proof (induction fuel arbitrary: parent)
  case 0
  then show ?case by (simp add: range_kept_def)
next
  case (Suc fuel)
  show ?case
    unfolding range_kept_def
  proof (intro allI impI)
    fix b e "context" out origin t c and w :: expand_work
    assume ok: "out_ok out" "c_strings (xw_state w)"
    obtain k w1 where k: "expand_stack_check w = (k, w1)" by (rule prod.exhaust)
    have w1: "xw_state w1 = xw_state w" using k by (auto simp: expand_stack_check_def split: prod.splits)
    show "kept (expand_range (Suc fuel) xh pw parent b e context out origin t c w)"
    proof (cases "k \<and> children pw parent \<noteq> None")
      case False
      with k w1 ok show ?thesis by (cases k) (simp_all add: expand_fail_def)
    next
      case True
      then obtain cs where cs: "children pw parent = Some cs" by auto
      have "\<forall>i\<in>set cs. i < fragments pw \<and> range_kept (expand_range fuel xh pw) i"
        using children_range [OF pw Suc.prems cs] Suc.IH by (auto simp: inside_def)
      from range_loop_kept [OF host pw this ok(1)] w1 ok k True cs show ?thesis by simp
    qed
  qed
qed

end
