(* ===== verification/Expansion_Results.thy ===== *)
theory Expansion_Results
  imports Expansion_Soundness
begin

text \<open>
  What word expansion returns: it ends, a failure leaves the state as it was, its fields are valid input of
  field splitting, and pattern removal removes the shortest or longest match.
\<close>

subsection \<open>Preparing a word\<close>

text \<open>The stack of open fragments: earlier fragments, each opened after the one below it; the recorded ends
  of all other fragments lie behind them.\<close>

definition scan_ok :: "nat \<Rightarrow> nat list \<Rightarrow> nat list \<Rightarrow> bool" where
  "scan_ok i stack ns \<longleftrightarrow>
     (\<forall>t\<in>set stack. t < i) \<and> i \<le> length ns \<and> (\<forall>j<i. j \<in> set stack \<or> (j < ns ! j \<and> ns ! j \<le> i))"

lemma unwind_ok:
  "unwind fs parent i stack previous ns = (stack', previous', ns') \<Longrightarrow> scan_ok i stack ns \<Longrightarrow>
   scan_ok i stack' ns' \<and> length ns' = length ns"
proof (induction stack arbitrary: previous ns)
  case (Cons t stack)
  show ?case
  proof (cases "parent = t")
    case False
    have "scan_ok i stack (ns[t := i])"
      using Cons.prems(2) by (auto simp: scan_ok_def nth_list_update)
    with Cons.IH [of "fr_end (fs ! t)" "ns[t := i]"] Cons.prems(1) False show ?thesis by simp
  qed (use Cons.prems in auto)
qed simp

lemma fold_ends:
  "scan_ok i stack ns \<Longrightarrow> scan_ok i [] (fold (\<lambda>t ns. ns[t := i]) stack ns) \<and> length (fold (\<lambda>t ns. ns[t := i]) stack ns) = length ns"
proof (induction stack arbitrary: ns)
  case (Cons t stack)
  have "scan_ok i stack (ns[t := i])"
    using Cons.prems by (auto simp: scan_ok_def nth_list_update)
  with Cons.IH [of "ns[t := i]"] show ?case by simp
qed simp

lemma scan_ok_open: "scan_ok i stack ns \<Longrightarrow> i < length ns \<Longrightarrow> scan_ok (Suc i) (i # stack) ns"
  by (fastforce simp: scan_ok_def less_Suc_eq)

lemma prepare_scan_ok:
  "prepare_scan cx word i fs stack previous ns = Inr ns' \<Longrightarrow> scan_ok i stack ns \<Longrightarrow> length ns = i + length fs \<Longrightarrow>
   length ns' = length ns \<and> (\<forall>j<length ns. j < ns' ! j \<and> ns' ! j \<le> length ns)"
proof (induction fs arbitrary: i stack previous ns)
  case Nil
  with fold_ends [OF Nil.prems(2)] show ?case by (auto simp: scan_ok_def)
next
  case (Cons f fs)
  obtain stack1 previous1 ns1 where u: "unwind (tk_fragments word) (fr_parent f) i stack previous ns = (stack1, previous1, ns1)"
    by (rule prod_cases3)
  note 1 = unwind_ok [OF u Cons.prems(2)]
  have "prepare_scan cx word (Suc i) fs (i # stack1) (fr_begin f) ns1 = Inr ns'"
    using Cons.prems(1) u by (auto split: if_splits)
  from Cons.IH [OF this] scan_ok_open [of i stack1 ns1] 1 Cons.prems(3) show ?case by simp
qed

lemma decode_loop_ok:
  "decode_loop xh word i fs ds w = (r, ds', w') \<Longrightarrow> \<forall>t. Some t \<in> set ds \<longrightarrow> c_string t \<Longrightarrow>
   length ds' = length ds \<and> (\<forall>t. Some t \<in> set ds' \<longrightarrow> c_string t) \<and> xw_state w' = xw_state w \<and>
   refs (xw_world w') = refs (xw_world w) \<and> finalized (xw_world w') = finalized (xw_world w)"
proof (induction fs arbitrary: i ds w)
  case (Cons f fs)
  show ?case
  proof (cases "fr_kind f = CSH_FRAGMENT_QUOTED \<and> fr_quote f = CSH_QUOTE_DOLLAR_SINGLE")
    case False
    with Cons.prems(1) have "decode_loop xh word (Suc i) fs ds w = (r, ds', w')" by (auto split: if_splits)
    from Cons.IH [OF this Cons.prems(2)] show ?thesis .
  next
    case True
    obtain a p where a: "logical word (fr_begin f) (fr_end f) = (a, p)" by (rule prod.exhaust)
    obtain b q where b: "logical word p (fr_end f) = (b, q)" by (rule prod.exhaust)
    let ?bad = "a \<noteq> Some CHR ''$'' \<or> b \<noteq> Some CHR 0x27 \<or> fr_end f \<le> q \<or> tk_raw word ! (fr_end f - 1) \<noteq> CHR 0x27"
    obtain k t h where d: "csh_quote_decode (xw_ctype xh w) (Some (drop q (tk_raw word))) (fr_end f - q - 1) (mallocs (xw_world w)) = (k, t, h)"
      by (rule prod_cases3)
    show ?thesis
    proof (cases "?bad \<or> k \<noteq> CSH_QUOTE_OK")
      case True
      note bad = True
      have "ds' = ds \<and> xw_state w' = xw_state w \<and> refs (xw_world w') = refs (xw_world w) \<and> finalized (xw_world w') = finalized (xw_world w)"
        using Cons.prems(1) \<open>fr_kind f = _ \<and> _\<close> bad
        unfolding decode_loop.simps a b prod.case d Let_def expand_fail_def
        by (cases ?bad) (auto split: if_splits)
      with Cons.prems(2) show ?thesis by simp
    next
      case False
      have t: "\<forall>x. t = Some x \<longrightarrow> c_string x"
        using quote_decoded d by (auto simp: c_string_def)
      have "decode_loop xh word (Suc i) fs (ds[i := t]) (w\<lparr>xw_world := (xw_world w)\<lparr>mallocs := h\<rparr>\<rparr>) = (r, ds', w')"
        using Cons.prems(1) \<open>fr_kind f = _ \<and> _\<close> False
        unfolding decode_loop.simps a b prod.case d Let_def by simp
      from Cons.IH [OF this] t Cons.prems(2) show ?thesis
        by (auto dest: set_update_subset_insert [THEN subsetD])
    qed
  qed
qed auto

lemma prepare_scan_ends:
  "prepare_scan cx word i fs stack previous ns = Inr ns' \<Longrightarrow> \<forall>f\<in>set fs. fr_end f \<le> length (tk_raw word)"
proof (induction fs arbitrary: i stack previous ns)
  case (Cons f fs)
  obtain stack1 previous1 ns1 where u: "unwind (tk_fragments word) (fr_parent f) i stack previous ns = (stack1, previous1, ns1)"
    by (rule prod_cases3)
  have "prepare_scan cx word (Suc i) fs (i # stack1) (fr_begin f) ns1 = Inr ns'" "structure_ok word f stack1 previous1"
    using Cons.prems(1) u by (auto split: if_splits)
  with Cons.IH [OF this(1)] show ?case by (simp add: structure_ok_def)
qed simp

lemma prepare_cases:
  assumes "prepare xh word w = (r, pw, w')"
  shows "xw_state w' = xw_state w \<and> refs (xw_world w') = refs (xw_world w) \<and> finalized (xw_world w') = finalized (xw_world w) \<and>
    pw_word pw = word \<and> (r = CSH_EXPAND_OK \<longrightarrow> prepared_ok pw)"
proof (cases "tk_kind word \<noteq> CSH_TOKEN_WORD \<or> CHR 0x00 \<in> set (tk_raw word) \<or> SIZE_MAX div 8 - 1 < length (tk_fragments word)")
  case True
  with assms show ?thesis by (auto simp: prepare_def Let_def split: if_splits)
next
  case False
  let ?n = "length (tk_fragments word)"
  obtain a w1 where a: "xw_malloc w = (a, w1)" by (rule prod.exhaust)
  obtain b w2 where b: "xw_malloc w1 = (b, w2)" by (rule prod.exhaust)
  obtain c w3 where c: "xw_malloc w2 = (c, w3)" by (rule prod.exhaust)
  have w3: "xw_state w3 = xw_state w \<and> refs (xw_world w3) = refs (xw_world w) \<and> finalized (xw_world w3) = finalized (xw_world w)"
    using a b c by (auto simp: xw_malloc_def split: prod.splits)
  let ?scan = "prepare_scan (xw_ctype xh w3) word 0 (tk_fragments word) [] 0 (replicate ?n 0)"
  show ?thesis
  proof (cases "(a \<and> b \<and> c) \<and> \<not> isl ?scan")
    case False
    with assms \<open>\<not> (_ \<or> _)\<close> a b c w3 show ?thesis
      by (auto simp: prepare_def Let_def expand_fail_def split: if_splits sum.splits)
  next
    case True
    then obtain ns where ns: "?scan = Inr ns" by (cases ?scan) auto
    obtain r1 ds w4 where d: "decode_loop xh word 0 (tk_fragments word) (replicate ?n None) w3 = (r1, ds, w4)" by (rule prod_cases3)
    note 4 = decode_loop_ok [OF d]
    have res: "r = r1" "pw = \<lparr>pw_word = word, pw_next = ns, pw_decoded = ds\<rparr>" "w' = w4"
      using assms \<open>\<not> (_ \<or> _)\<close> True a b c ns d by (auto simp: prepare_def Let_def)
    have "length ns = ?n \<and> (\<forall>j<?n. j < ns ! j \<and> ns ! j \<le> ?n)"
      using prepare_scan_ok [OF ns] by (simp add: scan_ok_def)
    moreover have "c_string (tk_raw word)" "?n < CSH_FRAGMENT_ROOT"
      using \<open>\<not> (_ \<or> _)\<close> by (auto simp: c_string_def CSH_FRAGMENT_ROOT_def SIZE_MAX_def)
    ultimately show ?thesis using 4 w3 prepare_scan_ends [OF ns] unfolding res by (auto simp: prepared_ok_def Let_def)
  qed
qed

subsection \<open>Termination\<close>

definition range_total :: "range_function \<Rightarrow> nat \<Rightarrow> bool" where
  "range_total rng i \<longleftrightarrow> (\<forall>b e context out origin t c w. rng i b e context out origin t c w \<noteq> None)"

lemma arith_eval_total: "csh_arith_eval s t w checks \<noteq> None"
  by (auto simp: csh_arith_eval_def split: option.splits prod.splits bool.splits csh_state_result.splits)

lemma range_total_Some:
  assumes "range_total rng i"
  obtains r out' w' where "rng i b e context out origin t c w = Some (r, out', w')"
  using assms unfolding range_total_def by (metis option.exhaust prod_cases3)

lemma expand_modifier_total:
  assumes "range_total rng index"
  shows "expand_modifier rng xh word index pf op stop quote value is_set context out w \<noteq> None"
proof -
  obtain r expanded w1 where x: "rng index (pf_operand pf) stop CSH_EXPAND_ASSIGNMENT [] CSH_EXPAND_PARAMETER True False w = Some (r, expanded, w1)"
    using assms by (rule range_total_Some)
  obtain t w2 where f: "flatten expanded w1 = (t, w2)" by (rule prod.exhaust)
  obtain r3 w3 where a: "expand_assign (pf_name pf) (the t) w2 = (r3, w3)" by (rule prod.exhaust)
  have "rng index (pf_operand pf) stop context out CSH_EXPAND_PARAMETER True False w \<noteq> None"
    using assms by (simp add: range_total_def)
  moreover have "(case Some (r, expanded, w1) of
      None \<Rightarrow> None
    | Some (CSH_EXPAND_OK, expanded, w) \<Rightarrow>
        (case flatten expanded w of
           (None, w) \<Rightarrow> Some (CSH_EXPAND_NOMEM, out, w)
         | (Some text, w) \<Rightarrow>
             if op = CHR ''?'' then
               (case expand_fail word CSH_EXPAND_UNSET index
                       (if pf_operand pf = stop then ''parameter is unset or empty'' else text) w of
                  (r, w) \<Rightarrow> Some (r, out, w))
             else
               (case expand_assign (pf_name pf) text w of
                  (CSH_EXPAND_OK, w) \<Rightarrow> Some (scalar context out text quote CSH_EXPAND_PARAMETER w)
                | (r, w) \<Rightarrow> Some (r, out, w)))
    | Some (r, _, w) \<Rightarrow> Some (r, out, w)) \<noteq> None"
    using f a by (cases r; cases t; cases r3) (simp_all add: expand_fail_def del: not_None_eq)
  ultimately show ?thesis unfolding expand_modifier_def Let_def x by (simp del: not_None_eq)
qed

lemma expand_value_total:
  assumes "range_total rng index"
  shows "expand_value rng xh word index h pf quote context out w \<noteq> None"
proof -
  obtain r v is_set w1 where p: "parameter_value (pf_name pf) w = (r, v, is_set, w1)" by (rule prod_cases4)
  obtain r1 expanded w2 where x:
    "rng index (pf_operand pf) (ph_stop h) CSH_EXPAND_PATTERN [] CSH_EXPAND_PARAMETER True False w1 = Some (r1, expanded, w2)"
    using assms by (rule range_total_Some)
  obtain r2 pat w3 where q: "pattern_text xh expanded w2 = (r2, pat, w3)" by (rule prod_cases3)
  have "(case Some (r1, expanded, w2) of
      None \<Rightarrow> None
    | Some (CSH_EXPAND_OK, expanded, w) \<Rightarrow>
        (case pattern_text xh expanded w of
           (CSH_EXPAND_OK, pattern, w) \<Rightarrow>
             Some (scalar context out (remove_pattern xh w t pattern suffix (pf_longest pf)) quote CSH_EXPAND_PARAMETER w)
         | (r, _, w) \<Rightarrow> Some (r, out, w))
    | Some (r, _, w) \<Rightarrow> Some (r, out, w)) \<noteq> None" for t suffix
    using q by (cases r1; cases r2) (simp_all del: not_None_eq)
  then show ?thesis
    using expand_modifier_total [OF assms] unfolding expand_value_def p prod.case x Let_def
    by (cases r) (auto simp: expand_fail_def split: option.splits simp del: not_None_eq)
qed

lemma expand_parameter_total:
  assumes "range_total rng index"
  shows "expand_parameter rng xh pw index context out w \<noteq> None"
  using expand_value_total [OF assms]
  by (auto simp: expand_parameter_def Let_def split: prod.splits bool.splits option.splits simp del: not_None_eq)

lemma expand_arithmetic_total:
  assumes "range_total rng index"
  shows "expand_arithmetic rng xh pw index context out w \<noteq> None"
proof (cases "trim_delimiters (pw_word pw) (fr_begin (tk_fragments (pw_word pw) ! index)) (fr_end (tk_fragments (pw_word pw) ! index)) 2")
  case None
  then show ?thesis by (simp add: expand_arithmetic_def Let_def)
next
  case (Some stop)
  let ?f = "tk_fragments (pw_word pw) ! index"
  obtain r expanded w1 where x: "rng index (after_opening (pw_word pw) (fr_begin ?f) stop) stop CSH_EXPAND_ASSIGNMENT [] CSH_EXPAND_LITERAL
      False False w = Some (r, expanded, w1)"
    using assms by (rule range_total_Some)
  obtain t w2 where f: "flatten expanded w1 = (t, w2)" by (rule prod.exhaust)
  show ?thesis
  proof (cases "r = CSH_EXPAND_OK \<and> t \<noteq> None")
    case False
    with Some x f show ?thesis by (cases r; cases t) (simp_all add: expand_arithmetic_def Let_def)
  next
    case True
    then obtain t' where t: "t = Some t'" by auto
    let ?cs = "case xw_arith_checks w2 of [] \<Rightarrow> [] | c # cs \<Rightarrow> c"
    obtain arith v s wo u where "csh_arith_eval (xw_state w2) (Some t') (xw_world w2) ?cs = Some (arith, v, s, wo, u)"
      using arith_eval_total by (metis option.exhaust prod_cases5)
    with True Some x f t show ?thesis by (simp add: expand_arithmetic_def Let_def expand_fail_def del: not_None_eq)
  qed
qed

lemma tilde_name_advances: "tilde_name cx pw parent is assignment pos stop = Some (name, p) \<Longrightarrow> pos \<le> p"
proof (induction cx pw parent "is" assignment pos stop arbitrary: name p rule: tilde_name.induct)
  case (1 cx pw parent "is" assignment pos stop)
  let ?raw = "tk_raw (pw_word pw)"
  let ?width = "max 1 (csh_character_length cx (slice ?raw pos stop) True True)"
  consider "stop \<le> pos \<or> \<not> plain_at pw parent is pos \<or> ?raw ! pos = CHR ''/'' \<or> (assignment \<and> ?raw ! pos = CHR '':'')"
    | (cont) "\<not> stop \<le> pos" "plain_at pw parent is pos" "\<not> (?raw ! pos = CHR ''/'' \<or> (assignment \<and> ?raw ! pos = CHR '':''))"
        "pos + 1 < stop \<and> ?raw ! pos = escape_char \<and> ?raw ! (pos + 1) = CHR 0x0A"
    | (byte) "\<not> stop \<le> pos" "plain_at pw parent is pos" "\<not> (?raw ! pos = CHR ''/'' \<or> (assignment \<and> ?raw ! pos = CHR '':''))"
        "\<not> (pos + 1 < stop \<and> ?raw ! pos = escape_char \<and> ?raw ! (pos + 1) = CHR 0x0A)" by blast
  then show ?case
  proof cases
    case 1
    with "1.prems" show ?thesis by (subst (asm) tilde_name.simps) (auto simp: Let_def split: if_splits)
  next
    case cont
    then have "tilde_name cx pw parent is assignment pos stop = tilde_name cx pw parent is assignment (pos + 2) stop"
      by (subst tilde_name.simps) (simp add: Let_def)
    with "1.IH"(1) [OF refl] cont "1.prems" have "pos + 2 \<le> p" by simp
    then show ?thesis by simp
  next
    case byte
    then have "tilde_name cx pw parent is assignment pos stop =
        map_option (\<lambda>(name, p). (slice ?raw pos (pos + ?width) @ name, p)) (tilde_name cx pw parent is assignment (pos + ?width) stop)"
      by (subst tilde_name.simps) (simp only: Let_def if_not_P not_True_eq_False if_False simp_thms)
    with "1.prems" obtain n where "tilde_name cx pw parent is assignment (pos + ?width) stop = Some (n, p)" by auto
    with "1.IH"(2) [OF refl _ _ _ _ refl] byte have "pos + ?width \<le> p" by blast
    then show ?thesis by linarith
  qed
qed

lemma tilde_prefix_advances:
  assumes "tilde_prefix xh pw parent is b stop assignment context out w = (r, after, out', w')"
  shows "after = b \<or> b < after"
proof -
  obtain m w1 where m: "xw_malloc w = (m, w1)" by (rule prod.exhaust)
  show ?thesis
  proof (cases "m \<and> (\<exists>name pos. tilde_name (xw_ctype xh w1) pw parent is assignment (b + 1) stop = Some (name, pos))")
    case False
    then have "\<not> m \<or> tilde_name (xw_ctype xh w1) pw parent is assignment (b + 1) stop = None"
      by (metis option.exhaust prod.exhaust)
    then show ?thesis using assms by (elim disjE) (cases m, simp_all add: tilde_prefix_def m)+
  next
    case True
    then obtain name pos where n: "tilde_name (xw_ctype xh w1) pw parent is assignment (b + 1) stop = Some (name, pos)" by blast
    then have "b < pos" by (auto dest: tilde_name_advances)
    moreover have "after = b \<or> after = pos"
      using assms True unfolding tilde_prefix_def m prod.case n
      by (auto simp: Let_def n split: option.splits prod.splits csh_expand_result.splits)
    ultimately show ?thesis by auto
  qed
qed

lemma text_loop_total:
  assumes "stop \<le> length (tk_raw (pw_word pw))"
  shows "stop \<le> p + fuel \<Longrightarrow>
    text_loop fuel xh pw parent is quote stop end context origin colons p mark tilde_ok out w \<noteq> None"
proof (induction fuel arbitrary: p mark tilde_ok out w)
  case (Suc fuel)
  let ?raw = "tk_raw (pw_word pw)"
  let ?loop = "text_loop fuel xh pw parent is quote stop end context origin colons"
  have more: "p < q \<Longrightarrow> ?loop q mark t out w \<noteq> None" for q mark t out w
    using Suc.IH [of q] Suc.prems by simp
  have adv: "0 < csh_character_length cx (slice ?raw p stop) True True" if "p < stop" for cx
    using that assms by (intro character_length_pos) (auto simp: slice_def)
  consider "stop \<le> p" | "p < stop" "\<not> (tilde_ok \<and> quote = CSH_QUOTE_NONE \<and> ?raw ! p = CHR ''~'')"
    | "p < stop" "tilde_ok \<and> quote = CSH_QUOTE_NONE \<and> ?raw ! p = CHR ''~''" by linarith
  then show ?case
  proof cases
    case 1
    then show ?thesis by simp
  next
    case 2
    with adv [OF 2(1)] show ?thesis unfolding text_loop.simps Let_def if_not_P [OF 2(2)] by (simp add: more del: not_None_eq)
  next
    case 3
    obtain r1 out1 w1 where a: "(if mark < p then append_span context out (slice ?raw mark p) quote origin (quote \<noteq> CSH_QUOTE_NONE) w
      else (CSH_EXPAND_OK, out, w)) = (r1, out1, w1)" by (rule prod_cases3)
    obtain r2 after out2 w2 where t: "tilde_prefix xh pw parent is p end colons context out1 w1 = (r2, after, out2, w2)"
      by (rule prod_cases4)
    from tilde_prefix_advances [OF t] adv [OF 3(1)] show ?thesis
      unfolding text_loop_tilde [OF 3 a t] by (elim disjE) (simp_all add: more del: not_None_eq)
  qed
qed simp

lemma expand_text_total:
  "stop \<le> length (tk_raw (pw_word pw)) \<Longrightarrow>
   expand_text xh pw parent is f start stop end context origin colons tilde_ok out w \<noteq> None"
  using text_loop_total [of stop pw start "stop - start"]
  by (auto simp: expand_text_def split: option.splits prod.splits)

lemma expand_fragment_total:
  assumes "prepared_ok pw" "i < fragments pw" "range_total rng i"
  shows "expand_fragment rng xh pw i context origin out w \<noteq> None"
proof -
  have "children pw i \<noteq> None" using assms by (intro children_total) (auto simp: inside_def)
  moreover have "rng i (fr_begin f + 1) (fr_end f - 1) context out origin False False w \<noteq> None" for f :: csh_fragment
    using assms(3) by (simp add: range_total_def)
  ultimately show ?thesis
    using expand_parameter_total [OF assms(3)] expand_arithmetic_total [OF assms(3)]
    by (auto simp: expand_fragment_def Let_def split: csh_fragment_kind.splits option.splits simp del: not_None_eq)
qed

lemma range_loop_total:
  assumes pw: "prepared_ok pw"
  shows "\<forall>i\<in>set js. i < fragments pw \<and> range_total rng i \<Longrightarrow>
    range_loop rng xh pw parent is end context origin colons js cursor tilde_ok out w \<noteq> None"
proof (induction js arbitrary: cursor tilde_ok out w)
  case (Cons i js)
  let ?f = "tk_fragments (pw_word pw) ! i"
  let ?start = "max cursor (fr_begin ?f)" and ?stop = "min end (fr_end ?f)"
  have more: "range_loop rng xh pw parent is end context origin colons js c t out w \<noteq> None" for c t out w
    using Cons by simp
  have i: "i < fragments pw" "range_total rng i" using Cons.prems by simp_all
  then have "fr_end ?f \<le> length (tk_raw (pw_word pw))" using pw by (simp add: prepared_ok_def Let_def)
  then have "?stop \<le> length (tk_raw (pw_word pw))" by simp
  from expand_text_total [OF this] obtain r c t out1 w1 where
    x: "expand_text xh pw parent is ?f ?start ?stop end context origin colons tilde_ok out w = Some (r, c, t, out1, w1)"
    by (metis option.exhaust prod_cases5)
  obtain r2 out2 w2 where y: "expand_fragment rng xh pw i context origin out w = Some (r2, out2, w2)"
    using expand_fragment_total [OF pw i] by (metis option.exhaust prod_cases3)
  show ?case
    unfolding range_loop.simps Let_def x y option.case prod.case expand_fail_def
    by (simp add: more del: not_None_eq)
qed simp

text \<open>A call needs no more fuel than there are fragments from its parent on.\<close>

lemma expand_range_total:
  assumes pw: "prepared_ok pw"
  shows "parent < fragments pw \<Longrightarrow> fragments pw \<le> parent + fuel \<Longrightarrow> range_total (expand_range fuel xh pw) parent"
proof (induction fuel arbitrary: parent)
  case (Suc fuel)
  have p: "inside pw parent" "parent \<noteq> CSH_FRAGMENT_ROOT" using Suc.prems pw by (auto simp: inside_def prepared_ok_def Let_def)
  obtain cs where cs: "children pw parent = Some cs" using children_total [OF pw p(1)] by auto
  have "\<forall>i\<in>set cs. i < fragments pw \<and> range_total (expand_range fuel xh pw) i"
    using children_range [OF pw p(1) cs] p(2) Suc by auto
  from range_loop_total [OF pw this] show ?case
    by (auto simp: range_total_def cs expand_fail_def split: prod.splits bool.splits simp del: not_None_eq)
qed simp

lemma expand_range_root:
  assumes pw: "prepared_ok pw"
  shows "range_total (expand_range (Suc (fragments pw)) xh pw) CSH_FRAGMENT_ROOT"
proof -
  have r: "inside pw CSH_FRAGMENT_ROOT" by (simp add: inside_def)
  obtain cs where cs: "children pw CSH_FRAGMENT_ROOT = Some cs" using children_total [OF pw r] by auto
  have "\<forall>i\<in>set cs. i < fragments pw \<and> range_total (expand_range (fragments pw) xh pw) i"
    using children_range [OF pw r cs] expand_range_total [OF pw] by auto
  from range_loop_total [OF pw this] show ?thesis
    by (auto simp: range_total_def cs expand_fail_def split: prod.splits bool.splits simp del: not_None_eq)
qed

subsection \<open>The results of word expansion\<close>

text \<open>What happens before the fragments are expanded: a failure, or a prepared word and a checkpoint.\<close>

lemma csh_expand_word_cases:
  assumes "csh_expand_word xh word context w = x"
  obtains (early) r w' where "x = Some (r, [], w')" "r \<noteq> CSH_EXPAND_OK" "xw_state w' = xw_state w" "ee_code (xw_error w') \<noteq> CSH_EXPAND_OK"
    | (ranged) pw w1 cp wo y where "prepared_ok pw" "pw_word pw = word" "xw_state w1 = xw_state w"
      "refs (xw_world w1) = refs (xw_world w)"
      "csh_state_save (xw_state w1) (xw_world w1) = (CSH_STATE_OK, cp, wo)"
      "expand_range (expand_fuel word) xh pw CSH_FRAGMENT_ROOT 0 (length (tk_raw word)) context [] CSH_EXPAND_LITERAL
         (context \<noteq> CSH_EXPAND_HEREDOC) (context = CSH_EXPAND_ASSIGNMENT) (w1\<lparr>xw_world := wo\<rparr>) = y"
      "x = (case y of None \<Rightarrow> None
         | Some (r, out, w) \<Rightarrow>
             if r = CSH_EXPAND_OK then Some (r, out, w\<lparr>xw_world := csh_state_checkpoint_destroy cp (xw_world w)\<rparr>)
             else (case csh_state_restore (xw_state w) cp (xw_world w) of
               (_, s, wo) \<Rightarrow> Some (r, [],
                  (let w = w\<lparr>xw_state := s, xw_world := wo\<rparr>
                   in if ee_code (xw_error w) = CSH_EXPAND_OK
                      then snd (expand_fail word r CSH_FRAGMENT_ROOT ''word expansion failed'' w) else w))))"
proof -
  define w0 where "w0 = w\<lparr>xw_error := \<lparr>ee_code = CSH_EXPAND_OK, ee_fragment = CSH_FRAGMENT_ROOT, ee_position = no_position,
      ee_message = []\<rparr>\<rparr>"
  obtain r pw w1 where p: "prepare xh word w0 = (r, pw, w1)" by (rule prod_cases3)
  obtain s cp wo where c: "csh_state_save (xw_state w1) (xw_world w1) = (s, cp, wo)" by (rule prod_cases3)
  have 1: "xw_state w1 = xw_state w \<and> refs (xw_world w1) = refs (xw_world w) \<and> pw_word pw = word \<and> (r = CSH_EXPAND_OK \<longrightarrow> prepared_ok pw)"
    using prepare_cases [OF p] by (simp add: w0_def)
  define rep where "rep = (\<lambda>r w. if ee_code (xw_error w) = CSH_EXPAND_OK
    then snd (expand_fail word r CSH_FRAGMENT_ROOT ''word expansion failed'' w) else w)"
  have rep: "xw_state (rep r w) = xw_state w" "r \<noteq> CSH_EXPAND_OK \<Longrightarrow> ee_code (xw_error (rep r w)) \<noteq> CSH_EXPAND_OK" for r w
    by (auto simp: rep_def expand_fail_def)
  have x: "x = (if r \<noteq> CSH_EXPAND_OK then Some (r, [], rep r w1)
      else if s \<noteq> CSH_STATE_OK then Some (CSH_EXPAND_NOMEM, [], rep CSH_EXPAND_NOMEM (w1\<lparr>xw_world := wo\<rparr>))
      else (case expand_range (expand_fuel word) xh pw CSH_FRAGMENT_ROOT 0 (length (tk_raw word)) context [] CSH_EXPAND_LITERAL
         (context \<noteq> CSH_EXPAND_HEREDOC) (context = CSH_EXPAND_ASSIGNMENT) (w1\<lparr>xw_world := wo\<rparr>) of
           None \<Rightarrow> None
         | Some (r, out, w) \<Rightarrow>
             if r = CSH_EXPAND_OK then Some (r, out, w\<lparr>xw_world := csh_state_checkpoint_destroy cp (xw_world w)\<rparr>)
             else (case csh_state_restore (xw_state w) cp (xw_world w) of
               (_, s, wo) \<Rightarrow> Some (r, [], rep r (w\<lparr>xw_state := s, xw_world := wo\<rparr>)))))"
    using assms unfolding csh_expand_word_def Let_def w0_def [symmetric] p c prod.case rep_def by simp
  show ?thesis
  proof (cases "r = CSH_EXPAND_OK \<and> s = CSH_STATE_OK")
    case False
    then consider "r \<noteq> CSH_EXPAND_OK" | "r = CSH_EXPAND_OK" "s \<noteq> CSH_STATE_OK" by blast
    then show ?thesis
    proof cases
      case 1
      show ?thesis by (rule early [of r "rep r w1"]) (use 1 x rep \<open>_ \<and> _ \<and> _ \<and> _\<close> in simp_all)
    next
      case 2
      show ?thesis
        by (rule early [of CSH_EXPAND_NOMEM "rep CSH_EXPAND_NOMEM (w1\<lparr>xw_world := wo\<rparr>)"])
          (use 2 x rep \<open>_ \<and> _ \<and> _ \<and> _\<close> in simp_all)
    qed
  next
    case True
    show ?thesis
    proof (rule ranged [OF _ _ _ _ _ refl, of pw w1 cp wo], goal_cases)
      case 6
      show ?case unfolding x rep_def Let_def using True by simp
    qed (use 1 c True in simp_all)
  qed
qed

lemma csh_state_restore_saved:
  assumes "csh_state_restore s2 cp w2 = (r, s, w)" "cp = Some c"
  shows "s = c"
  using assms by (simp add: csh_state_restore_def)

text \<open>
  C19: expanding a word ends. Whatever the word, well-formed or not, the state, the encoding and the
  answers of the host, \<open>csh_expand_word\<close> returns: the recursion over nested fragments is bounded by their
  number, and every loop over bytes or siblings advances.
\<close>

theorem expand_word_terminates: "csh_expand_word xh word context w \<noteq> None"
proof
  assume "csh_expand_word xh word context w = None"
  then show False
  proof (cases rule: csh_expand_word_cases)
    case (ranged pw w1 cp wo y)
    have "y \<noteq> None"
      using expand_range_root [OF ranged(1), of xh] ranged(2,6) by (auto simp: range_total_def expand_fuel_def)
    with ranged(7) show False by (auto split: prod.splits if_splits)
  qed simp
qed

text \<open>
  C3: a failed expansion is undone. Whatever fragments were expanded before the failure, assignments by
  \<open>${name=word}\<close> and arithmetic and even commands included, the state is the one before the call; no
  fields are returned and the error record holds an error.
\<close>

theorem expand_word_rollback:
  assumes "wf_state (xw_state w)" and "refs_room (xw_state w) (xw_world w)"
    and "csh_expand_word xh word context w = Some (r, out, w')" and "r \<noteq> CSH_EXPAND_OK"
  shows "xw_state w' = xw_state w \<and> out = [] \<and> ee_code (xw_error w') \<noteq> CSH_EXPAND_OK"
  using assms(3)
proof (cases rule: csh_expand_word_cases)
  case (early r2 w2)
  then show ?thesis by simp
next
  case (ranged pw w1 cp wo y)
  have "refs_room (xw_state w1) (xw_world w1)"
    using assms(2) ranged(3,4) by (simp add: refs_room_def)
  then have cp: "cp = Some (xw_state w)"
    using csh_state_save_result [OF _ _ ranged(5)] assms(1) ranged(3) by auto
  obtain r1 out1 w2 where y: "y = Some (r1, out1, w2)"
    using ranged(7) by (cases y) auto
  obtain c s wo' where res: "csh_state_restore (xw_state w2) cp (xw_world w2) = (c, s, wo')" by (rule prod_cases3)
  have s: "s = xw_state w" using csh_state_restore_saved [OF res cp] .
  have "r1 \<noteq> CSH_EXPAND_OK" using ranged(7) y assms(4) by (auto split: if_splits)
  with ranged(7) y res s assms(4) show ?thesis by (auto simp: Let_def expand_fail_def)
qed

subsection \<open>Field splitting never finds them invalid\<close>

text \<open>No operation on paths reports \<open>CSH_EXPAND_INVALID\<close>.\<close>

lemma filesystem_error_valid [simp]: "filesystem_error e \<noteq> CSH_EXPAND_INVALID"
  by (simp add: filesystem_error_def split: errno.splits)

lemma fields_append_valid [simp]: "fst (csh_fields_append out t fx) \<noteq> CSH_EXPAND_INVALID"
  by (auto simp: csh_fields_append_def split: prod.splits bool.splits)

lemma append_path_valid [simp]: "fst (append_path paths p fx) \<noteq> CSH_EXPAND_INVALID"
  by (auto simp: append_path_def split: option.splits prod.splits bool.splits)

lemma literal_path_valid [simp]: "fst (literal_path ph prefix seps component final dir nxt fx) \<noteq> CSH_EXPAND_INVALID"
  by (auto simp: literal_path_def split: option.splits prod.splits sum.splits)

lemma read_names_valid [simp]: "fst (read_names ph prefix seps component failure names nxt fx) \<noteq> CSH_EXPAND_INVALID"
proof (induction names arbitrary: nxt fx)
  case Nil
  then show ?case by (auto split: prod.splits bool.splits)
next
  case (Cons name names)
  obtain b fx1 where i: "interrupted fx = (b, fx1)" by (rule prod.exhaust)
  obtain p fx2 where p: "path_join prefix seps name fx1 = (p, fx2)" by (rule prod.exhaust)
  obtain r nxt' fx3 where a: "append_path nxt p fx2 = (r, nxt', fx3)" by (rule prod_cases3)
  then have "r \<noteq> CSH_EXPAND_INVALID" using append_path_valid [of nxt p fx2] by simp
  with Cons show ?case by (cases b; cases r) (simp_all add: i p a)
qed

lemma pattern_paths_valid [simp]: "fst (pattern_paths ph prefix seps component nxt fx) \<noteq> CSH_EXPAND_INVALID"
proof -
  obtain d fx1 where d: "path_join prefix seps [] fx = (d, fx1)" by (rule prod.exhaust)
  show ?thesis
  proof (cases d)
    case None
    with d show ?thesis by (simp add: pattern_paths_def)
  next
    case (Some dir)
    show ?thesis
    proof (cases "ph_opendir ph (if dir = [] then ''.'' else dir)")
      case (Inl e)
      with d Some show ?thesis by (auto simp: pattern_paths_def)
    next
      case (Inr stream)
      obtain r nm found fx2 where r: "read_names ph prefix seps component (ds_read stream) (ds_names stream) nxt fx1 = (r, nm, found, fx2)"
        by (rule prod_cases4)
      then have "r \<noteq> CSH_EXPAND_INVALID" using read_names_valid [of ph prefix seps component "ds_read stream" "ds_names stream" nxt fx1] by simp
      then show ?thesis unfolding pattern_paths_def d prod.case Some option.case Inr sum.case r Let_def by simp
    qed
  qed
qed

lemma each_path_valid [simp]: "fst (each_path ph is_pattern seps component final dir paths nxt fx) \<noteq> CSH_EXPAND_INVALID"
proof (induction paths arbitrary: nxt fx)
  case (Cons path paths)
  obtain b fx1 where i: "interrupted fx = (b, fx1)" by (rule prod.exhaust)
  let ?one = "if is_pattern then pattern_paths ph path seps component nxt fx1 else literal_path ph path seps component final dir nxt fx1"
  obtain r nxt' fx2 where o: "?one = (r, nxt', fx2)" by (rule prod_cases3)
  have "fst ?one \<noteq> CSH_EXPAND_INVALID" by simp
  then have "r \<noteq> CSH_EXPAND_INVALID" unfolding o by simp
  with Cons show ?case unfolding each_path.simps i prod.case o by (cases b; cases r) simp_all
qed simp

lemma component_loop_valid [simp]: "fst (component_loop cx ph cursor n paths fx) \<noteq> CSH_EXPAND_INVALID"
proof (induction cx ph cursor n paths fx rule: component_loop.induct)
  case (1 cx ph cursor n paths fx)
  let ?rest = "dropWhile (\<lambda>c. c = CHR ''/'') cursor"
  let ?component = "takeWhile (\<lambda>c. c \<noteq> CHR ''/'') ?rest"
  let ?seps = "takeWhile (\<lambda>c. c = CHR ''/'') cursor"
  let ?cursor = "dropWhile (\<lambda>c. c \<noteq> CHR ''/'') ?rest"
  obtain m fx1 where m: "fh_malloc fx = (m, fx1)" by (rule prod.exhaust)
  obtain r nxt fx2 where e: "each_path ph (has_pattern cx ?component) ?seps
      (if has_pattern cx ?component then ?component else unescape cx ?component)
      (?cursor = []) (?component = [] \<and> ?seps \<noteq> []) paths [] fx1 = (r, nxt, fx2)" by (rule prod_cases3)
  have r: "r \<noteq> CSH_EXPAND_INVALID"
    using each_path_valid [of ph "has_pattern cx ?component" ?seps "if has_pattern cx ?component then ?component else unescape cx ?component"
      "?cursor = []" "?component = [] \<and> ?seps \<noteq> []" paths "[]" fx1] unfolding e by simp
  show ?case
  proof (cases "cursor = [] \<or> paths = [] \<or> PATHNAME_COMPONENT_LIMIT < n + 1 \<or> \<not> m \<or> r \<noteq> CSH_EXPAND_OK")
    case True
    then show ?thesis
      unfolding component_loop.simps [of cx ph cursor n paths fx] Let_def m prod.case
      using r by (cases m; cases r) (auto simp: e [simplified])
  next
    case False
    then have *: "component_loop cx ph cursor n paths fx = component_loop cx ph ?cursor (n + 1) nxt fx2"
      unfolding component_loop.simps [of cx ph cursor n paths fx] Let_def m prod.case by (cases m) (simp_all add: e [simplified])
    have "fst (component_loop cx ph ?cursor (n + 1) nxt fx2) \<noteq> CSH_EXPAND_INVALID"
      by (rule "1" [OF _ refl refl refl refl refl _ m [symmetric] _ refl e [symmetric] _ refl]) (use False in auto)
    then show ?thesis unfolding * .
  qed
qed

lemma append_paths_valid [simp]: "fst (append_paths paths out fx) \<noteq> CSH_EXPAND_INVALID"
proof (induction paths arbitrary: out fx)
  case (Cons path paths)
  obtain b fx1 where i: "interrupted fx = (b, fx1)" by (rule prod.exhaust)
  obtain r out' fx2 where a: "csh_fields_append out path fx1 = (r, out', fx2)" by (rule prod_cases3)
  then have "r \<noteq> CSH_EXPAND_INVALID" using fields_append_valid [of out path fx1] by simp
  with Cons show ?case by (cases b; cases r) (simp_all add: i a)
qed simp

lemma pathname_expand_valid [simp]: "fst (csh_pathname_expand cx ph raw pattern out fx) \<noteq> CSH_EXPAND_INVALID"
proof -
  obtain b fx1 where i: "interrupted fx = (b, fx1)" by (rule prod.exhaust)
  obtain n fx2 where n: "pathname_pattern cx pattern fx1 = (n, fx2)" by (rule prod.exhaust)
  obtain start fx3 where j: "path_join [] [] [] fx2 = (start, fx3)" by (rule prod.exhaust)
  obtain r paths fx4 where a: "append_path [] start fx3 = (r, paths, fx4)" by (rule prod_cases3)
  obtain r' paths' fx5 where l: "component_loop cx ph (the n) 0 paths fx4 = (r', paths', fx5)" by (rule prod_cases3)
  obtain b' fx6 where i': "interrupted fx5 = (b', fx6)" by (rule prod.exhaust)
  have "r \<noteq> CSH_EXPAND_INVALID" "r' \<noteq> CSH_EXPAND_INVALID"
    using append_path_valid [of "[]" start fx3] component_loop_valid [of cx ph "the n" 0 paths fx4] a l by simp_all
  then show ?thesis
    unfolding csh_pathname_expand_def i prod.case n j a
    by (cases b; cases n; cases r; cases r'; cases b') (use l i' in \<open>simp_all\<close>)
qed

lemma bracket_scan_valid: "fst (bracket_scan cx context opener n bs quoted fx) \<noteq> CSH_EXPAND_INVALID"
proof (induction "length bs" arbitrary: n bs quoted fx rule: less_induct)
  case less
  show ?case
  proof (cases bs)
    case Nil
    then show ?thesis by simp
  next
    case (Cons b cs)
    obtain i fx1 where i: "interrupted fx = (i, fx1)" by (rule prod.exhaust)
    let ?w = "csh_character_length cx (raw_text (b # cs)) False True"
    have "length (drop ?w bs) < length bs" using Cons by (auto simp: diff_less)
    from less [OF this] have "fst (bracket_scan cx context opener (n + ?w) (drop ?w (b # cs)) q fx1) \<noteq> CSH_EXPAND_INVALID" for q
      unfolding Cons .
    then show ?thesis unfolding Cons bracket_scan.simps(2) i prod.case Let_def by (cases i) simp_all
  qed
qed

lemma pattern_loop_valid: "fst (pattern_loop cx context bs escaping bracket out fx) \<noteq> CSH_EXPAND_INVALID"
proof (induction "length bs" arbitrary: bs escaping bracket out fx rule: less_induct)
  case less
  show ?case
  proof (cases bs)
    case Nil
    then show ?thesis by simp
  next
    case (Cons b cs)
    let ?w = "csh_character_length cx (raw_text (b # cs)) False True"
    have all: "fst (pattern_loop cx context (drop n cs) e k o' f) \<noteq> CSH_EXPAND_INVALID" for n e k o' f
      by (rule less) (simp add: Cons)
    have "drop ?w (b # cs) = drop (?w - 1) cs" by (cases ?w) (use character_length_pos [of "raw_text (b # cs)" cx False] in auto)
    note all' = all [of 0, simplified] all all [of "?w - 1", folded this]
    obtain i fx1 where i: "interrupted fx = (i, fx1)" by (rule prod.exhaust)
    let ?bracket = "if context = CSH_EXPAND_ARGUMENT \<and> fb_char b = CHR ''/'' then 0 else bracket"
    obtain r e forced fx2 where s: "(if ?bracket \<noteq> 0 \<and> fb_char b = CHR ''['' \<and> \<not> fb_quoted b
        then bracket_subexpression cx context (b # cs) fx1 else (CSH_EXPAND_OK, None, False, fx1)) = (r, e, forced, fx2)"
      by (rule prod_cases4)
    have r: "r \<noteq> CSH_EXPAND_INVALID"
      using s bracket_scan_valid [of cx "context" "fb_char ((b # cs) ! 1)" 1 "tl (b # cs)" False fx1]
      by (auto simp: bracket_subexpression_def split: if_splits)
    show ?thesis
      unfolding Cons pattern_loop.simps(2) i prod.case Let_def s
      using r all' by (cases i; cases r; cases e; cases forced) (auto split: prod.splits bool.splits)
  qed
qed

lemma emit_valid [simp]: "fst (emit cx ph context options bs out fx) \<noteq> CSH_EXPAND_INVALID"
proof -
  obtain r p fx1 where p: "make_pattern cx context bs fx = (r, p, fx1)" by (rule prod_cases3)
  have "r \<noteq> CSH_EXPAND_INVALID"
    using pattern_loop_valid [of cx "context" bs False 0 "[]" fx] p by (simp add: make_pattern_def)
  with p show ?thesis unfolding emit_def p prod.case by (cases r) simp_all
qed

lemma split_loop_valid: "fst (split_loop cx ph context ifs options cursor raw keep out fx) \<noteq> CSH_EXPAND_INVALID"
proof (induction "cursor_size cursor" arbitrary: cursor raw keep out fx rule: less_induct)
  case less
  show ?case
  proof (cases "current cursor")
    case Nil
    then show ?thesis by (simp add: split_loop.simps [of cx ph "context" ifs options cursor])
  next
    case (Cons x cs)
    obtain s r where x: "x = (s, r)" by (rule prod.exhaust)
    have cur: "current cursor = (s, r) # cs" using Cons x by simp
    obtain i fx1 where i: "interrupted fx = (i, fx1)" by (rule prod.exhaust)
    let ?w = "csh_character_length cx r False True"
    have 1: "fst (split_loop cx ph context ifs options cs raw' keep' out' fx') \<noteq> CSH_EXPAND_INVALID" for raw' keep' out' fx'
      using current_step(1) [OF cur] by (rule less)
    have 2: "span_bytes s \<noteq> [] \<Longrightarrow> fst (split_loop cx ph context ifs options ((s, drop ?w r) # cs) raw' keep' out' fx') \<noteq> CSH_EXPAND_INVALID"
      for raw' keep' out' fx'
      using current_step(2) [OF cur, of cx] less by blast
    obtain j n cursor' fx2 where k: "skip_white cx ifs ((s, r) # cs) fx1 = (j, n, cursor', fx2)" by (rule prod_cases4)
    have 3: "fst (split_loop cx ph context ifs options (advance n cursor') raw' keep' out' fx') \<noteq> CSH_EXPAND_INVALID"
      if "fst (delimiter cx ifs ((s, r) # cs)) \<noteq> 0" "\<not> j" for raw' keep' out' fx'
    proof (rule less)
      have "cursor_size (advance n cursor') < cursor_size ((s, r) # cs)"
        using skip_white_progress [OF that(1)] k that(2) by (cases j) simp_all
      with current_size [of cursor] cur show "cursor_size (advance n cursor') < cursor_size cursor" by simp
    qed
    obtain r4 out4 fx4 where e: "emit cx ph context options raw out fx2 = (r4, out4, fx4)" by (rule prod_cases3)
    then have r4: "r4 \<noteq> CSH_EXPAND_INVALID" using emit_valid [of cx ph "context" options raw out fx2] by simp
    show ?thesis
      unfolding split_loop.simps [of cx ph "context" ifs options cursor] cur list.case prod.case i k Let_def
      using 1 2 3 e r4 by (cases "context = CSH_EXPAND_ARGUMENT"; cases "n = 0"; cases i; cases j; cases r4) simp_all
  qed
qed

lemma check_spans_valid: "\<forall>s\<in>set spans. span_ok s \<Longrightarrow> fst (check_spans spans n fx) \<noteq> CSH_EXPAND_INVALID"
proof (induction spans arbitrary: n fx)
  case (Cons s spans)
  obtain i fx1 where i: "interrupted fx = (i, fx1)" by (rule prod.exhaust)
  have "span_ok s" using Cons.prems by simp
  with Cons.IH Cons.prems show ?case unfolding check_spans.simps i prod.case Let_def
    by (cases i) (auto simp: span_ok_def c_string_def)
qed simp

lemma finish_field_valid:
  assumes "\<forall>s\<in>set spans. span_ok s"
  shows "fst (finish_field cx ph (Some spans) context ifs options out fx) \<noteq> CSH_EXPAND_INVALID"
proof -
  obtain r fx1 where c: "check_spans spans 0 fx = (r, fx1)" by (rule prod.exhaust)
  then have r: "r \<noteq> CSH_EXPAND_INVALID" using check_spans_valid [OF assms, of 0 fx] by simp
  show ?thesis
    unfolding finish_field_def option.case c prod.case
    using r split_loop_valid by (cases r) (auto simp: Let_def split: prod.splits)
qed

lemma finish_fields_valid:
  "out_ok fs \<Longrightarrow> fst (finish_fields cx ph (map Some fs) context ifs options out fx) \<noteq> CSH_EXPAND_INVALID"
proof (induction fs arbitrary: out fx)
  case (Cons spans fs)
  obtain i fx1 where i: "interrupted fx = (i, fx1)" by (rule prod.exhaust)
  obtain r out1 fx2 where f: "finish_field cx ph (Some spans) context ifs options out fx1 = (r, out1, fx2)" by (rule prod_cases3)
  have "r \<noteq> CSH_EXPAND_INVALID"
    using finish_field_valid [of spans cx ph "context" ifs options out fx1] Cons.prems f by simp
  with Cons show ?case unfolding list.map finish_fields.simps i prod.case f by (cases i; cases r) simp_all
qed simp

lemma expand_fields_valid:
  assumes "out_ok fs"
  shows "fst (csh_expand_fields cx ph s (Some \<lparr>ex_fields = Some (map Some fs), ex_context = context\<rparr>) fx) \<noteq> CSH_EXPAND_INVALID"
proof -
  obtain view where v: "csh_state_get_variable s (Some ''IFS'') = (CSH_STATE_OK, view)"
    by (simp add: csh_state_get_variable_def valid_name_def name_start_def split: option.splits)
  let ?ifs = "case view_value view of None \<Rightarrow> [CHR '' '', CHR 0x09, CHR 0x0A] | Some v \<Rightarrow> v"
  obtain r out fx1 where f: "finish_fields cx ph (map Some fs) context ?ifs (si_options (csh_state_get_info s)) [] fx = (r, out, fx1)"
    by (rule prod_cases3)
  have r: "r \<noteq> CSH_EXPAND_INVALID"
    using finish_fields_valid [OF assms, of cx ph "context" ?ifs "si_options (csh_state_get_info s)" "[]" fx] f by simp
  obtain i fx2 where i: "interrupted fx1 = (i, fx2)" by (rule prod.exhaust)
  show ?thesis
    unfolding csh_expand_fields_def option.case csh_expansion.simps v prod.case csh_state_result.case Let_def f
    using r by (cases r; cases i) (simp_all add: i)
qed

text \<open>
  C7: the two stages of expansion fit together. What \<open>csh_expand_word\<close> returns satisfies every requirement
  that \<open>csh_expand_fields\<close> checks of its input - texts without NUL, no split quoted span, no kept unquoted
  empty span - in whatever state, encoding and file system the fields are made, so the second stage never
  answers \<open>CSH_EXPAND_INVALID\<close>; and the values in the state stay C strings.
\<close>

theorem expand_word_fields:
  assumes "host_strings xh" and "c_strings (xw_state w)"
    and "csh_expand_word xh word context w = Some (CSH_EXPAND_OK, out, w')"
  shows "c_strings (xw_state w') \<and> out_ok out \<and>
    fst (csh_expand_fields cx ph s (Some \<lparr>ex_fields = Some (map Some out), ex_context = context\<rparr>) fx) \<noteq> CSH_EXPAND_INVALID"
  using assms(3)
proof (cases rule: csh_expand_word_cases)
  case (early r w2)
  then show ?thesis by simp
next
  case (ranged pw w1 cp wo y)
  obtain r1 out1 w2 where y: "y = Some (r1, out1, w2)" using ranged(7) by (cases y) auto
  have "range_kept (expand_range (expand_fuel word) xh pw) CSH_FRAGMENT_ROOT"
    by (rule expand_range_kept [OF assms(1) ranged(1)]) (simp add: inside_def)
  from range_keptD [OF this, of 0 "length (tk_raw word)" "context" "[]"] ranged(3,6) y assms(2)
  have "out_ok out1 \<and> c_strings (xw_state w2)" by auto
  moreover have "out = out1 \<and> xw_state w' = xw_state w2"
    using ranged(7) y by (auto split: if_splits prod.splits)
  ultimately show ?thesis using expand_fields_valid by simp
qed

lemma splits_prefix: "(a, b) \<in> set (splits cx pre post) \<Longrightarrow> length pre \<le> length a"
proof (induction cx pre post rule: splits.induct)
  case (1 cx pre post)
  from "1.prems" show ?case
    by (subst (asm) splits.simps) (use "1.IH" in \<open>fastforce split: if_splits\<close>)
qed

lemma splits_sorted: "sorted (map (\<lambda>(a, b). length a) (splits cx pre post))"
proof (induction cx pre post rule: splits.induct)
  case (1 cx pre post)
  then show ?case
    by (subst splits.simps) (auto dest!: splits_prefix)
qed

lemma sorted_hd_last:
  assumes "sorted (map f xs)" "x \<in> set xs"
  shows "f (hd xs) \<le> f x \<and> f x \<le> f (last xs)"
  using assms
proof (induction xs)
  case (Cons y ys)
  then show ?case by (cases "ys = []") (auto dest: order_trans)
qed simp

text \<open>
  C16: \<open>${name#pattern}\<close>, \<open>${name##pattern}\<close>, \<open>${name%pattern}\<close> and \<open>${name%%pattern}\<close> remove what the standard
  says. If no prefix (suffix) of the value that ends (starts) between characters matches, the value is
  unchanged; otherwise the removed part is such a prefix (suffix), it matches, and no other matching one is
  shorter for the single operator, longer for the double one.
\<close>

theorem remove_pattern_removes:
  assumes "remove_pattern xh w v pattern suffix longest = t"
  shows "(let matching = {(a, b) \<in> set (splits (xw_ctype xh w) [] v). xh_fnmatch xh pattern (if suffix then b else a)};
              part = (\<lambda>(a, b). if suffix then b else a); rest = (\<lambda>(a, b). if suffix then a else b)
          in if matching = {} then t = v
             else \<exists>c\<in>matching. t = rest c \<and>
               (\<forall>d\<in>matching. if longest then length (part d) \<le> length (part c) else length (part c) \<le> length (part d)))"
proof -
  let ?sp = "splits (xw_ctype xh w) [] v"
  let ?P = "\<lambda>(a, b). xh_fnmatch xh pattern (if suffix then b else a)"
  let ?len = "\<lambda>(a, b). length a" and ?part = "\<lambda>(a, b). if suffix then b else a" and ?rest = "\<lambda>(a, b). if suffix then a else b"
  let ?found = "filter ?P ?sp"
  have set: "set ?found = {(a, b) \<in> set ?sp. xh_fnmatch xh pattern (if suffix then b else a)}" by auto
  have whole: "a @ b = v" if "(a, b) \<in> set ?found" for a b using that splits_parts [of a b _ "[]" v] by auto
  show ?thesis
  proof (cases "?found = []")
    case True
    with assms have "t = v" by (simp add: remove_pattern_def remove_scan_splits Let_def)
    with True show ?thesis unfolding set [symmetric] Let_def by simp
  next
    case False
    define c where "c = (if suffix = longest then hd ?found else last ?found)"
    have c: "c \<in> set ?found" unfolding c_def using False by (metis hd_in_set last_in_set)
    have t: "t = ?rest c"
      using assms False by (auto simp: remove_pattern_def remove_scan_splits c_def Let_def split: prod.splits)
    have sorted: "sorted (map ?len ?found)" using splits_sorted by (rule sorted_filter)
    have "if longest then length (?part d) \<le> length (?part c) else length (?part c) \<le> length (?part d)" if d: "d \<in> set ?found" for d
    proof -
      obtain c1 c2 d1 d2 where cd: "c = (c1, c2)" "d = (d1, d2)" by (cases c; cases d) auto
      have "length c1 + length c2 = length d1 + length d2" using whole c d cd by (metis length_append)
      moreover have "if suffix = longest then length c1 \<le> length d1 else length d1 \<le> length c1"
        using sorted_hd_last [OF sorted d] cd by (auto simp: c_def split: if_splits)
      ultimately show ?thesis using cd by (cases suffix; cases longest) simp_all
    qed
    with c t False show ?thesis unfolding set [symmetric] Let_def by (metis (no_types, lifting) empty_iff)
  qed
qed

subsection \<open>A word that assigns and then fails\<close>

text \<open>\<open>${n=v}$(a)\<close> without an executor for commands.\<close>

definition sample_expand_host :: expand_host where
  "sample_expand_host = \<lparr>xh_ctype = utf8_context, xh_paths = sample_tree, xh_fnmatch = (\<lambda>p t. p = ''*b'' \<and> t \<noteq> [] \<and> last t = CHR ''b''),
     xh_getpwnam = (\<lambda>_. None), xh_substitute = None\<rparr>"
definition sample_work :: expand_work where
  "sample_work = \<lparr>xw_state = sample_state, xw_world = sample_world, xw_checks = [], xw_arith_checks = [],
     xw_error = \<lparr>ee_code = CSH_EXPAND_OK, ee_fragment = 0, ee_position = no_position, ee_message = []\<rparr>\<rparr>"
definition fragment :: "csh_fragment_kind \<Rightarrow> csh_quote \<Rightarrow> nat \<Rightarrow> nat \<Rightarrow> nat \<Rightarrow> csh_fragment" where
  "fragment k q p a b = \<lparr>fr_kind = k, fr_quote = q, fr_parent = p, fr_begin = a, fr_end = b, fr_start = no_position, fr_finish = no_position\<rparr>"
definition word_token :: "string \<Rightarrow> csh_fragment list \<Rightarrow> csh_token" where
  "word_token raw fs = \<lparr>tk_kind = CSH_TOKEN_WORD, tk_source_name = [], tk_raw = raw, tk_start = no_position, tk_end = no_position,
     tk_fragments = fs, tk_alias_name = None, tk_invocation_source = None, tk_invocation = no_position, tk_alias_eligible = False\<rparr>"

definition sample_word :: csh_token where
  "sample_word = word_token ''${n=v}$(a)'' [fragment CSH_FRAGMENT_PARAMETER CSH_QUOTE_NONE CSH_FRAGMENT_ROOT 0 6,
      fragment CSH_FRAGMENT_TEXT CSH_QUOTE_NONE 0 4 5, fragment CSH_FRAGMENT_COMMAND CSH_QUOTE_NONE CSH_FRAGMENT_ROOT 6 10]"
lemma sample_word_simps [simp]: "tk_kind sample_word = CSH_TOKEN_WORD" "tk_raw sample_word = ''${n=v}$(a)''"
  "tk_fragments sample_word = [fragment CSH_FRAGMENT_PARAMETER CSH_QUOTE_NONE CSH_FRAGMENT_ROOT 0 6,
      fragment CSH_FRAGMENT_TEXT CSH_QUOTE_NONE 0 4 5, fragment CSH_FRAGMENT_COMMAND CSH_QUOTE_NONE CSH_FRAGMENT_ROOT 6 10]"
  by (simp_all add: sample_word_def word_token_def)
lemma fragment_simps [simp]: "fr_kind (fragment k q p a b) = k" "fr_quote (fragment k q p a b) = q" "fr_parent (fragment k q p a b) = p"
  "fr_begin (fragment k q p a b) = a" "fr_end (fragment k q p a b) = b"
  by (simp_all add: fragment_def)
lemma root_neq [simp]: "CSH_FRAGMENT_ROOT \<noteq> 0" "CSH_FRAGMENT_ROOT \<noteq> Suc 0" by (simp_all add: CSH_FRAGMENT_ROOT_def SIZE_MAX_def)

lemma sample_bytes:
  "logical sample_word 0 6 = (Some CHR ''$'', Suc 0)" "logical sample_word (Suc 0) 6 = (Some CHR ''{'', 2)" "logical sample_word 2 5 = (Some CHR ''n'', 3)"
  "logical sample_word 3 5 = (Some CHR ''='', 4)" "logical sample_word 4 5 = (Some CHR ''v'', 5)"
  "logical sample_word 6 10 = (Some CHR ''$'', 7)" "logical sample_word 7 10 = (Some CHR ''('', 8)"
  by (simp_all add: logical.simps)

lemma xw_malloc_free [simp]: "mallocs (xw_world w) = [] \<Longrightarrow> xw_malloc w = (True, w)"
  by (simp add: xw_malloc_def)

lemma sample_prepare:
  assumes "mallocs (xw_world w) = []"
  shows "prepare xh sample_word w =
    (CSH_EXPAND_OK, \<lparr>pw_word = sample_word, pw_next = [2, 2, 3], pw_decoded = [None, None, None]\<rparr>, w)"
proof -
  have "prepare_scan cx sample_word 0 (tk_fragments sample_word) [] 0 [0, 0, 0] = Inr [2, 2, 3]" for cx
    by (simp add: structure_ok_def nesting_ok_def fragment_syntax_def sample_bytes Let_def)
  then show ?thesis using assms
    by (simp add: prepare_def SIZE_MAX_def Let_def numeral_3_eq_3)
qed

abbreviation sample_prepared :: prepared_word where
  "sample_prepared \<equiv> \<lparr>pw_word = sample_word, pw_next = [2, 2, 3], pw_decoded = [None, None, None]\<rparr>"

lemma sample_children: "children sample_prepared CSH_FRAGMENT_ROOT = Some [0, 2]" "children sample_prepared 0 = Some [1]"
  by (simp_all add: children_def Let_def numeral_3_eq_3 numeral_2_eq_2)

lemma sample_syntax:
  "parameter_start sample_word (fragment CSH_FRAGMENT_PARAMETER CSH_QUOTE_NONE CSH_FRAGMENT_ROOT 0 6) =
     \<lparr>ph_braced = True, ph_length = False, ph_stop = 5, ph_save = 2, ph_byte = Some CHR ''n'', ph_pos = 3\<rparr>"
  "parameter_syntax sample_word \<lparr>ph_braced = True, ph_length = False, ph_stop = 5, ph_save = 2, ph_byte = Some CHR ''n'', ph_pos = 3\<rparr> =
     Some \<lparr>pf_name = ''n'', pf_op = Some CHR ''='', pf_colon = False, pf_longest = False, pf_operand = 4\<rparr>"
  by (simp_all add: parameter_start_def sample_bytes parameter_syntax_def parameter_name_def name_start_def less_eq_char_def
      more_name.simps name_char_def digit_def parameter_operator_def Let_def)

lemma stack_check_free [simp]: "xw_checks w = [] \<Longrightarrow> expand_stack_check w = (True, w)"
  by (simp add: expand_stack_check_def)

lemma append_free:
  assumes "mallocs (xw_world w) = []" "length bytes < 1000"
  shows "append_span context [] bytes quote origin keep w = (CSH_EXPAND_OK, [[make_span context bytes quote origin keep]], w)"
  using assms by (simp add: append_span_def new_field_def SIZE_MAX_def)

lemma sample_operand:
  assumes "mallocs (xw_world w) = []" "xw_checks w = []"
  shows "expand_range (Suc fuel) xh sample_prepared 0 4 5 CSH_EXPAND_ASSIGNMENT [] CSH_EXPAND_PARAMETER True False w =
    Some (CSH_EXPAND_OK, [[make_span CSH_EXPAND_ASSIGNMENT ''v'' CSH_QUOTE_NONE CSH_EXPAND_PARAMETER False]], w)"
  using assms append_free [of w "''v''"]
  by (simp add: sample_children expand_text_def slice_def csh_character_length_def Let_def)

lemma sample_assignment:
  assumes "mallocs (xw_world w) = []" "xw_checks w = []" "find_variable (xw_state w) ''n'' = None"
    "si_options (st_info (xw_state w)) = 0"
  shows "\<exists>w'. expand_parameter (expand_range (Suc fuel) xh sample_prepared) xh sample_prepared 0 context [] w =
     Some (CSH_EXPAND_OK, [[make_span context ''v'' CSH_QUOTE_NONE CSH_EXPAND_PARAMETER False]], w') \<and> mallocs (xw_world w') = [] \<and>
     xw_checks w' = [] \<and> xw_error w' = xw_error w"
proof -
  let ?s = "xw_state w" and ?wo = "xw_world w"
  have v: "parameter_value ''n'' w = (CSH_EXPAND_OK, Some [], False, w)"
    using assms by (simp add: parameter_value_def parameter_lookup_def name_start_def less_eq_char_def csh_state_get_variable_def
      valid_name_def no_view_def copy_bytes_def Let_def SIZE_MAX_def)
  obtain s' where s: "csh_state_set_variable ?s (Some ''n'') (Some ''v'') ?wo = (CSH_STATE_OK, s', ?wo)" "si_options (st_info s') = 0"
    using assms by (simp add: csh_state_set_variable_def valid_name_def name_start_def less_eq_char_def new_variable_def copy_bytes_def
      after_assignment_def locale_variable_def Let_def SIZE_MAX_def locale_categories_def)
  obtain w' where a: "expand_assign ''n'' ''v'' w = (CSH_EXPAND_OK, w')" and w': "mallocs (xw_world w') = []" "xw_checks w' = []" "xw_error w' = xw_error w"
    using s assms by (auto simp: expand_assign_def Let_def csh_state_get_info_def)
  have f: "flatten [[make_span CSH_EXPAND_ASSIGNMENT ''v'' CSH_QUOTE_NONE CSH_EXPAND_PARAMETER False]] w = (Some ''v'', w)"
    using assms by (simp add: flatten_def expansion_bytes_def make_span_def SIZE_MAX_def)
  show ?thesis
    using assms w' append_free [of w' "''v''"] sample_operand [of w fuel xh]
    by (simp add: expand_parameter_def Let_def sample_syntax expand_value_def v expand_modifier_def sample_bytes f a scalar_def
      expand_done_def)
qed

lemma sample_range:
  assumes "mallocs (xw_world w) = []" "xw_checks w = []" "find_variable (xw_state w) ''n'' = None"
    "si_options (st_info (xw_state w)) = 0" "xh_substitute xh = None"
  shows "\<exists>out w'. expand_range (Suc (Suc fuel)) xh sample_prepared CSH_FRAGMENT_ROOT 0 10 context [] origin tilde colons w =
    Some (CSH_EXPAND_DEFERRED, out, w')"
proof -
  obtain w1 where "expand_parameter (expand_range (Suc fuel) xh sample_prepared) xh sample_prepared 0 context [] w =
      Some (CSH_EXPAND_OK, [[make_span context ''v'' CSH_QUOTE_NONE CSH_EXPAND_PARAMETER False]], w1)"
    using sample_assignment [OF assms(1-4)] by blast
  then show ?thesis
    using assms by (simp add: sample_children expand_fragment_def substitution_def expand_fail_def Let_def)
qed

lemma sample_fails:
  "\<exists>w'. csh_expand_word sample_expand_host sample_word CSH_EXPAND_ARGUMENT sample_work = Some (CSH_EXPAND_DEFERRED, [], w')"
proof -
  let ?w = "sample_work\<lparr>xw_error := \<lparr>ee_code = CSH_EXPAND_OK, ee_fragment = CSH_FRAGMENT_ROOT, ee_position = no_position, ee_message = []\<rparr>\<rparr>"
  let ?saved = "?w\<lparr>xw_world := sample_world\<lparr>refs := (\<lambda>i. if i = 7 then 2 else 1)\<rparr>\<rparr>"
  have w0: "mallocs (xw_world ?saved) = []" "xw_checks ?saved = []" "find_variable (xw_state ?saved) ''n'' = None" "si_options (st_info (xw_state ?saved)) = 0"
    "xh_substitute sample_expand_host = None"
    by (simp_all add: sample_work_def sample_world_def sample_state_def zero_state_def zero_info_def find_variable_def sample_expand_host_def)
  obtain out w2 where r: "expand_range (expand_fuel sample_word) sample_expand_host sample_prepared CSH_FRAGMENT_ROOT 0 (length (tk_raw sample_word))
      CSH_EXPAND_ARGUMENT [] CSH_EXPAND_LITERAL (CSH_EXPAND_ARGUMENT \<noteq> CSH_EXPAND_HEREDOC) (CSH_EXPAND_ARGUMENT = CSH_EXPAND_ASSIGNMENT) ?saved =
      Some (CSH_EXPAND_DEFERRED, out, w2)"
    using sample_range [OF w0, of 2 CSH_EXPAND_ARGUMENT CSH_EXPAND_LITERAL True False] by (auto simp: expand_fuel_def eval_nat_numeral)
  have p: "prepare sample_expand_host sample_word ?w = (CSH_EXPAND_OK, sample_prepared, ?w)"
    by (rule sample_prepare) (simp add: sample_work_def sample_world_def)
  have s: "csh_state_save (xw_state ?w) (xw_world ?w) =
     (CSH_STATE_OK, Some sample_state, sample_world\<lparr>refs := (\<lambda>i. if i = 7 then 2 else 1)\<rparr>)"
    using save_sample by (simp add: sample_work_def)
  obtain c s' wo where e: "csh_state_restore (xw_state w2) (Some sample_state) (xw_world w2) = (c, s', wo)" by (rule prod_cases3)
  show ?thesis
    unfolding csh_expand_word_def Let_def p prod.case s r option.case
    using e by simp
qed

lemma sample_strings: "c_strings sample_state" "host_strings sample_expand_host"
  by (auto simp: c_strings_def sample_state_def zero_state_def zero_info_def host_strings_def sample_expand_host_def)

theorem expand_word_rollback_witness:
  "\<exists>w'. csh_expand_word sample_expand_host sample_word CSH_EXPAND_ARGUMENT sample_work = Some (CSH_EXPAND_DEFERRED, [], w') \<and>
     xw_state w' = sample_state"
proof -
  obtain w' where w': "csh_expand_word sample_expand_host sample_word CSH_EXPAND_ARGUMENT sample_work = Some (CSH_EXPAND_DEFERRED, [], w')"
    using sample_fails by blast
  have "wf_state (xw_state sample_work)" "refs_room (xw_state sample_work) (xw_world sample_work)"
    by (simp_all add: sample_work_def sample_wf sample_room)
  from expand_word_rollback [OF this w'] w' show ?thesis by (simp add: sample_work_def)
qed

text \<open>\<open>''\<close>, an empty quoted word.\<close>

definition empty_word :: csh_token where
  "empty_word = word_token [CHR 0x27, CHR 0x27] [fragment CSH_FRAGMENT_QUOTED CSH_QUOTE_SINGLE CSH_FRAGMENT_ROOT 0 2]"

lemma empty_expands:
  "\<exists>w'. csh_expand_word sample_expand_host empty_word CSH_EXPAND_ARGUMENT sample_work =
     Some (CSH_EXPAND_OK, [[make_span CSH_EXPAND_ARGUMENT [] CSH_QUOTE_SINGLE CSH_EXPAND_LITERAL True]], w')"
proof -
  let ?w = "sample_work\<lparr>xw_error := \<lparr>ee_code = CSH_EXPAND_OK, ee_fragment = CSH_FRAGMENT_ROOT, ee_position = no_position, ee_message = []\<rparr>\<rparr>"
  let ?pw = "\<lparr>pw_word = empty_word, pw_next = [Suc 0], pw_decoded = [None]\<rparr>"
  let ?saved = "?w\<lparr>xw_world := sample_world\<lparr>refs := (\<lambda>i. if i = 7 then 2 else 1)\<rparr>\<rparr>"
  have m: "mallocs (xw_world ?w) = []" "mallocs (xw_world ?saved) = []" by (simp_all add: sample_work_def sample_world_def)
  have p: "prepare sample_expand_host empty_word ?w = (CSH_EXPAND_OK, ?pw, ?w)"
    using m(1) by (simp add: prepare_def empty_word_def word_token_def structure_ok_def nesting_ok_def fragment_syntax_def SIZE_MAX_def Let_def)
  have s: "csh_state_save (xw_state ?w) (xw_world ?w) =
     (CSH_STATE_OK, Some sample_state, sample_world\<lparr>refs := (\<lambda>i. if i = 7 then 2 else 1)\<rparr>)"
    using save_sample by (simp add: sample_work_def)
  have "children ?pw CSH_FRAGMENT_ROOT = Some [0]" "children ?pw 0 = Some []"
    by (simp_all add: children_def empty_word_def word_token_def Let_def)
  then have r: "expand_range (expand_fuel empty_word) sample_expand_host ?pw CSH_FRAGMENT_ROOT 0 (length (tk_raw empty_word))
      CSH_EXPAND_ARGUMENT [] CSH_EXPAND_LITERAL (CSH_EXPAND_ARGUMENT \<noteq> CSH_EXPAND_HEREDOC) (CSH_EXPAND_ARGUMENT = CSH_EXPAND_ASSIGNMENT) ?saved =
      Some (CSH_EXPAND_OK, [[make_span CSH_EXPAND_ARGUMENT [] CSH_QUOTE_SINGLE CSH_EXPAND_LITERAL True]], ?saved)"
    using m(2) append_free [of ?saved "[]"]
    by (simp add: expand_fuel_def empty_word_def word_token_def expand_fragment_def scalar_def sample_work_def Let_def)
  show ?thesis
    unfolding csh_expand_word_def Let_def p prod.case s r option.case by simp
qed

theorem expand_word_fields_witness:
  "\<exists>out w'. csh_expand_word sample_expand_host empty_word CSH_EXPAND_ARGUMENT sample_work = Some (CSH_EXPAND_OK, out, w') \<and> out \<noteq> [] \<and>
     fst (csh_expand_fields utf8_context sample_tree sample_state
       (Some \<lparr>ex_fields = Some (map Some out), ex_context = CSH_EXPAND_ARGUMENT\<rparr>) calm_host) \<noteq> CSH_EXPAND_INVALID"
proof -
  obtain out w' where w': "csh_expand_word sample_expand_host empty_word CSH_EXPAND_ARGUMENT sample_work = Some (CSH_EXPAND_OK, out, w')" "out \<noteq> []"
    using empty_expands by blast
  have "c_strings (xw_state sample_work)" by (simp add: sample_work_def sample_strings)
  from expand_word_fields [OF sample_strings(2) this w'(1), of utf8_context sample_tree sample_state calm_host] w' show ?thesis by blast
qed

lemma sample_splits:
  "splits (xw_ctype sample_expand_host sample_work) [] ''abab'' = [([], ''abab''), (''a'', ''bab''), (''ab'', ''ab''), (''aba'', ''b''), (''abab'', [])]"
proof -
  have "character_bytes (xw_ctype sample_expand_host sample_work) (c # t) = 1" if "c = CHR ''a'' \<or> c = CHR ''b''" for c t
    using that by (auto simp: character_bytes_def xw_ctype_def sample_expand_host_def utf8_context_def utf8_def utf8_lead_def sample_work_def)
  then show ?thesis by (simp add: splits.simps)
qed

theorem remove_pattern_removes_witness:
  "remove_pattern sample_expand_host sample_work ''abab'' ''*b'' False False = ''ab'' \<and>
   (\<exists>c\<in>{(''ab'', ''ab''), (''abab'', [])}. ''ab'' = snd c \<and> (\<forall>d\<in>{(''ab'', ''ab''), (''abab'', [])}. length (fst c) \<le> length (fst d)))"
proof -
  have e: "remove_pattern sample_expand_host sample_work ''abab'' ''*b'' False False = ''ab''"
    by (simp add: remove_pattern_def remove_scan_splits sample_splits) (simp add: sample_expand_host_def)
  have m: "{(a, b) \<in> set (splits (xw_ctype sample_expand_host sample_work) [] ''abab''). xh_fnmatch sample_expand_host ''*b'' (if False then b else a)} =
      {(''ab'', ''ab''), (''abab'', [])}"
    unfolding sample_splits by (auto simp: sample_expand_host_def)
  from remove_pattern_removes [OF e] e show ?thesis unfolding m Let_def by simp
qed

end
