(* ===== verification/Lexer.thy ===== *)
theory Lexer
  imports Expansion Arithmetic Input "HOL-Library.Monad_Syntax"
begin

text \<open>
  The tokenizer (\<open>src/lexer.c\<close>): the shared source with its alias replacements, the stack of lexers of nested
  command substitutions, the contexts and fragments of a pending word, the candidates for arithmetic
  expansion that may be replayed as command substitutions, and one round of the loop of \<open>next_token\<close>.
\<close>

subsection \<open>State\<close>

datatype csh_lex_result =
  CSH_LEX_ERROR | CSH_LEX_EOF | CSH_LEX_TOKEN | CSH_LEX_MORE | CSH_LEX_COMMAND | CSH_LEX_REPLAY

record alias_source =
  al_name :: string
  al_source_name :: string
  al_invocation_source :: string
  al_invocation :: csh_position
  al_resume :: csh_position
  al_end :: nat
  al_owner_depth :: nat
  al_trailing_blank :: bool

text \<open>The cache of \<open>peek\<close>: \<open>look_offset\<close>, \<open>look_scan\<close> and the first \<open>look_count\<close> entries of
  \<open>look_positions\<close>. Not \<open>look_valid\<close> is \<open>None\<close>.\<close>

record look_cache =
  lk_offset :: nat
  lk_scan :: nat
  lk_positions :: "nat list"

record source =
  so_name :: string
  so_data :: string
  so_capacity :: nat
  so_cursor :: nat
  so_position :: csh_position
  so_aliases :: "alias_source list"
  so_alias_capacity :: nat
  so_sequence :: nat
  so_alias_eligible :: bool
  so_look :: "look_cache option"
  so_final :: bool
  so_failure :: csh_error

text \<open>\<open>ca_depth\<close> stands for the pointer to the lexer at that depth.\<close>

record capture_checkpoint =
  ca_depth :: nat
  ca_length :: nat
  ca_position :: csh_position

record arithmetic_checkpoint =
  ck_source :: source
  ck_fragment_count :: nat
  ck_frame_count :: nat
  ck_command_length :: nat
  ck_body_begin :: nat
  ck_quote :: csh_quote
  ck_captures :: "capture_checkpoint list"

datatype frame_kind = SINGLE | DOUBLE | DOLLAR_SINGLE | PARAMETER | SIMPLE | ARITHMETIC | BACKQUOTE | COMMAND

record frame =
  fm_kind :: frame_kind
  fm_quote :: csh_quote
  fm_fragment :: nat
  fm_parentheses :: nat
  fm_stage :: nat

record csh_lexer =
  lx_start :: csh_position
  lx_spelling_position :: csh_position
  lx_raw :: string
  lx_raw_capacity :: nat
  lx_token_name :: "string option"
  lx_alias_name :: "string option"
  lx_invocation_source :: "string option"
  lx_invocation :: csh_position
  lx_alias_eligible :: bool
  lx_fragments :: "csh_fragment list"
  lx_fragment_capacity :: nat
  lx_frames :: "frame list"
  lx_frame_capacity :: nat
  lx_active :: bool
  lx_comment :: bool
  lx_command :: bool
  lx_document :: bool
  lx_kind :: csh_token_kind
  lx_operator :: string
  lx_last_kind :: csh_token_kind
  lx_last_start :: csh_position
  lx_last_end :: csh_position
  lx_has_last :: bool
  lx_last_sequence :: nat
  lx_arithmetic :: "arithmetic_checkpoint list"

text \<open>The whole of what an operation reads and writes: the shared source, the lexers from the root
  to the deepest child, the caller's \<open>*error\<close> and \<open>errno\<close>, and what the environment answers.\<close>

record lexing =
  lg_source :: source
  lg_lexers :: "csh_lexer list"
  lg_error :: csh_error
  lg_errno :: errno
  lg_world :: world
  lg_checks :: "bool list list"

abbreviation lexer_at :: "nat \<Rightarrow> lexing \<Rightarrow> csh_lexer" where
  "lexer_at d s \<equiv> lg_lexers s ! d"

definition set_lexer :: "nat \<Rightarrow> (csh_lexer \<Rightarrow> csh_lexer) \<Rightarrow> lexing \<Rightarrow> lexing" where
  "set_lexer d f s = s\<lparr>lg_lexers := (lg_lexers s)[d := f (lexer_at d s)]\<rparr>"

definition set_source :: "(source \<Rightarrow> source) \<Rightarrow> lexing \<Rightarrow> lexing" where
  "set_source f s = s\<lparr>lg_source := f (lg_source s)\<rparr>"

definition lex_malloc :: "lexing \<Rightarrow> bool \<times> lexing" where
  "lex_malloc s =
     (case malloc (mallocs (lg_world s)) of
        (b, h) \<Rightarrow> (b, s\<lparr>lg_world := (lg_world s)\<lparr>mallocs := h\<rparr>, lg_errno := (if b then lg_errno s else ENOMEM)\<rparr>))"

definition lexer_operators :: "(string \<times> csh_token_kind) list" where
  "lexer_operators =
     [(''&&'', CSH_TOKEN_AND_IF), (''||'', CSH_TOKEN_OR_IF), ('';;'', CSH_TOKEN_DSEMI), ('';&'', CSH_TOKEN_SEMI_AND),
      (''<<-'', CSH_TOKEN_DLESS_DASH), (''<<'', CSH_TOKEN_DLESS), (''>>'', CSH_TOKEN_DGREAT), (''<&'', CSH_TOKEN_LESS_AND),
      (''>&'', CSH_TOKEN_GREAT_AND), (''<>'', CSH_TOKEN_LESS_GREAT), (''>|'', CSH_TOKEN_CLOBBER), (''|'', CSH_TOKEN_PIPE),
      (''&'', CSH_TOKEN_AMPERSAND), ('';'', CSH_TOKEN_SEMI), (''('', CSH_TOKEN_LPAREN), ('')'', CSH_TOKEN_RPAREN),
      (''<'', CSH_TOKEN_LESS), (''>'', CSH_TOKEN_GREAT)]"

subsection \<open>Errors and cleanup\<close>

definition lex_plain_error :: "string \<Rightarrow> errno \<Rightarrow> csh_error" where
  "lex_plain_error m number =
     \<lparr>message = m, system_errno = number, status = (if number = ENOMEM \<or> number = EOVERFLOW then 1 else 2),
      argument_index = 0, position = \<lparr>p_offset = 0, p_line = 1, p_column = 1\<rparr>\<rparr>"

definition release_work :: "csh_lexer \<Rightarrow> csh_lexer" where
  "release_work l =
     l\<lparr>lx_arithmetic := [], lx_raw := [], lx_raw_capacity := 0, lx_token_name := None, lx_alias_name := None,
       lx_invocation_source := None, lx_fragments := [], lx_fragment_capacity := 0, lx_frames := [], lx_frame_capacity := 0,
       lx_active := False, lx_command := False, lx_comment := False\<rparr>"

definition release_source :: "source \<Rightarrow> source" where
  "release_source so = so\<lparr>so_aliases := [], so_alias_capacity := 0, so_data := [], so_capacity := 0, so_cursor := 0\<rparr>"

definition csh_lexer_diagnostic_position :: "nat \<Rightarrow> csh_position \<Rightarrow> lexing \<Rightarrow> csh_position" where
  "csh_lexer_diagnostic_position d p s =
     (case so_aliases (lg_source s) of
        a # _ \<Rightarrow> al_invocation a
      | [] \<Rightarrow> if lx_invocation_source (lexer_at d s) \<noteq> None then lx_invocation (lexer_at d s) else p)"

definition lex_fail_at :: "nat \<Rightarrow> string \<Rightarrow> errno \<Rightarrow> csh_position \<Rightarrow> lexing \<Rightarrow> lexing" where
  "lex_fail_at d m number p s =
     (if message (so_failure (lg_source s)) = [] then
        (let failure = (lex_plain_error m number)\<lparr>position := csh_lexer_diagnostic_position d p s\<rparr>;
             s = (set_source (\<lambda>so. so\<lparr>so_failure := failure\<rparr>) s)\<lparr>lg_error := failure\<rparr>
         in if number = EOK \<and> (\<exists>l \<in> set (lg_lexers s). lx_arithmetic l \<noteq> []) then s
            else set_source release_source (s\<lparr>lg_lexers := map release_work (lg_lexers s)\<rparr>))
      else s\<lparr>lg_error := so_failure (lg_source s)\<rparr>)"

definition lex_fail :: "nat \<Rightarrow> string \<Rightarrow> errno \<Rightarrow> lexing \<Rightarrow> lexing" where
  "lex_fail d m number s = lex_fail_at d m number (so_position (lg_source s)) s"

text \<open>\<open>reserve\<close>: whether there is room, and the new capacity.\<close>

definition lex_reserve :: "nat \<Rightarrow> nat \<Rightarrow> nat \<Rightarrow> lexing \<Rightarrow> bool \<times> nat \<times> lexing" where
  "lex_reserve capacity count sz s =
     (if count \<le> capacity then (True, capacity, s)
      else if SIZE_MAX div sz < count then (False, capacity, s\<lparr>lg_errno := EOVERFLOW\<rparr>)
      else
        (let grown = grow_capacity (if capacity = 0 then 16 else capacity) count;
             grown = (if SIZE_MAX div sz < grown then count else grown)
         in case lex_malloc s of (False, s) \<Rightarrow> (False, capacity, s) | (True, s) \<Rightarrow> (True, grown, s)))"

subsection \<open>Constructor, destruction and feeding\<close>

definition fresh_lexer :: csh_lexer where
  "fresh_lexer =
     \<lparr>lx_start = no_position, lx_spelling_position = no_position, lx_raw = [], lx_raw_capacity = 0, lx_token_name = None,
      lx_alias_name = None, lx_invocation_source = None, lx_invocation = no_position, lx_alias_eligible = False,
      lx_fragments = [], lx_fragment_capacity = 0, lx_frames = [], lx_frame_capacity = 0, lx_active = False,
      lx_comment = False, lx_command = False, lx_document = False, lx_kind = CSH_TOKEN_WORD, lx_operator = [],
      lx_last_kind = CSH_TOKEN_WORD, lx_last_start = no_position, lx_last_end = no_position, lx_has_last = False,
      lx_last_sequence = 0, lx_arithmetic = []\<rparr>"

definition fresh_source :: "string \<Rightarrow> source" where
  "fresh_source name =
     \<lparr>so_name = name, so_data = [], so_capacity = 0, so_cursor = 0, so_position = \<lparr>p_offset = 0, p_line = 1, p_column = 1\<rparr>,
      so_aliases = [], so_alias_capacity = 0, so_sequence = 0, so_alias_eligible = False, so_look = None,
      so_final = False, so_failure = no_error\<rparr>"

text \<open>\<open>env\<close> is the process: a state without lexers. On failure it is all there is.\<close>

definition csh_lexer_create :: "string option \<Rightarrow> lexing \<Rightarrow> bool \<times> lexing" where
  "csh_lexer_create source_name env =
     (case source_name of
        None \<Rightarrow> (False, env\<lparr>lg_error := lex_plain_error ''invalid lexer source name'' EINVAL\<rparr>)
      | Some name \<Rightarrow>
          (case lex_malloc (env\<lparr>lg_error := no_error\<rparr>) of
             (False, s) \<Rightarrow> (False, s\<lparr>lg_error := lex_plain_error ''cannot allocate lexer'' ENOMEM\<rparr>)
           | (True, s) \<Rightarrow>
               (case lex_malloc s of
                  (False, s) \<Rightarrow> (False, s\<lparr>lg_error := lex_plain_error ''cannot allocate lexer source'' ENOMEM\<rparr>)
                | (True, s) \<Rightarrow>
                    (case lex_malloc s of
                       (False, s) \<Rightarrow> (False, s\<lparr>lg_error := lex_plain_error ''cannot allocate lexer source name'' ENOMEM\<rparr>)
                     | (True, s) \<Rightarrow> (True, s\<lparr>lg_lexers := [fresh_lexer], lg_source := fresh_source name\<rparr>)))))"

definition csh_lexer_set_position :: "csh_position \<Rightarrow> lexing \<Rightarrow> lexing" where
  "csh_lexer_set_position p s = set_source (\<lambda>so. so\<lparr>so_position := p\<rparr>) s"

text \<open>Destroying the lexer at depth \<open>d\<close> destroys its children; the root also owns the source.\<close>

definition csh_lexer_destroy :: "nat \<Rightarrow> lexing \<Rightarrow> lexing" where
  "csh_lexer_destroy d s =
     (let s = s\<lparr>lg_lexers := take d (lg_lexers s)\<rparr> in if d = 0 then set_source release_source s else s)"

definition csh_lexer_document :: "nat \<Rightarrow> lexing \<Rightarrow> lexing" where
  "csh_lexer_document d s = set_lexer d (\<lambda>l. l\<lparr>lx_document := True\<rparr>) s"

text \<open>Appending to the sources of the checkpoints; a failure is its message and number.\<close>

fun feed_checkpoints ::
  "string \<Rightarrow> bool \<Rightarrow> arithmetic_checkpoint list \<Rightarrow> lexing \<Rightarrow> ((string \<times> errno) + arithmetic_checkpoint list) \<times> lexing" where
  "feed_checkpoints bytes final [] s = (Inr [], s)"
| "feed_checkpoints bytes final (c # cs) s =
     (let saved = ck_source c in
      if SIZE_MAX - length (so_data saved) < length bytes then (Inl (''lexer replay is too large'', EOVERFLOW), s)
      else
        (case lex_reserve (so_capacity saved) (length (so_data saved) + length bytes) 1 s of
           (False, _, s) \<Rightarrow> (Inl (''cannot grow lexer replay'', lg_errno s), s)
         | (True, capacity, s) \<Rightarrow>
             (case feed_checkpoints bytes final cs s of
                (Inl e, s) \<Rightarrow> (Inl e, s)
              | (Inr cs, s) \<Rightarrow>
                  (Inr (c\<lparr>ck_source := saved\<lparr>so_data := so_data saved @ bytes, so_capacity := capacity, so_final := final\<rparr>\<rparr> # cs),
                   s))))"

fun feed_owners :: "string \<Rightarrow> bool \<Rightarrow> csh_lexer list \<Rightarrow> lexing \<Rightarrow> ((string \<times> errno) + csh_lexer list) \<times> lexing" where
  "feed_owners bytes final [] s = (Inr [], s)"
| "feed_owners bytes final (l # ls) s =
     (case feed_checkpoints bytes final (lx_arithmetic l) s of
        (Inl e, s) \<Rightarrow> (Inl e, s)
      | (Inr cs, s) \<Rightarrow>
          (case feed_owners bytes final ls s of
             (Inl e, s) \<Rightarrow> (Inl e, s)
           | (Inr ls, s) \<Rightarrow> (Inr (l\<lparr>lx_arithmetic := cs\<rparr> # ls), s)))"

text \<open>Dropping the bytes in front of the cursor.\<close>

definition rebase_aliases :: "nat \<Rightarrow> alias_source list \<Rightarrow> alias_source list" where
  "rebase_aliases n as = map (\<lambda>a. a\<lparr>al_end := al_end a - n\<rparr>) as"

definition compact_source :: "source \<Rightarrow> source" where
  "compact_source so =
     so\<lparr>so_aliases := rebase_aliases (so_cursor so) (so_aliases so), so_data := drop (so_cursor so) (so_data so), so_cursor := 0\<rparr>"

definition csh_lexer_feed :: "nat \<Rightarrow> string option \<Rightarrow> nat \<Rightarrow> bool \<Rightarrow> lexing \<Rightarrow> bool \<times> lexing" where
  "csh_lexer_feed d bytes n final s =
     (let s = s\<lparr>lg_error := no_error\<rparr> in
      if message (so_failure (lg_source s)) \<noteq> [] then (False, s\<lparr>lg_error := so_failure (lg_source s)\<rparr>)
      else if so_final (lg_source s) \<or> n \<noteq> 0 \<and> bytes = None then (False, lex_fail d ''invalid lexer feed'' EINVAL s)
      else
        (let fed = (case bytes of None \<Rightarrow> [] | Some b \<Rightarrow> take n b) in
         case feed_owners fed final (lg_lexers s) s of
           (Inl (m, e), s) \<Rightarrow> (False, lex_fail d m e s)
         | (Inr ls, s) \<Rightarrow>
             (let s = set_source compact_source (s\<lparr>lg_lexers := ls\<rparr>);
                  so = lg_source s
              in if SIZE_MAX - length (so_data so) < length fed
                 then (False, lex_fail d ''lexer source is too large'' EOVERFLOW s)
                 else
                   (case lex_reserve (so_capacity so) (length (so_data so) + length fed) 1 s of
                      (False, _, s) \<Rightarrow> (False, lex_fail d ''cannot grow lexer source'' (lg_errno s) s)
                    | (True, capacity, s) \<Rightarrow>
                        (True, set_source (\<lambda>so. so\<lparr>so_data := so_data so @ fed, so_capacity := capacity, so_final := final\<rparr>) s)))))"

subsection \<open>Consuming bytes\<close>

text \<open>An operation that reads outside its array has no result: \<open>None\<close>. That this does not happen is
  shown in \<open>Lexer_Safety\<close>. The boolean of a result is \<open>False\<close> where the code returns -1.\<close>

definition position_full :: "char \<Rightarrow> csh_position \<Rightarrow> bool" where
  "position_full b p \<longleftrightarrow> p_offset p = SIZE_MAX \<or> (if b = CHR 0x0A then p_line p else p_column p) = SIZE_MAX"

text \<open>The byte goes to every pending word, except that a suspended word does not take the text of an
  alias that belongs to one of its descendants.\<close>

definition captures_byte :: "nat \<Rightarrow> nat \<Rightarrow> lexing \<Rightarrow> bool" where
  "captures_byte d i s \<longleftrightarrow>
     lx_active (lexer_at i s) \<and>
     \<not> (i \<noteq> d \<and> (case so_aliases (lg_source s) of [] \<Rightarrow> False | a # _ \<Rightarrow> i < al_owner_depth a))"

definition capture_byte :: "nat \<Rightarrow> char \<Rightarrow> nat \<Rightarrow> lexing \<Rightarrow> bool \<times> lexing" where
  "capture_byte d b i s =
     (let l = lexer_at i s in
      if \<not> captures_byte d i s then (True, s)
      else if length (lx_raw l) = SIZE_MAX - 1 then (False, lex_fail d ''token spelling is too large'' EOVERFLOW s)
      else if position_full b (lx_spelling_position l) then (False, lex_fail d ''token position overflow'' EOVERFLOW s)
      else
        (case lex_reserve (lx_raw_capacity l) (length (lx_raw l) + 2) 1 s of
           (False, _, s) \<Rightarrow> (False, lex_fail d ''cannot grow token spelling'' (lg_errno s) s)
         | (True, capacity, s) \<Rightarrow>
             (True, set_lexer i (\<lambda>l. l\<lparr>lx_raw := lx_raw l @ [b], lx_raw_capacity := capacity,
                lx_spelling_position := advance_position b (lx_spelling_position l)\<rparr>) s)))"

fun capture_loop :: "nat \<Rightarrow> char \<Rightarrow> nat list \<Rightarrow> lexing \<Rightarrow> bool \<times> lexing" where
  "capture_loop d b [] s = (True, s)"
| "capture_loop d b (i # is) s =
     (case capture_byte d b i s of (False, s) \<Rightarrow> (False, s) | (True, s) \<Rightarrow> capture_loop d b is s)"

text \<open>Leaving the aliases that end at the cursor.\<close>

fun leave_aliases :: "nat \<Rightarrow> alias_source list \<Rightarrow> csh_position \<Rightarrow> bool \<Rightarrow> alias_source list \<times> csh_position \<times> bool" where
  "leave_aliases cursor [] p eligible = ([], p, eligible)"
| "leave_aliases cursor (a # as) p eligible =
     (if cursor = al_end a then leave_aliases cursor as (al_resume a) (eligible \<or> al_trailing_blank a)
      else (a # as, p, eligible))"

definition advance_source :: "char \<Rightarrow> source \<Rightarrow> source" where
  "advance_source b so =
     (case leave_aliases (so_cursor so + 1) (so_aliases so) (advance_position b (so_position so)) (so_alias_eligible so) of
        (as, p, eligible) \<Rightarrow>
          so\<lparr>so_sequence := so_sequence so + 1, so_cursor := so_cursor so + 1, so_aliases := as, so_position := p,
             so_alias_eligible := eligible\<rparr>)"

definition consume_byte :: "nat \<Rightarrow> lexing \<Rightarrow> (bool \<times> lexing) option" where
  "consume_byte d s =
     (let so = lg_source s in
      case drop (so_cursor so) (so_data so) of
        [] \<Rightarrow> None
      | b # _ \<Rightarrow>
          if b = CHR 0x00 then Some (False, lex_fail d ''NUL byte in shell input'' EOK s)
          else if so_sequence so = SIZE_MAX \<or> position_full b (so_position so)
          then Some (False, lex_fail d ''lexer position overflow'' EOVERFLOW s)
          else
            (case capture_loop d b [0..<length (lg_lexers s)] s of
               (False, s) \<Rightarrow> Some (False, s)
             | (True, s) \<Rightarrow> Some (True, set_source (advance_source b) s)))"

fun consume_bytes :: "nat \<Rightarrow> nat \<Rightarrow> lexing \<Rightarrow> (bool \<times> lexing) option" where
  "consume_bytes d 0 s = Some (True, s)"
| "consume_bytes d (Suc n) s =
     do {(ok, s) \<leftarrow> consume_byte d s; if ok then consume_bytes d n s else Some (False, s)}"

definition lex_consume :: "nat \<Rightarrow> nat \<Rightarrow> lexing \<Rightarrow> (bool \<times> lexing) option" where
  "lex_consume d count s = consume_bytes d count (set_source (\<lambda>so. so\<lparr>so_look := None\<rparr>) s)"

subsection \<open>Tokens and fragments\<close>

definition copy_string :: "string \<Rightarrow> lexing \<Rightarrow> string option \<times> lexing" where
  "copy_string t s = (case lex_malloc s of (b, s) \<Rightarrow> (if b then Some t else None, s))"

text \<open>The copies of the names of the current source, with whether all were made.\<close>

definition token_source :: "nat \<Rightarrow> lexing \<Rightarrow> bool \<times> lexing" where
  "token_source d s =
     (case so_aliases (lg_source s) of
        [] \<Rightarrow>
          (case copy_string (so_name (lg_source s)) s of (n, s) \<Rightarrow> (n \<noteq> None, set_lexer d (\<lambda>l. l\<lparr>lx_token_name := n\<rparr>) s))
      | a # _ \<Rightarrow>
          (case copy_string (al_source_name a) s of
             (n, s) \<Rightarrow>
               (case copy_string (al_name a) s of
                  (m, s) \<Rightarrow>
                    (case copy_string (al_invocation_source a) s of
                       (i, s) \<Rightarrow>
                         (n \<noteq> None \<and> m \<noteq> None \<and> i \<noteq> None,
                          set_lexer d (\<lambda>l. l\<lparr>lx_token_name := n, lx_alias_name := m, lx_invocation_source := i,
                            lx_invocation := al_invocation a\<rparr>) s)))))"

definition start_token :: "nat \<Rightarrow> lexing \<Rightarrow> bool \<times> lexing" where
  "start_token d s =
     (let so = lg_source s in
      case token_source d s of
        (False, s) \<Rightarrow> (False, lex_fail d ''cannot allocate token source'' ENOMEM s)
      | (True, s) \<Rightarrow>
          (True, set_source (\<lambda>so. so\<lparr>so_alias_eligible := False\<rparr>)
             (set_lexer d (\<lambda>l. l\<lparr>lx_active := True, lx_start := so_position so, lx_spelling_position := so_position so,
                lx_alias_eligible := so_alias_eligible so\<rparr>) s)))"

text \<open>\<open>start_token\<close> for a word.\<close>

definition start_word :: "nat \<Rightarrow> lexing \<Rightarrow> bool \<times> lexing" where
  "start_word d s =
     (if lx_active (lexer_at d s) then (True, s)
      else
        (case start_token d s of
           (False, s) \<Rightarrow> (False, s)
         | (True, s) \<Rightarrow> (True, set_lexer d (\<lambda>l. l\<lparr>lx_kind := CSH_TOKEN_WORD\<rparr>) s)))"

definition parent_fragment :: "csh_lexer \<Rightarrow> nat" where
  "parent_fragment l = (case lx_frames l of [] \<Rightarrow> CSH_FRAGMENT_ROOT | f # _ \<Rightarrow> fm_fragment f)"

text \<open>The index of the new fragment, or \<open>None\<close> on failure. A \<open>struct csh_fragment\<close> has 80 bytes.\<close>

definition add_fragment :: "nat \<Rightarrow> csh_fragment_kind \<Rightarrow> csh_quote \<Rightarrow> lexing \<Rightarrow> nat option \<times> lexing" where
  "add_fragment d kind quote s =
     (let l = lexer_at d s in
      if length (lx_fragments l) = SIZE_MAX then (None, lex_fail d ''cannot grow word fragments'' (lg_errno s) s)
      else
        (case lex_reserve (lx_fragment_capacity l) (length (lx_fragments l) + 1) 80 s of
           (False, _, s) \<Rightarrow> (None, lex_fail d ''cannot grow word fragments'' (lg_errno s) s)
         | (True, capacity, s) \<Rightarrow>
             (Some (length (lx_fragments l)),
              set_lexer d (\<lambda>l. l\<lparr>lx_fragment_capacity := capacity, lx_fragments := lx_fragments l @
                [\<lparr>fr_kind = kind, fr_quote = quote, fr_parent = parent_fragment l, fr_begin = length (lx_raw l),
                  fr_end = length (lx_raw l), fr_start = lx_spelling_position l, fr_finish = lx_spelling_position l\<rparr>]\<rparr>) s)))"

definition finish_fragment :: "nat \<Rightarrow> nat \<Rightarrow> lexing \<Rightarrow> (bool \<times> lexing) option" where
  "finish_fragment d index s =
     (if index < length (lx_fragments (lexer_at d s)) then
        Some (True, set_lexer d (\<lambda>l. l\<lparr>lx_fragments := (lx_fragments l)[index := (lx_fragments l ! index)
          \<lparr>fr_end := length (lx_raw l), fr_finish := lx_spelling_position l\<rparr>]\<rparr>) s)
      else None)"

text \<open>Text that continues the last fragment extends it.\<close>

definition extends_text :: "csh_lexer \<Rightarrow> csh_fragment_kind \<Rightarrow> csh_quote \<Rightarrow> bool" where
  "extends_text l kind quote \<longleftrightarrow>
     kind = CSH_FRAGMENT_TEXT \<and> lx_fragments l \<noteq> [] \<and>
     (let f = last (lx_fragments l) in
      fr_kind f = kind \<and> fr_quote f = quote \<and> fr_parent f = parent_fragment l \<and> fr_end f = length (lx_raw l))"

definition lex_piece :: "nat \<Rightarrow> csh_fragment_kind \<Rightarrow> csh_quote \<Rightarrow> nat \<Rightarrow> lexing \<Rightarrow> (bool \<times> lexing) option" where
  "lex_piece d kind quote count s =
     (case (if extends_text (lexer_at d s) kind quote then (Some (length (lx_fragments (lexer_at d s)) - 1), s)
            else add_fragment d kind quote s) of
        (None, s) \<Rightarrow> Some (False, s)
      | (Some index, s) \<Rightarrow>
          do {(ok, s) \<leftarrow> lex_consume d count s; if ok then finish_fragment d index s else Some (False, s)})"

subsection \<open>Looking ahead\<close>

text \<open>What \<open>peek\<close> returns: -2, -1, 256 or a byte; with the last two \<open>*physical\<close>.\<close>

datatype look = LOOK_MORE | LOOK_EOF | LOOK_WIDE nat | LOOK_BYTE char nat

lemma drop_ConsD: "drop n xs = y # ys \<Longrightarrow> n < length xs"
  by (metis drop_all leI list.distinct(1))

text \<open>The loop over the bytes from the cursor on: whether the wanted character was reached (else what
  is returned), with the new \<open>look_scan\<close> and \<open>look_positions\<close>.\<close>

function look_loop :: "ctype \<Rightarrow> bool \<Rightarrow> string \<Rightarrow> nat \<Rightarrow> nat \<Rightarrow> nat list \<Rightarrow> look option \<times> nat \<times> nat list" where
  "look_loop cx final bytes wanted scan ps =
     (if wanted < length ps then (None, scan, ps)
      else
        (case drop scan bytes of
           [] \<Rightarrow> (Some (if final then LOOK_EOF else LOOK_MORE), scan, ps)
         | c # r \<Rightarrow>
             if c = CHR 0x5C \<and> r = [] \<and> \<not> final then (Some LOOK_MORE, scan, ps)
             else if c = CHR 0x5C \<and> (case r of [] \<Rightarrow> False | e # _ \<Rightarrow> e = CHR 0x0A)
             then look_loop cx final bytes wanted (scan + 2) ps
             else
               (let width = csh_character_length cx (c # r) True final in
                if width = 0 then (Some LOOK_MORE, scan, ps)
                else look_loop cx final bytes wanted (scan + width) (ps @ [scan]))))"
  by pat_completeness auto
termination
  by (relation "measure (\<lambda>(cx, final, bytes, wanted, scan, ps). length (drop scan bytes))")
    (auto dest!: drop_ConsD intro!: diff_less_mono2 split: list.splits)

declare look_loop.simps [simp del]

definition lex_peek :: "ctype \<Rightarrow> nat \<Rightarrow> lexing \<Rightarrow> (look \<times> lexing) option" where
  "lex_peek cx wanted s =
     (let so = lg_source s;
          bytes = drop (so_cursor so) (so_data so);
          fresh = \<lparr>lk_offset = p_offset (so_position so), lk_scan = 0, lk_positions = []\<rparr>;
          lk = (case so_look so of
                  None \<Rightarrow> fresh
                | Some lk \<Rightarrow> if lk_offset lk = p_offset (so_position so) then lk else fresh)
      in case look_loop cx (so_final so) bytes wanted (lk_scan lk) (lk_positions lk) of
           (stop, scan, ps) \<Rightarrow>
             (let s = set_source (\<lambda>so. so\<lparr>so_look := Some (lk\<lparr>lk_scan := scan, lk_positions := ps\<rparr>)\<rparr>) s in
              case stop of
                Some r \<Rightarrow> Some (r, s)
              | None \<Rightarrow>
                  (case drop (ps ! wanted) bytes of
                     [] \<Rightarrow> None
                   | c # r \<Rightarrow>
                       (let width = csh_character_length cx (c # r) True (so_final so) in
                        Some (if 1 < width then LOOK_WIDE (ps ! wanted + width) else LOOK_BYTE c (ps ! wanted + width), s)))))"

subsection \<open>Contexts\<close>

function lex_delimiter :: "nat \<Rightarrow> nat \<Rightarrow> csh_quote \<Rightarrow> lexing \<Rightarrow> (bool \<times> lexing) option" where
  "lex_delimiter d count quote s =
     (if count = 0 then Some (True, s)
      else if 2 \<le> count \<and> take 2 (drop (so_cursor (lg_source s)) (so_data (lg_source s))) = [CHR 0x5C, CHR 0x0A] then
        do {(ok, s) \<leftarrow> lex_piece d CSH_FRAGMENT_CONTINUATION quote 2 s;
            if ok then lex_delimiter d (count - 2) quote s else Some (False, s)}
      else
        do {(ok, s) \<leftarrow> lex_consume d 1 s; if ok then lex_delimiter d (count - 1) quote s else Some (False, s)})"
  by pat_completeness auto
termination
  by (relation "measure (\<lambda>(d, count, quote, s). count)") auto

declare lex_delimiter.simps [simp del]

text \<open>A \<open>struct frame\<close> has 32 bytes.\<close>

definition lex_push :: "nat \<Rightarrow> frame_kind \<Rightarrow> csh_fragment_kind \<Rightarrow> csh_quote \<Rightarrow> nat \<Rightarrow> lexing \<Rightarrow> (bool \<times> lexing) option" where
  "lex_push d kind fragment_kind quote count s =
     (case add_fragment d fragment_kind quote s of
        (None, s) \<Rightarrow> Some (False, s)
      | (Some index, s) \<Rightarrow>
          (let l = lexer_at d s in
           if length (lx_frames l) = SIZE_MAX then Some (False, lex_fail d ''cannot grow lexical contexts'' (lg_errno s) s)
           else
             (case lex_reserve (lx_frame_capacity l) (length (lx_frames l) + 1) 32 s of
                (False, _, s) \<Rightarrow> Some (False, lex_fail d ''cannot grow lexical contexts'' (lg_errno s) s)
              | (True, capacity, s) \<Rightarrow>
                  lex_delimiter d count quote
                    (set_lexer d (\<lambda>l. l\<lparr>lx_frame_capacity := capacity, lx_frames :=
                       \<lparr>fm_kind = kind, fm_quote = quote, fm_fragment = index, fm_parentheses = 0, fm_stage = 0\<rparr>
                       # lx_frames l\<rparr>) s))))"

definition lex_pop :: "nat \<Rightarrow> nat \<Rightarrow> lexing \<Rightarrow> (bool \<times> lexing) option" where
  "lex_pop d count s =
     (case lx_frames (lexer_at d s) of
        [] \<Rightarrow> None
      | f # _ \<Rightarrow>
          do {(ok, s) \<leftarrow> lex_delimiter d count (fm_quote f) s;
              if ok
              then do {(_, s) \<leftarrow> finish_fragment d (fm_fragment f) s;
                       Some (True, set_lexer d (\<lambda>l. l\<lparr>lx_frames := tl (lx_frames l)\<rparr>) s)}
              else Some (False, s)})"

subsection \<open>Arithmetic candidates\<close>

text \<open>The copies of the aliases' names, outermost alias first: three allocations each.\<close>

fun copy_alias_names :: "nat \<Rightarrow> lexing \<Rightarrow> bool \<times> lexing" where
  "copy_alias_names 0 s = (True, s)"
| "copy_alias_names (Suc n) s =
     (case lex_malloc s of
        (a, s) \<Rightarrow>
          (case lex_malloc s of
             (b, s) \<Rightarrow>
               (case lex_malloc s of
                  (c, s) \<Rightarrow> if a \<and> b \<and> c then copy_alias_names n s else (False, s))))"

definition captures_of :: "nat \<Rightarrow> lexing \<Rightarrow> capture_checkpoint list" where
  "captures_of d s =
     map (\<lambda>i. \<lparr>ca_depth = i, ca_length = length (lx_raw (lexer_at i s)), ca_position = lx_spelling_position (lexer_at i s)\<rparr>)
       (rev [0..<Suc d])"

text \<open>A \<open>struct arithmetic_checkpoint\<close> has 528 bytes, a capture 40, an alias source 96.\<close>

definition checkpoint_arithmetic :: "nat \<Rightarrow> nat \<Rightarrow> csh_quote \<Rightarrow> lexing \<Rightarrow> bool \<times> lexing" where
  "checkpoint_arithmetic d command_length quote s =
     (let so = lg_source s; rest = drop (so_cursor so) (so_data so) in
      if (SIZE_MAX - 528) div 40 < Suc d then (False, lex_fail d ''lexer checkpoint overflow'' EOVERFLOW s)
      else
        (case lex_malloc s of
           (False, s) \<Rightarrow> (False, lex_fail d ''cannot allocate lexer checkpoint'' ENOMEM s)
         | (True, s) \<Rightarrow>
             (case lex_reserve 0 (length rest) 1 s of
                (False, _, s) \<Rightarrow> (False, lex_fail d ''cannot allocate lexer checkpoint'' (lg_errno s) s)
              | (True, capacity, s) \<Rightarrow>
                  (case lex_reserve 0 (length (so_aliases so)) 96 s of
                     (False, _, s) \<Rightarrow> (False, lex_fail d ''cannot allocate lexer checkpoint'' (lg_errno s) s)
                   | (True, alias_capacity, s) \<Rightarrow>
                       (case copy_alias_names (length (so_aliases so)) s of
                          (False, s) \<Rightarrow> (False, lex_fail d ''cannot allocate lexer checkpoint'' (lg_errno s) s)
                        | (True, s) \<Rightarrow>
                            (True, set_lexer d (\<lambda>l. l\<lparr>lx_arithmetic :=
                               \<lparr>ck_source = so\<lparr>so_data := rest, so_capacity := capacity, so_cursor := 0, so_look := None,
                                  so_aliases := rebase_aliases (so_cursor so) (so_aliases so), so_alias_capacity := alias_capacity\<rparr>,
                                ck_fragment_count = length (lx_fragments l), ck_frame_count = length (lx_frames l),
                                ck_command_length = command_length, ck_body_begin = 0, ck_quote = quote,
                                ck_captures = captures_of d s\<rparr> # lx_arithmetic l\<rparr>) s))))))"

text \<open>The spelling of the candidate: direct expansions are operands, marked \<open>@\<close>.\<close>

function probe_loop :: "bool \<Rightarrow> nat \<Rightarrow> string \<Rightarrow> csh_fragment list \<Rightarrow> nat \<Rightarrow> nat \<Rightarrow> string option" where
  "probe_loop partial base raw fs index at =
     (if length raw \<le> at then Some []
      else if length fs \<le> index \<or> at < fr_begin (fs ! index)
      then map_option ((#) (raw ! at)) (probe_loop partial base raw fs index (at + 1))
      else
        (let f = fs ! index; unfinished = partial \<and> fr_end f = fr_begin f in
         if \<not> unfinished \<and> fr_end f \<le> at \<or> fr_parent f \<noteq> base then probe_loop partial base raw fs (index + 1) at
         else if fr_kind f = CSH_FRAGMENT_PARAMETER \<or> fr_kind f = CSH_FRAGMENT_COMMAND \<or>
           fr_kind f = CSH_FRAGMENT_ARITHMETIC \<or> fr_kind f = CSH_FRAGMENT_BACKQUOTE
         then map_option ((#) CHR ''@'')
           (probe_loop partial base raw fs (index + 1) (if unfinished then length raw else fr_end f))
         else if fr_kind f = CSH_FRAGMENT_CONTINUATION then probe_loop partial base raw fs (index + 1) (fr_end f)
         else
           (let at = (if fr_kind f = CSH_FRAGMENT_ESCAPE then at + 1 else at) in
            if length raw \<le> at then None
            else map_option ((#) (raw ! at)) (probe_loop partial base raw fs (index + 1) (at + 1)))))"
  by pat_completeness auto
termination
  by (relation "measures [\<lambda>(partial, base, raw, fs, index, at). length fs - index,
        \<lambda>(partial, base, raw, fs, index, at). length raw - at]") auto

declare probe_loop.simps [simp del]

definition operand_byte :: "char \<Rightarrow> bool" where
  "operand_byte c \<longleftrightarrow>
     c \<in> {CHR ''a''..CHR ''z''} \<or> c \<in> {CHR ''A''..CHR ''Z''} \<or> c \<in> {CHR ''0''..CHR ''9''} \<or>
     c = CHR ''_'' \<or> c = CHR ''@''"

text \<open>A name or number that an expansion is part of is one operand.\<close>

function merge_operands :: "string \<Rightarrow> string" where
  "merge_operands t =
     (case t of
        [] \<Rightarrow> []
      | c # r \<Rightarrow>
          (let w = takeWhile operand_byte t in
           if w = [] then c # merge_operands r
           else (if CHR ''@'' \<in> set w then ''x'' else w) @ merge_operands (dropWhile operand_byte t)))"
  by pat_completeness auto
termination
  by (relation "measure length") (auto simp: le_imp_less_Suc length_dropWhile_le split: if_splits)

declare merge_operands.simps [simp del]

definition probe_arithmetic :: "nat \<Rightarrow> bool \<Rightarrow> lexing \<Rightarrow> (int \<times> lexing) option" where
  "probe_arithmetic d partial s =
     (let l = lexer_at d s in
      case lx_arithmetic l of
        [] \<Rightarrow> None
      | c # _ \<Rightarrow>
          (case lex_malloc s of
             (False, s) \<Rightarrow> Some (-1, lex_fail d ''cannot allocate arithmetic probe'' ENOMEM s)
           | (True, s) \<Rightarrow>
               do {spelling \<leftarrow> probe_loop partial (ck_fragment_count c) (lx_raw l) (lx_fragments l) (ck_fragment_count c + 1) (ck_body_begin c);
                   let expression = Some (merge_operands spelling);
                   let checks = (case lg_checks s of [] \<Rightarrow> [] | b # _ \<Rightarrow> b);
                   (valid, w) \<leftarrow>
                     (if partial then csh_arith_probe_prefix expression (lg_world s) checks
                      else map_option (map_prod (\<lambda>r. if r = CSH_ARITH_RESOURCE then -1 else if r = CSH_ARITH_OK then 1 else 0) id)
                        (csh_arith_probe expression (lg_world s) checks));
                   let s = s\<lparr>lg_world := w, lg_checks := tl (lg_checks s)\<rparr>;
                   Some (valid, if valid = -1 then lex_fail d ''arithmetic stack exhausted'' ENOMEM s else s)}))"

fun restore_captures :: "capture_checkpoint list \<Rightarrow> csh_lexer list \<Rightarrow> csh_lexer list option" where
  "restore_captures [] ls = Some ls"
| "restore_captures (c # cs) ls =
     (if length ls \<le> ca_depth c \<or> length (lx_raw (ls ! ca_depth c)) < ca_length c then None
      else
        restore_captures cs (ls[ca_depth c := (ls ! ca_depth c)
          \<lparr>lx_raw := take (ca_length c) (lx_raw (ls ! ca_depth c)), lx_spelling_position := ca_position c\<rparr>]))"

text \<open>Whether the replay is refused because the text may still be arithmetic: at the end of the
  input, when the error is about something unterminated. \<open>Inl\<close> is an early return.\<close>

definition replay_refused :: "nat \<Rightarrow> lexing \<Rightarrow> (int option \<times> lexing) option" where
  "replay_refused d s =
     (let e = lg_error s; failure = so_failure (lg_source s) in
      if lx_arithmetic (lexer_at d s) = [] \<or> system_errno e \<noteq> EOK \<or> system_errno failure \<noteq> EOK then Some (Some 0, s)
      else if message e = ''unterminated arithmetic expansion'' then Some (Some 0, s)
      else if so_final (lg_source s) \<and> message e \<noteq> [] \<and> take 13 (message e) = ''unterminated '' then
        do {(possible, s) \<leftarrow> probe_arithmetic d True (set_source (\<lambda>so. so\<lparr>so_failure := no_error\<rparr>) s);
            if possible = -1 then Some (Some (-1), s)
            else
              (let s = (set_source (\<lambda>so. so\<lparr>so_failure := failure\<rparr>) s)\<lparr>lg_error := e\<rparr>
               in Some (if possible \<noteq> 0 then Some 0 else None, s))}
      else Some (None, s))"

definition replay_checkpoint :: "nat \<Rightarrow> arithmetic_checkpoint \<Rightarrow> lexing \<Rightarrow> lexing option" where
  "replay_checkpoint d c s =
     do {let s = csh_lexer_destroy (Suc d) s;
         ls \<leftarrow> restore_captures (ck_captures c) (lg_lexers s);
         let s = s\<lparr>lg_source := ck_source c, lg_lexers := ls, lg_error := no_error\<rparr>;
         let l = lexer_at d s;
         if length (lx_fragments l) < ck_fragment_count c \<or> length (lx_frames l) < ck_frame_count c then None
         else
           Some (set_lexer d (\<lambda>l. l\<lparr>lx_fragments := take (ck_fragment_count c) (lx_fragments l),
              lx_frames := drop (length (lx_frames l) - ck_frame_count c) (lx_frames l),
              lx_command := False, lx_arithmetic := tl (lx_arithmetic l)\<rparr>) s)}"

definition csh_lexer_replay_arithmetic :: "nat \<Rightarrow> lexing \<Rightarrow> (int \<times> lexing) option" where
  "csh_lexer_replay_arithmetic d s =
     do {(early, s) \<leftarrow> replay_refused d s;
         (case early of
            Some r \<Rightarrow> Some (r, s)
          | None \<Rightarrow>
              (let c = hd (lx_arithmetic (lexer_at d s)) in
               do {s \<leftarrow> replay_checkpoint d c s;
                   (ok, s) \<leftarrow> lex_push d COMMAND CSH_FRAGMENT_COMMAND (ck_quote c) (ck_command_length c) s;
                   Some (if ok then (1, set_lexer d (\<lambda>l. l\<lparr>lx_command := True\<rparr>) s) else (-1, s))}))}"

subsection \<open>Delivering tokens\<close>

definition frame_name :: "frame_kind \<Rightarrow> string" where
  "frame_name k =
     (case k of SINGLE \<Rightarrow> ''single quote'' | DOUBLE \<Rightarrow> ''double quote'' | DOLLAR_SINGLE \<Rightarrow> ''dollar-single quote''
      | PARAMETER \<Rightarrow> ''parameter expansion'' | SIMPLE \<Rightarrow> ''parameter name'' | ARITHMETIC \<Rightarrow> ''arithmetic expansion''
      | BACKQUOTE \<Rightarrow> ''backquote substitution'' | COMMAND \<Rightarrow> ''command substitution'')"

definition unterminated_context :: "frame_kind \<Rightarrow> string" where
  "unterminated_context k =
     (case k of SINGLE \<Rightarrow> ''unterminated single quote'' | DOUBLE \<Rightarrow> ''unterminated double quote''
      | DOLLAR_SINGLE \<Rightarrow> ''unterminated dollar-single quote'' | PARAMETER \<Rightarrow> ''unterminated parameter expansion''
      | ARITHMETIC \<Rightarrow> ''unterminated arithmetic expansion'' | BACKQUOTE \<Rightarrow> ''unterminated backquote substitution''
      | COMMAND \<Rightarrow> ''unterminated command substitution'' | SIMPLE \<Rightarrow> ''unterminated parameter name'')"

text \<open>Whether a word is unfinished, the name of the context and its opening.\<close>

definition csh_lexer_context :: "nat \<Rightarrow> lexing \<Rightarrow> (bool \<times> string option \<times> csh_position) option" where
  "csh_lexer_context d s =
     (let so = lg_source s; l = lexer_at d s in
      if drop (so_cursor so) (so_data so) = [CHR 0x5C]
      then Some (True, Some ''escape'', if lx_active l then lx_spelling_position l else so_position so)
      else
        (case lx_frames l of
           f # _ \<Rightarrow>
             if fm_fragment f < length (lx_fragments l)
             then Some (True, Some (frame_name (fm_kind f)), fr_start (lx_fragments l ! fm_fragment f))
             else None
         | [] \<Rightarrow>
             Some (lx_active l, if lx_active l then Some ''word'' else None,
               if lx_active l then lx_start l else so_position so)))"

text \<open>The terminator is written behind the spelling: there must be room for it.\<close>

definition publish :: "nat \<Rightarrow> lexing \<Rightarrow> (csh_token \<times> lexing) option" where
  "publish d s =
     (let l = lexer_at d s in
      if lx_raw_capacity l \<le> length (lx_raw l) then None
      else
        Some
          (\<lparr>tk_kind = lx_kind l, tk_source_name = (case lx_token_name l of None \<Rightarrow> [] | Some n \<Rightarrow> n), tk_raw = lx_raw l,
            tk_start = lx_start l, tk_end = lx_spelling_position l, tk_fragments = lx_fragments l,
            tk_alias_name = lx_alias_name l, tk_invocation_source = lx_invocation_source l, tk_invocation = lx_invocation l,
            tk_alias_eligible = lx_alias_eligible l\<rparr>,
           set_lexer d (\<lambda>l. l\<lparr>lx_raw := [], lx_raw_capacity := 0, lx_token_name := None, lx_alias_name := None,
             lx_invocation_source := None, lx_invocation := no_position, lx_fragments := [], lx_fragment_capacity := 0,
             lx_active := False, lx_operator := [], lx_last_kind := lx_kind l, lx_last_start := lx_start l,
             lx_last_end := lx_spelling_position l, lx_last_sequence := so_sequence (lg_source s), lx_has_last := True\<rparr>) s))"

subsection \<open>Steps of the tokenizer\<close>

text \<open>How a part of the loop of \<open>next_token\<close> ends: by a return, by \<open>continue\<close>, or by going on with
  the code behind it.\<close>

datatype turn = Return csh_lex_result "csh_token option" | Continue | Fall

type_synonym turned = "(turn \<times> lexing) option"

definition deliver :: "nat \<Rightarrow> lexing \<Rightarrow> turned" where
  "deliver d s = do {(t, s) \<leftarrow> publish d s; Some (Return CSH_LEX_TOKEN (Some t), s)}"

definition lex_error :: "lexing \<Rightarrow> turned" where
  "lex_error s = Some (Return CSH_LEX_ERROR None, s)"

definition attempt :: "(bool \<times> lexing) option \<Rightarrow> (lexing \<Rightarrow> turned) \<Rightarrow> turned" where
  "attempt m k = do {(ok, s) \<leftarrow> m; if ok then k s else lex_error s}"

definition step_on :: "lexing \<Rightarrow> turned" where
  "step_on s = Some (Continue, s)"

definition lex_or_else :: "turned \<Rightarrow> (lexing \<Rightarrow> turned) \<Rightarrow> turned" where
  "lex_or_else m k = do {(t, s) \<leftarrow> m; if t = Fall then k s else Some (t, s)}"

definition lex_name_start :: "char \<Rightarrow> bool" where
  "lex_name_start c \<longleftrightarrow>
     c \<in> {CHR ''a''..CHR ''z''} \<or> c \<in> {CHR ''A''..CHR ''Z''} \<or> c = CHR ''_''"

definition lex_digit :: "char \<Rightarrow> bool" where
  "lex_digit c \<longleftrightarrow> c \<in> {CHR ''0''..CHR ''9''}"

definition lex_name_char :: "char \<Rightarrow> bool" where
  "lex_name_char c \<longleftrightarrow> lex_name_start c \<or> lex_digit c"

definition operator_char :: "char \<Rightarrow> bool" where
  "operator_char c \<longleftrightarrow> c \<in> set ''|&;()<>''"

text \<open>\<open>strchr\<close> also finds the terminator.\<close>

definition strchr :: "string \<Rightarrow> char \<Rightarrow> bool" where
  "strchr t c \<longleftrightarrow> c = CHR 0x00 \<or> c \<in> set t"

text \<open>\<open>None\<close> is the value 256 of a character of several bytes.\<close>

definition parameter_context :: "char option \<Rightarrow> frame \<Rightarrow> frame" where
  "parameter_context byte f =
     (let start = (case byte of None \<Rightarrow> False | Some c \<Rightarrow> lex_name_start c);
          dig = (case byte of None \<Rightarrow> False | Some c \<Rightarrow> lex_digit c)
      in if fm_stage f = 0 \<and> byte = Some CHR ''#'' then f\<lparr>fm_stage := 4\<rparr>
         else if fm_stage f = 0 \<or> fm_stage f = 1 then f\<lparr>fm_stage := (if start then 2 else if dig then 3 else 4)\<rparr>
         else if fm_stage f = 2 \<and> (start \<or> dig) \<or> fm_stage f = 3 \<and> dig then f
         else if fm_stage f \<noteq> 5 then
           f\<lparr>fm_quote := (if byte = Some CHR ''#'' \<or> byte = Some CHR ''%'' then CSH_QUOTE_NONE else fm_quote f), fm_stage := 5\<rparr>
         else f)"

definition extendible :: "string \<Rightarrow> bool" where
  "extendible op \<longleftrightarrow> list_ex (\<lambda>(t, k). take (length op) t = op \<and> length op < length t) lexer_operators"

text \<open>\<open>op\<close> is the operator so far, \<open>lx_operator\<close>. As a C string the candidate ends at a NUL byte.\<close>

function operator_step :: "ctype \<Rightarrow> nat \<Rightarrow> string \<Rightarrow> lexing \<Rightarrow> turned" where
  "operator_step cx d op s =
     (if \<not> extendible op then deliver d s
      else
        do {(look, s) \<leftarrow> lex_peek cx 0 s;
            (case look of
               LOOK_MORE \<Rightarrow> Some (Return CSH_LEX_MORE None, s)
             | LOOK_EOF \<Rightarrow> deliver d s
             | LOOK_WIDE _ \<Rightarrow> deliver d s
             | LOOK_BYTE c physical \<Rightarrow>
                 (case map_of lexer_operators (takeWhile (\<lambda>c. c \<noteq> CHR 0x00) (op @ [c])) of
                    None \<Rightarrow> deliver d s
                  | Some k \<Rightarrow>
                      attempt (lex_delimiter d physical CSH_QUOTE_NONE (set_lexer d (\<lambda>l. l\<lparr>lx_kind := k\<rparr>) s))
                        (\<lambda>s. operator_step cx d (op @ [c]) (set_lexer d (\<lambda>l. l\<lparr>lx_operator := op @ [c]\<rparr>) s))))})"
  by pat_completeness auto
termination
  by (relation "measure (\<lambda>(cx, d, op, s). 3 - length op)") (auto simp: extendible_def lexer_operators_def)

declare operator_step.simps [simp del]

text \<open>The end of the input; the frames are those of the lexer.\<close>

fun lex_eof :: "nat \<Rightarrow> frame list \<Rightarrow> lexing \<Rightarrow> turned" where
  "lex_eof d (f # fs) s =
     (let l = lexer_at d s in
      if fm_kind f = SIMPLE then attempt (lex_pop d 0 s) (lex_eof d fs)
      else if fm_fragment f < length (lx_fragments l) then
        lex_error (lex_fail_at d (unterminated_context (fm_kind f)) EOK (fr_start (lx_fragments l ! fm_fragment f)) s)
      else None)"
| "lex_eof d [] s =
     (if lx_active (lexer_at d s) then deliver d s
      else if d \<noteq> 0 then
        (let p = lexer_at (d - 1) s in
         case lx_frames p of
           [] \<Rightarrow> None
         | f # _ \<Rightarrow>
             if fm_fragment f < length (lx_fragments p) then
               lex_error (lex_fail_at (d - 1) ''unterminated command substitution'' EOK (fr_start (lx_fragments p ! fm_fragment f)) s)
             else None)
      else Some (Return CSH_LEX_EOF None, s))"

definition open_command :: "nat \<Rightarrow> nat \<Rightarrow> csh_quote \<Rightarrow> lexing \<Rightarrow> turned" where
  "open_command d physical quote s =
     attempt (lex_push d COMMAND CSH_FRAGMENT_COMMAND quote physical s)
       (\<lambda>s. Some (Return CSH_LEX_COMMAND None, set_lexer d (\<lambda>l. l\<lparr>lx_command := True\<rparr>) s))"

definition open_arithmetic :: "nat \<Rightarrow> nat \<Rightarrow> nat \<Rightarrow> csh_quote \<Rightarrow> lexing \<Rightarrow> turned" where
  "open_arithmetic d physical third_physical quote s =
     attempt (Some (checkpoint_arithmetic d physical quote s)) (\<lambda>s.
       attempt (lex_push d ARITHMETIC CSH_FRAGMENT_ARITHMETIC quote third_physical s) (\<lambda>s.
         step_on (set_lexer d (\<lambda>l. l\<lparr>lx_arithmetic :=
           (case lx_arithmetic l of [] \<Rightarrow> [] | c # cs \<Rightarrow> c\<lparr>ck_body_begin := length (lx_raw l)\<rparr> # cs)\<rparr>) s)))"

text \<open>A \<open>$(\<close> opens a command substitution unless another parenthesis follows.\<close>

definition dollar_parenthesis :: "ctype \<Rightarrow> nat \<Rightarrow> nat \<Rightarrow> csh_quote \<Rightarrow> lexing \<Rightarrow> turned" where
  "dollar_parenthesis cx d physical quote s =
     do {(third, s) \<leftarrow> lex_peek cx 2 s;
         (case third of
            LOOK_MORE \<Rightarrow> Some (Return CSH_LEX_MORE None, s)
          | LOOK_BYTE c third_physical \<Rightarrow>
              if c = CHR ''('' then open_arithmetic d physical third_physical quote s else open_command d physical quote s
          | _ \<Rightarrow> open_command d physical quote s)}"

definition lex_dollar_byte :: "ctype \<Rightarrow> nat \<Rightarrow> csh_quote \<Rightarrow> char \<Rightarrow> nat \<Rightarrow> lexing \<Rightarrow> turned" where
  "lex_dollar_byte cx d quote c physical s =
     (if c = CHR ''{'' then attempt (lex_push d PARAMETER CSH_FRAGMENT_PARAMETER quote physical s) step_on
      else if c = CHR ''('' then dollar_parenthesis cx d physical quote s
      else if c = CHR 0x27 \<and> quote = CSH_QUOTE_NONE
      then attempt (lex_push d DOLLAR_SINGLE CSH_FRAGMENT_QUOTED CSH_QUOTE_DOLLAR_SINGLE physical s) step_on
      else if lex_name_start c then attempt (lex_push d SIMPLE CSH_FRAGMENT_PARAMETER quote physical s) step_on
      else if lex_digit c \<or> c \<in> set ''@*#?-$!'' then
        attempt (lex_push d SIMPLE CSH_FRAGMENT_PARAMETER quote physical s) (\<lambda>s. attempt (lex_pop d 0 s) step_on)
      else Some (Fall, s))"

definition lex_dollar :: "ctype \<Rightarrow> nat \<Rightarrow> csh_quote \<Rightarrow> lexing \<Rightarrow> turned" where
  "lex_dollar cx d quote s =
     do {(look, s) \<leftarrow> lex_peek cx 1 s;
         (case look of
            LOOK_MORE \<Rightarrow> Some (Return CSH_LEX_MORE None, s)
          | LOOK_BYTE c physical \<Rightarrow> lex_dollar_byte cx d quote c physical s
          | _ \<Rightarrow> Some (Fall, s))}"

subsection \<open>The tokenizer\<close>

definition frame_quote :: "csh_lexer \<Rightarrow> csh_quote" where
  "frame_quote l =
     (case lx_frames l of [] \<Rightarrow> if lx_document l then CSH_QUOTE_DOUBLE else CSH_QUOTE_NONE | f # _ \<Rightarrow> fm_quote f)"

definition in_frame :: "csh_lexer \<Rightarrow> frame_kind \<Rightarrow> bool" where
  "in_frame l k \<longleftrightarrow> (case lx_frames l of [] \<Rightarrow> False | f # _ \<Rightarrow> fm_kind f = k)"

text \<open>\<open>quote\<close> behind the code for parameters and arithmetic.\<close>

definition body_quote :: "csh_lexer \<Rightarrow> csh_quote" where
  "body_quote l = (if in_frame l ARITHMETIC then CSH_QUOTE_DOUBLE else frame_quote l)"

definition set_frame :: "nat \<Rightarrow> (frame \<Rightarrow> frame) \<Rightarrow> lexing \<Rightarrow> lexing" where
  "set_frame d f s = set_lexer d (\<lambda>l. l\<lparr>lx_frames := (case lx_frames l of [] \<Rightarrow> [] | fr # frs \<Rightarrow> f fr # frs)\<rparr>) s"

definition step_comment :: "nat \<Rightarrow> char \<Rightarrow> lexing \<Rightarrow> turned" where
  "step_comment d byte s =
     (if \<not> lx_comment (lexer_at d s) then Some (Fall, s)
      else if byte = CHR 0x0A then Some (Fall, set_lexer d (\<lambda>l. l\<lparr>lx_comment := False\<rparr>) s)
      else attempt (lex_consume d 1 s) step_on)"

definition step_simple :: "ctype \<Rightarrow> nat \<Rightarrow> lexing \<Rightarrow> turned" where
  "step_simple cx d s =
     (if \<not> in_frame (lexer_at d s) SIMPLE then Some (Fall, s)
      else
        do {(look, s) \<leftarrow> lex_peek cx 0 s;
            (case look of
               LOOK_MORE \<Rightarrow> Some (Return CSH_LEX_MORE None, s)
             | LOOK_BYTE c physical \<Rightarrow>
                 if lex_name_char c then attempt (lex_delimiter d physical (frame_quote (lexer_at d s)) s) step_on
                 else attempt (lex_pop d 0 s) step_on
             | _ \<Rightarrow> attempt (lex_pop d 0 s) step_on)})"

definition step_wide :: "ctype \<Rightarrow> nat \<Rightarrow> lexing \<Rightarrow> turned" where
  "step_wide cx d s =
     (let so = lg_source s; width = csh_character_length cx (drop (so_cursor so) (so_data so)) True (so_final so) in
      if width = 0 then Some (Return CSH_LEX_MORE None, s)
      else if 1 < width then
        attempt (Some (start_word d s)) (\<lambda>s.
          let s = (if in_frame (lexer_at d s) PARAMETER then set_frame d (parameter_context None) s else s)
          in attempt (lex_piece d CSH_FRAGMENT_TEXT (frame_quote (lexer_at d s)) width s) step_on)
      else Some (Fall, s))"

definition step_single :: "nat \<Rightarrow> char \<Rightarrow> lexing \<Rightarrow> turned" where
  "step_single d byte s =
     (if \<not> in_frame (lexer_at d s) SINGLE then Some (Fall, s)
      else if byte = CHR 0x27 then attempt (lex_pop d 1 s) step_on
      else attempt (lex_piece d CSH_FRAGMENT_TEXT (frame_quote (lexer_at d s)) 1 s) step_on)"

definition step_parameter :: "nat \<Rightarrow> char \<Rightarrow> lexing \<Rightarrow> turned" where
  "step_parameter d byte s =
     (if \<not> in_frame (lexer_at d s) PARAMETER then Some (Fall, s)
      else if byte = CHR ''}'' then attempt (lex_pop d 1 s) step_on
      else Some (Fall, if byte \<noteq> CHR 0x5C then set_frame d (parameter_context (Some byte)) s else s))"

definition step_replay :: "nat \<Rightarrow> lexing \<Rightarrow> turned" where
  "step_replay d s =
     do {(r, s) \<leftarrow> csh_lexer_replay_arithmetic d s;
         Some (Return (if r = 1 then CSH_LEX_REPLAY else CSH_LEX_ERROR) None, s)}"

text \<open>The closing parenthesis of a candidate: the end of the expansion, the end of the input, or
  no arithmetic expansion at all.\<close>

definition step_closing :: "ctype \<Rightarrow> nat \<Rightarrow> lexing \<Rightarrow> turned" where
  "step_closing cx d s =
     do {(valid, s) \<leftarrow> probe_arithmetic d False s;
         if valid = -1 then lex_error s
         else if valid = 0 then step_replay d s
         else
           do {(look, s) \<leftarrow> lex_peek cx 1 s;
               (case look of
                  LOOK_MORE \<Rightarrow> Some (Return CSH_LEX_MORE None, s)
                | LOOK_EOF \<Rightarrow> Some (Fall, s)
                | LOOK_WIDE _ \<Rightarrow> step_replay d s
                | LOOK_BYTE c physical \<Rightarrow>
                    if c = CHR '')'' then
                      attempt (lex_pop d physical s)
                        (\<lambda>s. step_on (set_lexer d (\<lambda>l. l\<lparr>lx_arithmetic := tl (lx_arithmetic l)\<rparr>) s))
                    else step_replay d s)}}"

definition step_arithmetic :: "ctype \<Rightarrow> nat \<Rightarrow> char \<Rightarrow> lexing \<Rightarrow> turned" where
  "step_arithmetic cx d byte s =
     (case lx_frames (lexer_at d s) of
        [] \<Rightarrow> Some (Fall, s)
      | f # _ \<Rightarrow>
          if fm_kind f \<noteq> ARITHMETIC then Some (Fall, s)
          else if strchr [CHR '';'', CHR 0x27, CHR 0x22, CHR ''{'', CHR ''}'', CHR ''#'', CHR ''@''] byte then step_replay d s
          else if byte = CHR ''('' then
            (if fm_parentheses f = SIZE_MAX then lex_error (lex_fail d ''arithmetic nesting overflow'' EOVERFLOW s)
             else Some (Fall, set_frame d (\<lambda>f. f\<lparr>fm_parentheses := fm_parentheses f + 1\<rparr>) s))
          else if byte = CHR '')'' then
            (if fm_parentheses f \<noteq> 0 then Some (Fall, set_frame d (\<lambda>f. f\<lparr>fm_parentheses := fm_parentheses f - 1\<rparr>) s)
             else step_closing cx d s)
          else Some (Fall, s))"

text \<open>Which bytes a backslash quotes; \<open>None\<close> is a character of several bytes.\<close>

definition escapes :: "csh_lexer \<Rightarrow> csh_quote \<Rightarrow> char option \<Rightarrow> bool" where
  "escapes l quote next \<longleftrightarrow>
     (let special = (case next of None \<Rightarrow> False | Some c \<Rightarrow> strchr [CHR ''$'', CHR 0x60, CHR 0x5C] c) in
      if in_frame l BACKQUOTE then special \<or> quote = CSH_QUOTE_DOUBLE \<and> next = Some CHR 0x22
      else
        quote \<noteq> CSH_QUOTE_DOUBLE \<or> special \<or>
        next = Some CHR 0x22 \<and> \<not> in_frame l ARITHMETIC \<and> \<not> (lx_document l \<and> lx_frames l = []) \<or>
        in_frame l PARAMETER \<and> next = Some CHR ''}'')"

definition step_escape :: "ctype \<Rightarrow> nat \<Rightarrow> char \<Rightarrow> lexing \<Rightarrow> turned" where
  "step_escape cx d byte s =
     (let so = lg_source s; l = lexer_at d s; quote = body_quote l in
      if byte \<noteq> CHR 0x5C then Some (Fall, s)
      else
        (case drop (so_cursor so + 1) (so_data so) of
           [] \<Rightarrow>
             if \<not> so_final so then Some (Return CSH_LEX_MORE None, s)
             else lex_error (lex_fail d ''unterminated escape'' EOK s)
         | e # r \<Rightarrow>
             (let width = csh_character_length cx (e # r) True (so_final so);
                  next = (if 1 < width then None else Some e)
              in if width = 0 then Some (Return CSH_LEX_MORE None, s)
                 else if in_frame l DOLLAR_SINGLE then attempt (lex_piece d CSH_FRAGMENT_ESCAPE quote (1 + width) s) step_on
                 else if next = Some CHR 0x0A \<and> \<not> (in_frame l BACKQUOTE \<and> quote = CSH_QUOTE_NONE) then
                   (if lx_active l then attempt (lex_piece d CSH_FRAGMENT_CONTINUATION quote 2 s) step_on
                    else attempt (lex_consume d 2 s) step_on)
                 else if escapes l quote next then
                   attempt (Some (start_word d s)) (\<lambda>s. attempt (lex_piece d CSH_FRAGMENT_ESCAPE quote (1 + width) s) step_on)
                 else Some (Fall, s))))"

definition step_raw_quote :: "nat \<Rightarrow> char \<Rightarrow> lexing \<Rightarrow> turned" where
  "step_raw_quote d byte s =
     (let l = lexer_at d s in
      if \<not> in_frame l DOLLAR_SINGLE \<and> \<not> in_frame l BACKQUOTE then Some (Fall, s)
      else if byte = (if in_frame l DOLLAR_SINGLE then CHR 0x27 else CHR 0x60) then attempt (lex_pop d 1 s) step_on
      else attempt (lex_piece d CSH_FRAGMENT_TEXT (body_quote l) 1 s) step_on)"

text \<open>Blanks, newlines and operators end a word or are tokens.\<close>

definition step_delimiting :: "nat \<Rightarrow> char \<Rightarrow> lexing \<Rightarrow> turned" where
  "step_delimiting d byte s =
     (let l = lexer_at d s; blank = (byte = CHR '' '' \<or> byte = CHR 0x09) in
      if lx_document l \<or> lx_frames l \<noteq> [] \<or> \<not> (blank \<or> byte = CHR 0x0A \<or> operator_char byte) then Some (Fall, s)
      else if lx_active l then deliver d s
      else if blank then attempt (lex_consume d 1 s) step_on
      else
        attempt (Some (start_token d s)) (\<lambda>s.
          if byte = CHR 0x0A then
            attempt (lex_consume d 1 (set_lexer d (\<lambda>l. l\<lparr>lx_kind := CSH_TOKEN_NEWLINE\<rparr>) s)) (deliver d)
          else
            attempt (lex_consume d 1 (set_lexer d (\<lambda>l. l\<lparr>lx_operator := [byte],
              lx_kind := (case map_of lexer_operators [byte] of None \<Rightarrow> lx_kind l | Some k \<Rightarrow> k)\<rparr>) s)) step_on))"

definition step_hash :: "nat \<Rightarrow> char \<Rightarrow> lexing \<Rightarrow> turned" where
  "step_hash d byte s =
     (let l = lexer_at d s in
      if \<not> lx_document l \<and> \<not> lx_active l \<and> byte = CHR ''#'' then step_on (set_lexer d (\<lambda>l. l\<lparr>lx_comment := True\<rparr>) s)
      else Some (Fall, s))"

definition step_word :: "ctype \<Rightarrow> nat \<Rightarrow> char \<Rightarrow> lexing \<Rightarrow> turned" where
  "step_word cx d byte s =
     attempt (Some (start_word d s)) (\<lambda>s.
       let l = lexer_at d s; quote = body_quote l in
       if byte = CHR 0x22 \<and> \<not> in_frame l ARITHMETIC \<and> \<not> (lx_document l \<and> lx_frames l = []) then
         (if in_frame l DOUBLE then attempt (lex_pop d 1 s) step_on
          else attempt (lex_push d DOUBLE CSH_FRAGMENT_QUOTED CSH_QUOTE_DOUBLE 1 s) step_on)
       else if byte = CHR 0x27 \<and> quote = CSH_QUOTE_NONE
       then attempt (lex_push d SINGLE CSH_FRAGMENT_QUOTED CSH_QUOTE_SINGLE 1 s) step_on
       else
         lex_or_else (if byte = CHR ''$'' then lex_dollar cx d quote s else Some (Fall, s)) (\<lambda>s.
           if byte = CHR 0x60 then attempt (lex_push d BACKQUOTE CSH_FRAGMENT_BACKQUOTE quote 1 s) step_on
           else attempt (lex_piece d CSH_FRAGMENT_TEXT quote 1 s) step_on))"

text \<open>One round of the loop, for a byte outside comments and in general.\<close>

definition lex_byte :: "ctype \<Rightarrow> nat \<Rightarrow> char \<Rightarrow> lexing \<Rightarrow> turned" where
  "lex_byte cx d byte s =
     lex_or_else (step_simple cx d s) (\<lambda>s.
     lex_or_else (step_wide cx d s) (\<lambda>s.
     lex_or_else (step_single d byte s) (\<lambda>s.
     lex_or_else (step_parameter d byte s) (\<lambda>s.
     lex_or_else (step_arithmetic cx d byte s) (\<lambda>s.
     lex_or_else (step_escape cx d byte s) (\<lambda>s.
     lex_or_else (step_raw_quote d byte s) (\<lambda>s.
     lex_or_else (step_delimiting d byte s) (\<lambda>s.
     lex_or_else (step_hash d byte s) (step_word cx d byte)))))))))"

definition lex_step :: "ctype \<Rightarrow> nat \<Rightarrow> lexing \<Rightarrow> turned" where
  "lex_step cx d s =
     (let l = lexer_at d s; so = lg_source s in
      if lx_active l \<and> lx_kind l \<noteq> CSH_TOKEN_WORD then operator_step cx d (lx_operator l) s
      else
        (case drop (so_cursor so) (so_data so) of
           [] \<Rightarrow> if \<not> so_final so then Some (Return CSH_LEX_MORE None, s) else lex_eof d (lx_frames l) s
         | byte # _ \<Rightarrow>
             if byte = CHR 0x00 then lex_error (lex_fail d ''NUL byte in shell input'' EOK s)
             else lex_or_else (step_comment d byte s) (lex_byte cx d byte)))"

end
