(* ===== verification/Lexer_Tokens.thy ===== *)
theory Lexer_Tokens
  imports Lexer
begin

text \<open>
  The loop of \<open>next_token\<close>, which ends because every round consumes input, closes a simple parameter or enters
  a comment, and the public operations around it (\<open>src/lexer.c\<close>).
\<close>

subsection \<open>What a round leaves to read\<close>

text \<open>The loop ends because every round consumes input, or leaves a simple parameter or enters a comment
  without consuming.\<close>

lemma set_lexer_simps [simp]:
  "lg_source (set_lexer d f s) = lg_source s" "length (lg_lexers (set_lexer d f s)) = length (lg_lexers s)"
  "lg_error (set_lexer d f s) = lg_error s" "lg_checks (set_lexer d f s) = lg_checks s"
  "lg_errno (set_lexer d f s) = lg_errno s" "lg_world (set_lexer d f s) = lg_world s"
  by (simp_all add: set_lexer_def)

lemma set_lexer_at [simp]: "d < length (lg_lexers s) \<Longrightarrow> lexer_at d (set_lexer d f s) = f (lexer_at d s)"
  by (simp add: set_lexer_def)

lemma set_lexer_other [simp]: "i \<noteq> d \<Longrightarrow> lexer_at i (set_lexer d f s) = lexer_at i s"
  by (simp add: set_lexer_def)

lemma set_source_simps [simp]:
  "lg_source (set_source f s) = f (lg_source s)" "lg_lexers (set_source f s) = lg_lexers s"
  "lg_error (set_source f s) = lg_error s" "lg_checks (set_source f s) = lg_checks s"
  "lg_errno (set_source f s) = lg_errno s" "lg_world (set_source f s) = lg_world s"
  by (simp_all add: set_source_def)

lemma lex_malloc_keeps:
  "lex_malloc s = (b, s') \<Longrightarrow> lg_source s' = lg_source s \<and> lg_lexers s' = lg_lexers s \<and> lg_error s' = lg_error s"
  by (auto simp: lex_malloc_def split: prod.splits)

lemma lex_reserve_keeps:
  "lex_reserve capacity count sz s = (b, capacity', s') \<Longrightarrow>
   lg_source s' = lg_source s \<and> lg_lexers s' = lg_lexers s \<and> lg_error s' = lg_error s"
  by (auto simp: lex_reserve_def Let_def dest: lex_malloc_keeps split: if_splits prod.splits bool.splits)

lemma grow_capacity_ge: "0 < capacity \<Longrightarrow> needed \<le> grow_capacity capacity needed"
  by (induction capacity needed rule: grow_capacity.induct) (subst grow_capacity.simps, auto)

lemma lex_reserve_room: "lex_reserve capacity count sz s = (True, capacity', s') \<Longrightarrow> count \<le> capacity'"
  by (auto simp: lex_reserve_def Let_def grow_capacity_ge split: if_splits prod.splits bool.splits)

text \<open>The aliases end one after the other behind the cursor; the positions of the cache lie in the text.\<close>

fun alias_chain :: "nat \<Rightarrow> alias_source list \<Rightarrow> nat \<Rightarrow> bool" where
  "alias_chain n [] m \<longleftrightarrow> n \<le> m"
| "alias_chain n (a # as) m \<longleftrightarrow> n < al_end a \<and> alias_chain (al_end a) as m"

definition cache_ok :: "nat \<Rightarrow> nat \<Rightarrow> nat list \<Rightarrow> bool" where
  "cache_ok n scan ps \<longleftrightarrow> length ps \<le> scan \<and> (\<forall>k < length ps. k \<le> ps ! k \<and> ps ! k < n)"

definition source_ok :: "source \<Rightarrow> bool" where
  "source_ok so \<longleftrightarrow>
     alias_chain (so_cursor so) (so_aliases so) (length (so_data so)) \<and>
     (case so_look so of None \<Rightarrow> True | Some lk \<Rightarrow> cache_ok (length (so_data so) - so_cursor so) (lk_scan lk) (lk_positions lk))"

lemma alias_chain_le: "alias_chain n as m \<Longrightarrow> n \<le> m"
  by (induction as arbitrary: n) fastforce+

lemma leave_aliases_chain:
  assumes "alias_chain n as m" "n < m" "leave_aliases (Suc n) as p e = (as', p', e')"
  shows "alias_chain (Suc n) as' m"
proof -
  have stay: "leave_aliases k bs q g = (bs, q, g)" if "alias_chain k bs m" for k bs q g
    using that by (cases bs) auto
  show ?thesis
    using assms stay by (cases as) (auto split: if_splits)
qed

text \<open>The effect of one byte on the pending words.\<close>

definition spelling :: "char \<Rightarrow> nat \<Rightarrow> csh_lexer \<Rightarrow> csh_lexer" where
  "spelling b capacity l =
     l\<lparr>lx_raw := lx_raw l @ [b], lx_raw_capacity := capacity, lx_spelling_position := advance_position b (lx_spelling_position l)\<rparr>"

lemma spelling_simps [simp]:
  "lx_raw (spelling b c l) = lx_raw l @ [b]" "lx_raw_capacity (spelling b c l) = c"
  "lx_frames (spelling b c l) = lx_frames l" "lx_fragments (spelling b c l) = lx_fragments l"
  "lx_active (spelling b c l) = lx_active l" "lx_comment (spelling b c l) = lx_comment l"
  "lx_command (spelling b c l) = lx_command l" "lx_kind (spelling b c l) = lx_kind l"
  "lx_arithmetic (spelling b c l) = lx_arithmetic l" "lx_operator (spelling b c l) = lx_operator l"
  "lx_document (spelling b c l) = lx_document l" "lx_token_name (spelling b c l) = lx_token_name l"
  by (simp_all add: spelling_def)

lemma capture_byte_True:
  assumes "capture_byte d b i s = (True, s')"
  shows "lg_source s' = lg_source s" "length (lg_lexers s') = length (lg_lexers s)" "j \<noteq> i \<Longrightarrow> lexer_at j s' = lexer_at j s"
    "\<not> captures_byte d i s \<Longrightarrow> s' = s" "lg_error s' = lg_error s"
  using assms
  by (auto simp: capture_byte_def Let_def dest: lex_reserve_keeps split: if_splits prod.splits bool.splits)

lemma capture_byte_spelling:
  assumes "capture_byte d b i s = (True, s')" "captures_byte d i s" "i < length (lg_lexers s)"
  shows "\<exists>c > Suc (length (lx_raw (lexer_at i s))). lexer_at i s' = spelling b c (lexer_at i s)"
proof -
  obtain c s1 where r: "lex_reserve (lx_raw_capacity (lexer_at i s)) (length (lx_raw (lexer_at i s)) + 2) 1 s = (True, c, s1)"
    and s': "s' = set_lexer i (\<lambda>l. spelling b c l) s1"
    using assms by (auto simp: capture_byte_def Let_def spelling_def split: if_splits prod.splits bool.splits)
  show ?thesis
    using lex_reserve_room [OF r] lex_reserve_keeps [OF r] assms(3) by (intro exI [of _ c]) (simp add: s')
qed

definition captured :: "nat \<Rightarrow> char \<Rightarrow> lexing \<Rightarrow> nat \<Rightarrow> lexing \<Rightarrow> bool" where
  "captured d b s i s' \<longleftrightarrow>
     (if captures_byte d i s then \<exists>c > Suc (length (lx_raw (lexer_at i s))). lexer_at i s' = spelling b c (lexer_at i s)
      else lexer_at i s' = lexer_at i s)"

lemma captures_byte_cong:
  "lg_source s' = lg_source s \<Longrightarrow> lexer_at i s' = lexer_at i s \<Longrightarrow> captures_byte d i s' = captures_byte d i s"
  by (simp add: captures_byte_def)

lemma capture_loop_True:
  assumes "capture_loop d b is s = (True, s')" "distinct is" "\<forall>i \<in> set is. i < length (lg_lexers s)"
  shows "lg_source s' = lg_source s \<and> length (lg_lexers s') = length (lg_lexers s) \<and> lg_error s' = lg_error s \<and>
    (\<forall>i \<in> set is. captured d b s i s') \<and> (\<forall>j. j \<notin> set is \<longrightarrow> lexer_at j s' = lexer_at j s)"
  using assms
proof (induction "is" arbitrary: s)
  case (Cons i "is")
  obtain s1 where 1: "capture_byte d b i s = (True, s1)" "capture_loop d b is s1 = (True, s')"
    using Cons.prems(1) by (auto split: prod.splits bool.splits)
  note k = capture_byte_True [OF 1(1)]
  have other: "captured d b s j s'" if "j \<in> set is" "captured d b s1 j s'" for j
  proof -
    have "lexer_at j s1 = lexer_at j s"
      using k(3) [of j] that(1) Cons.prems(2) by auto
    then show ?thesis
      using that(2) captures_byte_cong [OF k(1), of j d] by (simp add: captured_def cong: if_cong)
  qed
  have "captured d b s i s1"
    using k(4) capture_byte_spelling [OF 1(1)] Cons.prems(3) by (auto simp: captured_def)
  moreover have "lexer_at i s' = lexer_at i s1"
    using Cons.IH [OF 1(2)] Cons.prems k by simp
  ultimately have "captured d b s i s'"
    by (simp add: captured_def)
  then show ?case
    using Cons.IH [OF 1(2)] Cons.prems k other by auto
qed simp

lemma advance_source_simps [simp]:
  "so_data (advance_source b so) = so_data so" "so_cursor (advance_source b so) = Suc (so_cursor so)"
  "so_look (advance_source b so) = so_look so" "so_final (advance_source b so) = so_final so"
  "so_failure (advance_source b so) = so_failure so" "so_name (advance_source b so) = so_name so"
  by (simp_all add: advance_source_def split: prod.splits)

lemma advance_source_ok:
  assumes "source_ok so" "so_look so = None" "so_cursor so < length (so_data so)"
  shows "source_ok (advance_source b so)"
  using assms leave_aliases_chain
  by (auto simp: source_ok_def advance_source_def split: prod.splits)

lemma consume_byte_True:
  assumes "consume_byte d s = Some (True, s')"
  obtains b r where "drop (so_cursor (lg_source s)) (so_data (lg_source s)) = b # r" "b \<noteq> CHR 0x00"
    "lg_source s' = advance_source b (lg_source s)" "length (lg_lexers s') = length (lg_lexers s)"
    "\<forall>i < length (lg_lexers s). captured d b s i s'" "lg_error s' = lg_error s"
proof -
  obtain b r s1 where 1: "drop (so_cursor (lg_source s)) (so_data (lg_source s)) = b # r" "b \<noteq> CHR 0x00"
    "capture_loop d b [0..<length (lg_lexers s)] s = (True, s1)" "s' = set_source (advance_source b) s1"
    using assms by (auto simp: consume_byte_def Let_def split: list.splits if_splits prod.splits bool.splits)
  show thesis
    using capture_loop_True [OF 1(3)] 1 by (intro that [of b r]) (auto simp: captured_def)
qed

text \<open>The effect of \<open>consume\<close> on a lexer: its spelling may grow, with room for the terminator.\<close>

definition grown :: "csh_lexer \<Rightarrow> csh_lexer \<Rightarrow> bool" where
  "grown l l' \<longleftrightarrow>
     l' = l \<or> (\<exists>x c p. l' = l\<lparr>lx_raw := lx_raw l @ x, lx_raw_capacity := c, lx_spelling_position := p\<rparr> \<and>
       CHR 0x00 \<notin> set x \<and> length (lx_raw l @ x) < c)"

lemma grown_refl [simp]: "grown l l"
  by (simp add: grown_def)

lemma grownI:
  "CHR 0x00 \<notin> set x \<Longrightarrow> length (lx_raw l @ x) < c \<Longrightarrow>
   grown l (l\<lparr>lx_raw := lx_raw l @ x, lx_raw_capacity := c, lx_spelling_position := p\<rparr>)"
  unfolding grown_def by blast

lemma grown_trans: "grown l l1 \<Longrightarrow> grown l1 l2 \<Longrightarrow> grown l l2"
  by (fastforce simp: grown_def)

lemma grown_keeps:
  assumes "grown l l'"
  shows "lx_frames l' = lx_frames l" "lx_fragments l' = lx_fragments l" "lx_active l' = lx_active l"
    "lx_comment l' = lx_comment l" "lx_command l' = lx_command l" "lx_kind l' = lx_kind l" "lx_document l' = lx_document l"
    "lx_arithmetic l' = lx_arithmetic l" "lx_operator l' = lx_operator l" "lx_token_name l' = lx_token_name l"
    "\<exists>x. lx_raw l' = lx_raw l @ x \<and> CHR 0x00 \<notin> set x"
  using assms by (auto simp: grown_def)

lemma captured_grown: "captured d b s i s' \<Longrightarrow> b \<noteq> CHR 0x00 \<Longrightarrow> grown (lexer_at i s) (lexer_at i s')"
  using grownI [of "[b]"] by (auto simp: captured_def spelling_def split: if_splits)

definition consumes :: "nat \<Rightarrow> nat \<Rightarrow> lexing \<Rightarrow> lexing \<Rightarrow> bool" where
  "consumes d n s s' \<longleftrightarrow>
     length (lg_lexers s') = length (lg_lexers s) \<and> lg_error s' = lg_error s \<and>
     (\<forall>i < length (lg_lexers s). grown (lexer_at i s) (lexer_at i s')) \<and>
     (d < length (lg_lexers s) \<longrightarrow> lx_active (lexer_at d s) \<longrightarrow>
        lx_raw (lexer_at d s') = lx_raw (lexer_at d s) @ take n (drop (so_cursor (lg_source s)) (so_data (lg_source s)))) \<and>
     so_data (lg_source s') = so_data (lg_source s) \<and> so_cursor (lg_source s') = so_cursor (lg_source s) + n \<and>
     (n \<noteq> 0 \<longrightarrow> so_cursor (lg_source s) + n \<le> length (so_data (lg_source s))) \<and>
     so_final (lg_source s') = so_final (lg_source s) \<and> so_failure (lg_source s') = so_failure (lg_source s) \<and>
     so_look (lg_source s') = None \<and> (source_ok (lg_source s) \<longrightarrow> source_ok (lg_source s'))"

lemma consume_byte_consumes:
  assumes "consume_byte d s = Some (True, s')" "so_look (lg_source s) = None"
  shows "consumes d 1 s s'"
proof -
  obtain b r where 1: "drop (so_cursor (lg_source s)) (so_data (lg_source s)) = b # r" "b \<noteq> CHR 0x00"
    "lg_source s' = advance_source b (lg_source s)" "length (lg_lexers s') = length (lg_lexers s)"
    "\<forall>i < length (lg_lexers s). captured d b s i s'" "lg_error s' = lg_error s"
    by (rule consume_byte_True [OF assms(1)])
  moreover have "lx_raw (lexer_at d s') = lx_raw (lexer_at d s) @ [b]" if "d < length (lg_lexers s)" "lx_active (lexer_at d s)"
    using that 1(5) [rule_format, of d] by (auto simp: captured_def captures_byte_def)
  ultimately show ?thesis
    using drop_ConsD [OF 1(1)] assms(2) by (auto simp: consumes_def intro: captured_grown advance_source_ok)
qed

lemma consumes_0: "so_look (lg_source s) = None \<Longrightarrow> consumes d 0 s s"
  by (simp add: consumes_def)

lemma take_drop_split: "take (m + n) (drop k xs) = take m (drop k xs) @ take n (drop (k + m) xs)"
  by (simp add: take_add add.commute)

lemma consumes_trans:
  assumes a: "consumes d m s s1" and b: "consumes d n s1 s2"
  shows "consumes d (m + n) s s2"
proof -
  have "grown (lexer_at i s) (lexer_at i s2)" if "i < length (lg_lexers s)" for i
    using a b that grown_trans [of "lexer_at i s" "lexer_at i s1"] by (simp add: consumes_def)
  moreover have "lx_raw (lexer_at d s2) = lx_raw (lexer_at d s) @ take (m + n) (drop (so_cursor (lg_source s)) (so_data (lg_source s)))"
    if d: "d < length (lg_lexers s)" and act: "lx_active (lexer_at d s)"
  proof -
    have "lx_active (lexer_at d s1)"
      using a d act grown_keeps(3) [of "lexer_at d s" "lexer_at d s1"] by (simp add: consumes_def)
    then show ?thesis
      using a b d act by (simp add: consumes_def take_drop_split)
  qed
  moreover have "so_cursor (lg_source s) + (m + n) \<le> length (so_data (lg_source s))" if "m + n \<noteq> 0"
    using a b that by (cases "n = 0") (auto simp: consumes_def)
  ultimately show ?thesis
    using a b by (simp add: consumes_def)
qed

lemma consume_bytes_consumes:
  "consume_bytes d n s = Some (True, s') \<Longrightarrow> so_look (lg_source s) = None \<Longrightarrow> consumes d n s s'"
proof (induction n arbitrary: s)
  case 0
  then show ?case by (simp add: consumes_0)
next
  case (Suc n)
  obtain s1 where 1: "consume_byte d s = Some (True, s1)" "consume_bytes d n s1 = Some (True, s')"
    using Suc.prems(1) by (auto simp: bind_eq_Some_conv split: if_splits)
  have c: "consumes d 1 s s1"
    using 1(1) Suc.prems(2) by (rule consume_byte_consumes)
  have "consumes d n s1 s'"
    by (rule Suc.IH [OF 1(2)]) (use c in \<open>simp add: consumes_def\<close>)
  then show ?case
    using consumes_trans [OF c] by simp
qed

lemma source_ok_look [simp]: "source_ok so \<Longrightarrow> source_ok (so\<lparr>so_look := None\<rparr>)"
  by (simp add: source_ok_def)

lemma lex_consume_consumes:
  assumes "lex_consume d n s = Some (True, s')"
  shows "consumes d n s s'"
proof -
  have "consumes d n (set_source (\<lambda>so. so\<lparr>so_look := None\<rparr>) s) s'"
    using assms consume_bytes_consumes by (simp add: lex_consume_def)
  then show ?thesis
    unfolding consumes_def by simp
qed

text \<open>The effect of the operations that also keep fragments: the lexer's own fragments are left open.\<close>

definition strip :: "csh_lexer \<Rightarrow> csh_lexer" where
  "strip l = l\<lparr>lx_fragments := [], lx_fragment_capacity := 0\<rparr>"

definition works :: "nat \<Rightarrow> nat \<Rightarrow> lexing \<Rightarrow> lexing \<Rightarrow> bool" where
  "works d n s s' \<longleftrightarrow>
     length (lg_lexers s') = length (lg_lexers s) \<and> lg_error s' = lg_error s \<and>
     (\<forall>i < length (lg_lexers s). i \<noteq> d \<longrightarrow> grown (lexer_at i s) (lexer_at i s')) \<and>
     (d < length (lg_lexers s) \<longrightarrow> grown (strip (lexer_at d s)) (strip (lexer_at d s')) \<and>
        (lx_active (lexer_at d s) \<longrightarrow>
           lx_raw (lexer_at d s') = lx_raw (lexer_at d s) @ take n (drop (so_cursor (lg_source s)) (so_data (lg_source s))))) \<and>
     so_data (lg_source s') = so_data (lg_source s) \<and> so_cursor (lg_source s') = so_cursor (lg_source s) + n \<and>
     (n \<noteq> 0 \<longrightarrow> so_cursor (lg_source s) + n \<le> length (so_data (lg_source s))) \<and>
     so_final (lg_source s') = so_final (lg_source s) \<and> so_failure (lg_source s') = so_failure (lg_source s) \<and>
     (source_ok (lg_source s) \<longrightarrow> source_ok (lg_source s'))"

lemma strip_grown:
  assumes "grown l l'"
  shows "grown (strip l) (strip l')"
proof (cases "l' = l")
  case False
  then obtain x c p where "l' = l\<lparr>lx_raw := lx_raw l @ x, lx_raw_capacity := c, lx_spelling_position := p\<rparr>"
    "CHR 0x00 \<notin> set x" "length (lx_raw l @ x) < c"
    using assms by (auto simp: grown_def)
  then show ?thesis
    using grownI [of x "strip l" c p] by (cases l) (simp add: strip_def)
qed simp

lemma consumes_works: "consumes d n s s' \<Longrightarrow> works d n s s'"
  by (simp add: consumes_def works_def strip_grown)

lemma works_refl: "works d 0 s s"
  by (simp add: works_def)

lemma strip_active: "grown (strip l) (strip l') \<Longrightarrow> lx_active l' = lx_active l"
  using grown_keeps(3) [of "strip l" "strip l'"] by (simp add: strip_def)

lemma works_trans:
  assumes a: "works d m s s1" and b: "works d n s1 s2"
  shows "works d (m + n) s s2"
proof -
  have "grown (lexer_at i s) (lexer_at i s2)" if "i < length (lg_lexers s)" "i \<noteq> d" for i
    using a b that grown_trans [of "lexer_at i s" "lexer_at i s1"] by (simp add: works_def)
  moreover have "grown (strip (lexer_at d s)) (strip (lexer_at d s2))" if "d < length (lg_lexers s)"
    using a b that grown_trans [of "strip (lexer_at d s)" "strip (lexer_at d s1)"] by (simp add: works_def)
  moreover have "lx_raw (lexer_at d s2) = lx_raw (lexer_at d s) @ take (m + n) (drop (so_cursor (lg_source s)) (so_data (lg_source s)))"
    if "d < length (lg_lexers s)" "lx_active (lexer_at d s)"
    using a b that strip_active [of "lexer_at d s" "lexer_at d s1"] by (simp add: works_def take_drop_split)
  moreover have "so_cursor (lg_source s) + (m + n) \<le> length (so_data (lg_source s))" if "m + n \<noteq> 0"
    using a b that by (cases "n = 0") (auto simp: works_def)
  ultimately show ?thesis
    using a b by (simp add: works_def)
qed

lemma works_fragments:
  assumes "lg_source s' = lg_source s" "lg_error s' = lg_error s" "length (lg_lexers s') = length (lg_lexers s)"
    "\<And>i. i \<noteq> d \<Longrightarrow> lexer_at i s' = lexer_at i s" 
    "d < length (lg_lexers s) \<Longrightarrow> strip (lexer_at d s') = strip (lexer_at d s)"
  shows "works d 0 s s'"
proof -
  have "lx_raw (lexer_at d s') = lx_raw (lexer_at d s)" if "d < length (lg_lexers s)"
    using arg_cong [OF assms(5) [OF that], of lx_raw] by (simp add: strip_def)
  then show ?thesis
    using assms by (simp add: works_def)
qed

lemma add_fragment_works:
  assumes "add_fragment d kind quote s = (Some i, s')"
  shows "works d 0 s s'"
proof -
  obtain c s1 where "lex_reserve (lx_fragment_capacity (lexer_at d s)) (length (lx_fragments (lexer_at d s)) + 1) 80 s = (True, c, s1)"
    "s' = set_lexer d (\<lambda>l. l\<lparr>lx_fragment_capacity := c, lx_fragments := lx_fragments l @
                [\<lparr>fr_kind = kind, fr_quote = quote, fr_parent = parent_fragment l, fr_begin = length (lx_raw l),
                  fr_end = length (lx_raw l), fr_start = lx_spelling_position l, fr_finish = lx_spelling_position l\<rparr>]\<rparr>) s1"
    using assms by (auto simp: add_fragment_def Let_def split: if_splits prod.splits bool.splits)
  then show ?thesis
    using lex_reserve_keeps by (intro works_fragments) (fastforce simp: strip_def)+
qed

lemma finish_fragment_works: "finish_fragment d i s = Some (b, s') \<Longrightarrow> works d 0 s s'"
  by (rule works_fragments) (auto simp: finish_fragment_def strip_def split: if_splits)

lemma lex_piece_works:
  assumes "lex_piece d kind quote n s = Some (True, s')"
  shows "works d n s s'"
proof -
  obtain i s1 s2 where 1: "(if extends_text (lexer_at d s) kind quote then (Some (length (lx_fragments (lexer_at d s)) - 1), s)
            else add_fragment d kind quote s) = (Some i, s1)" "lex_consume d n s1 = Some (True, s2)"
    "finish_fragment d i s2 = Some (True, s')"
    using assms by (auto simp: lex_piece_def bind_eq_Some_conv split: prod.splits option.splits if_splits)
  have "works d 0 s s1"
    using 1(1) by (auto simp: works_refl intro: add_fragment_works split: if_splits)
  moreover have "works d n s1 s2"
    by (rule consumes_works [OF lex_consume_consumes [OF 1(2)]])
  moreover have "works d 0 s2 s'"
    by (rule finish_fragment_works [OF 1(3)])
  ultimately show ?thesis
    using works_trans [of d 0 s s1 n s2] works_trans [of d n s s2 0 s'] by simp
qed

lemma lex_delimiter_works: "lex_delimiter d n quote s = Some (True, s') \<Longrightarrow> works d n s s'"
proof (induction d n quote s rule: lex_delimiter.induct)
  case (1 d n quote s)
  show ?case
  proof (cases "n = 0")
    case True
    then show ?thesis
      using 1(3) by (subst (asm) lex_delimiter.simps) (simp add: works_refl)
  next
    case False
    show ?thesis
    proof (cases "2 \<le> n \<and> take 2 (drop (so_cursor (lg_source s)) (so_data (lg_source s))) = [CHR 0x5C, CHR 0x0A]")
      case True
      then obtain s1 where p: "lex_piece d CSH_FRAGMENT_CONTINUATION quote 2 s = Some (True, s1)"
        and r: "lex_delimiter d (n - 2) quote s1 = Some (True, s')"
        using 1(3) False by (subst (asm) lex_delimiter.simps) (auto simp: bind_eq_Some_conv split: if_splits)
      then show ?thesis
        using works_trans [OF lex_piece_works [OF p] 1(1) [OF False True p refl TrueI r]]
        by (simp only: le_add_diff_inverse [OF conjunct1 [OF True]])
    next
      case no: False
      then obtain s1 where "lex_consume d 1 s = Some (True, s1)" "lex_delimiter d (n - 1) quote s1 = Some (True, s')"
        using 1(3) False by (subst (asm) lex_delimiter.simps) (auto simp: bind_eq_Some_conv split: if_splits)
      then show ?thesis
        using 1(2) [OF False no] lex_consume_consumes consumes_works works_trans [of d 1 s s1 "n - 1" s'] False by auto
    qed
  qed
qed

definition input_weight :: "nat \<Rightarrow> lexing \<Rightarrow> nat" where
  "input_weight d s = 4 * (length (so_data (lg_source s)) - so_cursor (lg_source s)) + 2 * length (lx_frames (lexer_at d s))"

definition lex_weight :: "nat \<Rightarrow> lexing \<Rightarrow> nat" where
  "lex_weight d s = input_weight d s + (if lx_comment (lexer_at d s) then 0 else 1)"

text \<open>Moving on by \<open>n\<close> bytes with \<open>k\<close> frames left open.\<close>

definition moves :: "nat \<Rightarrow> nat \<Rightarrow> nat \<Rightarrow> lexing \<Rightarrow> lexing \<Rightarrow> bool" where
  "moves d n k s s' \<longleftrightarrow>
     length (lg_lexers s') = length (lg_lexers s) \<and> so_data (lg_source s') = so_data (lg_source s) \<and>
     so_cursor (lg_source s') = so_cursor (lg_source s) + n \<and>
     (n \<noteq> 0 \<longrightarrow> so_cursor (lg_source s) + n \<le> length (so_data (lg_source s))) \<and>
     length (lx_frames (lexer_at d s')) = k \<and> lx_comment (lexer_at d s') = lx_comment (lexer_at d s)"

lemma strip_keeps:
  assumes "grown (strip l) (strip l')"
  shows "lx_frames l' = lx_frames l" "lx_comment l' = lx_comment l" "lx_active l' = lx_active l" "lx_kind l' = lx_kind l"
    "lx_command l' = lx_command l" "lx_document l' = lx_document l" "lx_arithmetic l' = lx_arithmetic l"
    "lx_operator l' = lx_operator l" "lx_token_name l' = lx_token_name l"
    "\<exists>x. lx_raw l' = lx_raw l @ x \<and> CHR 0x00 \<notin> set x"
  using grown_keeps [OF assms] by (simp_all add: strip_def)

lemma works_moves: "works d n s s' \<Longrightarrow> d < length (lg_lexers s) \<Longrightarrow> moves d n (length (lx_frames (lexer_at d s))) s s'"
  by (auto simp: works_def moves_def strip_keeps)

lemma lex_peek_keeps:
  assumes "lex_peek cx n s = Some (r, s')"
  shows "lg_lexers s' = lg_lexers s" "lg_error s' = lg_error s" "\<exists>lk. lg_source s' = (lg_source s)\<lparr>so_look := lk\<rparr>"
  using assms by (auto simp: lex_peek_def Let_def split: prod.splits option.splits list.splits if_splits)

lemma lex_push_moves:
  assumes "lex_push d k fk quote n s = Some (True, s')" "d < length (lg_lexers s)"
  shows "moves d n (Suc (length (lx_frames (lexer_at d s)))) s s'"
proof -
  obtain i s1 c s2 where 1: "add_fragment d fk quote s = (Some i, s1)"
    "lex_reserve (lx_frame_capacity (lexer_at d s1)) (length (lx_frames (lexer_at d s1)) + 1) 32 s1 = (True, c, s2)"
    "lex_delimiter d n quote (set_lexer d (\<lambda>l. l\<lparr>lx_frame_capacity := c, lx_frames :=
       \<lparr>fm_kind = k, fm_quote = quote, fm_fragment = i, fm_parentheses = 0, fm_stage = 0\<rparr> # lx_frames l\<rparr>) s2) = Some (True, s')"
    using assms by (auto simp: lex_push_def Let_def split: prod.splits option.splits if_splits bool.splits)
  show ?thesis
    using works_moves [OF add_fragment_works [OF 1(1)] assms(2)] lex_reserve_keeps [OF 1(2)] assms(2)
      works_moves [OF lex_delimiter_works [OF 1(3)]]
    by (auto simp: moves_def)
qed

lemma lex_pop_moves:
  assumes "lex_pop d n s = Some (True, s')" "d < length (lg_lexers s)"
  shows "moves d n (length (lx_frames (lexer_at d s)) - 1) s s'" "lx_frames (lexer_at d s) \<noteq> []"
proof -
  obtain f fs s1 b s2 where 1: "lx_frames (lexer_at d s) = f # fs" "lex_delimiter d n (fm_quote f) s = Some (True, s1)"
    "finish_fragment d (fm_fragment f) s1 = Some (b, s2)" "s' = set_lexer d (\<lambda>l. l\<lparr>lx_frames := tl (lx_frames l)\<rparr>) s2"
    using assms by (auto simp: lex_pop_def bind_eq_Some_conv split: list.splits if_splits)
  show "moves d n (length (lx_frames (lexer_at d s)) - 1) s s'"
    using works_moves [OF lex_delimiter_works [OF 1(2)] assms(2)] works_moves [OF finish_fragment_works [OF 1(3)]] assms(2) 1(1,4)
    by (auto simp: moves_def)
  show "lx_frames (lexer_at d s) \<noteq> []"
    using 1(1) by simp
qed

lemma copy_string_keeps:
  "copy_string t s = (r, s') \<Longrightarrow> lg_source s' = lg_source s \<and> lg_lexers s' = lg_lexers s \<and> lg_error s' = lg_error s"
  by (auto simp: copy_string_def dest: lex_malloc_keeps split: prod.splits)

text \<open>What beginning a token leaves alone.\<close>

definition token_started :: "csh_lexer \<Rightarrow> csh_lexer \<Rightarrow> bool" where
  "token_started l l' \<longleftrightarrow>
     lx_active l' \<and> lx_token_name l' \<noteq> None \<and> lx_raw l' = lx_raw l \<and> lx_raw_capacity l' = lx_raw_capacity l \<and>
     lx_fragments l' = lx_fragments l \<and> lx_frames l' = lx_frames l \<and> lx_comment l' = lx_comment l \<and>
     lx_command l' = lx_command l \<and> lx_document l' = lx_document l \<and> lx_arithmetic l' = lx_arithmetic l"

definition named :: "csh_lexer \<Rightarrow> csh_lexer \<Rightarrow> bool" where
  "named l l' \<longleftrightarrow>
     lx_raw l' = lx_raw l \<and> lx_raw_capacity l' = lx_raw_capacity l \<and> lx_fragments l' = lx_fragments l \<and>
     lx_frames l' = lx_frames l \<and> lx_comment l' = lx_comment l \<and> lx_active l' = lx_active l \<and>
     lx_command l' = lx_command l \<and> lx_document l' = lx_document l \<and> lx_arithmetic l' = lx_arithmetic l \<and> lx_kind l' = lx_kind l"

lemma token_source_named:
  assumes "token_source d s = (b, s')" "d < length (lg_lexers s)"
  shows "lg_source s' = lg_source s" "length (lg_lexers s') = length (lg_lexers s)" "i \<noteq> d \<Longrightarrow> lexer_at i s' = lexer_at i s"
    "named (lexer_at d s) (lexer_at d s')" "b \<Longrightarrow> lx_token_name (lexer_at d s') \<noteq> None" "lg_error s' = lg_error s"
  using assms
  by (auto simp: token_source_def named_def dest!: copy_string_keeps split: list.splits prod.splits)

lemma start_token_True:
  assumes "start_token d s = (True, s')" and d: "d < length (lg_lexers s)"
  shows "token_started (lexer_at d s) (lexer_at d s')" "lx_kind (lexer_at d s') = lx_kind (lexer_at d s)" "i \<noteq> d \<Longrightarrow> lexer_at i s' = lexer_at i s"
    "length (lg_lexers s') = length (lg_lexers s)" "lg_source s' = (lg_source s)\<lparr>so_alias_eligible := False\<rparr>" "lg_error s' = lg_error s"
proof -
  obtain s1 where 1: "token_source d s = (True, s1)" and s': "s' = set_source (\<lambda>so. so\<lparr>so_alias_eligible := False\<rparr>)
      (set_lexer d (\<lambda>l. l\<lparr>lx_active := True, lx_start := so_position (lg_source s), lx_spelling_position := so_position (lg_source s),
                lx_alias_eligible := so_alias_eligible (lg_source s)\<rparr>) s1)"
    using assms by (auto simp: start_token_def Let_def split: prod.splits bool.splits)
  note k = token_source_named [OF 1 d]
  show "token_started (lexer_at d s) (lexer_at d s')"
    using k(2,4,5) d by (simp add: s' token_started_def named_def del: not_None_eq)
  show "lx_kind (lexer_at d s') = lx_kind (lexer_at d s)"
    using k(2,4) d by (simp add: s' named_def)
  show "i \<noteq> d \<Longrightarrow> lexer_at i s' = lexer_at i s" "length (lg_lexers s') = length (lg_lexers s)"
    "lg_source s' = (lg_source s)\<lparr>so_alias_eligible := False\<rparr>" "lg_error s' = lg_error s"
    using k(1,2,3,6) by (simp_all add: s')
qed

lemma start_word_True:
  assumes "start_word d s = (True, s')" and d: "d < length (lg_lexers s)"
  shows "s' = s \<and> lx_active (lexer_at d s) \<or>
    \<not> lx_active (lexer_at d s) \<and> token_started (lexer_at d s) (lexer_at d s') \<and> lx_kind (lexer_at d s') = CSH_TOKEN_WORD \<and>
    (\<forall>i. i \<noteq> d \<longrightarrow> lexer_at i s' = lexer_at i s) \<and> length (lg_lexers s') = length (lg_lexers s) \<and>
    lg_source s' = (lg_source s)\<lparr>so_alias_eligible := False\<rparr> \<and> lg_error s' = lg_error s"
proof (cases "lx_active (lexer_at d s)")
  case False
  then obtain s1 where 1: "start_token d s = (True, s1)" "s' = set_lexer d (\<lambda>l. l\<lparr>lx_kind := CSH_TOKEN_WORD\<rparr>) s1"
    using assms by (auto simp: start_word_def split: prod.splits bool.splits)
  show ?thesis
    using False 1(2) d start_token_True [OF 1(1) d] by (simp add: token_started_def del: not_None_eq)
qed (use assms in \<open>simp add: start_word_def\<close>)

lemma start_word_moves:
  "start_word d s = (True, s') \<Longrightarrow> d < length (lg_lexers s) \<Longrightarrow> moves d 0 (length (lx_frames (lexer_at d s))) s s'"
  using start_word_True by (fastforce simp: moves_def token_started_def)

text \<open>How the parts of a round end: a triple for \<open>Continue\<close> and \<open>Fall\<close>.\<close>

definition turns :: "turned \<Rightarrow> (lexing \<Rightarrow> bool) \<Rightarrow> (lexing \<Rightarrow> bool) \<Rightarrow> bool" where
  "turns m P Q \<longleftrightarrow> (\<forall>s. (m = Some (Continue, s) \<longrightarrow> P s) \<and> (m = Some (Fall, s) \<longrightarrow> Q s))"

lemma turns_or_else:
  "turns m P Q \<Longrightarrow> (\<And>s. Q s \<Longrightarrow> turns (k s) P R) \<Longrightarrow> turns (lex_or_else m k) P R"
  by (fastforce simp: turns_def lex_or_else_def bind_eq_Some_conv split: if_splits)

lemma turns_attempt:
  "(\<And>s. m = Some (True, s) \<Longrightarrow> turns (k s) P Q) \<Longrightarrow> turns (attempt m k) P Q"
  by (fastforce simp: turns_def attempt_def lex_error_def bind_eq_Some_conv split: if_splits)

lemma turns_bind:
  "(\<And>a s. m = Some (a, s) \<Longrightarrow> turns (k (a, s)) P Q) \<Longrightarrow> turns (m \<bind> k) P Q"
  by (cases m) (auto simp: turns_def)

lemma turns_simps [simp]:
  "turns (Some (Return r t, s)) P Q" "turns (step_on s) P Q \<longleftrightarrow> P s" "turns (Some (Fall, s)) P Q \<longleftrightarrow> Q s"
  "turns (lex_error s) P Q" "turns None P Q" "turns (deliver d s) P Q"
  by (auto simp: turns_def step_on_def lex_error_def deliver_def bind_eq_Some_conv)

lemma turns_if [simp]: "turns (if b then m else n) P Q \<longleftrightarrow> (if b then turns m P Q else turns n P Q)"
  by simp

definition advanced :: "nat \<Rightarrow> lexing \<Rightarrow> lexing \<Rightarrow> bool" where
  "advanced d s s' \<longleftrightarrow> length (lg_lexers s') = length (lg_lexers s) \<and> input_weight d s' + 2 \<le> input_weight d s"

definition held :: "nat \<Rightarrow> lexing \<Rightarrow> lexing \<Rightarrow> bool" where
  "held d s s' \<longleftrightarrow> moves d 0 (length (lx_frames (lexer_at d s))) s s'"

lemma held_refl [simp]: "held d s s"
  by (simp add: held_def moves_def)

lemma held_advanced: "held d s s1 \<Longrightarrow> advanced d s1 s' \<Longrightarrow> advanced d s s'"
  by (simp add: held_def moves_def advanced_def input_weight_def)

lemma held_trans: "held d s s1 \<Longrightarrow> held d s1 s2 \<Longrightarrow> held d s s2"
  by (simp add: held_def moves_def)

lemma moves_advanced:
  "moves d n k s s' \<Longrightarrow> 0 < n \<Longrightarrow> k \<le> Suc (length (lx_frames (lexer_at d s))) \<Longrightarrow> advanced d s s'"
  by (auto simp: moves_def advanced_def input_weight_def)

lemma pop_advanced:
  assumes "lex_pop d n s = Some (True, s')" "d < length (lg_lexers s)"
  shows "advanced d s s'"
proof -
  obtain f fs where "lx_frames (lexer_at d s) = f # fs"
    using lex_pop_moves(2) [OF assms] by (meson neq_Nil_conv)
  then show ?thesis
    using lex_pop_moves(1) [OF assms] by (cases "n = 0") (auto simp: moves_def advanced_def input_weight_def)
qed

lemma push_advanced:
  "lex_push d k fk quote n s = Some (True, s') \<Longrightarrow> d < length (lg_lexers s) \<Longrightarrow> 0 < n \<Longrightarrow> advanced d s s'"
  by (drule (1) lex_push_moves) (erule moves_advanced, auto)

lemma works_advanced: "works d n s s' \<Longrightarrow> d < length (lg_lexers s) \<Longrightarrow> 0 < n \<Longrightarrow> advanced d s s'"
  by (drule (1) works_moves) (erule moves_advanced, auto)

lemmas piece_advanced = works_advanced [OF lex_piece_works]
lemmas consume_advanced = works_advanced [OF consumes_works [OF lex_consume_consumes]]
lemmas delimiter_advanced = works_advanced [OF lex_delimiter_works]

lemma peek_held: "lex_peek cx n s = Some (r, s') \<Longrightarrow> held d s s'"
  using lex_peek_keeps [of cx n s r s'] by (auto simp: held_def moves_def)

lemma look_loop_stop:
  "look_loop cx final bytes wanted scan ps = (Some r, scan', ps') \<Longrightarrow> r = LOOK_MORE \<or> r = LOOK_EOF"
proof (induction cx final bytes wanted scan ps rule: look_loop.induct)
  case (1 cx final bytes wanted scan ps)
  show ?case
    using 1(3) by (subst (asm) look_loop.simps) (auto simp: Let_def dest: 1(1,2) split: if_splits list.splits)
qed

lemma peek_byte:
  assumes "lex_peek cx n s = Some (LOOK_BYTE c p, s')" "(of_char c :: nat) < 0x80"
  shows "0 < p"
  using assms
  by (auto simp: lex_peek_def csh_character_length_def Let_def dest: look_loop_stop
      split: prod.splits option.splits list.splits if_splits)

lemma name_char_ascii: "lex_name_char c \<Longrightarrow> (of_char c :: nat) < 0x80"
  by (auto simp: lex_name_char_def lex_name_start_def lex_digit_def less_eq_char_def)

lemma set_frame_length [simp]: "length (lg_lexers (set_frame d f s)) = length (lg_lexers s)"
  by (simp add: set_frame_def)

lemma set_frame_held: "d < length (lg_lexers s) \<Longrightarrow> held d s (set_frame d f s)"
  by (simp add: held_def moves_def set_frame_def split: list.split)


lemma held_length: "held d s s' \<Longrightarrow> length (lg_lexers s') = length (lg_lexers s)"
  by (simp add: held_def moves_def)

text \<open>Rounds go on from a state in the same place.\<close>

definition progress :: "nat \<Rightarrow> lexing \<Rightarrow> turned \<Rightarrow> bool" where
  "progress d s m \<longleftrightarrow> turns m (advanced d s) (held d s)"

lemma progress_held: "held d s s1 \<Longrightarrow> progress d s1 m \<Longrightarrow> progress d s m"
  unfolding progress_def turns_def using held_advanced held_trans by blast

lemma progress_simps [simp]:
  "progress d s (Some (Return r t, s1))" "progress d s (step_on s1) \<longleftrightarrow> advanced d s s1"
  "progress d s (Some (Fall, s1)) \<longleftrightarrow> held d s s1" "progress d s (lex_error s1)" "progress d s (deliver e s1)"
  "progress d s (step_replay e s1)"
  "progress d s (if b then m else n) \<longleftrightarrow> (if b then progress d s m else progress d s n)"
  by (auto simp: progress_def turns_def step_replay_def step_on_def lex_error_def deliver_def bind_eq_Some_conv)

lemma progress_attempt: "(\<And>s1. m = Some (True, s1) \<Longrightarrow> progress d s (k s1)) \<Longrightarrow> progress d s (attempt m k)"
  unfolding progress_def by (rule turns_attempt)

lemma progress_bind: "(\<And>a s1. m = Some (a, s1) \<Longrightarrow> progress d s (k (a, s1))) \<Longrightarrow> progress d s (m \<bind> k)"
  unfolding progress_def by (rule turns_bind)

lemma progress_or_else:
  assumes "progress d s m" "\<And>s1. held d s s1 \<Longrightarrow> progress d s1 (k s1)"
  shows "progress d s (lex_or_else m k)"
  using assms progress_held unfolding progress_def by (blast intro: turns_or_else)

lemma progress_attempts [simp]:
  assumes "d < length (lg_lexers s)"
  shows "progress d s (attempt (lex_pop d n s) step_on)" "0 < n \<Longrightarrow> progress d s (attempt (lex_push d k fk quote n s) step_on)"
    "0 < n \<Longrightarrow> progress d s (attempt (lex_piece d kind quote n s) step_on)" "0 < n \<Longrightarrow> progress d s (attempt (lex_consume d n s) step_on)"
    "0 < n \<Longrightarrow> progress d s (attempt (lex_delimiter d n quote s) step_on)"
  using assms pop_advanced push_advanced piece_advanced consume_advanced delimiter_advanced
  by (auto intro!: progress_attempt)

lemma progress_start:
  assumes "d < length (lg_lexers s)" "\<And>s1. d < length (lg_lexers s1) \<Longrightarrow> progress d s1 (k s1)"
  shows "progress d s (attempt (Some (start_word d s)) k)"
proof (rule progress_attempt)
  fix s1
  assume "Some (start_word d s) = Some (True, s1)"
  then have h: "held d s s1"
    using start_word_moves [OF _ assms(1)] by (simp add: held_def)
  show "progress d s (k s1)"
    by (rule progress_held [OF h], rule assms(2)) (use held_length [OF h] assms(1) in simp)
qed

lemma progress_peek:
  assumes "d < length (lg_lexers s)"
    "\<And>r s1. d < length (lg_lexers s1) \<Longrightarrow> (\<And>c p. r = LOOK_BYTE c p \<Longrightarrow> (of_char c :: nat) < 0x80 \<Longrightarrow> 0 < p) \<Longrightarrow>
       progress d s1 (k (r, s1))"
  shows "progress d s (lex_peek cx n s \<bind> k)"
proof (rule progress_bind)
  fix r s1
  assume p: "lex_peek cx n s = Some (r, s1)"
  then have h: "held d s s1"
    by (rule peek_held)
  show "progress d s (k (r, s1))"
    by (rule progress_held [OF h], rule assms(2)) (use held_length [OF h] assms(1) peek_byte p in auto)
qed

lemma step_simple_progress: "d < length (lg_lexers s) \<Longrightarrow> progress d s (step_simple cx d s)"
  unfolding step_simple_def
  by (auto intro!: progress_peek simp: name_char_ascii split: look.split)

lemma progress_frame:
  assumes "d < length (lg_lexers s)" "\<And>s1. d < length (lg_lexers s1) \<Longrightarrow> progress d s1 (k s1)"
  shows "progress d s (k (if b then set_frame d f s else s))"
proof (cases b)
  case True
  have "progress d (set_frame d f s) (k (set_frame d f s))"
    by (rule assms(2)) (use assms(1) in simp)
  then show ?thesis
    using True progress_held [OF set_frame_held [OF assms(1)]] by simp
qed (use assms in simp)

lemma step_wide_progress:
  assumes "d < length (lg_lexers s)"
  shows "progress d s (step_wide cx d s)"
proof -
  let ?n = "csh_character_length cx (drop (so_cursor (lg_source s)) (so_data (lg_source s))) True (so_final (lg_source s))"
  have "progress d s1 (attempt (lex_piece d CSH_FRAGMENT_TEXT (frame_quote (lexer_at d s1)) ?n s1) step_on)"
    if "1 < ?n" "d < length (lg_lexers s1)" for s1
    using that by simp
  then have "progress d s (attempt (Some (start_word d s)) (\<lambda>s.
          let s = (if in_frame (lexer_at d s) PARAMETER then set_frame d (parameter_context None) s else s)
          in attempt (lex_piece d CSH_FRAGMENT_TEXT (frame_quote (lexer_at d s)) ?n s) step_on))" if "1 < ?n"
    unfolding Let_def using that assms
    by (intro progress_start progress_frame [where k = "\<lambda>s. attempt (lex_piece d CSH_FRAGMENT_TEXT (frame_quote (lexer_at d s)) ?n s) step_on"]) auto
  then show ?thesis
    unfolding step_wide_def Let_def by simp
qed

lemma step_single_progress: "d < length (lg_lexers s) \<Longrightarrow> progress d s (step_single d byte s)"
  by (simp add: step_single_def)

lemma step_parameter_progress: "d < length (lg_lexers s) \<Longrightarrow> progress d s (step_parameter d byte s)"
  by (simp add: step_parameter_def set_frame_held)

lemma step_replay_turns [simp]: "turns (step_replay d s) P Q"
  by (auto simp: turns_def step_replay_def bind_eq_Some_conv)

lemma lex_fail_length [simp]: "length (lg_lexers (lex_fail d m e s)) = length (lg_lexers s)"
  by (simp add: lex_fail_def lex_fail_at_def Let_def)

lemma probe_held:
  assumes "probe_arithmetic d p s = Some (v, s')" "v \<noteq> -1"
  shows "lg_lexers s' = lg_lexers s" "lg_source s' = lg_source s" "lg_error s' = lg_error s"
  using assms
  by (auto simp: probe_arithmetic_def Let_def bind_eq_Some_conv dest: lex_malloc_keeps split: prod.splits list.splits bool.splits if_splits)

lemma progress_probe:
  assumes "\<And>v s1. probe_arithmetic d p s = Some (v, s1) \<Longrightarrow> v = -1 \<Longrightarrow> progress d s (k (v, s1))"
    "\<And>v s1. v \<noteq> -1 \<Longrightarrow> length (lg_lexers s1) = length (lg_lexers s) \<Longrightarrow> progress d s1 (k (v, s1))"
  shows "progress d s (probe_arithmetic d p s \<bind> k)"
proof (rule progress_bind)
  fix v s1
  assume p: "probe_arithmetic d p s = Some (v, s1)"
  show "progress d s (k (v, s1))"
  proof (cases "v = -1")
    case True
    then show ?thesis by (rule assms(1) [OF p])
  next
    case False
    have "held d s s1"
      using probe_held [OF p False] by (simp add: held_def moves_def)
    then show ?thesis
      by (rule progress_held) (rule assms(2) [OF False], simp add: probe_held [OF p False])
  qed
qed

lemma pop_checkpoint_advanced:
  "lex_pop d n s = Some (True, s') \<Longrightarrow> d < length (lg_lexers s) \<Longrightarrow>
   advanced d s (set_lexer d (\<lambda>l. l\<lparr>lx_arithmetic := f l\<rparr>) s')"
  using pop_advanced [of d n s s'] by (simp add: advanced_def input_weight_def)

lemma step_closing_progress:
  assumes "d < length (lg_lexers s)"
  shows "progress d s (step_closing cx d s)"
  unfolding step_closing_def
proof (rule progress_probe, goal_cases)
  case (2 v s1)
  then show ?case
    using assms pop_checkpoint_advanced by (auto intro!: progress_peek progress_attempt split: look.split)
qed simp

lemma step_arithmetic_progress: "d < length (lg_lexers s) \<Longrightarrow> progress d s (step_arithmetic cx d byte s)"
  by (auto simp: step_arithmetic_def intro: step_closing_progress set_frame_held split: list.split)

lemma step_escape_progress: "d < length (lg_lexers s) \<Longrightarrow> progress d s (step_escape cx d byte s)"
  by (simp add: step_escape_def Let_def progress_start split: list.split)

lemma step_raw_quote_progress: "d < length (lg_lexers s) \<Longrightarrow> progress d s (step_raw_quote d byte s)"
  by (simp add: step_raw_quote_def Let_def)

lemma step_delimiting_progress:
  assumes d: "d < length (lg_lexers s)"
  shows "progress d s (step_delimiting d byte s)"
proof -
  have "progress d s (attempt (lex_consume d 1 (set_lexer d f s1)) step_on)"
    if "start_token d s = (True, s1)" "\<And>l. lx_frames (f l) = lx_frames l" "\<And>l. lx_comment (f l) = lx_comment l" for s1 f
  proof -
    note k = start_token_True [OF that(1) d]
    have "held d s (set_lexer d f s1)"
      using k(1,4,5) d that(2,3) by (simp add: held_def moves_def token_started_def)
    then show ?thesis
      by (rule progress_held) (use k(4) d in simp)
  qed
  moreover have "progress d s (attempt m (deliver d))" for m
    by (rule progress_attempt) simp
  ultimately have "progress d s (attempt (Some (start_token d s)) (\<lambda>s.
          if byte = CHR 0x0A then
            attempt (lex_consume d 1 (set_lexer d (\<lambda>l. l\<lparr>lx_kind := CSH_TOKEN_NEWLINE\<rparr>) s)) (deliver d)
          else
            attempt (lex_consume d 1 (set_lexer d (\<lambda>l. l\<lparr>lx_operator := [byte],
              lx_kind := (case map_of lexer_operators [byte] of None \<Rightarrow> lx_kind l | Some k \<Rightarrow> k)\<rparr>) s)) step_on))"
    by (intro progress_attempt) simp
  then show ?thesis
    unfolding step_delimiting_def Let_def using d by simp
qed

lemma open_command_progress [simp]: "progress d s (open_command d n quote s)"
  by (auto simp: open_command_def intro!: progress_attempt)

lemma push_pop_advanced:
  "lex_push d k fk quote n s = Some (True, s1) \<Longrightarrow> lex_pop d 0 s1 = Some (True, s') \<Longrightarrow> d < length (lg_lexers s) \<Longrightarrow> 0 < n \<Longrightarrow>
   advanced d s s'"
  using push_advanced [of d k fk quote n s s1] pop_advanced [of d 0 s1 s'] by (simp add: advanced_def)

lemma copy_alias_names_keeps:
  "copy_alias_names n s = (b, s') \<Longrightarrow> lg_source s' = lg_source s \<and> lg_lexers s' = lg_lexers s \<and> lg_error s' = lg_error s"
  by (induction n arbitrary: s) (auto dest!: lex_malloc_keeps split: prod.splits if_splits)

definition checkpoint_of :: "nat \<Rightarrow> nat \<Rightarrow> csh_quote \<Rightarrow> lexing \<Rightarrow> nat \<Rightarrow> nat \<Rightarrow> arithmetic_checkpoint" where
  "checkpoint_of d n quote s capacity alias_capacity =
     (let so = lg_source s in
      \<lparr>ck_source = so\<lparr>so_data := drop (so_cursor so) (so_data so), so_capacity := capacity, so_cursor := 0, so_look := None,
         so_aliases := rebase_aliases (so_cursor so) (so_aliases so), so_alias_capacity := alias_capacity\<rparr>,
       ck_fragment_count = length (lx_fragments (lexer_at d s)), ck_frame_count = length (lx_frames (lexer_at d s)),
       ck_command_length = n, ck_body_begin = 0, ck_quote = quote, ck_captures = captures_of d s\<rparr>)"

lemma checkpoint_arithmetic_True:
  assumes "checkpoint_arithmetic d n quote s = (True, s')"
  obtains s1 c ac where "lg_source s1 = lg_source s" "lg_lexers s1 = lg_lexers s" "lg_error s1 = lg_error s"
    "s' = set_lexer d (\<lambda>l. l\<lparr>lx_arithmetic := checkpoint_of d n quote s c ac # lx_arithmetic l\<rparr>) s1"
proof -
  let ?so = "lg_source s"
  obtain s1 c s2 ac s3 s4 where 1: "lex_malloc s = (True, s1)" "lex_reserve 0 (length (so_data ?so) - so_cursor ?so) 1 s1 = (True, c, s2)"
    "lex_reserve 0 (length (so_aliases ?so)) 96 s2 = (True, ac, s3)" "copy_alias_names (length (so_aliases ?so)) s3 = (True, s4)"
    and s': "s' = set_lexer d (\<lambda>l. l\<lparr>lx_arithmetic :=
                               \<lparr>ck_source = ?so\<lparr>so_data := drop (so_cursor ?so) (so_data ?so), so_capacity := c, so_cursor := 0, so_look := None,
                                  so_aliases := rebase_aliases (so_cursor ?so) (so_aliases ?so), so_alias_capacity := ac\<rparr>,
                                ck_fragment_count = length (lx_fragments l), ck_frame_count = length (lx_frames l),
                                ck_command_length = n, ck_body_begin = 0, ck_quote = quote,
                                ck_captures = captures_of d s4\<rparr> # lx_arithmetic l\<rparr>) s4"
    using assms by (auto simp: checkpoint_arithmetic_def Let_def split: if_splits prod.splits bool.splits)
  have k: "lg_source s4 = lg_source s \<and> lg_lexers s4 = lg_lexers s \<and> lg_error s4 = lg_error s"
    using lex_malloc_keeps [OF 1(1)] lex_reserve_keeps [OF 1(2)] lex_reserve_keeps [OF 1(3)] copy_alias_names_keeps [OF 1(4)] by simp
  have "captures_of d s4 = captures_of d s"
    using k by (simp add: captures_of_def)
  then show thesis
    using k by (intro that [of s4 c ac]) (simp_all add: s' set_lexer_def checkpoint_of_def Let_def)
qed

lemma checkpoint_held:
  assumes "checkpoint_arithmetic d n quote s = (True, s')" "d < length (lg_lexers s)"
  shows "held d s s'"
  by (rule checkpoint_arithmetic_True [OF assms(1)]) (use assms(2) in \<open>simp add: held_def moves_def\<close>)

lemma open_arithmetic_progress:
  assumes d: "d < length (lg_lexers s)" and m: "0 < m"
  shows "progress d s (open_arithmetic d n m quote s)"
  unfolding open_arithmetic_def
proof (intro progress_attempt)
  fix s2 s3
  assume a: "Some (checkpoint_arithmetic d n quote s) = Some (True, s2)"
    "lex_push d ARITHMETIC CSH_FRAGMENT_ARITHMETIC quote m s2 = Some (True, s3)"
  have h: "held d s s2"
    using checkpoint_held a(1) d by simp
  then have "advanced d s s3"
    using push_advanced [OF a(2)] m d held_length [OF h] held_advanced [OF h] by simp
  then show "progress d s (step_on (set_lexer d (\<lambda>l. l\<lparr>lx_arithmetic :=
           (case lx_arithmetic l of [] \<Rightarrow> [] | c # cs \<Rightarrow> c\<lparr>ck_body_begin := length (lx_raw l)\<rparr> # cs)\<rparr>) s3))"
    using d by (simp add: advanced_def input_weight_def)
qed

lemma dollar_parenthesis_progress: "d < length (lg_lexers s) \<Longrightarrow> progress d s (dollar_parenthesis cx d n quote s)"
  unfolding dollar_parenthesis_def
  by (erule progress_peek) (simp add: open_arithmetic_progress split: look.split)

lemma lex_dollar_byte_progress:
  assumes d: "d < length (lg_lexers s)" and n: "(of_char c :: nat) < 0x80 \<Longrightarrow> 0 < n"
  shows "progress d s (lex_dollar_byte cx d quote c n s)"
proof -
  have "progress d s (attempt (lex_push d SIMPLE CSH_FRAGMENT_PARAMETER quote n s) (\<lambda>s. attempt (lex_pop d 0 s) step_on))" if "0 < n"
    using push_pop_advanced d that by (intro progress_attempt) simp
  moreover have "0 < n" if "lex_digit c \<or> c \<in> set ''@*#?-$!''"
    using that by (intro n) (auto simp: lex_digit_def less_eq_char_def)
  moreover have "0 < n" if "lex_name_start c"
    using that name_char_ascii by (intro n) (simp add: lex_name_char_def)
  moreover have "0 < n" if "c = CHR ''{'' \<or> c = CHR 0x27"
    using that by (intro n) auto
  ultimately show ?thesis
    using dollar_parenthesis_progress [OF d] d by (simp add: lex_dollar_byte_def)
qed

lemma lex_dollar_progress: "d < length (lg_lexers s) \<Longrightarrow> progress d s (lex_dollar cx d quote s)"
  unfolding lex_dollar_def
  by (erule progress_peek) (simp add: lex_dollar_byte_progress split: look.split)

lemma step_word_progress:
  assumes "d < length (lg_lexers s)"
  shows "progress d s (step_word cx d byte s)"
proof -
  have "progress d s1 (lex_or_else (if byte = CHR ''$'' then lex_dollar cx d quote s1 else Some (Fall, s1)) (\<lambda>s.
           if byte = CHR 0x60 then attempt (lex_push d BACKQUOTE CSH_FRAGMENT_BACKQUOTE quote 1 s) step_on
           else attempt (lex_piece d CSH_FRAGMENT_TEXT quote 1 s) step_on))" if d: "d < length (lg_lexers s1)" for s1 quote
  proof (rule progress_or_else)
    show "progress d s1 (if byte = CHR ''$'' then lex_dollar cx d quote s1 else Some (Fall, s1))"
      using lex_dollar_progress [OF d] by simp
    fix s2
    assume "held d s1 s2"
    then show "progress d s2 (if byte = CHR 0x60 then attempt (lex_push d BACKQUOTE CSH_FRAGMENT_BACKQUOTE quote 1 s2) step_on
           else attempt (lex_piece d CSH_FRAGMENT_TEXT quote 1 s2) step_on)"
      using held_length [OF \<open>held d s1 s2\<close>] d by simp
  qed
  then show ?thesis
    unfolding step_word_def Let_def using assms by (intro progress_start) auto
qed

text \<open>A whole round: behind a comment's end the weight falls by at least two, or a comment begins.\<close>

definition round_ok :: "char \<Rightarrow> nat \<Rightarrow> lexing \<Rightarrow> turned \<Rightarrow> bool" where
  "round_ok byte d s m \<longleftrightarrow>
     turns m (\<lambda>s'. advanced d s s' \<or> byte = CHR ''#'' \<and> length (lg_lexers s') = length (lg_lexers s) \<and>
       input_weight d s' = input_weight d s \<and> lx_comment (lexer_at d s')) (\<lambda>_. True)"

lemma held_weight: "held d s s1 \<Longrightarrow> input_weight d s1 = input_weight d s"
  by (simp add: held_def moves_def input_weight_def)

lemma round_ok_progress: "progress d s m \<Longrightarrow> round_ok byte d s m"
  by (auto simp: progress_def round_ok_def turns_def)

lemma round_ok_or_else:
  assumes "progress d s m" "\<And>s1. held d s s1 \<Longrightarrow> d < length (lg_lexers s1) \<Longrightarrow> round_ok byte d s1 (k s1)" "d < length (lg_lexers s)"
  shows "round_ok byte d s (lex_or_else m k)"
proof -
  have "turns (k s1) (\<lambda>s'. advanced d s s' \<or> byte = CHR ''#'' \<and> length (lg_lexers s') = length (lg_lexers s) \<and>
       input_weight d s' = input_weight d s \<and> lx_comment (lexer_at d s')) (\<lambda>_. True)" if "held d s s1" for s1
    using assms(2) [OF that] assms(3) held_advanced [OF that] held_length [OF that] held_weight [OF that]
    by (auto simp: round_ok_def turns_def)
  moreover have "turns m (\<lambda>s'. advanced d s s' \<or> byte = CHR ''#'' \<and> length (lg_lexers s') = length (lg_lexers s) \<and>
       input_weight d s' = input_weight d s \<and> lx_comment (lexer_at d s')) (held d s)"
    using assms(1) by (auto simp: progress_def turns_def)
  ultimately show ?thesis
    unfolding round_ok_def by (blast intro: turns_or_else)
qed

lemma step_hash_round:
  assumes d: "d < length (lg_lexers s)"
  shows "round_ok byte d s (lex_or_else (step_hash d byte s) (step_word cx d byte))"
proof (cases "\<not> lx_document (lexer_at d s) \<and> \<not> lx_active (lexer_at d s) \<and> byte = CHR ''#''")
  case True
  then show ?thesis
    using d by (simp add: step_hash_def Let_def step_on_def lex_or_else_def round_ok_def turns_def input_weight_def)
next
  case False
  then have "lex_or_else (step_hash d byte s) (step_word cx d byte) = step_word cx d byte s"
    by (auto simp: step_hash_def Let_def lex_or_else_def)
  then show ?thesis
    using step_word_progress [OF d] round_ok_progress by simp
qed

lemma lex_byte_round: "d < length (lg_lexers s) \<Longrightarrow> round_ok byte d s (lex_byte cx d byte s)"
  unfolding lex_byte_def
  by (intro round_ok_or_else step_simple_progress step_wide_progress step_single_progress step_parameter_progress
      step_arithmetic_progress step_escape_progress step_raw_quote_progress step_delimiting_progress step_hash_round)

lemma operator_step_turns: "turns (operator_step cx d op s) P Q"
proof (induction cx d op s rule: operator_step.induct)
  case (1 cx d op s)
  show ?case
    by (subst operator_step.simps) (auto intro!: turns_bind turns_attempt 1 split: look.split option.split)
qed

lemma lex_eof_turns: "turns (lex_eof d fs s) P Q"
  by (induction d fs s rule: lex_eof.induct) (auto simp: Let_def intro!: turns_attempt split: list.split)

lemma lex_step_turns:
  assumes d: "d < length (lg_lexers s)"
  shows "turns (lex_step cx d s) (\<lambda>s'. length (lg_lexers s') = length (lg_lexers s) \<and> lex_weight d s' < lex_weight d s) (\<lambda>_. True)"
proof -
  let ?P = "\<lambda>s'. length (lg_lexers s') = length (lg_lexers s) \<and> lex_weight d s' < lex_weight d s"
  have adv: "?P s'" if "advanced d s s'" for s'
    using that by (simp add: advanced_def lex_weight_def)
  have "turns (lex_or_else (step_comment d byte s) (lex_byte cx d byte)) ?P (\<lambda>_. True)" for byte
  proof (cases "lx_comment (lexer_at d s)")
    case False
    then have "?P s'" if "length (lg_lexers s') = length (lg_lexers s)" "input_weight d s' = input_weight d s"
      "lx_comment (lexer_at d s')" for s'
      using that by (simp add: lex_weight_def)
    then show ?thesis
      using False lex_byte_round [OF d, of byte cx] adv
      by (auto simp: step_comment_def lex_or_else_def round_ok_def turns_def)
  next
    case True
    let ?s = "set_lexer d (\<lambda>l. l\<lparr>lx_comment := False\<rparr>) s"
    show ?thesis
    proof (cases "byte = CHR 0x0A")
      case nl: True
      have "advanced d s s'" if "advanced d ?s s'" for s'
        using that d by (simp add: advanced_def input_weight_def)
      then show ?thesis
        using True nl lex_byte_round [of d ?s byte cx] d adv
        by (auto simp: step_comment_def lex_or_else_def round_ok_def turns_def)
    next
      case False
      have "turns (step_comment d byte s) (advanced d s) (\<lambda>_. False)"
        using True False d consume_advanced by (auto simp: step_comment_def intro!: turns_attempt)
      then show ?thesis
        using adv by (auto simp: turns_def lex_or_else_def bind_eq_Some_conv split: if_splits)
    qed
  qed
  then show ?thesis
    by (auto simp: lex_step_def Let_def operator_step_turns lex_eof_turns split: list.split)
qed

subsection \<open>Reading a token\<close>

text \<open>The loop. It ends, by \<open>lex_step_turns\<close>; every round but the last one ends with \<open>Continue\<close>.\<close>

function lex_loop :: "ctype \<Rightarrow> nat \<Rightarrow> lexing \<Rightarrow> (csh_lex_result \<times> csh_token option \<times> lexing) option" where
  "lex_loop cx d s =
     (if length (lg_lexers s) \<le> d then None
      else
        (case lex_step cx d s of
           None \<Rightarrow> None
         | Some (t, s) \<Rightarrow>
             (case t of Return r token \<Rightarrow> Some (r, token, s) | Continue \<Rightarrow> lex_loop cx d s | Fall \<Rightarrow> None)))"
  by pat_completeness auto
termination
proof (relation "measure (\<lambda>(cx, d, s). lex_weight d s)", simp)
  fix cx d s a t s1
  assume a: "\<not> length (lg_lexers s) \<le> d" "lex_step cx d s = Some a" "(t, s1) = a" "t = Continue"
  then show "((cx, d, s1), cx, d, s) \<in> measure (\<lambda>(cx, d, s). lex_weight d s)"
    using lex_step_turns [of d s cx] by (auto simp: turns_def)
qed

declare lex_loop.simps [simp del]

definition lex_next_token :: "ctype \<Rightarrow> nat \<Rightarrow> lexing \<Rightarrow> (csh_lex_result \<times> csh_token option \<times> lexing) option" where
  "lex_next_token cx d s =
     (let s = s\<lparr>lg_error := no_error\<rparr>; failure = so_failure (lg_source s) in
      if message failure \<noteq> [] then Some (CSH_LEX_ERROR, None, s\<lparr>lg_error := failure\<rparr>)
      else if Suc d < length (lg_lexers s)
      then Some (CSH_LEX_ERROR, None, lex_fail d ''read the active command lexer'' EINVAL s)
      else if lx_command (lexer_at d s) then Some (CSH_LEX_COMMAND, None, s)
      else lex_loop cx d s)"

definition csh_lexer_next :: "ctype \<Rightarrow> nat \<Rightarrow> lexing \<Rightarrow> (csh_lex_result \<times> csh_token option \<times> lexing) option" where
  "csh_lexer_next cx d s =
     (if message (so_failure (lg_source s)) \<noteq> [] then lex_next_token cx d s
      else
        do {(result, token, s) \<leftarrow> lex_next_token cx d s;
            if result = CSH_LEX_ERROR \<and> lx_arithmetic (lexer_at d s) \<noteq> [] then
              do {(replay, s) \<leftarrow> csh_lexer_replay_arithmetic d s;
                  Some (if replay = 1 then (CSH_LEX_REPLAY, None, s) else (result, token, s))}
            else Some (result, token, s)})"

subsection \<open>Command substitutions\<close>

definition csh_lexer_command_fragment :: "nat \<Rightarrow> lexing \<Rightarrow> nat" where
  "csh_lexer_command_fragment d s =
     (case lx_frames (lexer_at d s) of
        f # _ \<Rightarrow> if lx_command (lexer_at d s) then fm_fragment f else CSH_FRAGMENT_ROOT
      | [] \<Rightarrow> CSH_FRAGMENT_ROOT)"

text \<open>The new child is the last lexer of the list.\<close>

definition csh_lexer_command_begin :: "nat \<Rightarrow> lexing \<Rightarrow> bool \<times> lexing" where
  "csh_lexer_command_begin d s =
     (let s = s\<lparr>lg_error := no_error\<rparr>; failure = so_failure (lg_source s) in
      if message failure \<noteq> [] then (False, s\<lparr>lg_error := failure\<rparr>)
      else if \<not> lx_command (lexer_at d s) \<or> Suc d < length (lg_lexers s)
      then (False, lex_fail d ''no pending command substitution'' EINVAL s)
      else
        (case lex_malloc s of
           (False, s) \<Rightarrow> (False, lex_fail d ''cannot allocate command lexer'' ENOMEM s)
         | (True, s) \<Rightarrow> (True, s\<lparr>lg_lexers := lg_lexers s @ [fresh_lexer]\<rparr>)))"

text \<open>The child is the lexer at depth \<open>child\<close>, if it is not \<open>NULL\<close>.\<close>

definition closes_command :: "nat \<Rightarrow> nat option \<Rightarrow> csh_token option \<Rightarrow> lexing \<Rightarrow> bool" where
  "closes_command d child closing s \<longleftrightarrow>
     (case (child, closing) of
        (Some c, Some t) \<Rightarrow>
          c = Suc d \<and> Suc c = length (lg_lexers s) \<and> lx_command (lexer_at d s) \<and>
          (let l = lexer_at c s in
           \<not> lx_active l \<and> lx_has_last l \<and> tk_kind t = CSH_TOKEN_RPAREN \<and> lx_last_kind l = CSH_TOKEN_RPAREN \<and>
           p_offset (tk_start t) = p_offset (lx_last_start l) \<and> p_offset (tk_end t) = p_offset (lx_last_end l) \<and>
           lx_last_sequence l = so_sequence (lg_source s))
      | _ \<Rightarrow> False)"

definition csh_lexer_command_end :: "nat \<Rightarrow> nat option \<Rightarrow> csh_token option \<Rightarrow> lexing \<Rightarrow> (bool \<times> lexing) option" where
  "csh_lexer_command_end d child closing s =
     (let s = s\<lparr>lg_error := no_error\<rparr>; failure = so_failure (lg_source s) in
      if message failure \<noteq> [] then Some (False, s\<lparr>lg_error := failure\<rparr>)
      else if \<not> closes_command d child closing s
      then Some (False, lex_fail d ''invalid command-substitution boundary'' EINVAL s)
      else lex_pop d 0 (set_lexer d (\<lambda>l. l\<lparr>lx_command := False\<rparr>) (csh_lexer_destroy (Suc d) s)))"

subsection \<open>Aliases and raw input\<close>

definition csh_lexer_alias_active :: "string option \<Rightarrow> lexing \<Rightarrow> bool" where
  "csh_lexer_alias_active name s \<longleftrightarrow>
     (case name of None \<Rightarrow> False | Some n \<Rightarrow> list_ex (\<lambda>a. al_name a = n) (so_aliases (lg_source s)))"

definition csh_lexer_follows_redirection :: "ctype \<Rightarrow> lexing \<Rightarrow> (bool \<times> lexing) option" where
  "csh_lexer_follows_redirection cx s =
     do {(look, s) \<leftarrow> lex_peek cx 0 s;
         Some (case look of LOOK_BYTE c _ \<Rightarrow> c = CHR ''<'' \<or> c = CHR ''>'' | _ \<Rightarrow> False, s)}"

text \<open>The word is the last token of the lexer, and nothing was read behind it.\<close>

definition alias_boundary :: "nat \<Rightarrow> csh_token \<Rightarrow> string \<Rightarrow> lexing \<Rightarrow> bool" where
  "alias_boundary d t name s \<longleftrightarrow>
     (let l = lexer_at d s in
      name \<noteq> [] \<and> \<not> Suc d < length (lg_lexers s) \<and> \<not> lx_active l \<and> lx_has_last l \<and> tk_kind t = CSH_TOKEN_WORD \<and>
      lx_last_kind l = CSH_TOKEN_WORD \<and> p_offset (tk_start t) = p_offset (lx_last_start l) \<and>
      p_offset (tk_end t) = p_offset (lx_last_end l) \<and> lx_last_sequence l = so_sequence (lg_source s) \<and>
      \<not> csh_lexer_alias_active (Some name) s)"

definition alias_of_token :: "nat \<Rightarrow> csh_token \<Rightarrow> string \<Rightarrow> string \<Rightarrow> source \<Rightarrow> alias_source" where
  "alias_of_token d t name value so =
     \<lparr>al_name = name, al_source_name = ''alias:'' @ name,
      al_invocation_source = (case tk_invocation_source t of Some n \<Rightarrow> n | None \<Rightarrow> tk_source_name t),
      al_invocation = (if tk_invocation_source t \<noteq> None then tk_invocation t else tk_start t),
      al_resume = so_position so, al_end = so_cursor so + length value + 1, al_owner_depth = d,
      al_trailing_blank = (value \<noteq> [] \<and> (last value = CHR '' '' \<or> last value = CHR 0x09))\<rparr>"

definition insert_alias :: "alias_source \<Rightarrow> csh_token \<Rightarrow> string \<Rightarrow> nat \<Rightarrow> nat \<Rightarrow> source \<Rightarrow> source" where
  "insert_alias a t value alias_capacity capacity so =
     so\<lparr>so_data := take (so_cursor so) (so_data so) @ value @ '' '' @ drop (so_cursor so) (so_data so),
        so_aliases := a # map (\<lambda>b. b\<lparr>al_end := al_end b + (length value + 1)\<rparr>) (so_aliases so),
        so_alias_capacity := alias_capacity, so_capacity := capacity,
        so_position := \<lparr>p_offset = 0, p_line = 1, p_column = 1\<rparr>,
        so_alias_eligible := (value \<noteq> [] \<and> tk_alias_eligible t), so_look := None\<rparr>"

definition csh_lexer_alias_push ::
  "nat \<Rightarrow> csh_token option \<Rightarrow> string option \<Rightarrow> string option \<Rightarrow> lexing \<Rightarrow> bool \<times> lexing" where
  "csh_lexer_alias_push d token name value s =
     (let s = s\<lparr>lg_error := no_error\<rparr>; failure = so_failure (lg_source s); so = lg_source s in
      if message failure \<noteq> [] then (False, s\<lparr>lg_error := failure\<rparr>)
      else
        (case (token, name, value) of
           (Some t, Some n, Some v) \<Rightarrow>
             if \<not> alias_boundary d t n s then (False, lex_fail d ''invalid alias substitution boundary'' EINVAL s)
             else if length v = SIZE_MAX \<or> SIZE_MAX - length v - 1 < length (so_data so) \<or>
               length (so_aliases so) = SIZE_MAX \<or> SIZE_MAX - 7 < length n
             then (False, lex_fail d ''alias source is too large'' EOVERFLOW s)
             else
               (case copy_alias_names 1 s of
                  (False, s) \<Rightarrow> (False, lex_fail d ''cannot allocate alias source'' ENOMEM s)
                | (True, s) \<Rightarrow>
                    (case lex_reserve (so_alias_capacity so) (length (so_aliases so) + 1) 96 s of
                       (False, _, s) \<Rightarrow> (False, lex_fail d ''cannot grow alias input'' (lg_errno s) s)
                     | (True, alias_capacity, s) \<Rightarrow>
                         (case lex_reserve (so_capacity so) (length (so_data so) + (length v + 1)) 1 s of
                            (False, _, s) \<Rightarrow> (False, lex_fail d ''cannot grow alias input'' (lg_errno s) s)
                          | (True, capacity, s) \<Rightarrow>
                              (True, set_lexer d (\<lambda>l. l\<lparr>lx_has_last := False\<rparr>)
                                (set_source (insert_alias (alias_of_token d t n v so) t v alias_capacity capacity) s)))))
         | _ \<Rightarrow> (False, lex_fail d ''invalid alias substitution boundary'' EINVAL s)))"

definition csh_lexer_pending :: "lexing \<Rightarrow> string \<times> csh_position \<times> bool" where
  "csh_lexer_pending s =
     (let so = lg_source s in (drop (so_cursor so) (so_data so), so_position so, so_final so))"

definition csh_lexer_skip_raw :: "nat \<Rightarrow> nat \<Rightarrow> lexing \<Rightarrow> (bool \<times> lexing) option" where
  "csh_lexer_skip_raw d n s =
     (let s = s\<lparr>lg_error := no_error\<rparr>; so = lg_source s; l = lexer_at d s in
      if message (so_failure so) \<noteq> [] then Some (False, s\<lparr>lg_error := so_failure so\<rparr>)
      else if Suc d < length (lg_lexers s) \<or> lx_active l \<or> lx_comment l \<or> length (so_data so) - so_cursor so < n
      then Some (False, lex_fail d ''invalid raw input handoff'' EINVAL s)
      else lex_consume d n (set_lexer d (\<lambda>l. l\<lparr>lx_has_last := False\<rparr>) s))"

text \<open>The destroyed token is all zeros.\<close>

definition csh_token_destroy :: "csh_token \<Rightarrow> csh_token" where
  "csh_token_destroy t =
     \<lparr>tk_kind = CSH_TOKEN_WORD, tk_source_name = [], tk_raw = [], tk_start = no_position, tk_end = no_position,
      tk_fragments = [], tk_alias_name = None, tk_invocation_source = None, tk_invocation = no_position,
      tk_alias_eligible = False\<rparr>"

subsection \<open>Names\<close>

definition csh_token_kind_name :: "csh_token_kind \<Rightarrow> string" where
  "csh_token_kind_name k =
     (case k of CSH_TOKEN_WORD \<Rightarrow> ''WORD'' | CSH_TOKEN_NEWLINE \<Rightarrow> ''NEWLINE'' | CSH_TOKEN_AND_IF \<Rightarrow> ''AND_IF''
      | CSH_TOKEN_OR_IF \<Rightarrow> ''OR_IF'' | CSH_TOKEN_DSEMI \<Rightarrow> ''DSEMI'' | CSH_TOKEN_SEMI_AND \<Rightarrow> ''SEMI_AND''
      | CSH_TOKEN_DLESS \<Rightarrow> ''DLESS'' | CSH_TOKEN_DGREAT \<Rightarrow> ''DGREAT'' | CSH_TOKEN_LESS_AND \<Rightarrow> ''LESS_AND''
      | CSH_TOKEN_GREAT_AND \<Rightarrow> ''GREAT_AND'' | CSH_TOKEN_LESS_GREAT \<Rightarrow> ''LESS_GREAT'' | CSH_TOKEN_DLESS_DASH \<Rightarrow> ''DLESS_DASH''
      | CSH_TOKEN_CLOBBER \<Rightarrow> ''CLOBBER'' | CSH_TOKEN_PIPE \<Rightarrow> ''PIPE'' | CSH_TOKEN_AMPERSAND \<Rightarrow> ''AMPERSAND''
      | CSH_TOKEN_SEMI \<Rightarrow> ''SEMI'' | CSH_TOKEN_LPAREN \<Rightarrow> ''LPAREN'' | CSH_TOKEN_RPAREN \<Rightarrow> ''RPAREN''
      | CSH_TOKEN_LESS \<Rightarrow> ''LESS'' | CSH_TOKEN_GREAT \<Rightarrow> ''GREAT'')"

definition csh_fragment_kind_name :: "csh_fragment_kind \<Rightarrow> string" where
  "csh_fragment_kind_name k =
     (case k of CSH_FRAGMENT_TEXT \<Rightarrow> ''TEXT'' | CSH_FRAGMENT_QUOTED \<Rightarrow> ''QUOTED'' | CSH_FRAGMENT_ESCAPE \<Rightarrow> ''ESCAPE''
      | CSH_FRAGMENT_CONTINUATION \<Rightarrow> ''CONTINUATION'' | CSH_FRAGMENT_PARAMETER \<Rightarrow> ''PARAMETER''
      | CSH_FRAGMENT_COMMAND \<Rightarrow> ''COMMAND'' | CSH_FRAGMENT_ARITHMETIC \<Rightarrow> ''ARITHMETIC'' | CSH_FRAGMENT_BACKQUOTE \<Rightarrow> ''BACKQUOTE'')"

definition csh_quote_name :: "csh_quote \<Rightarrow> string" where
  "csh_quote_name q =
     (case q of CSH_QUOTE_NONE \<Rightarrow> ''NONE'' | CSH_QUOTE_SINGLE \<Rightarrow> ''SINGLE'' | CSH_QUOTE_DOUBLE \<Rightarrow> ''DOUBLE''
      | CSH_QUOTE_DOLLAR_SINGLE \<Rightarrow> ''DOLLAR_SINGLE'')"

end
