(* ===== verification/Fragment_Tree.thy ===== *)
theory Fragment_Tree
  imports Word_Expansion Lexer_Tokens
begin

text \<open>
  The fragments of a word as a tree: well-nested fragments while some of them are still open, how the operations of the
  lexer keep them so, that the check of word expansion (\<open>prepare\<close> in \<open>src/expand.c\<close>) accepts the finished tree, and that
  reading the spelling of an arithmetic candidate (\<open>probe_arithmetic\<close> in \<open>src/lexer.c\<close>) stays inside the word.
\<close>

subsection \<open>Ancestors\<close>

function ancestors :: "csh_fragment list \<Rightarrow> nat \<Rightarrow> nat list" where
  "ancestors fs i = (let p = fr_parent (fs ! i) in if p < i then p # ancestors fs p else [])"
  by pat_completeness auto
termination
  by (relation "measure snd") auto

declare ancestors.simps [simp del]

lemma ancestors_less: "j \<in> set (ancestors fs i) \<Longrightarrow> j < i"
proof (induction fs i rule: ancestors.induct)
  case (1 fs i)
  then show ?case
    by (subst (asm) (2) ancestors.simps) (force simp: Let_def split: if_splits)
qed

lemma ancestors_parent: "fr_parent (fs ! i) < i \<Longrightarrow> ancestors fs i = fr_parent (fs ! i) # ancestors fs (fr_parent (fs ! i))"
  by (subst ancestors.simps) (simp add: Let_def)

lemma ancestors_root: "i \<le> fr_parent (fs ! i) \<Longrightarrow> ancestors fs i = []"
  by (subst ancestors.simps) (simp add: Let_def)

lemma ancestors_cong:
  "(\<And>j. j \<le> i \<Longrightarrow> fr_parent (fs ! j) = fr_parent (gs ! j)) \<Longrightarrow> ancestors fs i = ancestors gs i"
proof (induction fs i rule: ancestors.induct)
  case (1 fs i)
  show ?case
  proof (cases "fr_parent (fs ! i) < i")
    case True
    then have "ancestors fs (fr_parent (fs ! i)) = ancestors gs (fr_parent (fs ! i))"
      using 1 by (intro 1(1)) auto
    then show ?thesis
      using True 1(2) [of i] by (simp add: ancestors_parent)
  next
    case False
    then show ?thesis
      using 1(2) [of i] by (simp add: ancestors_root)
  qed
qed

lemma ancestors_trans: "k \<in> set (ancestors fs j) \<Longrightarrow> j \<in> set (ancestors fs i) \<Longrightarrow> k \<in> set (ancestors fs i)"
proof (induction fs i rule: ancestors.induct)
  case (1 fs i)
  have less: "fr_parent (fs ! i) < i"
    using 1(3) by (cases "fr_parent (fs ! i) < i") (auto simp: ancestors_root)
  then show ?case
    using 1 by (auto simp: ancestors_parent)
qed

subsection \<open>Well-nested fragments\<close>

text \<open>While a word is read some of its fragments are open: they end at the end of the word read so far.\<close>

definition fragment_end :: "csh_fragment list \<Rightarrow> nat list \<Rightarrow> nat \<Rightarrow> nat \<Rightarrow> nat" where
  "fragment_end fs os n i = (if i \<in> set os then n else fr_end (fs ! i))"

definition placed :: "csh_fragment list \<Rightarrow> nat list \<Rightarrow> nat \<Rightarrow> nat \<Rightarrow> bool" where
  "placed fs os n i \<longleftrightarrow>
     fr_begin (fs ! i) \<le> fragment_end fs os n i \<and> fragment_end fs os n i \<le> n \<and>
     (fr_parent (fs ! i) = CSH_FRAGMENT_ROOT \<or>
        fr_parent (fs ! i) < i \<and> fr_parent (fs ! i) \<in> set ((i - 1) # ancestors fs (i - 1)) \<and>
        fr_begin (fs ! fr_parent (fs ! i)) \<le> fr_begin (fs ! i) \<and>
        fragment_end fs os n i \<le> fragment_end fs os n (fr_parent (fs ! i))) \<and>
     (\<forall>j < i. fragment_end fs os n j \<le> fr_begin (fs ! i) \<or> j \<in> set (ancestors fs i))"

definition tree_ok :: "csh_fragment list \<Rightarrow> nat list \<Rightarrow> nat \<Rightarrow> bool" where
  "tree_ok fs os n \<longleftrightarrow>
     length fs \<le> SIZE_MAX \<and> (\<forall>i < length fs. placed fs os n i) \<and> sorted_wrt (>) os \<and>
     (\<forall>j \<in> set os. j < length fs \<and> (\<forall>i < length fs. j < i \<longrightarrow> j \<in> set (ancestors fs i)) \<and>
        (fr_parent (fs ! j) = CSH_FRAGMENT_ROOT \<or> fr_parent (fs ! j) \<in> set os))"

lemma tree_ok_empty [simp]: "tree_ok [] [] n"
  by (simp add: tree_ok_def)

lemma tree_ok_open:
  assumes "tree_ok fs os n" "j \<in> set os"
  shows "j < length fs" "i < length fs \<Longrightarrow> j < i \<Longrightarrow> j \<in> set (ancestors fs i)"
    "fr_parent (fs ! j) = CSH_FRAGMENT_ROOT \<or> fr_parent (fs ! j) \<in> set os"
  using assms by (auto simp: tree_ok_def)

text \<open>The word grows.\<close>

lemma tree_ok_grow:
  assumes t: "tree_ok fs os n" and n: "n \<le> n'"
  shows "tree_ok fs os n'"
proof -
  have "placed fs os n' i" if i: "i < length fs" for i
  proof -
    have p: "placed fs os n i"
      using t i by (simp add: tree_ok_def)
    have "fragment_end fs os n' i \<le> fragment_end fs os n' (fr_parent (fs ! i))"
      if "fr_parent (fs ! i) \<noteq> CSH_FRAGMENT_ROOT"
      using p that n tree_ok_open(3) [OF t, of i] by (auto simp: placed_def fragment_end_def)
    moreover have "fragment_end fs os n' j \<le> fr_begin (fs ! i) \<or> j \<in> set (ancestors fs i)" if "j < i" for j
      using p that n tree_ok_open(2) [OF t, of j i] i by (auto simp: placed_def fragment_end_def)
    ultimately show ?thesis
      using p n by (auto simp: placed_def fragment_end_def)
  qed
  then show ?thesis
    using t by (simp add: tree_ok_def)
qed

text \<open>Closing the innermost fragment, or one that was just completed.\<close>

lemma tree_ok_close:
  assumes t: "tree_ok fs (i # os) n" and f: "fr_end f = n" "fr_begin f = fr_begin (fs ! i)" "fr_parent f = fr_parent (fs ! i)"
  shows "tree_ok (fs[i := f]) os n"
proof -
  have i: "i < length fs"
    using tree_ok_open(1) [OF t] by simp
  have os: "i \<notin> set os" "sorted_wrt (>) os"
    using t by (auto simp: tree_ok_def)
  have par: "fr_parent (fs[i := f] ! j) = fr_parent (fs ! j)" "fr_begin (fs[i := f] ! j) = fr_begin (fs ! j)" for j
    using f i by (cases "i = j"; simp)+
  then have anc: "ancestors (fs[i := f]) j = ancestors fs j" for j
    by (intro ancestors_cong) auto
  have e: "fragment_end (fs[i := f]) os n j = fragment_end fs (i # os) n j" for j
    using f(1) os(1) i by (cases "i = j") (auto simp: fragment_end_def)
  have "fr_parent (fs ! j) = CSH_FRAGMENT_ROOT \<or> fr_parent (fs ! j) \<in> set os" if "j \<in> set os" for j
  proof -
    have "j < i"
      using t that by (auto simp: tree_ok_def)
    moreover have "fr_parent (fs ! j) < j" if "fr_parent (fs ! j) \<noteq> CSH_FRAGMENT_ROOT"
      using t \<open>j \<in> set os\<close> that by (auto simp: tree_ok_def placed_def)
    ultimately show ?thesis
      using tree_ok_open(3) [OF t, of j] that by (cases "fr_parent (fs ! j) = CSH_FRAGMENT_ROOT") auto
  qed
  then show ?thesis
    using t os by (auto simp: tree_ok_def placed_def par anc e)
qed

text \<open>A new fragment, which is open at first.\<close>

lemma ancestors_append: "i < length fs \<Longrightarrow> ancestors (fs @ [f]) i = ancestors fs i"
  by (intro ancestors_cong) (auto simp: nth_append)

lemma tree_ok_add:
  assumes t: "tree_ok fs os n" and f: "fr_begin f = n" "fr_parent f = (case os of [] \<Rightarrow> CSH_FRAGMENT_ROOT | j # _ \<Rightarrow> j)"
    and m: "length fs < SIZE_MAX"
  shows "tree_ok (fs @ [f]) (length fs # os) n"
proof -
  let ?i = "length fs"
  have lt: "j < ?i" if "j \<in> set os" for j
    using tree_ok_open(1) [OF t that] .
  have e: "fragment_end (fs @ [f]) (?i # os) n j = fragment_end fs os n j" if "j < ?i" for j
    using that by (simp add: fragment_end_def nth_append)
  have old: "placed (fs @ [f]) (?i # os) n i" if i: "i < ?i" for i
  proof -
    have "placed fs os n i"
      using t i by (simp add: tree_ok_def)
    moreover have "ancestors (fs @ [f]) (i - 1) = ancestors fs (i - 1)" "ancestors (fs @ [f]) i = ancestors fs i"
      using i by (auto intro: ancestors_append)
    ultimately show ?thesis
      using i e by (auto simp: placed_def nth_append)
  qed
  have root: "ancestors (fs @ [f]) ?i = []" if "os = []"
    using that f(2) m by (intro ancestors_root) (simp add: CSH_FRAGMENT_ROOT_def)
  have anc: "ancestors (fs @ [f]) ?i = hd os # ancestors fs (hd os)" if "os \<noteq> []"
    using that f(2) lt [of "hd os"] ancestors_parent [of "fs @ [f]" ?i] by (simp add: ancestors_append split: list.splits)
  have hd_in: "hd os \<in> set ((?i - 1) # ancestors (fs @ [f]) (?i - 1))" if "os \<noteq> []"
    using that lt [of "hd os"] tree_ok_open(2) [OF t, of "hd os" "?i - 1"] by (cases "hd os = ?i - 1") (auto simp: ancestors_append)
  have open_in: "j \<in> set (ancestors (fs @ [f]) ?i)" if j: "j \<in> set os" for j
  proof -
    have "os \<noteq> []" using j by auto
    moreover have "j = hd os \<or> j < hd os"
      using j t by (cases os) (auto simp: tree_ok_def)
    ultimately show ?thesis
      using anc tree_ok_open(2) [OF t j, of "hd os"] lt [of "hd os"] by auto
  qed
  have ends: "fragment_end fs os n j \<le> n \<and> fr_begin (fs ! j) \<le> n" if "j < ?i" for j
    using t that by (fastforce simp: tree_ok_def placed_def)
  have "placed (fs @ [f]) (?i # os) n ?i"
  proof (cases os)
    case Nil
    then show ?thesis
      using f e ends by (auto simp: placed_def fragment_end_def nth_append)
  next
    case (Cons j js)
    then show ?thesis
      using f e ends lt [of j] hd_in by (auto simp: placed_def fragment_end_def nth_append)
  qed
  then have "placed (fs @ [f]) (?i # os) n i" if "i < length (fs @ [f])" for i
    using old that by (cases "i = ?i") auto
  moreover have "(\<forall>i < length (fs @ [f]). j < i \<longrightarrow> j \<in> set (ancestors (fs @ [f]) i))" if "j \<in> set os" for j
    using open_in [OF that] tree_ok_open(2) [OF t that] by (auto simp: less_Suc_eq ancestors_append)
  moreover have "fr_parent ((fs @ [f]) ! j) = CSH_FRAGMENT_ROOT \<or> fr_parent ((fs @ [f]) ! j) \<in> set (?i # os)" if "j \<in> set (?i # os)" for j
    using that f(2) tree_ok_open(3) [OF t, of j] lt [of j] by (cases os) (auto simp: nth_append)
  moreover have "sorted_wrt (>) (?i # os)"
    using t lt by (simp add: tree_ok_def)
  moreover have "j < Suc (length fs)" if "j \<in> set os" for j
    using lt [OF that] by simp
  ultimately show ?thesis
    using m by (auto simp: tree_ok_def)
qed

text \<open>Text that is continued is open again.\<close>

lemma tree_ok_reopen:
  assumes t: "tree_ok fs os n" and f: "fs \<noteq> []" "fr_end (last fs) = n"
    "fr_parent (last fs) = (case os of [] \<Rightarrow> CSH_FRAGMENT_ROOT | j # _ \<Rightarrow> j)"
  shows "tree_ok fs ((length fs - 1) # os) n"
proof -
  let ?i = "length fs - 1"
  have l: "last fs = fs ! ?i" "?i < length fs"
    using f(1) by (simp_all add: last_conv_nth)
  have less: "fr_parent (fs ! ?i) < ?i" if "os \<noteq> []"
  proof -
    have "fr_parent (fs ! ?i) \<in> set os"
      using that f(3) l by (simp split: list.splits)
    then have "fr_parent (fs ! ?i) \<noteq> CSH_FRAGMENT_ROOT"
      using tree_ok_open(1) [OF t] t by (fastforce simp: tree_ok_def CSH_FRAGMENT_ROOT_def)
    then show ?thesis
      using t l by (auto simp: tree_ok_def placed_def)
  qed
  have "\<forall>j \<in> set os. j < ?i"
  proof (cases os)
    case (Cons k ks)
    then show ?thesis
      using less f(3) l t by (auto simp: tree_ok_def)
  qed simp
  moreover have "fragment_end fs (?i # os) n j = fragment_end fs os n j" for j
    using f(2) l by (simp add: fragment_end_def)
  moreover have "fr_parent (fs ! ?i) = CSH_FRAGMENT_ROOT \<or> fr_parent (fs ! ?i) \<in> set (?i # os)"
    using f(3) l by (simp split: list.splits)
  ultimately show ?thesis
    using t l by (auto simp: tree_ok_def placed_def)
qed

subsection \<open>The check of word expansion\<close>

definition fragment_sized :: "csh_fragment \<Rightarrow> bool" where
  "fragment_sized f \<longleftrightarrow>
     fr_begin f < fr_end f \<and> (fr_kind f \<noteq> CSH_FRAGMENT_TEXT \<longrightarrow> 2 \<le> fr_end f - fr_begin f) \<and>
     (fr_kind f = CSH_FRAGMENT_ARITHMETIC \<longrightarrow> 5 \<le> fr_end f - fr_begin f)"

lemma unwind_found:
  assumes "unwind fs parent i stack previous ns = (stack', previous', ns')" "parent \<in> set stack"
  shows "\<exists>popped. stack = popped @ stack' \<and> stack' \<noteq> [] \<and> hd stack' = parent \<and>
    previous' = (if popped = [] then previous else fr_end (fs ! last popped))"
  using assms
proof (induction stack arbitrary: previous ns)
  case (Cons t stack)
  show ?case
  proof (cases "parent = t")
    case True
    then show ?thesis
      using Cons.prems(1) by (intro exI [of _ "[]"]) auto
  next
    case False
    then obtain popped where "stack = popped @ stack'" "stack' \<noteq> []" "hd stack' = parent"
      "previous' = (if popped = [] then fr_end (fs ! t) else fr_end (fs ! last popped))"
      using Cons.IH Cons.prems by fastforce
    then show ?thesis
      by (intro exI [of _ "t # popped"]) auto
  qed
qed simp

lemma unwind_missing:
  assumes "unwind fs parent i stack previous ns = (stack', previous', ns')" "parent \<notin> set stack"
  shows "stack' = [] \<and> previous' = (if stack = [] then previous else fr_end (fs ! last stack))"
  using assms by (induction stack arbitrary: previous ns) auto

lemma ancestors_sorted: "sorted_wrt (>) (i # ancestors fs i)"
proof (induction fs i rule: ancestors.induct)
  case (1 fs i)
  then show ?case
    by (cases "fr_parent (fs ! i) < i") (auto simp: ancestors_root ancestors_parent dest: ancestors_less)
qed

lemma ancestors_suffix: "i # ancestors fs i = xs @ p # ys \<Longrightarrow> ys = ancestors fs p"
proof (induction xs arbitrary: i)
  case (Cons x xs)
  then show ?case
    by (cases "fr_parent (fs ! i) < i") (auto simp: ancestors_root ancestors_parent)
qed simp

definition scan_stack :: "csh_fragment list \<Rightarrow> nat \<Rightarrow> nat list" where
  "scan_stack fs i = (if i = 0 then [] else (i - 1) # ancestors fs (i - 1))"

definition scan_previous :: "csh_fragment list \<Rightarrow> nat \<Rightarrow> nat" where
  "scan_previous fs i = (if i = 0 then 0 else fr_begin (fs ! (i - 1)))"

lemma scan_stack_less: "j \<in> set (scan_stack fs i) \<Longrightarrow> j < i"
  by (auto simp: scan_stack_def dest: ancestors_less split: if_splits)

text \<open>The stack of \<open>prepare\<close> is the path to the fragment before.\<close>

lemma unwind_placed:
  assumes p: "placed fs [] n i" and i: "i < length fs" "length fs \<le> SIZE_MAX"
    and u: "unwind fs (fr_parent (fs ! i)) i (scan_stack fs i) (scan_previous fs i) ns = (stack, previous, ns')"
  shows "i # stack = scan_stack fs (Suc i)" "previous \<le> fr_begin (fs ! i)" "stack = [] \<longleftrightarrow> fr_parent (fs ! i) = CSH_FRAGMENT_ROOT"
proof -
  have sib: "fr_end (fs ! j) \<le> fr_begin (fs ! i) \<or> j \<in> set (ancestors fs i)" if "j < i" for j
    using p that by (auto simp: placed_def fragment_end_def)
  have goal: "i # stack = scan_stack fs (Suc i) \<and> previous \<le> fr_begin (fs ! i) \<and> (stack = [] \<longleftrightarrow> fr_parent (fs ! i) = CSH_FRAGMENT_ROOT)"
  proof (cases "fr_parent (fs ! i) = CSH_FRAGMENT_ROOT")
    case True
    then have "fr_parent (fs ! i) \<notin> set (scan_stack fs i)" and anc: "ancestors fs i = []"
      using i scan_stack_less [of SIZE_MAX fs i] by (auto simp: CSH_FRAGMENT_ROOT_def ancestors_root)
    then have "stack = []" "previous = (if scan_stack fs i = [] then scan_previous fs i else fr_end (fs ! last (scan_stack fs i)))"
      using unwind_missing [OF u] by simp_all
    moreover have "last (scan_stack fs i) < i" if "scan_stack fs i \<noteq> []"
      using scan_stack_less last_in_set [OF that] by blast
    ultimately show ?thesis
      using True anc sib by (auto simp: scan_stack_def scan_previous_def split: if_splits)
  next
    case False
    let ?p = "fr_parent (fs ! i)"
    have par: "?p < i" "?p \<in> set (scan_stack fs i)" "fr_begin (fs ! ?p) \<le> fr_begin (fs ! i)"
      using p False by (auto simp: placed_def scan_stack_def)
    obtain popped where s: "scan_stack fs i = popped @ stack" "stack \<noteq> []" "hd stack = ?p"
      "previous = (if popped = [] then scan_previous fs i else fr_end (fs ! last popped))"
      using unwind_found [OF u par(2)] by blast
    obtain rest where st: "stack = ?p # rest"
      using s(2,3) by (cases stack) auto
    have chain: "(i - 1) # ancestors fs (i - 1) = popped @ ?p # rest"
      using s(1) st par(1) by (simp add: scan_stack_def)
    have anc: "ancestors fs i = stack"
      using ancestors_suffix [OF chain] par(1) st by (simp add: ancestors_parent)
    have "previous \<le> fr_begin (fs ! i)"
    proof (cases "popped = []")
      case True
      then show ?thesis
        using chain s(4) par by (auto simp: scan_previous_def)
    next
      case False
      then have l: "last popped \<in> set popped" by simp
      then have "?p < last popped" "\<forall>r \<in> set rest. r < ?p"
        using ancestors_sorted [of "i - 1" fs] unfolding chain by (auto simp: sorted_wrt_append)
      moreover have "last popped < i"
        using scan_stack_less s(1) l by (metis Un_iff set_append)
      ultimately show ?thesis
        using sib [of "last popped"] s(4) False anc st by auto
    qed
    then show ?thesis
      using anc st False by (simp add: scan_stack_def)
  qed
  then show "i # stack = scan_stack fs (Suc i)" "previous \<le> fr_begin (fs ! i)" "stack = [] \<longleftrightarrow> fr_parent (fs ! i) = CSH_FRAGMENT_ROOT"
    by auto
qed

lemma prepare_scan_structured:
  assumes t: "tree_ok (tk_fragments word) [] (length (tk_raw word))" and z: "\<forall>f \<in> set (tk_fragments word). fragment_sized f"
  shows "prepare_scan cx word i (drop i (tk_fragments word)) (scan_stack (tk_fragments word) i) (scan_previous (tk_fragments word) i) ns
    \<noteq> Inl (k, ''invalid structured word'')"
proof (induction "length (tk_fragments word) - i" arbitrary: i ns)
  case 0
  then show ?case by simp
next
  case (Suc m)
  let ?fs = "tk_fragments word"
  have i: "i < length ?fs"
    using Suc.hyps(2) by simp
  then have d: "drop i ?fs = ?fs ! i # drop (Suc i) ?fs"
    by (simp add: Cons_nth_drop_Suc)
  have p: "placed ?fs [] (length (tk_raw word)) i" and sz: "length ?fs \<le> SIZE_MAX"
    using t i by (simp_all add: tree_ok_def)
  obtain stack previous ns' where u: "unwind ?fs (fr_parent (?fs ! i)) i (scan_stack ?fs i) (scan_previous ?fs i) ns = (stack, previous, ns')"
    by (rule prod_cases3)
  note w = unwind_placed [OF p i sz u]
  have f: "fragment_sized (?fs ! i)"
    using z i by simp
  have "structure_ok word (?fs ! i) stack previous"
    using p w(2,3) f by (auto simp: structure_ok_def placed_def fragment_end_def fragment_sized_def)
  moreover have "prepare_scan cx word (Suc i) (drop (Suc i) ?fs) (i # stack) (fr_begin (?fs ! i)) ns' \<noteq> Inl (k, ''invalid structured word'')"
    using Suc.hyps(1) [of "Suc i" ns'] Suc.hyps(2) w(1) by (simp add: scan_previous_def)
  ultimately show ?case
    unfolding d by (simp add: u)
qed

subsection \<open>The spelling of an arithmetic candidate\<close>

text \<open>Reading the spelling of the innermost open fragment stays inside the word: a child of the candidate
  that was not passed yet starts at the place reached.\<close>

lemma ancestor_begin:
  assumes t: "tree_ok fs os n"
  shows "i < length fs \<Longrightarrow> j \<in> set (ancestors fs i) \<Longrightarrow> fr_begin (fs ! j) \<le> fr_begin (fs ! i)"
proof (induction i rule: less_induct)
  case (less i)
  let ?p = "fr_parent (fs ! i)"
  have p: "?p < i"
    using less.prems(2) by (cases "?p < i") (auto simp: ancestors_root)
  then have le: "fr_begin (fs ! ?p) \<le> fr_begin (fs ! i)"
    using t less.prems(1) by (auto simp: tree_ok_def placed_def CSH_FRAGMENT_ROOT_def)
  show ?case
    using less.prems less.IH [OF p] p le by (fastforce simp: ancestors_parent)
qed

lemma tree_begin_mono:
  assumes "tree_ok fs os n" "i \<le> j" "j < length fs"
  shows "fr_begin (fs ! i) \<le> fr_begin (fs ! j)"
proof (cases "i = j")
  case False
  then have "placed fs os n i" "placed fs os n j" "i < j"
    using assms by (auto simp: tree_ok_def)
  then show ?thesis
    using ancestor_begin [OF assms(1,3), of i] by (fastforce simp: placed_def)
qed simp

text \<open>Of two children of a fragment, the first ends before the second begins.\<close>

lemma tree_siblings:
  assumes "tree_ok fs os n" "i < j" "j < length fs" "fr_parent (fs ! j) < i"
  shows "fragment_end fs os n i \<le> fr_begin (fs ! j)"
proof -
  have "i \<notin> set (ancestors fs j)"
    using assms ancestors_less [of i fs "fr_parent (fs ! j)"] by (auto simp: ancestors_parent)
  then show ?thesis
    using assms by (auto simp: tree_ok_def placed_def)
qed

lemma probe_loop_total:
  assumes t: "tree_ok fs os (length raw)" and z: "\<forall>i < length fs. i \<notin> set os \<longrightarrow> fragment_sized (fs ! i)"
    and o: "\<forall>i \<in> set os. fr_end (fs ! i) = fr_begin (fs ! i) \<and> fr_kind (fs ! i) \<noteq> CSH_FRAGMENT_ESCAPE \<and>
      fr_kind (fs ! i) \<noteq> CSH_FRAGMENT_CONTINUATION"
  shows "base < index \<Longrightarrow>
    \<forall>i < length fs. index \<le> i \<longrightarrow> fr_parent (fs ! i) = base \<longrightarrow> at \<le> fr_begin (fs ! i) \<or> i \<notin> set os \<and> fr_end (fs ! i) \<le> at \<Longrightarrow>
    probe_loop partial base raw fs index at \<noteq> None"
  using t z o
proof (induction partial base raw fs index at rule: probe_loop.induct)
  case (1 partial base raw fs index at)
  let ?f = "fs ! index" and ?in = "\<lambda>at index. \<forall>i < length fs. index \<le> i \<longrightarrow> fr_parent (fs ! i) = base \<longrightarrow>
    at \<le> fr_begin (fs ! i) \<or> i \<notin> set os \<and> fr_end (fs ! i) \<le> at"
  let ?u = "partial \<and> fr_end ?f = fr_begin ?f"
  note prems = 1(6-10)
  show ?case
  proof (cases "length raw \<le> at")
    case True
    then show ?thesis by (simp add: probe_loop.simps)
  next
    case at: False
    show ?thesis
    proof (cases "length fs \<le> index \<or> at < fr_begin ?f")
      case True
      have "?in (at + 1) index"
        using prems(2) True tree_begin_mono [OF prems(3), of index] by fastforce
      then have "probe_loop partial base raw fs index (at + 1) \<noteq> None"
        using 1(1) [OF at True prems(1)] prems(3-5) by blast
      then show ?thesis
        using at True by (subst probe_loop.simps) (simp del: not_None_eq)
    next
      case idx: False
      then have i: "index < length fs" "fr_begin ?f \<le> at" by auto
      show ?thesis
      proof (cases "\<not> ?u \<and> fr_end ?f \<le> at \<or> fr_parent ?f \<noteq> base")
        case True
        have "probe_loop partial base raw fs (index + 1) at \<noteq> None"
          using 1(2) [OF at idx refl refl True] prems by auto
        then show ?thesis
          using at idx True by (subst probe_loop.simps) (simp add: Let_def del: not_None_eq)
      next
        case cur: False
        then have par: "fr_parent ?f = base" by simp
        have closed: "index \<notin> set os \<Longrightarrow> fragment_sized ?f"
          using prems(4) i by blast
        have st: "at = fr_begin ?f"
          using prems(2) i par cur closed by (fastforce simp: fragment_sized_def)
        have sib: "fragment_end fs os (length raw) index \<le> fr_begin (fs ! j)"
          if "index < j" "j < length fs" "fr_parent (fs ! j) = base" for j
          using tree_siblings [OF prems(3) that(1,2)] that(3) prems(1) by simp
        have next_in: "?in at' (index + 1)" if "at' \<le> fragment_end fs os (length raw) index" for at'
          by (intro allI impI disjI1, rule order_trans [OF that], rule sib) auto
        have fin: "fr_end ?f \<le> length raw" if "index \<notin> set os"
          using prems(3) i(1) that by (fastforce simp: tree_ok_def placed_def fragment_end_def)
        have b: "base < index + 1"
          using prems(1) by simp
        let ?expansion = "fr_kind ?f = CSH_FRAGMENT_PARAMETER \<or> fr_kind ?f = CSH_FRAGMENT_COMMAND \<or>
           fr_kind ?f = CSH_FRAGMENT_ARITHMETIC \<or> fr_kind ?f = CSH_FRAGMENT_BACKQUOTE"
        show ?thesis
        proof (cases ?expansion)
          case True
          have "(if ?u then length raw else fr_end ?f) \<le> fragment_end fs os (length raw) index"
            using closed prems(5) cur st by (auto simp: fragment_end_def fragment_sized_def)
          then have "probe_loop partial base raw fs (index + 1) (if ?u then length raw else fr_end ?f) \<noteq> None"
            using 1(3) [OF at idx refl refl cur True b next_in] prems(3-5) by blast
          then show ?thesis
            using at idx cur True by (subst probe_loop.simps) (auto simp: Let_def simp del: not_None_eq)
        next
          case ne: False
          show ?thesis
          proof (cases "fr_kind ?f = CSH_FRAGMENT_CONTINUATION")
            case True
            then have "fr_end ?f \<le> fragment_end fs os (length raw) index"
              using prems(5) by (auto simp: fragment_end_def)
            then have "probe_loop partial base raw fs (index + 1) (fr_end ?f) \<noteq> None"
              using 1(4) [OF at idx refl refl cur ne True b next_in] prems(3-5) by blast
            then show ?thesis
              using at idx cur ne True by (subst probe_loop.simps) (auto simp: Let_def simp del: not_None_eq)
          next
            case nc: False
            let ?at = "if fr_kind ?f = CSH_FRAGMENT_ESCAPE then at + 1 else at"
            have two: "at + 2 \<le> fr_end ?f" if "index \<notin> set os" "fr_kind ?f = CSH_FRAGMENT_ESCAPE"
              using closed [OF that(1)] that(2) st by (auto simp: fragment_sized_def)
            have room: "\<not> length raw \<le> ?at"
              using two fin prems(5) at by (cases "index \<in> set os") auto
            have "?at + 1 \<le> fragment_end fs os (length raw) index"
              using two closed prems(5) at st by (cases "index \<in> set os") (auto simp: fragment_end_def fragment_sized_def)
            then have "probe_loop partial base raw fs (index + 1) (?at + 1) \<noteq> None"
              using 1(5) [OF at idx refl refl cur ne nc refl room b next_in] prems(3-5) by blast
            then show ?thesis
              using at idx cur ne nc room by (subst probe_loop.simps) (auto simp: Let_def simp del: not_None_eq)
          qed
        qed
      qed
    qed
  qed
qed

end
