(* ===== verification/Lexer_Invariant.thy ===== *)
theory Lexer_Invariant
  imports Fragment_Tree
begin

text \<open>
  The invariant of the lexers: pending words, the checkpoints of arithmetic candidates and the states they go back
  to, the states an operation may fail in, and consuming input.
\<close>

subsection \<open>A pending word\<close>

definition opening_bytes :: "frame_kind \<Rightarrow> nat" where
  "opening_bytes k = (case k of SINGLE \<Rightarrow> 1 | DOUBLE \<Rightarrow> 1 | BACKQUOTE \<Rightarrow> 1 | ARITHMETIC \<Rightarrow> 3 | _ \<Rightarrow> 2)"

definition context_fragment :: "frame_kind \<Rightarrow> csh_fragment_kind" where
  "context_fragment k =
     (case k of SINGLE \<Rightarrow> CSH_FRAGMENT_QUOTED | DOUBLE \<Rightarrow> CSH_FRAGMENT_QUOTED | DOLLAR_SINGLE \<Rightarrow> CSH_FRAGMENT_QUOTED
      | PARAMETER \<Rightarrow> CSH_FRAGMENT_PARAMETER | SIMPLE \<Rightarrow> CSH_FRAGMENT_PARAMETER | ARITHMETIC \<Rightarrow> CSH_FRAGMENT_ARITHMETIC
      | BACKQUOTE \<Rightarrow> CSH_FRAGMENT_BACKQUOTE | COMMAND \<Rightarrow> CSH_FRAGMENT_COMMAND)"

abbreviation open_fragments :: "csh_lexer \<Rightarrow> nat list" where
  "open_fragments l \<equiv> map fm_fragment (lx_frames l)"

text \<open>The fragments read so far, with those of the frames open.\<close>

definition spelt_ok :: "csh_lexer \<Rightarrow> bool" where
  "spelt_ok l \<longleftrightarrow>
     tree_ok (lx_fragments l) (open_fragments l) (length (lx_raw l)) \<and>
     (\<forall>i < length (lx_fragments l). i \<notin> set (open_fragments l) \<longrightarrow> fragment_sized (lx_fragments l ! i)) \<and>
     (\<forall>f \<in> set (lx_frames l). fr_kind (lx_fragments l ! fm_fragment f) = context_fragment (fm_kind f) \<and>
        fr_end (lx_fragments l ! fm_fragment f) = fr_begin (lx_fragments l ! fm_fragment f)) \<and>
     CHR 0x00 \<notin> set (lx_raw l)"

definition opened_ok :: "csh_lexer \<Rightarrow> frame list \<Rightarrow> bool" where
  "opened_ok l frs \<longleftrightarrow>
     (\<forall>f \<in> set frs. fr_begin (lx_fragments l ! fm_fragment f) + opening_bytes (fm_kind f) \<le> length (lx_raw l))"

text \<open>The arithmetic frames from the innermost on, as fragment and frames below.\<close>

fun candidates :: "frame list \<Rightarrow> (nat \<times> nat) list" where
  "candidates [] = []"
| "candidates (f # fs) = (if fm_kind f = ARITHMETIC then [(fm_fragment f, length fs)] else []) @ candidates fs"

definition body_ok :: "csh_lexer \<Rightarrow> arithmetic_checkpoint \<Rightarrow> bool" where
  "body_ok l c \<longleftrightarrow>
     ck_body_begin c \<le> length (lx_raw l) \<and>
     (\<forall>i < length (lx_fragments l). fr_parent (lx_fragments l ! i) = ck_fragment_count c \<longrightarrow>
        ck_body_begin c \<le> fr_begin (lx_fragments l ! i) \<or>
        i \<notin> set (open_fragments l) \<and> fr_kind (lx_fragments l ! i) = CSH_FRAGMENT_CONTINUATION \<and>
        fr_end (lx_fragments l ! i) \<le> ck_body_begin c)"

definition candidates_ok :: "csh_lexer \<Rightarrow> bool" where
  "candidates_ok l \<longleftrightarrow>
     map (\<lambda>c. (ck_fragment_count c, ck_frame_count c)) (lx_arithmetic l) = candidates (lx_frames l) \<and>
     (\<forall>c \<in> set (lx_arithmetic l). body_ok l c)"

definition word_ok :: "csh_lexer \<Rightarrow> bool" where
  "word_ok l \<longleftrightarrow>
     spelt_ok l \<and> opened_ok l (lx_frames l) \<and> candidates_ok l \<and>
     (if lx_active l then \<not> lx_comment l
      else lx_raw l = [] \<and> lx_fragments l = [] \<and> lx_frames l = [] \<and> \<not> lx_command l) \<and>
     (lx_frames l \<noteq> [] \<longrightarrow> lx_kind l = CSH_TOKEN_WORD) \<and>
     (lx_command l \<longrightarrow> (\<exists>f fs. lx_frames l = f # fs \<and> fm_kind f = COMMAND))"

definition lexers_base :: "csh_lexer list \<Rightarrow> bool" where
  "lexers_base ls \<longleftrightarrow> (\<forall>i < length ls. word_ok (ls ! i) \<and> (Suc i < length ls \<longrightarrow> lx_command (ls ! i)))"

subsection \<open>Going back to a checkpoint\<close>

definition restored :: "capture_checkpoint \<Rightarrow> csh_lexer \<Rightarrow> csh_lexer" where
  "restored k l = l\<lparr>lx_raw := take (ca_length k) (lx_raw l), lx_spelling_position := ca_position k\<rparr>"

definition truncated :: "arithmetic_checkpoint \<Rightarrow> csh_lexer \<Rightarrow> csh_lexer" where
  "truncated c l =
     l\<lparr>lx_fragments := take (ck_fragment_count c) (lx_fragments l),
       lx_frames := drop (length (lx_frames l) - ck_frame_count c) (lx_frames l),
       lx_command := False, lx_arithmetic := tl (lx_arithmetic l)\<rparr>"

definition newest :: "nat \<Rightarrow> csh_lexer list \<Rightarrow> arithmetic_checkpoint" where
  "newest d ls = hd (lx_arithmetic (ls ! d))"

definition rewindable :: "nat \<Rightarrow> csh_lexer list \<Rightarrow> bool" where
  "rewindable d ls \<longleftrightarrow>
     (let c = newest d ls in
      d < length ls \<and> lx_active (ls ! d) \<and> lx_kind (ls ! d) = CSH_TOKEN_WORD \<and> map ca_depth (ck_captures c) = rev [0..<Suc d] \<and>
      (\<forall>i \<le> d. ca_length (ck_captures c ! (d - i)) \<le> length (lx_raw (ls ! i))) \<and>
      ck_fragment_count c \<le> length (lx_fragments (ls ! d)) \<and> ck_frame_count c \<le> length (lx_frames (ls ! d)))"

definition rewound_at :: "nat \<Rightarrow> csh_lexer list \<Rightarrow> nat \<Rightarrow> csh_lexer" where
  "rewound_at d ls i =
     (let l = restored (ck_captures (newest d ls) ! (d - i)) (ls ! i) in if i = d then truncated (newest d ls) l else l)"

definition rewound :: "nat \<Rightarrow> csh_lexer list \<Rightarrow> csh_lexer list" where
  "rewound d ls = map (rewound_at d ls) [0..<Suc d]"

text \<open>What does not matter for the structure: the capacities.\<close>

definition core :: "csh_lexer \<Rightarrow> csh_lexer" where
  "core l = l\<lparr>lx_raw_capacity := 0, lx_fragment_capacity := 0, lx_frame_capacity := 0\<rparr>"

inductive lexers_ok :: "csh_lexer list \<Rightarrow> bool" where
  lexers_okI: "lexers_base ls \<Longrightarrow>
     (\<And>d. d < length ls \<Longrightarrow> lx_arithmetic (ls ! d) \<noteq> [] \<Longrightarrow> rewindable d ls \<and> lexers_ok (map core (rewound d ls))) \<Longrightarrow>
     lexers_ok ls"

definition rewinds_ok :: "csh_lexer list \<Rightarrow> bool" where
  "rewinds_ok ls \<longleftrightarrow>
     (\<forall>d < length ls. lx_arithmetic (ls ! d) \<noteq> [] \<longrightarrow> rewindable d ls \<and> lexers_ok (map core (rewound d ls)))"

lemma lexers_ok_iff: "lexers_ok ls \<longleftrightarrow> lexers_base ls \<and> rewinds_ok ls"
  by (subst lexers_ok.simps) (auto simp: rewinds_ok_def)

text \<open>Changes that do not reach below a checkpoint.\<close>

definition husk :: "csh_lexer \<Rightarrow> csh_lexer" where
  "husk l = (core l)\<lparr>lx_raw := [], lx_spelling_position := no_position\<rparr>"

definition extends :: "csh_lexer \<Rightarrow> csh_lexer \<Rightarrow> bool" where
  "extends l l' \<longleftrightarrow> husk l' = husk l \<and> (\<exists>x. lx_raw l' = lx_raw l @ x)"

definition shell :: "csh_lexer \<Rightarrow> csh_lexer" where
  "shell l = (husk l)\<lparr>lx_fragments := [], lx_frames := [], lx_command := False\<rparr>"

definition extends_above :: "csh_lexer \<Rightarrow> csh_lexer \<Rightarrow> bool" where
  "extends_above l l' \<longleftrightarrow>
     shell l' = shell l \<and> (\<exists>x. lx_raw l' = lx_raw l @ x) \<and>
     (let c = hd (lx_arithmetic l) in
      ck_fragment_count c \<le> length (lx_fragments l') \<and> ck_frame_count c \<le> length (lx_frames l') \<and>
      take (ck_fragment_count c) (lx_fragments l') = take (ck_fragment_count c) (lx_fragments l) \<and>
      drop (length (lx_frames l') - ck_frame_count c) (lx_frames l') = drop (length (lx_frames l) - ck_frame_count c) (lx_frames l))"

lemma extends_keeps:
  assumes "extends l l'"
  shows "lx_fragments l' = lx_fragments l" "lx_frames l' = lx_frames l" "lx_arithmetic l' = lx_arithmetic l"
    "lx_active l' = lx_active l" "lx_command l' = lx_command l" "lx_comment l' = lx_comment l" "lx_kind l' = lx_kind l"
    "\<exists>x. lx_raw l' = lx_raw l @ x"
proof -
  have h: "husk l' = husk l"
    using assms by (simp add: extends_def)
  show "lx_fragments l' = lx_fragments l" "lx_frames l' = lx_frames l" "lx_arithmetic l' = lx_arithmetic l"
    "lx_active l' = lx_active l" "lx_command l' = lx_command l" "lx_comment l' = lx_comment l" "lx_kind l' = lx_kind l"
    using arg_cong [OF h, of lx_fragments] arg_cong [OF h, of lx_frames] arg_cong [OF h, of lx_arithmetic]
      arg_cong [OF h, of lx_active] arg_cong [OF h, of lx_command] arg_cong [OF h, of lx_comment] arg_cong [OF h, of lx_kind]
    by (simp_all add: husk_def core_def)
  show "\<exists>x. lx_raw l' = lx_raw l @ x"
    using assms by (simp add: extends_def)
qed

lemma extends_refl [simp]: "extends l l"
  by (simp add: extends_def)

lemma extends_trans: "extends l l1 \<Longrightarrow> extends l1 l2 \<Longrightarrow> extends l l2"
  by (auto simp: extends_def)

lemma grown_extends: "grown l l' \<Longrightarrow> extends l l'"
  by (cases l) (auto simp: grown_def extends_def husk_def core_def)

lemma restored_core:
  assumes "extends l l'" "ca_length k \<le> length (lx_raw l)"
  shows "core (restored k l') = core (restored k l)"
proof -
  obtain x where x: "lx_raw l' = lx_raw l @ x" and h: "husk l' = husk l"
    using assms(1) by (auto simp: extends_def)
  have "core (restored k m) = (husk m)\<lparr>lx_raw := take (ca_length k) (lx_raw m), lx_spelling_position := ca_position k\<rparr>" for m
    by (cases m) (simp add: core_def restored_def husk_def)
  then show ?thesis
    using h x assms(2) by simp
qed

lemma truncated_core:
  assumes "extends_above l l'" "ca_length k \<le> length (lx_raw l)" "c = hd (lx_arithmetic l)"
  shows "core (truncated c (restored k l')) = core (truncated c (restored k l))"
proof -
  obtain x where x: "lx_raw l' = lx_raw l @ x" and h: "shell l' = shell l"
    using assms(1) by (auto simp: extends_above_def)
  have a: "lx_arithmetic l' = lx_arithmetic l"
    using arg_cong [OF h, of lx_arithmetic] by (simp add: shell_def husk_def core_def)
  have "core (truncated c (restored k m)) =
      (shell m)\<lparr>lx_raw := take (ca_length k) (lx_raw m), lx_spelling_position := ca_position k,
        lx_fragments := take (ck_fragment_count c) (lx_fragments m),
        lx_frames := drop (length (lx_frames m) - ck_frame_count c) (lx_frames m), lx_arithmetic := tl (lx_arithmetic m)\<rparr>" for m
    by (cases m) (simp add: core_def restored_def truncated_def shell_def husk_def)
  then show ?thesis
    using h x a assms by (simp add: extends_above_def Let_def)
qed

lemma rewound_cong:
  assumes r: "rewindable d ls" and l: "length ls' = length ls"
    and e: "\<And>i. i < d \<Longrightarrow> extends (ls ! i) (ls' ! i)" and a: "extends_above (ls ! d) (ls' ! d)"
  shows "rewindable d ls' \<and> map core (rewound d ls') = map core (rewound d ls)"
proof -
  have sh: "shell (ls' ! d) = shell (ls ! d)"
    using a by (simp add: extends_above_def)
  have ar: "lx_arithmetic (ls' ! d) = lx_arithmetic (ls ! d)" "lx_active (ls' ! d) = lx_active (ls ! d)" "lx_kind (ls' ! d) = lx_kind (ls ! d)"
    using arg_cong [OF sh, of lx_arithmetic] arg_cong [OF sh, of lx_active] arg_cong [OF sh, of lx_kind]
    by (simp_all add: shell_def husk_def core_def)
  then have n: "newest d ls' = newest d ls"
    by (simp add: newest_def)
  have raw: "\<exists>x. lx_raw (ls' ! i) = lx_raw (ls ! i) @ x" if "i \<le> d" for i
    using that e [of i] a by (cases "i = d") (auto simp: extends_above_def extends_def)
  have le: "ca_length (ck_captures (newest d ls) ! (d - i)) \<le> length (lx_raw (ls ! i))" if "i \<le> d" for i
    using r that by (simp add: rewindable_def Let_def)
  have "core (rewound_at d ls' i) = core (rewound_at d ls i)" if "i \<le> d" for i
  proof (cases "i = d")
    case True
    then show ?thesis
      using truncated_core [OF a le [OF le_refl, unfolded diff_self_eq_0]] n by (simp add: rewound_at_def Let_def newest_def)
  next
    case False
    then show ?thesis
      using that restored_core [OF e le] n by (simp add: rewound_at_def Let_def)
  qed
  moreover have "ca_length (ck_captures (newest d ls) ! (d - i)) \<le> length (lx_raw (ls' ! i))" if "i \<le> d" for i
    using raw [OF that] le [OF that] by auto
  then have "rewindable d ls'"
    using r a l ar(2,3) unfolding rewindable_def n Let_def by (simp add: extends_above_def Let_def newest_def)
  ultimately show ?thesis
    by (auto simp: rewound_def)
qed

definition evolves :: "csh_lexer list \<Rightarrow> csh_lexer list \<Rightarrow> bool" where
  "evolves ls ls' \<longleftrightarrow>
     length ls' = length ls \<and> (\<forall>i. Suc i < length ls \<longrightarrow> extends (ls ! i) (ls' ! i)) \<and>
     (\<forall>i. Suc i = length ls \<longrightarrow> lx_arithmetic (ls' ! i) = lx_arithmetic (ls ! i) \<and>
        (lx_arithmetic (ls ! i) \<noteq> [] \<longrightarrow> extends_above (ls ! i) (ls' ! i)))"

lemma extends_extends_above:
  assumes "extends l l'" "ck_fragment_count (hd (lx_arithmetic l)) \<le> length (lx_fragments l)"
    "ck_frame_count (hd (lx_arithmetic l)) \<le> length (lx_frames l)"
  shows "extends_above l l'"
  using assms extends_keeps [OF assms(1)] by (auto simp: extends_def extends_above_def shell_def Let_def)

lemma rewinds_ok_evolves:
  assumes r: "rewinds_ok ls" and e: "evolves ls ls'"
  shows "rewinds_ok ls'"
proof -
  have "rewindable d ls' \<and> lexers_ok (map core (rewound d ls'))"
    if d: "d < length ls'" and a: "lx_arithmetic (ls' ! d) \<noteq> []" for d
  proof -
    have same: "lx_arithmetic (ls' ! d) = lx_arithmetic (ls ! d)"
      using e d extends_keeps(3) [of "ls ! d" "ls' ! d"] by (cases "Suc d = length ls") (auto simp: evolves_def)
    have ok: "rewindable d ls" "lexers_ok (map core (rewound d ls))"
      using r e d a same by (auto simp: rewinds_ok_def evolves_def)
    have "extends_above (ls ! d) (ls' ! d)"
    proof (cases "Suc d = length ls")
      case True
      then show ?thesis using e a same by (auto simp: evolves_def)
    next
      case False
      then have "extends (ls ! d) (ls' ! d)"
        using e d by (auto simp: evolves_def)
      then show ?thesis
        using ok(1) by (intro extends_extends_above) (auto simp: rewindable_def Let_def newest_def)
    qed
    then have "rewindable d ls' \<and> map core (rewound d ls') = map core (rewound d ls)"
      using e d by (intro rewound_cong [OF ok(1)]) (auto simp: evolves_def)
    then show ?thesis
      using ok(2) by simp
  qed
  then show ?thesis
    by (simp add: rewinds_ok_def)
qed

lemma rewinds_ok_released: "rewinds_ok (map release_work ls)"
  by (simp add: rewinds_ok_def release_work_def)

lemma rewinds_ok_extends:
  assumes "rewinds_ok ls" "length ls' = length ls" "\<And>i. i < length ls \<Longrightarrow> extends (ls ! i) (ls' ! i)"
  shows "rewinds_ok ls'"
proof (rule rewinds_ok_evolves [OF assms(1)])
  have "lx_arithmetic (ls' ! i) = lx_arithmetic (ls ! i) \<and>
      (lx_arithmetic (ls ! i) \<noteq> [] \<longrightarrow> extends_above (ls ! i) (ls' ! i))" if i: "Suc i = length ls" for i
    using assms(1) assms(3) [of i] extends_keeps(3) [of "ls ! i" "ls' ! i"] i
    by (auto simp: rewinds_ok_def rewindable_def Let_def newest_def intro!: extends_extends_above)
  then show "evolves ls ls'"
    using assms by (simp add: evolves_def)
qed

subsection \<open>States that an operation may fail in\<close>

lemma no_error_simps [simp]: "message no_error = []" "system_errno no_error = EOK"
  by (simp_all add: no_error_def)

definition checkpoint_ok :: "arithmetic_checkpoint \<Rightarrow> bool" where
  "checkpoint_ok c \<longleftrightarrow>
     source_ok (ck_source c) \<and> so_cursor (ck_source c) = 0 \<and> so_look (ck_source c) = None \<and>
     so_failure (ck_source c) = no_error \<and> 2 \<le> ck_command_length c \<and> ck_command_length c \<le> length (so_data (ck_source c))"

definition room_ok :: "csh_lexer \<Rightarrow> bool" where
  "room_ok l \<longleftrightarrow> (lx_raw l \<noteq> [] \<longrightarrow> length (lx_raw l) < lx_raw_capacity l) \<and> (\<forall>c \<in> set (lx_arithmetic l). checkpoint_ok c)"

definition ground :: "lexing \<Rightarrow> bool" where
  "ground s \<longleftrightarrow> so_failure (lg_source s) = no_error \<and> lg_error s = no_error \<and> rewinds_ok (lg_lexers s) \<and> (\<forall>l \<in> set (lg_lexers s). room_ok l)"

definition failed_ok :: "lexing \<Rightarrow> bool" where
  "failed_ok s \<longleftrightarrow>
     message (so_failure (lg_source s)) \<noteq> [] \<and> lg_error s = so_failure (lg_source s) \<and>
     rewinds_ok (lg_lexers s) \<and> (\<forall>l \<in> set (lg_lexers s). room_ok l) \<and>
     (take 13 (message (so_failure (lg_source s))) = ''unterminated '' \<longrightarrow> (\<exists>l \<in> set (lg_lexers s). lx_arithmetic l \<noteq> []) \<longrightarrow>
        lexers_base (lg_lexers s))"

lemma lex_fail_at_source [simp]:
  "message (so_failure (lg_source s)) = [] \<Longrightarrow>
   so_failure (lg_source (lex_fail_at d m e p s)) = (lex_plain_error m e)\<lparr>position := csh_lexer_diagnostic_position d p s\<rparr>"
  by (simp add: lex_fail_at_def Let_def release_source_def)

lemma lex_fail_at_error [simp]:
  "lg_error (lex_fail_at d m e p s) = so_failure (lg_source (lex_fail_at d m e p s))"
  by (simp add: lex_fail_at_def Let_def release_source_def)

lemma lex_fail_at_lexers:
  "lg_lexers (lex_fail_at d m e p s) = lg_lexers s \<or> lg_lexers (lex_fail_at d m e p s) = map release_work (lg_lexers s)"
  by (simp add: lex_fail_at_def Let_def)

lemma room_ok_released [simp]: "room_ok (release_work l)"
  by (simp add: room_ok_def release_work_def)

lemma release_work_arithmetic [simp]: "lx_arithmetic (release_work l) = []"
  by (simp add: release_work_def)

lemma fail_at_failed:
  assumes g: "ground s" and m: "m \<noteq> []" and b: "take 13 m = ''unterminated '' \<Longrightarrow> lexers_base (lg_lexers s)"
  shows "failed_ok (lex_fail_at d m e p s)"
proof -
  have f: "message (so_failure (lg_source s)) = []"
    using g by (simp add: ground_def)
  show ?thesis
    using lex_fail_at_lexers [of d m e p s]
  proof
    assume l: "lg_lexers (lex_fail_at d m e p s) = lg_lexers s"
    show ?thesis
      using g m b f by (auto simp: failed_ok_def l ground_def lex_plain_error_def)
  next
    assume l: "lg_lexers (lex_fail_at d m e p s) = map release_work (lg_lexers s)"
    show ?thesis
      using g m f by (simp add: failed_ok_def l ground_def lex_plain_error_def rewinds_ok_released)
  qed
qed

lemma fail_failed:
  "ground s \<Longrightarrow> m \<noteq> [] \<Longrightarrow> take 13 m \<noteq> ''unterminated '' \<Longrightarrow> failed_ok (lex_fail d m e s)"
  unfolding lex_fail_def by (rule fail_at_failed) auto

lemma grown_room: "grown l l' \<Longrightarrow> room_ok l \<Longrightarrow> room_ok l'"
  by (auto simp: grown_def room_ok_def)

lemma ground_grown:
  assumes g: "ground s" and l: "length (lg_lexers s') = length (lg_lexers s)"
    and e: "\<And>i. i < length (lg_lexers s) \<Longrightarrow> grown (lexer_at i s) (lexer_at i s')"
    and f: "so_failure (lg_source s') = so_failure (lg_source s)" "lg_error s' = lg_error s"
  shows "ground s'"
proof -
  have "room_ok (lexer_at i s')" if "i < length (lg_lexers s')" for i
    using g e [of i] l that grown_room by (fastforce simp: ground_def)
  then have "\<forall>k \<in> set (lg_lexers s'). room_ok k"
    by (metis in_set_conv_nth)
  moreover have "rewinds_ok (lg_lexers s')"
  proof (rule rewinds_ok_extends)
    show "rewinds_ok (lg_lexers s)"
      using g by (simp add: ground_def)
  qed (use l grown_extends [OF e] in auto)
  ultimately show ?thesis
    using g f by (simp add: ground_def)
qed

text \<open>An operation returns, and fails in a state that can be replayed.\<close>

definition achieves :: "(bool \<times> lexing) option \<Rightarrow> (lexing \<Rightarrow> bool) \<Rightarrow> bool" where
  "achieves m Q \<longleftrightarrow> (\<exists>s. m = Some (True, s) \<and> Q s) \<or> (\<exists>s. m = Some (False, s) \<and> failed_ok s)"

lemma achieves_simps [simp]: "achieves (Some (True, s)) Q \<longleftrightarrow> Q s" "achieves (Some (False, s)) Q \<longleftrightarrow> failed_ok s"
  by (simp_all add: achieves_def)

lemma achieves_bind:
  assumes "achieves m P" "\<And>s. m = Some (True, s) \<Longrightarrow> P s \<Longrightarrow> achieves (k s) Q"
  shows "achieves (m \<bind> (\<lambda>(ok, s). if ok then k s else Some (False, s))) Q"
  using assms by (auto simp: achieves_def split: if_splits)

lemma achieves_weaken: "achieves m P \<Longrightarrow> (\<And>s. m = Some (True, s) \<Longrightarrow> P s \<Longrightarrow> Q s) \<Longrightarrow> achieves m Q"
  by (auto simp: achieves_def split: if_splits)

subsubsection \<open>Consuming\<close>

lemma capture_byte_achieves:
  assumes g: "ground s" and i: "i < length (lg_lexers s)" and b: "b \<noteq> CHR 0x00"
  shows "achieves (Some (capture_byte d b i s)) (\<lambda>s'. ground s' \<and> length (lg_lexers s') = length (lg_lexers s))"
proof (cases "capture_byte d b i s")
  case (Pair ok s')
  show ?thesis
  proof (cases ok)
    case True
    have gr: "grown (lexer_at j s) (lexer_at j s')" if "j < length (lg_lexers s)" for j
      using capture_byte_True(3,4) [of d b i s s'] capture_byte_spelling [of d b i s s'] Pair True i b captured_grown [of d b s i s']
      by (cases "j = i"; cases "captures_byte d i s") (auto simp: captured_def)
    show ?thesis
      using capture_byte_True(1,2,5) [of d b i s s'] Pair True ground_grown [OF g _ gr] by simp
  next
    case False
    have "failed_ok s'"
    proof -
      consider e where "s' = lex_fail d ''token spelling is too large'' e s" | e where "s' = lex_fail d ''token position overflow'' e s"
        | c s1 where "lex_reserve (lx_raw_capacity (lexer_at i s)) (length (lx_raw (lexer_at i s)) + 2) 1 s = (False, c, s1)"
          "s' = lex_fail d ''cannot grow token spelling'' (lg_errno s1) s1"
        using Pair False by (auto simp: capture_byte_def Let_def split: if_splits prod.splits bool.splits)
      then show ?thesis
      proof cases
        case 3
        then have "ground s1"
          using g lex_reserve_keeps [OF 3(1)] by (simp add: ground_def)
        then show ?thesis
          using 3(2) fail_failed by simp
      qed (use g fail_failed in auto)
    qed
    then show ?thesis
      using Pair False by simp
  qed
qed

lemma capture_loop_achieves:
  "ground s \<Longrightarrow> \<forall>i \<in> set is. i < length (lg_lexers s) \<Longrightarrow> b \<noteq> CHR 0x00 \<Longrightarrow>
   achieves (Some (capture_loop d b is s)) (\<lambda>s'. True)"
proof (induction "is" arbitrary: s)
  case (Cons i "is")
  have "achieves (Some (capture_byte d b i s)) (\<lambda>s'. ground s' \<and> length (lg_lexers s') = length (lg_lexers s))"
    using Cons.prems by (intro capture_byte_achieves) auto
  then consider s1 where "capture_byte d b i s = (True, s1)" "ground s1" "length (lg_lexers s1) = length (lg_lexers s)"
    | s1 where "capture_byte d b i s = (False, s1)" "failed_ok s1"
    by (auto simp: achieves_def)
  then show ?case
  proof cases
    case (1 s1)
    then have "achieves (Some (capture_loop d b is s1)) (\<lambda>s'. True)"
      using Cons.prems by (intro Cons.IH) auto
    then show ?thesis
      using 1 by simp
  qed simp
qed simp

lemma consume_byte_achieves:
  assumes g: "ground s" and c: "so_cursor (lg_source s) < length (so_data (lg_source s))"
  shows "achieves (consume_byte d s) (\<lambda>_. True)"
proof -
  obtain b r where d: "drop (so_cursor (lg_source s)) (so_data (lg_source s)) = b # r"
    using c by (metis Cons_nth_drop_Suc)
  have "achieves (Some (capture_loop d b [0..<length (lg_lexers s)] s)) (\<lambda>_. True)" if "b \<noteq> CHR 0x00"
    using that by (intro capture_loop_achieves [OF g]) auto
  then show ?thesis
    using g d fail_failed by (auto simp: consume_byte_def Let_def achieves_def)
qed

lemma consumes_ground: "consumes d n s s' \<Longrightarrow> ground s \<Longrightarrow> ground s'"
  by (rule ground_grown) (simp_all add: consumes_def)

lemma consume_bytes_achieves:
  "ground s \<Longrightarrow> so_cursor (lg_source s) + n \<le> length (so_data (lg_source s)) \<Longrightarrow> so_look (lg_source s) = None \<Longrightarrow>
   achieves (consume_bytes d n s) (\<lambda>_. True)"
proof (induction n arbitrary: s)
  case (Suc n)
  show ?case
    unfolding consume_bytes.simps
  proof (rule achieves_bind [OF consume_byte_achieves])
    show "ground s" "so_cursor (lg_source s) < length (so_data (lg_source s))"
      using Suc.prems by simp_all
    fix s1
    assume "consume_byte d s = Some (True, s1)"
    then have c: "consumes d 1 s s1"
      using consume_byte_consumes Suc.prems(3) by blast
    show "achieves (consume_bytes d n s1) (\<lambda>_. True)"
      using c Suc.prems consumes_ground [OF c] by (intro Suc.IH) (auto simp: consumes_def)
  qed
qed simp

lemma lex_consume_achieves:
  assumes g: "ground s" and c: "so_cursor (lg_source s) + n \<le> length (so_data (lg_source s))"
  shows "achieves (lex_consume d n s) (\<lambda>s'. consumes d n s s' \<and> ground s')"
proof (rule achieves_weaken)
  show "achieves (lex_consume d n s) (\<lambda>_. True)"
    using g c unfolding lex_consume_def by (intro consume_bytes_achieves) (auto simp: ground_def)
  fix s'
  assume "lex_consume d n s = Some (True, s')"
  then have "consumes d n s s'"
    by (rule lex_consume_consumes)
  then show "consumes d n s s' \<and> ground s'"
    using consumes_ground g by simp
qed

subsection \<open>Pieces of a word\<close>

text \<open>The last lexer reads; those before it wait for a command substitution.\<close>

definition work_ok :: "nat \<Rightarrow> lexing \<Rightarrow> bool" where
  "work_ok d s \<longleftrightarrow>
     Suc d = length (lg_lexers s) \<and> source_ok (lg_source s) \<and> ground s \<and>
     (\<forall>i < d. word_ok (lexer_at i s) \<and> lx_command (lexer_at i s)) \<and>
     lx_active (lexer_at d s) \<and> spelt_ok (lexer_at d s) \<and> candidates_ok (lexer_at d s)"

lemma work_ok_ground: "work_ok d s \<Longrightarrow> ground s"
  by (simp add: work_ok_def)

lemma grown_spelt:
  assumes "grown l l'" "spelt_ok l"
  shows "spelt_ok l'"
proof -
  obtain x where x: "lx_raw l' = lx_raw l @ x" "CHR 0x00 \<notin> set x"
    using grown_keeps(11) [OF assms(1)] by blast
  then show ?thesis
    using assms(2) grown_keeps(1,2) [OF assms(1)] tree_ok_grow [of "lx_fragments l" "open_fragments l" "length (lx_raw l)" "length (lx_raw l')"]
    by (auto simp: spelt_ok_def)
qed

lemma grown_opened: "grown l l' \<Longrightarrow> opened_ok l frs \<Longrightarrow> opened_ok l' frs"
  using grown_keeps(2,11) [of l l'] by (fastforce simp: opened_ok_def)

lemma grown_candidates: "grown l l' \<Longrightarrow> candidates_ok l \<Longrightarrow> candidates_ok l'"
  using grown_keeps(1,2,8,11) [of l l'] by (fastforce simp: candidates_ok_def body_ok_def)

lemma grown_word:
  assumes g: "grown l l'" and w: "word_ok l" and a: "lx_active l"
  shows "word_ok l'"
  using w a grown_keeps [OF g] grown_spelt [OF g] grown_opened [OF g] grown_candidates [OF g]
  by (simp add: word_ok_def)

lemma word_ok_command: "word_ok l \<Longrightarrow> lx_command l \<Longrightarrow> lx_active l"
  by (auto simp: word_ok_def split: if_splits)

lemma consumes_work:
  assumes c: "consumes d n s s'" and w: "work_ok d s"
  shows "work_ok d s'"
proof -
  have g: "grown (lexer_at i s) (lexer_at i s')" if "i < length (lg_lexers s)" for i
    using c that by (simp add: consumes_def)
  have "word_ok (lexer_at i s') \<and> lx_command (lexer_at i s')" if "i < d" for i
  proof -
    have "word_ok (lexer_at i s)" "lx_command (lexer_at i s)" "i < length (lg_lexers s)"
      using w that by (auto simp: work_ok_def)
    then show ?thesis
      using grown_word [OF g] grown_keeps(5) [OF g] word_ok_command by simp
  qed
  moreover have "d < length (lg_lexers s)"
    using w by (simp add: work_ok_def)
  ultimately show ?thesis
    using w c grown_keeps(3) [OF g] grown_spelt [OF g] grown_candidates [OF g] consumes_ground [OF c]
    by (auto simp: work_ok_def consumes_def)
qed

text \<open>A change of the last lexer above its newest checkpoint.\<close>

lemma set_last_ground:
  assumes g: "ground s" and d: "Suc d = length (lg_lexers s)" and r: "room_ok (lexer_at d s) \<Longrightarrow> room_ok (f (lexer_at d s))"
    and a: "lx_arithmetic (f (lexer_at d s)) = lx_arithmetic (lexer_at d s)"
    and e: "lx_arithmetic (lexer_at d s) \<noteq> [] \<Longrightarrow> extends_above (lexer_at d s) (f (lexer_at d s))"
  shows "ground (set_lexer d f s)"
proof -
  have "evolves (lg_lexers s) (lg_lexers (set_lexer d f s))"
    using a e by (auto simp: evolves_def set_lexer_def nth_list_update d [symmetric])
  then have "rewinds_ok (lg_lexers (set_lexer d f s))"
    using g rewinds_ok_evolves by (auto simp: ground_def)
  moreover have "\<forall>l \<in> set (lg_lexers (set_lexer d f s)). room_ok l"
    using g r d set_update_subset_insert [of "lg_lexers s" d] by (fastforce simp: ground_def set_lexer_def)
  ultimately show ?thesis
    using g by (simp add: ground_def)
qed

lemma keeps_ground:
  "lg_lexers s' = lg_lexers s \<Longrightarrow> so_failure (lg_source s') = so_failure (lg_source s) \<Longrightarrow> lg_error s' = lg_error s \<Longrightarrow>
   ground s' = ground s"
  by (simp add: ground_def)

lemma candidates_split:
  "candidates frs = (a, b) # r \<Longrightarrow>
   \<exists>pre f post. frs = pre @ f # post \<and> fm_kind f = ARITHMETIC \<and> fm_fragment f = a \<and> length post = b \<and> candidates post = r \<and>
     (\<forall>g \<in> set pre. fm_kind g \<noteq> ARITHMETIC)"
proof (induction frs)
  case (Cons g frs)
  show ?case
  proof (cases "fm_kind g = ARITHMETIC")
    case True
    then show ?thesis
      using Cons.prems by (intro exI [of _ "[]"] exI [of _ g] exI [of _ frs]) auto
  next
    case False
    then obtain pre f post where "frs = pre @ f # post" "fm_kind f = ARITHMETIC" "fm_fragment f = a" "length post = b"
      "candidates post = r" "\<forall>g \<in> set pre. fm_kind g \<noteq> ARITHMETIC"
      using Cons by auto
    then show ?thesis
      using False by (intro exI [of _ "g # pre"] exI [of _ f] exI [of _ post]) auto
  qed
qed simp

text \<open>The newest checkpoint is that of the innermost arithmetic frame.\<close>

lemma newest_frame:
  assumes "candidates_ok l" "lx_arithmetic l = c # cs"
  obtains pre f post where "lx_frames l = pre @ f # post" "fm_kind f = ARITHMETIC" "fm_fragment f = ck_fragment_count c"
    "length post = ck_frame_count c" "candidates post = map (\<lambda>c. (ck_fragment_count c, ck_frame_count c)) cs"
    "\<forall>g \<in> set pre. fm_kind g \<noteq> ARITHMETIC"
proof -
  have "candidates (lx_frames l) = (ck_fragment_count c, ck_frame_count c) # map (\<lambda>c. (ck_fragment_count c, ck_frame_count c)) cs"
    using assms by (auto simp: candidates_ok_def)
  from candidates_split [OF this] show thesis
    using that by blast
qed

lemma newest_below:
  assumes "spelt_ok l" "candidates_ok l" "lx_arithmetic l = c # cs"
  shows "ck_fragment_count c < length (lx_fragments l)" "ck_frame_count c < length (lx_frames l)"
    "\<forall>i \<in> set (open_fragments l). ck_fragment_count c \<le> i \<or> i \<in> fm_fragment ` set (drop (length (lx_frames l) - ck_frame_count c) (lx_frames l))"
    "lx_frames l \<noteq> [] \<Longrightarrow> ck_fragment_count c \<le> fm_fragment (hd (lx_frames l))"
proof -
  obtain pre f post where f: "lx_frames l = pre @ f # post" "fm_fragment f = ck_fragment_count c" "length post = ck_frame_count c"
    by (rule newest_frame [OF assms(2,3)]) blast
  have t: "tree_ok (lx_fragments l) (open_fragments l) (length (lx_raw l))"
    using assms(1) by (simp add: spelt_ok_def)
  show "ck_fragment_count c < length (lx_fragments l)"
    using tree_ok_open(1) [OF t, of "fm_fragment f"] f by simp
  show "ck_frame_count c < length (lx_frames l)"
    using f by simp
  have "sorted_wrt (>) (open_fragments l)"
    using t by (simp add: tree_ok_def)
  then have pre: "\<forall>g \<in> set pre. ck_fragment_count c < fm_fragment g"
    using f by (auto simp: sorted_wrt_append)
  then show "\<forall>i \<in> set (open_fragments l). ck_fragment_count c \<le> i \<or> i \<in> fm_fragment ` set (drop (length (lx_frames l) - ck_frame_count c) (lx_frames l))"
    using f by (auto simp: less_imp_le)
  show "ck_fragment_count c \<le> fm_fragment (hd (lx_frames l))"
    using f pre by (cases pre) (auto simp: less_imp_le)
qed

text \<open>A completed piece at the end of the word.\<close>

definition piece_sized :: "csh_fragment_kind \<Rightarrow> nat \<Rightarrow> bool" where
  "piece_sized k n \<longleftrightarrow>
     (case k of CSH_FRAGMENT_TEXT \<Rightarrow> 1 \<le> n | CSH_FRAGMENT_ESCAPE \<Rightarrow> 2 \<le> n | CSH_FRAGMENT_CONTINUATION \<Rightarrow> 2 \<le> n | _ \<Rightarrow> False)"

lemma piece_sized_fragment: "piece_sized (fr_kind f) (fr_end f - fr_begin f) \<Longrightarrow> fragment_sized f"
  by (auto simp: piece_sized_def fragment_sized_def split: csh_fragment_kind.splits)

lemma parent_open: "parent_fragment l = (case open_fragments l of [] \<Rightarrow> CSH_FRAGMENT_ROOT | j # _ \<Rightarrow> j)"
  by (simp add: parent_fragment_def split: list.split)

lemma new_piece_ok:
  assumes s: "spelt_ok l" and m: "length (lx_fragments l) < SIZE_MAX"
    and l': "lx_raw l' = lx_raw l @ x" "lx_fragments l' = lx_fragments l @ [f]" "lx_frames l' = lx_frames l"
    and x: "CHR 0x00 \<notin> set x" "piece_sized (fr_kind f) (length x)"
    and f: "fr_parent f = parent_fragment l" "fr_begin f = length (lx_raw l)" "fr_end f = length (lx_raw l) + length x"
  shows "spelt_ok l'" "candidates_ok l \<Longrightarrow> lx_arithmetic l' = lx_arithmetic l \<Longrightarrow> candidates_ok l'"
proof -
  let ?fs = "lx_fragments l" and ?os = "open_fragments l" and ?n = "length (lx_raw l)"
  have t: "tree_ok ?fs ?os ?n"
    using s by (simp add: spelt_ok_def)
  have less: "i < length ?fs" if "i \<in> set ?os" for i
    using tree_ok_open(1) [OF t that] .
  have "tree_ok (?fs @ [f]) (length ?fs # ?os) ?n"
    using f m by (intro tree_ok_add [OF t]) (simp_all add: parent_open)
  then have "tree_ok (?fs @ [f]) (length ?fs # ?os) (?n + length x)"
    by (rule tree_ok_grow) simp
  from tree_ok_close [OF this, of f] have "tree_ok (?fs @ [f]) ?os (?n + length x)"
    using f by (simp add: nth_append)
  moreover have "fragment_sized f"
    using x(2) f by (intro piece_sized_fragment) simp
  ultimately show "spelt_ok l'"
    using s l' x(1) less by (auto simp: spelt_ok_def nth_append less_Suc_eq)
  show "candidates_ok l'" if c: "candidates_ok l" "lx_arithmetic l' = lx_arithmetic l"
  proof -
    have "body_ok l' c" if "body_ok l c" for c
      using that l' f by (auto simp: body_ok_def nth_append less_Suc_eq)
    then show ?thesis
      using c l'(3) by (auto simp: candidates_ok_def)
  qed
qed

lemma longer_text_ok:
  assumes s: "spelt_ok l" and t: "extends_text l CSH_FRAGMENT_TEXT quote"
    and l': "lx_raw l' = lx_raw l @ x" "lx_frames l' = lx_frames l"
      "lx_fragments l' = (lx_fragments l)[length (lx_fragments l) - 1 := f]"
    and x: "CHR 0x00 \<notin> set x"
    and f: "fr_parent f = fr_parent (last (lx_fragments l))" "fr_begin f = fr_begin (last (lx_fragments l))"
      "fr_kind f = CSH_FRAGMENT_TEXT" "fr_end f = length (lx_raw l) + length x"
  shows "spelt_ok l'" "candidates_ok l \<Longrightarrow> lx_arithmetic l' = lx_arithmetic l \<Longrightarrow> candidates_ok l'"
proof -
  let ?fs = "lx_fragments l" and ?os = "open_fragments l" and ?n = "length (lx_raw l)" and ?i = "length (lx_fragments l) - 1"
  have e: "?fs \<noteq> []" "fr_kind (last ?fs) = CSH_FRAGMENT_TEXT" "fr_parent (last ?fs) = parent_fragment l" "fr_end (last ?fs) = ?n"
    using t by (auto simp: extends_text_def Let_def)
  have i: "?i < length ?fs" "last ?fs = ?fs ! ?i"
    using e(1) by (simp_all add: last_conv_nth)
  have tr: "tree_ok ?fs ?os ?n"
    using s by (simp add: spelt_ok_def)
  have re: "tree_ok ?fs (?i # ?os) ?n"
    using e by (intro tree_ok_reopen [OF tr]) (simp_all add: parent_open)
  then have out: "?i \<notin> set ?os"
    by (auto simp: tree_ok_def)
  have "tree_ok (?fs[?i := f]) ?os (?n + length x)"
    using f i by (intro tree_ok_close tree_ok_grow [OF re]) simp_all
  moreover have "fragment_sized (?fs ! ?i)"
    using s i out by (simp add: spelt_ok_def)
  then have "fragment_sized f"
    using f i e by (auto simp: fragment_sized_def)
  then have "fragment_sized (lx_fragments l' ! j)" if "j < length ?fs" "j \<notin> set ?os" for j
    using s that l'(3) by (cases "j = ?i") (auto simp: spelt_ok_def)
  moreover have "lx_fragments l' ! fm_fragment g = ?fs ! fm_fragment g" if "g \<in> set (lx_frames l)" for g
    using out image_eqI [OF _ that, of _ fm_fragment] l'(3) by (metis list.set_map nth_list_update_neq)
  ultimately show "spelt_ok l'"
    using s l' x unfolding spelt_ok_def l'(2) by (simp add: l'(1,3))
  show "candidates_ok l'" if c: "candidates_ok l" "lx_arithmetic l' = lx_arithmetic l"
  proof -
    have first: "ck_body_begin c \<le> fr_begin (?fs ! ?i)" if "body_ok l c" "fr_parent (?fs ! ?i) = ck_fragment_count c" for c
      using that e i by (auto simp: body_ok_def dest!: spec [of _ ?i])
    have "body_ok l' c" if "body_ok l c" for c
      using that l' f i e first [OF that] by (auto simp: body_ok_def nth_list_update)
    then show ?thesis
      using c l'(2) by (auto simp: candidates_ok_def)
  qed
qed

subsubsection \<open>The operations\<close>

definition new_fragment :: "csh_fragment_kind \<Rightarrow> csh_quote \<Rightarrow> csh_lexer \<Rightarrow> csh_fragment" where
  "new_fragment kind quote l =
     \<lparr>fr_kind = kind, fr_quote = quote, fr_parent = parent_fragment l, fr_begin = length (lx_raw l),
      fr_end = length (lx_raw l), fr_start = lx_spelling_position l, fr_finish = lx_spelling_position l\<rparr>"

lemma new_fragment_simps [simp]:
  "fr_kind (new_fragment k q l) = k" "fr_parent (new_fragment k q l) = parent_fragment l"
  "fr_begin (new_fragment k q l) = length (lx_raw l)" "fr_end (new_fragment k q l) = length (lx_raw l)"
  by (simp_all add: new_fragment_def)

lemma add_fragment_cases:
  assumes g: "ground s"
  obtains (failed) s' where "add_fragment d kind quote s = (None, s')" "failed_ok s'"
  | (added) c s1 where "lg_source s1 = lg_source s" "lg_lexers s1 = lg_lexers s" "lg_error s1 = lg_error s" "length (lx_fragments (lexer_at d s)) \<noteq> SIZE_MAX"
      "add_fragment d kind quote s = (Some (length (lx_fragments (lexer_at d s))),
         set_lexer d (\<lambda>l. l\<lparr>lx_fragment_capacity := c, lx_fragments := lx_fragments l @ [new_fragment kind quote l]\<rparr>) s1)"
proof (cases "length (lx_fragments (lexer_at d s)) = SIZE_MAX")
  case True
  then show thesis
    using g by (intro failed) (auto simp: add_fragment_def Let_def intro: fail_failed)
next
  case False
  obtain b c s1 where r: "lex_reserve (lx_fragment_capacity (lexer_at d s)) (length (lx_fragments (lexer_at d s)) + 1) 80 s = (b, c, s1)"
    by (rule prod_cases3)
  note k = lex_reserve_keeps [OF r]
  show thesis
  proof (cases b)
    case True
    then show thesis
      using False r k by (intro added [of s1 c]) (auto simp: add_fragment_def Let_def new_fragment_def)
  next
    case no: False
    have "ground s1"
      using g k by (simp add: ground_def)
    then show thesis
      using False no r by (intro failed [of "lex_fail d ''cannot grow word fragments'' (lg_errno s1) s1"])
        (auto simp: add_fragment_def Let_def intro: fail_failed)
  qed
qed

lemma finish_fragment_eq:
  "i < length (lx_fragments (lexer_at d s)) \<Longrightarrow>
   finish_fragment d i s = Some (True, set_lexer d (\<lambda>l. l\<lparr>lx_fragments := (lx_fragments l)[i := (lx_fragments l ! i)
          \<lparr>fr_end := length (lx_raw l), fr_finish := lx_spelling_position l\<rparr>]\<rparr>) s)"
  by (simp add: finish_fragment_def)

lemma above_fragments:
  assumes "lx_arithmetic l \<noteq> []" "ck_fragment_count (hd (lx_arithmetic l)) \<le> length fs"
    "take (ck_fragment_count (hd (lx_arithmetic l))) fs = take (ck_fragment_count (hd (lx_arithmetic l))) (lx_fragments l)"
    "ck_frame_count (hd (lx_arithmetic l)) \<le> length (lx_frames l)"
  shows "extends_above l (l\<lparr>lx_fragment_capacity := c, lx_fragments := fs\<rparr>)"
    "extends_above l (l\<lparr>lx_fragments := fs\<rparr>)"
  using assms by (cases l; auto simp: extends_above_def shell_def husk_def core_def Let_def)+

lemma work_counts:
  assumes "work_ok d s" "lx_arithmetic (lexer_at d s) \<noteq> []"
  shows "ck_fragment_count (hd (lx_arithmetic (lexer_at d s))) < length (lx_fragments (lexer_at d s))"
    "ck_frame_count (hd (lx_arithmetic (lexer_at d s))) < length (lx_frames (lexer_at d s))"
  using newest_below(1,2) [of "lexer_at d s"] assms by (cases "lx_arithmetic (lexer_at d s)"; auto simp: work_ok_def)+

lemma work_ok_update:
  assumes w: "work_ok d s" and l: "length (lg_lexers s') = length (lg_lexers s)" and o: "\<And>i. i < d \<Longrightarrow> lexer_at i s' = lexer_at i s"
    and so: "source_ok (lg_source s')" and g: "ground s'"
    and d: "lx_active (lexer_at d s')" "spelt_ok (lexer_at d s')" "candidates_ok (lexer_at d s')"
  shows "work_ok d s'"
  using assms by (simp add: work_ok_def)

end
