(* ===== verification/Lexer_Words.thy ===== *)
theory Lexer_Words
  imports Lexer_Invariant
begin

text \<open>
  The operations on a pending word keep the invariant and stay in bounds: pieces, delimiters, opening and closing a
  context.
\<close>

definition begins_kept :: "csh_lexer \<Rightarrow> csh_lexer \<Rightarrow> bool" where
  "begins_kept l l' \<longleftrightarrow>
     length (lx_fragments l) \<le> length (lx_fragments l') \<and>
     (\<forall>i < length (lx_fragments l). fr_begin (lx_fragments l' ! i) = fr_begin (lx_fragments l ! i))"

lemma begins_kept_trans: "begins_kept l l1 \<Longrightarrow> begins_kept l1 l2 \<Longrightarrow> begins_kept l l2"
  by (auto simp: begins_kept_def)

text \<open>Consuming the bytes of a piece and finishing its fragment.\<close>

lemma consume_finish_achieves:
  assumes w: "work_ok d s" and s1: "lg_source s1 = lg_source s" "length (lg_lexers s1) = length (lg_lexers s)"
      "\<And>i. i < d \<Longrightarrow> lexer_at i s1 = lexer_at i s" "ground s1"
    and l1: "lexer_at d s1 = (lexer_at d s)\<lparr>lx_fragment_capacity := c, lx_fragments := fs\<rparr>" and i: "i < length fs"
    and n: "so_cursor (lg_source s) + n \<le> length (so_data (lg_source s))"
    and a: "lx_arithmetic (lexer_at d s) \<noteq> [] \<Longrightarrow> ck_fragment_count (hd (lx_arithmetic (lexer_at d s))) \<le> i"
    and ok: "\<And>x l' q. length x = n \<Longrightarrow> CHR 0x00 \<notin> set x \<Longrightarrow> lx_raw l' = lx_raw (lexer_at d s) @ x \<Longrightarrow>
      lx_frames l' = lx_frames (lexer_at d s) \<Longrightarrow> lx_arithmetic l' = lx_arithmetic (lexer_at d s) \<Longrightarrow>
      lx_fragments l' = fs[i := (fs ! i)\<lparr>fr_end := length (lx_raw (lexer_at d s)) + n, fr_finish := q\<rparr>] \<Longrightarrow>
      spelt_ok l' \<and> candidates_ok l'"
  shows "achieves (do {(ok, s) \<leftarrow> lex_consume d n s1; if ok then finish_fragment d i s else Some (False, s)})
    (\<lambda>s'. work_ok d s' \<and> (\<exists>q. lx_fragments (lexer_at d s') =
       fs[i := (fs ! i)\<lparr>fr_end := length (lx_raw (lexer_at d s)) + n, fr_finish := q\<rparr>]))"
proof (rule achieves_bind [OF lex_consume_achieves])
  show "ground s1" "so_cursor (lg_source s1) + n \<le> length (so_data (lg_source s1))"
    using s1 n by simp_all
  fix s2
  assume "consumes d n s1 s2 \<and> ground s2"
  then have c: "consumes d n s1 s2" and g2: "ground s2" by auto
  have d: "d < length (lg_lexers s)" "Suc d = length (lg_lexers s2)" "lx_active (lexer_at d s)"
    using w c s1 by (auto simp: work_ok_def consumes_def)
  let ?x = "take n (drop (so_cursor (lg_source s)) (so_data (lg_source s)))"
  have gr: "grown (lexer_at j s1) (lexer_at j s2)" if "j \<le> d" for j
    using c d s1(2) that by (auto simp: consumes_def)
  note k = grown_keeps [OF gr [OF le_refl]]
  have raw: "lx_raw (lexer_at d s2) = lx_raw (lexer_at d s) @ ?x"
    using c d s1 l1 by (simp add: consumes_def)
  have len: "length ?x = n"
    using n by simp
  have nul: "CHR 0x00 \<notin> set ?x"
    using k(11) raw l1 by auto
  have fr: "lx_fragments (lexer_at d s2) = fs" "lx_frames (lexer_at d s2) = lx_frames (lexer_at d s)"
    "lx_arithmetic (lexer_at d s2) = lx_arithmetic (lexer_at d s)" "lx_active (lexer_at d s2)"
    using k l1 d by simp_all
  let ?f = "\<lambda>l. l\<lparr>lx_fragments := (lx_fragments l)[i := (lx_fragments l ! i)\<lparr>fr_end := length (lx_raw l), fr_finish := lx_spelling_position l\<rparr>]\<rparr>"
  let ?s = "set_lexer d ?f s2"
  have e: "finish_fragment d i s2 = Some (True, ?s)"
    using i fr by (intro finish_fragment_eq) simp
  have at: "lexer_at d ?s = ?f (lexer_at d s2)"
    using d by simp
  have ok': "spelt_ok (lexer_at d ?s) \<and> candidates_ok (lexer_at d ?s)"
    unfolding at by (rule ok [OF len nul]) (use raw fr len in simp_all)
  have "ground ?s"
  proof (rule set_last_ground [OF g2 d(2)])
    assume "lx_arithmetic (lexer_at d s2) \<noteq> []"
    then show "extends_above (lexer_at d s2) (?f (lexer_at d s2))"
      using a fr i work_counts [OF w] by (intro above_fragments) (auto simp: less_imp_le)
  qed (simp_all add: room_ok_def)
  moreover have "word_ok (lexer_at j ?s) \<and> lx_command (lexer_at j ?s)" if "j < d" for j
  proof -
    have o: "word_ok (lexer_at j s1)" "lx_command (lexer_at j s1)"
      using w that s1(3) by (auto simp: work_ok_def)
    then show ?thesis
      using grown_word [OF gr o(1)] grown_keeps(5) [OF gr] word_ok_command that by simp
  qed
  moreover have "source_ok (lg_source ?s)"
    using c w s1(1) by (simp add: consumes_def work_ok_def)
  ultimately have "work_ok d ?s"
    using ok' d fr(4) by (simp add: work_ok_def)
  then show "achieves (finish_fragment d i s2) (\<lambda>s'. work_ok d s' \<and> (\<exists>q. lx_fragments (lexer_at d s') =
       fs[i := (fs ! i)\<lparr>fr_end := length (lx_raw (lexer_at d s)) + n, fr_finish := q\<rparr>]))"
    using e d fr(1) raw len by auto
qed

lemma lex_piece_achieves:
  assumes w: "work_ok d s" and z: "piece_sized kind n" and n: "so_cursor (lg_source s) + n \<le> length (so_data (lg_source s))"
  shows "achieves (lex_piece d kind quote n s) (\<lambda>s'. work_ok d s' \<and> begins_kept (lexer_at d s) (lexer_at d s') \<and>
    (kind \<noteq> CSH_FRAGMENT_TEXT \<longrightarrow> (\<exists>g. lx_fragments (lexer_at d s') = lx_fragments (lexer_at d s) @ [g] \<and> fr_kind g = kind \<and>
       fr_end g = length (lx_raw (lexer_at d s)) + n)))"
proof (cases "extends_text (lexer_at d s) kind quote")
  case True
  let ?l = "lexer_at d s"
  let ?i = "length (lx_fragments ?l) - 1"
  have k: "kind = CSH_FRAGMENT_TEXT" "lx_fragments ?l \<noteq> []" "fr_kind (last (lx_fragments ?l)) = CSH_FRAGMENT_TEXT"
    using True by (auto simp: extends_text_def Let_def)
  have last: "last (lx_fragments ?l) = lx_fragments ?l ! ?i"
    using k(2) by (simp add: last_conv_nth)
  have wl: "spelt_ok ?l" "candidates_ok ?l"
    using w by (simp_all add: work_ok_def)
  have "achieves (do {(ok, s) \<leftarrow> lex_consume d n s; if ok then finish_fragment d ?i s else Some (False, s)})
    (\<lambda>s'. work_ok d s' \<and> (\<exists>q. lx_fragments (lexer_at d s') =
       (lx_fragments ?l)[?i := (lx_fragments ?l ! ?i)\<lparr>fr_end := length (lx_raw ?l) + n, fr_finish := q\<rparr>]))"
  proof (rule consume_finish_achieves [OF w refl refl refl])
    show "?l = ?l\<lparr>lx_fragment_capacity := lx_fragment_capacity ?l, lx_fragments := lx_fragments ?l\<rparr>" by simp
    show "lx_arithmetic ?l \<noteq> [] \<Longrightarrow> ck_fragment_count (hd (lx_arithmetic ?l)) \<le> ?i"
      using work_counts(1) [OF w] by force
    fix x q and l' :: csh_lexer
    assume x: "length x = n" "CHR 0x00 \<notin> set x" "lx_raw l' = lx_raw ?l @ x" "lx_frames l' = lx_frames ?l"
      "lx_arithmetic l' = lx_arithmetic ?l"
      "lx_fragments l' = (lx_fragments ?l)[?i := (lx_fragments ?l ! ?i)\<lparr>fr_end := length (lx_raw ?l) + n, fr_finish := q\<rparr>]"
    show "spelt_ok l' \<and> candidates_ok l'"
      using longer_text_ok [OF wl(1) _ x(3,4,6,2)] True wl(2) x(1,5) k last by simp
  qed (use w n k in \<open>simp_all add: work_ok_def\<close>)
  moreover have "lex_piece d kind quote n s =
      do {(ok, s) \<leftarrow> lex_consume d n s; if ok then finish_fragment d ?i s else Some (False, s)}"
    by (simp only: lex_piece_def if_P [OF True] prod.case option.case)
  ultimately have "achieves (lex_piece d kind quote n s) (\<lambda>s'. work_ok d s' \<and> (\<exists>q. lx_fragments (lexer_at d s') =
       (lx_fragments ?l)[?i := (lx_fragments ?l ! ?i)\<lparr>fr_end := length (lx_raw ?l) + n, fr_finish := q\<rparr>]))"
    by (simp only:)
  then show ?thesis
    by (rule achieves_weaken) (auto simp: k(1) begins_kept_def nth_list_update)
next
  case False
  let ?l = "lexer_at d s"
  have g: "ground s"
    using w by (simp add: work_ok_def)
  have d: "d < length (lg_lexers s)" "Suc d = length (lg_lexers s)"
    using w by (auto simp: work_ok_def)
  have wl: "spelt_ok ?l" "candidates_ok ?l"
    using w by (simp_all add: work_ok_def)
  show ?thesis
  proof (rule add_fragment_cases [OF g, of d kind quote])
    fix s'
    assume "add_fragment d kind quote s = (None, s')" "failed_ok s'"
    then show ?thesis
      using False by (simp add: lex_piece_def)
  next
    fix c s1
    let ?f = "\<lambda>l. l\<lparr>lx_fragment_capacity := c, lx_fragments := lx_fragments l @ [new_fragment kind quote l]\<rparr>"
    assume s1: "lg_source s1 = lg_source s" "lg_lexers s1 = lg_lexers s" "lg_error s1 = lg_error s" "length (lx_fragments ?l) \<noteq> SIZE_MAX"
      and e: "add_fragment d kind quote s = (Some (length (lx_fragments ?l)), set_lexer d ?f s1)"
    let ?s = "set_lexer d ?f s1" and ?fs = "lx_fragments ?l @ [new_fragment kind quote ?l]" and ?i = "length (lx_fragments ?l)"
    have g1: "ground s1"
      using g s1 by (simp add: ground_def)
    have at: "lexer_at d ?s = ?l\<lparr>lx_fragment_capacity := c, lx_fragments := ?fs\<rparr>"
      using d s1 by simp
    have less: "?i < SIZE_MAX"
      using wl(1) s1(4) by (simp add: spelt_ok_def tree_ok_def)
    have gs: "ground ?s"
    proof (rule set_last_ground [OF g1])
      assume "lx_arithmetic (lexer_at d s1) \<noteq> []"
      then show "extends_above (lexer_at d s1) (?f (lexer_at d s1))"
        using s1 work_counts [OF w] above_fragments(1) [of ?l ?fs c] by (simp add: less_imp_le)
    qed (use d s1 in \<open>simp_all add: room_ok_def\<close>)
    have "achieves (do {(ok, s) \<leftarrow> lex_consume d n ?s; if ok then finish_fragment d ?i s else Some (False, s)})
      (\<lambda>s'. work_ok d s' \<and> (\<exists>q. lx_fragments (lexer_at d s') =
         ?fs[?i := (?fs ! ?i)\<lparr>fr_end := length (lx_raw ?l) + n, fr_finish := q\<rparr>]))"
    proof (rule consume_finish_achieves [OF w _ _ _ gs at _ n])
      fix x q and l' :: csh_lexer
      assume x: "length x = n" "CHR 0x00 \<notin> set x" "lx_raw l' = lx_raw ?l @ x" "lx_frames l' = lx_frames ?l"
        "lx_arithmetic l' = lx_arithmetic ?l" "lx_fragments l' = ?fs[?i := (?fs ! ?i)\<lparr>fr_end := length (lx_raw ?l) + n, fr_finish := q\<rparr>]"
      show "spelt_ok l' \<and> candidates_ok l'"
        using new_piece_ok [OF wl(1) less x(3), of "(new_fragment kind quote ?l)\<lparr>fr_end := length (lx_raw ?l) + n, fr_finish := q\<rparr>"] x z wl(2)
        by (simp add: list_update_append)
    qed (use s1 d work_counts [OF w] in \<open>auto simp: less_imp_le\<close>)
    then have "achieves (lex_piece d kind quote n s) (\<lambda>s'. work_ok d s' \<and> (\<exists>q. lx_fragments (lexer_at d s') =
         ?fs[?i := (?fs ! ?i)\<lparr>fr_end := length (lx_raw ?l) + n, fr_finish := q\<rparr>]))"
      using False e by (simp add: lex_piece_def)
    then show ?thesis
      by (rule achieves_weaken) (auto simp: list_update_append begins_kept_def nth_append)
  qed
qed

definition continued :: "csh_lexer \<Rightarrow> csh_lexer \<Rightarrow> bool" where
  "continued l l' \<longleftrightarrow>
     (\<exists>gs. lx_fragments l' = lx_fragments l @ gs \<and>
       (\<forall>g \<in> set gs. fr_kind g = CSH_FRAGMENT_CONTINUATION \<and> fr_end g \<le> length (lx_raw l')))"

lemma continued_trans:
  assumes "continued l l1" "continued l1 l2" "length (lx_raw l1) \<le> length (lx_raw l2)"
  shows "continued l l2"
proof -
  obtain gs hs where "lx_fragments l1 = lx_fragments l @ gs" "lx_fragments l2 = lx_fragments l1 @ hs"
    "\<forall>g \<in> set gs. fr_kind g = CSH_FRAGMENT_CONTINUATION \<and> fr_end g \<le> length (lx_raw l1)"
    "\<forall>g \<in> set hs. fr_kind g = CSH_FRAGMENT_CONTINUATION \<and> fr_end g \<le> length (lx_raw l2)"
    using assms(1,2) by (auto simp: continued_def)
  then show ?thesis
    using assms(3) unfolding continued_def by (intro exI [of _ "gs @ hs"]) (auto intro: le_trans)
qed

lemma works_raw_length:
  "works d n s s' \<Longrightarrow> d < length (lg_lexers s) \<Longrightarrow> length (lx_raw (lexer_at d s)) \<le> length (lx_raw (lexer_at d s'))"
  using strip_keeps(10) [of "lexer_at d s" "lexer_at d s'"] by (auto simp: works_def)

lemma lex_delimiter_achieves:
  "work_ok d s \<Longrightarrow> so_cursor (lg_source s) + n \<le> length (so_data (lg_source s)) \<Longrightarrow>
   achieves (lex_delimiter d n quote s) (\<lambda>s'. work_ok d s' \<and> works d n s s' \<and> continued (lexer_at d s) (lexer_at d s'))"
proof (induction d n quote s rule: lex_delimiter.induct)
  case (1 d n quote s)
  note w = 1(3) and n = 1(4)
  have d: "d < length (lg_lexers s)"
    using w by (simp add: work_ok_def)
  let ?Q = "\<lambda>s'. work_ok d s' \<and> works d n s s' \<and> continued (lexer_at d s) (lexer_at d s')"
  show ?case
  proof (cases "n = 0")
    case True
    then show ?thesis
      using w by (subst lex_delimiter.simps) (simp add: works_refl continued_def)
  next
    case pos: False
    let ?join = "2 \<le> n \<and> take 2 (drop (so_cursor (lg_source s)) (so_data (lg_source s))) = [CHR 0x5C, CHR 0x0A]"
    have rest: "achieves m ?Q" if s1: "work_ok d s1" "works d k s s1" "continued (lexer_at d s) (lexer_at d s1)" and k: "k \<le> n"
      and m: "achieves m (\<lambda>s'. work_ok d s' \<and> works d (n - k) s1 s' \<and> continued (lexer_at d s1) (lexer_at d s'))" for m s1 k
    proof (rule achieves_weaken [OF m])
      fix s'
      assume s': "work_ok d s' \<and> works d (n - k) s1 s' \<and> continued (lexer_at d s1) (lexer_at d s')"
      have "works d (k + (n - k)) s s'"
        using works_trans s1(2) s' by blast
      moreover have "length (lx_raw (lexer_at d s1)) \<le> length (lx_raw (lexer_at d s'))"
        by (rule works_raw_length) (use s' s1(1) in \<open>auto simp: work_ok_def\<close>)
      ultimately show "?Q s'"
        using s' k continued_trans [OF s1(3)] by simp
    qed
    show ?thesis
    proof (cases ?join)
      case True
      have "achieves (lex_piece d CSH_FRAGMENT_CONTINUATION quote 2 s) (\<lambda>s1. work_ok d s1 \<and> works d 2 s s1 \<and> continued (lexer_at d s) (lexer_at d s1))"
      proof (rule achieves_weaken [OF lex_piece_achieves [OF w]])
        fix s1
        assume p: "lex_piece d CSH_FRAGMENT_CONTINUATION quote 2 s = Some (True, s1)"
          and "work_ok d s1 \<and> begins_kept (lexer_at d s) (lexer_at d s1) \<and> (CSH_FRAGMENT_CONTINUATION \<noteq> CSH_FRAGMENT_TEXT \<longrightarrow>
            (\<exists>g. lx_fragments (lexer_at d s1) = lx_fragments (lexer_at d s) @ [g] \<and> fr_kind g = CSH_FRAGMENT_CONTINUATION \<and>
               fr_end g = length (lx_raw (lexer_at d s)) + 2))"
        then obtain g where g: "work_ok d s1" "lx_fragments (lexer_at d s1) = lx_fragments (lexer_at d s) @ [g]"
          "fr_kind g = CSH_FRAGMENT_CONTINUATION" "fr_end g = length (lx_raw (lexer_at d s)) + 2"
          by auto
        have wk: "works d 2 s s1"
          by (rule lex_piece_works [OF p])
        then have "length (lx_raw (lexer_at d s1)) = length (lx_raw (lexer_at d s)) + 2"
          using w d n True by (auto simp: works_def work_ok_def)
        then show "work_ok d s1 \<and> works d 2 s s1 \<and> continued (lexer_at d s) (lexer_at d s1)"
          using g wk unfolding continued_def by (intro conjI exI [of _ "[g]"]) auto
      qed (use n True in \<open>auto simp: piece_sized_def\<close>)
      then show ?thesis
        unfolding lex_delimiter.simps [of d n quote s] if_not_P [OF pos] if_P [OF True]
      proof (rule achieves_bind)
        fix s1
        assume p: "lex_piece d CSH_FRAGMENT_CONTINUATION quote 2 s = Some (True, s1)"
          and s1: "work_ok d s1 \<and> works d 2 s s1 \<and> continued (lexer_at d s) (lexer_at d s1)"
        show "achieves (lex_delimiter d (n - 2) quote s1) ?Q"
          using s1 True n by (intro rest [of s1 2] 1(1) [OF pos True p refl TrueI]) (auto simp: works_def)
      qed
    next
      case False
      have "achieves (lex_consume d 1 s) (\<lambda>s1. work_ok d s1 \<and> works d 1 s s1 \<and> continued (lexer_at d s) (lexer_at d s1))"
      proof (rule achieves_weaken [OF lex_consume_achieves])
        fix s1
        assume "consumes d 1 s s1 \<and> ground s1"
        then have c: "consumes d 1 s s1" by simp
        have "lx_fragments (lexer_at d s1) = lx_fragments (lexer_at d s)"
          using c d grown_keeps(2) [of "lexer_at d s" "lexer_at d s1"] by (simp add: consumes_def)
        then show "work_ok d s1 \<and> works d 1 s s1 \<and> continued (lexer_at d s) (lexer_at d s1)"
          using consumes_work [OF c w] consumes_works [OF c] by (simp add: continued_def)
      qed (use w n pos in \<open>auto simp: work_ok_def\<close>)
      then show ?thesis
        unfolding lex_delimiter.simps [of d n quote s] if_not_P [OF pos] if_not_P [OF False]
      proof (rule achieves_bind)
        fix s1
        assume p: "lex_consume d 1 s = Some (True, s1)"
          and s1: "work_ok d s1 \<and> works d 1 s s1 \<and> continued (lexer_at d s) (lexer_at d s1)"
        show "achieves (lex_delimiter d (n - 1) quote s1) ?Q"
          using s1 pos n by (intro rest [of s1 1] 1(2) [OF pos False p refl TrueI]) (auto simp: works_def)
      qed
    qed
  qed
qed

lemma set_lexer_twice: "set_lexer d g (set_lexer d f s) = set_lexer d (\<lambda>l. g (f l)) s"
  by (cases "d < length (lg_lexers s)") (simp_all add: set_lexer_def list_update_beyond)

text \<open>A pending word whose frames and checkpoints need not agree yet.\<close>

definition reading :: "nat \<Rightarrow> lexing \<Rightarrow> bool" where
  "reading d s \<longleftrightarrow>
     Suc d = length (lg_lexers s) \<and> source_ok (lg_source s) \<and> ground s \<and>
     (\<forall>i < d. word_ok (lexer_at i s) \<and> lx_command (lexer_at i s)) \<and>
     lx_active (lexer_at d s) \<and> spelt_ok (lexer_at d s) \<and> (\<forall>c \<in> set (lx_arithmetic (lexer_at d s)). body_ok (lexer_at d s) c)"

abbreviation counts :: "arithmetic_checkpoint list \<Rightarrow> (nat \<times> nat) list" where
  "counts cs \<equiv> map (\<lambda>c. (ck_fragment_count c, ck_frame_count c)) cs"

lemma work_reading: "work_ok d s \<longleftrightarrow> reading d s \<and> counts (lx_arithmetic (lexer_at d s)) = candidates (lx_frames (lexer_at d s))"
  by (auto simp: work_ok_def reading_def candidates_ok_def)

text \<open>The flags of a pending word do not change while it is read.\<close>

definition same_flags :: "csh_lexer \<Rightarrow> csh_lexer \<Rightarrow> bool" where
  "same_flags l l' \<longleftrightarrow>
     lx_active l' = lx_active l \<and> lx_comment l' = lx_comment l \<and> lx_kind l' = lx_kind l \<and> lx_command l' = lx_command l \<and>
     lx_document l' = lx_document l \<and> lx_arithmetic l' = lx_arithmetic l"

lemma works_flags: "works d n s s' \<Longrightarrow> d < length (lg_lexers s) \<Longrightarrow> same_flags (lexer_at d s) (lexer_at d s')"
  by (simp add: works_def same_flags_def strip_keeps)

lemma works_frames: "works d n s s' \<Longrightarrow> d < length (lg_lexers s) \<Longrightarrow> lx_frames (lexer_at d s') = lx_frames (lexer_at d s)"
  by (simp add: works_def strip_keeps)

lemma works_raw:
  "works d n s s' \<Longrightarrow> d < length (lg_lexers s) \<Longrightarrow> lx_active (lexer_at d s) \<Longrightarrow> so_cursor (lg_source s) + n \<le> length (so_data (lg_source s)) \<Longrightarrow>
   length (lx_raw (lexer_at d s')) = length (lx_raw (lexer_at d s)) + n"
  by (simp add: works_def)

lemma reading_update:
  assumes r: "reading d s" and at: "lexer_at d s' = f (lexer_at d s)" and s': "lg_source s' = lg_source s" "lg_lexers s' = lg_lexers (set_lexer d f s)"
    and g: "ground s'" and l: "lx_active (f (lexer_at d s))" "spelt_ok (f (lexer_at d s))"
      "\<forall>c \<in> set (lx_arithmetic (f (lexer_at d s))). body_ok (f (lexer_at d s)) c"
  shows "reading d s'"
  using r at s' g l by (auto simp: reading_def set_lexer_def)

subsubsection \<open>Opening a context\<close>

definition push_ready :: "nat \<Rightarrow> frame_kind \<Rightarrow> lexing \<Rightarrow> bool" where
  "push_ready d k s \<longleftrightarrow>
     reading d s \<and>
     (let l = lexer_at d s in
      counts (lx_arithmetic l) =
        (if k = ARITHMETIC then [(length (lx_fragments l), length (lx_frames l))] else []) @ candidates (lx_frames l))"

lemma push_ready_work: "work_ok d s \<Longrightarrow> k \<noteq> ARITHMETIC \<Longrightarrow> push_ready d k s"
  by (simp add: push_ready_def work_reading)

lemma push_ready_counts:
  assumes "push_ready d k s" "lx_arithmetic (lexer_at d s) \<noteq> []"
  shows "ck_fragment_count (hd (lx_arithmetic (lexer_at d s))) \<le> length (lx_fragments (lexer_at d s))"
    "ck_frame_count (hd (lx_arithmetic (lexer_at d s))) \<le> length (lx_frames (lexer_at d s))"
proof -
  obtain c cs where c: "lx_arithmetic (lexer_at d s) = c # cs"
    using assms(2) by (meson neq_Nil_conv)
  have "ck_fragment_count c \<le> length (lx_fragments (lexer_at d s)) \<and> ck_frame_count c \<le> length (lx_frames (lexer_at d s))"
  proof (cases "k = ARITHMETIC")
    case True
    then show ?thesis
      using assms(1) c by (auto simp: push_ready_def Let_def)
  next
    case False
    then have "work_ok d s"
      using assms(1) by (simp add: push_ready_def work_reading Let_def)
    then show ?thesis
      using work_counts [of d s] c by (simp add: less_imp_le)
  qed
  then show "ck_fragment_count (hd (lx_arithmetic (lexer_at d s))) \<le> length (lx_fragments (lexer_at d s))"
    "ck_frame_count (hd (lx_arithmetic (lexer_at d s))) \<le> length (lx_frames (lexer_at d s))"
    using c by simp_all
qed

definition opened :: "frame_kind \<Rightarrow> csh_fragment_kind \<Rightarrow> csh_quote \<Rightarrow> csh_lexer \<Rightarrow> nat \<Rightarrow> nat \<Rightarrow> csh_lexer" where
  "opened k fk quote l c fc =
     l\<lparr>lx_fragment_capacity := c, lx_fragments := lx_fragments l @ [new_fragment fk quote l], lx_frame_capacity := fc,
       lx_frames := \<lparr>fm_kind = k, fm_quote = quote, fm_fragment = length (lx_fragments l), fm_parentheses = 0, fm_stage = 0\<rparr> # lx_frames l\<rparr>"

lemma opened_spelt:
  assumes s: "spelt_ok l" and m: "length (lx_fragments l) < SIZE_MAX" and k: "context_fragment k = fk"
  shows "spelt_ok (opened k fk quote l c fc)"
proof -
  have t: "tree_ok (lx_fragments l) (open_fragments l) (length (lx_raw l))"
    using s by (simp add: spelt_ok_def)
  have "fm_fragment f < length (lx_fragments l)" if "f \<in> set (lx_frames l)" for f
    using tree_ok_open(1) [OF t, of "fm_fragment f"] that by simp
  moreover have "tree_ok (lx_fragments l @ [new_fragment fk quote l]) (length (lx_fragments l) # open_fragments l) (length (lx_raw l))"
    using m by (intro tree_ok_add [OF t]) (simp_all add: parent_open)
  ultimately show ?thesis
    using s k by (auto simp: spelt_ok_def opened_def nth_append less_Suc_eq)
qed

lemma opened_body: "spelt_ok l \<Longrightarrow> body_ok l b \<Longrightarrow> body_ok (opened k fk quote l c fc) b"
  using tree_ok_open(1) [of "lx_fragments l" "open_fragments l" "length (lx_raw l)"]
  by (auto simp: spelt_ok_def body_ok_def opened_def nth_append less_Suc_eq)

lemma opened_above:
  assumes "lx_arithmetic l \<noteq> []" "ck_fragment_count (hd (lx_arithmetic l)) \<le> length (lx_fragments l)"
    "ck_frame_count (hd (lx_arithmetic l)) \<le> length (lx_frames l)"
  shows "extends_above l (opened k fk quote l c fc)"
  using assms by (cases l) (auto simp: extends_above_def shell_def husk_def core_def opened_def Let_def Suc_diff_le)

lemma opened_simps [simp]:
  "lx_active (opened k fk quote l c fc) = lx_active l" "lx_arithmetic (opened k fk quote l c fc) = lx_arithmetic l"
  "lx_raw (opened k fk quote l c fc) = lx_raw l" "lx_raw_capacity (opened k fk quote l c fc) = lx_raw_capacity l"
  "lx_fragments (opened k fk quote l c fc) = lx_fragments l @ [new_fragment fk quote l]"
  "lx_frames (opened k fk quote l c fc) =
     \<lparr>fm_kind = k, fm_quote = quote, fm_fragment = length (lx_fragments l), fm_parentheses = 0, fm_stage = 0\<rparr> # lx_frames l"
  "same_flags l (opened k fk quote l c fc)"
  by (simp_all add: opened_def same_flags_def)

text \<open>The lexer after the opening delimiter.\<close>

definition pushed :: "nat \<Rightarrow> frame_kind \<Rightarrow> csh_fragment_kind \<Rightarrow> csh_quote \<Rightarrow> nat \<Rightarrow> lexing \<Rightarrow> lexing \<Rightarrow> bool" where
  "pushed d k fk quote n s s' \<longleftrightarrow>
     (\<exists>c fc s1. lg_source s1 = lg_source s \<and> length (lg_lexers s1) = length (lg_lexers s) \<and> lexer_at d s1 = opened k fk quote (lexer_at d s) c fc \<and>
        works d n s1 s' \<and> continued (lexer_at d s1) (lexer_at d s'))"

lemma lex_push_achieves:
  assumes p: "push_ready d k s" and k: "context_fragment k = fk" and n: "so_cursor (lg_source s) + n \<le> length (so_data (lg_source s))"
  shows "achieves (lex_push d k fk quote n s) (\<lambda>s'. work_ok d s' \<and> pushed d k fk quote n s s')"
proof -
  have r: "reading d s" and g: "ground s" and d: "d < length (lg_lexers s)" "Suc d = length (lg_lexers s)"
    and so: "spelt_ok (lexer_at d s)" "lx_active (lexer_at d s)"
    using p by (auto simp: push_ready_def reading_def)
  show ?thesis
  proof (rule add_fragment_cases [OF g, of d fk quote])
    fix s'
    assume "add_fragment d fk quote s = (None, s')" "failed_ok s'"
    then show ?thesis
      by (simp add: lex_push_def)
  next
    fix c s1
    let ?f = "\<lambda>l. l\<lparr>lx_fragment_capacity := c, lx_fragments := lx_fragments l @ [new_fragment fk quote l]\<rparr>"
    assume s1: "lg_source s1 = lg_source s" "lg_lexers s1 = lg_lexers s" "lg_error s1 = lg_error s" "length (lx_fragments (lexer_at d s)) \<noteq> SIZE_MAX"
      and e: "add_fragment d fk quote s = (Some (length (lx_fragments (lexer_at d s))), set_lexer d ?f s1)"
    let ?s = "set_lexer d ?f s1"
    have g1: "ground s1"
      using g s1 by (simp add: ground_def)
    have less: "length (lx_fragments (lexer_at d s)) < SIZE_MAX"
      using so(1) s1(4) by (simp add: spelt_ok_def tree_ok_def)
    have gs: "ground ?s"
    proof (rule set_last_ground [OF g1])
      assume "lx_arithmetic (lexer_at d s1) \<noteq> []"
      then show "extends_above (lexer_at d s1) (?f (lexer_at d s1))"
        using s1 push_ready_counts [OF p] above_fragments(1) [of "lexer_at d s" "lx_fragments (lexer_at d s) @ [new_fragment fk quote (lexer_at d s)]" c]
        by simp
    qed (use d s1 in \<open>simp_all add: room_ok_def\<close>)
    obtain b fc s2 where rs: "lex_reserve (lx_frame_capacity (lexer_at d ?s)) (length (lx_frames (lexer_at d ?s)) + 1) 32 ?s = (b, fc, s2)"
      by (rule prod_cases3)
    note ks = lex_reserve_keeps [OF rs]
    have g2: "ground s2"
      using gs ks by (simp add: ground_def)
    have full: "failed_ok (lex_fail d ''cannot grow lexical contexts'' er sx)" if "ground sx" for er sx
      using that by (rule fail_failed) auto
    show ?thesis
    proof (cases "length (lx_frames (lexer_at d ?s)) = SIZE_MAX \<or> \<not> b")
      case True
      then show ?thesis
        using e rs gs g2 full by (auto simp: lex_push_def Let_def)
    next
      case False
      let ?h = "\<lambda>l. l\<lparr>lx_frame_capacity := fc, lx_frames :=
        \<lparr>fm_kind = k, fm_quote = quote, fm_fragment = length (lx_fragments (lexer_at d s)), fm_parentheses = 0, fm_stage = 0\<rparr> # lx_frames l\<rparr>"
      let ?t = "set_lexer d ?h s2"
      have at: "lexer_at d ?t = opened k fk quote (lexer_at d s) c fc"
        using d ks s1 by (simp add: opened_def)
      have ls: "lg_lexers ?t = lg_lexers (set_lexer d (\<lambda>l. opened k fk quote l c fc) s)"
        using d ks s1 by (simp add: set_lexer_def opened_def)
      have gt: "ground ?t"
      proof -
        have "ground (set_lexer d (\<lambda>l. opened k fk quote l c fc) s)"
          using opened_above push_ready_counts [OF p] by (intro set_last_ground [OF g d(2)]) (auto simp: room_ok_def)
        then show ?thesis
          using keeps_ground [OF ls] ks s1(1,3) by (simp only: set_lexer_simps simp_thms)
      qed
      have "reading d ?t"
      proof (rule reading_update [where f = "\<lambda>l. opened k fk quote l c fc", OF r at _ ls gt])
        show "lg_source ?t = lg_source s"
          using ks s1 by simp
        show "lx_active (opened k fk quote (lexer_at d s) c fc)"
          using so(2) by simp
        show "spelt_ok (opened k fk quote (lexer_at d s) c fc)"
          by (rule opened_spelt [OF so(1) less k])
        show "\<forall>b \<in> set (lx_arithmetic (opened k fk quote (lexer_at d s) c fc)). body_ok (opened k fk quote (lexer_at d s) c fc) b"
          using r opened_body [OF so(1)] by (simp add: reading_def)
      qed
      then have w: "work_ok d ?t"
        using p at by (auto simp: work_reading push_ready_def Let_def)
      have eq: "lex_push d k fk quote n s = lex_delimiter d n quote ?t"
        using False e rs by (simp add: lex_push_def Let_def)
      have "achieves (lex_delimiter d n quote ?t) (\<lambda>s'. work_ok d s' \<and> works d n ?t s' \<and> continued (lexer_at d ?t) (lexer_at d s'))"
        using n ks s1 by (intro lex_delimiter_achieves [OF w]) simp
      then show ?thesis
        unfolding eq
      proof (rule achieves_weaken)
        fix s'
        assume "work_ok d s' \<and> works d n ?t s' \<and> continued (lexer_at d ?t) (lexer_at d s')"
        then show "work_ok d s' \<and> pushed d k fk quote n s s'"
          using at ks s1 unfolding pushed_def by (intro conjI exI [of _ c] exI [of _ fc] exI [of _ ?t]) auto
      qed
    qed
  qed
qed

subsubsection \<open>Closing a context\<close>

definition closing_bytes :: "frame_kind \<Rightarrow> nat" where
  "closing_bytes k = (case k of SIMPLE \<Rightarrow> 0 | COMMAND \<Rightarrow> 0 | ARITHMETIC \<Rightarrow> 2 | _ \<Rightarrow> 1)"

definition closed :: "csh_lexer \<Rightarrow> csh_lexer" where
  "closed l =
     (let i = fm_fragment (hd (lx_frames l)) in
      l\<lparr>lx_fragments := (lx_fragments l)[i := (lx_fragments l ! i)\<lparr>fr_end := length (lx_raw l), fr_finish := lx_spelling_position l\<rparr>],
        lx_frames := tl (lx_frames l)\<rparr>)"

lemma closed_simps [simp]:
  "lx_active (closed l) = lx_active l" "lx_arithmetic (closed l) = lx_arithmetic l" "lx_raw (closed l) = lx_raw l"
  "lx_raw_capacity (closed l) = lx_raw_capacity l" "lx_frames (closed l) = tl (lx_frames l)" "same_flags l (closed l)"
  "length (lx_fragments (closed l)) = length (lx_fragments l)"
  by (simp_all add: closed_def same_flags_def Let_def)

lemma closed_nth: "lx_frames l = f # frs \<Longrightarrow> j \<noteq> fm_fragment f \<Longrightarrow> lx_fragments (closed l) ! j = lx_fragments l ! j"
  by (simp add: closed_def Let_def)

lemma closed_spelt:
  assumes s: "spelt_ok l" and f: "lx_frames l = f # frs"
    and z: "fr_begin (lx_fragments l ! fm_fragment f) + opening_bytes (fm_kind f) + closing_bytes (fm_kind f) \<le> length (lx_raw l)"
  shows "spelt_ok (closed l)" "body_ok l c \<Longrightarrow> body_ok (closed l) c"
proof -
  let ?i = "fm_fragment f" and ?fs = "lx_fragments l"
  have t: "tree_ok ?fs (?i # map fm_fragment frs) (length (lx_raw l))"
    using s f by (simp add: spelt_ok_def)
  have i: "?i < length ?fs" "?i \<notin> set (map fm_fragment frs)"
    using tree_ok_open(1) [OF t] t by (auto simp: tree_ok_def)
  have fi: "fr_kind (?fs ! ?i) = context_fragment (fm_kind f)"
    using s f by (simp add: spelt_ok_def)
  have "tree_ok (lx_fragments (closed l)) (map fm_fragment frs) (length (lx_raw l))"
    unfolding closed_def Let_def f by (simp, rule tree_ok_close [OF t]) simp_all
  moreover have "fragment_sized (lx_fragments (closed l) ! ?i)"
    using i f fi z by (cases "fm_kind f")
      (auto simp: closed_def Let_def fragment_sized_def context_fragment_def opening_bytes_def closing_bytes_def)
  then have "fragment_sized (lx_fragments (closed l) ! j)" if "j < length ?fs" "j \<notin> set (map fm_fragment frs)" for j
    using s f that by (cases "j = ?i") (auto simp: spelt_ok_def closed_def Let_def)
  moreover have "lx_fragments (closed l) ! fm_fragment g = ?fs ! fm_fragment g" if "g \<in> set frs" for g
    by (rule closed_nth [OF f]) (use i(2) that in \<open>metis image_eqI list.set_map\<close>)
  ultimately show "spelt_ok (closed l)"
    using s f by (auto simp: spelt_ok_def)
  show "body_ok (closed l) c" if b: "body_ok l c"
  proof -
    have "ck_body_begin c \<le> fr_begin (?fs ! ?i)" if "fr_parent (?fs ! ?i) = ck_fragment_count c"
      using b that i f by (auto simp: body_ok_def)
    then show ?thesis
      using b i f by (auto simp: body_ok_def closed_def Let_def nth_list_update)
  qed
qed

lemma closed_above:
  assumes "spelt_ok l" "candidates_ok l" "lx_arithmetic l \<noteq> []" "lx_frames l \<noteq> []"
  shows "extends_above l (closed l)"
proof -
  obtain c cs where c: "lx_arithmetic l = c # cs"
    using assms(3) by (meson neq_Nil_conv)
  obtain f frs where f: "lx_frames l = f # frs"
    using assms(4) by (meson neq_Nil_conv)
  note k = newest_below [OF assms(1,2) c]
  show ?thesis
    using k(1,2,4) c f
    by (cases l) (auto simp: extends_above_def shell_def husk_def core_def closed_def Let_def Suc_diff_le)
qed

lemma lex_pop_achieves:
  assumes w: "work_ok d s" and f: "lx_frames (lexer_at d s) = f # frs" and n: "so_cursor (lg_source s) + n \<le> length (so_data (lg_source s))"
    and o: "opened_ok (lexer_at d s) [f]" and k: "closing_bytes (fm_kind f) \<le> n"
  shows "achieves (lex_pop d n s) (\<lambda>s'. reading d s' \<and> (\<exists>s1. work_ok d s1 \<and> works d n s s1 \<and> continued (lexer_at d s) (lexer_at d s1) \<and>
    lg_source s' = lg_source s1 \<and> length (lg_lexers s') = length (lg_lexers s1) \<and> lexer_at d s' = closed (lexer_at d s1)))"
proof -
  have d: "d < length (lg_lexers s)" "lx_active (lexer_at d s)"
    using w by (auto simp: work_ok_def)
  have "achieves (do {(ok, s) \<leftarrow> lex_delimiter d n (fm_quote f) s;
              if ok
              then do {(_, s) \<leftarrow> finish_fragment d (fm_fragment f) s;
                       Some (True, set_lexer d (\<lambda>l. l\<lparr>lx_frames := tl (lx_frames l)\<rparr>) s)}
              else Some (False, s)}) (\<lambda>s'. reading d s' \<and> (\<exists>s1. work_ok d s1 \<and> works d n s s1 \<and> continued (lexer_at d s) (lexer_at d s1) \<and>
    lg_source s' = lg_source s1 \<and> length (lg_lexers s') = length (lg_lexers s1) \<and> lexer_at d s' = closed (lexer_at d s1)))"
  proof (rule achieves_bind [OF lex_delimiter_achieves [OF w n]])
    fix s1
    assume "work_ok d s1 \<and> works d n s s1 \<and> continued (lexer_at d s) (lexer_at d s1)"
    then have s1: "work_ok d s1" "works d n s s1" "continued (lexer_at d s) (lexer_at d s1)" by auto
    let ?l = "lexer_at d s1"
    have d1: "d < length (lg_lexers s1)" "Suc d = length (lg_lexers s1)" and sp: "spelt_ok ?l" "candidates_ok ?l"
      using s1(1) by (auto simp: work_ok_def)
    have r1: "reading d s1"
      using s1(1) by (simp add: work_reading)
    have fr: "lx_frames ?l = f # frs"
      using works_frames [OF s1(2) d(1)] f by simp
    have tr: "tree_ok (lx_fragments (lexer_at d s)) (open_fragments (lexer_at d s)) (length (lx_raw (lexer_at d s)))"
      using w by (simp add: work_ok_def spelt_ok_def)
    have i: "fm_fragment f < length (lx_fragments (lexer_at d s))"
      using tree_ok_open(1) [OF tr] f by simp
    obtain gs where gs: "lx_fragments ?l = lx_fragments (lexer_at d s) @ gs"
      using s1(3) by (auto simp: continued_def)
    have z: "fr_begin (lx_fragments ?l ! fm_fragment f) + opening_bytes (fm_kind f) + closing_bytes (fm_kind f) \<le> length (lx_raw ?l)"
      using o k works_raw [OF s1(2) d n] gs i by (simp add: opened_ok_def nth_append)
    let ?s = "set_lexer d closed s1"
    have e: "do {(_, s) \<leftarrow> finish_fragment d (fm_fragment f) s1; Some (True, set_lexer d (\<lambda>l. l\<lparr>lx_frames := tl (lx_frames l)\<rparr>) s)} = Some (True, ?s)"
      using i gs d1 fr by (simp add: finish_fragment_def set_lexer_twice) (simp add: set_lexer_def closed_def Let_def)
    have "ground ?s"
      using closed_above [OF sp] fr s1(1) by (intro set_last_ground [OF _ d1(2)]) (auto simp: room_ok_def work_ok_def)
    then have "reading d ?s"
      using r1 d1 closed_spelt [OF sp(1) fr z] by (intro reading_update [where f = closed, OF r1]) (auto simp: reading_def)
    then show "achieves (do {(_, s) \<leftarrow> finish_fragment d (fm_fragment f) s1; Some (True, set_lexer d (\<lambda>l. l\<lparr>lx_frames := tl (lx_frames l)\<rparr>) s)})
      (\<lambda>s'. reading d s' \<and> (\<exists>s1. work_ok d s1 \<and> works d n s s1 \<and> continued (lexer_at d s) (lexer_at d s1) \<and>
        lg_source s' = lg_source s1 \<and> length (lg_lexers s') = length (lg_lexers s1) \<and> lexer_at d s' = closed (lexer_at d s1)))"
      unfolding e using s1 d1 by auto
  qed
  then show ?thesis
    by (simp only: lex_pop_def f list.case)
qed

end
