(* ===== verification/Lexer_Rounds.thy ===== *)
theory Lexer_Rounds
  imports Lexer_Words
begin

text \<open>
  The rounds of the tokenizer outside arithmetic: looking ahead, beginning and delivering tokens, every step of the
  loop of \<open>next_token\<close>, operators and the end of the input.
\<close>

subsection \<open>Looking ahead\<close>

lemma look_loop_cache:
  "cache_ok (length bytes) scan ps \<Longrightarrow> look_loop cx final bytes wanted scan ps = (stop, scan', ps') \<Longrightarrow>
   cache_ok (length bytes) scan' ps' \<and> (stop = None \<longrightarrow> wanted < length ps')"
proof (induction cx final bytes wanted scan ps rule: look_loop.induct)
  case (1 cx final bytes wanted scan ps)
  show ?case
  proof (cases "wanted < length ps")
    case True
    then show ?thesis
      using 1(3,4) by (subst (asm) look_loop.simps) simp
  next
    case False
    show ?thesis
    proof (cases "drop scan bytes")
      case Nil
      then show ?thesis
        using False 1(3,4) by (subst (asm) look_loop.simps) auto
    next
      case (Cons c r)
      have n: "scan < length bytes"
        using drop_ConsD [OF Cons] .
      let ?w = "csh_character_length cx (c # r) True final"
      have snoc: "cache_ok (length bytes) (scan + ?w) (ps @ [scan])" if "?w \<noteq> 0"
        using 1(3) n that by (auto simp: cache_ok_def nth_append less_Suc_eq)
      have skip: "cache_ok (length bytes) (scan + 2) ps"
        using 1(3) by (simp add: cache_ok_def)
      consider "c = CHR 0x5C \<and> r = [] \<and> \<not> final" | "c = CHR 0x5C \<and> (case r of [] \<Rightarrow> False | e # _ \<Rightarrow> e = CHR 0x0A)" "\<not> (c = CHR 0x5C \<and> r = [] \<and> \<not> final)"
        | "\<not> (c = CHR 0x5C \<and> r = [] \<and> \<not> final)" "\<not> (c = CHR 0x5C \<and> (case r of [] \<Rightarrow> False | e # _ \<Rightarrow> e = CHR 0x0A))" "?w = 0"
        | "\<not> (c = CHR 0x5C \<and> r = [] \<and> \<not> final)" "\<not> (c = CHR 0x5C \<and> (case r of [] \<Rightarrow> False | e # _ \<Rightarrow> e = CHR 0x0A))" "?w \<noteq> 0"
        by blast
      then show ?thesis
      proof cases
        case 1
        with \<open>\<not> wanted < length ps\<close> Cons "1.prems" show ?thesis
          by (subst (asm) look_loop.simps) auto
      next
        case 2
        then have "look_loop cx final bytes wanted scan ps = look_loop cx final bytes wanted (scan + 2) ps"
          using False Cons by (subst look_loop.simps) (cases r; simp)
        then show ?thesis
          using 1(1) [OF False Cons 2(2,1) skip] 1(4) by simp
      next
        case 3
        then have "look_loop cx final bytes wanted scan ps = (Some LOOK_MORE, scan, ps)"
          using False Cons by (subst look_loop.simps) (cases r; auto simp: Let_def)
        then show ?thesis
          using 1(3,4) by simp
      next
        case 4
        then have "look_loop cx final bytes wanted scan ps = look_loop cx final bytes wanted (scan + ?w) (ps @ [scan])"
          using False Cons by (subst look_loop.simps) (cases r; auto simp: Let_def)
        then show ?thesis
          using 1(2) [OF False Cons 4(1,2) refl 4(3) snoc [OF 4(3)]] 1(4) by simp
      qed
    qed
  qed
qed

text \<open>A byte found lies that many characters ahead, inside the text.\<close>

definition seen_ok :: "nat \<Rightarrow> source \<Rightarrow> look \<Rightarrow> bool" where
  "seen_ok n so r \<longleftrightarrow>
     (\<forall>c p. r = LOOK_BYTE c p \<longrightarrow> (of_char c :: nat) < 0x80 \<longrightarrow> n < p \<and> so_cursor so + p \<le> length (so_data so))"

lemma lex_peek_total:
  assumes so: "source_ok (lg_source s)"
  shows "\<exists>r lk. lex_peek cx n s = Some (r, set_source (\<lambda>so. so\<lparr>so_look := lk\<rparr>) s) \<and>
    source_ok ((lg_source s)\<lparr>so_look := lk\<rparr>) \<and> seen_ok n (lg_source s) r"
proof -
  let ?so = "lg_source s"
  let ?bytes = "drop (so_cursor ?so) (so_data ?so)"
  define lk where "lk = (case so_look ?so of
                  None \<Rightarrow> \<lparr>lk_offset = p_offset (so_position ?so), lk_scan = 0, lk_positions = []\<rparr>
                | Some lk \<Rightarrow> if lk_offset lk = p_offset (so_position ?so) then lk
                    else \<lparr>lk_offset = p_offset (so_position ?so), lk_scan = 0, lk_positions = []\<rparr>)"
  have ok: "cache_ok (length ?bytes) (lk_scan lk) (lk_positions lk)"
    using so by (auto simp: lk_def source_ok_def cache_ok_def split: option.splits)
  obtain stop scan ps where l: "look_loop cx (so_final ?so) ?bytes n (lk_scan lk) (lk_positions lk) = (stop, scan, ps)"
    by (rule prod_cases3)
  note c = look_loop_cache [OF ok l]
  let ?lk = "Some (lk\<lparr>lk_scan := scan, lk_positions := ps\<rparr>)"
  have src: "source_ok (?so\<lparr>so_look := ?lk\<rparr>)"
    using so c by (simp add: source_ok_def)
  show ?thesis
  proof (cases stop)
    case (Some r)
    have "r = LOOK_MORE \<or> r = LOOK_EOF"
      using look_loop_stop l Some by blast
    then have "seen_ok n ?so r"
      by (auto simp: seen_ok_def)
    moreover have "lex_peek cx n s = Some (r, set_source (\<lambda>so. so\<lparr>so_look := ?lk\<rparr>) s)"
      using l Some by (simp add: lex_peek_def Let_def lk_def [symmetric])
    ultimately show ?thesis
      using src by blast
  next
    case None
    then have p: "n \<le> ps ! n" "ps ! n < length ?bytes"
      using c by (auto simp: cache_ok_def)
    obtain b r where d: "drop (ps ! n) ?bytes = b # r"
      using p(2) by (metis Cons_nth_drop_Suc)
    let ?w = "csh_character_length cx (b # r) True (so_final ?so)"
    let ?r = "if 1 < ?w then LOOK_WIDE (ps ! n + ?w) else LOOK_BYTE b (ps ! n + ?w)"
    have "seen_ok n ?so ?r"
      using p by (auto simp: seen_ok_def character_length_ascii)
    moreover have "lex_peek cx n s = Some (?r, set_source (\<lambda>so. so\<lparr>so_look := ?lk\<rparr>) s)"
      using l None d by (simp add: lex_peek_def Let_def lk_def [symmetric])
    ultimately show ?thesis
      using src by blast
  qed
qed

subsection \<open>The rounds of the tokenizer\<close>

text \<open>A word begun without a byte waits for more input behind a \<open>$\<close>.\<close>

definition dollar_ok :: "csh_lexer \<Rightarrow> source \<Rightarrow> bool" where
  "dollar_ok l so \<longleftrightarrow>
     (lx_active l \<longrightarrow> lx_raw l = [] \<longrightarrow>
        lx_kind l = CSH_TOKEN_WORD \<and> (\<exists>r. drop (so_cursor so) (so_data so) = CHR ''$'' # r))"

definition lexing_ok :: "nat \<Rightarrow> lexing \<Rightarrow> bool" where
  "lexing_ok d s \<longleftrightarrow>
     Suc d = length (lg_lexers s) \<and> source_ok (lg_source s) \<and> ground s \<and> lexers_base (lg_lexers s) \<and>
     dollar_ok (lexer_at d s) (lg_source s)"

definition loop_ok :: "nat \<Rightarrow> lexing \<Rightarrow> bool" where
  "loop_ok d s \<longleftrightarrow> lexing_ok d s \<and> \<not> lx_command (lexer_at d s)"

definition token_ok :: "csh_token \<Rightarrow> bool" where
  "token_ok t \<longleftrightarrow>
     tree_ok (tk_fragments t) [] (length (tk_raw t)) \<and> (\<forall>f \<in> set (tk_fragments t). fragment_sized f) \<and>
     tk_raw t \<noteq> [] \<and> CHR 0x00 \<notin> set (tk_raw t)"

fun returns_ok :: "nat \<Rightarrow> csh_lex_result \<Rightarrow> csh_token option \<Rightarrow> lexing \<Rightarrow> bool" where
  "returns_ok d CSH_LEX_ERROR t s \<longleftrightarrow> t = None \<and> failed_ok s"
| "returns_ok d CSH_LEX_TOKEN t s \<longleftrightarrow>
     (\<exists>token. t = Some token \<and> token_ok token) \<and> loop_ok d s \<and> \<not> lx_active (lexer_at d s)"
| "returns_ok d CSH_LEX_MORE t s \<longleftrightarrow> t = None \<and> loop_ok d s"
| "returns_ok d CSH_LEX_EOF t s \<longleftrightarrow> t = None \<and> loop_ok d s"
| "returns_ok d CSH_LEX_COMMAND t s \<longleftrightarrow> t = None \<and> lexing_ok d s \<and> lx_command (lexer_at d s)"
| "returns_ok d CSH_LEX_REPLAY t s \<longleftrightarrow> t = None \<and> lexing_ok d s \<and> lx_command (lexer_at d s)"

text \<open>How a part of a round ends: the triple of the steps.\<close>

definition settles :: "nat \<Rightarrow> turned \<Rightarrow> (lexing \<Rightarrow> bool) \<Rightarrow> bool" where
  "settles d m Q \<longleftrightarrow>
     (\<exists>t s. m = Some (t, s) \<and> (case t of Return r token \<Rightarrow> returns_ok d r token s | Continue \<Rightarrow> loop_ok d s | Fall \<Rightarrow> Q s))"

lemma settles_simps [simp]:
  "settles d (Some (Return r t, s)) Q \<longleftrightarrow> returns_ok d r t s" "settles d (step_on s) Q \<longleftrightarrow> loop_ok d s"
  "settles d (Some (Fall, s)) Q \<longleftrightarrow> Q s" "settles d (lex_error s) Q \<longleftrightarrow> failed_ok s"
  by (simp_all add: settles_def step_on_def lex_error_def)

lemma settles_if: "settles d (if c then m else n) Q \<longleftrightarrow> (c \<longrightarrow> settles d m Q) \<and> (\<not> c \<longrightarrow> settles d n Q)"
  by simp

lemma settles_attempt: "achieves m P \<Longrightarrow> (\<And>s. m = Some (True, s) \<Longrightarrow> P s \<Longrightarrow> settles d (k s) Q) \<Longrightarrow> settles d (attempt m k) Q"
  by (auto simp: achieves_def attempt_def)

lemma settles_or_else: "settles d m P \<Longrightarrow> (\<And>s. P s \<Longrightarrow> settles d (k s) Q) \<Longrightarrow> settles d (lex_or_else m k) Q"
proof -
  assume "settles d m P" and k: "\<And>s. P s \<Longrightarrow> settles d (k s) Q"
  then obtain t s where m: "m = Some (t, s)" "case t of Return r token \<Rightarrow> returns_ok d r token s | Continue \<Rightarrow> loop_ok d s | Fall \<Rightarrow> P s"
    by (auto simp: settles_def)
  show ?thesis
    using m k [of s] by (cases t) (simp_all add: settles_def lex_or_else_def)
qed

lemma settles_peek:
  assumes "source_ok (lg_source s)"
    "\<And>r lk. seen_ok n (lg_source s) r \<Longrightarrow> source_ok ((lg_source s)\<lparr>so_look := lk\<rparr>) \<Longrightarrow>
       settles d (k (r, set_source (\<lambda>so. so\<lparr>so_look := lk\<rparr>) s)) Q"
  shows "settles d (lex_peek cx n s \<bind> k) Q"
  using lex_peek_total [OF assms(1), of cx n] assms(2) by auto

text \<open>A round at a byte that is not part of an operator or a comment.\<close>

definition at_byte :: "nat \<Rightarrow> char \<Rightarrow> lexing \<Rightarrow> bool" where
  "at_byte d byte s \<longleftrightarrow>
     loop_ok d s \<and> byte \<noteq> CHR 0x00 \<and> (\<exists>r. drop (so_cursor (lg_source s)) (so_data (lg_source s)) = byte # r) \<and>
     \<not> lx_comment (lexer_at d s) \<and> (lx_active (lexer_at d s) \<longrightarrow> lx_kind (lexer_at d s) = CSH_TOKEN_WORD)"

lemma loop_ok_look [simp]:
  "source_ok ((lg_source s)\<lparr>so_look := lk\<rparr>) \<Longrightarrow> loop_ok d s \<Longrightarrow> loop_ok d (set_source (\<lambda>so. so\<lparr>so_look := lk\<rparr>) s)"
  by (simp add: loop_ok_def lexing_ok_def ground_def dollar_ok_def)

lemma at_byte_look [simp]:
  "source_ok ((lg_source s)\<lparr>so_look := lk\<rparr>) \<Longrightarrow> at_byte d b s \<Longrightarrow> at_byte d b (set_source (\<lambda>so. so\<lparr>so_look := lk\<rparr>) s)"
  by (simp add: at_byte_def)

lemma loop_facts:
  assumes "loop_ok d s"
  shows "d < length (lg_lexers s)" "Suc d = length (lg_lexers s)" "source_ok (lg_source s)" "ground s" "word_ok (lexer_at d s)"
    "\<not> lx_command (lexer_at d s)" "\<forall>i < d. word_ok (lexer_at i s) \<and> lx_command (lexer_at i s)" "lexers_base (lg_lexers s)"
    "dollar_ok (lexer_at d s) (lg_source s)"
  using assms by (auto simp: loop_ok_def lexing_ok_def lexers_base_def)

lemma at_byte_facts:
  assumes "at_byte d b s"
  shows "loop_ok d s" "b \<noteq> CHR 0x00" "so_cursor (lg_source s) < length (so_data (lg_source s))" "\<not> lx_comment (lexer_at d s)"
    "lx_active (lexer_at d s) \<Longrightarrow> lx_kind (lexer_at d s) = CSH_TOKEN_WORD"
  using assms by (auto simp: at_byte_def dest: drop_ConsD)

lemma loop_work: "loop_ok d s \<Longrightarrow> lx_active (lexer_at d s) \<Longrightarrow> work_ok d s"
  using loop_facts [of d s] by (simp add: work_ok_def word_ok_def)

lemma base_iff:
  "Suc d = length ls \<Longrightarrow> lexers_base ls \<longleftrightarrow> word_ok (ls ! d) \<and> (\<forall>i < d. word_ok (ls ! i) \<and> lx_command (ls ! i))"
  unfolding lexers_base_def by (metis Suc_less_eq less_Suc_eq)

text \<open>A pending word with a byte.\<close>

lemma work_loop:
  assumes w: "work_ok d s" and o: "opened_ok (lexer_at d s) (lx_frames (lexer_at d s))" and r: "lx_raw (lexer_at d s) \<noteq> []"
    and f: "\<not> lx_comment (lexer_at d s)" "\<not> lx_command (lexer_at d s)" "lx_frames (lexer_at d s) \<noteq> [] \<Longrightarrow> lx_kind (lexer_at d s) = CSH_TOKEN_WORD"
  shows "loop_ok d s"
proof -
  have "word_ok (lexer_at d s)"
    using w o f by (auto simp: word_ok_def work_ok_def)
  then have "lexers_base (lg_lexers s)"
    using w by (auto simp: base_iff work_ok_def)
  then show ?thesis
    using w r f by (simp add: loop_ok_def lexing_ok_def work_ok_def dollar_ok_def)
qed

lemma opened_kept:
  assumes "begins_kept l l'" "opened_ok l frs" "spelt_ok l" "set frs \<subseteq> set (lx_frames l)" "length (lx_raw l) \<le> length (lx_raw l')"
  shows "opened_ok l' frs"
proof -
  have "fm_fragment f < length (lx_fragments l)" if "f \<in> set frs" for f
    using tree_ok_open(1) [of "lx_fragments l" "open_fragments l" "length (lx_raw l)" "fm_fragment f"] assms(3,4) that
    by (auto simp: spelt_ok_def)
  then show ?thesis
    using assms(1,2,5) by (fastforce simp: opened_ok_def begins_kept_def)
qed

lemma continued_begins: "continued l l' \<Longrightarrow> begins_kept l l'"
  by (auto simp: continued_def begins_kept_def nth_append)

text \<open>The state of a pending word between its parts.\<close>

definition word_at :: "nat \<Rightarrow> lexing \<Rightarrow> bool" where
  "word_at d s \<longleftrightarrow>
     work_ok d s \<and> opened_ok (lexer_at d s) (lx_frames (lexer_at d s)) \<and> \<not> lx_comment (lexer_at d s) \<and>
     \<not> lx_command (lexer_at d s) \<and> lx_kind (lexer_at d s) = CSH_TOKEN_WORD"

lemma word_at_loop: "word_at d s \<Longrightarrow> lx_raw (lexer_at d s) \<noteq> [] \<Longrightarrow> loop_ok d s"
  by (rule work_loop) (simp_all add: word_at_def)

lemma at_byte_word: "at_byte d b s \<Longrightarrow> lx_active (lexer_at d s) \<Longrightarrow> word_at d s"
  using loop_facts [of d s] loop_work [of d s] by (auto simp: at_byte_def word_at_def word_ok_def)

lemma word_at_flags:
  assumes "word_at d s" "same_flags (lexer_at d s) (lexer_at d s')" "work_ok d s'"
    "opened_ok (lexer_at d s') (lx_frames (lexer_at d s'))"
  shows "word_at d s'"
  using assms by (simp add: word_at_def same_flags_def)

lemma settles_piece:
  assumes w: "word_at d s" and z: "piece_sized kind n" and n: "so_cursor (lg_source s) + n \<le> length (so_data (lg_source s))"
  shows "settles d (attempt (lex_piece d kind quote n s) step_on) Q"
proof (rule settles_attempt [OF lex_piece_achieves [OF _ z n]])
  show "work_ok d s"
    using w by (simp add: word_at_def)
  fix s'
  assume p: "lex_piece d kind quote n s = Some (True, s')"
    and "work_ok d s' \<and> begins_kept (lexer_at d s) (lexer_at d s') \<and>
    (kind \<noteq> CSH_FRAGMENT_TEXT \<longrightarrow> (\<exists>g. lx_fragments (lexer_at d s') = lx_fragments (lexer_at d s) @ [g] \<and> fr_kind g = kind \<and>
       fr_end g = length (lx_raw (lexer_at d s)) + n))"
  then have s': "work_ok d s'" "begins_kept (lexer_at d s) (lexer_at d s')" by auto
  have d: "d < length (lg_lexers s)" "lx_active (lexer_at d s)" "spelt_ok (lexer_at d s)" "opened_ok (lexer_at d s) (lx_frames (lexer_at d s))"
    using w by (auto simp: word_at_def work_ok_def)
  note wk = lex_piece_works [OF p]
  have raw: "length (lx_raw (lexer_at d s')) = length (lx_raw (lexer_at d s)) + n"
    by (rule works_raw [OF wk d(1,2) n])
  have pos: "0 < n"
    using z by (auto simp: piece_sized_def split: csh_fragment_kind.splits)
  have "word_at d s'"
    using opened_kept [OF s'(2) d(4,3)] raw works_frames [OF wk d(1)]
    by (intro word_at_flags [OF w works_flags [OF wk d(1)] s'(1)]) simp
  then show "settles d (step_on s') Q"
    using word_at_loop [of d s'] raw pos by (cases "lx_raw (lexer_at d s')") auto
qed

lemma word_at_facts:
  assumes "word_at d s"
  shows "work_ok d s" "d < length (lg_lexers s)" "Suc d = length (lg_lexers s)" "lx_active (lexer_at d s)" "spelt_ok (lexer_at d s)"
    "candidates_ok (lexer_at d s)" "opened_ok (lexer_at d s) (lx_frames (lexer_at d s))" "source_ok (lg_source s)" "ground s"
    "\<not> lx_comment (lexer_at d s)" "\<not> lx_command (lexer_at d s)" "lx_kind (lexer_at d s) = CSH_TOKEN_WORD"
  using assms by (auto simp: word_at_def work_ok_def)

lemma frame_raw: "opened_ok l frs \<Longrightarrow> frs \<noteq> [] \<Longrightarrow> lx_raw l \<noteq> []"
  by (cases frs) (auto simp: opened_ok_def opening_bytes_def split: frame_kind.splits)

text \<open>Delimiters inside a context.\<close>

lemma delimiter_word:
  assumes w: "word_at d s" and n: "so_cursor (lg_source s) + n \<le> length (so_data (lg_source s))"
  shows "achieves (lex_delimiter d n quote s) (\<lambda>s'. word_at d s' \<and> lx_frames (lexer_at d s') = lx_frames (lexer_at d s) \<and>
    length (lx_raw (lexer_at d s')) = length (lx_raw (lexer_at d s)) + n)"
proof (rule achieves_weaken [OF lex_delimiter_achieves [OF word_at_facts(1) [OF w] n]])
  fix s'
  assume s': "work_ok d s' \<and> works d n s s' \<and> continued (lexer_at d s) (lexer_at d s')"
  note f = word_at_facts [OF w]
  have raw: "length (lx_raw (lexer_at d s')) = length (lx_raw (lexer_at d s)) + n"
    using s' works_raw f n by blast
  moreover have "lx_frames (lexer_at d s') = lx_frames (lexer_at d s)"
    using s' works_frames f by blast
  moreover have "word_at d s'"
    using s' works_flags [OF _ f(2)] opened_kept [OF continued_begins f(7,5)] calculation by (intro word_at_flags [OF w]) auto
  ultimately show "word_at d s' \<and> lx_frames (lexer_at d s') = lx_frames (lexer_at d s) \<and>
    length (lx_raw (lexer_at d s')) = length (lx_raw (lexer_at d s)) + n" by simp
qed

text \<open>Opening a context.\<close>

lemma push_word:
  assumes w: "word_at d s" and k: "context_fragment k = fk" "k \<noteq> ARITHMETIC" "opening_bytes k \<le> n"
    and n: "so_cursor (lg_source s) + n \<le> length (so_data (lg_source s))"
  shows "achieves (lex_push d k fk quote n s) (\<lambda>s'. word_at d s' \<and> lx_raw (lexer_at d s') \<noteq> [] \<and>
    (\<exists>f. fm_kind f = k \<and> lx_frames (lexer_at d s') = f # lx_frames (lexer_at d s)))"
proof (rule achieves_weaken [OF lex_push_achieves [OF push_ready_work k(1) n]])
  note f = word_at_facts [OF w]
  show "work_ok d s" "k \<noteq> ARITHMETIC"
    using f k by auto
  fix s'
  assume "work_ok d s' \<and> pushed d k fk quote n s s'"
  then obtain c fc s1 where s': "work_ok d s'" and s1: "lg_source s1 = lg_source s" "length (lg_lexers s1) = length (lg_lexers s)"
    "lexer_at d s1 = opened k fk quote (lexer_at d s) c fc" "works d n s1 s'" "continued (lexer_at d s1) (lexer_at d s')"
    by (auto simp: pushed_def)
  let ?f = "\<lparr>fm_kind = k, fm_quote = quote, fm_fragment = length (lx_fragments (lexer_at d s)), fm_parentheses = 0, fm_stage = 0\<rparr>"
  have d1: "d < length (lg_lexers s1)"
    using s1 f by simp
  have fr: "lx_frames (lexer_at d s') = ?f # lx_frames (lexer_at d s)"
    using works_frames [OF s1(4) d1] s1(3) by simp
  have raw: "length (lx_raw (lexer_at d s')) = length (lx_raw (lexer_at d s)) + n"
    using works_raw [OF s1(4) d1] s1 f n by simp
  have bk: "begins_kept (lexer_at d s) (lexer_at d s')"
    using continued_begins [OF s1(5)] s1(3) by (auto simp: begins_kept_def nth_append)
  have "opened_ok (lexer_at d s') (lx_frames (lexer_at d s))"
    by (rule opened_kept [OF bk f(7,5)]) (use raw in auto)
  moreover have "opened_ok (lexer_at d s') [?f]"
    using continued_begins [OF s1(5)] s1(3) raw k(3) by (auto simp: opened_ok_def begins_kept_def nth_append)
  ultimately have op: "opened_ok (lexer_at d s') (lx_frames (lexer_at d s'))"
    by (simp add: fr opened_ok_def)
  have "same_flags (lexer_at d s) (lexer_at d s')"
    using works_flags [OF s1(4) d1] s1(3) opened_simps(7) [of "lexer_at d s" k fk quote c fc] by (simp add: same_flags_def)
  then show "word_at d s' \<and> lx_raw (lexer_at d s') \<noteq> [] \<and>
    (\<exists>f. fm_kind f = k \<and> lx_frames (lexer_at d s') = f # lx_frames (lexer_at d s))"
    using word_at_flags [OF w _ s' op] frame_raw [OF op] fr by auto
qed

lemma closed_begin: "fr_begin (lx_fragments (closed l) ! i) = fr_begin (lx_fragments l ! i)"
proof (cases "i = fm_fragment (hd (lx_frames l))")
  case True
  then show ?thesis
    by (cases "i < length (lx_fragments l)") (simp_all add: closed_def Let_def list_update_beyond)
qed (simp add: closed_def Let_def)

text \<open>Closing a context that is no arithmetic candidate.\<close>

lemma pop_word:
  assumes w: "word_at d s" and f: "lx_frames (lexer_at d s) = f # frs" "fm_kind f \<noteq> ARITHMETIC" "closing_bytes (fm_kind f) \<le> n"
    and n: "so_cursor (lg_source s) + n \<le> length (so_data (lg_source s))"
  shows "achieves (lex_pop d n s) (\<lambda>s'. word_at d s' \<and> lx_raw (lexer_at d s') \<noteq> [] \<and> lx_frames (lexer_at d s') = frs)"
proof (rule achieves_weaken [OF lex_pop_achieves [OF word_at_facts(1) [OF w] f(1) n _ f(3)]])
  note k = word_at_facts [OF w]
  show "opened_ok (lexer_at d s) [f]"
    using k(7) f(1) by (simp add: opened_ok_def)
  fix s'
  assume "reading d s' \<and> (\<exists>s1. work_ok d s1 \<and> works d n s s1 \<and> continued (lexer_at d s) (lexer_at d s1) \<and>
    lg_source s' = lg_source s1 \<and> length (lg_lexers s') = length (lg_lexers s1) \<and> lexer_at d s' = closed (lexer_at d s1))"
  then obtain s1 where s1: "reading d s'" "work_ok d s1" "works d n s s1" "continued (lexer_at d s) (lexer_at d s1)"
    "lexer_at d s' = closed (lexer_at d s1)" by blast
  have fr1: "lx_frames (lexer_at d s1) = f # frs"
    using works_frames [OF s1(3) k(2)] f(1) by simp
  have w': "work_ok d s'"
    using s1 fr1 f(2) by (simp add: work_reading)
  have raw: "length (lx_raw (lexer_at d s')) = length (lx_raw (lexer_at d s)) + n"
    using works_raw [OF s1(3) k(2,4) n] s1(5) by simp
  have bk: "begins_kept (lexer_at d s) (lexer_at d s')"
    using continued_begins [OF s1(4)] s1(5) by (simp add: begins_kept_def closed_begin)
  have op: "opened_ok (lexer_at d s') frs"
    using f(1) raw opened_kept [OF bk _ k(5), of frs] k(7) by (auto simp: opened_ok_def)
  have "same_flags (lexer_at d s) (lexer_at d s')"
    using works_flags [OF s1(3) k(2)] s1(5) closed_simps(6) [of "lexer_at d s1"] by (simp add: same_flags_def)
  then have "word_at d s'"
    using s1(5) fr1 op by (intro word_at_flags [OF w _ w']) auto
  then show "word_at d s' \<and> lx_raw (lexer_at d s') \<noteq> [] \<and> lx_frames (lexer_at d s') = frs"
    using s1(5) fr1 raw frame_raw [OF k(7)] f(1) by auto
qed

text \<open>Consuming outside a word.\<close>

lemma consume_bytes_inactive:
  "consume_bytes d n s = Some (True, s') \<Longrightarrow> i < length (lg_lexers s) \<Longrightarrow> \<not> lx_active (lexer_at i s) \<Longrightarrow> lexer_at i s' = lexer_at i s"
proof (induction n arbitrary: s)
  case (Suc n)
  obtain s1 where 1: "consume_byte d s = Some (True, s1)" "consume_bytes d n s1 = Some (True, s')"
    using Suc.prems(1) by (auto simp: bind_eq_Some_conv split: if_splits)
  obtain b where "length (lg_lexers s1) = length (lg_lexers s)" "\<forall>i < length (lg_lexers s). captured d b s i s1"
    by (rule consume_byte_True [OF 1(1)]) blast
  then show ?case
    using Suc.IH [OF 1(2)] Suc.prems by (simp add: captured_def captures_byte_def)
qed simp

lemma lex_consume_inactive:
  "lex_consume d n s = Some (True, s') \<Longrightarrow> i < length (lg_lexers s) \<Longrightarrow> \<not> lx_active (lexer_at i s) \<Longrightarrow> lexer_at i s' = lexer_at i s"
  unfolding lex_consume_def by (drule consume_bytes_inactive) auto

lemma waiting_grown:
  assumes "\<forall>i < d. word_ok (lexer_at i s) \<and> lx_command (lexer_at i s)" "consumes d n s s'" "d \<le> length (lg_lexers s)"
  shows "\<forall>i < d. word_ok (lexer_at i s') \<and> lx_command (lexer_at i s')"
proof (intro allI impI)
  fix i
  assume i: "i < d"
  then have g: "grown (lexer_at i s) (lexer_at i s')"
    using assms(2,3) by (auto simp: consumes_def)
  show "word_ok (lexer_at i s') \<and> lx_command (lexer_at i s')"
    using assms(1) i grown_word [OF g] grown_keeps(5) [OF g] word_ok_command by auto
qed

lemma consume_loop:
  assumes l: "loop_ok d s" and a: "\<not> lx_active (lexer_at d s)" and n: "so_cursor (lg_source s) + n \<le> length (so_data (lg_source s))"
  shows "achieves (lex_consume d n s) (loop_ok d)"
proof (rule achieves_weaken [OF lex_consume_achieves [OF _ n]])
  note f = loop_facts [OF l]
  show "ground s" using f by simp
  fix s'
  assume c: "lex_consume d n s = Some (True, s')" and "consumes d n s s' \<and> ground s'"
  then have s': "consumes d n s s'" "ground s'" by auto
  have same: "lexer_at d s' = lexer_at d s"
    by (rule lex_consume_inactive [OF c f(1) a])
  have "\<forall>i < d. word_ok (lexer_at i s') \<and> lx_command (lexer_at i s')"
    using waiting_grown [OF f(7) s'(1)] f(1) by simp
  then have "lexers_base (lg_lexers s')"
    using s'(1) f(2,5) same base_iff [of d "lg_lexers s'"] by (simp add: consumes_def)
  then show "loop_ok d s'"
    using s' same f a by (simp add: loop_ok_def lexing_ok_def consumes_def dollar_ok_def)
qed

subsubsection \<open>Beginning and delivering a token\<close>

text \<open>A lexer without candidates may change freely.\<close>

lemma last_changed_ground:
  assumes g: "ground s" and d: "Suc d = length (lg_lexers s)" "length (lg_lexers s') = length (lg_lexers s)"
    and o: "\<And>i. i < d \<Longrightarrow> lexer_at i s' = lexer_at i s" and a: "lx_arithmetic (lexer_at d s) = []" "lx_arithmetic (lexer_at d s') = []"
    and f: "so_failure (lg_source s') = so_failure (lg_source s)" "lg_error s' = lg_error s" and r: "room_ok (lexer_at d s')"
  shows "ground s'"
proof -
  have "evolves (lg_lexers s) (lg_lexers s')"
    using d(2) o a by (auto simp: evolves_def d(1) [symmetric])
  then have "rewinds_ok (lg_lexers s')"
    using g rewinds_ok_evolves by (auto simp: ground_def)
  moreover have "room_ok (lexer_at i s')" if "i < length (lg_lexers s')" for i
  proof (cases "i = d")
    case False
    then have "i < d"
      using that d by simp
    then show ?thesis
      using o g d that by (simp add: ground_def)
  qed (use r in simp)
  then have "\<forall>l \<in> set (lg_lexers s'). room_ok l"
    by (metis in_set_conv_nth)
  ultimately show ?thesis
    using g f by (simp add: ground_def)
qed

lemma idle_word:
  assumes "word_ok l" "\<not> lx_active l"
  shows "lx_raw l = []" "lx_fragments l = []" "lx_frames l = []" "lx_arithmetic l = []" "\<not> lx_command l"
  using assms by (auto simp: word_ok_def candidates_ok_def)

lemma start_token_ground:
  assumes l: "loop_ok d s" and a: "\<not> lx_active (lexer_at d s)"
  shows "achieves (Some (start_token d s)) ground"
proof -
  note f = loop_facts [OF l]
  note e = idle_word [OF f(5) a]
  obtain b s1 where 1: "token_source d s = (b, s1)"
    by (cases "token_source d s")
  note k = token_source_named [OF 1 f(1)]
  have g1: "ground s1"
    using k(1,2,3,4,6) e f by (intro last_changed_ground [OF f(4,2)]) (auto simp: named_def room_ok_def)
  show ?thesis
  proof (cases b)
    case False
    then show ?thesis
      using 1 fail_failed [OF g1] by (simp add: start_token_def Let_def)
  next
    case True
    let ?s = "set_source (\<lambda>so. so\<lparr>so_alias_eligible := False\<rparr>)
             (set_lexer d (\<lambda>l. l\<lparr>lx_active := True, lx_start := so_position (lg_source s), lx_spelling_position := so_position (lg_source s),
                lx_alias_eligible := so_alias_eligible (lg_source s)\<rparr>) s1)"
    have "ground ?s"
      using k(1,2,4,6) e f by (intro last_changed_ground [OF g1]) (auto simp: named_def room_ok_def)
    then show ?thesis
      using 1 True by (simp add: start_token_def Let_def)
  qed
qed

text \<open>The state behind \<open>start_token\<close>: no byte of the word was read yet.\<close>

lemma start_token_work:
  assumes l: "loop_ok d s" and a: "\<not> lx_active (lexer_at d s)" and t: "start_token d s = (True, s')"
  shows "work_ok d s'" "lx_frames (lexer_at d s') = []" "lx_raw (lexer_at d s') = []" "\<not> lx_command (lexer_at d s')"
    "so_data (lg_source s') = so_data (lg_source s)" "so_cursor (lg_source s') = so_cursor (lg_source s)"
    "so_final (lg_source s') = so_final (lg_source s)" "lx_comment (lexer_at d s') = lx_comment (lexer_at d s)"
    "lx_document (lexer_at d s') = lx_document (lexer_at d s)"
proof -
  note f = loop_facts [OF l]
  note e = idle_word [OF f(5) a]
  note k = start_token_True [OF t f(1)]
  have g: "ground s'"
    using start_token_ground [OF l a] t by simp
  show "lx_frames (lexer_at d s') = []" "lx_raw (lexer_at d s') = []" "\<not> lx_command (lexer_at d s')"
    "so_data (lg_source s') = so_data (lg_source s)" "so_cursor (lg_source s') = so_cursor (lg_source s)"
    "so_final (lg_source s') = so_final (lg_source s)" "lx_comment (lexer_at d s') = lx_comment (lexer_at d s)"
    "lx_document (lexer_at d s') = lx_document (lexer_at d s)"
    using k(1,5) e by (simp_all add: token_started_def)
  moreover have "source_ok (lg_source s')"
    using k(5) f(3) by (simp add: source_ok_def cong: option.case_cong)
  moreover have "spelt_ok (lexer_at d s')" "candidates_ok (lexer_at d s')" "lx_active (lexer_at d s')"
    using k(1) e by (simp_all add: token_started_def spelt_ok_def candidates_ok_def)
  ultimately show "work_ok d s'"
    using f(2,7) g k(3,4) by (simp add: work_ok_def)
qed

definition begun :: "nat \<Rightarrow> lexing \<Rightarrow> lexing \<Rightarrow> bool" where
  "begun d s s' \<longleftrightarrow>
     word_at d s' \<and> so_data (lg_source s') = so_data (lg_source s) \<and> so_cursor (lg_source s') = so_cursor (lg_source s) \<and>
     so_final (lg_source s') = so_final (lg_source s) \<and>
     lx_frames (lexer_at d s') = lx_frames (lexer_at d s) \<and> lx_document (lexer_at d s') = lx_document (lexer_at d s)"

lemma work_ok_kind:
  assumes w: "work_ok d s" and a: "lx_arithmetic (lexer_at d s) = []"
  shows "work_ok d (set_lexer d (\<lambda>l. l\<lparr>lx_kind := k\<rparr>) s)" "work_ok d (set_lexer d (\<lambda>l. l\<lparr>lx_operator := t, lx_kind := k\<rparr>) s)"
    "work_ok d (set_lexer d (\<lambda>l. l\<lparr>lx_operator := t\<rparr>) s)"
proof -
  have d: "Suc d = length (lg_lexers s)" "d < length (lg_lexers s)" and r: "room_ok (lexer_at d s)"
    using w by (auto simp: work_ok_def ground_def)
  have "work_ok d (set_lexer d h s)"
    if h: "\<And>l. lx_raw (h l) = lx_raw l" "\<And>l. lx_raw_capacity (h l) = lx_raw_capacity l" "\<And>l. lx_fragments (h l) = lx_fragments l"
      "\<And>l. lx_frames (h l) = lx_frames l" "\<And>l. lx_arithmetic (h l) = lx_arithmetic l" "\<And>l. lx_active (h l) = lx_active l" for h
  proof -
    have "ground (set_lexer d h s)"
      using w a d r h by (intro last_changed_ground [OF work_ok_ground [OF w] d(1)]) (auto simp: room_ok_def)
    moreover have "spelt_ok (h (lexer_at d s))" "candidates_ok (h (lexer_at d s))" "lx_active (h (lexer_at d s))"
      using w h by (simp_all add: work_ok_def spelt_ok_def candidates_ok_def body_ok_def)
    ultimately show ?thesis
      using w d by (simp add: work_ok_def)
  qed
  then show "work_ok d (set_lexer d (\<lambda>l. l\<lparr>lx_kind := k\<rparr>) s)" "work_ok d (set_lexer d (\<lambda>l. l\<lparr>lx_operator := t, lx_kind := k\<rparr>) s)"
    "work_ok d (set_lexer d (\<lambda>l. l\<lparr>lx_operator := t\<rparr>) s)"
    by simp_all
qed

lemma no_frames_arithmetic: "work_ok d s \<Longrightarrow> lx_frames (lexer_at d s) = [] \<Longrightarrow> lx_arithmetic (lexer_at d s) = []"
  by (auto simp: work_ok_def candidates_ok_def)

lemma start_word_begun:
  assumes b: "at_byte d byte s"
  shows "achieves (Some (start_word d s)) (begun d s)"
proof (cases "lx_active (lexer_at d s)")
  case True
  then show ?thesis
    using at_byte_word [OF b] by (simp add: start_word_def begun_def)
next
  case False
  note l = at_byte_facts(1) [OF b]
  note f = loop_facts [OF l]
  obtain ok s1 where t: "start_token d s = (ok, s1)"
    by (cases "start_token d s")
  show ?thesis
  proof (cases ok)
    case no: False
    then show ?thesis
      using False t start_token_ground [OF l False] by (simp add: start_word_def)
  next
    case True
    with t have t: "start_token d s = (True, s1)" by simp
    note k = start_token_work [OF l False t]
    let ?s = "set_lexer d (\<lambda>l. l\<lparr>lx_kind := CSH_TOKEN_WORD\<rparr>) s1"
    have d: "d < length (lg_lexers s1)"
      using k(1) by (simp add: work_ok_def)
    have "work_ok d ?s"
      using work_ok_kind(1) [OF k(1) no_frames_arithmetic [OF k(1,2)]] .
    then have "begun d s ?s"
      using k d idle_word(3) [OF f(5) False] at_byte_facts(4) [OF b] by (simp add: begun_def word_at_def opened_ok_def)
    then show ?thesis
      using False t by (simp add: start_word_def)
  qed
qed

lemma deliver_settles:
  assumes l: "loop_ok d s" and a: "lx_active (lexer_at d s)" and fr: "lx_frames (lexer_at d s) = []" and r: "lx_raw (lexer_at d s) \<noteq> []"
  shows "settles d (deliver d s) Q"
proof -
  let ?l = "lexer_at d s"
  note f = loop_facts [OF l]
  have room: "\<not> lx_raw_capacity ?l \<le> length (lx_raw ?l)"
    using f(1,4) r by (auto simp: ground_def room_ok_def)
  have w: "spelt_ok ?l" "lx_arithmetic ?l = []"
    using f(5) fr by (auto simp: word_ok_def candidates_ok_def)
  obtain t s' where p: "publish d s = Some (t, s')"
    and t: "tk_raw t = lx_raw ?l" "tk_fragments t = lx_fragments ?l"
    and s': "lg_source s' = lg_source s" "lg_error s' = lg_error s" "length (lg_lexers s') = length (lg_lexers s)"
      "\<And>i. i \<noteq> d \<Longrightarrow> lexer_at i s' = lexer_at i s" "lx_raw (lexer_at d s') = []" "lx_fragments (lexer_at d s') = []"
      "lx_frames (lexer_at d s') = []" "lx_arithmetic (lexer_at d s') = []" "\<not> lx_active (lexer_at d s')" "\<not> lx_command (lexer_at d s')"
    using room f(1,6) fr w(2) by (simp add: publish_def Let_def)
  have "token_ok t"
    using w(1) fr r by (auto simp: token_ok_def t spelt_ok_def in_set_conv_nth)
  moreover have "ground s'"
    using s' w(2) by (intro last_changed_ground [OF f(4,2)]) (auto simp: room_ok_def)
  moreover have "word_ok (lexer_at d s')"
    using s' by (simp add: word_ok_def spelt_ok_def opened_ok_def candidates_ok_def)
  ultimately show ?thesis
    using p s' f base_iff [of d "lg_lexers s'"] by (simp add: deliver_def loop_ok_def lexing_ok_def dollar_ok_def)
qed

subsubsection \<open>Contexts of a byte\<close>

lemma in_frame_cases:
  assumes "in_frame l k"
  obtains f frs where "lx_frames l = f # frs" "fm_kind f = k"
  using assms by (auto simp: in_frame_def split: list.splits)

lemma frame_active: "word_ok l \<Longrightarrow> lx_frames l \<noteq> [] \<Longrightarrow> lx_active l"
  by (auto simp: word_ok_def split: if_splits)

lemma in_frame_active: "word_ok l \<Longrightarrow> in_frame l k \<Longrightarrow> lx_active l"
  by (rule frame_active) (auto elim: in_frame_cases)

lemma frame_word_at: "at_byte d b s \<Longrightarrow> in_frame (lexer_at d s) k \<Longrightarrow> word_at d s"
  using at_byte_word [of d b s] at_byte_facts(1) [of d b s] loop_facts(5) [of d s] in_frame_active by blast

lemma at_byte_room: "at_byte d b s \<Longrightarrow> so_cursor (lg_source s) + 1 \<le> length (so_data (lg_source s))"
  using at_byte_facts(3) [of d b s] by simp

text \<open>Changing the innermost frame but for what it stands for.\<close>

lemma set_frame_above:
  assumes "ck_frame_count (hd (lx_arithmetic l)) < length (lx_frames l)" "ck_fragment_count (hd (lx_arithmetic l)) \<le> length (lx_fragments l)"
  shows "extends_above l (l\<lparr>lx_frames := (case lx_frames l of [] \<Rightarrow> [] | fr # frs \<Rightarrow> f fr # frs)\<rparr>)"
  using assms by (cases l) (auto simp: extends_above_def shell_def husk_def core_def Let_def Suc_diff_le split: list.splits)

lemma candidates_top: "fm_kind g = fm_kind f \<Longrightarrow> fm_fragment g = fm_fragment f \<Longrightarrow> candidates (g # frs) = candidates (f # frs)"
  by simp

lemma set_frame_word:
  assumes w: "word_at d s" and f: "\<And>fr. fm_kind (f fr) = fm_kind fr" "\<And>fr. fm_fragment (f fr) = fm_fragment fr"
  shows "word_at d (set_frame d f s)"
proof -
  let ?l = "lexer_at d s"
  let ?h = "\<lambda>l. l\<lparr>lx_frames := (case lx_frames l of [] \<Rightarrow> [] | fr # frs \<Rightarrow> f fr # frs)\<rparr>"
  note k = word_at_facts [OF w]
  have map: "map fm_fragment (case frs of [] \<Rightarrow> [] | fr # frs \<Rightarrow> f fr # frs) = map fm_fragment frs"
    "candidates (case frs of [] \<Rightarrow> [] | fr # frs \<Rightarrow> f fr # frs) = candidates frs" for frs
    using f by (simp_all split: list.split)
  have "ground (set_frame d f s)"
    unfolding set_frame_def
  proof (rule set_last_ground [OF k(9,3)])
    assume "lx_arithmetic ?l \<noteq> []"
    then show "extends_above ?l (?h ?l)"
      using work_counts [OF k(1)] by (intro set_frame_above) (auto simp: less_imp_le)
  qed (simp_all add: room_ok_def)
  moreover have "spelt_ok (?h ?l)"
    using k(5) f by (cases "lx_frames ?l") (simp_all add: spelt_ok_def)
  moreover have "candidates_ok (?h ?l)"
    using k(6) by (simp add: candidates_ok_def body_ok_def map)
  moreover have "opened_ok (?h ?l) (lx_frames (?h ?l))"
    using k(7) f by (cases "lx_frames ?l") (simp_all add: opened_ok_def)
  ultimately show ?thesis
    using w k(2) by (simp add: word_at_def work_ok_def set_frame_def)
qed

lemma set_frame_simps [simp]:
  "lg_source (set_frame d f s) = lg_source s"
  "d < length (lg_lexers s) \<Longrightarrow> lx_raw (lexer_at d (set_frame d f s)) = lx_raw (lexer_at d s)"
  "d < length (lg_lexers s) \<Longrightarrow> lx_active (lexer_at d (set_frame d f s)) = lx_active (lexer_at d s)"
  by (simp_all add: set_frame_def)

lemma set_frame_at_byte:
  assumes b: "at_byte d b s" and i: "in_frame (lexer_at d s) k"
    and f: "\<And>fr. fm_kind (f fr) = fm_kind fr" "\<And>fr. fm_fragment (f fr) = fm_fragment fr"
  shows "at_byte d b (set_frame d f s)"
proof -
  have w: "word_at d s"
    by (rule frame_word_at [OF b i])
  note k = word_at_facts [OF w]
  have w': "word_at d (set_frame d f s)"
    using w f by (rule set_frame_word)
  have "lx_raw (lexer_at d s) \<noteq> []"
    using i frame_raw [OF k(7)] by (auto elim: in_frame_cases)
  then have "loop_ok d (set_frame d f s)"
    using k(2) by (intro word_at_loop [OF w']) simp
  then show ?thesis
    using b word_at_facts(10,12) [OF w'] by (auto simp: at_byte_def)
qed

lemma parameter_context_keeps [simp]:
  "fm_kind (parameter_context b f) = fm_kind f" "fm_fragment (parameter_context b f) = fm_fragment f"
  by (simp_all add: parameter_context_def Let_def)

lemma settles_pop:
  assumes w: "word_at d s" and f: "lx_frames (lexer_at d s) = f # frs" "fm_kind f \<noteq> ARITHMETIC" "closing_bytes (fm_kind f) \<le> n"
    and n: "so_cursor (lg_source s) + n \<le> length (so_data (lg_source s))"
  shows "settles d (attempt (lex_pop d n s) step_on) Q"
  by (rule settles_attempt [OF pop_word [OF assms]]) (auto intro: word_at_loop)

lemma settles_push:
  assumes w: "word_at d s" and k: "context_fragment k = fk" "k \<noteq> ARITHMETIC" "opening_bytes k \<le> n"
    and n: "so_cursor (lg_source s) + n \<le> length (so_data (lg_source s))"
  shows "settles d (attempt (lex_push d k fk quote n s) step_on) Q"
  by (rule settles_attempt [OF push_word [OF assms]]) (auto intro: word_at_loop)

subsubsection \<open>The steps\<close>

lemma idle_comment:
  assumes l: "loop_ok d s" and a: "\<not> lx_active (lexer_at d s)"
  shows "loop_ok d (set_lexer d (\<lambda>l. l\<lparr>lx_comment := c\<rparr>) s)"
proof -
  note f = loop_facts [OF l]
  note e = idle_word [OF f(5) a]
  let ?s = "set_lexer d (\<lambda>l. l\<lparr>lx_comment := c\<rparr>) s"
  have "ground ?s"
    using e f by (intro last_changed_ground [OF f(4,2)]) (auto simp: room_ok_def)
  moreover have "word_ok (lexer_at d ?s)"
    using e a f(1) by (simp add: word_ok_def spelt_ok_def opened_ok_def candidates_ok_def)
  ultimately show ?thesis
    using f a base_iff [of d "lg_lexers ?s"] by (simp add: loop_ok_def lexing_ok_def dollar_ok_def)
qed

lemma step_hash_settles: "at_byte d b s \<Longrightarrow> settles d (step_hash d b s) (at_byte d b)"
  using idle_comment at_byte_facts(1) by (simp add: step_hash_def Let_def)

lemma step_comment_settles:
  assumes l: "loop_ok d s" and b: "b \<noteq> CHR 0x00" "drop (so_cursor (lg_source s)) (so_data (lg_source s)) = b # r"
    and k: "lx_active (lexer_at d s) \<Longrightarrow> lx_kind (lexer_at d s) = CSH_TOKEN_WORD"
  shows "settles d (step_comment d b s) (at_byte d b)"
proof (cases "lx_comment (lexer_at d s)")
  case False
  then show ?thesis
    using assms by (simp add: step_comment_def at_byte_def)
next
  case True
  note f = loop_facts [OF l]
  have a: "\<not> lx_active (lexer_at d s)"
    using f(5) True by (auto simp: word_ok_def)
  have "settles d (attempt (lex_consume d 1 s) step_on) (at_byte d b)"
    using drop_ConsD [OF b(2)] by (intro settles_attempt [OF consume_loop [OF l a]]) simp_all
  then show ?thesis
    using True idle_comment [OF l a] b f(1) a by (simp add: step_comment_def at_byte_def)
qed

lemma step_simple_settles:
  assumes b: "at_byte d b s"
  shows "settles d (step_simple cx d s) (at_byte d b)"
proof (cases "in_frame (lexer_at d s) SIMPLE")
  case False
  then show ?thesis
    using b by (simp add: step_simple_def)
next
  case True
  then obtain f frs where f: "lx_frames (lexer_at d s) = f # frs" "fm_kind f = SIMPLE"
    by (rule in_frame_cases)
  have "settles d (case r of
               LOOK_MORE \<Rightarrow> Some (Return CSH_LEX_MORE None, s1)
             | LOOK_BYTE c physical \<Rightarrow>
                 if lex_name_char c then attempt (lex_delimiter d physical (frame_quote (lexer_at d s1)) s1) step_on
                 else attempt (lex_pop d 0 s1) step_on
             | _ \<Rightarrow> attempt (lex_pop d 0 s1) step_on) (at_byte d b)"
    if s1: "at_byte d b s1" "lexer_at d s1 = lexer_at d s" and seen: "seen_ok 0 (lg_source s1) r" for r s1
  proof -
    have w: "word_at d s1"
      using s1 True by (auto intro: frame_word_at)
    have pop: "settles d (attempt (lex_pop d 0 s1) step_on) (at_byte d b)"
      using f s1 at_byte_facts(3) [OF s1(1)] by (intro settles_pop [OF w]) (auto simp: closing_bytes_def)
    have "settles d (attempt (lex_delimiter d p q s1) step_on) (at_byte d b)" if "r = LOOK_BYTE c p" "lex_name_char c" for c p q
    proof (rule settles_attempt [OF delimiter_word [OF w]])
      show "so_cursor (lg_source s1) + p \<le> length (so_data (lg_source s1))"
        using seen that name_char_ascii by (simp add: seen_ok_def)
      fix s'
      assume "word_at d s' \<and> lx_frames (lexer_at d s') = lx_frames (lexer_at d s1) \<and>
        length (lx_raw (lexer_at d s')) = length (lx_raw (lexer_at d s1)) + p"
      then show "settles d (step_on s') (at_byte d b)"
        using word_at_loop [of d s'] frame_raw [OF word_at_facts(7), of d s'] f s1 by simp
    qed
    then show ?thesis
      using pop at_byte_facts(1) [OF s1(1)] by (simp split: look.split)
  qed
  then have "settles d (lex_peek cx 0 s \<bind> (\<lambda>(look, s). case look of
               LOOK_MORE \<Rightarrow> Some (Return CSH_LEX_MORE None, s)
             | LOOK_BYTE c physical \<Rightarrow>
                 if lex_name_char c then attempt (lex_delimiter d physical (frame_quote (lexer_at d s)) s) step_on
                 else attempt (lex_pop d 0 s) step_on
             | _ \<Rightarrow> attempt (lex_pop d 0 s) step_on)) (at_byte d b)"
    using loop_facts(3) [OF at_byte_facts(1) [OF b]] b
    by (intro settles_peek) (simp_all add: seen_ok_def)
  then show ?thesis
    using True by (simp add: step_simple_def)
qed

lemma begun_facts:
  assumes "begun d s s'"
  shows "word_at d s'" "lg_source s' = lg_source s' \<and> so_data (lg_source s') = so_data (lg_source s)"
    "so_cursor (lg_source s') = so_cursor (lg_source s)" "lx_frames (lexer_at d s') = lx_frames (lexer_at d s)"
    "d < length (lg_lexers s')"
  using assms word_at_facts(2) by (auto simp: begun_def)

lemma step_wide_settles:
  assumes b: "at_byte d b s" and m: "mbrlen_ok cx"
  shows "settles d (step_wide cx d s) (at_byte d b)"
proof -
  let ?w = "csh_character_length cx (drop (so_cursor (lg_source s)) (so_data (lg_source s))) True (so_final (lg_source s))"
  have le: "so_cursor (lg_source s) + ?w \<le> length (so_data (lg_source s))"
    using character_length_le [OF m, of "drop (so_cursor (lg_source s)) (so_data (lg_source s))" True "so_final (lg_source s)"]
      at_byte_facts(3) [OF b] by (simp del: drop_drop)
  have "settles d (attempt (Some (start_word d s)) (\<lambda>s.
          let s = (if in_frame (lexer_at d s) PARAMETER then set_frame d (parameter_context None) s else s)
          in attempt (lex_piece d CSH_FRAGMENT_TEXT (frame_quote (lexer_at d s)) ?w s) step_on)) (at_byte d b)" if "1 < ?w"
  proof (rule settles_attempt [OF start_word_begun [OF b]])
    fix s'
    assume "begun d s s'"
    note f = begun_facts [OF this]
    let ?s = "if in_frame (lexer_at d s') PARAMETER then set_frame d (parameter_context None) s' else s'"
    have "word_at d ?s"
      using f(1) by (auto intro: set_frame_word)
    moreover have "so_cursor (lg_source ?s) + ?w \<le> length (so_data (lg_source ?s))"
      using f le by simp
    ultimately show "settles d (let s = ?s in attempt (lex_piece d CSH_FRAGMENT_TEXT (frame_quote (lexer_at d s)) ?w s) step_on) (at_byte d b)"
      unfolding Let_def using that by (intro settles_piece) (simp_all add: piece_sized_def)
  qed
  then show ?thesis
    using b at_byte_facts(1) [OF b] unfolding step_wide_def Let_def by (simp only: settles_simps settles_if returns_ok.simps simp_thms) blast
qed

lemma settles_text:
  "at_byte d b s \<Longrightarrow> in_frame (lexer_at d s) k \<Longrightarrow> settles d (attempt (lex_piece d CSH_FRAGMENT_TEXT quote 1 s) step_on) Q"
  by (rule settles_piece [OF frame_word_at]) (auto simp: piece_sized_def dest: at_byte_facts(3))

lemma settles_close:
  assumes b: "at_byte d b s" and i: "in_frame (lexer_at d s) k" and k: "k \<noteq> ARITHMETIC"
  shows "settles d (attempt (lex_pop d 1 s) step_on) Q"
proof -
  obtain f frs where f: "lx_frames (lexer_at d s) = f # frs" "fm_kind f = k"
    using i by (rule in_frame_cases)
  show ?thesis
    by (rule settles_pop [OF frame_word_at [OF b i] f(1)])
      (use f k at_byte_facts(3) [OF b] in \<open>auto simp: closing_bytes_def split: frame_kind.splits\<close>)
qed

lemma step_single_settles: "at_byte d b s \<Longrightarrow> settles d (step_single d b s) (at_byte d b)"
  using settles_text [of d b s SINGLE] settles_close [of d b s SINGLE] by (simp add: step_single_def)

lemma step_parameter_settles: "at_byte d b s \<Longrightarrow> settles d (step_parameter d b s) (at_byte d b)"
  using settles_close [of d b s PARAMETER] set_frame_at_byte [of d b s PARAMETER] by (auto simp: step_parameter_def)

lemma step_raw_quote_settles: "at_byte d b s \<Longrightarrow> settles d (step_raw_quote d b s) (at_byte d b)"
  using settles_text [of d b s DOLLAR_SINGLE] settles_close [of d b s DOLLAR_SINGLE]
    settles_text [of d b s BACKQUOTE] settles_close [of d b s BACKQUOTE]
  by (auto simp: step_raw_quote_def Let_def)

lemma unterminated_fails:
  assumes "loop_ok d s" "m \<noteq> []"
  shows "failed_ok (lex_fail_at e m n p s)"
  using loop_facts [OF assms(1)] assms(2) by (intro fail_at_failed) auto

lemma step_escape_settles:
  assumes b: "at_byte d b s" and m: "mbrlen_ok cx"
  shows "settles d (step_escape cx d b s) (at_byte d b)"
proof (cases "b = CHR 0x5C")
  case False
  then show ?thesis
    using b by (simp add: step_escape_def Let_def)
next
  case bs: True
  note l = at_byte_facts(1) [OF b]
  let ?so = "lg_source s" and ?l = "lexer_at d s"
  show ?thesis
  proof (cases "drop (so_cursor ?so + 1) (so_data ?so)")
    case Nil
    then show ?thesis
      using bs l unterminated_fails [OF l, of "''unterminated escape''"]
      by (simp add: step_escape_def Let_def lex_fail_def)
  next
    case (Cons e r)
    let ?w = "csh_character_length cx (e # r) True (so_final ?so)"
    have len: "length (so_data ?so) - (so_cursor ?so + 1) = Suc (length r)"
      using arg_cong [OF Cons, of length] by simp
    then have le: "so_cursor ?so + (1 + ?w) \<le> length (so_data ?so)" and two: "so_cursor ?so + 2 \<le> length (so_data ?so)"
      using character_length_le [OF m, of "e # r" True "so_final ?so"] by simp_all
    have esc: "settles d (attempt (lex_piece d CSH_FRAGMENT_ESCAPE q (1 + ?w) s1) step_on) (at_byte d b)"
      if "word_at d s1" "so_data (lg_source s1) = so_data ?so" "so_cursor (lg_source s1) = so_cursor ?so" "?w \<noteq> 0" for s1 q
      using that le by (intro settles_piece [OF that(1)]) (simp_all add: piece_sized_def)
    have "settles d (attempt (Some (start_word d s)) (\<lambda>s. attempt (lex_piece d CSH_FRAGMENT_ESCAPE q (1 + ?w) s) step_on)) (at_byte d b)"
      if "?w \<noteq> 0" for q
      by (rule settles_attempt [OF start_word_begun [OF b]], rule esc) (use that in \<open>auto dest: begun_facts\<close>)
    moreover have "settles d (attempt (lex_piece d CSH_FRAGMENT_CONTINUATION q 2 s) step_on) (at_byte d b)" if "lx_active ?l" for q
      using two by (intro settles_piece [OF at_byte_word [OF b that]]) (simp_all add: piece_sized_def)
    moreover have "settles d (attempt (lex_consume d 2 s) step_on) (at_byte d b)" if "\<not> lx_active ?l"
      using two by (intro settles_attempt [OF consume_loop [OF l that]]) simp_all
    moreover have "settles d (attempt (lex_piece d CSH_FRAGMENT_ESCAPE q (1 + ?w) s) step_on) (at_byte d b)"
      if "in_frame ?l DOLLAR_SINGLE" "?w \<noteq> 0" for q
      using that frame_word_at [OF b] by (intro esc) auto
    ultimately show ?thesis
      using bs Cons b l unfolding step_escape_def Let_def
      by (simp only: list.case settles_simps settles_if returns_ok.simps simp_thms) blast
  qed
qed

lemma at_byte_raw:
  assumes "at_byte d b s" "b \<noteq> CHR ''$''" "lx_active (lexer_at d s)"
  shows "lx_raw (lexer_at d s) \<noteq> []"
  using assms loop_facts(9) [OF at_byte_facts(1) [OF assms(1)]] by (auto simp: at_byte_def dollar_ok_def)

text \<open>The first byte of an operator or newline.\<close>

lemma first_byte:
  assumes w: "work_ok d s" and e: "lx_frames (lexer_at d s) = []" "\<not> lx_comment (lexer_at d s)" "\<not> lx_command (lexer_at d s)"
    and n: "so_cursor (lg_source s) < length (so_data (lg_source s))"
  shows "achieves (lex_consume d 1 s) (\<lambda>s'. loop_ok d s' \<and> lx_active (lexer_at d s') \<and> lx_frames (lexer_at d s') = [] \<and>
    lx_raw (lexer_at d s') \<noteq> [])"
proof (rule achieves_weaken [OF lex_consume_achieves [OF work_ok_ground [OF w]]])
  show "so_cursor (lg_source s) + 1 \<le> length (so_data (lg_source s))"
    using n by simp
  fix s'
  assume "consumes d 1 s s' \<and> ground s'"
  then have c: "consumes d 1 s s'" by simp
  have d: "d < length (lg_lexers s)" "lx_active (lexer_at d s)"
    using w by (auto simp: work_ok_def)
  have g: "grown (lexer_at d s) (lexer_at d s')"
    using c d by (simp add: consumes_def)
  note k = grown_keeps [OF g]
  have w': "work_ok d s'"
    by (rule consumes_work [OF c w])
  have raw: "lx_raw (lexer_at d s') \<noteq> []"
    using works_raw [OF consumes_works [OF c] d] n by (cases "lx_raw (lexer_at d s')") auto
  have "loop_ok d s'"
    using e k raw by (intro work_loop [OF w']) (simp_all add: opened_ok_def)
  then show "loop_ok d s' \<and> lx_active (lexer_at d s') \<and> lx_frames (lexer_at d s') = [] \<and> lx_raw (lexer_at d s') \<noteq> []"
    using raw k e d by simp
qed

lemma step_delimiting_settles:
  assumes b: "at_byte d b s"
  shows "settles d (step_delimiting d b s) (at_byte d b)"
proof (cases "lx_document (lexer_at d s) \<or> lx_frames (lexer_at d s) \<noteq> [] \<or> \<not> ((b = CHR '' '' \<or> b = CHR 0x09) \<or> b = CHR 0x0A \<or> operator_char b)")
  case True
  then show ?thesis
    using b by (simp add: step_delimiting_def Let_def)
next
  case False
  note l = at_byte_facts(1) [OF b]
  note n = at_byte_facts(3) [OF b]
  have nd: "b \<noteq> CHR ''$''"
    using False by (auto simp: operator_char_def)
  have fr: "lx_frames (lexer_at d s) = []"
    using False by simp
  have del: "settles d (deliver d s) (at_byte d b)" if "lx_active (lexer_at d s)"
    using deliver_settles [OF l that fr at_byte_raw [OF b nd that]] .
  have blank: "settles d (attempt (lex_consume d 1 s) step_on) (at_byte d b)" if "\<not> lx_active (lexer_at d s)"
    using n by (intro settles_attempt [OF consume_loop [OF l that]]) simp_all
  have tok: "settles d (attempt (Some (start_token d s)) (\<lambda>s. attempt (lex_consume d 1 (set_lexer d h s)) k)) (at_byte d b)"
    if a: "\<not> lx_active (lexer_at d s)"
      and h: "\<And>s'. work_ok d s' \<Longrightarrow> lx_arithmetic (lexer_at d s') = [] \<Longrightarrow> work_ok d (set_lexer d h s')"
        "\<And>l. lx_frames (h l) = lx_frames l" "\<And>l. lx_comment (h l) = lx_comment l" "\<And>l. lx_command (h l) = lx_command l"
      and k: "\<And>s'. loop_ok d s' \<Longrightarrow> lx_active (lexer_at d s') \<Longrightarrow> lx_frames (lexer_at d s') = [] \<Longrightarrow> lx_raw (lexer_at d s') \<noteq> [] \<Longrightarrow>
        settles d (k s') (at_byte d b)" for h k
  proof (rule settles_attempt [OF start_token_ground [OF l a]])
    fix s1
    assume "Some (start_token d s) = Some (True, s1)"
    then have t: "start_token d s = (True, s1)" by simp
    note f = start_token_work [OF l a t]
    have d1: "d < length (lg_lexers s1)"
      using f(1) by (simp add: work_ok_def)
    show "settles d (attempt (lex_consume d 1 (set_lexer d h s1)) k) (at_byte d b)"
      using k d1 f(2,4,5,6,8) h(2-4) n at_byte_facts(4) [OF b] h(1) [OF f(1) no_frames_arithmetic [OF f(1,2)]]
      by (intro settles_attempt [OF first_byte]) auto
  qed
  have new: "settles d (attempt (Some (start_token d s)) (\<lambda>s. attempt (lex_consume d 1 (set_lexer d (\<lambda>l. l\<lparr>lx_kind := CSH_TOKEN_NEWLINE\<rparr>) s)) (deliver d))) (at_byte d b)"
    if "\<not> lx_active (lexer_at d s)"
    by (rule tok [OF that]) (auto intro: work_ok_kind deliver_settles)
  have op: "settles d (attempt (Some (start_token d s)) (\<lambda>s. attempt (lex_consume d 1 (set_lexer d (\<lambda>l. l\<lparr>lx_operator := [b],
              lx_kind := (case map_of lexer_operators [b] of None \<Rightarrow> lx_kind l | Some k \<Rightarrow> k)\<rparr>) s)) step_on)) (at_byte d b)"
    if "\<not> lx_active (lexer_at d s)"
  proof (rule tok [OF that])
    fix s'
    assume w: "work_ok d s'" "lx_arithmetic (lexer_at d s') = []"
    have "d < length (lg_lexers s')"
      using w(1) by (simp add: work_ok_def)
    then have "set_lexer d (\<lambda>l. l\<lparr>lx_operator := [b], lx_kind := (case map_of lexer_operators [b] of None \<Rightarrow> lx_kind l | Some k \<Rightarrow> k)\<rparr>) s' =
      set_lexer d (\<lambda>l. l\<lparr>lx_operator := [b], lx_kind := (case map_of lexer_operators [b] of None \<Rightarrow> lx_kind (lexer_at d s') | Some k \<Rightarrow> k)\<rparr>) s'"
      by (simp add: set_lexer_def)
    then show "work_ok d (set_lexer d (\<lambda>l. l\<lparr>lx_operator := [b], lx_kind := (case map_of lexer_operators [b] of None \<Rightarrow> lx_kind l | Some k \<Rightarrow> k)\<rparr>) s')"
      using work_ok_kind(2) [OF w] by simp
  qed auto
  have eq: "step_delimiting d b s =
    (if lx_active (lexer_at d s) then deliver d s
      else if b = CHR '' '' \<or> b = CHR 0x09 then attempt (lex_consume d 1 s) step_on
      else if b = CHR 0x0A then attempt (Some (start_token d s)) (\<lambda>s. attempt (lex_consume d 1 (set_lexer d (\<lambda>l. l\<lparr>lx_kind := CSH_TOKEN_NEWLINE\<rparr>) s)) (deliver d))
      else attempt (Some (start_token d s)) (\<lambda>s. attempt (lex_consume d 1 (set_lexer d (\<lambda>l. l\<lparr>lx_operator := [b],
              lx_kind := (case map_of lexer_operators [b] of None \<Rightarrow> lx_kind l | Some k \<Rightarrow> k)\<rparr>) s)) step_on))"
    unfolding step_delimiting_def Let_def if_not_P [OF False] by simp
  show ?thesis
    unfolding eq settles_if using del blank new op by blast
qed

subsubsection \<open>Operators and the end of the input\<close>

lemma operator_spellings: "(t, k) \<in> set lexer_operators \<Longrightarrow> length t \<le> 3 \<and> set t \<subseteq> set ''|&;()<>-''"
  by (auto simp: lexer_operators_def)

lemma extendible_length:
  assumes "extendible op"
  shows "length op < 3" "CHR 0x00 \<notin> set op"
proof -
  obtain t k where t: "(t, k) \<in> set lexer_operators" "take (length op) t = op" "length op < length t"
    using assms by (auto simp: extendible_def list_ex_iff)
  note o = operator_spellings [OF t(1)]
  show "length op < 3"
    using t(3) o by simp
  have "set op \<subseteq> set t"
    using set_take_subset [of "length op" t] t(2) by simp
  then show "CHR 0x00 \<notin> set op"
    using o by auto
qed

lemma operator_byte:
  assumes "map_of lexer_operators (takeWhile (\<lambda>c. c \<noteq> CHR 0x00) (op @ [c])) = Some k" "CHR 0x00 \<notin> set op"
  shows "(of_char c :: nat) < 0x80"
proof (cases "c = CHR 0x00")
  case False
  then have "takeWhile (\<lambda>c. c \<noteq> CHR 0x00) (op @ [c]) = op @ [c]"
    using assms(2) by (subst takeWhile_eq_all_conv) auto
  then have "(op @ [c], k) \<in> set lexer_operators"
    using map_of_SomeD [OF assms(1)] by simp
  then have "c \<in> set ''|&;()<>-''"
    using operator_spellings by fastforce
  then show ?thesis by auto
qed simp

definition complete_at :: "nat \<Rightarrow> lexing \<Rightarrow> bool" where
  "complete_at d s \<longleftrightarrow> loop_ok d s \<and> lx_active (lexer_at d s) \<and> lx_frames (lexer_at d s) = [] \<and> lx_raw (lexer_at d s) \<noteq> []"

lemma complete_deliver: "complete_at d s \<Longrightarrow> settles d (deliver d s) Q"
  by (rule deliver_settles) (simp_all add: complete_at_def)

lemma complete_look:
  "complete_at d s \<Longrightarrow> source_ok ((lg_source s)\<lparr>so_look := lk\<rparr>) \<Longrightarrow> complete_at d (set_source (\<lambda>so. so\<lparr>so_look := lk\<rparr>) s)"
  by (simp add: complete_at_def)

text \<open>The next part of an operator.\<close>

lemma operator_part:
  assumes c: "complete_at d s" and n: "so_cursor (lg_source s) + n \<le> length (so_data (lg_source s))"
  shows "achieves (lex_delimiter d n quote (set_lexer d (\<lambda>l. l\<lparr>lx_kind := k\<rparr>) s))
    (\<lambda>s'. complete_at d (set_lexer d (\<lambda>l. l\<lparr>lx_operator := t\<rparr>) s'))"
proof -
  have l: "loop_ok d s" "lx_active (lexer_at d s)" "lx_frames (lexer_at d s) = []" "lx_raw (lexer_at d s) \<noteq> []"
    using c by (auto simp: complete_at_def)
  note f = loop_facts [OF l(1)]
  have w: "work_ok d s"
    by (rule loop_work [OF l(1,2)])
  let ?s = "set_lexer d (\<lambda>l. l\<lparr>lx_kind := k\<rparr>) s"
  have wk: "work_ok d ?s"
    by (rule work_ok_kind(1) [OF w no_frames_arithmetic [OF w l(3)]])
  have nc: "\<not> lx_comment (lexer_at d s)"
    using f(5) l(2) by (simp add: word_ok_def)
  show ?thesis
  proof (rule achieves_weaken [OF lex_delimiter_achieves [OF wk]])
    show "so_cursor (lg_source ?s) + n \<le> length (so_data (lg_source ?s))"
      using n by simp
    fix s'
    assume "work_ok d s' \<and> works d n ?s s' \<and> continued (lexer_at d ?s) (lexer_at d s')"
    then have s': "work_ok d s'" "works d n ?s s'" by auto
    have d: "d < length (lg_lexers ?s)" "d < length (lg_lexers s')"
      using f(1) s'(1) by (auto simp: work_ok_def)
    have fl: "same_flags (lexer_at d ?s) (lexer_at d s')" and fr: "lx_frames (lexer_at d s') = []"
      using works_flags [OF s'(2) d(1)] works_frames [OF s'(2) d(1)] l(3) f(1) by simp_all
    have raw: "lx_raw (lexer_at d s') \<noteq> []"
      using works_raw_length [OF s'(2) d(1)] l(4) f(1) by (cases "lx_raw (lexer_at d s')") auto
    let ?t = "set_lexer d (\<lambda>l. l\<lparr>lx_operator := t\<rparr>) s'"
    have wt: "work_ok d ?t"
      by (rule work_ok_kind(3) [OF s'(1) no_frames_arithmetic [OF s'(1) fr]])
    have "loop_ok d ?t"
      using d fr raw fl nc f(1,6) by (intro work_loop [OF wt]) (simp_all add: opened_ok_def same_flags_def)
    then show "complete_at d ?t"
      using d fr raw s'(1) by (simp add: complete_at_def work_ok_def)
  qed
qed

lemma operator_step_settles: "complete_at d s \<Longrightarrow> settles d (operator_step cx d op s) Q"
proof (induction "3 - length op" arbitrary: op s rule: less_induct)
  case less
  show ?case
  proof (cases "extendible op")
    case False
    then show ?thesis
      using complete_deliver [OF less.prems] by (subst operator_step.simps) simp
  next
    case True
    note e = extendible_length [OF True]
    have "settles d (case r of
               LOOK_MORE \<Rightarrow> Some (Return CSH_LEX_MORE None, s1)
             | LOOK_EOF \<Rightarrow> deliver d s1
             | LOOK_WIDE _ \<Rightarrow> deliver d s1
             | LOOK_BYTE c physical \<Rightarrow>
                 (case map_of lexer_operators (takeWhile (\<lambda>c. c \<noteq> CHR 0x00) (op @ [c])) of
                    None \<Rightarrow> deliver d s1
                  | Some k \<Rightarrow>
                      attempt (lex_delimiter d physical CSH_QUOTE_NONE (set_lexer d (\<lambda>l. l\<lparr>lx_kind := k\<rparr>) s1))
                        (\<lambda>s. operator_step cx d (op @ [c]) (set_lexer d (\<lambda>l. l\<lparr>lx_operator := op @ [c]\<rparr>) s)))) Q"
      if s1: "complete_at d s1" and seen: "seen_ok 0 (lg_source s1) r" for r s1
    proof -
      have "settles d (attempt (lex_delimiter d p CSH_QUOTE_NONE (set_lexer d (\<lambda>l. l\<lparr>lx_kind := k\<rparr>) s1))
                        (\<lambda>s. operator_step cx d (op @ [c]) (set_lexer d (\<lambda>l. l\<lparr>lx_operator := op @ [c]\<rparr>) s))) Q"
        if r: "r = LOOK_BYTE c p" and k: "map_of lexer_operators (takeWhile (\<lambda>c. c \<noteq> CHR 0x00) (op @ [c])) = Some k" for c p k
      proof (rule settles_attempt [OF operator_part [OF s1]])
        show "so_cursor (lg_source s1) + p \<le> length (so_data (lg_source s1))"
          using seen r operator_byte [OF k e(2)] by (simp add: seen_ok_def)
        show "settles d (operator_step cx d (op @ [c]) (set_lexer d (\<lambda>l. l\<lparr>lx_operator := op @ [c]\<rparr>) s')) Q"
          if "complete_at d (set_lexer d (\<lambda>l. l\<lparr>lx_operator := op @ [c]\<rparr>) s')" for s'
          using less.hyps [OF _ that] e(1) by simp
      qed
      then show ?thesis
        using s1 complete_deliver [OF s1] by (simp add: complete_at_def split: look.split option.split)
    qed
    then have "settles d (lex_peek cx 0 s \<bind> (\<lambda>(look, s). case look of
               LOOK_MORE \<Rightarrow> Some (Return CSH_LEX_MORE None, s)
             | LOOK_EOF \<Rightarrow> deliver d s
             | LOOK_WIDE _ \<Rightarrow> deliver d s
             | LOOK_BYTE c physical \<Rightarrow>
                 (case map_of lexer_operators (takeWhile (\<lambda>c. c \<noteq> CHR 0x00) (op @ [c])) of
                    None \<Rightarrow> deliver d s
                  | Some k \<Rightarrow>
                      attempt (lex_delimiter d physical CSH_QUOTE_NONE (set_lexer d (\<lambda>l. l\<lparr>lx_kind := k\<rparr>) s))
                        (\<lambda>s. operator_step cx d (op @ [c]) (set_lexer d (\<lambda>l. l\<lparr>lx_operator := op @ [c]\<rparr>) s))))) Q"
      using less.prems loop_facts(3) [of d s] complete_look by (intro settles_peek) (simp_all add: complete_at_def seen_ok_def)
    then show ?thesis
      using True by (subst operator_step.simps) simp
  qed
qed

lemma open_fragment_exists:
  "word_ok l \<Longrightarrow> lx_frames l = f # frs \<Longrightarrow> fm_fragment f < length (lx_fragments l)"
  using tree_ok_open(1) [of "lx_fragments l" "open_fragments l" "length (lx_raw l)" "fm_fragment f"]
  by (auto simp: word_ok_def spelt_ok_def)

lemma unterminated_context_nonempty [simp]: "unterminated_context k \<noteq> []"
  by (simp add: unterminated_context_def split: frame_kind.split)

lemma lex_eof_settles:
  "loop_ok d s \<Longrightarrow> lx_frames (lexer_at d s) = frs \<Longrightarrow> (lx_active (lexer_at d s) \<Longrightarrow> lx_raw (lexer_at d s) \<noteq> []) \<Longrightarrow>
   so_cursor (lg_source s) \<le> length (so_data (lg_source s)) \<Longrightarrow> settles d (lex_eof d frs s) Q"
proof (induction frs arbitrary: s)
  case (Cons f frs)
  note k = loop_facts [OF Cons.prems(1)]
  have fr: "fm_fragment f < length (lx_fragments (lexer_at d s))"
    by (rule open_fragment_exists [OF k(5) Cons.prems(2)])
  have act: "lx_active (lexer_at d s)"
    using frame_active [OF k(5)] Cons.prems(2) by simp
  have word: "word_at d s"
    using loop_work [OF Cons.prems(1) act] k act Cons.prems(2) by (auto simp: word_at_def word_ok_def)
  have "settles d (attempt (lex_pop d 0 s) (lex_eof d frs)) Q" if "fm_kind f = SIMPLE"
  proof (rule settles_attempt [OF pop_word [OF word Cons.prems(2)]])
    fix s'
    assume p: "lex_pop d 0 s = Some (True, s')" and
      s': "word_at d s' \<and> lx_raw (lexer_at d s') \<noteq> [] \<and> lx_frames (lexer_at d s') = frs"
    show "settles d (lex_eof d frs s') Q"
      using s' word_at_loop lex_pop_moves(1) [OF p k(1)] Cons.prems(4) by (intro Cons.IH) (auto simp: moves_def)
  qed (use that Cons.prems(4) in \<open>auto simp: closing_bytes_def\<close>)
  moreover have "failed_ok (lex_fail_at d (unterminated_context (fm_kind f)) EOK p s)" for p
    by (rule unterminated_fails [OF Cons.prems(1)]) simp
  ultimately show ?case
    using fr by (simp add: Let_def)
next
  case Nil
  note k = loop_facts [OF Nil.prems(1)]
  have "settles d (deliver d s) Q" if "lx_active (lexer_at d s)"
    using deliver_settles [OF Nil.prems(1) that Nil.prems(2) Nil.prems(3) [OF that]] .
  moreover have "\<exists>f frs. lx_frames (lexer_at (d - 1) s) = f # frs \<and> fm_fragment f < length (lx_fragments (lexer_at (d - 1) s))"
    if d: "d \<noteq> 0"
  proof -
    have w: "word_ok (lexer_at (d - 1) s)" "lx_command (lexer_at (d - 1) s)"
      using k(7) d by auto
    then obtain f frs where "lx_frames (lexer_at (d - 1) s) = f # frs"
      by (auto simp: word_ok_def)
    then show ?thesis
      using open_fragment_exists [OF w(1)] by blast
  qed
  moreover have "failed_ok (lex_fail_at e ''unterminated command substitution'' EOK p s)" for e p
    by (rule unterminated_fails [OF Nil.prems(1)]) simp
  ultimately show ?case
    using Nil.prems(1) by (auto simp: Let_def)
qed

end
