(* ===== verification/Lexer_Candidates.thy ===== *)
theory Lexer_Candidates
  imports Lexer_Rounds Arithmetic_Facts
begin

text \<open>
  Arithmetic candidates: taking a checkpoint, recording the body, replaying it as a command substitution, probing, and
  accepting it.
\<close>

subsection \<open>Arithmetic candidates\<close>

lemma core_simps [simp]:
  "lx_raw (core l) = lx_raw l" "lx_fragments (core l) = lx_fragments l" "lx_frames (core l) = lx_frames l"
  "lx_arithmetic (core l) = lx_arithmetic l" "lx_active (core l) = lx_active l" "lx_comment (core l) = lx_comment l"
  "lx_command (core l) = lx_command l" "lx_kind (core l) = lx_kind l" "core (core l) = core l" "husk (core l) = husk l"
  by (simp_all add: core_def husk_def)

lemma word_ok_core [simp]: "word_ok (core l) \<longleftrightarrow> word_ok l"
  by (simp add: word_ok_def spelt_ok_def opened_ok_def candidates_ok_def body_ok_def)

lemma lexers_base_core [simp]: "lexers_base (map core ls) \<longleftrightarrow> lexers_base ls"
  by (simp add: lexers_base_def)

lemma extends_core: "extends l (core l)" "extends (core l) l"
  by (simp_all add: extends_def)

lemma rewinds_ok_core [simp]: "rewinds_ok (map core ls) \<longleftrightarrow> rewinds_ok ls"
  using rewinds_ok_extends [of ls "map core ls"] rewinds_ok_extends [of "map core ls" ls] extends_core by auto

lemma lexers_ok_core [simp]: "lexers_ok (map core ls) \<longleftrightarrow> lexers_ok ls"
  by (simp add: lexers_ok_iff)

text \<open>Changing the last lexer matters for its own checkpoints only.\<close>

lemma rewound_at_below: "i < d \<Longrightarrow> j \<le> i \<Longrightarrow> rewound_at i (ls[d := l]) j = rewound_at i ls j"
  by (auto simp: rewound_at_def newest_def Let_def)

lemma rewinds_ok_last:
  assumes r: "rewinds_ok ls" and d: "Suc d = length ls"
    and l: "lx_arithmetic l \<noteq> [] \<Longrightarrow> rewindable d (ls[d := l]) \<and> lexers_ok (rewound d (ls[d := l]))"
  shows "rewinds_ok (ls[d := l])"
proof -
  have "rewindable i (ls[d := l]) \<and> lexers_ok (rewound i (ls[d := l]))"
    if i: "i < length ls" "lx_arithmetic (ls[d := l] ! i) \<noteq> []" for i
  proof (cases "i = d")
    case True
    then show ?thesis
      using l that d by simp
  next
    case False
    then have lt: "i < d"
      using i d by simp
    have "rewound i (ls[d := l]) = rewound i ls"
      using rewound_at_below [OF lt] by (simp add: rewound_def)
    moreover have "rewindable i (ls[d := l]) \<longleftrightarrow> rewindable i ls"
      using lt by (auto simp: rewindable_def newest_def Let_def)
    ultimately show ?thesis
      using r i lt by (simp add: rewinds_ok_def)
  qed
  then show ?thesis
    by (simp add: rewinds_ok_def)
qed

subsubsection \<open>Taking a checkpoint\<close>

lemma alias_chain_rebase: "alias_chain n as m \<Longrightarrow> k \<le> n \<Longrightarrow> alias_chain (n - k) (rebase_aliases k as) (m - k)"
proof (induction as arbitrary: n)
  case (Cons a as)
  then show ?case
    using Cons.IH [of "al_end a"] by (auto simp: rebase_aliases_def)
qed (simp add: rebase_aliases_def)

lemma source_ok_compact: "source_ok so \<Longrightarrow> source_ok (compact_source so)"
  using alias_chain_rebase [of "so_cursor so" "so_aliases so" "length (so_data so)" "so_cursor so"]
  by (auto simp: source_ok_def compact_source_def split: option.splits)

lemma word_at_base: "word_at d s \<Longrightarrow> lexers_base (lg_lexers s)"
  using word_at_facts [of d s] base_iff [of d "lg_lexers s"] by (simp add: word_ok_def work_ok_def)

lemma rev_upt_nth: "i \<le> d \<Longrightarrow> rev [0..<Suc d] ! (d - i) = i"
  by (simp add: rev_nth del: upt_Suc)

lemma rewound_checkpoint:
  assumes d: "Suc d = length (lg_lexers s)" and c: "\<not> lx_command (lexer_at d s)"
    and ls: "ls = (lg_lexers s)[d := (lexer_at d s)\<lparr>lx_arithmetic := checkpoint_of d n quote s cap ac # lx_arithmetic (lexer_at d s)\<rparr>]"
  shows "rewound d ls = lg_lexers s"
proof -
  let ?c = "checkpoint_of d n quote s cap ac"
  have new: "newest d ls = ?c"
    using d by (simp add: newest_def ls)
  have cap: "ck_captures ?c ! (d - i) = \<lparr>ca_depth = i, ca_length = length (lx_raw (lexer_at i s)), ca_position = lx_spelling_position (lexer_at i s)\<rparr>"
    if "i \<le> d" for i
  proof -
    have "d - i < length (rev [0..<Suc d])"
      by simp
    then show ?thesis
      using rev_upt_nth [OF that] unfolding checkpoint_of_def Let_def captures_of_def by (simp del: upt_Suc rev_map)
  qed
  have "rewound_at d ls i = lexer_at i s" if "i \<le> d" for i
  proof (cases "i = d")
    case True
    then show ?thesis
      using d c new cap [of d]
      by (cases "lexer_at d s") (simp add: rewound_at_def restored_def truncated_def ls checkpoint_of_def Let_def)
  next
    case False
    then show ?thesis
      using that new cap [of i] by (simp add: rewound_at_def restored_def ls)
  qed
  then show ?thesis
    using d by (auto simp: rewound_def intro!: nth_equalityI simp del: upt_Suc)
qed

lemma ground_same: "ground s \<Longrightarrow> lg_source s' = lg_source s \<Longrightarrow> lg_lexers s' = lg_lexers s \<Longrightarrow> lg_error s' = lg_error s \<Longrightarrow> ground s'"
  by (simp add: ground_def)

lemma checkpoint_fails:
  assumes g: "ground s" and c: "checkpoint_arithmetic d n quote s = (False, s')"
  shows "failed_ok s'"
proof -
  let ?so = "lg_source s"
  obtain b1 s1 where 1: "lex_malloc s = (b1, s1)" by (cases "lex_malloc s")
  obtain b2 c2 s2 where 2: "lex_reserve 0 (length (so_data ?so) - so_cursor ?so) 1 s1 = (b2, c2, s2)" by (rule prod_cases3)
  obtain b3 c3 s3 where 3: "lex_reserve 0 (length (so_aliases ?so)) 96 s2 = (b3, c3, s3)" by (rule prod_cases3)
  obtain b4 s4 where 4: "copy_alias_names (length (so_aliases ?so)) s3 = (b4, s4)" by (cases "copy_alias_names (length (so_aliases ?so)) s3")
  have "ground s1"
    using lex_malloc_keeps [OF 1] ground_same [OF g] by simp
  moreover from this have "ground s2"
    using lex_reserve_keeps [OF 2] ground_same by blast
  moreover from this have "ground s3"
    using lex_reserve_keeps [OF 3] ground_same by blast
  moreover from this have "ground s4"
    using copy_alias_names_keeps [OF 4] ground_same by blast
  ultimately show ?thesis
    using c g 1 2 3 4 fail_failed by (auto simp: checkpoint_arithmetic_def Let_def split: if_splits bool.splits)
qed

lemma checkpoint_of_simps [simp]:
  "ck_fragment_count (checkpoint_of d n quote s cap ac) = length (lx_fragments (lexer_at d s))"
  "ck_frame_count (checkpoint_of d n quote s cap ac) = length (lx_frames (lexer_at d s))"
  "ck_body_begin (checkpoint_of d n quote s cap ac) = 0" "ck_command_length (checkpoint_of d n quote s cap ac) = n"
  "ck_captures (checkpoint_of d n quote s cap ac) = captures_of d s"
  by (simp_all add: checkpoint_of_def Let_def)

lemma captures_of_length:
  assumes "i \<le> d"
  shows "ca_length (captures_of d s ! (d - i)) = length (lx_raw (lexer_at i s))"
proof -
  have "d - i < length (rev [0..<Suc d])" by simp
  then show ?thesis
    unfolding captures_of_def by (simp only: nth_map rev_upt_nth [OF assms] capture_checkpoint.simps)
qed

lemma captures_of_depth: "map ca_depth (captures_of d s) = rev [0..<Suc d]"
  by (simp add: captures_of_def comp_def)

lemma checkpoint_of_ok:
  assumes so: "source_ok (lg_source s)" and g: "ground s" and n: "2 \<le> n" "so_cursor (lg_source s) + n \<le> length (so_data (lg_source s))"
  shows "checkpoint_ok (checkpoint_of d n quote s cap ac)"
proof -
  have "source_ok (ck_source (checkpoint_of d n quote s cap ac))"
    using source_ok_compact [OF so] by (simp add: checkpoint_of_def Let_def source_ok_def compact_source_def)
  then show ?thesis
    using g n by (simp add: checkpoint_ok_def ground_def) (simp add: checkpoint_of_def Let_def)
qed

lemma checkpoint_achieves:
  assumes w: "word_at d s" and n: "2 \<le> n" "so_cursor (lg_source s) + n \<le> length (so_data (lg_source s))"
  shows "achieves (Some (checkpoint_arithmetic d n quote s)) (\<lambda>s'. push_ready d ARITHMETIC s' \<and> lg_source s' = lg_source s \<and>
    (\<exists>c. lexer_at d s' = (lexer_at d s)\<lparr>lx_arithmetic := c # lx_arithmetic (lexer_at d s)\<rparr> \<and>
       ck_fragment_count c = length (lx_fragments (lexer_at d s))))"
proof (cases "checkpoint_arithmetic d n quote s")
  case (Pair ok s')
  note k = word_at_facts [OF w]
  show ?thesis
  proof (cases ok)
    case False
    then show ?thesis
      using Pair checkpoint_fails [OF k(9)] by simp
  next
    case True
    with Pair have t: "checkpoint_arithmetic d n quote s = (True, s')" by simp
    obtain s1 cap ac where s1: "lg_source s1 = lg_source s" "lg_lexers s1 = lg_lexers s" "lg_error s1 = lg_error s"
      and s': "s' = set_lexer d (\<lambda>l. l\<lparr>lx_arithmetic := checkpoint_of d n quote s cap ac # lx_arithmetic l\<rparr>) s1"
      by (rule checkpoint_arithmetic_True [OF t])
    let ?c = "checkpoint_of d n quote s cap ac"
    let ?l = "(lexer_at d s)\<lparr>lx_arithmetic := ?c # lx_arithmetic (lexer_at d s)\<rparr>"
    have ls: "lg_lexers s' = (lg_lexers s)[d := ?l]"
      using s1 by (simp add: s' set_lexer_def)
    have at: "lexer_at d s' = ?l"
      using k(2) ls by simp
    have base: "lexers_base (lg_lexers s)" and rw: "rewinds_ok (lg_lexers s)"
      using word_at_base [OF w] k(9) by (auto simp: ground_def)
    have "rewindable d ((lg_lexers s)[d := ?l])"
      using k(2,4,12) captures_of_length [of _ d s] captures_of_depth [of d s]
      by (auto simp: rewindable_def newest_def Let_def nth_list_update simp del: upt_Suc)
    moreover have "lexers_ok (rewound d ((lg_lexers s)[d := ?l]))"
      using rewound_checkpoint [OF k(3,11) refl] base rw by (simp add: lexers_ok_iff)
    ultimately have "rewinds_ok (lg_lexers s')"
      unfolding ls by (intro rewinds_ok_last [OF rw k(3)]) simp
    moreover have "room_ok ?l"
      using k(2,9) checkpoint_of_ok [OF k(8,9) n] by (auto simp: room_ok_def ground_def)
    then have "\<forall>l \<in> set (lg_lexers s'). room_ok l"
      using k(9) set_update_subset_insert [of "lg_lexers s" d ?l] by (auto simp: ls ground_def)
    ultimately have g: "ground s'"
      using k(9) s1 by (simp add: ground_def s')
    have "reading d s'"
    proof (rule reading_update [where f = "\<lambda>l. l\<lparr>lx_arithmetic := ?c # lx_arithmetic l\<rparr>", OF _ at _ _ g])
      show "reading d s"
        using k(1) by (simp add: work_reading)
      show "lg_source s' = lg_source s" "lg_lexers s' = lg_lexers (set_lexer d (\<lambda>l. l\<lparr>lx_arithmetic := ?c # lx_arithmetic l\<rparr>) s)"
        using s1 by (simp_all add: s' set_lexer_def)
      show "lx_active ?l" "spelt_ok ?l"
        using k(4,5) by (simp_all add: spelt_ok_def)
      show "\<forall>c \<in> set (lx_arithmetic ?l). body_ok ?l c"
        using k(6) by (auto simp: candidates_ok_def body_ok_def)
    qed
    then have "push_ready d ARITHMETIC s'"
      using k(6) by (simp add: push_ready_def at candidates_ok_def)
    then show ?thesis
      using t s1 at by (auto simp: s')
  qed
qed

text \<open>Recording where the body of a candidate begins.\<close>

definition with_body :: "nat \<Rightarrow> csh_lexer \<Rightarrow> csh_lexer" where
  "with_body n l =
     l\<lparr>lx_arithmetic := (case lx_arithmetic l of [] \<Rightarrow> [] | c # cs \<Rightarrow> c\<lparr>ck_body_begin := n\<rparr> # cs)\<rparr>"

lemma with_body_simps [simp]:
  "lx_raw (with_body n l) = lx_raw l" "lx_raw_capacity (with_body n l) = lx_raw_capacity l" "lx_frames (with_body n l) = lx_frames l"
  "lx_fragments (with_body n l) = lx_fragments l" "lx_active (with_body n l) = lx_active l" "lx_comment (with_body n l) = lx_comment l"
  "lx_command (with_body n l) = lx_command l" "lx_kind (with_body n l) = lx_kind l"
  by (simp_all add: with_body_def)

lemma with_body_rewound:
  assumes d: "Suc d = length ls" and c: "lx_arithmetic (ls ! d) = c # cs"
  shows "rewound d (ls[d := with_body n (ls ! d)]) = rewound d ls" "rewindable d (ls[d := with_body n (ls ! d)]) \<longleftrightarrow> rewindable d ls"
proof -
  let ?ls = "ls[d := with_body n (ls ! d)]"
  have new: "newest d ?ls = c\<lparr>ck_body_begin := n\<rparr>" "newest d ls = c"
    using d c by (simp_all add: newest_def with_body_def)
  have "rewound_at d ?ls i = rewound_at d ls i" if "i \<le> d" for i
    using that d c new by (cases "i = d") (auto simp: rewound_at_def Let_def restored_def truncated_def with_body_def)
  then show "rewound d ?ls = rewound d ls"
    by (simp add: rewound_def)
  have "lx_raw (?ls ! i) = lx_raw (ls ! i)" for i
    using d by (cases "i = d") simp_all
  then show "rewindable d ?ls \<longleftrightarrow> rewindable d ls"
    using d by (simp add: rewindable_def new Let_def)
qed

lemma with_body_ground:
  assumes g: "ground s" and d: "Suc d = length (lg_lexers s)"
  shows "ground (set_lexer d (with_body n) s)"
proof (cases "lx_arithmetic (lexer_at d s)")
  case Nil
  have "with_body n (lexer_at d s) = lexer_at d s"
    using Nil by (simp add: with_body_def)
  then have "set_lexer d (with_body n) s = s"
    by (simp add: set_lexer_def)
  then show ?thesis
    using g by simp
next
  case (Cons c cs)
  have rw: "rewinds_ok (lg_lexers s)"
    using g by (simp add: ground_def)
  have "rewinds_ok ((lg_lexers s)[d := with_body n (lexer_at d s)])"
  proof (rule rewinds_ok_last [OF rw d])
    have "rewindable d (lg_lexers s) \<and> lexers_ok (rewound d (lg_lexers s))"
      using rw d Cons by (simp add: rewinds_ok_def)
    then show "rewindable d ((lg_lexers s)[d := with_body n (lexer_at d s)]) \<and> lexers_ok (rewound d ((lg_lexers s)[d := with_body n (lexer_at d s)]))"
      using with_body_rewound [OF d Cons] by simp
  qed
  moreover have "room_ok (with_body n l)" if "room_ok l" for l
    using that by (cases "lx_arithmetic l") (simp_all add: room_ok_def with_body_def checkpoint_ok_def)
  then have "\<forall>l \<in> set ((lg_lexers s)[d := with_body n (lexer_at d s)]). room_ok l"
    using g d set_update_subset_insert [of "lg_lexers s" d] by (fastforce simp: ground_def)
  ultimately show ?thesis
    using g by (simp add: ground_def set_lexer_def)
qed

text \<open>Behind the opening parentheses there are only line joins.\<close>

lemma with_body_candidates:
  assumes sp: "spelt_ok l" and c: "candidates_ok l" "lx_arithmetic l = b # bs"
    and f: "lx_fragments l = fs @ [g] @ gs" "ck_fragment_count b = length fs"
      "\<forall>h \<in> set gs. fr_kind h = CSH_FRAGMENT_CONTINUATION \<and> fr_end h \<le> length (lx_raw l)"
    and o: "\<forall>i \<in> set (open_fragments l). i \<le> length fs"
  shows "candidates_ok (with_body (length (lx_raw l)) l)"
proof -
  let ?b = "b\<lparr>ck_body_begin := length (lx_raw l)\<rparr>"
  have t: "tree_ok (lx_fragments l) (open_fragments l) (length (lx_raw l))"
    using sp by (simp add: spelt_ok_def)
  have "body_ok (with_body (length (lx_raw l)) l) ?b"
    unfolding body_ok_def
  proof (intro conjI allI impI)
    fix i
    assume i: "i < length (lx_fragments (with_body (length (lx_raw l)) l))"
      and p: "fr_parent (lx_fragments (with_body (length (lx_raw l)) l) ! i) = ck_fragment_count ?b"
    have pl: "placed (lx_fragments l) (open_fragments l) (length (lx_raw l)) i"
      using t i by (simp add: tree_ok_def)
    have m: "length fs < length (lx_fragments l)" "length (lx_fragments l) \<le> SIZE_MAX"
      using f(1) t by (auto simp: tree_ok_def)
    then have "length fs < i"
      using pl p f(2) by (auto simp: placed_def CSH_FRAGMENT_ROOT_def)
    then have "lx_fragments l ! i \<in> set gs"
      using i f(1) by (auto simp: nth_append nth_Cons')
    then have "fr_kind (lx_fragments l ! i) = CSH_FRAGMENT_CONTINUATION \<and> fr_end (lx_fragments l ! i) \<le> length (lx_raw l)"
      using f(3) by blast
    moreover have "i \<notin> set (open_fragments l)"
      using o \<open>length fs < i\<close> by fastforce
    ultimately show "ck_body_begin ?b \<le> fr_begin (lx_fragments (with_body (length (lx_raw l)) l) ! i) \<or>
        i \<notin> set (open_fragments (with_body (length (lx_raw l)) l)) \<and>
        fr_kind (lx_fragments (with_body (length (lx_raw l)) l) ! i) = CSH_FRAGMENT_CONTINUATION \<and>
        fr_end (lx_fragments (with_body (length (lx_raw l)) l) ! i) \<le> ck_body_begin ?b"
      by simp
  qed simp
  moreover have "body_ok (with_body n l) c" if "body_ok l c" for c n
    using that by (simp add: body_ok_def)
  ultimately show ?thesis
    using c by (auto simp: candidates_ok_def with_body_def)
qed

lemma open_arithmetic_settles:
  assumes w: "word_at d s" and n: "2 \<le> n" "so_cursor (lg_source s) + n \<le> length (so_data (lg_source s))"
    and m: "3 \<le> m" "so_cursor (lg_source s) + m \<le> length (so_data (lg_source s))"
  shows "settles d (open_arithmetic d n m quote s) Q"
  unfolding open_arithmetic_def
proof (rule settles_attempt [OF checkpoint_achieves [OF w n]])
  note k = word_at_facts [OF w]
  let ?l = "lexer_at d s"
  fix s1
  assume "push_ready d ARITHMETIC s1 \<and> lg_source s1 = lg_source s \<and>
    (\<exists>c. lexer_at d s1 = ?l\<lparr>lx_arithmetic := c # lx_arithmetic ?l\<rparr> \<and> ck_fragment_count c = length (lx_fragments ?l))"
  then obtain c where s1: "push_ready d ARITHMETIC s1" "lg_source s1 = lg_source s"
    and l1: "lexer_at d s1 = ?l\<lparr>lx_arithmetic := c # lx_arithmetic ?l\<rparr>" "ck_fragment_count c = length (lx_fragments ?l)"
    by blast
  have d1: "d < length (lg_lexers s1)"
    using s1(1) by (auto simp: push_ready_def reading_def)
  show "settles d (attempt (lex_push d ARITHMETIC CSH_FRAGMENT_ARITHMETIC quote m s1) (\<lambda>s.
         step_on (set_lexer d (\<lambda>l. l\<lparr>lx_arithmetic :=
           (case lx_arithmetic l of [] \<Rightarrow> [] | c # cs \<Rightarrow> c\<lparr>ck_body_begin := length (lx_raw l)\<rparr> # cs)\<rparr>) s))) Q"
  proof (rule settles_attempt [OF lex_push_achieves [OF s1(1)]])
    show "context_fragment ARITHMETIC = CSH_FRAGMENT_ARITHMETIC"
      by (simp add: context_fragment_def)
    show "so_cursor (lg_source s1) + m \<le> length (so_data (lg_source s1))"
      using m s1(2) by simp
    fix s3
    assume "work_ok d s3 \<and> pushed d ARITHMETIC CSH_FRAGMENT_ARITHMETIC quote m s1 s3"
    then obtain cap fc s2 where s3: "work_ok d s3" and s2: "lg_source s2 = lg_source s1" "length (lg_lexers s2) = length (lg_lexers s1)"
      "lexer_at d s2 = opened ARITHMETIC CSH_FRAGMENT_ARITHMETIC quote (lexer_at d s1) cap fc" "works d m s2 s3"
      "continued (lexer_at d s2) (lexer_at d s3)"
      by (auto simp: pushed_def)
    have d2: "d < length (lg_lexers s2)" "d < length (lg_lexers s3)" "Suc d = length (lg_lexers s3)"
      using d1 s2 s3 by (auto simp: work_ok_def)
    let ?l3 = "lexer_at d s3" and ?f = "\<lparr>fm_kind = ARITHMETIC, fm_quote = quote, fm_fragment = length (lx_fragments ?l), fm_parentheses = 0, fm_stage = 0\<rparr>"
    have fr: "lx_frames ?l3 = ?f # lx_frames ?l"
      using works_frames [OF s2(4) d2(1)] s2(3) l1 by simp
    have fl: "same_flags (lexer_at d s1) ?l3"
      using works_flags [OF s2(4) d2(1)] s2(3) opened_simps(7) [of "lexer_at d s1" ARITHMETIC CSH_FRAGMENT_ARITHMETIC quote cap fc]
      by (simp add: same_flags_def)
    have raw: "length (lx_raw ?l3) = length (lx_raw ?l) + m"
      using works_raw [OF s2(4) d2(1)] s2 l1 s1(2) m k(4) by simp
    obtain gs where gs: "lx_fragments ?l3 = lx_fragments ?l @ [new_fragment CSH_FRAGMENT_ARITHMETIC quote (lexer_at d s1)] @ gs"
      "\<forall>h \<in> set gs. fr_kind h = CSH_FRAGMENT_CONTINUATION \<and> fr_end h \<le> length (lx_raw ?l3)"
      using s2(3,5) l1(1) by (auto simp: continued_def)
    have bk: "begins_kept ?l ?l3"
      using gs(1) by (auto simp: begins_kept_def nth_append)
    have op: "opened_ok ?l3 (lx_frames ?l3)"
      using opened_kept [OF bk k(7,5)] raw gs(1) m l1(1) by (auto simp: fr opened_ok_def opening_bytes_def nth_append)
    have less: "\<forall>i \<in> set (open_fragments ?l3). i \<le> length (lx_fragments ?l)"
      using tree_ok_open(1) [of "lx_fragments ?l" "open_fragments ?l" "length (lx_raw ?l)"] k(5) fr by (auto simp: spelt_ok_def less_imp_le)
    have ar: "lx_arithmetic ?l3 = c # lx_arithmetic ?l"
      using fl l1 by (simp add: same_flags_def)
    have sp: "spelt_ok ?l3" "candidates_ok ?l3"
      using s3 by (auto simp: work_ok_def)
    have cand: "candidates_ok (with_body (length (lx_raw ?l3)) ?l3)"
      by (rule with_body_candidates [OF sp ar gs(1) l1(2) gs(2) less])
    let ?h = "\<lambda>l. l\<lparr>lx_arithmetic := (case lx_arithmetic l of [] \<Rightarrow> [] | c # cs \<Rightarrow> c\<lparr>ck_body_begin := length (lx_raw l)\<rparr> # cs)\<rparr>"
    have eq: "set_lexer d ?h s3 = set_lexer d (with_body (length (lx_raw ?l3))) s3" (is "_ = ?s4")
      by (simp add: set_lexer_def with_body_def)
    have at: "lexer_at d ?s4 = with_body (length (lx_raw ?l3)) ?l3"
      using d2(2) by simp
    have "ground ?s4"
      using s3 by (intro with_body_ground [OF _ d2(3)]) (simp add: work_ok_def)
    then have "work_ok d ?s4"
      using s3 cand at sp by (simp add: work_ok_def spelt_ok_def)
    then have "word_at d ?s4"
      using at op fl l1 k(10-12) by (simp add: word_at_def same_flags_def opened_ok_def)
    then have "loop_ok d ?s4"
      using at raw m by (intro word_at_loop) auto
    then show "settles d (step_on (set_lexer d ?h s3)) Q"
      by (simp add: eq)
  qed
qed

subsubsection \<open>Going back\<close>

lemma restore_captures_Some:
  assumes "distinct (map ca_depth cs)" "\<And>c. c \<in> set cs \<Longrightarrow> ca_depth c < length ls \<and> ca_length c \<le> length (lx_raw (ls ! ca_depth c))"
  shows "\<exists>ls'. restore_captures cs ls = Some ls' \<and> length ls' = length ls \<and>
    (\<forall>c \<in> set cs. ls' ! ca_depth c = restored c (ls ! ca_depth c)) \<and> (\<forall>i. i \<notin> ca_depth ` set cs \<longrightarrow> ls' ! i = ls ! i)"
  using assms
proof (induction cs arbitrary: ls)
  case (Cons c cs)
  let ?ls = "ls[ca_depth c := restored c (ls ! ca_depth c)]"
  have c: "ca_depth c < length ls" "ca_length c \<le> length (lx_raw (ls ! ca_depth c))"
    using Cons.prems(2) [of c] by auto
  have other: "ca_depth e \<noteq> ca_depth c" if "e \<in> set cs" for e
    using Cons.prems(1) image_eqI [OF _ that, of _ ca_depth] by (metis distinct.simps(2) list.set_map list.simps(9))
  have "\<exists>ls'. restore_captures cs ?ls = Some ls' \<and> length ls' = length ?ls \<and>
    (\<forall>c \<in> set cs. ls' ! ca_depth c = restored c (?ls ! ca_depth c)) \<and> (\<forall>i. i \<notin> ca_depth ` set cs \<longrightarrow> ls' ! i = ?ls ! i)"
  proof (rule Cons.IH)
    show "distinct (map ca_depth cs)"
      using Cons.prems(1) by simp
    show "ca_depth e < length ?ls \<and> ca_length e \<le> length (lx_raw (?ls ! ca_depth e))" if "e \<in> set cs" for e
      using Cons.prems(2) [of e] other [OF that] that by simp
  qed
  then obtain ls' where ls': "restore_captures cs ?ls = Some ls'" "length ls' = length ls"
    "\<forall>c \<in> set cs. ls' ! ca_depth c = restored c (?ls ! ca_depth c)" "\<forall>i. i \<notin> ca_depth ` set cs \<longrightarrow> ls' ! i = ?ls ! i"
    by auto
  have "ls' ! ca_depth e = restored e (ls ! ca_depth e)" if "e \<in> set cs" for e
    using ls'(3) that other [OF that] by simp
  moreover have "ls' ! ca_depth c = restored c (ls ! ca_depth c)"
    using ls'(4) Cons.prems(1) c(1) by simp
  moreover have "restore_captures (c # cs) ls = Some ls'"
    using ls'(1) c by (simp add: restored_def)
  ultimately show ?case
    using ls'(2,4) by (intro exI [of _ ls']) auto
qed simp

lemma replay_checkpoint_rewound:
  assumes r: "rewindable d (lg_lexers s)" and c: "c = newest d (lg_lexers s)"
  shows "\<exists>s'. replay_checkpoint d c s = Some s' \<and> lg_lexers s' = rewound d (lg_lexers s) \<and> lg_source s' = ck_source c \<and> lg_error s' = no_error"
proof -
  let ?ls = "take (Suc d) (lg_lexers s)" and ?ks = "ck_captures c"
  have len: "d < length (lg_lexers s)" "length ?ls = Suc d"
    using r by (auto simp: rewindable_def Let_def)
  have dep: "map ca_depth ?ks = rev [0..<Suc d]"
    using r c by (simp add: rewindable_def Let_def del: upt_Suc)
  then have kl: "length ?ks = Suc d"
    by (metis diff_zero length_map length_rev length_upt)
  have nth: "ca_depth (?ks ! (d - i)) = i" if "i \<le> d" for i
    using rev_upt_nth [OF that] dep kl by (metis diff_le_self le_imp_less_Suc nth_map)
  have k: "\<exists>i \<le> d. e = ?ks ! (d - i)" if "e \<in> set ?ks" for e
  proof -
    obtain j where "j < Suc d" "e = ?ks ! j"
      using \<open>e \<in> set ?ks\<close> kl by (auto simp: in_set_conv_nth)
    then show ?thesis
      by (intro exI [of _ "d - j"]) auto
  qed
  have ln: "ca_length (?ks ! (d - i)) \<le> length (lx_raw (lexer_at i s))" if "i \<le> d" for i
    using r c that by (simp add: rewindable_def Let_def)
  have dist: "distinct (map ca_depth ?ks)"
    unfolding dep by simp
  have inside: "ca_depth e < length ?ls \<and> ca_length e \<le> length (lx_raw (?ls ! ca_depth e))" if e: "e \<in> set ?ks" for e
  proof -
    obtain i where "i \<le> d" "e = ?ks ! (d - i)"
      using k [OF e] by blast
    then show ?thesis
      using nth ln len by simp
  qed
  obtain ls where ls: "restore_captures ?ks ?ls = Some ls" "length ls = length ?ls"
    "\<forall>e \<in> set ?ks. ls ! ca_depth e = restored e (?ls ! ca_depth e)"
    using restore_captures_Some [OF dist inside] by blast
  note ls(2) [unfolded len(2), simp]
  have at: "ls ! i = restored (?ks ! (d - i)) (lexer_at i s)" if "i \<le> d" for i
  proof -
    have "?ks ! (d - i) \<in> set ?ks"
      using kl by simp
    then have "ls ! ca_depth (?ks ! (d - i)) = restored (?ks ! (d - i)) (?ls ! ca_depth (?ks ! (d - i)))"
      using ls(3) by blast
    then show ?thesis
      using nth [OF that] that by simp
  qed
  have cnt: "ck_fragment_count c \<le> length (lx_fragments (ls ! d))" "ck_frame_count c \<le> length (lx_frames (ls ! d))"
    using r c at [OF le_refl] by (simp_all add: rewindable_def Let_def restored_def)
  have "ls[d := truncated c (ls ! d)] = rewound d (lg_lexers s)"
    using at c by (intro nth_equalityI) (auto simp: rewound_def rewound_at_def Let_def nth_list_update simp del: upt_Suc)
  then show ?thesis
    using ls(1) cnt by (simp add: replay_checkpoint_def csh_lexer_destroy_def Let_def set_lexer_def truncated_def)
qed

lemma rewound_nth: "i \<le> d \<Longrightarrow> rewound d ls ! i = rewound_at d ls i"
  by (simp add: rewound_def del: upt_Suc)

lemma rewound_length [simp]: "length (rewound d ls) = Suc d"
  by (simp add: rewound_def)

lemma rewound_at_keeps:
  "lx_active (rewound_at d ls i) = lx_active (ls ! i)" "lx_kind (rewound_at d ls i) = lx_kind (ls ! i)"
  "\<not> lx_command (rewound_at d ls d)"
  by (simp_all add: rewound_at_def Let_def restored_def truncated_def)

lemma set_tl_subset: "x \<in> set (tl xs) \<Longrightarrow> x \<in> set xs"
  by (cases xs) auto

lemma rewound_room: "room_ok (ls ! i) \<Longrightarrow> room_ok (rewound_at d ls i)"
  by (auto simp: rewound_at_def Let_def restored_def truncated_def room_ok_def dest: set_tl_subset)

lemma replay_word:
  assumes r: "rewinds_ok (lg_lexers s)" and room: "\<forall>l \<in> set (lg_lexers s). room_ok l"
    and d: "d < length (lg_lexers s)" and a: "lx_arithmetic (lexer_at d s) \<noteq> []"
  shows "\<exists>s'. replay_checkpoint d (hd (lx_arithmetic (lexer_at d s))) s = Some s' \<and> word_at d s' \<and>
    so_cursor (lg_source s') = 0 \<and> ck_command_length (hd (lx_arithmetic (lexer_at d s))) \<le> length (so_data (lg_source s')) \<and>
    2 \<le> ck_command_length (hd (lx_arithmetic (lexer_at d s)))"
proof -
  let ?c = "hd (lx_arithmetic (lexer_at d s))" and ?R = "rewound d (lg_lexers s)"
  have rw: "rewindable d (lg_lexers s)" and ok: "lexers_ok ?R"
    using r d a by (auto simp: rewinds_ok_def)
  have "?c \<in> set (lx_arithmetic (lexer_at d s))"
    using a by simp
  then have ck: "checkpoint_ok ?c"
    using room d by (auto simp: room_ok_def)
  obtain s' where s': "replay_checkpoint d ?c s = Some s'" "lg_lexers s' = ?R" "lg_source s' = ck_source ?c" "lg_error s' = no_error"
    using replay_checkpoint_rewound [OF rw] by (auto simp: newest_def)
  have base: "lexers_base ?R" and rR: "rewinds_ok ?R"
    using ok by (auto simp: lexers_ok_iff)
  have at: "lexer_at d s' = rewound_at d (lg_lexers s) d"
    by (simp add: s'(2) rewound_nth)
  have fl: "lx_active (lexer_at d s')" "lx_kind (lexer_at d s') = CSH_TOKEN_WORD" "\<not> lx_command (lexer_at d s')"
    using rw rewound_at_keeps [of d "lg_lexers s"] at by (auto simp: rewindable_def Let_def)
  have "room_ok (?R ! i)" if "i < Suc d" for i
    using that rewound_nth [of i d] rewound_room room d by simp
  then have "\<forall>l \<in> set (lg_lexers s'). room_ok l"
    unfolding s'(2) by (metis in_set_conv_nth rewound_length)
  then have g: "ground s'"
    using rR ck s' by (simp add: ground_def checkpoint_ok_def)
  have w: "word_ok (lexer_at d s')" "\<forall>i < d. word_ok (lexer_at i s') \<and> lx_command (lexer_at i s')"
    using base base_iff [of d ?R] by (auto simp: s'(2))
  have "work_ok d s'"
    using g w fl ck s' by (simp add: work_ok_def word_ok_def checkpoint_ok_def)
  then have "word_at d s'"
    using w(1) fl by (simp add: word_at_def word_ok_def)
  then show ?thesis
    using s' ck by (auto simp: checkpoint_ok_def)
qed

lemma command_lexing:
  assumes w: "word_at d s" and f: "lx_frames (lexer_at d s) = f # frs" "fm_kind f = COMMAND"
  shows "lexing_ok d (set_lexer d (\<lambda>l. l\<lparr>lx_command := True\<rparr>) s)"
proof -
  note k = word_at_facts [OF w]
  let ?s = "set_lexer d (\<lambda>l. l\<lparr>lx_command := True\<rparr>) s"
  have "ground ?s"
  proof (rule set_last_ground [OF k(9,3)])
    assume "lx_arithmetic (lexer_at d s) \<noteq> []"
    then show "extends_above (lexer_at d s) ((lexer_at d s)\<lparr>lx_command := True\<rparr>)"
      using work_counts [OF k(1)] by (cases "lexer_at d s") (simp add: extends_above_def shell_def husk_def core_def Let_def less_imp_le)
  qed (simp_all add: room_ok_def)
  moreover have "word_ok (lexer_at d ?s)"
    using k f by (simp add: word_ok_def spelt_ok_def opened_ok_def candidates_ok_def body_ok_def)
  moreover have "lx_raw (lexer_at d s) \<noteq> []"
    using frame_raw [OF k(7)] f(1) by simp
  ultimately show ?thesis
    using k base_iff [of d "lg_lexers ?s"] by (simp add: lexing_ok_def dollar_ok_def work_ok_def)
qed

text \<open>The end of a replay: the command substitution is open, or the push failed.\<close>

definition replays_ok :: "nat \<Rightarrow> (int \<times> lexing) option \<Rightarrow> bool" where
  "replays_ok d m \<longleftrightarrow>
     (\<exists>s. m = Some (1, s) \<and> lexing_ok d s \<and> lx_command (lexer_at d s)) \<or> (\<exists>s. m = Some (-1, s) \<and> failed_ok s)"

lemma replay_pushes:
  assumes "rewinds_ok (lg_lexers s)" "\<forall>l \<in> set (lg_lexers s). room_ok l" "d < length (lg_lexers s)" "lx_arithmetic (lexer_at d s) \<noteq> []"
    and c: "c = hd (lx_arithmetic (lexer_at d s))"
  shows "replays_ok d (do {s \<leftarrow> replay_checkpoint d c s;
                   (ok, s) \<leftarrow> lex_push d COMMAND CSH_FRAGMENT_COMMAND (ck_quote c) (ck_command_length c) s;
                   Some (if ok then (1, set_lexer d (\<lambda>l. l\<lparr>lx_command := True\<rparr>) s) else (-1, s))})"
proof -
  obtain s1 where s1: "replay_checkpoint d c s = Some s1" "word_at d s1" "so_cursor (lg_source s1) = 0"
    "ck_command_length c \<le> length (so_data (lg_source s1))" "2 \<le> ck_command_length c"
    using replay_word [OF assms(1-4)] c by blast
  have "achieves (lex_push d COMMAND CSH_FRAGMENT_COMMAND (ck_quote c) (ck_command_length c) s1)
      (\<lambda>s'. word_at d s' \<and> lx_raw (lexer_at d s') \<noteq> [] \<and> (\<exists>f. fm_kind f = COMMAND \<and> lx_frames (lexer_at d s') = f # lx_frames (lexer_at d s1)))"
    using s1 by (intro push_word) (simp_all add: context_fragment_def opening_bytes_def)
  then show ?thesis
    using s1(1) command_lexing word_at_facts(2) by (auto simp: achieves_def replays_ok_def)
qed

subsubsection \<open>Probing and closing a candidate\<close>

lemma arith_probe_total: "\<exists>r w'. csh_arith_probe t w checks = Some (r, w')" "\<exists>v w'. csh_arith_probe_prefix t w checks = Some (v, w')"
  by (auto simp: csh_arith_probe_def csh_arith_probe_prefix_def split: option.splits)

lemma context_fragment_open [simp]: "context_fragment k \<noteq> CSH_FRAGMENT_ESCAPE" "context_fragment k \<noteq> CSH_FRAGMENT_CONTINUATION"
  by (simp_all add: context_fragment_def split: frame_kind.split)

lemma probe_spelling:
  assumes "spelt_ok l" "candidates_ok l" "lx_arithmetic l = c # cs"
  shows "\<exists>t. probe_loop partial (ck_fragment_count c) (lx_raw l) (lx_fragments l) (ck_fragment_count c + 1) (ck_body_begin c) = Some t"
proof -
  have "probe_loop partial (ck_fragment_count c) (lx_raw l) (lx_fragments l) (ck_fragment_count c + 1) (ck_body_begin c) \<noteq> None"
  proof (rule probe_loop_total [of _ "open_fragments l"])
    show "tree_ok (lx_fragments l) (open_fragments l) (length (lx_raw l))"
      "\<forall>i < length (lx_fragments l). i \<notin> set (open_fragments l) \<longrightarrow> fragment_sized (lx_fragments l ! i)"
      using assms(1) by (auto simp: spelt_ok_def)
    show "\<forall>i \<in> set (open_fragments l). fr_end (lx_fragments l ! i) = fr_begin (lx_fragments l ! i) \<and>
        fr_kind (lx_fragments l ! i) \<noteq> CSH_FRAGMENT_ESCAPE \<and> fr_kind (lx_fragments l ! i) \<noteq> CSH_FRAGMENT_CONTINUATION"
      using assms(1) by (auto simp: spelt_ok_def)
    have "body_ok l c"
      using assms(2,3) by (simp add: candidates_ok_def)
    then show "\<forall>i < length (lx_fragments l). ck_fragment_count c + 1 \<le> i \<longrightarrow> fr_parent (lx_fragments l ! i) = ck_fragment_count c \<longrightarrow>
        ck_body_begin c \<le> fr_begin (lx_fragments l ! i) \<or> i \<notin> set (open_fragments l) \<and> fr_end (lx_fragments l ! i) \<le> ck_body_begin c"
      by (auto simp: body_ok_def)
  qed simp
  then show ?thesis by auto
qed

lemma lex_fail_error:
  "message (so_failure (lg_source s)) = [] \<Longrightarrow> lex_fail_at d m e p (s\<lparr>lg_error := x\<rparr>) = lex_fail_at d m e p s"
proof -
  assume f: "message (so_failure (lg_source s)) = []"
  have "csh_lexer_diagnostic_position d p (s\<lparr>lg_error := x\<rparr>) = csh_lexer_diagnostic_position d p s"
    by (simp add: csh_lexer_diagnostic_position_def split: list.split)
  moreover have "(set_source g (s\<lparr>lg_error := x\<rparr>))\<lparr>lg_error := y\<rparr> = (set_source g s)\<lparr>lg_error := y\<rparr>" for g y
    by (cases s) (simp add: set_source_def)
  moreover have "lg_source (s\<lparr>lg_error := x\<rparr>) = lg_source s"
    by simp
  ultimately show ?thesis
    using f unfolding lex_fail_at_def Let_def by (simp only: if_True simp_thms)
qed

lemma fail_failed_any:
  assumes "ground (s\<lparr>lg_error := no_error\<rparr>)" "m \<noteq> []" "take 13 m \<noteq> ''unterminated ''"
  shows "failed_ok (lex_fail d m e s)"
  using fail_failed [OF assms, of d e] assms(1) lex_fail_error [of s d m e "so_position (lg_source s)" no_error]
  by (simp add: lex_fail_def ground_def)

lemma probe_total:
  assumes g: "ground (s\<lparr>lg_error := no_error\<rparr>)" and l: "spelt_ok (lexer_at d s)" "candidates_ok (lexer_at d s)" "lx_arithmetic (lexer_at d s) \<noteq> []"
  shows "\<exists>v s'. probe_arithmetic d partial s = Some (v, s') \<and>
    (if v = -1 then failed_ok s'
     else lg_lexers s' = lg_lexers s \<and> lg_source s' = lg_source s \<and> lg_error s' = lg_error s)"
proof -
  obtain c cs where c: "lx_arithmetic (lexer_at d s) = c # cs"
    using l(3) by (meson neq_Nil_conv)
  obtain t where t: "probe_loop partial (ck_fragment_count c) (lx_raw (lexer_at d s)) (lx_fragments (lexer_at d s)) (ck_fragment_count c + 1) (ck_body_begin c) = Some t"
    using probe_spelling [OF l(1,2) c] by blast
  obtain b s1 where m: "lex_malloc s = (b, s1)"
    by (cases "lex_malloc s")
  note k = lex_malloc_keeps [OF m]
  have g1: "ground (s1\<lparr>lg_error := no_error\<rparr>)"
    using ground_same [OF g] k by simp
  show ?thesis
  proof (cases b)
    case False
    then show ?thesis
      using c m fail_failed_any [OF g1] by (simp add: probe_arithmetic_def Let_def)
  next
    case True
    let ?e = "Some (merge_operands t)" and ?k = "case lg_checks s1 of [] \<Rightarrow> [] | b # _ \<Rightarrow> b"
    obtain v w where v: "(if partial then csh_arith_probe_prefix ?e (lg_world s1) ?k
        else map_option (map_prod (\<lambda>r. if r = CSH_ARITH_RESOURCE then -1 else if r = CSH_ARITH_OK then 1 else 0) id)
                        (csh_arith_probe ?e (lg_world s1) ?k)) = Some (v, w)"
      using arith_probe_total(1) [of ?e "lg_world s1" ?k] arith_probe_total(2) [of ?e "lg_world s1" ?k] by (cases partial) auto
    let ?s = "s1\<lparr>lg_world := w, lg_checks := tl (lg_checks s1)\<rparr>"
    have "ground (?s\<lparr>lg_error := no_error\<rparr>)"
      using g1 by (simp add: ground_def)
    then have f: "failed_ok (lex_fail d ''arithmetic stack exhausted'' ENOMEM ?s)"
      by (rule fail_failed_any) auto
    have "probe_arithmetic d partial s = Some (v, if v = -1 then lex_fail d ''arithmetic stack exhausted'' ENOMEM ?s else ?s)"
      using c m True t v by (simp add: probe_arithmetic_def Let_def)
    then show ?thesis
      using f k by (intro exI [of _ v]) auto
  qed
qed

lemma candidate_exists: "candidates_ok l \<Longrightarrow> in_frame l ARITHMETIC \<Longrightarrow> lx_arithmetic l \<noteq> []"
  by (auto simp: candidates_ok_def elim!: in_frame_cases)

lemma step_replay_settles:
  assumes g: "ground s" and d: "d < length (lg_lexers s)" and a: "lx_arithmetic (lexer_at d s) \<noteq> []"
  shows "settles d (step_replay d s) Q"
proof -
  define c where "c = hd (lx_arithmetic (lexer_at d s))"
  have "replay_refused d s = Some (None, s)"
    using g a by (simp add: replay_refused_def ground_def Let_def)
  then have "csh_lexer_replay_arithmetic d s = do {s \<leftarrow> replay_checkpoint d c s;
       (ok, s) \<leftarrow> lex_push d COMMAND CSH_FRAGMENT_COMMAND (ck_quote c) (ck_command_length c) s;
       Some (if ok then (1, set_lexer d (\<lambda>l. l\<lparr>lx_command := True\<rparr>) s) else (-1, s))}"
    by (simp add: csh_lexer_replay_arithmetic_def Let_def c_def)
  then have "replays_ok d (csh_lexer_replay_arithmetic d s)"
    using replay_pushes [OF _ _ d a c_def] g by (simp add: ground_def)
  then show ?thesis
    by (auto simp: step_replay_def replays_ok_def)
qed

lemma extends_restored: "extends (restored k l) l"
proof -
  have "lx_raw l = lx_raw (restored k l) @ drop (ca_length k) (lx_raw l)"
    by (simp add: restored_def)
  moreover have "husk l = husk (restored k l)"
    by (cases l) (simp add: husk_def core_def restored_def)
  ultimately show ?thesis
    unfolding extends_def by blast
qed

text \<open>Accepting a candidate: its checkpoint is dropped.\<close>

lemma drop_checkpoint_ground:
  assumes g: "ground s" and d: "Suc d = length (lg_lexers s)" and a: "lx_arithmetic (lexer_at d s) \<noteq> []"
  shows "ground (set_lexer d (\<lambda>l. l\<lparr>lx_arithmetic := tl (lx_arithmetic l)\<rparr>) s)"
proof -
  let ?ls = "lg_lexers s" and ?l = "lexer_at d s"
  let ?R = "rewound d ?ls" and ?c = "newest d ?ls" and ?l' = "?l\<lparr>lx_arithmetic := tl (lx_arithmetic ?l)\<rparr>"
  have rw: "rewindable d ?ls" "lexers_ok ?R"
    using g d a by (auto simp: ground_def rewinds_ok_def)
  have rR: "rewinds_ok ?R"
    using rw(2) by (simp add: lexers_ok_iff)
  have Rd: "?R ! d = truncated ?c (restored (ck_captures ?c ! 0) ?l)"
    by (simp add: rewound_nth rewound_at_def)
  have tl: "lx_arithmetic (?R ! d) = tl (lx_arithmetic ?l)"
    by (simp add: Rd truncated_def restored_def)
  have cnt: "ck_frame_count ?c \<le> length (lx_frames ?l)"
    using rw(1) by (simp add: rewindable_def Let_def)
  have above: "extends_above (?R ! d) ?l'" if "tl (lx_arithmetic ?l) \<noteq> []"
  proof -
    let ?e = "hd (tl (lx_arithmetic ?l))"
    have "rewindable d ?R"
      using rR that tl by (simp add: rewinds_ok_def)
    then have "ck_fragment_count ?e \<le> length (lx_fragments (?R ! d))" "ck_frame_count ?e \<le> length (lx_frames (?R ! d))"
      using tl by (simp_all add: rewindable_def Let_def newest_def [of d ?R])
    then have le: "ck_fragment_count ?e \<le> min (ck_fragment_count ?c) (length (lx_fragments ?l))" "ck_frame_count ?e \<le> ck_frame_count ?c"
      using cnt by (simp_all add: Rd truncated_def restored_def min.commute)
    have "shell ?l' = shell (?R ! d)"
      by (cases ?l) (simp add: Rd shell_def husk_def core_def truncated_def restored_def)
    moreover have "\<exists>x. lx_raw ?l' = lx_raw (?R ! d) @ x"
      using extends_restored [of "ck_captures ?c ! 0" ?l] by (simp add: Rd truncated_def extends_def)
    ultimately show ?thesis
      using le cnt by (simp add: extends_above_def tl) (simp add: Rd truncated_def restored_def min_absorb1)
  qed
  have "evolves ?R (?ls[d := ?l'])"
    unfolding evolves_def
  proof (intro conjI allI impI)
    show "length (?ls[d := ?l']) = length ?R"
      using d by simp
    fix i
    show "extends (?R ! i) (?ls[d := ?l'] ! i)" if "Suc i < length ?R"
      using that extends_restored by (simp add: rewound_nth rewound_at_def Let_def)
    show "lx_arithmetic (?ls[d := ?l'] ! i) = lx_arithmetic (?R ! i)" if "Suc i = length ?R"
    proof -
      have "i = d"
        using that by simp
      then show ?thesis
        using d tl by simp
    qed
    show "extends_above (?R ! i) (?ls[d := ?l'] ! i)" if "Suc i = length ?R" "lx_arithmetic (?R ! i) \<noteq> []"
    proof -
      have "i = d"
        using that by simp
      then show ?thesis
        using that(2) d tl above by simp
    qed
  qed
  then have "rewinds_ok (?ls[d := ?l'])"
    using rR rewinds_ok_evolves by blast
  moreover have "room_ok ?l'"
    using g d set_tl_subset by (fastforce simp: ground_def room_ok_def)
  then have "\<forall>l \<in> set (?ls[d := ?l']). room_ok l"
    using g set_update_subset_insert [of ?ls d ?l'] by (auto simp: ground_def)
  ultimately show ?thesis
    using g by (simp add: ground_def set_lexer_def)
qed

lemma at_byte_same:
  "at_byte d b s \<Longrightarrow> lg_source s' = lg_source s \<Longrightarrow> lg_lexers s' = lg_lexers s \<Longrightarrow> lg_error s' = lg_error s \<Longrightarrow> at_byte d b s'"
  by (simp add: at_byte_def loop_ok_def lexing_ok_def ground_def)

lemma settles_accept:
  assumes w: "word_at d s" and i: "in_frame (lexer_at d s) ARITHMETIC" and n: "2 \<le> n" "so_cursor (lg_source s) + n \<le> length (so_data (lg_source s))"
  shows "settles d (attempt (lex_pop d n s) (\<lambda>s. step_on (set_lexer d (\<lambda>l. l\<lparr>lx_arithmetic := tl (lx_arithmetic l)\<rparr>) s))) Q"
proof -
  obtain f frs where f: "lx_frames (lexer_at d s) = f # frs" "fm_kind f = ARITHMETIC"
    using i by (rule in_frame_cases)
  note k = word_at_facts [OF w]
  show ?thesis
  proof (rule settles_attempt [OF lex_pop_achieves [OF k(1) f(1) n(2)]])
    show "opened_ok (lexer_at d s) [f]"
      using k(7) f(1) by (simp add: opened_ok_def)
    show "closing_bytes (fm_kind f) \<le> n"
      using f(2) n(1) by (simp add: closing_bytes_def)
    fix s'
    assume "reading d s' \<and> (\<exists>s1. work_ok d s1 \<and> works d n s s1 \<and> continued (lexer_at d s) (lexer_at d s1) \<and>
      lg_source s' = lg_source s1 \<and> length (lg_lexers s') = length (lg_lexers s1) \<and> lexer_at d s' = closed (lexer_at d s1))"
    then obtain s1 where s1: "reading d s'" "work_ok d s1" "works d n s s1" "continued (lexer_at d s) (lexer_at d s1)"
      "lexer_at d s' = closed (lexer_at d s1)" by blast
    let ?t = "set_lexer d (\<lambda>l. l\<lparr>lx_arithmetic := tl (lx_arithmetic l)\<rparr>) s'" and ?l = "lexer_at d s'"
    have d: "d < length (lg_lexers s')" "Suc d = length (lg_lexers s')"
      using s1(1) by (auto simp: reading_def)
    have fr1: "lx_frames (lexer_at d s1) = f # frs"
      using works_frames [OF s1(3) k(2)] f(1) by simp
    have fr: "lx_frames ?l = frs"
      using s1(5) fr1 by simp
    have cnt: "counts (lx_arithmetic ?l) = (fm_fragment f, length frs) # candidates frs"
      using s1(2,5) fr1 f(2) by (simp add: work_reading)
    then have ar: "lx_arithmetic ?l \<noteq> []" by auto
    have raw: "length (lx_raw ?l) = length (lx_raw (lexer_at d s)) + n"
      using works_raw [OF s1(3) k(2,4) n(2)] s1(5) by simp
    have bk: "begins_kept (lexer_at d s) ?l"
      using continued_begins [OF s1(4)] s1(5) by (simp add: begins_kept_def closed_begin)
    have op: "opened_ok ?l frs"
      using f(1) raw opened_kept [OF bk _ k(5), of frs] k(7) by (auto simp: opened_ok_def)
    have fl: "same_flags (lexer_at d s) ?l"
      using works_flags [OF s1(3) k(2)] s1(5) closed_simps(6) [of "lexer_at d s1"] by (simp add: same_flags_def)
    have "ground ?t"
      using s1(1) by (intro drop_checkpoint_ground [OF _ d(2) ar]) (simp add: reading_def)
    moreover have "spelt_ok (lexer_at d ?t)" "\<forall>c \<in> set (lx_arithmetic (lexer_at d ?t)). body_ok (lexer_at d ?t) c"
      using s1(1) d(1) set_tl_subset by (fastforce simp: reading_def spelt_ok_def body_ok_def)+
    ultimately have "reading d ?t"
      using s1(1) d by (simp add: reading_def)
    then have "work_ok d ?t"
      using cnt d fr by (simp add: work_reading map_tl)
    then have "word_at d ?t"
      using op fl d fr k(10-12) by (simp add: word_at_def same_flags_def opened_ok_def)
    then show "settles d (step_on ?t) Q"
      using raw n(1) d(1) by (auto intro!: word_at_loop)
  qed
qed

lemma step_closing_settles:
  assumes b: "at_byte d b s" and i: "in_frame (lexer_at d s) ARITHMETIC"
  shows "settles d (step_closing cx d s) (at_byte d b)"
proof -
  note w = frame_word_at [OF b i]
  note k = word_at_facts [OF w]
  have ar: "lx_arithmetic (lexer_at d s) \<noteq> []"
    by (rule candidate_exists [OF k(6) i])
  obtain v s1 where p: "probe_arithmetic d False s = Some (v, s1)"
    and v: "if v = -1 then failed_ok s1 else lg_lexers s1 = lg_lexers s \<and> lg_source s1 = lg_source s \<and> lg_error s1 = lg_error s"
    using probe_total [OF _ k(5,6) ar, of False] k(9) by (auto simp: ground_def)
  show ?thesis
  proof (cases "v = -1")
    case True
    then show ?thesis
      using p v by (simp add: step_closing_def)
  next
    case False
    have s1: "lg_lexers s1 = lg_lexers s" "lg_source s1 = lg_source s" "lg_error s1 = lg_error s"
      using v False by simp_all
    have b1: "at_byte d b s1"
      using at_byte_same [OF b] s1 by simp
    have replay: "settles d (step_replay d s2) (at_byte d b)" if "at_byte d b s2" "lg_lexers s2 = lg_lexers s" for s2
      using that ar k(2) loop_facts(4) [OF at_byte_facts(1)] by (intro step_replay_settles) auto
    have "settles d (case r of
                  LOOK_MORE \<Rightarrow> Some (Return CSH_LEX_MORE None, s2)
                | LOOK_EOF \<Rightarrow> Some (Fall, s2)
                | LOOK_WIDE _ \<Rightarrow> step_replay d s2
                | LOOK_BYTE c physical \<Rightarrow>
                    if c = CHR '')'' then
                      attempt (lex_pop d physical s2)
                        (\<lambda>s. step_on (set_lexer d (\<lambda>l. l\<lparr>lx_arithmetic := tl (lx_arithmetic l)\<rparr>) s))
                    else step_replay d s2) (at_byte d b)"
      if s2: "at_byte d b s2" "lg_lexers s2 = lg_lexers s" and seen: "seen_ok 1 (lg_source s2) r" for r s2
    proof -
      have "settles d (attempt (lex_pop d n s2) (\<lambda>s. step_on (set_lexer d (\<lambda>l. l\<lparr>lx_arithmetic := tl (lx_arithmetic l)\<rparr>) s))) (at_byte d b)"
        if "r = LOOK_BYTE (CHR '')'') n" for n
        using that seen i s2 frame_word_at [OF s2(1)] by (intro settles_accept) (auto simp: seen_ok_def)
      then show ?thesis
        using s2(1) replay [OF s2] at_byte_facts(1) by (auto split: look.split)
    qed
    then have "settles d (lex_peek cx 1 s1 \<bind> (\<lambda>(look, s). case look of
                  LOOK_MORE \<Rightarrow> Some (Return CSH_LEX_MORE None, s)
                | LOOK_EOF \<Rightarrow> Some (Fall, s)
                | LOOK_WIDE _ \<Rightarrow> step_replay d s
                | LOOK_BYTE c physical \<Rightarrow>
                    if c = CHR '')'' then
                      attempt (lex_pop d physical s)
                        (\<lambda>s. step_on (set_lexer d (\<lambda>l. l\<lparr>lx_arithmetic := tl (lx_arithmetic l)\<rparr>) s))
                    else step_replay d s)) (at_byte d b)"
      using k(8) s1 b1 by (intro settles_peek) (simp_all add: seen_ok_def)
    moreover have "settles d (step_replay d s1) (at_byte d b)"
      using replay b1 s1 by simp
    ultimately show ?thesis
      using p False by (simp add: step_closing_def)
  qed
qed

lemma step_arithmetic_settles:
  assumes b: "at_byte d b s"
  shows "settles d (step_arithmetic cx d b s) (at_byte d b)"
proof (cases "in_frame (lexer_at d s) ARITHMETIC")
  case False
  then show ?thesis
    using b by (auto simp: step_arithmetic_def in_frame_def split: list.split)
next
  case True
  then obtain f frs where f: "lx_frames (lexer_at d s) = f # frs" "fm_kind f = ARITHMETIC"
    by (rule in_frame_cases)
  note k = word_at_facts [OF frame_word_at [OF b True]]
  have "settles d (step_replay d s) (at_byte d b)"
    using candidate_exists [OF k(6) True] by (intro step_replay_settles [OF k(9,2)])
  moreover have "failed_ok (lex_fail d ''arithmetic nesting overflow'' EOVERFLOW s)"
    using k(9) by (rule fail_failed) auto
  moreover have "at_byte d b (set_frame d (\<lambda>f. f\<lparr>fm_parentheses := fm_parentheses f + 1\<rparr>) s)"
    "at_byte d b (set_frame d (\<lambda>f. f\<lparr>fm_parentheses := fm_parentheses f - 1\<rparr>) s)"
    using b True by (auto intro: set_frame_at_byte)
  ultimately show ?thesis
    using f b step_closing_settles [OF b True] unfolding step_arithmetic_def by (simp only: f list.case settles_if settles_simps simp_thms)
qed

end
