(* ===== verification/Lexer_Safety.thy ===== *)
theory Lexer_Safety
  imports Lexer_Candidates
begin

text \<open>
  The tokenizer as a whole: a round and the loop return, stay in bounds and keep the invariant.
\<close>

subsubsection \<open>Dollars\<close>

definition dollar_at :: "nat \<Rightarrow> lexing \<Rightarrow> bool" where
  "dollar_at d s \<longleftrightarrow> word_at d s \<and> (\<exists>r. drop (so_cursor (lg_source s)) (so_data (lg_source s)) = CHR ''$'' # r)"

lemma dollar_loop:
  assumes "dollar_at d s"
  shows "loop_ok d s"
proof -
  have w: "word_at d s" and n: "\<exists>r. drop (so_cursor (lg_source s)) (so_data (lg_source s)) = CHR ''$'' # r"
    using assms by (auto simp: dollar_at_def)
  show ?thesis
    using word_at_base [OF w] word_at_facts [OF w] n by (simp add: loop_ok_def lexing_ok_def dollar_ok_def)
qed

lemma dollar_word: "dollar_at d s \<Longrightarrow> word_at d s"
  by (simp add: dollar_at_def)

lemma dollar_look:
  assumes "dollar_at d s" "source_ok ((lg_source s)\<lparr>so_look := lk\<rparr>)"
  shows "dollar_at d (set_source (\<lambda>so. so\<lparr>so_look := lk\<rparr>) s)"
  using assms by (simp add: dollar_at_def word_at_def work_ok_def ground_def)

lemma open_command_settles:
  assumes "dollar_at d s" "2 \<le> n" "so_cursor (lg_source s) + n \<le> length (so_data (lg_source s))"
  shows "settles d (open_command d n quote s) Q"
  unfolding open_command_def
proof (rule settles_attempt [OF push_word [OF dollar_word [OF assms(1)]]])
  fix s'
  assume "word_at d s' \<and> lx_raw (lexer_at d s') \<noteq> [] \<and> (\<exists>f. fm_kind f = COMMAND \<and> lx_frames (lexer_at d s') = f # lx_frames (lexer_at d s))"
  then show "settles d (Some (Return CSH_LEX_COMMAND None, set_lexer d (\<lambda>l. l\<lparr>lx_command := True\<rparr>) s')) Q"
    using command_lexing [of d s'] word_at_facts(2) [of d s'] by auto
qed (use assms in \<open>auto simp: context_fragment_def opening_bytes_def\<close>)

lemma dollar_parenthesis_settles:
  assumes w: "dollar_at d s" and n: "2 \<le> n" "so_cursor (lg_source s) + n \<le> length (so_data (lg_source s))"
  shows "settles d (dollar_parenthesis cx d n quote s) Q"
proof -
  have "settles d (case r of
            LOOK_MORE \<Rightarrow> Some (Return CSH_LEX_MORE None, s1)
          | LOOK_BYTE c third_physical \<Rightarrow>
              if c = CHR ''('' then open_arithmetic d n third_physical quote s1 else open_command d n quote s1
          | _ \<Rightarrow> open_command d n quote s1) Q"
    if s1: "dollar_at d s1" and so: "so_cursor (lg_source s1) = so_cursor (lg_source s)" "so_data (lg_source s1) = so_data (lg_source s)"
      and seen: "seen_ok 2 (lg_source s1) r" for r s1
  proof -
    have "settles d (open_arithmetic d n m quote s1) Q" if "r = LOOK_BYTE (CHR ''('') m" for m
      using that seen so n by (intro open_arithmetic_settles [OF dollar_word [OF s1]]) (auto simp: seen_ok_def)
    moreover have "settles d (open_command d n quote s1) Q"
      using open_command_settles [OF s1 n(1)] so n(2) by simp
    ultimately show ?thesis
      using dollar_loop [OF s1] by (auto split: look.split)
  qed
  then show ?thesis
    unfolding dollar_parenthesis_def
    using word_at_facts(8) [OF dollar_word [OF w]] dollar_look [OF w] by (intro settles_peek) (simp_all add: seen_ok_def)
qed

lemma lex_dollar_byte_settles:
  assumes w: "dollar_at d s" and n: "(of_char c :: nat) < 0x80 \<Longrightarrow> 2 \<le> n \<and> so_cursor (lg_source s) + n \<le> length (so_data (lg_source s))"
  shows "settles d (lex_dollar_byte cx d quote c n s) (dollar_at d)"
proof -
  have push: "settles d (attempt (lex_push d k fk q n s) step_on) (dollar_at d)"
    if "context_fragment k = fk" "k \<in> {PARAMETER, DOLLAR_SINGLE, SIMPLE}" "(of_char c :: nat) < 0x80" for k fk q
    using that n by (intro settles_push [OF dollar_word [OF w]]) (auto simp: opening_bytes_def)
  have special: "settles d (attempt (lex_push d SIMPLE CSH_FRAGMENT_PARAMETER quote n s) (\<lambda>s. attempt (lex_pop d 0 s) step_on)) (dollar_at d)"
    if c: "(of_char c :: nat) < 0x80"
  proof (rule settles_attempt [OF push_word [OF dollar_word [OF w]]])
    fix s'
    assume p: "lex_push d SIMPLE CSH_FRAGMENT_PARAMETER quote n s = Some (True, s')"
      and "word_at d s' \<and> lx_raw (lexer_at d s') \<noteq> [] \<and> (\<exists>f. fm_kind f = SIMPLE \<and> lx_frames (lexer_at d s') = f # lx_frames (lexer_at d s))"
    then obtain f where s': "word_at d s'" "fm_kind f = SIMPLE" "lx_frames (lexer_at d s') = f # lx_frames (lexer_at d s)" by blast
    have "so_cursor (lg_source s') + 0 \<le> length (so_data (lg_source s'))"
      using lex_push_moves [OF p word_at_facts(2) [OF dollar_word [OF w]]] n [OF c] by (simp add: moves_def)
    then show "settles d (attempt (lex_pop d 0 s') step_on) (dollar_at d)"
      using s' by (intro settles_pop [OF s'(1,3)]) (auto simp: closing_bytes_def)
  qed (use n [OF c] in \<open>auto simp: context_fragment_def opening_bytes_def\<close>)
  have ascii: "(of_char c :: nat) < 0x80" if "lex_digit c \<or> c \<in> set ''@*#?-$!''"
    using that name_char_ascii [of c] by (auto simp: lex_name_char_def)
  have start: "(of_char c :: nat) < 0x80" if "lex_name_start c"
    using that name_char_ascii [of c] by (auto simp: lex_name_char_def)
  have paren: "settles d (dollar_parenthesis cx d n quote s) (dollar_at d)" if "c = CHR ''(''"
    using that n by (intro dollar_parenthesis_settles [OF w]) auto
  show ?thesis
    unfolding lex_dollar_byte_def settles_if settles_simps
    using push special ascii start paren w by (auto simp: context_fragment_def)
qed

lemma lex_dollar_settles:
  assumes w: "dollar_at d s"
  shows "settles d (lex_dollar cx d quote s) (dollar_at d)"
proof -
  have "settles d (case r of
            LOOK_MORE \<Rightarrow> Some (Return CSH_LEX_MORE None, s1)
          | LOOK_BYTE c physical \<Rightarrow> lex_dollar_byte cx d quote c physical s1
          | _ \<Rightarrow> Some (Fall, s1)) (dollar_at d)"
    if s1: "dollar_at d s1" and seen: "seen_ok 1 (lg_source s1) r" for r s1
    using s1 dollar_loop [OF s1] lex_dollar_byte_settles [OF s1] seen by (auto simp: seen_ok_def split: look.split)
  then show ?thesis
    unfolding lex_dollar_def
    using word_at_facts(8) [OF dollar_word [OF w]] dollar_look [OF w] by (intro settles_peek) (simp_all add: seen_ok_def)
qed

subsubsection \<open>A whole round\<close>

lemma step_word_settles:
  assumes b: "at_byte d b s"
  shows "settles d (step_word cx d b s) (\<lambda>_. False)"
  unfolding step_word_def
proof (rule settles_attempt [OF start_word_begun [OF b]])
  fix s1
  assume bg: "begun d s s1"
  note f = begun_facts [OF bg]
  note w = f(1)
  have n: "so_cursor (lg_source s1) + 1 \<le> length (so_data (lg_source s1))"
    using at_byte_facts(3) [OF b] f by simp
  let ?l = "lexer_at d s1"
  have close: "settles d (attempt (lex_pop d 1 s1) step_on) (\<lambda>_. False)" if "in_frame ?l DOUBLE"
    using that n by (auto elim!: in_frame_cases intro!: settles_pop [OF w] simp: closing_bytes_def)
  have push: "settles d (attempt (lex_push d k fk q 1 s2) step_on) (\<lambda>_. False)"
    if "context_fragment k = fk" "opening_bytes k = 1" "word_at d s2" "lg_source s2 = lg_source s2"
      "so_cursor (lg_source s2) + 1 \<le> length (so_data (lg_source s2))" for k fk q s2
    using that by (intro settles_push) (auto simp: opening_bytes_def)
  have rest: "settles d (if b = CHR 0x60 then attempt (lex_push d BACKQUOTE CSH_FRAGMENT_BACKQUOTE q 1 s2) step_on
           else attempt (lex_piece d CSH_FRAGMENT_TEXT q 1 s2) step_on) (\<lambda>_. False)"
    if "word_at d s2" "so_cursor (lg_source s2) + 1 \<le> length (so_data (lg_source s2))" for q s2
    using that push [of BACKQUOTE CSH_FRAGMENT_BACKQUOTE s2] settles_piece [of d s2 CSH_FRAGMENT_TEXT 1]
    by (simp add: piece_sized_def context_fragment_def opening_bytes_def)
  have dollar: "settles d (lex_or_else (if b = CHR ''$'' then lex_dollar cx d q s1 else Some (Fall, s1)) (\<lambda>s.
           if b = CHR 0x60 then attempt (lex_push d BACKQUOTE CSH_FRAGMENT_BACKQUOTE q 1 s) step_on
           else attempt (lex_piece d CSH_FRAGMENT_TEXT q 1 s) step_on)) (\<lambda>_. False)" for q
  proof (rule settles_or_else)
    let ?P = "\<lambda>s2. word_at d s2 \<and> so_cursor (lg_source s2) + 1 \<le> length (so_data (lg_source s2))"
    have weak: "?P s2" if "dollar_at d s2" for s2
      using that by (auto simp: dollar_at_def dest: drop_ConsD)
    have "settles d (lex_dollar cx d q s1) ?P" if "b = CHR ''$''"
    proof -
      have "dollar_at d s1"
        using w f(2,3) b that by (simp add: dollar_at_def at_byte_def)
      from lex_dollar_settles [OF this, of cx q] show ?thesis
        unfolding settles_def using weak by (auto split: turn.splits)
    qed
    then show "settles d (if b = CHR ''$'' then lex_dollar cx d q s1 else Some (Fall, s1)) ?P"
      using w n by simp
  qed (use rest in auto)
  show "settles d (let l = ?l; quote = body_quote l in
       if b = CHR 0x22 \<and> \<not> in_frame l ARITHMETIC \<and> \<not> (lx_document l \<and> lx_frames l = []) then
         (if in_frame l DOUBLE then attempt (lex_pop d 1 s1) step_on
          else attempt (lex_push d DOUBLE CSH_FRAGMENT_QUOTED CSH_QUOTE_DOUBLE 1 s1) step_on)
       else if b = CHR 0x27 \<and> quote = CSH_QUOTE_NONE
       then attempt (lex_push d SINGLE CSH_FRAGMENT_QUOTED CSH_QUOTE_SINGLE 1 s1) step_on
       else
         lex_or_else (if b = CHR ''$'' then lex_dollar cx d quote s1 else Some (Fall, s1)) (\<lambda>s.
           if b = CHR 0x60 then attempt (lex_push d BACKQUOTE CSH_FRAGMENT_BACKQUOTE quote 1 s) step_on
           else attempt (lex_piece d CSH_FRAGMENT_TEXT quote 1 s) step_on)) (\<lambda>_. False)"
    unfolding Let_def settles_if
    using close dollar push [of DOUBLE CSH_FRAGMENT_QUOTED s1] push [of SINGLE CSH_FRAGMENT_QUOTED s1] w n
    by (simp add: context_fragment_def opening_bytes_def)
qed

lemma lex_byte_settles:
  assumes b: "at_byte d b s" and m: "mbrlen_ok cx"
  shows "settles d (lex_byte cx d b s) (\<lambda>_. False)"
  unfolding lex_byte_def
  by (intro settles_or_else [where P = "at_byte d b"] step_simple_settles step_wide_settles step_single_settles
      step_parameter_settles step_arithmetic_settles step_escape_settles step_raw_quote_settles step_delimiting_settles
      step_hash_settles step_word_settles b m)

lemma lex_step_settles:
  assumes l: "loop_ok d s" and m: "mbrlen_ok cx"
  shows "settles d (lex_step cx d s) (\<lambda>_. False)"
proof -
  note k = loop_facts [OF l]
  let ?l = "lexer_at d s" and ?so = "lg_source s"
  have cur: "so_cursor ?so \<le> length (so_data ?so)"
    using k(3) alias_chain_le by (auto simp: source_ok_def)
  show ?thesis
  proof (cases "lx_active ?l \<and> lx_kind ?l \<noteq> CSH_TOKEN_WORD")
    case True
    have "complete_at d s"
      using l k(5,9) True by (auto simp: complete_at_def dollar_ok_def word_ok_def)
    then show ?thesis
      using True operator_step_settles by (simp add: lex_step_def Let_def)
  next
    case False
    show ?thesis
    proof (cases "drop (so_cursor ?so) (so_data ?so)")
      case Nil
      have "settles d (lex_eof d (lx_frames ?l) s) (\<lambda>_. False)"
        using k(9) Nil by (intro lex_eof_settles [OF l refl _ cur]) (auto simp: dollar_ok_def)
      then show ?thesis
        using False Nil l unfolding lex_step_def Let_def by (simp only: if_not_P list.case settles_if settles_simps returns_ok.simps) simp
    next
      case (Cons b r)
      have "failed_ok (lex_fail d ''NUL byte in shell input'' EOK s)"
        using k(4) by (rule fail_failed) auto
      moreover have "settles d (lex_or_else (step_comment d b s) (lex_byte cx d b)) (\<lambda>_. False)" if "b \<noteq> CHR 0x00"
        using False by (intro settles_or_else [OF step_comment_settles [OF l that Cons]] lex_byte_settles [OF _ m]) auto
      ultimately show ?thesis
        using False Cons unfolding lex_step_def Let_def by (simp only: if_not_P list.case settles_if settles_simps) simp
    qed
  qed
qed

lemma lex_loop_returns:
  "loop_ok d s \<Longrightarrow> mbrlen_ok cx \<Longrightarrow> \<exists>r t s'. lex_loop cx d s = Some (r, t, s') \<and> returns_ok d r t s'"
proof (induction cx d s rule: lex_loop.induct)
  case (1 cx d s)
  have d: "\<not> length (lg_lexers s) \<le> d"
    using loop_facts(1) [OF 1(2)] by simp
  obtain t s1 where st: "lex_step cx d s = Some (t, s1)"
    and t: "case t of Return r token \<Rightarrow> returns_ok d r token s1 | Continue \<Rightarrow> loop_ok d s1 | Fall \<Rightarrow> False"
    using lex_step_settles [OF 1(2,3)] by (auto simp: settles_def)
  show ?case
  proof (cases t)
    case (Return r token)
    then show ?thesis
      using d st t by (subst lex_loop.simps) simp
  next
    case Continue
    then show ?thesis
      using d st t 1(1) [OF d st _ Continue] 1(3) by (subst lex_loop.simps) simp
  qed (use t in simp)
qed

subsection \<open>The number of lexers\<close>

text \<open>No operation of the tokenizer but a replay changes how many lexers there are.\<close>

definition steady :: "nat \<Rightarrow> ('a \<times> lexing) option \<Rightarrow> bool" where
  "steady n m \<longleftrightarrow> (\<forall>a s. m = Some (a, s) \<longrightarrow> length (lg_lexers s) = n)"

lemma steady_simps [simp]:
  "steady n (Some (a, s)) \<longleftrightarrow> length (lg_lexers s) = n" "steady n None" "steady n (lex_error s) \<longleftrightarrow> length (lg_lexers s) = n"
  "steady n (step_on s) \<longleftrightarrow> length (lg_lexers s) = n"
  by (simp_all add: steady_def lex_error_def step_on_def)

lemma steady_if [simp]: "steady n (if c then m else m') \<longleftrightarrow> (c \<longrightarrow> steady n m) \<and> (\<not> c \<longrightarrow> steady n m')"
  by simp

lemma steady_bind: "steady n m \<Longrightarrow> (\<And>a s. length (lg_lexers s) = n \<Longrightarrow> steady n (k (a, s))) \<Longrightarrow> steady n (m \<bind> k)"
  by (cases m) (auto simp: steady_def)

lemma steady_attempt: "steady n m \<Longrightarrow> (\<And>s. length (lg_lexers s) = n \<Longrightarrow> steady n (k s)) \<Longrightarrow> steady n (attempt m k)"
  unfolding attempt_def by (rule steady_bind) auto

lemma steady_or_else: "steady n m \<Longrightarrow> (\<And>s. length (lg_lexers s) = n \<Longrightarrow> steady n (k s)) \<Longrightarrow> steady n (lex_or_else m k)"
  unfolding lex_or_else_def by (rule steady_bind) auto

lemma lex_fail_at_length [simp]: "length (lg_lexers (lex_fail_at d m e p s)) = length (lg_lexers s)"
  by (simp add: lex_fail_at_def Let_def)

lemma lex_malloc_length [simp]: "length (lg_lexers (snd (lex_malloc s))) = length (lg_lexers s)"
  using lex_malloc_keeps [of s "fst (lex_malloc s)" "snd (lex_malloc s)"] by simp

lemma capture_byte_length: "capture_byte d b i s = (ok, s') \<Longrightarrow> length (lg_lexers s') = length (lg_lexers s)"
  by (auto simp: capture_byte_def Let_def dest!: lex_reserve_keeps split: if_splits prod.splits bool.splits)

lemma capture_loop_length: "capture_loop d b is s = (ok, s') \<Longrightarrow> length (lg_lexers s') = length (lg_lexers s)"
  by (induction "is" arbitrary: s) (auto dest: capture_byte_length split: prod.splits bool.splits)

lemma consume_byte_steady: "length (lg_lexers s) = N \<Longrightarrow> steady N (consume_byte d s)"
  by (auto simp: steady_def consume_byte_def Let_def dest: capture_loop_length split: list.splits if_splits prod.splits bool.splits)

lemma consume_bytes_steady: "length (lg_lexers s) = N \<Longrightarrow> steady N (consume_bytes d n s)"
proof (induction n arbitrary: s)
  case (Suc n)
  then show ?case
    unfolding consume_bytes.simps by (intro steady_bind consume_byte_steady) auto
qed simp

lemma lex_consume_steady: "length (lg_lexers s) = N \<Longrightarrow> steady N (lex_consume d n s)"
  by (simp add: lex_consume_def consume_bytes_steady)

lemma add_fragment_length: "add_fragment d k q s = (r, s') \<Longrightarrow> length (lg_lexers s') = length (lg_lexers s)"
  by (auto simp: add_fragment_def Let_def dest!: lex_reserve_keeps split: if_splits prod.splits bool.splits)

lemma finish_fragment_steady: "length (lg_lexers s) = N \<Longrightarrow> steady N (finish_fragment d i s)"
  by (simp add: finish_fragment_def)

lemma lex_piece_steady:
  assumes "length (lg_lexers s) = N"
  shows "steady N (lex_piece d k q n s)"
proof -
  obtain r s1 where a: "(if extends_text (lexer_at d s) k q then (Some (length (lx_fragments (lexer_at d s)) - 1), s) else add_fragment d k q s) = (r, s1)"
    by fastforce
  then have l: "length (lg_lexers s1) = N"
    using add_fragment_length assms by (auto split: if_splits)
  then have "steady N (do {(ok, s) \<leftarrow> lex_consume d n s1; if ok then finish_fragment d i s else Some (False, s)})" for i
    by (intro steady_bind lex_consume_steady) (auto simp: finish_fragment_steady)
  then show ?thesis
    using a l by (cases r) (simp_all add: lex_piece_def)
qed

lemma lex_delimiter_steady: "length (lg_lexers s) = N \<Longrightarrow> steady N (lex_delimiter d n q s)"
proof (induction d n q s rule: lex_delimiter.induct)
  case (1 d n q s)
  have join: "steady N (do {(ok, s) \<leftarrow> lex_piece d CSH_FRAGMENT_CONTINUATION q 2 s;
            if ok then lex_delimiter d (n - 2) q s else Some (False, s)})"
    if c: "n \<noteq> 0" "2 \<le> n \<and> take 2 (drop (so_cursor (lg_source s)) (so_data (lg_source s))) = [CHR 0x5C, CHR 0x0A]"
  proof (cases "lex_piece d CSH_FRAGMENT_CONTINUATION q 2 s")
    case (Some p)
    obtain ok s1 where p: "lex_piece d CSH_FRAGMENT_CONTINUATION q 2 s = Some (ok, s1)"
      using Some by (cases p) simp
    then show ?thesis
      using 1(1) [OF c p refl] lex_piece_steady [OF 1(3), of d CSH_FRAGMENT_CONTINUATION q 2] by (simp add: steady_def)
  qed simp
  have one: "steady N (do {(ok, s) \<leftarrow> lex_consume d 1 s; if ok then lex_delimiter d (n - 1) q s else Some (False, s)})"
    if c: "n \<noteq> 0" "\<not> (2 \<le> n \<and> take 2 (drop (so_cursor (lg_source s)) (so_data (lg_source s))) = [CHR 0x5C, CHR 0x0A])"
  proof (cases "lex_consume d 1 s")
    case (Some p)
    obtain ok s1 where p: "lex_consume d 1 s = Some (ok, s1)"
      using Some by (cases p) simp
    then show ?thesis
      using 1(2) [OF c p refl] lex_consume_steady [OF 1(3), of d 1] by (simp add: steady_def)
  qed simp
  show ?case
    unfolding lex_delimiter.simps [of d n q s] steady_if using join one 1(3) by auto
qed

lemma lex_push_steady:
  assumes "length (lg_lexers s) = N"
  shows "steady N (lex_push d k fk q n s)"
proof -
  obtain r s1 where a: "add_fragment d fk q s = (r, s1)" by (cases "add_fragment d fk q s")
  note l = add_fragment_length [OF a]
  obtain b c s2 where rs: "lex_reserve (lx_frame_capacity (lexer_at d s1)) (length (lx_frames (lexer_at d s1)) + 1) 32 s1 = (b, c, s2)"
    by (rule prod_cases3)
  show ?thesis
    using a l rs lex_reserve_keeps [OF rs] assms
    by (cases r; cases b) (simp_all add: lex_push_def Let_def lex_fail_def lex_delimiter_steady)
qed

lemma lex_pop_steady: "length (lg_lexers s) = N \<Longrightarrow> steady N (lex_pop d n s)"
  by (auto simp: lex_pop_def intro!: steady_bind lex_delimiter_steady finish_fragment_steady split: list.split)

lemma token_source_length: "token_source d s = (b, s') \<Longrightarrow> length (lg_lexers s') = length (lg_lexers s)"
  by (auto simp: token_source_def dest!: copy_string_keeps split: list.splits prod.splits)

lemma start_token_steady: "length (lg_lexers s) = N \<Longrightarrow> steady N (Some (start_token d s))"
  by (auto simp: start_token_def Let_def steady_def lex_fail_def dest: token_source_length split: prod.splits bool.splits)

lemma start_word_steady: "length (lg_lexers s) = N \<Longrightarrow> steady N (Some (start_word d s))"
  using start_token_steady [of s N d] by (auto simp: start_word_def steady_def split: prod.splits bool.splits)

lemma lex_peek_steady: "length (lg_lexers s) = N \<Longrightarrow> steady N (lex_peek cx n s)"
  using lex_peek_keeps(1) by (auto simp: steady_def)

lemma checkpoint_steady: "length (lg_lexers s) = N \<Longrightarrow> steady N (Some (checkpoint_arithmetic d n q s))"
  by (auto simp: checkpoint_arithmetic_def Let_def steady_def lex_fail_def dest!: lex_malloc_keeps lex_reserve_keeps copy_alias_names_keeps
      split: if_splits prod.splits bool.splits)

lemma probe_steady: "length (lg_lexers s) = N \<Longrightarrow> steady N (probe_arithmetic d p s)"
  by (auto simp: probe_arithmetic_def Let_def steady_def lex_fail_def bind_eq_Some_conv dest!: lex_malloc_keeps
      split: list.splits prod.splits bool.splits if_splits)

lemma deliver_steady: "length (lg_lexers s) = N \<Longrightarrow> steady N (deliver d s)"
  by (simp add: deliver_def publish_def Let_def)

lemmas steady_intros = steady_bind steady_attempt steady_or_else lex_consume_steady lex_piece_steady lex_delimiter_steady
  lex_push_steady lex_pop_steady start_token_steady start_word_steady lex_peek_steady checkpoint_steady probe_steady deliver_steady

lemma restore_captures_length: "restore_captures cs ls = Some ls' \<Longrightarrow> length ls' = length ls"
  by (induction cs arbitrary: ls) (force split: if_splits)+

lemma replay_checkpoint_length: "replay_checkpoint d c s = Some s' \<Longrightarrow> length (lg_lexers s') = min (length (lg_lexers s)) (Suc d)"
  by (auto simp: replay_checkpoint_def csh_lexer_destroy_def Let_def bind_eq_Some_conv dest!: restore_captures_length split: if_splits)

lemma replay_refused_steady: "length (lg_lexers s) = N \<Longrightarrow> steady N (replay_refused d s)"
  unfolding replay_refused_def Let_def steady_if by (auto intro!: steady_bind probe_steady)

lemma replay_push_steady:
  assumes "length (lg_lexers s) = N" "Suc d = N"
  shows "steady N (do {s \<leftarrow> replay_checkpoint d c s;
       (ok, s) \<leftarrow> lex_push d COMMAND CSH_FRAGMENT_COMMAND (ck_quote c) (ck_command_length c) s;
       Some (if ok then (1 :: int, set_lexer d (\<lambda>l. l\<lparr>lx_command := True\<rparr>) s) else (-1, s))})"
proof (cases "replay_checkpoint d c s")
  case (Some s2)
  then have "length (lg_lexers s2) = N"
    using replay_checkpoint_length [OF Some] assms by simp
  then show ?thesis
    using Some by (auto intro!: steady_bind lex_push_steady)
qed simp

lemma replay_steady: "length (lg_lexers s) = N \<Longrightarrow> Suc d = N \<Longrightarrow> steady N (csh_lexer_replay_arithmetic d s)"
  unfolding csh_lexer_replay_arithmetic_def Let_def
  by (intro steady_bind replay_refused_steady) (auto intro: replay_push_steady split: option.split)

lemma step_replay_steady: "length (lg_lexers s) = N \<Longrightarrow> Suc d = N \<Longrightarrow> steady N (step_replay d s)"
  unfolding step_replay_def by (intro steady_bind replay_steady) auto

lemma step_comment_steady: "length (lg_lexers s) = N \<Longrightarrow> steady N (step_comment d b s)"
  unfolding step_comment_def by (auto intro!: steady_intros)

lemma step_simple_steady: "length (lg_lexers s) = N \<Longrightarrow> steady N (step_simple cx d s)"
  unfolding step_simple_def by (auto intro!: steady_intros split: look.split)

lemma step_wide_steady: "length (lg_lexers s) = N \<Longrightarrow> steady N (step_wide cx d s)"
  unfolding step_wide_def Let_def steady_if by (auto intro!: steady_intros)

lemma step_single_steady: "length (lg_lexers s) = N \<Longrightarrow> steady N (step_single d b s)"
  unfolding step_single_def by (auto intro!: steady_intros)

lemma step_parameter_steady: "length (lg_lexers s) = N \<Longrightarrow> steady N (step_parameter d b s)"
  unfolding step_parameter_def by (auto intro!: steady_intros)

lemma step_closing_steady: "length (lg_lexers s) = N \<Longrightarrow> Suc d = N \<Longrightarrow> steady N (step_closing cx d s)"
  unfolding step_closing_def by (auto intro!: steady_intros step_replay_steady split: look.split)

lemma step_arithmetic_steady: "length (lg_lexers s) = N \<Longrightarrow> Suc d = N \<Longrightarrow> steady N (step_arithmetic cx d b s)"
  unfolding step_arithmetic_def by (auto intro!: step_closing_steady step_replay_steady split: list.split)

lemma step_escape_steady: "length (lg_lexers s) = N \<Longrightarrow> steady N (step_escape cx d b s)"
  unfolding step_escape_def Let_def by (auto intro!: steady_intros split: list.split)

lemma step_raw_quote_steady: "length (lg_lexers s) = N \<Longrightarrow> steady N (step_raw_quote d b s)"
  unfolding step_raw_quote_def Let_def steady_if by (auto intro!: steady_intros)

lemma step_delimiting_steady: "length (lg_lexers s) = N \<Longrightarrow> steady N (step_delimiting d b s)"
  unfolding step_delimiting_def Let_def steady_if by (auto intro!: steady_intros)

lemma step_hash_steady: "length (lg_lexers s) = N \<Longrightarrow> steady N (step_hash d b s)"
  by (simp add: step_hash_def Let_def)

lemma dollar_parenthesis_steady: "length (lg_lexers s) = N \<Longrightarrow> steady N (dollar_parenthesis cx d n q s)"
  unfolding dollar_parenthesis_def open_arithmetic_def open_command_def by (auto intro!: steady_intros split: look.split)

lemma lex_dollar_steady: "length (lg_lexers s) = N \<Longrightarrow> steady N (lex_dollar cx d q s)"
  unfolding lex_dollar_def lex_dollar_byte_def by (auto intro!: steady_intros dollar_parenthesis_steady split: look.split)

lemma step_word_steady: "length (lg_lexers s) = N \<Longrightarrow> steady N (step_word cx d b s)"
  unfolding step_word_def Let_def by (intro steady_attempt start_word_steady) (auto intro!: steady_intros lex_dollar_steady)

lemma lex_byte_steady: "length (lg_lexers s) = N \<Longrightarrow> Suc d = N \<Longrightarrow> steady N (lex_byte cx d b s)"
  unfolding lex_byte_def
  by (intro steady_or_else step_simple_steady step_wide_steady step_single_steady step_parameter_steady step_arithmetic_steady
      step_escape_steady step_raw_quote_steady step_delimiting_steady step_hash_steady step_word_steady)

lemma operator_step_steady: "length (lg_lexers s) = N \<Longrightarrow> steady N (operator_step cx d op s)"
proof (induction "3 - length op" arbitrary: op s rule: less_induct)
  case less
  show ?case
  proof (cases "extendible op")
    case True
    have "steady N (operator_step cx d (op @ [c]) s')" if "length (lg_lexers s') = N" for c s'
      using less.hyps [OF _ that, of "op @ [c]"] extendible_length(1) [OF True] by simp
    then show ?thesis
      using True less.prems by (subst operator_step.simps) (auto intro!: steady_intros split: look.split option.split)
  qed (use less.prems deliver_steady in \<open>subst operator_step.simps, simp\<close>)
qed

lemma lex_eof_steady: "length (lg_lexers s) = N \<Longrightarrow> steady N (lex_eof d frs s)"
proof (induction frs arbitrary: s)
  case (Cons f frs)
  then have "steady N (attempt (lex_pop d 0 s) (lex_eof d frs))"
    by (intro steady_attempt lex_pop_steady)
  then show ?case
    using Cons.prems by (simp add: Let_def)
qed (auto simp: Let_def deliver_steady split: list.split)

lemma lex_step_steady: "length (lg_lexers s) = N \<Longrightarrow> Suc d = N \<Longrightarrow> steady N (lex_step cx d s)"
proof (cases "drop (so_cursor (lg_source s)) (so_data (lg_source s))")
  case Nil
  assume "length (lg_lexers s) = N"
  then show ?thesis
    using Nil operator_step_steady lex_eof_steady unfolding lex_step_def Let_def by (simp only: steady_if list.case steady_simps) blast
next
  case (Cons b r)
  assume l: "length (lg_lexers s) = N" "Suc d = N"
  then have "steady N (lex_or_else (step_comment d b s) (lex_byte cx d b))"
    by (intro steady_or_else step_comment_steady lex_byte_steady)
  then show ?thesis
    using Cons l operator_step_steady unfolding lex_step_def Let_def by (simp only: steady_if list.case steady_simps lex_fail_length) blast
qed

lemma lex_loop_length:
  "lex_loop cx d s = Some (r, t, s') \<Longrightarrow> Suc d = length (lg_lexers s) \<Longrightarrow> length (lg_lexers s') = length (lg_lexers s)"
proof (induction cx d s rule: lex_loop.induct)
  case (1 cx d s)
  obtain u s1 where st: "lex_step cx d s = Some (u, s1)"
    using 1(2) by (subst (asm) lex_loop.simps) (auto split: if_splits option.splits)
  have l: "length (lg_lexers s1) = length (lg_lexers s)"
    using lex_step_steady [OF refl 1(3), of cx] st by (simp add: steady_def)
  show ?case
    using 1(2,3) st l 1(1) [OF _ st refl] by (subst (asm) lex_loop.simps) (auto split: turn.splits if_splits)
qed

end
