(* ===== verification/Lexer_Operations.thy ===== *)
theory Lexer_Operations
  imports Lexer_Safety
begin

text \<open>
  The public operations of the lexer (\<open>lexer.h\<close>): each of them, on any lexer of an input that is still alive, returns and keeps the
  invariant, whether it succeeds, fails or finds the lexer failed; so every lexer that can be reached is one of these.
\<close>

subsection \<open>Lexers that differ in what does not matter\<close>

text \<open>Feeding changes the sources kept in the checkpoints; a lexer may be marked as reading a document.\<close>

definition same_checkpoint :: "arithmetic_checkpoint \<Rightarrow> arithmetic_checkpoint \<Rightarrow> bool" where
  "same_checkpoint c c' \<longleftrightarrow>
     ck_fragment_count c' = ck_fragment_count c \<and> ck_frame_count c' = ck_frame_count c \<and>
     ck_body_begin c' = ck_body_begin c \<and> ck_captures c' = ck_captures c"

definition akin :: "csh_lexer \<Rightarrow> csh_lexer \<Rightarrow> bool" where
  "akin l l' \<longleftrightarrow>
     lx_raw l' = lx_raw l \<and> lx_fragments l' = lx_fragments l \<and> lx_frames l' = lx_frames l \<and> lx_active l' = lx_active l \<and>
     lx_comment l' = lx_comment l \<and> lx_command l' = lx_command l \<and> lx_kind l' = lx_kind l \<and>
     list_all2 same_checkpoint (lx_arithmetic l) (lx_arithmetic l')"

lemma akin_refl [simp]: "akin l l"
  by (simp add: akin_def same_checkpoint_def list_all2_refl)

lemma same_checkpoints:
  assumes "list_all2 same_checkpoint cs cs'"
  shows "map ck_fragment_count cs' = map ck_fragment_count cs" "map ck_frame_count cs' = map ck_frame_count cs"
    "cs = [] \<longleftrightarrow> cs' = []" "cs \<noteq> [] \<Longrightarrow> same_checkpoint (hd cs) (hd cs')" "list_all2 same_checkpoint (tl cs) (tl cs')"
  using assms by (induction rule: list_all2_induct) (auto simp: same_checkpoint_def)

lemma akin_candidates:
  assumes a: "akin l l'" and c: "candidates_ok l"
  shows "candidates_ok l'"
proof -
  have l2: "list_all2 same_checkpoint (lx_arithmetic l) (lx_arithmetic l')"
    using a by (simp add: akin_def)
  have "counts (lx_arithmetic l') = counts (lx_arithmetic l)"
    using l2 by (induction rule: list_all2_induct) (auto simp: same_checkpoint_def)
  moreover have "body_ok l' c'" if c': "c' \<in> set (lx_arithmetic l')" for c'
  proof -
    obtain c where "c \<in> set (lx_arithmetic l)" "same_checkpoint c c'"
      using l2 c' by (metis list_all2_conv_all_nth in_set_conv_nth)
    then show ?thesis
      using c a by (auto simp: candidates_ok_def body_ok_def akin_def same_checkpoint_def)
  qed
  ultimately show ?thesis
    using c a by (simp add: candidates_ok_def akin_def)
qed

lemma akin_word: "akin l l' \<Longrightarrow> word_ok l \<Longrightarrow> word_ok l'"
  using akin_candidates [of l l'] by (auto simp: word_ok_def akin_def spelt_ok_def opened_ok_def)

lemma akin_rewound:
  assumes a: "\<And>i. i \<le> d \<Longrightarrow> akin (ls ! i) (ls' ! i)" and c: "lx_arithmetic (ls ! d) \<noteq> []" and i: "i \<le> d"
  shows "akin (rewound_at d ls i) (rewound_at d ls' i)"
proof -
  have s: "same_checkpoint (newest d ls) (newest d ls')"
    using a [OF le_refl] same_checkpoints(4) c by (auto simp: akin_def newest_def)
  then have r: "akin (restored (ck_captures (newest d ls) ! (d - i)) (ls ! i)) (restored (ck_captures (newest d ls') ! (d - i)) (ls' ! i))"
    using a [OF i] by (simp add: akin_def restored_def same_checkpoint_def)
  have "akin (truncated (newest d ls) l) (truncated (newest d ls') l')" if "akin l l'" for l l'
    using that s same_checkpoints(5) by (simp add: akin_def truncated_def same_checkpoint_def)
  then show ?thesis
    using r by (cases "i = d") (simp_all add: rewound_at_def Let_def)
qed

lemma akin_rewindable:
  assumes a: "\<And>i. i \<le> d \<Longrightarrow> akin (ls ! i) (ls' ! i)" and l: "length ls' = length ls" and c: "lx_arithmetic (ls ! d) \<noteq> []" and r: "rewindable d ls"
  shows "rewindable d ls'"
proof -
  have "same_checkpoint (newest d ls) (newest d ls')"
    using a [OF le_refl] same_checkpoints(4) c by (auto simp: akin_def newest_def)
  moreover have "lx_raw (ls' ! i) = lx_raw (ls ! i)" if "i \<le> d" for i
    using a [OF that] by (simp add: akin_def)
  ultimately show ?thesis
    using r l a [OF le_refl] by (simp add: rewindable_def Let_def same_checkpoint_def akin_def)
qed

lemma akin_lexers_base:
  assumes "lexers_base ls" "length ls' = length ls" "\<And>i. i < length ls \<Longrightarrow> akin (ls ! i) (ls' ! i)"
  shows "lexers_base ls'"
proof -
  have "word_ok (ls' ! i) \<and> (Suc i < length ls \<longrightarrow> lx_command (ls' ! i))" if "i < length ls" for i
    using assms(1) that akin_word [OF assms(3) [OF that]] assms(3) [OF that] by (auto simp: lexers_base_def akin_def)
  then show ?thesis
    using assms(2) by (simp add: lexers_base_def)
qed

lemma akin_lexers_ok:
  "lexers_ok ls \<Longrightarrow> length ls' = length ls \<Longrightarrow> (\<And>i. i < length ls \<Longrightarrow> akin (ls ! i) (ls' ! i)) \<Longrightarrow> lexers_ok ls'"
proof (induction arbitrary: ls' rule: lexers_ok.induct)
  case (lexers_okI ls)
  show ?case
  proof (rule lexers_ok.intros)
    show "lexers_base ls'"
      using lexers_okI(1,3,4) akin_lexers_base by blast
    fix d
    assume d: "d < length ls'" "lx_arithmetic (ls' ! d) \<noteq> []"
    have a: "akin (ls ! i) (ls' ! i)" if "i \<le> d" for i
      using lexers_okI(3,4) d(1) that by simp
    have c: "lx_arithmetic (ls ! d) \<noteq> []"
      using a [OF le_refl] d(2) same_checkpoints(3) by (auto simp: akin_def)
    have ak: "akin (map core (rewound d ls) ! i) (map core (rewound d ls') ! i)" if "i < length (map core (rewound d ls))" for i
      using akin_rewound [OF a c, of i] that by (simp add: rewound_nth) (simp add: akin_def)
    have ih: "rewindable d ls \<and> (\<forall>ls'. length ls' = length (map core (rewound d ls)) \<longrightarrow>
        (\<forall>i < length (map core (rewound d ls)). akin (map core (rewound d ls) ! i) (ls' ! i)) \<longrightarrow> lexers_ok ls')"
      using lexers_okI(2) [of d] d(1) lexers_okI(3) c by auto
    then have "lexers_ok (map core (rewound d ls'))"
      using ak by (auto simp del: lexers_ok_core)
    then show "rewindable d ls' \<and> lexers_ok (map core (rewound d ls'))"
      using akin_rewindable [OF a lexers_okI(3) c] ih by blast
  qed
qed

lemma akin_rewinds_ok:
  assumes r: "rewinds_ok ls" and l: "length ls' = length ls" and a: "\<And>i. i < length ls \<Longrightarrow> akin (ls ! i) (ls' ! i)"
  shows "rewinds_ok ls'"
proof -
  have "rewindable d ls' \<and> lexers_ok (rewound d ls')" if d: "d < length ls'" "lx_arithmetic (ls' ! d) \<noteq> []" for d
  proof -
    have le: "akin (ls ! i) (ls' ! i)" if "i \<le> d" for i
      using a l d(1) that by simp
    have c: "lx_arithmetic (ls ! d) \<noteq> []"
      using le [OF le_refl] d(2) same_checkpoints(3) by (auto simp: akin_def)
    have "rewindable d ls" "lexers_ok (rewound d ls)"
      using r c d(1) l by (auto simp: rewinds_ok_def)
    then show ?thesis
      using akin_rewindable [OF le l c] akin_lexers_ok [of "rewound d ls" "rewound d ls'"] akin_rewound [OF le c]
      by (simp add: rewound_nth)
  qed
  then show ?thesis
    by (simp add: rewinds_ok_def)
qed

subsection \<open>The invariant of the operations\<close>

text \<open>Between two operations the lexers are running, with the last one reading, or the source holds the failure that
  every further operation reports.\<close>

definition lexer_ok :: "lexing \<Rightarrow> bool" where
  "lexer_ok s \<longleftrightarrow>
     lg_lexers s \<noteq> [] \<and>
     (lexing_ok (length (lg_lexers s) - 1) (s\<lparr>lg_error := no_error\<rparr>) \<or>
      failed_ok (s\<lparr>lg_error := so_failure (lg_source s)\<rparr>))"

lemma lexing_lexer_ok: "lexing_ok d s \<Longrightarrow> lexer_ok (s\<lparr>lg_error := e\<rparr>)"
proof -
  assume l: "lexing_ok d s"
  then have "s\<lparr>lg_error := no_error\<rparr> = s"
    by (cases s) (simp add: lexing_ok_def ground_def)
  moreover have "length (lg_lexers s) - 1 = d" "lg_lexers s \<noteq> []"
    using l by (auto simp: lexing_ok_def)
  ultimately show ?thesis
    using l by (simp add: lexer_ok_def)
qed

lemma lexing_lexer_ok': "lexing_ok d s \<Longrightarrow> lexer_ok s"
  using lexing_lexer_ok [of d s "lg_error s"] by simp

lemma failed_lexer_ok: "failed_ok s \<Longrightarrow> lg_lexers s \<noteq> [] \<Longrightarrow> lexer_ok (s\<lparr>lg_error := e\<rparr>)"
  by (simp add: lexer_ok_def failed_ok_def)

lemma failed_lexer_ok': "failed_ok s \<Longrightarrow> lg_lexers s \<noteq> [] \<Longrightarrow> lexer_ok s"
  using failed_lexer_ok [of s "lg_error s"] by simp

text \<open>The two cases of the invariant, as the operations distinguish them.\<close>

lemma lexer_ok_running:
  assumes "lexer_ok s" "message (so_failure (lg_source s)) = []"
  shows "lexing_ok (length (lg_lexers s) - 1) (s\<lparr>lg_error := no_error\<rparr>)"
  using assms by (auto simp: lexer_ok_def failed_ok_def)

lemma lexer_ok_failed:
  assumes "lexer_ok s" "message (so_failure (lg_source s)) \<noteq> []"
  shows "failed_ok (s\<lparr>lg_error := so_failure (lg_source s)\<rparr>)"
  using assms by (auto simp: lexer_ok_def lexing_ok_def ground_def)

lemma lexing_facts:
  assumes "lexing_ok d s"
  shows "ground s" "d < length (lg_lexers s)" "Suc d = length (lg_lexers s)" "lexers_base (lg_lexers s)" "source_ok (lg_source s)"
    "word_ok (lexer_at d s)" "\<forall>i < d. word_ok (lexer_at i s) \<and> lx_command (lexer_at i s)" "dollar_ok (lexer_at d s) (lg_source s)"
  using assms base_iff [of d "lg_lexers s"] by (auto simp: lexing_ok_def)

lemma usage_fails:
  assumes "lexing_ok d s" "m \<noteq> []" "take 13 m \<noteq> ''unterminated ''"
  shows "lexer_ok (lex_fail k m e s)"
  using fail_failed [OF lexing_facts(1) [OF assms(1)] assms(2,3), of k e] lexing_facts(2) [OF assms(1)]
  by (intro failed_lexer_ok') (auto simp: length_greater_0_conv [symmetric] simp del: length_greater_0_conv)

subsubsection \<open>Replaying a candidate\<close>

text \<open>The caller's error is that of the lexer, if the lexer has failed.\<close>

definition error_known :: "lexing \<Rightarrow> bool" where
  "error_known s \<longleftrightarrow> message (so_failure (lg_source s)) \<noteq> [] \<longrightarrow> lg_error s = so_failure (lg_source s)"

lemma lexer_ok_parts:
  assumes "lexer_ok s"
  shows "rewinds_ok (lg_lexers s)" "\<forall>l \<in> set (lg_lexers s). room_ok l" "lg_lexers s \<noteq> []"
  using assms by (auto simp: lexer_ok_def lexing_ok_def ground_def failed_ok_def)

lemma lexer_ok_base:
  assumes ok: "lexer_ok s" and e: "error_known s" "take 13 (message (lg_error s)) = ''unterminated ''"
    and a: "d < length (lg_lexers s)" "lx_arithmetic (lexer_at d s) \<noteq> []"
  shows "lexers_base (lg_lexers s)"
proof (cases "message (so_failure (lg_source s)) = []")
  case True
  then show ?thesis
    using lexer_ok_running [OF ok] by (simp add: lexing_ok_def)
next
  case False
  have "\<exists>l \<in> set (lg_lexers s). lx_arithmetic l \<noteq> []"
    using a nth_mem by blast
  then show ?thesis
    using lexer_ok_failed [OF ok False] e False by (simp add: failed_ok_def error_known_def)
qed

lemma lexer_ok_cong: "lg_lexers s' = lg_lexers s \<Longrightarrow> lg_source s' = lg_source s \<Longrightarrow> lexer_ok s' = lexer_ok s"
  by (simp add: lexer_ok_def lexing_ok_def ground_def failed_ok_def)

lemma replay_refused_ok:
  assumes ok: "lexer_ok s" and k: "error_known s" and d: "d < length (lg_lexers s)"
  shows "\<exists>r s'. replay_refused d s = Some (r, s') \<and> length (lg_lexers s') = length (lg_lexers s) \<and>
    (case r of None \<Rightarrow> lg_lexers s' = lg_lexers s \<and> lx_arithmetic (lexer_at d s) \<noteq> []
     | Some v \<Rightarrow> (if v = -1 then failed_ok s' else v = 0 \<and> lexer_ok s' \<and> lg_lexers s' = lg_lexers s \<and> lg_error s' = lg_error s \<and>
         so_failure (lg_source s') = so_failure (lg_source s)))"
proof -
  let ?e = "lg_error s" and ?f = "so_failure (lg_source s)"
  consider "lx_arithmetic (lexer_at d s) = [] \<or> system_errno ?e \<noteq> EOK \<or> system_errno ?f \<noteq> EOK \<or> message ?e = ''unterminated arithmetic expansion''"
    | "lx_arithmetic (lexer_at d s) \<noteq> []" "\<not> (system_errno ?e \<noteq> EOK \<or> system_errno ?f \<noteq> EOK \<or> message ?e = ''unterminated arithmetic expansion'')"
      "\<not> (so_final (lg_source s) \<and> message ?e \<noteq> [] \<and> take 13 (message ?e) = ''unterminated '')"
    | "lx_arithmetic (lexer_at d s) \<noteq> []" "\<not> (system_errno ?e \<noteq> EOK \<or> system_errno ?f \<noteq> EOK \<or> message ?e = ''unterminated arithmetic expansion'')"
      "so_final (lg_source s) \<and> message ?e \<noteq> [] \<and> take 13 (message ?e) = ''unterminated ''"
    by blast
  then show ?thesis
  proof cases
    case 1
    then have "replay_refused d s = Some (Some 0, s)"
      unfolding replay_refused_def Let_def by auto
    then show ?thesis
      using ok by simp
  next
    case 2
    then have "replay_refused d s = Some (None, s)"
      unfolding replay_refused_def Let_def by auto
    then show ?thesis
      using 2(1) by simp
  next
    case 3
    let ?s = "set_source (\<lambda>so. so\<lparr>so_failure := no_error\<rparr>) s"
    have base: "lexers_base (lg_lexers s)"
      using lexer_ok_base [OF ok k _ d 3(1)] 3(3) by blast
    have w: "word_ok (lexer_at d s)"
      using base d by (simp add: lexers_base_def)
    have g: "ground (?s\<lparr>lg_error := no_error\<rparr>)"
      using lexer_ok_parts [OF ok] by (simp add: ground_def)
    have l: "spelt_ok (lexer_at d ?s)" "candidates_ok (lexer_at d ?s)" "lx_arithmetic (lexer_at d ?s) \<noteq> []"
      using w 3(1) by (simp_all add: word_ok_def)
    obtain v s1 where p: "probe_arithmetic d True ?s = Some (v, s1)"
      and v: "if v = -1 then failed_ok s1 else lg_lexers s1 = lg_lexers ?s \<and> lg_source s1 = lg_source ?s \<and> lg_error s1 = lg_error ?s"
      using probe_total [OF g l, of True] by blast
    let ?t = "(set_source (\<lambda>so. so\<lparr>so_failure := ?f\<rparr>) s1)\<lparr>lg_error := ?e\<rparr>"
    have r: "replay_refused d s = Some (if v = -1 then (Some (-1), s1) else if v \<noteq> 0 then (Some 0, ?t) else (None, ?t))"
      using 3 p unfolding replay_refused_def Let_def by simp
    have t: "lg_lexers ?t = lg_lexers s" "lg_source ?t = lg_source s" "lg_error ?t = lg_error s" if "v \<noteq> -1"
      using v that by simp_all
    have len: "length (lg_lexers s1) = length (lg_lexers s)"
      using probe_steady [of ?s "length (lg_lexers s)" d True] p by (simp add: steady_def)
    have "lexer_ok ?t" if "v \<noteq> -1"
      using lexer_ok_cong [OF t(1,2)] that ok by simp
    then show ?thesis
      unfolding r using v t len 3(1) by auto
  qed
qed

lemma replay_arithmetic_ok:
  assumes ok: "lexer_ok s" and k: "error_known s" and d: "d < length (lg_lexers s)"
  shows "\<exists>v s'. csh_lexer_replay_arithmetic d s = Some (v, s') \<and>
    (if v = 1 then lexing_ok d s' \<and> lx_command (lexer_at d s')
     else if v = -1 then failed_ok s' \<and> lg_lexers s' \<noteq> []
     else v = 0 \<and> lexer_ok s' \<and> lg_lexers s' = lg_lexers s \<and> lg_error s' = lg_error s \<and> so_failure (lg_source s') = so_failure (lg_source s))"
proof -
  obtain r s1 where r: "replay_refused d s = Some (r, s1)" "length (lg_lexers s1) = length (lg_lexers s)"
    and c: "case r of None \<Rightarrow> lg_lexers s1 = lg_lexers s \<and> lx_arithmetic (lexer_at d s) \<noteq> []
     | Some v \<Rightarrow> (if v = -1 then failed_ok s1 else v = 0 \<and> lexer_ok s1 \<and> lg_lexers s1 = lg_lexers s \<and> lg_error s1 = lg_error s \<and>
         so_failure (lg_source s1) = so_failure (lg_source s))"
    using replay_refused_ok [OF ok k d] by blast
  show ?thesis
  proof (cases r)
    case (Some v)
    then have "csh_lexer_replay_arithmetic d s = Some (v, s1)"
      using r(1) by (simp add: csh_lexer_replay_arithmetic_def)
    moreover have "lg_lexers s1 \<noteq> []"
      using r(2) d by auto
    ultimately show ?thesis
      using c Some by (intro exI [of _ v] exI [of _ s1]) (auto split: if_splits)
  next
    case None
    define e where "e = hd (lx_arithmetic (lexer_at d s1))"
    have m: "csh_lexer_replay_arithmetic d s = do {s \<leftarrow> replay_checkpoint d e s1;
       (ok, s) \<leftarrow> lex_push d COMMAND CSH_FRAGMENT_COMMAND (ck_quote e) (ck_command_length e) s;
       Some (if ok then (1, set_lexer d (\<lambda>l. l\<lparr>lx_command := True\<rparr>) s) else (-1, s))}"
      using r(1) None by (simp add: csh_lexer_replay_arithmetic_def Let_def e_def)
    have "replays_ok d (csh_lexer_replay_arithmetic d s)"
      unfolding m using c None d lexer_ok_parts [OF ok] by (intro replay_pushes) (auto simp: e_def)
    then consider s' where "csh_lexer_replay_arithmetic d s = Some (1, s')" "lexing_ok d s'" "lx_command (lexer_at d s')"
      | s' where "csh_lexer_replay_arithmetic d s = Some (-1, s')" "failed_ok s'"
      by (auto simp: replays_ok_def)
    then show ?thesis
    proof cases
      case (2 s')
      have "length (lg_lexers s') = Suc d"
      proof -
        obtain s2 where s2: "replay_checkpoint d e s1 = Some s2"
          using 2(1) m by (cases "replay_checkpoint d e s1") auto
        have "length (lg_lexers s2) = Suc d"
          using replay_checkpoint_length [OF s2] r(2) d by simp
        then show ?thesis
          using 2(1) s2 m lex_push_steady [of s2 "Suc d" d COMMAND CSH_FRAGMENT_COMMAND "ck_quote e" "ck_command_length e"]
          by (auto simp: steady_def bind_eq_Some_conv split: if_splits)
      qed
      then show ?thesis
        using 2 by (intro exI [of _ "-1"] exI [of _ s']) auto
    qed auto
  qed
qed

subsubsection \<open>Reading a token\<close>

definition next_ok :: "csh_lex_result \<Rightarrow> csh_token option \<Rightarrow> bool" where
  "next_ok r t \<longleftrightarrow> (if r = CSH_LEX_TOKEN then \<exists>token. t = Some token \<and> token_ok token else t = None)"

lemma returns_next_ok: "returns_ok d r t s \<Longrightarrow> next_ok r t"
  by (cases r) (auto simp: next_ok_def)

lemma returns_lexing: "returns_ok d r t s \<Longrightarrow> r \<noteq> CSH_LEX_ERROR \<Longrightarrow> lexing_ok d s"
  by (cases r) (auto simp: loop_ok_def)

text \<open>The result is an error exactly if the lexer has failed.\<close>

definition failure_ok :: "csh_lex_result \<Rightarrow> lexing \<Rightarrow> bool" where
  "failure_ok r s \<longleftrightarrow> (r = CSH_LEX_ERROR \<longleftrightarrow> message (so_failure (lg_source s)) \<noteq> [])"

lemma lexing_failure_ok: "lexing_ok d s \<Longrightarrow> r \<noteq> CSH_LEX_ERROR \<Longrightarrow> failure_ok r s"
  by (simp add: failure_ok_def lexing_ok_def ground_def)

lemma failed_known: "failed_ok s \<Longrightarrow> error_known s"
  by (simp add: failed_ok_def error_known_def)

lemma csh_lexer_next_ok:
  assumes ok: "lexer_ok s" and d: "d < length (lg_lexers s)" and m: "mbrlen_ok cx"
  shows "\<exists>r t s'. csh_lexer_next cx d s = Some (r, t, s') \<and> next_ok r t \<and> lexer_ok s' \<and> failure_ok r s'"
proof (cases "message (so_failure (lg_source s)) = []")
  case False
  let ?s = "s\<lparr>lg_error := so_failure (lg_source s)\<rparr>"
  have "csh_lexer_next cx d s = Some (CSH_LEX_ERROR, None, ?s)"
    using False by (simp add: csh_lexer_next_def lex_next_token_def Let_def)
  moreover have "lexer_ok ?s"
    using failed_lexer_ok' [OF lexer_ok_failed [OF ok False]] lexer_ok_parts(3) [OF ok] by simp
  ultimately show ?thesis
    using False by (simp add: next_ok_def failure_ok_def)
next
  case True
  let ?s = "s\<lparr>lg_error := no_error\<rparr>" and ?k = "length (lg_lexers s) - 1"
  have l: "lexing_ok ?k ?s"
    by (rule lexer_ok_running [OF ok True])
  have fin: "csh_lexer_next cx d s = do {(result, token, s) \<leftarrow> lex_next_token cx d s;
            if result = CSH_LEX_ERROR \<and> lx_arithmetic (lexer_at d s) \<noteq> [] then
              do {(replay, s) \<leftarrow> csh_lexer_replay_arithmetic d s;
                  Some (if replay = 1 then (CSH_LEX_REPLAY, None, s) else (result, token, s))}
            else Some (result, token, s)}"
    using True by (simp add: csh_lexer_next_def)
  show ?thesis
  proof (cases "Suc d < length (lg_lexers s)")
    case deeper: True
    let ?f = "lex_fail d ''read the active command lexer'' EINVAL ?s"
    have "lex_next_token cx d s = Some (CSH_LEX_ERROR, None, ?f)"
      using True deeper by (simp add: lex_next_token_def Let_def)
    moreover have "lx_arithmetic (lexer_at d ?f) = []"
      using True d by (simp add: lex_fail_def lex_fail_at_def Let_def)
    moreover have "lexer_ok ?f"
      by (rule usage_fails [OF l]) auto
    moreover have "failed_ok ?f"
      by (rule fail_failed [OF lexing_facts(1) [OF l]]) auto
    ultimately show ?thesis
      unfolding fin by (simp add: next_ok_def failure_ok_def failed_ok_def)
  next
    case False
    then have dk: "d = ?k"
      using d by simp
    show ?thesis
    proof (cases "lx_command (lexer_at d s)")
      case cmd: True
      have "lex_next_token cx d s = Some (CSH_LEX_COMMAND, None, ?s)"
        using True False cmd by (simp add: lex_next_token_def Let_def)
      then show ?thesis
        unfolding fin using lexing_lexer_ok' [OF l] lexing_failure_ok [OF l] by (simp add: next_ok_def)
    next
      case no: False
      have lo: "loop_ok d ?s"
        using l dk no by (simp add: loop_ok_def)
      obtain r t s1 where r: "lex_loop cx d ?s = Some (r, t, s1)" "returns_ok d r t s1"
        using lex_loop_returns [OF lo m] by blast
      have nx: "lex_next_token cx d s = Some (r, t, s1)"
        using True False no r(1) by (simp add: lex_next_token_def Let_def)
      have len: "length (lg_lexers s1) = length (lg_lexers s)"
        using lex_loop_length [OF r(1)] dk d by simp
      show ?thesis
      proof (cases "r = CSH_LEX_ERROR")
        case err: True
        then have f: "failed_ok s1" "t = None"
          using r(2) by auto
        have ok1: "lexer_ok s1"
          using failed_lexer_ok' [OF f(1)] len d by (cases "lg_lexers s1") auto
        show ?thesis
        proof (cases "lx_arithmetic (lexer_at d s1) = []")
          case True
          then show ?thesis
            unfolding fin nx using err f ok1 by (simp add: next_ok_def failure_ok_def failed_ok_def)
        next
          case ar: False
          obtain v s2 where v: "csh_lexer_replay_arithmetic d s1 = Some (v, s2)"
            "if v = 1 then lexing_ok d s2 \<and> lx_command (lexer_at d s2)
             else if v = -1 then failed_ok s2 \<and> lg_lexers s2 \<noteq> []
             else v = 0 \<and> lexer_ok s2 \<and> lg_lexers s2 = lg_lexers s1 \<and> lg_error s2 = lg_error s1 \<and> so_failure (lg_source s2) = so_failure (lg_source s1)"
            using replay_arithmetic_ok [OF ok1 failed_known [OF f(1)]] d len by (metis (no_types, lifting))
          have "lexer_ok s2"
            using v(2) lexing_lexer_ok' failed_lexer_ok' by (auto split: if_splits)
          moreover have "failure_ok (if v = 1 then CSH_LEX_REPLAY else CSH_LEX_ERROR) s2"
            using v(2) lexing_failure_ok f(1) by (auto simp: failure_ok_def failed_ok_def split: if_splits)
          ultimately show ?thesis
            unfolding fin nx using err f ar v(1) by (cases "v = 1") (simp_all add: next_ok_def)
        qed
      next
        case False
        then show ?thesis
          unfolding fin nx using returns_next_ok [OF r(2)] lexing_lexer_ok' [OF returns_lexing [OF r(2) False]]
            lexing_failure_ok [OF returns_lexing [OF r(2) False] False] by simp
      qed
    qed
  qed
qed

subsubsection \<open>The other operations\<close>

lemma failure_reported:
  assumes "lexer_ok s" "message (so_failure (lg_source s)) \<noteq> []"
  shows "lexer_ok (s\<lparr>lg_error := so_failure (lg_source s)\<rparr>)"
  using lexer_ok_cong [of "s\<lparr>lg_error := so_failure (lg_source s)\<rparr>" s] assms(1) by simp

lemma fresh_lexer_simps [simp]:
  "lx_raw fresh_lexer = []" "lx_fragments fresh_lexer = []" "lx_frames fresh_lexer = []" "\<not> lx_active fresh_lexer"
  "\<not> lx_comment fresh_lexer" "\<not> lx_command fresh_lexer" "lx_arithmetic fresh_lexer = []"
  by (simp_all add: fresh_lexer_def)

lemma fresh_word: "word_ok fresh_lexer"
  by (simp add: word_ok_def spelt_ok_def opened_ok_def candidates_ok_def)

lemma csh_lexer_create_ok: "csh_lexer_create name env = (True, s) \<Longrightarrow> lexer_ok s"
proof -
  assume "csh_lexer_create name env = (True, s)"
  then obtain n s1 where s: "s = s1\<lparr>lg_lexers := [fresh_lexer], lg_source := fresh_source n\<rparr>"
    by (auto simp: csh_lexer_create_def split: option.splits prod.splits bool.splits)
  have "lexing_ok 0 (s\<lparr>lg_error := no_error\<rparr>)"
    using fresh_word unfolding s
    by (simp add: lexing_ok_def ground_def rewinds_ok_def lexers_base_def dollar_ok_def room_ok_def fresh_source_def source_ok_def)
  then show "lexer_ok s"
    using lexing_lexer_ok [of 0 "s\<lparr>lg_error := no_error\<rparr>" "lg_error s"] by simp
qed

text \<open>A new lexer at the end, and lexers removed from the end.\<close>

lemma rewinds_ok_snoc: "rewinds_ok ls \<Longrightarrow> lx_arithmetic l = [] \<Longrightarrow> rewinds_ok (ls @ [l])"
proof -
  assume r: "rewinds_ok ls" and l: "lx_arithmetic l = []"
  have "rewindable d (ls @ [l]) \<and> lexers_ok (rewound d (ls @ [l]))" if d: "d < length (ls @ [l])" "lx_arithmetic ((ls @ [l]) ! d) \<noteq> []" for d
  proof -
    have lt: "d < length ls"
      using d l by (auto simp: nth_append less_Suc_eq)
    have "rewound d (ls @ [l]) = rewound d ls"
      using lt by (auto simp: rewound_def rewound_at_def newest_def nth_append)
    moreover have "rewindable d (ls @ [l]) \<longleftrightarrow> rewindable d ls"
      using lt by (auto simp: rewindable_def newest_def nth_append Let_def)
    ultimately show ?thesis
      using r d lt by (simp add: rewinds_ok_def nth_append)
  qed
  then show "rewinds_ok (ls @ [l])"
    by (simp add: rewinds_ok_def)
qed

lemma rewinds_ok_take: "rewinds_ok ls \<Longrightarrow> rewinds_ok (take n ls)"
proof -
  assume r: "rewinds_ok ls"
  have "rewindable d (take n ls) \<and> lexers_ok (rewound d (take n ls))" if d: "d < length (take n ls)" "lx_arithmetic (take n ls ! d) \<noteq> []" for d
  proof -
    have "rewound d (take n ls) = rewound d ls"
      using d by (auto simp: rewound_def rewound_at_def newest_def)
    moreover have "rewindable d (take n ls) \<longleftrightarrow> rewindable d ls"
      using d by (auto simp: rewindable_def newest_def Let_def)
    ultimately show ?thesis
      using r d by (simp add: rewinds_ok_def)
  qed
  then show "rewinds_ok (take n ls)"
    by (simp add: rewinds_ok_def)
qed

lemma lexers_base_take: "lexers_base ls \<Longrightarrow> lexers_base (take n ls)"
  by (simp add: lexers_base_def)

lemma lexers_base_snoc:
  assumes "lexers_base ls" "Suc d = length ls" "lx_command (ls ! d)" "word_ok l"
  shows "lexers_base (ls @ [l])"
proof -
  have "word_ok ((ls @ [l]) ! i) \<and> (Suc i < length (ls @ [l]) \<longrightarrow> lx_command ((ls @ [l]) ! i))" if "i < length (ls @ [l])" for i
  proof (cases "i < length ls")
    case True
    then show ?thesis
      using assms by (cases "i = d") (auto simp: lexers_base_def nth_append)
  next
    case False
    then have "i = length ls"
      using that by simp
    then show ?thesis
      using assms(4) by simp
  qed
  then show ?thesis
    by (simp add: lexers_base_def)
qed

lemma csh_lexer_command_begin_ok:
  assumes ok: "lexer_ok s" and d: "d < length (lg_lexers s)" and b: "csh_lexer_command_begin d s = (r, s')"
  shows "lexer_ok s'"
proof (cases "message (so_failure (lg_source s)) = []")
  case False
  then show ?thesis
    using b failure_reported [OF ok False] by (simp add: csh_lexer_command_begin_def Let_def)
next
  case True
  let ?s = "s\<lparr>lg_error := no_error\<rparr>" and ?k = "length (lg_lexers s) - 1"
  have l: "lexing_ok ?k ?s"
    by (rule lexer_ok_running [OF ok True])
  obtain a s1 where m: "lex_malloc ?s = (a, s1)" by (cases "lex_malloc ?s")
  note k = lex_malloc_keeps [OF m]
  have l1: "lexing_ok ?k s1"
    using l k by (simp add: lexing_ok_def ground_def)
  have u: "lexer_ok (lex_fail d ''no pending command substitution'' EINVAL ?s)" "lexer_ok (lex_fail d ''cannot allocate command lexer'' ENOMEM s1)"
    using usage_fails l l1 by auto
  have "lexer_ok (s1\<lparr>lg_lexers := lg_lexers s1 @ [fresh_lexer]\<rparr>)" if c: "lx_command (lexer_at d s)" "\<not> Suc d < length (lg_lexers s)"
  proof -
    let ?t = "s1\<lparr>lg_lexers := lg_lexers s1 @ [fresh_lexer]\<rparr>"
    have dk: "Suc d = length (lg_lexers s1)" "d = ?k"
      using c d k by auto
    have "lexers_base (lg_lexers ?t)"
      using lexers_base_snoc [OF lexing_facts(4) [OF l1] dk(1) _ fresh_word] c(1) k by simp
    moreover have "ground ?t"
      using lexing_facts(1) [OF l1] rewinds_ok_snoc by (auto simp: ground_def room_ok_def)
    ultimately have "lexing_ok (Suc d) ?t"
      using lexing_facts(5) [OF l1] dk by (simp add: lexing_ok_def dollar_ok_def nth_append)
    then show ?thesis
      by (rule lexing_lexer_ok')
  qed
  then show ?thesis
    using b True m u by (cases a) (auto simp: csh_lexer_command_begin_def Let_def split: if_splits)
qed

lemma command_closed:
  assumes l: "lexing_ok d s" and c: "lx_command (lexer_at d s)"
  shows "word_at d (set_lexer d (\<lambda>l. l\<lparr>lx_command := False\<rparr>) s)"
    "\<exists>f frs. lx_frames (lexer_at d s) = f # frs \<and> fm_kind f = COMMAND"
proof -
  note k = lexing_facts [OF l]
  let ?s = "set_lexer d (\<lambda>l. l\<lparr>lx_command := False\<rparr>) s" and ?l = "lexer_at d s"
  show fr: "\<exists>f frs. lx_frames ?l = f # frs \<and> fm_kind f = COMMAND"
    using k(6) c by (auto simp: word_ok_def)
  then have act: "lx_active ?l" "lx_kind ?l = CSH_TOKEN_WORD" "\<not> lx_comment ?l"
    using k(6) frame_active [OF k(6)] by (auto simp: word_ok_def)
  have w: "work_ok d s"
    using k act by (simp add: work_ok_def word_ok_def)
  have "ground ?s"
  proof (rule set_last_ground [OF k(1,3)])
    assume "lx_arithmetic ?l \<noteq> []"
    then show "extends_above ?l (?l\<lparr>lx_command := False\<rparr>)"
      using work_counts [OF w] by (cases ?l) (simp add: extends_above_def shell_def husk_def core_def Let_def less_imp_le)
  qed (simp_all add: room_ok_def)
  then have "work_ok d ?s"
    using w k(2) by (simp add: work_ok_def spelt_ok_def candidates_ok_def body_ok_def)
  then show "word_at d ?s"
    using k act by (simp add: word_at_def word_ok_def opened_ok_def)
qed

lemma lexing_take:
  assumes l: "lexing_ok k s" and d: "d < k"
  shows "lexing_ok d (s\<lparr>lg_lexers := take (Suc d) (lg_lexers s)\<rparr>)" (is "lexing_ok d ?s")
proof -
  note f = lexing_facts [OF l]
  have len: "Suc d = length (lg_lexers ?s)"
    using f(3) d by simp
  have w: "word_ok (lexer_at d s)" "lx_command (lexer_at d s)"
    using f(7) d by auto
  then have "lx_raw (lexer_at d s) \<noteq> []"
    using frame_raw [of "lexer_at d s" "lx_frames (lexer_at d s)"] by (auto simp: word_ok_def)
  moreover have "\<forall>l \<in> set (take (Suc d) (lg_lexers s)). room_ok l"
    using f(1) by (auto simp: ground_def dest: in_set_takeD)
  ultimately show ?thesis
    using f(1,4,5) len rewinds_ok_take lexers_base_take by (simp add: lexing_ok_def ground_def dollar_ok_def)
qed

lemma csh_lexer_command_end_ok:
  assumes ok: "lexer_ok s" and d: "d < length (lg_lexers s)"
  shows "\<exists>r s'. csh_lexer_command_end d child closing s = Some (r, s') \<and> lexer_ok s'"
proof (cases "message (so_failure (lg_source s)) = []")
  case False
  then show ?thesis
    using failure_reported [OF ok False] by (auto simp: csh_lexer_command_end_def Let_def)
next
  case True
  let ?s = "s\<lparr>lg_error := no_error\<rparr>" and ?k = "length (lg_lexers s) - 1"
  have l: "lexing_ok ?k ?s"
    by (rule lexer_ok_running [OF ok True])
  show ?thesis
  proof (cases "closes_command d child closing ?s")
    case False
    then show ?thesis
      using True usage_fails [OF l, of "''invalid command-substitution boundary''" d EINVAL] by (auto simp: csh_lexer_command_end_def Let_def)
  next
    case cl: True
    then have c: "Suc (Suc d) = length (lg_lexers s)" "lx_command (lexer_at d s)"
      by (auto simp: closes_command_def split: option.splits)
    let ?t = "?s\<lparr>lg_lexers := take (Suc d) (lg_lexers s)\<rparr>" and ?u = "set_lexer d (\<lambda>l. l\<lparr>lx_command := False\<rparr>) (?s\<lparr>lg_lexers := take (Suc d) (lg_lexers s)\<rparr>)"
    have lt: "lexing_ok d ?t"
      using lexing_take [OF l, of d] c(1) by simp
    have ct: "lx_command (lexer_at d ?t)"
      using c by simp
    note w = command_closed [OF lt ct]
    obtain f frs where f: "lx_frames (lexer_at d ?t) = f # frs" "fm_kind f = COMMAND"
      using w(2) by blast
    have fu: "lx_frames (lexer_at d ?u) = f # frs"
      using f lexing_facts(2) [OF lt] by simp
    have cur: "so_cursor (lg_source ?u) + 0 \<le> length (so_data (lg_source ?u))"
      using lexing_facts(5) [OF lt] alias_chain_le by (auto simp: source_ok_def)
    have "achieves (lex_pop d 0 ?u) (\<lambda>s'. word_at d s' \<and> lx_raw (lexer_at d s') \<noteq> [] \<and> lx_frames (lexer_at d s') = frs)"
      using f(2) by (intro pop_word [OF w(1) fu _ _ cur]) (auto simp: closing_bytes_def)
    moreover have "csh_lexer_command_end d child closing s = lex_pop d 0 ?u"
      using True cl by (simp add: csh_lexer_command_end_def csh_lexer_destroy_def Let_def)
    ultimately consider s' where "csh_lexer_command_end d child closing s = Some (True, s')" "word_at d s'" "lx_raw (lexer_at d s') \<noteq> []"
      | s' where "csh_lexer_command_end d child closing s = Some (False, s')" "failed_ok s'" "length (lg_lexers s') = Suc d"
      using lex_pop_steady [of ?u "Suc d" d 0] c(1) by (auto simp: achieves_def steady_def)
    then show ?thesis
    proof cases
      case (1 s')
      then show ?thesis
        using word_at_loop [OF 1(2,3)] lexing_lexer_ok' by (auto simp: loop_ok_def)
    next
      case (2 s')
      then show ?thesis
        using failed_lexer_ok' [OF 2(2)] by (cases "lg_lexers s'") auto
    qed
  qed
qed

text \<open>A change of an idle lexer, or of what the invariant does not see.\<close>

lemma akin_ground:
  assumes g: "ground s" and l: "length (lg_lexers s') = length (lg_lexers s)" and a: "\<And>i. i < length (lg_lexers s) \<Longrightarrow> akin (lexer_at i s) (lexer_at i s')"
    and r: "\<forall>l \<in> set (lg_lexers s'). room_ok l" and f: "so_failure (lg_source s') = so_failure (lg_source s)" "lg_error s' = lg_error s"
  shows "ground s'"
  using g r f akin_rewinds_ok [OF _ l a] by (simp add: ground_def)

lemma akin_lexing:
  assumes k: "lexing_ok d s" and l: "length (lg_lexers s') = length (lg_lexers s)" and a: "\<And>i. i < length (lg_lexers s) \<Longrightarrow> akin (lexer_at i s) (lexer_at i s')"
    and r: "\<forall>l \<in> set (lg_lexers s'). room_ok l" and f: "so_failure (lg_source s') = so_failure (lg_source s)" "lg_error s' = lg_error s"
    and so: "source_ok (lg_source s')" "dollar_ok (lexer_at d s) (lg_source s')"
  shows "lexing_ok d s'"
proof -
  note g = lexing_facts [OF k]
  have "ground s'"
    by (rule akin_ground [OF g(1) l a r f])
  moreover have "lexers_base (lg_lexers s')"
    by (rule akin_lexers_base [OF g(4) l a])
  moreover have "dollar_ok (lexer_at d s') (lg_source s')"
    using so(2) a [OF g(2)] by (simp add: dollar_ok_def akin_def)
  ultimately show ?thesis
    using g(3) l so(1) by (simp add: lexing_ok_def)
qed

lemma akin_failed:
  assumes k: "failed_ok s" and l: "length (lg_lexers s') = length (lg_lexers s)" and a: "\<And>i. i < length (lg_lexers s) \<Longrightarrow> akin (lexer_at i s) (lexer_at i s')"
    and r: "\<forall>l \<in> set (lg_lexers s'). room_ok l" and f: "so_failure (lg_source s') = so_failure (lg_source s)" "lg_error s' = lg_error s"
  shows "failed_ok s'"
proof -
  have "rewinds_ok (lg_lexers s')"
    using k akin_rewinds_ok [OF _ l a] by (simp add: failed_ok_def)
  moreover have "\<exists>l \<in> set (lg_lexers s). lx_arithmetic l \<noteq> []" if x: "\<exists>l \<in> set (lg_lexers s'). lx_arithmetic l \<noteq> []"
  proof -
    obtain l' where l': "l' \<in> set (lg_lexers s')" "lx_arithmetic l' \<noteq> []"
      using x by blast
    obtain i where i: "i < length (lg_lexers s)" "lexer_at i s' = l'"
      using l'(1) unfolding in_set_conv_nth l by blast
    then have "lx_arithmetic (lexer_at i s) \<noteq> []"
      using a [OF i(1)] same_checkpoints(3) l'(2) i(2) by (auto simp: akin_def)
    then show ?thesis
      using i(1) nth_mem by blast
  qed
  ultimately show ?thesis
    using k r f akin_lexers_base [OF _ l a] by (simp add: failed_ok_def)
qed

lemma set_lexer_room:
  assumes room: "\<forall>l \<in> set (lg_lexers s). room_ok l" and h: "room_ok (lexer_at e s) \<Longrightarrow> room_ok (h (lexer_at e s))"
  shows "\<forall>l \<in> set (lg_lexers (set_lexer e h s)). room_ok l"
proof (cases "e < length (lg_lexers s)")
  case True
  then have "room_ok (h (lexer_at e s))"
    using room h by simp
  then show ?thesis
    using room set_update_subset_insert [of "lg_lexers s" e "h (lexer_at e s)"] by (auto simp: set_lexer_def)
next
  case False
  then show ?thesis
    using room by (simp add: set_lexer_def list_update_beyond)
qed

lemma set_lexer_akin:
  assumes k: "lexing_ok d s" and h: "akin (lexer_at e s) (h (lexer_at e s))" "room_ok (lexer_at e s) \<Longrightarrow> room_ok (h (lexer_at e s))"
  shows "lexing_ok d (set_lexer e h s)"
proof (rule akin_lexing [OF k])
  have room: "\<forall>l \<in> set (lg_lexers s). room_ok l"
    using lexing_facts(1) [OF k] by (simp add: ground_def)
  show "\<forall>l \<in> set (lg_lexers (set_lexer e h s)). room_ok l"
    using set_lexer_room [OF room] h(2) .
  fix i
  assume "i < length (lg_lexers s)"
  then show "akin (lexer_at i s) (lexer_at i (set_lexer e h s))"
    using h(1) by (cases "i = e") (simp_all add: set_lexer_def)
qed (use lexing_facts [OF k] in simp_all)

lemma has_last_akin: "akin l (l\<lparr>lx_has_last := b\<rparr>)" "room_ok l \<Longrightarrow> room_ok (l\<lparr>lx_has_last := b\<rparr>)"
  "akin l (l\<lparr>lx_document := b\<rparr>)" "room_ok l \<Longrightarrow> room_ok (l\<lparr>lx_document := b\<rparr>)"
  by (simp_all add: akin_def room_ok_def same_checkpoint_def list_all2_refl)

lemma csh_lexer_document_ok: "lexer_ok s \<Longrightarrow> lexer_ok (csh_lexer_document d s)"
proof (cases "message (so_failure (lg_source s)) = []")
  assume ok: "lexer_ok s"
  case True
  have "lexing_ok (length (lg_lexers s) - 1) (set_lexer d (\<lambda>l. l\<lparr>lx_document := True\<rparr>) (s\<lparr>lg_error := no_error\<rparr>))"
    using lexer_ok_running [OF ok True] has_last_akin(3,4) by (rule set_lexer_akin)
  moreover have "set_lexer d h (s\<lparr>lg_error := e\<rparr>) = (set_lexer d h s)\<lparr>lg_error := e\<rparr>" for h e
    by (simp add: set_lexer_def)
  ultimately show ?thesis
    using lexing_lexer_ok [of "length (lg_lexers s) - 1" "(set_lexer d (\<lambda>l. l\<lparr>lx_document := True\<rparr>) s)\<lparr>lg_error := no_error\<rparr>" "lg_error s"]
    by (simp add: csh_lexer_document_def) (simp add: set_lexer_def)
next
  assume ok: "lexer_ok s"
  case False
  let ?h = "\<lambda>l. l\<lparr>lx_document := True\<rparr>" and ?s = "s\<lparr>lg_error := so_failure (lg_source s)\<rparr>"
  have f: "failed_ok ?s"
    by (rule lexer_ok_failed [OF ok False])
  have "failed_ok (set_lexer d ?h ?s)"
  proof (rule akin_failed [OF f])
    show "akin (lexer_at i ?s) (lexer_at i (set_lexer d ?h ?s))" if "i < length (lg_lexers ?s)" for i
      using has_last_akin(3) that by (cases "i = d") simp_all
    show "\<forall>l \<in> set (lg_lexers (set_lexer d ?h ?s)). room_ok l"
      using set_lexer_room [of ?s d ?h] f has_last_akin(4) by (simp add: failed_ok_def)
  qed simp_all
  moreover have "lg_lexers (set_lexer d ?h ?s) \<noteq> []"
    using lexer_ok_parts(3) [OF ok] by (simp add: set_lexer_def)
  ultimately have "lexer_ok (set_lexer d ?h ?s)"
    by (rule failed_lexer_ok')
  then show ?thesis
    using lexer_ok_cong [of "csh_lexer_document d s" "set_lexer d ?h ?s"] by (simp add: csh_lexer_document_def) (simp add: set_lexer_def)
qed

lemma csh_lexer_set_position_ok: "lexer_ok s \<Longrightarrow> lexer_ok (csh_lexer_set_position p s)"
proof -
  have "source_ok (so\<lparr>so_position := p\<rparr>) \<longleftrightarrow> source_ok so" for so
    by (simp add: source_ok_def cong: option.case_cong)
  then show "lexer_ok s \<Longrightarrow> lexer_ok (csh_lexer_set_position p s)"
    by (auto simp: lexer_ok_def lexing_ok_def ground_def failed_ok_def dollar_ok_def csh_lexer_set_position_def)
qed

lemma csh_lexer_destroy_ok:
  assumes ok: "lexer_ok s" and d: "0 < d"
  shows "lexer_ok (csh_lexer_destroy d s)"
proof -
  let ?s = "s\<lparr>lg_lexers := take d (lg_lexers s)\<rparr>"
  have e: "csh_lexer_destroy d s = ?s"
    using d by (simp add: csh_lexer_destroy_def)
  have ne: "lg_lexers ?s \<noteq> []"
    using d lexer_ok_parts(3) [OF ok] by simp
  show ?thesis
  proof (cases "d < length (lg_lexers s)")
    case False
    then show ?thesis
      using ok e by (simp add: )
  next
    case True
    show ?thesis
    proof (cases "message (so_failure (lg_source s)) = []")
      case run: True
      obtain k where k: "d = Suc k"
        using d by (cases d) auto
      have "lexing_ok k ((s\<lparr>lg_error := no_error\<rparr>)\<lparr>lg_lexers := take (Suc k) (lg_lexers s)\<rparr>)"
        using lexing_take [OF lexer_ok_running [OF ok run], of k] True k by simp
      from lexing_lexer_ok [OF this, of "lg_error s"] show ?thesis
        using k by (simp add: csh_lexer_destroy_def)
    next
      case False
      note f = lexer_ok_failed [OF ok False]
      then have "rewinds_ok (take d (lg_lexers s))" "\<forall>l \<in> set (take d (lg_lexers s)). room_ok l"
        using rewinds_ok_take by (auto simp: failed_ok_def dest: in_set_takeD)
      moreover have "lexers_base (take d (lg_lexers s))" if "lexers_base (lg_lexers s)"
        using that by (rule lexers_base_take)
      moreover have "\<exists>l \<in> set (lg_lexers s). lx_arithmetic l \<noteq> []" if "\<exists>l \<in> set (take d (lg_lexers s)). lx_arithmetic l \<noteq> []"
        using that by (auto dest: in_set_takeD)
      ultimately show ?thesis
        using f ne by (auto simp: e lexer_ok_def failed_ok_def)
    qed
  qed
qed

subsection \<open>Feeding\<close>

lemma alias_chain_mono: "alias_chain n as m \<Longrightarrow> m \<le> m' \<Longrightarrow> alias_chain n as m'"
  by (induction as arbitrary: n) auto

lemma source_ok_append:
  assumes "source_ok so" "so_data so' = so_data so @ bs" "so_cursor so' = so_cursor so" "so_aliases so' = so_aliases so" "so_look so' = so_look so"
  shows "source_ok so'"
proof -
  have "so_cursor so \<le> length (so_data so)"
    using assms(1) alias_chain_le by (auto simp: source_ok_def)
  then have "cache_ok (length (so_data so) + length bs - so_cursor so) n ps" if "cache_ok (length (so_data so) - so_cursor so) n ps" for n ps
    using that by (fastforce simp: cache_ok_def)
  then show ?thesis
    using assms alias_chain_mono [of "so_cursor so" "so_aliases so" "length (so_data so)"]
    by (auto simp: source_ok_def split: option.splits)
qed

lemma feed_checkpoints_akin:
  "feed_checkpoints bytes final cs s = (r, s') \<Longrightarrow>
   lg_source s' = lg_source s \<and> lg_lexers s' = lg_lexers s \<and> lg_error s' = lg_error s \<and>
   (\<forall>m e. r = Inl (m, e) \<longrightarrow> m \<noteq> [] \<and> take 13 m \<noteq> ''unterminated '') \<and>
   (\<forall>cs'. r = Inr cs' \<longrightarrow> list_all2 same_checkpoint cs cs' \<and> ((\<forall>c \<in> set cs. checkpoint_ok c) \<longrightarrow> (\<forall>c \<in> set cs'. checkpoint_ok c)))"
proof (induction cs arbitrary: r s s')
  case (Cons c cs)
  let ?fed = "\<lambda>cap. c\<lparr>ck_source := (ck_source c)\<lparr>so_data := so_data (ck_source c) @ bytes, so_capacity := cap, so_final := final\<rparr>\<rparr>"
  have ok: "checkpoint_ok (?fed cap)" if "checkpoint_ok c" for cap
    using that source_ok_append [of "ck_source c" "ck_source (?fed cap)" bytes] by (simp add: checkpoint_ok_def)
  have same: "same_checkpoint c (?fed cap)" for cap
    by (simp add: same_checkpoint_def)
  obtain b cap s1 where r1: "lex_reserve (so_capacity (ck_source c)) (length (so_data (ck_source c)) + length bytes) 1 s = (b, cap, s1)"
    by (metis prod_cases3)
  obtain q s2 where r2: "feed_checkpoints bytes final cs s1 = (q, s2)"
    by (metis surj_pair)
  note ih = Cons.IH [OF r2] and k = lex_reserve_keeps [OF r1]
  consider "SIZE_MAX - length (so_data (ck_source c)) < length bytes" | "\<not> SIZE_MAX - length (so_data (ck_source c)) < length bytes" "\<not> b"
    | "\<not> SIZE_MAX - length (so_data (ck_source c)) < length bytes" b by blast
  then show ?case
  proof cases
    case 3
    then show ?thesis
      using Cons.prems ih k ok [of cap] same [of cap] by (cases q) (auto simp: r1 r2 Let_def simp del: One_nat_def)
  qed (use Cons.prems k in \<open>auto simp: r1 Let_def simp del: One_nat_def\<close>)
qed simp

lemma feed_owners_akin:
  "feed_owners bytes final ls s = (r, s') \<Longrightarrow>
   lg_source s' = lg_source s \<and> lg_lexers s' = lg_lexers s \<and> lg_error s' = lg_error s \<and>
   (\<forall>m e. r = Inl (m, e) \<longrightarrow> m \<noteq> [] \<and> take 13 m \<noteq> ''unterminated '') \<and>
   (\<forall>ls'. r = Inr ls' \<longrightarrow> list_all2 akin ls ls' \<and> ((\<forall>l \<in> set ls. room_ok l) \<longrightarrow> (\<forall>l \<in> set ls'. room_ok l)))"
proof (induction ls arbitrary: r s s')
  case (Cons l ls)
  have ak: "akin l (l\<lparr>lx_arithmetic := cs\<rparr>)" if "list_all2 same_checkpoint (lx_arithmetic l) cs" for cs
    using that by (simp add: akin_def)
  have room: "room_ok (l\<lparr>lx_arithmetic := cs\<rparr>)" if "room_ok l" "\<forall>c \<in> set cs. checkpoint_ok c" for cs
    using that by (simp add: room_ok_def)
  obtain q1 s1 where r1: "feed_checkpoints bytes final (lx_arithmetic l) s = (q1, s1)"
    by (metis surj_pair)
  obtain q s2 where r2: "feed_owners bytes final ls s1 = (q, s2)"
    by (metis surj_pair)
  show ?case
  proof (cases q1)
    case (Inl e)
    then show ?thesis
      using Cons.prems feed_checkpoints_akin [OF r1] by (auto simp: r1)
  next
    case (Inr cs)
    have cs: "list_all2 same_checkpoint (lx_arithmetic l) cs" "room_ok l \<Longrightarrow> \<forall>c \<in> set cs. checkpoint_ok c"
      using feed_checkpoints_akin [OF r1] Inr by (auto simp: room_ok_def)
    show ?thesis
      using Cons.prems Cons.IH [OF r2] feed_checkpoints_akin [OF r1] ak [OF cs(1)] room [OF _ cs(2)]
      by (auto simp: r1 r2 Inr split: sum.splits)
  qed
qed simp

lemma drop_compact [simp]: "drop (so_cursor (compact_source so)) (so_data (compact_source so)) = drop (so_cursor so) (so_data so)"
  by (simp add: compact_source_def)

lemma dollar_ok_append:
  assumes "dollar_ok l so" "drop (so_cursor so') (so_data so') = drop (so_cursor so) (so_data so) @ bs"
  shows "dollar_ok l so'"
  using assms by (auto simp: dollar_ok_def)

text \<open>Feeding a running lexer, up to the failures of its own.\<close>

lemma fed_lexing:
  assumes k: "lexing_ok d s" and ls: "list_all2 akin (lg_lexers s) ls" "\<forall>l \<in> set ls. room_ok l"
    and t: "lg_lexers t = ls" "lg_error t = lg_error s" "so_failure (lg_source t) = so_failure (lg_source s)" "source_ok (lg_source t)"
      "drop (so_cursor (lg_source t)) (so_data (lg_source t)) = drop (so_cursor (lg_source s)) (so_data (lg_source s)) @ bs"
  shows "lexing_ok d t"
proof (rule akin_lexing [OF k])
  show "length (lg_lexers t) = length (lg_lexers s)"
    using ls(1) t(1) by (simp add: list_all2_lengthD)
  show "akin (lexer_at i s) (lexer_at i t)" if "i < length (lg_lexers s)" for i
    using ls(1) t(1) that by (simp add: list_all2_nthD)
  show "dollar_ok (lexer_at d s) (lg_source t)"
    by (rule dollar_ok_append [OF lexing_facts(8) [OF k] t(5)])
qed (use ls t in simp_all)

lemma csh_lexer_feed_ok:
  assumes ok: "lexer_ok s" and f: "csh_lexer_feed d bytes n final s = (r, s')"
  shows "lexer_ok s'"
proof (cases "message (so_failure (lg_source s)) = []")
  case False
  then have "s' = s\<lparr>lg_error := so_failure (lg_source s)\<rparr>"
    using f by (simp add: csh_lexer_feed_def)
  then show ?thesis
    using lexer_ok_cong [of s' s] ok by simp
next
  case True
  define c where "c = s\<lparr>lg_error := no_error\<rparr>"
  define k where "k = length (lg_lexers s) - 1"
  let ?fed = "case bytes of None \<Rightarrow> [] | Some b \<Rightarrow> take n b"
  have lx: "lexing_ok k c"
    using lexer_ok_running [OF ok True] by (simp add: c_def k_def)
  have fl: "lexer_ok (lex_fail d m e s)" if "lexing_ok k s" "m \<noteq> []" "take 13 m \<noteq> ''unterminated ''" for m e s
    using usage_fails that by blast
  have run: "csh_lexer_feed d bytes n final s =
      (if so_final (lg_source c) \<or> n \<noteq> 0 \<and> bytes = None then (False, lex_fail d ''invalid lexer feed'' EINVAL c)
       else case feed_owners ?fed final (lg_lexers c) c of
           (Inl (m, e), s) \<Rightarrow> (False, lex_fail d m e s)
         | (Inr ls, s) \<Rightarrow>
             (let s = set_source compact_source (s\<lparr>lg_lexers := ls\<rparr>);
                  so = lg_source s
              in if SIZE_MAX - length (so_data so) < length ?fed
                 then (False, lex_fail d ''lexer source is too large'' EOVERFLOW s)
                 else
                   (case lex_reserve (so_capacity so) (length (so_data so) + length ?fed) 1 s of
                      (False, _, s) \<Rightarrow> (False, lex_fail d ''cannot grow lexer source'' (lg_errno s) s)
                    | (True, capacity, s) \<Rightarrow>
                        (True, set_source (\<lambda>so. so\<lparr>so_data := so_data so @ ?fed, so_capacity := capacity, so_final := final\<rparr>) s))))"
    using True by (simp add: csh_lexer_feed_def Let_def c_def)
  note run' = f [unfolded run]
  show ?thesis
  proof (cases "so_final (lg_source c) \<or> n \<noteq> 0 \<and> bytes = None")
    case True
    then have "s' = lex_fail d ''invalid lexer feed'' EINVAL c"
      using f run by simp
    then show ?thesis
      using fl [OF lx] by simp
  next
    case False
    obtain q s1 where o: "feed_owners ?fed final (lg_lexers c) c = (q, s1)"
      by (metis surj_pair)
    note a = feed_owners_akin [OF o]
    note fed = run' [unfolded if_not_P [OF False] o]
    show ?thesis
    proof (cases q)
      case (Inl x)
      obtain m e where x: "x = (m, e)"
        by fastforce
      have "lexing_ok k s1"
        using lx a by (simp add: lexing_ok_def ground_def)
      moreover have "s' = lex_fail d m e s1"
        using fed by (simp add: Inl x)
      ultimately show ?thesis
        using fl a Inl x by blast
    next
      case (Inr ls)
      define s2 where "s2 = set_source compact_source (s1\<lparr>lg_lexers := ls\<rparr>)"
      obtain b cap s3 where r3: "lex_reserve (so_capacity (lg_source s2)) (length (so_data (lg_source s2)) + length ?fed) 1 s2 = (b, cap, s3)"
        by (metis prod_cases3)
      let ?t = "set_source (\<lambda>so. so\<lparr>so_data := so_data so @ ?fed, so_capacity := cap, so_final := final\<rparr>) s3"
      have ls: "list_all2 akin (lg_lexers c) ls" "\<forall>l \<in> set ls. room_ok l"
        using a Inr lexing_facts(1) [OF lx] by (auto simp: ground_def)
      have c2: "source_ok (compact_source (lg_source c))"
        using lexing_facts(5) [OF lx] by (rule source_ok_compact)
      have f2: "so_failure (compact_source (lg_source c)) = so_failure (lg_source c)"
        by (simp add: compact_source_def)
      have s2: "lg_lexers s2 = ls" "lg_source s2 = compact_source (lg_source c)" "lg_error s2 = lg_error c"
        using a by (simp_all add: s2_def)
      have k2: "lexing_ok k s2"
        using s2 c2 f2 by (intro fed_lexing [OF lx ls, where bs = "[]"]) simp_all
      note s3 = lex_reserve_keeps [OF r3]
      have k3: "lexing_ok k s3"
        using k2 s3 by (simp add: lexing_ok_def ground_def)
      have kt: "lexing_ok k ?t"
      proof (rule fed_lexing [OF lx ls, where bs = ?fed])
        show "source_ok (lg_source ?t)"
          by (rule source_ok_append [OF c2, where bs = ?fed]) (simp_all add: s3 s2)
      qed (simp_all add: s3 s2 f2, simp add: compact_source_def)
      have "s' = (if SIZE_MAX - length (so_data (lg_source s2)) < length ?fed then lex_fail d ''lexer source is too large'' EOVERFLOW s2
          else if b then ?t else lex_fail d ''cannot grow lexer source'' (lg_errno s3) s3)"
        using fed by (simp add: Inr s2_def [symmetric] r3 Let_def del: One_nat_def set_source_simps split: if_splits bool.splits)
      then show ?thesis
        using fl [OF k2] fl [OF k3] lexing_lexer_ok' [OF kt] by simp
    qed
  qed
qed

subsection \<open>Aliases and raw input\<close>

lemma alias_chain_shift: "alias_chain n as m \<Longrightarrow> alias_chain (n + k) (map (\<lambda>b. b\<lparr>al_end := al_end b + k\<rparr>) as) (m + k)"
  by (induction as arbitrary: n) auto

lemma source_ok_insert:
  assumes "source_ok so"
  shows "source_ok (insert_alias (alias_of_token d t name v so) t v ac c so)"
proof -
  have c: "so_cursor so \<le> length (so_data so)"
    using assms alias_chain_le by (auto simp: source_ok_def)
  have "alias_chain (so_cursor so + (length v + 1)) (map (\<lambda>b. b\<lparr>al_end := al_end b + (length v + 1)\<rparr>) (so_aliases so))
      (length (so_data so) + (length v + 1))"
    using assms by (intro alias_chain_shift) (simp add: source_ok_def)
  moreover have "length (take (so_cursor so) (so_data so) @ v @ '' '' @ drop (so_cursor so) (so_data so)) = length (so_data so) + (length v + 1)"
    using c by simp
  ultimately have "alias_chain (so_cursor so + (length v + 1)) (map (\<lambda>b. b\<lparr>al_end := al_end b + (length v + 1)\<rparr>) (so_aliases so))
      (length (take (so_cursor so) (so_data so) @ v @ '' '' @ drop (so_cursor so) (so_data so)))"
    by (simp only:)
  then show ?thesis
    by (simp add: source_ok_def insert_alias_def alias_of_token_def)
qed

lemma inserted_lexing:
  assumes k: "lexing_ok d s" and a: "\<not> lx_active (lexer_at d s)"
  shows "lexing_ok d (set_lexer d (\<lambda>l. l\<lparr>lx_has_last := False\<rparr>) (set_source (insert_alias (alias_of_token d t n v (lg_source s)) t v ac c) s))"
proof (rule set_lexer_akin)
  let ?s = "set_source (insert_alias (alias_of_token d t n v (lg_source s)) t v ac c) s"
  have "source_ok (lg_source ?s)"
    using source_ok_insert [OF lexing_facts(5) [OF k]] by simp
  moreover have "dollar_ok (lexer_at d s) (lg_source ?s)"
    using a by (simp add: dollar_ok_def)
  moreover have "so_failure (lg_source ?s) = so_failure (lg_source s)"
    by (simp add: insert_alias_def)
  ultimately show "lexing_ok d ?s"
    using k by (simp add: lexing_ok_def ground_def)
qed (simp_all add: has_last_akin)

lemma csh_lexer_alias_push_ok:
  assumes ok: "lexer_ok s" and d: "d < length (lg_lexers s)" and f: "csh_lexer_alias_push d token name value s = (r, s')"
  shows "lexer_ok s'"
proof (cases "message (so_failure (lg_source s)) = []")
  case False
  then have "s' = s\<lparr>lg_error := so_failure (lg_source s)\<rparr>"
    using f by (simp add: csh_lexer_alias_push_def)
  then show ?thesis
    using lexer_ok_cong [of s' s] ok by simp
next
  case True
  define c where "c = s\<lparr>lg_error := no_error\<rparr>"
  define k where "k = length (lg_lexers s) - 1"
  have lx: "lexing_ok k c"
    using lexer_ok_running [OF ok True] by (simp add: c_def k_def)
  have fl: "lexer_ok (lex_fail d m e s)" if "lexing_ok k s" "m \<noteq> []" "take 13 m \<noteq> ''unterminated ''" for m e s
    using usage_fails that by blast
  show ?thesis
  proof (cases "\<exists>t n v. token = Some t \<and> name = Some n \<and> value = Some v \<and> alias_boundary d t n c")
    case False
    then have "s' = lex_fail d ''invalid alias substitution boundary'' EINVAL c"
      using f True by (auto simp: csh_lexer_alias_push_def c_def Let_def split: option.splits)
    then show ?thesis
      using fl [OF lx] by simp
  next
    case b: True
    then obtain t n v where arg: "token = Some t" "name = Some n" "value = Some v" and bd: "alias_boundary d t n c"
      by blast
    let ?so = "lg_source c"
    have "d = k"
      using bd d by (auto simp: alias_boundary_def Let_def k_def c_def)
    then have dk: "d = k" "\<not> lx_active (lexer_at k c)"
      using bd by (auto simp: alias_boundary_def Let_def)
    obtain b1 s1 where 1: "copy_alias_names 1 c = (b1, s1)"
      by (metis surj_pair)
    obtain b2 ac s2 where 2: "lex_reserve (so_alias_capacity ?so) (length (so_aliases ?so) + 1) 96 s1 = (b2, ac, s2)"
      by (metis prod_cases3)
    obtain b3 cap s3 where 3: "lex_reserve (so_capacity ?so) (length (so_data ?so) + (length v + 1)) 1 s2 = (b3, cap, s3)"
      by (metis prod_cases3)
    note keeps = copy_alias_names_keeps [OF 1] lex_reserve_keeps [OF 2] lex_reserve_keeps [OF 3]
    have l: "lexing_ok k s1" "lexing_ok k s2" "lexing_ok k s3"
      using lx keeps by (simp_all add: lexing_ok_def ground_def)
    have "lg_source s3 = ?so" "lg_lexers s3 = lg_lexers c"
      using keeps by simp_all
    then have ins: "lexer_ok (set_lexer d (\<lambda>l. l\<lparr>lx_has_last := False\<rparr>) (set_source (insert_alias (alias_of_token d t n v ?so) t v ac cap) s3))"
      using inserted_lexing [OF l(3), of t n v ac cap] dk lexing_lexer_ok' by simp
    define big where "big \<longleftrightarrow> length v = SIZE_MAX \<or> SIZE_MAX - length v - 1 < length (so_data ?so) \<or> length (so_aliases ?so) = SIZE_MAX \<or> SIZE_MAX - 7 < length n"
    have "(r, s') = (if big then (False, lex_fail d ''alias source is too large'' EOVERFLOW c)
        else if \<not> b1 then (False, lex_fail d ''cannot allocate alias source'' ENOMEM s1)
        else if \<not> b2 then (False, lex_fail d ''cannot grow alias input'' (lg_errno s2) s2)
        else if \<not> b3 then (False, lex_fail d ''cannot grow alias input'' (lg_errno s3) s3)
        else (True, set_lexer d (\<lambda>l. l\<lparr>lx_has_last := False\<rparr>) (set_source (insert_alias (alias_of_token d t n v ?so) t v ac cap) s3)))"
    proof -
      have "csh_lexer_alias_push d (Some t) (Some n) (Some v) s =
          (if big then (False, lex_fail d ''alias source is too large'' EOVERFLOW c)
           else (case copy_alias_names 1 c of
                  (False, s) \<Rightarrow> (False, lex_fail d ''cannot allocate alias source'' ENOMEM s)
                | (True, s) \<Rightarrow>
                    (case lex_reserve (so_alias_capacity ?so) (length (so_aliases ?so) + 1) 96 s of
                       (False, _, s) \<Rightarrow> (False, lex_fail d ''cannot grow alias input'' (lg_errno s) s)
                     | (True, alias_capacity, s) \<Rightarrow>
                         (case lex_reserve (so_capacity ?so) (length (so_data ?so) + (length v + 1)) 1 s of
                            (False, _, s) \<Rightarrow> (False, lex_fail d ''cannot grow alias input'' (lg_errno s) s)
                          | (True, capacity, s) \<Rightarrow>
                              (True, set_lexer d (\<lambda>l. l\<lparr>lx_has_last := False\<rparr>)
                                (set_source (insert_alias (alias_of_token d t n v ?so) t v alias_capacity capacity) s))))))"
        using True bd unfolding csh_lexer_alias_push_def Let_def big_def c_def by simp
      then show ?thesis
        unfolding f [symmetric] arg 1 by (cases b1; cases b2; cases b3) (simp_all only: 1 2 3 prod.case bool.case simp_thms if_True if_False)
    qed
    then show ?thesis
      using fl lx l ins by (simp split: if_splits)
  qed
qed

lemma csh_lexer_skip_raw_ok:
  assumes ok: "lexer_ok s" and d: "d < length (lg_lexers s)"
  shows "\<exists>r s'. csh_lexer_skip_raw d n s = Some (r, s') \<and> lexer_ok s'"
proof (cases "message (so_failure (lg_source s)) = []")
  case False
  then show ?thesis
    using lexer_ok_cong [of "s\<lparr>lg_error := so_failure (lg_source s)\<rparr>" s] ok by (auto simp: csh_lexer_skip_raw_def)
next
  case True
  define c where "c = s\<lparr>lg_error := no_error\<rparr>"
  define k where "k = length (lg_lexers s) - 1"
  have lx: "lexing_ok k c"
    using lexer_ok_running [OF ok True] by (simp add: c_def k_def)
  let ?bad = "Suc d < length (lg_lexers c) \<or> lx_active (lexer_at d c) \<or> lx_comment (lexer_at d c) \<or>
    length (so_data (lg_source c)) - so_cursor (lg_source c) < n"
  have run: "csh_lexer_skip_raw d n s = (if ?bad then Some (False, lex_fail d ''invalid raw input handoff'' EINVAL c)
      else lex_consume d n (set_lexer d (\<lambda>l. l\<lparr>lx_has_last := False\<rparr>) c))"
    using True by (simp add: csh_lexer_skip_raw_def Let_def c_def)
  show ?thesis
  proof (cases ?bad)
    case True
    then show ?thesis
      unfolding run if_P [OF True] using usage_fails [OF lx] by auto
  next
    case False
    let ?s = "set_lexer d (\<lambda>l. l\<lparr>lx_has_last := False\<rparr>) c"
    have "d = k"
      using False d by (auto simp: k_def c_def)
    then have dk: "d = k" "\<not> lx_active (lexer_at k c)"
      using False by auto
    have "\<not> lx_command (lexer_at k c)"
      using lexing_facts(6) [OF lx] dk by (auto simp: word_ok_def opened_ok_def)
    moreover have at: "lexer_at k ?s = (lexer_at k c)\<lparr>lx_has_last := False\<rparr>"
      using lexing_facts(2) [OF lx] dk by simp
    moreover have "lexing_ok k ?s"
      by (rule set_lexer_akin [OF lx]) (simp_all add: has_last_akin)
    ultimately have l: "loop_ok k ?s"
      by (simp add: loop_ok_def)
    have "so_cursor (lg_source c) \<le> length (so_data (lg_source c))"
      using lexing_facts(5) [OF lx] alias_chain_le by (auto simp: source_ok_def)
    then have "so_cursor (lg_source ?s) + n \<le> length (so_data (lg_source ?s))"
      using False unfolding set_lexer_simps by linarith
    then have "achieves (lex_consume k n ?s) (loop_ok k)"
      using consume_loop [OF l] at dk by simp
    moreover have "lg_lexers s' \<noteq> []" if "lex_consume k n ?s = Some (b, s')" for b s'
      using lex_consume_steady [of ?s "length (lg_lexers ?s)" k n] that d by (cases "lg_lexers s'") (auto simp: steady_def c_def)
    ultimately show ?thesis
      unfolding run if_not_P [OF False] using lexing_lexer_ok' failed_lexer_ok' by (fastforce simp: achieves_def loop_ok_def dk)
  qed
qed

lemma csh_lexer_follows_redirection_ok:
  assumes "lexer_ok s" "message (so_failure (lg_source s)) = []"
  shows "\<exists>r s'. csh_lexer_follows_redirection cx s = Some (r, s') \<and> lexer_ok s'"
proof -
  note lx = lexer_ok_running [OF assms]
  have so: "source_ok (lg_source s)"
    using lexing_facts(5) [OF lx] by simp
  obtain r lk where p: "lex_peek cx 0 s = Some (r, set_source (\<lambda>so. so\<lparr>so_look := lk\<rparr>) s)" and l: "source_ok ((lg_source s)\<lparr>so_look := lk\<rparr>)"
    using lex_peek_total [OF so, of cx 0] by blast
  let ?s = "set_source (\<lambda>so. so\<lparr>so_look := lk\<rparr>) s"
  have "lexing_ok (length (lg_lexers s) - 1) (?s\<lparr>lg_error := no_error\<rparr>)"
    using lx l by (simp add: lexing_ok_def ground_def dollar_ok_def)
  then have "lexer_ok ?s"
    using lexing_lexer_ok [of _ "?s\<lparr>lg_error := no_error\<rparr>" "lg_error s"] by (simp add: set_source_def)
  then show ?thesis
    by (simp add: csh_lexer_follows_redirection_def p)
qed

subsection \<open>Reachable lexers\<close>

text \<open>Every state a caller can bring a lexer into with the public operations (\<open>lexer.h\<close>), in any order and on any of the
  lexers that are still alive, and in any environment: between two operations the results of later calls of \<open>malloc\<close> and the
  number of checks may be anything. A replay needs the error the lexer has reported.\<close>

inductive lexer_reachable :: "ctype \<Rightarrow> lexing \<Rightarrow> bool" for cx where
  created: "csh_lexer_create name env = (True, s) \<Longrightarrow> lexer_reachable cx s"
| fed: "lexer_reachable cx s \<Longrightarrow> d < length (lg_lexers s) \<Longrightarrow> csh_lexer_feed d bytes n final s = (r, s') \<Longrightarrow> lexer_reachable cx s'"
| read: "lexer_reachable cx s \<Longrightarrow> d < length (lg_lexers s) \<Longrightarrow> csh_lexer_next cx d s = Some (r, t, s') \<Longrightarrow> lexer_reachable cx s'"
| replayed: "lexer_reachable cx s \<Longrightarrow> d < length (lg_lexers s) \<Longrightarrow> error_known s \<Longrightarrow> csh_lexer_replay_arithmetic d s = Some (v, s') \<Longrightarrow>
    lexer_reachable cx s'"
| command_begun: "lexer_reachable cx s \<Longrightarrow> d < length (lg_lexers s) \<Longrightarrow> csh_lexer_command_begin d s = (b, s') \<Longrightarrow> lexer_reachable cx s'"
| command_ended: "lexer_reachable cx s \<Longrightarrow> d < length (lg_lexers s) \<Longrightarrow> csh_lexer_command_end d child closing s = Some (b, s') \<Longrightarrow>
    lexer_reachable cx s'"
| alias_pushed: "lexer_reachable cx s \<Longrightarrow> d < length (lg_lexers s) \<Longrightarrow> csh_lexer_alias_push d token name value s = (b, s') \<Longrightarrow>
    lexer_reachable cx s'"
| skipped: "lexer_reachable cx s \<Longrightarrow> d < length (lg_lexers s) \<Longrightarrow> csh_lexer_skip_raw d n s = Some (b, s') \<Longrightarrow> lexer_reachable cx s'"
| peeked: "lexer_reachable cx s \<Longrightarrow> message (so_failure (lg_source s)) = [] \<Longrightarrow> csh_lexer_follows_redirection cx s = Some (b, s') \<Longrightarrow>
    lexer_reachable cx s'"
| document_set: "lexer_reachable cx s \<Longrightarrow> lexer_reachable cx (csh_lexer_document d s)"
| position_set: "lexer_reachable cx s \<Longrightarrow> lexer_reachable cx (csh_lexer_set_position p s)"
| destroyed: "lexer_reachable cx s \<Longrightarrow> 0 < d \<Longrightarrow> lexer_reachable cx (csh_lexer_destroy d s)"
| environment: "lexer_reachable cx s \<Longrightarrow> lg_lexers s' = lg_lexers s \<Longrightarrow> lg_source s' = lg_source s \<Longrightarrow> lexer_reachable cx s'"

lemma lexer_reachable_ok:
  assumes m: "mbrlen_ok cx"
  shows "lexer_reachable cx s \<Longrightarrow> lexer_ok s"
proof (induction rule: lexer_reachable.induct)
  case (read s d r t s')
  then show ?case
    using csh_lexer_next_ok [OF read(4) read(2) m] by auto
next
  case (replayed s d v s')
  then show ?case
    using replay_arithmetic_ok [OF replayed(5) replayed(3,2)] lexing_lexer_ok' failed_lexer_ok' by (auto split: if_splits)
next
  case (command_ended s d child closing b s')
  then show ?case
    using csh_lexer_command_end_ok [OF command_ended(4,2), of child closing] by auto
next
  case (skipped s d n b s')
  then show ?case
    using csh_lexer_skip_raw_ok [OF skipped(4,2), of n] by auto
next
  case (peeked s b s')
  then show ?case
    using csh_lexer_follows_redirection_ok [OF peeked(4,2), of cx] by auto
next
  case (environment s s')
  then show ?case
    using lexer_ok_cong [of s' s] by simp
qed (blast intro: csh_lexer_create_ok csh_lexer_feed_ok csh_lexer_command_begin_ok csh_lexer_alias_push_ok csh_lexer_document_ok
  csh_lexer_set_position_ok csh_lexer_destroy_ok)+

lemma token_structured:
  assumes "token_ok t"
  shows "prepare_scan cx t 0 (tk_fragments t) [] 0 ns \<noteq> Inl (k, ''invalid structured word'')"
  using assms prepare_scan_structured [of t cx 0 ns k] by (simp add: token_ok_def scan_stack_def scan_previous_def)

end
