(* ===== verification/Lexer_Results.thy ===== *)
theory Lexer_Results
  imports Lexer_Operations
begin

text \<open>
  What the lexer guarantees to its callers: it stays inside its arrays, its failures are final, its tokens spell the input, and
  they are words that the expansion accepts.
\<close>

subsection \<open>Safety\<close>

text \<open>A lexer that was given a short text as its whole input.\<close>

definition sample_lexing :: lexing where
  "sample_lexing =
     \<lparr>lg_source = fresh_source ''sh'', lg_lexers = [fresh_lexer], lg_error = no_error, lg_errno = EOK,
      lg_world = \<lparr>mallocs = [], locale_now = (\<lambda>_. ''C''), installed = (\<lambda>_ _. False), refs = (\<lambda>_. 0), finalized = []\<rparr>,
      lg_checks = []\<rparr>"

definition sample_fed :: "string \<Rightarrow> lexing" where
  "sample_fed text = sample_lexing\<lparr>lg_source := (fresh_source ''sh'')\<lparr>so_data := text, so_capacity := 16, so_final := True\<rparr>\<rparr>"

lemma sample_feed:
  assumes "0 < length text" "length text \<le> 16"
  shows "csh_lexer_feed 0 (Some text) (length text) True sample_lexing = (True, sample_fed text)"
proof -
  have grow: "grow_capacity 16 (length text) = 16"
    using assms by (subst grow_capacity.simps) simp
  have "feed_owners text True [fresh_lexer] sample_lexing = (Inr [fresh_lexer], sample_lexing)"
    by (simp add: fresh_lexer_def)
  then show ?thesis
    using assms grow
    by (simp add: csh_lexer_feed_def Let_def sample_lexing_def sample_fed_def fresh_source_def no_error_def set_source_def compact_source_def
        rebase_aliases_def lex_reserve_def lex_malloc_def SIZE_MAX_def)
qed

lemma sample_reachable:
  assumes "0 < length text" "length text \<le> 16"
  shows "lexer_reachable cx (sample_fed text)"
proof -
  have "csh_lexer_create (Some ''sh'') sample_lexing = (True, sample_lexing)"
    by (simp add: csh_lexer_create_def sample_lexing_def lex_malloc_def)
  then have "lexer_reachable cx sample_lexing"
    by (rule lexer_reachable.created)
  moreover have "0 < length (lg_lexers sample_lexing)"
    by (simp add: sample_lexing_def)
  ultimately show ?thesis
    using sample_feed [OF assms] lexer_reachable.fed by blast
qed

lemmas lex_eval = lex_step_def Let_def step_comment_def lex_byte_def lex_or_else_def step_simple_def in_frame_def step_wide_def
  csh_character_length_def utf8_context_def utf8_def utf8_lead_def step_single_def step_parameter_def step_arithmetic_def step_escape_def
  step_raw_quote_def step_delimiting_def step_hash_def step_word_def attempt_def lex_consume_def consume_byte_def position_full_def SIZE_MAX_def
  advance_source_def advance_position_def set_lexer_def set_source_def step_on_def captures_byte_def capture_byte_def fresh_source_def fresh_lexer_def
  operator_char_def start_word_def start_token_def token_source_def copy_string_def lex_malloc_def lex_piece_def extends_text_def add_fragment_def
  parent_fragment_def finish_fragment_def lex_reserve_def body_quote_def frame_quote_def grow_capacity.simps deliver_def publish_def

text \<open>The first word of \<open>sample_fed '' a''\<close>, state by state.\<close>

definition sample_reading :: "nat \<Rightarrow> csh_lexer \<Rightarrow> lexing" where
  "sample_reading n l =
     (sample_fed '' a'')\<lparr>lg_source := (lg_source (sample_fed '' a''))\<lparr>so_cursor := n, so_sequence := n,
        so_position := \<lparr>p_offset = n, p_line = 1, p_column = Suc n\<rparr>\<rparr>, lg_lexers := [l]\<rparr>"

definition sample_position :: "nat \<Rightarrow> csh_position" where
  "sample_position n = \<lparr>p_offset = n, p_line = 1, p_column = Suc n\<rparr>"

definition sample_token :: csh_token where
  "sample_token =
     \<lparr>tk_kind = CSH_TOKEN_WORD, tk_source_name = ''sh'', tk_raw = ''a'', tk_start = sample_position 1, tk_end = sample_position 2,
      tk_fragments = [\<lparr>fr_kind = CSH_FRAGMENT_TEXT, fr_quote = CSH_QUOTE_NONE, fr_parent = CSH_FRAGMENT_ROOT, fr_begin = 0, fr_end = 1,
        fr_start = sample_position 1, fr_finish = sample_position 2\<rparr>],
      tk_alias_name = None, tk_invocation_source = None, tk_invocation = no_position, tk_alias_eligible = False\<rparr>"

definition sample_begun :: csh_lexer where
  "sample_begun = fresh_lexer\<lparr>lx_start := sample_position 1, lx_spelling_position := sample_position 2, lx_raw := ''a'', lx_raw_capacity := 16,
     lx_token_name := Some ''sh'', lx_fragments := tk_fragments sample_token, lx_fragment_capacity := 16, lx_active := True\<rparr>"

definition sample_ended :: csh_lexer where
  "sample_ended = fresh_lexer\<lparr>lx_start := sample_position 1, lx_spelling_position := sample_position 2, lx_last_start := sample_position 1,
     lx_last_end := sample_position 2, lx_last_sequence := 2, lx_has_last := True\<rparr>"

lemmas sample_defs = sample_reading_def sample_fed_def sample_lexing_def sample_position_def sample_token_def

lemma sample_steps:
  "lex_step utf8_context 0 (sample_fed '' a'') = Some (Continue, sample_reading 1 fresh_lexer)"
  "lex_step utf8_context 0 (sample_reading 1 fresh_lexer) = Some (Continue, sample_reading 2 sample_begun)"
  "lex_step utf8_context 0 (sample_reading 2 sample_begun) = Some (Return CSH_LEX_TOKEN (Some sample_token), sample_reading 2 sample_ended)"
  by (simp add: lex_eval sample_defs)
    (simp add: lex_eval sample_defs sample_begun_def, simp add: lex_eval sample_defs sample_begun_def sample_ended_def)

lemma sample_word: "csh_lexer_next utf8_context 0 (sample_fed '' a'') = Some (CSH_LEX_TOKEN, Some sample_token, sample_reading 2 sample_ended)"
proof -
  have lexers: "length (lg_lexers (sample_fed '' a'')) = 1" "length (lg_lexers (sample_reading n l)) = 1" for n l
    by (simp_all add: sample_defs)
  have "lex_loop utf8_context 0 (sample_reading 2 sample_begun) = Some (CSH_LEX_TOKEN, Some sample_token, sample_reading 2 sample_ended)"
    by (subst lex_loop.simps) (simp add: sample_steps(3) lexers)
  then have "lex_loop utf8_context 0 (sample_reading 1 fresh_lexer) = Some (CSH_LEX_TOKEN, Some sample_token, sample_reading 2 sample_ended)"
    by (subst lex_loop.simps) (simp add: sample_steps(2) lexers del: One_nat_def)
  then have "lex_loop utf8_context 0 (sample_fed '' a'') = Some (CSH_LEX_TOKEN, Some sample_token, sample_reading 2 sample_ended)"
    by (subst lex_loop.simps) (simp add: sample_steps(1) lexers del: One_nat_def)
  moreover have "(sample_fed '' a'')\<lparr>lg_error := no_error\<rparr> = sample_fed '' a''" "message (so_failure (lg_source (sample_fed '' a''))) = []"
    "\<not> lx_command (lexer_at 0 (sample_fed '' a''))"
    by (simp_all add: sample_defs fresh_source_def fresh_lexer_def)
  ultimately show ?thesis
    by (simp add: csh_lexer_next_def lex_next_token_def Let_def lexers)
qed

text \<open>C0: no operation on a lexer reads or writes outside the arrays of the lexer, in any state that a sequence of operations can
  lead to: reading a token, ending a command substitution, skipping raw bytes and replaying an arithmetic candidate all
  return. The C library is relied on not to claim a character that is longer than the bytes it was given.\<close>

theorem lexer_memory_safe:
  assumes "lexer_reachable cx s" "mbrlen_ok cx" "d < length (lg_lexers s)"
  shows "csh_lexer_next cx d s \<noteq> None \<and> csh_lexer_command_end d child closing s \<noteq> None \<and> csh_lexer_skip_raw d n s \<noteq> None \<and>
    (error_known s \<longrightarrow> csh_lexer_replay_arithmetic d s \<noteq> None)"
proof -
  note ok = lexer_reachable_ok [OF assms(2,1)]
  show ?thesis
    using csh_lexer_next_ok [OF ok assms(3,2)] csh_lexer_command_end_ok [OF ok assms(3), of child closing]
      csh_lexer_skip_raw_ok [OF ok assms(3), of n] replay_arithmetic_ok [OF ok _ assms(3)] by fastforce
qed

theorem lexer_memory_safe_witness:
  "lexer_reachable utf8_context (sample_fed ''$((1'') \<and> csh_lexer_next utf8_context 0 (sample_fed ''$((1'') \<noteq> None \<and>
   csh_lexer_skip_raw 0 2 (sample_fed ''$((1'') \<noteq> None \<and> csh_lexer_replay_arithmetic 0 (sample_fed ''$((1'') \<noteq> None"
proof -
  have r: "lexer_reachable utf8_context (sample_fed ''$((1'')"
    by (rule sample_reachable) simp_all
  have "0 < length (lg_lexers (sample_fed ''$((1''))" "error_known (sample_fed ''$((1'')"
    by (simp_all add: sample_fed_def sample_lexing_def error_known_def fresh_source_def)
  then show ?thesis
    using lexer_memory_safe [OF r utf8_ok, of 0] r by blast
qed

text \<open>C0: a failure is final. Once a read of any lexer has failed, every lexer of the same input fails every read and refuses every
  piece of input with the error that was reported first, and nothing changes any more.\<close>

theorem lexer_failure_final:
  assumes "lexer_reachable cx s" "mbrlen_ok cx" "d < length (lg_lexers s)" "csh_lexer_next cx d s = Some (CSH_LEX_ERROR, t, s')"
  shows "message (so_failure (lg_source s')) \<noteq> [] \<and>
    csh_lexer_next cx e s' = Some (CSH_LEX_ERROR, None, s'\<lparr>lg_error := so_failure (lg_source s')\<rparr>) \<and>
    csh_lexer_feed e bytes n final s' = (False, s'\<lparr>lg_error := so_failure (lg_source s')\<rparr>)"
proof -
  note ok = lexer_reachable_ok [OF assms(2,1)]
  have "failure_ok CSH_LEX_ERROR s'"
    using csh_lexer_next_ok [OF ok assms(3,2)] assms(4) by auto
  then have f: "message (so_failure (lg_source s')) \<noteq> []"
    by (simp add: failure_ok_def)
  then show ?thesis
    by (simp add: csh_lexer_next_def lex_next_token_def csh_lexer_feed_def Let_def)
qed

lemma sample_nul: "csh_lexer_next utf8_context 0 (sample_fed [CHR 0x00]) =
  Some (CSH_LEX_ERROR, None, lex_fail 0 ''NUL byte in shell input'' EOK (sample_fed [CHR 0x00]))"
proof -
  have "lex_step utf8_context 0 (sample_fed [CHR 0x00]) = lex_error (lex_fail 0 ''NUL byte in shell input'' EOK (sample_fed [CHR 0x00]))"
    by (simp add: lex_step_def Let_def sample_fed_def sample_lexing_def fresh_lexer_def fresh_source_def)
  moreover have "(sample_fed [CHR 0x00])\<lparr>lg_error := no_error\<rparr> = sample_fed [CHR 0x00]" "lg_lexers (sample_fed [CHR 0x00]) = [fresh_lexer]"
      "message (so_failure (lg_source (sample_fed [CHR 0x00]))) = []"
    by (simp_all add: sample_fed_def sample_lexing_def fresh_source_def no_error_def)
  moreover have "lx_arithmetic (lexer_at 0 (lex_fail 0 ''NUL byte in shell input'' EOK (sample_fed [CHR 0x00]))) = []"
    by (simp add: lex_fail_def lex_fail_at_def Let_def sample_fed_def sample_lexing_def)
  ultimately show ?thesis
    by (subst csh_lexer_next_def) (simp add: lex_next_token_def lex_error_def Let_def lex_loop.simps [of _ _ "sample_fed [CHR 0x00]"])
qed

theorem lexer_failure_final_witness:
  "csh_lexer_next utf8_context 0 (sample_fed [CHR 0x00]) =
     Some (CSH_LEX_ERROR, None, lex_fail 0 ''NUL byte in shell input'' EOK (sample_fed [CHR 0x00])) \<and>
   fst (csh_lexer_feed 0 (Some ''ls'') 2 True (lex_fail 0 ''NUL byte in shell input'' EOK (sample_fed [CHR 0x00]))) = False"
proof -
  have r: "lexer_reachable utf8_context (sample_fed [CHR 0x00])"
    by (rule sample_reachable) simp_all
  have "0 < length (lg_lexers (sample_fed [CHR 0x00]))"
    by (simp add: sample_fed_def sample_lexing_def)
  then show ?thesis
    using lexer_failure_final [OF r utf8_ok _ sample_nul, of 0 "Some ''ls''" 2 True] sample_nul by simp
qed

subsection \<open>Tokens spell the input\<close>

text \<open>What is skipped in front of a token: blanks, line continuations, and then a comment up to the end of its line. The boolean is
  whether a comment has already begun.\<close>

fun skippable :: "bool \<Rightarrow> string \<Rightarrow> bool" where
  "skippable True p \<longleftrightarrow> CHR 0x0A \<notin> set p"
| "skippable False [] \<longleftrightarrow> True"
| "skippable False (b # p) \<longleftrightarrow>
     (if b = CHR '' '' \<or> b = CHR 0x09 then skippable False p
      else if b = CHR ''#'' then skippable True p
      else b = CHR 0x5C \<and> (case p of [] \<Rightarrow> False | c # q \<Rightarrow> c = CHR 0x0A \<and> skippable False q))"

definition skipped :: "csh_lexer \<Rightarrow> string \<Rightarrow> bool" where
  "skipped l p \<longleftrightarrow> (if lx_active l then p = [] else skippable (lx_comment l) p)"

definition rest_of :: "lexing \<Rightarrow> string" where
  "rest_of s = drop (so_cursor (lg_source s)) (so_data (lg_source s))"

text \<open>The spelling of the pending word and the input behind it.\<close>

definition text_of :: "nat \<Rightarrow> lexing \<Rightarrow> string" where
  "text_of d s = lx_raw (lexer_at d s) @ rest_of s"

definition tidy :: "nat \<Rightarrow> lexing \<Rightarrow> bool" where
  "tidy d s \<longleftrightarrow>
     d < length (lg_lexers s) \<and>
     (if lx_active (lexer_at d s) then \<not> lx_comment (lexer_at d s) else lx_raw (lexer_at d s) = [] \<and> lx_frames (lexer_at d s) = [])"

definition leads :: "nat \<Rightarrow> lexing \<Rightarrow> lexing \<Rightarrow> bool" where
  "leads d s s' \<longleftrightarrow>
     tidy d s' \<and>
     (\<exists>x. text_of d s = x @ text_of d s' \<and>
        (\<forall>p r. text_of d s' = p @ r \<longrightarrow> skipped (lexer_at d s') p \<longrightarrow> skipped (lexer_at d s) (x @ p)))"

definition stays :: "nat \<Rightarrow> lexing \<Rightarrow> lexing \<Rightarrow> bool" where
  "stays d s s' \<longleftrightarrow>
     length (lg_lexers s') = length (lg_lexers s) \<and> rest_of s' = rest_of s \<and> lx_raw (lexer_at d s') = lx_raw (lexer_at d s) \<and>
     lx_active (lexer_at d s') = lx_active (lexer_at d s) \<and> lx_comment (lexer_at d s') = lx_comment (lexer_at d s) \<and>
     lx_document (lexer_at d s') = lx_document (lexer_at d s) \<and> (lx_frames (lexer_at d s') = [] \<longleftrightarrow> lx_frames (lexer_at d s) = [])"

text \<open>Working on a word that has begun.\<close>

definition builds :: "nat \<Rightarrow> lexing \<Rightarrow> lexing \<Rightarrow> bool" where
  "builds d s s' \<longleftrightarrow>
     d < length (lg_lexers s) \<and> length (lg_lexers s') = length (lg_lexers s) \<and> lx_active (lexer_at d s) \<and> lx_active (lexer_at d s') \<and>
     lx_comment (lexer_at d s') = lx_comment (lexer_at d s) \<and> text_of d s' = text_of d s"

definition spells :: "nat \<Rightarrow> lexing \<Rightarrow> csh_token \<Rightarrow> lexing \<Rightarrow> bool" where
  "spells d s token s' \<longleftrightarrow> (\<exists>x. text_of d s = x @ tk_raw token @ rest_of s' \<and> skipped (lexer_at d s) x)"

definition traces :: "bool \<Rightarrow> nat \<Rightarrow> lexing \<Rightarrow> turned \<Rightarrow> bool" where
  "traces falls d s m \<longleftrightarrow>
     (\<forall>t s'. m = Some (t, s') \<longrightarrow>
        (case t of
           Return r token \<Rightarrow> (case token of None \<Rightarrow> True | Some token \<Rightarrow> spells d s token s')
         | Continue \<Rightarrow> leads d s s'
         | Fall \<Rightarrow> falls \<and> stays d s s'))"

subsubsection \<open>Composition\<close>

lemma stays_refl [simp]: "stays d s s"
  by (simp add: stays_def)

lemma stays_trans: "stays d s s1 \<Longrightarrow> stays d s1 s2 \<Longrightarrow> stays d s s2"
  by (simp add: stays_def)

lemma stays_tidy: "stays d s s' \<Longrightarrow> tidy d s \<Longrightarrow> tidy d s'"
  by (auto simp: stays_def tidy_def split: if_splits)

lemma stays_text: "stays d s s' \<Longrightarrow> text_of d s' = text_of d s"
  by (simp add: stays_def text_of_def)

lemma stays_leads: "stays d s s' \<Longrightarrow> tidy d s \<Longrightarrow> leads d s s'"
  using stays_tidy [of d s s'] stays_text [of d s s'] by (auto simp: leads_def skipped_def stays_def)

lemma leads_trans:
  assumes "leads d s s1" "leads d s1 s2"
  shows "leads d s s2"
proof -
  obtain x where x: "text_of d s = x @ text_of d s1" "\<And>p r. text_of d s1 = p @ r \<Longrightarrow> skipped (lexer_at d s1) p \<Longrightarrow> skipped (lexer_at d s) (x @ p)"
    using assms(1) by (auto simp: leads_def)
  obtain y where y: "text_of d s1 = y @ text_of d s2" "\<And>p r. text_of d s2 = p @ r \<Longrightarrow> skipped (lexer_at d s2) p \<Longrightarrow> skipped (lexer_at d s1) (y @ p)"
    using assms(2) by (auto simp: leads_def)
  have "skipped (lexer_at d s) ((x @ y) @ p)" if "text_of d s2 = p @ r" "skipped (lexer_at d s2) p" for p r
    using x(2) [of "y @ p" r] y that by simp
  moreover have "text_of d s = (x @ y) @ text_of d s2"
    using x(1) y(1) by simp
  ultimately show ?thesis
    using assms(2) unfolding leads_def by blast
qed

lemma leads_spells:
  assumes "leads d s s1" "spells d s1 token s'"
  shows "spells d s token s'"
proof -
  obtain x where x: "text_of d s = x @ text_of d s1" "\<And>p r. text_of d s1 = p @ r \<Longrightarrow> skipped (lexer_at d s1) p \<Longrightarrow> skipped (lexer_at d s) (x @ p)"
    using assms(1) by (auto simp: leads_def)
  obtain y where y: "text_of d s1 = y @ tk_raw token @ rest_of s'" "skipped (lexer_at d s1) y"
    using assms(2) by (auto simp: spells_def)
  show ?thesis
    unfolding spells_def using x y by (intro exI [of _ "x @ y"]) simp
qed

lemma traces_leads: "leads d s s1 \<Longrightarrow> traces False d s1 m \<Longrightarrow> traces f d s m"
  unfolding traces_def by (auto split: turn.splits option.splits intro: leads_trans leads_spells)

lemma traces_stays:
  assumes "stays d s s1" "tidy d s" "traces f d s1 m"
  shows "traces f d s m"
  using assms(3) leads_trans [OF stays_leads [OF assms(1,2)]] leads_spells [OF stays_leads [OF assms(1,2)]] stays_trans [OF assms(1)]
  unfolding traces_def by (auto split: turn.splits option.splits)

lemma traces_weaken: "traces False d s m \<Longrightarrow> traces f d s m"
  by (auto simp: traces_def split: turn.splits)

lemma traces_simps [simp]:
  "traces f d s (Some (Return r None, s1))" "traces f d s (step_on s1) \<longleftrightarrow> leads d s s1"
  "traces f d s (Some (Fall, s1)) \<longleftrightarrow> f \<and> stays d s s1" "traces f d s (lex_error s1)" "traces f d s (step_replay e s1)"
  "traces f d s None"
  "traces f d s (if b then m else n) \<longleftrightarrow> (if b then traces f d s m else traces f d s n)"
  by (auto simp: traces_def step_replay_def step_on_def lex_error_def bind_eq_Some_conv)

lemma traces_attempt: "(\<And>s1. m = Some (True, s1) \<Longrightarrow> traces f d s (k s1)) \<Longrightarrow> traces f d s (attempt m k)"
  by (cases m) (auto simp: attempt_def split: prod.splits)

lemma traces_bind: "(\<And>a s1. m = Some (a, s1) \<Longrightarrow> traces f d s (k (a, s1))) \<Longrightarrow> traces f d s (m \<bind> k)"
  by (cases m) auto

lemma traces_or_else:
  assumes "traces True d s m" "tidy d s" "\<And>s1. stays d s s1 \<Longrightarrow> traces f d s1 (k s1)"
  shows "traces f d s (lex_or_else m k)"
proof (cases m)
  case (Some p)
  obtain t s1 where p: "p = (t, s1)"
    by fastforce
  show ?thesis
  proof (cases "t = Fall")
    case True
    then have "stays d s s1"
      using assms(1) by (simp add: Some p)
    then have "traces f d s (k s1)"
      using traces_stays assms(2,3) by blast
    then show ?thesis
      using True by (simp add: lex_or_else_def Some p)
  next
    case False
    then show ?thesis
      using assms(1) by (simp add: lex_or_else_def Some p) (auto simp: traces_def split: turn.splits)
  qed
qed (simp add: lex_or_else_def)

lemma traces_or_else_False:
  assumes "traces False d s m"
  shows "traces f d s (lex_or_else m k)"
proof (cases m)
  case (Some p)
  obtain t s1 where p: "p = (t, s1)"
    by fastforce
  have "t \<noteq> Fall"
    using assms by (auto simp: Some p traces_def)
  then show ?thesis
    using traces_weaken [OF assms] by (simp add: lex_or_else_def Some p)
qed (simp add: lex_or_else_def)

subsubsection \<open>The word that has begun\<close>

lemma builds_refl: "d < length (lg_lexers s) \<Longrightarrow> lx_active (lexer_at d s) \<Longrightarrow> builds d s s"
  by (simp add: builds_def)

lemma builds_trans: "builds d s s1 \<Longrightarrow> builds d s1 s2 \<Longrightarrow> builds d s s2"
  by (simp add: builds_def)

lemma builds_leads: "builds d s s' \<Longrightarrow> tidy d s \<Longrightarrow> leads d s s'"
  by (auto simp: builds_def leads_def tidy_def skipped_def)

lemma works_builds:
  assumes w: "works d n s s'" and d: "d < length (lg_lexers s)" "lx_active (lexer_at d s)"
  shows "builds d s s'"
proof -
  have g: "grown (strip (lexer_at d s)) (strip (lexer_at d s'))"
    using w d by (simp add: works_def)
  have "lx_raw (lexer_at d s') = lx_raw (lexer_at d s) @ take n (rest_of s)"
    using w d by (simp add: works_def rest_of_def)
  moreover have "rest_of s' = drop n (rest_of s)"
    using w by (simp add: works_def rest_of_def add.commute)
  ultimately have "text_of d s' = text_of d s"
    by (simp add: text_of_def)
  moreover have "length (lg_lexers s') = length (lg_lexers s)"
    using w by (simp add: works_def)
  ultimately show ?thesis
    using d strip_keeps(2,3) [OF g] by (simp add: builds_def)
qed

lemma update_builds:
  assumes "d < length (lg_lexers s)" "lx_active (lexer_at d s)" "rest_of s' = rest_of s" "length (lg_lexers s') = length (lg_lexers s)"
    "lx_raw (lexer_at d s') = lx_raw (lexer_at d s)" "lx_active (lexer_at d s') = lx_active (lexer_at d s)"
    "lx_comment (lexer_at d s') = lx_comment (lexer_at d s)"
  shows "builds d s s'"
  using assms by (simp add: builds_def text_of_def)

lemma lex_push_builds:
  assumes "lex_push d k fk quote n s = Some (True, s')" and d: "d < length (lg_lexers s)" "lx_active (lexer_at d s)"
  shows "builds d s s'"
proof -
  obtain i s1 c s2 where 1: "add_fragment d fk quote s = (Some i, s1)"
    "lex_reserve (lx_frame_capacity (lexer_at d s1)) (length (lx_frames (lexer_at d s1)) + 1) 32 s1 = (True, c, s2)"
    "lex_delimiter d n quote (set_lexer d (\<lambda>l. l\<lparr>lx_frame_capacity := c, lx_frames :=
       \<lparr>fm_kind = k, fm_quote = quote, fm_fragment = i, fm_parentheses = 0, fm_stage = 0\<rparr> # lx_frames l\<rparr>) s2) = Some (True, s')"
      (is "lex_delimiter d n quote ?s3 = _")
    using assms(1) by (auto simp: lex_push_def Let_def split: prod.splits option.splits if_splits bool.splits)
  have b1: "builds d s s1"
    by (rule works_builds [OF add_fragment_works [OF 1(1)] d])
  then have d1: "d < length (lg_lexers s1)" "lx_active (lexer_at d s1)"
    by (simp_all add: builds_def)
  have b2: "builds d s1 ?s3"
    using lex_reserve_keeps [OF 1(2)] d1 by (intro update_builds) (simp_all add: rest_of_def)
  have "builds d ?s3 s'"
    by (rule works_builds [OF lex_delimiter_works [OF 1(3)]]) (use b2 in \<open>auto simp only: builds_def\<close>)
  then show ?thesis
    using b1 b2 builds_trans by blast
qed

lemma lex_pop_builds:
  assumes "lex_pop d n s = Some (True, s')" and d: "d < length (lg_lexers s)" "lx_active (lexer_at d s)"
  shows "builds d s s'"
proof -
  obtain f fs s1 b s2 where 1: "lx_frames (lexer_at d s) = f # fs" "lex_delimiter d n (fm_quote f) s = Some (True, s1)"
    "finish_fragment d (fm_fragment f) s1 = Some (b, s2)" "s' = set_lexer d (\<lambda>l. l\<lparr>lx_frames := tl (lx_frames l)\<rparr>) s2"
    using assms(1) by (auto simp: lex_pop_def bind_eq_Some_conv split: list.splits if_splits)
  have b1: "builds d s s1"
    by (rule works_builds [OF lex_delimiter_works [OF 1(2)] d])
  then have b2: "builds d s1 s2"
    by (intro works_builds [OF finish_fragment_works [OF 1(3)]]) (simp_all add: builds_def)
  then have "builds d s2 s'"
    unfolding 1(4) by (intro update_builds) (simp_all add: builds_def rest_of_def)
  then show ?thesis
    using b1 b2 builds_trans by blast
qed

lemmas piece_builds = works_builds [OF lex_piece_works]
lemmas delimiter_builds = works_builds [OF lex_delimiter_works]
lemmas consume_builds = works_builds [OF consumes_works [OF lex_consume_consumes]]

lemma traces_builds:
  assumes "tidy d s" "\<And>s1. m = Some (True, s1) \<Longrightarrow> builds d s s1"
  shows "traces f d s (attempt m step_on)"
  using assms builds_leads by (intro traces_attempt) simp

lemma traces_attempts [simp]:
  assumes "tidy d s" "lx_active (lexer_at d s)"
  shows "traces f d s (attempt (lex_pop d n s) step_on)" "traces f d s (attempt (lex_push d k fk quote n s) step_on)"
    "traces f d s (attempt (lex_piece d kind quote n s) step_on)" "traces f d s (attempt (lex_delimiter d n quote s) step_on)"
proof -
  have d: "d < length (lg_lexers s)"
    using assms(1) by (simp add: tidy_def)
  show "traces f d s (attempt (lex_pop d n s) step_on)" "traces f d s (attempt (lex_push d k fk quote n s) step_on)"
    "traces f d s (attempt (lex_piece d kind quote n s) step_on)" "traces f d s (attempt (lex_delimiter d n quote s) step_on)"
    by (rule traces_builds [OF assms(1)], erule lex_pop_builds lex_push_builds piece_builds delimiter_builds, rule d, rule assms(2))+
qed

lemma deliver_traces:
  assumes "lx_active (lexer_at d s)" "d < length (lg_lexers s)"
  shows "traces f d s (deliver d s)"
  using assms
  by (auto simp: traces_def deliver_def publish_def Let_def bind_eq_Some_conv spells_def text_of_def rest_of_def skipped_def
      split: turn.splits option.splits if_splits)

subsubsection \<open>The parts of a round\<close>

lemma tidy_in_frame: "tidy d s \<Longrightarrow> in_frame (lexer_at d s) k \<Longrightarrow> lx_active (lexer_at d s)"
  by (auto simp: tidy_def in_frame_def split: if_splits)

lemma tidy_frames: "tidy d s \<Longrightarrow> lx_frames (lexer_at d s) \<noteq> [] \<Longrightarrow> lx_active (lexer_at d s)"
  by (auto simp: tidy_def split: if_splits)

lemma tidy_length: "tidy d s \<Longrightarrow> d < length (lg_lexers s)"
  by (simp add: tidy_def)

lemma peek_stays:
  assumes "lex_peek cx n s = Some (r, s')"
  shows "stays d s s'" "lexer_at d s' = lexer_at d s"
  using lex_peek_keeps [OF assms] by (auto simp: stays_def rest_of_def)

lemma traces_peek:
  assumes "tidy d s" "\<And>r s1. tidy d s1 \<Longrightarrow> lexer_at d s1 = lexer_at d s \<Longrightarrow> rest_of s1 = rest_of s \<Longrightarrow> traces f d s1 (k (r, s1))"
  shows "traces f d s (lex_peek cx n s \<bind> k)"
proof (rule traces_bind)
  fix r s1
  assume p: "lex_peek cx n s = Some (r, s1)"
  show "traces f d s (k (r, s1))"
    by (rule traces_stays [OF peek_stays(1) [OF p] assms(1)], rule assms(2))
      (use stays_tidy [OF peek_stays(1) [OF p] assms(1)] peek_stays [OF p, of d] in \<open>auto simp: stays_def\<close>)
qed

lemma set_frame_stays: "d < length (lg_lexers s) \<Longrightarrow> stays d s (set_frame d f s)"
  by (simp add: stays_def set_frame_def rest_of_def split: list.split)

text \<open>Beginning a token takes nothing from the input.\<close>

lemma begun_leads:
  assumes t: "tidy d s" and c: "\<not> lx_comment (lexer_at d s)" and s': "d < length (lg_lexers s')" "lx_active (lexer_at d s')"
    "lx_raw (lexer_at d s') = lx_raw (lexer_at d s)" "lx_comment (lexer_at d s') = lx_comment (lexer_at d s)" "rest_of s' = rest_of s"
  shows "leads d s s'"
  using assms by (auto simp: leads_def tidy_def text_of_def skipped_def)

lemma start_token_leads:
  assumes "start_token d s = (True, s')" "tidy d s" "\<not> lx_comment (lexer_at d s)"
  shows "leads d s s'" "lx_active (lexer_at d s')" "rest_of s' = rest_of s" "length (lg_lexers s') = length (lg_lexers s)"
    "lx_comment (lexer_at d s') = lx_comment (lexer_at d s)" "lx_raw (lexer_at d s') = lx_raw (lexer_at d s)"
proof -
  note k = start_token_True [OF assms(1) tidy_length [OF assms(2)]]
  show f: "lx_active (lexer_at d s')" "rest_of s' = rest_of s" "length (lg_lexers s') = length (lg_lexers s)"
    "lx_comment (lexer_at d s') = lx_comment (lexer_at d s)" "lx_raw (lexer_at d s') = lx_raw (lexer_at d s)"
    using k by (simp_all add: token_started_def rest_of_def)
  show "leads d s s'"
    using begun_leads [OF assms(2,3)] f tidy_length [OF assms(2)] by simp
qed

lemma start_word_leads:
  assumes "start_word d s = (True, s')" "tidy d s" "\<not> lx_comment (lexer_at d s)"
  shows "leads d s s'" "lx_active (lexer_at d s')"
proof -
  have d: "d < length (lg_lexers s)"
    by (rule tidy_length [OF assms(2)])
  note w = start_word_True [OF assms(1) d]
  then show "lx_active (lexer_at d s')"
    by (auto simp: token_started_def)
  show "leads d s s'"
    using w
  proof
    assume "s' = s \<and> lx_active (lexer_at d s)"
    then show ?thesis
      using stays_leads [OF stays_refl assms(2)] by simp
  next
    assume w: "\<not> lx_active (lexer_at d s) \<and> token_started (lexer_at d s) (lexer_at d s') \<and> lx_kind (lexer_at d s') = CSH_TOKEN_WORD \<and>
    (\<forall>i. i \<noteq> d \<longrightarrow> lexer_at i s' = lexer_at i s) \<and> length (lg_lexers s') = length (lg_lexers s) \<and>
    lg_source s' = (lg_source s)\<lparr>so_alias_eligible := False\<rparr> \<and> lg_error s' = lg_error s"
    show ?thesis
      by (rule begun_leads [OF assms(2,3)]) (use w d in \<open>simp_all add: token_started_def rest_of_def\<close>)
  qed
qed

lemma leads_tidy: "leads d s s' \<Longrightarrow> tidy d s'"
  by (simp add: leads_def)

lemma traces_start:
  assumes "tidy d s" "\<not> lx_comment (lexer_at d s)" "\<And>s1. tidy d s1 \<Longrightarrow> lx_active (lexer_at d s1) \<Longrightarrow> traces False d s1 (k s1)"
  shows "traces f d s (attempt (Some (start_word d s)) k)"
proof (rule traces_attempt)
  fix s1
  assume "Some (start_word d s) = Some (True, s1)"
  then have l: "leads d s s1" "lx_active (lexer_at d s1)"
    using start_word_leads [OF _ assms(1,2)] by simp_all
  show "traces f d s (k s1)"
    by (rule traces_leads [OF l(1) assms(3) [OF leads_tidy [OF l(1)] l(2)]])
qed

lemma step_simple_traces: "tidy d s \<Longrightarrow> traces True d s (step_simple cx d s)"
  unfolding step_simple_def
  by (auto intro!: traces_peek dest: tidy_in_frame split: look.split)

lemma traces_frame:
  assumes "tidy d s" "lx_active (lexer_at d s)" "\<And>s1. tidy d s1 \<Longrightarrow> lx_active (lexer_at d s1) \<Longrightarrow> traces False d s1 (k s1)"
  shows "traces f d s (k (if b then set_frame d g s else s))"
proof -
  let ?s = "if b then set_frame d g s else s"
  have st: "stays d s ?s"
    using set_frame_stays [OF tidy_length [OF assms(1)]] by simp
  have "traces False d ?s (k ?s)"
    by (rule assms(3)) (use stays_tidy [OF st assms(1)] st assms(2) in \<open>simp_all add: stays_def\<close>)
  then show ?thesis
    using traces_leads [OF stays_leads [OF st assms(1)]] by simp
qed

lemma step_wide_traces:
  assumes "tidy d s" "\<not> lx_comment (lexer_at d s)"
  shows "traces True d s (step_wide cx d s)"
proof -
  let ?n = "csh_character_length cx (drop (so_cursor (lg_source s)) (so_data (lg_source s))) True (so_final (lg_source s))"
  have "traces True d s (attempt (Some (start_word d s)) (\<lambda>s.
          let s = (if in_frame (lexer_at d s) PARAMETER then set_frame d (parameter_context None) s else s)
          in attempt (lex_piece d CSH_FRAGMENT_TEXT (frame_quote (lexer_at d s)) ?n s) step_on))"
    unfolding Let_def using assms
    by (intro traces_start traces_frame [where k = "\<lambda>s. attempt (lex_piece d CSH_FRAGMENT_TEXT (frame_quote (lexer_at d s)) ?n s) step_on"]) auto
  then show ?thesis
    unfolding step_wide_def Let_def by simp
qed

lemma step_single_traces: "tidy d s \<Longrightarrow> traces True d s (step_single d byte s)"
  using tidy_in_frame by (simp add: step_single_def)

lemma step_parameter_traces: "tidy d s \<Longrightarrow> traces True d s (step_parameter d byte s)"
  using tidy_in_frame [of d s PARAMETER] set_frame_stays [OF tidy_length] by (simp add: step_parameter_def)

lemma step_closing_traces:
  assumes t: "tidy d s" "lx_active (lexer_at d s)"
  shows "traces True d s (step_closing cx d s)"
  unfolding step_closing_def
proof (rule traces_bind)
  fix v s1
  assume p: "probe_arithmetic d False s = Some (v, s1)"
  let ?k = "\<lambda>s2. set_lexer d (\<lambda>l. l\<lparr>lx_arithmetic := tl (lx_arithmetic l)\<rparr>) s2"
  have pop: "traces True d s2 (attempt (lex_pop d n s2) (\<lambda>s. step_on (?k s)))" if "tidy d s2" "lx_active (lexer_at d s2)" for s2 n
  proof (rule traces_attempt)
    fix s3
    assume "lex_pop d n s2 = Some (True, s3)"
    then have b: "builds d s2 s3"
      using lex_pop_builds tidy_length that by blast
    then have "builds d s3 (?k s3)"
      by (intro update_builds) (simp_all add: builds_def rest_of_def)
    then show "traces True d s2 (step_on (?k s3))"
      using b builds_trans builds_leads that(1) by simp
  qed
  have look: "traces True d s1 (lex_peek cx 1 s1 \<bind> (\<lambda>(look, s). case look of
                  LOOK_MORE \<Rightarrow> Some (Return CSH_LEX_MORE None, s)
                | LOOK_EOF \<Rightarrow> Some (Fall, s)
                | LOOK_WIDE _ \<Rightarrow> step_replay d s
                | LOOK_BYTE c physical \<Rightarrow>
                    if c = CHR '')'' then
                      attempt (lex_pop d physical s)
                        (\<lambda>s. step_on (?k s))
                    else step_replay d s))" if "tidy d s1" "lx_active (lexer_at d s1)"
    using that pop by (intro traces_peek) (auto split: look.split)
  show "traces True d s ((\<lambda>(valid, s).
         if valid = -1 then lex_error s
         else if valid = 0 then step_replay d s
         else
           do {(look, s) \<leftarrow> lex_peek cx 1 s;
               (case look of
                  LOOK_MORE \<Rightarrow> Some (Return CSH_LEX_MORE None, s)
                | LOOK_EOF \<Rightarrow> Some (Fall, s)
                | LOOK_WIDE _ \<Rightarrow> step_replay d s
                | LOOK_BYTE c physical \<Rightarrow>
                    if c = CHR '')'' then
                      attempt (lex_pop d physical s)
                        (\<lambda>s. step_on (set_lexer d (\<lambda>l. l\<lparr>lx_arithmetic := tl (lx_arithmetic l)\<rparr>) s))
                    else step_replay d s)}) (v, s1))"
  proof (cases "v = -1")
    case False
    note h = probe_held [OF p False]
    have st: "stays d s s1"
      using h by (simp add: stays_def rest_of_def)
    show ?thesis
      using traces_stays [OF st t(1) look] stays_tidy [OF st t(1)] t(2) h(1) False by simp
  qed simp
qed

lemma step_arithmetic_traces: "tidy d s \<Longrightarrow> traces True d s (step_arithmetic cx d byte s)"
  using tidy_frames [of d s] set_frame_stays [OF tidy_length] step_closing_traces [of d s cx]
  by (auto simp: step_arithmetic_def split: list.split)

lemma step_raw_quote_traces: "tidy d s \<Longrightarrow> traces True d s (step_raw_quote d byte s)"
  using tidy_in_frame [of d s] by (auto simp: step_raw_quote_def Let_def)

text \<open>Consuming between two tokens.\<close>

lemma idle_consume_leads:
  assumes c: "lex_consume d n s = Some (True, s')" and t: "tidy d s" "\<not> lx_active (lexer_at d s)"
    and x: "\<And>p r. rest_of s = take n (rest_of s) @ p @ r \<Longrightarrow> skippable (lx_comment (lexer_at d s)) p \<Longrightarrow>
      skippable (lx_comment (lexer_at d s)) (take n (rest_of s) @ p)"
  shows "leads d s s'"
proof -
  note k = lex_consume_consumes [OF c]
  have same: "lexer_at d s' = lexer_at d s"
    by (rule lex_consume_inactive [OF c tidy_length [OF t(1)] t(2)])
  have r: "rest_of s' = drop n (rest_of s)"
    using k by (simp add: consumes_def rest_of_def add.commute)
  have raw: "lx_raw (lexer_at d s) = []"
    using t by (simp add: tidy_def)
  have "rest_of s = take n (rest_of s) @ rest_of s'"
    by (simp add: r)
  moreover have "tidy d s'"
    using t k same by (simp add: tidy_def consumes_def)
  ultimately show ?thesis
    unfolding leads_def using x raw t(2) by (auto simp: text_of_def same skipped_def intro!: exI [of _ "take n (rest_of s)"])
qed

lemma step_escape_traces:
  assumes t: "tidy d s" "\<not> lx_comment (lexer_at d s)" and r: "\<exists>r. rest_of s = byte # r"
  shows "traces True d s (step_escape cx d byte s)"
proof (cases "byte = CHR 0x5C")
  case True
  let ?so = "lg_source s" and ?l = "lexer_at d s"
  have start: "traces True d s (attempt (Some (start_word d s)) (\<lambda>s. attempt (lex_piece d kind quote n s) step_on))" for kind quote n
    using t by (intro traces_start) simp_all
  have skip: "traces True d s (attempt (lex_consume d 2 s) step_on)" if "\<not> lx_active ?l" "drop (so_cursor ?so + 1) (so_data ?so) = CHR 0x0A # q" for q
  proof (rule traces_attempt)
    fix s1
    assume c: "lex_consume d 2 s = Some (True, s1)"
    have "rest_of s = CHR 0x5C # CHR 0x0A # q"
      using r that(2) True by (auto simp: rest_of_def drop_Suc tl_drop [symmetric])
    then show "traces True d s (step_on s1)"
      using idle_consume_leads [OF c t(1) that(1)] t(2) by simp
  qed
  have "traces True d s (case drop (so_cursor ?so + 1) (so_data ?so) of
           [] \<Rightarrow>
             if \<not> so_final ?so then Some (Return CSH_LEX_MORE None, s)
             else lex_error (lex_fail d ''unterminated escape'' EOK s)
         | e # r \<Rightarrow>
             (let width = csh_character_length cx (e # r) True (so_final ?so);
                  next = (if 1 < width then None else Some e)
              in if width = 0 then Some (Return CSH_LEX_MORE None, s)
                 else if in_frame ?l DOLLAR_SINGLE then attempt (lex_piece d CSH_FRAGMENT_ESCAPE (body_quote ?l) (1 + width) s) step_on
                 else if next = Some CHR 0x0A \<and> \<not> (in_frame ?l BACKQUOTE \<and> body_quote ?l = CSH_QUOTE_NONE) then
                   (if lx_active ?l then attempt (lex_piece d CSH_FRAGMENT_CONTINUATION (body_quote ?l) 2 s) step_on
                    else attempt (lex_consume d 2 s) step_on)
                 else if escapes ?l (body_quote ?l) next then
                   attempt (Some (start_word d s)) (\<lambda>s. attempt (lex_piece d CSH_FRAGMENT_ESCAPE (body_quote ?l) (1 + width) s) step_on)
                 else Some (Fall, s)))"
  proof (cases "drop (so_cursor ?so + 1) (so_data ?so)")
    case (Cons e q)
    show ?thesis
      unfolding Cons list.case Let_def using tidy_in_frame [OF t(1)] t start skip [of q] Cons
      by (simp split: if_splits)
  qed simp
  then show ?thesis
    using True unfolding step_escape_def Let_def by simp
qed (simp add: step_escape_def Let_def)

text \<open>A started token takes its first byte.\<close>

lemma started_leads:
  assumes "start_token d s = (True, s1)" "tidy d s" "\<not> lx_comment (lexer_at d s)" "lex_consume d n (set_lexer d g s1) = Some (True, s2)"
    "\<And>l. lx_active (g l) = lx_active l \<and> lx_comment (g l) = lx_comment l \<and> lx_raw (g l) = lx_raw l"
  shows "leads d s s2" "lx_active (lexer_at d s2)"
proof -
  note k = start_token_leads [OF assms(1-3)]
  have d: "d < length (lg_lexers s1)"
    using k(4) tidy_length [OF assms(2)] by simp
  have b1: "builds d s1 (set_lexer d g s1)"
    using d k(2) assms(5) by (intro update_builds) (simp_all add: rest_of_def)
  then have "builds d (set_lexer d g s1) s2"
    by (intro consume_builds [OF assms(4)]) (simp_all only: builds_def)
  then have "builds d s1 s2"
    using b1 builds_trans by blast
  then show "leads d s s2" "lx_active (lexer_at d s2)"
    using leads_trans [OF k(1) builds_leads] leads_tidy [OF k(1)] by (simp_all add: builds_def)
qed

lemma step_delimiting_traces:
  assumes t: "tidy d s" "\<not> lx_comment (lexer_at d s)" and r: "\<exists>r. rest_of s = byte # r"
  shows "traces True d s (step_delimiting d byte s)"
proof -
  have blank: "traces True d s (attempt (lex_consume d 1 s) step_on)" if "\<not> lx_active (lexer_at d s)" "byte = CHR '' '' \<or> byte = CHR 0x09"
  proof (rule traces_attempt)
    fix s1
    assume c: "lex_consume d 1 s = Some (True, s1)"
    show "traces True d s (step_on s1)"
      using idle_consume_leads [OF c t(1) that(1)] t(2) r that(2) by auto
  qed
  have token: "traces True d s (attempt (Some (start_token d s)) (\<lambda>s.
          if byte = CHR 0x0A then
            attempt (lex_consume d 1 (set_lexer d (\<lambda>l. l\<lparr>lx_kind := CSH_TOKEN_NEWLINE\<rparr>) s)) (deliver d)
          else
            attempt (lex_consume d 1 (set_lexer d (\<lambda>l. l\<lparr>lx_operator := [byte],
              lx_kind := (case map_of lexer_operators [byte] of None \<Rightarrow> lx_kind l | Some k \<Rightarrow> k)\<rparr>) s)) step_on))"
  proof (rule traces_attempt)
    fix s1
    assume "Some (start_token d s) = Some (True, s1)"
    then have st: "start_token d s = (True, s1)"
      by simp
    have "traces True d s (attempt (lex_consume d 1 (set_lexer d g s1)) (deliver d))"
      and "traces True d s (attempt (lex_consume d 1 (set_lexer d g s1)) step_on)"
      if g: "\<And>l. lx_active (g l) = lx_active l \<and> lx_comment (g l) = lx_comment l \<and> lx_raw (g l) = lx_raw l" for g
      using started_leads [OF st t _ g] traces_leads deliver_traces tidy_length leads_tidy
      by (blast intro!: traces_attempt, intro traces_attempt) (use started_leads [OF st t _ g] in simp)
    then show "traces True d s (if byte = CHR 0x0A then
            attempt (lex_consume d 1 (set_lexer d (\<lambda>l. l\<lparr>lx_kind := CSH_TOKEN_NEWLINE\<rparr>) s1)) (deliver d)
          else
            attempt (lex_consume d 1 (set_lexer d (\<lambda>l. l\<lparr>lx_operator := [byte],
              lx_kind := (case map_of lexer_operators [byte] of None \<Rightarrow> lx_kind l | Some k \<Rightarrow> k)\<rparr>) s1)) step_on)"
      by simp
  qed
  show ?thesis
    unfolding step_delimiting_def Let_def using token blank deliver_traces [OF _ tidy_length [OF t(1)]] by simp
qed

lemma step_hash_traces:
  assumes t: "tidy d s" "\<not> lx_comment (lexer_at d s)" and r: "\<exists>r. rest_of s = byte # r"
  shows "traces True d s (step_hash d byte s)"
proof (cases "\<not> lx_document (lexer_at d s) \<and> \<not> lx_active (lexer_at d s) \<and> byte = CHR ''#''")
  case True
  let ?s = "set_lexer d (\<lambda>l. l\<lparr>lx_comment := True\<rparr>) s"
  obtain q where q: "rest_of s = CHR ''#'' # q"
    using r True by blast
  have raw: "lx_raw (lexer_at d s) = []"
    using t True by (simp add: tidy_def)
  have "skippable False p" if "CHR ''#'' # q = p @ r" "skippable True p" for p r
    using that by (cases p) auto
  then have "leads d s ?s"
    using t True q raw tidy_length [OF t(1)] by (auto simp: leads_def tidy_def text_of_def skipped_def rest_of_def)
  then show ?thesis
    using True by (simp add: step_hash_def Let_def)
qed (auto simp: step_hash_def Let_def)

lemma open_command_traces [simp]: "traces f d s (open_command d n quote s)"
  by (auto simp: open_command_def intro!: traces_attempt)

lemma open_arithmetic_traces:
  assumes t: "tidy d s" "lx_active (lexer_at d s)"
  shows "traces f d s (open_arithmetic d n m quote s)"
  unfolding open_arithmetic_def
proof (intro traces_attempt)
  fix s1 s2
  assume c: "Some (checkpoint_arithmetic d n quote s) = Some (True, s1)" and p: "lex_push d ARITHMETIC CSH_FRAGMENT_ARITHMETIC quote m s1 = Some (True, s2)"
  let ?s = "set_lexer d (\<lambda>l. l\<lparr>lx_arithmetic := (case lx_arithmetic l of [] \<Rightarrow> [] | c # cs \<Rightarrow> c\<lparr>ck_body_begin := length (lx_raw l)\<rparr> # cs)\<rparr>) s2"
  have d: "d < length (lg_lexers s)"
    by (rule tidy_length [OF t(1)])
  have c': "checkpoint_arithmetic d n quote s = (True, s1)"
    using c by simp
  have b1: "builds d s s1"
  proof (rule checkpoint_arithmetic_True [OF c'])
    fix s0 cap ac
    assume "lg_source s0 = lg_source s" "lg_lexers s0 = lg_lexers s"
      "s1 = set_lexer d (\<lambda>l. l\<lparr>lx_arithmetic := checkpoint_of d n quote s cap ac # lx_arithmetic l\<rparr>) s0"
    then show "builds d s s1"
      using t d by (intro update_builds) (simp_all add: rest_of_def)
  qed
  then have b2: "builds d s1 s2"
    by (intro lex_push_builds [OF p]) (simp_all add: builds_def)
  then have "builds d s2 ?s"
    by (intro update_builds) (simp_all add: builds_def rest_of_def)
  then have "builds d s ?s"
    using b1 b2 builds_trans by blast
  from builds_leads [OF this t(1)] show "traces f d s (step_on ?s)"
    by simp
qed

lemma dollar_parenthesis_traces: "tidy d s \<Longrightarrow> lx_active (lexer_at d s) \<Longrightarrow> traces f d s (dollar_parenthesis cx d n quote s)"
  unfolding dollar_parenthesis_def
  by (rule traces_peek) (auto intro: open_arithmetic_traces split: look.split)

lemma lex_dollar_byte_traces:
  assumes t: "tidy d s" "lx_active (lexer_at d s)"
  shows "traces True d s (lex_dollar_byte cx d quote c n s)"
proof -
  have "traces True d s (attempt (lex_push d SIMPLE CSH_FRAGMENT_PARAMETER quote n s) (\<lambda>s. attempt (lex_pop d 0 s) step_on))"
  proof (rule traces_attempt)
    fix s1
    assume "lex_push d SIMPLE CSH_FRAGMENT_PARAMETER quote n s = Some (True, s1)"
    then have b: "builds d s s1"
      using lex_push_builds tidy_length t by blast
    note l = builds_leads [OF b t(1)]
    show "traces True d s (attempt (lex_pop d 0 s1) step_on)"
      by (rule traces_leads [OF l]) (use leads_tidy [OF l] b in \<open>simp add: builds_def\<close>)
  qed
  then show ?thesis
    using dollar_parenthesis_traces [OF t] t by (simp add: lex_dollar_byte_def)
qed

lemma lex_dollar_traces: "tidy d s \<Longrightarrow> lx_active (lexer_at d s) \<Longrightarrow> traces True d s (lex_dollar cx d quote s)"
  unfolding lex_dollar_def
  by (erule traces_peek) (simp add: lex_dollar_byte_traces split: look.split)

lemma step_word_traces:
  assumes t: "tidy d s" "\<not> lx_comment (lexer_at d s)"
  shows "traces f d s (step_word cx d byte s)"
proof -
  have "traces False d s1 (lex_or_else (if byte = CHR ''$'' then lex_dollar cx d quote s1 else Some (Fall, s1)) (\<lambda>s.
           if byte = CHR 0x60 then attempt (lex_push d BACKQUOTE CSH_FRAGMENT_BACKQUOTE quote 1 s) step_on
           else attempt (lex_piece d CSH_FRAGMENT_TEXT quote 1 s) step_on))" if a: "tidy d s1" "lx_active (lexer_at d s1)" for s1 quote
  proof (rule traces_or_else [OF _ a(1)])
    show "traces True d s1 (if byte = CHR ''$'' then lex_dollar cx d quote s1 else Some (Fall, s1))"
      using lex_dollar_traces [OF a] by simp
    fix s2
    assume st: "stays d s1 s2"
    have "tidy d s2" "lx_active (lexer_at d s2)"
      using stays_tidy [OF st a(1)] st a(2) by (simp_all add: stays_def)
    then show "traces False d s2 (if byte = CHR 0x60 then attempt (lex_push d BACKQUOTE CSH_FRAGMENT_BACKQUOTE quote 1 s2) step_on
           else attempt (lex_piece d CSH_FRAGMENT_TEXT quote 1 s2) step_on)"
      by simp
  qed
  then show ?thesis
    unfolding step_word_def Let_def using t by (intro traces_start) auto
qed

text \<open>A byte outside comments.\<close>

definition facing :: "nat \<Rightarrow> char \<Rightarrow> lexing \<Rightarrow> bool" where
  "facing d byte s \<longleftrightarrow> tidy d s \<and> \<not> lx_comment (lexer_at d s) \<and> (\<exists>r. rest_of s = byte # r)"

lemma facing_facts: "facing d byte s \<Longrightarrow> tidy d s" "facing d byte s \<Longrightarrow> \<not> lx_comment (lexer_at d s)" "facing d byte s \<Longrightarrow> \<exists>r. rest_of s = byte # r"
  by (simp_all add: facing_def)

lemma traces_else:
  assumes "facing d byte s" "facing d byte s \<Longrightarrow> traces True d s m" "\<And>s1. facing d byte s1 \<Longrightarrow> traces f d s1 (k s1)"
  shows "traces f d s (lex_or_else m k)"
proof (rule traces_or_else [OF assms(2) [OF assms(1)] facing_facts(1) [OF assms(1)]])
  fix s1
  assume st: "stays d s s1"
  have "facing d byte s1"
    using assms(1) st stays_tidy [OF st] by (simp add: facing_def stays_def)
  then show "traces f d s1 (k s1)"
    by (rule assms(3))
qed

lemmas step_traces =
  step_simple_traces [OF facing_facts(1)] step_wide_traces [OF facing_facts(1,2)] step_single_traces [OF facing_facts(1)]
  step_parameter_traces [OF facing_facts(1)] step_arithmetic_traces [OF facing_facts(1)] step_escape_traces [OF facing_facts]
  step_raw_quote_traces [OF facing_facts(1)] step_delimiting_traces [OF facing_facts] step_hash_traces [OF facing_facts]
  step_word_traces [OF facing_facts(1,2)]

lemma lex_byte_traces: "facing d byte s \<Longrightarrow> traces False d s (lex_byte cx d byte s)"
  unfolding lex_byte_def by (rule traces_else [where byte = byte], assumption, erule step_traces, (assumption+)?)+ (rule step_traces; assumption)

lemma extend_traces:
  assumes s: "tidy d s" "lx_active (lexer_at d s)"
    and k: "\<And>s1. tidy d s1 \<Longrightarrow> lx_active (lexer_at d s1) \<Longrightarrow> traces False d s1 (k s1)"
  shows "traces f d s (attempt (lex_delimiter d n CSH_QUOTE_NONE (set_lexer d (\<lambda>l. l\<lparr>lx_kind := kind\<rparr>) s))
    (\<lambda>s. k (set_lexer d (\<lambda>l. l\<lparr>lx_operator := op\<rparr>) s)))"
proof (rule traces_attempt)
  fix s1
  let ?s = "set_lexer d (\<lambda>l. l\<lparr>lx_kind := kind\<rparr>) s"
  assume p: "lex_delimiter d n CSH_QUOTE_NONE ?s = Some (True, s1)"
  have b: "builds d s ?s"
    using s tidy_length [OF s(1)] by (intro update_builds) (simp_all add: rest_of_def)
  then have "builds d ?s s1"
    by (intro delimiter_builds [OF p]) (auto simp only: builds_def)
  then have b1: "builds d s s1"
    using b builds_trans by blast
  let ?t = "set_lexer d (\<lambda>l. l\<lparr>lx_operator := op\<rparr>) s1"
  have "builds d s1 ?t"
    using b1 by (intro update_builds) (simp_all add: builds_def rest_of_def)
  then have bt: "builds d s ?t"
    using b1 builds_trans by blast
  note l = builds_leads [OF bt s(1)]
  have "lx_active (lexer_at d ?t)"
    using bt by (simp only: builds_def)
  then show "traces f d s (k ?t)"
    by (rule traces_leads [OF l k [OF leads_tidy [OF l]]])
qed

lemma operator_step_traces: "tidy d s \<Longrightarrow> lx_active (lexer_at d s) \<Longrightarrow> traces False d s (operator_step cx d op s)"
proof (induction "3 - length op" arbitrary: op s rule: less_induct)
  case less
  show ?case
  proof (cases "extendible op")
    case False
    then show ?thesis
      using deliver_traces [OF less.prems(2) tidy_length [OF less.prems(1)]] by (subst operator_step.simps) simp
  next
    case True
    have "3 - length (op @ [c]) < 3 - length op" for c :: char
      using True by (auto simp: extendible_def lexer_operators_def)
    then have ih: "traces False d s1 (operator_step cx d (op @ [c]) s1)" if "tidy d s1" "lx_active (lexer_at d s1)" for c s1
      using less.hyps that by blast
    have "traces False d s1 (attempt (lex_delimiter d n CSH_QUOTE_NONE (set_lexer d (\<lambda>l. l\<lparr>lx_kind := kind\<rparr>) s1))
        (\<lambda>s. operator_step cx d (op @ [c]) (set_lexer d (\<lambda>l. l\<lparr>lx_operator := op @ [c]\<rparr>) s)))"
      if "tidy d s1" "lx_active (lexer_at d s1)" for c s1 n kind
      using that ih by (rule extend_traces)
    moreover have "traces False d s1 (deliver d s1)" if "tidy d s1" "lx_active (lexer_at d s1)" for s1
      using deliver_traces that tidy_length by blast
    ultimately show ?thesis
      using True less.prems by (subst operator_step.simps) (auto intro!: traces_peek split: look.split option.split)
  qed
qed

lemma lex_eof_traces: "tidy d s \<Longrightarrow> traces False d s (lex_eof d frs s)"
proof (induction frs arbitrary: s)
  case Nil
  then show ?case
    using deliver_traces [OF _ tidy_length [OF Nil]] by (simp add: Let_def split: list.split)
next
  case (Cons f frs)
  have "traces False d s (attempt (lex_pop d 0 s) (lex_eof d frs))"
  proof (rule traces_attempt)
    fix s1
    assume p: "lex_pop d 0 s = Some (True, s1)"
    have d: "d < length (lg_lexers s)"
      by (rule tidy_length [OF Cons.prems])
    have "lx_active (lexer_at d s)"
      using lex_pop_moves(2) [OF p d] tidy_frames [OF Cons.prems] by blast
    then have l: "leads d s s1"
      using builds_leads [OF lex_pop_builds [OF p d]] Cons.prems by blast
    show "traces False d s (lex_eof d frs s1)"
      by (rule traces_leads [OF l Cons.IH [OF leads_tidy [OF l]]])
  qed
  then show ?case
    by (simp add: Let_def)
qed

lemma step_comment_traces:
  assumes t: "tidy d s" "lx_comment (lexer_at d s)" and r: "rest_of s = byte # r" "byte \<noteq> CHR 0x0A"
  shows "traces False d s (attempt (lex_consume d 1 s) step_on)"
proof (rule traces_attempt)
  fix s1
  assume c: "lex_consume d 1 s = Some (True, s1)"
  have "\<not> lx_active (lexer_at d s)"
    using t by (auto simp: tidy_def)
  then show "traces False d s (step_on s1)"
    using idle_consume_leads [OF c t(1)] t(2) r by auto
qed

lemma lex_step_traces:
  assumes t: "tidy d s"
  shows "traces False d s (lex_step cx d s)"
proof (cases "rest_of s")
  case Nil
  then show ?thesis
    using operator_step_traces [OF t] lex_eof_traces [OF t] by (simp add: lex_step_def Let_def rest_of_def)
next
  case (Cons byte r)
  let ?s = "set_lexer d (\<lambda>l. l\<lparr>lx_comment := False\<rparr>) s"
  have "traces False d s (lex_or_else (step_comment d byte s) (lex_byte cx d byte))"
  proof (cases "lx_comment (lexer_at d s)")
    case False
    then show ?thesis
      using lex_byte_traces [of d byte s cx] t Cons by (simp add: step_comment_def lex_or_else_def facing_def)
  next
    case c: True
    show ?thesis
    proof (cases "byte = CHR 0x0A")
      case True
      have idle: "\<not> lx_active (lexer_at d s)" "lx_raw (lexer_at d s) = []"
        using t c by (auto simp: tidy_def split: if_splits)
      have d: "d < length (lg_lexers s)"
        by (rule tidy_length [OF t])
      have t': "tidy d ?s"
        using t idle d by (simp add: tidy_def)
      have none: "p = []" if "skippable False p" "CHR 0x0A # r = p @ q" for p q
        using that by (cases p) auto
      have whole: "text_of d s = CHR 0x0A # r" "text_of d ?s = CHR 0x0A # r"
        using Cons True idle d by (simp_all add: text_of_def rest_of_def)
      have l: "leads d s ?s"
        unfolding leads_def whole
      proof (intro conjI t' exI [of _ "[]"] allI impI)
        fix p q
        assume p: "CHR 0x0A # r = p @ q" "skipped (lexer_at d ?s) p"
        then have "p = []"
          using none idle(1) d by (simp add: skipped_def)
        then show "skipped (lexer_at d s) ([] @ p)"
          using c by (simp add: skipped_def)
      qed simp
      have "traces False d s (lex_byte cx d byte ?s)"
        by (rule traces_leads [OF l lex_byte_traces]) (use t' d Cons in \<open>simp add: facing_def rest_of_def\<close>)
      then show ?thesis
        using c True by (simp add: step_comment_def lex_or_else_def)
    next
      case False
      have "traces False d s (attempt (lex_consume d 1 s) step_on)"
        by (rule step_comment_traces [OF t c Cons False])
      then show ?thesis
        using c False by (intro traces_or_else_False) (simp add: step_comment_def)
    qed
  qed
  then show ?thesis
    using operator_step_traces [OF t] Cons by (simp add: lex_step_def Let_def rest_of_def)
qed

lemma lex_loop_spells:
  "tidy d s \<Longrightarrow> lex_loop cx d s = Some (r, Some token, s') \<Longrightarrow> spells d s token s'"
proof (induction cx d s rule: lex_loop.induct)
  case (1 cx d s)
  note tr = lex_step_traces [OF 1(2), of cx]
  obtain t s1 where st: "lex_step cx d s = Some (t, s1)"
    using 1(3) by (subst (asm) lex_loop.simps) (auto split: if_splits option.splits)
  show ?case
  proof (cases t)
    case (Return r' token')
    then show ?thesis
      using 1(3) tr st tidy_length [OF 1(2)] by (subst (asm) lex_loop.simps) (auto simp: traces_def)
  next
    case Continue
    then have l: "leads d s s1"
      using tr st by (simp add: traces_def)
    have "lex_loop cx d s1 = Some (r, Some token, s')"
      using 1(3) st Continue tidy_length [OF 1(2)] by (subst (asm) lex_loop.simps) simp
    then have "spells d s1 token s'"
      using 1(1) [OF _ st refl Continue leads_tidy [OF l]] tidy_length [OF 1(2)] by simp
    then show ?thesis
      by (rule leads_spells [OF l])
  next
    case Fall
    then show ?thesis
      using tr st by (simp add: traces_def)
  qed
qed

text \<open>C0: the tokens spell the input. A read that delivers a token accounts for every byte it took: in front of the token it skipped blanks,
  line continuations and comments and nothing else, the spelling of the token is the input that followed, byte for byte, and the
  rest is still pending. A word that an earlier read had begun is continued without skipping anything.\<close>

theorem lexer_tokens_spell_input:
  assumes "lexer_reachable cx s" "mbrlen_ok cx" "d < length (lg_lexers s)" "csh_lexer_next cx d s = Some (r, Some token, s')"
  shows "\<exists>gap. lx_raw (lexer_at d s) @ fst (csh_lexer_pending s) = gap @ tk_raw token @ fst (csh_lexer_pending s') \<and>
    (if lx_active (lexer_at d s) then gap = [] else skippable (lx_comment (lexer_at d s)) gap)"
proof -
  have f: "message (so_failure (lg_source s)) = []"
    using assms(4) by (auto simp: csh_lexer_next_def lex_next_token_def Let_def split: if_splits)
  define c where "c = s\<lparr>lg_error := no_error\<rparr>"
  have lx: "lexing_ok (length (lg_lexers s) - 1) c"
    using lexer_ok_running [OF lexer_reachable_ok [OF assms(2,1)] f] by (simp add: c_def)
  have "r = CSH_LEX_TOKEN"
    using csh_lexer_next_ok [OF lexer_reachable_ok [OF assms(2,1)] assms(3,2)] assms(4) by (auto simp: next_ok_def split: if_splits)
  then obtain r1 where next1: "lex_next_token cx d s = Some (r1, Some token, s')"
    using assms(4) f by (auto simp: csh_lexer_next_def bind_eq_Some_conv split: if_splits)
  then have loop: "lex_loop cx d c = Some (r1, Some token, s')"
    using f by (auto simp: lex_next_token_def Let_def c_def split: if_splits)
  have w: "word_ok (lexer_at d c)"
    using lexing_facts(4) [OF lx] assms(3) by (simp add: lexers_base_def c_def)
  then have "tidy d c"
    using assms(3) by (auto simp: tidy_def word_ok_def c_def)
  then have "spells d c token s'"
    using loop by (rule lex_loop_spells)
  then show ?thesis
    by (auto simp: spells_def text_of_def rest_of_def csh_lexer_pending_def Let_def skipped_def c_def)
qed

theorem lexer_tokens_spell_input_witness:
  "csh_lexer_next utf8_context 0 (sample_fed '' a'') = Some (CSH_LEX_TOKEN, Some sample_token, sample_reading 2 sample_ended) \<and>
   tk_raw sample_token = ''a'' \<and> (\<exists>gap. '' a'' = gap @ ''a'' \<and> skippable False gap)"
proof -
  have r: "lexer_reachable utf8_context (sample_fed '' a'')"
    by (rule sample_reachable) simp_all
  have d: "0 < length (lg_lexers (sample_fed '' a''))"
    by (simp add: sample_defs)
  show ?thesis
    using lexer_tokens_spell_input [OF r utf8_ok d sample_word] sample_word
    by (simp add: csh_lexer_pending_def Let_def sample_defs fresh_lexer_def fresh_source_def)
qed

text \<open>C0: every token a lexer delivers is a word that word expansion can take: it is not empty, has no NUL byte, and its fragments pass
  the check of the structure of a word in \<open>prepare\<close>, whatever came before in the input and however it was cut into pieces.
  A read without a token leaves the token of the caller alone.\<close>

theorem lexer_tokens_structured:
  assumes "lexer_reachable cx s" "mbrlen_ok cx" "d < length (lg_lexers s)" "csh_lexer_next cx d s = Some (r, t, s')"
  shows "case t of
      None \<Rightarrow> r \<noteq> CSH_LEX_TOKEN
    | Some token \<Rightarrow> r = CSH_LEX_TOKEN \<and> tk_raw token \<noteq> [] \<and> CHR 0x00 \<notin> set (tk_raw token) \<and>
        (\<forall>cx' ns i. prepare_scan cx' token 0 (tk_fragments token) [] 0 ns \<noteq> Inl (i, ''invalid structured word''))"
proof -
  note ok = lexer_reachable_ok [OF assms(2,1)]
  have "next_ok r t"
    using csh_lexer_next_ok [OF ok assms(3,2)] assms(4) by auto
  then show ?thesis
    using token_structured by (auto simp: next_ok_def token_ok_def split: option.splits if_splits)
qed

theorem lexer_tokens_structured_witness:
  "csh_lexer_next utf8_context 0 (sample_fed '' a'') = Some (CSH_LEX_TOKEN, Some sample_token, sample_reading 2 sample_ended) \<and>
   prepare_scan utf8_context sample_token 0 (tk_fragments sample_token) [] 0 [0] \<noteq> Inl (0, ''invalid structured word'')"
proof -
  have r: "lexer_reachable utf8_context (sample_fed '' a'')"
    by (rule sample_reachable) simp_all
  have d: "0 < length (lg_lexers (sample_fed '' a''))"
    by (simp add: sample_defs)
  show ?thesis
    using lexer_tokens_structured [OF r utf8_ok d sample_word] sample_word by simp
qed

end
