(* ===== verification/Output.thy ===== *)
theory Output
  imports Prelude
begin

text \<open>
  Descriptor output (\<open>include/cshell/output.h\<close>): the loop that writes all of a text through short
  writes and interruptions, over any sequence of answers of \<open>write\<close>, and \<open>dprintf\<close> as the code uses it.
\<close>

subsection \<open>Model\<close>

text \<open>Answers of \<open>write\<close>: a count (never more than was offered) or an error. When they are used up,
  every further write takes everything. \<open>d_prints\<close> are the outcomes of the coming \<open>dprintf\<close> calls: all
  written (\<open>None\<close>, also when they are used up), or failure after a number of bytes.\<close>

datatype write_answer = WROTE nat | WFAILED errno

record descriptor =
  d_bytes :: string
  d_writes :: "write_answer list"
  d_prints :: "nat option list"

fun write_loop :: "string \<Rightarrow> write_answer list \<Rightarrow> bool \<times> string \<times> write_answer list" where
  "write_loop [] ws = (True, [], ws)"
| "write_loop (c # cs) [] = (True, c # cs, [])"
| "write_loop (c # cs) (WROTE n # ws) =
     (if n = 0 then (False, [], ws)
      else (case write_loop (drop n (c # cs)) ws of (ok, sent, ws) \<Rightarrow> (ok, take n (c # cs) @ sent, ws)))"
| "write_loop (c # cs) (WFAILED e # ws) = (if e = EINTR then write_loop (c # cs) ws else (False, [], ws))"

definition csh_write_bytes :: "string \<Rightarrow> descriptor \<Rightarrow> bool \<times> descriptor" where
  "csh_write_bytes t d =
     (case write_loop t (d_writes d) of (ok, sent, ws) \<Rightarrow> (ok, d\<lparr>d_bytes := d_bytes d @ sent, d_writes := ws\<rparr>))"

definition csh_write_text :: "string \<Rightarrow> descriptor \<Rightarrow> bool \<times> descriptor" where
  "csh_write_text t d = csh_write_bytes t d"

definition dprintf :: "string \<Rightarrow> descriptor \<Rightarrow> bool \<times> descriptor" where
  "dprintf t d =
     (case d_prints d of
        [] \<Rightarrow> (True, d\<lparr>d_bytes := d_bytes d @ t\<rparr>)
      | None # ps \<Rightarrow> (True, d\<lparr>d_bytes := d_bytes d @ t, d_prints := ps\<rparr>)
      | Some k # ps \<Rightarrow> (False, d\<lparr>d_bytes := d_bytes d @ take k t, d_prints := ps\<rparr>))"

subsection \<open>Writing\<close>

lemma write_loop_result:
  "write_loop t ws = (ok, sent, ws') \<Longrightarrow>
   (if ok then sent = t else \<exists>k<length t. sent = take k t) \<and> (\<exists>used. ws = used @ ws')"
proof (induction t ws arbitrary: ok sent ws' rule: write_loop.induct)
  case (3 c cs n ws)
  show ?case
  proof (cases "n = 0")
    case False
    obtain ok1 sent1 ws1 where r: "write_loop (drop n (c # cs)) ws = (ok1, sent1, ws1)" by (metis surj_pair)
    with 3(2) False have e: "ok = ok1" "sent = take n (c # cs) @ sent1" "ws' = ws1" by auto
    have "if ok then sent = c # cs else \<exists>k<length (c # cs). sent = take k (c # cs)"
    proof (cases ok)
      case True
      with 3(1) [OF False r] e show ?thesis by simp
    next
      case f: False
      with 3(1) [OF False r] e obtain k where k: "k < length (drop n (c # cs))" "sent1 = take k (drop n (c # cs))" by auto
      then have "sent = take (n + k) (c # cs)" using e by (simp only: take_add)
      with k f show ?thesis by (auto intro!: exI [of _ "n + k"])
    qed
    with 3(1) [OF False r] e show ?thesis by auto
  qed (use 3(2) in auto)
next
  case (4 c cs e ws)
  then show ?case by (auto split: if_splits)
qed auto

lemma write_bytes_ok: "csh_write_bytes t d = (True, d') \<Longrightarrow> d_bytes d' = d_bytes d @ t \<and> d_prints d' = d_prints d"
  using write_loop_result [of t "d_writes d"] by (fastforce simp: csh_write_bytes_def split: prod.splits)

lemma dprintf_ok: "dprintf t d = (True, d') \<Longrightarrow> d_bytes d' = d_bytes d @ t"
  by (auto simp: dprintf_def split: list.splits option.splits)

lemma write_bytes_reliable [simp]: "d_writes d = [] \<Longrightarrow> csh_write_bytes t d = (True, d\<lparr>d_bytes := d_bytes d @ t\<rparr>)"
  by (cases t; cases d) (simp_all add: csh_write_bytes_def)

lemma dprintf_reliable [simp]: "d_prints d = [] \<Longrightarrow> dprintf t d = (True, d\<lparr>d_bytes := d_bytes d @ t\<rparr>)"
  by (simp add: dprintf_def)

text \<open>
  writing is all or an honest failure. Whatever the sequence of short writes, interruptions and
  errors: on success exactly the text has been written, on failure a proper prefix of it, and
  interruptions alone never fail a write.
\<close>

theorem write_bytes_complete:
  "\<exists>sent ok d'. csh_write_bytes t d = (ok, d') \<and> d_bytes d' = d_bytes d @ sent \<and>
     (if ok then sent = t
      else (\<exists>k<length t. sent = take k t) \<and> (\<exists>w\<in>set (d_writes d). w = WROTE 0 \<or> (\<exists>e. w = WFAILED e \<and> e \<noteq> EINTR)))"
proof -
  obtain ok sent ws where r: "write_loop t (d_writes d) = (ok, sent, ws)" by (metis surj_pair)
  have "write_loop t ws0 = (False, s, ws1) \<Longrightarrow> \<exists>w\<in>set ws0. w = WROTE 0 \<or> (\<exists>e. w = WFAILED e \<and> e \<noteq> EINTR)" for ws0 s ws1
    by (induction t ws0 arbitrary: s rule: write_loop.induct) (auto split: if_splits prod.splits)
  with r write_loop_result [OF r] show ?thesis by (cases ok) (auto simp: csh_write_bytes_def)
qed

end
