(* ===== verification/Traps.thy ===== *)
theory Traps
  imports Output Conversion Alias
begin

text \<open>
  Traps (\<open>src/traps.c\<close>) and the signal names of \<open>src/jobs.c\<close>: the table of actions, the handlers it
  installs in the kernel, the \<open>trap\<close> utility, and what happens to the table around fork and exec.
\<close>

subsection \<open>Signals\<close>

text \<open>Signal numbers are those of Linux.\<close>

definition SIGHUP :: nat where "SIGHUP = 1"
definition SIGINT :: nat where "SIGINT = 2"
definition SIGQUIT :: nat where "SIGQUIT = 3"
definition SIGKILL :: nat where "SIGKILL = 9"
definition SIGCHLD :: nat where "SIGCHLD = 17"
definition SIGSTOP :: nat where "SIGSTOP = 19"

lemmas signal_numbers = SIGHUP_def SIGINT_def SIGQUIT_def SIGKILL_def SIGCHLD_def SIGSTOP_def

definition signal_names :: "(string \<times> nat) list" where
  "signal_names =
     [(''HUP'', 1), (''INT'', 2), (''QUIT'', 3), (''ILL'', 4), (''ABRT'', 6), (''FPE'', 8), (''KILL'', 9), (''SEGV'', 11),
      (''SYS'', 31), (''PIPE'', 13), (''ALRM'', 14), (''TERM'', 15), (''USR1'', 10), (''USR2'', 12), (''CHLD'', 17),
      (''CONT'', 18), (''STOP'', 19), (''TSTP'', 20), (''TTIN'', 21), (''TTOU'', 22), (''BUS'', 7), (''TRAP'', 5),
      (''URG'', 23), (''XCPU'', 24), (''XFSZ'', 25), (''VTALRM'', 26), (''PROF'', 27), (''WINCH'', 28), (''POLL'', 29)]"

text \<open>The kernel's side: the disposition of every signal, which numbers are signals (\<open>sigaction\<close>
  queries and \<open>sigaddset\<close> accept them), and which of those cannot be changed.\<close>

datatype handler = SIG_DFL | SIG_IGN | RECORD_SIGNAL | IGNORE_CHILD | OTHER_HANDLER nat

record sigact =
  sa_handler :: handler
  sa_nocldwait :: bool
  sa_rest :: nat

definition plain_action :: "handler \<Rightarrow> sigact" where
  "plain_action h = \<lparr>sa_handler = h, sa_nocldwait = False, sa_rest = 0\<rparr>"

record kernel =
  k_action :: "nat \<Rightarrow> sigact"
  k_known :: "nat \<Rightarrow> bool"
  k_fixed :: "nat \<Rightarrow> bool"

definition sigaction_get :: "kernel \<Rightarrow> nat \<Rightarrow> sigact option" where
  "sigaction_get k n = (if k_known k n then Some (k_action k n) else None)"

definition sigaction_set :: "kernel \<Rightarrow> nat \<Rightarrow> sigact \<Rightarrow> kernel option" where
  "sigaction_set k n a =
     (if k_known k n \<and> \<not> k_fixed k n then Some (k\<lparr>k_action := (k_action k)(n := a)\<rparr>) else None)"

text \<open>A call whose result the code ignores.\<close>

definition sigaction_try :: "kernel \<Rightarrow> nat \<Rightarrow> sigact \<Rightarrow> kernel" where
  "sigaction_try k n a = (case sigaction_set k n a of None \<Rightarrow> k | Some k \<Rightarrow> k)"

text \<open>\<open>number\<close> of \<open>jobs.c\<close>: an optional sign and digits, the value in range.\<close>

definition jobs_number :: "string \<Rightarrow> int option" where
  "jobs_number t =
     (let body = (if t \<noteq> [] \<and> hd t \<in> {CHR ''+'', CHR ''-''} then tl t else t)
      in if body = [] \<or> \<not> list_all digit body then None
         else case strtol t of (v, rest, erange) \<Rightarrow> if erange \<or> rest \<noteq> [] then None else Some v)"

definition ascii_lower :: "char \<Rightarrow> char" where
  "ascii_lower c = (if CHR ''A'' \<le> c \<and> c \<le> CHR ''Z'' then char_of (of_char c + 32 :: nat) else c)"

definition csh_jobs_signal_number :: "kernel \<Rightarrow> string \<Rightarrow> int" where
  "csh_jobs_signal_number k t =
     (case jobs_number t of
        Some v \<Rightarrow>
          if v = 0 then 0
          else if 0 < v \<and> v \<le> 2147483647 \<and> k_known k (nat v) then v else -1
      | None \<Rightarrow>
          (case find (\<lambda>(name, n). map ascii_lower t = map ascii_lower name) signal_names of
             Some (name, n) \<Rightarrow> int n
           | None \<Rightarrow> -1))"

definition csh_jobs_signal_name :: "nat \<Rightarrow> string option" where
  "csh_jobs_signal_name n = map_option fst (find (\<lambda>(name, m). m = n) signal_names)"

subsection \<open>The trap table\<close>

definition TRAP_LIMIT :: nat where "TRAP_LIMIT = 128"

record trap_entry =
  te_action :: "string option"
  te_previous :: sigact
  te_installed :: bool
  te_ignored :: bool

definition no_entry :: trap_entry where
  "no_entry = \<lparr>te_action = None, te_previous = plain_action SIG_DFL, te_installed = False, te_ignored = False\<rparr>"

record csh_traps =
  ct_entries :: "nat \<Rightarrow> trap_entry"
  ct_exit_action :: "string option"
  ct_exit_inherited :: bool
  ct_child_ignored :: bool
  ct_entry_ignored :: "nat \<Rightarrow> bool"
  ct_original_ignored :: "nat \<Rightarrow> bool"

text \<open>The process: the table (\<open>None\<close>: none), whether it is the \<open>active\<close> one, the flags the handlers
  set (\<open>pending\<close>, and \<open>interrupted\<close> and \<open>hung_up\<close> of \<open>jobs.c\<close>), the kernel, allocations and descriptors.\<close>

record trap_process =
  tp_traps :: "csh_traps option"
  tp_active :: bool
  tp_pending :: "nat \<Rightarrow> bool"
  tp_interrupted :: bool
  tp_hung_up :: bool
  tp_kernel :: kernel
  tp_mallocs :: heap
  tp_stdout :: descriptor
  tp_stderr :: descriptor

definition tp_malloc :: "trap_process \<Rightarrow> bool \<times> trap_process" where
  "tp_malloc p = (case malloc (tp_mallocs p) of (b, h) \<Rightarrow> (b, p\<lparr>tp_mallocs := h\<rparr>))"

definition csh_jobs_note_signal :: "nat \<Rightarrow> trap_process \<Rightarrow> trap_process" where
  "csh_jobs_note_signal n p =
     p\<lparr>tp_interrupted := (tp_interrupted p \<or> n = SIGINT), tp_hung_up := (tp_hung_up p \<or> n = SIGHUP)\<rparr>"

definition record_signal :: "nat \<Rightarrow> trap_process \<Rightarrow> trap_process" where
  "record_signal n p =
     (let p = (if 0 < n \<and> n < TRAP_LIMIT then p\<lparr>tp_pending := (tp_pending p)(n := True)\<rparr> else p)
      in if n \<noteq> SIGHUP then csh_jobs_note_signal n p else p)"

definition preserve_child_ignore :: "csh_traps \<Rightarrow> kernel \<Rightarrow> csh_traps \<times> kernel" where
  "preserve_child_ignore tr k =
     (case sigaction_get k SIGCHLD of
        None \<Rightarrow> (tr, k)
      | Some a \<Rightarrow>
          if sa_handler a = SIG_IGN then
            (tr\<lparr>ct_child_ignored := True\<rparr>, sigaction_try k SIGCHLD (a\<lparr>sa_handler := IGNORE_CHILD, sa_nocldwait := False\<rparr>))
          else (tr, k))"

definition signal_ignored :: "kernel \<Rightarrow> nat \<Rightarrow> bool" where
  "signal_ignored k n = (case sigaction_get k n of None \<Rightarrow> False | Some a \<Rightarrow> sa_handler a = SIG_IGN)"

definition csh_traps_create :: "bool \<Rightarrow> trap_process \<Rightarrow> int \<times> trap_process" where
  "csh_traps_create interactive p =
     (if tp_active p then (-1, p)
      else
        (case tp_malloc p of
           (False, p) \<Rightarrow> (-1, p)
         | (True, p) \<Rightarrow>
             (let ignored = (\<lambda>i. 0 < i \<and> i < TRAP_LIMIT \<and> signal_ignored (tp_kernel p) i);
                  tr = \<lparr>ct_entries = (\<lambda>_. no_entry), ct_exit_action = None, ct_exit_inherited = False,
                        ct_child_ignored = False, ct_entry_ignored = (\<lambda>i. \<not> interactive \<and> ignored i),
                        ct_original_ignored = ignored\<rparr>
              in (0, p\<lparr>tp_traps := Some tr, tp_active := True,
                       tp_pending := (\<lambda>i. \<not> i < TRAP_LIMIT \<and> tp_pending p i)\<rparr>))))"

definition restore_entries :: "csh_traps \<Rightarrow> nat list \<Rightarrow> kernel \<Rightarrow> kernel" where
  "restore_entries tr is k =
     fold (\<lambda>i k. if te_installed (ct_entries tr i) then sigaction_try k i (te_previous (ct_entries tr i)) else k) is k"

definition csh_traps_destroy :: "trap_process \<Rightarrow> trap_process" where
  "csh_traps_destroy p =
     (case tp_traps p of
        None \<Rightarrow> p
      | Some tr \<Rightarrow>
          p\<lparr>tp_kernel := restore_entries tr [1..<TRAP_LIMIT] (tp_kernel p),
            tp_pending := (\<lambda>i. \<not> (0 < i \<and> i < TRAP_LIMIT) \<and> tp_pending p i),
            tp_active := False, tp_traps := None\<rparr>)"

definition csh_traps_first_pending :: "trap_process \<Rightarrow> nat" where
  "csh_traps_first_pending p =
     (if \<not> tp_active p then 0 else case find (tp_pending p) [1..<TRAP_LIMIT] of None \<Rightarrow> 0 | Some i \<Rightarrow> i)"

definition csh_traps_pending :: "trap_process \<Rightarrow> bool" where
  "csh_traps_pending p \<longleftrightarrow> csh_traps_first_pending p \<noteq> 0"

definition csh_traps_add_caught :: "csh_traps option \<Rightarrow> nat set \<Rightarrow> nat set" where
  "csh_traps_add_caught traps s =
     (case traps of
        None \<Rightarrow> s
      | Some tr \<Rightarrow>
          s \<union> set (filter (\<lambda>i. te_installed (ct_entries tr i) \<and> \<not> te_ignored (ct_entries tr i)) [1..<TRAP_LIMIT]))"

text \<open>The loop of \<open>csh_traps_take\<close> over the numbers still to look at.\<close>

fun take_loop :: "csh_traps \<Rightarrow> nat list \<Rightarrow> trap_process \<Rightarrow> int \<times> string option \<times> trap_process" where
  "take_loop tr [] p = (0, None, p)"
| "take_loop tr (i # is) p =
     (if \<not> tp_pending p i then take_loop tr is p
      else
        (case te_action (ct_entries tr i) of
           None \<Rightarrow> take_loop tr is (p\<lparr>tp_pending := (tp_pending p)(i := False)\<rparr>)
         | Some action \<Rightarrow>
             (case tp_malloc p of
                (False, p) \<Rightarrow> (-1, None, p)
              | (True, p) \<Rightarrow> (int i, Some action, p\<lparr>tp_pending := (tp_pending p)(i := False)\<rparr>))))"

definition csh_traps_take :: "trap_process \<Rightarrow> int \<times> string option \<times> trap_process" where
  "csh_traps_take p = (case tp_traps p of None \<Rightarrow> (0, None, p) | Some tr \<Rightarrow> take_loop tr [1..<TRAP_LIMIT] p)"

definition csh_traps_exit_action :: "trap_process \<Rightarrow> string option \<times> trap_process" where
  "csh_traps_exit_action p =
     (case tp_traps p of
        None \<Rightarrow> (None, p)
      | Some tr \<Rightarrow>
          (case ct_exit_action tr of
             None \<Rightarrow> (None, p)
           | Some action \<Rightarrow>
               if ct_exit_inherited tr then (None, p)
               else (case tp_malloc p of (False, p) \<Rightarrow> (None, p) | (True, p) \<Rightarrow> (Some action, p))))"

definition trap_diagnostic :: "string \<Rightarrow> string option \<Rightarrow> trap_process \<Rightarrow> trap_process" where
  "trap_diagnostic m operand p =
     p\<lparr>tp_stderr := snd (dprintf (''cshell: trap: '' @ m @
       (case operand of None \<Rightarrow> [] | Some t \<Rightarrow> '': '' @ t) @ [CHR 0x0A]) (tp_stderr p))\<rparr>"

definition trap_condition :: "kernel \<Rightarrow> string \<Rightarrow> int" where
  "trap_condition k t =
     (if t = ''EXIT'' \<or> t = ''0'' then 0
      else
        (let t = (if take 3 t = ''SIG'' then drop 3 t else t)
         in case strtol t of
              (v, rest, erange) \<Rightarrow>
                if t \<noteq> [] \<and> rest = [] \<and> \<not> erange then
                  (if v \<le> 0 \<or> int TRAP_LIMIT \<le> v then -1 else if k_known k (nat v) then v else -1)
                else
                  (let n = csh_jobs_signal_number k t in if 0 < n \<and> n < int TRAP_LIMIT then n else -1)))"

fun quote_bytes :: "string \<Rightarrow> descriptor \<Rightarrow> bool \<times> descriptor" where
  "quote_bytes [] d = (True, d)"
| "quote_bytes (c # cs) d =
     (case csh_write_bytes (if c = CHR 0x27 then [CHR 0x27, CHR 0x5C, CHR 0x27, CHR 0x27] else [c]) d of
        (False, d) \<Rightarrow> (False, d)
      | (True, d) \<Rightarrow> quote_bytes cs d)"

definition quote_action :: "string \<Rightarrow> descriptor \<Rightarrow> bool \<times> descriptor" where
  "quote_action action d =
     (case csh_write_bytes [CHR 0x27] d of
        (False, d) \<Rightarrow> (False, d)
      | (True, d) \<Rightarrow>
          (case quote_bytes action d of
             (False, d) \<Rightarrow> (False, d)
           | (True, d) \<Rightarrow> csh_write_bytes [CHR 0x27] d))"

text \<open>What \<open>list_one\<close> prints for a condition, \<open>None\<close> when it prints nothing.\<close>

definition listed_action :: "csh_traps \<Rightarrow> nat \<Rightarrow> bool \<Rightarrow> string option" where
  "listed_action tr n defaults =
     (let action = (if n = 0 then ct_exit_action tr else te_action (ct_entries tr n));
          action = (if action = None \<and> 0 < n \<and> ct_entry_ignored tr n then Some [] else action)
      in if action = None \<and> defaults then Some ''-'' else action)"

definition condition_name :: "nat \<Rightarrow> string" where
  "condition_name n =
     (if n = 0 then ''EXIT'' else case csh_jobs_signal_name n of None \<Rightarrow> show_nat n | Some name \<Rightarrow> name)"

definition print_trap :: "string \<Rightarrow> string \<Rightarrow> descriptor \<Rightarrow> bool \<times> descriptor" where
  "print_trap action name d =
     (case csh_write_bytes ''trap -- '' d of
        (False, d) \<Rightarrow> (False, d)
      | (True, d) \<Rightarrow>
          (case quote_action action d of
             (False, d) \<Rightarrow> (False, d)
           | (True, d) \<Rightarrow> dprintf ('' '' @ name @ [CHR 0x0A]) d))"

definition list_one :: "csh_traps \<Rightarrow> nat \<Rightarrow> bool \<Rightarrow> trap_process \<Rightarrow> bool \<times> trap_process" where
  "list_one tr n defaults p =
     (case listed_action tr n defaults of
        None \<Rightarrow> (False, p)
      | Some action \<Rightarrow>
          (case print_trap action (condition_name n) (tp_stdout p) of
             (True, d) \<Rightarrow> (False, p\<lparr>tp_stdout := d\<rparr>)
           | (False, d) \<Rightarrow> (True, trap_diagnostic ''cannot write output'' None (p\<lparr>tp_stdout := d\<rparr>))))"

definition put_entry :: "csh_traps \<Rightarrow> nat \<Rightarrow> trap_entry \<Rightarrow> csh_traps" where
  "put_entry tr n e = tr\<lparr>ct_entries := (ct_entries tr)(n := e)\<rparr>"

text \<open>\<open>install\<close> on a process whose table is \<open>tr\<close>; the first component is the return value.\<close>

definition install_exit :: "csh_traps \<Rightarrow> string option \<Rightarrow> trap_process \<Rightarrow> trap_process" where
  "install_exit tr action p = p\<lparr>tp_traps := Some (tr\<lparr>ct_exit_action := action, ct_exit_inherited := False\<rparr>)\<rparr>"

definition reset_signal :: "csh_traps \<Rightarrow> nat \<Rightarrow> trap_process \<Rightarrow> bool \<times> trap_process" where
  "reset_signal tr n p =
     (let e = ct_entries tr n
      in case (if te_installed e then sigaction_set (tp_kernel p) n (te_previous e) else Some (tp_kernel p)) of
           None \<Rightarrow> (True, trap_diagnostic ''cannot reset signal'' None p)
         | Some k \<Rightarrow>
             (let tr = put_entry tr n (e\<lparr>te_installed := False, te_ignored := False\<rparr>);
                  (tr, k) = (if n = SIGCHLD then preserve_child_ignore tr k else (tr, k));
                  tr = put_entry tr n ((ct_entries tr n)\<lparr>te_action := None\<rparr>)
              in (False, p\<lparr>tp_traps := Some tr, tp_kernel := k, tp_pending := (tp_pending p)(n := False)\<rparr>)))"

definition install_signal :: "csh_traps \<Rightarrow> nat \<Rightarrow> string \<Rightarrow> trap_process \<Rightarrow> bool \<times> trap_process" where
  "install_signal tr n action p =
     (let e = ct_entries tr n;
          h = (if action \<noteq> [] then RECORD_SIGNAL else if n = SIGCHLD then IGNORE_CHILD else SIG_IGN)
      in case sigaction_set (tp_kernel p) n (plain_action h) of
           None \<Rightarrow> (True, trap_diagnostic ''cannot install signal'' None p)
         | Some k \<Rightarrow>
             (let e = (if te_installed e then e else e\<lparr>te_previous := k_action (tp_kernel p) n\<rparr>);
                  e = e\<lparr>te_installed := True, te_ignored := (action = []), te_action := Some action\<rparr>
              in (False, p\<lparr>tp_traps := Some (put_entry tr n e), tp_kernel := k,
                           tp_pending := (tp_pending p)(n := False)\<rparr>)))"

definition install :: "csh_traps \<Rightarrow> nat \<Rightarrow> string option \<Rightarrow> trap_process \<Rightarrow> bool \<times> trap_process" where
  "install tr n action p =
     (case (if action = None then (True, p) else tp_malloc p) of
        (False, p) \<Rightarrow> (True, trap_diagnostic ''cannot allocate action'' None p)
      | (True, p) \<Rightarrow>
          if n = 0 then (False, install_exit tr action p)
          else if ct_entry_ignored tr n then (False, p)
          else (case action of None \<Rightarrow> reset_signal tr n p | Some a \<Rightarrow> install_signal tr n a p))"

fun list_all_loop :: "csh_traps \<Rightarrow> bool \<Rightarrow> nat list \<Rightarrow> bool \<Rightarrow> trap_process \<Rightarrow> bool \<times> trap_process" where
  "list_all_loop tr defaults [] rc p = (rc, p)"
| "list_all_loop tr defaults (i # is) rc p =
     (if i = SIGKILL \<or> i = SIGSTOP \<or> (0 < i \<and> sigaction_get (tp_kernel p) i = None) then list_all_loop tr defaults is rc p
      else (case list_one tr i defaults p of (failed, p) \<Rightarrow> list_all_loop tr defaults is (rc \<or> failed) p))"

fun list_some_loop :: "csh_traps \<Rightarrow> string list \<Rightarrow> bool \<Rightarrow> trap_process \<Rightarrow> bool \<times> trap_process" where
  "list_some_loop tr [] rc p = (rc, p)"
| "list_some_loop tr (t # ts) rc p =
     (let n = trap_condition (tp_kernel p) t
      in if n < 0 then list_some_loop tr ts True (trap_diagnostic ''invalid condition'' (Some t) p)
         else (case list_one tr (nat n) True p of (failed, p) \<Rightarrow> list_some_loop tr ts (rc \<or> failed) p))"

text \<open>The table changes from one operand to the next.\<close>

fun install_loop :: "string option \<Rightarrow> string list \<Rightarrow> bool \<Rightarrow> trap_process \<Rightarrow> bool \<times> trap_process" where
  "install_loop action [] rc p = (rc, p)"
| "install_loop action (t # ts) rc p =
     (let n = trap_condition (tp_kernel p) t
      in if n < 0 then install_loop action ts True (trap_diagnostic ''invalid condition'' (Some t) p)
         else
           (case tp_traps p of
              None \<Rightarrow> (rc, p)
            | Some tr \<Rightarrow> (case install tr (nat n) action p of (failed, p) \<Rightarrow> install_loop action ts (rc \<or> failed) p)))"

definition status_of :: "bool \<times> trap_process \<Rightarrow> int \<times> trap_process" where
  "status_of r = (if fst r then 1 else 0, snd r)"

text \<open>The arguments after the name \<open>trap\<close>.\<close>

definition csh_traps_builtin :: "string list \<Rightarrow> trap_process \<Rightarrow> int \<times> trap_process" where
  "csh_traps_builtin args p =
     (case tp_traps p of
        None \<Rightarrow> (1, trap_diagnostic ''trap table unavailable'' None p)
      | Some tr \<Rightarrow>
          (let listing = (args \<noteq> [] \<and> hd args = ''-p'')
           in if \<not> listing \<and> args \<noteq> [] \<and> hd args \<noteq> ''--'' \<and> take 1 (hd args) = ''-'' \<and> hd args \<noteq> ''-'' then
                (1, trap_diagnostic ''invalid option'' (Some (hd args)) p)
              else
                (let args = (if listing \<or> (args \<noteq> [] \<and> hd args = ''--'') then tl args else args);
                     args = (if listing \<and> args \<noteq> [] \<and> hd args = ''--'' then tl args else args)
                 in if listing \<or> args = [] then
                      status_of (if args = [] then list_all_loop tr listing [0..<TRAP_LIMIT] False p
                                 else list_some_loop tr args False p)
                    else
                      (let numeric = (hd args \<noteq> [] \<and> list_all digit (hd args));
                           action = (if numeric then ''-'' else hd args);
                           args = (if numeric then args else tl args)
                       in if args = [] then (1, trap_diagnostic ''missing condition'' None p)
                          else status_of (install_loop (if action = ''-'' then None else Some action) args False p)))))"

text \<open>One signal of the loops of \<open>csh_traps_after_fork\<close> and \<open>csh_traps_exec_signals\<close>.\<close>

definition fork_signal :: "bool \<Rightarrow> bool \<Rightarrow> nat \<Rightarrow> csh_traps \<times> kernel \<Rightarrow> csh_traps \<times> kernel" where
  "fork_signal asynchronous preserve_listing i = (\<lambda>(tr, k).
     (let e = ct_entries tr i
      in if \<not> te_installed e then (tr, k)
         else
           (let background = (asynchronous \<and> (i = SIGINT \<or> i = SIGQUIT));
                ignored = (ct_original_ignored tr i \<or> background);
                e = (if te_ignored e \<and> (ignored \<or> i \<noteq> SIGCHLD)
                     then e\<lparr>te_previous := plain_action (if ignored then SIG_IGN else SIG_DFL)\<rparr> else e);
                h = (if background then SIG_IGN
                     else if te_ignored e then (if i = SIGCHLD then IGNORE_CHILD else SIG_IGN) else SIG_DFL);
                k = sigaction_try k i (plain_action h);
                e = (if \<not> preserve_listing \<and> \<not> te_ignored e then e\<lparr>te_action := None\<rparr> else e);
                tr = (if \<not> te_ignored e \<and> i = SIGCHLD then tr\<lparr>ct_child_ignored := False\<rparr> else tr);
                e = (if \<not> te_ignored e then e\<lparr>te_installed := False\<rparr> else e)
            in (put_entry tr i e, k))))"

definition csh_traps_after_fork :: "bool \<Rightarrow> bool \<Rightarrow> trap_process \<Rightarrow> trap_process" where
  "csh_traps_after_fork asynchronous preserve_listing p =
     (case tp_traps p of
        None \<Rightarrow> p
      | Some tr \<Rightarrow>
          (let tr = (if preserve_listing then tr\<lparr>ct_exit_inherited := True\<rparr> else tr\<lparr>ct_exit_action := None\<rparr>);
               (tr, k) = fold (fork_signal asynchronous preserve_listing) [1..<TRAP_LIMIT] (tr, tp_kernel p);
               (tr, k) = preserve_child_ignore tr k
           in p\<lparr>tp_active := True, tp_traps := Some tr, tp_kernel := k,
                tp_pending := (\<lambda>i. \<not> (0 < i \<and> i < TRAP_LIMIT) \<and> tp_pending p i)\<rparr>))"

definition exec_signal :: "csh_traps \<Rightarrow> bool \<Rightarrow> nat \<Rightarrow> kernel \<Rightarrow> kernel" where
  "exec_signal tr recover i k =
     (let e = ct_entries tr i
      in if \<not> te_installed e then
           (if i = SIGCHLD \<and> ct_child_ignored tr
            then sigaction_try k i (plain_action (if recover then IGNORE_CHILD else SIG_IGN)) else k)
         else if \<not> recover \<and> (i = SIGINT \<or> i = SIGQUIT) \<and> signal_ignored k i then k
         else
           sigaction_try k i (plain_action
             (if te_ignored e then (if recover \<and> i = SIGCHLD then IGNORE_CHILD else SIG_IGN)
              else if recover then RECORD_SIGNAL else SIG_DFL)))"

definition csh_traps_exec_signals :: "bool \<Rightarrow> trap_process \<Rightarrow> trap_process" where
  "csh_traps_exec_signals recover p =
     (case tp_traps p of
        None \<Rightarrow> p
      | Some tr \<Rightarrow> p\<lparr>tp_kernel := fold (exec_signal tr recover) [1..<TRAP_LIMIT] (tp_kernel p)\<rparr>)"

end
