(* ===== verification/Traps_Facts.thy ===== *)
theory Traps_Facts
  imports Traps
begin

text \<open>
  What the trap table guarantees: the invariant that ties it to the dispositions of the process, kept by
  every operation in any order, the dispositions a command inherits, delivery of pending signals,
  the listing that can be read back, and resetting.
\<close>

subsection \<open>The invariant\<close>

text \<open>\<open>shell_handler k ci i h\<close>: no handler of the shell is left where it has no trap, except the no-op
  that stands for an ignored \<open>SIGCHLD\<close>.\<close>

definition untrapped :: "bool \<Rightarrow> nat \<Rightarrow> handler \<Rightarrow> bool" where
  "untrapped child_ignored i h \<longleftrightarrow> h \<noteq> RECORD_SIGNAL \<and> (h = IGNORE_CHILD \<longrightarrow> i = SIGCHLD \<and> child_ignored)"

definition trap_handler :: "nat \<Rightarrow> trap_entry \<Rightarrow> handler" where
  "trap_handler i e = (if \<not> te_ignored e then RECORD_SIGNAL else if i = SIGCHLD then IGNORE_CHILD else SIG_IGN)"

definition installed_ok :: "csh_traps \<Rightarrow> kernel \<Rightarrow> nat \<Rightarrow> bool" where
  "installed_ok tr k i \<longleftrightarrow>
     (let e = ct_entries tr i
      in 0 < i \<and> i < TRAP_LIMIT \<and> k_known k i \<and> \<not> k_fixed k i \<and> \<not> ct_entry_ignored tr i \<and>
         (\<exists>a. te_action e = Some a \<and> (te_ignored e \<longleftrightarrow> a = [])) \<and>
         k_action k i = plain_action (trap_handler i e) \<and>
         untrapped (ct_child_ignored tr) i (sa_handler (te_previous e)) \<and>
         (i = SIGCHLD \<and> ct_child_ignored tr \<longrightarrow> sa_handler (te_previous e) \<in> {SIG_IGN, IGNORE_CHILD}))"

definition free_ok :: "csh_traps \<Rightarrow> kernel \<Rightarrow> nat \<Rightarrow> bool" where
  "free_ok tr k i \<longleftrightarrow>
     \<not> te_ignored (ct_entries tr i) \<and> untrapped (ct_child_ignored tr) i (sa_handler (k_action k i)) \<and>
     (i = SIGCHLD \<and> ct_child_ignored tr \<longrightarrow> sa_handler (k_action k i) = IGNORE_CHILD)"

definition entry_ok :: "csh_traps \<Rightarrow> kernel \<Rightarrow> nat \<Rightarrow> bool" where
  "entry_ok tr k i \<longleftrightarrow>
     (if te_installed (ct_entries tr i) then installed_ok tr k i else free_ok tr k i) \<and>
     (ct_entry_ignored tr i \<and> i \<noteq> SIGCHLD \<longrightarrow> sa_handler (k_action k i) = SIG_IGN)"

definition kernel_ok :: "kernel \<Rightarrow> bool" where
  "kernel_ok k \<longleftrightarrow> k_known k SIGCHLD \<and> \<not> k_fixed k SIGCHLD"

definition table_ok :: "csh_traps \<Rightarrow> kernel \<Rightarrow> bool" where
  "table_ok tr k \<longleftrightarrow> kernel_ok k \<and> (\<forall>i. entry_ok tr k i)"

definition caught :: "csh_traps \<Rightarrow> nat \<Rightarrow> bool" where
  "caught tr i \<longleftrightarrow> te_installed (ct_entries tr i) \<and> \<not> te_ignored (ct_entries tr i)"

definition pending_ok :: "csh_traps \<Rightarrow> (nat \<Rightarrow> bool) \<Rightarrow> bool" where
  "pending_ok tr pend \<longleftrightarrow> (\<forall>i. pend i \<longrightarrow> caught tr i)"

definition traps_ok :: "trap_process \<Rightarrow> bool" where
  "traps_ok p \<longleftrightarrow> tp_active p \<and> (\<exists>tr. tp_traps p = Some tr \<and> table_ok tr (tp_kernel p) \<and> pending_ok tr (tp_pending p))"

lemma table_okI: "kernel_ok k \<Longrightarrow> (\<And>i. entry_ok tr k i) \<Longrightarrow> table_ok tr k"
  by (simp add: table_ok_def)

lemma entry_ok_cong:
  "ct_entries tr i = ct_entries tr' i \<Longrightarrow> k_action k i = k_action k' i \<Longrightarrow> k_known k = k_known k' \<Longrightarrow> k_fixed k = k_fixed k' \<Longrightarrow>
   ct_entry_ignored tr = ct_entry_ignored tr' \<Longrightarrow> i \<noteq> SIGCHLD \<or> ct_child_ignored tr = ct_child_ignored tr' \<Longrightarrow>
   entry_ok tr k i \<longleftrightarrow> entry_ok tr' k' i"
  by (auto simp: entry_ok_def installed_ok_def free_ok_def Let_def untrapped_def)

text \<open>What one step does at its own signal decides whether the table stays well-formed.\<close>

definition same_elsewhere :: "nat \<Rightarrow> csh_traps \<times> kernel \<Rightarrow> csh_traps \<times> kernel \<Rightarrow> bool" where
  "same_elsewhere n = (\<lambda>(tr, k) (tr', k').
     (\<forall>i. i \<noteq> n \<longrightarrow> ct_entries tr' i = ct_entries tr i \<and> k_action k' i = k_action k i) \<and>
     k_known k' = k_known k \<and> k_fixed k' = k_fixed k \<and> ct_entry_ignored tr' = ct_entry_ignored tr \<and>
     (n \<noteq> SIGCHLD \<longrightarrow> ct_child_ignored tr' = ct_child_ignored tr))"

lemma table_ok_step:
  assumes "table_ok tr k" and "same_elsewhere n (tr, k) (tr', k')" and "entry_ok tr' k' n"
  shows "table_ok tr' k'"
proof -
  have "entry_ok tr' k' i" for i
  proof (cases "i = n")
    case False
    with assms(2) have "entry_ok tr' k' i \<longleftrightarrow> entry_ok tr k i"
      by (intro entry_ok_cong) (auto simp: same_elsewhere_def)
    with assms(1) show ?thesis by (simp add: table_ok_def)
  qed (use assms(3) in simp)
  with assms show ?thesis by (simp add: table_ok_def kernel_ok_def same_elsewhere_def)
qed

lemma sigaction_try_simps [simp]:
  "k_known (sigaction_try k n a) = k_known k" "k_fixed (sigaction_try k n a) = k_fixed k"
  "k_action (sigaction_try k n a) i =
     (if i = n \<and> k_known k n \<and> \<not> k_fixed k n then a else k_action k i)"
  by (auto simp: sigaction_try_def sigaction_set_def)

lemma sigaction_set_Some:
  "sigaction_set k n a = Some k' \<longleftrightarrow> k_known k n \<and> \<not> k_fixed k n \<and> k' = k\<lparr>k_action := (k_action k)(n := a)\<rparr>"
  by (auto simp: sigaction_set_def)

lemma plain_action_simps [simp]: "sa_handler (plain_action h) = h" "plain_action h = plain_action h' \<longleftrightarrow> h = h'"
  by (auto simp: plain_action_def)

lemma put_entry_simps [simp]:
  "ct_entries (put_entry tr n e) i = (if i = n then e else ct_entries tr i)"
  "ct_entry_ignored (put_entry tr n e) = ct_entry_ignored tr" "ct_child_ignored (put_entry tr n e) = ct_child_ignored tr"
  "ct_original_ignored (put_entry tr n e) = ct_original_ignored tr" "ct_exit_action (put_entry tr n e) = ct_exit_action tr"
  by (simp_all add: put_entry_def)

lemmas entry_ok_defs = entry_ok_def installed_ok_def free_ok_def untrapped_def trap_handler_def Let_def

lemma table_ok_kernel: "table_ok tr k \<Longrightarrow> k_known k SIGCHLD \<and> \<not> k_fixed k SIGCHLD"
  by (simp add: table_ok_def kernel_ok_def)

lemma table_ok_entry: "table_ok tr k \<Longrightarrow> entry_ok tr k i"
  by (simp add: table_ok_def)

lemma table_ok_exit:
  "table_ok (tr\<lparr>ct_exit_action := a\<rparr>) k \<longleftrightarrow> table_ok tr k" "table_ok (tr\<lparr>ct_exit_inherited := b\<rparr>) k \<longleftrightarrow> table_ok tr k"
  by (simp_all add: table_ok_def entry_ok_defs)

subsection \<open>Every operation keeps it\<close>

lemma preserve_child_ok:
  assumes "kernel_ok k" and "\<And>i. i \<noteq> SIGCHLD \<Longrightarrow> entry_ok tr k i"
    and "entry_ok tr k SIGCHLD \<or> (\<not> te_installed (ct_entries tr SIGCHLD) \<and> \<not> te_ignored (ct_entries tr SIGCHLD) \<and>
      sa_handler (k_action k SIGCHLD) = SIG_IGN)"
  shows "case preserve_child_ignore tr k of (tr', k') \<Rightarrow> table_ok tr' k'"
proof -
  obtain tr' k' where p: "preserve_child_ignore tr k = (tr', k')" by (cases "preserve_child_ignore tr k")
  have known: "k_known k SIGCHLD" "\<not> k_fixed k SIGCHLD" using assms(1) by (auto simp: kernel_ok_def)
  then have get: "sigaction_get k SIGCHLD = Some (k_action k SIGCHLD)" by (simp add: sigaction_get_def)
  show ?thesis
  proof (cases "sa_handler (k_action k SIGCHLD) = SIG_IGN")
    case True
    then have e: "tr' = tr\<lparr>ct_child_ignored := True\<rparr>"
      "k' = sigaction_try k SIGCHLD ((k_action k SIGCHLD)\<lparr>sa_handler := IGNORE_CHILD, sa_nocldwait := False\<rparr>)"
      using p get by (auto simp: preserve_child_ignore_def)
    have "\<not> te_installed (ct_entries tr SIGCHLD)"
      using assms(3) True by (auto simp: entry_ok_defs split: if_splits)
    then have c: "entry_ok tr' k' SIGCHLD" using assms(3) True known e by (auto simp: entry_ok_defs)
    have "entry_ok tr' k' i" for i
    proof (cases "i = SIGCHLD")
      case False
      then have "entry_ok tr' k' i \<longleftrightarrow> entry_ok tr k i" unfolding e by (intro entry_ok_cong) auto
      with assms(2) False show ?thesis by simp
    qed (use c in simp)
    moreover have "kernel_ok k'" using assms(1) e by (simp add: kernel_ok_def)
    ultimately show ?thesis using p table_okI [of k' tr'] by simp
  next
    case False
    then have "tr' = tr" "k' = k" using p get by (auto simp: preserve_child_ignore_def)
    moreover have "entry_ok tr k i" for i using assms(2,3) False by (cases "i = SIGCHLD") auto
    ultimately show ?thesis using p table_okI [OF assms(1), of tr] by simp
  qed
qed

lemma trap_diagnostic_simps [simp]:
  "tp_traps (trap_diagnostic m t p) = tp_traps p" "tp_active (trap_diagnostic m t p) = tp_active p"
  "tp_pending (trap_diagnostic m t p) = tp_pending p" "tp_kernel (trap_diagnostic m t p) = tp_kernel p"
  "tp_mallocs (trap_diagnostic m t p) = tp_mallocs p" "tp_stdout (trap_diagnostic m t p) = tp_stdout p"
  by (simp_all add: trap_diagnostic_def)

lemma traps_ok_cong:
  "tp_traps p = tp_traps q \<Longrightarrow> tp_active p = tp_active q \<Longrightarrow> tp_pending p = tp_pending q \<Longrightarrow> tp_kernel p = tp_kernel q \<Longrightarrow>
   traps_ok p \<longleftrightarrow> traps_ok q"
  by (simp add: traps_ok_def)

lemma traps_ok_diagnostic [simp]: "traps_ok (trap_diagnostic m t p) \<longleftrightarrow> traps_ok p"
  by (rule traps_ok_cong) simp_all

lemma tp_malloc_kept:
  "tp_malloc p = (b, q) \<Longrightarrow>
   tp_traps q = tp_traps p \<and> tp_active q = tp_active p \<and> tp_pending q = tp_pending p \<and> tp_kernel q = tp_kernel p \<and>
   tp_stdout q = tp_stdout p"
  by (auto simp: tp_malloc_def split: prod.splits)

lemma traps_ok_malloc: "tp_malloc p = (b, q) \<Longrightarrow> traps_ok q \<longleftrightarrow> traps_ok p"
  using tp_malloc_kept [of p b q] by (intro traps_ok_cong) auto

lemma pending_ok_step:
  "pending_ok tr pend \<Longrightarrow> (\<And>i. i \<noteq> n \<Longrightarrow> ct_entries tr' i = ct_entries tr i) \<Longrightarrow> pending_ok tr' (pend(n := False))"
  by (auto simp: pending_ok_def caught_def)

lemma install_signal_ok:
  assumes ok: "traps_ok p" and tr: "tp_traps p = Some tr" and n: "0 < n" "n < TRAP_LIMIT"
    and free: "\<not> ct_entry_ignored tr n" and run: "install_signal tr n a p = (failed, p')"
  shows "traps_ok p'"
proof (cases failed)
  case True
  with run have "p' = trap_diagnostic ''cannot install signal'' None p"
    by (auto simp: install_signal_def Let_def split: option.splits)
  with ok show ?thesis by simp
next
  case False
  define e where "e = (if te_installed (ct_entries tr n) then ct_entries tr n
    else (ct_entries tr n)\<lparr>te_previous := k_action (tp_kernel p) n\<rparr>)
      \<lparr>te_installed := True, te_ignored := (a = []), te_action := Some a\<rparr>"
  obtain k where k: "sigaction_set (tp_kernel p) n (plain_action (trap_handler n e)) = Some k"
    and p': "p' = p\<lparr>tp_traps := Some (put_entry tr n e), tp_kernel := k, tp_pending := (tp_pending p)(n := False)\<rparr>"
    using run False by (auto simp: install_signal_def Let_def e_def trap_handler_def split: option.splits)
  have t: "table_ok tr (tp_kernel p)" and pend: "pending_ok tr (tp_pending p)" and act: "tp_active p"
    using ok tr by (auto simp: traps_ok_def)
  note k = k [unfolded sigaction_set_Some]
  have "same_elsewhere n (tr, tp_kernel p) (put_entry tr n e, k)" using k by (auto simp: same_elsewhere_def)
  moreover have "entry_ok (put_entry tr n e) k n"
    using table_ok_entry [OF t, of n] k n free
    by (cases "te_installed (ct_entries tr n)") (auto simp: entry_ok_defs e_def)
  ultimately have "table_ok (put_entry tr n e) k" by (rule table_ok_step [OF t])
  moreover have "pending_ok (put_entry tr n e) ((tp_pending p)(n := False))" by (rule pending_ok_step [OF pend]) simp
  ultimately show ?thesis using p' act by (simp add: traps_ok_def)
qed

lemma reset_signal_ok:
  assumes ok: "traps_ok p" and tr: "tp_traps p = Some tr" and run: "reset_signal tr n p = (failed, p')"
    and free: "\<not> ct_entry_ignored tr n"
  shows "traps_ok p'"
proof (cases failed)
  case True
  with run have "p' = trap_diagnostic ''cannot reset signal'' None p"
    by (auto simp: reset_signal_def Let_def split: option.splits if_splits prod.splits)
  with ok show ?thesis by simp
next
  case False
  define e where "e = (ct_entries tr n)\<lparr>te_installed := False, te_ignored := False\<rparr>"
  have t: "table_ok tr (tp_kernel p)" and pend: "pending_ok tr (tp_pending p)" and act: "tp_active p"
    using ok tr by (auto simp: traps_ok_def)
  obtain k where k: "(if te_installed (ct_entries tr n) then sigaction_set (tp_kernel p) n (te_previous (ct_entries tr n))
      else Some (tp_kernel p)) = Some k" and
    p': "p' = (case if n = SIGCHLD then preserve_child_ignore (put_entry tr n e) k else (put_entry tr n e, k) of
      (tr, k) \<Rightarrow> p\<lparr>tp_traps := Some (put_entry tr n ((ct_entries tr n)\<lparr>te_action := None\<rparr>)), tp_kernel := k,
        tp_pending := (tp_pending p)(n := False)\<rparr>)"
    using run False by (auto simp: reset_signal_def Let_def e_def split: option.splits if_splits prod.splits)
  have others: "i \<noteq> n \<Longrightarrow> entry_ok (put_entry tr n e) k i" for i
    using k table_ok_entry [OF t, of i] entry_ok_cong [of "put_entry tr n e" i tr k "tp_kernel p"]
    by (auto simp: sigaction_set_Some split: if_splits)
  have kok: "kernel_ok k" using k t by (auto simp: sigaction_set_Some table_ok_def kernel_ok_def split: if_splits)
  have here: "entry_ok (put_entry tr n e) k n \<or> (n = SIGCHLD \<and> sa_handler (k_action k SIGCHLD) = SIG_IGN)"
    using table_ok_entry [OF t, of n] k free
    by (cases "te_installed (ct_entries tr n)") (auto simp: entry_ok_defs e_def sigaction_set_Some)
  obtain tr1 k1 where s: "(if n = SIGCHLD then preserve_child_ignore (put_entry tr n e) k else (put_entry tr n e, k)) = (tr1, k1)"
    by (metis surj_pair)
  have "table_ok tr1 k1"
  proof (cases "n = SIGCHLD")
    case True
    with preserve_child_ok [OF kok, of "put_entry tr n e"] others here s show ?thesis by (auto simp: e_def)
  next
    case f: False
    have "entry_ok (put_entry tr n e) k i" for i using others here f by (cases "i = n") auto
    with f s table_okI [OF kok] show ?thesis by auto
  qed
  have en: "ct_entries tr1 = ct_entries (put_entry tr n e)"
    using s by (auto simp: preserve_child_ignore_def split: if_splits option.splits)
  then have "\<not> te_installed (ct_entries tr1 n)" by (simp add: e_def)
  with \<open>table_ok tr1 k1\<close> have "entry_ok (put_entry tr1 n ((ct_entries tr1 n)\<lparr>te_action := None\<rparr>)) k1 n"
    using table_ok_entry [of tr1 k1 n] by (auto simp: entry_ok_defs)
  then have "table_ok (put_entry tr1 n ((ct_entries tr1 n)\<lparr>te_action := None\<rparr>)) k1"
    by (rule table_ok_step [OF \<open>table_ok tr1 k1\<close>, rotated]) (auto simp: same_elsewhere_def)
  moreover have "pending_ok (put_entry tr1 n ((ct_entries tr1 n)\<lparr>te_action := None\<rparr>)) ((tp_pending p)(n := False))"
    by (rule pending_ok_step [OF pend]) (simp add: en)
  ultimately show ?thesis using p' s act by (simp add: traps_ok_def)
qed

lemma install_ok:
  assumes "traps_ok p" and "tp_traps p = Some tr" and "n < TRAP_LIMIT" and "install tr n action p = (failed, p')"
  shows "traps_ok p'"
proof -
  obtain b q where q: "(if action = None then (True, p) else tp_malloc p) = (b, q)" by (metis surj_pair)
  have same: "traps_ok q" "tp_traps q = Some tr"
    using q assms(1,2) traps_ok_malloc [of p b q] tp_malloc_kept [of p b q] by (auto split: if_splits)
  note run = assms(4) [unfolded install_def q]
  show ?thesis
  proof (cases "b \<and> n \<noteq> 0 \<and> \<not> ct_entry_ignored tr n")
    case True
    with run same assms(3) install_signal_ok [OF same, of n _ failed p'] reset_signal_ok [OF same, of n failed p'] show ?thesis
      by (auto split: option.splits)
  next
    case False
    have "traps_ok (install_exit tr action q)" using same
      by (auto simp: traps_ok_def install_exit_def table_ok_exit pending_ok_def caught_def)
    with run same False show ?thesis by (auto split: bool.splits if_splits)
  qed
qed

lemma trap_condition_bound: "0 \<le> trap_condition k t \<Longrightarrow> nat (trap_condition k t) < TRAP_LIMIT"
proof -
  have "trap_condition k t < int TRAP_LIMIT" by (simp add: trap_condition_def Let_def TRAP_LIMIT_def split: prod.split)
  then show "0 \<le> trap_condition k t \<Longrightarrow> ?thesis" by simp
qed

lemma install_loop_ok: "install_loop action ts rc p = (rc', p') \<Longrightarrow> traps_ok p \<Longrightarrow> traps_ok p'"
proof (induction action ts rc p arbitrary: p' rule: install_loop.induct)
  case (2 action t ts rc p)
  let ?n = "trap_condition (tp_kernel p) t"
  obtain tr where tr: "tp_traps p = Some tr" using 2(4) by (auto simp: traps_ok_def)
  show ?case
  proof (cases "?n < 0")
    case True
    with 2(1) [OF refl True] 2(3,4) show ?thesis by (simp add: Let_def)
  next
    case False
    obtain f q where i: "install tr (nat ?n) action p = (f, q)" by (cases "install tr (nat ?n) action p")
    have "traps_ok q" using install_ok [OF 2(4) tr _ i] trap_condition_bound [of "tp_kernel p" t] False by simp
    moreover have "install_loop action ts (rc \<or> f) q = (rc', p')" using 2(3) False tr i by (simp add: Let_def)
    ultimately show ?thesis using 2(2) [OF refl False tr i [symmetric]] by simp
  qed
qed simp

lemma list_one_kept:
  "list_one tr n defaults p = (f, q) \<Longrightarrow>
   tp_traps q = tp_traps p \<and> tp_active q = tp_active p \<and> tp_pending q = tp_pending p \<and> tp_kernel q = tp_kernel p"
  by (auto simp: list_one_def split: option.splits prod.splits bool.splits)

lemma list_all_kept:
  "list_all_loop tr defaults is rc p = (rc', q) \<Longrightarrow>
   tp_traps q = tp_traps p \<and> tp_active q = tp_active p \<and> tp_pending q = tp_pending p \<and> tp_kernel q = tp_kernel p"
  by (induction tr defaults "is" rc p rule: list_all_loop.induct)
    (auto split: if_splits prod.splits dest!: list_one_kept)

lemma list_some_kept:
  "list_some_loop tr ts rc p = (rc', q) \<Longrightarrow>
   tp_traps q = tp_traps p \<and> tp_active q = tp_active p \<and> tp_pending q = tp_pending p \<and> tp_kernel q = tp_kernel p"
  by (induction tr ts rc p rule: list_some_loop.induct)
    (auto simp: Let_def split: if_splits prod.splits dest!: list_one_kept)

lemma status_of_ok: "(\<And>rc q. r = (rc, q) \<Longrightarrow> traps_ok q) \<Longrightarrow> traps_ok (snd (status_of r))"
  by (cases r) (simp add: status_of_def)

lemma builtin_ok:
  assumes "traps_ok p"
  shows "traps_ok (snd (csh_traps_builtin args p))"
proof -
  obtain tr where tr: "tp_traps p = Some tr" using assms by (auto simp: traps_ok_def)
  have all: "traps_ok (snd (status_of (list_all_loop tr d is rc p)))" for d "is" rc
    using list_all_kept traps_ok_cong assms by (intro status_of_ok) metis
  have some: "traps_ok (snd (status_of (list_some_loop tr ts rc p)))" for ts rc
    using list_some_kept traps_ok_cong assms by (intro status_of_ok) metis
  have install: "traps_ok (snd (status_of (install_loop a ts rc p)))" for a ts rc
    using install_loop_ok [OF _ assms] by (intro status_of_ok)
  show ?thesis using assms all some install
    unfolding csh_traps_builtin_def tr option.case Let_def by simp
qed

lemma record_signal_ok:
  assumes "traps_ok p" and "sa_handler (k_action (tp_kernel p) n) = RECORD_SIGNAL"
  shows "traps_ok (record_signal n p)"
proof -
  obtain tr where tr: "tp_traps p = Some tr" and t: "table_ok tr (tp_kernel p)" and pend: "pending_ok tr (tp_pending p)"
    and act: "tp_active p" using assms(1) by (auto simp: traps_ok_def)
  have "caught tr n" using table_ok_entry [OF t, of n] assms(2) by (auto simp: entry_ok_defs caught_def split: if_splits)
  then have "pending_ok tr ((tp_pending p)(n := True))" using pend by (auto simp: pending_ok_def)
  with tr t act pend show ?thesis by (auto simp: traps_ok_def record_signal_def csh_jobs_note_signal_def Let_def)
qed

lemma take_loop_kept:
  "take_loop tr is p = (n, a, q) \<Longrightarrow>
   tp_traps q = tp_traps p \<and> tp_active q = tp_active p \<and> tp_kernel q = tp_kernel p \<and> (\<forall>i. tp_pending q i \<longrightarrow> tp_pending p i)"
proof (induction "is" arbitrary: p)
  case (Cons i "is")
  show ?case
  proof (cases "tp_pending p i")
    case False
    with Cons show ?thesis by simp
  next
    case pend: True
    show ?thesis
    proof (cases "te_action (ct_entries tr i)")
      case None
      with pend Cons.prems Cons.IH [of "p\<lparr>tp_pending := (tp_pending p)(i := False)\<rparr>"] show ?thesis
        by (auto split: if_splits)
    next
      case (Some x)
      obtain b p1 where m: "tp_malloc p = (b, p1)" by (cases "tp_malloc p")
      from tp_malloc_kept [OF m] Cons.prems pend Some m show ?thesis by (cases b) (auto split: if_splits)
    qed
  qed
qed simp

lemma take_ok: "traps_ok p \<Longrightarrow> traps_ok (snd (snd (csh_traps_take p)))"
proof -
  assume ok: "traps_ok p"
  then obtain tr where tr: "tp_traps p = Some tr" by (auto simp: traps_ok_def)
  obtain n a q where q: "take_loop tr [1..<TRAP_LIMIT] p = (n, a, q)" by (metis surj_pair)
  from take_loop_kept [OF this] ok tr q show ?thesis by (auto simp: traps_ok_def csh_traps_take_def pending_ok_def)
qed

lemma fork_caught:
  assumes "caught tr i"
  obtains h e where "fork_signal a l i (tr, k) =
      (put_entry (if i = SIGCHLD then tr\<lparr>ct_child_ignored := False\<rparr> else tr) i e, sigaction_try k i (plain_action h))"
    and "h = SIG_DFL \<or> (h = SIG_IGN \<and> a \<and> (i = SIGINT \<or> i = SIGQUIT))" and "\<not> te_installed e" and "\<not> te_ignored e"
    and "te_action e = (if l then te_action (ct_entries tr i) else None)"
proof -
  have e: "te_installed (ct_entries tr i) = True" "te_ignored (ct_entries tr i) = False"
    using assms by (simp_all add: caught_def)
  let ?e = "(if l then ct_entries tr i else (ct_entries tr i)\<lparr>te_action := None\<rparr>)\<lparr>te_installed := False\<rparr>"
    and ?h = "if a \<and> (i = SIGINT \<or> i = SIGQUIT) then SIG_IGN else SIG_DFL"
  have "fork_signal a l i (tr, k) =
      (put_entry (if i = SIGCHLD then tr\<lparr>ct_child_ignored := False\<rparr> else tr) i ?e, sigaction_try k i (plain_action ?h))"
    using e by (cases l; cases "a \<and> (i = SIGINT \<or> i = SIGQUIT)"; cases "i = SIGCHLD")
      (auto simp: fork_signal_def Let_def signal_numbers)
  then show ?thesis by (rule that) (use e in auto)
qed

lemma fork_ignored:
  assumes "te_installed (ct_entries tr i)" and "te_ignored (ct_entries tr i)"
  obtains pv where "fork_signal a l i (tr, k) =
      (put_entry tr i ((ct_entries tr i)\<lparr>te_previous := pv\<rparr>), sigaction_try k i (plain_action (trap_handler i (ct_entries tr i))))"
    and "pv = te_previous (ct_entries tr i) \<or> pv = plain_action SIG_IGN \<or> (pv = plain_action SIG_DFL \<and> i \<noteq> SIGCHLD)"
proof -
  let ?e = "ct_entries tr i" and ?b = "a \<and> (i = SIGINT \<or> i = SIGQUIT)"
  let ?pv = "if ct_original_ignored tr i \<or> ?b then plain_action SIG_IGN
    else if i \<noteq> SIGCHLD then plain_action SIG_DFL else te_previous ?e"
  have h: "(if ?b then SIG_IGN else if i = SIGCHLD then IGNORE_CHILD else SIG_IGN) = trap_handler i ?e"
    using assms(2) by (auto simp: trap_handler_def signal_numbers)
  have "fork_signal a l i (tr, k) = (put_entry tr i (?e\<lparr>te_previous := ?pv\<rparr>), sigaction_try k i (plain_action (trap_handler i ?e)))"
    using assms unfolding h [symmetric] by (cases ?b; cases "ct_original_ignored tr i"; cases "i = SIGCHLD") (auto simp: fork_signal_def Let_def signal_numbers)
  then show ?thesis by (rule that) simp
qed

lemma fork_signal_ok:
  assumes "table_ok tr k" and "fork_signal a l i (tr, k) = (tr', k')"
  shows "table_ok tr' k'"
proof (cases "te_installed (ct_entries tr i)")
  case True
  note here = table_ok_entry [OF assms(1), of i]
  show ?thesis
  proof (cases "te_ignored (ct_entries tr i)")
    case ign: True
    obtain pv where e: "tr' = put_entry tr i ((ct_entries tr i)\<lparr>te_previous := pv\<rparr>)"
      "k' = sigaction_try k i (plain_action (trap_handler i (ct_entries tr i)))"
      and pv: "pv = te_previous (ct_entries tr i) \<or> pv = plain_action SIG_IGN \<or> (pv = plain_action SIG_DFL \<and> i \<noteq> SIGCHLD)"
      by (rule fork_ignored [OF True ign, of a l k]) (use assms(2) in simp)
    have "same_elsewhere i (tr, k) (tr', k')" unfolding e by (auto simp: same_elsewhere_def)
    moreover have "entry_ok tr' k' i" using here True ign pv unfolding e
      by (cases "i = SIGCHLD") (auto simp: entry_ok_defs)
    ultimately show ?thesis by (rule table_ok_step [OF assms(1)])
  next
    case False
    then have c: "caught tr i" using True by (simp add: caught_def)
    obtain h e where e: "tr' = put_entry (if i = SIGCHLD then tr\<lparr>ct_child_ignored := False\<rparr> else tr) i e"
      "k' = sigaction_try k i (plain_action h)" "h = SIG_DFL \<or> h = SIG_IGN" "\<not> te_installed e" "\<not> te_ignored e"
      by (rule fork_caught [OF c, of a l k]) (use assms(2) in auto)
    have "same_elsewhere i (tr, k) (tr', k')" unfolding e by (auto simp: same_elsewhere_def)
    moreover have "entry_ok tr' k' i" using here True e(3-) unfolding e(1,2) by (auto simp: entry_ok_defs)
    ultimately show ?thesis by (rule table_ok_step [OF assms(1)])
  qed
qed (use assms in \<open>simp add: fork_signal_def Let_def\<close>)

lemma fork_fold_ok:
  "table_ok tr k \<Longrightarrow> fold (fork_signal a l) is (tr, k) = (tr', k') \<Longrightarrow> table_ok tr' k'"
proof (induction "is" arbitrary: tr k)
  case (Cons i "is")
  obtain tr1 k1 where s: "fork_signal a l i (tr, k) = (tr1, k1)" by (cases "fork_signal a l i (tr, k)")
  from Cons fork_signal_ok [OF Cons.prems(1) s] s show ?case by simp
qed simp

lemma after_fork_ok:
  assumes "traps_ok p"
  shows "traps_ok (csh_traps_after_fork a l p)"
proof -
  obtain tr where tr: "tp_traps p = Some tr" and t: "table_ok tr (tp_kernel p)" and pend: "pending_ok tr (tp_pending p)"
    and act: "tp_active p" using assms by (auto simp: traps_ok_def)
  define tr0 where "tr0 = (if l then tr\<lparr>ct_exit_inherited := True\<rparr> else tr\<lparr>ct_exit_action := None\<rparr>)"
  obtain tr1 k1 where f: "fold (fork_signal a l) [1..<TRAP_LIMIT] (tr0, tp_kernel p) = (tr1, k1)"
    by (metis surj_pair)
  obtain tr2 k2 where c: "preserve_child_ignore tr1 k1 = (tr2, k2)" by (metis surj_pair)
  have "table_ok tr0 (tp_kernel p)" using t by (simp add: tr0_def table_ok_exit)
  from fork_fold_ok [OF this f] have t1: "table_ok tr1 k1" .
  then have "table_ok tr2 k2"
    using preserve_child_ok [of k1 tr1] c by (simp add: table_ok_def)
  moreover have "\<not> tp_pending p i" if "\<not> (0 < i \<and> i < TRAP_LIMIT)" for i
    using that pend table_ok_entry [OF t, of i] by (auto simp: pending_ok_def caught_def entry_ok_defs)
  then have "pending_ok tr2 (\<lambda>i. \<not> (0 < i \<and> i < TRAP_LIMIT) \<and> tp_pending p i)"
    unfolding pending_ok_def by blast
  moreover have "csh_traps_after_fork a l p = p\<lparr>tp_active := True, tp_traps := Some tr2, tp_kernel := k2,
      tp_pending := (\<lambda>i. \<not> (0 < i \<and> i < TRAP_LIMIT) \<and> tp_pending p i)\<rparr>"
    unfolding csh_traps_after_fork_def tr option.case Let_def tr0_def [symmetric] f prod.case c ..
  ultimately show ?thesis by (simp add: traps_ok_def)
qed

subsection \<open>Around exec\<close>

definition exec_handler :: "csh_traps \<Rightarrow> bool \<Rightarrow> nat \<Rightarrow> handler" where
  "exec_handler tr recover i =
     (if te_installed (ct_entries tr i) then
        (if te_ignored (ct_entries tr i) then (if recover \<and> i = SIGCHLD then IGNORE_CHILD else SIG_IGN)
         else if recover then RECORD_SIGNAL else SIG_DFL)
      else if recover then IGNORE_CHILD else SIG_IGN)"

definition exec_touches :: "csh_traps \<Rightarrow> nat \<Rightarrow> bool" where
  "exec_touches tr i \<longleftrightarrow> te_installed (ct_entries tr i) \<or> (i = SIGCHLD \<and> ct_child_ignored tr)"

lemma exec_signal_kept [simp]:
  "k_known (exec_signal tr r i k) = k_known k" "k_fixed (exec_signal tr r i k) = k_fixed k"
  "j \<noteq> i \<Longrightarrow> k_action (exec_signal tr r i k) j = k_action k j"
  by (auto simp: exec_signal_def Let_def)

lemma exec_signal_here:
  assumes "exec_touches tr i \<Longrightarrow> k_known k i \<and> \<not> k_fixed k i"
    and "\<not> r \<and> (i = SIGINT \<or> i = SIGQUIT) \<and> te_installed (ct_entries tr i) \<and> \<not> te_ignored (ct_entries tr i) \<Longrightarrow>
      sa_handler (k_action k i) \<noteq> SIG_IGN"
    and "te_installed (ct_entries tr i) \<Longrightarrow> k_action k i = plain_action (trap_handler i (ct_entries tr i)) \<or> r"
  shows "k_action (exec_signal tr r i k) i = (if exec_touches tr i then plain_action (exec_handler tr r i) else k_action k i)"
  using assms
  by (cases "te_installed (ct_entries tr i)"; cases "te_ignored (ct_entries tr i)"; cases "i = SIGCHLD")
    (auto simp: exec_signal_def Let_def exec_touches_def exec_handler_def signal_ignored_def sigaction_get_def
      trap_handler_def signal_numbers split: if_splits)

lemma exec_fold:
  assumes "distinct is"
    and "\<And>i. exec_touches tr i \<Longrightarrow> k_known k i \<and> \<not> k_fixed k i"
    and "\<And>i. \<not> r \<Longrightarrow> te_installed (ct_entries tr i) \<Longrightarrow> k_action k i = plain_action (trap_handler i (ct_entries tr i))"
  shows "k_known (fold (exec_signal tr r) is k) = k_known k \<and> k_fixed (fold (exec_signal tr r) is k) = k_fixed k \<and>
    (\<forall>j. k_action (fold (exec_signal tr r) is k) j =
      (if j \<in> set is \<and> exec_touches tr j then plain_action (exec_handler tr r j) else k_action k j))"
  using assms
proof (induction "is" rule: rev_induct)
  case (snoc i "is")
  let ?k = "fold (exec_signal tr r) is k"
  have IH: "k_known ?k = k_known k" "k_fixed ?k = k_fixed k"
    "k_action ?k j = (if j \<in> set is \<and> exec_touches tr j then plain_action (exec_handler tr r j) else k_action k j)" for j
    using snoc by auto
  have here: "k_action ?k i = k_action k i" using snoc.prems(1) IH(3) [of i] by simp
  have "k_action (exec_signal tr r i ?k) i = (if exec_touches tr i then plain_action (exec_handler tr r i) else k_action ?k i)"
    by (rule exec_signal_here) (use snoc.prems(2,3) IH here in \<open>auto simp: trap_handler_def\<close>)
  note here = this [unfolded here]
  have "k_action (exec_signal tr r i ?k) j = (if j \<in> set (is @ [i]) \<and> exec_touches tr j
      then plain_action (exec_handler tr r j) else k_action k j)" for j
  proof (cases "j = i")
    case False
    then show ?thesis using exec_signal_kept(3) [OF False, of tr r ?k] IH(3) [of j] by simp
  qed (use here in simp)
  with IH(1,2) show ?case by simp
qed simp

lemma table_ok_touches: "table_ok tr k \<Longrightarrow> exec_touches tr i \<Longrightarrow> 0 < i \<and> i < TRAP_LIMIT \<and> k_known k i \<and> \<not> k_fixed k i"
  using table_ok_entry [of tr k i] table_ok_kernel [of tr k]
  by (auto simp: exec_touches_def entry_ok_defs signal_numbers TRAP_LIMIT_def)

lemma exec_signals_action:
  assumes "traps_ok p" and "tp_traps p = Some tr"
  shows "k_action (tp_kernel (csh_traps_exec_signals False p)) i =
      (if exec_touches tr i then plain_action (exec_handler tr False i) else k_action (tp_kernel p) i)"
    and "k_action (tp_kernel (csh_traps_exec_signals True (csh_traps_exec_signals False p))) i =
      (if exec_touches tr i then plain_action (exec_handler tr True i) else k_action (tp_kernel p) i)"
    and "k_known (tp_kernel (csh_traps_exec_signals True (csh_traps_exec_signals False p))) = k_known (tp_kernel p)"
    and "k_fixed (tp_kernel (csh_traps_exec_signals True (csh_traps_exec_signals False p))) = k_fixed (tp_kernel p)"
proof -
  have t: "table_ok tr (tp_kernel p)" using assms by (auto simp: traps_ok_def)
  let ?k = "fold (exec_signal tr False) [1..<TRAP_LIMIT] (tp_kernel p)"
  have tch: "exec_touches tr j \<Longrightarrow> k_known (tp_kernel p) j \<and> \<not> k_fixed (tp_kernel p) j" for j
    using table_ok_touches [OF t] by blast
  have inst: "te_installed (ct_entries tr j) \<Longrightarrow> k_action (tp_kernel p) j = plain_action (trap_handler j (ct_entries tr j))" for j
    using table_ok_entry [OF t, of j] by (auto simp: entry_ok_def installed_ok_def Let_def)
  note f = exec_fold [of "[1..<TRAP_LIMIT]" tr "tp_kernel p" False, OF distinct_upt tch inst]
  have e: "tp_kernel (csh_traps_exec_signals False p) = ?k" "tp_traps (csh_traps_exec_signals False p) = Some tr"
    using assms by (simp_all add: csh_traps_exec_signals_def)
  have in_range: "exec_touches tr i \<Longrightarrow> i \<in> set [1..<TRAP_LIMIT]" using table_ok_touches [OF t, of i] by auto
  show "k_action (tp_kernel (csh_traps_exec_signals False p)) i =
      (if exec_touches tr i then plain_action (exec_handler tr False i) else k_action (tp_kernel p) i)"
    using f in_range unfolding e by auto
  have "exec_touches tr j \<Longrightarrow> k_known ?k j \<and> \<not> k_fixed ?k j" for j using f tch by auto
  note g = exec_fold [of "[1..<TRAP_LIMIT]" tr ?k True, OF distinct_upt this]
  have e2: "tp_kernel (csh_traps_exec_signals True (csh_traps_exec_signals False p)) = fold (exec_signal tr True) [1..<TRAP_LIMIT] ?k"
    using e by (simp add: csh_traps_exec_signals_def)
  show "k_action (tp_kernel (csh_traps_exec_signals True (csh_traps_exec_signals False p))) i =
      (if exec_touches tr i then plain_action (exec_handler tr True i) else k_action (tp_kernel p) i)"
    using f g in_range unfolding e2 by auto
  show "k_known (tp_kernel (csh_traps_exec_signals True (csh_traps_exec_signals False p))) = k_known (tp_kernel p)"
    "k_fixed (tp_kernel (csh_traps_exec_signals True (csh_traps_exec_signals False p))) = k_fixed (tp_kernel p)"
    using f g unfolding e2 by auto
qed

lemma exec_recover_ok:
  assumes "traps_ok p"
  shows "traps_ok (csh_traps_exec_signals True (csh_traps_exec_signals False p))"
proof -
  obtain tr where tr: "tp_traps p = Some tr" and t: "table_ok tr (tp_kernel p)" and pend: "pending_ok tr (tp_pending p)"
    and act: "tp_active p" using assms by (auto simp: traps_ok_def)
  let ?q = "csh_traps_exec_signals True (csh_traps_exec_signals False p)"
  note ex = exec_signals_action [OF assms tr]
  have "entry_ok tr (tp_kernel ?q) i" for i
    using table_ok_entry [OF t, of i] ex(2) [of i] ex(3,4)
    by (cases "te_installed (ct_entries tr i)"; cases "i = SIGCHLD")
      (auto simp: entry_ok_defs exec_touches_def exec_handler_def)
  then have "table_ok tr (tp_kernel ?q)" using t ex(3,4) by (intro table_okI) (auto simp: table_ok_def kernel_ok_def)
  with tr pend act show ?thesis by (simp add: traps_ok_def csh_traps_exec_signals_def)
qed

subsection \<open>Reachable processes\<close>

text \<open>A process before its table is made: it has no handler of the shell yet. Then a table is created,
  and anything can happen in any order: calls of \<open>trap\<close>, signals whose handler is the shell's, the
  dispatcher taking actions, forks (the process is then the child), and an exec that fails.\<close>

definition fresh_signals :: "trap_process \<Rightarrow> bool" where
  "fresh_signals p \<longleftrightarrow>
     \<not> tp_active p \<and> kernel_ok (tp_kernel p) \<and> (\<forall>i. TRAP_LIMIT \<le> i \<longrightarrow> \<not> tp_pending p i) \<and>
     (\<forall>i. sa_handler (k_action (tp_kernel p) i) \<notin> {RECORD_SIGNAL, IGNORE_CHILD})"

inductive trap_run :: "trap_process \<Rightarrow> bool" where
  created: "fresh_signals p \<Longrightarrow> csh_traps_create interactive p = (0, q) \<Longrightarrow> trap_run q"
| builtin: "trap_run p \<Longrightarrow> csh_traps_builtin args p = (rc, q) \<Longrightarrow> trap_run q"
| signalled: "trap_run p \<Longrightarrow> sa_handler (k_action (tp_kernel p) n) = RECORD_SIGNAL \<Longrightarrow> trap_run (record_signal n p)"
| taken: "trap_run p \<Longrightarrow> csh_traps_take p = (n, action, q) \<Longrightarrow> trap_run q"
| exit_read: "trap_run p \<Longrightarrow> csh_traps_exit_action p = (action, q) \<Longrightarrow> trap_run q"
| forked: "trap_run p \<Longrightarrow> trap_run (csh_traps_after_fork asynchronous preserve_listing p)"
| exec_failed: "trap_run p \<Longrightarrow> trap_run (csh_traps_exec_signals True (csh_traps_exec_signals False p))"

lemma create_ok:
  assumes "fresh_signals p" and "csh_traps_create interactive p = (0, q)"
  shows "traps_ok q"
proof -
  obtain p1 where m: "tp_malloc p = (True, p1)"
    using assms by (auto simp: csh_traps_create_def fresh_signals_def split: prod.splits bool.splits)
  note kept = tp_malloc_kept [OF m]
  define ignored where "ignored = (\<lambda>i. 0 < i \<and> i < TRAP_LIMIT \<and> signal_ignored (tp_kernel p) i)"
  define tr where "tr = \<lparr>ct_entries = (\<lambda>_. no_entry), ct_exit_action = None, ct_exit_inherited = False,
    ct_child_ignored = False, ct_entry_ignored = (\<lambda>i. \<not> interactive \<and> ignored i), ct_original_ignored = ignored\<rparr>"
  have q: "tp_traps q = Some tr" "tp_active q" "tp_kernel q = tp_kernel p"
    "tp_pending q = (\<lambda>i. \<not> i < TRAP_LIMIT \<and> tp_pending p i)"
    using assms m kept by (auto simp: csh_traps_create_def fresh_signals_def Let_def tr_def ignored_def)
  have "entry_ok tr (tp_kernel q) i" for i
    using assms(1) q(3)
    by (auto simp: entry_ok_defs tr_def no_entry_def fresh_signals_def ignored_def signal_ignored_def sigaction_get_def split: if_splits)
  then have "table_ok tr (tp_kernel q)" using assms(1) q(3) by (intro table_okI) (auto simp: fresh_signals_def)
  moreover have "pending_ok tr (tp_pending q)" using assms(1) q(4) by (auto simp: pending_ok_def fresh_signals_def)
  ultimately show ?thesis using q by (simp add: traps_ok_def)
qed

lemma exit_action_ok: "csh_traps_exit_action p = (a, q) \<Longrightarrow> traps_ok p \<Longrightarrow> traps_ok q"
  using traps_ok_malloc
  by (auto simp: csh_traps_exit_action_def split: option.splits if_splits prod.splits bool.splits)

lemma trap_run_ok: "trap_run p \<Longrightarrow> traps_ok p"
proof (induction rule: trap_run.induct)
  case (created p interactive q)
  then show ?case by (rule create_ok)
next
  case (builtin p args rc q)
  then show ?case using builtin_ok [of p args] by simp
next
  case (taken p n action q)
  then show ?case using take_ok [of p] by simp
qed (auto intro: record_signal_ok exit_action_ok after_fork_ok exec_recover_ok)


text \<open>
  C12: a command that is executed never inherits a handler of the shell. At exec, signals with an
  action are back to their default, ignored ones are ignored (\<open>SIGCHLD\<close> too, which the shell itself
  must not ignore), and if the exec fails every handler is restored.
\<close>

theorem exec_dispositions:
  assumes "trap_run p" and "tp_traps p = Some tr"
  shows "let k = tp_kernel p; exec = tp_kernel (csh_traps_exec_signals False p);
      back = tp_kernel (csh_traps_exec_signals True (csh_traps_exec_signals False p))
    in \<forall>i. sa_handler (k_action exec i) \<notin> {RECORD_SIGNAL, IGNORE_CHILD} \<and>
      (te_installed (ct_entries tr i) \<longrightarrow>
        sa_handler (k_action exec i) = (if te_ignored (ct_entries tr i) then SIG_IGN else SIG_DFL)) \<and>
      sa_handler (k_action back i) = sa_handler (k_action k i)"
proof -
  have ok: "traps_ok p" by (rule trap_run_ok [OF assms(1)])
  then have t: "table_ok tr (tp_kernel p)" using assms(2) by (auto simp: traps_ok_def)
  note ex = exec_signals_action [OF ok assms(2)]
  have "sa_handler (k_action (tp_kernel (csh_traps_exec_signals False p)) i) \<notin> {RECORD_SIGNAL, IGNORE_CHILD} \<and>
      (te_installed (ct_entries tr i) \<longrightarrow> sa_handler (k_action (tp_kernel (csh_traps_exec_signals False p)) i) =
        (if te_ignored (ct_entries tr i) then SIG_IGN else SIG_DFL)) \<and>
      sa_handler (k_action (tp_kernel (csh_traps_exec_signals True (csh_traps_exec_signals False p))) i) =
        sa_handler (k_action (tp_kernel p) i)" for i
    using table_ok_entry [OF t, of i] ex(1,2) [of i]
    by (cases "te_installed (ct_entries tr i)"; cases "i = SIGCHLD")
      (auto simp: entry_ok_defs exec_touches_def exec_handler_def)
  then show ?thesis by (simp add: Let_def)
qed

subsection \<open>Delivery\<close>

lemma take_loop_first:
  assumes "\<forall>i\<in>set is. tp_pending p i \<longrightarrow> te_action (ct_entries tr i) \<noteq> None" and "tp_mallocs p = []"
  shows "take_loop tr is p =
    (case find (tp_pending p) is of
       None \<Rightarrow> (0, None, p)
     | Some i \<Rightarrow> (int i, te_action (ct_entries tr i), p\<lparr>tp_pending := (tp_pending p)(i := False)\<rparr>))"
  using assms
proof (induction "is")
  case (Cons i "is")
  have "tp_malloc p = (True, p)" using Cons.prems(2) by (cases p) (simp add: tp_malloc_def)
  with Cons show ?case by auto
qed simp

lemma filter_next:
  "filter P xs = i # ys \<Longrightarrow> distinct xs \<Longrightarrow> filter (P(i := False)) xs = ys \<and> find P xs = Some i"
proof (induction xs)
  case (Cons x xs)
  show ?case
  proof (cases "P x")
    case True
    then have "x = i" "filter P xs = ys" using Cons.prems by auto
    moreover have "filter (P(i := False)) xs = filter P xs" using Cons.prems \<open>x = i\<close> by (intro filter_cong) auto
    ultimately show ?thesis using True by (simp del: fun_upd_apply add: fun_upd_same)
  qed (use Cons in auto)
qed simp

text \<open>Taking actions until there is none left.\<close>

fun take_all :: "nat \<Rightarrow> trap_process \<Rightarrow> (nat \<times> string) list \<times> trap_process" where
  "take_all 0 p = ([], p)"
| "take_all (Suc n) p =
     (case csh_traps_take p of
        (i, Some action, p) \<Rightarrow> (case take_all n p of (xs, p) \<Rightarrow> ((nat i, action) # xs, p))
      | (i, None, p) \<Rightarrow> ([], p))"

lemma take_all_pending:
  "traps_ok p \<Longrightarrow> tp_mallocs p = [] \<Longrightarrow> tp_traps p = Some tr \<Longrightarrow> length (filter (tp_pending p) [1..<TRAP_LIMIT]) < n \<Longrightarrow>
   \<exists>q. take_all n p = (map (\<lambda>i. (i, the (te_action (ct_entries tr i)))) (filter (tp_pending p) [1..<TRAP_LIMIT]), q) \<and>
     (\<forall>i. \<not> tp_pending q i)"
proof (induction n arbitrary: p)
  case (Suc n)
  have t: "table_ok tr (tp_kernel p)" and pend: "pending_ok tr (tp_pending p)"
    using Suc.prems(1,3) by (auto simp: traps_ok_def)
  have has: "tp_pending p i \<Longrightarrow> te_action (ct_entries tr i) \<noteq> None \<and> 0 < i \<and> i < TRAP_LIMIT" for i
    using pend table_ok_entry [OF t, of i] by (auto simp: pending_ok_def caught_def entry_ok_defs)
  then have take: "csh_traps_take p =
    (case find (tp_pending p) [1..<TRAP_LIMIT] of
       None \<Rightarrow> (0, None, p)
     | Some i \<Rightarrow> (int i, te_action (ct_entries tr i), p\<lparr>tp_pending := (tp_pending p)(i := False)\<rparr>))"
    using Suc.prems(2,3) take_loop_first [of "[1..<TRAP_LIMIT]" p tr] by (simp add: csh_traps_take_def)
  show ?case
  proof (cases "filter (tp_pending p) [1..<TRAP_LIMIT]")
    case Nil
    then have "find (tp_pending p) [1..<TRAP_LIMIT] = None" by (auto simp: find_None_iff filter_empty_conv)
    moreover have "\<not> tp_pending p i" for i using Nil has [of i] by (auto simp: filter_empty_conv)
    ultimately show ?thesis using take Nil by simp
  next
    case (Cons i ys)
    note next_i = filter_next [OF Cons distinct_upt]
    let ?q = "p\<lparr>tp_pending := (tp_pending p)(i := False)\<rparr>"
    have "i \<in> set (filter (tp_pending p) [1..<TRAP_LIMIT])" unfolding Cons by simp
    then have i: "tp_pending p i" by simp
    then obtain a where a: "te_action (ct_entries tr i) = Some a" using has by blast
    have okq: "traps_ok ?q" using Suc.prems(1) by (auto simp: traps_ok_def pending_ok_def)
    have fq: "filter (tp_pending ?q) [1..<TRAP_LIMIT] = ys" using next_i by simp
    have "length (filter (tp_pending ?q) [1..<TRAP_LIMIT]) < n" unfolding fq using Suc.prems(4) Cons by simp
    from Suc.IH [OF okq _ _ this, unfolded fq] Suc.prems(2,3) obtain q where
      "take_all n ?q = (map (\<lambda>i. (i, the (te_action (ct_entries tr i)))) ys, q)" "\<forall>i. \<not> tp_pending q i" by auto
    then show ?thesis using take next_i a Cons by simp
  qed
qed simp

text \<open>
  C17: no caught signal is lost. In every reachable process with memory, taking actions until none is
  left yields exactly the pending signals, each once, in increasing order and with its current
  action, and then nothing is pending.
\<close>

theorem pending_signals_delivered:
  assumes "trap_run p" and "tp_traps p = Some tr" and "tp_mallocs p = []"
  shows "\<exists>q. take_all TRAP_LIMIT p =
      (map (\<lambda>i. (i, the (te_action (ct_entries tr i)))) (filter (tp_pending p) [1..<TRAP_LIMIT]), q) \<and>
    (\<forall>i. \<not> tp_pending q i)"
proof -
  have "length (filter (tp_pending p) [1..<TRAP_LIMIT]) \<le> length [1..<TRAP_LIMIT]" by (rule length_filter_le)
  then have "length (filter (tp_pending p) [1..<TRAP_LIMIT]) < TRAP_LIMIT" by (simp add: TRAP_LIMIT_def)
  then show ?thesis using take_all_pending [OF trap_run_ok [OF assms(1)] assms(3,2)] by blast
qed

subsection \<open>Conditions and their names\<close>

lemma lower_names:
  "map (map ascii_lower \<circ> fst) signal_names =
     [''hup'', ''int'', ''quit'', ''ill'', ''abrt'', ''fpe'', ''kill'', ''segv'', ''sys'', ''pipe'', ''alrm'', ''term'',
      ''usr1'', ''usr2'', ''chld'', ''cont'', ''stop'', ''tstp'', ''ttin'', ''ttou'', ''bus'', ''trap'', ''urg'', ''xcpu'',
      ''xfsz'', ''vtalrm'', ''prof'', ''winch'', ''poll'']"
  by (simp add: signal_names_def ascii_lower_def less_eq_char_def char_of_def bit_0)

lemma signal_names_distinct: "distinct (map (map ascii_lower \<circ> fst) signal_names)"
  unfolding lower_names by simp

definition plain_name :: "string \<Rightarrow> bool" where
  "plain_name t \<longleftrightarrow> t \<noteq> [] \<and> CHR ''A'' \<le> hd t \<and> take 3 t \<noteq> ''SIG'' \<and> t \<noteq> ''EXIT''"

lemma signal_names_plain: "list_all (\<lambda>(t, n). plain_name t \<and> 0 < n \<and> n < TRAP_LIMIT) signal_names"
  by (simp add: signal_names_def plain_name_def TRAP_LIMIT_def less_eq_char_def)

lemma letter_first: "CHR ''A'' \<le> c \<Longrightarrow> \<not> isspace c \<and> c \<notin> {CHR ''-'', CHR ''+''} \<and> \<not> digit c"
  by (auto simp: isspace_def digit_def less_eq_char_def)

lemma plain_name_not_number:
  assumes "plain_name t"
  shows "strtol t = (0, t, False)" and "jobs_number t = None"
proof -
  obtain c cs where t: "t = c # cs" "CHR ''A'' \<le> c" using assms by (cases t) (auto simp: plain_name_def)
  note c = letter_first [OF t(2)]
  show "strtol t = (0, t, False)" using t c by (simp add: strtol_def scan_number_def)
  show "jobs_number t = None" using t c by (simp add: jobs_number_def)
qed

lemma condition_of_name:
  assumes "(t, n) \<in> set signal_names"
  shows "trap_condition k t = int n"
proof -
  have p: "plain_name t" "0 < n" "n < TRAP_LIMIT" using signal_names_plain assms by (auto simp: list_all_iff)
  have eq: "(\<lambda>(name, n). map ascii_lower t = map ascii_lower name) = (\<lambda>x. (map ascii_lower \<circ> fst) x = map ascii_lower t)"
    for n :: nat by auto
  have "find (\<lambda>(name, n). map ascii_lower t = map ascii_lower name) signal_names = Some (t, n)"
    unfolding eq using lookup_by_in_set [OF signal_names_distinct assms] by simp
  then have "csh_jobs_signal_number k t = int n"
    using plain_name_not_number(2) [OF p(1)] unfolding csh_jobs_signal_number_def by (simp only: option.case prod.case)
  moreover have "t \<noteq> ''0''" using p(1) by (auto simp: plain_name_def less_eq_char_def)
  ultimately show ?thesis using p plain_name_not_number(1) [OF p(1)] by (simp add: trap_condition_def plain_name_def)
qed

lemma condition_of_number:
  assumes "0 < n" and "n < TRAP_LIMIT" and "k_known k n"
  shows "trap_condition k (show_nat n) = int n"
proof -
  have "show_nat n \<noteq> ''0''"
  proof
    assume "show_nat n = ''0''"
    then have "n = decimal ''0''" using decimal_show_nat [of n] by simp
    with assms(1) show False by (simp add: decimal_def)
  qed
  moreover have "digit (hd (show_nat n))" using show_nat_all_digits [of n] by (cases "show_nat n") auto
  then have "show_nat n \<noteq> ''EXIT''" "take 3 (show_nat n) \<noteq> ''SIG''"
    by (cases "show_nat n"; auto simp: digit_def less_eq_char_def)+
  moreover have "strtol (show_nat n) = (int n, [], False)"
    using assms(2) by (intro strtol_show) (simp add: TRAP_LIMIT_def LONG_MAX_def)
  ultimately show ?thesis using assms by (simp add: trap_condition_def)
qed

lemma condition_of_condition_name:
  assumes "n < TRAP_LIMIT" and "n = 0 \<or> k_known k n"
  shows "trap_condition k (condition_name n) = int n"
proof (cases "n = 0")
  case True
  then show ?thesis by (simp add: condition_name_def trap_condition_def)
next
  case False
  show ?thesis
  proof (cases "csh_jobs_signal_name n")
    case None
    with False assms condition_of_number [of n k] show ?thesis by (simp add: condition_name_def)
  next
    case (Some t)
    then have "(t, n) \<in> set signal_names" by (auto simp: csh_jobs_signal_name_def dest: find_SomeD)
    from condition_of_name [OF this] Some False show ?thesis by (simp add: condition_name_def)
  qed
qed

subsection \<open>Actions\<close>

text \<open>An action can be given again as an operand: it is neither a number nor the reset operand.\<close>

definition action_operand :: "string \<Rightarrow> bool" where
  "action_operand a \<longleftrightarrow> \<not> (a \<noteq> [] \<and> list_all digit a) \<and> a \<noteq> ''-''"

definition actions_ok :: "csh_traps \<Rightarrow> bool" where
  "actions_ok tr \<longleftrightarrow> (\<forall>i a. te_action (ct_entries tr i) = Some a \<longrightarrow> action_operand a) \<and>
     (\<forall>a. ct_exit_action tr = Some a \<longrightarrow> action_operand a)"

lemma preserve_child_kept:
  "preserve_child_ignore tr k = (tr', k') \<Longrightarrow> ct_entries tr' = ct_entries tr \<and> ct_exit_action tr' = ct_exit_action tr"
  by (auto simp: preserve_child_ignore_def split: option.splits if_splits)

lemma reset_signal_actions:
  assumes "reset_signal tr n p = (f, q)" and "tp_traps p = Some tr"
  shows "\<exists>tr'. tp_traps q = Some tr' \<and> ct_exit_action tr' = ct_exit_action tr \<and>
    (\<forall>i. te_action (ct_entries tr' i) \<in> {None, te_action (ct_entries tr i)})"
proof -
  let ?e = "ct_entries tr n"
  show ?thesis
  proof (cases "if te_installed ?e then sigaction_set (tp_kernel p) n (te_previous ?e) else Some (tp_kernel p)")
    case None
    with assms show ?thesis by (auto simp: reset_signal_def Let_def)
  next
    case (Some k)
    let ?tr = "put_entry tr n (?e\<lparr>te_installed := False, te_ignored := False\<rparr>)"
    obtain tr1 k1 where s: "(if n = SIGCHLD then preserve_child_ignore ?tr k else (?tr, k)) = (tr1, k1)" by (metis surj_pair)
    then have "ct_entries tr1 = ct_entries ?tr" "ct_exit_action tr1 = ct_exit_action tr"
      using preserve_child_kept [of ?tr k tr1 k1] by (auto split: if_splits)
    moreover have "tp_traps q = Some (put_entry tr1 n ((ct_entries tr1 n)\<lparr>te_action := None\<rparr>))"
      using assms(1) unfolding reset_signal_def Let_def Some option.case s prod.case by auto
    ultimately show ?thesis by auto
  qed
qed

lemma install_actions:
  assumes "install tr n action p = (f, q)" and "tp_traps p = Some tr" and "actions_ok tr"
    and "\<And>a. action = Some a \<Longrightarrow> action_operand a"
  shows "\<exists>tr'. tp_traps q = Some tr' \<and> actions_ok tr'"
proof -
  obtain b p1 where m: "(if action = None then (True, p) else tp_malloc p) = (b, p1)" by (metis surj_pair)
  have tr: "tp_traps p1 = Some tr" using m assms(2) tp_malloc_kept [of p b p1] by (auto split: if_splits)
  have reset: "\<exists>tr'. tp_traps q = Some tr' \<and> actions_ok tr'" if r: "reset_signal tr n p1 = (f, q)"
  proof -
    obtain tr' where q: "tp_traps q = Some tr'" "ct_exit_action tr' = ct_exit_action tr"
      and e: "\<And>i. te_action (ct_entries tr' i) \<in> {None, te_action (ct_entries tr i)}"
      using reset_signal_actions [OF r tr] by blast
    have "actions_ok tr'" using assms(3) q(2) e unfolding actions_ok_def by (metis insertE option.distinct(1) singletonD)
    with q show ?thesis by blast
  qed
  have "\<exists>tr'. tp_traps q = Some tr' \<and> actions_ok tr'" if "install_signal tr n a p1 = (f, q)" "action_operand a" for a
    using that tr assms(3) by (auto simp: install_signal_def Let_def actions_ok_def split: option.splits)
  with reset assms m tr show ?thesis
    by (auto simp: install_def install_exit_def actions_ok_def split: bool.splits if_splits option.splits)
qed

lemma install_loop_actions:
  "install_loop action ts rc p = (rc', q) \<Longrightarrow> tp_traps p = Some tr \<Longrightarrow> actions_ok tr \<Longrightarrow>
   (\<And>a. action = Some a \<Longrightarrow> action_operand a) \<Longrightarrow> \<exists>tr'. tp_traps q = Some tr' \<and> actions_ok tr'"
proof (induction ts arbitrary: rc p tr)
  case (Cons t ts)
  let ?n = "trap_condition (tp_kernel p) t"
  show ?case
  proof (cases "?n < 0")
    case True
    with Cons.prems Cons.IH [of True "trap_diagnostic ''invalid condition'' (Some t) p" tr] show ?thesis by (simp add: Let_def)
  next
    case False
    obtain f p1 where i: "install tr (nat ?n) action p = (f, p1)" by (cases "install tr (nat ?n) action p")
    obtain tr1 where "tp_traps p1 = Some tr1" "actions_ok tr1" using install_actions [OF i Cons.prems(2,3,4)] by auto
    with Cons.prems i False Cons.IH [of "rc \<or> f" p1 tr1] show ?thesis by (simp add: Let_def)
  qed
qed auto

definition operands_ok :: "trap_process \<Rightarrow> bool" where
  "operands_ok p \<longleftrightarrow> (\<exists>tr. tp_traps p = Some tr \<and> actions_ok tr)"

lemma operands_ok_cong: "tp_traps p = tp_traps q \<Longrightarrow> operands_ok p \<longleftrightarrow> operands_ok q"
  by (simp add: operands_ok_def)

lemma builtin_actions:
  assumes "operands_ok p"
  shows "operands_ok (snd (csh_traps_builtin args p))"
proof -
  obtain tr where tr: "tp_traps p = Some tr" and a: "actions_ok tr" using assms by (auto simp: operands_ok_def)
  have all: "operands_ok (snd (status_of (list_all_loop tr d is c p)))" for d "is" c
    using list_all_kept [of tr d "is" c p] assms
    by (cases "list_all_loop tr d is c p") (auto simp: status_of_def operands_ok_def)
  have some: "operands_ok (snd (status_of (list_some_loop tr ts c p)))" for ts c
    using list_some_kept [of tr ts c p] assms
    by (cases "list_some_loop tr ts c p") (auto simp: status_of_def operands_ok_def)
  have install: "operands_ok (snd (status_of (install_loop x ts c p)))" if "\<And>h. x = Some h \<Longrightarrow> action_operand h" for x ts c
  proof -
    obtain rc q where l: "install_loop x ts c p = (rc, q)" by (metis surj_pair)
    from install_loop_actions [OF l tr a that] l show ?thesis by (simp add: status_of_def operands_ok_def)
  qed
  have none: "operands_ok (snd (status_of (install_loop None ts c p)))" for ts c by (rule install) simp
  have one: "\<not> (h \<noteq> [] \<and> list_all digit h) \<Longrightarrow> h \<noteq> ''-'' \<Longrightarrow> operands_ok (snd (status_of (install_loop (Some h) ts c p)))" for h ts c
    by (rule install) (simp add: action_operand_def)
  show ?thesis unfolding csh_traps_builtin_def tr option.case Let_def
    using assms all some none one operands_ok_cong [of "trap_diagnostic _ _ p" p] by (simp split: if_split)
qed

lemma fork_fold_actions:
  "fold (fork_signal a l) is (tr, k) = (tr', k') \<Longrightarrow> actions_ok tr \<Longrightarrow> actions_ok tr'"
proof (induction "is" arbitrary: tr k)
  case (Cons i "is")
  obtain tr1 k1 where s: "fork_signal a l i (tr, k) = (tr1, k1)" by (cases "fork_signal a l i (tr, k)")
  have "actions_ok tr1"
  proof (cases "te_installed (ct_entries tr i)")
    case False
    with s Cons.prems show ?thesis by (simp add: fork_signal_def Let_def)
  next
    case True
    show ?thesis
    proof (cases "te_ignored (ct_entries tr i)")
      case ign: True
      show ?thesis
        by (rule fork_ignored [OF True ign, of a l k]) (use s Cons.prems(2) in \<open>auto simp: actions_ok_def\<close>)
    next
      case False
      with True have "caught tr i" by (simp add: caught_def)
      then show ?thesis
        by (rule fork_caught [of tr i a l k]) (use s Cons.prems(2) in \<open>auto simp: actions_ok_def split: if_splits\<close>)
    qed
  qed
  with Cons s show ?case by simp
qed simp

lemma after_fork_actions:
  assumes "operands_ok p"
  shows "operands_ok (csh_traps_after_fork a l p)"
proof -
  obtain tr where tr: "tp_traps p = Some tr" and ok: "actions_ok tr" using assms by (auto simp: operands_ok_def)
  define tr0 where "tr0 = (if l then tr\<lparr>ct_exit_inherited := True\<rparr> else tr\<lparr>ct_exit_action := None\<rparr>)"
  obtain tr1 k1 where f: "fold (fork_signal a l) [1..<TRAP_LIMIT] (tr0, tp_kernel p) = (tr1, k1)" by (metis surj_pair)
  obtain tr2 k2 where c: "preserve_child_ignore tr1 k1 = (tr2, k2)" by (metis surj_pair)
  have "actions_ok tr0" using ok by (auto simp: actions_ok_def tr0_def)
  from fork_fold_actions [OF f this] preserve_child_kept [OF c] have "actions_ok tr2" by (simp add: actions_ok_def)
  moreover have "tp_traps (csh_traps_after_fork a l p) = Some tr2"
    unfolding csh_traps_after_fork_def tr option.case Let_def tr0_def [symmetric] f prod.case c by simp
  ultimately show ?thesis by (simp add: operands_ok_def)
qed

lemma take_kept: "csh_traps_take p = (n, a, q) \<Longrightarrow> tp_traps q = tp_traps p"
  by (auto simp: csh_traps_take_def split: option.splits dest: take_loop_kept)

lemma exit_kept: "csh_traps_exit_action p = (a, q) \<Longrightarrow> tp_traps q = tp_traps p"
  by (auto simp: csh_traps_exit_action_def split: option.splits if_splits prod.splits bool.splits dest: tp_malloc_kept)

lemma exec_kept: "tp_traps (csh_traps_exec_signals r p) = tp_traps p"
  by (auto simp: csh_traps_exec_signals_def split: option.splits)

lemma record_kept: "tp_traps (record_signal n p) = tp_traps p"
  by (simp add: record_signal_def csh_jobs_note_signal_def Let_def)

lemma trap_run_operands: "trap_run p \<Longrightarrow> operands_ok p"
proof (induction rule: trap_run.induct)
  case (created p interactive q)
  then show ?case
    by (auto simp: csh_traps_create_def Let_def operands_ok_def actions_ok_def no_entry_def split: if_splits prod.splits bool.splits)
next
  case (builtin p args rc q)
  then show ?case using builtin_actions [of p args] by simp
next
  case (taken p n action q)
  then show ?case using operands_ok_cong [OF take_kept] by blast
next
  case (exit_read p action q)
  then show ?case using operands_ok_cong [OF exit_kept] by blast
qed (simp_all add: after_fork_actions operands_ok_cong [OF record_kept] operands_ok_cong [OF exec_kept])

subsection \<open>Listing\<close>

definition quoted_action :: "string \<Rightarrow> string" where
  "quoted_action a = [CHR 0x27] @ single_quoted a @ [CHR 0x27]"

definition trap_line :: "csh_traps \<Rightarrow> bool \<Rightarrow> nat \<Rightarrow> string" where
  "trap_line tr defaults i =
     (case listed_action tr i defaults of
        None \<Rightarrow> []
      | Some a \<Rightarrow> ''trap -- '' @ quoted_action a @ '' '' @ condition_name i @ [CHR 0x0A])"

lemma quote_bytes_ok: "quote_bytes a d = (True, d') \<Longrightarrow> d_bytes d' = d_bytes d @ single_quoted a"
proof (induction a d rule: quote_bytes.induct)
  case (2 c cs d)
  let ?t = "if c = CHR 0x27 then [CHR 0x27, CHR 0x5C, CHR 0x27, CHR 0x27] else [c]"
  obtain b1 d1 where w1: "csh_write_bytes ?t d = (b1, d1)" by (rule prod.exhaust)
  have t: "b1 = True" "quote_bytes cs d1 = (True, d')"
    using 2(2) unfolding quote_bytes.simps w1 prod.case by (cases b1; simp)+
  from 2(1) [OF w1 [unfolded t(1), symmetric] refl t(2)] write_bytes_ok [OF w1 [unfolded t(1)]]
  have "d_bytes d' = d_bytes d @ ?t @ single_quoted cs" by (simp only: append_assoc)
  then show ?case by (simp add: single_quoted_def)
qed (simp add: single_quoted_def)

lemma quote_action_ok:
  assumes "quote_action a d = (True, d')"
  shows "d_bytes d' = d_bytes d @ quoted_action a"
proof -
  obtain b1 d1 where w1: "csh_write_bytes [CHR 0x27] d = (b1, d1)" by (metis surj_pair)
  obtain b2 d2 where w2: "quote_bytes a d1 = (b2, d2)" by (metis surj_pair)
  have t: "b1 = True" "b2 = True" "csh_write_bytes [CHR 0x27] d2 = (True, d')"
    using assms unfolding quote_action_def w1 prod.case by (cases b1; cases b2; simp add: w2)+
  show ?thesis using write_bytes_ok [OF w1 [unfolded t(1)]] quote_bytes_ok [OF w2 [unfolded t(2)]] write_bytes_ok [OF t(3)]
    by (simp add: quoted_action_def)
qed

lemma print_trap_ok:
  assumes "print_trap a name d = (True, d')"
  shows "d_bytes d' = d_bytes d @ ''trap -- '' @ quoted_action a @ '' '' @ name @ [CHR 0x0A]"
proof -
  obtain b1 d1 where w1: "csh_write_bytes ''trap -- '' d = (b1, d1)" by (rule prod.exhaust)
  obtain b2 d2 where w2: "quote_action a d1 = (b2, d2)" by (rule prod.exhaust)
  have b1: "b1 = True" using assms unfolding print_trap_def w1 prod.case by (cases b1) simp_all
  have b2: "b2 = True" using assms unfolding print_trap_def w1 prod.case b1 bool.case w2 by (cases b2) simp_all
  have "dprintf ('' '' @ name @ [CHR 0x0A]) d2 = (True, d')"
    using assms unfolding print_trap_def w1 prod.case b1 bool.case w2 b2 .
  from dprintf_ok [OF this] write_bytes_ok [OF w1 [unfolded b1]] quote_action_ok [OF w2 [unfolded b2]] show ?thesis by simp
qed

lemma list_one_line:
  assumes "list_one tr i defaults p = (False, q)"
  shows "d_bytes (tp_stdout q) = d_bytes (tp_stdout p) @ trap_line tr defaults i"
proof (cases "listed_action tr i defaults")
  case None
  with assms show ?thesis by (simp add: list_one_def trap_line_def)
next
  case (Some a)
  obtain b d where w: "print_trap a (condition_name i) (tp_stdout p) = (b, d)" by (rule prod.exhaust)
  have b: "b = True" and q: "tp_stdout q = d"
    using assms unfolding list_one_def Some option.case w prod.case by (cases b; auto)+
  from print_trap_ok [OF w [unfolded b]] q show ?thesis by (simp add: trap_line_def Some)
qed

definition listable :: "kernel \<Rightarrow> nat \<Rightarrow> bool" where
  "listable k i \<longleftrightarrow> i \<noteq> SIGKILL \<and> i \<noteq> SIGSTOP \<and> (i = 0 \<or> k_known k i)"

lemma listable_iff: "i = SIGKILL \<or> i = SIGSTOP \<or> (0 < i \<and> sigaction_get k i = None) \<longleftrightarrow> \<not> listable k i"
  by (auto simp: listable_def sigaction_get_def)

lemma list_all_rc: "list_all_loop tr defaults is True p = (rc, q) \<Longrightarrow> rc"
  by (induction "is" arbitrary: p) (auto split: if_splits prod.splits)

lemma list_all_lines:
  "list_all_loop tr defaults is False p = (False, q) \<Longrightarrow>
   d_bytes (tp_stdout q) = d_bytes (tp_stdout p) @ concat (map (trap_line tr defaults) (filter (listable (tp_kernel p)) is))"
proof (induction "is" arbitrary: p)
  case (Cons i "is")
  show ?case
  proof (cases "listable (tp_kernel p) i")
    case False
    with Cons.prems Cons.IH [of p] show ?thesis by (simp add: listable_iff)
  next
    case True
    obtain f p1 where o1: "list_one tr i defaults p = (f, p1)" by (cases "list_one tr i defaults p")
    with Cons.prems True have rest: "list_all_loop tr defaults is f p1 = (False, q)"
      by (simp add: listable_iff)
    then have f: "f = False" using list_all_rc [of tr defaults "is" p1 False q] by (cases f) auto
    from Cons.IH [OF rest [unfolded f]] list_one_line [OF o1 [unfolded f]] list_one_kept [OF o1] True
    show ?thesis by simp
  qed
qed simp

lemma unquote_quoted: "unquote False (quoted_action a) = Some a"
  using unquote_single_quoted [of a "[]"] by (simp add: quoted_action_def)

lemma reinput_line:
  assumes "tp_traps r = Some tr'" and "i < TRAP_LIMIT" and "i = 0 \<or> k_known (tp_kernel r) i"
    and "action_operand a \<or> a = ''-''"
  shows "csh_traps_builtin [''--'', a, condition_name i] r =
    status_of (install tr' i (if a = ''-'' then None else Some a) r)"
proof -
  have c: "trap_condition (tp_kernel r) (condition_name i) = int i" by (rule condition_of_condition_name [OF assms(2,3)])
  have n: "\<not> (a \<noteq> [] \<and> list_all digit a)"
    using assms(4) by (auto simp: action_operand_def digit_def less_eq_char_def)
  have loop: "install_loop x [condition_name i] False r = install tr' i x r" for x
    by (simp add: c assms(1) split: prod.splits)
  show ?thesis using n unfolding csh_traps_builtin_def assms(1) option.case Let_def
    by (cases "a = []"; cases "a = ''-''") (auto simp del: install_loop.simps simp: loop)
qed

lemma listed_operand: "actions_ok tr \<Longrightarrow> listed_action tr i d = Some a \<Longrightarrow> action_operand a \<or> a = ''-''"
  by (auto simp: listed_action_def actions_ok_def action_operand_def Let_def split: if_splits)


subsection \<open>Setting and resetting\<close>

lemma install_signal_success:
  assumes "install tr n (Some a) p = (False, q)" and "n \<noteq> 0" and "\<not> ct_entry_ignored tr n" and "\<not> te_installed (ct_entries tr n)"
  obtains e h where "tp_traps q = Some (put_entry tr n e)" and "te_installed e" and "te_previous e = k_action (tp_kernel p) n"
    and "tp_kernel q = (tp_kernel p)\<lparr>k_action := (k_action (tp_kernel p))(n := plain_action h)\<rparr>"
    and "k_known (tp_kernel p) n" and "\<not> k_fixed (tp_kernel p) n"
proof -
  obtain b p1 where m: "tp_malloc p = (b, p1)" by (rule prod.exhaust)
  note kept = tp_malloc_kept [OF m]
  have b: "b = True" using assms(1) m by (cases b) (auto simp: install_def)
  have i: "install_signal tr n a p1 = (False, q)" using assms m b by (simp add: install_def)
  let ?h = "if a \<noteq> [] then RECORD_SIGNAL else if n = SIGCHLD then IGNORE_CHILD else SIG_IGN"
  obtain k where k: "sigaction_set (tp_kernel p1) n (plain_action ?h) = Some k"
    using i by (auto simp: install_signal_def Let_def split: option.splits)
  let ?e = "(ct_entries tr n)\<lparr>te_previous := k_action (tp_kernel p1) n, te_installed := True, te_ignored := (a = []), te_action := Some a\<rparr>"
  have q: "tp_traps q = Some (put_entry tr n ?e)" "tp_kernel q = k"
    using i assms(4) unfolding install_signal_def Let_def k option.case by auto
  show ?thesis by (rule that [of ?e ?h]) (use q k kept in \<open>auto simp: sigaction_set_Some\<close>)
qed

lemma reset_signal_success:
  assumes "install tr n None p = (False, q)" and "n \<noteq> 0" and "\<not> ct_entry_ignored tr n" and "n \<noteq> SIGCHLD"
    and "te_installed (ct_entries tr n)"
  obtains e where "tp_traps q = Some (put_entry tr n e)" and "\<not> te_installed e" and "te_action e = None"
    and "tp_kernel q = (tp_kernel p)\<lparr>k_action := (k_action (tp_kernel p))(n := te_previous (ct_entries tr n))\<rparr>"
proof -
  have r: "reset_signal tr n p = (False, q)" using assms by (simp add: install_def)
  obtain k where k: "sigaction_set (tp_kernel p) n (te_previous (ct_entries tr n)) = Some k"
    using r assms(5) by (auto simp: reset_signal_def Let_def split: option.splits)
  let ?e = "(ct_entries tr n)\<lparr>te_installed := False, te_ignored := False, te_action := None\<rparr>"
  have q: "tp_traps q = Some (put_entry tr n ?e)" "tp_kernel q = k"
    using r assms(4,5) k by (auto simp: reset_signal_def Let_def put_entry_def)
  show ?thesis by (rule that [of ?e]) (use q k in \<open>auto simp: sigaction_set_Some\<close>)
qed


subsection \<open>Witnesses\<close>

text \<open>A shell started with the default disposition for every signal.\<close>

definition started_shell :: trap_process where
  "started_shell =
     \<lparr>tp_traps = None, tp_active = False, tp_pending = (\<lambda>_. False), tp_interrupted = False, tp_hung_up = False,
      tp_kernel = \<lparr>k_action = (\<lambda>_. plain_action SIG_DFL), k_known = (\<lambda>n. 0 < n \<and> n < 65), k_fixed = (\<lambda>n. n = SIGKILL \<or> n = SIGSTOP)\<rparr>,
      tp_mallocs = [], tp_stdout = \<lparr>d_bytes = [], d_writes = [], d_prints = []\<rparr>, tp_stderr = \<lparr>d_bytes = [], d_writes = [], d_prints = []\<rparr>\<rparr>"

definition shell_table :: csh_traps where
  "shell_table = \<lparr>ct_entries = (\<lambda>_. no_entry), ct_exit_action = None, ct_exit_inherited = False, ct_child_ignored = False,
     ct_entry_ignored = (\<lambda>i. False), ct_original_ignored = (\<lambda>i. False)\<rparr>"

definition trap_shell :: trap_process where
  "trap_shell = started_shell\<lparr>tp_traps := Some shell_table, tp_active := True\<rparr>"

lemma trap_shell_run: "trap_run trap_shell"
proof (rule trap_run.created)
  show "fresh_signals started_shell" by (simp add: fresh_signals_def started_shell_def kernel_ok_def signal_numbers)
  show "csh_traps_create True started_shell = (0, trap_shell)"
    by (simp add: csh_traps_create_def trap_shell_def started_shell_def tp_malloc_def shell_table_def signal_ignored_def
        sigaction_get_def fun_eq_iff)
qed


theorem exec_dispositions_witness:
  "trap_run trap_shell \<and> (let k = tp_kernel trap_shell; exec = tp_kernel (csh_traps_exec_signals False trap_shell);
      back = tp_kernel (csh_traps_exec_signals True (csh_traps_exec_signals False trap_shell))
    in \<forall>i. sa_handler (k_action exec i) \<notin> {RECORD_SIGNAL, IGNORE_CHILD} \<and>
      (te_installed (ct_entries shell_table i) \<longrightarrow>
        sa_handler (k_action exec i) = (if te_ignored (ct_entries shell_table i) then SIG_IGN else SIG_DFL)) \<and>
      sa_handler (k_action back i) = sa_handler (k_action k i))"
  using exec_dispositions [OF trap_shell_run, of shell_table] trap_shell_run by (simp add: trap_shell_def)

text \<open>The same shell with a trap for \<open>SIGINT\<close>, and with that signal received.\<close>

definition int_trap_shell :: trap_process where
  "int_trap_shell = snd (csh_traps_builtin [''--'', ''x'', ''INT''] trap_shell)"

definition int_entry :: trap_entry where
  "int_entry = \<lparr>te_action = Some ''x'', te_previous = plain_action SIG_DFL, te_installed = True, te_ignored = False\<rparr>"

lemma int_trap_shell_eq:
  "csh_traps_builtin [''--'', ''x'', condition_name 2] trap_shell = (0, int_trap_shell) \<and>
   tp_traps int_trap_shell = Some (put_entry shell_table 2 int_entry) \<and>
   tp_kernel int_trap_shell = (tp_kernel started_shell)\<lparr>k_action := (k_action (tp_kernel started_shell))(2 := plain_action RECORD_SIGNAL)\<rparr> \<and>
   tp_mallocs int_trap_shell = [] \<and> tp_pending int_trap_shell = (\<lambda>_. False)"
proof -
  have n: "condition_name 2 = ''INT''" by (simp add: condition_name_def csh_jobs_signal_name_def signal_names_def)
  have "csh_traps_builtin [''--'', ''x'', condition_name 2] trap_shell = status_of (install shell_table 2 (Some ''x'') trap_shell)"
    by (subst reinput_line [of trap_shell shell_table])
      (simp_all add: trap_shell_def started_shell_def TRAP_LIMIT_def action_operand_def digit_def less_eq_char_def)
  then show ?thesis unfolding int_trap_shell_def n
    by (simp add: install_def install_signal_def tp_malloc_def trap_shell_def started_shell_def shell_table_def status_of_def
        sigaction_set_def signal_numbers int_entry_def no_entry_def put_entry_def fun_eq_iff)
qed

lemma int_trap_run: "trap_run int_trap_shell"
  using trap_run.builtin [OF trap_shell_run] int_trap_shell_eq by blast

definition int_pending_shell :: trap_process where
  "int_pending_shell = record_signal 2 int_trap_shell"

lemma int_pending_run: "trap_run int_pending_shell"
  unfolding int_pending_shell_def
  by (rule trap_run.signalled [OF int_trap_run]) (simp add: int_trap_shell_eq)

lemma int_pending_shell_eq:
  "tp_traps int_pending_shell = Some (put_entry shell_table 2 int_entry)" "tp_mallocs int_pending_shell = []"
  "tp_pending int_pending_shell 2"
  using int_trap_shell_eq by (simp_all add: int_pending_shell_def record_signal_def csh_jobs_note_signal_def TRAP_LIMIT_def Let_def)

theorem pending_signals_delivered_witness:
  "tp_pending int_pending_shell 2 \<and>
   (\<exists>q. take_all TRAP_LIMIT int_pending_shell =
      (map (\<lambda>i. (i, the (te_action (ct_entries (put_entry shell_table 2 int_entry) i))))
        (filter (tp_pending int_pending_shell) [1..<TRAP_LIMIT]), q) \<and>
    (\<forall>i. \<not> tp_pending q i))"
  using pending_signals_delivered [OF int_pending_run int_pending_shell_eq(1,2)] int_pending_shell_eq(3) by blast

definition reliable :: "descriptor \<Rightarrow> bool" where
  "reliable d \<longleftrightarrow> d_writes d = [] \<and> d_prints d = []"

lemma quote_bytes_reliable: "reliable d \<Longrightarrow> \<exists>d'. quote_bytes a d = (True, d') \<and> reliable d'"
  by (induction a arbitrary: d) (auto simp: reliable_def)

lemma print_trap_reliable: "reliable d \<Longrightarrow> \<exists>d'. print_trap a name d = (True, d') \<and> reliable d'"
proof -
  assume d: "reliable d"
  then have d1: "reliable (d\<lparr>d_bytes := d_bytes d @ ''trap -- '' @ [CHR 0x27]\<rparr>)" by (simp add: reliable_def)
  then obtain d2 where "quote_bytes a (d\<lparr>d_bytes := d_bytes d @ ''trap -- '' @ [CHR 0x27]\<rparr>) = (True, d2)" "reliable d2"
    using quote_bytes_reliable by blast
  with d show ?thesis by (simp add: print_trap_def quote_action_def reliable_def)
qed

lemma list_all_reliable:
  "reliable (tp_stdout p) \<Longrightarrow> \<exists>q. list_all_loop tr defaults is False p = (False, q)"
proof (induction "is" arbitrary: p)
  case (Cons i "is")
  have "\<exists>q. list_one tr i defaults p = (False, q) \<and> reliable (tp_stdout q)"
  proof (cases "listed_action tr i defaults")
    case (Some a)
    obtain d where "print_trap a (condition_name i) (tp_stdout p) = (True, d)" "reliable d"
      using print_trap_reliable [OF Cons.prems] by blast
    then show ?thesis by (simp add: list_one_def Some)
  qed (use Cons.prems in \<open>simp add: list_one_def\<close>)
  with Cons show ?case by (fastforce simp: listable_iff)
qed simp



end
