(* ===== verification/Spec2Isabelle.thy ===== *)
theory Spec2Isabelle
  imports Alias Input Invocation State_Machine Arithmetic_Correct Quote Expansion_Results Lexer_Results Traps_Facts
begin

text \<open>
  cshell is a POSIX shell written in C. This is the verification library of its modules, from the bytes of
  a script up to the fields that a command receives, with the state, the traps and the built-in tables.

  \<^bold>\<open>The program.\<close> \<open>main.c\<close> parses the command line (\<open>invocation.c\<close>), opens the command source (\<open>input.c\<close>) and
  feeds its lines to the tokenizer (\<open>lexer.c\<close>). The parser (\<open>parser.c\<close>) takes tokens, asks for alias
  substitution (\<open>alias.c\<close>) and opens child lexers for command substitutions; the lexer decides with the probes of
  \<open>arithmetic.c\<close> whether \<open>$((\<close> opens arithmetic. A word token carries its fragments (quotes, parameters,
  substitutions). The executor hands words to \<open>expand.c\<close>, which checks the fragments, expands them in the shell state
  (\<open>state.c\<close>) with \<open>arithmetic.c\<close> and \<open>quote.c\<close>, and passes spans to \<open>fields.c\<close>, which splits them, makes patterns and
  calls \<open>pathname.c\<close>. \<open>traps.c\<close> keeps the table of signal actions. \<open>character.c\<close> says where a character ends.

  \<^bold>\<open>Theories.\<close> Definitions keep the names of the source; where one clashes with a constant it has a prefix.

  \<^item> \<open>Prelude\<close>: C types, outcomes of \<open>malloc\<close> and of streams, keyed linked lists, the locales \<open>keyed_table\<close> and
    \<open>ordered_table\<close> that the tables of the shell interpret.
  \<^item> \<open>Options\<close> (\<open>options.h\<close>), \<open>Output\<close> (\<open>output.h\<close>): option bits and their inventory; the loop that writes a text.
  \<^item> \<open>Alias\<close> (\<open>alias.c\<close>): the table and its two handlers. Set and lookup agree, the table stays sorted and
    distinct, and the listing read back as shell words defines the same table.
  \<^item> \<open>Input\<close> (\<open>input.c\<close>): command strings, files and descriptors. Lines partition the input; failures are final.
  \<^item> \<open>Invocation\<close> (\<open>invocation.c\<close>): the command line is taken apart without loss; what is refused is refused first.
  \<^item> \<open>State\<close> (\<open>state.c\<close>): variables, functions, parameters, the path cache, clones and checkpoints.
    \<open>State_Facts\<close> has the laws of its operations, \<open>State_Props\<close> the refinement of the variables to a map, read-only
    protection and that a failed mutation changes nothing, \<open>State_Copies\<close> clones, checkpoints, selective saves and the
    environment, \<open>State_Machine\<close> the step relation of all operations with its invariant.
  \<^item> \<open>Character\<close>, \<open>Quote\<close> (\<open>character.c\<close>, \<open>quote.c\<close>): lengths of characters over any decoder; the decoder of
    dollar-single quotes, with bounds and the round trip.
  \<^item> \<open>Arithmetic\<close> (\<open>arithmetic.c\<close>): tokens, constants, operators and the precedence-climbing evaluator.
    \<open>Arithmetic_Facts\<close> shows termination, absence of undefined operations, pure probes and rollback; in
    \<open>Arithmetic_Semantics\<close> and \<open>Arithmetic_Correct\<close> the evaluator on the spelling of a tree is compared with the
    meaning of the tree.
  \<^item> \<open>Expansion\<close>, \<open>Pathname\<close>, \<open>Field_Splitting\<close>, \<open>Conversion\<close> (\<open>expand.h\<close>, \<open>pathname.c\<close>, \<open>fields.c\<close>): the types of tokens
    and spans; pathname expansion yields the matching paths; splitting is that of the POSIX description.
  \<^item> \<open>Word_Expansion\<close> (\<open>expand.c\<close>): the check of the fragments and all expansions. \<open>Expansion_Soundness\<close> and
    \<open>Expansion_Results\<close> show that it returns, that a failure restores the state, and that what it returns is what
    field splitting accepts.
  \<^item> \<open>Lexer\<close>, \<open>Lexer_Tokens\<close> (\<open>lexer.c\<close>): every operation of the tokenizer; its loop ends.
  \<^item> \<open>Traps\<close>, \<open>Traps_Facts\<close> (\<open>traps.c\<close>, names of signals in \<open>jobs.c\<close>): the table, the handlers in the kernel, the
    utility, fork and exec; an invariant of all reachable processes, delivery, and the listing read back.

  \<^bold>\<open>State and effects.\<close> A struct is a record, an enum a datatype, a linked list or array a list, a pointer compared
  with \<open>NULL\<close> an option. Operations take and return the state. What the host answers is explicit in the state: the
  outcomes of allocations, writes, reads, stack checks and interruptions are sequences, the file system and the
  decoder of the locale are functions with the documented laws as hypotheses. Access out of the bounds of an array is
  the value \<open>None\<close>, so that a theorem that an operation returns also says that it stays in bounds. Results and errors
  are values; every early return of the source is a branch. Sizes are those of LP64 (\<open>SIZE_MAX\<close> is written out where
  the source guards against overflow); signal numbers are those of Linux.

  \<^bold>\<open>Fuel and measures.\<close> The evaluator recurses on \<open>2 * length + 4\<close> units for a text, word expansion on one more than the
  number of fragments; that this is enough for every text and word is shown in \<open>Arithmetic_Facts\<close> and
  \<open>Expansion_Results\<close>. The loop of the lexer is a function with a measure: four times the bytes left,
  plus twice the open contexts, plus one outside a comment.

  \<^bold>\<open>Not modelled.\<close> The grammar (\<open>parser.c\<close>, \<open>ast.c\<close>) and the executor (\<open>execute.c\<close>, \<open>prepare.c\<close>, \<open>redirect.c\<close>, \<open>builtin.c\<close>,
  \<open>utility.c\<close>, \<open>jobs.c\<close> but for the names of signals), which start processes, move descriptors and control the
  terminal; \<open>stack.c\<close>, whose answer is a parameter where it is used; \<open>main.c\<close>, which wires the modules together; from
  \<open>input.c\<close> the hooks' setters and descriptor reservations; the tests, tools and documentation.
\<close>

end
